(* ===== verification/Ns_Prelude.thy ===== *)
theory Ns_Prelude
  imports Main "HOL-Library.Word" "HOL-Library.Multiset"
begin

text \<open>
  Shared vocabulary of the development: run-time faults and the result type used for every
  operation that can fail, the pointer type of heap objects the models only pass around, the
  collections of automation facts, and generic lemmas on lists and multisets.

  A function of the source that contains an \<open>NS_ASSERT\<close>, an \<open>NS_ABORT\<close> or a read that can be out of
  range returns a \<open>result\<close>: \<open>Inl\<close> of the fault or \<open>Inr\<close> of the value. The models follow the build
  in which \<open>NS_ASSERT\<close> is enabled.

  \<open>Endless_loop\<close> is the result of a loop over pointers that is followed for more steps than there are
  objects, so that it goes round in a cycle. \<open>Not_modelled\<close> marks the branches of the code that are left out where the
  rest of a function is modelled; no theorem speaks of a run that takes one.
\<close>

section \<open>Faults and results\<close>

datatype fault =
    Assert_failed
  | Undefined_behaviour
  | Aborted
  | Exception_thrown
  | Endless_loop
  | Not_modelled

type_synonym 'a result = "fault + 'a"

text \<open>Sequencing of statements that can fault, and the assertion macros.\<close>

definition res_bind :: "'a result \<Rightarrow> ('a \<Rightarrow> 'b result) \<Rightarrow> 'b result" where
  "res_bind r f = (case r of Inl e \<Rightarrow> Inl e | Inr x \<Rightarrow> f x)"

definition ns_assert :: "bool \<Rightarrow> 'a result \<Rightarrow> 'a result" where
  "ns_assert b k = (if b then k else Inl Assert_failed)"

definition ns_abort_if :: "bool \<Rightarrow> 'a result \<Rightarrow> 'a result" where
  "ns_abort_if b k = (if b then Inl Aborted else k)"

definition res_map :: "('a \<Rightarrow> 'b) \<Rightarrow> 'a result \<Rightarrow> 'b result" where
  "res_map f r = (case r of Inl e \<Rightarrow> Inl e | Inr x \<Rightarrow> Inr (f x))"

definition deref :: "'a option \<Rightarrow> ('a \<Rightarrow> 'b result) \<Rightarrow> 'b result" where
  "deref p k = (case p of None \<Rightarrow> Inl Undefined_behaviour | Some x \<Rightarrow> k x)"

named_theorems fault_simps \<open>evaluation of results\<close>

lemma res_bind_simps [simp, fault_simps]:
  "res_bind (Inl e) f = Inl e"
  "res_bind (Inr x) f = f x"
  by (simp_all add: res_bind_def)

lemma res_map_simps [simp, fault_simps]:
  "res_map g (Inl e) = Inl e"
  "res_map g (Inr x) = Inr (g x)"
  by (simp_all add: res_map_def)

lemma ns_assert_simps [simp, fault_simps]:
  "ns_assert True k = k"
  "ns_assert False k = Inl Assert_failed"
  by (simp_all add: ns_assert_def)

lemma ns_abort_if_simps [simp, fault_simps]:
  "ns_abort_if True k = Inl Aborted"
  "ns_abort_if False k = k"
  by (simp_all add: ns_abort_if_def)

lemma deref_simps [simp, fault_simps]:
  "deref None k = Inl Undefined_behaviour"
  "deref (Some x) k = k x"
  by (simp_all add: deref_def)

lemma res_bind_cong [fundef_cong]:
  "r = r' \<Longrightarrow> (\<And>x. r' = Inr x \<Longrightarrow> f x = g x) \<Longrightarrow> res_bind r f = res_bind r' g"
  by (cases r') auto

lemma res_bind_eq_Inr: "res_bind r f = Inr y \<longleftrightarrow> (\<exists>x. r = Inr x \<and> f x = Inr y)"
  by (cases r) auto

lemma res_map_eq_Inr: "res_map f r = Inr y \<longleftrightarrow> (\<exists>x. r = Inr x \<and> y = f x)"
  by (cases r) auto

lemma ns_assert_eq_Inr: "ns_assert b k = Inr y \<longleftrightarrow> b \<and> k = Inr y"
  by (cases b) auto

lemma ns_abort_if_eq_Inr: "ns_abort_if b k = Inr y \<longleftrightarrow> \<not> b \<and> k = Inr y"
  by (cases b) auto

lemma deref_eq_Inr: "deref p k = Inr y \<longleftrightarrow> (\<exists>x. p = Some x \<and> k x = Inr y)"
  by (cases p) auto

section \<open>Pointers\<close>

text \<open>
  A \<open>Ptr<T>\<close> asserts that it is not null when it is dereferenced (\<open>ptr.h\<close>), unlike a plain pointer.
\<close>

definition ptr_deref :: "'a option \<Rightarrow> ('a \<Rightarrow> 'b result) \<Rightarrow> 'b result" where
  "ptr_deref p k = (case p of None \<Rightarrow> Inl Assert_failed | Some x \<Rightarrow> k x)"

lemma ptr_deref_simps [simp, fault_simps]:
  "ptr_deref None k = Inl Assert_failed"
  "ptr_deref (Some x) k = k x"
  by (simp_all add: ptr_deref_def)

lemma ptr_deref_eq_Inr: "ptr_deref p k = Inr y \<longleftrightarrow> (\<exists>x. p = Some x \<and> k x = Inr y)"
  by (cases p) auto

lemmas result_elims = res_bind_eq_Inr res_map_eq_Inr ns_assert_eq_Inr ns_abort_if_eq_Inr
  deref_eq_Inr ptr_deref_eq_Inr

text \<open>
  An \<open>EventImpl*\<close> and a \<open>Ptr<EventImpl>\<close> are \<open>None\<close> for the null pointer and \<open>Some i\<close> for the
  object number \<open>i\<close> otherwise. Reference counts, which only decide when memory is given back, are
  not part of the models.
\<close>

type_synonym impl_ptr = "nat option"

text \<open>The contents of packets and buffers.\<close>

type_synonym bytes = "8 word list"

section \<open>Words\<close>

lemma unat8_less: "unat x < 256" for x :: "8 word"
  by (rule order_less_le_trans [OF unsigned_less]) simp

lemma unat_ucast_8_32: "unat (ucast x :: 32 word) = unat x" for x :: "8 word"
  using unat8_less [of x] by (simp add: unsigned_ucast_eq take_bit_nat_eq_self)

lemma unat_nat32: "n < 2 ^ 32 \<Longrightarrow> unat (of_nat n :: 32 word) = n"
  by (simp add: unsigned_of_nat take_bit_nat_eq_self)

lemma nat32_le: "n < 2 ^ 32 \<Longrightarrow> n \<le> unat x \<Longrightarrow> (of_nat n :: 32 word) \<le> x"
  by (simp add: word_le_nat_alt unat_nat32)

lemma nat32_mono: "k \<le> n \<Longrightarrow> n < 2 ^ 32 \<Longrightarrow> (of_nat k :: 32 word) \<le> of_nat n"
  by (simp add: word_le_nat_alt unat_nat32)

lemma unat_max64: "unat (- 1 :: 64 word) = 2 ^ 64 - 1"
  by (simp add: unsigned_minus_1_eq_mask mask_eq_exp_minus_1)

section \<open>Lists\<close>

lemma mset_update_swap:
  assumes "i < length xs" and "j < length xs"
  shows "mset (xs[i := xs ! j, j := xs ! i]) = mset xs"
  using assms by (simp add: mset_swap)

lemma mset_butlast: "xs \<noteq> [] \<Longrightarrow> mset (butlast xs) = mset xs - {#last xs#}"
  by (cases xs rule: rev_cases) auto

section \<open>Multisets whose elements differ in a key\<close>

definition distinct_on :: "('a \<Rightarrow> 'k) \<Rightarrow> 'a multiset \<Rightarrow> bool" where
  "distinct_on f M \<longleftrightarrow> (\<forall>r. size (filter_mset (\<lambda>x. f x = r) M) \<le> 1)"

lemma distinct_on_empty [simp]: "distinct_on f {#}"
  by (simp add: distinct_on_def)

lemma distinct_on_add:
  "distinct_on f (add_mset e M) \<longleftrightarrow> (\<forall>x \<in># M. f x \<noteq> f e) \<and> distinct_on f M"
proof
  assume l: "distinct_on f (add_mset e M)"
  then have "size (filter_mset (\<lambda>x. f x = f e) (add_mset e M)) \<le> 1"
    unfolding distinct_on_def by blast
  then have "filter_mset (\<lambda>x. f x = f e) M = {#}"
    by simp
  then have "\<forall>x \<in># M. f x \<noteq> f e"
    by (auto simp: filter_mset_eq_mempty_iff)
  moreover have "size (filter_mset (\<lambda>x. f x = r) M) \<le> 1" for r
  proof -
    have "size (filter_mset (\<lambda>x. f x = r) (add_mset e M)) \<le> 1"
      using l unfolding distinct_on_def by blast
    then show ?thesis
      by (cases "f e = r") (simp_all del: size_eq_0_iff_empty filter_mset_eq_mempty_iff)
  qed
  ultimately show "(\<forall>x \<in># M. f x \<noteq> f e) \<and> distinct_on f M"
    by (simp add: distinct_on_def)
next
  assume a: "(\<forall>x \<in># M. f x \<noteq> f e) \<and> distinct_on f M"
  then have z: "filter_mset (\<lambda>x. f x = f e) M = {#}"
    by auto
  have "size (filter_mset (\<lambda>x. f x = r) (add_mset e M)) \<le> 1" for r
    using a z by (cases "f e = r") (auto simp: distinct_on_def simp del: filter_mset_eq_mempty_iff)
  then show "distinct_on f (add_mset e M)"
    by (simp add: distinct_on_def)
qed

lemma distinct_on_diff: "distinct_on f M \<Longrightarrow> distinct_on f (M - N)"
proof -
  assume d: "distinct_on f M"
  have "size (filter_mset (\<lambda>x. f x = r) (M - N)) \<le> 1" for r
  proof -
    have "filter_mset (\<lambda>x. f x = r) (M - N) \<subseteq># filter_mset (\<lambda>x. f x = r) M"
      by (intro multiset_filter_mono diff_subset_eq_self)
    from size_mset_mono [OF this] show ?thesis
      using d unfolding distinct_on_def by (meson le_trans)
  qed
  then show ?thesis
    by (simp add: distinct_on_def)
qed

lemma distinct_on_inj:
  assumes "distinct_on f M" and "x \<in># M" and "y \<in># M" and "f x = f y"
  shows "x = y"
proof (rule ccontr)
  assume "x \<noteq> y"
  with assms(2,3) obtain N where "M = add_mset x (add_mset y N)"
    by (metis add_mset_remove_trivial_If insert_DiffM insert_noteq_member)
  with assms(1,4) show False
    by (simp add: distinct_on_add)
qed

end
