(* ===== verification/Ns_Event.thy ===== *)
theory Ns_Event
  imports Ns_Prelude
begin

text \<open>
  Events of the simulation kernel: \<open>Scheduler::EventKey\<close> and \<open>Scheduler::Event\<close> with their comparison
  operators (\<open>src/core/model/scheduler.h\<close>), \<open>EventId\<close> (\<open>event-id.h\<close>) and the cancellation flag of
  \<open>EventImpl\<close> (\<open>event-impl.cc\<close>). The order of the events is the order of their ranks, which is a
  linear order.
\<close>

section \<open>EventKey\<close>

record event_key =
  key_ts :: "64 word"
  key_uid :: "32 word"
  key_context :: "32 word"

definition key_eq :: "event_key \<Rightarrow> event_key \<Rightarrow> bool" where
  "key_eq a b \<longleftrightarrow> key_uid a = key_uid b"

definition key_neq :: "event_key \<Rightarrow> event_key \<Rightarrow> bool" where
  "key_neq a b \<longleftrightarrow> key_uid a \<noteq> key_uid b"

definition key_less :: "event_key \<Rightarrow> event_key \<Rightarrow> bool" where
  "key_less a b =
     (if key_ts a < key_ts b then True
      else if key_ts a = key_ts b \<and> key_uid a < key_uid b then True
      else False)"

definition key_greater :: "event_key \<Rightarrow> event_key \<Rightarrow> bool" where
  "key_greater a b =
     (if key_ts a > key_ts b then True
      else if key_ts a = key_ts b \<and> key_uid a > key_uid b then True
      else False)"

section \<open>Ranks\<close>

text \<open>
  The part of a key that \<open>operator<\<close> looks at. Keys are not linearly ordered by \<open>operator<\<close> (two
  keys that differ only in the context are not related), ranks are.
\<close>

datatype rank = Rank (rank_ts: "64 word") (rank_uid: "32 word")

instantiation rank :: linorder
begin

definition less_eq_rank :: "rank \<Rightarrow> rank \<Rightarrow> bool" where
  "r \<le> r' \<longleftrightarrow> rank_ts r < rank_ts r' \<or> rank_ts r = rank_ts r' \<and> rank_uid r \<le> rank_uid r'"

definition less_rank :: "rank \<Rightarrow> rank \<Rightarrow> bool" where
  "r < r' \<longleftrightarrow> rank_ts r < rank_ts r' \<or> rank_ts r = rank_ts r' \<and> rank_uid r < rank_uid r'"

instance
proof
  fix r s t :: rank
  show "r < s \<longleftrightarrow> r \<le> s \<and> \<not> s \<le> r"
    by (auto simp: less_eq_rank_def less_rank_def)
  show "r \<le> r"
    by (simp add: less_eq_rank_def)
  show "r \<le> s \<Longrightarrow> s \<le> t \<Longrightarrow> r \<le> t"
    by (auto simp: less_eq_rank_def)
  show "r \<le> s \<Longrightarrow> s \<le> r \<Longrightarrow> r = s"
    by (auto simp: less_eq_rank_def rank.expand)
  show "r \<le> s \<or> s \<le> r"
    by (auto simp: less_eq_rank_def)
qed

end

definition key_rank :: "event_key \<Rightarrow> rank" where
  "key_rank k = Rank (key_ts k) (key_uid k)"

lemma key_less_rank [simp]: "key_less a b \<longleftrightarrow> key_rank a < key_rank b"
  by (simp add: key_less_def key_rank_def less_rank_def)

lemma key_greater_rank [simp]: "key_greater a b \<longleftrightarrow> key_rank b < key_rank a"
  by (auto simp: key_greater_def key_rank_def less_rank_def)

section \<open>Event\<close>

record event =
  ev_impl :: impl_ptr
  ev_key :: event_key

abbreviation ev_ts :: "event \<Rightarrow> 64 word" where
  "ev_ts e \<equiv> key_ts (ev_key e)"

abbreviation ev_uid :: "event \<Rightarrow> 32 word" where
  "ev_uid e \<equiv> key_uid (ev_key e)"

abbreviation ev_context :: "event \<Rightarrow> 32 word" where
  "ev_context e \<equiv> key_context (ev_key e)"

abbreviation ev_rank :: "event \<Rightarrow> rank" where
  "ev_rank e \<equiv> key_rank (ev_key e)"

definition event_eq :: "event \<Rightarrow> event \<Rightarrow> bool" where
  "event_eq a b \<longleftrightarrow> key_eq (ev_key a) (ev_key b)"

definition event_neq :: "event \<Rightarrow> event \<Rightarrow> bool" where
  "event_neq a b \<longleftrightarrow> key_neq (ev_key a) (ev_key b)"

definition event_less :: "event \<Rightarrow> event \<Rightarrow> bool" where
  "event_less a b \<longleftrightarrow> key_less (ev_key a) (ev_key b)"

definition event_greater :: "event \<Rightarrow> event \<Rightarrow> bool" where
  "event_greater a b \<longleftrightarrow> key_greater (ev_key a) (ev_key b)"

lemma event_less_rank [simp]: "event_less a b \<longleftrightarrow> ev_rank a < ev_rank b"
  by (simp add: event_less_def)

lemma event_greater_rank [simp]: "event_greater a b \<longleftrightarrow> ev_rank b < ev_rank a"
  by (simp add: event_greater_def)

lemma rank_ts_mono: "ev_rank a \<le> ev_rank b \<Longrightarrow> ev_ts a \<le> ev_ts b"
  by (auto simp: key_rank_def less_eq_rank_def)

lemma rank_eq_iff: "ev_rank a = ev_rank b \<longleftrightarrow> ev_ts a = ev_ts b \<and> ev_uid a = ev_uid b"
  by (simp add: key_rank_def)

lemma rank_le_iff:
  "ev_rank a \<le> ev_rank b \<longleftrightarrow> ev_ts a < ev_ts b \<or> ev_ts a = ev_ts b \<and> ev_uid a \<le> ev_uid b"
  by (simp add: key_rank_def less_eq_rank_def)

lemma rank_less_iff:
  "ev_rank a < ev_rank b \<longleftrightarrow> ev_ts a < ev_ts b \<or> ev_ts a = ev_ts b \<and> ev_uid a < ev_uid b"
  by (simp add: key_rank_def less_rank_def)

section \<open>EventId\<close>

record event_id =
  id_impl :: impl_ptr
  id_ts :: "64 word"
  id_context :: "32 word"
  id_uid :: "32 word"

definition uid_INVALID :: "32 word" where "uid_INVALID = 0"

definition uid_DESTROY :: "32 word" where "uid_DESTROY = 2"

definition uid_VALID :: "32 word" where "uid_VALID = 4"

definition event_id_default :: event_id where
  "event_id_default = \<lparr>id_impl = None, id_ts = 0, id_context = 0, id_uid = 0\<rparr>"

definition event_id_eq :: "event_id \<Rightarrow> event_id \<Rightarrow> bool" where
  "event_id_eq a b \<longleftrightarrow>
     id_uid a = id_uid b \<and> id_context a = id_context b \<and> id_ts a = id_ts b \<and>
     id_impl a = id_impl b"

definition event_id_less :: "event_id \<Rightarrow> event_id \<Rightarrow> bool" where
  "event_id_less a b \<longleftrightarrow> id_ts a < id_ts b"

lemma event_id_eq_iff [simp]: "event_id_eq a b \<longleftrightarrow> a = b"
  by (cases a, cases b) (auto simp: event_id_eq_def)

section \<open>EventImpl\<close>

text \<open>
  The cancellation flags \<open>m_cancel\<close> of all \<open>EventImpl\<close> objects: a fresh object is not cancelled,
  \<open>Cancel\<close> sets the flag of one object, \<open>IsCancelled\<close> reads it.
\<close>

type_synonym cancel_flags = "nat \<Rightarrow> bool"

definition impl_cancel :: "nat \<Rightarrow> cancel_flags \<Rightarrow> cancel_flags" where
  "impl_cancel i m = m(i := True)"

definition impl_is_cancelled :: "cancel_flags \<Rightarrow> nat \<Rightarrow> bool" where
  "impl_is_cancelled m i = m i"

section \<open>An example event\<close>

definition sample_event :: "64 word \<Rightarrow> 32 word \<Rightarrow> event" where
  "sample_event ts uid =
     \<lparr>ev_impl = Some (unat uid), ev_key = \<lparr>key_ts = ts, key_uid = uid, key_context = 0\<rparr>\<rparr>"

lemma sample_event_sel [simp]:
  "ev_ts (sample_event ts uid) = ts" "ev_uid (sample_event ts uid) = uid"
  by (simp_all add: sample_event_def)

end
