(* ===== verification/Scheduler_Interface.thy ===== *)
theory Scheduler_Interface
  imports Ns_Event
begin

text \<open>
  The abstract class \<open>Scheduler\<close> (\<open>src/core/model/scheduler.h\<close>). Its virtual methods are a record of
  operations, the virtual function table, over the state of a concrete scheduler. What the class
  comment promises of every implementation is the locale \<open>event_queue\<close>, and with \<open>Remove\<close> the locale
  \<open>removable_event_queue\<close>. The concrete schedulers interpret them; what holds of any event list
  (here: the order in which it is drained) is proved once, inside the locales.
\<close>

section \<open>The virtual methods\<close>

record 'q scheduler_ops =
  op_create :: 'q
  op_insert :: "event \<Rightarrow> 'q \<Rightarrow> 'q result"
  op_is_empty :: "'q \<Rightarrow> bool"
  op_peek_next :: "'q \<Rightarrow> event result"
  op_remove_next :: "'q \<Rightarrow> (event \<times> 'q) result"
  op_remove :: "event \<Rightarrow> 'q \<Rightarrow> 'q result"

section \<open>Abstract event lists\<close>

definition fresh :: "event \<Rightarrow> event multiset \<Rightarrow> bool" where
  "fresh e M \<longleftrightarrow> ev_rank e \<notin> ev_rank ` set_mset M"

definition earliest :: "event \<Rightarrow> event multiset \<Rightarrow> bool" where
  "earliest e M \<longleftrightarrow> e \<in># M \<and> (\<forall>x \<in># M. ev_rank e \<le> ev_rank x)"

definition uid_unique :: "event \<Rightarrow> event multiset \<Rightarrow> bool" where
  "uid_unique e M \<longleftrightarrow> (\<forall>x \<in># M. ev_uid x = ev_uid e \<longrightarrow> x = e)"

abbreviation distinct_ranks :: "event multiset \<Rightarrow> bool" where
  "distinct_ranks \<equiv> distinct_on (\<lambda>e. ev_rank e)"

abbreviation distinct_uids :: "event multiset \<Rightarrow> bool" where
  "distinct_uids \<equiv> distinct_on (\<lambda>e. ev_uid e)"

definition sorted_events :: "event list \<Rightarrow> bool" where
  "sorted_events es \<longleftrightarrow> sorted (map ev_rank es)"

lemma sorted_events_simps [simp]:
  "sorted_events []"
  "sorted_events (e # es) \<longleftrightarrow> (\<forall>x \<in> set es. ev_rank e \<le> ev_rank x) \<and> sorted_events es"
  by (auto simp: sorted_events_def)

lemma sorted_events_append:
  "sorted_events (xs @ ys) \<longleftrightarrow>
     sorted_events xs \<and> sorted_events ys \<and> (\<forall>x \<in> set xs. \<forall>y \<in> set ys. ev_rank x \<le> ev_rank y)"
  by (induction xs) auto

lemma fresh_empty [simp]: "fresh e {#}"
  by (simp add: fresh_def)

lemma fresh_add [simp]: "fresh e (add_mset x M) \<longleftrightarrow> ev_rank e \<noteq> ev_rank x \<and> fresh e M"
  by (auto simp: fresh_def)

lemma freshD: "fresh e M \<Longrightarrow> x \<in># M \<Longrightarrow> ev_rank x \<noteq> ev_rank e"
  unfolding fresh_def by (metis image_eqI)

lemma earliest_in: "earliest e M \<Longrightarrow> e \<in># M"
  by (simp add: earliest_def)

lemma earliest_le: "earliest e M \<Longrightarrow> x \<in># M \<Longrightarrow> ev_rank e \<le> ev_rank x"
  by (simp add: earliest_def)

lemma fresh_alt: "fresh e M \<longleftrightarrow> (\<forall>x \<in># M. ev_rank x \<noteq> ev_rank e)"
  unfolding fresh_def by (metis image_iff)

lemma distinct_ranks_add:
  "distinct_ranks (add_mset e M) \<longleftrightarrow> fresh e M \<and> distinct_ranks M"
  by (simp add: distinct_on_add fresh_alt)

text \<open>Distinct uids, which the simulator hands out, make the ranks distinct.\<close>

lemma distinct_uids_ranks: "distinct_uids M \<Longrightarrow> distinct_ranks M"
  by (induction M) (auto simp: distinct_on_add rank_eq_iff)

lemma distinct_uids_unique: "distinct_uids M \<Longrightarrow> e \<in># M \<Longrightarrow> uid_unique e M"
  unfolding uid_unique_def by (meson distinct_on_inj)

lemma earliest_exists:
  assumes "M \<noteq> {#}"
  shows "\<exists>e. earliest e M"
proof -
  have "Min ((\<lambda>e. ev_rank e) ` set_mset M) \<in> (\<lambda>e. ev_rank e) ` set_mset M"
    using assms by (intro Min_in) auto
  then obtain e where "e \<in># M" "ev_rank e = Min ((\<lambda>e. ev_rank e) ` set_mset M)"
    by auto
  then have "earliest e M"
    by (simp add: earliest_def)
  then show ?thesis ..
qed

text \<open>With distinct ranks the earliest event of a multiset is unique.\<close>

lemma earliest_unique:
  assumes "distinct_ranks M" and "earliest x M" and "earliest y M"
  shows "x = y"
  using assms by (meson antisym distinct_on_inj earliest_in earliest_le)

section \<open>The interface\<close>

text \<open>
  \<open>invar\<close> is the representation invariant, \<open>events\<close> the stored events, \<open>low\<close> a time stamp below which
  nothing may be inserted any more (the simulator never schedules into the past; only the
  calendar queue relies on it) and \<open>horizon\<close> the latest time stamp the implementation supports. The
  number of events must fit in the \<open>uint32_t\<close> with which the calendar queue counts them.
\<close>

locale event_queue =
  fixes ops :: "'q scheduler_ops"
    and invar :: "'q \<Rightarrow> bool"
    and events :: "'q \<Rightarrow> event multiset"
    and low :: "'q \<Rightarrow> 64 word"
    and horizon :: "64 word"
  assumes create: "invar (op_create ops) \<and> events (op_create ops) = {#} \<and> low (op_create ops) = 0"
    and insert: "invar q \<Longrightarrow> fresh e (events q) \<Longrightarrow> low q \<le> ev_ts e \<Longrightarrow> ev_ts e \<le> horizon \<Longrightarrow>
      Suc (size (events q)) < 2 ^ 32 \<Longrightarrow>
      \<exists>q'. op_insert ops e q = Inr q' \<and> invar q' \<and> events q' = add_mset e (events q) \<and>
        low q' = low q"
    and is_empty: "invar q \<Longrightarrow> op_is_empty ops q \<longleftrightarrow> events q = {#}"
    and remove_next: "invar q \<Longrightarrow> events q \<noteq> {#} \<Longrightarrow>
      \<exists>e q'. op_peek_next ops q = Inr e \<and> op_remove_next ops q = Inr (e, q') \<and>
        earliest e (events q) \<and> invar q' \<and> events q' = events q - {#e#} \<and> low q' \<le> ev_ts e"

locale removable_event_queue = event_queue +
  assumes remove: "invar q \<Longrightarrow> e \<in># events q \<Longrightarrow> uid_unique e (events q) \<Longrightarrow>
      \<exists>q'. op_remove ops e q = Inr q' \<and> invar q' \<and> events q' = events q - {#e#} \<and> low q' = low q"

section \<open>The abstract event list\<close>

text \<open>
  The specification as a scheduler of its own: the state is the multiset of events, \<open>RemoveNext\<close>
  takes the earliest one.
\<close>

definition spec_next :: "event multiset \<Rightarrow> event" where
  "spec_next M = (THE e. earliest e M)"

definition spec_ops :: "event multiset scheduler_ops" where
  "spec_ops =
     \<lparr>op_create = {#},
      op_insert = (\<lambda>e M. Inr (add_mset e M)),
      op_is_empty = (\<lambda>M. M = {#}),
      op_peek_next = (\<lambda>M. ns_assert (M \<noteq> {#}) (Inr (spec_next M))),
      op_remove_next = (\<lambda>M. ns_assert (M \<noteq> {#}) (Inr (spec_next M, M - {#spec_next M#}))),
      op_remove = (\<lambda>e M. ns_assert (e \<in># M) (Inr (M - {#e#})))\<rparr>"

lemma spec_next_eq: "distinct_ranks M \<Longrightarrow> earliest e M \<Longrightarrow> spec_next M = e"
  unfolding spec_next_def by (rule the_equality) (auto dest: earliest_unique)

lemma spec_next_earliest: "distinct_ranks M \<Longrightarrow> M \<noteq> {#} \<Longrightarrow> earliest (spec_next M) M"
  using earliest_exists spec_next_eq by metis

interpretation spec_queue: removable_event_queue spec_ops "\<lambda>M. distinct_ranks M" "\<lambda>M. M"
  "\<lambda>_. 0" "- 1"
  by unfold_locales
    (auto simp: spec_ops_def distinct_ranks_add distinct_on_diff spec_next_earliest)

section \<open>Draining\<close>

text \<open>
  The loop \<open>while (!IsEmpty()) RemoveNext()\<close> of \<open>DefaultSimulatorImpl::DoDispose\<close> and of
  \<open>SetScheduler\<close>, which delivers the events one by one. \<open>None\<close> is a loop that does not end.
\<close>

partial_function (option) drain :: "'q scheduler_ops \<Rightarrow> 'q \<Rightarrow> event list \<Rightarrow> (event list result) option" where
  "drain ops q acc =
     (if op_is_empty ops q then Some (Inr (rev acc))
      else (case op_remove_next ops q of
              Inl f \<Rightarrow> Some (Inl f)
            | Inr p \<Rightarrow> drain ops (snd p) (fst p # acc)))"

context event_queue
begin

lemma remove_nextE:
  assumes "invar q" and "events q \<noteq> {#}"
  obtains e q' where "op_peek_next ops q = Inr e" and "op_remove_next ops q = Inr (e, q')"
    and "earliest e (events q)" and "invar q'" and "events q = add_mset e (events q')"
    and "low q' \<le> ev_ts e"
  using remove_next [OF assms] by (metis earliest_in insert_DiffM)

lemma drain_acc:
  assumes "invar q"
  shows "\<exists>es. drain ops q acc = Some (Inr (rev acc @ es)) \<and> mset es = events q \<and> sorted_events es"
  using assms
proof (induction "size (events q)" arbitrary: q acc)
  case 0
  then show ?case
    by (simp add: drain.simps is_empty)
next
  case (Suc n)
  from Suc.hyps(2) have "events q \<noteq> {#}"
    by auto
  with Suc.prems obtain e q' where rn: "op_remove_next ops q = Inr (e, q')"
    and e: "earliest e (events q)" and q': "invar q'" "events q = add_mset e (events q')"
    by (rule remove_nextE)
  from Suc.hyps(2) q'(2) have "n = size (events q')"
    by simp
  from Suc.hyps(1) [OF this q'(1)] obtain es where
    es: "drain ops q' (e # acc) = Some (Inr (rev (e # acc) @ es))" "mset es = events q'"
      "sorted_events es"
    by blast
  have "drain ops q acc = Some (Inr (rev acc @ e # es))"
    using rn es(1) \<open>events q \<noteq> {#}\<close> Suc.prems by (subst drain.simps) (simp add: is_empty)
  moreover have "sorted_events (e # es)"
    using e es(3) q'(2) mset_eq_setD [of es] set_mset_mset [of es] es(2)
    by (simp add: earliest_def)
  ultimately show ?case
    using es(2) q'(2) by (intro exI [of _ "e # es"]) simp
qed

lemma drain_sorted:
  assumes "invar q"
  shows "\<exists>es. drain ops q [] = Some (Inr es) \<and> mset es = events q \<and> sorted_events es"
  using drain_acc [OF assms, of "[]"] by simp

end

end
