(* ===== verification/Std_Map.thy ===== *)
theory Std_Map
  imports Ns_Prelude
begin

text \<open>
  \<open>std::map\<close> with a comparison \<open>lt\<close>, as the list of its pairs in iteration order: \<open>insert\<close>, \<open>find\<close>,
  \<open>erase\<close> by key and assignment through \<open>operator[]\<close>. Two keys are equivalent when neither is less.
  The laws hold where \<open>lt\<close> is the order of a rank function on the keys in use, which is what the
  locale \<open>ordered_keys\<close> asks for; sequence numbers are ordered this way only inside a window.
\<close>

section \<open>Operations\<close>

fun smap_insert :: "('k \<Rightarrow> 'k \<Rightarrow> bool) \<Rightarrow> 'k \<Rightarrow> 'v \<Rightarrow> ('k \<times> 'v) list \<Rightarrow> ('k \<times> 'v) list \<times> bool" where
  "smap_insert lt k v [] = ([(k, v)], True)"
| "smap_insert lt k v ((k', v') # m) =
     (if lt k k' then ((k, v) # (k', v') # m, True)
      else if lt k' k then (case smap_insert lt k v m of (m', b) \<Rightarrow> ((k', v') # m', b))
      else ((k', v') # m, False))"

fun smap_find :: "('k \<Rightarrow> 'k \<Rightarrow> bool) \<Rightarrow> 'k \<Rightarrow> ('k \<times> 'v) list \<Rightarrow> ('k \<times> 'v) option" where
  "smap_find lt k [] = None"
| "smap_find lt k ((k', v') # m) =
     (if \<not> lt k k' \<and> \<not> lt k' k then Some (k', v') else smap_find lt k m)"

fun smap_erase :: "('k \<Rightarrow> 'k \<Rightarrow> bool) \<Rightarrow> 'k \<Rightarrow> ('k \<times> 'v) list \<Rightarrow> ('k \<times> 'v) list" where
  "smap_erase lt k [] = []"
| "smap_erase lt k ((k', v') # m) =
     (if \<not> lt k k' \<and> \<not> lt k' k then m else (k', v') # smap_erase lt k m)"

fun smap_assign :: "('k \<Rightarrow> 'k \<Rightarrow> bool) \<Rightarrow> 'k \<Rightarrow> 'v \<Rightarrow> ('k \<times> 'v) list \<Rightarrow> ('k \<times> 'v) list" where
  "smap_assign lt k v [] = [(k, v)]"
| "smap_assign lt k v ((k', v') # m) =
     (if lt k k' then (k, v) # (k', v') # m
      else if lt k' k then (k', v') # smap_assign lt k v m
      else (k', v) # m)"

section \<open>Laws\<close>

locale ordered_keys =
  fixes lt :: "'k \<Rightarrow> 'k \<Rightarrow> bool"
    and rk :: "'k \<Rightarrow> 'r::linorder"
    and K :: "'k set"
  assumes lt_rk: "a \<in> K \<Longrightarrow> b \<in> K \<Longrightarrow> lt a b \<longleftrightarrow> rk a < rk b"
begin

definition sorted_map :: "('k \<times> 'v) list \<Rightarrow> bool" where
  "sorted_map m \<longleftrightarrow> set (map fst m) \<subseteq> K \<and> sorted_wrt (<) (map (rk \<circ> fst) m)"

lemma sorted_map_Nil [simp]: "sorted_map []"
  by (simp add: sorted_map_def)

lemma sorted_map_Cons [simp]:
  "sorted_map (p # m) \<longleftrightarrow> fst p \<in> K \<and> (\<forall>q \<in> set m. rk (fst p) < rk (fst q)) \<and> sorted_map m"
  by (auto simp: sorted_map_def)

lemma sorted_map_keys: "sorted_map m \<Longrightarrow> p \<in> set m \<Longrightarrow> fst p \<in> K"
  by (auto simp: sorted_map_def)

lemma insert_new:
  assumes "sorted_map m" and "k \<in> K" and "rk k \<notin> rk ` fst ` set m"
  shows "\<exists>m'. smap_insert lt k v m = (m', True) \<and> mset m' = add_mset (k, v) (mset m) \<and> sorted_map m'"
  using assms
proof (induction m)
  case (Cons p m)
  obtain k' v' where p: "p = (k', v')" by (cases p)
  show ?case
  proof (cases "lt k k'")
    case True
    with Cons.prems p show ?thesis
      using lt_rk [of k k'] by auto
  next
    case False
    with Cons.prems p have lt: "lt k' k" "rk k' < rk k"
      using lt_rk [of k k'] lt_rk [of k' k] by auto
    from Cons obtain m' where m': "smap_insert lt k v m = (m', True)"
      "mset m' = add_mset (k, v) (mset m)" "sorted_map m'"
      by auto
    then have "set m' = insert (k, v) (set m)"
      by (metis set_mset_add_mset_insert set_mset_mset)
    with False lt m' Cons.prems(1) p show ?thesis
      by auto
  qed
qed simp

lemma insert_old:
  assumes "sorted_map m" and "k \<in> K" and "rk k \<in> rk ` fst ` set m"
  shows "smap_insert lt k v m = (m, False)"
  using assms
proof (induction m)
  case (Cons p m)
  obtain k' v' where p: "p = (k', v')" by (cases p)
  show ?case
  proof (cases "rk k = rk k'")
    case True
    with Cons.prems p show ?thesis
      using lt_rk [of k k'] lt_rk [of k' k] by auto
  next
    case False
    with Cons.prems p have "rk k \<in> rk ` fst ` set m" by auto
    moreover from this Cons.prems p have "rk k' < rk k" by auto
    ultimately show ?thesis
      using Cons p lt_rk [of k k'] lt_rk [of k' k] by auto
  qed
qed simp

lemma erase_in:
  assumes "sorted_map m" and "(k, v) \<in> set m"
  shows "mset m = add_mset (k, v) (mset (smap_erase lt k m)) \<and> sorted_map (smap_erase lt k m) \<and>
    smap_find lt k m = Some (k, v)"
  using assms
proof (induction m)
  case (Cons p m)
  obtain k' v' where p: "p = (k', v')" by (cases p)
  have kK: "k \<in> K" "k' \<in> K"
    using sorted_map_keys [OF Cons.prems] Cons.prems(1) p by auto
  show ?case
  proof (cases "p = (k, v)")
    case True
    with Cons.prems p kK show ?thesis
      using lt_rk [of k k] by auto
  next
    case False
    with Cons.prems p have kv: "(k, v) \<in> set m" "rk k' < rk k"
      by auto
    with Cons have IH: "mset m = add_mset (k, v) (mset (smap_erase lt k m))"
      "sorted_map (smap_erase lt k m)" "smap_find lt k m = Some (k, v)"
      by auto
    then have "set (smap_erase lt k m) \<subseteq> set m"
      by (metis set_mset_add_mset_insert set_mset_mset subset_insertI)
    with IH kv Cons.prems(1) p kK lt_rk [of k k'] lt_rk [of k' k] show ?thesis
      by auto
  qed
qed simp

lemma find_none:
  assumes "sorted_map m" and "k \<in> K"
  shows "smap_find lt k m = None \<longleftrightarrow> rk k \<notin> rk ` fst ` set m"
  using assms
proof (induction m)
  case (Cons p m)
  obtain k' v' where p: "p = (k', v')" by (cases p)
  with Cons show ?case
    using lt_rk [of k k'] lt_rk [of k' k] by auto
qed simp

lemma assign_new:
  assumes "sorted_map m" and "k \<in> K" and "rk k \<notin> rk ` fst ` set m"
  shows "mset (smap_assign lt k v m) = add_mset (k, v) (mset m) \<and> sorted_map (smap_assign lt k v m)"
proof -
  have "smap_insert lt k v m = (smap_assign lt k v m, True)"
    using assms
  proof (induction m)
    case (Cons p m)
    obtain k' v' where p: "p = (k', v')" by (cases p)
    with Cons show ?case
      using lt_rk [of k k'] lt_rk [of k' k] by auto
  qed simp
  with insert_new [OF assms, of v] show ?thesis
    by simp
qed

end

end
