(* ===== verification/Map_Scheduler.thy ===== *)
theory Map_Scheduler
  imports Scheduler_Interface Std_Map
begin

text \<open>
  \<open>MapScheduler\<close> (\<open>src/core/model/map-scheduler.cc\<close>): a \<open>std::map\<close> from event keys to event
  implementations, ordered by \<open>operator<\<close> on keys.
\<close>

section \<open>Operations\<close>

type_synonym map_scheduler = "(event_key \<times> impl_ptr) list"

definition map_insert :: "event \<Rightarrow> map_scheduler \<Rightarrow> map_scheduler result" where
  "map_insert ev m =
     (case smap_insert key_less (ev_key ev) (ev_impl ev) m of
        (m', inserted) \<Rightarrow> ns_assert inserted (Inr m'))"

definition map_is_empty :: "map_scheduler \<Rightarrow> bool" where
  "map_is_empty m = (m = [])"

definition map_peek_next :: "map_scheduler \<Rightarrow> event result" where
  "map_peek_next m =
     (case m of [] \<Rightarrow> Inl Assert_failed | i # _ \<Rightarrow> Inr \<lparr>ev_impl = snd i, ev_key = fst i\<rparr>)"

definition map_remove_next :: "map_scheduler \<Rightarrow> (event \<times> map_scheduler) result" where
  "map_remove_next m =
     (case m of
        [] \<Rightarrow> Inl Assert_failed
      | i # m' \<Rightarrow> Inr (\<lparr>ev_impl = snd i, ev_key = fst i\<rparr>, m'))"

definition map_remove :: "event \<Rightarrow> map_scheduler \<Rightarrow> map_scheduler result" where
  "map_remove ev m =
     deref (smap_find key_less (ev_key ev) m)
       (\<lambda>i. ns_assert (snd i = ev_impl ev) (Inr (smap_erase key_less (ev_key ev) m)))"

definition map_ops :: "map_scheduler scheduler_ops" where
  "map_ops =
     \<lparr>op_create = [],
      op_insert = map_insert,
      op_is_empty = map_is_empty,
      op_peek_next = map_peek_next,
      op_remove_next = map_remove_next,
      op_remove = map_remove\<rparr>"

section \<open>Correctness\<close>

definition event_of :: "event_key \<times> impl_ptr \<Rightarrow> event" where
  "event_of p = \<lparr>ev_impl = snd p, ev_key = fst p\<rparr>"

definition map_events :: "map_scheduler \<Rightarrow> event multiset" where
  "map_events m = image_mset event_of (mset m)"

interpretation event_map: ordered_keys key_less key_rank UNIV
  by unfold_locales simp

abbreviation map_inv :: "map_scheduler \<Rightarrow> bool" where
  "map_inv \<equiv> event_map.sorted_map"

lemma event_of_simps [simp]:
  "ev_key (event_of p) = fst p"
  "ev_impl (event_of p) = snd p"
  "event_of (ev_key e, ev_impl e) = e"
  by (simp_all add: event_of_def)

lemma event_of_inj: "event_of p = e \<longleftrightarrow> p = (ev_key e, ev_impl e)"
  by (cases p) (auto simp: event_of_def)

lemma in_map_events: "e \<in># map_events m \<longleftrightarrow> (ev_key e, ev_impl e) \<in> set m"
  by (auto simp: map_events_def event_of_inj intro: rev_image_eqI)

lemma map_insert_correct:
  assumes "map_inv m" and "fresh e (map_events m)"
  shows "\<exists>m'. map_insert e m = Inr m' \<and> map_inv m' \<and> map_events m' = add_mset e (map_events m)"
proof -
  have "key_rank (ev_key e) \<notin> key_rank ` fst ` set m"
    using assms(2) by (auto simp: fresh_def map_events_def image_iff)
  from event_map.insert_new [OF assms(1) UNIV_I this, of "ev_impl e"] show ?thesis
    by (auto simp: map_insert_def map_events_def)
qed

lemma map_insert_duplicate:
  assumes "map_inv m" and "\<not> fresh e (map_events m)"
  shows "map_insert e m = Inl Assert_failed"
proof -
  have "key_rank (ev_key e) \<in> key_rank ` fst ` set m"
    using assms(2) by (force simp: fresh_def map_events_def image_iff)
  from event_map.insert_old [OF assms(1) UNIV_I this] show ?thesis
    by (simp add: map_insert_def)
qed

lemma map_remove_correct:
  assumes "map_inv m" and "e \<in># map_events m"
  shows "\<exists>m'. map_remove e m = Inr m' \<and> map_inv m' \<and> map_events m = add_mset e (map_events m')"
  using event_map.erase_in [OF assms(1), of "ev_key e" "ev_impl e"] assms(2)
  by (auto simp: in_map_events map_remove_def map_events_def)

interpretation map_queue: removable_event_queue map_ops map_inv map_events "\<lambda>_. 0" "- 1"
proof (unfold_locales, goal_cases)
  case 1
  show ?case by (simp add: map_ops_def map_events_def)
next
  case (2 q e)
  then show ?case
    using map_insert_correct by (simp add: map_ops_def)
next
  case (3 q)
  show ?case by (simp add: map_ops_def map_is_empty_def map_events_def)
next
  case (4 q)
  then obtain p m where "q = p # m"
    by (cases q) (auto simp: map_events_def)
  with 4 show ?case
    by (auto simp: map_ops_def map_peek_next_def map_remove_next_def earliest_def map_events_def
        intro: less_imp_le simp flip: event_of_def)
next
  case (5 q e)
  then show ?case
    using map_remove_correct [of q e] by (auto simp: map_ops_def)
qed

section \<open>Properties\<close>

text \<open>Inserting a second event with the time stamp and the uid of a stored one fails the assertion
  \<open>result.second\<close> of \<open>MapScheduler::Insert\<close>; every other event is stored and keeps the map sorted.\<close>

theorem map_insert_iff_fresh:
  assumes "map_inv m"
  shows "map_insert e m =
      (if fresh e (map_events m) then Inr (fst (smap_insert key_less (ev_key e) (ev_impl e) m))
       else Inl Assert_failed) \<and>
    (fresh e (map_events m) \<longrightarrow>
       (\<exists>m'. map_insert e m = Inr m' \<and> map_inv m' \<and> map_events m' = add_mset e (map_events m)))"
proof (cases "fresh e (map_events m)")
  case True
  from map_insert_correct [OF assms True] obtain m' where
    m': "map_insert e m = Inr m'" "map_inv m'" "map_events m' = add_mset e (map_events m)"
    by blast
  then have "m' = fst (smap_insert key_less (ev_key e) (ev_impl e) m)"
    by (auto simp: map_insert_def ns_assert_def split: if_splits prod.splits)
  with True m' show ?thesis by auto
next
  case False
  with map_insert_duplicate [OF assms] show ?thesis by simp
qed

theorem map_insert_iff_fresh_witness:
  "map_insert (sample_event 3 9) [(ev_key (sample_event 3 9), None)] = Inl Assert_failed"
  using map_insert_iff_fresh [of "[(ev_key (sample_event 3 9), None)]" "sample_event 3 9"]
  by (simp add: event_map.sorted_map_def map_events_def event_of_def)

end
