(* ===== verification/List_Scheduler.thy ===== *)
theory List_Scheduler
  imports Scheduler_Interface
begin

text \<open>
  \<open>ListScheduler\<close> (\<open>src/core/model/list-scheduler.cc\<close>): the events in a \<open>std::list\<close> kept in the order of
  their keys. The model is the reference implementation of the event list: the simulator is
  shown to behave with any other scheduler as it does with this one.
\<close>

section \<open>Operations\<close>

type_synonym list_scheduler = "event list"

fun list_insert :: "event \<Rightarrow> list_scheduler \<Rightarrow> list_scheduler" where
  "list_insert ev [] = [ev]"
| "list_insert ev (i # is) =
     (if key_less (ev_key ev) (ev_key i) then ev # i # is else i # list_insert ev is)"

definition list_is_empty :: "list_scheduler \<Rightarrow> bool" where
  "list_is_empty q = (q = [])"

definition list_peek_next :: "list_scheduler \<Rightarrow> event result" where
  "list_peek_next q = (case q of [] \<Rightarrow> Inl Undefined_behaviour | e # _ \<Rightarrow> Inr e)"

definition list_remove_next :: "list_scheduler \<Rightarrow> (event \<times> list_scheduler) result" where
  "list_remove_next q = (case q of [] \<Rightarrow> Inl Undefined_behaviour | e # es \<Rightarrow> Inr (e, es))"

fun list_remove :: "event \<Rightarrow> list_scheduler \<Rightarrow> list_scheduler result" where
  "list_remove ev [] = Inl Assert_failed"
| "list_remove ev (i # is) =
     (if ev_uid i = ev_uid ev then ns_assert (ev_impl ev = ev_impl i) (Inr is)
      else res_map (\<lambda>is'. i # is') (list_remove ev is))"

definition list_ops :: "list_scheduler scheduler_ops" where
  "list_ops =
     \<lparr>op_create = [],
      op_insert = (\<lambda>ev q. Inr (list_insert ev q)),
      op_is_empty = list_is_empty,
      op_peek_next = list_peek_next,
      op_remove_next = list_remove_next,
      op_remove = list_remove\<rparr>"

section \<open>Correctness\<close>

lemma mset_list_insert [simp]: "mset (list_insert ev q) = add_mset ev (mset q)"
  by (induction q) auto

lemma set_list_insert [simp]: "set (list_insert ev q) = insert ev (set q)"
  by (induction q) auto

lemma sorted_list_insert: "sorted_events q \<Longrightarrow> sorted_events (list_insert ev q)"
  by (induction q) auto

text \<open>An event is put behind all events of the same rank: insertion is first in, first out.\<close>

lemma list_insert_split:
  "list_insert ev q =
     takeWhile (\<lambda>i. ev_rank i \<le> ev_rank ev) q @ ev # dropWhile (\<lambda>i. ev_rank i \<le> ev_rank ev) q"
  by (induction q) auto

lemma list_remove_correct:
  assumes "e \<in> set q" and "\<forall>x \<in> set q. ev_uid x = ev_uid e \<longrightarrow> x = e"
  shows "\<exists>q'. list_remove e q = Inr q' \<and> mset q = add_mset e (mset q') \<and>
           (sorted_events q \<longrightarrow> sorted_events q')"
  using assms
proof (induction q)
  case (Cons i "is")
  show ?case
  proof (cases "ev_uid i = ev_uid e")
    case True
    with Cons.prems have "i = e" by simp
    with True show ?thesis by simp
  next
    case False
    with Cons.prems obtain is' where is': "list_remove e is = Inr is'"
      "mset is = add_mset e (mset is')" "sorted_events is \<longrightarrow> sorted_events is'"
      using Cons.IH by auto
    then have "set is' \<subseteq> set is"
      by (metis set_mset_add_mset_insert set_mset_mset subset_insertI)
    with False is' show ?thesis by auto
  qed
qed simp

text \<open>A failed removal leaves no trace: the event is not in the list, and the assertion fires.\<close>

lemma list_remove_absent:
  "ev_uid e \<notin> ev_uid ` set q \<Longrightarrow> list_remove e q = Inl Assert_failed"
  by (induction q) auto

interpretation list_queue: removable_event_queue list_ops sorted_events mset "\<lambda>_. 0" "- 1"
proof (unfold_locales, goal_cases)
  case 1
  show ?case by (simp add: list_ops_def)
next
  case (2 q e)
  then show ?case by (simp add: list_ops_def sorted_list_insert)
next
  case (3 q)
  show ?case by (simp add: list_ops_def list_is_empty_def)
next
  case (4 q)
  then obtain e es where "q = e # es"
    by (cases q) auto
  with 4 show ?case
    by (auto simp: list_ops_def list_peek_next_def list_remove_next_def earliest_def)
next
  case (5 q e)
  then obtain q' where "list_remove e q = Inr q'" "mset q = add_mset e (mset q')" "sorted_events q'"
    using list_remove_correct [of e q] by (auto simp: uid_unique_def)
  then show ?case
    by (simp add: list_ops_def)
qed

section \<open>Properties\<close>

text \<open>\<open>ListScheduler::Insert\<close> is stable: the new event is put behind all events that are not later
  than it and in front of all others, whose order stays as it is.\<close>

theorem list_insert_stable:
  "list_insert ev q =
     takeWhile (\<lambda>i. ev_rank i \<le> ev_rank ev) q @ ev # dropWhile (\<lambda>i. ev_rank i \<le> ev_rank ev) q \<and>
   (sorted_events q \<longleftrightarrow> sorted_events (list_insert ev q) \<and> sorted_events q)"
  using sorted_list_insert by (auto simp: list_insert_split [symmetric])

end
