(* ===== verification/Priority_Queue_Scheduler.thy ===== *)
theory Priority_Queue_Scheduler
  imports List_Scheduler
begin

text \<open>
  \<open>PriorityQueueScheduler\<close> (\<open>src/core/model/priority-queue-scheduler.cc\<close>): a \<open>std::priority_queue\<close> with
  \<open>std::greater\<close>, extended by \<open>remove\<close>, which erases an event from the container and rebuilds the
  heap. The library leaves open which of the possible heap layouts its operations produce. The
  model keeps the container sorted, which is one of them: a sorted array is a heap, and
  \<open>std::make_heap\<close> is the sorting of the container.
\<close>

section \<open>Operations\<close>

type_synonym pq_scheduler = "event list"

definition std_make_heap :: "event list \<Rightarrow> event list" where
  "std_make_heap c = foldr list_insert c []"

definition pq_insert :: "event \<Rightarrow> pq_scheduler \<Rightarrow> pq_scheduler result" where
  "pq_insert ev c = Inr (list_insert ev c)"

definition pq_is_empty :: "pq_scheduler \<Rightarrow> bool" where
  "pq_is_empty c = (c = [])"

definition pq_peek_next :: "pq_scheduler \<Rightarrow> event result" where
  "pq_peek_next c = (case c of [] \<Rightarrow> Inl Undefined_behaviour | e # _ \<Rightarrow> Inr e)"

definition pq_remove_next :: "pq_scheduler \<Rightarrow> (event \<times> pq_scheduler) result" where
  "pq_remove_next c = (case c of [] \<Rightarrow> Inl Undefined_behaviour | e # c' \<Rightarrow> Inr (e, c'))"

text \<open>\<open>EventPriorityQueue::remove\<close>: \<open>std::find\<close> compares events, that is, their identifiers.\<close>

definition pq_queue_remove :: "event \<Rightarrow> pq_scheduler \<Rightarrow> bool \<times> pq_scheduler" where
  "pq_queue_remove ev c =
     (case dropWhile (\<lambda>x. \<not> event_eq x ev) c of
        [] \<Rightarrow> (False, c)
      | _ # rest \<Rightarrow> (True, std_make_heap (takeWhile (\<lambda>x. \<not> event_eq x ev) c @ rest)))"

definition pq_remove :: "event \<Rightarrow> pq_scheduler \<Rightarrow> pq_scheduler result" where
  "pq_remove ev c = Inr (snd (pq_queue_remove ev c))"

definition pq_ops :: "pq_scheduler scheduler_ops" where
  "pq_ops =
     \<lparr>op_create = [],
      op_insert = pq_insert,
      op_is_empty = pq_is_empty,
      op_peek_next = pq_peek_next,
      op_remove_next = pq_remove_next,
      op_remove = pq_remove\<rparr>"

section \<open>Correctness\<close>

lemma mset_make_heap [simp]: "mset (std_make_heap c) = mset c"
  by (induction c) (simp_all add: std_make_heap_def)

lemma sorted_make_heap [simp]: "sorted_events (std_make_heap c)"
  by (induction c) (simp_all add: std_make_heap_def sorted_list_insert)

text \<open>Removing an absent event changes nothing, where the other schedulers fail an assertion.\<close>

lemma pq_remove_absent: "ev_uid e \<notin> ev_uid ` set c \<Longrightarrow> pq_remove e c = Inr c"
proof -
  assume "ev_uid e \<notin> ev_uid ` set c"
  then have "ev_uid x \<noteq> ev_uid e" if "x \<in> set c" for x
    using that by (metis image_eqI)
  then have "dropWhile (\<lambda>x. \<not> event_eq x e) c = []"
    by (auto simp: event_eq_def key_eq_def dropWhile_eq_Nil_conv)
  then show ?thesis
    by (simp only: pq_remove_def pq_queue_remove_def list.case snd_conv)
qed

lemma pq_remove_correct:
  assumes "e \<in> set c" and "\<forall>x \<in> set c. ev_uid x = ev_uid e \<longrightarrow> x = e"
  shows "\<exists>c'. pq_remove e c = Inr c' \<and> sorted_events c' \<and> mset c = add_mset e (mset c')"
proof -
  let ?P = "\<lambda>x. \<not> event_eq x e"
  have "\<not> ?P e"
    by (simp add: event_eq_def key_eq_def)
  with assms(1) have ne: "dropWhile ?P c \<noteq> []"
    by (auto simp: dropWhile_eq_Nil_conv)
  then obtain x rest where d: "dropWhile ?P c = x # rest"
    by (cases "dropWhile ?P c") auto
  have "\<not> ?P x"
    using hd_dropWhile [OF ne] d by simp
  moreover have "x \<in> set c"
    using d by (metis list.set_intros(1) set_dropWhileD)
  ultimately have "x = e"
    using assms(2) by (simp add: event_eq_def key_eq_def)
  moreover have "c = takeWhile ?P c @ x # rest"
    using takeWhile_dropWhile_id [of ?P c] d by simp
  then have "mset c = add_mset x (mset (takeWhile ?P c @ rest))"
    by (metis mset.simps(2) mset_append union_mset_add_mset_right)
  ultimately show ?thesis
    using d by (simp add: pq_remove_def pq_queue_remove_def)
qed

interpretation pq_queue: removable_event_queue pq_ops sorted_events mset "\<lambda>_. 0" "- 1"
proof (unfold_locales, goal_cases)
  case 1
  show ?case by (simp add: pq_ops_def)
next
  case (2 q e)
  then show ?case by (simp add: pq_ops_def pq_insert_def sorted_list_insert)
next
  case (3 q)
  show ?case by (simp add: pq_ops_def pq_is_empty_def)
next
  case (4 q)
  then show ?case
    by (cases q) (auto simp: pq_ops_def pq_peek_next_def pq_remove_next_def earliest_def)
next
  case (5 q e)
  then show ?case
    using pq_remove_correct [of e q] by (auto simp: pq_ops_def uid_unique_def)
qed

section \<open>Properties\<close>

text \<open>\<open>PriorityQueueScheduler::Remove\<close> deletes a stored event and re-establishes the order, but the
  removal of an event that is not stored goes unnoticed, unlike in the other schedulers.\<close>

theorem pq_remove_total:
  assumes "uid_unique e (mset c)"
  shows "(e \<in> set c \<longrightarrow>
      (\<exists>c'. pq_remove e c = Inr c' \<and> sorted_events c' \<and> mset c = add_mset e (mset c'))) \<and>
    (ev_uid e \<notin> ev_uid ` set c \<longrightarrow> pq_remove e c = Inr c)"
  using pq_remove_correct [of e c] pq_remove_absent [of e c] assms by (simp add: uid_unique_def)

theorem pq_remove_total_witness: "pq_remove (sample_event 3 9) [sample_event 1 4] = Inr [sample_event 1 4]"
  using pq_remove_total [of "sample_event 3 9" "[sample_event 1 4]"] by (simp add: uid_unique_def)

end
