(* ===== verification/Heap_Scheduler.thy ===== *)
theory Heap_Scheduler
  imports Scheduler_Interface
begin

text \<open>
  \<open>HeapScheduler\<close> (\<open>src/core/model/heap-scheduler.cc\<close>): a binary heap in a \<open>std::vector\<close> whose element
  0 is wasted, so that the children of position \<open>i\<close> are at \<open>2 i\<close> and \<open>2 i + 1\<close>. Insertion and
  \<open>RemoveNext\<close> are correct. \<open>Remove\<close> only sifts down: it takes out the right event, but can leave an
  array that is no heap, after which events come out of order.
\<close>

section \<open>Operations\<close>

type_synonym heap_scheduler = "event list"

definition heap_create :: heap_scheduler where
  "heap_create = [\<lparr>ev_impl = None, ev_key = \<lparr>key_ts = 0, key_uid = 0, key_context = 0\<rparr>\<rparr>]"

definition heap_parent :: "nat \<Rightarrow> nat" where
  "heap_parent idx = idx div 2"

definition heap_sibling :: "nat \<Rightarrow> nat" where
  "heap_sibling idx = idx + 1"

definition heap_left :: "nat \<Rightarrow> nat" where
  "heap_left idx = idx * 2"

definition heap_right :: "nat \<Rightarrow> nat" where
  "heap_right idx = idx * 2 + 1"

definition heap_root :: nat where
  "heap_root = 1"

definition heap_is_root :: "nat \<Rightarrow> bool" where
  "heap_is_root idx = (idx = heap_root)"

definition heap_last :: "heap_scheduler \<Rightarrow> nat" where
  "heap_last h = length h - 1"

definition heap_is_bottom :: "heap_scheduler \<Rightarrow> nat \<Rightarrow> bool" where
  "heap_is_bottom h idx = (idx \<ge> length h)"

definition heap_exch :: "nat \<Rightarrow> nat \<Rightarrow> heap_scheduler \<Rightarrow> heap_scheduler result" where
  "heap_exch a b h =
     ns_assert (b < length h \<and> a < length h)
       (let tmp = h ! a; h' = h[a := h ! b] in Inr (h'[b := tmp]))"

definition heap_is_less :: "heap_scheduler \<Rightarrow> nat \<Rightarrow> nat \<Rightarrow> bool" where
  "heap_is_less h a b = event_less (h ! a) (h ! b)"

definition heap_smallest :: "heap_scheduler \<Rightarrow> nat \<Rightarrow> nat \<Rightarrow> nat" where
  "heap_smallest h a b = (if heap_is_less h a b then a else b)"

definition heap_is_empty :: "heap_scheduler \<Rightarrow> bool" where
  "heap_is_empty h = (length h = 1)"

lemma heap_exch_length: "heap_exch a b h = Inr h' \<Longrightarrow> length h' = length h"
  by (auto simp: heap_exch_def Let_def ns_assert_eq_Inr)

lemma heap_smallest_cases: "heap_smallest h a b = a \<or> heap_smallest h a b = b"
  by (simp add: heap_smallest_def)

text \<open>The loop of \<open>BottomUp\<close>, from \<open>index\<close>.\<close>

function heap_bottom_up_from :: "nat \<Rightarrow> heap_scheduler \<Rightarrow> heap_scheduler result" where
  "heap_bottom_up_from index h =
     (if \<not> heap_is_root index \<and> heap_is_less h index (heap_parent index)
      then res_bind (heap_exch index (heap_parent index) h)
             (\<lambda>h'. heap_bottom_up_from (heap_parent index) h')
      else Inr h)"
  by pat_completeness auto
termination
proof (relation "measure fst")
  fix index :: nat and h x :: heap_scheduler
  assume a: "\<not> heap_is_root index \<and> heap_is_less h index (heap_parent index)"
  then have "index \<noteq> 0"
    by (intro notI) (simp add: heap_is_less_def heap_parent_def)
  then show "((heap_parent index, x), index, h) \<in> measure fst"
    by (simp add: heap_parent_def)
qed simp

definition heap_bottom_up :: "heap_scheduler \<Rightarrow> heap_scheduler result" where
  "heap_bottom_up h = heap_bottom_up_from (heap_last h) h"

text \<open>
  \<open>TopDown\<close>. Position 0 is the only one that can be its own smallest child; the loop would then
  repeat the same exchange for ever, which C++ leaves undefined.
\<close>

function heap_top_down :: "nat \<Rightarrow> heap_scheduler \<Rightarrow> heap_scheduler result" where
  "heap_top_down index h =
     (if \<not> heap_is_bottom h (heap_right index)
      then (let tmp = heap_smallest h (heap_left index) (heap_right index)
            in if heap_is_less h index tmp then Inr h
               else if tmp = index then Inl Undefined_behaviour
               else res_bind (heap_exch index tmp h) (\<lambda>h'. heap_top_down tmp h'))
      else if heap_is_bottom h index then Inr h
      else ns_assert (\<not> heap_is_bottom h index)
             (let left = heap_left index
              in if heap_is_bottom h left then Inr h
                 else if heap_is_less h index left then Inr h
                 else heap_exch index left h))"
  by pat_completeness auto
termination
proof (relation "measure (\<lambda>(i, h). length h - i)", simp)
  fix index tmp :: nat and h h' :: heap_scheduler
  assume b: "\<not> heap_is_bottom h (heap_right index)"
    and t: "tmp = heap_smallest h (heap_left index) (heap_right index)"
    and ne: "tmp \<noteq> index" and e: "heap_exch index tmp h = Inr h'"
  have "tmp = heap_left index \<or> tmp = heap_right index"
    using heap_smallest_cases t by blast
  with b ne have "index < tmp \<and> tmp < length h"
    by (auto simp: heap_is_bottom_def heap_left_def heap_right_def)
  with heap_exch_length [OF e]
  show "((tmp, h'), index, h) \<in> measure (\<lambda>(i, h). length h - i)"
    by auto
qed

declare heap_bottom_up_from.simps [simp del] heap_top_down.simps [simp del]

definition heap_insert :: "event \<Rightarrow> heap_scheduler \<Rightarrow> heap_scheduler result" where
  "heap_insert ev h = heap_bottom_up (h @ [ev])"

definition heap_peek_next :: "heap_scheduler \<Rightarrow> event result" where
  "heap_peek_next h = (if heap_root < length h then Inr (h ! heap_root) else Inl Undefined_behaviour)"

definition heap_remove_next :: "heap_scheduler \<Rightarrow> (event \<times> heap_scheduler) result" where
  "heap_remove_next h =
     res_bind (heap_peek_next h) (\<lambda>next.
     res_bind (heap_exch heap_root (heap_last h) h) (\<lambda>h1.
     res_bind (heap_top_down heap_root (butlast h1)) (\<lambda>h2.
     Inr (next, h2))))"

text \<open>The loop of \<open>Remove\<close>: the first position from \<open>i\<close> on that holds the identifier.\<close>

function heap_find :: "32 word \<Rightarrow> heap_scheduler \<Rightarrow> nat \<Rightarrow> nat option" where
  "heap_find uid h i =
     (if i < length h then (if uid = ev_uid (h ! i) then Some i else heap_find uid h (i + 1))
      else None)"
  by pat_completeness auto
termination by (relation "measure (\<lambda>(_, h, i). length h - i)") auto

declare heap_find.simps [simp del]

definition heap_remove :: "event \<Rightarrow> heap_scheduler \<Rightarrow> heap_scheduler result" where
  "heap_remove ev h =
     (case heap_find (ev_uid ev) h 1 of
        None \<Rightarrow> Inl Assert_failed
      | Some i \<Rightarrow>
          ns_assert (ev_impl (h ! i) = ev_impl ev)
            (res_bind (heap_exch i (heap_last h) h) (\<lambda>h1. heap_top_down i (butlast h1))))"

definition heap_ops :: "heap_scheduler scheduler_ops" where
  "heap_ops =
     \<lparr>op_create = heap_create,
      op_insert = heap_insert,
      op_is_empty = heap_is_empty,
      op_peek_next = heap_peek_next,
      op_remove_next = heap_remove_next,
      op_remove = heap_remove\<rparr>"

section \<open>Heap order\<close>

abbreviation hrank :: "heap_scheduler \<Rightarrow> nat \<Rightarrow> rank" where
  "hrank h i \<equiv> ev_rank (h ! i)"

definition heap_inv :: "heap_scheduler \<Rightarrow> bool" where
  "heap_inv h \<longleftrightarrow> h \<noteq> [] \<and> (\<forall>i. 2 \<le> i \<longrightarrow> i < length h \<longrightarrow> hrank h (i div 2) \<le> hrank h i)"

definition heap_events :: "heap_scheduler \<Rightarrow> event multiset" where
  "heap_events h = mset (tl h)"

text \<open>The root of a heap is its least element.\<close>

lemma heap_inv_root:
  assumes "heap_inv h" and "1 \<le> i" and "i < length h"
  shows "hrank h 1 \<le> hrank h i"
  using assms(2,3)
proof (induction i rule: less_induct)
  case (less i)
  show ?case
  proof (cases "i = 1")
    case False
    with less.prems have "2 \<le> i" by simp
    then have "i div 2 < i" "1 \<le> i div 2" by simp_all
    with less.IH less.prems have "hrank h 1 \<le> hrank h (i div 2)" by simp
    also have "\<dots> \<le> hrank h i"
      using assms(1) \<open>2 \<le> i\<close> less.prems by (simp add: heap_inv_def)
    finally show ?thesis .
  qed simp
qed

lemma in_tl_nth: "x \<in> set (tl h) \<longleftrightarrow> (\<exists>i. 1 \<le> i \<and> i < length h \<and> x = h ! i)"
proof (cases h)
  case (Cons a hs)
  have "x \<in> set hs \<longleftrightarrow> (\<exists>j < length hs. x = hs ! j)"
    by (auto simp: in_set_conv_nth)
  also have "\<dots> \<longleftrightarrow> (\<exists>i. 1 \<le> i \<and> i < Suc (length hs) \<and> x = (a # hs) ! i)"
    by (metis One_nat_def Suc_le_D Suc_le_mono Suc_less_eq le_numeral_extra(4) nth_Cons_Suc
        zero_order(1) le_add1 plus_1_eq_Suc)
  finally show ?thesis using Cons by simp
qed simp

lemma heap_root_earliest:
  assumes "heap_inv h" and "1 < length h"
  shows "earliest (h ! 1) (heap_events h)"
  unfolding earliest_def heap_events_def
  using assms heap_inv_root [OF assms(1)] by (auto simp: in_tl_nth)

section \<open>Exchanges\<close>

lemma heap_exch_Inr:
  assumes "a < length h" and "b < length h"
  shows "heap_exch a b h = Inr (h[a := h ! b, b := h ! a])"
  using assms by (simp add: heap_exch_def Let_def)

lemma heap_events_exch:
  assumes "1 \<le> a" and "a < length h" and "1 \<le> b" and "b < length h"
  shows "heap_events (h[a := h ! b, b := h ! a]) = heap_events h"
proof (cases h)
  case (Cons e hs)
  with assms obtain a' b' where "a = Suc a'" "b = Suc b'" "a' < length hs" "b' < length hs"
    by (metis Suc_le_D Suc_less_eq One_nat_def length_Cons)
  with Cons show ?thesis
    by (simp add: heap_events_def mset_update_swap)
qed (simp add: heap_events_def)

lemma hrank_exch:
  assumes "a < length h" and "b < length h"
  shows "hrank (h[a := h ! b, b := h ! a]) i =
    (if i = b then hrank h a else if i = a then hrank h b else hrank h i)"
  using assms by (simp add: nth_list_update)

section \<open>Sifting up\<close>

text \<open>A heap with one defect: the element at \<open>k\<close> may be smaller than its parent.\<close>

definition swim_inv :: "heap_scheduler \<Rightarrow> nat \<Rightarrow> bool" where
  "swim_inv h k \<longleftrightarrow>
     1 \<le> k \<and> k < length h \<and>
     (\<forall>i. 2 \<le> i \<longrightarrow> i < length h \<longrightarrow> i \<noteq> k \<longrightarrow> hrank h (i div 2) \<le> hrank h i) \<and>
     (2 \<le> k \<longrightarrow> (\<forall>i. 2 \<le> i \<longrightarrow> i < length h \<longrightarrow> i div 2 = k \<longrightarrow> hrank h (k div 2) \<le> hrank h i))"

lemma swim_inv_step:
  assumes "swim_inv h k" and "k \<noteq> 1" and "hrank h k < hrank h (k div 2)"
  shows "swim_inv (h[k := h ! (k div 2), k div 2 := h ! k]) (k div 2)"
proof -
  define p where "p = k div 2"
  from assms have k: "2 \<le> k" "k < length h" and p: "1 \<le> p" "p < k" "p < length h"
    by (auto simp: swim_inv_def p_def)
  let ?h = "h[k := h ! p, p := h ! k]"
  have r: "hrank ?h i = (if i = p then hrank h k else if i = k then hrank h p else hrank h i)" for i
    using k p by (rule_tac hrank_exch) auto
  have par: "hrank h (i div 2) \<le> hrank h i" if "2 \<le> i" "i < length h" "i \<noteq> k" for i
    using assms(1) that by (simp add: swim_inv_def)
  have gc: "hrank h p \<le> hrank h i" if "2 \<le> i" "i < length h" "i div 2 = k" for i
    using assms(1) that k by (simp add: swim_inv_def p_def)
  have lt: "hrank h k < hrank h p"
    using assms(3) by (simp add: p_def)
  have "hrank ?h (i div 2) \<le> hrank ?h i" if i: "2 \<le> i" "i < length h" "i \<noteq> p" for i
  proof (cases "i = k")
    case True
    then have "i div 2 = p" by (simp add: p_def)
    with True lt p show ?thesis by (simp only: r) auto
  next
    case False
    have h1: "hrank h (i div 2) \<le> hrank h i" using par i False by simp
    show ?thesis
      using gc [OF i(1,2)] h1 lt i(3) False
      by (auto simp: r)
  qed
  moreover have "hrank ?h (p div 2) \<le> hrank ?h i" if "2 \<le> p" "2 \<le> i" "i < length h" "i div 2 = p" for i
  proof -
    have pp: "hrank h (p div 2) \<le> hrank h p"
      using par that(1) p by simp
    moreover have "p div 2 \<noteq> p" "p div 2 \<noteq> k" "i \<noteq> p"
      using that p by auto
    moreover have "i = k \<or> hrank h p \<le> hrank h i"
      using par that by auto
    ultimately show ?thesis
      by (simp only: r) auto
  qed
  ultimately show ?thesis
    using p k by (simp add: swim_inv_def flip: p_def)
qed

lemma swim_inv_exit: "swim_inv h k \<Longrightarrow> k = 1 \<or> \<not> hrank h k < hrank h (k div 2) \<Longrightarrow> heap_inv h"
  by (auto simp: swim_inv_def heap_inv_def not_less)

lemma heap_bottom_up_from_correct:
  assumes "swim_inv h k"
  shows "\<exists>h'. heap_bottom_up_from k h = Inr h' \<and> heap_inv h' \<and> heap_events h' = heap_events h \<and>
           length h' = length h"
  using assms
proof (induction k arbitrary: h rule: less_induct)
  case (less k)
  have k: "1 \<le> k" "k < length h"
    using less.prems by (auto simp: swim_inv_def)
  show ?case
  proof (cases "k \<noteq> 1 \<and> hrank h k < hrank h (k div 2)")
    case False
    then show ?thesis
      using swim_inv_exit [OF less.prems]
      by (subst heap_bottom_up_from.simps)
        (auto simp: heap_is_root_def heap_root_def heap_is_less_def heap_parent_def)
  next
    case True
    let ?h = "h[k := h ! (k div 2), k div 2 := h ! k]"
    have "k div 2 < k" "1 \<le> k div 2"
      using True k by auto
    with less.IH [OF _ swim_inv_step [OF less.prems]] True
    obtain h' where h': "heap_bottom_up_from (k div 2) ?h = Inr h'" "heap_inv h'"
      "heap_events h' = heap_events ?h" "length h' = length ?h"
      by auto
    have "heap_exch k (k div 2) h = Inr ?h"
      using k by (intro heap_exch_Inr) auto
    then have "heap_bottom_up_from k h = Inr h'"
      using True h'(1) by (subst heap_bottom_up_from.simps)
        (simp add: heap_is_root_def heap_root_def heap_is_less_def heap_parent_def)
    moreover have "heap_events ?h = heap_events h"
      using k \<open>k div 2 < k\<close> \<open>1 \<le> k div 2\<close> by (intro heap_events_exch) auto
    ultimately show ?thesis using h' by simp
  qed
qed

lemma swim_inv_append:
  assumes "heap_inv h"
  shows "swim_inv (h @ [ev]) (length h)"
  using assms by (cases h) (auto simp: swim_inv_def heap_inv_def nth_append Suc_le_eq)

lemma heap_insert_correct:
  assumes "heap_inv h"
  shows "\<exists>h'. heap_insert ev h = Inr h' \<and> heap_inv h' \<and> heap_events h' = add_mset ev (heap_events h)"
proof -
  from assms obtain h' where "heap_bottom_up_from (length h) (h @ [ev]) = Inr h'" "heap_inv h'"
    "heap_events h' = heap_events (h @ [ev])"
    using heap_bottom_up_from_correct [OF swim_inv_append] by blast
  moreover have "heap_events (h @ [ev]) = add_mset ev (heap_events h)"
    using assms by (cases h) (auto simp: heap_events_def heap_inv_def)
  ultimately show ?thesis
    by (simp add: heap_insert_def heap_bottom_up_def heap_last_def)
qed

section \<open>Sifting down\<close>

text \<open>A heap with one defect: the element at \<open>k\<close> may be larger than its children.\<close>

definition sink_inv :: "heap_scheduler \<Rightarrow> nat \<Rightarrow> bool" where
  "sink_inv h k \<longleftrightarrow>
     1 \<le> k \<and> h \<noteq> [] \<and>
     (\<forall>i. 2 \<le> i \<longrightarrow> i < length h \<longrightarrow> i div 2 \<noteq> k \<longrightarrow> hrank h (i div 2) \<le> hrank h i) \<and>
     (2 \<le> k \<longrightarrow> (\<forall>i. 2 \<le> i \<longrightarrow> i < length h \<longrightarrow> i div 2 = k \<longrightarrow> hrank h (k div 2) \<le> hrank h i))"

definition children_le :: "heap_scheduler \<Rightarrow> nat \<Rightarrow> bool" where
  "children_le h k \<longleftrightarrow> (\<forall>i. 2 \<le> i \<longrightarrow> i < length h \<longrightarrow> i div 2 = k \<longrightarrow> hrank h k \<le> hrank h i)"

lemma sink_inv_exit: "sink_inv h k \<Longrightarrow> children_le h k \<Longrightarrow> heap_inv h"
  unfolding sink_inv_def heap_inv_def children_le_def by metis

lemma child_cases: "i div 2 = k \<longleftrightarrow> i = 2 * k \<or> i = 2 * k + (1::nat)"
  by auto

text \<open>Exchanging the defect with its least child \<open>c\<close> moves it down to \<open>c\<close>.\<close>

lemma sink_inv_step:
  assumes "sink_inv h k" and "c < length h" and "c div 2 = k"
    and "\<And>i. i < length h \<Longrightarrow> i div 2 = k \<Longrightarrow> hrank h c \<le> hrank h i"
    and "hrank h c \<le> hrank h k"
  shows "sink_inv (h[k := h ! c, c := h ! k]) c"
proof -
  let ?h = "h[k := h ! c, c := h ! k]"
  from assms(1,3) have k: "1 \<le> k" "k < c" "2 \<le> c" "k < length h"
    using assms(2) by (auto simp: sink_inv_def)
  have r: "hrank ?h i = (if i = c then hrank h k else if i = k then hrank h c else hrank h i)" for i
    using k assms(2) by (rule_tac hrank_exch) auto
  have par: "hrank h (i div 2) \<le> hrank h i" if "2 \<le> i" "i < length h" "i div 2 \<noteq> k" for i
    using assms(1) that by (simp add: sink_inv_def)
  have gc: "hrank h (k div 2) \<le> hrank h i" if "2 \<le> k" "2 \<le> i" "i < length h" "i div 2 = k" for i
    using assms(1) that by (simp add: sink_inv_def)
  have "hrank ?h (i div 2) \<le> hrank ?h i" if i: "2 \<le> i" "i < length h" "i div 2 \<noteq> c" for i
  proof -
    consider "i = c" | "i \<noteq> c" "i div 2 = k" | "i = k" | "i \<noteq> c" "i div 2 \<noteq> k" "i \<noteq> k"
      by blast
    then show ?thesis
    proof cases
      case 1
      with assms(3,5) k show ?thesis by (simp only: r) auto
    next
      case 2
      with assms(4) i k show ?thesis by (simp only: r) auto
    next
      case 3
      with gc [of c] i k assms(2,3) show ?thesis by (simp only: r) auto
    next
      case 4
      with par i show ?thesis by (simp only: r) auto
    qed
  qed
  moreover have "hrank ?h (c div 2) \<le> hrank ?h i" if "2 \<le> i" "i < length h" "i div 2 = c" for i
  proof -
    have "hrank h c \<le> hrank h i"
      using par [OF that(1,2)] that(3) k by simp
    moreover have "i \<noteq> c" "i \<noteq> k"
      using that k by auto
    ultimately show ?thesis
      using assms(3) k by (simp only: r) auto
  qed
  ultimately show ?thesis
    using k by (simp add: sink_inv_def) auto
qed

lemma heap_top_down_correct:
  assumes "sink_inv h k"
  shows "\<exists>h'. heap_top_down k h = Inr h' \<and> heap_inv h' \<and> heap_events h' = heap_events h"
  using assms
proof (induction k h rule: heap_top_down.induct)
  case (1 k h)
  have k: "1 \<le> k"
    using "1.prems" by (simp add: sink_inv_def)
  let ?l = "k * 2" and ?r = "k * 2 + 1"
  show ?case
  proof (cases "?r < length h")
    case True
    define c where "c = heap_smallest h ?l ?r"
    have c: "c = ?l \<or> c = ?r"
      unfolding c_def by (rule heap_smallest_cases)
    have small: "hrank h c \<le> hrank h i" if "i div 2 = k" for i
      using that unfolding child_cases c_def heap_smallest_def heap_is_less_def
      by (auto simp: mult.commute)
    have bot: "\<not> heap_is_bottom h (heap_right k)"
      using True by (simp add: heap_is_bottom_def heap_right_def)
    show ?thesis
    proof (cases "hrank h k < hrank h c")
      case stop: True
      then have "children_le h k"
        using small by (meson children_le_def less_imp_le order_trans)
      with stop bot "1.prems" show ?thesis
        by (subst heap_top_down.simps)
          (auto simp: Let_def heap_is_less_def heap_left_def heap_right_def c_def
            intro: sink_inv_exit)
    next
      case False
      let ?h = "h[k := h ! c, c := h ! k]"
      have cl: "c < length h" "c div 2 = k" "k < c" "c \<noteq> k"
        using c True k by auto
      have sink: "sink_inv ?h c"
        using "1.prems" cl(1,2) small False by (intro sink_inv_step) auto
      have ex: "heap_exch k c h = Inr ?h"
        using cl by (intro heap_exch_Inr) auto
      have nl: "\<not> heap_is_less h k c"
        using False by (simp add: heap_is_less_def)
      have cd: "c = heap_smallest h (heap_left k) (heap_right k)"
        by (simp add: c_def heap_left_def heap_right_def)
      from "1.IH" [OF bot cd nl cl(4) ex sink] obtain h' where
        h': "heap_top_down c ?h = Inr h'" "heap_inv h'" "heap_events h' = heap_events ?h"
        by blast
      have "heap_top_down k h = Inr h'"
        using bot nl cl(4) ex h'(1) by (subst heap_top_down.simps) (simp add: Let_def flip: cd)
      moreover have "heap_events ?h = heap_events h"
        using cl k by (intro heap_events_exch) auto
      ultimately show ?thesis using h' by simp
    qed
  next
    case False
    then have bot: "heap_is_bottom h (heap_right k)"
      by (simp add: heap_is_bottom_def heap_right_def)
    show ?thesis
    proof (cases "?l < length h \<and> \<not> hrank h k < hrank h ?l")
      case True
      let ?h = "h[k := h ! ?l, ?l := h ! k]"
      have ll: "?l < length h" "?l div 2 = k" "k < ?l"
        using True k by auto
      have only: "i = ?l" if "i < length h" "i div 2 = k" for i
        using that False by auto
      have sink: "sink_inv ?h ?l"
        using "1.prems" ll True only by (intro sink_inv_step) (auto simp: not_less)
      have "children_le ?h ?l"
        using False k by (auto simp: children_le_def)
      with sink have "heap_inv ?h"
        by (rule sink_inv_exit)
      moreover have "heap_events ?h = heap_events h"
        using ll k by (intro heap_events_exch) auto
      moreover have "heap_top_down k h = Inr ?h"
        using bot True heap_exch_Inr [of k h ?l] ll
        by (subst heap_top_down.simps)
          (simp add: heap_is_bottom_def heap_left_def heap_is_less_def Let_def)
      ultimately show ?thesis by blast
    next
      case stop: False
      then have "children_le h k"
        using False by (auto simp: children_le_def child_cases mult.commute)
      with "1.prems" have "heap_inv h"
        by (rule sink_inv_exit)
      with bot stop show ?thesis
        by (subst heap_top_down.simps)
          (auto simp: heap_is_bottom_def heap_left_def heap_is_less_def Let_def)
    qed
  qed
qed

section \<open>Taking out a position\<close>

text \<open>
  \<open>Exch(i, Last()); pop_back()\<close> moves the last element to position \<open>i\<close>: the common part of
  \<open>RemoveNext\<close> (with the root) and \<open>Remove\<close>.
\<close>

definition heap_take_out :: "nat \<Rightarrow> heap_scheduler \<Rightarrow> heap_scheduler" where
  "heap_take_out i h = butlast (h[i := h ! heap_last h, heap_last h := h ! i])"

lemma heap_exch_last:
  "i < length h \<Longrightarrow>
     heap_exch i (heap_last h) h = Inr (h[i := h ! heap_last h, heap_last h := h ! i])"
  by (rule heap_exch_Inr) (auto simp: heap_last_def)

lemma length_take_out [simp]: "length (heap_take_out i h) = length h - 1"
  by (simp add: heap_take_out_def)

lemma nth_take_out:
  "i < length h \<Longrightarrow> j < length h - 1 \<Longrightarrow>
     heap_take_out i h ! j = (if j = i then h ! heap_last h else h ! j)"
  by (auto simp: heap_take_out_def heap_last_def nth_butlast nth_list_update)

lemma heap_events_butlast:
  assumes "1 < length h"
  shows "heap_events h = add_mset (last h) (heap_events (butlast h))"
proof -
  obtain a xs x where "h = a # xs @ [x]"
    using assms by (cases h; cases "tl h" rule: rev_cases) auto
  then show ?thesis
    by (simp add: heap_events_def)
qed

lemma heap_events_take_out:
  assumes "1 \<le> i" and "i < length h"
  shows "heap_events h = add_mset (h ! i) (heap_events (heap_take_out i h))"
proof -
  let ?h = "h[i := h ! heap_last h, heap_last h := h ! i]"
  have l: "1 \<le> heap_last h" "heap_last h < length h"
    using assms by (auto simp: heap_last_def)
  have "?h \<noteq> []"
    using assms by auto
  then have "last ?h = ?h ! heap_last h"
    by (simp add: last_conv_nth heap_last_def)
  then have "last ?h = h ! i"
    using l by simp
  with heap_events_butlast [of ?h] assms show ?thesis
    by (simp add: heap_take_out_def heap_events_exch [OF assms l])
qed

text \<open>
  After the exchange the only possible defect is at \<open>i\<close>, and sifting down repairs it unless the
  moved element is smaller than the parent of \<open>i\<close>.
\<close>

lemma sink_inv_take_out:
  assumes "heap_inv h" and "1 \<le> i" and "i < length h"
    and "2 \<le> i \<Longrightarrow> hrank h (i div 2) \<le> hrank h (heap_last h)"
  shows "sink_inv (heap_take_out i h) i"
proof -
  let ?g = "heap_take_out i h"
  note nth = nth_take_out [OF assms(3)]
  have hp: "hrank h (j div 2) \<le> hrank h j" if "2 \<le> j" "j < length h" for j
    using assms(1) that by (simp add: heap_inv_def)
  have "hrank ?g (j div 2) \<le> hrank ?g j" if j: "2 \<le> j" "j < length ?g" "j div 2 \<noteq> i" for j
  proof -
    have "j div 2 < length h - 1"
      using j by simp
    then show ?thesis
      using assms(4) hp [of j] j by (cases "j = i") (simp_all add: nth)
  qed
  moreover have "hrank ?g (i div 2) \<le> hrank ?g j"
    if j: "2 \<le> i" "2 \<le> j" "j < length ?g" "j div 2 = i" for j
  proof -
    have "i div 2 < length h - 1" "j \<noteq> i" "i div 2 \<noteq> i"
      using j by auto
    moreover have "hrank h (i div 2) \<le> hrank h j"
      using hp [of i] hp [of j] j assms(3) by force
    ultimately show ?thesis
      using j by (simp add: nth)
  qed
  moreover have "?g \<noteq> []"
    using assms(2,3) by (simp flip: length_greater_0_conv)
  ultimately show ?thesis
    using assms(2) by (simp add: sink_inv_def)
qed

lemma heap_take_out_correct:
  assumes "heap_inv h" and "1 \<le> i" and "i < length h"
    and "2 \<le> i \<Longrightarrow> hrank h (i div 2) \<le> hrank h (heap_last h)"
  shows "\<exists>h'. heap_top_down i (heap_take_out i h) = Inr h' \<and> heap_inv h' \<and>
           heap_events h = add_mset (h ! i) (heap_events h')"
  using heap_top_down_correct [OF sink_inv_take_out [OF assms]] heap_events_take_out assms(2,3)
  by metis

lemma heap_remove_next_correct:
  assumes "heap_inv h" and "1 < length h"
  shows "\<exists>h'. heap_remove_next h = Inr (h ! 1, h') \<and> heap_inv h' \<and>
           heap_events h = add_mset (h ! 1) (heap_events h')"
  using heap_take_out_correct [of h 1] assms heap_exch_last [of 1 h]
  by (auto simp: heap_remove_next_def heap_peek_next_def heap_root_def simp flip: heap_take_out_def)

section \<open>Remove\<close>

lemma heap_find_spec:
  fixes uid :: "32 word"
  shows "(case heap_find uid h i of
      None \<Rightarrow> \<forall>j. i \<le> j \<longrightarrow> j < length h \<longrightarrow> ev_uid (h ! j) \<noteq> uid
    | Some k \<Rightarrow> i \<le> k \<and> k < length h \<and> ev_uid (h ! k) = uid)"
proof (induction uid h i rule: heap_find.induct)
  case (1 uid h i)
  show ?case
  proof (cases "i < length h \<and> uid \<noteq> ev_uid (h ! i)")
    case True
    with 1 have IH: "case heap_find uid h (i + 1) of
        None \<Rightarrow> \<forall>j. i + 1 \<le> j \<longrightarrow> j < length h \<longrightarrow> ev_uid (h ! j) \<noteq> uid
      | Some k \<Rightarrow> i + 1 \<le> k \<and> k < length h \<and> ev_uid (h ! k) = uid"
      by simp
    have eq: "heap_find uid h i = heap_find uid h (i + 1)"
      using True by (subst heap_find.simps) simp
    show ?thesis
    proof (cases "heap_find uid h (i + 1)")
      case None
      have "ev_uid (h ! j) \<noteq> uid" if "i \<le> j" "j < length h" for j
        using that IH True None by (cases "j = i") auto
      with None eq show ?thesis
        by simp
    next
      case (Some k)
      with IH eq show ?thesis by simp
    qed
  next
    case False
    then show ?thesis
      by (subst heap_find.simps) auto
  qed
qed

lemma heap_find_unique:
  assumes "e \<in># heap_events h" and "uid_unique e (heap_events h)"
  obtains i where "heap_find (ev_uid e) h 1 = Some i" "1 \<le> i" "i < length h" "h ! i = e"
proof -
  from assms(1) obtain j where j: "1 \<le> j" "j < length h" "h ! j = e"
    by (auto simp: heap_events_def in_tl_nth)
  show thesis
  proof (cases "heap_find (ev_uid e) h 1")
    case None
    with j heap_find_spec [where uid = "ev_uid e" and h = h and i = 1] show ?thesis by auto
  next
    case (Some i)
    with heap_find_spec [where uid = "ev_uid e" and h = h and i = 1]
    have i: "1 \<le> i" "i < length h" "ev_uid (h ! i) = ev_uid e" by auto
    then have "h ! i \<in># heap_events h"
      by (auto simp: heap_events_def in_tl_nth)
    with i(3) assms(2) have "h ! i = e"
      by (simp add: uid_unique_def)
    with that Some i show ?thesis by blast
  qed
qed

text \<open>
  \<open>Remove\<close> keeps the heap order when the last element does not belong above the parent of the
  removed position, for instance when the event to remove is the earliest or the last one stored.
\<close>

lemma heap_remove_correct:
  assumes "heap_inv h" and "heap_find (ev_uid e) h 1 = Some i" and "h ! i = e"
    and "2 \<le> i \<Longrightarrow> hrank h (i div 2) \<le> hrank h (heap_last h)"
  shows "\<exists>h'. heap_remove e h = Inr h' \<and> heap_inv h' \<and>
           heap_events h = add_mset e (heap_events h')"
proof -
  have i: "1 \<le> i" "i < length h"
    using heap_find_spec [where uid = "ev_uid e" and h = h and i = 1] assms(2) by auto
  from heap_take_out_correct [OF assms(1) i assms(4)] show ?thesis
    using heap_exch_last [OF i(2)] assms(2,3)
    by (auto simp: heap_remove_def simp flip: heap_take_out_def)
qed

text \<open>In the other case the moved element is less than everything below the position, and sifting down leaves it there.\<close>

lemma heap_top_down_stays:
  assumes "1 \<le> k" and "\<And>j. j < length h \<Longrightarrow> j div 2 = k \<Longrightarrow> hrank h k < hrank h j"
  shows "heap_top_down k h = Inr h"
proof -
  have less: "heap_is_less h k j" if "j < length h" "j div 2 = k" for j
    using assms(2) [OF that] by (simp add: heap_is_less_def)
  have "heap_is_less h k (heap_smallest h (heap_left k) (heap_right k))" if "\<not> heap_is_bottom h (heap_right k)"
    using heap_smallest_cases [of h "heap_left k" "heap_right k"] that less
    by (auto simp: heap_is_bottom_def heap_left_def heap_right_def)
  moreover have "heap_is_less h k (heap_left k)" if "\<not> heap_is_bottom h (heap_left k)"
    using that less [of "heap_left k"] by (simp add: heap_is_bottom_def heap_left_def)
  ultimately show ?thesis
    by (subst heap_top_down.simps) (auto simp: Let_def)
qed

lemma heap_remove_breaks:
  assumes "heap_inv h" and "heap_find (ev_uid e) h 1 = Some i" and "h ! i = e"
    and "2 \<le> i" and "hrank h (heap_last h) < hrank h (i div 2)"
  shows "heap_remove e h = Inr (heap_take_out i h)" and "\<not> heap_inv (heap_take_out i h)"
    and "heap_events h = add_mset e (heap_events (heap_take_out i h))"
proof -
  let ?g = "heap_take_out i h"
  have i: "1 \<le> i" "i < length h"
    using heap_find_spec [where uid = "ev_uid e" and h = h and i = 1] assms(2) by auto
  note nth = nth_take_out [OF i(2)]
  have hp: "hrank h (j div 2) \<le> hrank h j" if "2 \<le> j" "j < length h" for j
    using assms(1) that by (simp add: heap_inv_def)
  have "i \<noteq> heap_last h"
    using hp [OF assms(4) i(2)] assms(5) by auto
  then have lt: "i < length h - 1"
    using i(2) by (simp add: heap_last_def)
  have "hrank ?g i < hrank ?g j" if j: "j < length ?g" "j div 2 = i" for j
  proof -
    have "hrank h (i div 2) \<le> hrank h i" "hrank h i \<le> hrank h j" "j \<noteq> i" "j < length h - 1"
      using hp [of i] hp [of j] j i assms(4) by auto
    then show ?thesis
      using assms(5) nth [of i] nth [of j] lt by (simp add: less_le_trans)
  qed
  from heap_top_down_stays [OF i(1) this] show "heap_remove e h = Inr ?g"
    using heap_exch_last [OF i(2)] assms(2,3) by (simp add: heap_remove_def heap_take_out_def)
  have "hrank ?g i < hrank ?g (i div 2)"
    using assms(4,5) nth [of i] nth [of "i div 2"] lt by simp
  then show "\<not> heap_inv ?g"
    using assms(4) lt unfolding heap_inv_def by (metis leD length_take_out)
  show "heap_events h = add_mset e (heap_events ?g)"
    using heap_events_take_out [OF i] assms(3) by simp
qed

lemma heap_remove_iff:
  assumes "heap_inv h" and "e \<in># heap_events h" and "uid_unique e (heap_events h)"
  shows "\<exists>i h'. 1 \<le> i \<and> i < length h \<and> h ! i = e \<and> heap_remove e h = Inr h' \<and> heap_events h = add_mset e (heap_events h') \<and>
    (heap_inv h' \<longleftrightarrow> i = heap_root \<or> ev_rank (h ! heap_parent i) \<le> ev_rank (h ! heap_last h))"
proof -
  from heap_find_unique [OF assms(2,3)] obtain i where
    i: "heap_find (ev_uid e) h 1 = Some i" "1 \<le> i" "i < length h" "h ! i = e"
    by metis
  show ?thesis
  proof (cases "2 \<le> i \<and> hrank h (heap_last h) < hrank h (i div 2)")
    case True
    with heap_remove_breaks [OF assms(1) i(1,4)] i show ?thesis
      by (intro exI [of _ i] exI [of _ "heap_take_out i h"]) (auto simp: heap_root_def heap_parent_def)
  next
    case False
    then have "2 \<le> i \<Longrightarrow> hrank h (i div 2) \<le> hrank h (heap_last h)"
      by auto
    with heap_remove_correct [OF assms(1) i(1,4)] i False show ?thesis
      by (fastforce simp: heap_root_def heap_parent_def)
  qed
qed

interpretation heap_queue: event_queue heap_ops heap_inv heap_events "\<lambda>_. 0" "- 1"
proof (unfold_locales, goal_cases)
  case 1
  show ?case
    by (simp add: heap_ops_def heap_create_def heap_inv_def heap_events_def)
next
  case (2 q e)
  then show ?case
    using heap_insert_correct [of q e] by (auto simp: heap_ops_def)
next
  case (3 q)
  then show ?case
    by (cases q) (auto simp: heap_ops_def heap_is_empty_def heap_events_def heap_inv_def)
next
  case (4 q)
  then have len: "1 < length q"
    by (cases q) (auto simp: heap_events_def)
  from heap_remove_next_correct [OF 4(1) len] obtain h' where
    "heap_remove_next q = Inr (q ! 1, h')" "heap_inv h'"
    "heap_events q = add_mset (q ! 1) (heap_events h')"
    by blast
  moreover have "earliest (q ! 1) (heap_events q)"
    by (rule heap_root_earliest [OF 4(1) len])
  moreover have "heap_peek_next q = Inr (q ! 1)"
    using len by (simp add: heap_peek_next_def heap_root_def)
  ultimately show ?case
    by (auto simp: heap_ops_def)
qed

section \<open>Properties\<close>

lemma sample_heap_inv: "heap_inv [sample_event 0 0, sample_event 3 9, sample_event 7 8]"
proof -
  have "i = 2" if "2 \<le> i" "i < Suc (Suc (Suc 0))" for i :: nat
    using that by simp
  then show ?thesis
    by (auto simp: heap_inv_def rank_le_iff)
qed

text \<open>\<open>HeapScheduler::Insert\<close> followed by any number of further operations of the interface starts
  from a heap again: sifting up ends, keeps the multiset of events and restores the heap order.\<close>

theorem heap_insert_restores_heap:
  assumes "heap_inv h"
  shows "\<exists>h'. heap_insert ev h = Inr h' \<and> heap_inv h' \<and>
    heap_events h' = add_mset ev (heap_events h)"
  by (rule heap_insert_correct [OF assms])

theorem heap_insert_restores_heap_witness:
  "\<exists>h'. heap_insert (sample_event 3 9) heap_create = Inr h' \<and> heap_events h' = {#sample_event 3 9#}"
  using heap_insert_restores_heap [of heap_create "sample_event 3 9"]
  by (auto simp: heap_create_def heap_inv_def heap_events_def)

text \<open>\<open>HeapScheduler::RemoveNext\<close> returns the earliest event, and sifting the last element down from
  the root ends and leaves a heap of all other events.\<close>

theorem heap_remove_next_earliest:
  assumes "heap_inv h" and "heap_events h \<noteq> {#}"
  shows "\<exists>e h'. heap_remove_next h = Inr (e, h') \<and> heap_peek_next h = Inr e \<and>
    earliest e (heap_events h) \<and> heap_inv h' \<and> heap_events h = add_mset e (heap_events h')"
proof -
  have "1 < length h"
    using assms by (cases h; cases "tl h") (auto simp: heap_inv_def heap_events_def)
  with heap_remove_next_correct [OF assms(1) this] heap_root_earliest [OF assms(1) this] show ?thesis
    by (auto simp: heap_peek_next_def heap_root_def)
qed

theorem heap_remove_next_earliest_witness:
  "\<exists>e h'. heap_remove_next [sample_event 0 0, sample_event 3 9, sample_event 7 8] = Inr (e, h') \<and>
     earliest e {#sample_event 3 9, sample_event 7 8#}"
proof -
  from heap_remove_next_earliest [OF sample_heap_inv] show ?thesis
    by (auto simp: heap_events_def)
qed

text \<open>C18: \<open>HeapScheduler::Remove\<close> of a stored event always succeeds and takes out this event and no other. But it only
  sifts the moved element down, so the array is a heap again exactly when the last element is not earlier than
  the parent of the position \<open>i\<close> of the event.\<close>

theorem heap_remove_keeps_heap_iff:
  assumes "heap_inv h" and "e \<in># heap_events h" and "uid_unique e (heap_events h)"
  shows "\<exists>i h'. 1 \<le> i \<and> i < length h \<and> h ! i = e \<and> heap_remove e h = Inr h' \<and> heap_events h = add_mset e (heap_events h') \<and>
    (heap_inv h' \<longleftrightarrow> i = heap_root \<or> ev_rank (h ! heap_parent i) \<le> ev_rank (h ! heap_last h))"
  by (rule heap_remove_iff [OF assms])

text \<open>Removing the fourth of seven events leaves no heap, removing the sixth does.\<close>

definition sample_heap :: heap_scheduler where
  "sample_heap = sample_event 0 0 # map (\<lambda>t. sample_event t (ucast t + 10)) [1, 10, 2, 11, 12, 30, 3]"

lemma sample_heap_ok:
  "heap_inv sample_heap" "heap_events sample_heap = mset (map (\<lambda>t. sample_event t (ucast t + 10)) [1, 10, 2, 11, 12, 30, 3])"
proof -
  have "i \<in> {2, 3, 4, 5, 6, 7}" if "2 \<le> i" "i < 8" for i :: nat
    using that by auto
  then show "heap_inv sample_heap"
    by (fastforce simp: heap_inv_def sample_heap_def rank_le_iff)
qed (simp add: heap_events_def sample_heap_def)

lemma sample_heap_position:
  assumes "1 \<le> i" and "i < length sample_heap" and "sample_heap ! i = sample_event t u" and "(t, j) \<in> {(11, 4), (30, 6)}"
  shows "i = unat (j :: 64 word)"
proof -
  have "i \<in> {1, 2, 3, 4, 5, 6, 7}"
    using assms(1,2) by (auto simp: sample_heap_def)
  then show ?thesis
    using assms(3,4) by (auto simp: sample_heap_def sample_event_def)
qed

theorem heap_remove_keeps_heap_iff_witness:
  "(\<exists>h'. heap_remove (sample_event 11 21) sample_heap = Inr h' \<and> \<not> heap_inv h' \<and>
     heap_events h' = mset (map (\<lambda>t. sample_event t (ucast t + 10)) [1, 10, 2, 12, 30, 3])) \<and>
   (\<exists>h'. heap_remove (sample_event 30 40) sample_heap = Inr h' \<and> heap_inv h')"
proof
  have u: "sample_event t (ucast t + 10) \<in># heap_events sample_heap \<and> uid_unique (sample_event t (ucast t + 10)) (heap_events sample_heap)"
    if "t \<in> {11, 30}" for t
    using that by (auto simp: sample_heap_ok uid_unique_def)
  obtain i h' where "1 \<le> i" "i < length sample_heap" "sample_heap ! i = sample_event 11 21" "heap_remove (sample_event 11 21) sample_heap = Inr h'"
    "heap_events sample_heap = add_mset (sample_event 11 21) (heap_events h')"
    "heap_inv h' \<longleftrightarrow> i = heap_root \<or> ev_rank (sample_heap ! heap_parent i) \<le> ev_rank (sample_heap ! heap_last sample_heap)"
    using heap_remove_keeps_heap_iff [OF sample_heap_ok(1), of "sample_event 11 21"] u [of 11] by auto
  moreover from this(1-3) have "i = 4"
    using sample_heap_position [of i 11 21 4] by simp
  moreover have "heap_events h' = mset (map (\<lambda>t. sample_event t (ucast t + 10)) [1, 10, 2, 12, 30, 3])"
  proof -
    have "add_mset (sample_event 11 21) (heap_events h') =
        add_mset (sample_event 11 21) (mset (map (\<lambda>t. sample_event t (ucast t + 10)) [1, 10, 2, 12, 30, 3]))"
      using calculation(5) by (simp add: sample_heap_ok(2) add_mset_commute)
    then show ?thesis
      by (simp only: add_mset_add_mset_same_iff)
  qed
  ultimately show "\<exists>h'. heap_remove (sample_event 11 21) sample_heap = Inr h' \<and> \<not> heap_inv h' \<and>
      heap_events h' = mset (map (\<lambda>t. sample_event t (ucast t + 10)) [1, 10, 2, 12, 30, 3])"
    by (intro exI [of _ h'] conjI) (auto simp: heap_root_def heap_parent_def heap_last_def sample_heap_def rank_le_iff)
  obtain i h' where "1 \<le> i" "i < length sample_heap" "sample_heap ! i = sample_event 30 40" "heap_remove (sample_event 30 40) sample_heap = Inr h'"
    "heap_inv h' \<longleftrightarrow> i = heap_root \<or> ev_rank (sample_heap ! heap_parent i) \<le> ev_rank (sample_heap ! heap_last sample_heap)"
    using heap_remove_keeps_heap_iff [OF sample_heap_ok(1), of "sample_event 30 40"] u [of 30] by auto
  moreover from this(1-3) have "i = 6"
    using sample_heap_position [of i 30 40 6] by simp
  ultimately show "\<exists>h'. heap_remove (sample_event 30 40) sample_heap = Inr h' \<and> heap_inv h'"
    by (intro exI [of _ h']) (auto simp: heap_root_def heap_parent_def heap_last_def sample_heap_def rank_le_iff)
qed

end
