(* ===== verification/Calendar_Scheduler.thy ===== *)
theory Calendar_Scheduler
  imports Scheduler_Interface
begin

text \<open>
  \<open>CalendarScheduler\<close> (\<open>src/core/model/calendar-scheduler.cc\<close>): an array of sorted buckets, a bucket
  per interval of \<open>m_width\<close> ticks modulo the number of buckets. A search starts at the bucket of the
  last removed time stamp and takes the first event of the current "year"; when a whole year is
  empty the least event of all buckets is taken. The array is resized as events come and go, with a
  width estimated from the first events. All counters keep their widths, so \<open>m_bucketTop\<close> may wrap
  around: the correctness proof shows that this is harmless as long as a year is at most \<open>2^64\<close> ticks.
\<close>

section \<open>State\<close>

record calendar =
  cal_buckets :: "event list list"
  cal_nBuckets :: "32 word"
  cal_width :: "64 word"
  cal_lastBucket :: "32 word"
  cal_bucketTop :: "64 word"
  cal_lastPrio :: "64 word"
  cal_qSize :: "32 word"
  cal_reverse :: bool

text \<open>The function pointers \<open>NextEvent\<close>, \<open>Order\<close> and \<open>Pop\<close>, as \<open>SetReverse\<close> sets them.\<close>

definition cal_next_event :: "bool \<Rightarrow> event list \<Rightarrow> event" where
  "cal_next_event reverse bucket = (if reverse then last bucket else hd bucket)"

definition cal_order :: "bool \<Rightarrow> event_key \<Rightarrow> event_key \<Rightarrow> bool" where
  "cal_order reverse a b = (if reverse then key_greater a b else key_less a b)"

definition cal_pop :: "bool \<Rightarrow> event list \<Rightarrow> event list" where
  "cal_pop reverse bucket = (if reverse then butlast bucket else tl bucket)"

section \<open>Operations\<close>

definition cal_hash :: "calendar \<Rightarrow> 64 word \<Rightarrow> 32 word" where
  "cal_hash c ts = ucast ((ts div cal_width c) mod ucast (cal_nBuckets c))"

definition cal_init :: "32 word \<Rightarrow> 64 word \<Rightarrow> 64 word \<Rightarrow> calendar \<Rightarrow> calendar" where
  "cal_init nBuckets width startPrio c =
     (let c1 = c\<lparr>cal_buckets := replicate (unat nBuckets) [],
                 cal_nBuckets := nBuckets,
                 cal_width := width,
                 cal_lastPrio := startPrio\<rparr>
      in c1\<lparr>cal_lastBucket := cal_hash c1 startPrio,
             cal_bucketTop := (startPrio div width + 1) * width\<rparr>)"

definition cal_create :: "bool \<Rightarrow> calendar" where
  "cal_create reverse =
     (cal_init 2 1 0
       \<lparr>cal_buckets = [], cal_nBuckets = 0, cal_width = 0, cal_lastBucket = 0,
        cal_bucketTop = 0, cal_lastPrio = 0, cal_qSize = 0, cal_reverse = reverse\<rparr>)"

fun cal_bucket_insert :: "bool \<Rightarrow> event \<Rightarrow> event list \<Rightarrow> event list" where
  "cal_bucket_insert r ev [] = [ev]"
| "cal_bucket_insert r ev (i # is) =
     (if cal_order r (ev_key ev) (ev_key i) then ev # i # is
      else i # cal_bucket_insert r ev is)"

definition cal_do_insert :: "event \<Rightarrow> calendar \<Rightarrow> calendar" where
  "cal_do_insert ev c =
     (let bucket = unat (cal_hash c (ev_ts ev))
      in c\<lparr>cal_buckets := (cal_buckets c)
             [bucket := cal_bucket_insert (cal_reverse c) ev (cal_buckets c ! bucket)]\<rparr>)"

definition cal_is_empty :: "calendar \<Rightarrow> bool" where
  "cal_is_empty c = (cal_qSize c = 0)"

text \<open>
  The loops of \<open>PeekNext\<close> and \<open>DoRemoveNext\<close>. The first argument bounds the number of buckets still
  to visit; the callers give \<open>m_nBuckets\<close>, which a cursor inside the array never exhausts.
\<close>

fun cal_peek_from :: "nat \<Rightarrow> calendar \<Rightarrow> 32 word \<Rightarrow> 64 word \<Rightarrow> event \<Rightarrow> event result" where
  "cal_peek_from 0 c i bucketTop minEvent = Inl Undefined_behaviour"
| "cal_peek_from (Suc n) c i bucketTop minEvent =
     (let bucket = cal_buckets c ! unat i;
          next = cal_next_event (cal_reverse c) bucket
      in if bucket \<noteq> [] \<and> ev_ts next < bucketTop then Inr next
         else
           (let minEvent' = (if bucket \<noteq> [] \<and> key_less (ev_key next) (ev_key minEvent) then next
                             else minEvent);
                i' = (i + 1) mod cal_nBuckets c;
                bucketTop' = bucketTop + cal_width c
            in if i' \<noteq> cal_lastBucket c then cal_peek_from n c i' bucketTop' minEvent'
               else Inr minEvent'))"

definition cal_peek_next :: "calendar \<Rightarrow> event result" where
  "cal_peek_next c =
     ns_assert (\<not> cal_is_empty c)
       (cal_peek_from (unat (cal_nBuckets c)) c (cal_lastBucket c) (cal_bucketTop c)
          \<lparr>ev_impl = None, ev_key = \<lparr>key_ts = - 1, key_uid = - 1, key_context = 0\<rparr>\<rparr>)"

fun cal_remove_from ::
  "nat \<Rightarrow> calendar \<Rightarrow> 32 word \<Rightarrow> 64 word \<Rightarrow> nat option \<Rightarrow> event_key \<Rightarrow> (event \<times> calendar) result" where
  "cal_remove_from 0 c i bucketTop minBucket minKey = Inl Undefined_behaviour"
| "cal_remove_from (Suc n) c i bucketTop minBucket minKey =
     (let bucket = cal_buckets c ! unat i;
          next = cal_next_event (cal_reverse c) bucket
      in if bucket \<noteq> [] \<and> ev_ts next < bucketTop then
           Inr (next, c\<lparr>cal_lastBucket := i,
                        cal_lastPrio := ev_ts next,
                        cal_bucketTop := bucketTop,
                        cal_buckets := (cal_buckets c)[unat i := cal_pop (cal_reverse c) bucket]\<rparr>)
         else
           (let smaller = (bucket \<noteq> [] \<and> key_less (ev_key next) minKey);
                minKey' = (if smaller then ev_key next else minKey);
                minBucket' = (if smaller then Some (unat i) else minBucket);
                i' = (i + 1) mod cal_nBuckets c;
                bucketTop' = bucketTop + cal_width c
            in if i' \<noteq> cal_lastBucket c then cal_remove_from n c i' bucketTop' minBucket' minKey'
               else deref minBucket' (\<lambda>b.
                 (let next' = cal_next_event (cal_reverse c) (cal_buckets c ! b)
                  in Inr (next', c\<lparr>cal_lastPrio := key_ts minKey',
                                   cal_lastBucket := cal_hash c (key_ts minKey'),
                                   cal_bucketTop := (key_ts minKey' div cal_width c + 1) * cal_width c,
                                   cal_buckets := (cal_buckets c)
                                     [b := cal_pop (cal_reverse c) (cal_buckets c ! b)]\<rparr>)))))"

definition cal_do_remove_next :: "calendar \<Rightarrow> (event \<times> calendar) result" where
  "cal_do_remove_next c =
     ns_assert (\<not> cal_is_empty c)
       (cal_remove_from (unat (cal_nBuckets c)) c (cal_lastBucket c) (cal_bucketTop c) None
          \<lparr>key_ts = - 1, key_uid = 0, key_context = 0xffffffff\<rparr>)"

text \<open>\<open>CalculateNewWidth\<close>: the first events are taken out, put back, and their distances averaged.\<close>

fun cal_take_samples :: "nat \<Rightarrow> calendar \<Rightarrow> (event list \<times> calendar) result" where
  "cal_take_samples 0 c = Inr ([], c)"
| "cal_take_samples (Suc n) c =
     res_bind (cal_do_remove_next c) (\<lambda>(e, c').
     res_bind (cal_take_samples n c') (\<lambda>(es, c''). Inr (e # es, c'')))"

fun cal_separation :: "(64 word \<Rightarrow> bool) \<Rightarrow> event list \<Rightarrow> 64 word" where
  "cal_separation p (cur # next # es) =
     (let diff = ev_ts next - ev_ts cur
      in (if p diff then diff else 0) + cal_separation p (next # es))"
| "cal_separation p _ = 0"

definition cal_n_samples :: "32 word \<Rightarrow> 32 word" where
  "cal_n_samples qSize =
     (let nSamples = (if qSize \<le> 5 then qSize else 5 + qSize div 10)
      in if nSamples > 25 then 25 else nSamples)"

definition cal_sampled_width :: "32 word \<Rightarrow> event list \<Rightarrow> 64 word" where
  "cal_sampled_width nSamples samples =
     (let twiceAvg = cal_separation (\<lambda>_. True) samples div ucast (nSamples - 1) * 2;
          totalSeparation = cal_separation (\<lambda>diff. diff \<le> twiceAvg) samples * 3
      in max totalSeparation 1)"

definition cal_calculate_new_width :: "calendar \<Rightarrow> (64 word \<times> calendar) result" where
  "cal_calculate_new_width c =
     (if cal_qSize c < 2 then Inr (1, c)
      else
        (let nSamples = cal_n_samples (cal_qSize c)
         in res_bind (cal_take_samples (unat nSamples) c) (\<lambda>(samples, c1).
            (let c2 = foldl (\<lambda>c' e. cal_do_insert e c') c1 samples;
                 c3 = c2\<lparr>cal_lastBucket := cal_lastBucket c,
                         cal_bucketTop := cal_bucketTop c,
                         cal_lastPrio := cal_lastPrio c\<rparr>
             in Inr (cal_sampled_width nSamples samples, c3)))))"

definition cal_do_resize :: "32 word \<Rightarrow> 64 word \<Rightarrow> calendar \<Rightarrow> calendar" where
  "cal_do_resize newSize newWidth c =
     (let oldBuckets = cal_buckets c;
          c1 = cal_init newSize newWidth (cal_lastPrio c) c
      in foldl (\<lambda>c' e. cal_do_insert e c') c1 (concat oldBuckets))"

definition cal_resize :: "32 word \<Rightarrow> calendar \<Rightarrow> calendar result" where
  "cal_resize newSize c =
     res_bind (cal_calculate_new_width c) (\<lambda>(newWidth, c'). Inr (cal_do_resize newSize newWidth c'))"

definition cal_resize_up :: "calendar \<Rightarrow> calendar result" where
  "cal_resize_up c =
     (if cal_qSize c > cal_nBuckets c * 2 \<and> cal_nBuckets c < 32768
      then cal_resize (cal_nBuckets c * 2) c else Inr c)"

definition cal_resize_down :: "calendar \<Rightarrow> calendar result" where
  "cal_resize_down c =
     (if cal_qSize c < cal_nBuckets c div 2 then cal_resize (cal_nBuckets c div 2) c else Inr c)"

definition cal_insert :: "event \<Rightarrow> calendar \<Rightarrow> calendar result" where
  "cal_insert ev c =
     (let c1 = cal_do_insert ev c
      in cal_resize_up (c1\<lparr>cal_qSize := cal_qSize c1 + 1\<rparr>))"

definition cal_remove_next :: "calendar \<Rightarrow> (event \<times> calendar) result" where
  "cal_remove_next c =
     ns_assert (\<not> cal_is_empty c)
       (res_bind (cal_do_remove_next c) (\<lambda>(ev, c1).
        res_bind (cal_resize_down (c1\<lparr>cal_qSize := cal_qSize c1 - 1\<rparr>)) (\<lambda>c2. Inr (ev, c2))))"

text \<open>The loop of \<open>Remove\<close> over one bucket: \<open>Some\<close> the bucket without the event.\<close>

fun cal_bucket_remove :: "event \<Rightarrow> event list \<Rightarrow> event list result" where
  "cal_bucket_remove ev [] = Inl Assert_failed"
| "cal_bucket_remove ev (i # is) =
     (if ev_uid i = ev_uid ev then ns_assert (ev_impl ev = ev_impl i) (Inr is)
      else res_map (\<lambda>is'. i # is') (cal_bucket_remove ev is))"

definition cal_remove :: "event \<Rightarrow> calendar \<Rightarrow> calendar result" where
  "cal_remove ev c =
     ns_assert (\<not> cal_is_empty c)
       (let bucket = unat (cal_hash c (ev_ts ev))
        in res_bind (cal_bucket_remove ev (cal_buckets c ! bucket)) (\<lambda>b'.
           cal_resize_down
             (c\<lparr>cal_buckets := (cal_buckets c)[bucket := b'], cal_qSize := cal_qSize c - 1\<rparr>)))"

definition cal_ops :: "bool \<Rightarrow> calendar scheduler_ops" where
  "cal_ops reverse =
     \<lparr>op_create = cal_create reverse,
      op_insert = cal_insert,
      op_is_empty = cal_is_empty,
      op_peek_next = cal_peek_next,
      op_remove_next = cal_remove_next,
      op_remove = cal_remove\<rparr>"

section \<open>Buckets\<close>

text \<open>A bucket in chronological order, whichever way it is stored.\<close>

definition cal_norm :: "bool \<Rightarrow> event list \<Rightarrow> event list" where
  "cal_norm r b = (if r then rev b else b)"

lemma mset_cal_norm [simp]: "mset (cal_norm r b) = mset b"
  by (simp add: cal_norm_def)

lemma set_cal_norm [simp]: "set (cal_norm r b) = set b"
  by (simp add: cal_norm_def)

lemma cal_norm_Nil [simp]: "cal_norm r b = [] \<longleftrightarrow> b = []"
  by (simp add: cal_norm_def)

lemma cal_norm_empty [simp]: "cal_norm r [] = []"
  by (simp add: cal_norm_def)

lemma cal_norm_split:
  "b \<noteq> [] \<Longrightarrow> cal_norm r b = cal_next_event r b # cal_norm r (cal_pop r b)"
  by (cases b rule: rev_cases; cases b) (auto simp: cal_norm_def cal_next_event_def cal_pop_def)

lemma cal_next_in [simp]: "b \<noteq> [] \<Longrightarrow> cal_next_event r b \<in> set b"
  by (simp add: cal_next_event_def)

lemma mset_cal_pop: "b \<noteq> [] \<Longrightarrow> mset b = add_mset (cal_next_event r b) (mset (cal_pop r b))"
  by (metis cal_norm_split mset.simps(2) mset_cal_norm)

lemma mset_cal_bucket_insert [simp]: "mset (cal_bucket_insert r ev b) = add_mset ev (mset b)"
  by (induction b) auto

lemma set_cal_bucket_insert [simp]: "set (cal_bucket_insert r ev b) = insert ev (set b)"
  by (induction b) auto

lemma sorted_cal_bucket_insert:
  "sorted_events (cal_norm r b) \<Longrightarrow> sorted_events (cal_norm r (cal_bucket_insert r ev b))"
  by (induction b)
    (auto simp: cal_norm_def cal_order_def sorted_events_append split: if_splits)

lemma sorted_cal_pop:
  "sorted_events (cal_norm r b) \<Longrightarrow> b \<noteq> [] \<Longrightarrow>
     sorted_events (cal_norm r (cal_pop r b)) \<and>
     (\<forall>e \<in> set b. ev_rank (cal_next_event r b) \<le> ev_rank e)"
  by (metis cal_norm_split set_cal_norm set_ConsD sorted_events_simps(2) order_refl)

lemma cal_bucket_remove_correct:
  assumes "e \<in> set b" and "\<forall>x \<in> set b. ev_uid x = ev_uid e \<longrightarrow> x = e"
  shows "\<exists>b'. cal_bucket_remove e b = Inr b' \<and> mset b = add_mset e (mset b') \<and>
           (sorted_events (cal_norm r b) \<longrightarrow> sorted_events (cal_norm r b'))"
  using assms
proof (induction b)
  case (Cons i "is")
  show ?case
  proof (cases "ev_uid i = ev_uid e")
    case True
    with Cons.prems have "i = e" by simp
    with True show ?thesis
      by (auto simp: cal_norm_def sorted_events_append)
  next
    case False
    with Cons.prems obtain b' where b': "cal_bucket_remove e is = Inr b'"
      "mset is = add_mset e (mset b')"
      "sorted_events (cal_norm r is) \<longrightarrow> sorted_events (cal_norm r b')"
      using Cons.IH by auto
    then have "set b' \<subseteq> set is"
      by (metis set_mset_add_mset_insert set_mset_mset subset_insertI)
    with False b' show ?thesis
      by (auto simp: cal_norm_def sorted_events_append split: if_splits)
  qed
qed simp

section \<open>Invariants\<close>

abbreviation cal_n :: "calendar \<Rightarrow> nat" where
  "cal_n c \<equiv> unat (cal_nBuckets c)"

abbreviation cal_w :: "calendar \<Rightarrow> nat" where
  "cal_w c \<equiv> unat (cal_width c)"

definition cal_home :: "calendar \<Rightarrow> event \<Rightarrow> nat" where
  "cal_home c e = unat (ev_ts e) div cal_w c mod cal_n c"

definition cal_events :: "calendar \<Rightarrow> event multiset" where
  "cal_events c = mset (concat (cal_buckets c))"

definition cal_horizon :: "64 word" where
  "cal_horizon = 0x400000000000"

definition cal_bucket_inv :: "calendar \<Rightarrow> bool" where
  "cal_bucket_inv c \<longleftrightarrow>
     0 < cal_n c \<and> cal_n c \<le> 65536 \<and> length (cal_buckets c) = cal_n c \<and>
     0 < cal_w c \<and> cal_w c * cal_n c \<le> 2 ^ 64 \<and>
     (\<forall>i < cal_n c. sorted_events (cal_norm (cal_reverse c) (cal_buckets c ! i)) \<and>
        (\<forall>e \<in> set (cal_buckets c ! i). cal_home c e = i \<and> ev_ts e \<le> cal_horizon))"

definition cal_cursor_inv :: "calendar \<Rightarrow> bool" where
  "cal_cursor_inv c \<longleftrightarrow>
     cal_lastBucket c = cal_hash c (cal_lastPrio c) \<and>
     cal_bucketTop c = (cal_lastPrio c div cal_width c + 1) * cal_width c \<and>
     (\<forall>e \<in># cal_events c. cal_lastPrio c \<le> ev_ts e)"

definition cal_inv :: "calendar \<Rightarrow> bool" where
  "cal_inv c \<longleftrightarrow>
     cal_bucket_inv c \<and> cal_cursor_inv c \<and>
     unat (cal_qSize c) = size (cal_events c)"

lemma in_cal_events:
  "cal_bucket_inv c \<Longrightarrow> e \<in># cal_events c \<longleftrightarrow> (\<exists>i < cal_n c. e \<in> set (cal_buckets c ! i))"
  by (auto simp: cal_events_def cal_bucket_inv_def) (metis in_set_conv_nth)+

lemma unat_cal_hash:
  assumes "cal_bucket_inv c"
  shows "unat (cal_hash c ts) = unat ts div cal_w c mod cal_n c"
proof -
  have n: "0 < cal_n c" "cal_n c < 2 ^ 32"
    using assms unsigned_less [where 'b = 32 and w = "cal_nBuckets c"]
    by (simp_all add: cal_bucket_inv_def)
  then have "unat ts div cal_w c mod cal_n c < 2 ^ 32"
    by (meson mod_less_divisor order_less_trans)
  then have "take_bit 32 (unat ts div cal_w c mod cal_n c) = unat ts div cal_w c mod cal_n c"
    by (simp add: take_bit_eq_mod)
  moreover have "take_bit 64 (cal_n c) = cal_n c"
    using n by (simp add: take_bit_eq_mod)
  ultimately show ?thesis
    by (simp add: cal_hash_def unsigned_ucast_eq unat_div unat_mod)
qed

lemma mset_concat_update:
  assumes "i < length bs"
  shows "mset (concat (bs[i := b])) + mset (bs ! i) = mset (concat bs) + mset b"
  using assms
proof (induction bs arbitrary: i)
  case (Cons x bs)
  show ?case
  proof (cases i)
    case (Suc j)
    with Cons have "mset (concat (bs[j := b])) + mset (bs ! j) = mset (concat bs) + mset b"
      by simp
    with Suc show ?thesis
      by (simp add: add.assoc)
  qed simp
qed simp

section \<open>The search\<close>

lemma len64: "LENGTH(64) = 64"
  by simp

lemma mod_add_inj:
  fixes k n x j :: nat
  assumes "x < n" and "j < n" and "(k + x) mod n = (k + j) mod n"
  shows "x = j"
proof (rule ccontr)
  assume "x \<noteq> j"
  then consider "x < j" | "j < x" by linarith
  then show False
  proof cases
    case 1
    with assms(3) have "n dvd (k + j) - (k + x)"
      by (metis mod_eq_dvd_iff_nat nat_add_left_cancel_le less_imp_le)
    with 1 assms(2) show False
      by (auto dest: dvd_imp_le)
  next
    case 2
    with assms(3) have "n dvd (k + x) - (k + j)"
      by (metis mod_eq_dvd_iff_nat nat_add_left_cancel_le less_imp_le)
    with 2 assms(1) show False
      by (auto dest: dvd_imp_le)
  qed
qed

lemma mod_add_surj:
  fixes k n b :: nat
  assumes "b < n"
  shows "\<exists>j < n. (k + j) mod n = b"
proof (intro exI conjI)
  let ?j = "(b + (n - k mod n)) mod n"
  have "(k + ?j) mod n = (k mod n + (b + (n - k mod n))) mod n"
    by (simp add: mod_simps)
  also have "k mod n + (b + (n - k mod n)) = b + n"
    using less_imp_le [OF mod_less_divisor [of n k]] assms by linarith
  finally show "(k + ?j) mod n = b"
    using assms by simp
  show "?j < n"
    using assms by simp
qed

text \<open>
  The test \<open>m_ts < bucketTop\<close> at the \<open>j\<close>-th visited bucket. \<open>bucketTop\<close> is taken modulo \<open>2^64\<close>; when
  it has wrapped around, the test fails.
\<close>

definition cal_top :: "nat \<Rightarrow> nat \<Rightarrow> nat \<Rightarrow> 64 word" where
  "cal_top w k j = of_nat ((k + j + 1) * w)"

lemma unat_cal_top:
  assumes "k * w < 2 ^ 64" and "(j + 1) * w \<le> 2 ^ 64"
  shows "unat (cal_top w k j) =
    (if (k + j + 1) * w < 2 ^ 64 then (k + j + 1) * w else (k + j + 1) * w - 2 ^ 64)"
proof -
  let ?t = "(k + j + 1) * w"
  have "?t = k * w + (j + 1) * w"
    by (simp add: algebra_simps)
  with assms have "?t < 2 * 2 ^ 64"
    by linarith
  then have "?t mod 2 ^ 64 = (if ?t < 2 ^ 64 then ?t else ?t - 2 ^ 64)"
    by (simp add: mod_if)
  moreover have "unat (cal_top w k j) = ?t mod 2 ^ LENGTH(64)"
    unfolding cal_top_def by (rule unat_of_nat)
  ultimately show ?thesis
    by (simp only: len64)
qed

lemma cal_top_found:
  assumes "k * w < 2 ^ 64" and "w * n \<le> 2 ^ 64" and "j < n" and "0 < w"
    and "k \<le> unat t div w" and "unat t div w mod n = (k + j) mod n"
    and "t < cal_top w k j"
  shows "unat t div w = k + j"
proof -
  have jw: "(j + 1) * w \<le> 2 ^ 64"
    using assms(2,3) by (metis Suc_eq_plus1 Suc_leI le_trans mult.commute mult_le_mono2)
  have lt: "unat t < unat (cal_top w k j)"
    using assms(7) by (simp add: word_less_nat_alt)
  have kt: "k * w \<le> unat t"
    using assms(4,5) by (simp add: less_eq_div_iff_mult_less_eq)
  have "(k + j + 1) * w < 2 ^ 64"
  proof (rule ccontr)
    assume "\<not> ?thesis"
    with lt unat_cal_top [OF assms(1) jw] have "unat t < (k + j + 1) * w - 2 ^ 64"
      by simp
    moreover have "(k + j + 1) * w = k * w + (j + 1) * w"
      by (simp add: algebra_simps)
    ultimately show False
      using jw kt by linarith
  qed
  with lt unat_cal_top [OF assms(1) jw] have "unat t < (k + j + 1) * w"
    by simp
  then have "unat t div w < k + j + 1"
    using assms(4) by (simp add: div_less_iff_less_mult)
  then obtain x where x: "unat t div w = k + x" "x \<le> j"
    using assms(5) by (metis add_less_cancel_left le_add_diff_inverse less_Suc_eq_le Suc_eq_plus1
        add.assoc)
  with assms(3,6) have "x = j"
    using mod_add_inj [of x n j k] by simp
  with x show ?thesis by simp
qed

lemma cal_top_not_found:
  assumes "k * w < 2 ^ 64" and "w * n \<le> 2 ^ 64" and "j < n" and "0 < w"
    and "\<not> t < cal_top w k j" and "(k + j + 1) * w < 2 ^ 64"
  shows "unat t div w \<noteq> k + j"
proof
  assume "unat t div w = k + j"
  then have "unat t < (k + j + 1) * w"
    using assms(4) by (metis Suc_eq_plus1 dividend_less_div_times mult.commute mult_Suc
        add.commute)
  moreover have "(j + 1) * w \<le> 2 ^ 64"
    using assms(2,3) by (metis Suc_eq_plus1 Suc_leI le_trans mult.commute mult_le_mono2)
  ultimately show False
    using assms(5,6) unat_cal_top [OF assms(1)] by (simp add: word_less_nat_alt)
qed

definition cal_heads_min :: "calendar \<Rightarrow> nat \<Rightarrow> bool" where
  "cal_heads_min c b \<longleftrightarrow>
     b < cal_n c \<and> cal_buckets c ! b \<noteq> [] \<and>
     (\<forall>b' < cal_n c. cal_buckets c ! b' \<noteq> [] \<longrightarrow>
        ev_rank (cal_next_event (cal_reverse c) (cal_buckets c ! b)) \<le>
        ev_rank (cal_next_event (cal_reverse c) (cal_buckets c ! b')))"

abbreviation cal_head :: "calendar \<Rightarrow> nat \<Rightarrow> event" where
  "cal_head c b \<equiv> cal_next_event (cal_reverse c) (cal_buckets c ! b)"

text \<open>The calendar after the head of bucket \<open>b\<close> has been taken.\<close>

definition cal_taken :: "calendar \<Rightarrow> nat \<Rightarrow> calendar" where
  "cal_taken c b =
     c\<lparr>cal_lastPrio := ev_ts (cal_head c b),
       cal_lastBucket := cal_hash c (ev_ts (cal_head c b)),
       cal_bucketTop := (ev_ts (cal_head c b) div cal_width c + 1) * cal_width c,
       cal_buckets := (cal_buckets c)[b := cal_pop (cal_reverse c) (cal_buckets c ! b)]\<rparr>"

abbreviation cal_k :: "calendar \<Rightarrow> nat" where
  "cal_k c \<equiv> unat (cal_lastPrio c) div cal_w c"

lemma cal_k_bound: "cal_k c * cal_w c < 2 ^ 64"
proof -
  have "cal_k c * cal_w c \<le> unat (cal_lastPrio c)"
    by simp
  also have "\<dots> < 2 ^ 64"
    using unsigned_less [where 'b = 64 and w = "cal_lastPrio c"] by simp
  finally show ?thesis .
qed

lemma cal_event_facts:
  assumes "cal_bucket_inv c" and "cal_cursor_inv c" and "b < cal_n c" and "e \<in> set (cal_buckets c ! b)"
  shows "unat (ev_ts e) div cal_w c mod cal_n c = b"
    and "cal_k c \<le> unat (ev_ts e) div cal_w c"
    and "ev_rank e < Rank (- 1) 0"
proof -
  have e: "cal_home c e = b" "ev_ts e \<le> cal_horizon"
    using assms(1,3,4) by (auto simp: cal_bucket_inv_def)
  from e(1) show "unat (ev_ts e) div cal_w c mod cal_n c = b"
    by (simp add: cal_home_def)
  have "cal_lastPrio c \<le> ev_ts e"
    using assms in_cal_events [OF assms(1)] by (auto simp: cal_cursor_inv_def)
  then show "cal_k c \<le> unat (ev_ts e) div cal_w c"
    by (simp add: word_le_nat_alt div_le_mono)
  have "cal_horizon < - 1"
    by (simp add: cal_horizon_def)
  with e(2) have "ev_ts e < - 1"
    by (rule le_less_trans)
  then show "ev_rank e < Rank (- 1) 0"
    by (simp add: key_rank_def less_rank_def)
qed

lemma cal_top_word:
  "(t div cal_width c + 1) * cal_width c = cal_top (cal_w c) (unat t div cal_w c) 0"
proof -
  have "t div cal_width c = of_nat (unat t div cal_w c)"
    by (simp flip: unat_div)
  then show ?thesis
    by (simp add: cal_top_def algebra_simps)
qed

lemma cal_top_Suc: "cal_top (cal_w c) k j + cal_width c = cal_top (cal_w c) k (j + 1)"
  by (simp add: cal_top_def algebra_simps)

lemma cal_top_shift: "cal_top w (k + j) 0 = cal_top w k j"
  by (simp add: cal_top_def algebra_simps)

lemma cal_next_index:
  assumes "cal_bucket_inv c" and "unat i = (k + j) mod cal_n c"
  shows "unat ((i + 1) mod cal_nBuckets c) = (k + (j + 1)) mod cal_n c"
proof -
  have "unat i < cal_n c" "cal_n c \<le> 65536"
    using assms by (simp_all add: cal_bucket_inv_def)
  then have "unat (i + 1) = unat i + 1"
    by (intro unat_add_lem [THEN iffD1, THEN trans]) simp_all
  then show ?thesis
    using assms(2) by (simp add: unat_mod mod_Suc_eq)
qed

text \<open>What the search knows after the first \<open>j\<close> buckets.\<close>

definition cal_passed :: "calendar \<Rightarrow> nat \<Rightarrow> bool" where
  "cal_passed c j \<longleftrightarrow>
     (\<forall>x < j. let b = (cal_k c + x) mod cal_n c
       in cal_buckets c ! b \<noteq> [] \<longrightarrow> (cal_k c + x + 1) * cal_w c < 2 ^ 64 \<longrightarrow>
          unat (ev_ts (cal_head c b)) div cal_w c \<noteq> cal_k c + x)"

definition cal_min_of :: "calendar \<Rightarrow> nat \<Rightarrow> nat option \<Rightarrow> event_key \<Rightarrow> bool" where
  "cal_min_of c j mb mk \<longleftrightarrow>
     (case mb of
        None \<Rightarrow> (\<forall>x < j. cal_buckets c ! ((cal_k c + x) mod cal_n c) = []) \<and> key_rank mk = Rank (- 1) 0
      | Some b \<Rightarrow> b < cal_n c \<and> cal_buckets c ! b \<noteq> [] \<and> mk = ev_key (cal_head c b) \<and>
          (\<forall>x < j. cal_buckets c ! ((cal_k c + x) mod cal_n c) \<noteq> [] \<longrightarrow>
             key_rank mk \<le> ev_rank (cal_head c ((cal_k c + x) mod cal_n c))))"

lemma cal_found_min:
  assumes bi: "cal_bucket_inv c" and cu: "cal_cursor_inv c" and j: "j < cal_n c"
    and b: "b = (cal_k c + j) mod cal_n c" and ne: "cal_buckets c ! b \<noteq> []"
    and found: "unat (ev_ts (cal_head c b)) div cal_w c = cal_k c + j"
    and passed: "cal_passed c j"
  shows "cal_heads_min c b"
proof -
  let ?w = "cal_w c" and ?n = "cal_n c" and ?k = "cal_k c"
  let ?e = "cal_head c b"
  have bn: "b < ?n" and w0: "0 < ?w"
    using b bi by (simp_all add: cal_bucket_inv_def)
  have "ev_rank ?e \<le> ev_rank (cal_head c b')" if b': "b' < ?n" "cal_buckets c ! b' \<noteq> []" for b'
  proof (rule ccontr)
    let ?e' = "cal_head c b'"
    assume "\<not> ?thesis"
    then have le: "ev_ts ?e' \<le> ev_ts ?e" and neq: "b' \<noteq> b"
      by (auto simp: not_le intro: rank_ts_mono less_imp_le)
    note f = cal_event_facts [OF bi cu b'(1) cal_next_in [OF b'(2), of "cal_reverse c"]]
    have "unat (ev_ts ?e') div ?w \<le> ?k + j"
      using le found by (metis div_le_mono word_le_nat_alt)
    with f(2) obtain x where x: "unat (ev_ts ?e') div ?w = ?k + x" "x \<le> j"
      by (metis add_le_cancel_left le_add_diff_inverse)
    have "x \<noteq> j"
    proof
      assume "x = j"
      with f(1) x(1) b have "b' = b" by simp
      with neq show False ..
    qed
    with x(2) have "x < j" by simp
    have "(?k + x + 1) * ?w \<le> (?k + j) * ?w"
      using \<open>x < j\<close> by (intro mult_le_mono1) simp
    also have "\<dots> \<le> unat (ev_ts ?e)"
      using found by (metis div_times_less_eq_dividend)
    also have "\<dots> < 2 ^ 64"
      using unsigned_less [where 'b = 64 and w = "ev_ts ?e"] by simp
    finally have "(?k + x + 1) * ?w < 2 ^ 64" .
    with passed \<open>x < j\<close> f(1) x(1) b'(2) show False
      by (auto simp: cal_passed_def Let_def)
  qed
  with bn ne show ?thesis
    by (simp add: cal_heads_min_def)
qed

lemma cal_min_of_all:
  assumes bi: "cal_bucket_inv c" and ne: "cal_events c \<noteq> {#}" and m: "cal_min_of c (cal_n c) mb mk"
  shows "\<exists>b. mb = Some b \<and> mk = ev_key (cal_head c b) \<and> cal_heads_min c b"
proof -
  have vis: "\<exists>x < cal_n c. (cal_k c + x) mod cal_n c = b" if "b < cal_n c" for b
    using that by (rule mod_add_surj)
  obtain e where "e \<in># cal_events c"
    using ne by auto
  then obtain b0 where "b0 < cal_n c" "cal_buckets c ! b0 \<noteq> []"
    using in_cal_events [OF bi] by fastforce
  with vis m obtain b where "mb = Some b"
    by (cases mb) (auto simp: cal_min_of_def)
  with m vis show ?thesis
    by (fastforce simp: cal_min_of_def cal_heads_min_def)
qed

lemma cal_min_of_step:
  assumes bi: "cal_bucket_inv c" and cu: "cal_cursor_inv c"
    and b: "b = (cal_k c + j) mod cal_n c" and m: "cal_min_of c j mb mk"
  defines "smaller \<equiv> cal_buckets c ! b \<noteq> [] \<and> key_less (ev_key (cal_head c b)) mk"
  shows "cal_min_of c (j + 1) (if smaller then Some b else mb)
    (if smaller then ev_key (cal_head c b) else mk)"
proof -
  have bn: "b < cal_n c"
    using b bi by (simp add: cal_bucket_inv_def)
  have lt: "ev_rank (cal_head c b) < Rank (- 1) 0" if "cal_buckets c ! b \<noteq> []"
    using cal_event_facts(3) [OF bi cu bn cal_next_in [OF that]] .
  show ?thesis
  proof (cases smaller)
    case True
    then have "cal_buckets c ! b \<noteq> []" "ev_rank (cal_head c b) < key_rank mk"
      by (auto simp: smaller_def)
    with True m bn b show ?thesis
      by (cases mb) (auto simp: cal_min_of_def less_Suc_eq)
  next
    case False
    then have le: "cal_buckets c ! b = [] \<or> key_rank mk \<le> ev_rank (cal_head c b)"
      by (auto simp: smaller_def)
    have "mb = None \<Longrightarrow> cal_buckets c ! b = []"
      using le lt m by (force simp: cal_min_of_def)
    with le False m b show ?thesis
      by (cases mb) (auto simp: cal_min_of_def less_Suc_eq)
  qed
qed

lemma cal_remove_from_step:
  assumes "\<not> (cal_buckets c ! unat i \<noteq> [] \<and> ev_ts (cal_head c (unat i)) < tp)"
    and "smaller = (cal_buckets c ! unat i \<noteq> [] \<and> key_less (ev_key (cal_head c (unat i))) mk)"
    and "mk' = (if smaller then ev_key (cal_head c (unat i)) else mk)"
    and "mb' = (if smaller then Some (unat i) else mb)"
    and "i' = (i + 1) mod cal_nBuckets c"
  shows "cal_remove_from (Suc m) c i tp mb mk =
    (if i' \<noteq> cal_lastBucket c then cal_remove_from m c i' (tp + cal_width c) mb' mk'
     else deref mb' (\<lambda>b. Inr (cal_head c b, c\<lparr>cal_lastPrio := key_ts mk',
            cal_lastBucket := cal_hash c (key_ts mk'),
            cal_bucketTop := (key_ts mk' div cal_width c + 1) * cal_width c,
            cal_buckets := (cal_buckets c)[b := cal_pop (cal_reverse c) (cal_buckets c ! b)]\<rparr>)))"
  using assms(1) unfolding assms(2-) by (simp only: cal_remove_from.simps Let_def if_False)

lemma cal_remove_from_correct:
  assumes bi: "cal_bucket_inv c" and cu: "cal_cursor_inv c" and ne: "cal_events c \<noteq> {#}"
    and "j < cal_n c" and "m = cal_n c - j" and "unat i = (cal_k c + j) mod cal_n c"
    and "tp = cal_top (cal_w c) (cal_k c) j" and "cal_passed c j" and "cal_min_of c j mb mk"
  shows "\<exists>b. cal_heads_min c b \<and> cal_remove_from m c i tp mb mk = Inr (cal_head c b, cal_taken c b)"
  using assms(4-)
proof (induction m arbitrary: j i tp mb mk)
  case (Suc m)
  let ?w = "cal_w c" and ?n = "cal_n c" and ?k = "cal_k c"
  let ?b = "unat i"
  let ?next = "cal_head c ?b"
  have b: "?b = (?k + j) mod ?n" "?b < ?n" "0 < ?w" "?w * ?n \<le> 2 ^ 64"
    using Suc.prems bi by (simp_all add: cal_bucket_inv_def)
  show ?case
  proof (cases "cal_buckets c ! ?b \<noteq> [] \<and> ev_ts ?next < tp")
    case True
    note f = cal_event_facts [OF bi cu b(2) cal_next_in [of _ "cal_reverse c"]]
    have year: "unat (ev_ts ?next) div ?w = ?k + j"
      using True f b Suc.prems(1,4) cal_k_bound
      by (intro cal_top_found [of _ _ ?n]) auto
    have "cal_heads_min c ?b"
      using cal_found_min [OF bi cu Suc.prems(1) b(1) _ year Suc.prems(5)] True by simp
    moreover have "i = cal_hash c (ev_ts ?next)"
      using unat_cal_hash [OF bi] year b(1) by (metis word_eq_iff_unsigned)
    moreover have "tp = (ev_ts ?next div cal_width c + 1) * cal_width c"
      using Suc.prems(4) year by (simp add: cal_top_word cal_top_shift)
    ultimately show ?thesis
      using True by (intro exI [of _ ?b]) (simp add: cal_taken_def Let_def)
  next
    case False
    let ?smaller = "cal_buckets c ! ?b \<noteq> [] \<and> key_less (ev_key ?next) mk"
    let ?mk = "if ?smaller then ev_key ?next else mk"
    let ?mb = "if ?smaller then Some ?b else mb"
    let ?i = "(i + 1) mod cal_nBuckets c"
    have idx: "unat ?i = (?k + (j + 1)) mod ?n"
      using cal_next_index [OF bi b(1)] .
    have tp': "tp + cal_width c = cal_top ?w ?k (j + 1)"
      using Suc.prems(4) cal_top_Suc by simp
    have "cal_buckets c ! ?b \<noteq> [] \<Longrightarrow> (?k + j + 1) * ?w < 2 ^ 64 \<Longrightarrow>
        unat (ev_ts ?next) div ?w \<noteq> ?k + j"
      using False Suc.prems(1,4) b cal_k_bound by (intro cal_top_not_found [of _ _ ?n]) auto
    then have passed: "cal_passed c (j + 1)"
      using Suc.prems(5) b(1) by (auto simp: cal_passed_def Let_def less_Suc_eq)
    have min': "cal_min_of c (j + 1) ?mb ?mk"
      by (rule cal_min_of_step [OF bi cu b(1) Suc.prems(6)])
    have last: "unat (cal_lastBucket c) = ?k mod ?n"
      using cu unat_cal_hash [OF bi] by (simp add: cal_cursor_inv_def)
    show ?thesis
    proof (cases "j + 1 = ?n")
      case end_: True
      then have i': "?i = cal_lastBucket c"
        using idx last by (metis mod_add_self2 word_eq_iff_unsigned)
      have "cal_min_of c ?n ?mb ?mk"
        using min' unfolding end_ .
      from cal_min_of_all [OF bi ne this] obtain b' where
        b': "?mb = Some b'" "?mk = ev_key (cal_head c b')" "cal_heads_min c b'"
        by (elim exE conjE)
      have "cal_remove_from (Suc m) c i tp mb mk = Inr (cal_head c b', cal_taken c b')"
        using cal_remove_from_step [OF False refl b'(2) [symmetric] b'(1) [symmetric] i' [symmetric]]
        by (simp add: cal_taken_def)
      with b'(3) show ?thesis
        by blast
    next
      case more: False
      then have j1: "j + 1 < ?n"
        using Suc.prems(1) by simp
      have "?i \<noteq> cal_lastBucket c"
      proof
        assume "?i = cal_lastBucket c"
        then have "(?k + (j + 1)) mod ?n = (?k + 0) mod ?n"
          using idx last by simp
        with j1 mod_add_inj [of "j + 1" ?n 0 ?k] show False by simp
      qed
      moreover have "m = ?n - (j + 1)"
        using Suc.prems(2) by simp
      from Suc.IH [OF j1 this idx tp' passed min'] obtain b' where "cal_heads_min c b'"
        "cal_remove_from m c ?i (tp + cal_width c) ?mb ?mk = Inr (cal_head c b', cal_taken c b')"
        by (elim exE conjE)
      ultimately show ?thesis
        by (intro exI [of _ b'])
          (simp only: cal_remove_from_step [OF False refl refl refl refl] simp_thms if_True)
    qed
  qed
qed simp

text \<open>\<open>PeekNext\<close> runs through the same buckets and finds the same event.\<close>

definition cal_same_min :: "calendar \<Rightarrow> nat option \<Rightarrow> event_key \<Rightarrow> event \<Rightarrow> bool" where
  "cal_same_min c mb mk e \<longleftrightarrow>
     (case mb of None \<Rightarrow> key_rank mk = Rank (- 1) 0 \<and> ev_rank e = Rank (- 1) (- 1)
      | Some b \<Rightarrow> e = cal_head c b \<and> mk = ev_key e)"

lemma cal_peek_from_eq:
  assumes bi: "cal_bucket_inv c" and cu: "cal_cursor_inv c"
    and "cal_remove_from m c i tp mb mk = Inr (e, c')" and "unat i < cal_n c"
    and "cal_same_min c mb mk e0"
  shows "cal_peek_from m c i tp e0 = Inr e"
  using assms(3-)
proof (induction m arbitrary: i tp mb mk e0)
  case (Suc m)
  let ?next = "cal_head c (unat i)"
  show ?case
  proof (cases "cal_buckets c ! unat i \<noteq> [] \<and> ev_ts ?next < tp")
    case True
    with Suc.prems(1) show ?thesis
      by (simp add: Let_def)
  next
    case False
    have lt: "cal_buckets c ! unat i \<noteq> [] \<Longrightarrow> ev_rank ?next < Rank (- 1) 0"
      using cal_event_facts(3) [OF bi cu Suc.prems(2) cal_next_in] .
    have "Rank (- 1) 0 \<le> Rank (- 1) (- 1 :: 32 word)"
      by (simp add: less_eq_rank_def)
    with lt have lt2: "cal_buckets c ! unat i \<noteq> [] \<Longrightarrow> ev_rank ?next < Rank (- 1) (- 1)"
      by (meson less_le_trans)
    define s1 where "s1 \<longleftrightarrow> cal_buckets c ! unat i \<noteq> [] \<and> key_less (ev_key ?next) mk"
    have s2: "s1 \<longleftrightarrow> cal_buckets c ! unat i \<noteq> [] \<and> key_less (ev_key ?next) (ev_key e0)"
      using lt lt2 Suc.prems(3) by (cases mb) (auto simp: s1_def cal_same_min_def)
    define mk' where "mk' = (if s1 then ev_key ?next else mk)"
    define mb' where "mb' = (if s1 then Some (unat i) else mb)"
    define e0' where "e0' = (if s1 then ?next else e0)"
    define i' where "i' = (i + 1) mod cal_nBuckets c"
    have same: "cal_same_min c mb' mk' e0'"
      using Suc.prems(3) by (simp add: cal_same_min_def mb'_def mk'_def e0'_def)
    have peek: "cal_peek_from (Suc m) c i tp e0 =
        (if i' \<noteq> cal_lastBucket c then cal_peek_from m c i' (tp + cal_width c) e0' else Inr e0')"
      using False unfolding e0'_def s2 i'_def
      by (simp only: cal_peek_from.simps Let_def if_False)
    have i': "unat i' < cal_n c"
      using bi by (simp add: i'_def unat_mod cal_bucket_inv_def)
    note step = cal_remove_from_step [OF False s1_def mk'_def mb'_def i'_def]
    show ?thesis
    proof (cases "i' = cal_lastBucket c")
      case True
      with step Suc.prems(1) obtain b where "mb' = Some b" "e = cal_head c b"
        by (auto simp: deref_eq_Inr)
      with same True show ?thesis
        by (simp only: peek cal_same_min_def option.case simp_thms if_False)
    next
      case more: False
      with step Suc.prems(1) have "cal_remove_from m c i' (tp + cal_width c) mb' mk' = Inr (e, c')"
        by simp
      from Suc.IH [OF this i' same] more show ?thesis
        by (simp only: peek simp_thms if_True)
    qed
  qed
qed simp

lemma cal_do_remove_next_correct:
  assumes bi: "cal_bucket_inv c" and cu: "cal_cursor_inv c" and ne: "cal_events c \<noteq> {#}"
    and q: "\<not> cal_is_empty c"
  obtains b where "cal_heads_min c b" and "cal_do_remove_next c = Inr (cal_head c b, cal_taken c b)"
    and "cal_peek_next c = Inr (cal_head c b)"
proof -
  have n: "0 < cal_n c"
    using bi by (simp add: cal_bucket_inv_def)
  have lb: "unat (cal_lastBucket c) = (cal_k c + 0) mod cal_n c"
    using cu unat_cal_hash [OF bi] by (simp add: cal_cursor_inv_def)
  have tp: "cal_bucketTop c = cal_top (cal_w c) (cal_k c) 0"
    using cu by (simp add: cal_cursor_inv_def cal_top_word)
  have "cal_passed c 0"
    by (simp add: cal_passed_def)
  moreover have "cal_min_of c 0 None \<lparr>key_ts = - 1, key_uid = 0, key_context = 0xffffffff\<rparr>"
    by (simp add: cal_min_of_def key_rank_def)
  ultimately obtain b where b: "cal_heads_min c b"
    "cal_remove_from (cal_n c) c (cal_lastBucket c) (cal_bucketTop c) None
       \<lparr>key_ts = - 1, key_uid = 0, key_context = 0xffffffff\<rparr> = Inr (cal_head c b, cal_taken c b)"
    using cal_remove_from_correct [OF bi cu ne n _ lb tp, of "cal_n c" None
        "\<lparr>key_ts = - 1, key_uid = 0, key_context = 0xffffffff\<rparr>"] by auto
  have "cal_peek_from (cal_n c) c (cal_lastBucket c) (cal_bucketTop c)
      \<lparr>ev_impl = None, ev_key = \<lparr>key_ts = - 1, key_uid = - 1, key_context = 0\<rparr>\<rparr> = Inr (cal_head c b)"
    using lb n by (intro cal_peek_from_eq [OF bi cu b(2)]) (simp_all add: cal_same_min_def key_rank_def)
  with b q show thesis
    by (intro that [of b]) (simp_all add: cal_do_remove_next_def cal_peek_next_def)
qed

lemma cal_heads_min_earliest:
  assumes bi: "cal_bucket_inv c" and m: "cal_heads_min c b"
  shows "earliest (cal_head c b) (cal_events c)"
proof -
  have "ev_rank (cal_head c b) \<le> ev_rank x" if x: "x \<in># cal_events c" for x
  proof -
    obtain i where i: "i < cal_n c" "x \<in> set (cal_buckets c ! i)"
      using x in_cal_events [OF bi] by auto
    have "ev_rank (cal_head c b) \<le> ev_rank (cal_head c i)"
      using m i by (auto simp: cal_heads_min_def)
    also have "\<dots> \<le> ev_rank x"
      using bi i sorted_cal_pop [of "cal_reverse c" "cal_buckets c ! i"]
      by (force simp: cal_bucket_inv_def)
    finally show ?thesis .
  qed
  moreover have "cal_head c b \<in># cal_events c"
    using m in_cal_events [OF bi] by (auto simp: cal_heads_min_def)
  ultimately show ?thesis
    by (simp add: earliest_def)
qed

section \<open>Changing buckets\<close>

lemma cal_bucket_inv_fields [simp]:
  "cal_bucket_inv (c\<lparr>cal_lastBucket := lb\<rparr>) = cal_bucket_inv c"
  "cal_bucket_inv (c\<lparr>cal_bucketTop := bt\<rparr>) = cal_bucket_inv c"
  "cal_bucket_inv (c\<lparr>cal_lastPrio := lp\<rparr>) = cal_bucket_inv c"
  "cal_bucket_inv (c\<lparr>cal_qSize := qs\<rparr>) = cal_bucket_inv c"
  by (simp_all add: cal_bucket_inv_def cal_home_def)

lemma cal_events_fields [simp]:
  "cal_events (c\<lparr>cal_lastBucket := lb\<rparr>) = cal_events c"
  "cal_events (c\<lparr>cal_bucketTop := bt\<rparr>) = cal_events c"
  "cal_events (c\<lparr>cal_lastPrio := lp\<rparr>) = cal_events c"
  "cal_events (c\<lparr>cal_qSize := qs\<rparr>) = cal_events c"
  by (simp_all add: cal_events_def)

lemma cal_set_bucket:
  assumes "cal_bucket_inv c" and "i < cal_n c"
    and "sorted_events (cal_norm (cal_reverse c) b)"
    and "\<And>e. e \<in> set b \<Longrightarrow> cal_home c e = i \<and> ev_ts e \<le> cal_horizon"
  shows "cal_bucket_inv (c\<lparr>cal_buckets := (cal_buckets c)[i := b]\<rparr>)"
    and "cal_events (c\<lparr>cal_buckets := (cal_buckets c)[i := b]\<rparr>) + mset (cal_buckets c ! i) =
      cal_events c + mset b"
proof -
  show "cal_bucket_inv (c\<lparr>cal_buckets := (cal_buckets c)[i := b]\<rparr>)"
    using assms by (auto simp: cal_bucket_inv_def cal_home_def nth_list_update)
  show "cal_events (c\<lparr>cal_buckets := (cal_buckets c)[i := b]\<rparr>) + mset (cal_buckets c ! i) =
      cal_events c + mset b"
    using assms(1,2) by (simp add: cal_events_def cal_bucket_inv_def mset_concat_update)
qed

lemma cal_in_bucket:
  "cal_bucket_inv c \<Longrightarrow> i < cal_n c \<Longrightarrow> e \<in> set (cal_buckets c ! i) \<Longrightarrow>
     cal_home c e = i \<and> ev_ts e \<le> cal_horizon"
  by (simp add: cal_bucket_inv_def)

lemma cal_bucket_sorted:
  "cal_bucket_inv c \<Longrightarrow> i < cal_n c \<Longrightarrow> sorted_events (cal_norm (cal_reverse c) (cal_buckets c ! i))"
  by (simp add: cal_bucket_inv_def)

lemma cal_do_insert_fields [simp]:
  "cal_nBuckets (cal_do_insert e c) = cal_nBuckets c"
  "cal_width (cal_do_insert e c) = cal_width c"
  "cal_lastBucket (cal_do_insert e c) = cal_lastBucket c"
  "cal_bucketTop (cal_do_insert e c) = cal_bucketTop c"
  "cal_lastPrio (cal_do_insert e c) = cal_lastPrio c"
  "cal_qSize (cal_do_insert e c) = cal_qSize c"
  "cal_reverse (cal_do_insert e c) = cal_reverse c"
  by (simp_all add: cal_do_insert_def Let_def)

lemma cal_do_insert_correct:
  assumes bi: "cal_bucket_inv c" and e: "ev_ts e \<le> cal_horizon"
  shows "cal_bucket_inv (cal_do_insert e c)"
    and "cal_events (cal_do_insert e c) = add_mset e (cal_events c)"
proof -
  let ?i = "unat (cal_hash c (ev_ts e))"
  have i: "?i = cal_home c e" "?i < cal_n c"
    using bi by (simp_all add: unat_cal_hash cal_home_def cal_bucket_inv_def)
  let ?b = "cal_bucket_insert (cal_reverse c) e (cal_buckets c ! ?i)"
  have s: "sorted_events (cal_norm (cal_reverse c) ?b)"
    using cal_bucket_sorted [OF bi i(2)] by (rule sorted_cal_bucket_insert)
  have m: "cal_home c x = ?i \<and> ev_ts x \<le> cal_horizon" if "x \<in> set ?b" for x
    using that e i cal_in_bucket [OF bi i(2)] by auto
  show "cal_bucket_inv (cal_do_insert e c)"
    using cal_set_bucket(1) [OF bi i(2) s m] by (simp add: cal_do_insert_def Let_def)
  show "cal_events (cal_do_insert e c) = add_mset e (cal_events c)"
    using cal_set_bucket(2) [OF bi i(2) s m] by (simp add: cal_do_insert_def Let_def)
qed

abbreviation cal_insert_all :: "event list \<Rightarrow> calendar \<Rightarrow> calendar" where
  "cal_insert_all es c \<equiv> foldl (\<lambda>c' e. cal_do_insert e c') c es"

lemma cal_insert_all_fields [simp]:
  "cal_nBuckets (cal_insert_all es c) = cal_nBuckets c"
  "cal_width (cal_insert_all es c) = cal_width c"
  "cal_lastBucket (cal_insert_all es c) = cal_lastBucket c"
  "cal_bucketTop (cal_insert_all es c) = cal_bucketTop c"
  "cal_lastPrio (cal_insert_all es c) = cal_lastPrio c"
  "cal_qSize (cal_insert_all es c) = cal_qSize c"
  "cal_reverse (cal_insert_all es c) = cal_reverse c"
  by (induction es arbitrary: c) simp_all

lemma cal_insert_all_correct:
  assumes "cal_bucket_inv c" and "\<And>e. e \<in> set es \<Longrightarrow> ev_ts e \<le> cal_horizon"
  shows "cal_bucket_inv (cal_insert_all es c) \<and>
    cal_events (cal_insert_all es c) = mset es + cal_events c"
  using assms by (induction es arbitrary: c) (simp_all add: cal_do_insert_correct)

lemma cal_taken_fields [simp]:
  "cal_nBuckets (cal_taken c b) = cal_nBuckets c"
  "cal_width (cal_taken c b) = cal_width c"
  "cal_qSize (cal_taken c b) = cal_qSize c"
  "cal_reverse (cal_taken c b) = cal_reverse c"
  "cal_lastPrio (cal_taken c b) = ev_ts (cal_head c b)"
  by (simp_all add: cal_taken_def)

lemma cal_taken_correct:
  assumes bi: "cal_bucket_inv c" and m: "cal_heads_min c b"
  shows "cal_bucket_inv (cal_taken c b)"
    and "cal_events c = add_mset (cal_head c b) (cal_events (cal_taken c b))"
    and "cal_cursor_inv (cal_taken c b)"
proof -
  have b: "b < cal_n c" "cal_buckets c ! b \<noteq> []"
    using m by (simp_all add: cal_heads_min_def)
  let ?b = "cal_pop (cal_reverse c) (cal_buckets c ! b)"
  let ?c = "c\<lparr>cal_buckets := (cal_buckets c)[b := ?b]\<rparr>"
  have ms: "mset (cal_buckets c ! b) = add_mset (cal_head c b) (mset ?b)"
    by (rule mset_cal_pop [OF b(2)])
  have "set ?b \<subseteq> set (cal_buckets c ! b)"
    using ms by (metis set_mset_add_mset_insert set_mset_mset subset_insertI)
  then have mem: "cal_home c x = b \<and> ev_ts x \<le> cal_horizon" if "x \<in> set ?b" for x
    using that cal_in_bucket [OF bi b(1)] by auto
  have s: "sorted_events (cal_norm (cal_reverse c) ?b)"
    using sorted_cal_pop [OF cal_bucket_sorted [OF bi b(1)] b(2)] by simp
  have eq: "cal_taken c b = ?c\<lparr>cal_lastPrio := ev_ts (cal_head c b),
      cal_lastBucket := cal_hash c (ev_ts (cal_head c b)),
      cal_bucketTop := (ev_ts (cal_head c b) div cal_width c + 1) * cal_width c\<rparr>"
    by (simp add: cal_taken_def)
  show "cal_bucket_inv (cal_taken c b)"
    using cal_set_bucket(1) [OF bi b(1) s mem] unfolding eq by simp
  have "cal_events ?c + add_mset (cal_head c b) (mset ?b) = cal_events c + mset ?b"
    using cal_set_bucket(2) [OF bi b(1) s mem] ms by simp
  then show ev: "cal_events c = add_mset (cal_head c b) (cal_events (cal_taken c b))"
    unfolding eq by simp
  have "ev_ts (cal_head c b) \<le> ev_ts x" if "x \<in># cal_events (cal_taken c b)" for x
    using cal_heads_min_earliest [OF bi m] that ev
    by (intro rank_ts_mono earliest_le [of _ "cal_events c"]) auto
  then show "cal_cursor_inv (cal_taken c b)"
    by (simp add: cal_cursor_inv_def cal_hash_def) (simp add: cal_taken_def cal_hash_def)
qed

section \<open>Sampling and widths\<close>

lemma cal_events_horizon: "cal_bucket_inv c \<Longrightarrow> e \<in># cal_events c \<Longrightarrow> ev_ts e \<le> cal_horizon"
  using in_cal_events cal_in_bucket by blast

lemma cal_take_samples_correct:
  assumes "cal_bucket_inv c" and "cal_cursor_inv c" and "m \<le> size (cal_events c)"
    and "\<not> cal_is_empty c"
  shows "\<exists>es c'. cal_take_samples m c = Inr (es, c') \<and> length es = m \<and> sorted_events es \<and>
    cal_bucket_inv c' \<and> cal_events c = mset es + cal_events c' \<and>
    cal_nBuckets c' = cal_nBuckets c \<and> cal_width c' = cal_width c \<and>
    cal_qSize c' = cal_qSize c \<and> cal_reverse c' = cal_reverse c"
  using assms
proof (induction m arbitrary: c)
  case (Suc m)
  then have "cal_events c \<noteq> {#}"
    by auto
  with Suc.prems obtain b where b: "cal_heads_min c b"
    "cal_do_remove_next c = Inr (cal_head c b, cal_taken c b)"
    by (metis cal_do_remove_next_correct)
  note t = cal_taken_correct [OF Suc.prems(1) b(1)]
  have "m \<le> size (cal_events (cal_taken c b))"
    using Suc.prems(3) t(2) by simp
  moreover have "\<not> cal_is_empty (cal_taken c b)"
    using Suc.prems(4) by (simp add: cal_is_empty_def)
  ultimately obtain es c' where IH: "cal_take_samples m (cal_taken c b) = Inr (es, c')"
    "length es = m" "sorted_events es" "cal_bucket_inv c'"
    "cal_events (cal_taken c b) = mset es + cal_events c'"
    "cal_nBuckets c' = cal_nBuckets c" "cal_width c' = cal_width c"
    "cal_qSize c' = cal_qSize c" "cal_reverse c' = cal_reverse c"
    using Suc.IH [OF t(1,3)] by auto
  have "ev_rank (cal_head c b) \<le> ev_rank x" if "x \<in> set es" for x
    using cal_heads_min_earliest [OF Suc.prems(1) b(1)] that t(2) IH(5)
    by (intro earliest_le [of _ "cal_events c"]) auto
  with b(2) IH t(2) show ?case
    by (intro exI [of _ "cal_head c b # es"] exI [of _ c']) auto
qed simp

lemma unat_word_diff: "a \<le> b \<Longrightarrow> unat (b - a) = unat b - unat (a :: 64 word)"
  by (simp add: unat_sub)

lemma cal_separation_bound:
  assumes "sorted_events es" and "\<And>e. e \<in> set es \<Longrightarrow> ev_ts e \<le> h" and "es \<noteq> []"
  shows "unat (cal_separation p es) \<le> unat h - unat (ev_ts (hd es))"
  using assms
proof (induction p es rule: cal_separation.induct)
  case (1 p cur "next" es)
  let ?d = "ev_ts next - ev_ts cur" and ?s = "cal_separation p (next # es)"
  have le: "ev_ts cur \<le> ev_ts next" "ev_ts next \<le> h"
    using "1.prems" by (auto intro: rank_ts_mono)
  have IH: "unat ?s \<le> unat h - unat (ev_ts next)"
    using "1.IH" "1.prems" by simp
  have "unat (cal_separation p (cur # next # es)) \<le> unat (if p ?d then ?d else 0) + unat ?s"
    by (simp add: Let_def unat_word_ariths(1))
  also have "\<dots> \<le> unat ?d + unat ?s"
    by simp
  also have "\<dots> \<le> (unat (ev_ts next) - unat (ev_ts cur)) + (unat h - unat (ev_ts next))"
    using IH le(1) by (simp add: unat_word_diff)
  also have "\<dots> \<le> unat h - unat (ev_ts cur)"
    using le by (simp add: word_le_nat_alt)
  finally show ?case by simp
qed simp_all

lemma cal_sampled_width_bounds:
  assumes "sorted_events es" and "\<And>e. e \<in> set es \<Longrightarrow> ev_ts e \<le> cal_horizon" and "es \<noteq> []"
  shows "0 < unat (cal_sampled_width n es)" and "unat (cal_sampled_width n es) * 65536 \<le> 2 ^ 64"
proof -
  define p where "p = (\<lambda>diff. diff \<le> cal_separation (\<lambda>_. True) es div ucast (n - 1) * 2)"
  have w: "cal_sampled_width n es = max (cal_separation p es * 3) 1"
    by (simp add: cal_sampled_width_def p_def Let_def)
  have "unat (cal_separation p es) \<le> unat cal_horizon"
    using order_trans [OF cal_separation_bound [OF assms] diff_le_self] by blast
  then have b: "unat (cal_separation p es) \<le> 2 ^ 46"
    by (simp add: cal_horizon_def)
  have "unat (cal_separation p es * 3) \<le> unat (cal_separation p es) * unat (3 :: 64 word)"
    unfolding unat_word_ariths(2) by (rule mod_less_eq_dividend)
  with b have "unat (cal_separation p es * 3) \<le> 3 * 2 ^ 46"
    by simp
  then have "unat (cal_sampled_width n es) \<le> 3 * 2 ^ 46"
    unfolding w max_def by simp
  then show "unat (cal_sampled_width n es) * 65536 \<le> 2 ^ 64"
    by simp
  have "1 \<le> cal_sampled_width n es"
    unfolding w by simp
  then show "0 < unat (cal_sampled_width n es)"
    by (simp add: word_le_nat_alt)
qed

lemma cal_n_samples_bounds:
  assumes "2 \<le> q"
  shows "0 < unat (cal_n_samples q)" and "unat (cal_n_samples q) \<le> unat q"
proof -
  have q: "2 \<le> unat q"
    using assms by (simp add: word_le_nat_alt)
  have d: "unat (q div 10) = unat q div 10"
    by (simp add: unat_div)
  have "unat q < 2 ^ 32"
    using unsigned_less [where 'b = 32 and w = q] by simp
  then have s: "unat (5 + q div 10) = 5 + unat q div 10"
    using d by (subst unat_add_lem [THEN iffD1]) simp_all
  have n: "unat (cal_n_samples q) = min 25 (if unat q \<le> 5 then unat q else 5 + unat q div 10)"
    using s by (auto simp: cal_n_samples_def Let_def word_le_nat_alt word_less_nat_alt min_def)
  then show "0 < unat (cal_n_samples q)"
    using q by simp
  have "5 + unat q div 10 \<le> unat q" if "\<not> unat q \<le> 5"
    using that by presburger
  then have "(if unat q \<le> 5 then unat q else 5 + unat q div 10) \<le> unat q"
    by simp
  with n show "unat (cal_n_samples q) \<le> unat q"
    by (simp only: min.coboundedI2)
qed

lemma cal_calculate_new_width_correct:
  assumes "cal_bucket_inv c" and "cal_cursor_inv c" and "unat (cal_qSize c) = size (cal_events c)"
  shows "\<exists>w c'. cal_calculate_new_width c = Inr (w, c') \<and> 0 < unat w \<and> unat w * 65536 \<le> 2 ^ 64 \<and>
    cal_bucket_inv c' \<and> cal_events c' = cal_events c \<and> cal_lastPrio c' = cal_lastPrio c \<and>
    cal_qSize c' = cal_qSize c \<and> cal_reverse c' = cal_reverse c"
proof (cases "cal_qSize c < 2")
  case True
  with assms(1) show ?thesis
    by (simp add: cal_calculate_new_width_def)
next
  case False
  let ?n = "cal_n_samples (cal_qSize c)"
  have n: "0 < unat ?n" "unat ?n \<le> size (cal_events c)"
    using cal_n_samples_bounds [of "cal_qSize c"] False assms(3) by simp_all
  moreover have "\<not> cal_is_empty c"
    using False by (auto simp: cal_is_empty_def)
  ultimately obtain es c1 where s: "cal_take_samples (unat ?n) c = Inr (es, c1)"
    "length es = unat ?n" "sorted_events es" "cal_bucket_inv c1"
    "cal_events c = mset es + cal_events c1"
    "cal_nBuckets c1 = cal_nBuckets c" "cal_width c1 = cal_width c"
    "cal_qSize c1 = cal_qSize c" "cal_reverse c1 = cal_reverse c"
    using cal_take_samples_correct [OF assms(1,2)] by metis
  have h: "ev_ts e \<le> cal_horizon" if "e \<in> set es" for e
    using that s(5) cal_events_horizon [OF assms(1)] by simp
  have ne: "es \<noteq> []"
    using n(1) s(2) by auto
  note ins = cal_insert_all_correct [OF s(4) h]
  show ?thesis
    using False s ins cal_sampled_width_bounds [OF s(3) h ne, of ?n]
    by (simp add: cal_calculate_new_width_def Let_def)
qed

lemma cal_bucket_top_fields:
  "cal_nBuckets (cal_init n w p c) = n" "cal_width (cal_init n w p c) = w"
  "cal_lastPrio (cal_init n w p c) = p" "cal_qSize (cal_init n w p c) = cal_qSize c"
  "cal_reverse (cal_init n w p c) = cal_reverse c"
  "cal_buckets (cal_init n w p c) = replicate (unat n) []"
  by (simp_all add: cal_init_def Let_def)

lemma cal_init_correct:
  assumes "0 < unat n" and "unat n \<le> 65536" and "0 < unat w" and "unat w * 65536 \<le> 2 ^ 64"
  shows "cal_bucket_inv (cal_init n w p c)" and "cal_events (cal_init n w p c) = {#}"
    and "cal_lastBucket (cal_init n w p c) = cal_hash (cal_init n w p c) p"
    and "cal_bucketTop (cal_init n w p c) = (p div w + 1) * w"
proof -
  have "unat w * unat n \<le> unat w * 65536"
    using assms(2) by simp
  with assms(4) have "unat w * unat n \<le> 2 ^ 64"
    by linarith
  with assms(1-3) show "cal_bucket_inv (cal_init n w p c)"
    by (simp add: cal_bucket_inv_def cal_bucket_top_fields)
  show "cal_events (cal_init n w p c) = {#}"
    by (simp add: cal_events_def cal_bucket_top_fields)
  show "cal_lastBucket (cal_init n w p c) = cal_hash (cal_init n w p c) p"
    and "cal_bucketTop (cal_init n w p c) = (p div w + 1) * w"
    by (simp_all add: cal_init_def cal_hash_def Let_def)
qed

lemma cal_do_resize_correct:
  assumes bi: "cal_bucket_inv c" and lp: "\<And>e. e \<in># cal_events c \<Longrightarrow> cal_lastPrio c \<le> ev_ts e"
    and q: "unat (cal_qSize c) = size (cal_events c)"
    and n: "0 < unat n" "unat n \<le> 65536" and w: "0 < unat w" "unat w * 65536 \<le> 2 ^ 64"
  shows "cal_inv (cal_do_resize n w c)" and "cal_events (cal_do_resize n w c) = cal_events c"
    and "cal_lastPrio (cal_do_resize n w c) = cal_lastPrio c"
    and "cal_reverse (cal_do_resize n w c) = cal_reverse c"
proof -
  let ?c1 = "cal_init n w (cal_lastPrio c) c" and ?es = "concat (cal_buckets c)"
  note i = cal_init_correct [OF n w, of "cal_lastPrio c" c]
  have h: "ev_ts e \<le> cal_horizon" if "e \<in> set ?es" for e
    using cal_events_horizon [OF bi, of e] that by (simp add: cal_events_def del: set_concat)
  note ia = cal_insert_all_correct [of ?c1 ?es, OF i(1) h]
  have ins: "cal_bucket_inv (cal_insert_all ?es ?c1)"
    using ia by blast
  have "cal_events (cal_insert_all ?es ?c1) = mset ?es + cal_events ?c1"
    using ia by blast
  then have ins2: "cal_events (cal_insert_all ?es ?c1) = cal_events c"
    unfolding i(2) by (simp add: cal_events_def)
  note ins = ins ins2
  have eq: "cal_do_resize n w c = cal_insert_all ?es ?c1"
    by (simp add: cal_do_resize_def Let_def)
  show "cal_events (cal_do_resize n w c) = cal_events c"
    "cal_lastPrio (cal_do_resize n w c) = cal_lastPrio c"
    "cal_reverse (cal_do_resize n w c) = cal_reverse c"
    by (simp_all add: eq ins(2) cal_bucket_top_fields)
  have "cal_cursor_inv (cal_insert_all ?es ?c1)"
    using i(3,4) lp ins(2) by (simp add: cal_cursor_inv_def cal_hash_def cal_bucket_top_fields)
  then show "cal_inv (cal_do_resize n w c)"
    using ins q by (simp add: cal_inv_def eq cal_bucket_top_fields)
qed

lemma cal_resize_correct:
  assumes "cal_inv c" and n: "0 < unat n" "unat n \<le> 65536"
  shows "\<exists>c'. cal_resize n c = Inr c' \<and> cal_inv c' \<and> cal_events c' = cal_events c \<and>
    cal_lastPrio c' = cal_lastPrio c \<and> cal_reverse c' = cal_reverse c"
proof -
  have inv: "cal_bucket_inv c" "cal_cursor_inv c" "unat (cal_qSize c) = size (cal_events c)"
    using assms(1) by (simp_all add: cal_inv_def)
  obtain w c' where w: "cal_calculate_new_width c = Inr (w, c')" "0 < unat w"
    "unat w * 65536 \<le> 2 ^ 64" "cal_bucket_inv c'" "cal_events c' = cal_events c"
    "cal_lastPrio c' = cal_lastPrio c" "cal_qSize c' = cal_qSize c" "cal_reverse c' = cal_reverse c"
    using cal_calculate_new_width_correct [OF inv] by blast
  have "cal_lastPrio c' \<le> ev_ts e" if "e \<in># cal_events c'" for e
    using that inv(2) w(5,6) by (simp add: cal_cursor_inv_def)
  from cal_do_resize_correct [OF w(4) this _ n w(2,3)] w inv(3) show ?thesis
    by (simp add: cal_resize_def)
qed

lemma cal_resize_up_correct:
  assumes "cal_inv c"
  shows "\<exists>c'. cal_resize_up c = Inr c' \<and> cal_inv c' \<and> cal_events c' = cal_events c \<and>
    cal_lastPrio c' = cal_lastPrio c \<and> cal_reverse c' = cal_reverse c"
proof (cases "cal_qSize c > cal_nBuckets c * 2 \<and> cal_nBuckets c < 32768")
  case True
  then have n: "cal_n c < 32768" "0 < cal_n c"
    using assms by (simp_all add: word_less_nat_alt cal_inv_def cal_bucket_inv_def)
  then have "unat (cal_nBuckets c * 2) = cal_n c * 2"
    by (subst unat_mult_lem [THEN iffD1]) simp_all
  with n True cal_resize_correct [OF assms, of "cal_nBuckets c * 2"] show ?thesis
    by (simp add: cal_resize_up_def)
next
  case False
  with assms show ?thesis
    by (auto simp: cal_resize_up_def)
qed

lemma cal_resize_down_correct:
  assumes "cal_inv c"
  shows "\<exists>c'. cal_resize_down c = Inr c' \<and> cal_inv c' \<and> cal_events c' = cal_events c \<and>
    cal_lastPrio c' = cal_lastPrio c \<and> cal_reverse c' = cal_reverse c"
proof (cases "cal_qSize c < cal_nBuckets c div 2")
  case True
  have d: "unat (cal_nBuckets c div 2) = cal_n c div 2"
    by (simp add: unat_div)
  with True have "0 < cal_n c div 2"
    by (simp add: word_less_nat_alt)
  moreover have "cal_n c div 2 \<le> 65536"
    using assms div_le_dividend [of "cal_n c" 2] unfolding cal_inv_def cal_bucket_inv_def by linarith
  ultimately show ?thesis
    using True d cal_resize_correct [OF assms, of "cal_nBuckets c div 2"]
    by (simp add: cal_resize_down_def)
next
  case False
  with assms show ?thesis
    by (simp add: cal_resize_down_def)
qed

section \<open>The operations\<close>

lemma cal_cursor_inv_fields [simp]:
  "cal_cursor_inv (c\<lparr>cal_qSize := qs\<rparr>) = cal_cursor_inv c"
  by (simp add: cal_cursor_inv_def cal_hash_def)

lemma cal_create_correct:
  "cal_inv (cal_create r)" "cal_events (cal_create r) = {#}" "cal_lastPrio (cal_create r) = 0"
  "cal_reverse (cal_create r) = r"
proof -
  let ?z = "\<lparr>cal_buckets = [], cal_nBuckets = 0, cal_width = 0, cal_lastBucket = 0,
        cal_bucketTop = 0, cal_lastPrio = 0, cal_qSize = 0, cal_reverse = r\<rparr>"
  have eq: "cal_create r = cal_init 2 1 0 ?z"
    by (simp add: cal_create_def)
  note i = cal_init_correct [of 2 1 0 ?z]
  show "cal_inv (cal_create r)"
    unfolding eq cal_inv_def cal_cursor_inv_def using i by (simp add: cal_bucket_top_fields)
  show "cal_events (cal_create r) = {#}"
    unfolding eq using i by simp
  show "cal_lastPrio (cal_create r) = 0" "cal_reverse (cal_create r) = r"
    unfolding eq by (simp_all add: cal_bucket_top_fields)
qed

lemma cal_inv_empty: "cal_inv c \<Longrightarrow> cal_is_empty c \<longleftrightarrow> cal_events c = {#}"
  by (simp add: cal_inv_def cal_is_empty_def unat_eq_zero flip: size_eq_0_iff_empty)
    (metis unat_0_iff)

lemma cal_insert_correct:
  assumes inv: "cal_inv c" and lo: "cal_lastPrio c \<le> ev_ts e" and hi: "ev_ts e \<le> cal_horizon"
    and cap: "Suc (size (cal_events c)) < 2 ^ 32"
  shows "\<exists>c'. cal_insert e c = Inr c' \<and> cal_inv c' \<and> cal_events c' = add_mset e (cal_events c) \<and>
    cal_lastPrio c' = cal_lastPrio c \<and> cal_reverse c' = cal_reverse c"
proof -
  let ?c1 = "cal_do_insert e c"
  have c: "cal_bucket_inv c" "cal_cursor_inv c" "unat (cal_qSize c) = size (cal_events c)"
    using inv by (simp_all add: cal_inv_def)
  note i = cal_do_insert_correct [OF c(1) hi]
  have "unat (cal_qSize c + 1) = Suc (size (cal_events c))"
    using c(3) cap by (subst unat_add_lem [THEN iffD1]) simp_all
  moreover have "cal_cursor_inv ?c1"
    using c(2) lo i(2) by (simp add: cal_cursor_inv_def cal_hash_def)
  ultimately have "cal_inv (?c1\<lparr>cal_qSize := cal_qSize ?c1 + 1\<rparr>)"
    using i by (simp add: cal_inv_def)
  from cal_resize_up_correct [OF this] i(2) show ?thesis
    by (simp add: cal_insert_def Let_def)
qed

lemma cal_dec_qSize:
  assumes "unat (cal_qSize c) = Suc n"
  shows "unat (cal_qSize c - 1) = n"
proof -
  have "1 \<le> cal_qSize c"
    using assms by (simp add: word_le_nat_alt)
  with assms show ?thesis
    by (simp add: unat_sub)
qed

lemma cal_remove_next_correct:
  assumes inv: "cal_inv c" and ne: "cal_events c \<noteq> {#}"
  shows "\<exists>e c'. cal_peek_next c = Inr e \<and> cal_remove_next c = Inr (e, c') \<and>
    earliest e (cal_events c) \<and> cal_inv c' \<and> cal_events c' = cal_events c - {#e#} \<and>
    cal_lastPrio c' = ev_ts e \<and> cal_reverse c' = cal_reverse c"
proof -
  have c: "cal_bucket_inv c" "cal_cursor_inv c" "unat (cal_qSize c) = size (cal_events c)"
    using inv by (simp_all add: cal_inv_def)
  have q: "\<not> cal_is_empty c"
    using inv ne by (simp add: cal_inv_empty)
  obtain b where b: "cal_heads_min c b" "cal_do_remove_next c = Inr (cal_head c b, cal_taken c b)"
    "cal_peek_next c = Inr (cal_head c b)"
    using cal_do_remove_next_correct [OF c(1,2) ne q] by blast
  note t = cal_taken_correct [OF c(1) b(1)]
  have "unat (cal_qSize c - 1) = size (cal_events (cal_taken c b))"
    using c(3) t(2) by (intro cal_dec_qSize) simp
  with t have "cal_inv ((cal_taken c b)\<lparr>cal_qSize := cal_qSize (cal_taken c b) - 1\<rparr>)"
    by (simp add: cal_inv_def)
  from cal_resize_down_correct [OF this] obtain c' where
    "cal_resize_down ((cal_taken c b)\<lparr>cal_qSize := cal_qSize (cal_taken c b) - 1\<rparr>) = Inr c'"
    "cal_inv c'" "cal_events c' = cal_events (cal_taken c b)"
    "cal_lastPrio c' = ev_ts (cal_head c b)" "cal_reverse c' = cal_reverse c"
    by auto
  with b q t(2) cal_heads_min_earliest [OF c(1) b(1)] show ?thesis
    by (simp add: cal_remove_next_def)
qed

lemma cal_remove_correct:
  assumes inv: "cal_inv c" and e: "e \<in># cal_events c" and u: "uid_unique e (cal_events c)"
  shows "\<exists>c'. cal_remove e c = Inr c' \<and> cal_inv c' \<and> cal_events c' = cal_events c - {#e#} \<and>
    cal_lastPrio c' = cal_lastPrio c \<and> cal_reverse c' = cal_reverse c"
proof -
  have c: "cal_bucket_inv c" "cal_cursor_inv c" "unat (cal_qSize c) = size (cal_events c)"
    using inv by (simp_all add: cal_inv_def)
  have q: "\<not> cal_is_empty c"
    using inv e by (auto simp: cal_inv_empty)
  let ?i = "unat (cal_hash c (ev_ts e))"
  have i: "?i = cal_home c e" "?i < cal_n c"
    using c(1) by (simp_all add: unat_cal_hash cal_home_def cal_bucket_inv_def)
  have ein: "e \<in> set (cal_buckets c ! ?i)"
    using e in_cal_events [OF c(1)] cal_in_bucket [OF c(1)] i(1) by metis
  have "\<forall>x \<in> set (cal_buckets c ! ?i). ev_uid x = ev_uid e \<longrightarrow> x = e"
    using u in_cal_events [OF c(1)] i(2) by (auto simp: uid_unique_def)
  from cal_bucket_remove_correct [OF ein this, of "cal_reverse c"]
    cal_bucket_sorted [OF c(1) i(2)] obtain b' where
    b': "cal_bucket_remove e (cal_buckets c ! ?i) = Inr b'"
      "mset (cal_buckets c ! ?i) = add_mset e (mset b')"
      "sorted_events (cal_norm (cal_reverse c) b')"
    by blast
  have sub: "set b' \<subseteq> set (cal_buckets c ! ?i)"
    using b'(2) by (metis set_mset_add_mset_insert set_mset_mset subset_insertI)
  have mem: "cal_home c x = ?i \<and> ev_ts x \<le> cal_horizon" if "x \<in> set b'" for x
    using that sub cal_in_bucket [OF c(1) i(2)] by auto
  let ?c1 = "c\<lparr>cal_buckets := (cal_buckets c)[?i := b']\<rparr>"
  have c1: "cal_bucket_inv ?c1" "cal_events c = add_mset e (cal_events ?c1)"
    using cal_set_bucket [OF c(1) i(2) b'(3) mem] b'(2) by simp_all
  have "cal_cursor_inv ?c1"
    using c(2) c1(2) by (auto simp: cal_cursor_inv_def cal_hash_def)
  moreover have "unat (cal_qSize c - 1) = size (cal_events ?c1)"
    using c(3) c1(2) by (intro cal_dec_qSize) simp
  ultimately have "cal_inv (?c1\<lparr>cal_qSize := cal_qSize c - 1\<rparr>)"
    using c1 by (simp add: cal_inv_def)
  from cal_resize_down_correct [OF this] c1(2) b'(1) q show ?thesis
    by (simp add: cal_remove_def Let_def)
qed

interpretation cal_queue: removable_event_queue "cal_ops r" "\<lambda>c. cal_inv c \<and> cal_reverse c = r"
  cal_events cal_lastPrio cal_horizon
proof unfold_locales
  show "(cal_inv (op_create (cal_ops r)) \<and> cal_reverse (op_create (cal_ops r)) = r) \<and>
      cal_events (op_create (cal_ops r)) = {#} \<and> cal_lastPrio (op_create (cal_ops r)) = 0"
    by (simp add: cal_ops_def cal_create_correct)
next
  fix q e
  assume "cal_inv q \<and> cal_reverse q = r" "fresh e (cal_events q)" "cal_lastPrio q \<le> ev_ts e"
    "ev_ts e \<le> cal_horizon" "Suc (size (cal_events q)) < 2 ^ 32"
  then show "\<exists>q'. op_insert (cal_ops r) e q = Inr q' \<and> (cal_inv q' \<and> cal_reverse q' = r) \<and>
      cal_events q' = add_mset e (cal_events q) \<and> cal_lastPrio q' = cal_lastPrio q"
    using cal_insert_correct [of q e] by (auto simp: cal_ops_def)
next
  fix q
  assume "cal_inv q \<and> cal_reverse q = r"
  then show "op_is_empty (cal_ops r) q = (cal_events q = {#})"
    by (simp add: cal_ops_def cal_inv_empty)
next
  fix q
  assume "cal_inv q \<and> cal_reverse q = r" "cal_events q \<noteq> {#}"
  then show "\<exists>e q'. op_peek_next (cal_ops r) q = Inr e \<and> op_remove_next (cal_ops r) q = Inr (e, q') \<and>
      earliest e (cal_events q) \<and> (cal_inv q' \<and> cal_reverse q' = r) \<and>
      cal_events q' = cal_events q - {#e#} \<and> cal_lastPrio q' \<le> ev_ts e"
    using cal_remove_next_correct [of q] by (fastforce simp: cal_ops_def)
next
  fix q e
  assume "cal_inv q \<and> cal_reverse q = r" "e \<in># cal_events q" "uid_unique e (cal_events q)"
  then show "\<exists>q'. op_remove (cal_ops r) e q = Inr q' \<and> (cal_inv q' \<and> cal_reverse q' = r) \<and>
      cal_events q' = cal_events q - {#e#} \<and> cal_lastPrio q' = cal_lastPrio q"
    using cal_remove_correct [of q e] by (auto simp: cal_ops_def)
qed

section \<open>Properties\<close>

text \<open>C19: \<open>CalendarScheduler::RemoveNext\<close>: the search for the next event by years ends within one round
  over the buckets, finds the earliest event although \<open>bucketTop\<close> may wrap around, agrees with
  \<open>PeekNext\<close>, and the invariant is kept through the resizing that may follow.\<close>

theorem calendar_remove_next_earliest:
  assumes "cal_inv c" and "cal_events c \<noteq> {#}"
  shows "\<exists>e c'. cal_peek_next c = Inr e \<and> cal_remove_next c = Inr (e, c') \<and>
    earliest e (cal_events c) \<and> cal_inv c' \<and> cal_events c' = cal_events c - {#e#} \<and>
    cal_lastPrio c' = ev_ts e"
  using cal_remove_next_correct [OF assms] by blast

theorem calendar_remove_next_earliest_witness:
  "\<exists>c e c'. cal_insert (sample_event 70 9) (cal_create True) = Inr c \<and>
     cal_remove_next c = Inr (e, c') \<and> e = sample_event 70 9 \<and> cal_events c' = {#}"
proof -
  have "sample_event 70 9 = sample_event 70 9" "ev_ts (sample_event 70 9) \<le> cal_horizon"
    by (simp_all add: cal_horizon_def)
  then obtain c where c: "cal_insert (sample_event 70 9) (cal_create True) = Inr c" "cal_inv c"
    "cal_events c = {#sample_event 70 9#}"
    using cal_insert_correct [OF cal_create_correct(1), of True "sample_event 70 9"]
      cal_create_correct [of True] by auto
  from calendar_remove_next_earliest [OF c(2)] c show ?thesis
    by (auto simp: earliest_def)
qed

text \<open>C29: \<open>CalendarScheduler::Insert\<close> stores the event and keeps the invariant, also when it doubles the
  number of buckets and distributes all events over buckets of a newly estimated width.\<close>

theorem calendar_insert_keeps_events:
  assumes "cal_inv c" and "cal_lastPrio c \<le> ev_ts e" and "ev_ts e \<le> cal_horizon"
    and "Suc (size (cal_events c)) < 2 ^ 32"
  shows "\<exists>c'. cal_insert e c = Inr c' \<and> cal_inv c' \<and> cal_events c' = add_mset e (cal_events c) \<and>
    cal_lastPrio c' = cal_lastPrio c \<and> cal_reverse c' = cal_reverse c"
  by (rule cal_insert_correct [OF assms])

theorem calendar_insert_keeps_events_witness:
  "\<exists>c'. cal_insert (sample_event 70 9) (cal_create False) = Inr c' \<and>
     cal_events c' = {#sample_event 70 9#}"
  using calendar_insert_keeps_events [OF cal_create_correct(1), of False "sample_event 70 9"]
  by (auto simp: cal_create_correct cal_horizon_def)

text \<open>\<open>CalendarScheduler::Remove\<close> finds a stored event in the bucket its time stamp hashes to, takes
  exactly this event out and keeps the invariant.\<close>

theorem calendar_remove_exact:
  assumes "cal_inv c" and "e \<in># cal_events c" and "uid_unique e (cal_events c)"
  shows "\<exists>c'. cal_remove e c = Inr c' \<and> cal_inv c' \<and> cal_events c' = cal_events c - {#e#} \<and>
    cal_lastPrio c' = cal_lastPrio c"
  using cal_remove_correct [OF assms] by blast

theorem calendar_remove_exact_witness:
  "\<exists>c c'. cal_insert (sample_event 70 9) (cal_create True) = Inr c \<and>
     cal_remove (sample_event 70 9) c = Inr c' \<and> cal_events c' = {#}"
proof -
  have "ev_ts (sample_event 70 9) \<le> cal_horizon"
    by (simp add: cal_horizon_def)
  then obtain c where c: "cal_insert (sample_event 70 9) (cal_create True) = Inr c" "cal_inv c"
    "cal_events c = {#sample_event 70 9#}"
    using cal_insert_correct [OF cal_create_correct(1), of True "sample_event 70 9"]
      cal_create_correct [of True] by auto
  from calendar_remove_exact [OF c(2), of "sample_event 70 9"] c show ?thesis
    by (auto simp: uid_unique_def)
qed

text \<open>C30: A resize, up or down, distributes the events over the new buckets without losing, duplicating
  or reordering any: only the layout changes, whatever width \<open>CalculateNewWidth\<close> estimates.\<close>

theorem calendar_resize_keeps_events:
  assumes "cal_inv c" and "0 < unat n" and "unat n \<le> 65536"
  shows "\<exists>c'. cal_resize n c = Inr c' \<and> cal_inv c' \<and> cal_events c' = cal_events c \<and>
    cal_lastPrio c' = cal_lastPrio c \<and> cal_reverse c' = cal_reverse c"
  by (rule cal_resize_correct [OF assms])

theorem calendar_resize_keeps_events_witness:
  "\<exists>c'. cal_resize 4 (cal_create False) = Inr c' \<and> cal_inv c' \<and> cal_events c' = {#}"
  using calendar_resize_keeps_events [OF cal_create_correct(1), of 4 False]
  by (auto simp: cal_create_correct)

end
