(* ===== verification/Default_Simulator.thy ===== *)
theory Default_Simulator
  imports Scheduler_Interface
begin

text \<open>
  \<open>DefaultSimulatorImpl\<close> (\<open>src/core/model/default-simulator-impl.cc\<close>), the single process simulation
  kernel: its state, every operation of \<open>SimulatorImpl\<close> it overrides, and the loop of \<open>Run\<close>. The
  scheduler behind \<open>m_events\<close> is an argument \<open>ops\<close>, the virtual function table of the object. What an
  event does when it is notified is an argument too: a \<open>handler\<close> is a program that may call back into
  the simulator, in its own thread or from another one, and goes on depending on the replies.

  The theory ends with the refinement of the kernel over any scheduler that keeps the contract
  \<open>event_queue\<close> to the kernel over the abstract event list \<open>spec_ops\<close>.
\<close>

section \<open>State\<close>

record event_with_context =
  wc_context :: "32 word"
  wc_timestamp :: "64 word"
  wc_event :: impl_ptr

record sim_core =
  sim_eventsWithContext :: "event_with_context list"
  sim_eventsWithContextEmpty :: bool
  sim_destroyEvents :: "event_id list"
  sim_stop :: bool
  sim_uid :: "32 word"
  sim_currentUid :: "32 word"
  sim_currentTs :: "64 word"
  sim_currentContext :: "32 word"
  sim_eventCount :: "64 word"
  sim_unscheduledEvents :: int
  sim_mainThreadId :: nat
  sim_cancel :: cancel_flags

record 'q sim = sim_core +
  sim_events :: "'q option"

definition NO_CONTEXT :: "32 word" where
  "NO_CONTEXT = 0xffffffff"

definition sim_init :: "nat \<Rightarrow> 'q sim" where
  "sim_init thread =
     \<lparr>sim_eventsWithContext = [], sim_eventsWithContextEmpty = True, sim_destroyEvents = [],
      sim_stop = False, sim_uid = uid_VALID, sim_currentUid = uid_INVALID, sim_currentTs = 0,
      sim_currentContext = NO_CONTEXT, sim_eventCount = 0, sim_unscheduledEvents = 0,
      sim_mainThreadId = thread, sim_cancel = (\<lambda>_. False), sim_events = None\<rparr>"

section \<open>Integers\<close>

text \<open>
  \<open>m_unscheduledEvents\<close> is an \<open>int\<close> and \<open>Time\<close> holds an \<open>int64_t\<close>: an overflow of either is undefined.
\<close>

definition int_add :: "int \<Rightarrow> int \<Rightarrow> int result" where
  "int_add a b =
     (if - (2 ^ 31) \<le> a + b \<and> a + b < 2 ^ 31 then Inr (a + b) else Inl Undefined_behaviour)"

definition time_add :: "64 word \<Rightarrow> 64 word \<Rightarrow> 64 word result" where
  "time_add a b =
     (if - (2 ^ 63) \<le> sint a + sint b \<and> sint a + sint b < 2 ^ 63 then Inr (a + b)
      else Inl Undefined_behaviour)"

definition time_is_positive :: "64 word \<Rightarrow> bool" where
  "time_is_positive t \<longleftrightarrow> 0 \<le> sint t"

section \<open>Scheduling\<close>

text \<open>
  The statements that \<open>Schedule\<close>, \<open>ScheduleWithContext\<close> and \<open>ProcessEventsWithContext\<close> share: fill in
  the key, take the next uid, count the event and insert it.
\<close>

definition sim_enqueue ::
  "'q scheduler_ops \<Rightarrow> impl_ptr \<Rightarrow> 64 word \<Rightarrow> 32 word \<Rightarrow> 'q sim \<Rightarrow> (event \<times> 'q sim) result" where
  "sim_enqueue ops impl ts context s =
     (let ev = \<lparr>ev_impl = impl,
                ev_key = \<lparr>key_ts = ts, key_uid = sim_uid s, key_context = context\<rparr>\<rparr>
      in res_bind (int_add (sim_unscheduledEvents s) 1) (\<lambda>unscheduled.
         ptr_deref (sim_events s) (\<lambda>q.
         res_bind (op_insert ops ev q) (\<lambda>q'.
         Inr (ev, s\<lparr>sim_uid := sim_uid s + 1,
                    sim_unscheduledEvents := unscheduled,
                    sim_events := Some q'\<rparr>)))))"

definition sim_schedule ::
  "'q scheduler_ops \<Rightarrow> nat \<Rightarrow> 64 word \<Rightarrow> impl_ptr \<Rightarrow> 'q sim \<Rightarrow> (event_id \<times> 'q sim) result" where
  "sim_schedule ops thread delay impl s =
     ns_assert (sim_mainThreadId s = thread)
       (ns_assert (time_is_positive delay)
          (res_bind (time_add delay (sim_currentTs s)) (\<lambda>tAbsolute.
           res_bind (sim_enqueue ops impl tAbsolute (sim_currentContext s) s) (\<lambda>(ev, s').
           Inr (\<lparr>id_impl = impl, id_ts = ev_ts ev, id_context = ev_context ev, id_uid = ev_uid ev\<rparr>,
                s')))))"

definition sim_schedule_with_context ::
  "'q scheduler_ops \<Rightarrow> nat \<Rightarrow> 32 word \<Rightarrow> 64 word \<Rightarrow> impl_ptr \<Rightarrow> 'q sim \<Rightarrow> 'q sim result" where
  "sim_schedule_with_context ops thread context delay impl s =
     (if sim_mainThreadId s = thread then
        res_bind (time_add delay (sim_currentTs s)) (\<lambda>tAbsolute.
        res_bind (sim_enqueue ops impl tAbsolute context s) (\<lambda>(ev, s'). Inr s'))
      else
        (let ev = \<lparr>wc_context = context, wc_timestamp = delay, wc_event = impl\<rparr>
         in Inr (s\<lparr>sim_eventsWithContext := sim_eventsWithContext s @ [ev],
                   sim_eventsWithContextEmpty := False\<rparr>)))"

definition sim_schedule_now ::
  "'q scheduler_ops \<Rightarrow> nat \<Rightarrow> impl_ptr \<Rightarrow> 'q sim \<Rightarrow> (event_id \<times> 'q sim) result" where
  "sim_schedule_now ops thread impl s =
     ns_assert (sim_mainThreadId s = thread) (sim_schedule ops thread 0 impl s)"

definition sim_schedule_destroy ::
  "nat \<Rightarrow> impl_ptr \<Rightarrow> 'q sim \<Rightarrow> (event_id \<times> 'q sim) result" where
  "sim_schedule_destroy thread impl s =
     ns_assert (sim_mainThreadId s = thread)
       (let eid = \<lparr>id_impl = impl, id_ts = sim_currentTs s, id_context = 0xffffffff, id_uid = 2\<rparr>
        in Inr (eid, s\<lparr>sim_destroyEvents := sim_destroyEvents s @ [eid],
                       sim_uid := sim_uid s + 1\<rparr>))"

section \<open>Queries and control\<close>

definition sim_is_finished :: "'q scheduler_ops \<Rightarrow> 'q sim \<Rightarrow> bool result" where
  "sim_is_finished ops s = ptr_deref (sim_events s) (\<lambda>q. Inr (op_is_empty ops q \<or> sim_stop s))"

definition sim_do_stop :: "'q sim \<Rightarrow> 'q sim" where
  "sim_do_stop s = s\<lparr>sim_stop := True\<rparr>"

text \<open>
  \<open>Stop(delay)\<close> schedules an event that calls \<open>Simulator::Stop\<close>; \<open>impl\<close> is the new event object.
\<close>

definition sim_stop_delay ::
  "'q scheduler_ops \<Rightarrow> nat \<Rightarrow> 64 word \<Rightarrow> impl_ptr \<Rightarrow> 'q sim \<Rightarrow> 'q sim result" where
  "sim_stop_delay ops thread delay impl s = res_map snd (sim_schedule ops thread delay impl s)"

definition sim_is_expired :: "event_id \<Rightarrow> 'q sim \<Rightarrow> bool" where
  "sim_is_expired eid s =
     (if id_uid eid = uid_DESTROY then
        (case id_impl eid of
           None \<Rightarrow> True
         | Some i \<Rightarrow>
             if impl_is_cancelled (sim_cancel s) i then True
             else \<not> list_ex (\<lambda>d. event_id_eq d eid) (sim_destroyEvents s))
      else
        (case id_impl eid of
           None \<Rightarrow> True
         | Some i \<Rightarrow>
             id_ts eid < sim_currentTs s \<or>
             (id_ts eid = sim_currentTs s \<and> id_uid eid \<le> sim_currentUid s) \<or>
             impl_is_cancelled (sim_cancel s) i))"

definition sim_now :: "'q sim \<Rightarrow> 64 word" where
  "sim_now s = sim_currentTs s"

definition sim_get_delay_left :: "event_id \<Rightarrow> 'q sim \<Rightarrow> 64 word" where
  "sim_get_delay_left eid s = (if sim_is_expired eid s then 0 else id_ts eid - sim_currentTs s)"

definition sim_do_cancel :: "event_id \<Rightarrow> 'q sim \<Rightarrow> 'q sim result" where
  "sim_do_cancel eid s =
     (if \<not> sim_is_expired eid s then
        deref (id_impl eid) (\<lambda>i. Inr (s\<lparr>sim_cancel := impl_cancel i (sim_cancel s)\<rparr>))
      else Inr s)"

fun destroy_erase :: "event_id \<Rightarrow> event_id list \<Rightarrow> event_id list" where
  "destroy_erase eid [] = []"
| "destroy_erase eid (d # ds) = (if event_id_eq d eid then ds else d # destroy_erase eid ds)"

definition sim_remove :: "'q scheduler_ops \<Rightarrow> event_id \<Rightarrow> 'q sim \<Rightarrow> 'q sim result" where
  "sim_remove ops eid s =
     (if id_uid eid = uid_DESTROY then
        Inr (s\<lparr>sim_destroyEvents := destroy_erase eid (sim_destroyEvents s)\<rparr>)
      else if sim_is_expired eid s then Inr s
      else
        (let ev = \<lparr>ev_impl = id_impl eid,
                   ev_key = \<lparr>key_ts = id_ts eid, key_uid = id_uid eid, key_context = id_context eid\<rparr>\<rparr>
         in ptr_deref (sim_events s) (\<lambda>q.
            res_bind (op_remove ops ev q) (\<lambda>q'.
            deref (ev_impl ev) (\<lambda>i.
            res_bind (int_add (sim_unscheduledEvents s) (- 1)) (\<lambda>unscheduled.
            Inr (s\<lparr>sim_events := Some q',
                   sim_cancel := impl_cancel i (sim_cancel s),
                   sim_unscheduledEvents := unscheduled\<rparr>)))))))"

definition sim_maximum_time :: "64 word" where
  "sim_maximum_time = 0x7fffffffffffffff"

section \<open>Event handlers\<close>

text \<open>
  The calls a notified event makes, and the replies. \<open>Call t c k\<close> makes the call \<open>c\<close> in thread \<open>t\<close>:
  calls of other threads interleave with those of the event in any order the handler lists. The
  parameter \<open>'w\<close> is the state of the simulated network.
\<close>

datatype sim_call =
    C_schedule "64 word" impl_ptr
  | C_schedule_with_context "32 word" "64 word" impl_ptr
  | C_schedule_now impl_ptr
  | C_schedule_destroy impl_ptr
  | C_remove event_id
  | C_cancel event_id
  | C_is_expired event_id
  | C_get_delay_left event_id
  | C_now
  | C_get_context
  | C_get_event_count
  | C_stop
  | C_stop_delay "64 word" impl_ptr

datatype sim_reply =
    R_unit
  | R_id event_id
  | R_bool bool
  | R_ticks "64 word"
  | R_context "32 word"

datatype 'w handler = Return 'w | Call nat sim_call "sim_reply \<Rightarrow> 'w handler"

fun sim_do_call ::
  "'q scheduler_ops \<Rightarrow> nat \<Rightarrow> sim_call \<Rightarrow> 'q sim \<Rightarrow> (sim_reply \<times> 'q sim) result" where
  "sim_do_call ops t (C_schedule delay impl) s =
     res_map (apfst R_id) (sim_schedule ops t delay impl s)"
| "sim_do_call ops t (C_schedule_with_context context delay impl) s =
     res_map (Pair R_unit) (sim_schedule_with_context ops t context delay impl s)"
| "sim_do_call ops t (C_schedule_now impl) s =
     res_map (apfst R_id) (sim_schedule_now ops t impl s)"
| "sim_do_call ops t (C_schedule_destroy impl) s =
     res_map (apfst R_id) (sim_schedule_destroy t impl s)"
| "sim_do_call ops t (C_remove eid) s = res_map (Pair R_unit) (sim_remove ops eid s)"
| "sim_do_call ops t (C_cancel eid) s = res_map (Pair R_unit) (sim_do_cancel eid s)"
| "sim_do_call ops t (C_is_expired eid) s = Inr (R_bool (sim_is_expired eid s), s)"
| "sim_do_call ops t (C_get_delay_left eid) s = Inr (R_ticks (sim_get_delay_left eid s), s)"
| "sim_do_call ops t C_now s = Inr (R_ticks (sim_now s), s)"
| "sim_do_call ops t C_get_context s = Inr (R_context (sim_currentContext s), s)"
| "sim_do_call ops t C_get_event_count s = Inr (R_ticks (sim_eventCount s), s)"
| "sim_do_call ops t C_stop s = Inr (R_unit, sim_do_stop s)"
| "sim_do_call ops t (C_stop_delay delay impl) s =
     res_map (Pair R_unit) (sim_stop_delay ops t delay impl s)"

primrec sim_handle :: "'q scheduler_ops \<Rightarrow> 'w handler \<Rightarrow> 'q sim \<Rightarrow> ('w \<times> 'q sim) result" where
  "sim_handle ops (Return w) s = Inr (w, s)"
| "sim_handle ops (Call t c k) s =
     res_bind (sim_do_call ops t c s) (\<lambda>(r, s'). sim_handle ops (k r) s')"

text \<open>\<open>EventImpl::Invoke\<close>; \<open>notify\<close> is the virtual method \<open>Notify\<close>.\<close>

definition sim_invoke ::
  "'q scheduler_ops \<Rightarrow> (nat \<Rightarrow> 'w \<Rightarrow> 'w handler) \<Rightarrow> nat \<Rightarrow> 'w \<Rightarrow> 'q sim \<Rightarrow> ('w \<times> 'q sim) result" where
  "sim_invoke ops notify i w s =
     (if \<not> impl_is_cancelled (sim_cancel s) i then sim_handle ops (notify i w) s else Inr (w, s))"

section \<open>Running\<close>

text \<open>The loop of \<open>ProcessEventsWithContext\<close> over the swapped list.\<close>

fun sim_move_events ::
  "'q scheduler_ops \<Rightarrow> event_with_context list \<Rightarrow> 'q sim \<Rightarrow> 'q sim result" where
  "sim_move_events ops [] s = Inr s"
| "sim_move_events ops (event # rest) s =
     res_bind (sim_enqueue ops (wc_event event) (sim_currentTs s + wc_timestamp event)
                 (wc_context event) s)
       (\<lambda>(ev, s'). sim_move_events ops rest s')"

definition sim_process_events_with_context ::
  "'q scheduler_ops \<Rightarrow> 'q sim \<Rightarrow> 'q sim result" where
  "sim_process_events_with_context ops s =
     (if sim_eventsWithContextEmpty s then Inr s
      else sim_move_events ops (sim_eventsWithContext s)
             (s\<lparr>sim_eventsWithContext := [], sim_eventsWithContextEmpty := True\<rparr>))"

definition sim_process_one_event ::
  "'q scheduler_ops \<Rightarrow> (nat \<Rightarrow> 'w \<Rightarrow> 'w handler) \<Rightarrow> 'w \<Rightarrow> 'q sim \<Rightarrow> ('w \<times> 'q sim) result" where
  "sim_process_one_event ops notify w s =
     ptr_deref (sim_events s) (\<lambda>q.
     res_bind (op_remove_next ops q) (\<lambda>(next, q').
     ns_assert (sim_currentTs s \<le> ev_ts next)
       (res_bind (int_add (sim_unscheduledEvents s) (- 1)) (\<lambda>unscheduled.
        deref (ev_impl next) (\<lambda>i.
        res_bind
          (sim_invoke ops notify i w
             (s\<lparr>sim_events := Some q',
                sim_unscheduledEvents := unscheduled,
                sim_eventCount := sim_eventCount s + 1,
                sim_currentTs := ev_ts next,
                sim_currentContext := ev_context next,
                sim_currentUid := ev_uid next\<rparr>)) (\<lambda>(w', s').
        res_bind (sim_process_events_with_context ops s') (\<lambda>s''. Inr (w', s''))))))))"

text \<open>
  The loop of \<open>Run\<close>. A simulation may go on for ever, so the loop has a bound on the number of
  events; \<open>None\<close> says that the bound was reached.
\<close>

fun sim_loop ::
  "'q scheduler_ops \<Rightarrow> (nat \<Rightarrow> 'w \<Rightarrow> 'w handler) \<Rightarrow> nat \<Rightarrow> 'w \<Rightarrow> 'q sim \<Rightarrow>
     ('w \<times> 'q sim) result option" where
  "sim_loop ops notify n w s =
     (case sim_events s of
        None \<Rightarrow> Some (Inl Assert_failed)
      | Some q \<Rightarrow>
          if \<not> op_is_empty ops q \<and> \<not> sim_stop s then
            (case n of
               0 \<Rightarrow> None
             | Suc m \<Rightarrow>
                 (case sim_process_one_event ops notify w s of
                    Inl f \<Rightarrow> Some (Inl f)
                  | Inr p \<Rightarrow> sim_loop ops notify m (fst p) (snd p)))
          else Some (Inr (w, s)))"

declare sim_loop.simps [simp del]

definition sim_run ::
  "'q scheduler_ops \<Rightarrow> (nat \<Rightarrow> 'w \<Rightarrow> 'w handler) \<Rightarrow> nat \<Rightarrow> nat \<Rightarrow> 'w \<Rightarrow> 'q sim \<Rightarrow>
     ('w \<times> 'q sim) result option" where
  "sim_run ops notify thread n w s =
     (case sim_process_events_with_context ops (s\<lparr>sim_mainThreadId := thread\<rparr>) of
        Inl f \<Rightarrow> Some (Inl f)
      | Inr s1 \<Rightarrow>
          map_option (\<lambda>r. res_bind r (\<lambda>(w', s').
              ptr_deref (sim_events s') (\<lambda>q.
                ns_assert (\<not> op_is_empty ops q \<or> sim_unscheduledEvents s' = 0) (Inr (w', s')))))
            (sim_loop ops notify n w (s1\<lparr>sim_stop := False\<rparr>)))"

section \<open>Setup and teardown\<close>

text \<open>\<open>SetScheduler\<close>: \<open>new\<close> is the function table of the scheduler the factory creates.\<close>

partial_function (option) sim_move_queue ::
  "'q scheduler_ops \<Rightarrow> 'p scheduler_ops \<Rightarrow> 'q \<Rightarrow> 'p \<Rightarrow> 'p result option" where
  "sim_move_queue old new q p =
     (if op_is_empty old q then Some (Inr p)
      else (case op_remove_next old q of
              Inl f \<Rightarrow> Some (Inl f)
            | Inr r \<Rightarrow>
                (case op_insert new (fst r) p of
                   Inl f \<Rightarrow> Some (Inl f)
                 | Inr p' \<Rightarrow> sim_move_queue old new (snd r) p')))"

definition sim_with_events :: "'p option \<Rightarrow> 'q sim \<Rightarrow> 'p sim" where
  "sim_with_events q s =
     \<lparr>sim_eventsWithContext = sim_eventsWithContext s,
      sim_eventsWithContextEmpty = sim_eventsWithContextEmpty s,
      sim_destroyEvents = sim_destroyEvents s, sim_stop = sim_stop s, sim_uid = sim_uid s,
      sim_currentUid = sim_currentUid s, sim_currentTs = sim_currentTs s,
      sim_currentContext = sim_currentContext s, sim_eventCount = sim_eventCount s,
      sim_unscheduledEvents = sim_unscheduledEvents s, sim_mainThreadId = sim_mainThreadId s,
      sim_cancel = sim_cancel s, sim_events = q\<rparr>"

definition sim_set_scheduler ::
  "'q scheduler_ops \<Rightarrow> 'p scheduler_ops \<Rightarrow> 'q sim \<Rightarrow> 'p sim result option" where
  "sim_set_scheduler old new s =
     map_option (res_map (\<lambda>p. sim_with_events (Some p) s))
       (case sim_events s of
          None \<Rightarrow> Some (Inr (op_create new))
        | Some q \<Rightarrow> sim_move_queue old new q (op_create new))"

text \<open>\<open>Destroy\<close>, with a bound on the number of destroy events, which may schedule further ones.\<close>

fun sim_destroy ::
  "'q scheduler_ops \<Rightarrow> (nat \<Rightarrow> 'w \<Rightarrow> 'w handler) \<Rightarrow> nat \<Rightarrow> 'w \<Rightarrow> 'q sim \<Rightarrow>
     ('w \<times> 'q sim) result option" where
  "sim_destroy ops notify n w s =
     (case sim_destroyEvents s of
        [] \<Rightarrow> Some (Inr (w, s))
      | d # ds \<Rightarrow>
          (case n of
             0 \<Rightarrow> None
           | Suc m \<Rightarrow>
               (let s' = s\<lparr>sim_destroyEvents := ds\<rparr>
                in case ptr_deref (id_impl d) (\<lambda>i. sim_invoke ops notify i w s') of
                     Inl f \<Rightarrow> Some (Inl f)
                   | Inr p \<Rightarrow> sim_destroy ops notify m (fst p) (snd p))))"

declare sim_destroy.simps [simp del]

definition sim_do_dispose ::
  "'q scheduler_ops \<Rightarrow> 'q sim \<Rightarrow> (event list \<times> 'q sim) result option" where
  "sim_do_dispose ops s =
     (case sim_process_events_with_context ops s of
        Inl f \<Rightarrow> Some (Inl f)
      | Inr s1 \<Rightarrow>
          (case sim_events s1 of
             None \<Rightarrow> Some (Inl Assert_failed)
           | Some q \<Rightarrow> map_option (res_map (\<lambda>es. (es, s1\<lparr>sim_events := None\<rparr>))) (drain ops q [])))"

section \<open>Abstraction\<close>

text \<open>The kernel with the scheduler object replaced by the multiset of its events.\<close>

definition sim_abs :: "('q \<Rightarrow> event multiset) \<Rightarrow> 'q sim \<Rightarrow> event multiset sim" where
  "sim_abs ev s = sim_with_events (map_option ev (sim_events s)) s"

lemma sim_with_events_sel [simp]:
  "sim_eventsWithContext (sim_with_events q s) = sim_eventsWithContext s"
  "sim_eventsWithContextEmpty (sim_with_events q s) = sim_eventsWithContextEmpty s"
  "sim_destroyEvents (sim_with_events q s) = sim_destroyEvents s"
  "sim_stop (sim_with_events q s) = sim_stop s"
  "sim_uid (sim_with_events q s) = sim_uid s"
  "sim_currentUid (sim_with_events q s) = sim_currentUid s"
  "sim_currentTs (sim_with_events q s) = sim_currentTs s"
  "sim_currentContext (sim_with_events q s) = sim_currentContext s"
  "sim_eventCount (sim_with_events q s) = sim_eventCount s"
  "sim_unscheduledEvents (sim_with_events q s) = sim_unscheduledEvents s"
  "sim_mainThreadId (sim_with_events q s) = sim_mainThreadId s"
  "sim_cancel (sim_with_events q s) = sim_cancel s"
  "sim_events (sim_with_events q s) = q"
  by (simp_all add: sim_with_events_def)

lemma sim_abs_sel [simp]:
  "sim_eventsWithContext (sim_abs ev s) = sim_eventsWithContext s"
  "sim_eventsWithContextEmpty (sim_abs ev s) = sim_eventsWithContextEmpty s"
  "sim_destroyEvents (sim_abs ev s) = sim_destroyEvents s"
  "sim_stop (sim_abs ev s) = sim_stop s"
  "sim_uid (sim_abs ev s) = sim_uid s"
  "sim_currentUid (sim_abs ev s) = sim_currentUid s"
  "sim_currentTs (sim_abs ev s) = sim_currentTs s"
  "sim_currentContext (sim_abs ev s) = sim_currentContext s"
  "sim_eventCount (sim_abs ev s) = sim_eventCount s"
  "sim_unscheduledEvents (sim_abs ev s) = sim_unscheduledEvents s"
  "sim_mainThreadId (sim_abs ev s) = sim_mainThreadId s"
  "sim_cancel (sim_abs ev s) = sim_cancel s"
  "sim_events (sim_abs ev s) = map_option ev (sim_events s)"
  by (simp_all add: sim_abs_def)

lemma sim_abs_upd [simp]:
  "sim_abs ev (s\<lparr>sim_eventsWithContext := x1\<rparr>) = (sim_abs ev s)\<lparr>sim_eventsWithContext := x1\<rparr>"
  "sim_abs ev (s\<lparr>sim_eventsWithContextEmpty := x2\<rparr>) = (sim_abs ev s)\<lparr>sim_eventsWithContextEmpty := x2\<rparr>"
  "sim_abs ev (s\<lparr>sim_destroyEvents := x3\<rparr>) = (sim_abs ev s)\<lparr>sim_destroyEvents := x3\<rparr>"
  "sim_abs ev (s\<lparr>sim_stop := x4\<rparr>) = (sim_abs ev s)\<lparr>sim_stop := x4\<rparr>"
  "sim_abs ev (s\<lparr>sim_uid := x5\<rparr>) = (sim_abs ev s)\<lparr>sim_uid := x5\<rparr>"
  "sim_abs ev (s\<lparr>sim_currentUid := x6\<rparr>) = (sim_abs ev s)\<lparr>sim_currentUid := x6\<rparr>"
  "sim_abs ev (s\<lparr>sim_currentTs := x7\<rparr>) = (sim_abs ev s)\<lparr>sim_currentTs := x7\<rparr>"
  "sim_abs ev (s\<lparr>sim_currentContext := x8\<rparr>) = (sim_abs ev s)\<lparr>sim_currentContext := x8\<rparr>"
  "sim_abs ev (s\<lparr>sim_eventCount := x9\<rparr>) = (sim_abs ev s)\<lparr>sim_eventCount := x9\<rparr>"
  "sim_abs ev (s\<lparr>sim_unscheduledEvents := x10\<rparr>) = (sim_abs ev s)\<lparr>sim_unscheduledEvents := x10\<rparr>"
  "sim_abs ev (s\<lparr>sim_mainThreadId := x11\<rparr>) = (sim_abs ev s)\<lparr>sim_mainThreadId := x11\<rparr>"
  "sim_abs ev (s\<lparr>sim_cancel := x12\<rparr>) = (sim_abs ev s)\<lparr>sim_cancel := x12\<rparr>"
  "sim_abs ev (s\<lparr>sim_events := x13\<rparr>) = (sim_abs ev s)\<lparr>sim_events := map_option ev x13\<rparr>"
  by (cases s; simp add: sim_abs_def sim_with_events_def)+

lemma sim_is_expired_abs [simp]: "sim_is_expired eid (sim_abs ev s) = sim_is_expired eid s"
  by (simp add: sim_is_expired_def cong: option.case_cong)

text \<open>
  \<open>refines ev P r a\<close>: neither side faults, the results are equal, and the final state of the
  concrete side abstracts to that of the abstract side and has the property \<open>P\<close>.
\<close>

definition refines ::
  "('q \<Rightarrow> event multiset) \<Rightarrow> ('q sim \<Rightarrow> bool) \<Rightarrow> ('a \<times> 'q sim) result \<Rightarrow>
     ('a \<times> event multiset sim) result \<Rightarrow> bool" where
  "refines ev P r a \<longleftrightarrow> (\<exists>x s'. r = Inr (x, s') \<and> a = Inr (x, sim_abs ev s') \<and> P s')"

lemma refines_Inr [intro]: "P s \<Longrightarrow> refines ev P (Inr (x, s)) (Inr (x, sim_abs ev s))"
  by (simp add: refines_def)

lemma refines_bind:
  assumes "refines ev P r a" and "\<And>x s'. P s' \<Longrightarrow> refines ev Q (f (x, s')) (g (x, sim_abs ev s'))"
  shows "refines ev Q (res_bind r f) (res_bind a g)"
  using assms by (auto simp: refines_def)

lemma refines_map_fst:
  "refines ev P r a \<Longrightarrow> refines ev P (res_map (apfst f) r) (res_map (apfst f) a)"
  by (auto simp: refines_def)

lemma refines_weaken: "refines ev P r a \<Longrightarrow> (\<And>s. P s \<Longrightarrow> Q s) \<Longrightarrow> refines ev Q r a"
  by (auto simp: refines_def)

section \<open>Invariant\<close>

text \<open>
  What holds between any two statements of the main thread: the queued events have different uids
  below the next one, none of them lies before the event that is being executed, and
  \<open>m_unscheduledEvents\<close> is their number. \<open>D\<close> bounds the delays of the calls of other threads, \<open>U\<close> the
  uids in use or reserved by those calls, \<open>B\<close> the time stamps.
\<close>

definition events_inv :: "nat \<Rightarrow> event multiset \<Rightarrow> 'q sim \<Rightarrow> bool" where
  "events_inv B M s \<longleftrightarrow>
     distinct_uids M \<and> size M \<le> unat (sim_uid s) \<and> sim_unscheduledEvents s = int (size M) \<and>
     (\<forall>e \<in># M. ev_impl e \<noteq> None \<and> uid_VALID \<le> ev_uid e \<and> ev_uid e < sim_uid s \<and>
        Rank (sim_currentTs s) (sim_currentUid s) < ev_rank e \<and> unat (ev_ts e) \<le> B)"

definition core_inv :: "nat \<Rightarrow> nat \<Rightarrow> nat \<Rightarrow> 'q sim \<Rightarrow> bool" where
  "core_inv D U B s \<longleftrightarrow>
     uid_VALID \<le> sim_uid s \<and> sim_currentUid s < sim_uid s \<and>
     unat (sim_uid s) + length (sim_eventsWithContext s) \<le> U \<and>
     unat (sim_currentTs s) \<le> B \<and>
     (sim_eventsWithContextEmpty s \<longleftrightarrow> sim_eventsWithContext s = []) \<and>
     (\<forall>p \<in> set (sim_eventsWithContext s). wc_event p \<noteq> None \<and> unat (wc_timestamp p) \<le> D) \<and>
     (\<forall>d \<in> set (sim_destroyEvents s). id_impl d \<noteq> None)"

definition sim_ok ::
  "('q \<Rightarrow> bool) \<Rightarrow> ('q \<Rightarrow> event multiset) \<Rightarrow> ('q \<Rightarrow> 64 word) \<Rightarrow>
     nat \<Rightarrow> nat \<Rightarrow> nat \<Rightarrow> 'q sim \<Rightarrow> bool" where
  "sim_ok invar ev low D U B s \<longleftrightarrow>
     (\<exists>q. sim_events s = Some q \<and> invar q \<and> low q \<le> sim_currentTs s \<and> events_inv B (ev q) s) \<and>
     core_inv D U B s"

text \<open>The calls and handlers that keep within the budgets.\<close>

fun call_ok :: "nat \<Rightarrow> nat \<Rightarrow> nat \<Rightarrow> sim_call \<Rightarrow> bool" where
  "call_ok D main t (C_schedule delay impl) \<longleftrightarrow> t = main \<and> impl \<noteq> None \<and> unat delay \<le> D"
| "call_ok D main t (C_schedule_with_context context delay impl) \<longleftrightarrow> impl \<noteq> None \<and> unat delay \<le> D"
| "call_ok D main t (C_schedule_now impl) \<longleftrightarrow> t = main \<and> impl \<noteq> None"
| "call_ok D main t (C_schedule_destroy impl) \<longleftrightarrow> t = main \<and> impl \<noteq> None"
| "call_ok D main t (C_stop_delay delay impl) \<longleftrightarrow> t = main \<and> impl \<noteq> None \<and> unat delay \<le> D"
| "call_ok D main t (C_remove eid) \<longleftrightarrow> id_uid eid = uid_DESTROY"
| "call_ok D main t _ \<longleftrightarrow> True"

primrec handler_ok :: "nat \<Rightarrow> nat \<Rightarrow> 'w handler \<Rightarrow> nat \<Rightarrow> bool" where
  "handler_ok D main (Return w) n \<longleftrightarrow> True"
| "handler_ok D main (Call t c k) n \<longleftrightarrow>
     0 < n \<and> call_ok D main t c \<and> (\<forall>r. handler_ok D main (k r) (n - 1))"

lemma int_add_small [simp]: "n < 2 ^ 31 - 1 \<Longrightarrow> int_add (int n) 1 = Inr (int (Suc n))"
  by (simp add: int_add_def)

lemma int_add_minus [simp]: "n < 2 ^ 31 \<Longrightarrow> int_add (int (Suc n)) (- 1) = Inr (int n)"
  by (simp add: int_add_def)

lemma sint_unat_small: "unat (a :: 64 word) < 2 ^ 63 \<Longrightarrow> sint a = int (unat a)"
proof -
  assume a: "unat a < 2 ^ 63"
  have u: "int (unat a) = uint a"
    by simp
  have "int (unat a) < int (2 ^ 63)"
    using a by (simp only: of_nat_less_iff)
  then have "uint a < 2 ^ 63"
    unfolding u by simp
  moreover have "sint a = signed_take_bit 63 (uint a)"
    by (simp add: sint_uint)
  moreover have "- (2 ^ 63) \<le> uint a"
    by (rule order_trans [of _ 0]) simp_all
  ultimately have "sint a = uint a"
    by (simp add: signed_take_bit_int_eq_self)
  then show ?thesis
    unfolding u .
qed

lemma time_add_small:
  assumes "unat a + unat (b :: 64 word) < 2 ^ 63"
  shows "time_add a b = Inr (a + b)" and "unat (a + b) = unat a + unat b"
proof -
  have "sint a = int (unat a)" "sint b = int (unat b)"
    using assms by (simp_all add: sint_unat_small)
  then have "sint a + sint b = int (unat a + unat b)"
    by (simp only: of_nat_add)
  moreover have "int (unat a + unat b) < int (2 ^ 63)"
    using assms by (simp only: of_nat_less_iff)
  moreover have "- (2 ^ 63) \<le> int (unat a + unat b)"
    by (rule order_trans [of _ 0]) simp_all
  ultimately show "time_add a b = Inr (a + b)"
    by (simp only: time_add_def) simp
  show "unat (a + b) = unat a + unat b"
    using assms by (subst unat_add_lem [THEN iffD1]) simp_all
qed

lemma time_is_positive_small: "unat (a :: 64 word) < 2 ^ 63 \<Longrightarrow> time_is_positive a"
  by (simp add: time_is_positive_def sint_unat_small)

section \<open>Refinement\<close>

lemma events_inv_insert:
  fixes c :: "32 word"
  assumes "events_inv B M s" and "sim_currentUid s < sim_uid s" and "uid_VALID \<le> sim_uid s"
    and "unat (sim_uid s) + 1 < 2 ^ 32" and "impl \<noteq> None" and "sim_currentTs s \<le> ts"
    and "unat ts \<le> B"
  defines "e \<equiv> \<lparr>ev_impl = impl, ev_key = \<lparr>key_ts = ts, key_uid = sim_uid s, key_context = c\<rparr>\<rparr>"
  shows "events_inv B (add_mset e M)
      (s\<lparr>sim_uid := sim_uid s + 1, sim_unscheduledEvents := int (Suc (size M)), sim_events := q\<rparr>)"
    and "fresh e M"
proof -
  have u: "unat (sim_uid s + 1) = unat (sim_uid s) + 1"
    using assms(4) by (subst unat_add_lem [THEN iffD1]) simp_all
  have lt: "x < sim_uid s + 1" if "x \<le> sim_uid s" for x
    using that u by (simp add: word_less_nat_alt word_le_nat_alt)
  have ne: "ev_uid x \<noteq> sim_uid s" if "x \<in># M" for x
    using that assms(1) by (auto simp: events_inv_def)
  then show "fresh e M"
    by (auto simp: fresh_alt e_def key_rank_def)
  have r: "Rank (sim_currentTs s) (sim_currentUid s) < ev_rank e"
    using assms(2,6) by (auto simp: e_def key_rank_def less_rank_def)
  have "ev_uid x < sim_uid s + 1" if "x \<in># M" for x
    using that assms(1) by (intro lt) (auto simp: events_inv_def)
  with assms(1,3,5,7) ne r lt u
  show "events_inv B (add_mset e M)
      (s\<lparr>sim_uid := sim_uid s + 1, sim_unscheduledEvents := int (Suc (size M)), sim_events := q\<rparr>)"
    by (auto simp: events_inv_def distinct_on_add e_def)
qed

lemma sim_ok_core: "sim_ok invar ev low D U B s \<Longrightarrow> core_inv D U B s"
  by (simp add: sim_ok_def)

text \<open>While an event is executed, the clock and the main thread stay.\<close>

definition sim_during ::
  "('q \<Rightarrow> bool) \<Rightarrow> ('q \<Rightarrow> event multiset) \<Rightarrow> ('q \<Rightarrow> 64 word) \<Rightarrow>
     nat \<Rightarrow> nat \<Rightarrow> nat \<Rightarrow> nat \<Rightarrow> 64 word \<Rightarrow> 'q sim \<Rightarrow> bool" where
  "sim_during invar ev low D U B main ts s \<longleftrightarrow>
     sim_ok invar ev low D U B s \<and> sim_mainThreadId s = main \<and> sim_currentTs s = ts"

lemma sim_during_fields:
  "sim_during invar ev low D U B main ts s \<Longrightarrow> U \<le> U' \<Longrightarrow>
     sim_during invar ev low D U' B main ts (s\<lparr>sim_stop := b\<rparr>) \<and>
     sim_during invar ev low D U' B main ts (s\<lparr>sim_cancel := c\<rparr>) \<and>
     (set ds \<subseteq> set (sim_destroyEvents s) \<longrightarrow>
        sim_during invar ev low D U' B main ts (s\<lparr>sim_destroyEvents := ds\<rparr>)) \<and>
     sim_during invar ev low D U' B main ts s"
  by (auto simp: sim_during_def sim_ok_def events_inv_def core_inv_def)

lemma set_destroy_erase: "set (destroy_erase eid ds) \<subseteq> set ds"
  by (induction ds) auto

lemma sim_during_push:
  assumes "sim_during invar ev low D U B main ts s" and "wc_event p \<noteq> None"
    and "unat (wc_timestamp p) \<le> D"
  shows "sim_during invar ev low D (U + 1) B main ts
    (s\<lparr>sim_eventsWithContext := sim_eventsWithContext s @ [p], sim_eventsWithContextEmpty := False\<rparr>)"
  using assms by (auto simp: sim_during_def sim_ok_def events_inv_def core_inv_def)

lemma sim_during_destroy:
  assumes "sim_during invar ev low D U B main ts s" and "id_impl d \<noteq> None" and "U + 1 < 2 ^ 31"
  shows "sim_during invar ev low D (U + 1) B main ts
    (s\<lparr>sim_destroyEvents := sim_destroyEvents s @ [d], sim_uid := sim_uid s + 1\<rparr>)"
proof -
  have "unat (sim_uid s) + 1 < 2 ^ 32"
    using assms(1,3) by (simp add: sim_during_def sim_ok_def core_inv_def)
  then have u: "unat (sim_uid s + 1) = unat (sim_uid s) + 1"
    by (subst unat_add_lem [THEN iffD1]) simp_all
  then have "sim_uid s < sim_uid s + 1"
    by (simp add: word_less_nat_alt)
  with u assms show ?thesis
    by (fastforce simp: sim_during_def sim_ok_def events_inv_def core_inv_def)
qed

text \<open>Taking the earliest event out.\<close>

lemma events_inv_next:
  assumes inv: "events_inv B M s" and e: "earliest e M" and M: "M = add_mset e M'"
    and B: "B \<le> B'"
  shows "events_inv B' M' (s\<lparr>sim_events := q, sim_unscheduledEvents := int (size M'),
      sim_eventCount := n, sim_currentTs := ev_ts e, sim_currentContext := c,
      sim_currentUid := ev_uid e\<rparr>)"
proof -
  have "ev_rank e < ev_rank x" if x: "x \<in># M'" for x
  proof -
    have "ev_uid x \<noteq> ev_uid e"
      using inv M x by (auto simp: events_inv_def distinct_on_add)
    then have "ev_rank e \<noteq> ev_rank x"
      by (simp add: rank_eq_iff)
    moreover have "ev_rank e \<le> ev_rank x"
      using earliest_le [OF e] M x by simp
    ultimately show ?thesis by simp
  qed
  with inv M B show ?thesis
    by (fastforce simp: events_inv_def distinct_on_add key_rank_def)
qed

lemma events_inv_mono: "events_inv B M s \<Longrightarrow> B \<le> B' \<Longrightarrow> events_inv B' M s"
  by (fastforce simp: events_inv_def)

lemma core_inv_mono: "core_inv D U B s \<Longrightarrow> U \<le> U' \<Longrightarrow> B \<le> B' \<Longrightarrow> core_inv D U' B' s"
  by (simp add: core_inv_def)

lemma sim_ok_mono:
  "sim_ok invar ev low D U B s \<Longrightarrow> U \<le> U' \<Longrightarrow> B \<le> B' \<Longrightarrow> sim_ok invar ev low D U' B' s"
  by (auto simp: sim_ok_def intro: events_inv_mono core_inv_mono)

text \<open>Either both loops reach the bound, or both end and the results correspond.\<close>

definition loop_refines ::
  "('q \<Rightarrow> event multiset) \<Rightarrow> ('q sim \<Rightarrow> bool) \<Rightarrow> ('a \<times> 'q sim) result option \<Rightarrow>
     ('a \<times> event multiset sim) result option \<Rightarrow> bool" where
  "loop_refines ev P r a \<longleftrightarrow>
     (r = None \<and> a = None) \<or> (\<exists>x y. r = Some x \<and> a = Some y \<and> refines ev P x y)"

lemma loop_refines_weaken:
  "loop_refines ev P r a \<Longrightarrow> (\<And>s. P s \<Longrightarrow> Q s) \<Longrightarrow> loop_refines ev Q r a"
  by (auto simp: loop_refines_def refines_def)

text \<open>The kernel as a client of the scheduler interface.\<close>

locale simulation_kernel = event_queue ops invar events low horizon
  for ops :: "'q scheduler_ops" and invar and events and low and horizon
begin

lemma enqueue_refines:
  fixes c :: "32 word"
  assumes ok: "sim_ok invar events low D U B s" and i: "impl \<noteq> None"
    and ts: "sim_currentTs s \<le> ts" "unat ts \<le> B" "B \<le> unat horizon"
    and U: "unat (sim_uid s) + length (sim_eventsWithContext s) + 1 \<le> U'" "U' < 2 ^ 31"
  defines "e \<equiv> \<lparr>ev_impl = impl, ev_key = \<lparr>key_ts = ts, key_uid = sim_uid s, key_context = c\<rparr>\<rparr>"
  shows "\<exists>s'. sim_enqueue ops impl ts c s = Inr (e, s') \<and>
    sim_enqueue spec_ops impl ts c (sim_abs events s) = Inr (e, sim_abs events s') \<and>
    sim_ok invar events low D U' B s' \<and>
    sim_core.truncate s' = (sim_core.truncate s)\<lparr>sim_uid := sim_uid s + 1,
        sim_unscheduledEvents := sim_unscheduledEvents s + 1\<rparr>"
proof -
  from ok obtain q where q: "sim_events s = Some q" "invar q" "low q \<le> sim_currentTs s"
    "events_inv B (events q) s" and core: "core_inv D U B s"
    by (auto simp: sim_ok_def)
  have n: "size (events q) \<le> unat (sim_uid s)" "sim_unscheduledEvents s = int (size (events q))"
    using q(4) by (simp_all add: events_inv_def)
  have c: "sim_currentUid s < sim_uid s" "uid_VALID \<le> sim_uid s"
    using core by (simp_all add: core_inv_def)
  have un: "unat (sim_uid s) + 1 < 2 ^ 32"
    using U by simp
  note ei = events_inv_insert [OF q(4) c un i ts(1,2), of c, folded e_def]
  have lo: "low q \<le> ev_ts e" "ev_ts e \<le> horizon"
    using q(3) ts by (auto simp: e_def word_le_nat_alt)
  have "Suc (size (events q)) < 2 ^ 32"
    using n(1) U by simp
  with insert [OF q(2) ei(2) lo] obtain q' where
    q': "op_insert ops e q = Inr q'" "invar q'" "events q' = add_mset e (events q)" "low q' = low q"
    by blast
  let ?s = "s\<lparr>sim_uid := sim_uid s + 1, sim_unscheduledEvents := int (Suc (size (events q))),
      sim_events := Some q'\<rparr>"
  have ia: "int_add (sim_unscheduledEvents s) 1 = Inr (int (Suc (size (events q))))"
    unfolding n(2) using n(1) U by (intro int_add_small) simp
  have u: "unat (sim_uid s + 1) = unat (sim_uid s) + 1"
    using un by (subst unat_add_lem [THEN iffD1]) simp_all
  then have "sim_uid s < sim_uid s + 1"
    by (simp add: word_less_nat_alt)
  then have "core_inv D U' B ?s"
    using core U u by (auto simp: core_inv_def)
  moreover have "events_inv B (events q') ?s"
    unfolding q'(3) by (rule ei(1))
  ultimately have "sim_ok invar events low D U' B ?s"
    using q' q(3) by (simp add: sim_ok_def)
  moreover have "sim_enqueue ops impl ts c s = Inr (e, ?s)"
    using q'(1) q(1) ia by (simp add: sim_enqueue_def e_def Let_def)
  moreover have "sim_enqueue spec_ops impl ts c (sim_abs events s) = Inr (e, sim_abs events ?s)"
    using q(1) ia q'(3) by (simp add: sim_enqueue_def e_def Let_def spec_ops_def)
  moreover have "sim_core.truncate ?s = (sim_core.truncate s)\<lparr>sim_uid := sim_uid s + 1,
        sim_unscheduledEvents := sim_unscheduledEvents s + 1\<rparr>"
    using n(2) by (simp add: sim_core.truncate_def)
  ultimately show ?thesis
    by blast
qed

lemma schedule_refines:
  assumes d: "sim_during invar events low D U B main ts s" and i: "impl \<noteq> None"
    and delay: "unat delay \<le> D" "unat ts + D \<le> B" and B: "B \<le> unat horizon" "B < 2 ^ 63"
    and U: "U + 1 < 2 ^ 31"
  shows "refines events (sim_during invar events low D (U + 1) B main ts)
      (sim_schedule ops main delay impl s) (sim_schedule spec_ops main delay impl (sim_abs events s))"
    and "refines events (sim_during invar events low D (U + 1) B main ts)
      (res_map (Pair ()) (sim_schedule_with_context ops t context delay impl s))
      (res_map (Pair ()) (sim_schedule_with_context spec_ops t context delay impl (sim_abs events s)))"
proof -
  have ok: "sim_ok invar events low D U B s" and m: "sim_mainThreadId s = main"
    and now: "sim_currentTs s = ts"
    using d by (simp_all add: sim_during_def)
  have small: "unat delay + unat (sim_currentTs s) < 2 ^ 63"
    using delay B now by simp
  note ta = time_add_small [OF small]
  have pos: "time_is_positive delay"
    using small by (intro time_is_positive_small) simp
  have le: "sim_currentTs s \<le> delay + sim_currentTs s" "unat (delay + sim_currentTs s) \<le> B"
    using ta(2) delay now by (simp_all add: word_le_nat_alt)
  have u: "unat (sim_uid s) + length (sim_eventsWithContext s) + 1 \<le> U + 1"
    using sim_ok_core [OF ok] by (simp add: core_inv_def)
  have st: "sim_during invar events low D (U + 1) B main ts s'"
    if "sim_ok invar events low D (U + 1) B s'"
      "sim_core.truncate s' = (sim_core.truncate s)\<lparr>sim_uid := x, sim_unscheduledEvents := y\<rparr>" for s' x y
    using that m now by (simp add: sim_during_def sim_core.truncate_def)
  show "refines events (sim_during invar events low D (U + 1) B main ts)
      (sim_schedule ops main delay impl s) (sim_schedule spec_ops main delay impl (sim_abs events s))"
    using enqueue_refines [OF ok i le B(1) u U, of "sim_currentContext s"] st m pos ta(1)
    by (fastforce simp: sim_schedule_def refines_def)
  show "refines events (sim_during invar events low D (U + 1) B main ts)
      (res_map (Pair ()) (sim_schedule_with_context ops t context delay impl s))
      (res_map (Pair ()) (sim_schedule_with_context spec_ops t context delay impl (sim_abs events s)))"
  proof (cases "main = t")
    case True
    then show ?thesis
      using enqueue_refines [OF ok i le B(1) u U, of "context"] st m ta(1)
      by (fastforce simp: sim_schedule_with_context_def refines_def)
  next
    case False
    with m have "sim_mainThreadId s \<noteq> t" by simp
    then show ?thesis
      using sim_during_push [OF d, of "\<lparr>wc_context = context, wc_timestamp = delay, wc_event = impl\<rparr>"]
        i delay(1)
      by (auto simp: sim_schedule_with_context_def refines_def Let_def)
  qed
qed

lemma call_refines:
  assumes d: "sim_during invar events low D U B main ts s" and c: "call_ok D main t c"
    and B: "unat ts + D \<le> B" "B \<le> unat horizon" "B < 2 ^ 63" and U: "U + 1 < 2 ^ 31"
  shows "refines events (sim_during invar events low D (U + 1) B main ts)
      (sim_do_call ops t c s) (sim_do_call spec_ops t c (sim_abs events s))"
proof -
  note f = sim_during_fields [OF d le_add1 [of U 1]]
  have m: "sim_mainThreadId s = main"
    using d by (simp add: sim_during_def)
  show ?thesis
  proof (cases c)
    case (C_schedule delay impl)
    with c schedule_refines(1) [OF d _ _ B U] show ?thesis
      by (simp add: refines_map_fst)
  next
    case (C_schedule_with_context ctx delay impl)
    with c schedule_refines(2) [OF d _ _ B U, of impl delay t ctx] show ?thesis
      by (auto simp: refines_def result_elims)
  next
    case (C_schedule_now impl)
    with c m schedule_refines(1) [OF d _ _ B U, of impl 0] show ?thesis
      by (simp add: refines_map_fst sim_schedule_now_def)
  next
    case (C_schedule_destroy impl)
    with c m sim_during_destroy [OF d, of
        "\<lparr>id_impl = impl, id_ts = sim_currentTs s, id_context = 0xffffffff, id_uid = 2\<rparr>"] U
    show ?thesis
      by (auto simp: sim_schedule_destroy_def refines_def Let_def)
  next
    case (C_remove eid)
    with c f set_destroy_erase show ?thesis
      by (simp add: sim_remove_def refines_def)
  next
    case (C_cancel eid)
    then show ?thesis
      using f by (cases "id_impl eid")
        (auto simp: sim_do_cancel_def refines_def sim_is_expired_def)
  next
    case (C_stop_delay delay impl)
    with c schedule_refines(1) [OF d _ _ B U, of impl delay] show ?thesis
      by (auto simp: refines_def sim_stop_delay_def)
  qed (use f in \<open>auto simp: refines_def sim_do_stop_def sim_get_delay_left_def sim_now_def\<close>)
qed

lemma handle_refines:
  assumes "sim_during invar events low D U B main ts s" and "handler_ok D main h n"
    and "unat ts + D \<le> B" "B \<le> unat horizon" "B < 2 ^ 63" and "U + n < 2 ^ 31"
  shows "refines events (sim_during invar events low D (U + n) B main ts)
      (sim_handle ops h s) (sim_handle spec_ops h (sim_abs events s))"
  using assms
proof (induction h arbitrary: s U n)
  case (Return w)
  then show ?case
    using sim_during_fields [OF Return.prems(1) le_add1 [of U n]] by (simp add: refines_Inr)
next
  case (Call t c k)
  then have n: "0 < n" "call_ok D main t c" "U + 1 < 2 ^ 31"
    by auto
  have "refines events (sim_during invar events low D (U + n) B main ts)
      (sim_handle ops (k r) s') (sim_handle spec_ops (k r) (sim_abs events s'))"
    if "sim_during invar events low D (U + 1) B main ts s'" for r s'
    using Call.IH [OF _ that, of "k r" "n - 1"] Call.prems n by simp
  then show ?case
    using call_refines [OF Call.prems(1) n(2) Call.prems(3-5) n(3)]
    by (auto intro: refines_bind)
qed

lemma move_events_refines:
  assumes "sim_during invar events low D U B main ts s" and "sim_eventsWithContext s = []"
    and "\<forall>p \<in> set es. wc_event p \<noteq> None \<and> unat (wc_timestamp p) \<le> D"
    and "unat (sim_uid s) + length es \<le> U"
    and B: "unat ts + D \<le> B" "B \<le> unat horizon" "B < 2 ^ 63" and U: "U < 2 ^ 31"
  shows "refines events (sim_during invar events low D U B main ts)
    (res_map (Pair ()) (sim_move_events ops es s))
    (res_map (Pair ()) (sim_move_events spec_ops es (sim_abs events s)))"
  using assms(1-4)
proof (induction es arbitrary: s)
  case Nil
  then show ?case
    by (simp add: refines_Inr)
next
  case (Cons p es)
  have ok: "sim_ok invar events low D U B s" and m: "sim_mainThreadId s = main"
    and now: "sim_currentTs s = ts"
    using Cons.prems(1) by (simp_all add: sim_during_def)
  have p: "wc_event p \<noteq> None" "unat (wc_timestamp p) \<le> D"
    using Cons.prems(3) by simp_all
  have "unat (sim_currentTs s) + unat (wc_timestamp p) < 2 ^ 63"
    using p(2) B now by simp
  then have t: "unat (sim_currentTs s + wc_timestamp p) = unat ts + unat (wc_timestamp p)"
    using time_add_small(2) now by metis
  have le: "sim_currentTs s \<le> sim_currentTs s + wc_timestamp p"
    "unat (sim_currentTs s + wc_timestamp p) \<le> B"
    using t p(2) B(1) now by (simp_all add: word_le_nat_alt)
  have u: "unat (sim_uid s) + length (sim_eventsWithContext s) + 1 \<le> U"
    using Cons.prems(2,4) by simp
  obtain e s' where s': "sim_enqueue ops (wc_event p) (sim_currentTs s + wc_timestamp p)
      (wc_context p) s = Inr (e, s')"
    "sim_enqueue spec_ops (wc_event p) (sim_currentTs s + wc_timestamp p) (wc_context p)
      (sim_abs events s) = Inr (e, sim_abs events s')"
    "sim_ok invar events low D U B s'"
    "sim_core.truncate s' = (sim_core.truncate s)\<lparr>sim_uid := sim_uid s + 1,
        sim_unscheduledEvents := sim_unscheduledEvents s + 1\<rparr>"
    using enqueue_refines [OF ok p(1) le B(2) u U] by blast
  have f: "sim_eventsWithContext s' = []" "sim_uid s' = sim_uid s + 1"
    "sim_mainThreadId s' = main" "sim_currentTs s' = ts"
    using s'(4) m now Cons.prems(2) by (simp_all add: sim_core.truncate_def)
  have "unat (sim_uid s') \<le> Suc (unat (sim_uid s))"
    unfolding f(2) by (simp add: unat_word_ariths(1))
  with Cons.prems(3,4) Cons.IH [of s'] s' f show ?case
    by (simp add: sim_during_def)
qed

lemma flush_refines:
  assumes d: "sim_during invar events low D U B main ts s"
    and B: "unat ts + D \<le> B" "B \<le> unat horizon" "B < 2 ^ 63" and U: "U < 2 ^ 31"
  shows "refines events (sim_during invar events low D U B main ts)
    (res_map (Pair ()) (sim_process_events_with_context ops s))
    (res_map (Pair ()) (sim_process_events_with_context spec_ops (sim_abs events s)))"
proof (cases "sim_eventsWithContextEmpty s")
  case True
  with d show ?thesis
    by (simp add: sim_process_events_with_context_def refines_Inr)
next
  case False
  let ?s = "s\<lparr>sim_eventsWithContext := [], sim_eventsWithContextEmpty := True\<rparr>"
  have "sim_during invar events low D U B main ts ?s"
    using d by (auto simp: sim_during_def sim_ok_def core_inv_def events_inv_def)
  moreover have "\<forall>p \<in> set (sim_eventsWithContext s). wc_event p \<noteq> None \<and> unat (wc_timestamp p) \<le> D"
    "unat (sim_uid s) + length (sim_eventsWithContext s) \<le> U"
    using d by (auto simp: sim_during_def sim_ok_def core_inv_def)
  ultimately show ?thesis
    using move_events_refines [of D U B main ts ?s "sim_eventsWithContext s"] B U False
    by (simp add: sim_process_events_with_context_def)
qed

lemma process_one_refines:
  assumes ok: "sim_ok invar events low D U B s" and m: "sim_mainThreadId s = main"
    and ne: "sim_events s = Some q" "\<not> op_is_empty ops q"
    and h: "\<And>i w. handler_ok D main (notify i w) n"
    and B: "B + D \<le> unat horizon" "B + D < 2 ^ 63" and U: "U + n < 2 ^ 31"
  shows "refines events (\<lambda>s'. sim_ok invar events low D (U + n) (B + D) s' \<and>
      sim_mainThreadId s' = main \<and> sim_currentTs s \<le> sim_currentTs s')
    (sim_process_one_event ops notify w s)
    (sim_process_one_event spec_ops notify w (sim_abs events s))"
proof -
  from ok ne(1) have q: "invar q" "events_inv B (events q) s" and core: "core_inv D U B s"
    by (auto simp: sim_ok_def)
  then have nem: "events q \<noteq> {#}"
    using ne(2) is_empty by simp
  obtain e q' where r: "op_remove_next ops q = Inr (e, q')" "earliest e (events q)" "invar q'"
    "events q = add_mset e (events q')" "low q' \<le> ev_ts e"
    using remove_nextE [OF q(1) nem] by metis
  have rk: "distinct_ranks (events q)"
    using q(2) by (simp add: events_inv_def distinct_uids_ranks)
  have sp: "op_remove_next spec_ops (events q) = Inr (e, events q')"
    using nem r(4) spec_next_eq [OF rk r(2)] by (simp add: spec_ops_def)
  have e: "ev_impl e \<noteq> None" "Rank (sim_currentTs s) (sim_currentUid s) < ev_rank e"
    "unat (ev_ts e) \<le> B" "ev_uid e < sim_uid s"
    using q(2) r(4) by (simp_all add: events_inv_def)
  obtain i where i: "ev_impl e = Some i"
    using e(1) by auto
  have le: "sim_currentTs s \<le> ev_ts e"
    using e(2) by (auto simp: key_rank_def less_rank_def)
  have un: "size (events q') < 2 ^ 31"
    using q(2) core U r(4) by (simp add: events_inv_def core_inv_def)
  have ia: "int_add (sim_unscheduledEvents s) (- 1) = Inr (int (size (events q')))"
    using q(2) r(4) int_add_minus [OF un] by (simp add: events_inv_def)
  let ?s = "s\<lparr>sim_events := Some q', sim_unscheduledEvents := int (size (events q')),
      sim_eventCount := sim_eventCount s + 1, sim_currentTs := ev_ts e,
      sim_currentContext := ev_context e, sim_currentUid := ev_uid e\<rparr>"
  have "core_inv D U (B + D) ?s"
    using core e(3,4) by (simp add: core_inv_def)
  moreover have "events_inv (B + D) (events q') ?s"
    by (rule events_inv_next [OF q(2) r(2,4)]) simp
  ultimately have d: "sim_during invar events low D U (B + D) main (ev_ts e) ?s"
    using r(3,5) m by (simp add: sim_during_def sim_ok_def)
  have B': "unat (ev_ts e) + D \<le> B + D"
    using e(3) by simp
  have inv: "refines events (sim_during invar events low D (U + n) (B + D) main (ev_ts e))
      (sim_invoke ops notify i w ?s) (sim_invoke spec_ops notify i w (sim_abs events ?s))"
  proof (cases "impl_is_cancelled (sim_cancel s) i")
    case True
    then show ?thesis
      using sim_during_fields [OF d le_add1 [of U n]] by (simp add: sim_invoke_def refines_def)
  next
    case False
    then show ?thesis
      using handle_refines [OF d h B' B U] by (simp add: sim_invoke_def)
  qed
  have out: "sim_ok invar events low D (U + n) (B + D) s' \<and> sim_mainThreadId s' = main \<and>
      sim_currentTs s \<le> sim_currentTs s'"
    if "sim_during invar events low D (U + n) (B + D) main (ev_ts e) s'" for s'
    using that le by (simp add: sim_during_def)
  obtain w' s1 where s1: "sim_invoke ops notify i w ?s = Inr (w', s1)"
    "sim_invoke spec_ops notify i w (sim_abs events ?s) = Inr (w', sim_abs events s1)"
    "sim_during invar events low D (U + n) (B + D) main (ev_ts e) s1"
    using inv unfolding refines_def by blast
  obtain s2 where s2: "sim_process_events_with_context ops s1 = Inr s2"
    "sim_process_events_with_context spec_ops (sim_abs events s1) = Inr (sim_abs events s2)"
    "sim_during invar events low D (U + n) (B + D) main (ev_ts e) s2"
    using flush_refines [OF s1(3) B' B U] by (auto simp: refines_def result_elims)
  have "sim_process_one_event ops notify w s = Inr (w', s2)"
    using ne(1) r(1) i ia le s1(1) s2(1) by (simp add: sim_process_one_event_def)
  moreover have "sim_process_one_event spec_ops notify w (sim_abs events s) = Inr (w', sim_abs events s2)"
    using ne(1) sp i ia le s1(2) s2(2) by (simp add: sim_process_one_event_def)
  ultimately show ?thesis
    using out [OF s2(3)] by (simp add: refines_def)
qed

lemma sim_loop_refines:
  assumes "sim_ok invar events low D U B s" and "sim_mainThreadId s = main"
    and h: "\<And>i w. handler_ok D main (notify i w) n"
    and "B + k * D \<le> unat horizon" "B + k * D < 2 ^ 63" and "U + k * n < 2 ^ 31"
  shows "loop_refines events (\<lambda>s'. sim_ok invar events low D (U + k * n) (B + k * D) s' \<and>
      sim_mainThreadId s' = main \<and> sim_currentTs s \<le> sim_currentTs s' \<and>
      (sim_stop s' \<or> (\<exists>q. sim_events s' = Some q \<and> events q = {#})))
    (sim_loop ops notify k w s) (sim_loop spec_ops notify k w (sim_abs events s))"
  using assms(1,2,4-6)
proof (induction k arbitrary: w s U B)
  case 0
  from "0.prems"(1) obtain q where q: "sim_events s = Some q" "invar q"
    by (auto simp: sim_ok_def)
  with "0.prems"(1,2) show ?case
    by (auto simp: sim_loop.simps [where n = 0] is_empty spec_ops_def loop_refines_def refines_def)
next
  case (Suc k)
  from Suc.prems(1) obtain q where q: "sim_events s = Some q" "invar q"
    by (auto simp: sim_ok_def)
  show ?case
  proof (cases "op_is_empty ops q \<or> sim_stop s")
    case True
    moreover have "sim_ok invar events low D (U + Suc k * n) (B + Suc k * D) s"
      using Suc.prems(1) by (rule sim_ok_mono) simp_all
    ultimately show ?thesis
      using q Suc.prems(2)
      by (auto simp: sim_loop.simps [where n = "Suc k"] is_empty spec_ops_def loop_refines_def
          refines_def)
  next
    case False
    have b: "B + D \<le> unat horizon" "B + D < 2 ^ 63" "U + n < 2 ^ 31"
      using Suc.prems(3-5) by simp_all
    obtain w' s1 where s1: "sim_process_one_event ops notify w s = Inr (w', s1)"
      "sim_process_one_event spec_ops notify w (sim_abs events s) = Inr (w', sim_abs events s1)"
      "sim_ok invar events low D (U + n) (B + D) s1" "sim_mainThreadId s1 = main"
      "sim_currentTs s \<le> sim_currentTs s1"
      using process_one_refines [where notify = notify and w = w, OF Suc.prems(1,2) q(1) _ h b] False
      unfolding refines_def by blast
    have l: "sim_loop ops notify (Suc k) w s = sim_loop ops notify k w' s1"
      using q False s1(1) by (simp add: sim_loop.simps [where n = "Suc k"])
    have r: "sim_loop spec_ops notify (Suc k) w (sim_abs events s) =
        sim_loop spec_ops notify k w' (sim_abs events s1)"
      using q False s1(2) is_empty [OF q(2)]
      by (simp add: sim_loop.simps [where n = "Suc k"] spec_ops_def)
    have U: "U + n + k * n = U + Suc k * n" "B + D + k * D = B + Suc k * D"
      by simp_all
    have "loop_refines events (\<lambda>s'. sim_ok invar events low D (U + n + k * n) (B + D + k * D) s' \<and>
        sim_mainThreadId s' = main \<and> sim_currentTs s1 \<le> sim_currentTs s' \<and>
        (sim_stop s' \<or> (\<exists>q. sim_events s' = Some q \<and> events q = {#})))
      (sim_loop ops notify k w' s1) (sim_loop spec_ops notify k w' (sim_abs events s1))"
      using Suc.prems(3-5) by (intro Suc.IH [OF s1(3,4)]) simp_all
    then show ?thesis
      unfolding l r U
      by (rule loop_refines_weaken) (use s1(5) in \<open>auto intro: order_trans\<close>)
  qed
qed

lemma run_refines:
  assumes ok: "sim_ok invar events low D U B s"
    and h: "\<And>i w. handler_ok D thread (notify i w) n"
    and B: "B + Suc k * D \<le> unat horizon" "B + Suc k * D < 2 ^ 63" and U: "U + k * n < 2 ^ 31"
  shows "loop_refines events (\<lambda>s'. sim_ok invar events low D (U + k * n) (B + Suc k * D) s' \<and>
      sim_currentTs s \<le> sim_currentTs s' \<and>
      (sim_stop s' \<or> (\<exists>q. sim_events s' = Some q \<and> events q = {#})))
    (sim_run ops notify thread k w s) (sim_run spec_ops notify thread k w (sim_abs events s))"
proof -
  let ?s = "s\<lparr>sim_mainThreadId := thread\<rparr>"
  have "sim_ok invar events low D U (B + D) s"
    using ok by (rule sim_ok_mono) simp_all
  then have d: "sim_during invar events low D U (B + D) thread (sim_currentTs s) ?s"
    by (auto simp: sim_during_def sim_ok_def core_inv_def events_inv_def)
  have ts: "unat (sim_currentTs s) + D \<le> B + D"
    using ok by (simp add: sim_ok_def core_inv_def)
  obtain s1 where s1: "sim_process_events_with_context ops ?s = Inr s1"
    "sim_process_events_with_context spec_ops (sim_abs events ?s) = Inr (sim_abs events s1)"
    "sim_during invar events low D U (B + D) thread (sim_currentTs s) s1"
    using flush_refines [OF d ts] B U by (auto simp: refines_def result_elims)
  let ?s1 = "s1\<lparr>sim_stop := False\<rparr>"
  have "sim_during invar events low D U (B + D) thread (sim_currentTs s) ?s1"
    using sim_during_fields [OF s1(3) order_refl] by blast
  then have ok1: "sim_ok invar events low D U (B + D) ?s1" "sim_mainThreadId ?s1 = thread"
    "sim_currentTs ?s1 = sim_currentTs s"
    by (simp_all add: sim_during_def)
  have eq: "B + D + k * D = B + Suc k * D"
    by simp
  have L: "loop_refines events (\<lambda>s'. sim_ok invar events low D (U + k * n) (B + Suc k * D) s' \<and>
        sim_mainThreadId s' = thread \<and> sim_currentTs s \<le> sim_currentTs s' \<and>
        (sim_stop s' \<or> (\<exists>q. sim_events s' = Some q \<and> events q = {#})))
      (sim_loop ops notify k w ?s1) (sim_loop spec_ops notify k w (sim_abs events ?s1))"
    using sim_loop_refines [where k = k and notify = notify and w = w, OF ok1(1,2) h, unfolded eq ok1(3)] B U
    by simp
  have A: "op_is_empty ops q \<longleftrightarrow> events q = {#}" "sim_unscheduledEvents s' = int (size (events q))"
    if "sim_ok invar events low D U' B' s'" "sim_events s' = Some q" for s' q U' B'
    using that is_empty by (auto simp: sim_ok_def events_inv_def)
  have a: "sim_abs events ?s = (sim_abs events s)\<lparr>sim_mainThreadId := thread\<rparr>"
    "sim_abs events ?s1 = (sim_abs events s1)\<lparr>sim_stop := False\<rparr>"
    by simp_all
  show ?thesis
  proof (cases "sim_loop ops notify k w ?s1 = None")
    case True
    with L have "sim_loop spec_ops notify k w (sim_abs events ?s1) = None"
      unfolding loop_refines_def by auto
    with True show ?thesis
      using s1(1,2) unfolding a by (simp add: sim_run_def loop_refines_def)
  next
    case False
    with L obtain w' s' where some: "sim_loop ops notify k w ?s1 = Some (Inr (w', s'))"
      "sim_loop spec_ops notify k w (sim_abs events ?s1) = Some (Inr (w', sim_abs events s'))"
      "sim_ok invar events low D (U + k * n) (B + Suc k * D) s'"
      "sim_currentTs s \<le> sim_currentTs s'"
      "sim_stop s' \<or> (\<exists>q. sim_events s' = Some q \<and> events q = {#})"
      unfolding loop_refines_def refines_def by blast
    obtain q where q: "sim_events s' = Some q"
      using some(3) unfolding sim_ok_def by blast
    then have "sim_run ops notify thread k w s = Some (Inr (w', s'))"
      using s1(1) some(1) q A [OF some(3) q] by (simp add: sim_run_def)
    moreover have "sim_run spec_ops notify thread k w (sim_abs events s) = Some (Inr (w', sim_abs events s'))"
      using s1(2) some(2) q A [OF some(3) q] unfolding a
      by (simp add: sim_run_def) (simp add: spec_ops_def)
    ultimately show ?thesis
      using some by (simp add: loop_refines_def refines_def)
  qed
qed

end

end
