(* ===== verification/Simulator_Lifecycle.thy ===== *)
theory Simulator_Lifecycle
  imports Default_Simulator
begin

text \<open>
  What \<open>DefaultSimulatorImpl\<close> promises its users over any scheduler with the contract: event ids stay
  valid until their event runs, \<open>Remove\<close> takes out exactly one event, simple simulations end after
  their last event, the scheduler may be exchanged at any time, destroy events run in the order of
  their registration and disposal releases every event.
\<close>

section \<open>Event ids\<close>

text \<open>The \<open>EventId\<close> that \<open>Schedule\<close> returns for a queued event.\<close>

definition event_id_of :: "event \<Rightarrow> event_id" where
  "event_id_of e =
     \<lparr>id_impl = ev_impl e, id_ts = ev_ts e, id_context = ev_context e, id_uid = ev_uid e\<rparr>"

lemma event_id_of_sel [simp]:
  "id_impl (event_id_of e) = ev_impl e" "id_ts (event_id_of e) = ev_ts e"
  "id_context (event_id_of e) = ev_context e" "id_uid (event_id_of e) = ev_uid e"
  by (simp_all add: event_id_of_def)

lemma event_of_id [simp]:
  "\<lparr>ev_impl = ev_impl e, ev_key = \<lparr>key_ts = ev_ts e, key_uid = ev_uid e, key_context = ev_context e\<rparr>\<rparr> = e"
  by (cases e; cases "ev_key e") simp

lemma uid_VALID_not_DESTROY: "uid_VALID \<le> u \<Longrightarrow> u \<noteq> uid_DESTROY"
  by (auto simp: uid_VALID_def uid_DESTROY_def word_le_nat_alt)

lemma queued_not_expired:
  assumes "events_inv B M s" and "e \<in># M" and "ev_impl e = Some i"
  shows "sim_is_expired (event_id_of e) s \<longleftrightarrow> impl_is_cancelled (sim_cancel s) i"
proof -
  have e: "uid_VALID \<le> ev_uid e" "Rank (sim_currentTs s) (sim_currentUid s) < ev_rank e"
    using assms by (auto simp: events_inv_def)
  have "\<not> ev_ts e < sim_currentTs s"
    "\<not> (ev_ts e = sim_currentTs s \<and> ev_uid e \<le> sim_currentUid s)"
    using e(2) by (auto simp: key_rank_def less_rank_def)
  with uid_VALID_not_DESTROY [OF e(1)] assms(3) show ?thesis
    by (auto simp: sim_is_expired_def)
qed

lemma events_inv_remove:
  assumes "events_inv B (add_mset e M) s"
  shows "events_inv B M (s\<lparr>sim_events := q, sim_cancel := c, sim_unscheduledEvents := int (size M)\<rparr>)"
  using assms by (auto simp: events_inv_def distinct_on_add)

text \<open>The kernel after \<open>Remove\<close> of a queued event, when the scheduler is left with \<open>q\<close>.\<close>

definition sim_without :: "event \<Rightarrow> 'q \<Rightarrow> 'q sim \<Rightarrow> 'q sim" where
  "sim_without e q s =
     s\<lparr>sim_events := Some q,
       sim_cancel := (case ev_impl e of None \<Rightarrow> sim_cancel s | Some i \<Rightarrow> impl_cancel i (sim_cancel s)),
       sim_unscheduledEvents := sim_unscheduledEvents s - 1\<rparr>"

text \<open>The event is in the queue and not cancelled.\<close>

definition event_queued :: "('q \<Rightarrow> event multiset) \<Rightarrow> event \<Rightarrow> 'q \<Rightarrow> 'q sim \<Rightarrow> bool" where
  "event_queued ev e q s \<longleftrightarrow> sim_events s = Some q \<and> e \<in># ev q \<and>
     (case ev_impl e of None \<Rightarrow> False | Some i \<Rightarrow> \<not> impl_is_cancelled (sim_cancel s) i)"

lemma sim_remove_queued:
  assumes s: "event_queued ev e q s" "events_inv B (ev q) s" "core_inv D U B s" and U: "U < 2 ^ 31"
    and q': "op_remove ops e q = Inr q'" "ev q = add_mset e (ev q')"
  shows "sim_remove ops (event_id_of e) s = Inr (sim_without e q' s)"
    and "events_inv B (ev q') (sim_without e q' s)" and "core_inv D U B (sim_without e q' s)"
proof -
  obtain i where i: "sim_events s = Some q" "e \<in># ev q" "ev_impl e = Some i" "\<not> impl_is_cancelled (sim_cancel s) i"
    using s(1) by (auto simp: event_queued_def split: option.splits)
  have ex: "\<not> sim_is_expired (event_id_of e) s"
    using queued_not_expired [OF s(2) i(2,3)] i(4) by simp
  have nd: "ev_uid e \<noteq> uid_DESTROY"
    using s(2) i(2) by (intro uid_VALID_not_DESTROY) (simp add: events_inv_def)
  have n: "size (ev q') < 2 ^ 31"
    using s(2,3) U q'(2) by (simp add: events_inv_def core_inv_def)
  have un: "sim_unscheduledEvents s - 1 = int (size (ev q'))"
    using s(2) q'(2) by (simp add: events_inv_def)
  have ia: "int_add (sim_unscheduledEvents s) (- 1) = Inr (sim_unscheduledEvents s - 1)"
    using s(2) q'(2) int_add_minus [OF n] by (simp add: events_inv_def)
  have ev: "\<lparr>ev_impl = Some i,
      ev_key = \<lparr>key_ts = ev_ts e, key_uid = ev_uid e, key_context = ev_context e\<rparr>\<rparr> = e"
    using event_of_id [of e] unfolding i(3) .
  show "sim_remove ops (event_id_of e) s = Inr (sim_without e q' s)"
    using ex nd i(1,3) q'(1) ia by (simp add: sim_remove_def Let_def ev sim_without_def)
  have "sim_without e q' s = s\<lparr>sim_events := Some q', sim_cancel := impl_cancel i (sim_cancel s),
      sim_unscheduledEvents := int (size (ev q'))\<rparr>"
    by (simp add: sim_without_def i(3) un)
  then show "events_inv B (ev q') (sim_without e q' s)" "core_inv D U B (sim_without e q' s)"
    using s(2,3) q'(2) events_inv_remove [of B e "ev q'" s] by (simp_all add: core_inv_def)
qed

locale removable_kernel =
  removable_event_queue ops invar events low horizon + simulation_kernel ops invar events low horizon
  for ops :: "'q scheduler_ops" and invar and events and low and horizon
begin

lemma remove_exact:
  assumes s: "sim_ok invar events low D U B s" and e: "event_queued events e q s" and U: "U < 2 ^ 31"
  shows "\<exists>q'. sim_remove ops (event_id_of e) s = Inr (sim_without e q' s) \<and>
    sim_ok invar events low D U B (sim_without e q' s) \<and> events q = add_mset e (events q')"
proof -
  have q: "sim_events s = Some q" "e \<in># events q"
    using e by (simp_all add: event_queued_def)
  then have inv: "invar q" "events_inv B (events q) s" "core_inv D U B s" "low q \<le> sim_currentTs s"
    using s by (auto simp: sim_ok_def)
  have "uid_unique e (events q)"
    using inv(2) q(2) by (simp add: events_inv_def distinct_uids_unique)
  from remove [OF inv(1) q(2) this] q(2) obtain q' where
    q': "op_remove ops e q = Inr q'" "invar q'" "events q = add_mset e (events q')" "low q' = low q"
    by (metis insert_DiffM)
  note r = sim_remove_queued [OF e inv(2,3) U q'(1,3)]
  then have "sim_ok invar events low D U B (sim_without e q' s)"
    using q'(2,4) inv(4) by (simp add: sim_ok_def) (simp add: sim_without_def)
  then show ?thesis
    using r(1) q'(3) by blast
qed

end

section \<open>Simulations that end\<close>

text \<open>
  Handlers that only change the simulated network and make no calls: the simulation delivers the
  queued events one by one in the order of their ranks, skipping the cancelled ones, and ends.
\<close>

definition deliver ::
  "(nat \<Rightarrow> 'w \<Rightarrow> 'w) \<Rightarrow> cancel_flags \<Rightarrow> event list \<Rightarrow> 'w \<Rightarrow> 'w" where
  "deliver f m es w =
     foldl (\<lambda>w e. case ev_impl e of
                None \<Rightarrow> w | Some i \<Rightarrow> if impl_is_cancelled m i then w else f i w) w es"

lemma deliver_simps [simp]:
  "deliver f m [] w = w"
  "ev_impl e = Some i \<Longrightarrow>
     deliver f m (e # es) w = deliver f m es (if impl_is_cancelled m i then w else f i w)"
  by (simp_all add: deliver_def)

context simulation_kernel
begin

lemma process_one_silent:
  assumes ok: "sim_ok invar events low D U B s" and p: "sim_eventsWithContext s = []"
    and q: "sim_events s = Some q" "events q \<noteq> {#}" and U: "U < 2 ^ 31"
  shows "\<exists>e i q'. ev_impl e = Some i \<and> earliest e (events q) \<and> events q = add_mset e (events q') \<and>
    sim_process_one_event ops (\<lambda>i w. Return (f i w)) w s =
      Inr (if impl_is_cancelled (sim_cancel s) i then w else f i w,
           s\<lparr>sim_events := Some q', sim_unscheduledEvents := int (size (events q')),
             sim_eventCount := sim_eventCount s + 1, sim_currentTs := ev_ts e,
             sim_currentContext := ev_context e, sim_currentUid := ev_uid e\<rparr>) \<and>
    sim_ok invar events low D U B
      (s\<lparr>sim_events := Some q', sim_unscheduledEvents := int (size (events q')),
         sim_eventCount := sim_eventCount s + 1, sim_currentTs := ev_ts e,
         sim_currentContext := ev_context e, sim_currentUid := ev_uid e\<rparr>)"
proof -
  have inv: "invar q" "events_inv B (events q) s" "core_inv D U B s"
    using ok q by (auto simp: sim_ok_def)
  obtain e q' where r: "op_remove_next ops q = Inr (e, q')" "earliest e (events q)" "invar q'"
    "events q = add_mset e (events q')" "low q' \<le> ev_ts e"
    using remove_nextE [OF inv(1) q(2)] by metis
  have e: "ev_impl e \<noteq> None" "Rank (sim_currentTs s) (sim_currentUid s) < ev_rank e"
    "unat (ev_ts e) \<le> B" "ev_uid e < sim_uid s"
    using inv(2) r(4) by (simp_all add: events_inv_def)
  then obtain i where i: "ev_impl e = Some i"
    by auto
  have le: "sim_currentTs s \<le> ev_ts e"
    using e(2) by (auto simp: key_rank_def less_rank_def)
  have n: "size (events q') < 2 ^ 31"
    using inv(2,3) U r(4) by (simp add: events_inv_def core_inv_def)
  have ia: "int_add (sim_unscheduledEvents s) (- 1) = Inr (int (size (events q')))"
    using inv(2) r(4) int_add_minus [OF n] by (simp add: events_inv_def)
  let ?s = "s\<lparr>sim_events := Some q', sim_unscheduledEvents := int (size (events q')),
      sim_eventCount := sim_eventCount s + 1, sim_currentTs := ev_ts e,
      sim_currentContext := ev_context e, sim_currentUid := ev_uid e\<rparr>"
  have "core_inv D U B ?s"
    using inv(3) e(3,4) by (simp add: core_inv_def)
  moreover have "events_inv B (events q') ?s"
    by (rule events_inv_next [OF inv(2) r(2,4)]) simp
  ultimately have "sim_ok invar events low D U B ?s"
    using r(3,5) by (simp add: sim_ok_def)
  moreover have "sim_eventsWithContextEmpty s"
    using inv(3) p by (simp add: core_inv_def)
  then have "sim_process_one_event ops (\<lambda>i w. Return (f i w)) w s =
      Inr (if impl_is_cancelled (sim_cancel s) i then w else f i w, ?s)"
    using q(1) r(1) i le ia
    by (simp add: sim_process_one_event_def sim_invoke_def sim_process_events_with_context_def)
  ultimately show ?thesis
    using r(2,4) i by blast
qed

lemma loop_silent:
  assumes "sim_ok invar events low D U B s" and "sim_eventsWithContext s = []"
    and "\<not> sim_stop s" and "sim_events s = Some q" and "size (events q) \<le> k" and "U < 2 ^ 31"
  shows "\<exists>es s' q'. sim_loop ops (\<lambda>i w. Return (f i w)) k w s =
      Some (Inr (deliver f (sim_cancel s) es w, s')) \<and>
    mset es = events q \<and> sorted_events es \<and> sim_events s' = Some q' \<and> events q' = {#} \<and>
    op_is_empty ops q' \<and> sim_unscheduledEvents s' = 0 \<and>
    sim_currentTs s' = (if es = [] then sim_currentTs s else ev_ts (last es))"
  using assms
proof (induction k arbitrary: s q w)
  case 0
  then have "op_is_empty ops q" "sim_unscheduledEvents s = 0"
    using is_empty by (auto simp: sim_ok_def events_inv_def)
  with 0 show ?case
    by (intro exI [of _ "[]"]) (simp add: sim_loop.simps [where n = 0])
next
  case (Suc k)
  show ?case
  proof (cases "events q = {#}")
    case True
    then have "op_is_empty ops q" "sim_unscheduledEvents s = 0"
      using Suc.prems is_empty by (auto simp: sim_ok_def events_inv_def)
    with Suc.prems True show ?thesis
      by (intro exI [of _ "[]"]) (simp add: sim_loop.simps [where n = "Suc k"])
  next
    case False
    from process_one_silent [OF Suc.prems(1,2,4) False Suc.prems(6), of f w] obtain e i q' where
      e: "ev_impl e = Some i" "earliest e (events q)" "events q = add_mset e (events q')"
      and p: "sim_process_one_event ops (\<lambda>i w. Return (f i w)) w s =
        Inr (if impl_is_cancelled (sim_cancel s) i then w else f i w,
           s\<lparr>sim_events := Some q', sim_unscheduledEvents := int (size (events q')),
             sim_eventCount := sim_eventCount s + 1, sim_currentTs := ev_ts e,
             sim_currentContext := ev_context e, sim_currentUid := ev_uid e\<rparr>)"
      and ok: "sim_ok invar events low D U B
        (s\<lparr>sim_events := Some q', sim_unscheduledEvents := int (size (events q')),
         sim_eventCount := sim_eventCount s + 1, sim_currentTs := ev_ts e,
         sim_currentContext := ev_context e, sim_currentUid := ev_uid e\<rparr>)"
      by blast
    have "\<not> op_is_empty ops q"
      using False Suc.prems(1,4) is_empty by (auto simp: sim_ok_def)
    then have l: "sim_loop ops (\<lambda>i w. Return (f i w)) (Suc k) w s =
        sim_loop ops (\<lambda>i w. Return (f i w)) k (if impl_is_cancelled (sim_cancel s) i then w else f i w)
          (s\<lparr>sim_events := Some q', sim_unscheduledEvents := int (size (events q')),
             sim_eventCount := sim_eventCount s + 1, sim_currentTs := ev_ts e,
             sim_currentContext := ev_context e, sim_currentUid := ev_uid e\<rparr>)"
      using p Suc.prems(3,4) by (simp add: sim_loop.simps [where n = "Suc k"])
    have "size (events q') \<le> k"
      using e(3) Suc.prems(5) by simp
    with Suc.IH [OF ok _ _ _ this Suc.prems(6), of "if impl_is_cancelled (sim_cancel s) i then w else f i w"]
      Suc.prems(2,3) obtain es s' q'' where
      IH: "sim_loop ops (\<lambda>i w. Return (f i w)) (Suc k) w s =
          Some (Inr (deliver f (sim_cancel s) es (if impl_is_cancelled (sim_cancel s) i then w else f i w), s'))"
        "mset es = events q'" "sorted_events es" "sim_events s' = Some q''" "events q'' = {#}"
        "op_is_empty ops q''" "sim_unscheduledEvents s' = 0"
        "sim_currentTs s' = (if es = [] then ev_ts e else ev_ts (last es))"
      unfolding l by auto
    have "\<forall>x \<in> set es. ev_rank e \<le> ev_rank x"
      using earliest_le [OF e(2)] e(3) IH(2) by (metis insert_iff set_mset_add_mset_insert set_mset_mset)
    with IH e show ?thesis
      by (intro exI [of _ "e # es"] exI [of _ s'] exI [of _ q'']) simp
  qed
qed

lemma run_silent:
  assumes ok: "sim_ok invar events low D U B s" and p: "sim_eventsWithContext s = []"
    and q: "sim_events s = Some q" "size (events q) \<le> k" and U: "U < 2 ^ 31"
  shows "\<exists>es s' q'. sim_run ops (\<lambda>i w. Return (f i w)) thread k w s =
      Some (Inr (deliver f (sim_cancel s) es w, s')) \<and>
    mset es = events q \<and> sorted_events es \<and> sim_events s' = Some q' \<and> events q' = {#} \<and>
    sim_currentTs s' = (if es = [] then sim_currentTs s else ev_ts (last es))"
proof -
  let ?s = "s\<lparr>sim_mainThreadId := thread, sim_stop := False\<rparr>"
  have "sim_ok invar events low D U B ?s"
    using ok by (auto simp: sim_ok_def core_inv_def events_inv_def)
  from loop_silent [OF this, of q k f w] p q U obtain es s' q' where
    l: "sim_loop ops (\<lambda>i w. Return (f i w)) k w ?s = Some (Inr (deliver f (sim_cancel s) es w, s'))"
      "mset es = events q" "sorted_events es" "sim_events s' = Some q'" "events q' = {#}"
      "op_is_empty ops q'" "sim_unscheduledEvents s' = 0"
      "sim_currentTs s' = (if es = [] then sim_currentTs s else ev_ts (last es))"
    by auto
  have "sim_eventsWithContextEmpty s"
    using ok p by (simp add: sim_ok_def core_inv_def)
  then have "sim_run ops (\<lambda>i w. Return (f i w)) thread k w s =
      Some (Inr (deliver f (sim_cancel s) es w, s'))"
    using l by (simp add: sim_run_def sim_process_events_with_context_def)
  with l show ?thesis by blast
qed

end

section \<open>Exchanging the scheduler\<close>

locale scheduler_change =
  old: event_queue ops invar events low horizon +
  new: event_queue ops' invar' events' low' horizon'
  for ops :: "'q scheduler_ops" and invar events low horizon
    and ops' :: "'p scheduler_ops" and invar' events' low' horizon'
begin

lemma move_queue_correct:
  assumes "invar q" and "invar' p" and "distinct_ranks (events q + events' p)"
    and "\<forall>e \<in># events q. low' p \<le> ev_ts e \<and> ev_ts e \<le> horizon'"
    and "size (events q + events' p) < 2 ^ 32"
  shows "\<exists>p'. sim_move_queue ops ops' q p = Some (Inr p') \<and> invar' p' \<and>
    events' p' = events q + events' p \<and> low' p' = low' p"
  using assms
proof (induction "size (events q)" arbitrary: q p)
  case 0
  then show ?case
    by (simp add: sim_move_queue.simps old.is_empty)
next
  case (Suc n)
  then have ne: "events q \<noteq> {#}"
    by auto
  obtain e q' where r: "op_remove_next ops q = Inr (e, q')" "invar q'"
    "events q = add_mset e (events q')"
    using old.remove_nextE [OF Suc.prems(1) ne] by metis
  have f: "fresh e (events' p)"
    using Suc.prems(3) r(3) by (auto simp: distinct_on_add fresh_alt)
  have lo: "low' p \<le> ev_ts e" "ev_ts e \<le> horizon'"
    using Suc.prems(4) r(3) by simp_all
  have "Suc (size (events' p)) < 2 ^ 32"
    using Suc.prems(5) r(3) by simp
  from new.insert [OF Suc.prems(2) f lo this] obtain p' where
    p': "op_insert ops' e p = Inr p'" "invar' p'" "events' p' = add_mset e (events' p)"
      "low' p' = low' p"
    by blast
  have "n = size (events q')"
    using Suc.hyps(2) r(3) by simp
  from Suc.hyps(1) [OF this r(2) p'(2)] obtain p'' where
    "sim_move_queue ops ops' q' p' = Some (Inr p'')" "invar' p''"
    "events' p'' = events q' + events' p'" "low' p'' = low' p'"
    using Suc.prems(3-5) r(3) p'(3,4) by auto
  with r p' ne Suc.prems(1) show ?case
    by (subst sim_move_queue.simps) (simp add: old.is_empty)
qed

lemma set_scheduler_correct:
  assumes ok: "sim_ok invar events low D U B s" and B: "B \<le> unat horizon'" and U: "U < 2 ^ 31"
  shows "\<exists>s'. sim_set_scheduler ops ops' s = Some (Inr s') \<and>
    sim_ok invar' events' low' D U B s' \<and> sim_abs events' s' = sim_abs events s"
proof -
  from ok obtain q where q: "sim_events s = Some q" "invar q" "events_inv B (events q) s"
    "core_inv D U B s"
    by (auto simp: sim_ok_def)
  have c: "invar' (op_create ops')" "events' (op_create ops') = {#}" "low' (op_create ops') = 0"
    using new.create by simp_all
  have "distinct_ranks (events q)"
    using q(3) by (simp add: events_inv_def distinct_uids_ranks)
  moreover have "\<forall>e \<in># events q. ev_ts e \<le> horizon'"
    using q(3) B by (auto simp: events_inv_def word_le_nat_alt)
  moreover have "size (events q) < 2 ^ 32"
    using q(3,4) U by (simp add: events_inv_def core_inv_def)
  ultimately obtain p where p: "sim_move_queue ops ops' q (op_create ops') = Some (Inr p)"
    "invar' p" "events' p = events q" "low' p = 0"
    using move_queue_correct [OF q(2) c(1)] c by auto
  have "sim_set_scheduler ops ops' s = Some (Inr (sim_with_events (Some p) s))"
    using q(1) p(1) by (simp add: sim_set_scheduler_def)
  moreover have "sim_abs events' (sim_with_events (Some p) s) = sim_abs events s"
    using q(1) p(3) by (simp add: sim_abs_def sim_with_events_def)
  moreover have "sim_ok invar' events' low' D U B (sim_with_events (Some p) s)"
    using p q(3,4) by (simp add: sim_ok_def events_inv_def core_inv_def)
  ultimately show ?thesis
    by blast
qed

end

section \<open>Destruction\<close>

text \<open>Destroy events whose handlers make no calls run once each, in the order of registration.\<close>

definition run_destroyed ::
  "(nat \<Rightarrow> 'w \<Rightarrow> 'w) \<Rightarrow> cancel_flags \<Rightarrow> event_id list \<Rightarrow> 'w \<Rightarrow> 'w" where
  "run_destroyed f m ds w =
     foldl (\<lambda>w d. case id_impl d of
                None \<Rightarrow> w | Some i \<Rightarrow> if impl_is_cancelled m i then w else f i w) w ds"

lemma destroy_silent:
  assumes "\<forall>d \<in> set (sim_destroyEvents s). id_impl d \<noteq> None" and "length (sim_destroyEvents s) \<le> n"
  shows "sim_destroy ops (\<lambda>i w. Return (f i w)) n w s =
    Some (Inr (run_destroyed f (sim_cancel s) (sim_destroyEvents s) w, s\<lparr>sim_destroyEvents := []\<rparr>))"
  using assms
proof (induction "sim_destroyEvents s" arbitrary: s n w)
  case Nil
  then show ?case
    by (cases s) (simp add: sim_destroy.simps [where n = n] run_destroyed_def)
next
  case (Cons d ds)
  then obtain m i where m: "n = Suc m" "id_impl d = Some i"
    by (cases n; cases "id_impl d") (auto dest: sym)
  let ?s = "s\<lparr>sim_destroyEvents := ds\<rparr>"
  have "sim_destroy ops (\<lambda>i w. Return (f i w)) m w' ?s =
      Some (Inr (run_destroyed f (sim_cancel s) ds w', s\<lparr>sim_destroyEvents := []\<rparr>))" for w'
    using Cons.hyps(1) [of ?s m w'] Cons.prems Cons.hyps(2) [symmetric] m(1) by simp
  then show ?case
    using Cons.hyps(2) [symmetric] m
    by (simp add: sim_destroy.simps [where n = "Suc m"] sim_invoke_def run_destroyed_def Let_def)
qed

context simulation_kernel
begin

text \<open>\<open>DoDispose\<close> hands back every event that is queued or waits to be moved to the queue.\<close>

lemma dispose_correct:
  assumes d: "sim_during invar events low D U B main ts s"
    and B: "unat ts + D \<le> B" "B \<le> unat horizon" "B < 2 ^ 63" and U: "U < 2 ^ 31"
  shows "\<exists>es s1 q. sim_process_events_with_context ops s = Inr s1 \<and> sim_events s1 = Some q \<and>
    sim_do_dispose ops s = Some (Inr (es, s1\<lparr>sim_events := None\<rparr>)) \<and>
    mset es = events q \<and> sorted_events es"
proof -
  obtain s1 where s1: "sim_process_events_with_context ops s = Inr s1"
    "sim_during invar events low D U B main ts s1"
    using flush_refines [OF d B U] by (auto simp: refines_def result_elims)
  then obtain q where q: "sim_events s1 = Some q" "invar q"
    by (auto simp: sim_during_def sim_ok_def)
  from drain_sorted [OF q(2)] q(1) s1(1) show ?thesis
    by (auto simp: sim_do_dispose_def)
qed

end

section \<open>Whole simulations\<close>

text \<open>
  A simulation from the beginning: the simulator is made and given a scheduler, the main program
  makes its calls and then calls \<open>Run\<close>. The result is what the program can observe: the state of the
  network and the state of the kernel without its scheduler object.
\<close>

definition sim_start :: "'q scheduler_ops \<Rightarrow> nat \<Rightarrow> 'q sim" where
  "sim_start ops thread = (sim_init thread)\<lparr>sim_events := Some (op_create ops)\<rparr>"

definition simulate ::
  "'q scheduler_ops \<Rightarrow> (nat \<Rightarrow> 'w \<Rightarrow> 'w handler) \<Rightarrow> nat \<Rightarrow> 'w handler \<Rightarrow> nat \<Rightarrow>
     ('w \<times> sim_core) result option" where
  "simulate ops notify thread main n =
     (case sim_handle ops main (sim_start ops thread) of
        Inl f \<Rightarrow> Some (Inl f)
      | Inr p \<Rightarrow> map_option (res_map (apsnd sim_core.truncate)) (sim_run ops notify thread n (fst p) (snd p)))"

text \<open>A handler that makes the calls of a list and ignores the replies.\<close>

fun call_list :: "(nat \<times> sim_call) list \<Rightarrow> 'w \<Rightarrow> 'w handler" where
  "call_list [] w = Return w"
| "call_list ((t, c) # cs) w = Call t c (\<lambda>_. call_list cs w)"

text \<open>What remains of a result when only the state of the network is looked at.\<close>

definition network_of :: "('w \<times> sim_core) result option \<Rightarrow> 'w result option" where
  "network_of r = map_option (res_map fst) r"

lemma sim_start_set_scheduler:
  "sim_set_scheduler old ops (sim_init thread) = Some (Inr (sim_start ops thread))"
  by (simp add: sim_set_scheduler_def sim_init_def sim_start_def sim_with_events_def)

lemma truncate_abs [simp]: "sim_core.truncate (sim_abs ev s) = sim_core.truncate s"
  by (simp add: sim_core.truncate_def)

context simulation_kernel
begin

lemma start_ok: "sim_during invar events low D 4 D thread 0 (sim_start ops thread)"
  using create
  by (simp add: sim_during_def sim_start_def sim_init_def sim_ok_def events_inv_def core_inv_def
      uid_VALID_def uid_INVALID_def)

lemma start_abs: "sim_abs events (sim_start ops thread) = sim_start spec_ops thread"
  using create
  by (simp add: sim_start_def sim_init_def sim_abs_def sim_with_events_def spec_ops_def)

lemma simulate_refines:
  assumes m: "handler_ok D thread main m" and h: "\<And>i w. handler_ok D thread (notify i w) n"
    and B: "D * (k + 2) \<le> unat horizon" "D * (k + 2) < 2 ^ 63" and U: "4 + m + k * n < 2 ^ 31"
  shows "simulate ops notify thread main k = simulate spec_ops notify thread main k"
    and "simulate ops notify thread main k = None \<or>
      (\<exists>w c. simulate ops notify thread main k = Some (Inr (w, c)) \<and>
        0 \<le> sim_unscheduledEvents c \<and> (sim_stop c \<or> sim_unscheduledEvents c = 0))"
proof -
  have D: "unat (0 :: 64 word) + D \<le> D" "D \<le> unat horizon" "D < 2 ^ 63" "4 + m < 2 ^ 31"
    using B U by auto
  obtain w s where s: "sim_handle ops main (sim_start ops thread) = Inr (w, s)"
    "sim_handle spec_ops main (sim_start spec_ops thread) = Inr (w, sim_abs events s)"
    "sim_during invar events low D (4 + m) D thread 0 s"
    using handle_refines [OF start_ok m D] unfolding refines_def start_abs by blast
  have "sim_ok invar events low D (4 + m) D s"
    using s(3) by (simp add: sim_during_def)
  from run_refines [where k = k and notify = notify and w = w, OF this h] B U
  have r: "loop_refines events (\<lambda>s'. sim_ok invar events low D (4 + m + k * n) (D + Suc k * D) s' \<and>
      sim_currentTs s \<le> sim_currentTs s' \<and>
      (sim_stop s' \<or> (\<exists>q. sim_events s' = Some q \<and> events q = {#})))
    (sim_run ops notify thread k w s) (sim_run spec_ops notify thread k w (sim_abs events s))"
    by (simp add: algebra_simps)
  then show "simulate ops notify thread main k = simulate spec_ops notify thread main k"
    unfolding simulate_def s by (auto simp: loop_refines_def refines_def)
  show "simulate ops notify thread main k = None \<or>
      (\<exists>w c. simulate ops notify thread main k = Some (Inr (w, c)) \<and>
        0 \<le> sim_unscheduledEvents c \<and> (sim_stop c \<or> sim_unscheduledEvents c = 0))"
    using r unfolding simulate_def s
    by (auto simp: loop_refines_def refines_def sim_ok_def events_inv_def sim_core.truncate_def)
qed

end

lemma schedule_new_id:
  assumes "sim_uid s \<noteq> uid_DESTROY" and "sim_currentUid s < sim_uid s"
    and "\<not> impl_is_cancelled (sim_cancel s) i" and "sim_schedule ops t delay (Some i) s = Inr (eid, s')"
    and "unat delay + unat (sim_currentTs s) < 2 ^ 63"
  shows "\<not> sim_is_expired eid s' \<and> sim_get_delay_left eid s' = delay"
proof -
  have le: "sim_currentTs s \<le> delay + sim_currentTs s"
    using time_add_small(2) [OF assms(5)] by (simp add: word_le_nat_alt)
  from assms(4) obtain e where
    enq: "sim_enqueue ops (Some i) (delay + sim_currentTs s) (sim_currentContext s) s = Inr (e, s')"
    and eid: "eid = \<lparr>id_impl = Some i, id_ts = ev_ts e, id_context = ev_context e, id_uid = ev_uid e\<rparr>"
    unfolding sim_schedule_def time_add_small(1) [OF assms(5)] by (auto simp: result_elims)
  have e: "e = \<lparr>ev_impl = Some i, ev_key = \<lparr>key_ts = delay + sim_currentTs s,
      key_uid = sim_uid s, key_context = sim_currentContext s\<rparr>\<rparr>"
    and core: "sim_currentTs s' = sim_currentTs s" "sim_currentUid s' = sim_currentUid s"
      "sim_cancel s' = sim_cancel s"
    using enq unfolding sim_enqueue_def Let_def result_elims by auto
  have id: "id_impl eid = Some i" "id_ts eid = delay + sim_currentTs s" "id_uid eid = sim_uid s"
    by (simp_all add: eid e)
  have "\<not> sim_uid s \<le> sim_currentUid s"
    using assms(2) by (simp add: not_le)
  with assms(1,3) le have "\<not> sim_is_expired eid s'"
    unfolding sim_is_expired_def id core by (simp add: not_less)
  then show ?thesis
    by (simp add: sim_get_delay_left_def id core)
qed

end
