(* ===== verification/Sequence_Number.thy ===== *)
theory Sequence_Number
  imports Ns_Prelude
begin

text \<open>
  \<open>SequenceNumber\<close> (\<open>src/network/utils/sequence-number.h\<close>) at the width of TCP, \<open>SequenceNumber32\<close>:
  arithmetic modulo \<open>2^32\<close> and comparisons that read two numbers as close together. The lemmas compare
  these operations with the plain order of the unbounded positions a connection counts in.
\<close>

section \<open>Operations\<close>

type_synonym seq32 = "32 word"

definition seq_default :: seq32 where
  "seq_default = 0"

definition half_max :: seq32 where
  "half_max = (- 1) div 2"

definition seq_inc :: "seq32 \<Rightarrow> seq32" where
  "seq_inc a = a + 1"

definition seq_dec :: "seq32 \<Rightarrow> seq32" where
  "seq_dec a = a - 1"

definition seq_add :: "seq32 \<Rightarrow> seq32 \<Rightarrow> seq32" where
  "seq_add a b = a + b"

definition seq_minus :: "seq32 \<Rightarrow> 32 word \<Rightarrow> seq32" where
  "seq_minus a delta = a - delta"

text \<open>
  The difference of two sequence numbers is an \<open>int32_t\<close>, here its bit pattern. Negating the least
  \<open>int32_t\<close> is undefined.
\<close>

definition int32_neg :: "32 word \<Rightarrow> 32 word result" where
  "int32_neg x = (if x = 0x80000000 then Inl Undefined_behaviour else Inr (- x))"

definition seq_diff :: "seq32 \<Rightarrow> seq32 \<Rightarrow> 32 word result" where
  "seq_diff a b =
     (if a > b then
        (let diff = a - b
         in if diff < half_max then Inr diff else int32_neg (- 1 - a + 1 + b))
      else
        (let diff = b - a
         in if diff < half_max then int32_neg diff else Inr (- 1 - b + 1 + a)))"

definition seq_gt :: "seq32 \<Rightarrow> seq32 \<Rightarrow> bool" where
  "seq_gt a b \<longleftrightarrow> a > b \<and> a - b \<le> half_max \<or> b > a \<and> b - a > half_max"

definition seq_eq :: "seq32 \<Rightarrow> seq32 \<Rightarrow> bool" where
  "seq_eq a b \<longleftrightarrow> a = b"

definition seq_neq :: "seq32 \<Rightarrow> seq32 \<Rightarrow> bool" where
  "seq_neq a b \<longleftrightarrow> a \<noteq> b"

definition seq_le :: "seq32 \<Rightarrow> seq32 \<Rightarrow> bool" where
  "seq_le a b \<longleftrightarrow> \<not> seq_gt a b"

definition seq_ge :: "seq32 \<Rightarrow> seq32 \<Rightarrow> bool" where
  "seq_ge a b \<longleftrightarrow> seq_gt a b \<or> seq_eq a b"

definition seq_lt :: "seq32 \<Rightarrow> seq32 \<Rightarrow> bool" where
  "seq_lt a b \<longleftrightarrow> \<not> seq_gt a b \<and> a \<noteq> b"

section \<open>Comparison as a signed distance\<close>

lemma unat_half_max: "unat half_max = 2 ^ 31 - 1"
  by (simp add: half_max_def unat_div unsigned_minus_1_eq_mask mask_eq_exp_minus_1)

lemma unat_minus32: "unat (a - b :: 32 word) = (if b \<le> a then unat a - unat b else 2 ^ 32 - (unat b - unat a))"
proof (cases "b \<le> a")
  case True
  then show ?thesis by (simp add: unat_sub)
next
  case False
  then have lt: "a < b" by simp
  then have "unat (b - a) = unat b - unat a"
    by (simp add: unat_sub)
  moreover have "unat (a - b) = 2 ^ 32 - unat (b - a)"
  proof -
    have "(unat (a - b) + unat (b - a)) mod 2 ^ 32 = unat (a - b + (b - a))"
      by (simp only: unat_word_ariths(1)) simp
    then have "(unat (a - b) + unat (b - a)) mod 2 ^ 32 = 0"
      by simp
    moreover have "unat (a - b) < 2 ^ 32" "unat (b - a) < 2 ^ 32"
      using unsigned_less [where 'b = 32 and w = "a - b"] unsigned_less [where 'b = 32 and w = "b - a"]
      by simp_all
    moreover have "0 < unat (b - a)"
      using lt \<open>unat (b - a) = unat b - unat a\<close> by (simp add: word_less_nat_alt)
    ultimately show ?thesis
      by (simp add: mod_if split: if_splits)
  qed
  ultimately show ?thesis
    using False by simp
qed

lemma seq_gt_unat:
  "seq_gt a b \<longleftrightarrow> 0 < unat (a - b) \<and> unat (a - b) < 2 ^ 31 \<or> unat (a - b) = 2 ^ 31 \<and> a < b"
proof -
  have "unat a < 2 ^ 32" "unat b < 2 ^ 32"
    using unsigned_less [where 'b = 32 and w = a] unsigned_less [where 'b = 32 and w = b] by simp_all
  then show ?thesis
    by (auto simp: seq_gt_def word_less_nat_alt word_le_nat_alt unat_minus32 unat_half_max)
qed

text \<open>Exactly one of the three relations holds between two numbers, at any distance.\<close>

lemma seq_trichotomy:
  "(seq_lt a b \<and> \<not> seq_gt a b \<and> a \<noteq> b) \<or> (\<not> seq_lt a b \<and> seq_gt a b \<and> a \<noteq> b) \<or>
   (\<not> seq_lt a b \<and> \<not> seq_gt a b \<and> a = b)"
proof -
  have "\<not> seq_gt a a"
    by (simp add: seq_gt_def)
  then show ?thesis
    by (auto simp: seq_lt_def)
qed

lemma seq_gt_flip: "seq_gt a b \<longleftrightarrow> seq_lt b a"
proof -
  have "unat a < 2 ^ 32" "unat b < 2 ^ 32"
    using unsigned_less [where 'b = 32 and w = a] unsigned_less [where 'b = 32 and w = b] by simp_all
  then show ?thesis
    by (auto simp: seq_gt_unat seq_lt_def unat_minus32 word_less_nat_alt word_le_nat_alt
        dest: unsigned_word_eqI)
qed

lemma seq_diff_eq:
  "seq_diff a b =
     (if a > b \<and> a - b = 0x80000000 then Inl Undefined_behaviour else Inr (a - b))"
proof (cases "a > b")
  case True
  have x: "- 1 - a + 1 + b = - (a - b)"
    by simp
  have "- (a - b) = 0x80000000 \<longleftrightarrow> a - b = - 0x80000000"
    by (metis minus_minus)
  then show ?thesis
    using True by (auto simp: seq_diff_def Let_def x int32_neg_def half_max_def word_less_nat_alt unat_div
        unsigned_minus_1_eq_mask mask_eq_exp_minus_1)
next
  case False
  have "b - a = 0x80000000 \<Longrightarrow> \<not> b - a < half_max"
    by (simp add: word_less_nat_alt unat_half_max)
  then show ?thesis
    using False by (auto simp: seq_diff_def Let_def int32_neg_def)
qed

section \<open>Positions\<close>

text \<open>
  The position \<open>x\<close> of a byte stream has the sequence number \<open>of_nat x\<close>. Between positions less than
  \<open>2^31\<close> apart the modular operations are the plain ones.
\<close>

definition near :: "nat \<Rightarrow> nat \<Rightarrow> bool" where
  "near x y \<longleftrightarrow> x < y + 2 ^ 31 \<and> y < x + 2 ^ 31"

lemma unat_of_nat_diff32:
  assumes "y \<le> x" and "x - y < 2 ^ 32"
  shows "unat (of_nat x - of_nat y :: 32 word) = x - y"
proof -
  have "of_nat x - of_nat y = (of_nat (x - y) :: 32 word)"
    using assms(1) by (simp add: of_nat_diff)
  with assms(2) show ?thesis
    by (simp add: unat_of_nat)
qed

lemma seq_gt_of_nat: "near x y \<Longrightarrow> seq_gt (of_nat x) (of_nat y) \<longleftrightarrow> x > y"
proof -
  assume n: "near x y"
  show ?thesis
  proof (cases "y \<le> x")
    case True
    with n have "x - y < 2 ^ 31"
      by (auto simp: near_def)
    with unat_of_nat_diff32 [OF True] show ?thesis
      using True by (auto simp: seq_gt_unat)
  next
    case False
    with n have d: "y - x < 2 ^ 31" "0 < y - x"
      by (auto simp: near_def)
    then have u: "unat (of_nat y - of_nat x :: 32 word) = y - x"
      using False by (intro unat_of_nat_diff32) simp_all
    have "seq_gt (of_nat y) (of_nat x)"
      using u d by (simp add: seq_gt_unat)
    then have "\<not> seq_gt (of_nat x) (of_nat y)"
      by (simp add: seq_gt_flip [of "of_nat y"] seq_lt_def)
    with False show ?thesis by simp
  qed
qed

lemma near_sym: "near x y \<longleftrightarrow> near y x"
  by (auto simp: near_def)

lemma of_nat_eq_near: "near x y \<Longrightarrow> (of_nat x :: 32 word) = of_nat y \<longleftrightarrow> x = y"
  using seq_gt_of_nat [of x y] seq_gt_of_nat [of y x] seq_trichotomy [of "of_nat x" "of_nat x"]
  by (metis linorder_less_linear near_sym)

lemma seq_of_nat:
  assumes "near x y"
  shows "seq_gt (of_nat x) (of_nat y) \<longleftrightarrow> x > y" "seq_lt (of_nat x) (of_nat y) \<longleftrightarrow> x < y"
    "seq_le (of_nat x) (of_nat y) \<longleftrightarrow> x \<le> y" "seq_ge (of_nat x) (of_nat y) \<longleftrightarrow> x \<ge> y"
    "seq_eq (of_nat x) (of_nat y) \<longleftrightarrow> x = y"
  using assms seq_gt_of_nat [OF assms] of_nat_eq_near [OF assms]
  by (auto simp: seq_lt_def seq_le_def seq_ge_def seq_eq_def)

lemma seq_diff_of_nat:
  assumes "y \<le> x" and "x < y + 2 ^ 31"
  shows "seq_diff (of_nat x) (of_nat y) = Inr (of_nat (x - y))"
proof -
  have "unat (of_nat x - of_nat y :: 32 word) = x - y"
    using assms by (intro unat_of_nat_diff32) simp_all
  then have "of_nat x - of_nat y \<noteq> (0x80000000 :: 32 word)"
    using assms by auto
  with assms show ?thesis
    by (simp add: seq_diff_eq of_nat_diff)
qed

section \<open>Properties\<close>

text \<open>The difference of two sequence numbers is their difference modulo \<open>2^32\<close> read as a signed
  number, on all four branches, except at distance \<open>2^31\<close> from above, where the negation of the least
  \<open>int32_t\<close> is undefined.\<close>

theorem seq_diff_is_subtraction:
  "seq_diff a b = (if a > b \<and> a - b = 0x80000000 then Inl Undefined_behaviour else Inr (a - b))"
  by (rule seq_diff_eq)

text \<open>The comparison operators of sequence numbers agree with the order of the unbounded positions
  as long as these are less than \<open>2^31\<close> apart, across the wrap-around of the numbers.\<close>

theorem seq_order_of_positions:
  assumes "x < y + 2 ^ 31" and "y < x + 2 ^ 31"
  shows "(seq_gt (of_nat x) (of_nat y) \<longleftrightarrow> x > y) \<and> (seq_lt (of_nat x) (of_nat y) \<longleftrightarrow> x < y) \<and>
    (seq_le (of_nat x) (of_nat y) \<longleftrightarrow> x \<le> y) \<and> (seq_ge (of_nat x) (of_nat y) \<longleftrightarrow> x \<ge> y) \<and>
    (seq_eq (of_nat x) (of_nat y) \<longleftrightarrow> x = y)"
  using seq_of_nat [of x y] assms by (simp add: near_def)

theorem seq_order_of_positions_witness: "seq_lt 0xfffffffe (3 :: 32 word)"
proof -
  have "(4294967299 :: 32 word) = 3"
    by simp
  with seq_order_of_positions [of 4294967294 4294967299] show ?thesis
    by simp
qed

text \<open>The order is total but not transitive: of any two different numbers exactly one is the greater,
  also at distance \<open>2^31\<close>, yet there are three numbers in a circle.\<close>

theorem seq_order_total_not_transitive:
  "(a \<noteq> b \<longleftrightarrow> (seq_gt a b \<longleftrightarrow> \<not> seq_gt b a)) \<and>
   seq_lt 0 0x60000000 \<and> seq_lt 0x60000000 0xc0000000 \<and> seq_lt 0xc0000000 0"
proof (intro conjI)
  show "a \<noteq> b \<longleftrightarrow> (seq_gt a b \<longleftrightarrow> \<not> seq_gt b a)"
    using seq_trichotomy [of a b] by (auto simp: seq_gt_flip [of b a])
qed (simp_all add: seq_lt_def seq_gt_def half_max_def word_less_nat_alt word_le_nat_alt unat_div
    unsigned_minus_1_eq_mask mask_eq_exp_minus_1)

end
