(* ===== verification/Tcp_Rx_Buffer.thy ===== *)
theory Tcp_Rx_Buffer
  imports Sequence_Number Std_Map
begin

text \<open>
  \<open>TcpRxBuffer\<close> (\<open>src/internet/model/tcp-rx-buffer.cc\<close>), the receive buffer of a TCP socket: segments
  that arrive in any order, overlap and repeat are trimmed and kept in a map ordered by sequence
  number, the in-order part is handed to the application, and the SACK list reports the rest. A
  packet is the list of its bytes.
\<close>

section \<open>State\<close>

record rx_buffer =
  rx_nextRxSeq :: seq32
  rx_finSeq :: seq32
  rx_gotFin :: bool
  rx_size :: "32 word"
  rx_maxBuffer :: "32 word"
  rx_availBytes :: "32 word"
  rx_data :: "(seq32 \<times> bytes) list"
  rx_sackList :: "(seq32 \<times> seq32) list"

definition rx_init :: "seq32 \<Rightarrow> rx_buffer" where
  "rx_init n =
     \<lparr>rx_nextRxSeq = n, rx_finSeq = seq_default, rx_gotFin = False, rx_size = 0, rx_maxBuffer = 32768,
      rx_availBytes = 0, rx_data = [], rx_sackList = []\<rparr>"

text \<open>\<open>Packet::GetSize\<close> and \<open>Packet::CreateFragment\<close>.\<close>

definition pkt_size :: "bytes \<Rightarrow> 32 word" where
  "pkt_size p = of_nat (length p)"

definition pkt_fragment :: "32 word \<Rightarrow> 32 word \<Rightarrow> bytes \<Rightarrow> bytes result" where
  "pkt_fragment start len p =
     ns_assert (start + len \<le> pkt_size p) (Inr (take (unat len) (drop (unat start) p)))"

section \<open>Accessors\<close>

definition rx_set_next :: "seq32 \<Rightarrow> rx_buffer \<Rightarrow> rx_buffer" where
  "rx_set_next s b = b\<lparr>rx_nextRxSeq := s\<rparr>"

definition rx_set_max :: "32 word \<Rightarrow> rx_buffer \<Rightarrow> rx_buffer" where
  "rx_set_max s b = b\<lparr>rx_maxBuffer := s\<rparr>"

definition rx_inc_next :: "rx_buffer \<Rightarrow> rx_buffer result" where
  "rx_inc_next b = ns_assert (rx_size b = 0) (Inr (b\<lparr>rx_nextRxSeq := seq_inc (rx_nextRxSeq b)\<rparr>))"

definition rx_max_seq :: "rx_buffer \<Rightarrow> seq32" where
  "rx_max_seq b =
     (if rx_gotFin b then rx_finSeq b
      else if rx_data b \<noteq> [] \<and> seq_gt (rx_nextRxSeq b) (fst (hd (rx_data b))) then
        seq_add (fst (hd (rx_data b))) (rx_maxBuffer b)
      else seq_add (rx_nextRxSeq b) (rx_maxBuffer b))"

definition rx_set_fin :: "seq32 \<Rightarrow> rx_buffer \<Rightarrow> rx_buffer" where
  "rx_set_fin s b =
     (let b1 = b\<lparr>rx_gotFin := True, rx_finSeq := s\<rparr>
      in if seq_eq (rx_nextRxSeq b1) (rx_finSeq b1)
         then b1\<lparr>rx_nextRxSeq := seq_inc (rx_nextRxSeq b1)\<rparr> else b1)"

definition rx_finished :: "rx_buffer \<Rightarrow> bool" where
  "rx_finished b \<longleftrightarrow> rx_gotFin b \<and> seq_lt (rx_finSeq b) (rx_nextRxSeq b)"

section \<open>The SACK list\<close>

text \<open>
  The loop of \<open>UpdateSackList\<close>: \<open>begin\<close> is the first block of the list, \<open>vs\<close> the blocks already
  examined. A merge deletes the current block and starts again behind the new first block.
\<close>

function sack_merge :: "seq32 \<times> seq32 \<Rightarrow> (seq32 \<times> seq32) list \<Rightarrow> (seq32 \<times> seq32) list \<Rightarrow>
    (seq32 \<times> seq32) list result" where
  "sack_merge first vs [] = Inr (first # vs)"
| "sack_merge first vs (current # rest) =
     (if seq_eq (fst first) (snd current) then
        ns_assert (seq_lt (fst current) (snd first))
          (sack_merge (fst current, snd first) [] (vs @ rest))
      else if seq_eq (snd first) (fst current) then
        ns_assert (seq_lt (fst first) (snd current))
          (sack_merge (fst first, snd current) [] (vs @ rest))
      else sack_merge first (vs @ [current]) rest)"
  by pat_completeness auto
termination
  by (relation "measures [\<lambda>(_, vs, rest). length vs + length rest, \<lambda>(_, vs, rest). length rest]") auto

definition rx_update_sack :: "seq32 \<Rightarrow> seq32 \<Rightarrow> rx_buffer \<Rightarrow> rx_buffer result" where
  "rx_update_sack head tail b =
     ns_assert (seq_gt head (rx_nextRxSeq b))
       (res_bind (sack_merge (head, tail) [] (rx_sackList b)) (\<lambda>l.
        Inr (b\<lparr>rx_sackList := (if 4 < length l then butlast l else l)\<rparr>)))"

fun sack_clear :: "seq32 \<Rightarrow> (seq32 \<times> seq32) list \<Rightarrow> (seq32 \<times> seq32) list result" where
  "sack_clear seq [] = Inr []"
| "sack_clear seq (block # l) =
     ns_assert (seq_lt (fst block) (snd block))
       (if seq_le (snd block) seq then sack_clear seq l
        else res_map (\<lambda>l'. block # l') (sack_clear seq l))"

section \<open>Add\<close>

text \<open>
  The loop that removes overlapped bytes: it runs over the map in order and returns the entries that
  stay, the new head and tail of the packet and the new \<open>m_size\<close>.
\<close>

fun rx_trim :: "(seq32 \<times> bytes) list \<Rightarrow> seq32 \<Rightarrow> seq32 \<Rightarrow> 32 word \<Rightarrow>
    (seq32 \<times> bytes) list \<times> seq32 \<times> seq32 \<times> 32 word" where
  "rx_trim [] headSeq tailSeq sz = ([], headSeq, tailSeq, sz)"
| "rx_trim ((k, p) # rest) headSeq tailSeq sz =
     (if \<not> seq_le k tailSeq then ((k, p) # rest, headSeq, tailSeq, sz)
      else
        (let lastByteSeq = seq_add k (pkt_size p)
         in if seq_gt lastByteSeq headSeq then
              if seq_gt k headSeq \<and> seq_lt lastByteSeq tailSeq
              then rx_trim rest headSeq tailSeq (sz - pkt_size p)
              else
                (let headSeq' = (if seq_le k headSeq then lastByteSeq else headSeq);
                     tailSeq' = (if seq_ge lastByteSeq tailSeq then k else tailSeq)
                 in apfst (Cons (k, p)) (rx_trim rest headSeq' tailSeq' sz))
            else apfst (Cons (k, p)) (rx_trim rest headSeq tailSeq sz)))"

text \<open>The loop that moves \<open>m_nextRxSeq\<close> over the entries that have become contiguous.\<close>

fun rx_advance :: "(seq32 \<times> bytes) list \<Rightarrow> seq32 \<Rightarrow> 32 word \<Rightarrow> (seq32 \<times> seq32) list \<Rightarrow>
    (seq32 \<times> 32 word \<times> (seq32 \<times> seq32) list) result" where
  "rx_advance [] nextSeq avail sack = Inr (nextSeq, avail, sack)"
| "rx_advance ((k, p) # rest) nextSeq avail sack =
     (if seq_lt k nextSeq then rx_advance rest nextSeq avail sack
      else if seq_gt k nextSeq then Inr (nextSeq, avail, sack)
      else
        (let nextSeq' = seq_add k (pkt_size p)
         in res_bind (sack_clear nextSeq' sack) (\<lambda>sack'.
            rx_advance rest nextSeq' (avail + pkt_size p) sack')))"

text \<open>
  The second half of \<open>Add\<close>: the trimmed packet is stored, a SACK block is made when it is not in order,
  and the variables are updated.
\<close>

definition rx_store :: "seq32 \<Rightarrow> seq32 \<Rightarrow> bytes \<Rightarrow> rx_buffer \<Rightarrow> (bool \<times> rx_buffer) result" where
  "rx_store headSeq tailSeq p b =
     ns_assert (smap_find seq_lt headSeq (rx_data b) = None)
       (let b1 = b\<lparr>rx_data := smap_assign seq_lt headSeq p (rx_data b)\<rparr>
        in res_bind (if seq_gt headSeq (rx_nextRxSeq b1)
                     then rx_update_sack headSeq tailSeq b1 else Inr b1) (\<lambda>b2.
           (let b3 = b2\<lparr>rx_size := rx_size b2 + pkt_size p\<rparr>
            in res_bind (rx_advance (rx_data b3) (rx_nextRxSeq b3) (rx_availBytes b3)
                           (rx_sackList b3)) (\<lambda>(nextSeq, avail, sack).
               (let b4 = b3\<lparr>rx_nextRxSeq := nextSeq, rx_availBytes := avail, rx_sackList := sack\<rparr>
                in Inr (True,
                     if rx_gotFin b4 \<and> seq_eq (rx_nextRxSeq b4) (rx_finSeq b4)
                     then b4\<lparr>rx_nextRxSeq := seq_inc (rx_nextRxSeq b4)\<rparr> else b4))))))"

definition rx_add :: "bytes \<Rightarrow> seq32 \<Rightarrow> rx_buffer \<Rightarrow> (bool \<times> rx_buffer) result" where
  "rx_add p seq b =
     (let headSeq = seq;
          tailSeq = seq_add headSeq (pkt_size p);
          headSeq = (if seq_lt headSeq (rx_nextRxSeq b) then rx_nextRxSeq b else headSeq);
          (headSeq, tailSeq) =
            (if rx_data b \<noteq> [] then
               (let maxSeq = seq_add (fst (hd (rx_data b))) (rx_maxBuffer b);
                    tailSeq = (if seq_lt maxSeq tailSeq then maxSeq else tailSeq);
                    headSeq = (if seq_lt tailSeq headSeq then tailSeq else headSeq)
                in (headSeq, tailSeq))
             else (headSeq, tailSeq));
          (data, headSeq, tailSeq, sz) = rx_trim (rx_data b) headSeq tailSeq (rx_size b);
          b1 = b\<lparr>rx_data := data, rx_size := sz\<rparr>
      in if seq_ge headSeq tailSeq then Inr (False, b1)
         else
           res_bind (seq_diff headSeq seq) (\<lambda>start.
           res_bind (seq_diff tailSeq headSeq) (\<lambda>len.
           res_bind (pkt_fragment start len p) (\<lambda>p'.
           ns_assert (len = pkt_size p') (rx_store headSeq tailSeq p' b1)))))"

section \<open>Extract\<close>

text \<open>The loop of \<open>Extract\<close>: the new map, \<open>m_size\<close>, \<open>m_availBytes\<close> and the bytes taken out.\<close>

fun rx_extract_loop :: "32 word \<Rightarrow> seq32 \<Rightarrow> (seq32 \<times> bytes) list \<Rightarrow> 32 word \<Rightarrow> 32 word \<Rightarrow> bytes \<Rightarrow>
    ((seq32 \<times> bytes) list \<times> 32 word \<times> 32 word \<times> bytes) result" where
  "rx_extract_loop extractSize nextSeq [] sz avail out =
     (if extractSize = 0 then Inr ([], sz, avail, out) else Inl Undefined_behaviour)"
| "rx_extract_loop extractSize nextSeq ((k, p) # rest) sz avail out =
     (if extractSize = 0 then Inr ((k, p) # rest, sz, avail, out)
      else ns_assert (seq_le k nextSeq)
        (let pktSize = pkt_size p
         in if pktSize \<le> extractSize then
              rx_extract_loop (extractSize - pktSize) nextSeq rest (sz - pktSize) (avail - pktSize)
                (out @ p)
            else
              res_bind (pkt_fragment 0 extractSize p) (\<lambda>p1.
              res_bind (pkt_fragment extractSize (pktSize - extractSize) p) (\<lambda>p2.
              Inr (smap_erase seq_lt k
                     (smap_assign seq_lt (seq_add k extractSize) p2 ((k, p) # rest)),
                   sz - extractSize, avail - extractSize, out @ p1)))))"

definition rx_extract :: "32 word \<Rightarrow> rx_buffer \<Rightarrow> (bytes option \<times> rx_buffer) result" where
  "rx_extract maxSize b =
     (let extractSize = min maxSize (rx_availBytes b)
      in if extractSize = 0 then Inr (None, b)
         else ns_assert (rx_data b \<noteq> [])
           (res_bind (rx_extract_loop extractSize (rx_nextRxSeq b) (rx_data b) (rx_size b)
                        (rx_availBytes b) []) (\<lambda>(data, sz, avail, out).
              (let b' = b\<lparr>rx_data := data, rx_size := sz, rx_availBytes := avail\<rparr>
               in Inr (if pkt_size out = 0 then None else Some out, b')))))"

end
