(* ===== verification/Rx_Intervals.thy ===== *)
theory Rx_Intervals
  imports Tcp_Rx_Buffer
begin

text \<open>
  The receive buffer seen from the sender's byte stream: the stored data are intervals of stream
  positions. The loops of \<open>Add\<close> are restated on intervals of natural numbers, their effect on the set
  of stored positions is proved there, and the loops on sequence numbers are shown to follow them
  inside a window of the sequence space.
\<close>

section \<open>Intervals\<close>

type_synonym interval = "nat \<times> nat"

definition ivs_ok :: "interval list \<Rightarrow> bool" where
  "ivs_ok L \<longleftrightarrow> sorted_wrt (\<lambda>x y. snd x \<le> fst y) L \<and> (\<forall>x \<in> set L. fst x < snd x)"

definition stored :: "interval list \<Rightarrow> nat set" where
  "stored L = (\<Union>x \<in> set L. {fst x..<snd x})"

definition iv_total :: "interval list \<Rightarrow> nat" where
  "iv_total L = sum_list (map (\<lambda>x. snd x - fst x) L)"

lemma ivs_ok_simps [simp]:
  "ivs_ok []"
  "ivs_ok (x # L) \<longleftrightarrow> fst x < snd x \<and> (\<forall>y \<in> set L. snd x \<le> fst y) \<and> ivs_ok L"
  by (auto simp: ivs_ok_def)

lemma stored_simps [simp]:
  "stored [] = {}"
  "stored (x # L) = {fst x..<snd x} \<union> stored L"
  by (auto simp: stored_def)

lemma iv_total_simps [simp]: "iv_total [] = 0" "iv_total (x # L) = snd x - fst x + iv_total L"
  by (simp_all add: iv_total_def)

lemma ivs_ok_first: "ivs_ok (x # L) \<Longrightarrow> y \<in> set L \<Longrightarrow> fst x < fst y"
  by (auto dest: order_less_le_trans)

section \<open>Trimming\<close>

fun iv_trim :: "interval list \<Rightarrow> nat \<Rightarrow> nat \<Rightarrow> interval list \<times> nat \<times> nat" where
  "iv_trim [] h t = ([], h, t)"
| "iv_trim ((a, b) # L) h t =
     (if \<not> a \<le> t then ((a, b) # L, h, t)
      else if b > h then
        if a > h \<and> b < t then iv_trim L h t
        else apfst (Cons (a, b)) (iv_trim L (if a \<le> h then b else h) (if b \<ge> t then a else t))
      else apfst (Cons (a, b)) (iv_trim L h t))"

lemma iv_trim_empty_range:
  assumes "t \<le> h"
  shows "\<exists>h' t'. iv_trim L h t = (L, h', t') \<and> t' \<le> h' \<and> h \<le> h' \<and> t' \<le> t"
  using assms
proof (induction L h t rule: iv_trim.induct)
  case (2 a b L h t)
  show ?case
  proof (cases "a \<le> t \<and> h < b")
    case True
    with "2.prems" have "\<not> (a > h \<and> b < t)" by simp
    moreover have "(if b \<ge> t then a else t) \<le> (if a \<le> h then b else h)"
      using True "2.prems" by auto
    ultimately obtain h' t' where "iv_trim L (if a \<le> h then b else h) (if b \<ge> t then a else t) = (L, h', t')"
      "t' \<le> h'" "(if a \<le> h then b else h) \<le> h'" "t' \<le> (if b \<ge> t then a else t)"
      using "2.IH"(2) True by blast
    with True "2.prems" show ?thesis
      by (auto split: if_splits)
  next
    case False
    show ?thesis
    proof (cases "a \<le> t")
      case True
      with False "2.IH"(3) "2.prems" obtain h' t' where
        "iv_trim L h t = (L, h', t')" "t' \<le> h'" "h \<le> h'" "t' \<le> t"
        by auto
      with False True show ?thesis by auto
    qed (use "2.prems" in simp)
  qed
qed simp

lemma iv_trim_above:
  assumes "ivs_ok L" and "\<forall>x \<in> set L. h < fst x" and "h < t"
  shows "\<exists>K t'. iv_trim L h t = (K, h, t') \<and> h < t' \<and> t' \<le> t"
  using assms
proof (induction L h t rule: iv_trim.induct)
  case (2 a b L h t)
  then have ab: "a < b" "h < a" "ivs_ok L" "\<forall>x \<in> set L. b \<le> fst x" "\<forall>x \<in> set L. h < fst x"
    by auto
  show ?case
  proof (cases "a \<le> t")
    case True
    show ?thesis
    proof (cases "b < t")
      case False
      have hb: "h < (if t \<le> b then a else t)"
        using ab(2) "2.prems"(3) by simp
      have nb: "\<not> (h < a \<and> b < t)"
        using False by simp
      from "2.IH"(2) [of] True ab have "\<exists>K t'. iv_trim L (if a \<le> h then b else h) (if t \<le> b then a else t) =
          (K, (if a \<le> h then b else h), t') \<and> (if a \<le> h then b else h) < t' \<and> t' \<le> (if t \<le> b then a else t)"
        using nb hb by simp
      then obtain K t' where "iv_trim L h a = (K, h, t')" "h < t'" "t' \<le> a"
        using ab False by (auto split: if_splits)
      with True False ab show ?thesis
        by auto
    qed (use "2.IH"(1) True ab "2.prems" in auto)
  qed (use "2.prems" in auto)
qed simp

text \<open>
  The loop on a packet \<open>[h, t)\<close>: when something is left of it, it is disjoint from the entries that
  stay, and together they hold what the buffer and the packet held before; when nothing is left, the
  buffer had all of it and no entry was dropped.
\<close>

lemma iv_trim_spec:
  assumes "ivs_ok L" and "h < t"
  shows "\<exists>K h' t'. iv_trim L h t = (K, h', t') \<and> h \<le> h' \<and> t' \<le> t \<and> ivs_ok K \<and>
    stored K \<subseteq> stored L \<and> (\<forall>x \<in> set K. x \<in> set L) \<and>
    (if h' < t' then
       stored K \<union> {h'..<t'} = stored L \<union> {h..<t} \<and> (\<forall>x \<in> set K. snd x \<le> h' \<or> t' \<le> fst x)
     else K = L \<and> {h..<t} \<subseteq> stored L)"
  using assms
proof (induction L h t rule: iv_trim.induct)
  case (2 a b L h t)
  then have ab: "a < b" "ivs_ok L" "\<forall>x \<in> set L. b \<le> fst x" "h < t"
    by auto
  have above: "\<forall>x \<in> set L. b \<le> fst x \<and> fst x < snd x"
    using ab(2,3) by (auto simp: ivs_ok_def)
  consider (stop) "\<not> a \<le> t" | (before) "a \<le> t" "b \<le> h" | (inside) "h < a" "b < t"
    | (head) "a \<le> h" "h < b" "b < t" | (tail) "h < a" "a \<le> t" "t \<le> b" | (both) "a \<le> h" "h < b" "t \<le> b"
    using ab by linarith
  then show ?case
  proof cases
    case stop
    then have "\<forall>x \<in> set L. t \<le> fst x"
      using ab by auto
    with stop ab show ?thesis
      by auto
  next
    case before
    with "2.IH"(3) ab obtain K h' t' where IH: "iv_trim L h t = (K, h', t')" "h \<le> h'" "t' \<le> t" "ivs_ok K"
      "stored K \<subseteq> stored L" "\<forall>x \<in> set K. x \<in> set L"
      "if h' < t' then stored K \<union> {h'..<t'} = stored L \<union> {h..<t} \<and> (\<forall>x \<in> set K. snd x \<le> h' \<or> t' \<le> fst x)
       else K = L \<and> {h..<t} \<subseteq> stored L"
      by auto
    with before ab show ?thesis
      by (auto split: if_splits)
  next
    case inside
    have "\<forall>x \<in> set L. h < fst x"
      using inside ab by auto
    from iv_trim_above [OF ab(2) this ab(4)] obtain K t' where
      K: "iv_trim L h t = (K, h, t')" "h < t'" "t' \<le> t"
      by blast
    with "2.IH"(1) inside ab have IH: "ivs_ok K" "stored K \<subseteq> stored L" "\<forall>x \<in> set K. x \<in> set L"
      "stored K \<union> {h..<t'} = stored L \<union> {h..<t}" "\<forall>x \<in> set K. snd x \<le> h \<or> t' \<le> fst x"
      by auto
    have "{a..<b} \<subseteq> {h..<t}" "a \<le> t" "h < b"
      using inside ab(1) by auto
    with IH K inside show ?thesis
      by auto
  next
    case head
    then have red: "iv_trim ((a, b) # L) h t = apfst (Cons (a, b)) (iv_trim L b t)"
      using ab by auto
    have e: "(if a \<le> h then b else h) = b" "(if t \<le> b then a else t) = t"
      using head by simp_all
    have "\<exists>K h' t'. iv_trim L b t = (K, h', t') \<and> b \<le> h' \<and> t' \<le> t \<and> ivs_ok K \<and>
        stored K \<subseteq> stored L \<and> (\<forall>x \<in> set K. x \<in> set L) \<and>
        (if h' < t' then
           stored K \<union> {h'..<t'} = stored L \<union> {b..<t} \<and> (\<forall>x \<in> set K. snd x \<le> h' \<or> t' \<le> fst x)
         else K = L \<and> {b..<t} \<subseteq> stored L)"
      using "2.IH"(2) [unfolded e] head ab by simp
    then obtain K h' t' where IH: "iv_trim L b t = (K, h', t')" "b \<le> h'" "t' \<le> t" "ivs_ok K"
      "stored K \<subseteq> stored L" "\<forall>x \<in> set K. x \<in> set L"
      "if h' < t' then stored K \<union> {h'..<t'} = stored L \<union> {b..<t} \<and> (\<forall>x \<in> set K. snd x \<le> h' \<or> t' \<le> fst x)
       else K = L \<and> {b..<t} \<subseteq> stored L"
      by blast
    have cover: "{a..<b} \<union> {b..<t} = {a..<b} \<union> {h..<t}"
      using head by auto
    show ?thesis
    proof (cases "h' < t'")
      case True
      with IH(7) have s: "stored K \<union> {h'..<t'} = stored L \<union> {b..<t}"
        "\<forall>x \<in> set K. snd x \<le> h' \<or> t' \<le> fst x" by simp_all
      have "stored ((a, b) # K) \<union> {h'..<t'} = stored ((a, b) # L) \<union> {h..<t}"
        using s(1) cover by auto
      with True s(2) red IH ab head show ?thesis
        by auto
    next
      case False
      with IH(7) cover have "K = L" "{h..<t} \<subseteq> stored ((a, b) # L)"
        by auto
      with False red IH ab head show ?thesis
        by auto
    qed
  next
    case tail
    then have red: "iv_trim ((a, b) # L) h t = apfst (Cons (a, b)) (iv_trim L h a)"
      using ab by auto
    have "\<forall>x \<in> set L. h < fst x" "\<not> (case L of [] \<Rightarrow> False | x # _ \<Rightarrow> fst x \<le> a)"
      using tail ab by (auto split: list.splits)
    then have "iv_trim L h a = (L, h, a)"
      by (cases L) auto
    with red tail ab above show ?thesis
      by auto
  next
    case both
    have "\<not> (case L of [] \<Rightarrow> False | x # _ \<Rightarrow> fst x \<le> a)"
      using ab by (auto split: list.splits)
    then have "iv_trim L b a = (L, b, a)"
      by (cases L) auto
    with both ab show ?thesis
      by auto
  qed
qed simp

section \<open>Insertion\<close>

fun iv_insert :: "interval \<Rightarrow> interval list \<Rightarrow> interval list" where
  "iv_insert x [] = [x]"
| "iv_insert x (y # L) = (if fst x < fst y then x # y # L else y # iv_insert x L)"

lemma set_iv_insert [simp]: "set (iv_insert x L) = insert x (set L)"
  by (induction L) auto

lemma iv_total_iv_insert [simp]: "iv_total (iv_insert x L) = snd x - fst x + iv_total L"
  by (induction L) auto

lemma stored_iv_insert [simp]: "stored (iv_insert x L) = {fst x..<snd x} \<union> stored L"
  by (auto simp: stored_def)

lemma iv_insert_ok:
  assumes "ivs_ok L" and "fst x < snd x" and "\<forall>y \<in> set L. snd y \<le> fst x \<or> snd x \<le> fst y"
  shows "ivs_ok (iv_insert x L)"
  using assms
proof (induction L)
  case (Cons y L)
  then have y: "fst y < snd y" "\<forall>z \<in> set L. snd y \<le> fst z" "ivs_ok L"
    "snd y \<le> fst x \<or> snd x \<le> fst y"
    by simp_all
  show ?case
  proof (cases "fst x < fst y")
    case True
    with y have "snd x \<le> fst y" by simp
    with True y Cons.prems(2) show ?thesis
      by (auto intro: order_trans)
  next
    case False
    with y Cons.prems(2) have "snd y \<le> fst x" by simp
    with False y Cons show ?thesis by simp
  qed
qed simp

section \<open>Advancing\<close>

fun iv_advance :: "interval list \<Rightarrow> nat \<Rightarrow> nat" where
  "iv_advance [] n = n"
| "iv_advance ((a, b) # L) n =
     (if a < n then iv_advance L n else if a > n then n else iv_advance L b)"

lemma iv_advance_spec:
  assumes "ivs_ok L" and "\<forall>x \<in> set L. fst x < n \<longrightarrow> snd x \<le> n"
  shows "n \<le> iv_advance L n \<and> {n..<iv_advance L n} \<subseteq> stored L \<and> iv_advance L n \<notin> stored L"
  using assms
proof (induction L n rule: iv_advance.induct)
  case (2 a b L n)
  then have ab: "a < b" "ivs_ok L" "\<forall>x \<in> set L. b \<le> fst x"
    by auto
  consider "a < n" | "n < a" | "a = n" by linarith
  then show ?case
  proof cases
    case 1
    with 2 show ?thesis by auto
  next
    case 2
    with ab show ?thesis by (auto simp: stored_def)
  next
    case 3
    have "\<forall>x \<in> set L. fst x < b \<longrightarrow> snd x \<le> b"
      using ab by auto
    with "2.IH"(2) 3 ab have "b \<le> iv_advance L b \<and> {b..<iv_advance L b} \<subseteq> stored L \<and>
        iv_advance L b \<notin> stored L"
      by simp
    moreover have "{n..<iv_advance L b} \<subseteq> {n..<b} \<union> {b..<iv_advance L b}"
      by auto
    ultimately show ?thesis
      using 3 ab by auto
  qed
qed simp

section \<open>Extraction\<close>

fun iv_extract :: "nat \<Rightarrow> interval list \<Rightarrow> interval list" where
  "iv_extract n [] = []"
| "iv_extract n ((a, b) # L) =
     (if n = 0 then (a, b) # L else if b - a \<le> n then iv_extract (n - (b - a)) L
      else (a + n, b) # L)"

lemma iv_extract_spec:
  assumes "ivs_ok L" and "\<forall>x \<in> set L. A \<le> fst x" and "{A..<A + n} \<subseteq> stored L"
  shows "ivs_ok (iv_extract n L) \<and> stored (iv_extract n L) = stored L - {A..<A + n} \<and>
    (\<forall>x \<in> set (iv_extract n L). A + n \<le> fst x) \<and> iv_total L = n + iv_total (iv_extract n L)"
  using assms
proof (induction n L arbitrary: A rule: iv_extract.induct)
  case (2 n a b L)
  then have ab: "a < b" "ivs_ok L" "\<forall>x \<in> set L. b \<le> fst x" "A \<le> a"
    by auto
  have st: "stored L \<inter> {..<b} = {}"
    using ab(3) by (auto simp: stored_def)
  show ?case
  proof (cases "n = 0")
    case True
    with "2.prems" show ?thesis by auto
  next
    case False
    then have "A \<in> {A..<A + n}" by simp
    from subsetD [OF "2.prems"(3) this] have "A \<in> {a..<b} \<union> stored L" by simp
    moreover have "A \<notin> stored L"
      using st ab(1,4) by auto
    ultimately have A: "A = a"
      using ab(4) by auto
    show ?thesis
    proof (cases "b - a \<le> n")
      case True
      have "{b..<b + (n - (b - a))} \<subseteq> stored L"
      proof
        fix x assume x: "x \<in> {b..<b + (n - (b - a))}"
        then have "x \<in> {A..<A + n}" using A ab True by auto
        with "2.prems"(3) x show "x \<in> stored L" by auto
      qed
      with "2.IH" [of b] False True ab have IH: "ivs_ok (iv_extract (n - (b - a)) L)"
        "stored (iv_extract (n - (b - a)) L) = stored L - {b..<b + (n - (b - a))}"
        "\<forall>x \<in> set (iv_extract (n - (b - a)) L). b + (n - (b - a)) \<le> fst x"
        "iv_total L = n - (b - a) + iv_total (iv_extract (n - (b - a)) L)"
        by auto
      have e: "b + (n - (b - a)) = A + n"
        using True A ab by simp
      have "stored L - {b..<A + n} = stored ((a, b) # L) - {A..<A + n}"
        using st A True ab by auto
      then have st': "stored (iv_extract (n - (b - a)) L) = stored ((a, b) # L) - {A..<A + n}"
        using IH(2) unfolding e by (rule trans [rotated])
      have r: "iv_extract n ((a, b) # L) = iv_extract (n - (b - a)) L"
        using False True by simp
      have "iv_total ((a, b) # L) = n + iv_total (iv_extract (n - (b - a)) L)"
        using IH(4) True by simp
      then show ?thesis
        unfolding r using IH(1,3) st' unfolding e by blast
    next
      case less: False
      have "{a..<a + n} \<subseteq> {..<b}"
        using less by auto
      then have "{a + n..<b} = {a..<b} - {a..<a + n}" "stored L - {a..<a + n} = stored L"
        using st by auto
      then have "stored ((a + n, b) # L) = stored ((a, b) # L) - {A..<A + n}"
        unfolding A stored_simps fst_conv snd_conv Un_Diff by simp
      moreover have r: "iv_extract n ((a, b) # L) = (a + n, b) # L"
        using False less by simp
      moreover have "ivs_ok ((a + n, b) # L)" "\<forall>x \<in> set ((a + n, b) # L). A + n \<le> fst x"
        "iv_total ((a, b) # L) = n + iv_total ((a + n, b) # L)"
        using less ab A by (auto intro: order_trans [of _ b])
      ultimately show ?thesis
        by (simp only: simp_thms)
    qed
  qed
qed simp

section \<open>Intervals as buffer entries\<close>

definition enc :: "(nat \<Rightarrow> 8 word) \<Rightarrow> interval \<Rightarrow> seq32 \<times> bytes" where
  "enc S x = (of_nat (fst x), map S [fst x..<snd x])"

definition within :: "nat \<Rightarrow> nat \<Rightarrow> bool" where
  "within lo x \<longleftrightarrow> lo \<le> x \<and> x < lo + 2 ^ 31"

lemma within_near: "within lo x \<Longrightarrow> within lo y \<Longrightarrow> near x y"
  by (auto simp: within_def near_def)

lemma enc_sel [simp]: "fst (enc S x) = of_nat (fst x)" "snd (enc S x) = map S [fst x..<snd x]"
  by (simp_all add: enc_def)

lemma enc_pair: "enc S (a, b) = (of_nat a, map S [a..<b])"
  by (simp add: enc_def)

lemma pkt_size_map [simp]: "pkt_size (map S [a..<b]) = of_nat (b - a)"
  by (simp add: pkt_size_def)

lemma seq_add_of_nat: "a \<le> b \<Longrightarrow> seq_add (of_nat a) (of_nat (b - a)) = of_nat b"
  by (simp add: seq_add_def of_nat_diff)

lemma rx_trim_enc:
  assumes "\<forall>x \<in> set L. fst x < snd x \<and> within lo (fst x) \<and> within lo (snd x)"
    and "within lo h" and "within lo t"
  shows "rx_trim (map (enc S) L) (of_nat h) (of_nat t) sz =
    (case iv_trim L h t of (K, h', t') \<Rightarrow>
       (map (enc S) K, of_nat h', of_nat t', sz - of_nat (iv_total L) + of_nat (iv_total K)))"
  using assms
proof (induction L h t arbitrary: sz rule: iv_trim.induct)
  case (2 a b L h t)
  then have w: "within lo a" "within lo b" "a < b"
    by simp_all
  have n: "near a t" "near b h" "near a h" "near b t"
    using w 2 by (auto intro: within_near)
  have sa: "seq_add (of_nat a) (of_nat (b - a)) = of_nat b"
    using w by (intro seq_add_of_nat) simp
  note cmp = seq_of_nat [OF n(1)] seq_of_nat [OF n(2)] seq_of_nat [OF n(3)] seq_of_nat [OF n(4)]
  consider (stop) "\<not> a \<le> t" | (before) "a \<le> t" "\<not> h < b"
    | (inside) "a \<le> t" "h < b" "h < a \<and> b < t" | (over) "a \<le> t" "h < b" "\<not> (h < a \<and> b < t)"
    by blast
  then show ?case
  proof cases
    case stop
    then show ?thesis
      using cmp by (simp add: enc_pair)
  next
    case before
    then have IH: "\<And>sz. rx_trim (map (enc S) L) (of_nat h) (of_nat t) sz =
        (case iv_trim L h t of (K, h', t') \<Rightarrow>
           (map (enc S) K, of_nat h', of_nat t', sz - of_nat (iv_total L) + of_nat (iv_total K)))"
      using "2.IH"(3) 2 by simp
    show ?thesis
      using before cmp by (cases "iv_trim L h t") (simp add: enc_pair sa IH)
  next
    case inside
    then have IH: "\<And>sz. rx_trim (map (enc S) L) (of_nat h) (of_nat t) sz =
        (case iv_trim L h t of (K, h', t') \<Rightarrow>
           (map (enc S) K, of_nat h', of_nat t', sz - of_nat (iv_total L) + of_nat (iv_total K)))"
      using "2.IH"(1) 2 by simp
    show ?thesis
      using inside cmp by (cases "iv_trim L h t") (simp add: enc_pair sa IH)
  next
    case over
    let ?h = "if a \<le> h then b else h" and ?t = "if b \<ge> t then a else t"
    have IH: "\<And>sz. rx_trim (map (enc S) L) (of_nat ?h) (of_nat ?t) sz =
        (case iv_trim L ?h ?t of (K, h', t') \<Rightarrow>
           (map (enc S) K, of_nat h', of_nat t', sz - of_nat (iv_total L) + of_nat (iv_total K)))"
      using "2.IH"(2) over 2 w by simp
    have e: "(if seq_le (of_nat a) (of_nat h) then of_nat b else of_nat h) = (of_nat ?h :: seq32)"
      "(if seq_ge (of_nat b) (of_nat t) then of_nat a else of_nat t) = (of_nat ?t :: seq32)"
      using cmp by simp_all
    have c: "seq_le (of_nat a) (of_nat t)" "seq_gt (of_nat b) (of_nat h)"
      "(seq_gt (of_nat a) (of_nat h) \<and> seq_lt (of_nat b) (of_nat t)) = False"
      using over cmp by auto
    have l: "rx_trim (map (enc S) ((a, b) # L)) (of_nat h) (of_nat t) sz =
        apfst (Cons (enc S (a, b))) (rx_trim (map (enc S) L) (of_nat ?h) (of_nat ?t) sz)"
      unfolding list.map enc_pair rx_trim.simps Let_def pkt_size_map sa e
      using c by (simp only: simp_thms if_True if_False)
    have "(h < a \<and> b < t) = False"
      using over by blast
    then have r: "iv_trim ((a, b) # L) h t = apfst (Cons (a, b)) (iv_trim L ?h ?t)"
      using over(1,2) by (simp only: iv_trim.simps simp_thms if_True if_False)
    show ?thesis
      unfolding l r IH by (cases "iv_trim L ?h ?t") simp
  qed
qed simp

lemma smap_assign_enc:
  assumes "\<forall>x \<in> set L. near a (fst x) \<and> fst x \<noteq> a"
  shows "smap_assign seq_lt (of_nat a) (map S [a..<b]) (map (enc S) L) =
      map (enc S) (iv_insert (a, b) L)"
  using assms
proof (induction L)
  case (Cons x L)
  then have n: "near a (fst x)" "near (fst x) a" "fst x \<noteq> a"
    by (simp_all add: near_sym)
  show ?case
    using Cons n seq_of_nat [OF n(1)] seq_of_nat [OF n(2)] by (auto simp: enc_def)
qed (simp add: enc_def)

lemma smap_find_enc:
  assumes "\<forall>x \<in> set L. near a (fst x) \<and> fst x \<noteq> a"
  shows "smap_find seq_lt (of_nat a) (map (enc S) L) = None"
  using assms
proof (induction L)
  case (Cons x L)
  then have n: "near a (fst x)" "near (fst x) a" "fst x \<noteq> a"
    by (simp_all add: near_sym)
  show ?case
    using Cons n seq_of_nat [OF n(1)] seq_of_nat [OF n(2)] by (auto simp: enc_def)
qed simp

section \<open>SACK blocks\<close>

text \<open>A block that reports stored positions above \<open>N\<close> only.\<close>

definition blk_ok :: "nat set \<Rightarrow> nat \<Rightarrow> nat \<Rightarrow> seq32 \<times> seq32 \<Rightarrow> bool" where
  "blk_ok U lo N c \<longleftrightarrow> (\<exists>x y. c = (of_nat x, of_nat y) \<and> x < y \<and> N < x \<and> within lo x \<and> within lo y \<and>
     {x..<y} \<subseteq> U)"

lemma blk_merge:
  assumes "blk_ok U lo N (a, b)" and "blk_ok U lo N (c, d)" and "seq_eq b c"
  shows "blk_ok U lo N (a, d)" and "seq_lt a d"
proof -
  obtain x y where 1: "a = of_nat x" "b = of_nat y" "x < y" "N < x" "within lo x" "within lo y" "{x..<y} \<subseteq> U"
    using assms(1) by (auto simp: blk_ok_def)
  obtain z w where 2: "c = of_nat z" "d = of_nat w" "z < w" "N < z" "within lo z" "within lo w" "{z..<w} \<subseteq> U"
    using assms(2) by (auto simp: blk_ok_def)
  have "y = z"
    using assms(3) 1 2 seq_of_nat(5) [OF within_near [OF 1(6) 2(5)]] by simp
  moreover from this have "{x..<w} \<subseteq> {x..<y} \<union> {z..<w}"
    by auto
  ultimately have "{x..<w} \<subseteq> U"
    using 1(7) 2(7) by blast
  with 1 2 \<open>y = z\<close> show "blk_ok U lo N (a, d)"
    unfolding blk_ok_def by (intro exI [of _ x] exI [of _ w]) simp
  show "seq_lt a d"
    using seq_of_nat(2) [OF within_near [OF 1(5) 2(6)]] 1 2 \<open>y = z\<close> by simp
qed

lemma sack_merge_ok:
  assumes "\<forall>c \<in> set (first # vs @ rest). blk_ok U lo N c"
  shows "\<exists>l. sack_merge first vs rest = Inr l \<and> (\<forall>c \<in> set l. blk_ok U lo N c) \<and> l \<noteq> [] \<and>
    length l \<le> Suc (length vs + length rest)"
  using assms
proof (induction first vs rest rule: sack_merge.induct)
  case (1 first vs)
  then show ?case by simp
next
  case (2 first vs current rest)
  have f: "blk_ok U lo N (fst first, snd first)" and c: "blk_ok U lo N (fst current, snd current)"
    using "2.prems" by simp_all
  consider (left) "seq_eq (fst first) (snd current)"
    | (right) "\<not> seq_eq (fst first) (snd current)" "seq_eq (snd first) (fst current)"
    | (none) "\<not> seq_eq (fst first) (snd current)" "\<not> seq_eq (snd first) (fst current)"
    by blast
  then show ?case
  proof cases
    case left
    then have "seq_eq (snd current) (fst first)"
      by (simp add: seq_eq_def)
    from blk_merge [OF c f this] "2.IH"(1) [OF left] "2.prems" left show ?thesis
      by auto
  next
    case right
    from blk_merge [OF f c right(2)] "2.IH"(2) [OF right] "2.prems" right show ?thesis
      by auto
  next
    case none
    with "2.IH"(3) "2.prems" show ?thesis
      by auto
  qed
qed

lemma sack_clear_ok:
  assumes "\<forall>c \<in> set l. blk_ok U lo N c"
  shows "\<exists>l'. sack_clear s l = Inr l' \<and> (\<forall>c \<in> set l'. c \<in> set l \<and> \<not> seq_le (snd c) s) \<and>
    length l' \<le> length l"
  using assms
proof (induction l)
  case (Cons c l)
  from Cons.prems obtain x y where c: "c = (of_nat x, of_nat y)" "x < y" "within lo x" "within lo y"
    by (auto simp: blk_ok_def)
  then have "seq_lt (fst c) (snd c)"
    using seq_of_nat(2) [OF within_near [OF c(3,4)]] by simp
  with Cons show ?case
    by auto
qed simp

lemma rx_advance_enc:
  assumes "ivs_ok L" and "\<forall>x \<in> set L. within lo (fst x) \<and> within lo (snd x)" and "within lo n"
    and "\<forall>c \<in> set sack. blk_ok U lo N c"
  shows "\<exists>sack'. rx_advance (map (enc S) L) (of_nat n) avail sack =
      Inr (of_nat (iv_advance L n), avail + of_nat (iv_advance L n - n), sack') \<and>
    (\<forall>c \<in> set sack'. c \<in> set sack) \<and> length sack' \<le> length sack \<and>
    (sack' = sack \<or> (\<forall>c \<in> set sack'. \<not> seq_le (snd c) (of_nat (iv_advance L n)))) \<and>
    (iv_advance L n = n \<longrightarrow> sack' = sack) \<and>
    (iv_advance L n \<noteq> n \<longrightarrow> (\<forall>c \<in> set sack'. \<not> seq_le (snd c) (of_nat (iv_advance L n))))"
  using assms
proof (induction L n arbitrary: avail sack rule: iv_advance.induct)
  case (2 a b L n)
  have nr: "near a n" "near n a" and ab: "a < b" "ivs_ok L" "\<forall>x \<in> set L. b \<le> fst x"
    "within lo b" "\<forall>x \<in> set L. within lo (fst x) \<and> within lo (snd x)"
    using "2.prems" by (auto intro: within_near)
  note cmp = seq_of_nat [OF nr(1)] seq_of_nat [OF nr(2)]
  consider "a < n" | "n < a" | "a = n" by linarith
  then show ?case
  proof cases
    case 1
    with "2.IH"(1) [of sack avail] 2 ab cmp show ?thesis
      by (simp add: enc_pair)
  next
    case 2
    with cmp show ?thesis
      by (simp add: enc_pair)
  next
    case 3
    have sa: "seq_add (of_nat a) (of_nat (b - a)) = of_nat b"
      using ab(1) by (intro seq_add_of_nat) simp
    obtain s1 where s1: "sack_clear (of_nat b) sack = Inr s1"
      "\<forall>c \<in> set s1. c \<in> set sack \<and> \<not> seq_le (snd c) (of_nat b)" "length s1 \<le> length sack"
      using sack_clear_ok [OF "2.prems"(4)] by blast
    have ok1: "\<forall>c \<in> set s1. blk_ok U lo N c"
      using s1(2) "2.prems"(4) by blast
    from "2.IH"(2) [of s1 "avail + of_nat (b - a)"] 3 ab ok1 obtain s2 where
      s2: "rx_advance (map (enc S) L) (of_nat b) (avail + of_nat (b - a)) s1 =
        Inr (of_nat (iv_advance L b), avail + of_nat (b - a) + of_nat (iv_advance L b - b), s2)"
      "\<forall>c \<in> set s2. c \<in> set s1" "length s2 \<le> length s1"
      "iv_advance L b = b \<longrightarrow> s2 = s1"
      "iv_advance L b \<noteq> b \<longrightarrow> (\<forall>c \<in> set s2. \<not> seq_le (snd c) (of_nat (iv_advance L b)))"
      by auto
    have le: "b \<le> iv_advance L b"
      using iv_advance_spec [OF ab(2), of b] ab(3) by fastforce
    have av: "avail + of_nat (b - a) + of_nat (iv_advance L b - b) =
        (avail + of_nat (iv_advance L b - n) :: 32 word)"
      using le ab(1) 3 by (simp add: of_nat_diff)
    have "\<forall>c \<in> set s2. \<not> seq_le (snd c) (of_nat (iv_advance L b))"
      using s2(2,4,5) s1(2) by (cases "iv_advance L b = b") auto
    moreover have "iv_advance L b \<noteq> n"
      using le ab(1) 3 by simp
    moreover have "rx_advance (map (enc S) ((a, b) # L)) (of_nat n) avail sack =
        Inr (of_nat (iv_advance L b), avail + of_nat (iv_advance L b - n), s2)"
      using 3 cmp s1(1) s2(1) unfolding av [symmetric]
      by (simp add: enc_pair Let_def sa [unfolded 3])
    ultimately show ?thesis
      using 3 s1(2,3) s2(2,3) by auto
  qed
qed simp

end
