(* ===== verification/Rx_Correctness.thy ===== *)
theory Rx_Correctness
  imports Rx_Intervals
begin

text \<open>
  The receive buffer is correct: whatever segments of one byte stream arrive, the buffer holds bytes
  of the stream at their positions, \<open>Extract\<close> hands out the stream in order without gaps, and the SACK
  blocks report bytes that are really held.
\<close>

section \<open>Invariant\<close>

text \<open>
  \<open>S\<close> is the stream, \<open>F\<close> the position of the FIN when it is known, \<open>A\<close> the position of the next byte
  for the application, \<open>N\<close> the position of the first missing byte and \<open>L\<close> the stored intervals. All
  stored positions lie in a window of \<open>2^29\<close> bytes above \<open>A\<close>, well inside the half of the sequence
  space in which comparisons make sense.
\<close>

definition rx_window :: nat where
  "rx_window = 2 ^ 29"

definition rx_ok ::
  "(nat \<Rightarrow> 8 word) \<Rightarrow> nat option \<Rightarrow> nat \<Rightarrow> nat \<Rightarrow> interval list \<Rightarrow> rx_buffer \<Rightarrow> bool" where
  "rx_ok S F A N L b \<longleftrightarrow>
     rx_data b = map (enc S) L \<and> ivs_ok L \<and>
     A \<le> N \<and> {A..<N} \<subseteq> stored L \<and> N \<notin> stored L \<and>
     (\<forall>x \<in> set L. A \<le> fst x \<and> snd x \<le> A + rx_window) \<and>
     rx_nextRxSeq b = of_nat (if F = Some N then Suc N else N) \<and>
     rx_gotFin b = (F \<noteq> None) \<and>
     (\<forall>f. F = Some f \<longrightarrow> rx_finSeq b = of_nat f \<and> N \<le> f \<and> (\<forall>x \<in> set L. snd x \<le> f) \<and>
        f \<le> A + 2 * rx_window) \<and>
     rx_availBytes b = of_nat (N - A) \<and> rx_size b = of_nat (iv_total L) \<and>
     unat (rx_maxBuffer b) \<le> rx_window \<and>
     length (rx_sackList b) \<le> 4 \<and> (\<forall>c \<in> set (rx_sackList b). blk_ok (stored L) A N c)"

lemma rx_ok_next_window:
  assumes "rx_ok S F A N L b"
  shows "N \<le> A + rx_window"
proof (cases "A < N")
  case True
  then have "N - 1 \<in> {A..<N}"
    by auto
  then have "N - 1 \<in> stored L"
    using assms unfolding rx_ok_def by blast
  then obtain x where "x \<in> set L" "N - 1 < snd x"
    by (auto simp: stored_def)
  then have "N - 1 < A + rx_window"
    using assms unfolding rx_ok_def by (meson order_less_le_trans)
  then show ?thesis
    by simp
next
  case False
  then show ?thesis
    by simp
qed

lemma rx_init_ok: "rx_ok S None N N [] (rx_init (of_nat N))"
  by (simp add: rx_ok_def rx_init_def rx_window_def)

section \<open>Add\<close>

lemma fragment_map:
  assumes "h \<le> h'" and "h' \<le> t'" and "t' \<le> t" and "t - h < 2 ^ 32"
  shows "pkt_fragment (of_nat (h' - h)) (of_nat (t' - h')) (map S [h..<t]) = Inr (map S [h'..<t'])"
proof -
  have u: "unat (of_nat n :: 32 word) = n" if "n \<le> t - h" for n
    using that assms(4) by (simp add: unat_of_nat)
  have "of_nat (h' - h) + of_nat (t' - h') = (of_nat (t' - h) :: 32 word)"
    using assms(1-3) by (simp add: of_nat_diff)
  moreover have "(of_nat (t' - h) :: 32 word) \<le> of_nat (t - h)"
    using assms(3) by (simp only: word_le_nat_alt u diff_le_mono order_refl)
  moreover have "take (unat (of_nat (t' - h') :: 32 word)) (drop (unat (of_nat (h' - h) :: 32 word))
      (map S [h..<t])) = map S [h'..<t']"
  proof -
    have "unat (of_nat (t' - h') :: 32 word) = t' - h'" "unat (of_nat (h' - h) :: 32 word) = h' - h"
      using assms by (intro u, simp)+
    then show ?thesis
      using assms(1-3) by (simp only: take_map drop_map drop_upt take_upt) simp
  qed
  ultimately show ?thesis
    by (simp add: pkt_fragment_def)
qed

text \<open>What the first statements of \<open>Add\<close> make of head and tail of the packet.\<close>

lemma rx_clip:
  assumes ok: "rx_ok S F A N L b"
    and ht: "h \<le> t" "N \<le> h + rx_window" "t \<le> A + rx_window"
  defines "M \<equiv> if F = Some N then Suc N else N"
  defines "t1 \<equiv> if L = [] then t else min t (fst (hd L) + unat (rx_maxBuffer b))"
  defines "h2 \<equiv> if L \<noteq> [] \<and> t1 < max h M then t1 else max h M"
  shows "(if seq_lt (of_nat h) (rx_nextRxSeq b) then rx_nextRxSeq b else of_nat h) = of_nat (max h M)"
    and "rx_data b \<noteq> [] \<Longrightarrow> seq_add (fst (hd (rx_data b))) (rx_maxBuffer b) =
      of_nat (fst (hd L) + unat (rx_maxBuffer b))"
    and "rx_data b \<noteq> [] \<Longrightarrow>
      (if seq_lt (of_nat (fst (hd L) + unat (rx_maxBuffer b))) (of_nat t)
       then of_nat (fst (hd L) + unat (rx_maxBuffer b)) else of_nat t) = (of_nat t1 :: seq32)"
    and "rx_data b \<noteq> [] \<Longrightarrow>
      (if seq_lt (of_nat t1) (of_nat (max h M)) then of_nat t1 else of_nat (max h M)) = (of_nat h2 :: seq32)"
proof -
  have N: "A \<le> N" "N \<le> A + rx_window"
    using ok rx_ok_next_window [OF ok] by (simp_all add: rx_ok_def)
  have nx: "rx_nextRxSeq b = of_nat M"
    using ok by (simp add: rx_ok_def M_def)
  have M: "M \<le> Suc N" "N \<le> M"
    by (simp_all add: M_def)
  have "near h M"
    using ht N M by (simp add: near_def rx_window_def)
  from seq_of_nat(2) [OF this]
  show "(if seq_lt (of_nat h) (rx_nextRxSeq b) then rx_nextRxSeq b else of_nat h) = of_nat (max h M)"
    unfolding nx by (simp add: max_def)
  show a: "seq_add (fst (hd (rx_data b))) (rx_maxBuffer b) = of_nat (fst (hd L) + unat (rx_maxBuffer b))"
    if "rx_data b \<noteq> []"
    using that ok by (simp add: rx_ok_def seq_add_def hd_map)
  {
    assume "rx_data b \<noteq> []"
    then have ne: "L \<noteq> []"
      using ok by (simp add: rx_ok_def)
    then have "hd L \<in> set L"
      by simp
    then have "A \<le> fst (hd L) \<and> snd (hd L) \<le> A + rx_window" "fst (hd L) < snd (hd L)"
      using ok unfolding rx_ok_def ivs_ok_def by blast+
    then have l: "A \<le> fst (hd L)" "fst (hd L) \<le> A + rx_window"
      by simp_all
    have mb: "unat (rx_maxBuffer b) \<le> rx_window"
      using ok by (simp add: rx_ok_def)
    have "near (fst (hd L) + unat (rx_maxBuffer b)) t"
      using l mb ht N by (simp add: near_def rx_window_def)
    from seq_of_nat(2) [OF this]
    show "(if seq_lt (of_nat (fst (hd L) + unat (rx_maxBuffer b))) (of_nat t)
       then of_nat (fst (hd L) + unat (rx_maxBuffer b)) else of_nat t) = (of_nat t1 :: seq32)"
      using ne by (simp add: t1_def min_def del: of_nat_add)
    have t1: "t1 \<le> t" "t1 = t \<or> A \<le> t1"
      using ne l by (auto simp: t1_def)
    have "near t1 (max h M)"
      using t1 l mb ht N M by (auto simp: near_def rx_window_def)
    from seq_of_nat(2) [OF this]
    show "(if seq_lt (of_nat t1) (of_nat (max h M)) then of_nat t1 else of_nat (max h M)) = (of_nat h2 :: seq32)"
      using ne by (simp add: h2_def)
  }
qed

lemma stored_bounds:
  assumes "y \<in> stored L" and "\<forall>x \<in> set L. A \<le> fst x \<and> snd x \<le> B"
  shows "A \<le> y \<and> y < B"
  using assms by (force simp: stored_def)

lemma blk_ok_mono: "blk_ok U lo N c \<Longrightarrow> U \<subseteq> U' \<Longrightarrow> blk_ok U' lo N c"
  unfolding blk_ok_def by blast

text \<open>Blocks that lie above a missing position and survive the clearing lie above the new one.\<close>

lemma blk_ok_advance:
  assumes c: "blk_ok U lo N c" and n: "N' \<notin> U" "within lo N'" "\<not> seq_le (snd c) (of_nat N')"
  shows "blk_ok U lo N' c"
proof -
  obtain x y where c': "c = (of_nat x, of_nat y)" "x < y" "within lo x" "within lo y" "{x..<y} \<subseteq> U"
    using c by (auto simp: blk_ok_def)
  have "N' < y"
    using n(3) c' seq_of_nat(3) [OF within_near [OF c'(4) n(2)]] by simp
  moreover have "N' \<notin> {x..<y}"
    using n(1) c'(5) by blast
  ultimately have "N' < x"
    by simp
  with c' show ?thesis
    by (auto simp: blk_ok_def)
qed

lemma update_sack_ok:
  assumes c: "\<forall>c \<in> set (rx_sackList b). blk_ok U lo N c" and new: "blk_ok U lo N (head, tail)"
    and l: "length (rx_sackList b) \<le> 4" and g: "seq_gt head (rx_nextRxSeq b)"
  shows "\<exists>l. rx_update_sack head tail b = Inr (b\<lparr>rx_sackList := l\<rparr>) \<and> length l \<le> 4 \<and>
    (\<forall>c \<in> set l. blk_ok U lo N c)"
proof -
  obtain l where l': "sack_merge (head, tail) [] (rx_sackList b) = Inr l" "\<forall>c \<in> set l. blk_ok U lo N c"
    "length l \<le> Suc (length (rx_sackList b))"
    using sack_merge_ok [of "(head, tail)" "[]" "rx_sackList b" U lo N] c new by auto
  have "\<forall>c \<in> set (butlast l). blk_ok U lo N c"
    using l'(2) in_set_butlastD by fast
  with l' l g show ?thesis
    by (auto simp: rx_update_sack_def)
qed

lemma rx_store_ok:
  assumes data: "rx_data b = map (enc S) K" and K: "ivs_ok K"
    and dis: "\<forall>x \<in> set K. snd x \<le> h \<or> t \<le> fst x" and ht: "N \<le> h" "h < t" "t \<le> A + rx_window"
    and AN: "A \<le> N" "{A..<N} \<subseteq> stored K" "N \<notin> stored K"
    and bd: "\<forall>x \<in> set K. A \<le> fst x \<and> snd x \<le> A + rx_window"
    and nx: "rx_nextRxSeq b = of_nat N" and fin: "rx_gotFin b = (F \<noteq> None)"
    and F: "\<forall>f. F = Some f \<longrightarrow> rx_finSeq b = of_nat f \<and> N < f \<and> (\<forall>x \<in> set K. snd x \<le> f) \<and> t \<le> f \<and>
      f \<le> A + 2 * rx_window"
    and av: "rx_availBytes b = of_nat (N - A)" and sz: "rx_size b = of_nat (iv_total K)"
    and mb: "unat (rx_maxBuffer b) \<le> rx_window" and sl: "length (rx_sackList b) \<le> 4"
    and sack: "\<forall>c \<in> set (rx_sackList b). blk_ok (stored K \<union> {h..<t}) A N c"
  shows "\<exists>b' N'. rx_store (of_nat h) (of_nat t) (map S [h..<t]) b = Inr (True, b') \<and>
    rx_ok S F A N' (iv_insert (h, t) K) b' \<and> N \<le> N'"
proof -
  let ?L = "iv_insert (h, t) K" and ?U = "stored K \<union> {h..<t}"
  have L: "ivs_ok ?L"
    using iv_insert_ok [OF K, of "(h, t)"] dis ht by simp
  have U: "stored ?L = ?U"
    by auto
  have w: "within A x" if "A \<le> x" "x \<le> A + 2 * rx_window" for x
    using that by (simp add: within_def rx_window_def)
  have wL: "\<forall>x \<in> set ?L. within A (fst x) \<and> within A (snd x)"
  proof
    fix x assume x: "x \<in> set ?L"
    then have "A \<le> fst x \<and> snd x \<le> A + rx_window"
      using bd ht AN by auto
    moreover have "fst x < snd x"
      using x L by (auto simp: ivs_ok_def)
    ultimately show "within A (fst x) \<and> within A (snd x)"
      by (auto intro!: w)
  qed
  have wN: "within A N" "within A h" "within A t"
    using AN ht by (auto intro!: w)
  have near: "\<forall>x \<in> set K. near h (fst x) \<and> fst x \<noteq> h"
    using wL wN K dis ht by (auto simp: ivs_ok_def intro: within_near dest!: bspec)
  have find: "smap_find seq_lt (of_nat h) (rx_data b) = None"
    unfolding data by (rule smap_find_enc [OF near])
  let ?b1 = "b\<lparr>rx_data := map (enc S) ?L\<rparr>"
  have b1: "b\<lparr>rx_data := smap_assign seq_lt (of_nat h) (map S [h..<t]) (rx_data b)\<rparr> = ?b1"
    unfolding data smap_assign_enc [OF near] ..
  have gt: "seq_gt (of_nat h) (rx_nextRxSeq b) \<longleftrightarrow> N < h"
    unfolding nx using seq_of_nat(1) [OF within_near [OF wN(2,1)]] by simp
  obtain l where l: "(if seq_gt (of_nat h) (rx_nextRxSeq ?b1) then rx_update_sack (of_nat h) (of_nat t) ?b1
      else Inr ?b1) = Inr (?b1\<lparr>rx_sackList := l\<rparr>)" "length l \<le> 4" "\<forall>c \<in> set l. blk_ok ?U A N c"
  proof (cases "N < h")
    case True
    then have "blk_ok ?U A N (of_nat h, of_nat t)"
      using ht wN unfolding blk_ok_def by blast
    with True gt sack sl update_sack_ok [of ?b1 ?U A N "of_nat h" "of_nat t"] show ?thesis
      by (auto intro: that)
  next
    case False
    with gt sack sl show ?thesis
      by (intro that [of "rx_sackList b"]) simp_all
  qed
  define N' where "N' = iv_advance ?L N"
  have pre: "\<forall>x \<in> set ?L. fst x < N \<longrightarrow> snd x \<le> N"
    using ht AN(3) by (auto simp: stored_def not_le)
  have N': "N \<le> N'" "{N..<N'} \<subseteq> ?U" "N' \<notin> ?U"
    using iv_advance_spec [OF L pre] unfolding N'_def U by auto
  obtain sack' where adv: "rx_advance (map (enc S) ?L) (of_nat N) (of_nat (N - A)) l =
      Inr (of_nat N', of_nat (N - A) + of_nat (N' - N), sack')"
    "\<forall>c \<in> set sack'. c \<in> set l" "length sack' \<le> length l" "N' = N \<longrightarrow> sack' = l"
    "N' \<noteq> N \<longrightarrow> (\<forall>c \<in> set sack'. \<not> seq_le (snd c) (of_nat N'))"
    using rx_advance_enc [OF L wL wN(1) l(3), of S "of_nat (N - A)"] unfolding N'_def by blast
  have bdL: "\<forall>x \<in> set ?L. A \<le> fst x \<and> snd x \<le> A + rx_window"
    using bd ht AN(1) by auto
  have cover: "{A..<N'} \<subseteq> ?U"
    using AN(2) N'(2) by (auto simp: subset_eq)
  have N'b: "N' \<le> A + rx_window"
  proof (cases "N' = A")
    case False
    then have "N' - 1 \<in> {A..<N'}"
      using N'(1) AN(1) by auto
    then have "N' - 1 \<in> stored ?L"
      using cover U by blast
    then show ?thesis
      using stored_bounds [OF _ bdL] by fastforce
  qed simp
  have wN': "within A N'"
    using N'b N'(1) AN(1) by (intro w) simp_all
  have avN: "of_nat (N - A) + of_nat (N' - N) = (of_nat (N' - A) :: 32 word)"
    using N'(1) AN(1) by (simp add: of_nat_diff)
  have sackN': "\<forall>c \<in> set sack'. blk_ok ?U A N' c"
  proof
    fix c assume c: "c \<in> set sack'"
    show "blk_ok ?U A N' c"
    proof (cases "N' = N")
      case False
      with c adv show ?thesis
        using blk_ok_advance [OF _ N'(3) wN'] l(3) by blast
    qed (use c adv l in auto)
  qed
  have FN': "N' \<le> f" if "F = Some f" for f
  proof (rule ccontr)
    assume "\<not> N' \<le> f"
    then have "f \<in> {N..<N'}"
      using F that by auto
    then have "f \<in> stored ?L"
      using N'(2) U by blast
    then obtain x where "x \<in> set ?L" "f \<in> {fst x..<snd x}"
      unfolding stored_def by blast
    then have "x \<in> set ?L" "f < snd x"
      by simp_all
    then show False
      using F that by auto
  qed
  have feq: "seq_eq (of_nat N') (rx_finSeq b) \<longleftrightarrow> F = Some N'" if "F \<noteq> None"
  proof -
    from that obtain f where f: "F = Some f" by auto
    then have "near N' f"
      using F FN' N'(1) AN(1) wN' by (intro within_near [of A] w) auto
    with f F show ?thesis
      using seq_of_nat(5) by auto
  qed
  let ?b4 = "?b1\<lparr>rx_size := of_nat (iv_total ?L), rx_nextRxSeq := of_nat N',
      rx_availBytes := of_nat (N' - A), rx_sackList := sack'\<rparr>"
  let ?b5 = "if rx_gotFin ?b4 \<and> seq_eq (rx_nextRxSeq ?b4) (rx_finSeq ?b4)
      then ?b4\<lparr>rx_nextRxSeq := seq_inc (rx_nextRxSeq ?b4)\<rparr> else ?b4"
  have size': "of_nat (iv_total K) + of_nat (t - h) = (of_nat (iv_total ?L) :: 32 word)"
    by (simp add: add.commute)
  have "rx_store (of_nat h) (of_nat t) (map S [h..<t]) b = Inr (True, ?b5)"
    unfolding rx_store_def b1 Let_def find ns_assert_simps l(1) res_bind_simps
    using adv(1) nx av sz size' avN by (simp cong: if_cong)
  moreover have "rx_ok S F A N' ?L ?b5"
  proof -
    have "\<forall>f. F = Some f \<longrightarrow> rx_finSeq b = of_nat f \<and> N' \<le> f \<and> (\<forall>x \<in> set ?L. snd x \<le> f) \<and>
        f \<le> A + 2 * rx_window"
      using F FN' by auto
    moreover have "of_nat (if F = Some N' then Suc N' else N') =
        (if F \<noteq> None \<and> seq_eq (of_nat N') (rx_finSeq b) then seq_inc (of_nat N') else of_nat N')"
      using feq by (auto simp: seq_inc_def add.commute)
    ultimately show ?thesis
      using L bdL cover N' AN(1) adv(3) l(2) sackN' mb fin unfolding rx_ok_def U
      by (simp del: of_nat_diff)
  qed
  ultimately show ?thesis
    using N'(1) by blast
qed

text \<open>What \<open>Add\<close> keeps of a segment \<open>[h, t)\<close>: nothing below the next expected position, and nothing
  beyond the buffer size counted from the first stored byte.\<close>

definition rx_limit :: "interval list \<Rightarrow> nat \<Rightarrow> rx_buffer \<Rightarrow> nat" where
  "rx_limit L t b = (if L = [] then t else min t (fst (hd L) + unat (rx_maxBuffer b)))"

lemma iv_trim_bounds:
  assumes "\<forall>x \<in> set L. P (fst x) \<and> P (snd x)" and "P h" and "P t"
    and "iv_trim L h t = (K, h', t')"
  shows "P h' \<and> P t'"
  using assms
proof (induction L h t arbitrary: K rule: iv_trim.induct)
  case (2 a b L h t)
  then show ?case
    by (cases "iv_trim L h t"; cases "iv_trim L (if a \<le> h then b else h) (if b \<ge> t then a else t)")
      (simp split: if_splits)
qed simp

lemma rx_add_ok:
  assumes ok: "rx_ok S F A N L b"
    and ht: "h \<le> t" "N \<le> h + rx_window" "t \<le> A + rx_window" and F: "\<forall>f. F = Some f \<longrightarrow> t \<le> f"
  shows "\<exists>r b' L' N'. rx_add (map S [h..<t]) (of_nat h) b = Inr (r, b') \<and>
    rx_ok S F A N' L' b' \<and> N \<le> N' \<and>
    stored L' = stored L \<union> {max h N..<rx_limit L t b} \<and> (\<not> r \<longrightarrow> b' = b \<and> L' = L)"
proof -
  define M where "M = (if F = Some N then Suc N else N)"
  define t1 where "t1 = rx_limit L t b"
  define h2 where "h2 = (if L \<noteq> [] \<and> t1 < max h M then t1 else max h M)"
  note clip = rx_clip [OF ok ht, folded M_def, folded rx_limit_def, folded t1_def, folded h2_def]
  have d: "rx_data b = map (enc S) L" "ivs_ok L" "A \<le> N" "{A..<N} \<subseteq> stored L" "N \<notin> stored L"
    "\<forall>x \<in> set L. A \<le> fst x \<and> snd x \<le> A + rx_window" "rx_size b = of_nat (iv_total L)"
    using ok by (simp_all add: rx_ok_def)
  have Nw: "N \<le> A + rx_window"
    by (rule rx_ok_next_window [OF ok])
  have tail: "seq_add (of_nat h) (pkt_size (map S [h..<t])) = of_nat t"
    unfolding pkt_size_map using ht(1) by (rule seq_add_of_nat)
  obtain K h' t' where tr: "iv_trim L h2 t1 = (K, h', t')"
    by (cases "iv_trim L h2 t1") auto
  have t1t: "t1 \<le> t"
    by (simp add: t1_def rx_limit_def)
  let ?lo = "A - rx_window"
  have w: "within ?lo x" if "A \<le> x + rx_window" "x \<le> A + 2 * rx_window" for x
    using that by (auto simp: within_def rx_window_def)
  have t1A: "t1 = t \<or> A \<le> t1"
  proof (cases "L = []")
    case False
    then have "A \<le> fst (hd L)"
      using d(6) by simp
    then show ?thesis
      by (auto simp: t1_def rx_limit_def)
  qed (simp add: t1_def rx_limit_def)
  have wt1: "within ?lo t1" "A \<le> t1 + rx_window"
    using t1A t1t ht d(3) by (auto intro!: w)
  have Mb: "M \<le> Suc N" "N \<le> M"
    by (simp_all add: M_def)
  have wh2: "within ?lo h2"
  proof -
    have "within ?lo (max h M)"
      using ht Nw Mb d(3) by (intro w) (auto simp: rx_window_def max_def)
    with wt1 show ?thesis
      by (simp add: h2_def)
  qed
  have wL: "\<forall>x \<in> set L. fst x < snd x \<and> within ?lo (fst x) \<and> within ?lo (snd x)"
  proof
    fix x assume x: "x \<in> set L"
    then have "fst x < snd x" "A \<le> fst x" "snd x \<le> A + rx_window"
      using d(2,6) by (auto simp: ivs_ok_def)
    then show "fst x < snd x \<and> within ?lo (fst x) \<and> within ?lo (snd x)"
      by (auto intro!: w)
  qed
  have trim: "rx_trim (rx_data b) (of_nat h2) (of_nat t1) (rx_size b) =
      (map (enc S) K, of_nat h', of_nat t', of_nat (iv_total K))"
    unfolding d(1,7) rx_trim_enc [OF wL wh2 wt1(1)] tr by simp
  have he: "(if rx_data b \<noteq> [] then
      let maxSeq = seq_add (fst (hd (rx_data b))) (rx_maxBuffer b);
          tailSeq = if seq_lt maxSeq (of_nat t) then maxSeq else of_nat t;
          headSeq = if seq_lt tailSeq (of_nat (max h M)) then tailSeq else of_nat (max h M)
      in (headSeq, tailSeq) else (of_nat (max h M), of_nat t)) = (of_nat h2 :: seq32, of_nat t1 :: seq32)"
  proof (cases "rx_data b = []")
    case True
    then have "L = []"
      using d(1) by simp
    with True show ?thesis
      by (simp add: h2_def t1_def rx_limit_def)
  next
    case False
    show ?thesis
      unfolding Let_def clip(2) [OF False] clip(3) [OF False] clip(4) [OF False] using False by simp
  qed
  let ?b1 = "b\<lparr>rx_data := map (enc S) K, rx_size := of_nat (iv_total K)\<rparr>"
  have add: "rx_add (map S [h..<t]) (of_nat h) b =
      (if seq_ge (of_nat h') (of_nat t') then Inr (False, ?b1)
       else res_bind (seq_diff (of_nat h') (of_nat h)) (\<lambda>start.
            res_bind (seq_diff (of_nat t') (of_nat h')) (\<lambda>len.
            res_bind (pkt_fragment start len (map S [h..<t])) (\<lambda>p'.
            ns_assert (len = pkt_size p') (rx_store (of_nat h') (of_nat t') p' ?b1)))))"
    unfolding rx_add_def Let_def [of "of_nat h"] tail clip(1)
      Let_def [of "of_nat t"] Let_def [of "of_nat (max h M)"] he
    unfolding Let_def [of "(of_nat h2, of_nat t1)"] prod.case trim Let_def ..
  have wht: "within ?lo h'" "within ?lo t'"
    using iv_trim_bounds [of L "within ?lo" h2 t1 K h' t'] wL wh2 wt1(1) tr by auto
  have ge: "seq_ge (of_nat h') (of_nat t') \<longleftrightarrow> t' \<le> h'"
    by (rule seq_of_nat(4) [OF within_near [OF wht]])
  have same: "?b1 = b" if "K = L"
    using that d(1,7) by simp
  show ?thesis
  proof (cases "h2 < t1")
    case False
    then have K: "K = L" "t' \<le> h'"
      using iv_trim_empty_range [of t1 h2 L] tr by auto
    have "{max h N..<rx_limit L t b} = {}"
      using False t1t F unfolding t1_def [symmetric]
      by (cases "F = Some N") (auto simp: h2_def M_def split: if_splits)
    then have "stored L = stored L \<union> {max h N..<rx_limit L t b}"
      by (simp only: Un_empty_right)
    moreover have "rx_add (map S [h..<t]) (of_nat h) b = Inr (False, b)"
      unfolding add ge same [OF K(1)] using K(2) by simp
    ultimately show ?thesis
      using ok by (intro exI [of _ False] exI [of _ b] exI [of _ L] exI [of _ N]) simp
  next
    case True
    then have h2: "h2 = max h M" "M < t1"
      by (auto simp: h2_def split: if_splits)
    then have FN: "F \<noteq> Some N"
      using t1t F by (auto simp: M_def)
    with h2 have h2N: "h2 = max h N"
      by (simp add: M_def)
    from iv_trim_spec [OF d(2) True] tr have sp: "h2 \<le> h'" "t' \<le> t1" "ivs_ok K" "stored K \<subseteq> stored L"
      "\<forall>x \<in> set K. x \<in> set L"
      "if h' < t' then stored K \<union> {h'..<t'} = stored L \<union> {h2..<t1} \<and>
         (\<forall>x \<in> set K. snd x \<le> h' \<or> t' \<le> fst x)
       else K = L \<and> {h2..<t1} \<subseteq> stored L"
      by auto
    show ?thesis
    proof (cases "h' < t'")
      case False
      with sp(6) have "K = L" "stored L = stored L \<union> {max h N..<rx_limit L t b}"
        by (auto simp: h2N t1_def)
      moreover from this have "rx_add (map S [h..<t]) (of_nat h) b = Inr (False, b)"
        unfolding add ge using same False by simp
      ultimately show ?thesis
        using ok by (intro exI [of _ False] exI [of _ b] exI [of _ L] exI [of _ N]) simp
    next
      case less: True
      then have st: "stored K \<union> {h'..<t'} = stored L \<union> {h2..<t1}"
        "\<forall>x \<in> set K. snd x \<le> h' \<or> t' \<le> fst x"
        using sp(6) by simp_all
      have hN: "N \<le> h'" "h \<le> h'" "t' \<le> t"
        using sp(1,2) h2N t1t by simp_all
      have sub: "stored L \<subseteq> stored K \<union> {h'..<t'}"
        using st(1) by blast
      have pre: "{A..<N} \<subseteq> stored K"
      proof
        fix x assume x: "x \<in> {A..<N}"
        with d(4) sub have "x \<in> stored K \<union> {h'..<t'}"
          by blast
        with x hN(1) show "x \<in> stored K"
          by simp
      qed
      have diffs: "seq_diff (of_nat h') (of_nat h) = Inr (of_nat (h' - h))"
        "seq_diff (of_nat t') (of_nat h') = Inr (of_nat (t' - h'))"
        using hN less ht Nw d(3) by (intro seq_diff_of_nat; simp add: rx_window_def)+
      have "t - h < 2 ^ 32"
        using ht Nw d(3) by (simp add: rx_window_def)
      from fragment_map [OF hN(2) less_imp_le [OF less] hN(3) this]
      have frag: "pkt_fragment (of_nat (h' - h)) (of_nat (t' - h')) (map S [h..<t]) =
          Inr (map S [h'..<t'])" .
      have "\<exists>b' N'. rx_store (of_nat h') (of_nat t') (map S [h'..<t']) ?b1 = Inr (True, b') \<and>
          rx_ok S F A N' (iv_insert (h', t') K) b' \<and> N \<le> N'"
      proof (rule rx_store_ok)
        show "rx_data ?b1 = map (enc S) K" "ivs_ok K" "\<forall>x \<in> set K. snd x \<le> h' \<or> t' \<le> fst x"
          "N \<le> h'" "h' < t'" "A \<le> N" "{A..<N} \<subseteq> stored K" "rx_size ?b1 = of_nat (iv_total K)"
          using sp(3) st(2) hN(1) less d(3) pre by simp_all
        show "t' \<le> A + rx_window"
          using hN(3) ht(3) by simp
        show "N \<notin> stored K"
          using d(5) sp(4) by blast
        show "\<forall>x \<in> set K. A \<le> fst x \<and> snd x \<le> A + rx_window"
          using d(6) sp(5) by blast
        show "rx_nextRxSeq ?b1 = of_nat N" "rx_gotFin ?b1 = (F \<noteq> None)"
          "rx_availBytes ?b1 = of_nat (N - A)" "unat (rx_maxBuffer ?b1) \<le> rx_window"
          "length (rx_sackList ?b1) \<le> 4"
          using ok FN by (simp_all add: rx_ok_def)
        show "\<forall>c \<in> set (rx_sackList ?b1). blk_ok (stored K \<union> {h'..<t'}) A N c"
          using ok sub by (auto simp: rx_ok_def intro: blk_ok_mono)
        show "\<forall>f. F = Some f \<longrightarrow> rx_finSeq ?b1 = of_nat f \<and> N < f \<and> (\<forall>x \<in> set K. snd x \<le> f) \<and>
            t' \<le> f \<and> f \<le> A + 2 * rx_window"
          using ok FN sp(5) F hN(3) by (auto simp: rx_ok_def le_less)
      qed
      then obtain b' N' where b': "rx_store (of_nat h') (of_nat t') (map S [h'..<t']) ?b1 = Inr (True, b')"
        "rx_ok S F A N' (iv_insert (h', t') K) b'" "N \<le> N'"
        by blast
      have "rx_add (map S [h..<t]) (of_nat h) b = Inr (True, b')"
        unfolding add ge diffs res_bind_simps frag pkt_size_map ns_assert_simps simp_thms b'(1)
        using less by simp
      moreover have "stored (iv_insert (h', t') K) = stored L \<union> {max h N..<rx_limit L t b}"
        using st(1) by (auto simp: h2N t1_def)
      ultimately show ?thesis
        using b'(2,3) by blast
    qed
  qed
qed

section \<open>Extract\<close>

lemma rx_extract_loop_enc:
  assumes "ivs_ok L" and "\<forall>x \<in> set L. A \<le> fst x \<and> snd x \<le> B" and "{A..<A + n} \<subseteq> stored L"
    and "A + n \<le> M" and "M < A + 2 ^ 31" and "B < A + 2 ^ 31"
  shows "rx_extract_loop (of_nat n) (of_nat M) (map (enc S) L) sz avail out =
    Inr (map (enc S) (iv_extract n L), sz - of_nat n, avail - of_nat n, out @ map S [A..<A + n])"
  using assms
proof (induction L arbitrary: A n sz avail out)
  case Nil
  then have "n = 0"
    by simp
  then show ?case
    by simp
next
  case (Cons x L)
  obtain a b where x: "x = (a, b)" by (cases x)
  with Cons.prems have ab: "a < b" "ivs_ok L" "\<forall>y \<in> set L. b \<le> fst y" "A \<le> a" "b \<le> B"
    by auto
  have nb: "n < 2 ^ 31"
    using Cons.prems(4,5) by simp
  have n0: "(of_nat n :: 32 word) = 0 \<longleftrightarrow> n = 0"
    using nb unat_of_nat [of n, where 'a = 32] by (auto simp: unat_eq_zero [symmetric])
  show ?case
  proof (cases "n = 0")
    case True
    with x show ?thesis
      by (simp add: enc_pair)
  next
    case False
    then have "A \<in> {A..<A + n}" by simp
    from subsetD [OF Cons.prems(3) this] have "A \<in> {a..<b} \<union> stored L"
      by (simp add: x)
    moreover have "A \<notin> stored L"
      using ab(1,3,4) by (force simp: stored_def)
    ultimately have A: "a = A"
      using ab(4) by auto
    have "near a M"
      using Cons.prems(4,5) A by (simp add: near_def)
    from seq_of_nat(3) [OF this] have le: "seq_le (of_nat a) (of_nat M)"
      using Cons.prems(4) A by simp
    have bb: "b - a < 2 ^ 31"
      using ab(1,5) Cons.prems(6) A by simp
    then have cmp: "(of_nat (b - a) :: 32 word) \<le> of_nat n \<longleftrightarrow> b - a \<le> n"
      using nb by (simp add: word_le_nat_alt unat_of_nat del: of_nat_diff)
    show ?thesis
    proof (cases "b - a \<le> n")
      case True
      have sub: "{b..<b + (n - (b - a))} \<subseteq> stored L"
      proof
        fix y assume y: "y \<in> {b..<b + (n - (b - a))}"
        then have "y \<in> {A..<A + n}" using A ab(1) True by auto
        from subsetD [OF Cons.prems(3) this] y show "y \<in> stored L"
          by (simp add: x)
      qed
      have bn: "b + (n - (b - a)) = A + n"
        using True A ab(1) by simp
      have IH: "rx_extract_loop (of_nat (n - (b - a))) (of_nat M) (map (enc S) L)
          (sz - of_nat (b - a)) (avail - of_nat (b - a)) (out @ map S [a..<b]) =
        Inr (map (enc S) (iv_extract (n - (b - a)) L), sz - of_nat (b - a) - of_nat (n - (b - a)),
          avail - of_nat (b - a) - of_nat (n - (b - a)),
          (out @ map S [a..<b]) @ map S [b..<b + (n - (b - a))])"
        using Cons.prems(2,4-6) ab A bn sub x by (intro Cons.IH) auto
      have w: "of_nat (b - a) + of_nat (n - (b - a)) = (of_nat n :: 32 word)"
        using True by (simp only: of_nat_add [symmetric]) simp
      have ws: "s - of_nat (b - a) - of_nat (n - (b - a)) = (s - of_nat n :: 32 word)" for s
        unfolding w [symmetric] by simp
      have wn: "of_nat n - of_nat (b - a) = (of_nat (n - (b - a)) :: 32 word)"
        unfolding w [symmetric] by simp
      have l: "rx_extract_loop (of_nat n) (of_nat M) (map (enc S) (x # L)) sz avail out =
          rx_extract_loop (of_nat (n - (b - a))) (of_nat M) (map (enc S) L)
            (sz - of_nat (b - a)) (avail - of_nat (b - a)) (out @ map S [a..<b])"
        unfolding x list.map enc_pair rx_extract_loop.simps n0 Let_def pkt_size_map cmp wn
        using False True le by (simp only: simp_thms if_True if_False ns_assert_simps)
      have cat: "map S [a..<b] @ map S [b..<A + n] = map S [A..<A + n]"
        using ab(1) bn A by (metis le_add1 less_imp_le map_append upt_add_eq_append le_add_diff_inverse)
      show ?thesis
        unfolding l IH ws bn append_assoc cat using False True x by simp
    next
      case less: False
      have f1: "pkt_fragment 0 (of_nat n) (map S [a..<b]) = Inr (map S [a..<a + n])"
        using fragment_map [of a a "a + n" b S] less bb by simp
      have w: "of_nat (b - a) - of_nat n = (of_nat (b - (a + n)) :: 32 word)"
        using less by (simp add: of_nat_diff)
      have f2: "pkt_fragment (of_nat n) (of_nat (b - (a + n))) (map S [a..<b]) =
          Inr (map S [a + n..<b])"
        using fragment_map [of a "a + n" b b S] less bb by (simp del: of_nat_diff)
      have near: "\<forall>y \<in> set ((a, b) # L). near (a + n) (fst y) \<and> fst y \<noteq> a + n"
      proof
        fix y assume y: "y \<in> set ((a, b) # L)"
        then have "A \<le> fst y" "fst y < B" "y = (a, b) \<or> b \<le> fst y"
          using Cons.prems(1,2) x ab by (auto simp: ivs_ok_def dest!: bspec [of _ _ y])
        then show "near (a + n) (fst y) \<and> fst y \<noteq> a + n"
          using False less A Cons.prems(4-6) by (auto simp: near_def)
      qed
      have asg: "smap_assign seq_lt (of_nat (a + n)) (map S [a + n..<b]) (map (enc S) ((a, b) # L)) =
          enc S (a, b) # enc S (a + n, b) # map (enc S) L"
      proof -
        have "iv_insert (a + n, b) ((a, b) # L) = (a, b) # (a + n, b) # L"
          using less ab(3) by (cases L) auto
        then show ?thesis
          unfolding smap_assign_enc [OF near] by simp
      qed
      have er: "smap_erase seq_lt (of_nat a) (enc S (a, b) # l) = l" for l
      proof -
        have "near a a" by (simp add: near_def)
        from seq_of_nat(2) [OF this] show ?thesis
          by (simp add: enc_pair)
      qed
      have add: "seq_add (of_nat a) (of_nat n) = of_nat (a + n)"
        by (simp add: seq_add_def)
      have l: "rx_extract_loop (of_nat n) (of_nat M) (map (enc S) (x # L)) sz avail out =
          Inr (smap_erase seq_lt (of_nat a)
             (smap_assign seq_lt (of_nat (a + n)) (map S [a + n..<b]) (map (enc S) ((a, b) # L))),
           sz - of_nat n, avail - of_nat n, out @ map S [a..<a + n])"
        unfolding x list.map enc_pair rx_extract_loop.simps n0 Let_def pkt_size_map cmp w f1 f2
          res_bind_simps add
        using False less le by (simp only: simp_thms if_True if_False ns_assert_simps)
      show ?thesis
        unfolding l asg er using False less x A by simp
    qed
  qed
qed

lemma rx_extract_ok:
  fixes m :: "32 word"
  assumes ok: "rx_ok S F A N L b"
  defines "n \<equiv> min (unat m) (N - A)"
  shows "\<exists>b' L'. rx_extract m b = Inr (if n = 0 then None else Some (map S [A..<A + n]), b') \<and>
    rx_ok S F (A + n) N L' b' \<and> stored L' = stored L - {A..<A + n}"
proof -
  have d: "rx_data b = map (enc S) L" "ivs_ok L" "A \<le> N" "{A..<N} \<subseteq> stored L" "N \<notin> stored L"
    "\<forall>x \<in> set L. A \<le> fst x \<and> snd x \<le> A + rx_window" "rx_size b = of_nat (iv_total L)"
    "rx_availBytes b = of_nat (N - A)" "rx_nextRxSeq b = of_nat (if F = Some N then Suc N else N)"
    using ok by (simp_all add: rx_ok_def)
  have Nw: "N \<le> A + rx_window"
    by (rule rx_ok_next_window [OF ok])
  have u: "unat (of_nat k :: 32 word) = k" if "k \<le> N - A" for k
    using that Nw by (simp add: unat_of_nat rx_window_def)
  have ex: "min m (rx_availBytes b) = of_nat n"
  proof -
    have "unat (min m (of_nat (N - A))) = n"
      using u [of "N - A"] by (simp add: n_def min_def word_le_nat_alt del: of_nat_diff)
    moreover have "unat (of_nat n :: 32 word) = n"
      by (rule u) (simp add: n_def)
    ultimately show ?thesis
      unfolding d(8) by (metis unsigned_word_eqI)
  qed
  have n0: "(of_nat n :: 32 word) = 0 \<longleftrightarrow> n = 0"
  proof
    assume z: "(of_nat n :: 32 word) = 0"
    have "unat (of_nat n :: 32 word) = n"
      by (rule u) (simp add: n_def)
    then show "n = 0"
      unfolding z by simp
  qed simp
  show ?thesis
  proof (cases "n = 0")
    case True
    then have "rx_extract m b = Inr (None, b)"
      by (simp add: rx_extract_def ex)
    with True ok show ?thesis
      by (intro exI [of _ b] exI [of _ L]) simp
  next
    case False
    have nN: "A + n \<le> N"
      using d(3) by (simp add: n_def)
    then have sub: "{A..<A + n} \<subseteq> stored L"
      using d(4) by auto
    have ne: "L \<noteq> []"
      using False sub by auto
    let ?M = "if F = Some N then Suc N else N"
    have loop: "rx_extract_loop (of_nat n) (of_nat ?M) (map (enc S) L) (of_nat (iv_total L))
        (of_nat (N - A)) [] =
      Inr (map (enc S) (iv_extract n L), of_nat (iv_total L) - of_nat n, of_nat (N - A) - of_nat n,
        [] @ map S [A..<A + n])"
      using d(2,6) sub nN Nw by (intro rx_extract_loop_enc) (auto simp: rx_window_def)
    have st: "\<forall>x \<in> set L. A \<le> fst x"
      using d(6) by blast
    from iv_extract_spec [OF d(2) st sub] have e: "ivs_ok (iv_extract n L)"
      "stored (iv_extract n L) = stored L - {A..<A + n}"
      "\<forall>x \<in> set (iv_extract n L). A + n \<le> fst x" "iv_total L = n + iv_total (iv_extract n L)"
      by blast+
    have tot: "of_nat (iv_total L) - of_nat n = (of_nat (iv_total (iv_extract n L)) :: 32 word)"
      by (simp add: e(4))
    have av: "of_nat (N - A) - of_nat n = (of_nat (N - (A + n)) :: 32 word)"
      using nN by (simp add: of_nat_diff)
    let ?b = "b\<lparr>rx_data := map (enc S) (iv_extract n L), rx_size := of_nat (iv_total (iv_extract n L)),
        rx_availBytes := of_nat (N - (A + n))\<rparr>"
    have sz: "pkt_size (map S [A..<A + n]) \<noteq> 0"
      using n0 False by simp
    have "rx_extract m b = Inr (Some (map S [A..<A + n]), ?b)"
      unfolding rx_extract_def ex Let_def n0
      unfolding d(1,7,8,9) loop tot av
      using False ne sz by simp
    moreover have "rx_ok S F (A + n) N (iv_extract n L) ?b"
    proof -
      have snds: "snd x \<le> A + rx_window \<and> (\<forall>f. F = Some f \<longrightarrow> snd x \<le> f)"
        if "x \<in> set (iv_extract n L)" for x
      proof -
        have "snd x - 1 \<in> stored (iv_extract n L)" "fst x < snd x"
          using that e(1) by (force simp: stored_def ivs_ok_def)+
        then have "snd x - 1 \<in> stored L"
          using e(2) by simp
        then obtain y where "y \<in> set L" "snd x - 1 < snd y"
          by (auto simp: stored_def)
        with ok \<open>fst x < snd x\<close> show ?thesis
          by (fastforce simp: rx_ok_def)
      qed
      have blk: "blk_ok (stored L - {A..<A + n}) (A + n) N c" if "c \<in> set (rx_sackList b)" for c
      proof -
        have "blk_ok (stored L) A N c"
          using that ok by (simp add: rx_ok_def)
        then obtain x y where c: "c = (of_nat x, of_nat y)" "x < y" "N < x" "within A x" "within A y"
          "{x..<y} \<subseteq> stored L"
          by (auto simp: blk_ok_def)
        then have "within (A + n) x" "within (A + n) y" "{x..<y} \<subseteq> stored L - {A..<A + n}"
          using nN by (auto simp: within_def)
        with c show ?thesis
          unfolding blk_ok_def by blast
      qed
      have "{A + n..<N} \<subseteq> stored (iv_extract n L)" "N \<notin> stored (iv_extract n L)"
        using d(4,5) e(2) by auto
      moreover have "\<forall>x \<in> set (iv_extract n L). A + n \<le> fst x \<and> snd x \<le> A + n + rx_window"
        using snds e(3) by fastforce
      moreover have "\<forall>f. F = Some f \<longrightarrow> rx_finSeq b = of_nat f \<and> N \<le> f \<and>
          (\<forall>x \<in> set (iv_extract n L). snd x \<le> f) \<and> f \<le> A + n + 2 * rx_window"
        using ok snds by (auto simp: rx_ok_def)
      moreover have "\<forall>c \<in> set (rx_sackList b). blk_ok (stored (iv_extract n L)) (A + n) N c"
        using blk e(2) by simp
      moreover have "rx_nextRxSeq b = of_nat (if F = Some N then Suc N else N)"
        "rx_gotFin b = (F \<noteq> None)" "unat (rx_maxBuffer b) \<le> rx_window" "length (rx_sackList b) \<le> 4"
        using ok by (simp_all add: rx_ok_def)
      ultimately show ?thesis
        using e(1) nN unfolding rx_ok_def by (simp del: of_nat_diff)
    qed
    ultimately show ?thesis
      using False e(2) by auto
  qed
qed

section \<open>FIN\<close>

lemma rx_set_fin_ok:
  assumes ok: "rx_ok S None A N L b" and f: "N \<le> f" "f \<le> A + 2 * rx_window"
    and L: "\<forall>x \<in> set L. snd x \<le> f"
  shows "rx_ok S (Some f) A N L (rx_set_fin (of_nat f) b)"
proof -
  have AN: "A \<le> N" "rx_nextRxSeq b = of_nat N"
    using ok by (simp_all add: rx_ok_def)
  then have "near N f"
    using f by (simp add: near_def rx_window_def)
  from seq_of_nat(5) [OF this] have e: "seq_eq (of_nat N) (of_nat f) \<longleftrightarrow> N = f" .
  show ?thesis
    using ok f L e AN(2) unfolding rx_ok_def rx_set_fin_def Let_def
    by (auto simp: seq_inc_def add.commute simp del: of_nat_diff)
qed

section \<open>Sessions\<close>

text \<open>
  A receiver at work: segments of the stream \<open>S\<close>, which ends at position \<open>E\<close>, arrive in any order,
  repeatedly and with any overlaps, as long as they lie around the window; the application reads at
  any time; the FIN may arrive at any time. \<open>out\<close> is what the application has read so far.
\<close>

inductive rx_session :: "(nat \<Rightarrow> 8 word) \<Rightarrow> nat \<Rightarrow> nat \<Rightarrow> rx_buffer \<Rightarrow> bytes \<Rightarrow> bool"
  for S :: "nat \<Rightarrow> 8 word" and E N0 :: nat where
  start: "unat m \<le> rx_window \<Longrightarrow> N0 \<le> E \<Longrightarrow> rx_session S E N0 (rx_set_max m (rx_init (of_nat N0))) []"
| segment: "rx_session S E N0 b out \<Longrightarrow> h \<le> t \<Longrightarrow> t \<le> E \<Longrightarrow>
    N0 + length out + unat (rx_availBytes b) \<le> h + rx_window \<Longrightarrow> t \<le> N0 + length out + rx_window \<Longrightarrow>
    rx_add (map S [h..<t]) (of_nat h) b = Inr (r, b') \<Longrightarrow> rx_session S E N0 b' out"
| fin: "rx_session S E N0 b out \<Longrightarrow> \<not> rx_gotFin b \<Longrightarrow> E \<le> N0 + length out + 2 * rx_window \<Longrightarrow>
    rx_session S E N0 (rx_set_fin (of_nat E) b) out"
| read_some: "rx_session S E N0 b out \<Longrightarrow> rx_extract m b = Inr (Some p, b') \<Longrightarrow>
    rx_session S E N0 b' (out @ p)"
| read_none: "rx_session S E N0 b out \<Longrightarrow> rx_extract m b = Inr (None, b') \<Longrightarrow>
    rx_session S E N0 b' out"

lemma rx_ok_avail: "rx_ok S F A N L b \<Longrightarrow> A + unat (rx_availBytes b) = N"
proof -
  assume ok: "rx_ok S F A N L b"
  then have "unat (of_nat (N - A) :: 32 word) = N - A" "A \<le> N"
    using rx_ok_next_window [OF ok]
    by (simp_all add: unat_of_nat rx_window_def rx_ok_def del: of_nat_diff)
  with ok show ?thesis
    by (simp add: rx_ok_def)
qed

lemma stored_below: "y \<in> stored L \<Longrightarrow> \<forall>x \<in> set L. snd x \<le> E \<Longrightarrow> y < E"
  unfolding stored_def by (blast intro: order_less_le_trans dest: atLeastLessThan_iff [THEN iffD1])

lemma last_stored:
  assumes "x \<in> set L" and "fst x < snd x"
  shows "snd x - 1 \<in> stored L"
proof -
  have "snd x - 1 \<in> {fst x..<snd x}"
    using assms(2) by auto
  with assms(1) show ?thesis
    unfolding stored_def by blast
qed

lemma ends_below:
  assumes "stored L' \<subseteq> stored L" and "\<forall>x \<in> set L. snd x \<le> E" and "ivs_ok L'"
  shows "\<forall>x \<in> set L'. snd x \<le> E"
proof
  fix x assume x: "x \<in> set L'"
  then have lt: "fst x < snd x"
    using assms(3) by (simp add: ivs_ok_def)
  then have "snd x - 1 \<in> stored L"
    using last_stored [OF x] assms(1) by blast
  from stored_below [OF this assms(2)] show "snd x \<le> E"
    by simp
qed

lemma rx_session_ok:
  assumes "rx_session S E N0 b out"
  shows "out = map S [N0..<N0 + length out] \<and>
    (\<exists>F N L. rx_ok S F (N0 + length out) N L b \<and> N \<le> E \<and> (\<forall>x \<in> set L. snd x \<le> E) \<and>
       (\<forall>f. F = Some f \<longrightarrow> f = E))"
  using assms
proof (induction rule: rx_session.induct)
  case (start m)
  then have "rx_ok S None N0 N0 [] (rx_set_max m (rx_init (of_nat N0)))"
    by (simp add: rx_ok_def rx_init_def rx_set_max_def)
  with start show ?case
    by (intro conjI exI [of _ None] exI [of _ N0] exI [of _ "[]"]) simp_all
next
  case (segment b out h t r b')
  then obtain F N L where ok: "rx_ok S F (N0 + length out) N L b" and E: "N \<le> E"
    "\<forall>x \<in> set L. snd x \<le> E" "\<forall>f. F = Some f \<longrightarrow> f = E"
    by blast
  have "N \<le> h + rx_window"
    using segment.hyps(4) rx_ok_avail [OF ok] by simp
  from rx_add_ok [OF ok segment.hyps(2) this segment.hyps(5)] E(3) segment.hyps(3,6) obtain L' N' where
    L': "rx_ok S F (N0 + length out) N' L' b'" "stored L' = stored L \<union> {max h N..<rx_limit L t b}"
    by auto
  have lim: "rx_limit L t b \<le> t"
    by (simp add: rx_limit_def)
  have below: "y < E" if "y \<in> stored L'" for y
  proof -
    have "y \<in> stored L \<or> y < t"
      using that L'(2) lim by auto
    with stored_below [OF _ E(2)] segment.hyps(3) show ?thesis
      by auto
  qed
  have "\<forall>x \<in> set L'. snd x \<le> E"
  proof
    fix x assume x: "x \<in> set L'"
    then have "fst x < snd x"
      using L'(1) by (simp add: rx_ok_def ivs_ok_def)
    with x have "snd x - 1 \<in> stored L'"
      by (rule last_stored)
    from below [OF this] show "snd x \<le> E"
      by simp
  qed
  moreover have "N' \<le> E"
  proof (cases "N0 + length out < N'")
    case True
    then have "N' - 1 \<in> {N0 + length out..<N'}"
      by auto
    with L'(1) have "N' - 1 \<in> stored L'"
      unfolding rx_ok_def by blast
    from below [OF this] show ?thesis
      by simp
  next
    case False
    moreover have "N0 + length out \<le> N"
      using ok by (simp add: rx_ok_def)
    ultimately show ?thesis
      using E(1) by simp
  qed
  ultimately show ?case
    using segment.IH L'(1) E(3) by blast
next
  case (fin b out)
  then obtain F N L where ok: "rx_ok S F (N0 + length out) N L b" "N \<le> E" "\<forall>x \<in> set L. snd x \<le> E"
    by blast
  with fin.hyps(2) have "F = None"
    by (simp add: rx_ok_def)
  with ok fin.hyps(3) fin.IH show ?case
    using rx_set_fin_ok by blast
next
  case (read_some b out m p b')
  then obtain F N L where ok: "rx_ok S F (N0 + length out) N L b" and E: "N \<le> E"
    "\<forall>x \<in> set L. snd x \<le> E" "\<forall>f. F = Some f \<longrightarrow> f = E"
    by blast
  let ?n = "min (unat m) (N - (N0 + length out))"
  from rx_extract_ok [OF ok, of m] read_some.hyps(2) obtain L' where
    p: "p = map S [N0 + length out..<N0 + length out + ?n]"
    and L': "rx_ok S F (N0 + length out + ?n) N L' b'" "stored L' \<subseteq> stored L"
    by (auto split: if_splits)
  have "\<forall>x \<in> set L'. snd x \<le> E"
    using ends_below [OF _ E(2)] L' by (simp add: rx_ok_def)
  moreover have "out @ p = map S [N0..<N0 + length (out @ p)]"
  proof -
    have out: "out = map S [N0..<N0 + length out]"
      using read_some.IH by (rule conjunct1)
    have len: "N0 + length (out @ p) = N0 + length out + ?n"
      by (simp add: p)
    have "out @ p = map S [N0..<N0 + length out] @ map S [N0 + length out..<N0 + length out + ?n]"
      using out p by (rule arg_cong2)
    then show ?thesis
      unfolding len map_append [symmetric]
        upt_add_eq_append [OF le_add1 [of N0 "length out"], symmetric] .
  qed
  moreover have "N0 + length (out @ p) = N0 + length out + ?n"
    by (simp add: p)
  ultimately show ?case
    using L'(1) E by metis
next
  case (read_none b out m b')
  then obtain F N L where ok: "rx_ok S F (N0 + length out) N L b" and E: "N \<le> E"
    "\<forall>x \<in> set L. snd x \<le> E" "\<forall>f. F = Some f \<longrightarrow> f = E"
    by blast
  from rx_extract_ok [OF ok, of m] read_none.hyps(2) obtain L' where
    n: "min (unat m) (N - (N0 + length out)) = 0"
    and L': "rx_ok S F (N0 + length out + 0) N L' b'" "stored L' = stored L - {}"
    by (auto split: if_splits)
  have "\<forall>x \<in> set L'. snd x \<le> E"
  proof (rule ends_below [OF _ E(2)])
    show "stored L' \<subseteq> stored L"
      using L'(2) by simp
    show "ivs_ok L'"
      using L'(1) by (simp add: rx_ok_def)
  qed
  moreover have "rx_ok S F (N0 + length out) N L' b'"
    using L'(1) by simp
  ultimately show ?case
    using read_none.IH E(1,3) by blast
qed

section \<open>Properties\<close>

text \<open>C3: In-order delivery. In every session, whatever segments of the stream arrive in whatever order,
  the bytes handed to the application are exactly the stream from its first byte on, without gap,
  repetition or damage, also when the sequence numbers wrap around.\<close>

theorem rx_delivers_stream:
  assumes "rx_session S E N0 b out"
  shows "out = map S [N0..<N0 + length out]"
  using rx_session_ok [OF assms] by blast

definition demo_stream :: "nat \<Rightarrow> 8 word" where
  "demo_stream n = of_nat n"

definition demo_rx :: "32 word \<Rightarrow> 32 word \<Rightarrow> (seq32 \<times> bytes) list \<Rightarrow> rx_buffer" where
  "demo_rx nextSeq avail data =
     \<lparr>rx_nextRxSeq = nextSeq, rx_finSeq = 0, rx_gotFin = False, rx_size = avail, rx_maxBuffer = 100,
      rx_availBytes = avail, rx_data = data, rx_sackList = []\<rparr>"

lemma demo_session:
  "rx_session demo_stream 20 5 (demo_rx 9 4 [(5, [5, 6, 7, 8])]) []"
  "rx_session demo_stream 20 5 (demo_rx 9 1 [(8, [8])]) [5, 6, 7]"
proof -
  have "rx_session demo_stream 20 5 (rx_set_max 100 (rx_init (of_nat 5))) []"
    by (rule rx_session.start) (simp_all add: rx_window_def)
  moreover have "rx_set_max 100 (rx_init (of_nat 5)) = demo_rx 5 0 []"
    by (simp add: rx_set_max_def rx_init_def demo_rx_def seq_default_def)
  ultimately have 0: "rx_session demo_stream 20 5 (demo_rx 5 0 []) []"
    by simp
  have add: "rx_add (map demo_stream [5..<9]) (of_nat 5) (demo_rx 5 0 []) =
      Inr (True, demo_rx 9 4 [(5, [5, 6, 7, 8])])"
    by code_simp
  show 1: "rx_session demo_stream 20 5 (demo_rx 9 4 [(5, [5, 6, 7, 8])]) []"
    by (rule rx_session.segment [OF 0 _ _ _ _ add]) (simp_all add: rx_window_def demo_rx_def)
  have "rx_extract 3 (demo_rx 9 4 [(5, [5, 6, 7, 8])]) = Inr (Some [5, 6, 7], demo_rx 9 1 [(8, [8])])"
    by code_simp
  from rx_session.read_some [OF 1 this]
  show "rx_session demo_stream 20 5 (demo_rx 9 1 [(8, [8])]) [5, 6, 7]"
    by simp
qed

theorem rx_delivers_stream_witness:
  "\<exists>b out. rx_session demo_stream 20 5 b out \<and> length out = 3 \<and> out = map demo_stream [5..<8]"
proof -
  from rx_delivers_stream [OF demo_session(2)]
  have "[5, 6, 7] = map demo_stream [5..<8]"
    by simp
  with demo_session(2) show ?thesis
    by (intro exI [of _ "demo_rx 9 1 [(8, [8])]"] exI [of _ "[5, 6, 7]"]) simp
qed

text \<open>C31: Segments are never lost or invented: \<open>Add\<close> raises no fault, and afterwards the buffer holds
  exactly what it held before and the positions of the segment from the next expected one up to the
  limit that the buffer size sets; when it returns \<open>false\<close> the buffer is unchanged.\<close>

theorem rx_add_stores_segment:
  assumes "rx_ok S F A N L b" and "h \<le> t" and "N \<le> h + rx_window" and "t \<le> A + rx_window"
    and "\<forall>f. F = Some f \<longrightarrow> t \<le> f"
  shows "\<exists>r b' L' N'. rx_add (map S [h..<t]) (of_nat h) b = Inr (r, b') \<and>
    rx_ok S F A N' L' b' \<and> N \<le> N' \<and>
    stored L' = stored L \<union> {max h N..<rx_limit L t b} \<and> (\<not> r \<longrightarrow> b' = b \<and> L' = L)"
  by (rule rx_add_ok [OF assms])

theorem rx_add_stores_segment_witness:
  "\<exists>r b' L' N'. rx_add (map demo_stream [7..<12]) (of_nat 7) (rx_set_max 100 (rx_init (of_nat 5))) =
      Inr (r, b') \<and> rx_ok demo_stream None 5 N' L' b' \<and> stored L' = {7..<12}"
proof -
  have "rx_ok demo_stream None 5 5 [] (rx_set_max 100 (rx_init (of_nat 5)))"
    by (simp add: rx_ok_def rx_init_def rx_set_max_def rx_window_def)
  from rx_add_stores_segment [OF this, of 7 12] show ?thesis
    by (fastforce simp: rx_window_def rx_limit_def)
qed

text \<open>\<open>Extract\<close> raises no fault and takes out exactly the next bytes of the stream, as many as asked
  for and available, and nothing when none are.\<close>

theorem rx_extract_in_order:
  fixes m :: "32 word"
  assumes "rx_ok S F A N L b"
  shows "\<exists>b' L'. rx_extract m b =
      Inr (if min (unat m) (N - A) = 0 then None
           else Some (map S [A..<A + min (unat m) (N - A)]), b') \<and>
    rx_ok S F (A + min (unat m) (N - A)) N L' b' \<and>
    stored L' = stored L - {A..<A + min (unat m) (N - A)}"
  by (rule rx_extract_ok [OF assms])

theorem rx_extract_in_order_witness:
  "\<exists>b' L'. rx_extract 3 (demo_rx 9 4 [(5, [5, 6, 7, 8])]) = Inr (Some [5, 6, 7], b') \<and>
     rx_ok demo_stream None 8 9 L' b' \<and> stored L' = {8}"
proof -
  have ok: "rx_ok demo_stream None 5 9 [(5, 9)] (demo_rx 9 4 [(5, [5, 6, 7, 8])])"
    by (simp add: rx_ok_def demo_rx_def rx_window_def enc_def demo_stream_def stored_def iv_total_def
        ivs_ok_def upt_rec)
  have "stored [(5, 9)] - {5..<8} = {8}"
    by (auto simp: stored_def)
  with rx_extract_in_order [OF ok, of 3] show ?thesis
    by (simp add: demo_stream_def upt_rec)
qed

text \<open>C32: SACK blocks are sound: in every session there are at most four, each is a non-empty range of
  positions above the next expected byte, and the buffer holds every byte of it.\<close>

theorem rx_sack_reports_stored:
  assumes "rx_session S E N0 b out"
  shows "length (rx_sackList b) \<le> 4 \<and>
    (\<forall>c \<in> set (rx_sackList b). \<exists>x y. c = (of_nat x, of_nat y) \<and> x < y \<and>
       N0 + length out + unat (rx_availBytes b) < x \<and>
       (\<forall>p \<in> {x..<y}. \<exists>e \<in> set (rx_data b). \<exists>a n. e = (of_nat a, map S [a..<a + n]) \<and>
          a \<le> p \<and> p < a + n))"
proof -
  obtain F N L where ok: "rx_ok S F (N0 + length out) N L b"
    using rx_session_ok [OF assms] by blast
  have data: "rx_data b = map (enc S) L" and ivs: "ivs_ok L"
    and blk: "\<forall>c \<in> set (rx_sackList b). blk_ok (stored L) (N0 + length out) N c"
    and len: "length (rx_sackList b) \<le> 4"
    using ok by (simp_all add: rx_ok_def)
  have held: "\<exists>e \<in> set (rx_data b). \<exists>a n. e = (of_nat a, map S [a..<a + n]) \<and> a \<le> p \<and> p < a + n"
    if "p \<in> stored L" for p
  proof -
    obtain i where "i \<in> set L" "p \<in> {fst i..<snd i}"
      using \<open>p \<in> stored L\<close> unfolding stored_def by blast
    then have i: "i \<in> set L" "fst i \<le> p" "p < snd i"
      by simp_all
    then have "fst i + (snd i - fst i) = snd i"
      by simp
    with i show ?thesis
      unfolding data set_map
      by (intro bexI [of _ "enc S i"] exI [of _ "fst i"] exI [of _ "snd i - fst i"])
        (auto simp: enc_def)
  qed
  have "\<exists>x y. c = (of_nat x, of_nat y) \<and> x < y \<and> N0 + length out + unat (rx_availBytes b) < x \<and>
      (\<forall>p \<in> {x..<y}. \<exists>e \<in> set (rx_data b). \<exists>a n. e = (of_nat a, map S [a..<a + n]) \<and> a \<le> p \<and> p < a + n)"
    if c: "c \<in> set (rx_sackList b)" for c
  proof -
    from blk c obtain x y where x: "c = (of_nat x, of_nat y)" "x < y" "N < x" "{x..<y} \<subseteq> stored L"
      by (auto simp: blk_ok_def)
    with held rx_ok_avail [OF ok] show ?thesis
      by (intro exI [of _ x] exI [of _ y]) blast
  qed
  with len show ?thesis
    by blast
qed

text \<open>Byte 5 is in order, the segments 7 to 8 and 12 to 13 leave gaps, and byte 9 extends the first of them, which is
  reported first then.\<close>

lemma demo_sack_session:
  "\<exists>b. rx_session demo_stream 20 5 b [] \<and> rx_sackList b = [(7, 10), (12, 14)] \<and> rx_availBytes b = 1 \<and>
     rx_data b = [(5, [5]), (7, [7, 8]), (9, [9]), (12, [12, 13])]"
proof -
  define b where "b = demo_rx 6 1 [(5, [5])]"
  have 0: "rx_session demo_stream 20 5 (demo_rx 5 0 []) []"
    using rx_session.start [of 100 5 20 demo_stream]
    by (simp add: rx_set_max_def rx_init_def demo_rx_def seq_default_def rx_window_def)
  have "rx_add (map demo_stream [5..<6]) (of_nat 5) (demo_rx 5 0 []) = Inr (True, b)"
    unfolding b_def by code_simp
  from rx_session.segment [OF 0 _ _ _ _ this] have 1: "rx_session demo_stream 20 5 b []"
    by (simp add: rx_window_def demo_rx_def)
  have "rx_add (map demo_stream [7..<9]) (of_nat 7) b =
      Inr (True, b\<lparr>rx_size := 3, rx_data := [(5, [5]), (7, [7, 8])], rx_sackList := [(7, 9)]\<rparr>)"
    unfolding b_def by code_simp
  from rx_session.segment [OF 1 _ _ _ _ this] have 2: "rx_session demo_stream 20 5
      (b\<lparr>rx_size := 3, rx_data := [(5, [5]), (7, [7, 8])], rx_sackList := [(7, 9)]\<rparr>) []"
    by (simp add: rx_window_def demo_rx_def b_def)
  have "rx_add (map demo_stream [12..<14]) (of_nat 12) (b\<lparr>rx_size := 3, rx_data := [(5, [5]), (7, [7, 8])], rx_sackList := [(7, 9)]\<rparr>) =
      Inr (True, b\<lparr>rx_size := 5, rx_data := [(5, [5]), (7, [7, 8]), (12, [12, 13])], rx_sackList := [(12, 14), (7, 9)]\<rparr>)"
    unfolding b_def by code_simp
  from rx_session.segment [OF 2 _ _ _ _ this] have 3: "rx_session demo_stream 20 5
      (b\<lparr>rx_size := 5, rx_data := [(5, [5]), (7, [7, 8]), (12, [12, 13])], rx_sackList := [(12, 14), (7, 9)]\<rparr>) []"
    by (simp add: rx_window_def demo_rx_def b_def)
  have "rx_add (map demo_stream [9..<10]) (of_nat 9)
        (b\<lparr>rx_size := 5, rx_data := [(5, [5]), (7, [7, 8]), (12, [12, 13])], rx_sackList := [(12, 14), (7, 9)]\<rparr>) =
      Inr (True, b\<lparr>rx_size := 6, rx_data := [(5, [5]), (7, [7, 8]), (9, [9]), (12, [12, 13])], rx_sackList := [(7, 10), (12, 14)]\<rparr>)"
    unfolding b_def by code_simp
  from rx_session.segment [OF 3 _ _ _ _ this] show ?thesis
    by (intro exI [of _ "b\<lparr>rx_size := 6, rx_data := [(5, [5]), (7, [7, 8]), (9, [9]), (12, [12, 13])],
        rx_sackList := [(7, 10), (12, 14)]\<rparr>"]) (simp add: rx_window_def demo_rx_def b_def)
qed

theorem rx_sack_reports_stored_witness:
  "\<exists>b. rx_session demo_stream 20 5 b [] \<and> rx_sackList b = [(7, 10), (12, 14)] \<and>
     rx_data b = [(5, [5]), (7, [7, 8]), (9, [9]), (12, [12, 13])] \<and>
     (\<exists>x y. ((7, 10) :: seq32 \<times> seq32) = (of_nat x, of_nat y) \<and> x < y \<and> 6 < x \<and>
        (\<forall>p \<in> {x..<y}. \<exists>e \<in> set (rx_data b). \<exists>a n. e = (of_nat a, map demo_stream [a..<a + n]) \<and> a \<le> p \<and> p < a + n))"
proof -
  obtain b where b: "rx_session demo_stream 20 5 b []" "rx_sackList b = [(7, 10), (12, 14)]" "rx_availBytes b = 1"
    "rx_data b = [(5, [5]), (7, [7, 8]), (9, [9]), (12, [12, 13])]"
    using demo_sack_session by blast
  have n: "5 + length ([] :: bytes) + unat (rx_availBytes b) = 6"
    by (simp add: b(3))
  have c: "((7, 10) :: seq32 \<times> seq32) \<in> set (rx_sackList b)"
    by (simp add: b(2))
  note sound = rx_sack_reports_stored [OF b(1), THEN conjunct2, rule_format, OF c]
  then obtain x y where x: "((7, 10) :: seq32 \<times> seq32) = (of_nat x, of_nat y)" "x < y" "6 < x"
    "\<forall>p \<in> {x..<y}. \<exists>e \<in> set (rx_data b). \<exists>a n. e = (of_nat a, map demo_stream [a..<a + n]) \<and> a \<le> p \<and> p < a + n"
    unfolding n by (elim exE conjE) (rule that; assumption)
  show ?thesis
    by (rule exI [of _ b], intro conjI) (rule b(1) b(2) b(4) exI [of _ x] exI [of _ y] conjI x)+
qed

text \<open>\<open>Add\<close> does not enforce the window that \<open>MaxRxSequence\<close> announces: an empty buffer of 10 bytes
  that waits for byte 0 accepts bytes 90 to 95.\<close>

theorem rx_add_beyond_window:
  "rx_max_seq (rx_set_max 10 (rx_init 0)) = 10 \<and>
   (\<exists>b. rx_add [1, 2, 3, 4, 5] 90 (rx_set_max 10 (rx_init 0)) = Inr (True, b) \<and>
     rx_data b = [(90, [1, 2, 3, 4, 5])] \<and> rx_size b = 5)"
proof
  show "rx_max_seq (rx_set_max 10 (rx_init 0)) = 10"
    by code_simp
  have "rx_add [1, 2, 3, 4, 5] 90 (rx_set_max 10 (rx_init 0)) =
      Inr (True, (rx_set_max 10 (rx_init 0))
        \<lparr>rx_data := [(90, [1, 2, 3, 4, 5])], rx_size := 5, rx_sackList := [(90, 95)]\<rparr>)"
    by code_simp
  then show "\<exists>b. rx_add [1, 2, 3, 4, 5] 90 (rx_set_max 10 (rx_init 0)) = Inr (True, b) \<and>
     rx_data b = [(90, [1, 2, 3, 4, 5])] \<and> rx_size b = 5"
    by (simp only: sum.inject prod.inject) simp
qed

end
