(* ===== verification/Ipv4_Address.thy ===== *)
theory Ipv4_Address
  imports Ns_Prelude
begin

text \<open>
  \<open>Ipv4Address\<close> and \<open>Ipv4Mask\<close> (\<open>src/network/utils/ipv4-address.cc\<close>, \<open>ipv4-address.h\<close>): addresses
  and masks as 32 bit words, the classification of addresses, subnet arithmetic, the byte form of an
  address and the prefix length of a mask. \<open>inet_pton\<close>, which reads the dotted form, is a parameter.
\<close>

unbundle bit_operations_syntax

section \<open>Words\<close>

text \<open>
  The bit operations of the source on 32 bit values. A shift by 32 or more is undefined in C++.
\<close>

definition shl32 :: "32 word \<Rightarrow> 32 word \<Rightarrow> 32 word result" where
  "shl32 x s = (if s < 32 then Inr (push_bit (unat s) x) else Inl Undefined_behaviour)"

definition shr32 :: "32 word \<Rightarrow> 32 word \<Rightarrow> 32 word result" where
  "shr32 x s = (if s < 32 then Inr (drop_bit (unat s) x) else Inl Undefined_behaviour)"

lemma shl32_ok: "s < 32 \<Longrightarrow> shl32 x s = Inr (push_bit (unat s) x)"
  by (simp add: shl32_def)

lemma shr32_ok: "s < 32 \<Longrightarrow> shr32 x s = Inr (drop_bit (unat s) x)"
  by (simp add: shr32_def)

section \<open>Addresses\<close>

record ipv4_address =
  ip_address :: "32 word"
  ip_initialized :: bool

definition ip_uninitialized :: ipv4_address where
  "ip_uninitialized = \<lparr>ip_address = 0x66666666, ip_initialized = False\<rparr>"

definition ip_of :: "32 word \<Rightarrow> ipv4_address" where
  "ip_of a = \<lparr>ip_address = a, ip_initialized = True\<rparr>"

text \<open>The constructor from a string: \<open>pton\<close> gives the value in host order when the string is valid.\<close>

definition ip_of_string :: "(string \<Rightarrow> 32 word option) \<Rightarrow> string \<Rightarrow> ipv4_address" where
  "ip_of_string pton s =
     (case pton s of None \<Rightarrow> \<lparr>ip_address = 0, ip_initialized = False\<rparr>
      | Some a \<Rightarrow> \<lparr>ip_address = a, ip_initialized = True\<rparr>)"

definition ip_get :: "ipv4_address \<Rightarrow> 32 word" where
  "ip_get a = ip_address a"

definition ip_set :: "32 word \<Rightarrow> ipv4_address \<Rightarrow> ipv4_address" where
  "ip_set v a = a\<lparr>ip_address := v, ip_initialized := True\<rparr>"

definition ip_set_string :: "(string \<Rightarrow> 32 word option) \<Rightarrow> string \<Rightarrow> ipv4_address \<Rightarrow> ipv4_address" where
  "ip_set_string pton s a =
     (case pton s of None \<Rightarrow> a\<lparr>ip_address := 0, ip_initialized := False\<rparr>
      | Some v \<Rightarrow> a\<lparr>ip_address := v, ip_initialized := True\<rparr>)"

definition ip_eq :: "ipv4_address \<Rightarrow> ipv4_address \<Rightarrow> bool" where
  "ip_eq a b \<longleftrightarrow> ip_address a = ip_address b"

definition ip_neq :: "ipv4_address \<Rightarrow> ipv4_address \<Rightarrow> bool" where
  "ip_neq a b \<longleftrightarrow> ip_address a \<noteq> ip_address b"

definition ip_less :: "ipv4_address \<Rightarrow> ipv4_address \<Rightarrow> bool" where
  "ip_less a b \<longleftrightarrow> ip_address a < ip_address b"

text \<open>The fixed addresses; the strings they are made from have only one value.\<close>

definition ip_zero :: ipv4_address where
  "ip_zero = ip_of 0"

definition ip_any :: ipv4_address where
  "ip_any = ip_of 0"

definition ip_broadcast :: ipv4_address where
  "ip_broadcast = ip_of 0xffffffff"

definition ip_loopback :: ipv4_address where
  "ip_loopback = ip_of 0x7f000001"

definition ip_is_any :: "ipv4_address \<Rightarrow> bool" where
  "ip_is_any a \<longleftrightarrow> ip_address a = 0x00000000"

definition ip_is_localhost :: "ipv4_address \<Rightarrow> bool" where
  "ip_is_localhost a \<longleftrightarrow> ip_address a = 0x7f000001"

definition ip_is_broadcast :: "ipv4_address \<Rightarrow> bool" where
  "ip_is_broadcast a \<longleftrightarrow> ip_address a = 0xffffffff"

definition ip_is_multicast :: "ipv4_address \<Rightarrow> bool" where
  "ip_is_multicast a \<longleftrightarrow> ip_address a \<ge> 0xe0000000 \<and> ip_address a \<le> 0xefffffff"

definition ip_is_local_multicast :: "ipv4_address \<Rightarrow> bool" where
  "ip_is_local_multicast a \<longleftrightarrow> ip_address a AND 0xffffff00 = 0xe0000000"

section \<open>The byte form\<close>

definition ip_serialize :: "ipv4_address \<Rightarrow> 8 word list" where
  "ip_serialize a =
     [ucast (drop_bit 24 (ip_address a) AND 0xff), ucast (drop_bit 16 (ip_address a) AND 0xff),
      ucast (drop_bit 8 (ip_address a) AND 0xff), ucast (drop_bit 0 (ip_address a) AND 0xff)]"

definition ip_deserialize :: "8 word list \<Rightarrow> ipv4_address result" where
  "ip_deserialize buf =
     (case buf of
        b0 # b1 # b2 # b3 # _ \<Rightarrow>
          (let v = 0 OR ucast b0;
               v = push_bit 8 v OR ucast b1;
               v = push_bit 8 v OR ucast b2;
               v = push_bit 8 v OR ucast b3
           in Inr \<lparr>ip_address = v, ip_initialized = True\<rparr>)
      | _ \<Rightarrow> Inl Undefined_behaviour)"

section \<open>Masks\<close>

type_synonym ipv4_mask = "32 word"

definition mask_default :: ipv4_mask where
  "mask_default = 0x66666666"

definition mask_zero :: ipv4_mask where
  "mask_zero = 0"

definition mask_ones :: ipv4_mask where
  "mask_ones = 0xffffffff"

definition mask_loopback :: ipv4_mask where
  "mask_loopback = 0xff000000"

definition mask_inverse :: "ipv4_mask \<Rightarrow> 32 word" where
  "mask_inverse m = NOT m"

definition mask_is_match :: "ipv4_mask \<Rightarrow> ipv4_address \<Rightarrow> ipv4_address \<Rightarrow> bool" where
  "mask_is_match m a b \<longleftrightarrow> ip_get a AND m = ip_get b AND m"

text \<open>
  \<open>std::atoi\<close> on the digits behind the slash: white space, a sign, then decimal digits. A value that
  \<open>int\<close> cannot hold is undefined.
\<close>

definition is_digit :: "char \<Rightarrow> bool" where
  "is_digit c \<longleftrightarrow> of_char c \<ge> (48 :: nat) \<and> of_char c \<le> (57 :: nat)"

definition is_space :: "char \<Rightarrow> bool" where
  "is_space c \<longleftrightarrow> c = CHR '' '' \<or> (of_char c \<ge> (9 :: nat) \<and> of_char c \<le> (13 :: nat))"

fun digits_value :: "int \<Rightarrow> string \<Rightarrow> int" where
  "digits_value v [] = v"
| "digits_value v (c # s) =
     (if is_digit c then digits_value (10 * v + (of_char c - 48)) s else v)"

definition atoi :: "string \<Rightarrow> int result" where
  "atoi s =
     (let s = dropWhile is_space s;
          v = (case s of
                 c # t \<Rightarrow> if c = CHR ''-'' then - digits_value 0 t
                          else if c = CHR ''+'' then digits_value 0 t else digits_value 0 s
               | [] \<Rightarrow> 0)
      in if - (2 ^ 31) \<le> v \<and> v < 2 ^ 31 then Inr v else Inl Undefined_behaviour)"

definition mask_of_string :: "(string \<Rightarrow> 32 word option) \<Rightarrow> string \<Rightarrow> ipv4_mask result" where
  "mask_of_string pton s =
     (case s of
        c # t \<Rightarrow>
          if c = CHR ''/'' then
            res_bind (atoi t) (\<lambda>v.
            (let plen = (of_int v :: 32 word)
             in ns_assert (plen \<le> 32)
               (if plen > 0 then shl32 0xffffffff (32 - plen) else Inr 0)))
          else (case pton s of None \<Rightarrow> Inl Aborted | Some m \<Rightarrow> Inr m)
      | [] \<Rightarrow> (case pton s of None \<Rightarrow> Inl Aborted | Some m \<Rightarrow> Inr m))"

definition ip_combine_mask :: "ipv4_mask \<Rightarrow> ipv4_address \<Rightarrow> ipv4_address" where
  "ip_combine_mask m a = ip_of (ip_get a AND m)"

definition ip_subnet_broadcast :: "ipv4_mask \<Rightarrow> ipv4_address \<Rightarrow> ipv4_address result" where
  "ip_subnet_broadcast m a =
     ns_assert (m \<noteq> mask_ones) (Inr (ip_of (ip_get a OR mask_inverse m)))"

definition ip_is_subnet_broadcast :: "ipv4_mask \<Rightarrow> ipv4_address \<Rightarrow> bool" where
  "ip_is_subnet_broadcast m a \<longleftrightarrow>
     (if m = mask_ones then False else ip_get a OR m = ip_get ip_broadcast)"

section \<open>The lowest set bit\<close>

lemma bit_push_bit_1: "bit (push_bit 1 m) k \<longleftrightarrow> 0 < k \<and> k < 32 \<and> bit m (k - 1)" for m :: "32 word"
  unfolding bit_push_bit_iff by auto

text \<open>The number of zero bits below the lowest set bit, which every loop over a mask looks for.\<close>

definition low_zeros :: "32 word \<Rightarrow> nat" where
  "low_zeros m = (LEAST n. bit m n)"

lemma low_zeros_bit:
  assumes "m \<noteq> 0"
  shows "bit m (low_zeros m)" "low_zeros m < 32" "k < low_zeros m \<Longrightarrow> \<not> bit m k"
proof -
  obtain n where n: "bit m n"
    using assms by (metis bit_eqI bit_0_eq bot_apply bot_bool_def)
  show 1: "bit m (low_zeros m)"
    unfolding low_zeros_def using n by (rule LeastI)
  show "low_zeros m < 32"
    using bit_imp_le_length [OF 1] by simp
  show "\<not> bit m k" if "k < low_zeros m"
    using not_less_Least that unfolding low_zeros_def by blast
qed

lemma low_zeros_eqI: "bit m n \<Longrightarrow> (\<And>k. k < n \<Longrightarrow> \<not> bit m k) \<Longrightarrow> low_zeros m = n"
  unfolding low_zeros_def by (rule Least_equality) (auto simp: not_less [symmetric])

lemma low_zeros_shift_right:
  assumes "m \<noteq> 0" and "\<not> bit m 0"
  shows "drop_bit 1 m \<noteq> 0" "low_zeros m = Suc (low_zeros (drop_bit 1 m))"
proof -
  obtain n where n: "low_zeros m = Suc n"
    using low_zeros_bit(1) [OF assms(1)] assms(2) by (cases "low_zeros m") auto
  have b: "bit (drop_bit 1 m) n"
    using low_zeros_bit(1) [OF assms(1)] n by (simp add: bit_drop_bit_eq)
  then show "drop_bit 1 m \<noteq> 0"
    by auto
  have "low_zeros (drop_bit 1 m) = n"
    using b low_zeros_bit(3) [OF assms(1)] n by (intro low_zeros_eqI) (auto simp: bit_drop_bit_eq)
  with n show "low_zeros m = Suc (low_zeros (drop_bit 1 m))"
    by simp
qed

lemma low_zeros_shift_left:
  assumes "m \<noteq> 0"
  shows "push_bit 1 m = 0 \<longleftrightarrow> low_zeros m = 31"
    "low_zeros m < 31 \<Longrightarrow> low_zeros (push_bit 1 m) = Suc (low_zeros m)"
proof -
  note lz = low_zeros_bit [OF assms]
  have b: "bit (push_bit 1 m) (Suc k) \<longleftrightarrow> Suc k < 32 \<and> bit m k" for k
    unfolding bit_push_bit_1 by simp
  show 2: "low_zeros (push_bit 1 m) = Suc (low_zeros m)" if "low_zeros m < 31"
  proof (rule low_zeros_eqI)
    show "bit (push_bit 1 m) (Suc (low_zeros m))"
      unfolding b using that lz(1) by simp
    show "\<not> bit (push_bit 1 m) k" if "k < Suc (low_zeros m)" for k
    proof (cases k)
      case 0
      then show ?thesis unfolding bit_push_bit_1 by simp
    next
      case (Suc j)
      then have "\<not> bit m j"
        using lz(3) \<open>k < Suc (low_zeros m)\<close> by simp
      then show ?thesis
        unfolding Suc b by simp
    qed
  qed
  show "push_bit 1 m = 0 \<longleftrightarrow> low_zeros m = 31"
  proof
    assume "push_bit 1 m = 0"
    then have "\<not> bit (push_bit 1 m) (Suc (low_zeros m))"
      unfolding \<open>push_bit 1 m = 0\<close> by simp
    with lz(1) have "\<not> Suc (low_zeros m) < 32"
      unfolding b by blast
    with lz(2) show "low_zeros m = 31"
      by simp
  next
    assume 31: "low_zeros m = 31"
    show "push_bit 1 m = 0"
    proof (rule bit_eqI)
      fix k assume "possible_bit TYPE(32 word) k"
      have "\<not> bit m (k - 1)" if "0 < k" "k < 32"
        using lz(3) [of "k - 1"] 31 that by simp
      then show "bit (push_bit 1 m) k = bit 0 k"
        unfolding bit_push_bit_1 by auto
    qed
  qed
qed

section \<open>The prefix length\<close>

function prefix_loop :: "32 word \<Rightarrow> 16 word \<Rightarrow> 16 word" where
  "prefix_loop bits tmp = (if bits \<noteq> 0 then prefix_loop (push_bit 1 bits) (tmp + 1) else tmp)"
  by pat_completeness auto
termination
proof (relation "measure (\<lambda>(bits, tmp). if bits = 0 then 0 else 32 - low_zeros bits)")
  fix bits :: "32 word" and tmp :: "16 word"
  assume "bits \<noteq> 0"
  then show "((push_bit 1 bits, tmp + 1), (bits, tmp)) \<in>
      measure (\<lambda>(bits, tmp). if bits = 0 then 0 else 32 - low_zeros bits)"
    using low_zeros_bit(2) [of bits] low_zeros_shift_left [of bits] by fastforce
qed simp

declare prefix_loop.simps [simp del]

definition mask_prefix_length :: "ipv4_mask \<Rightarrow> 16 word" where
  "mask_prefix_length m = prefix_loop m 0"

lemma prefix_loop_eq:
  "m \<noteq> 0 \<Longrightarrow> prefix_loop m t = t + of_nat (32 - low_zeros m)"
proof (induction m t rule: prefix_loop.induct)
  case (1 m t)
  note lz = low_zeros_bit [OF 1(2)] and sl = low_zeros_shift_left [OF 1(2)]
  show ?case
  proof (cases "push_bit 1 m = 0")
    case True
    then show ?thesis
      using 1(2) sl(1) by (simp add: prefix_loop.simps [of m] prefix_loop.simps [of 0])
  next
    case False
    then have lt: "low_zeros m < 31"
      using sl(1) lz(2) by auto
    then have eq: "32 - low_zeros m = Suc (32 - Suc (low_zeros m))"
      by simp
    have "prefix_loop m t = prefix_loop (push_bit 1 m) (t + 1)"
      using 1(2) by (simp add: prefix_loop.simps [of m])
    also have "\<dots> = t + 1 + of_nat (32 - Suc (low_zeros m))"
      using 1(1) [OF 1(2) False] sl(2) [OF lt] by simp
    also have "\<dots> = t + of_nat (32 - low_zeros m)"
      by (simp only: eq of_nat_Suc ac_simps)
    finally show ?thesis .
  qed
qed

lemma mask_prefix_length_eq:
  "mask_prefix_length m = (if m = 0 then 0 else of_nat (32 - low_zeros m))"
  by (simp add: mask_prefix_length_def prefix_loop_eq prefix_loop.simps [of 0])

section \<open>Bytes of a word\<close>

lemma ucast_and_ff: "(ucast (x AND 0xff) :: 8 word) = ucast x" for x :: "32 word"
proof -
  have "(0xff :: 32 word) = mask 8"
    by (simp add: mask_eq_exp_minus_1)
  then have "x AND 0xff = take_bit 8 x"
    by (simp only: take_bit_eq_mask)
  then show ?thesis
    by (auto simp: bit_eq_iff bit_simps)
qed

lemma bit_byte_of:
  "bit (ucast (drop_bit n v) :: 8 word) k \<longleftrightarrow> k < 8 \<and> bit v (n + k)" for v :: "32 word"
  by (auto simp: bit_simps)

lemma bit_push_byte:
  "bit (push_bit 8 x OR ucast b) k \<longleftrightarrow> k < 32 \<and> (if k < 8 then bit b k else bit x (k - 8))"
  for x :: "32 word" and b :: "8 word"
  using bit_imp_le_length [of b k] by (auto simp: bit_simps)

lemma bit_first_byte: "bit (0 OR ucast b :: 32 word) k \<longleftrightarrow> bit b k" for b :: "8 word"
  using bit_imp_le_length [of b k] by (auto simp: bit_simps)

lemmas bit_bytes = ucast_and_ff bit_byte_of bit_push_byte bit_first_byte

lemma bytes_of_word:
  fixes v :: "32 word"
  shows "push_bit 8 (push_bit 8 (push_bit 8
      (0 OR ucast (ucast (drop_bit 24 v AND 0xff) :: 8 word)) OR
      ucast (ucast (drop_bit 16 v AND 0xff) :: 8 word)) OR
      ucast (ucast (drop_bit 8 v AND 0xff) :: 8 word)) OR
      ucast (ucast (drop_bit 0 v AND 0xff) :: 8 word) = v"
  unfolding bit_eq_iff [of _ v] bit_bytes
proof (rule allI, goal_cases)
  case (1 n)
  consider "n < 8" | "8 \<le> n" "n < 16" | "16 \<le> n" "n < 24" | "24 \<le> n"
    by linarith
  then show ?case
    using bit_imp_le_length [of v n] by cases auto
qed

lemma word_of_bytes:
  fixes b0 b1 b2 b3 :: "8 word"
  defines "v \<equiv> push_bit 8 (push_bit 8 (push_bit 8 (0 OR ucast b0 :: 32 word) OR ucast b1)
      OR ucast b2) OR ucast b3"
  shows "ucast (drop_bit 24 v AND 0xff) = b0" "ucast (drop_bit 16 v AND 0xff) = b1"
    "ucast (drop_bit 8 v AND 0xff) = b2" "ucast (drop_bit 0 v AND 0xff) = b3"
  unfolding bit_eq_iff bit_bytes v_def by (auto dest: bit_imp_le_length)

section \<open>Prefix masks\<close>

lemma same_upper_bits:
  fixes a b :: "32 word"
  shows "(\<forall>k < 32. n \<le> k \<longrightarrow> bit a k = bit b k) \<longleftrightarrow> (\<forall>k. bit a (n + k) = bit b (n + k))"
proof
  assume l: "\<forall>k < 32. n \<le> k \<longrightarrow> bit a k = bit b k"
  show "\<forall>k. bit a (n + k) = bit b (n + k)"
  proof
    fix k
    show "bit a (n + k) = bit b (n + k)"
    proof (cases "n + k < 32")
      case True
      then show ?thesis using l by simp
    next
      case False
      then show ?thesis
        using bit_imp_le_length [of a "n + k"] bit_imp_le_length [of b "n + k"] by auto
    qed
  qed
next
  assume r: "\<forall>k. bit a (n + k) = bit b (n + k)"
  show "\<forall>k < 32. n \<le> k \<longrightarrow> bit a k = bit b k"
    using r by (metis le_add_diff_inverse)
qed

lemma bit_prefix_mask:
  "bit (push_bit n (0xffffffff :: 32 word)) k \<longleftrightarrow> n \<le> k \<and> k < 32"
proof -
  have ones: "(0xffffffff :: 32 word) = - 1"
    by simp
  have "bit (push_bit n (- 1 :: 32 word)) k \<longleftrightarrow> n \<le> k \<and> k < 32"
    unfolding bit_push_bit_iff by auto
  then show ?thesis
    unfolding ones .
qed

lemma low_zeros_prefix_mask:
  "n < 32 \<Longrightarrow> low_zeros (push_bit n (0xffffffff :: 32 word)) = n"
  by (rule low_zeros_eqI) (simp_all only: bit_prefix_mask, simp_all)

lemma and_prefix_mask_eq_iff:
  fixes a b :: "32 word"
  shows "a AND push_bit n 0xffffffff = b AND push_bit n 0xffffffff \<longleftrightarrow> drop_bit n a = drop_bit n b"
proof -
  have "a AND push_bit n 0xffffffff = b AND push_bit n 0xffffffff \<longleftrightarrow>
      (\<forall>k < 32. n \<le> k \<longrightarrow> bit a k = bit b k)"
    unfolding bit_eq_iff bit_and_iff bit_prefix_mask by auto
  also have "\<dots> \<longleftrightarrow> (\<forall>k. bit a (n + k) = bit b (n + k))"
    by (rule same_upper_bits)
  also have "\<dots> \<longleftrightarrow> drop_bit n a = drop_bit n b"
  proof
    assume "\<forall>k. bit a (n + k) = bit b (n + k)"
    then show "drop_bit n a = drop_bit n b"
      by (intro bit_eqI) (simp add: bit_drop_bit_eq)
  next
    assume "drop_bit n a = drop_bit n b"
    then have "bit (drop_bit n a) k = bit (drop_bit n b) k" for k
      by (rule arg_cong)
    then show "\<forall>k. bit a (n + k) = bit b (n + k)"
      by (simp add: bit_drop_bit_eq)
  qed
  finally show ?thesis .
qed

lemma mask_of_slash_string:
  assumes "atoi t = Inr (int n)" and "n \<le> 32"
  shows "mask_of_string pton (CHR ''/'' # t) = Inr (if n = 0 then 0 else push_bit (32 - n) 0xffffffff)"
proof -
  have n: "unat (of_nat n :: 32 word) = n"
    using assms(2) by (simp add: unat_of_nat)
  have le: "(of_nat n :: 32 word) \<le> 32"
    using assms(2) n by (simp add: word_le_nat_alt)
  have pos: "(of_nat n :: 32 word) > 0 \<longleftrightarrow> n > 0"
    using n by (simp add: word_less_nat_alt)
  have diff: "unat (32 - of_nat n :: 32 word) = 32 - n"
    using le n by (simp add: unat_sub del: of_nat_diff)
  have lt: "(32 - of_nat n :: 32 word) < 32" if "n > 0"
    using diff that assms(2) by (simp add: word_less_nat_alt del: of_nat_diff)
  show ?thesis
    using assms(1) le pos lt diff by (simp add: mask_of_string_def Let_def shl32_def del: of_nat_diff)
qed

section \<open>Properties\<close>

text \<open>The byte form of an address and the address determine each other.\<close>

theorem ip_bytes_roundtrip:
  "ip_deserialize (ip_serialize a) = Inr (ip_of (ip_get a)) \<and>
   map_sum id ip_serialize (ip_deserialize [b0, b1, b2, b3]) = Inr [b0, b1, b2, b3]"
proof
  show "ip_deserialize (ip_serialize a) = Inr (ip_of (ip_get a))"
    by (simp only: ip_deserialize_def ip_serialize_def ip_of_def ip_get_def Let_def list.case
        bytes_of_word)
  show "map_sum id ip_serialize (ip_deserialize [b0, b1, b2, b3]) = Inr [b0, b1, b2, b3]"
    by (simp only: ip_deserialize_def ip_serialize_def Let_def list.case map_sum.simps
        ipv4_address.simps word_of_bytes)
qed

text \<open>A mask given as a prefix length \<open>/n\<close> has exactly the upper \<open>n\<close> bits set, \<open>GetPrefixLength\<close> gives
  \<open>n\<close> back, and two addresses match under it exactly when their upper \<open>n\<close> bits agree.\<close>

theorem prefix_mask_roundtrip:
  assumes "atoi t = Inr (int n)" and "n \<le> 32"
  shows "\<exists>m. mask_of_string pton (CHR ''/'' # t) = Inr m \<and> mask_prefix_length m = of_nat n \<and>
    (\<forall>k < 32. bit m k \<longleftrightarrow> 32 - n \<le> k) \<and>
    (\<forall>a b. mask_is_match m a b \<longleftrightarrow> drop_bit (32 - n) (ip_get a) = drop_bit (32 - n) (ip_get b))"
proof (cases "n = 0")
  case True
  then show ?thesis
    using mask_of_slash_string [OF assms, of pton]
    by (simp add: mask_prefix_length_eq mask_is_match_def)
next
  case False
  have ne: "push_bit (32 - n) (0xffffffff :: 32 word) \<noteq> 0"
  proof
    assume "push_bit (32 - n) (0xffffffff :: 32 word) = 0"
    then have "\<not> bit (push_bit (32 - n) (0xffffffff :: 32 word)) 31"
      by (simp only:) simp
    with False show False
      unfolding bit_prefix_mask by simp
  qed
  have "low_zeros (push_bit (32 - n) (0xffffffff :: 32 word)) = 32 - n"
    using False by (simp add: low_zeros_prefix_mask)
  then have "mask_prefix_length (push_bit (32 - n) 0xffffffff) = of_nat n"
    using ne assms(2) by (simp only: mask_prefix_length_eq) simp
  then show ?thesis
    using mask_of_slash_string [OF assms, of pton] False
    unfolding mask_is_match_def
    by (intro exI [of _ "push_bit (32 - n) 0xffffffff"])
      (simp only: bit_prefix_mask and_prefix_mask_eq_iff, simp)
qed

theorem prefix_mask_roundtrip_witness:
  "\<exists>m. mask_of_string (\<lambda>_. None) ''/24'' = Inr m \<and> mask_prefix_length m = 24"
proof -
  have "atoi ''24'' = Inr (int 24)"
    by code_simp
  from prefix_mask_roundtrip [OF this, of "\<lambda>_. None"] show ?thesis
    by auto
qed

end
