(* ===== verification/Ipv4_Address_Generator.thy ===== *)
theory Ipv4_Address_Generator
  imports Ipv4_Address
begin

text \<open>
  \<open>Ipv4AddressGeneratorImpl\<close> (\<open>src/internet/model/ipv4-address-generator.cc\<close>) hands out networks and
  addresses and records every address in a list of ranges, and \<open>Ipv4AddressHelper\<close>
  (\<open>src/internet/helper/ipv4-address-helper.cc\<close>) numbers the interfaces of a topology on top of it.
  The static functions of \<open>Ipv4AddressGenerator\<close> only forward to the one object of the simulation. The
  ranges are related to the set of addresses they hold; the two loops over a mask are related to the
  prefix length of the mask.
\<close>

section \<open>State\<close>

record net_state =
  ns_mask :: "32 word"
  ns_shift :: "32 word"
  ns_network :: "32 word"
  ns_addr :: "32 word"
  ns_addrMax :: "32 word"

type_synonym entry = "32 word \<times> 32 word"

record generator =
  gen_netTable :: "net_state list"
  gen_entries :: "entry list"
  gen_test :: bool

text \<open>The loop of \<open>Reset\<close> that fills the table of the 32 masks.\<close>

function reset_loop :: "nat \<Rightarrow> 32 word \<Rightarrow> net_state list" where
  "reset_loop i bits =
     (if i < 32 then
        \<lparr>ns_mask = bits, ns_shift = 32 - of_nat i, ns_network = 1, ns_addr = 1, ns_addrMax = NOT bits\<rparr>
          # reset_loop (i + 1) (drop_bit 1 bits OR 0x80000000)
      else [])"
  by pat_completeness auto
termination
  by (relation "measure (\<lambda>(i, _). 32 - i)") auto

declare reset_loop.simps [simp del]

definition gen_reset :: "generator" where
  "gen_reset = \<lparr>gen_netTable = reset_loop 0 0, gen_entries = [], gen_test = False\<rparr>"

definition gen_test_mode :: "generator \<Rightarrow> generator" where
  "gen_test_mode g = g\<lparr>gen_test := True\<rparr>"

section \<open>Masks and the table\<close>

function mask_index_loop :: "32 word \<Rightarrow> 32 word \<Rightarrow> 32 word result" where
  "mask_index_loop i maskBits =
     (if i < 32 then
        (if bit maskBits 0 then
           (let index = 32 - i in ns_abort_if (\<not> (index > 0 \<and> index < 32)) (Inr index))
         else mask_index_loop (i + 1) (drop_bit 1 maskBits))
      else Inl Assert_failed)"
  by pat_completeness auto
termination
proof (relation "measure (\<lambda>(i, _). 32 - unat i)")
  fix i maskBits :: "32 word"
  assume "i < 32"
  then have "unat i < 32" and "unat (i + 1) = Suc (unat i)"
    by (simp_all add: word_less_nat_alt unat_word_ariths)
  then show "((i + 1, drop_bit 1 maskBits), (i, maskBits)) \<in> measure (\<lambda>(i, _). 32 - unat i)"
    by simp
qed simp

declare mask_index_loop.simps [simp del]

definition mask_to_index :: "ipv4_mask \<Rightarrow> 32 word result" where
  "mask_to_index m = mask_index_loop 0 m"

definition gen_state :: "32 word \<Rightarrow> generator \<Rightarrow> net_state result" where
  "gen_state index g =
     (if unat index < length (gen_netTable g) then Inr (gen_netTable g ! unat index)
      else Inl Undefined_behaviour)"

definition gen_put :: "32 word \<Rightarrow> net_state \<Rightarrow> generator \<Rightarrow> generator" where
  "gen_put index n g = g\<lparr>gen_netTable := (gen_netTable g)[unat index := n]\<rparr>"

definition gen_init :: "ipv4_address \<Rightarrow> ipv4_mask \<Rightarrow> ipv4_address \<Rightarrow> generator \<Rightarrow> generator result" where
  "gen_init net m addr g =
     (let maskBits = m; netBits = ip_get net; addrBits = ip_get addr
      in ns_abort_if (netBits AND NOT maskBits \<noteq> 0)
          (ns_abort_if (addrBits AND maskBits \<noteq> 0)
            (res_bind (mask_to_index m) (\<lambda>index.
             res_bind (gen_state index g) (\<lambda>n.
             res_bind (shr32 netBits (ns_shift n)) (\<lambda>network.
             (let n1 = n\<lparr>ns_network := network\<rparr>
              in ns_abort_if (\<not> addrBits \<le> ns_addrMax n1)
                  (Inr (gen_put index (n1\<lparr>ns_addr := addrBits\<rparr>) g)))))))))"

definition gen_network :: "ipv4_mask \<Rightarrow> generator \<Rightarrow> ipv4_address result" where
  "gen_network m g =
     res_bind (mask_to_index m) (\<lambda>index.
     res_bind (gen_state index g) (\<lambda>n.
     res_map ip_of (shl32 (ns_network n) (ns_shift n))))"

definition gen_next_network :: "ipv4_mask \<Rightarrow> generator \<Rightarrow> (ipv4_address \<times> generator) result" where
  "gen_next_network m g =
     res_bind (mask_to_index m) (\<lambda>index.
     res_bind (gen_state index g) (\<lambda>n.
     (let n1 = n\<lparr>ns_network := ns_network n + 1\<rparr>
      in res_map (\<lambda>a. (ip_of a, gen_put index n1 g)) (shl32 (ns_network n1) (ns_shift n1)))))"

definition gen_init_address :: "ipv4_address \<Rightarrow> ipv4_mask \<Rightarrow> generator \<Rightarrow> generator result" where
  "gen_init_address addr m g =
     res_bind (mask_to_index m) (\<lambda>index.
     res_bind (gen_state index g) (\<lambda>n.
     (let addrBits = ip_get addr
      in ns_abort_if (\<not> addrBits \<le> ns_addrMax n) (Inr (gen_put index (n\<lparr>ns_addr := addrBits\<rparr>) g)))))"

definition gen_address :: "ipv4_mask \<Rightarrow> generator \<Rightarrow> ipv4_address result" where
  "gen_address m g =
     res_bind (mask_to_index m) (\<lambda>index.
     res_bind (gen_state index g) (\<lambda>n.
     res_map (\<lambda>net. ip_of (net OR ns_addr n)) (shl32 (ns_network n) (ns_shift n))))"

section \<open>Recording addresses\<close>

text \<open>
  The loop of \<open>AddAllocated\<close>. A collision ends the program unless the test mode is on.
\<close>

definition collision :: "bool \<Rightarrow> entry list \<Rightarrow> (bool \<times> entry list) result" where
  "collision test es = ns_abort_if (\<not> test) (Inr (False, es))"

fun add_entry :: "bool \<Rightarrow> 32 word \<Rightarrow> entry list \<Rightarrow> (bool \<times> entry list) result" where
  "add_entry test addr [] = Inr (True, [(addr, addr)])"
| "add_entry test addr ((low, high) # es) =
     (if addr \<ge> low \<and> addr \<le> high then collision test ((low, high) # es)
      else if addr < low - 1 then Inr (True, (addr, addr) # (low, high) # es)
      else if addr = high + 1 then
        (if es \<noteq> [] \<and> addr = fst (hd es) then collision test ((low, high) # es)
         else Inr (True, (low, addr) # es))
      else if addr = low - 1 then Inr (True, (addr, high) # es)
      else res_map (apsnd (Cons (low, high))) (add_entry test addr es))"

definition gen_add_allocated :: "ipv4_address \<Rightarrow> generator \<Rightarrow> (bool \<times> generator) result" where
  "gen_add_allocated address g =
     (let addr = ip_get address
      in ns_abort_if (addr = 0)
          (res_map (apsnd (\<lambda>es. g\<lparr>gen_entries := es\<rparr>)) (add_entry (gen_test g) addr (gen_entries g))))"

definition gen_next_address :: "ipv4_mask \<Rightarrow> generator \<Rightarrow> (ipv4_address \<times> generator) result" where
  "gen_next_address m g =
     res_bind (mask_to_index m) (\<lambda>index.
     res_bind (gen_state index g) (\<lambda>n.
     ns_abort_if (\<not> ns_addr n \<le> ns_addrMax n)
      (res_bind (shl32 (ns_network n) (ns_shift n)) (\<lambda>net.
       (let addr = ip_of (net OR ns_addr n);
            g1 = gen_put index (n\<lparr>ns_addr := ns_addr n + 1\<rparr>) g
        in res_map (\<lambda>(_, g2). (addr, g2)) (gen_add_allocated addr g1))))))"

fun entries_contain :: "32 word \<Rightarrow> entry list \<Rightarrow> bool" where
  "entries_contain addr [] = False"
| "entries_contain addr ((low, high) # es) =
     (if addr \<ge> low \<and> addr \<le> high then True else entries_contain addr es)"

definition gen_is_allocated :: "ipv4_address \<Rightarrow> generator \<Rightarrow> bool result" where
  "gen_is_allocated address g =
     (let addr = ip_get address
      in ns_abort_if (addr = 0) (Inr (entries_contain addr (gen_entries g))))"

fun entries_network_free :: "ipv4_address \<Rightarrow> ipv4_mask \<Rightarrow> entry list \<Rightarrow> bool" where
  "entries_network_free address m [] = True"
| "entries_network_free address m ((l, h) # es) =
     (let low = ip_of l; high = ip_of h
      in if ip_eq address (ip_combine_mask m low) \<or> ip_eq address (ip_combine_mask m high) then False
         else entries_network_free address m es)"

definition gen_is_network_allocated :: "ipv4_address \<Rightarrow> ipv4_mask \<Rightarrow> generator \<Rightarrow> bool result" where
  "gen_is_network_allocated address m g =
     ns_abort_if (\<not> ip_eq address (ip_combine_mask m address))
       (Inr (entries_network_free address m (gen_entries g)))"

section \<open>The helper\<close>

record address_helper =
  ah_network :: "32 word"
  ah_mask :: "32 word"
  ah_address :: "32 word"
  ah_base :: "32 word"
  ah_shift :: "32 word"
  ah_max :: "32 word"

definition ah_default :: address_helper where
  "ah_default =
     \<lparr>ah_network = 0xffffffff, ah_mask = 0, ah_address = 0xffffffff, ah_base = 0xffffffff,
      ah_shift = 0xffffffff, ah_max = 0xffffffff\<rparr>"

function num_address_bits_loop :: "32 word \<Rightarrow> 32 word \<Rightarrow> 32 word result" where
  "num_address_bits_loop i maskBits =
     (if i < 32 then
        (if bit maskBits 0 then Inr i else num_address_bits_loop (i + 1) (drop_bit 1 maskBits))
      else Inl Assert_failed)"
  by pat_completeness auto
termination
proof (relation "measure (\<lambda>(i, _). 32 - unat i)")
  fix i maskBits :: "32 word"
  assume "i < 32"
  then have "unat i < 32" and "unat (i + 1) = Suc (unat i)"
    by (simp_all add: word_less_nat_alt unat_word_ariths)
  then show "((i + 1, drop_bit 1 maskBits), (i, maskBits)) \<in> measure (\<lambda>(i, _). 32 - unat i)"
    by simp
qed simp

declare num_address_bits_loop.simps [simp del]

definition num_address_bits :: "32 word \<Rightarrow> 32 word result" where
  "num_address_bits m = num_address_bits_loop 0 m"

text \<open>
  \<open>(1 << m_shift) - 2\<close> is computed in \<open>int\<close>: for a shift by 31 the difference overflows.
\<close>

definition int_max_address :: "32 word \<Rightarrow> 32 word result" where
  "int_max_address s = (if s < 31 then Inr (push_bit (unat s) 1 - 2) else Inl Undefined_behaviour)"

definition ah_set_base ::
    "ipv4_address \<Rightarrow> ipv4_mask \<Rightarrow> ipv4_address \<Rightarrow> address_helper \<Rightarrow> address_helper result" where
  "ah_set_base network m address h =
     (let h1 = h\<lparr>ah_network := ip_get network, ah_mask := m, ah_address := ip_get address,
                 ah_base := ip_get address\<rparr>
      in ns_assert (ah_network h1 AND NOT (ah_mask h1) = 0)
          (res_bind (num_address_bits (ah_mask h1)) (\<lambda>s.
           res_bind (int_max_address s) (\<lambda>mx.
           ns_assert (s \<le> 32)
             (res_map (\<lambda>net. h1\<lparr>ah_shift := s, ah_max := mx, ah_network := net\<rparr>)
               (shr32 (ah_network h1) s))))))"

definition ah_new_address ::
    "address_helper \<Rightarrow> generator \<Rightarrow> (ipv4_address \<times> address_helper \<times> generator) result" where
  "ah_new_address h g =
     ns_assert (ah_address h \<le> ah_max h)
       (res_bind (shl32 (ah_network h) (ah_shift h)) (\<lambda>net.
        (let addr = ip_of (net OR ah_address h);
             h1 = h\<lparr>ah_address := ah_address h + 1\<rparr>
         in res_map (\<lambda>(_, g1). (addr, h1, g1)) (gen_add_allocated addr g))))"

definition ah_new_network :: "address_helper \<Rightarrow> (ipv4_address \<times> address_helper) result" where
  "ah_new_network h =
     (let h1 = h\<lparr>ah_network := ah_network h + 1, ah_address := ah_base h\<rparr>
      in res_map (\<lambda>a. (ip_of a, h1)) (shl32 (ah_network h1) (ah_shift h1)))"

section \<open>The ranges as a set\<close>

fun entries_set :: "entry list \<Rightarrow> 32 word set" where
  "entries_set [] = {}"
| "entries_set ((low, high) # es) = {low..high} \<union> entries_set es"

definition entries_ok :: "entry list \<Rightarrow> bool" where
  "entries_ok es \<longleftrightarrow> sorted_wrt (\<lambda>e f. snd e < fst f) es \<and> (\<forall>e \<in> set es. 0 < fst e \<and> fst e \<le> snd e)"

lemma entries_ok_simps [simp]:
  "entries_ok []"
  "entries_ok ((l, h) # es) \<longleftrightarrow> 0 < l \<and> l \<le> h \<and> (\<forall>e \<in> set es. h < fst e) \<and> entries_ok es"
  by (auto simp: entries_ok_def)

lemma entries_set_iff: "a \<in> entries_set es \<longleftrightarrow> (\<exists>e \<in> set es. fst e \<le> a \<and> a \<le> snd e)"
  by (induction es rule: entries_set.induct) auto

lemma entries_contain_iff: "entries_contain a es \<longleftrightarrow> a \<in> entries_set es"
  by (induction a es rule: entries_contain.induct) auto

lemma unat_pred32: "0 < l \<Longrightarrow> unat (l - 1) = unat l - 1" for l :: "32 word"
  using word_gt_0 [of l] by (metis unat_minus_one)

lemma unat_succ32: "h + 1 \<noteq> 0 \<Longrightarrow> unat (h + 1) = Suc (unat h)" for h :: "32 word"
  by (metis unatSuc add.commute)

lemma below_range:
  fixes a l h :: "32 word"
  assumes "0 < l" "l \<le> h" "\<not> (l \<le> a \<and> a \<le> h)" "\<not> a < l - 1" "a \<noteq> l - 1"
  shows "h < a"
  using assms unat_pred32 [OF assms(1)]
  by (auto simp: word_less_nat_alt word_le_nat_alt unat_eq_nat_uint [symmetric] word_unat_eq_iff)

lemma add_entry_collision:
  assumes "entries_ok es" and "0 < a" and "a \<in> entries_set es"
  shows "add_entry test a es = (if test then Inr (False, es) else Inl Aborted)"
  using assms
proof (induction es)
  case Nil
  then show ?case by simp
next
  case (Cons e es)
  obtain l h where e: "e = (l, h)"
    by (cases e)
  note ok = Cons.prems(1) [unfolded e]
  show ?case
  proof (cases "l \<le> a \<and> a \<le> h")
    case True
    then show ?thesis
      by (simp add: e collision_def)
  next
    case False
    with Cons.prems(3) have a: "a \<in> entries_set es"
      by (auto simp: e)
    then have "h < a"
      using ok by (auto simp: entries_set_iff intro: order_less_le_trans)
    then have na: "\<not> a < l - 1" "a \<noteq> l - 1"
      using ok unat_pred32 [of l] by (auto simp: word_less_nat_alt word_le_nat_alt)
    show ?thesis
    proof (cases "a = h + 1")
      case False
      then show ?thesis
        using na Cons.IH [OF _ Cons.prems(2) a] ok \<open>\<not> (l \<le> a \<and> a \<le> h)\<close>
        by (cases test) (auto simp: e)
    next
      case True
      from a obtain f where f: "f \<in> set es" "fst f \<le> a" "a \<le> snd f"
        by (auto simp: entries_set_iff)
      obtain d ds where es: "es = d # ds"
        using f(1) by (cases es) auto
      have "h < fst d"
        using ok es by simp
      then have "a \<le> fst d"
        using unat_succ32 [of h] Cons.prems(2) unfolding True word_less_nat_alt word_le_nat_alt
        by (metis Suc_leI less_nat_zero_code unat_0)
      moreover have "fst d \<le> fst f"
        using ok f(1) unfolding es by (cases d) (auto dest: order_less_imp_le intro: order_trans)
      ultimately have "a = fst d"
        using f(2) by simp
      then show ?thesis
        using True na \<open>\<not> (l \<le> a \<and> a \<le> h)\<close> by (simp add: e es collision_def)
    qed
  qed
qed

lemma add_entry_fresh:
  assumes "entries_ok es" and "0 < a" and "a \<notin> entries_set es"
  shows "\<exists>es'. add_entry test a es = Inr (True, es') \<and> entries_ok es' \<and>
    entries_set es' = insert a (entries_set es) \<and>
    (\<forall>b. b < a \<and> (\<forall>e \<in> set es. b < fst e) \<longrightarrow> (\<forall>e \<in> set es'. b < fst e))"
  using assms
proof (induction es)
  case Nil
  then show ?case by auto
next
  case (Cons e es)
  obtain l h where e: "e = (l, h)"
    by (cases e)
  note ok = Cons.prems(1) [unfolded e]
  have out: "\<not> (l \<le> a \<and> a \<le> h)" and fresh: "a \<notin> entries_set es"
    using Cons.prems(3) by (auto simp: e)
  show ?case
  proof (cases "a < l - 1")
    case True
    then have "a < l"
      using ok unat_pred32 [of l] by (auto simp: word_less_nat_alt)
    then have "\<forall>f \<in> set es. a < fst f"
      using ok by (auto intro: order_less_le_trans order_less_trans)
    then show ?thesis
      using True out ok Cons.prems(2) \<open>a < l\<close> by (auto simp: e)
  next
    case nb: False
    show ?thesis
    proof (cases "a = h + 1")
      case True
      have u: "unat a = Suc (unat h)"
        using True Cons.prems(2) unat_succ32 [of h] by auto
      have above: "a < fst f" if f: "f \<in> set es" for f
      proof -
        have "h < fst f"
          using ok f by simp
        moreover have "a \<noteq> fst f"
          using fresh f Cons.prems(1) by (auto simp: entries_set_iff entries_ok_def)
        ultimately show ?thesis
          using u by (auto simp: word_less_nat_alt word_unat_eq_iff)
      qed
      then have "\<not> (es \<noteq> [] \<and> a = fst (hd es))"
        by (metis list.set_sel(1) order_less_irrefl)
      then have "add_entry test a (e # es) = Inr (True, (l, a) # es)"
        using True out nb by (auto simp: e)
      moreover have "{l..a} = insert a {l..h}"
        using u ok by (auto simp: word_le_nat_alt word_unat_eq_iff)
      moreover have "l \<le> a"
        using u ok by (simp add: word_le_nat_alt)
      ultimately show ?thesis
        using ok above by (auto simp: e)
    next
      case nt: False
      show ?thesis
      proof (cases "a = l - 1")
        case True
        have u: "unat l = Suc (unat a)"
          using True ok unat_pred32 [of l] by (auto simp: word_less_nat_alt)
        have "{a..h} = insert a {l..h}"
          using u ok by (auto simp: word_le_nat_alt word_unat_eq_iff)
        moreover have "a \<le> h"
          using u ok by (simp add: word_le_nat_alt)
        ultimately show ?thesis
          using True nt nb out ok Cons.prems(2) by (auto simp: e)
      next
        case False
        have "h < a"
          using below_range [OF _ _ out nb False] ok by simp
        obtain es' where es': "add_entry test a es = Inr (True, es')" "entries_ok es'"
          "entries_set es' = insert a (entries_set es)"
          "\<forall>b. b < a \<and> (\<forall>e \<in> set es. b < fst e) \<longrightarrow> (\<forall>e \<in> set es'. b < fst e)"
          using Cons.IH [OF _ Cons.prems(2) fresh] ok by auto
        have "add_entry test a (e # es) = Inr (True, (l, h) # es')"
          using False nt nb out es'(1) by (auto simp: e)
        moreover have "\<forall>e \<in> set es'. h < fst e"
          using es'(4) \<open>h < a\<close> ok by auto
        ultimately show ?thesis
          using ok es' by (auto simp: e)
      qed
    qed
  qed
qed

section \<open>Masks\<close>

lemma bit_drop_bit_1: "bit (drop_bit 1 m) k \<longleftrightarrow> bit m (Suc k)" for m :: "32 word"
  by (simp add: bit_drop_bit_eq)

lemma mask_index_loop_eq:
  assumes "m \<noteq> 0" and "unat i + low_zeros m < 32"
  shows "mask_index_loop i m =
    ns_abort_if (unat i + low_zeros m = 0) (Inr (of_nat (32 - (unat i + low_zeros m))))"
  using assms
proof (induction i m rule: mask_index_loop.induct)
  case (1 i m)
  have i: "i < 32"
    using "1.prems"(2) by (simp add: word_less_nat_alt)
  show ?case
  proof (cases "bit m 0")
    case True
    then have lz: "low_zeros m = 0"
      by (intro low_zeros_eqI) auto
    have eq: "32 - i = of_nat (32 - unat i)"
      using i by (simp add: of_nat_diff word_less_nat_alt)
    have u: "unat (of_nat (32 - unat i) :: 32 word) = 32 - unat i"
      by (simp add: unat_of_nat del: of_nat_diff)
    have "of_nat (32 - unat i) > (0 :: 32 word) \<and> of_nat (32 - unat i) < (32 :: 32 word) \<longleftrightarrow> unat i \<noteq> 0"
      using i unfolding word_less_nat_alt u by auto
    moreover have "mask_index_loop i m =
        ns_abort_if (\<not> (of_nat (32 - unat i) > (0 :: 32 word) \<and> of_nat (32 - unat i) < (32 :: 32 word)))
          (Inr (of_nat (32 - unat i)))"
      unfolding mask_index_loop.simps [of i m] Let_def eq using True i by simp
    ultimately show ?thesis
      using lz by (simp del: of_nat_diff)
  next
    case False
    note sh = low_zeros_shift_right [OF "1.prems"(1) False]
    have u: "unat (i + 1) = Suc (unat i)"
      using i by (simp add: word_less_nat_alt unat_word_ariths)
    have "mask_index_loop i m = mask_index_loop (i + 1) (drop_bit 1 m)"
      using i False by (simp add: mask_index_loop.simps [of i m])
    also have "\<dots> = ns_abort_if (unat (i + 1) + low_zeros (drop_bit 1 m) = 0)
        (Inr (of_nat (32 - (unat (i + 1) + low_zeros (drop_bit 1 m)))))"
      using "1.prems"(2) sh u by (intro "1.IH" [OF i False]) simp_all
    finally show ?thesis
      using sh(2) u by (simp del: of_nat_diff)
  qed
qed

lemma mask_index_loop_zero: "mask_index_loop i 0 = Inl Assert_failed"
proof (induction i "0 :: 32 word" rule: mask_index_loop.induct)
  case (1 i)
  then show ?case
    by (simp add: mask_index_loop.simps [of i])
qed

lemma mask_to_index_eq:
  "mask_to_index m =
    (if m = 0 then Inl Assert_failed
     else if bit m 0 then Inl Aborted else Inr (of_nat (32 - low_zeros m)))"
proof (cases "m = 0")
  case True
  then show ?thesis
    by (simp add: mask_to_index_def mask_index_loop_zero)
next
  case False
  have "low_zeros m = 0 \<longleftrightarrow> bit m 0"
    using low_zeros_bit [OF False] by (metis gr_zeroI low_zeros_eqI not_less_zero)
  then show ?thesis
    using False mask_index_loop_eq [OF False, of 0] low_zeros_bit(2) [OF False]
    by (auto simp: mask_to_index_def ns_abort_if_def)
qed

lemma num_address_bits_loop_eq:
  assumes "m \<noteq> 0" and "unat i + low_zeros m < 32"
  shows "num_address_bits_loop i m = Inr (of_nat (unat i + low_zeros m))"
  using assms
proof (induction i m rule: num_address_bits_loop.induct)
  case (1 i m)
  have i: "i < 32"
    using "1.prems"(2) by (simp add: word_less_nat_alt)
  show ?case
  proof (cases "bit m 0")
    case True
    then have "low_zeros m = 0"
      by (intro low_zeros_eqI) auto
    then show ?thesis
      using True i by (simp add: num_address_bits_loop.simps [of i m])
  next
    case False
    note sh = low_zeros_shift_right [OF "1.prems"(1) False]
    have u: "unat (i + 1) = Suc (unat i)"
      using i by (simp add: word_less_nat_alt unat_word_ariths)
    have "num_address_bits_loop i m = num_address_bits_loop (i + 1) (drop_bit 1 m)"
      using i False by (simp add: num_address_bits_loop.simps [of i m])
    also have "\<dots> = Inr (of_nat (unat (i + 1) + low_zeros (drop_bit 1 m)))"
      using "1.prems"(2) sh u by (intro "1.IH" [OF i False]) simp_all
    finally show ?thesis
      using sh(2) u by (simp del: of_nat_Suc of_nat_add)
  qed
qed

lemma num_address_bits_loop_zero: "num_address_bits_loop i 0 = Inl Assert_failed"
proof (induction i "0 :: 32 word" rule: num_address_bits_loop.induct)
  case (1 i)
  then show ?case
    by (simp add: num_address_bits_loop.simps [of i])
qed

lemma num_address_bits_eq:
  "num_address_bits m = (if m = 0 then Inl Assert_failed else Inr (of_nat (low_zeros m)))"
  using num_address_bits_loop_eq [of m 0] low_zeros_bit(2) [of m]
  by (auto simp: num_address_bits_def num_address_bits_loop_zero)

section \<open>The table\<close>

definition table_ok :: "net_state list \<Rightarrow> bool" where
  "table_ok t \<longleftrightarrow> length t = 32 \<and>
     (\<forall>i < 32. ns_shift (t ! i) = 32 - of_nat i \<and> ns_addrMax (t ! i) = mask (32 - i))"

lemma bit_msb32: "bit (0x80000000 :: 32 word) k \<longleftrightarrow> k = 31"
proof -
  have "(0x80000000 :: 32 word) = push_bit 31 1"
    by simp
  then have "bit (0x80000000 :: 32 word) k \<longleftrightarrow> bit (push_bit 31 1 :: 32 word) k"
    by (rule arg_cong)
  also have "\<dots> \<longleftrightarrow> k = 31"
    unfolding bit_push_bit_iff bit_1_iff by auto
  finally show ?thesis .
qed

lemma next_table_mask:
  assumes "i < 32"
  shows "drop_bit 1 (NOT (mask (32 - i))) OR 0x80000000 = NOT (mask (32 - (i + 1)) :: 32 word)"
proof (rule bit_word_eqI)
  fix k assume "k < LENGTH(32)"
  then show "bit (drop_bit 1 (NOT (mask (32 - i))) OR 0x80000000 :: 32 word) k =
      bit (NOT (mask (32 - (i + 1)) :: 32 word)) k"
    using assms unfolding bit_or_iff bit_msb32 bit_drop_bit_1 bit_not_iff bit_mask_iff by auto
qed

lemma reset_loop_nth:
  assumes "i \<le> 32"
  shows "length (reset_loop i (NOT (mask (32 - i)))) = 32 - i \<and>
    (\<forall>j < 32 - i. ns_shift (reset_loop i (NOT (mask (32 - i))) ! j) = 32 - of_nat (i + j) \<and>
      ns_addrMax (reset_loop i (NOT (mask (32 - i))) ! j) = mask (32 - (i + j)))"
  using assms
proof (induction i rule: inc_induct)
  case base
  then show ?case
    by (simp add: reset_loop.simps [of 32])
next
  case (step i)
  have "reset_loop i (NOT (mask (32 - i))) =
      \<lparr>ns_mask = NOT (mask (32 - i)), ns_shift = 32 - of_nat i, ns_network = 1, ns_addr = 1,
       ns_addrMax = mask (32 - i)\<rparr> # reset_loop (Suc i) (NOT (mask (32 - Suc i)))"
    using step.hyps by (subst reset_loop.simps) (simp only: next_table_mask if_True, simp)
  then show ?case
    using step.IH step.hyps by (auto simp: nth_Cons' simp del: of_nat_Suc of_nat_add)
qed

lemma table_ok_reset: "table_ok (reset_loop 0 0)"
proof -
  have "NOT (mask (32 - 0)) = (0 :: 32 word)"
    by (simp add: mask_eq_exp_minus_1)
  with reset_loop_nth [of 0] show ?thesis
    by (simp add: table_ok_def)
qed

lemma table_ok_put:
  assumes "table_ok (gen_netTable g)" and "gen_state index g = Inr n"
    and "ns_shift n' = ns_shift n" "ns_addrMax n' = ns_addrMax n"
  shows "table_ok (gen_netTable (gen_put index n' g))"
  using assms
  by (auto simp: table_ok_def gen_put_def gen_state_def nth_list_update split: if_splits)

lemma gen_put_simps [simp]:
  "gen_entries (gen_put i n g) = gen_entries g" "gen_test (gen_put i n g) = gen_test g"
  by (simp_all add: gen_put_def)

text \<open>The index of a mask, the state found there and its shift.\<close>

lemma mask_to_index_Inr:
  assumes "mask_to_index m = Inr index"
  shows "m \<noteq> 0" "0 < low_zeros m" "low_zeros m < 32" "unat index = 32 - low_zeros m"
proof -
  have m: "m \<noteq> 0" "\<not> bit m 0" "index = of_nat (32 - low_zeros m)"
    using assms by (simp_all only: mask_to_index_eq split: if_split_asm, simp_all)
  from m(1) show ne: "m \<noteq> 0" .
  show "0 < low_zeros m"
    using low_zeros_bit(1) [OF ne] m(2) by (metis gr_zeroI)
  show "low_zeros m < 32"
    by (rule low_zeros_bit(2) [OF ne])
  show "unat index = 32 - low_zeros m"
    unfolding m(3) by (simp add: unat_of_nat del: of_nat_diff)
qed

lemma gen_state_shift:
  assumes "table_ok (gen_netTable g)" and "mask_to_index m = Inr index"
  shows "\<exists>n. gen_state index g = Inr n \<and> unat (ns_shift n) = low_zeros m \<and> ns_shift n < 32 \<and>
    ns_addrMax n = mask (low_zeros m) \<and> n = gen_netTable g ! unat index"
proof -
  note m = mask_to_index_Inr [OF assms(2)]
  have lt: "unat index < 32"
    using m by simp
  have "ns_shift (gen_netTable g ! unat index) = 32 - of_nat (32 - low_zeros m)"
    using assms(1) lt m(4) by (simp add: table_ok_def)
  also have "\<dots> = of_nat (low_zeros m)"
    using m(3) by (simp add: of_nat_diff)
  finally have sh: "ns_shift (gen_netTable g ! unat index) = of_nat (low_zeros m)" .
  have u: "unat (of_nat (low_zeros m) :: 32 word) = low_zeros m"
    using m(3) by (simp add: unat_of_nat)
  have "32 - unat index = low_zeros m"
    using m(3,4) by simp
  then have "ns_addrMax (gen_netTable g ! unat index) = mask (low_zeros m)"
    using assms(1) lt by (simp add: table_ok_def)
  then show ?thesis
    using sh u m(3) lt assms(1) by (simp add: gen_state_def table_ok_def word_less_nat_alt)
qed

section \<open>Sessions\<close>

text \<open>
  A session of the generator that never switches to the test mode: \<open>out\<close> lists the addresses recorded
  since the last reset, those handed out and those added from outside.
\<close>

inductive gen_session :: "generator \<Rightarrow> 32 word list \<Rightarrow> bool" where
  reset: "gen_session gen_reset []"
| init: "gen_session g out \<Longrightarrow> gen_init net m addr g = Inr g' \<Longrightarrow> gen_session g' out"
| next_network: "gen_session g out \<Longrightarrow> gen_next_network m g = Inr (a, g') \<Longrightarrow> gen_session g' out"
| init_address: "gen_session g out \<Longrightarrow> gen_init_address addr m g = Inr g' \<Longrightarrow> gen_session g' out"
| next_address: "gen_session g out \<Longrightarrow> gen_next_address m g = Inr (a, g') \<Longrightarrow>
    gen_session g' (out @ [ip_get a])"
| add: "gen_session g out \<Longrightarrow> gen_add_allocated a g = Inr (r, g') \<Longrightarrow>
    gen_session g' (out @ [ip_get a])"

definition gen_ok :: "generator \<Rightarrow> 32 word list \<Rightarrow> bool" where
  "gen_ok g out \<longleftrightarrow> table_ok (gen_netTable g) \<and> \<not> gen_test g \<and> entries_ok (gen_entries g) \<and>
     entries_set (gen_entries g) = set out \<and> distinct out \<and> 0 \<notin> set out"

lemma gen_add_allocated_ok:
  assumes "gen_ok g out"
  shows "if ip_get a = 0 \<or> ip_get a \<in> set out then gen_add_allocated a g = Inl Aborted
    else \<exists>es. gen_add_allocated a g = Inr (True, g\<lparr>gen_entries := es\<rparr>) \<and>
      gen_ok (g\<lparr>gen_entries := es\<rparr>) (out @ [ip_get a])"
proof (cases "ip_get a = 0")
  case True
  then show ?thesis
    by (simp add: gen_add_allocated_def)
next
  case False
  then have pos: "0 < ip_get a"
    by (simp add: word_gt_0)
  have ok: "entries_ok (gen_entries g)" "entries_set (gen_entries g) = set out" "\<not> gen_test g"
    using assms by (simp_all add: gen_ok_def)
  show ?thesis
  proof (cases "ip_get a \<in> set out")
    case True
    then show ?thesis
      using False ok add_entry_collision [OF ok(1) pos] by (simp add: gen_add_allocated_def)
  next
    case fresh: False
    then obtain es where "add_entry False (ip_get a) (gen_entries g) = Inr (True, es)"
      "entries_ok es" "entries_set es = insert (ip_get a) (set out)"
      using add_entry_fresh [OF ok(1) pos, of False] ok(2) by auto
    then show ?thesis
      using False fresh ok(3) assms by (auto simp: gen_add_allocated_def gen_ok_def)
  qed
qed

lemma gen_next_address_ok:
  assumes "gen_ok g out" and "gen_next_address m g = Inr (a, g')"
  shows "gen_ok g' (out @ [ip_get a])"
proof -
  from assms(2) obtain index n net r where s: "gen_state index g = Inr n"
    and add: "gen_add_allocated a (gen_put index (n\<lparr>ns_addr := ns_addr n + 1\<rparr>) g) = Inr (r, g')"
    by (auto simp: gen_next_address_def result_elims Let_def)
  have "gen_ok (gen_put index (n\<lparr>ns_addr := ns_addr n + 1\<rparr>) g) out"
    using assms(1) table_ok_put [OF _ s] by (simp add: gen_ok_def)
  from gen_add_allocated_ok [OF this, of a] add show ?thesis
    by (auto split: if_splits)
qed

lemma gen_session_ok: "gen_session g out \<Longrightarrow> gen_ok g out"
proof (induction rule: gen_session.induct)
  case reset
  then show ?case
    by (simp add: gen_ok_def gen_reset_def table_ok_reset)
next
  case (init g out net m addr g')
  then show ?case
    using table_ok_put [of g]
    by (auto simp: gen_ok_def gen_init_def Let_def result_elims)
next
  case (next_network g out m a g')
  then show ?case
    using table_ok_put [of g]
    by (auto simp: gen_ok_def gen_next_network_def Let_def result_elims)
next
  case (init_address g out addr m g')
  then show ?case
    using table_ok_put [of g]
    by (auto simp: gen_ok_def gen_init_address_def Let_def result_elims)
next
  case (next_address g out m a g')
  then show ?case
    by (blast intro: gen_next_address_ok)
next
  case (add g out a r g')
  then show ?case
    using gen_add_allocated_ok [OF add.IH, of a] by (auto split: if_splits)
qed

section \<open>Consecutive addresses\<close>

fun next_addresses :: "nat \<Rightarrow> ipv4_mask \<Rightarrow> generator \<Rightarrow> (32 word list \<times> generator) result" where
  "next_addresses 0 m g = Inr ([], g)"
| "next_addresses (Suc k) m g =
     res_bind (gen_next_address m g) (\<lambda>(a, g1).
     res_map (apfst (Cons (ip_get a))) (next_addresses k m g1))"

text \<open>A mask whose low bits are zero, a network under it and an address within it.\<close>

lemma low_bits_of_mask:
  assumes "m \<noteq> 0"
  shows "mask (low_zeros m) AND m = 0"
  using low_zeros_bit(3) [OF assms] by (auto simp: bit_eq_iff bit_simps)

lemma network_shift_roundtrip:
  assumes "m \<noteq> 0" and "net AND NOT m = 0"
  shows "push_bit (low_zeros m) (drop_bit (low_zeros m) net) = net"
proof (rule bit_word_eqI)
  fix k assume k: "k < LENGTH(32)"
  have "\<not> bit net k" if "k < low_zeros m"
  proof
    assume "bit net k"
    then have "bit (net AND NOT m) k"
      using low_zeros_bit(3) [OF assms(1) that] k by (simp add: bit_simps)
    with assms(2) show False
      by simp
  qed
  then show "bit (push_bit (low_zeros m) (drop_bit (low_zeros m) net)) k = bit net k"
    using k by (cases "low_zeros m \<le> k") (auto simp: bit_push_bit_iff bit_drop_bit_eq)
qed

lemma unat_exp32: "s < 32 \<Longrightarrow> unat (2 ^ s :: 32 word) = 2 ^ s"
proof -
  assume "s < 32"
  then have "(2 :: nat) ^ s < 2 ^ 32"
    by (intro power_strict_increasing) simp_all
  then have "unat (of_nat (2 ^ s) :: 32 word) = 2 ^ s"
    by (simp add: unat_of_nat del: of_nat_power)
  then show ?thesis
    by simp
qed

lemma unat_mask32:
  assumes "s < 32"
  shows "unat (mask s :: 32 word) = 2 ^ s - 1"
proof -
  have "0 < (2 ^ s :: 32 word)"
    using unat_exp32 [OF assms] by (simp add: word_less_nat_alt)
  then show ?thesis
    using unat_exp32 [OF assms] by (simp only: mask_eq_exp_minus_1 unat_pred32)
qed

lemma le_mask_and:
  fixes a m :: "32 word"
  assumes "mask s AND m = 0" and "s < 32" and "a \<le> mask s"
  shows "a AND m = 0"
proof -
  have "unat a \<le> 2 ^ s - 1"
    using assms(3) unat_mask32 [OF assms(2)] by (simp add: word_le_nat_alt)
  then have "unat a < 2 ^ s"
    by (metis One_nat_def Suc_pred less_Suc_eq_le zero_less_numeral zero_less_power)
  then have "take_bit s a = a"
    by (metis unsigned_take_bit_eq unsigned_word_eqI take_bit_nat_eq_self)
  then have "a = a AND mask s"
    by (simp add: take_bit_eq_mask)
  then have "a AND m = a AND (mask s AND m)"
    by (metis and.assoc)
  then show "a AND m = 0"
    by (simp add: assms(1))
qed

lemma take_host_part:
  fixes net a :: "32 word"
  assumes "s < 32" and "a \<le> mask s"
  shows "take_bit s (push_bit s net OR a) = a" "drop_bit s (push_bit s net OR a) = take_bit (32 - s) net"
proof -
  have a: "bit a k \<Longrightarrow> k < s" for k
  proof (rule ccontr)
    assume "bit a k" "\<not> k < s"
    moreover from this(1) have "k < 32"
      using bit_imp_le_length [of a k] by simp
    ultimately have "bit (a AND NOT (mask s)) k"
      by (simp add: bit_and_iff bit_not_iff bit_mask_iff)
    moreover have "a AND NOT (mask s) = 0"
      by (rule le_mask_and [OF _ assms]) (simp add: bit_eq_iff bit_simps)
    ultimately show False
      by simp
  qed
  show "take_bit s (push_bit s net OR a) = a"
    using a by (auto simp: bit_eq_iff bit_take_bit_iff bit_or_iff bit_push_bit_iff)
  show "drop_bit s (push_bit s net OR a) = take_bit (32 - s) net"
  proof (rule bit_word_eqI)
    fix k assume "k < LENGTH(32)"
    then show "bit (drop_bit s (push_bit s net OR a)) k = bit (take_bit (32 - s) net) k"
      using a [of "s + k"] assms(1)
      by (auto simp: bit_drop_bit_eq bit_take_bit_iff bit_or_iff bit_push_bit_iff)
  qed
qed

lemma gen_next_address_value:
  assumes "gen_ok g out" and idx: "mask_to_index m = Inr index"
    and n: "gen_netTable g ! unat index = n" and le: "ns_addr n \<le> mask (low_zeros m)"
    and v: "v = push_bit (low_zeros m) (ns_network n) OR ns_addr n" and fresh: "v \<noteq> 0" "v \<notin> set out"
  shows "\<exists>g'. gen_next_address m g = Inr (ip_of v, g') \<and> gen_ok g' (out @ [v]) \<and>
    gen_netTable g' ! unat index = n\<lparr>ns_addr := ns_addr n + 1\<rparr>"
proof -
  have t: "table_ok (gen_netTable g)"
    using assms(1) by (simp add: gen_ok_def)
  obtain st: "gen_state index g = Inr n" and sh: "unat (ns_shift n) = low_zeros m" "ns_shift n < 32"
    "ns_addrMax n = mask (low_zeros m)"
    using gen_state_shift [OF t idx] n by auto
  let ?g1 = "gen_put index (n\<lparr>ns_addr := ns_addr n + 1\<rparr>) g"
  have "gen_ok ?g1 out"
    using assms(1) table_ok_put [OF t st] by (simp add: gen_ok_def)
  then obtain es where es: "gen_add_allocated (ip_of v) ?g1 = Inr (True, ?g1\<lparr>gen_entries := es\<rparr>)"
    "gen_ok (?g1\<lparr>gen_entries := es\<rparr>) (out @ [v])"
    using gen_add_allocated_ok [of ?g1 out "ip_of v"] fresh by (auto simp: ip_get_def ip_of_def)
  have "gen_netTable (?g1\<lparr>gen_entries := es\<rparr>) ! unat index = n\<lparr>ns_addr := ns_addr n + 1\<rparr>"
    using st by (auto simp: gen_put_def gen_state_def split: if_splits)
  then show ?thesis
    using idx st le sh es v by (auto simp: gen_next_address_def shl32_def Let_def)
qed

lemma next_addresses_ok:
  assumes "gen_ok g out" and "mask_to_index m = Inr index" and "gen_netTable g ! unat index = n"
    and "unat (ns_addr n) + k \<le> 2 ^ low_zeros m" and "net = push_bit (low_zeros m) (ns_network n)"
    and "\<forall>j < k. net OR (ns_addr n + of_nat j) \<notin> insert 0 (set out)"
  shows "\<exists>g'. next_addresses k m g = Inr (map (\<lambda>j. net OR (ns_addr n + of_nat j)) [0..<k], g') \<and>
    gen_ok g' (out @ map (\<lambda>j. net OR (ns_addr n + of_nat j)) [0..<k])"
  using assms
proof (induction k arbitrary: g out n)
  case 0
  then show ?case by simp
next
  case (Suc k)
  have lz: "low_zeros m < 32"
    using mask_to_index_Inr(3) [OF Suc.prems(2)] .
  have host: "ns_addr n + of_nat j \<le> mask (low_zeros m)" "unat (ns_addr n + of_nat j) = unat (ns_addr n) + j"
    if "j < Suc k" for j
  proof -
    have "unat (ns_addr n) + j < 2 ^ low_zeros m"
      using Suc.prems(4) that by simp
    moreover have "(2 :: nat) ^ low_zeros m < 2 ^ 32"
      using lz by (intro power_strict_increasing) simp_all
    ultimately show u: "unat (ns_addr n + of_nat j) = unat (ns_addr n) + j"
      by (simp add: unat_word_ariths unat_of_nat)
    show "ns_addr n + of_nat j \<le> mask (low_zeros m)"
      unfolding word_le_nat_alt u unat_mask32 [OF lz]
      using \<open>unat (ns_addr n) + j < 2 ^ low_zeros m\<close> by simp
  qed
  have inj: "net OR (ns_addr n + of_nat j) \<noteq> net OR (ns_addr n + of_nat 0)" if "0 < j" "j < Suc k" for j
  proof
    assume "net OR (ns_addr n + of_nat j) = net OR (ns_addr n + of_nat 0)"
    then have "ns_addr n + of_nat j = ns_addr n + of_nat 0"
      using take_host_part(1) [OF lz host(1)] that Suc.prems(5) by (metis zero_less_Suc)
    then show False
      using host(2) that by (metis add_cancel_right_right not_less_zero zero_less_Suc)
  qed
  have v0: "net OR ns_addr n = net OR (ns_addr n + of_nat 0)"
    by simp
  have fresh0: "net OR ns_addr n \<noteq> 0" "net OR ns_addr n \<notin> set out"
    using Suc.prems(6) v0 by (metis insert_iff zero_less_Suc)+
  have le0: "ns_addr n \<le> mask (low_zeros m)"
    using host(1) [of 0] by simp
  from gen_next_address_value [OF Suc.prems(1-3) le0 _ fresh0] Suc.prems(5) obtain g1 where
    g1: "gen_next_address m g = Inr (ip_of (net OR ns_addr n), g1)" "gen_ok g1 (out @ [net OR ns_addr n])"
      "gen_netTable g1 ! unat index = n\<lparr>ns_addr := ns_addr n + 1\<rparr>"
    by auto
  let ?n1 = "n\<lparr>ns_addr := ns_addr n + 1\<rparr>"
  have shift: "ns_addr ?n1 + of_nat j = ns_addr n + of_nat (Suc j)" for j
    by simp
  have "unat (ns_addr ?n1) + k \<le> 2 ^ low_zeros m"
  proof (cases "k = 0")
    case True
    have "unat (ns_addr n + 1) \<le> Suc (unat (ns_addr n))"
      by (metis Suc_eq_plus1 unat_word_ariths(1) unat_1 mod_less_eq_dividend)
    with True Suc.prems(4) show ?thesis by simp
  next
    case False
    then show ?thesis
      using host(2) [of 1] Suc.prems(4) by simp
  qed
  moreover have "\<forall>j < k. net OR (ns_addr ?n1 + of_nat j) \<notin> insert 0 (set (out @ [net OR ns_addr n]))"
    unfolding shift
  proof (intro allI impI)
    fix j assume "j < k"
    then have "Suc j < Suc k"
      by simp
    then have "net OR (ns_addr n + of_nat (Suc j)) \<notin> insert 0 (set out)"
      "net OR (ns_addr n + of_nat (Suc j)) \<noteq> net OR ns_addr n"
      using Suc.prems(6) inj [of "Suc j"] unfolding v0 by blast+
    then show "net OR (ns_addr n + of_nat (Suc j)) \<notin> insert 0 (set (out @ [net OR ns_addr n]))"
      by (simp del: of_nat_Suc)
  qed
  ultimately obtain g' where
    g': "next_addresses k m g1 = Inr (map (\<lambda>j. net OR (ns_addr ?n1 + of_nat j)) [0..<k], g')"
      "gen_ok g' ((out @ [net OR ns_addr n]) @ map (\<lambda>j. net OR (ns_addr ?n1 + of_nat j)) [0..<k])"
    using Suc.IH [OF g1(2) Suc.prems(2) g1(3)] Suc.prems(5) by auto
  have list: "(net OR ns_addr n) # map (\<lambda>j. net OR (ns_addr ?n1 + of_nat j)) [0..<k] =
      map (\<lambda>j. net OR (ns_addr n + of_nat j)) [0..<Suc k]"
    unfolding shift upt_conv_Cons [OF zero_less_Suc] list.map map_Suc_upt [symmetric] map_map comp_def
    by simp
  have "next_addresses (Suc k) m g =
      Inr ((net OR ns_addr n) # map (\<lambda>j. net OR (ns_addr ?n1 + of_nat j)) [0..<k], g')"
    using g1(1) g'(1) by (simp add: ip_get_def ip_of_def)
  then show ?case
    using g'(2) list by simp
qed

section \<open>The helper\<close>

text \<open>A helper after \<open>SetBase\<close>: \<open>s\<close> host bits, at least one and at most 30.\<close>

definition ah_ok :: "nat \<Rightarrow> address_helper \<Rightarrow> bool" where
  "ah_ok s h \<longleftrightarrow> 0 < s \<and> s < 31 \<and> unat (ah_shift h) = s \<and> ah_max h = 2 ^ s - 2 \<and>
     ah_mask h \<noteq> 0 \<and> low_zeros (ah_mask h) = s"

lemma ah_set_base_ok:
  assumes "ah_set_base net m base h = Inr h'" and "\<not> bit m 0"
  shows "ah_ok (low_zeros m) h' \<and> ah_mask h' = m \<and>
    push_bit (low_zeros m) (ah_network h') = ip_get net \<and> ah_address h' = ip_get base \<and> ah_base h' = ip_get base"
proof -
  have ne: "m \<noteq> 0"
    using assms(1) by (auto simp: ah_set_base_def result_elims num_address_bits_eq)
  have s: "unat (of_nat (low_zeros m) :: 32 word) = low_zeros m"
    using low_zeros_bit(2) [OF ne] by (simp add: unat_of_nat)
  have pos: "0 < low_zeros m"
    using low_zeros_bit(1) [OF ne] assms(2) by (metis gr_zeroI)
  have lt: "low_zeros m < 31"
    using assms(1) ne s
    by (auto simp: ah_set_base_def result_elims num_address_bits_eq int_max_address_def
        word_less_nat_alt split: if_splits)
  have net: "ip_get net AND NOT m = 0"
    using assms(1) by (auto simp: ah_set_base_def result_elims Let_def)
  show ?thesis
    using assms(1) ne s pos lt network_shift_roundtrip [OF ne net]
    by (auto simp: ah_set_base_def result_elims num_address_bits_eq int_max_address_def shr32_def
        ah_ok_def split: if_splits)
qed

lemma unat_host_max:
  assumes "0 < s" and "s < 32"
  shows "unat (2 ^ s - 2 :: 32 word) = 2 ^ s - 2"
proof -
  have "(2 :: nat) \<le> 2 ^ s"
    using assms(1) by (cases s) simp_all
  then have "(2 :: 32 word) \<le> 2 ^ s"
    using unat_exp32 [OF assms(2)] by (simp add: word_le_nat_alt)
  then show ?thesis
    using unat_exp32 [OF assms(2)] by (simp add: unat_sub)
qed

lemma ah_new_address_value:
  assumes "ah_ok s h" and "ah_new_address h g = Inr (a, h', g')"
  shows "ip_get a = push_bit s (ah_network h) OR ah_address h" "ah_address h \<le> 2 ^ s - 2"
    "ah_ok s h'" "ah_network h' = ah_network h" "ah_mask h' = ah_mask h"
  using assms by (auto simp: ah_new_address_def result_elims ah_ok_def Let_def shl32_def ip_get_def
      ip_of_def split: if_splits)

text \<open>Calls of one helper that shares the generator, with the addresses that they return.\<close>

datatype helper_call = New_address | New_network

fun helper_calls :: "helper_call list \<Rightarrow> address_helper \<Rightarrow> generator \<Rightarrow>
    (ipv4_address list \<times> address_helper \<times> generator) result" where
  "helper_calls [] h g = Inr ([], h, g)"
| "helper_calls (New_address # cs) h g = res_bind (ah_new_address h g) (\<lambda>(a, h, g). res_map (apfst (Cons a)) (helper_calls cs h g))"
| "helper_calls (New_network # cs) h g = res_bind (ah_new_network h) (\<lambda>(a, h). res_map (apfst (Cons a)) (helper_calls cs h g))"

text \<open>What the calls should return: \<open>n\<close> is the current network, \<open>x\<close> the next host number, and the networks are \<open>step\<close>
  addresses apart.\<close>

datatype planned = Planned_address "32 word" "32 word" | Planned_network "32 word"

fun helper_plan :: "32 word \<Rightarrow> 32 word \<Rightarrow> helper_call list \<Rightarrow> 32 word \<Rightarrow> 32 word \<Rightarrow> planned list" where
  "helper_plan step base [] n x = []"
| "helper_plan step base (New_address # cs) n x = Planned_address n x # helper_plan step base cs n (x + 1)"
| "helper_plan step base (New_network # cs) n x = Planned_network (n + step) # helper_plan step base cs (n + step) base"

fun planned_value :: "planned \<Rightarrow> 32 word" where
  "planned_value (Planned_address n x) = n OR x"
| "planned_value (Planned_network n) = n"

fun planned_addresses :: "planned list \<Rightarrow> 32 word list" where
  "planned_addresses [] = []"
| "planned_addresses (Planned_address n x # ps) = (n OR x) # planned_addresses ps"
| "planned_addresses (Planned_network n # ps) = planned_addresses ps"

text \<open>The plan can be carried out: no host number is beyond the limit \<open>mx\<close>, and no address is 0.0.0.0 or used already.\<close>

definition plan_fits :: "32 word \<Rightarrow> 32 word list \<Rightarrow> planned list \<Rightarrow> bool" where
  "plan_fits mx used ps \<longleftrightarrow> (\<forall>n x. Planned_address n x \<in> set ps \<longrightarrow> x \<le> mx) \<and> distinct (used @ planned_addresses ps) \<and>
     0 \<notin> set (planned_addresses ps)"

lemma host_part_below_max:
  fixes a :: "32 word"
  assumes "0 < s" and "s < 32" and "a \<le> 2 ^ s - 2"
  shows "a \<le> mask s" "a \<noteq> mask s"
proof -
  have "(2 :: nat) \<le> 2 ^ s"
    using assms(1) by (cases s) simp_all
  moreover have "unat a \<le> 2 ^ s - 2"
    using assms(3) unat_host_max [OF assms(1,2)] by (simp add: word_le_nat_alt)
  ultimately show "a \<le> mask s" "a \<noteq> mask s"
    using unat_mask32 [OF assms(2)] by (auto simp: word_le_nat_alt)
qed

lemma not_subnet_broadcast:
  assumes "m \<noteq> 0" and "take_bit (low_zeros m) a \<noteq> mask (low_zeros m)"
  shows "\<not> ip_is_subnet_broadcast m (ip_of a)"
proof
  assume "ip_is_subnet_broadcast m (ip_of a)"
  then have "a OR m = 0xffffffff"
    by (auto simp: ip_is_subnet_broadcast_def ip_broadcast_def ip_get_def ip_of_def split: if_splits)
  then have ones: "a OR m = - 1"
    by simp
  have "bit a k" if k: "k < low_zeros m" for k
  proof -
    have "bit (a OR m) k"
      using k low_zeros_bit(2) [OF assms(1)] unfolding ones by simp
    then show ?thesis
      using low_zeros_bit(3) [OF assms(1) k] by (simp add: bit_or_iff)
  qed
  then have "take_bit (low_zeros m) a = mask (low_zeros m)"
    by (auto simp: bit_eq_iff bit_take_bit_iff bit_mask_iff)
  with assms(2) show False
    by simp
qed

text \<open>An address of the plan lies in its network and is not the broadcast address of it.\<close>

lemma planned_address_usable:
  assumes "m \<noteq> 0" and "0 < low_zeros m" and "take_bit (low_zeros m) n = 0" and "x \<le> 2 ^ low_zeros m - 2"
  shows "mask_is_match m (ip_of (n OR x)) (ip_of n) \<and> \<not> ip_is_subnet_broadcast m (ip_of (n OR x))"
proof
  note s = low_zeros_bit(2) [OF assms(1)]
  note below = host_part_below_max [OF assms(2) s assms(4)]
  have "x AND m = 0"
    by (rule le_mask_and [OF low_bits_of_mask [OF assms(1)] s below(1)])
  then show "mask_is_match m (ip_of (n OR x)) (ip_of n)"
    by (simp add: mask_is_match_def ip_get_def ip_of_def bit.conj_disj_distrib2)
  have "take_bit (low_zeros m) x = x"
    using take_host_part(1) [OF s below(1), of 0] by simp
  then have "take_bit (low_zeros m) (n OR x) \<noteq> mask (low_zeros m)"
    using assms(3) below(2) by simp
  then show "\<not> ip_is_subnet_broadcast m (ip_of (n OR x))"
    by (rule not_subnet_broadcast [OF assms(1)])
qed

lemma ah_new_address_eq:
  assumes "ah_ok s h" and "gen_session g used"
  shows "ah_new_address h g =
    (let v = push_bit s (ah_network h) OR ah_address h
     in if \<not> ah_address h \<le> 2 ^ s - 2 then Inl Assert_failed
        else if v = 0 \<or> v \<in> set used then Inl Aborted
        else Inr (ip_of v, h\<lparr>ah_address := ah_address h + 1\<rparr>, snd (projr (gen_add_allocated (ip_of v) g))))"
    and "v \<noteq> 0 \<Longrightarrow> v \<notin> set used \<Longrightarrow> gen_session (snd (projr (gen_add_allocated (ip_of v) g))) (used @ [v])"
proof -
  have ip: "ip_get (ip_of v) = v" for v
    by (simp add: ip_get_def ip_of_def)
  note add = gen_add_allocated_ok [OF gen_session_ok [OF assms(2)], of "ip_of v" for v, unfolded ip]
  have "unat (ah_shift h) < 32" "unat (ah_shift h) = s" "ah_max h = 2 ^ s - 2"
    using assms(1) by (auto simp: ah_ok_def)
  then show "ah_new_address h g =
    (let v = push_bit s (ah_network h) OR ah_address h
     in if \<not> ah_address h \<le> 2 ^ s - 2 then Inl Assert_failed
        else if v = 0 \<or> v \<in> set used then Inl Aborted
        else Inr (ip_of v, h\<lparr>ah_address := ah_address h + 1\<rparr>, snd (projr (gen_add_allocated (ip_of v) g))))"
    using add [of "push_bit s (ah_network h) OR ah_address h"]
    by (auto simp: ah_new_address_def shl32_def ns_assert_def Let_def word_less_nat_alt split: if_splits)
  show "gen_session (snd (projr (gen_add_allocated (ip_of v) g))) (used @ [v])" if "v \<noteq> 0" "v \<notin> set used"
    using add [of v] that gen_session.add [OF assms(2), where a = "ip_of v"] by (auto simp: ip)
qed

lemma push_bit_suc: "push_bit s (n + 1 :: 32 word) = push_bit s n + 2 ^ s"
  by (simp add: push_bit_add push_bit_eq_mult distrib_right)

lemma ah_new_network_eq:
  assumes "ah_ok s h"
  shows "ah_new_network h = Inr (ip_of (push_bit s (ah_network h) + 2 ^ s), h\<lparr>ah_network := ah_network h + 1, ah_address := ah_base h\<rparr>)"
  using assms by (simp add: ah_new_network_def Let_def ah_ok_def shl32_def push_bit_suc word_less_nat_alt)

lemma helper_calls_ok:
  assumes "ah_ok s h" and "gen_session g used"
  shows "case helper_calls cs h g of
      Inl _ \<Rightarrow> \<not> plan_fits (2 ^ s - 2) used (helper_plan (2 ^ s) (ah_base h) cs (push_bit s (ah_network h)) (ah_address h))
    | Inr (as, h', g') \<Rightarrow> plan_fits (2 ^ s - 2) used (helper_plan (2 ^ s) (ah_base h) cs (push_bit s (ah_network h)) (ah_address h)) \<and>
        map ip_get as = map planned_value (helper_plan (2 ^ s) (ah_base h) cs (push_bit s (ah_network h)) (ah_address h)) \<and>
        gen_session g' (used @ planned_addresses (helper_plan (2 ^ s) (ah_base h) cs (push_bit s (ah_network h)) (ah_address h)))"
  using assms
proof (induction cs arbitrary: h g used)
  case Nil
  then show ?case
    using gen_session_ok [OF Nil(2)] by (simp add: plan_fits_def gen_ok_def)
next
  case (Cons c cs)
  have ip: "ip_get (ip_of v) = v" for v
    by (simp add: ip_get_def ip_of_def)
  show ?case
  proof (cases c)
    case New_network
    let ?h = "h\<lparr>ah_network := ah_network h + 1, ah_address := ah_base h\<rparr>"
    have "ah_ok s ?h"
      using Cons.prems(1) by (simp add: ah_ok_def)
    from Cons.IH [OF this Cons.prems(2)] show ?thesis
      by (cases "helper_calls cs ?h g")
        (auto simp: New_network ah_new_network_eq [OF Cons.prems(1)] push_bit_suc plan_fits_def ip)
  next
    case New_address
    let ?v = "push_bit s (ah_network h) OR ah_address h"
    let ?h = "h\<lparr>ah_address := ah_address h + 1\<rparr>" and ?g = "snd (projr (gen_add_allocated (ip_of ?v) g))"
    show ?thesis
    proof (cases "ah_address h \<le> 2 ^ s - 2 \<and> ?v \<noteq> 0 \<and> ?v \<notin> set used")
      case True
      have "ah_ok s ?h"
        using Cons.prems(1) by (simp add: ah_ok_def)
      from Cons.IH [OF this ah_new_address_eq(2) [where v = ?v, OF Cons.prems]] True show ?thesis
        by (cases "helper_calls cs ?h ?g")
          (auto simp: New_address ah_new_address_eq(1) [OF Cons.prems] plan_fits_def ip Let_def)
    next
      case False
      then show ?thesis
        by (auto simp: New_address ah_new_address_eq(1) [OF Cons.prems] plan_fits_def Let_def)
    qed
  qed
qed

lemma planned_networks:
  assumes "take_bit s n = 0" and "s < 32" and "Planned_address n' x' \<in> set (helper_plan (2 ^ s) base cs n x)"
  shows "take_bit s n' = 0"
  using assms(1,3)
proof (induction cs arbitrary: n x)
  case (Cons c cs)
  have "take_bit s (n + 2 ^ s) = 0"
    using Cons.prems(1) by (simp add: take_bit_eq_0_iff)
  with Cons show ?case
    by (cases c) auto
qed simp

section \<open>Properties\<close>

text \<open>C20: No address is ever handed out or recorded twice: in every session of the generator outside the
  test mode all recorded addresses are different, and \<open>IsAddressAllocated\<close> answers exactly whether
  an address has been recorded.\<close>

theorem generator_never_repeats:
  assumes "gen_session g out"
  shows "distinct out \<and>
    (\<forall>a. gen_is_allocated a g = (if ip_get a = 0 then Inl Aborted else Inr (ip_get a \<in> set out)))"
  using gen_session_ok [OF assms]
  by (simp add: gen_ok_def gen_is_allocated_def Let_def ns_abort_if_def entries_contain_iff)

lemma demo_session_generator:
  "\<exists>g. gen_session g [0x0a000003, 0x0a000001, 0x0a000002] \<and> \<not> gen_test g"
proof -
  have a: "ip_get (ip_of v) = v" for v
    by (simp add: ip_get_def ip_of_def)
  have step: "\<exists>g'. gen_session g' (out @ [v])" if "gen_session g out" "v \<noteq> 0" "v \<notin> set out" for g out v
    using gen_add_allocated_ok [OF gen_session_ok [OF that(1)], of "ip_of v"] that
      gen_session.add [OF that(1), where a = "ip_of v"] by (auto simp: a)
  obtain g1 where 1: "gen_session g1 [0x0a000003]"
    using step [OF gen_session.reset, of "0x0a000003"] by auto
  obtain g2 where 2: "gen_session g2 [0x0a000003, 0x0a000001]"
    using step [OF 1, of "0x0a000001"] by auto
  obtain g3 where 3: "gen_session g3 [0x0a000003, 0x0a000001, 0x0a000002]"
    using step [OF 2, of "0x0a000002"] by auto
  with gen_session_ok [OF 3] show ?thesis
    by (auto simp: gen_ok_def)
qed

theorem generator_never_repeats_witness:
  "\<exists>g. gen_session g [0x0a000003, 0x0a000001, 0x0a000002] \<and>
     gen_is_allocated (ip_of 0x0a000002) g = Inr True \<and>
     gen_is_allocated (ip_of 0x0a000004) g = Inr False"
proof -
  obtain g where g: "gen_session g [0x0a000003, 0x0a000001, 0x0a000002]"
    using demo_session_generator by blast
  have a: "ip_get (ip_of v) = v" for v
    by (simp add: ip_get_def ip_of_def)
  from generator_never_repeats [OF g] have
    all: "gen_is_allocated x g = (if ip_get x = 0 then Inl Aborted
        else Inr (ip_get x \<in> set [0x0a000003, 0x0a000001, 0x0a000002]))" for x
    by blast
  show ?thesis
    using g all [of "ip_of 0x0a000002"] all [of "ip_of 0x0a000004"]
    by (intro exI [of _ g]) (simp add: a)
qed

text \<open>Recording an address ends the program exactly when the address is 0.0.0.0 or has been recorded
  before, and otherwise succeeds and adds this address and no other.\<close>

theorem generator_detects_collisions:
  assumes "gen_session g out"
  shows "if ip_get a = 0 \<or> ip_get a \<in> set out then gen_add_allocated a g = Inl Aborted
    else \<exists>g'. gen_add_allocated a g = Inr (True, g') \<and> gen_session g' (out @ [ip_get a])"
  using gen_add_allocated_ok [OF gen_session_ok [OF assms], of a] gen_session.add [OF assms, where a = a]
  by (auto split: if_splits)

theorem generator_detects_collisions_witness:
  "\<exists>g. gen_add_allocated (ip_of 0x0a000002) g = Inl Aborted"
proof -
  obtain g where g: "gen_session g [0x0a000003, 0x0a000001, 0x0a000002]"
    using demo_session_generator by blast
  have "ip_get (ip_of 0x0a000002) \<in> set [0x0a000003, 0x0a000001, 0x0a000002]"
    by (simp add: ip_get_def ip_of_def)
  with generator_detects_collisions [OF g, of "ip_of 0x0a000002"] show ?thesis
    by (metis (full_types))
qed

text \<open>After \<open>Init\<close> with a network, a mask and a first address, \<open>k\<close> calls of \<open>NextAddress\<close> return
  the network combined with the first address and its successors, all of them inside the network,
  as long as they fit the host part and none of them has been recorded before.\<close>

theorem generator_consecutive:
  assumes "gen_session g out" and "gen_init net m addr g = Inr g1"
    and "unat (ip_get addr) + k \<le> 2 ^ low_zeros m"
    and "\<forall>j < k. ip_get net OR (ip_get addr + of_nat j) \<notin> insert 0 (set out)"
  shows "\<exists>g2. next_addresses k m g1 =
      Inr (map (\<lambda>j. ip_get net OR (ip_get addr + of_nat j)) [0..<k], g2) \<and>
    (\<forall>j < k. mask_is_match m (ip_of (ip_get net OR (ip_get addr + of_nat j))) net)"
proof -
  have ok: "gen_ok g1 out"
    using gen_session_ok [OF gen_session.init [OF assms(1,2)]] .
  from assms(2) obtain index n where idx: "mask_to_index m = Inr index" "gen_state index g = Inr n"
    and net: "ip_get net AND NOT m = 0"
    and sh: "shr32 (ip_get net) (ns_shift n) = Inr (drop_bit (unat (ns_shift n)) (ip_get net))"
    and g1: "g1 = gen_put index (n\<lparr>ns_network := drop_bit (unat (ns_shift n)) (ip_get net),
        ns_addr := ip_get addr\<rparr>) g"
    by (auto simp: gen_init_def Let_def result_elims shr32_def split: if_splits)
  note m = mask_to_index_Inr [OF idx(1)]
  have t: "table_ok (gen_netTable g)"
    using gen_session_ok [OF assms(1)] by (simp add: gen_ok_def)
  have s: "unat (ns_shift n) = low_zeros m"
    using gen_state_shift [OF t idx(1)] idx(2) by auto
  let ?n1 = "gen_netTable g1 ! unat index"
  have n1: "ns_addr ?n1 = ip_get addr" "push_bit (low_zeros m) (ns_network ?n1) = ip_get net"
    using idx(2) network_shift_roundtrip [OF m(1) net] s
    by (auto simp: g1 gen_put_def gen_state_def split: if_splits)
  have "\<exists>g'. next_addresses k m g1 =
      Inr (map (\<lambda>j. ip_get net OR (ns_addr ?n1 + of_nat j)) [0..<k], g') \<and>
    gen_ok g' (out @ map (\<lambda>j. ip_get net OR (ns_addr ?n1 + of_nat j)) [0..<k])"
    by (rule next_addresses_ok [OF ok idx(1) refl]) (use assms(3,4) n1 in simp_all)
  moreover have "mask_is_match m (ip_of (ip_get net OR (ip_get addr + of_nat j))) net" if "j < k" for j
  proof -
    have u: "unat (ip_get addr) + j < 2 ^ low_zeros m"
      using assms(3) that by simp
    moreover have "(2 :: nat) ^ low_zeros m < 2 ^ 32"
      using m(3) by (intro power_strict_increasing) simp_all
    ultimately have "unat (ip_get addr + of_nat j) = unat (ip_get addr) + j"
      by (simp add: unat_word_ariths unat_of_nat)
    then have "ip_get addr + of_nat j \<le> mask (low_zeros m)"
      using u by (simp add: word_le_nat_alt unat_mask32 [OF m(3)])
    then have "(ip_get addr + of_nat j) AND m = 0"
      by (rule le_mask_and [OF low_bits_of_mask [OF m(1)] m(3)])
    then show ?thesis
      by (simp add: mask_is_match_def ip_get_def ip_of_def bit.conj_disj_distrib2)
  qed
  ultimately show ?thesis
    using n1(1) by auto
qed

theorem generator_consecutive_witness:
  "\<exists>g1 g2. gen_init (ip_of 0x0a010000) 0xffff0000 (ip_of 3) gen_reset = Inr g1 \<and>
     next_addresses 4 0xffff0000 g1 = Inr ([0x0a010003, 0x0a010004, 0x0a010005, 0x0a010006], g2)"
proof -
  have "\<not> isl (gen_init (ip_of 0x0a010000) 0xffff0000 (ip_of 3) gen_reset)"
    by code_simp
  then obtain g1 where i: "gen_init (ip_of 0x0a010000) 0xffff0000 (ip_of 3) gen_reset = Inr g1"
    by (auto simp: isl_def) (metis sum.exhaust)
  have "push_bit 16 (0xffffffff :: 32 word) = 0xffff0000"
    by code_simp
  then have lz: "low_zeros 0xffff0000 = 16"
    using low_zeros_prefix_mask [of 16] by (simp only: numeral_less_iff rel_simps)
  have "list_all (\<lambda>j. ip_get (ip_of 0x0a010000) OR (ip_get (ip_of 3) + of_nat j) \<noteq> 0) [0..<4]"
    by code_simp
  then have "\<forall>j < 4. ip_get (ip_of 0x0a010000) OR (ip_get (ip_of 3) + of_nat j) \<notin> insert 0 (set [])"
    by (simp add: list_all_iff)
  with generator_consecutive [OF gen_session.reset i, of 4] lz i show ?thesis
    by (auto simp: ip_get_def ip_of_def upt_rec)
qed

text \<open>The three loops over a mask agree: \<open>NumAddressBits\<close> counts the host bits, \<open>MaskToIndex\<close> and
  \<open>GetPrefixLength\<close> their complement to 32; the zero mask fails the assertions of the first two, and
  \<open>MaskToIndex\<close> rejects every mask whose lowest bit is set.\<close>

theorem mask_loops_agree:
  "num_address_bits m =
      (if m = 0 then Inl Assert_failed else Inr (32 - ucast (mask_prefix_length m))) \<and>
   mask_to_index m =
      (if m = 0 then Inl Assert_failed else if bit m 0 then Inl Aborted
       else Inr (ucast (mask_prefix_length m)))"
proof (cases "m = 0")
  case True
  then show ?thesis
    by (simp add: num_address_bits_eq mask_to_index_eq)
next
  case False
  have lz: "low_zeros m < 32"
    by (rule low_zeros_bit(2) [OF False])
  have "unat (ucast (of_nat (32 - low_zeros m) :: 16 word) :: 32 word) = 32 - low_zeros m"
    by (simp add: unat_of_nat unsigned_ucast_eq take_bit_nat_eq_self del: of_nat_diff)
  then have u: "ucast (mask_prefix_length m) = (of_nat (32 - low_zeros m) :: 32 word)"
    using False by (simp add: mask_prefix_length_eq word_unat_eq_iff unat_of_nat del: of_nat_diff)
  have "(32 :: 32 word) - of_nat (32 - low_zeros m) = of_nat (low_zeros m)"
    using lz by (simp add: of_nat_diff)
  then show ?thesis
    unfolding u num_address_bits_eq mask_to_index_eq using False by simp
qed

text \<open>C40: The addresses of a helper are those that were asked for. Any sequence of calls of \<open>NewAddress\<close> and \<open>NewNetwork\<close>,
  after \<open>SetBase\<close> with a mask that leaves at least one host bit, returns the planned addresses: the network
  combined with consecutive host numbers from the base address, which start again with each network. The calls succeed
  exactly when no host number exceeds \<open>2^s - 2\<close> and no address is 0.0.0.0 or was recorded before. Then each
  address lies in its network, is not its directed broadcast address, and all of them are recorded, once.\<close>

theorem helper_addresses_usable:
  assumes "gen_session g used" and "ah_set_base net m base h0 = Inr h" and "\<not> bit m 0"
    and "ps = helper_plan (2 ^ low_zeros m) (ip_get base) cs (ip_get net) (ip_get base)"
  shows "case helper_calls cs h g of
      Inl _ \<Rightarrow> \<not> plan_fits (2 ^ low_zeros m - 2) used ps
    | Inr (as, h', g') \<Rightarrow> plan_fits (2 ^ low_zeros m - 2) used ps \<and> map ip_get as = map planned_value ps \<and>
        gen_session g' (used @ planned_addresses ps) \<and> distinct (used @ planned_addresses ps) \<and>
        (\<forall>n x. Planned_address n x \<in> set ps \<longrightarrow> take_bit (low_zeros m) n = 0 \<and> mask_is_match m (ip_of (n OR x)) (ip_of n) \<and>
          \<not> ip_is_subnet_broadcast m (ip_of (n OR x)))"
proof -
  note h = ah_set_base_ok [OF assms(2,3)]
  then have s: "0 < low_zeros m" "low_zeros m < 32" "m \<noteq> 0" "ah_ok (low_zeros m) h"
    by (auto simp: ah_ok_def)
  have "take_bit (low_zeros m) (ip_get net) = 0"
    using h by (metis take_bit_push_bit diff_self_eq_0 take_bit_0 push_bit_of_0)
  with planned_networks [OF _ s(2)] planned_address_usable [OF s(3,1)]
  have "Planned_address n x \<in> set ps \<Longrightarrow> plan_fits (2 ^ low_zeros m - 2) used ps \<Longrightarrow>
      take_bit (low_zeros m) n = 0 \<and> mask_is_match m (ip_of (n OR x)) (ip_of n) \<and> \<not> ip_is_subnet_broadcast m (ip_of (n OR x))" for n x
    unfolding assms(4) plan_fits_def by blast
  moreover have "plan_fits mx used ps \<Longrightarrow> distinct (used @ planned_addresses ps)" for mx
    by (simp add: plan_fits_def)
  ultimately show ?thesis
    using helper_calls_ok [OF s(4) assms(1), of cs] h unfolding assms(4)
    by (cases "helper_calls cs h g") auto
qed

text \<open>In networks of four addresses: two addresses, a new network and a third address; and three addresses, one too many.\<close>

theorem helper_addresses_usable_witness:
  "\<exists>h as h' g'. ah_set_base (ip_of 0xc0a80100) 0xfffffffc (ip_of 1) ah_default = Inr h \<and>
     helper_calls [New_address, New_address, New_network, New_address] h gen_reset = Inr (as, h', g') \<and>
     map ip_get as = [0xc0a80101, 0xc0a80102, 0xc0a80104, 0xc0a80105] \<and> gen_session g' [0xc0a80101, 0xc0a80102, 0xc0a80105] \<and>
     mask_is_match 0xfffffffc (ip_of 0xc0a80105) (ip_of 0xc0a80104) \<and>
     isl (helper_calls [New_address, New_address, New_address] h gen_reset)"
proof -
  have "\<not> isl (ah_set_base (ip_of 0xc0a80100) 0xfffffffc (ip_of 1) ah_default)"
    by code_simp
  then obtain h where h: "ah_set_base (ip_of 0xc0a80100) 0xfffffffc (ip_of 1) ah_default = Inr h"
    by (auto simp: isl_def) (metis sum.exhaust)
  have "push_bit 2 (0xffffffff :: 32 word) = 0xfffffffc"
    by code_simp
  then have lz: "low_zeros 0xfffffffc = 2"
    using low_zeros_prefix_mask [of 2] by (simp only: numeral_less_iff rel_simps)
  have ip: "ip_get (ip_of v) = v" for v
    by (simp add: ip_get_def ip_of_def)
  have b: "\<not> bit (0xfffffffc :: 32 word) 0"
    by simp
  note use = helper_addresses_usable [OF gen_session.reset h b refl, unfolded lz ip]
  have good: "helper_plan (2 ^ 2) 1 [New_address, New_address, New_network, New_address] 0xc0a80100 1 =
      [Planned_address 0xc0a80100 1, Planned_address 0xc0a80100 2, Planned_network 0xc0a80104, Planned_address 0xc0a80104 1]"
    "planned_addresses [Planned_address 0xc0a80100 1, Planned_address 0xc0a80100 2, Planned_network 0xc0a80104, Planned_address 0xc0a80104 1] =
      [0xc0a80101, 0xc0a80102, 0xc0a80105]"
    by simp_all
  then have fits: "plan_fits (2 ^ 2 - 2) [] [Planned_address 0xc0a80100 1, Planned_address 0xc0a80100 2, Planned_network 0xc0a80104,
      Planned_address 0xc0a80104 1]"
    by (auto simp: plan_fits_def)
  have bad: "\<not> plan_fits (2 ^ 2 - 2) [] (helper_plan (2 ^ 2) 1 [New_address, New_address, New_address] 0xc0a80100 1)"
    by (auto simp: plan_fits_def)
  obtain as h' g' where run: "helper_calls [New_address, New_address, New_network, New_address] h gen_reset = Inr (as, h', g')"
    using use [of "[New_address, New_address, New_network, New_address]"] fits unfolding good(1)
    by (auto split: sum.splits)
  have "isl (helper_calls [New_address, New_address, New_address] h gen_reset)"
    using use [of "[New_address, New_address, New_address]"] bad by (auto split: sum.splits)
  moreover have "(0xc0a80104 :: 32 word) OR 1 = 0xc0a80105"
    by simp
  ultimately show ?thesis
    using use [of "[New_address, New_address, New_network, New_address]"] h run unfolding good
    by (intro exI [of _ h] exI [of _ as] exI [of _ h'] exI [of _ g']) fastforce
qed

text \<open>With the mask 255.255.255.255 the limit \<open>(1 << 0) - 2\<close> wraps around to the largest value: the
  helper never reports an overflow and hands out addresses outside the one-address network, here
  10.0.0.3 for the network 10.0.0.1.\<close>

theorem helper_host_mask_overflow:
  "map_sum id (\<lambda>(a, b). (a, b, mask_is_match 0xffffffff (ip_of a) (ip_of 0x0a000001),
                         mask_is_match 0xffffffff (ip_of b) (ip_of 0x0a000001)))
     (res_bind (ah_set_base (ip_of 0x0a000001) 0xffffffff (ip_of 1) ah_default) (\<lambda>h.
      res_bind (ah_new_address h gen_reset) (\<lambda>(a, h1, g1).
      res_bind (ah_new_address h1 g1) (\<lambda>(b, h2, g2). Inr (ip_get a, ip_get b))))) =
   Inr (0x0a000001, 0x0a000003, True, False)"
  by code_simp

text \<open>\<open>IsNetworkAllocated\<close> returns \<open>false\<close> for a network that has a recorded address and, for a network
  all of whose addresses are recorded, \<open>true\<close>: it looks only at the ends of the ranges. Here the
  addresses 10.0.0.3 to 10.0.0.8 are recorded and the networks are 10.0.0.0/30 and 10.0.0.4/30.\<close>

theorem network_check_flaw:
  "res_bind (fold (\<lambda>v r. res_bind r (\<lambda>g. res_map snd (gen_add_allocated (ip_of v) g)))
       [0x0a000003, 0x0a000004, 0x0a000005, 0x0a000006, 0x0a000007, 0x0a000008] (Inr gen_reset)) (\<lambda>g.
   res_bind (gen_is_network_allocated (ip_of 0x0a000000) 0xfffffffc g) (\<lambda>x.
   res_bind (gen_is_network_allocated (ip_of 0x0a000004) 0xfffffffc g) (\<lambda>y. Inr (x, y)))) =
   Inr (False, True)"
  by code_simp

text \<open>\<open>NextNetwork\<close> does not reset the address counter: after one address of 10.0.0.0/24 the first
  address of the next network is 10.0.1.2.\<close>

lemma next_network_keeps_counter:
  "res_bind (gen_init (ip_of 0x0a000000) 0xffffff00 (ip_of 1) gen_reset) (\<lambda>g.
   res_bind (gen_next_address 0xffffff00 g) (\<lambda>(a, g1).
   res_bind (gen_next_network 0xffffff00 g1) (\<lambda>(n, g2).
   res_bind (gen_next_address 0xffffff00 g2) (\<lambda>(b, g3). Inr (ip_get a, ip_get n, ip_get b))))) =
   Inr (0x0a000001, 0x0a000100, 0x0a000102)"
  by code_simp

end
