(* ===== verification/Nr_Sfnsf.thy ===== *)
theory Nr_Sfnsf
  imports Ns_Prelude
begin

text \<open>
  \<open>SfnSf\<close> (\<open>contrib/nr/model/sfnsf.cc\<close>), the time stamp of the NR stack: frame, subframe, slot and
  numerology. A frame has 10 subframes of \<open>2^numerology\<close> slots. The lemmas read a time stamp as the
  number of its slot since the start and relate every operation to this number.
\<close>

unbundle bit_operations_syntax

section \<open>Model\<close>

record sfnsf =
  sf_frame :: "32 word"
  sf_subframe :: "8 word"
  sf_slot :: "8 word"
  sf_numerology :: "8 word"

definition sfn_default :: sfnsf where
  "sfn_default = \<lparr>sf_frame = 0, sf_subframe = 0, sf_slot = 0, sf_numerology = 255\<rparr>"

definition sfn_create :: "32 word \<Rightarrow> 8 word \<Rightarrow> 8 word \<Rightarrow> 8 word \<Rightarrow> sfnsf result" where
  "sfn_create frame sf slot num =
     ns_abort_if (num > 5)
       (Inr \<lparr>sf_frame = frame, sf_subframe = sf, sf_slot = slot, sf_numerology = num\<rparr>)"

definition sfn_encoding :: "sfnsf \<Rightarrow> 64 word result" where
  "sfn_encoding p =
     ns_assert (sf_numerology p \<le> 5)
       (Inr (push_bit 32 (ucast (sf_frame p)) OR push_bit 24 (ucast (sf_subframe p)) OR
             push_bit 16 (ucast (sf_slot p)) OR push_bit 8 (ucast (sf_numerology p))))"

definition sfn_encoding_sym :: "8 word \<Rightarrow> sfnsf \<Rightarrow> 64 word result" where
  "sfn_encoding_sym symStart p =
     ns_assert (sf_numerology p \<le> 5)
       (Inr (push_bit 32 (ucast (sf_frame p)) OR push_bit 24 (ucast (sf_subframe p)) OR
             push_bit 16 (ucast (sf_slot p)) OR push_bit 8 (ucast (sf_numerology p)) OR
             ucast symStart))"

text \<open>The assertion of this encoding, \<open>m_numerology >= 0\<close>, always holds.\<close>

definition sfn_encoding_stream :: "8 word \<Rightarrow> 8 word \<Rightarrow> sfnsf \<Rightarrow> 64 word" where
  "sfn_encoding_stream streamId symStart p =
     push_bit 56 (ucast (sf_numerology p)) OR push_bit 40 (ucast (sf_frame p)) OR
     push_bit 32 (ucast (sf_subframe p)) OR push_bit 16 (ucast (sf_slot p)) OR
     push_bit 8 (ucast symStart) OR ucast streamId"

definition sfn_from_encoding :: "64 word \<Rightarrow> sfnsf \<Rightarrow> sfnsf" where
  "sfn_from_encoding sfn p =
     p\<lparr>sf_frame := ucast (drop_bit 32 (sfn AND 0xFFFFFFFF00000000)),
       sf_subframe := ucast (drop_bit 24 (sfn AND 0x00000000FF000000)),
       sf_slot := ucast (drop_bit 16 (sfn AND 0x0000000000FF0000)),
       sf_numerology := ucast (drop_bit 8 (sfn AND 0x000000000000FF00))\<rparr>"

definition sfn_subframes_per_frame :: "32 word" where
  "sfn_subframes_per_frame = 10"

text \<open>\<open>1 << m_numerology\<close> is undefined when the shift is 32 or more.\<close>

definition sfn_slots_per_subframe :: "sfnsf \<Rightarrow> 32 word result" where
  "sfn_slots_per_subframe p =
     (if sf_numerology p < 32 then Inr (push_bit (unat (sf_numerology p)) 1)
      else Inl Undefined_behaviour)"

definition sfn_encode :: "sfnsf \<Rightarrow> 64 word result" where
  "sfn_encode p = sfn_encoding p"

definition sfn_decode :: "64 word \<Rightarrow> sfnsf" where
  "sfn_decode sfn = sfn_from_encoding sfn sfn_default"

text \<open>The products are computed with 32 bits before they are added to the 64 bit result.\<close>

definition sfn_normalize :: "sfnsf \<Rightarrow> 64 word result" where
  "sfn_normalize p =
     res_bind (sfn_slots_per_subframe p) (\<lambda>s.
     (let ret = 0;
          ret = ret + ucast (sf_slot p);
          ret = ret + ucast (ucast (sf_subframe p) * s);
          ret = ret + ucast (sf_frame p * sfn_subframes_per_frame * s)
      in Inr ret))"

definition sfn_add :: "32 word \<Rightarrow> sfnsf \<Rightarrow> sfnsf result" where
  "sfn_add slotN p =
     ns_assert (sf_numerology p \<le> 5)
       (res_bind (sfn_slots_per_subframe p) (\<lambda>s.
        (let sub = ucast (sf_subframe p) + (ucast (sf_slot p) + slotN) div s;
             p1 = p\<lparr>sf_frame := sf_frame p + sub div sfn_subframes_per_frame\<rparr>;
             sub1 = ucast (sf_subframe p1) + (ucast (sf_slot p1) + slotN) div s;
             p2 = p1\<lparr>sf_subframe := ucast (sub1 mod sfn_subframes_per_frame)\<rparr>
         in Inr (p2\<lparr>sf_slot := ucast ((ucast (sf_slot p2) + slotN) mod s)\<rparr>))))"

definition sfn_future :: "32 word \<Rightarrow> sfnsf \<Rightarrow> sfnsf result" where
  "sfn_future slotN p = sfn_add slotN p"

definition sfn_less :: "sfnsf \<Rightarrow> sfnsf \<Rightarrow> bool result" where
  "sfn_less p q =
     ns_assert (sf_numerology q = sf_numerology p)
       (Inr (if sf_frame p < sf_frame q then True
             else if sf_frame p = sf_frame q \<and> sf_subframe p < sf_subframe q then True
             else if (sf_frame p = sf_frame q \<and> sf_subframe p = sf_subframe q) \<and> sf_slot p < sf_slot q
             then True else False))"

definition sfn_eq :: "sfnsf \<Rightarrow> sfnsf \<Rightarrow> bool result" where
  "sfn_eq p q =
     ns_assert (sf_numerology q = sf_numerology p)
       (Inr (sf_frame p = sf_frame q \<and> sf_subframe p = sf_subframe q \<and> sf_slot p = sf_slot q))"

definition sfn_get_numerology :: "sfnsf \<Rightarrow> 8 word result" where
  "sfn_get_numerology p = ns_assert (sf_numerology p \<le> 5) (Inr (sf_numerology p))"

section \<open>Slots as numbers\<close>

definition slots :: "sfnsf \<Rightarrow> nat" where
  "slots p = 2 ^ unat (sf_numerology p)"

definition sfn_ok :: "sfnsf \<Rightarrow> bool" where
  "sfn_ok p \<longleftrightarrow> sf_numerology p \<le> 5 \<and> unat (sf_subframe p) < 10 \<and> unat (sf_slot p) < slots p"

definition sfn_number :: "sfnsf \<Rightarrow> nat" where
  "sfn_number p = (unat (sf_frame p) * 10 + unat (sf_subframe p)) * slots p + unat (sf_slot p)"

lemma slots_bounds: "sf_numerology p \<le> 5 \<Longrightarrow> 1 \<le> slots p \<and> slots p \<le> 32"
proof -
  assume "sf_numerology p \<le> 5"
  then have "unat (sf_numerology p) \<le> 5"
    by (simp add: word_le_nat_alt)
  then have "slots p \<le> 2 ^ 5"
    unfolding slots_def by (rule power_increasing) simp
  then show ?thesis
    by (simp add: slots_def)
qed

lemma sfn_slots_per_subframe_eq:
  assumes "sf_numerology p \<le> 5"
  shows "sfn_slots_per_subframe p = Inr (of_nat (slots p))"
proof -
  have "sf_numerology p < 32"
    using assms by (simp add: word_le_nat_alt word_less_nat_alt)
  then show ?thesis
    by (simp add: sfn_slots_per_subframe_def slots_def push_bit_eq_mult)
qed

lemma sfn_number_parts:
  assumes "sfn_ok p"
  shows "sfn_number p mod slots p = unat (sf_slot p)"
    "sfn_number p div slots p = unat (sf_frame p) * 10 + unat (sf_subframe p)"
    "sfn_number p div slots p mod 10 = unat (sf_subframe p)"
    "sfn_number p div slots p div 10 = unat (sf_frame p)"
  using assms by (simp_all add: sfn_ok_def sfn_number_def)

lemma sfn_number_inj:
  assumes "sfn_ok p" "sfn_ok q" "sf_numerology p = sf_numerology q" "sfn_number p = sfn_number q"
  shows "p = q"
proof -
  have s: "slots p = slots q"
    using assms(3) by (simp add: slots_def)
  have "unat (sf_slot p) = unat (sf_slot q)" "unat (sf_subframe p) = unat (sf_subframe q)"
    "unat (sf_frame p) = unat (sf_frame q)"
    using sfn_number_parts [OF assms(1)] sfn_number_parts [OF assms(2)] assms(4) s by metis+
  then show ?thesis
    using assms(3) by (cases p; cases q) (simp add: word_unat_eq_iff)
qed

section \<open>Adding slots\<close>

lemma unat_ucast_32_8: "unat x < 256 \<Longrightarrow> unat (ucast x :: 8 word) = unat x" for x :: "32 word"
  by (simp add: unsigned_ucast_eq take_bit_nat_eq_self)

lemma mixed_radix:
  fixes f b t n s :: nat
  shows "((f + (b + (t + n) div s) div 10) * 10 + (b + (t + n) div s) mod 10) * s + (t + n) mod s =
    (f * 10 + b) * s + t + n"
proof -
  let ?q = "(t + n) div s"
  have "(f + (b + ?q) div 10) * 10 + (b + ?q) mod 10 = f * 10 + b + ?q"
    by simp
  then have "((f + (b + ?q) div 10) * 10 + (b + ?q) mod 10) * s + (t + n) mod s =
      (f * 10 + b + ?q) * s + (t + n) mod s"
    by simp
  also have "\<dots> = (f * 10 + b) * s + (?q * s + (t + n) mod s)"
    by (simp only: add_mult_distrib add.assoc)
  finally show ?thesis
    by (simp only: div_mult_mod_eq add.assoc)
qed

lemma sfn_add_eq:
  assumes "sfn_ok p" and "unat n < 2 ^ 31" and "sfn_number p + unat n < 2 ^ 32 * 10 * slots p"
  shows "\<exists>q. sfn_add n p = Inr q \<and> sfn_ok q \<and> sf_numerology q = sf_numerology p \<and>
    sfn_number q = sfn_number p + unat n"
proof -
  let ?s = "slots p" and ?t = "unat (sf_slot p)" and ?b = "unat (sf_subframe p)"
    and ?f = "unat (sf_frame p)"
  have ok: "sf_numerology p \<le> 5" "?b < 10" "?t < ?s"
    using assms(1) by (simp_all add: sfn_ok_def)
  have sb: "1 \<le> ?s" "?s \<le> 32"
    using slots_bounds [OF ok(1)] by simp_all
  let ?q = "(?t + unat n) div ?s"
  have us: "unat (of_nat ?s :: 32 word) = ?s"
    using sb by (simp add: unat_of_nat)
  have sum: "unat (ucast (sf_slot p) + n :: 32 word) = ?t + unat n"
    using assms(2) ok(3) sb(2) by (simp add: unat_word_ariths unat_ucast_8_32)
  have q: "unat ((ucast (sf_slot p) + n :: 32 word) div of_nat ?s) = ?q"
    by (simp add: unat_div_distrib sum us)
  have q_le: "?q \<le> ?t + unat n"
    by simp
  have sub: "unat (ucast (sf_subframe p) + (ucast (sf_slot p) + n :: 32 word) div of_nat ?s) = ?b + ?q"
  proof -
    have "?b + ?q < 2 ^ 32"
    proof -
      have "(2 :: nat) ^ 31 + 100 < 2 ^ 32"
        by simp
      with assms(2) ok(2,3) sb(2) q_le show ?thesis
        by linarith
    qed
    then show ?thesis
      unfolding unat_word_ariths(1) unat_ucast_8_32 q by simp
  qed
  have "?f + (?b + ?q) div 10 < 2 ^ 32"
  proof -
    have "((?f + (?b + ?q) div 10) * 10 + (?b + ?q) mod 10) * ?s + (?t + unat n) mod ?s < 2 ^ 32 * 10 * ?s"
      using assms(3) unfolding mixed_radix sfn_number_def by (simp only: add.assoc)
    then have "((?f + (?b + ?q) div 10) * 10 + (?b + ?q) mod 10) * ?s < (2 ^ 32 * 10) * ?s"
      by (rule le_less_trans [rotated]) simp
    then have "(?f + (?b + ?q) div 10) * 10 + (?b + ?q) mod 10 < 2 ^ 32 * 10"
      by (simp only: mult_less_cancel2)
    then show ?thesis
      by simp
  qed
  moreover have "unat ((ucast (sf_subframe p) + (ucast (sf_slot p) + n :: 32 word) div of_nat ?s)
      div sfn_subframes_per_frame) = (?b + ?q) div 10"
    unfolding unat_div_distrib sub sfn_subframes_per_frame_def by simp
  ultimately have frame: "unat (sf_frame p + (ucast (sf_subframe p) +
      (ucast (sf_slot p) + n) div of_nat ?s) div sfn_subframes_per_frame) = ?f + (?b + ?q) div 10"
    by (subst unat_add_lem [THEN iffD1]) simp_all
  have m10: "unat ((ucast (sf_subframe p) + (ucast (sf_slot p) + n :: 32 word) div of_nat ?s)
      mod sfn_subframes_per_frame) = (?b + ?q) mod 10"
    by (simp add: unat_mod_distrib sub sfn_subframes_per_frame_def)
  have subframe: "unat (ucast ((ucast (sf_subframe p) + (ucast (sf_slot p) + n :: 32 word) div of_nat ?s)
      mod sfn_subframes_per_frame) :: 8 word) = (?b + ?q) mod 10"
    using m10 by (subst unat_ucast_32_8) simp_all
  have ms: "unat ((ucast (sf_slot p) + n :: 32 word) mod of_nat ?s) = (?t + unat n) mod ?s"
    by (simp add: unat_mod_distrib sum us)
  have "(?t + unat n) mod ?s < ?s"
    by (rule mod_less_divisor) (use sb in simp)
  then have "(?t + unat n) mod ?s < 256"
    using sb(2) by linarith
  then have slot: "unat (ucast ((ucast (sf_slot p) + n :: 32 word) mod of_nat ?s) :: 8 word) =
      (?t + unat n) mod ?s"
    using ms by (subst unat_ucast_32_8) simp_all
  define q' where "q' = p\<lparr>sf_frame := sf_frame p + (ucast (sf_subframe p) +
      (ucast (sf_slot p) + n) div of_nat ?s) div sfn_subframes_per_frame,
      sf_subframe := ucast ((ucast (sf_subframe p) + (ucast (sf_slot p) + n :: 32 word) div of_nat ?s)
        mod sfn_subframes_per_frame),
      sf_slot := ucast ((ucast (sf_slot p) + n :: 32 word) mod of_nat ?s)\<rparr>"
  have "sfn_add n p = Inr q'"
    using ok(1) by (simp add: sfn_add_def sfn_slots_per_subframe_eq q'_def Let_def)
  moreover have num: "sf_numerology q' = sf_numerology p" "slots q' = ?s"
    by (simp_all add: q'_def slots_def)
  moreover have "sfn_ok q'"
    using ok(1) sb(1) num by (simp add: sfn_ok_def q'_def subframe slot)
  moreover have "sfn_number q' = sfn_number p + unat n"
  proof -
    have "unat (sf_frame q') = ?f + (?b + ?q) div 10" "unat (sf_subframe q') = (?b + ?q) mod 10"
      "unat (sf_slot q') = (?t + unat n) mod ?s"
      using frame subframe slot by (simp_all add: q'_def)
    then show ?thesis
      unfolding sfn_number_def num(2) by (simp only: mixed_radix)
  qed
  ultimately show ?thesis
    by blast
qed

section \<open>Decoding\<close>

lemma bit_encoding:
  fixes f :: "32 word" and a b c d :: "8 word"
  shows "bit (push_bit 32 (ucast f) OR push_bit 24 (ucast a) OR push_bit 16 (ucast b) OR
      push_bit 8 (ucast c) OR ucast d :: 64 word) i \<longleftrightarrow>
    (if i < 8 then bit d i else if i < 16 then bit c (i - 8) else if i < 24 then bit b (i - 16)
     else if i < 32 then bit a (i - 24) else i < 64 \<and> bit f (i - 32))"
proof -
  have l: "bit f j \<Longrightarrow> j < 32" "bit a j \<Longrightarrow> j < 8" "bit b j \<Longrightarrow> j < 8" "bit c j \<Longrightarrow> j < 8" "bit d j \<Longrightarrow> j < 8" for j
    using bit_imp_le_length [of f j] bit_imp_le_length [of a j] bit_imp_le_length [of b j]
    bit_imp_le_length [of c j] bit_imp_le_length [of d j] by simp_all
  have na: "\<not> bit a (i - 24)" if "\<not> i < 32" using l(2)[of "i - 24"] that by auto
  have nb: "\<not> bit b (i - 16)" if "\<not> i < 24" using l(3)[of "i - 16"] that by auto
  have nc: "\<not> bit c (i - 8)" if "\<not> i < 16" using l(4)[of "i - 8"] that by auto
  have nd: "\<not> bit d i" if "\<not> i < 8" using l(5)[of "i"] that by auto
  show ?thesis unfolding bit_or_iff bit_push_bit_iff bit_ucast_iff
    using na nb nc nd by auto
qed

lemma bit_field:
  fixes e :: "64 word"
  assumes "n + LENGTH('b::len) \<le> 64"
  shows "bit (ucast (drop_bit n (e AND push_bit n (mask LENGTH('b)))) :: 'b word) j \<longleftrightarrow> j < LENGTH('b) \<and> bit e (n + j)"
  unfolding bit_ucast_iff bit_drop_bit_eq comp_def bit_and_iff bit_push_bit_iff bit_mask_iff
  using assms by auto

lemma decode_fields:
  fixes f :: "32 word" and a b c d :: "8 word"
  defines "e \<equiv> push_bit 32 (ucast f) OR push_bit 24 (ucast a) OR push_bit 16 (ucast b) OR
      push_bit 8 (ucast c) OR ucast d :: 64 word"
  shows "ucast (drop_bit 32 (e AND 0xFFFFFFFF00000000)) = f"
    "ucast (drop_bit 24 (e AND 0x00000000FF000000)) = a"
    "ucast (drop_bit 16 (e AND 0x0000000000FF0000)) = b"
    "ucast (drop_bit 8 (e AND 0x000000000000FF00)) = c"
proof -
  have m: "(0xFFFFFFFF00000000 :: 64 word) = push_bit 32 (mask LENGTH(32))"
    "(0x00000000FF000000 :: 64 word) = push_bit 24 (mask LENGTH(8))"
    "(0x0000000000FF0000 :: 64 word) = push_bit 16 (mask LENGTH(8))"
    "(0x000000000000FF00 :: 64 word) = push_bit 8 (mask LENGTH(8))"
    by (simp_all add: mask_eq_exp_minus_1)
  show "ucast (drop_bit 32 (e AND 0xFFFFFFFF00000000)) = f"
    unfolding m by (rule bit_word_eqI, subst bit_field) (simp_all add: e_def bit_encoding)
  show "ucast (drop_bit 24 (e AND 0x00000000FF000000)) = a"
    unfolding m by (rule bit_word_eqI, subst bit_field) (simp_all add: e_def bit_encoding)
  show "ucast (drop_bit 16 (e AND 0x0000000000FF0000)) = b"
    unfolding m by (rule bit_word_eqI, subst bit_field) (simp_all add: e_def bit_encoding)
  show "ucast (drop_bit 8 (e AND 0x000000000000FF00)) = c"
    unfolding m by (rule bit_word_eqI, subst bit_field) (simp_all add: e_def bit_encoding)
qed
section \<open>Properties\<close>

text \<open>The 64 bit encoding of a time stamp with a supported numerology can be decoded: \<open>Decode\<close> gives the
  time stamp back, from the plain encoding and from the one that also holds a start symbol.\<close>

theorem sfn_encoding_roundtrip:
  "(if sf_numerology p \<le> 5 then \<exists>e. sfn_encode p = Inr e \<and> sfn_decode e = p
    else sfn_encode p = Inl Assert_failed) \<and>
   (if sf_numerology p \<le> 5 then \<exists>e. sfn_encoding_sym s p = Inr e \<and> sfn_decode e = p
    else sfn_encoding_sym s p = Inl Assert_failed)"
proof -
  have "push_bit 32 (ucast (sf_frame p)) OR push_bit 24 (ucast (sf_subframe p)) OR
      push_bit 16 (ucast (sf_slot p)) OR push_bit 8 (ucast (sf_numerology p)) =
      push_bit 32 (ucast (sf_frame p)) OR push_bit 24 (ucast (sf_subframe p)) OR
      push_bit 16 (ucast (sf_slot p)) OR push_bit 8 (ucast (sf_numerology p)) OR
      (ucast (0 :: 8 word) :: 64 word)"
    by simp
  then have "sfn_decode (push_bit 32 (ucast (sf_frame p)) OR push_bit 24 (ucast (sf_subframe p)) OR
      push_bit 16 (ucast (sf_slot p)) OR push_bit 8 (ucast (sf_numerology p))) = p"
    by (simp only: sfn_decode_def sfn_from_encoding_def decode_fields) (simp add: sfn_default_def)
  moreover have "sfn_decode (push_bit 32 (ucast (sf_frame p)) OR push_bit 24 (ucast (sf_subframe p)) OR
      push_bit 16 (ucast (sf_slot p)) OR push_bit 8 (ucast (sf_numerology p)) OR ucast s) = p"
    by (simp only: sfn_decode_def sfn_from_encoding_def decode_fields) (simp add: sfn_default_def)
  ultimately show ?thesis
    by (simp add: sfn_encode_def sfn_encoding_def sfn_encoding_sym_def)
qed

text \<open>Adding \<open>n\<close> slots to a valid time stamp gives the valid time stamp of the \<open>n\<close>-th slot after it,
  with the carries into the subframe and the frame, as long as the frame counter does not wrap.\<close>

theorem sfn_add_advances:
  assumes "sfn_ok p" and "unat n < 2 ^ 31" and "sfn_number p + unat n < 2 ^ 32 * 10 * slots p"
  shows "\<exists>q. sfn_add n p = Inr q \<and> sfn_ok q \<and> sf_numerology q = sf_numerology p \<and>
    sfn_number q = sfn_number p + unat n"
  by (rule sfn_add_eq [OF assms])

theorem sfn_add_advances_witness:
  "sfn_add 13 \<lparr>sf_frame = 4, sf_subframe = 9, sf_slot = 2, sf_numerology = 2\<rparr> =
     Inr \<lparr>sf_frame = 5, sf_subframe = 2, sf_slot = 3, sf_numerology = 2\<rparr>"
proof -
  let ?p = "\<lparr>sf_frame = 4, sf_subframe = 9, sf_slot = 2, sf_numerology = 2\<rparr>"
  let ?q = "\<lparr>sf_frame = 5, sf_subframe = 2, sf_slot = 3, sf_numerology = 2\<rparr>"
  have p: "sfn_ok ?p" "sfn_number ?p = 198" "slots ?p = 4" and q: "sfn_ok ?q" "sfn_number ?q = 211"
    by (simp_all add: sfn_ok_def sfn_number_def slots_def)
  from sfn_add_advances [OF p(1), of 13] p(2,3) obtain r where
    r: "sfn_add 13 ?p = Inr r" "sfn_ok r" "sf_numerology r = 2" "sfn_number r = 211"
    by auto
  then have "r = ?q"
    using q by (intro sfn_number_inj) simp_all
  with r(1) show ?thesis
    by simp
qed

lemma lex_radix:
  fixes f b t f' b' t' s :: nat
  assumes "b < 10" "b' < 10" "t < s" "t' < s"
  shows "(f * 10 + b) * s + t < (f' * 10 + b') * s + t' \<longleftrightarrow>
    f < f' \<or> f = f' \<and> (b < b' \<or> b = b' \<and> t < t')"
proof -
  have 1: "(x * s + t < y * s + t') \<longleftrightarrow> x < y \<or> x = y \<and> t < t'" for x y
  proof -
    consider "x < y" | "x = y" | "y < x"
      by linarith
    then show ?thesis
    proof cases
      case 1
      then have "Suc x * s \<le> y * s"
        by (intro mult_le_mono1) simp
      with 1 assms(3) show ?thesis by simp
    next
      case 3
      then have "Suc y * s \<le> x * s"
        by (intro mult_le_mono1) simp
      with 3 assms(4) show ?thesis by simp
    qed simp
  qed
  have 2: "(f * 10 + b < f' * 10 + b') \<longleftrightarrow> f < f' \<or> f = f' \<and> b < b'"
    using assms(1,2) by linarith
  have "(f * 10 + b = f' * 10 + b') \<longleftrightarrow> f = f' \<and> b = b'"
  proof -
    have "f * 10 + b < f' * 10 + b'" if "f < f'"
      using that assms(1,2) by linarith
    moreover have "f' * 10 + b' < f * 10 + b" if "f' < f"
      using that assms(1,2) by linarith
    ultimately show ?thesis
      by (cases f f' rule: linorder_cases) fastforce+
  qed
  with 1 2 show ?thesis
    by auto
qed

text \<open>The comparison operators order time stamps of one numerology exactly by the number of their
  slot.\<close>

theorem sfn_order_by_number:
  assumes "sfn_ok p" and "sfn_ok q" and "sf_numerology p = sf_numerology q"
  shows "sfn_less p q = Inr (sfn_number p < sfn_number q) \<and>
    sfn_eq p q = Inr (sfn_number p = sfn_number q)"
proof
  have s: "slots q = slots p"
    using assms(3) by (simp add: slots_def)
  have "sfn_less p q = Inr (unat (sf_frame p) < unat (sf_frame q) \<or>
      unat (sf_frame p) = unat (sf_frame q) \<and> (unat (sf_subframe p) < unat (sf_subframe q) \<or>
      unat (sf_subframe p) = unat (sf_subframe q) \<and> unat (sf_slot p) < unat (sf_slot q)))"
    using assms(3) by (auto simp: sfn_less_def word_less_nat_alt word_unat_eq_iff)
  also have "\<dots> = Inr (sfn_number p < sfn_number q)"
    using lex_radix [of "unat (sf_subframe p)" "unat (sf_subframe q)" "unat (sf_slot p)" "slots p"
        "unat (sf_slot q)" "unat (sf_frame p)" "unat (sf_frame q)"] assms(1,2) s
    by (simp add: sfn_number_def sfn_ok_def)
  finally show "sfn_less p q = Inr (sfn_number p < sfn_number q)" .
  show "sfn_eq p q = Inr (sfn_number p = sfn_number q)"
    using sfn_number_inj [OF assms] assms(3)
    by (auto simp: sfn_eq_def sfn_number_def slots_def)
qed

theorem sfn_order_by_number_witness:
  "sfn_less \<lparr>sf_frame = 4, sf_subframe = 9, sf_slot = 3, sf_numerology = 2\<rparr>
     \<lparr>sf_frame = 5, sf_subframe = 0, sf_slot = 1, sf_numerology = 2\<rparr> = Inr True"
  using sfn_order_by_number [of "\<lparr>sf_frame = 4, sf_subframe = 9, sf_slot = 3, sf_numerology = 2\<rparr>"
      "\<lparr>sf_frame = 5, sf_subframe = 0, sf_slot = 1, sf_numerology = 2\<rparr>"]
  by (simp add: sfn_ok_def sfn_number_def slots_def)

text \<open>The limits of the arithmetic: \<open>Normalize\<close> multiplies with 32 bits, so that a later frame can have
  a smaller number, and the stream encoding gives the frame 16 bits only, so that two different time
  stamps share one encoding.\<close>

theorem sfn_arithmetic_limits:
  "sfn_normalize \<lparr>sf_frame = 429496730, sf_subframe = 0, sf_slot = 0, sf_numerology = 0\<rparr> = Inr 4 \<and>
   sfn_normalize \<lparr>sf_frame = 429496729, sf_subframe = 0, sf_slot = 0, sf_numerology = 0\<rparr> =
     Inr 4294967290 \<and>
   sfn_encoding_stream 0 0 \<lparr>sf_frame = 65536, sf_subframe = 0, sf_slot = 0, sf_numerology = 0\<rparr> =
   sfn_encoding_stream 0 0 \<lparr>sf_frame = 0, sf_subframe = 0, sf_slot = 0, sf_numerology = 1\<rparr>"
  by code_simp

end
