(* ===== verification/Nr_Mac_Headers.thy ===== *)
theory Nr_Mac_Headers
  imports Ns_Prelude
begin

text \<open>
  The MAC subheaders of NR and the short buffer status report (\<open>contrib/nr/model/nr-mac-header-fs.cc\<close>,
  \<open>nr-mac-header-fs-ul.cc\<close>, \<open>nr-mac-header-fs-dl.cc\<close>, \<open>nr-mac-header-vs.cc\<close>, \<open>nr-mac-header-vs-ul.cc\<close>,
  \<open>nr-mac-header-vs-dl.cc\<close>, \<open>nr-mac-short-bsr-ce.cc\<close>). A buffer is the list of the bytes that an
  iterator still has before it; the zero area of \<open>Buffer\<close>, a storage optimisation, is not seen.
\<close>

unbundle bit_operations_syntax

section \<open>Reading and writing\<close>

definition write_u8 :: "8 word \<Rightarrow> bytes" where
  "write_u8 b = [b]"

definition write_hton_u16 :: "16 word \<Rightarrow> bytes" where
  "write_hton_u16 v = [ucast (drop_bit 8 v AND 0xff), ucast (drop_bit 0 v AND 0xff)]"

definition read_u8 :: "bytes \<Rightarrow> (8 word \<times> bytes) result" where
  "read_u8 bs = (case bs of b # r \<Rightarrow> Inr (b, r) | [] \<Rightarrow> Inl Assert_failed)"

definition read_ntoh_u16 :: "bytes \<Rightarrow> (16 word \<times> bytes) result" where
  "read_ntoh_u16 bs =
     (case bs of b0 # b1 # r \<Rightarrow> Inr (push_bit 8 (0 OR ucast b0) OR ucast b1, r)
      | _ \<Rightarrow> Inl Undefined_behaviour)"

section \<open>Headers of fixed size\<close>

definition fs_PADDING :: "8 word" where "fs_PADDING = 63"

definition fs_serialize :: "8 word \<Rightarrow> bytes" where
  "fs_serialize lcid = write_u8 (lcid AND 0x3F)"

definition fs_deserialize :: "bytes \<Rightarrow> (8 word \<times> 32 word \<times> bytes) result" where
  "fs_deserialize bs = res_map (\<lambda>(b, r). (b, 1, r)) (read_u8 bs)"

definition fs_serialized_size :: "32 word" where
  "fs_serialized_size = 1"

definition fs_set_lcid :: "8 word \<Rightarrow> 8 word result" where
  "fs_set_lcid lcId = ns_assert (lcId = fs_PADDING) (Inr fs_PADDING)"

definition fs_ul_SHORT_BSR :: "8 word" where "fs_ul_SHORT_BSR = 61"

definition fs_ul_is_fixed :: "8 word \<Rightarrow> bool" where
  "fs_ul_is_fixed lcid \<longleftrightarrow>
     (if lcid = 53 then True else if lcid = 55 then True else if lcid = 57 then True
      else if lcid = 58 then True else if lcid = 59 then True else if lcid = 61 then True
      else if lcid = fs_PADDING then True else False)"

definition fs_ul_set_lcid :: "8 word \<Rightarrow> 8 word result" where
  "fs_ul_set_lcid lcId = ns_assert (fs_ul_is_fixed lcId) (Inr lcId)"

definition fs_dl_is_fixed :: "8 word \<Rightarrow> bool" where
  "fs_dl_is_fixed lcid \<longleftrightarrow>
     (if lcid = 47 then True else if lcid = 48 then True else if lcid = 49 then True
      else if lcid = 51 then True else if lcid = 52 then True else if lcid = 56 then True
      else if lcid = 57 then True else if lcid = 58 then True else if lcid = 59 then True
      else if lcid = 60 then True else if lcid = 61 then True else if lcid = 62 then True
      else if lcid = fs_PADDING then True else False)"

definition fs_dl_set_lcid :: "8 word \<Rightarrow> 8 word result" where
  "fs_dl_set_lcid lcId = ns_assert (fs_dl_is_fixed lcId) (Inr lcId)"

section \<open>Headers of variable size\<close>

record vs_header =
  vs_lcid :: "8 word"
  vs_size :: "16 word"

definition vs_serialize :: "vs_header \<Rightarrow> bytes" where
  "vs_serialize h =
     (let firstByte = vs_lcid h AND 0x3F;
          firstByte = (if vs_size h > 127 then firstByte OR 0x40 else firstByte)
      in write_u8 firstByte @
         (if vs_size h > 127 then write_hton_u16 (vs_size h) else write_u8 (ucast (vs_size h))))"

definition vs_deserialize :: "bytes \<Rightarrow> (vs_header \<times> 32 word \<times> bytes) result" where
  "vs_deserialize bs =
     res_bind (read_u8 bs) (\<lambda>(firstByte, r).
     (let lcid = firstByte AND 0x3F;
          lFieldSize = firstByte AND 0xC0
      in res_bind
           (if lFieldSize = 0x40 then
              res_map (\<lambda>(v, r1). (v, (1 :: 32 word) + 2, r1)) (read_ntoh_u16 r)
            else if lFieldSize = 0x00 then
              res_map (\<lambda>(v, r1). (ucast v, (1 :: 32 word) + 1, r1)) (read_u8 r)
            else Inl Aborted)
           (\<lambda>(sz, readBytes, r1).
            ns_assert (if sz > 127 then readBytes = 3 else readBytes = 2)
              (Inr (\<lparr>vs_lcid = lcid, vs_size = sz\<rparr>, readBytes, r1)))))"

definition vs_serialized_size :: "vs_header \<Rightarrow> 32 word" where
  "vs_serialized_size h = (if vs_size h > 127 then 3 else 2)"

definition vs_eq :: "vs_header \<Rightarrow> vs_header \<Rightarrow> bool" where
  "vs_eq a b \<longleftrightarrow> vs_lcid a = vs_lcid b \<and> vs_size a = vs_size b"

definition vs_allowed :: "8 word list" where
  "vs_allowed = [1, 2, 3, 4, 5, 6, 7, 8, 9, 10, 11, 12, 13, 14, 15, 16, 17, 18, 19, 20, 21, 22,
     23, 24, 25, 26, 27, 28, 29, 30, 31, 32]"

definition vs_set_lcid :: "8 word \<Rightarrow> vs_header \<Rightarrow> vs_header result" where
  "vs_set_lcid lcId h = ns_assert (lcId \<in> set vs_allowed) (Inr (h\<lparr>vs_lcid := lcId\<rparr>))"

definition vs_set_size :: "16 word \<Rightarrow> vs_header \<Rightarrow> vs_header" where
  "vs_set_size sz h = h\<lparr>vs_size := sz\<rparr>"

definition vs_ul_is_variable :: "8 word \<Rightarrow> bool" where
  "vs_ul_is_variable lcid \<longleftrightarrow>
     (if lcid \<le> 32 then True else if lcid = 54 then True else if lcid = 56 then True
      else if lcid = 60 then True else if lcid = 62 then True else False)"

definition vs_ul_set_lcid :: "8 word \<Rightarrow> vs_header \<Rightarrow> vs_header result" where
  "vs_ul_set_lcid lcId h =
     (if lcId \<le> 32 then vs_set_lcid lcId h
      else (let h1 = h\<lparr>vs_lcid := lcId\<rparr> in ns_assert (vs_ul_is_variable (vs_lcid h1)) (Inr h1)))"

definition vs_dl_is_variable :: "8 word \<Rightarrow> bool" where
  "vs_dl_is_variable lcid \<longleftrightarrow>
     (if lcid \<le> 32 then True else if lcid = 50 then True else if lcid = 53 then True
      else if lcid = 54 then True else if lcid = 55 then True else False)"

definition vs_dl_set_lcid :: "8 word \<Rightarrow> vs_header \<Rightarrow> vs_header result" where
  "vs_dl_set_lcid lcId h =
     (if lcId \<le> 32 then vs_set_lcid lcId h
      else (let h1 = h\<lparr>vs_lcid := lcId\<rparr> in ns_assert (vs_dl_is_variable (vs_lcid h1)) (Inr h1)))"

section \<open>The short buffer status report\<close>

record short_bsr =
  bsr_header :: "8 word"
  bsr_level0 :: "8 word"
  bsr_level1 :: "8 word"
  bsr_level2 :: "8 word"
  bsr_level3 :: "8 word"

definition bsr_create :: "short_bsr result" where
  "bsr_create =
     res_map (\<lambda>l. \<lparr>bsr_header = l, bsr_level0 = 0, bsr_level1 = 0, bsr_level2 = 0, bsr_level3 = 0\<rparr>)
       (fs_ul_set_lcid fs_ul_SHORT_BSR)"

definition bsr_serialize :: "short_bsr \<Rightarrow> bytes result" where
  "bsr_serialize b =
     ns_assert (bsr_level0 b \<le> 31)
    (ns_assert (bsr_level1 b \<le> 31)
    (ns_assert (bsr_level2 b \<le> 31)
    (ns_assert (bsr_level3 b \<le> 31)
       (Inr (fs_serialize (bsr_header b) @ write_u8 (bsr_level0 b) @ write_u8 (bsr_level1 b) @
             write_u8 (bsr_level2 b) @ write_u8 (bsr_level3 b))))))"

definition bsr_serialized_size :: "short_bsr \<Rightarrow> 32 word" where
  "bsr_serialized_size b = fs_serialized_size + 4"

definition bsr_deserialize :: "bytes \<Rightarrow> (short_bsr \<times> 32 word \<times> bytes) result" where
  "bsr_deserialize bs =
     res_bind (fs_deserialize bs) (\<lambda>(h, n, r).
     ns_assert (h = fs_ul_SHORT_BSR)
    (res_bind (read_u8 r) (\<lambda>(l0, r).
     res_bind (read_u8 r) (\<lambda>(l1, r).
     res_bind (read_u8 r) (\<lambda>(l2, r).
     res_bind (read_u8 r) (\<lambda>(l3, r).
     (let b = \<lparr>bsr_header = h, bsr_level0 = l0, bsr_level1 = l1, bsr_level2 = l2, bsr_level3 = l3\<rparr>
      in Inr (b, bsr_serialized_size b, r))))))))"

definition bsr_eq :: "short_bsr \<Rightarrow> short_bsr \<Rightarrow> bool" where
  "bsr_eq a b \<longleftrightarrow> bsr_level0 a = bsr_level0 b \<and> bsr_level1 a = bsr_level1 b \<and>
     bsr_level2 a = bsr_level2 b \<and> bsr_level3 a = bsr_level3 b"

section \<open>Buffer size levels\<close>

definition bsr_table :: "64 word list" where
  "bsr_table = [0, 10, 14, 20, 28, 38, 53, 74, 102, 142, 198, 276, 384, 535, 745, 1038, 1446, 2014,
     2806, 3909, 5446, 7587, 10570, 14726, 20516, 28581, 39818, 55474, 77284, 107669, 150000]"

text \<open>The search of \<open>FromBytesToLevel\<close>; reading behind the table is undefined.\<close>

function bsr_search :: "64 word \<Rightarrow> 8 word \<Rightarrow> 8 word result" where
  "bsr_search bufferSize index =
     (if unat index < length bsr_table then
        (if bsr_table ! unat index < bufferSize then bsr_search bufferSize (index + 1) else Inr index)
      else Inl Undefined_behaviour)"
  by pat_completeness auto
termination
proof (relation "measure (\<lambda>(_, index). length bsr_table - unat index)")
  fix bufferSize :: "64 word" and index :: "8 word"
  assume i: "unat index < length bsr_table"
  then have "unat (index + 1) = Suc (unat index)"
    by (simp add: bsr_table_def unat_word_ariths)
  with i show "((bufferSize, index + 1), (bufferSize, index)) \<in>
      measure (\<lambda>(_, index). length bsr_table - unat index)"
    by simp
qed simp

declare bsr_search.simps [simp del]

definition bsr_from_bytes :: "64 word \<Rightarrow> 8 word result" where
  "bsr_from_bytes bufferSize =
     ns_assert (last bsr_table = 150000)
       (res_bind
          (if bufferSize > last bsr_table then Inr 31
           else if bufferSize = 0 then Inr 0
           else bsr_search bufferSize 0)
          (\<lambda>index. ns_assert (index \<le> 31) (Inr index)))"

definition bsr_from_level :: "8 word \<Rightarrow> 64 word" where
  "bsr_from_level bufferLevel =
     (if unat bufferLevel > length bsr_table - 1 then 150000 * 8 else bsr_table ! unat bufferLevel)"

section \<open>Round trips of the headers\<close>

lemma vs_size_byte:
  assumes "\<not> v > 127"
  shows "ucast (ucast v :: 8 word) = (v :: 16 word)"
proof -
  have "unat v < 256"
    using assms by (simp add: word_less_nat_alt not_less)
  then show ?thesis
    by (simp add: word_unat_eq_iff unsigned_ucast_eq unsigned_take_bit_eq take_bit_nat_eq_self)
qed

lemma hton_roundtrip:
  fixes v :: "16 word"
  shows "push_bit 8 (0 OR ucast (ucast (drop_bit 8 v AND 0xff) :: 8 word)) OR
     ucast (ucast (drop_bit 0 v AND 0xff) :: 8 word) = v"
proof -
  have m: "(0xff :: 16 word) = mask 8"
    by (simp add: mask_eq_exp_minus_1)
  show ?thesis
  proof (rule bit_word_eqI)
    fix n assume n: "n < LENGTH(16)"
    show "bit (push_bit 8 (0 OR ucast (ucast (drop_bit 8 v AND 0xff) :: 8 word)) OR
        ucast (ucast (drop_bit 0 v AND 0xff) :: 8 word) :: 16 word) n = bit v n"
      unfolding m using n by (cases "n < 8") (auto simp: bit_simps)
  qed
qed

lemma ntoh_roundtrip:
  fixes b0 b1 :: "8 word"
  defines "v \<equiv> push_bit 8 (0 OR ucast b0) OR ucast b1 :: 16 word"
  shows "ucast (drop_bit 8 v AND 0xff) = b0" "ucast (drop_bit 0 v AND 0xff) = b1"
proof -
  have m: "(0xff :: 16 word) = mask 8"
    by (simp add: mask_eq_exp_minus_1)
  show "ucast (drop_bit 8 v AND 0xff) = b0"
    unfolding v_def m
    by (rule bit_word_eqI) (auto simp: bit_simps dest: bit_imp_le_length)
  show "ucast (drop_bit 0 v AND 0xff) = b1"
    unfolding v_def m
    by (rule bit_word_eqI) (auto simp: bit_simps dest: bit_imp_le_length)
qed

text \<open>The bits of the first byte.\<close>

lemma first_byte_fields:
  fixes l :: "8 word"
  shows "(l AND 0x3F) AND 0x3F = l AND 0x3F" "(l AND 0x3F) AND 0xC0 = 0"
    "((l AND 0x3F) OR 0x40) AND 0x3F = l AND 0x3F" "((l AND 0x3F) OR 0x40) AND 0xC0 = 0x40"
  by (simp_all add: bit.conj_disj_distrib2 and.assoc)

lemma first_byte_split:
  fixes b :: "8 word"
  shows "(b AND 0x3F) OR (b AND 0xC0) = b"
proof -
  have "(b AND 0x3F) OR (b AND 0xC0) = b AND (0x3F OR 0xC0)"
    by (simp only: bit.conj_disj_distrib)
  also have "(0x3F OR 0xC0 :: 8 word) = - 1"
    by simp
  finally show ?thesis
    by simp
qed

lemma lcid_fits:
  fixes l :: "8 word"
  assumes "l < 64"
  shows "l AND 0x3F = l"
proof -
  have m: "(0x3F :: 8 word) = mask 6"
    by (simp add: mask_eq_exp_minus_1)
  have "unat l < 2 ^ 6"
    using assms by (simp add: word_less_nat_alt)
  then have "take_bit 6 l = l"
    by (simp add: word_unat_eq_iff unsigned_take_bit_eq take_bit_nat_eq_self)
  then show ?thesis
    by (simp only: m take_bit_eq_mask)
qed

lemma vs_deserialize_serialize:
  "vs_deserialize (vs_serialize h @ r) =
    Inr (h\<lparr>vs_lcid := vs_lcid h AND 0x3F\<rparr>, vs_serialized_size h, r)"
proof (cases "vs_size h > 127")
  case True
  then show ?thesis
    by (simp add: vs_deserialize_def vs_serialize_def read_u8_def write_u8_def read_ntoh_u16_def
        write_hton_u16_def Let_def first_byte_fields vs_serialized_size_def)
      (use hton_roundtrip [of "vs_size h"] in simp)
next
  case False
  then show ?thesis
    using vs_size_byte [OF False]
    by (simp add: vs_deserialize_def vs_serialize_def read_u8_def write_u8_def Let_def
        first_byte_fields vs_serialized_size_def)
qed

lemma byte_size_small:
  fixes b :: "8 word"
  shows "ucast (ucast b :: 16 word) = b"
  using unat8_less [of b] by (simp add: word_unat_eq_iff unsigned_ucast_eq unsigned_take_bit_eq take_bit_nat_eq_self)

lemma vs_serialize_deserialize:
  assumes "vs_deserialize bs = Inr (h, n, r)"
  shows "bs = vs_serialize h @ r \<and> unat n = length (vs_serialize h) \<and> vs_lcid h < 64"
proof -
  obtain b0 r0 where bs: "bs = b0 # r0"
    using assms by (cases bs) (auto simp: vs_deserialize_def read_u8_def)
  have lcid: "vs_lcid h = b0 AND 0x3F"
    using assms by (auto simp: bs vs_deserialize_def read_u8_def result_elims Let_def)
  have "b0 AND 0x3F \<le> 0x3F"
    by (rule word_and_le1)
  then have lt: "b0 AND 0x3F < 64"
    by (simp add: word_less_nat_alt word_le_nat_alt)
  consider "b0 AND 0xC0 = 0x40" | "b0 AND 0xC0 = 0"
    using assms by (auto simp: bs vs_deserialize_def read_u8_def result_elims Let_def split: if_splits)
  then show ?thesis
  proof cases
    case 1
    then obtain b1 b2 r1 where r0: "r0 = b1 # b2 # r1"
      using assms
      by (auto simp: bs vs_deserialize_def read_u8_def read_ntoh_u16_def Let_def
          split: list.splits if_splits)
    have sz: "vs_size h = push_bit 8 (0 OR ucast b1) OR ucast b2" and big: "vs_size h > 127"
      and n: "n = 3" and r: "r = r1"
      using assms 1
      by (auto simp: bs r0 vs_deserialize_def read_u8_def read_ntoh_u16_def Let_def result_elims
          split: if_splits)
    have "(b0 AND 0x3F) OR 0x40 = b0"
      using first_byte_split [of b0] 1 by simp
    then show ?thesis
      using big lt ntoh_roundtrip [of b1 b2] unfolding sz [symmetric]
      by (simp add: vs_serialize_def Let_def lcid first_byte_fields write_u8_def write_hton_u16_def
          bs r0 n r del: drop_bit_0)
  next
    case 2
    then obtain b1 r1 where r0: "r0 = b1 # r1"
      using assms
      by (auto simp: bs vs_deserialize_def read_u8_def Let_def split: list.splits if_splits)
    have sz: "vs_size h = ucast b1" and small: "\<not> vs_size h > 127" and n: "n = 2" and r: "r = r1"
      using assms 2
      by (auto simp: bs r0 vs_deserialize_def read_u8_def Let_def result_elims split: if_splits)
    have "b0 AND 0x3F = b0"
      using first_byte_split [of b0] 2 by simp
    then show ?thesis
      using small lt byte_size_small [of b1] unfolding sz
      by (simp add: vs_serialize_def Let_def lcid sz first_byte_fields write_u8_def bs r0 n r)
  qed
qed

section \<open>Properties of the headers\<close>

text \<open>C33: The variable-size subheader and its bytes determine each other: reading what was written gives the
  header and the rest of the buffer back, and whatever \<open>Deserialize\<close> accepts is what \<open>Serialize\<close>
  writes for its result, in exactly the number of bytes returned.\<close>

theorem vs_header_roundtrip:
  "(vs_lcid h < 64 \<longrightarrow> vs_deserialize (vs_serialize h @ r) = Inr (h, vs_serialized_size h, r)) \<and>
   (vs_deserialize bs = Inr (h', n, r') \<longrightarrow>
      bs = vs_serialize h' @ r' \<and> unat n = length (vs_serialize h') \<and> vs_lcid h' < 64)"
  using vs_deserialize_serialize [of h r] lcid_fits [of "vs_lcid h"] vs_serialize_deserialize [of bs h' n r']
  by simp

theorem vs_header_roundtrip_witness:
  "vs_deserialize [0x44, 0x01, 0x2c, 9] = Inr (\<lparr>vs_lcid = 4, vs_size = 300\<rparr>, 3, [9])"
proof -
  have "vs_serialize \<lparr>vs_lcid = 4, vs_size = 300\<rparr> @ [9] = [0x44, 0x01, 0x2c, 9]"
    by code_simp
  then show ?thesis
    using vs_header_roundtrip [of "\<lparr>vs_lcid = 4, vs_size = 300\<rparr>" "[9]"]
    by (simp add: vs_serialized_size_def)
qed

text \<open>The logical channel ids of fixed and of variable subheaders are disjoint in each direction, every
  id that a \<open>SetLcId\<close> accepts fits the six bits of the header, and \<open>SetLcId\<close> of the variable headers
  rejects 0 although \<open>IsVariableSizeHeader\<close> admits it.\<close>

theorem header_kinds_disjoint:
  "\<not> (fs_ul_is_fixed l \<and> vs_ul_is_variable l) \<and> \<not> (fs_dl_is_fixed l \<and> vs_dl_is_variable l) \<and>
   (fs_ul_set_lcid l = Inr l \<or> fs_dl_set_lcid l = Inr l \<longrightarrow> l < 64) \<and>
   (vs_ul_set_lcid l h = Inr h' \<or> vs_dl_set_lcid l h = Inr h' \<longrightarrow> l < 64 \<and> vs_lcid h' = l \<and> l \<noteq> 0)"
proof (intro conjI)
  show "\<not> (fs_ul_is_fixed l \<and> vs_ul_is_variable l)" "\<not> (fs_dl_is_fixed l \<and> vs_dl_is_variable l)"
    by (auto simp: fs_ul_is_fixed_def vs_ul_is_variable_def fs_dl_is_fixed_def vs_dl_is_variable_def
        fs_PADDING_def split: if_splits)
  show "fs_ul_set_lcid l = Inr l \<or> fs_dl_set_lcid l = Inr l \<longrightarrow> l < 64"
    by (auto simp: fs_ul_set_lcid_def fs_dl_set_lcid_def fs_ul_is_fixed_def fs_dl_is_fixed_def
        fs_PADDING_def result_elims split: if_splits)
  have all: "k < 64 \<and> k \<noteq> 0" if "k \<in> set vs_allowed" for k
  proof -
    have "list_all (\<lambda>k. k < 64 \<and> k \<noteq> 0) vs_allowed"
      by code_simp
    with that show ?thesis
      by (simp add: list_all_iff)
  qed
  show "vs_ul_set_lcid l h = Inr h' \<or> vs_dl_set_lcid l h = Inr h' \<longrightarrow>
      l < 64 \<and> vs_lcid h' = l \<and> l \<noteq> 0"
    using all [of l]
    by (auto simp: vs_ul_set_lcid_def vs_dl_set_lcid_def vs_set_lcid_def vs_ul_is_variable_def
        vs_dl_is_variable_def result_elims Let_def split: if_splits)
qed

theorem header_kinds_disjoint_witness: "vs_lcid \<lparr>vs_lcid = 62, vs_size = 5\<rparr> = 62 \<and> (62 :: 8 word) < 64"
proof -
  have "vs_ul_set_lcid 62 \<lparr>vs_lcid = 0, vs_size = 5\<rparr> = Inr \<lparr>vs_lcid = 62, vs_size = 5\<rparr>"
    by code_simp
  with header_kinds_disjoint [of 62 "\<lparr>vs_lcid = 0, vs_size = 5\<rparr>" "\<lparr>vs_lcid = 62, vs_size = 5\<rparr>"]
  show ?thesis
    by blast
qed

section \<open>Properties of the buffer status report\<close>

text \<open>A short buffer status report whose levels are at most 31 can be written, and reading it gives it and
  the rest of the buffer back; a level above 31 fails an assertion of \<open>Serialize\<close>.\<close>

theorem short_bsr_roundtrip:
  assumes "bsr_header b = fs_ul_SHORT_BSR"
  shows "if \<forall>l \<in> {bsr_level0 b, bsr_level1 b, bsr_level2 b, bsr_level3 b}. l \<le> 31
    then \<exists>bs. bsr_serialize b = Inr bs \<and> length bs = 5 \<and>
           (\<forall>r. bsr_deserialize (bs @ r) = Inr (b, bsr_serialized_size b, r))
    else bsr_serialize b = Inl Assert_failed"
  using assms
  by (cases b) (auto simp: bsr_serialize_def bsr_deserialize_def fs_serialize_def fs_deserialize_def
      fs_ul_SHORT_BSR_def read_u8_def write_u8_def ns_assert_def Let_def)

theorem short_bsr_roundtrip_witness:
  "\<exists>b bs. bsr_create = Inr b \<and> bsr_serialize b = Inr bs \<and>
     bsr_deserialize (bs @ [7]) = Inr (b, bsr_serialized_size b, [7])"
proof -
  define b where "b = \<lparr>bsr_header = 61, bsr_level0 = 0, bsr_level1 = 0, bsr_level2 = 0, bsr_level3 = 0\<rparr>"
  have b: "bsr_create = Inr b" "bsr_header b = fs_ul_SHORT_BSR"
    unfolding b_def by code_simp+
  from short_bsr_roundtrip [OF b(2)] b(1) show ?thesis
    by (auto simp: b_def)
qed

lemma bsr_table_props:
  "length bsr_table = 31" "last bsr_table = 150000" "bsr_table ! 0 = 0"
  by (simp_all add: bsr_table_def)

lemma bsr_search_eq:
  assumes "unat index \<le> 30" and "b \<le> 150000" and "\<forall>j < unat index. bsr_table ! j < b"
  shows "\<exists>l. bsr_search b index = Inr l \<and> unat l \<le> 30 \<and> b \<le> bsr_table ! unat l \<and>
    (\<forall>j < unat l. bsr_table ! j < b)"
  using assms
proof (induction b index rule: bsr_search.induct)
  case (1 b i)
  show ?case
  proof (cases "bsr_table ! unat i < b")
    case True
    have "unat i \<noteq> 30"
    proof
      assume "unat i = 30"
      then have "bsr_table ! unat i = 150000"
        by (simp add: bsr_table_def)
      with True "1.prems"(2) show False
        by simp
    qed
    then have lt: "unat i < 30"
      using "1.prems"(1) by simp
    then have u: "unat (i + 1) = Suc (unat i)"
      by (simp add: unat_word_ariths)
    have "bsr_search b i = bsr_search b (i + 1)"
      using True lt by (simp add: bsr_search.simps [of b i] bsr_table_props)
    moreover have "\<forall>j < unat (i + 1). bsr_table ! j < b"
      using "1.prems"(3) True u by (auto simp: less_Suc_eq)
    ultimately show ?thesis
      using "1.IH" True lt u "1.prems"(2) bsr_table_props(1) by simp
  next
    case False
    then have "bsr_search b i = Inr i"
      using "1.prems"(1) by (simp add: bsr_search.simps [of b i] bsr_table_props)
    with False "1.prems" show ?thesis
      by auto
  qed
qed

lemma bsr_from_bytes_level:
  "\<exists>l. bsr_from_bytes b = Inr l \<and> l \<le> 31 \<and>
     (if b \<le> 150000 then unat l \<le> 30 \<and> b \<le> bsr_table ! unat l \<and> (\<forall>j < unat l. bsr_table ! j < b)
      else l = 31)"
proof -
  consider "b > 150000" | "b = 0" | "b \<le> 150000" "b \<noteq> 0"
    by force
  then show ?thesis
  proof cases
    case 3
    obtain l where l: "bsr_search b 0 = Inr l" "unat l \<le> 30" "b \<le> bsr_table ! unat l"
      "\<forall>j < unat l. bsr_table ! j < b"
      using bsr_search_eq [of 0 b] 3 by auto
    then have "l \<le> 31"
      by (simp add: word_le_nat_alt)
    with 3 l show ?thesis
      by (simp add: bsr_from_bytes_def bsr_table_props)
  qed (simp_all add: bsr_from_bytes_def bsr_table_props)
qed

lemma bsr_table_sorted:
  assumes "i < j" and "j \<le> 30"
  shows "bsr_table ! i < bsr_table ! j"
proof -
  have "sorted_wrt (<) bsr_table"
    by code_simp
  then show ?thesis
    using assms by (simp add: sorted_wrt_iff_nth_less bsr_table_props)
qed

lemma bsr_level_of_entry:
  assumes "i \<le> 30" and "unat l \<le> 30" and "bsr_table ! i \<le> bsr_table ! unat l"
    and "\<forall>j < unat l. bsr_table ! j < bsr_table ! i"
  shows "unat l = i"
  using assms bsr_table_sorted [of "unat l" i] bsr_table_sorted [of i "unat l"]
  by (cases "unat l" i rule: linorder_cases) auto

lemma bsr_entry_le: "i \<le> 30 \<Longrightarrow> bsr_table ! i \<le> 150000"
  using bsr_table_sorted [of i 30] by (cases "i = 30") (auto simp: bsr_table_def)

text \<open>C38: \<open>FromBytesToLevel\<close> returns for every buffer size: the least level of the table of TS 38.321
  that covers the size up to 150000 bytes, and level 31 above it, so that the levels it gives always
  pass the assertions of \<open>Serialize\<close>.\<close>

theorem bsr_level_least:
  "\<exists>l. bsr_from_bytes b = Inr l \<and> l \<le> 31 \<and>
     (if b \<le> 150000 then b \<le> bsr_from_level l \<and> (\<forall>k < l. bsr_from_level k < b) else l = 31)"
proof -
  obtain l where l: "bsr_from_bytes b = Inr l" "l \<le> 31"
    "if b \<le> 150000 then unat l \<le> 30 \<and> b \<le> bsr_table ! unat l \<and> (\<forall>j < unat l. bsr_table ! j < b)
      else l = 31"
    using bsr_from_bytes_level [of b] by blast
  have "bsr_from_level k < b" if "b \<le> 150000" and "k < l" for k
    using l that by (simp add: bsr_from_level_def bsr_table_props word_less_nat_alt)
  with l show ?thesis
    by (intro exI [of _ l]) (auto simp: bsr_from_level_def bsr_table_props split: if_splits)
qed

theorem bsr_level_least_witness: "bsr_from_bytes 54 = Inr 7 \<and> bsr_from_level 6 < (54 :: 64 word)"
proof -
  have e: "bsr_from_bytes 54 = Inr 7"
    by code_simp
  moreover have "(54 :: 64 word) \<le> 150000" "(6 :: 8 word) < 7"
    by simp_all
  ultimately show ?thesis
    using bsr_level_least [of 54] by auto
qed

text \<open>A buffer status report that is decoded and encoded again keeps its level, the bytes it stands for
  are at least the bytes reported up to 1200000 bytes, and fewer than these beyond.\<close>

theorem bsr_levels_stable:
  "bsr_from_bytes (bsr_from_level l) = Inr (if l \<le> 31 then l else 31) \<and>
   (\<forall>k. bsr_from_bytes b = Inr k \<longrightarrow> (b \<le> bsr_from_level k \<longleftrightarrow> b \<le> 1200000))"
proof
  show "bsr_from_bytes (bsr_from_level l) = Inr (if l \<le> 31 then l else 31)"
  proof (cases "unat l \<le> 30")
    case True
    then have v: "bsr_from_level l = bsr_table ! unat l"
      by (simp add: bsr_from_level_def bsr_table_props)
    obtain k where k: "bsr_from_bytes (bsr_table ! unat l) = Inr k" "unat k \<le> 30"
      "bsr_table ! unat l \<le> bsr_table ! unat k" "\<forall>j < unat k. bsr_table ! j < bsr_table ! unat l"
      using bsr_from_bytes_level [of "bsr_table ! unat l"] bsr_entry_le [OF True] by auto
    then have "k = l"
      using bsr_level_of_entry [of "unat l" k] True by (simp add: word_unat_eq_iff)
    then show ?thesis
      using k(1) True v by (simp add: word_le_nat_alt)
  next
    case False
    then have "bsr_from_level l = 1200000"
      by (simp add: bsr_from_level_def bsr_table_props)
    moreover have "bsr_from_bytes 1200000 = Inr 31"
      by code_simp
    moreover have "l = 31 \<or> \<not> l \<le> 31"
      using False by (auto simp: word_le_nat_alt word_unat_eq_iff)
    ultimately show ?thesis
      by auto
  qed
  show "\<forall>k. bsr_from_bytes b = Inr k \<longrightarrow> (b \<le> bsr_from_level k \<longleftrightarrow> b \<le> 1200000)"
  proof (intro allI impI)
    fix k assume "bsr_from_bytes b = Inr k"
    with bsr_from_bytes_level [of b] have k: "if b \<le> 150000 then b \<le> bsr_from_level k else k = 31"
      by (auto simp: bsr_from_level_def bsr_table_props split: if_splits)
    show "b \<le> bsr_from_level k \<longleftrightarrow> b \<le> 1200000"
    proof (cases "b \<le> 150000")
      case True
      moreover have "(150000 :: 64 word) \<le> 1200000" by simp
      ultimately show ?thesis
        using k by (auto intro: order_trans)
    next
      case False
      with k have "k = 31" by simp
      then show ?thesis
        by (simp add: bsr_from_level_def bsr_table_props)
    qed
  qed
qed

theorem bsr_levels_stable_witness: "bsr_from_bytes 200000 = Inr 31 \<and> (200000 :: 64 word) \<le> bsr_from_level 31"
proof -
  have "bsr_from_bytes 200000 = Inr 31"
    by code_simp
  with bsr_levels_stable [of 31 200000] show ?thesis
    by simp
qed

end
