(* ===== verification/Eps_Bearer.thy ===== *)
theory Eps_Bearer
  imports Ns_Prelude
begin

text \<open>
  The bearers of LTE and NR, \<open>src/lte/model/eps-bearer.h\<close> and \<open>eps-bearer.cc\<close>: the QoS class
  indicators, the tables of their requirements in three releases of the standard, the selection of
  a table and the lookups in it. A packet error rate is one of the literals \<open>1.0e-2\<close> to \<open>1.0e-8\<close>,
  which the code only stores and returns: the model keeps the exponent. The tables are maps without
  duplicate keys that are only searched; the models keep them in the order of the source.
\<close>

section \<open>Data\<close>

datatype qci_name =
    GBR_CONV_VOICE
  | GBR_CONV_VIDEO
  | GBR_GAMING
  | GBR_NON_CONV_VIDEO
  | GBR_MC_PUSH_TO_TALK
  | GBR_NMC_PUSH_TO_TALK
  | GBR_MC_VIDEO
  | GBR_V2X
  | GBR_LIVE_UL_71
  | GBR_LIVE_UL_72
  | GBR_LIVE_UL_73
  | GBR_LIVE_UL_74
  | GBR_LIVE_UL_76
  | NGBR_IMS
  | NGBR_VIDEO_TCP_OPERATOR
  | NGBR_VOICE_VIDEO_GAMING
  | NGBR_VIDEO_TCP_PREMIUM
  | NGBR_VIDEO_TCP_DEFAULT
  | NGBR_MC_DELAY_SIGNAL
  | NGBR_MC_DATA
  | NGBR_V2X
  | NGBR_LOW_LAT_EMBB
  | DGBR_DISCRETE_AUT_SMALL
  | DGBR_DISCRETE_AUT_LARGE
  | DGBR_ITS
  | DGBR_ELECTRICITY
  | DGBR_V2X
  | DGBR_INTER_SERV_87
  | DGBR_INTER_SERV_88
  | DGBR_VISUAL_CONTENT_89
  | DGBR_VISUAL_CONTENT_90

text \<open>A \<open>Qci\<close> is any 8-bit number: the scheduler converts integers to it.\<close>

fun Qci :: "qci_name \<Rightarrow> 8 word" where
  "Qci GBR_CONV_VOICE = 1"
| "Qci GBR_CONV_VIDEO = 2"
| "Qci GBR_GAMING = 3"
| "Qci GBR_NON_CONV_VIDEO = 4"
| "Qci GBR_MC_PUSH_TO_TALK = 65"
| "Qci GBR_NMC_PUSH_TO_TALK = 66"
| "Qci GBR_MC_VIDEO = 67"
| "Qci GBR_V2X = 75"
| "Qci GBR_LIVE_UL_71 = 71"
| "Qci GBR_LIVE_UL_72 = 72"
| "Qci GBR_LIVE_UL_73 = 73"
| "Qci GBR_LIVE_UL_74 = 74"
| "Qci GBR_LIVE_UL_76 = 76"
| "Qci NGBR_IMS = 5"
| "Qci NGBR_VIDEO_TCP_OPERATOR = 6"
| "Qci NGBR_VOICE_VIDEO_GAMING = 7"
| "Qci NGBR_VIDEO_TCP_PREMIUM = 8"
| "Qci NGBR_VIDEO_TCP_DEFAULT = 9"
| "Qci NGBR_MC_DELAY_SIGNAL = 69"
| "Qci NGBR_MC_DATA = 70"
| "Qci NGBR_V2X = 79"
| "Qci NGBR_LOW_LAT_EMBB = 80"
| "Qci DGBR_DISCRETE_AUT_SMALL = 82"
| "Qci DGBR_DISCRETE_AUT_LARGE = 83"
| "Qci DGBR_ITS = 84"
| "Qci DGBR_ELECTRICITY = 85"
| "Qci DGBR_V2X = 86"
| "Qci DGBR_INTER_SERV_87 = 87"
| "Qci DGBR_INTER_SERV_88 = 88"
| "Qci DGBR_VISUAL_CONTENT_89 = 89"
| "Qci DGBR_VISUAL_CONTENT_90 = 90"

record gbr_qos =
  gbrDl :: "64 word"
  gbrUl :: "64 word"
  mbrDl :: "64 word"
  mbrUl :: "64 word"

definition gbr_qos_default :: gbr_qos where
  "gbr_qos_default = \<lparr>gbrDl = 0, gbrUl = 0, mbrDl = 0, mbrUl = 0\<rparr>"

record alloc_retention =
  arp_level :: "8 word"
  arp_capability :: bool
  arp_vulnerability :: bool

definition alloc_retention_default :: alloc_retention where
  "alloc_retention_default = \<lparr>arp_level = 0, arp_capability = False, arp_vulnerability = False\<rparr>"

record requirements =
  req_resource_type :: "8 word"
  req_priority :: "8 word"
  req_delay_budget :: "16 word"
  req_error_exp :: nat
  req_max_burst :: "32 word"
  req_avg_window :: "32 word"

type_synonym requirements_map = "(8 word \<times> requirements) list"

section \<open>The tables\<close>

definition requirement ::
    "qci_name \<Rightarrow> 8 word \<Rightarrow> 8 word \<Rightarrow> 16 word \<Rightarrow> nat \<Rightarrow> 32 word \<Rightarrow> 32 word \<Rightarrow> 8 word \<times> requirements"
  where
  "requirement n rt prio delay per burst window =
     (Qci n, \<lparr>req_resource_type = rt, req_priority = prio, req_delay_budget = delay,
             req_error_exp = per, req_max_burst = burst, req_avg_window = window\<rparr>)"

definition requirements_rel11 :: requirements_map where
  "requirements_rel11 =
    [requirement GBR_CONV_VOICE 1 2 100 2 0 0,
     requirement GBR_CONV_VIDEO 1 4 150 3 0 0,
     requirement GBR_GAMING 1 3 50 3 0 0,
     requirement GBR_NON_CONV_VIDEO 1 5 300 6 0 0,
     requirement NGBR_IMS 0 1 100 6 0 0,
     requirement NGBR_VIDEO_TCP_OPERATOR 0 6 300 6 0 0,
     requirement NGBR_VOICE_VIDEO_GAMING 0 7 100 3 0 0,
     requirement NGBR_VIDEO_TCP_PREMIUM 0 8 300 6 0 0,
     requirement NGBR_VIDEO_TCP_DEFAULT 0 9 300 6 0 0]"

definition requirements_rel15 :: requirements_map where
  "requirements_rel15 =
    [requirement GBR_CONV_VOICE 1 20 100 2 0 2000,
     requirement GBR_CONV_VIDEO 1 40 150 3 0 2000,
     requirement GBR_GAMING 1 30 50 3 0 2000,
     requirement GBR_NON_CONV_VIDEO 1 50 300 6 0 2000,
     requirement GBR_MC_PUSH_TO_TALK 1 7 75 2 0 2000,
     requirement GBR_NMC_PUSH_TO_TALK 1 20 100 2 0 2000,
     requirement GBR_MC_VIDEO 1 15 100 3 0 2000,
     requirement GBR_V2X 1 25 50 2 0 2000,
     requirement NGBR_IMS 0 10 100 6 0 0,
     requirement NGBR_VIDEO_TCP_OPERATOR 0 60 300 6 0 0,
     requirement NGBR_VOICE_VIDEO_GAMING 0 70 100 3 0 0,
     requirement NGBR_VIDEO_TCP_PREMIUM 0 80 300 6 0 0,
     requirement NGBR_VIDEO_TCP_DEFAULT 0 90 300 6 0 0,
     requirement NGBR_MC_DELAY_SIGNAL 0 5 60 6 0 0,
     requirement NGBR_MC_DATA 0 55 200 6 0 0,
     requirement NGBR_V2X 0 65 5 2 0 0,
     requirement NGBR_LOW_LAT_EMBB 0 68 10 6 0 0,
     requirement DGBR_DISCRETE_AUT_SMALL 2 19 10 4 255 2000,
     requirement DGBR_DISCRETE_AUT_LARGE 2 22 10 4 1358 2000,
     requirement DGBR_ITS 2 24 30 5 1354 2000,
     requirement DGBR_ELECTRICITY 2 21 5 5 255 2000]"

definition requirements_rel18 :: requirements_map where
  "requirements_rel18 =
    [requirement GBR_CONV_VOICE 1 20 100 2 0 2000,
     requirement GBR_CONV_VIDEO 1 40 150 3 0 2000,
     requirement GBR_GAMING 1 30 50 3 0 2000,
     requirement GBR_NON_CONV_VIDEO 1 50 300 6 0 2000,
     requirement GBR_MC_PUSH_TO_TALK 1 7 75 2 0 2000,
     requirement GBR_NMC_PUSH_TO_TALK 1 20 100 2 0 2000,
     requirement GBR_MC_VIDEO 1 15 100 3 0 2000,
     requirement GBR_V2X 1 25 50 2 0 2000,
     requirement NGBR_IMS 0 10 100 6 0 0,
     requirement NGBR_VIDEO_TCP_OPERATOR 0 60 300 6 0 0,
     requirement NGBR_VOICE_VIDEO_GAMING 0 70 100 3 0 0,
     requirement NGBR_VIDEO_TCP_PREMIUM 0 80 300 6 0 0,
     requirement NGBR_VIDEO_TCP_DEFAULT 0 90 300 6 0 0,
     requirement NGBR_MC_DELAY_SIGNAL 0 5 60 6 0 0,
     requirement NGBR_MC_DATA 0 55 200 6 0 0,
     requirement NGBR_V2X 0 65 5 2 0 0,
     requirement NGBR_LOW_LAT_EMBB 0 68 10 6 0 0,
     requirement GBR_LIVE_UL_71 1 56 150 6 0 0,
     requirement GBR_LIVE_UL_72 1 56 300 4 0 0,
     requirement GBR_LIVE_UL_73 1 56 300 8 0 0,
     requirement GBR_LIVE_UL_74 1 56 500 8 0 0,
     requirement GBR_LIVE_UL_76 1 56 500 4 0 0,
     requirement DGBR_DISCRETE_AUT_SMALL 2 19 10 4 255 2000,
     requirement DGBR_DISCRETE_AUT_LARGE 2 22 10 4 1358 2000,
     requirement DGBR_ITS 2 24 30 5 1354 2000,
     requirement DGBR_ELECTRICITY 2 21 5 5 255 2000,
     requirement DGBR_V2X 2 18 5 4 1354 2000,
     requirement DGBR_INTER_SERV_87 2 25 5 3 500 2000,
     requirement DGBR_INTER_SERV_88 2 25 10 3 1125 2000,
     requirement DGBR_VISUAL_CONTENT_89 2 25 15 4 17000 2000,
     requirement DGBR_VISUAL_CONTENT_90 2 25 20 4 63000 2000]"

definition req_at :: "requirements_map \<Rightarrow> 8 word \<Rightarrow> requirements result" where
  "req_at m q = (case map_of m q of None \<Rightarrow> Inl Exception_thrown | Some r \<Rightarrow> Inr r)"

definition req_get_resource_type :: "requirements_map \<Rightarrow> 8 word \<Rightarrow> 8 word result" where
  "req_get_resource_type m q = res_map req_resource_type (req_at m q)"

definition req_get_priority :: "requirements_map \<Rightarrow> 8 word \<Rightarrow> 8 word result" where
  "req_get_priority m q = res_map req_priority (req_at m q)"

definition req_get_delay_budget :: "requirements_map \<Rightarrow> 8 word \<Rightarrow> 16 word result" where
  "req_get_delay_budget m q = res_map req_delay_budget (req_at m q)"

definition req_get_error_exp :: "requirements_map \<Rightarrow> 8 word \<Rightarrow> nat result" where
  "req_get_error_exp m q = res_map req_error_exp (req_at m q)"

definition req_get_max_burst :: "requirements_map \<Rightarrow> 8 word \<Rightarrow> 32 word result" where
  "req_get_max_burst m q = res_map req_max_burst (req_at m q)"

definition req_get_avg_window :: "requirements_map \<Rightarrow> 8 word \<Rightarrow> 32 word result" where
  "req_get_avg_window m q = res_map req_avg_window (req_at m q)"

section \<open>Bearers\<close>

record eps_bearer =
  eb_qci :: "8 word"
  eb_gbr :: gbr_qos
  eb_arp :: alloc_retention
  eb_requirements :: requirements_map
  eb_release :: "8 word"

definition eb_set_release :: "8 word \<Rightarrow> eps_bearer \<Rightarrow> eps_bearer result" where
  "eb_set_release release b =
     (if release \<in> {8, 9, 10, 11} then Inr (b\<lparr>eb_requirements := requirements_rel11, eb_release := release\<rparr>)
      else if release = 15 then Inr (b\<lparr>eb_requirements := requirements_rel15, eb_release := release\<rparr>)
      else if release = 18 then Inr (b\<lparr>eb_requirements := requirements_rel18, eb_release := release\<rparr>)
      else Inl Aborted)"

definition eb_get_release :: "eps_bearer \<Rightarrow> 8 word" where
  "eb_get_release b = eb_release b"

text \<open>
  The attribute \<open>Release\<close> holds 64 bits, its checker admits what fits 32 bits, and its accessor passes
  the low 8 bits on: \<open>attr\<close> is the value that \<open>ConstructSelf\<close> finds, 11 unless a default was set.
\<close>

definition eb_create :: "32 word \<Rightarrow> 8 word \<Rightarrow> gbr_qos \<Rightarrow> eps_bearer result" where
  "eb_create attr x y =
     eb_set_release (ucast attr)
       \<lparr>eb_qci = x, eb_gbr = y, eb_arp = alloc_retention_default, eb_requirements = [], eb_release = 30\<rparr>"

definition eb_default :: "32 word \<Rightarrow> eps_bearer result" where
  "eb_default attr = eb_create attr (Qci NGBR_VIDEO_TCP_DEFAULT) gbr_qos_default"

definition eb_create_qci :: "32 word \<Rightarrow> 8 word \<Rightarrow> eps_bearer result" where
  "eb_create_qci attr x = eb_create attr x gbr_qos_default"

text \<open>A copy takes the QCI and the rates, not the retention priority nor the release.\<close>

definition eb_copy :: "32 word \<Rightarrow> eps_bearer \<Rightarrow> eps_bearer result" where
  "eb_copy attr b = eb_create attr (eb_qci b) (eb_gbr b)"

definition eb_get_resource_type :: "eps_bearer \<Rightarrow> 8 word result" where
  "eb_get_resource_type b = req_get_resource_type (eb_requirements b) (eb_qci b)"

definition eb_get_priority :: "eps_bearer \<Rightarrow> 8 word result" where
  "eb_get_priority b = req_get_priority (eb_requirements b) (eb_qci b)"

definition eb_get_delay_budget :: "eps_bearer \<Rightarrow> 16 word result" where
  "eb_get_delay_budget b = req_get_delay_budget (eb_requirements b) (eb_qci b)"

definition eb_get_error_exp :: "eps_bearer \<Rightarrow> nat result" where
  "eb_get_error_exp b = req_get_error_exp (eb_requirements b) (eb_qci b)"

section \<open>The tables of the releases\<close>

definition table_of_release :: "8 word \<Rightarrow> requirements_map option" where
  "table_of_release r =
     (if r \<in> {8, 9, 10, 11} then Some requirements_rel11
      else if r = 15 then Some requirements_rel15
      else if r = 18 then Some requirements_rel18 else None)"

definition eb_wf :: "eps_bearer \<Rightarrow> bool" where
  "eb_wf b \<longleftrightarrow> table_of_release (eb_release b) = Some (eb_requirements b)"

lemma map_of_list_all:
  assumes "list_all (\<lambda>(k, v). P k v) m" and "map_of m k = Some v"
  shows "P k v"
  using assms by (auto simp: list_all_iff dest: map_of_SomeD)

text \<open>The requirements of release 11 rewritten for release 15.\<close>

definition rel15_of_rel11 :: "requirements \<Rightarrow> requirements" where
  "rel15_of_rel11 r =
     r\<lparr>req_priority := 10 * req_priority r,
       req_avg_window := if req_resource_type r = 1 then 2000 else 0\<rparr>"

lemma rel11_in_rel15:
  "map_of requirements_rel11 q = Some r \<Longrightarrow> map_of requirements_rel15 q = Some (rel15_of_rel11 r)"
  by (rule map_of_list_all [where m = requirements_rel11]) code_simp

lemma rel15_in_rel18:
  "map_of requirements_rel15 q = Some r \<Longrightarrow> map_of requirements_rel18 q = Some r"
  by (rule map_of_list_all [where m = requirements_rel15]) code_simp

lemma tables_distinct:
  "distinct (map fst requirements_rel11)" "distinct (map fst requirements_rel15)"
  "distinct (map fst requirements_rel18)"
  by code_simp+

text \<open>The releases are compatible: a QCI of release 11 keeps its resource type, delay budget, error rate
  and burst in release 15, where its priority is ten times the old one (so that priorities keep their order)
  and only guaranteed rates have an averaging window, and release 18 keeps every entry of release 15.\<close>

theorem releases_compatible:
  "(map_of requirements_rel11 q = Some r \<longrightarrow> map_of requirements_rel15 q = Some (rel15_of_rel11 r)) \<and>
   (map_of requirements_rel15 q = Some s \<longrightarrow> map_of requirements_rel18 q = Some s)"
  using rel11_in_rel15 rel15_in_rel18 by blast

theorem releases_compatible_witness:
  "\<exists>r. map_of requirements_rel11 7 = Some r \<and> map_of requirements_rel15 7 = Some (rel15_of_rel11 r)"
proof -
  obtain r where r: "map_of requirements_rel11 7 = Some r"
    by (cases "map_of requirements_rel11 7") (simp_all add: requirements_rel11_def requirement_def)
  with releases_compatible [of 7 r r] show ?thesis
    by blast
qed

section \<open>Bearers and their releases\<close>

lemma eb_set_release_eq:
  "eb_set_release r b =
     (case table_of_release r of None \<Rightarrow> Inl Aborted
      | Some t \<Rightarrow> Inr (b\<lparr>eb_requirements := t, eb_release := r\<rparr>))"
  by (simp add: eb_set_release_def table_of_release_def)

lemma eb_create_eq:
  "eb_create attr x y =
     (case table_of_release (ucast attr) of None \<Rightarrow> Inl Aborted
      | Some t \<Rightarrow> Inr \<lparr>eb_qci = x, eb_gbr = y, eb_arp = alloc_retention_default, eb_requirements = t,
                      eb_release = ucast attr\<rparr>)"
  by (simp add: eb_create_def eb_set_release_eq split: option.split)

lemma eb_getters:
  "eb_get_resource_type b = res_map req_resource_type (req_at (eb_requirements b) (eb_qci b))"
  "eb_get_priority b = res_map req_priority (req_at (eb_requirements b) (eb_qci b))"
  "eb_get_delay_budget b = res_map req_delay_budget (req_at (eb_requirements b) (eb_qci b))"
  "eb_get_error_exp b = res_map req_error_exp (req_at (eb_requirements b) (eb_qci b))"
  by (simp_all add: eb_get_resource_type_def req_get_resource_type_def eb_get_priority_def
      req_get_priority_def eb_get_delay_budget_def req_get_delay_budget_def eb_get_error_exp_def
      req_get_error_exp_def)

text \<open>Every bearer that a constructor, a copy or \<open>SetRelease\<close> returns holds the table of its release;
  these succeed exactly for the releases 8 to 11, 15 and 18, of which the constructors see the low 8 bits of
  the attribute only; and \<open>GetResourceType\<close>, \<open>GetPriority\<close>, \<open>GetPacketDelayBudgetMs\<close> and
  \<open>GetPacketErrorLossRate\<close> all return when the table has the QCI and all throw otherwise.\<close>

theorem bearer_well_formed:
  "(\<forall>b'. eb_create attr x y = Inr b' \<or> eb_copy attr b = Inr b' \<or> eb_set_release r b = Inr b' \<longrightarrow> eb_wf b') \<and>
   (\<exists>b'. eb_create attr x y = Inr b') = (uint attr mod 256 \<in> {8, 9, 10, 11, 15, 18}) \<and>
   (if eb_qci b \<in> set (map fst (eb_requirements b))
    then \<exists>t p d e. eb_get_resource_type b = Inr t \<and> eb_get_priority b = Inr p \<and>
      eb_get_delay_budget b = Inr d \<and> eb_get_error_exp b = Inr e
    else eb_get_resource_type b = Inl Exception_thrown \<and> eb_get_priority b = Inl Exception_thrown \<and>
      eb_get_delay_budget b = Inl Exception_thrown \<and> eb_get_error_exp b = Inl Exception_thrown)"
proof (intro conjI)
  show "\<forall>b'. eb_create attr x y = Inr b' \<or> eb_copy attr b = Inr b' \<or> eb_set_release r b = Inr b' \<longrightarrow> eb_wf b'"
    by (auto simp: eb_copy_def eb_create_eq eb_set_release_eq eb_wf_def split: option.splits)
  have u: "uint (ucast attr :: 8 word) = uint attr mod 256"
    by (simp add: unsigned_ucast_eq take_bit_eq_mod)
  have "(\<exists>b'. eb_create attr x y = Inr b') = (table_of_release (ucast attr) \<noteq> None)"
    by (auto simp: eb_create_eq split: option.splits)
  also have "\<dots> = (uint (ucast attr :: 8 word) \<in> {8, 9, 10, 11, 15, 18})"
    by (auto simp: table_of_release_def word_uint_eq_iff)
  finally show "(\<exists>b'. eb_create attr x y = Inr b') = (uint attr mod 256 \<in> {8, 9, 10, 11, 15, 18})"
    by (simp only: u)
  show "if eb_qci b \<in> set (map fst (eb_requirements b))
    then \<exists>t p d e. eb_get_resource_type b = Inr t \<and> eb_get_priority b = Inr p \<and>
      eb_get_delay_budget b = Inr d \<and> eb_get_error_exp b = Inr e
    else eb_get_resource_type b = Inl Exception_thrown \<and> eb_get_priority b = Inl Exception_thrown \<and>
      eb_get_delay_budget b = Inl Exception_thrown \<and> eb_get_error_exp b = Inl Exception_thrown"
  proof (cases "map_of (eb_requirements b) (eb_qci b)")
    case None
    then show ?thesis
      by (simp add: eb_getters req_at_def) (simp add: map_of_eq_None_iff)
  next
    case (Some t)
    then have "eb_qci b \<in> set (map fst (eb_requirements b))"
      by (force dest: map_of_SomeD)
    with Some show ?thesis
      by (simp add: eb_getters req_at_def)
  qed
qed

theorem bearer_well_formed_witness: "\<exists>b. eb_create 267 80 gbr_qos_default = Inr b \<and> eb_wf b"
proof -
  obtain b where b: "eb_create 267 80 gbr_qos_default = Inr b"
    by (simp add: eb_create_eq table_of_release_def)
  with bearer_well_formed [of 267 80 gbr_qos_default b 11] show ?thesis
    by blast
qed

text \<open>The copy of a bearer is not the bearer: it returns to the release of the attribute and to the default
  retention priority, so that under the default release 11 every getter of the copy of a bearer that was
  set to release 15 or 18 throws for a QCI that release 11 does not have, where the original returns.\<close>

theorem copy_forgets_release:
  assumes "eb_set_release r b = Inr b'"
  shows "\<exists>c. eb_copy 11 b' = Inr c \<and> eb_qci c = eb_qci b \<and> eb_gbr c = eb_gbr b \<and>
    eb_release c = 11 \<and> eb_arp c = alloc_retention_default \<and>
    (eb_get_priority c = Inl Exception_thrown \<longleftrightarrow> eb_qci b \<notin> {1, 2, 3, 4, 5, 6, 7, 8, 9})"
proof -
  have b': "eb_qci b' = eb_qci b" "eb_gbr b' = eb_gbr b"
    using assms by (auto simp: eb_set_release_eq split: option.splits)
  have k: "set (map fst requirements_rel11) = {1, 2, 3, 4, 5, 6, 7, 8, 9}"
    by (auto simp: requirements_rel11_def requirement_def)
  have "map_of requirements_rel11 (eb_qci b) = None \<longleftrightarrow> eb_qci b \<notin> {1, 2, 3, 4, 5, 6, 7, 8, 9}"
    by (simp only: map_of_eq_None_iff k [symmetric] set_map)
  then show ?thesis
    by (simp add: eb_copy_def eb_create_eq table_of_release_def eb_getters req_at_def b'
        split: option.split) auto
qed

theorem copy_forgets_release_witness:
  "\<exists>b c. res_bind (eb_create_qci 11 (Qci NGBR_LOW_LAT_EMBB)) (eb_set_release 15) = Inr b \<and>
     eb_get_priority b = Inr 68 \<and> eb_copy 11 b = Inr c \<and> eb_get_priority c = Inl Exception_thrown"
proof -
  obtain b0 where b0: "eb_create_qci 11 (Qci NGBR_LOW_LAT_EMBB) = Inr b0" "eb_qci b0 = 80"
    by (simp add: eb_create_qci_def eb_create_eq table_of_release_def)
  obtain b where b: "eb_set_release 15 b0 = Inr b" "eb_qci b = 80" "eb_requirements b = requirements_rel15"
    by (simp add: eb_set_release_eq table_of_release_def b0(2))
  have "map_of requirements_rel15 80 = Some
      \<lparr>req_resource_type = 0, req_priority = 68, req_delay_budget = 10, req_error_exp = 6,
       req_max_burst = 0, req_avg_window = 0\<rparr>"
    by (simp add: requirements_rel15_def requirement_def)
  then have "eb_get_priority b = Inr 68"
    by (simp add: eb_getters req_at_def b)
  with copy_forgets_release [OF b(1)] b b0 show ?thesis
    by auto
qed

end
