(* ===== verification/Nr_Lcg.thy ===== *)
theory Nr_Lcg
  imports Eps_Bearer
begin

text \<open>
  The queues that the NR scheduler believes a user to have: \<open>NrMacSchedulerLC\<close> and
  \<open>NrMacSchedulerLCG\<close> (\<open>contrib/nr/model/nr-mac-scheduler-lcg.h\<close> and \<open>nr-mac-scheduler-lcg.cc\<close>). The
  hash map of a group is the list of its entries in iteration order; the order that the table
  settles on after an insertion is a parameter.
\<close>

section \<open>Logical channels\<close>

datatype lc_direction = DIR_UL | DIR_DL | DIR_BOTH | DIR_NotValid

datatype qos_bearer_type = QBT_NON_GBR | QBT_GBR | QBT_DGBR | QBT_NotValid

record lc_config =
  conf_lcid :: "8 word"
  conf_lcg :: "8 word"
  conf_direction :: lc_direction
  conf_bearer_type :: qos_bearer_type
  conf_qci :: "8 word"
  conf_mbr_ul :: "64 word"
  conf_mbr_dl :: "64 word"
  conf_gbr_ul :: "64 word"
  conf_gbr_dl :: "64 word"

record rlc_buffer_req =
  req_rnti :: "16 word"
  req_lcid :: "8 word"
  req_tx :: "32 word"
  req_tx_hol :: "16 word"
  req_retx :: "32 word"
  req_retx_hol :: "16 word"
  req_status :: "16 word"

text \<open>The delay budget is the argument of \<open>MilliSeconds\<close>.\<close>

record lc =
  lc_id :: "32 word"
  lc_tx :: "32 word"
  lc_tx_hol :: "16 word"
  lc_retx_hol :: "16 word"
  lc_retx :: "32 word"
  lc_status :: "16 word"
  lc_delay_budget :: "16 word"
  lc_per_exp :: nat
  lc_resource_type :: "8 word"
  lc_qci :: "8 word"
  lc_priority :: "8 word"
  lc_gbr_dl :: "64 word"

text \<open>\<open>attr\<close> is the attribute \<open>Release\<close> of the bearers that are created.\<close>

definition lc_create :: "32 word \<Rightarrow> lc_config \<Rightarrow> lc result" where
  "lc_create attr conf =
     res_bind (eb_create_qci attr (conf_qci conf)) (\<lambda>bearer.
     res_bind (eb_get_delay_budget bearer) (\<lambda>delay.
     res_bind (eb_get_resource_type bearer) (\<lambda>rt.
     res_bind (eb_get_error_exp bearer) (\<lambda>per.
     res_bind (eb_get_priority bearer) (\<lambda>prio.
       Inr \<lparr>lc_id = ucast (conf_lcid conf), lc_tx = 0, lc_tx_hol = 0, lc_retx_hol = 0, lc_retx = 0,
            lc_status = 0, lc_delay_budget = delay, lc_per_exp = per, lc_resource_type = rt,
            lc_qci = conf_qci conf, lc_priority = prio, lc_gbr_dl = conf_gbr_dl conf\<rparr>)))))"

definition lc_update :: "rlc_buffer_req \<Rightarrow> lc \<Rightarrow> lc result" where
  "lc_update params c =
     ns_assert (ucast (req_lcid params) = lc_id c)
       (Inr (c\<lparr>lc_tx := req_tx params, lc_retx := req_retx params, lc_status := req_status params,
               lc_retx_hol := req_retx_hol params, lc_tx_hol := req_tx_hol params\<rparr>))"

definition lc_total_size :: "lc \<Rightarrow> 32 word" where
  "lc_total_size c = lc_tx c + lc_retx c + ucast (lc_status c)"

section \<open>Groups\<close>

type_synonym lcg = "(8 word \<times> lc) list"

definition lcg_contains :: "8 word \<Rightarrow> lcg \<Rightarrow> bool" where
  "lcg_contains lcId g \<longleftrightarrow> map_of g lcId \<noteq> None"

definition lcg_num :: "lcg \<Rightarrow> 32 word" where
  "lcg_num g = of_nat (length g)"

text \<open>\<open>at\<close> throws for an absent key.\<close>

definition lcg_at :: "8 word \<Rightarrow> lcg \<Rightarrow> lc result" where
  "lcg_at lcId g = (case map_of g lcId of None \<Rightarrow> Inl Exception_thrown | Some c \<Rightarrow> Inr c)"

definition lcg_put :: "8 word \<Rightarrow> lc \<Rightarrow> lcg \<Rightarrow> lcg" where
  "lcg_put k c g = map (\<lambda>(k', c'). if k' = k then (k', c) else (k', c')) g"

definition lcg_insert :: "(lcg \<Rightarrow> lcg) \<Rightarrow> lc \<Rightarrow> lcg \<Rightarrow> (bool \<times> lcg) result" where
  "lcg_insert order c g =
     ns_assert (\<not> lcg_contains (ucast (lc_id c)) g)
       (let key = ucast (lc_id c)
        in if map_of g key = None then Inr (True, order ((key, c) # g)) else Inr (False, g))"

definition lcg_update_dl :: "rlc_buffer_req \<Rightarrow> lcg \<Rightarrow> lcg result" where
  "lcg_update_dl params g =
     ns_assert (lcg_contains (req_lcid params) g)
       (res_bind (lcg_at (req_lcid params) g) (\<lambda>c.
        res_map (\<lambda>c'. lcg_put (req_lcid params) c' g) (lc_update params c)))"

definition lcg_update_ul :: "32 word \<Rightarrow> lcg \<Rightarrow> lcg result" where
  "lcg_update_ul lcgQueueSize g =
     ns_abort_if (length g > 1)
       (if length g = 0 then Inl Undefined_behaviour
        else (let lcIdPart = of_nat (unat lcgQueueSize div length g)
              in Inr (map (\<lambda>(k, c). (k, c\<lparr>lc_tx := lcIdPart\<rparr>)) g)))"

definition lcg_total_size :: "lcg \<Rightarrow> 32 word" where
  "lcg_total_size g = fold (\<lambda>(k, c) totalSize. totalSize + lc_total_size c) g 0"

definition lcg_total_size_of :: "8 word \<Rightarrow> lcg \<Rightarrow> 32 word result" where
  "lcg_total_size_of lcId g = ns_abort_if (length g = 0) (res_map lc_total_size (lcg_at lcId g))"

definition lcg_ids :: "lcg \<Rightarrow> 8 word list" where
  "lcg_ids g = map fst g"

text \<open>The loop of \<open>GetActiveLCIds\<close> over the entries \<open>es\<close> of the map \<open>g\<close>.\<close>

fun lcg_active_from :: "lcg \<Rightarrow> lcg \<Rightarrow> 8 word list result" where
  "lcg_active_from g [] = Inr []"
| "lcg_active_from g ((k, c) # es) =
     res_bind (lcg_total_size_of k g) (\<lambda>n.
     res_map (\<lambda>ret. if n > 0 then k # ret else ret) (lcg_active_from g es))"

definition lcg_active_ids :: "lcg \<Rightarrow> 8 word list result" where
  "lcg_active_ids g = lcg_active_from g g"

definition lcg_qci :: "8 word \<Rightarrow> lcg \<Rightarrow> 8 word result" where
  "lcg_qci lcId g = res_map lc_qci (lcg_at lcId g)"

definition lcg_get :: "8 word \<Rightarrow> lcg \<Rightarrow> lc result" where
  "lcg_get lcId g =
     ns_assert (length g > 0)
       (res_bind (lcg_total_size_of lcId g) (\<lambda>n. ns_assert (n > 0) (lcg_at lcId g)))"

section \<open>Assigned data\<close>

text \<open>What \<open>AssignedData\<close> does to the channel that it looks up.\<close>

definition lc_assigned_data :: "8 word \<Rightarrow> 32 word \<Rightarrow> string \<Rightarrow> lc \<Rightarrow> lc" where
  "lc_assigned_data lcId sz type c =
     (if lc_status c > 0 \<and> sz \<ge> ucast (lc_status c) then c\<lparr>lc_status := 0\<rparr>
      else if lc_retx c > 0 \<and> sz \<ge> lc_retx c then c\<lparr>lc_retx := 0\<rparr>
      else if lc_tx c > 0 then
        (let rlcOverhead = (if lcId = 1 \<and> type = ''DL'' then 4 else 2);
             c1 = (if sz - rlcOverhead \<ge> lc_tx c then c\<lparr>lc_tx := 0\<rparr>
                   else c\<lparr>lc_tx := lc_tx c - (sz - rlcOverhead)\<rparr>);
             c2 = (if type = ''UL'' \<and> lc_tx c1 > 0 \<and> lc_tx c1 < 12 then c1\<lparr>lc_tx := 12\<rparr> else c1)
         in if type = ''DL'' \<and> lc_tx c2 > 0 \<and> lc_tx c2 < 10 then c2\<lparr>lc_tx := 10\<rparr> else c2)
      else c)"

definition lcg_assigned_data :: "8 word \<Rightarrow> 32 word \<Rightarrow> string \<Rightarrow> lcg \<Rightarrow> lcg result" where
  "lcg_assigned_data lcId sz type g =
     ns_assert (length g > 0)
       (res_map (\<lambda>c. lcg_put lcId (lc_assigned_data lcId sz type c) g) (lcg_at lcId g))"

section \<open>The map of a group\<close>

lemma keys_put [simp]: "map fst (lcg_put k c g) = map fst g"
  by (induction g) (auto simp: lcg_put_def)

lemma length_put [simp]: "length (lcg_put k c g) = length g"
  by (simp add: lcg_put_def)

lemma map_of_put:
  "map_of (lcg_put k c g) k' = (if k' = k \<and> map_of g k \<noteq> None then Some c else map_of g k')"
  by (induction g) (auto simp: lcg_put_def)

lemma set_put: "set (lcg_put k c g) \<subseteq> insert (k, c) (set g)"
  by (auto simp: lcg_put_def split: if_splits)

lemma map_of_nonempty: "map_of g k = Some c \<Longrightarrow> length g > 0"
  by (cases g) auto

definition lcg_wf :: "lcg \<Rightarrow> bool" where
  "lcg_wf g \<longleftrightarrow> distinct (map fst g) \<and> (\<forall>(k, c) \<in> set g. lc_id c = ucast k)"

lemma lcg_wf_put: "lcg_wf g \<Longrightarrow> lc_id c = ucast k \<Longrightarrow> lcg_wf (lcg_put k c g)"
  using set_put [of k c g] by (fastforce simp: lcg_wf_def)

lemma keys_map [simp]: "map fst (map (\<lambda>(k, c). (k, f c)) g) = map fst g"
  by (induction g) auto

lemma lcg_wf_map: "(\<And>c. lc_id (f c) = lc_id c) \<Longrightarrow> lcg_wf g \<Longrightarrow> lcg_wf (map (\<lambda>(k, c). (k, f c)) g)"
  unfolding lcg_wf_def keys_map by auto

lemma ucast_8_32_8 [simp]: "ucast (ucast k :: 32 word) = (k :: 8 word)"
  using unat8_less [of k] by (simp add: word_unat_eq_iff unsigned_ucast_eq unsigned_take_bit_eq take_bit_nat_eq_self)

lemma lc_assigned_id [simp]: "lc_id (lc_assigned_data l s t c) = lc_id c"
  by (simp add: lc_assigned_data_def Let_def)

lemma lc_update_id: "lc_update p c = Inr c' \<Longrightarrow> lc_id c' = lc_id c"
  by (auto simp: lc_update_def result_elims)

lemma lc_create_id: "lc_create attr conf = Inr c \<Longrightarrow> lc_id c = ucast (conf_lcid conf)"
  by (auto simp: lc_create_def result_elims)

lemma lcg_at_Some: "lcg_at k g = Inr c \<longleftrightarrow> map_of g k = Some c"
  by (simp add: lcg_at_def split: option.split)

section \<open>The operations as steps\<close>

datatype lcg_op =
    Op_insert lc_config
  | Op_update_dl rlc_buffer_req
  | Op_update_ul "32 word"
  | Op_assigned "8 word" "32 word" string

fun lcg_step :: "32 word \<Rightarrow> (lcg \<Rightarrow> lcg) \<Rightarrow> lcg_op \<Rightarrow> lcg \<Rightarrow> lcg result" where
  "lcg_step attr order (Op_insert conf) g =
     res_bind (lc_create attr conf) (\<lambda>c. res_map snd (lcg_insert order c g))"
| "lcg_step attr order (Op_update_dl params) g = lcg_update_dl params g"
| "lcg_step attr order (Op_update_ul n) g = lcg_update_ul n g"
| "lcg_step attr order (Op_assigned lcId sz type) g = lcg_assigned_data lcId sz type g"

fun lcg_run :: "32 word \<Rightarrow> (lcg \<Rightarrow> lcg) \<Rightarrow> lcg_op list \<Rightarrow> lcg \<Rightarrow> lcg result" where
  "lcg_run attr order [] g = Inr g"
| "lcg_run attr order (op # ops) g = res_bind (lcg_step attr order op g) (lcg_run attr order ops)"

fun inserted_ids :: "lcg_op list \<Rightarrow> 8 word list" where
  "inserted_ids [] = []"
| "inserted_ids (Op_insert conf # ops) = conf_lcid conf # inserted_ids ops"
| "inserted_ids (_ # ops) = inserted_ids ops"

lemma inserted_ids_Cons: "inserted_ids (op # ops) = inserted_ids [op] @ inserted_ids ops"
  by (cases op) auto

lemma lcg_wf_cong:
  assumes "mset g = mset g'" and "lcg_wf g'"
  shows "lcg_wf g"
proof -
  have "mset (map fst g) = mset (map fst g')"
    using assms(1) by simp
  then have "distinct (map fst g) = distinct (map fst g')"
    by (rule mset_eq_imp_distinct_iff)
  with assms show ?thesis
    using mset_eq_setD [OF assms(1)] by (simp add: lcg_wf_def)
qed

lemma lcg_insert_step:
  assumes "lcg_insert order c g = Inr (b, g')" and "lcg_wf g" and "lc_id c = ucast (k :: 8 word)"
    and "\<And>m. mset (order m) = mset m"
  shows "lcg_wf g' \<and> b \<and> mset g' = add_mset (k, c) (mset g) \<and> k \<notin> set (map fst g)"
proof -
  have n: "map_of g k = None" and g': "g' = order ((k, c) # g)" and b
    using assms(1) by (auto simp: lcg_insert_def lcg_contains_def result_elims assms(3) Let_def)
  then have fresh: "k \<notin> set (map fst g)"
    by (simp add: map_of_eq_None_iff)
  with assms(2,3) have "lcg_wf ((k, c) # g)"
    by (auto simp: lcg_wf_def)
  moreover have m: "mset g' = mset ((k, c) # g)"
    using assms(4) g' by simp
  ultimately show ?thesis
    using lcg_wf_cong [OF m] fresh \<open>b\<close> by simp
qed

lemma lcg_step_wf:
  assumes "lcg_step attr order op g = Inr g'" and "lcg_wf g" and "\<And>m. mset (order m) = mset m"
  shows "lcg_wf g' \<and> mset (lcg_ids g') = mset (lcg_ids g) + mset (inserted_ids [op])"
proof (cases op)
  case (Op_insert conf)
  then obtain c b where c: "lc_create attr conf = Inr c" "lcg_insert order c g = Inr (b, g')"
    using assms(1) by (auto simp: result_elims)
  show ?thesis
    using lcg_insert_step [OF c(2) assms(2) lc_create_id [OF c(1)] assms(3)] Op_insert
    by (simp add: lcg_ids_def)
next
  case (Op_update_dl params)
  then obtain c c' where c: "map_of g (req_lcid params) = Some c" "lc_update params c = Inr c'"
    "g' = lcg_put (req_lcid params) c' g"
    using assms(1) by (auto simp: lcg_update_dl_def result_elims lcg_at_Some)
  have "lc_id c' = ucast (req_lcid params)"
    using c(2) by (auto simp: lc_update_def result_elims)
  with assms(2) c(3) Op_update_dl show ?thesis
    by (simp add: lcg_wf_put lcg_ids_def)
next
  case (Op_update_ul n)
  with assms(1,2) show ?thesis
    by (auto simp: lcg_update_ul_def result_elims Let_def lcg_wf_map lcg_ids_def simp del: mset_map map_map
        split: if_splits)
next
  case (Op_assigned l s t)
  then obtain c where c: "map_of g l = Some c" "g' = lcg_put l (lc_assigned_data l s t c) g"
    using assms(1) by (auto simp: lcg_assigned_data_def result_elims lcg_at_Some)
  have "lc_id c = ucast l"
    using c(1) assms(2) by (auto simp: lcg_wf_def dest: map_of_SomeD)
  with assms(2) c(2) Op_assigned show ?thesis
    by (simp add: lcg_wf_put lcg_ids_def)
qed

lemma lcg_run_wf:
  assumes "lcg_run attr order ops g = Inr g'" and "lcg_wf g" and "\<And>m. mset (order m) = mset m"
  shows "lcg_wf g' \<and> mset (lcg_ids g') = mset (lcg_ids g) + mset (inserted_ids ops)"
  using assms(1,2)
proof (induction ops arbitrary: g)
  case (Cons op ops)
  then obtain g1 where g1: "lcg_step attr order op g = Inr g1" "lcg_run attr order ops g1 = Inr g'"
    by (auto simp: result_elims)
  show ?case
    using lcg_step_wf [OF g1(1) Cons.prems(2) assms(3)] Cons.IH [OF g1(2)]
    by (simp add: inserted_ids_Cons [of op ops])
qed simp

text \<open>C39: A group that was built by any sequence of insertions, updates and assignments is well formed: its
  ids are the ids inserted, each once and under the key of its channel, so that inserting an id again is the
  assertion failure of \<open>Insert\<close>, in whatever order the hash table keeps its entries.\<close>

theorem lcg_well_formed:
  assumes "\<And>m. mset (order m) = mset m" and "lcg_run attr order ops [] = Inr g"
  shows "lcg_wf g \<and> mset (lcg_ids g) = mset (inserted_ids ops) \<and> distinct (inserted_ids ops) \<and>
    lcg_num g = of_nat (length (inserted_ids ops)) \<and>
    (\<forall>k. lcg_contains k g \<longleftrightarrow> k \<in> set (inserted_ids ops)) \<and>
    (\<forall>c. lcg_insert order c g = Inl Assert_failed \<longleftrightarrow> ucast (lc_id c) \<in> set (inserted_ids ops))"
proof -
  have w: "lcg_wf g" and m: "mset (lcg_ids g) = mset (inserted_ids ops)"
    using lcg_run_wf [OF assms(2) _ assms(1)] by (simp_all add: lcg_wf_def lcg_ids_def)
  have d: "distinct (inserted_ids ops)"
    using w mset_eq_imp_distinct_iff [OF m] by (simp add: lcg_wf_def lcg_ids_def)
  have "length g = length (inserted_ids ops)"
    using mset_eq_length [OF m] by (simp add: lcg_ids_def)
  moreover have "lcg_contains k g \<longleftrightarrow> k \<in> set (inserted_ids ops)" for k
    using mset_eq_setD [OF m] by (auto simp: lcg_contains_def lcg_ids_def map_of_eq_None_iff)
  moreover have "lcg_insert order c g = Inl Assert_failed \<longleftrightarrow> lcg_contains (ucast (lc_id c)) g" for c
    by (simp add: lcg_insert_def ns_assert_def Let_def lcg_contains_def)
  ultimately show ?thesis
    using w m d by (simp add: lcg_num_def)
qed

definition demo_conf :: "8 word \<Rightarrow> 8 word \<Rightarrow> lc_config" where
  "demo_conf l q =
     \<lparr>conf_lcid = l, conf_lcg = 1, conf_direction = DIR_BOTH, conf_bearer_type = QBT_NON_GBR, conf_qci = q,
      conf_mbr_ul = 0, conf_mbr_dl = 0, conf_gbr_ul = 0, conf_gbr_dl = 0\<rparr>"

theorem lcg_well_formed_witness:
  "\<exists>g. lcg_run 11 rev
        [Op_insert (demo_conf 4 1),
         Op_insert (demo_conf 5 9), Op_assigned 4 20 ''DL''] [] = Inr g \<and>
     lcg_wf g \<and> mset (lcg_ids g) = {#4, 5#}"
proof -
  let ?ops = "[Op_insert (demo_conf 4 1),
      Op_insert (demo_conf 5 9), Op_assigned 4 20 ''DL'']"
  have "case lcg_run 11 rev ?ops [] of Inr g \<Rightarrow> True | Inl _ \<Rightarrow> False"
    by code_simp
  then obtain g where g: "lcg_run 11 rev ?ops [] = Inr g"
    by (auto split: sum.splits)
  with lcg_well_formed [OF _ g] show ?thesis
    by (simp add: demo_conf_def)
qed

section \<open>Sizes\<close>

lemma unat_total_size:
  "unat (lc_total_size c) = (unat (lc_tx c) + unat (lc_retx c) + unat (lc_status c)) mod 2 ^ 32"
proof -
  have "unat (lc_status c) < 2 ^ 16"
    by (rule order_less_le_trans [OF unsigned_less]) simp
  then have "unat (ucast (lc_status c) :: 32 word) = unat (lc_status c)"
    by (simp add: unsigned_ucast_eq take_bit_nat_eq_self)
  then show ?thesis
    by (simp add: lc_total_size_def unat_word_ariths mod_simps)
qed

definition lc_backlog :: "lc \<Rightarrow> nat" where
  "lc_backlog c = unat (lc_tx c) + unat (lc_retx c) + unat (lc_status c)"

lemma unat_fold_sizes:
  "unat (fold (\<lambda>(k, c) t. t + lc_total_size c) g t) = (unat t + (\<Sum>(k, c) \<leftarrow> g. lc_backlog c)) mod 2 ^ 32"
proof (induction g arbitrary: t)
  case (Cons kc g)
  obtain k c where kc: "kc = (k, c)" by force
  have "unat (t + lc_total_size c) = (unat t + lc_backlog c) mod 2 ^ 32"
    by (simp add: unat_word_ariths unat_total_size lc_backlog_def mod_simps)
  with Cons.IH [of "t + lc_total_size c"] show ?case
    by (simp add: kc mod_simps add.assoc)
next
  case Nil
  have "unat t < 2 ^ 32"
    by (rule order_less_le_trans [OF unsigned_less]) simp
  then show ?case
    by simp
qed

lemma active_from_eq:
  assumes "distinct (map fst g)" and "set es \<subseteq> set g"
  shows "lcg_active_from g es = Inr (map fst (filter (\<lambda>(k, c). lc_total_size c > 0) es))"
  using assms(2)
proof (induction es)
  case (Cons kc es)
  obtain k c where kc: "kc = (k, c)" by force
  have "map_of g k = Some c"
    using Cons.prems assms(1) by (simp add: kc)
  then have "lcg_total_size_of k g = Inr (lc_total_size c)"
    using map_of_nonempty [of g k c] by (simp add: lcg_total_size_of_def lcg_at_def)
  with Cons show ?case
    by (simp add: kc)
qed simp

text \<open>The totals of a group: \<open>GetTotalSize\<close> is the sum of the backlogs of its channels modulo $2^{32}$,
  and \<open>GetActiveLCIds\<close> returns, without a fault, the ids of the channels whose backlog is not a multiple
  of $2^{32}$; these are the ids that \<open>GetLC\<close> accepts.\<close>

theorem lcg_totals:
  assumes "lcg_wf g"
  shows "unat (lcg_total_size g) = (\<Sum>(k, c) \<leftarrow> g. lc_backlog c) mod 2 ^ 32 \<and>
    lcg_active_ids g = Inr (map fst (filter (\<lambda>(k, c). \<not> 2 ^ 32 dvd lc_backlog c) g)) \<and>
    (map_of g k = Some c \<longrightarrow> lcg_get k g = (if 2 ^ 32 dvd lc_backlog c then Inl Assert_failed else Inr c))"
proof (intro conjI impI)
  have pos: "lc_total_size c > 0 \<longleftrightarrow> \<not> 2 ^ 32 dvd lc_backlog c" for c
    using unat_total_size [of c] by (simp add: word_neq_0_conv [symmetric] word_unat_eq_iff lc_backlog_def
        dvd_eq_mod_eq_0 del: word_neq_0_conv)
  show "unat (lcg_total_size g) = (\<Sum>(k, c) \<leftarrow> g. lc_backlog c) mod 2 ^ 32"
    by (simp add: lcg_total_size_def unat_fold_sizes)
  show "lcg_active_ids g = Inr (map fst (filter (\<lambda>(k, c). \<not> 2 ^ 32 dvd lc_backlog c) g))"
    using assms by (simp add: lcg_active_ids_def active_from_eq lcg_wf_def pos)
  assume "map_of g k = Some c"
  then show "lcg_get k g = (if 2 ^ 32 dvd lc_backlog c then Inl Assert_failed else Inr c)"
    using map_of_nonempty [of g k c] pos [of c]
    by (simp add: lcg_get_def lcg_total_size_of_def lcg_at_def ns_assert_def)
qed

theorem lcg_totals_witness:
  "\<exists>c. lcg_active_ids [(4, c)] = Inr [4]"
proof -
  define c where "c = \<lparr>lc_id = 4, lc_tx = 7, lc_tx_hol = 0, lc_retx_hol = 0, lc_retx = 0, lc_status = 0,
    lc_delay_budget = 100, lc_per_exp = 2, lc_resource_type = 1, lc_qci = 1, lc_priority = 2, lc_gbr_dl = 0\<rparr>"
  have "lcg_wf [(4, c)]"
    by (simp add: lcg_wf_def c_def)
  from lcg_totals [OF this, of 4 c] have "lcg_active_ids [(4, c)] = Inr [4]"
    by (simp add: c_def lc_backlog_def)
  then show ?thesis ..
qed

section \<open>Grants\<close>

definition rlc_overhead :: "8 word \<Rightarrow> string \<Rightarrow> nat" where
  "rlc_overhead lcId type = (if lcId = 1 \<and> type = ''DL'' then 4 else 2)"

text \<open>The least backlog that the scheduler keeps while data is left.\<close>

definition tx_floor :: "string \<Rightarrow> nat" where
  "tx_floor type = (if type = ''UL'' then 12 else if type = ''DL'' then 10 else 0)"

lemma data_grant:
  assumes "lc_status c = 0 \<or> sz < ucast (lc_status c)" and "lc_retx c = 0 \<or> sz < lc_retx c"
    and "unat (lc_tx c) \<le> 2 ^ 32 - 4"
  shows "lc_assigned_data l sz ty c =
    c\<lparr>lc_tx := if unat sz < rlc_overhead l ty \<or> unat (lc_tx c) \<le> unat sz - rlc_overhead l ty then 0
      else of_nat (max (tx_floor ty) (unat (lc_tx c) - (unat sz - rlc_overhead l ty)))\<rparr>"
proof (cases "lc_tx c = 0")
  case True
  with assms(1,2) show ?thesis
    by (auto simp: lc_assigned_data_def not_le word_gt_0)
next
  case False
  define ov :: "32 word" where "ov = (if l = 1 \<and> ty = ''DL'' then 4 else 2)"
  have ov: "unat ov = rlc_overhead l ty" "rlc_overhead l ty \<le> 4"
    by (simp_all add: ov_def rlc_overhead_def)
  have u: "unat (sz - ov) = (if rlc_overhead l ty \<le> unat sz then unat sz - rlc_overhead l ty
      else unat sz + 2 ^ 32 - rlc_overhead l ty)"
    by (simp add: unat_sub_if' ov)
  have le: "sz - ov \<ge> lc_tx c \<longleftrightarrow> unat sz < rlc_overhead l ty \<or> unat (lc_tx c) \<le> unat sz - rlc_overhead l ty"
    using assms(3) ov(2) by (auto simp: word_le_nat_alt u)
  have first: "\<not> (lc_status c > 0 \<and> sz \<ge> ucast (lc_status c))" "\<not> (lc_retx c > 0 \<and> sz \<ge> lc_retx c)"
    using assms(1,2) by (auto simp: not_le)
  show ?thesis
  proof (cases "sz - ov \<ge> lc_tx c")
    case True
    then have "lc_assigned_data l sz ty c = c\<lparr>lc_tx := 0\<rparr>"
      using first False by (auto simp: lc_assigned_data_def Let_def ov_def [symmetric] word_gt_0)
    with True le show ?thesis
      by simp
  next
    case c2: False
    define t where "t = lc_tx c - (sz - ov)"
    have t: "unat t = unat (lc_tx c) - (unat sz - rlc_overhead l ty)" "unat t > 0"
      using c2 le u by (auto simp: t_def unat_sub_if' word_le_nat_alt)
    have t0: "t > 0"
      using t(2) by (simp add: word_less_nat_alt)
    have tx: "lc_tx c > 0"
      using False by (simp add: word_gt_0)
    have "lc_assigned_data l sz ty c =
        c\<lparr>lc_tx := if ty = ''UL'' \<and> t < 12 then 12 else if ty = ''DL'' \<and> t < 10 then 10 else t\<rparr>"
      unfolding lc_assigned_data_def Let_def ov_def [symmetric] if_not_P [OF first(1)] if_not_P [OF first(2)]
      using tx c2 t0 by (simp add: t_def [symmetric])
    also have "(if ty = ''UL'' \<and> t < 12 then 12 else if ty = ''DL'' \<and> t < 10 then 10 else t) =
        of_nat (max (tx_floor ty) (unat t))"
      by (cases "ty = ''UL''"; cases "ty = ''DL''") (simp_all add: tx_floor_def word_less_nat_alt max_def)
    finally show ?thesis
      using c2 le t(1) by simp
  qed
qed

text \<open>What a grant does when it goes to new data: it takes the bytes above the RLC overhead off the
  transmission queue, a rest below the floor of the direction (12 bytes uplink, 10 downlink) counts as the
  floor, nothing else changes; but a grant smaller than the overhead wraps around and empties the queue.\<close>

theorem data_grant_effect:
  assumes "lc_status c = 0 \<or> sz < ucast (lc_status c)" and "lc_retx c = 0 \<or> sz < lc_retx c"
    and "unat (lc_tx c) \<le> 2 ^ 32 - 4" and "map_of g l = Some c"
  shows "\<exists>g'. lcg_assigned_data l sz ty g = Inr g' \<and>
    map_of g' = (map_of g)(l \<mapsto> c\<lparr>lc_tx :=
      if unat sz < rlc_overhead l ty then 0
      else if unat (lc_tx c) \<le> unat sz - rlc_overhead l ty then 0
      else of_nat (max (tx_floor ty) (unat (lc_tx c) - (unat sz - rlc_overhead l ty)))\<rparr>)"
  using data_grant [OF assms(1-3), of l ty] assms(4) map_of_nonempty [OF assms(4)]
  by (auto simp: lcg_assigned_data_def lcg_at_def map_of_put fun_eq_iff)

lemma assigned_data_eq:
  assumes "map_of g l = Some c"
  shows "\<exists>g'. lcg_assigned_data l sz ty g = Inr g' \<and> map_of g' = (map_of g)(l \<mapsto> lc_assigned_data l sz ty c)"
  using assms map_of_nonempty [OF assms] by (auto simp: lcg_assigned_data_def lcg_at_def map_of_put fun_eq_iff)

text \<open>Equal grants in a row.\<close>

fun lcg_grants :: "nat \<Rightarrow> 8 word \<Rightarrow> 32 word \<Rightarrow> string \<Rightarrow> lcg \<Rightarrow> lcg result" where
  "lcg_grants 0 l sz ty g = Inr g"
| "lcg_grants (Suc n) l sz ty g = res_bind (lcg_assigned_data l sz ty g) (lcg_grants n l sz ty)"

lemma lcg_grants_eq:
  "map_of g l = Some c \<Longrightarrow>
   \<exists>g'. lcg_grants n l sz ty g = Inr g' \<and> map_of g' = (map_of g)(l \<mapsto> (lc_assigned_data l sz ty ^^ n) c)"
proof (induction n arbitrary: g c)
  case (Suc n)
  obtain g1 where g1: "lcg_assigned_data l sz ty g = Inr g1"
    "map_of g1 = (map_of g)(l \<mapsto> lc_assigned_data l sz ty c)"
    using assigned_data_eq [OF Suc.prems] by blast
  then show ?case
    using Suc.IH [of g1 "lc_assigned_data l sz ty c"] by (auto simp: funpow_swap1 fun_eq_iff)
qed (auto simp: fun_upd_idem)

lemma drain_data:
  assumes "tx_floor ty \<le> unat sz - rlc_overhead l ty" and "rlc_overhead l ty \<le> unat sz"
    and "lc_status c = 0" and "lc_retx c = 0" and "unat (lc_tx c) \<le> 2 ^ 32 - 4"
    and "unat (lc_tx c) \<le> k * (unat sz - rlc_overhead l ty)"
  shows "(lc_assigned_data l sz ty ^^ k) c = c\<lparr>lc_tx := 0\<rparr>"
  using assms(3-)
proof (induction k arbitrary: c)
  case 0
  then have "lc_tx c = 0"
    by (simp add: word_unat_eq_iff)
  then show ?case
    by simp
next
  case (Suc k)
  define d where "d = unat sz - rlc_overhead l ty"
  define t where "t = (if unat (lc_tx c) \<le> d then 0 else max (tx_floor ty) (unat (lc_tx c) - d))"
  have t: "t \<le> 2 ^ 32 - 4" "t \<le> k * d"
    using Suc.prems(3,4) assms(1) by (cases k; auto simp: t_def d_def [symmetric] tx_floor_def)+
  have u: "unat (of_nat t :: 32 word) = t"
    using t(1) by (simp add: unat_of_nat)
  have "lc_assigned_data l sz ty c = c\<lparr>lc_tx := of_nat t\<rparr>"
    using data_grant [of c sz l ty] Suc.prems assms(2) by (simp add: t_def d_def)
  moreover have "(lc_assigned_data l sz ty ^^ k) (c\<lparr>lc_tx := of_nat t\<rparr>) = c\<lparr>lc_tx := of_nat t\<rparr>\<lparr>lc_tx := 0\<rparr>"
    using Suc.IH [of "c\<lparr>lc_tx := of_nat t\<rparr>"] Suc.prems t u by (simp add: d_def)
  ultimately show ?case
    by (simp add: funpow_swap1)
qed

lemma drain_retx:
  assumes "tx_floor ty \<le> unat sz - rlc_overhead l ty" and "rlc_overhead l ty \<le> unat sz"
    and "lc_status c = 0" and "lc_retx c \<le> sz" and "unat (lc_tx c) \<le> 2 ^ 32 - 4"
    and "unat (lc_tx c) \<le> k * (unat sz - rlc_overhead l ty)"
  shows "(lc_assigned_data l sz ty ^^ Suc k) c = c\<lparr>lc_tx := 0, lc_retx := 0\<rparr>"
proof (cases "lc_retx c = 0")
  case True
  then show ?thesis
    using drain_data [of ty sz l c "Suc k"] assms by simp
next
  case False
  then have "lc_assigned_data l sz ty c = c\<lparr>lc_retx := 0\<rparr>"
    using assms(3,4) by (simp add: lc_assigned_data_def word_gt_0)
  then show ?thesis
    using drain_data [of ty sz l "c\<lparr>lc_retx := 0\<rparr>" k] assms by (simp add: funpow_swap1)
qed

lemma drain_all:
  assumes "tx_floor ty \<le> unat sz - rlc_overhead l ty" and "rlc_overhead l ty \<le> unat sz"
    and "ucast (lc_status c) \<le> sz" and "lc_retx c \<le> sz" and "unat (lc_tx c) \<le> 2 ^ 32 - 4"
    and "unat (lc_tx c) \<le> k * (unat sz - rlc_overhead l ty)"
  shows "(lc_assigned_data l sz ty ^^ Suc (Suc k)) c = c\<lparr>lc_tx := 0, lc_retx := 0, lc_status := 0\<rparr>"
proof (cases "lc_status c = 0")
  case True
  then show ?thesis
    using drain_retx [of ty sz l c "Suc k"] assms by simp
next
  case False
  then have "lc_assigned_data l sz ty c = c\<lparr>lc_status := 0\<rparr>"
    using assms(3) by (simp add: lc_assigned_data_def word_gt_0)
  then show ?thesis
    using drain_retx [of ty sz l "c\<lparr>lc_status := 0\<rparr>" k] assms by (simp add: funpow_swap1)
qed

text \<open>C27: Grants empty a channel: when each of them covers the status report, the retransmission queue and
  the overhead plus the floor of the direction, $k + 2$ equal grants empty all three queues of the channel as soon as $k$
  of them cover the transmission queue, and leave the other channels of the group alone.\<close>

theorem grants_drain:
  assumes "map_of g l = Some c" and "rlc_overhead l ty + tx_floor ty \<le> unat sz"
    and "ucast (lc_status c) \<le> sz" and "lc_retx c \<le> sz" and "unat (lc_tx c) \<le> 2 ^ 32 - 4"
    and "unat (lc_tx c) \<le> k * (unat sz - rlc_overhead l ty)"
  shows "\<exists>g' c'. lcg_grants (k + 2) l sz ty g = Inr g' \<and> map_of g' = (map_of g)(l \<mapsto> c') \<and> lc_backlog c' = 0"
proof -
  obtain g' where "lcg_grants (k + 2) l sz ty g = Inr g'"
    "map_of g' = (map_of g)(l \<mapsto> (lc_assigned_data l sz ty ^^ (k + 2)) c)"
    using lcg_grants_eq [OF assms(1)] by blast
  moreover have "lc_backlog ((lc_assigned_data l sz ty ^^ (k + 2)) c) = 0"
    using drain_all [of ty sz l c k] assms(2-) by (simp add: lc_backlog_def)
  ultimately show ?thesis
    by blast
qed

definition demo_lc :: "32 word \<Rightarrow> 32 word \<Rightarrow> 16 word \<Rightarrow> lc" where
  "demo_lc tx retx status = \<lparr>lc_id = 4, lc_tx = tx, lc_tx_hol = 0, lc_retx_hol = 0, lc_retx = retx,
     lc_status = status, lc_delay_budget = 100, lc_per_exp = 2, lc_resource_type = 1, lc_qci = 1,
     lc_priority = 2, lc_gbr_dl = 0\<rparr>"

theorem data_grant_effect_witness:
  "\<exists>g' h. lcg_assigned_data 4 100 ''DL'' [(4, demo_lc 300 150 0)] = Inr g' \<and>
     map_of g' 4 = Some (demo_lc 202 150 0) \<and>
     lcg_assigned_data 4 1 ''DL'' [(4, demo_lc 300 150 0)] = Inr h \<and> map_of h 4 = Some (demo_lc 0 150 0)"
proof -
  have m: "map_of [(4 :: 8 word, demo_lc 300 150 0)] 4 = Some (demo_lc 300 150 0)"
    by simp
  obtain g' where "lcg_assigned_data 4 100 ''DL'' [(4, demo_lc 300 150 0)] = Inr g'"
    "map_of g' 4 = Some (demo_lc 202 150 0)"
    using data_grant_effect [OF _ _ _ m, of 100 "''DL''"]
    by (auto simp: demo_lc_def rlc_overhead_def tx_floor_def word_less_nat_alt)
  moreover obtain h where "lcg_assigned_data 4 1 ''DL'' [(4, demo_lc 300 150 0)] = Inr h"
    "map_of h 4 = Some (demo_lc 0 150 0)"
    using data_grant_effect [OF _ _ _ m, of 1 "''DL''"]
    by (auto simp: demo_lc_def rlc_overhead_def tx_floor_def word_less_nat_alt)
  ultimately show ?thesis
    by blast
qed

theorem grants_drain_witness:
  "\<exists>g' c'. lcg_grants 6 4 100 ''UL'' [(4, demo_lc 300 80 9)] = Inr g' \<and> map_of g' 4 = Some c' \<and> lc_backlog c' = 0"
  using grants_drain [of "[(4, demo_lc 300 80 9)]" 4 "demo_lc 300 80 9" "''UL''" 100 4]
  by (auto simp: demo_lc_def rlc_overhead_def tx_floor_def word_le_nat_alt)

end
