(* ===== verification/Nr_Harq.thy ===== *)
theory Nr_Harq
  imports Ns_Prelude
begin

text \<open>
  The HARQ processes of a user and their store: \<open>HarqProcess\<close> (\<open>contrib/nr/model/nr-mac-harq-process.h\<close>),
  the DCI it keeps (\<open>nr-phy-mac-common.h\<close>), \<open>NrMacHarqVector\<close> (\<open>nr-mac-harq-vector.h\<close>,
  \<open>nr-mac-harq-vector.cc\<close>) and the soft-combining history of the physical layer, \<open>NrHarqPhy\<close>
  (\<open>nr-harq-phy.cc\<close>). The order in which the hash map of the vector is iterated is a parameter.
\<close>

section \<open>Processes\<close>

datatype dci_format = DL | UL

datatype var_tti_type = SRS | DATA | CTRL

record rlc_pdu =
  pdu_lcid :: "8 word"
  pdu_size :: "32 word"

record dci =
  dci_rnti :: "16 word"
  dci_format :: dci_format
  dci_symStart :: "8 word"
  dci_numSym :: "8 word"
  dci_mcs :: "8 word list"
  dci_tbSize :: "32 word list"
  dci_ndi :: "8 word list"
  dci_rv :: "8 word list"
  dci_type :: var_tti_type
  dci_bwpIndex :: "8 word"
  dci_harqProcess :: "8 word"
  dci_rbgBitmask :: "8 word list"
  dci_tpc :: "8 word"

definition dci_create ::
    "16 word \<Rightarrow> dci_format \<Rightarrow> 8 word \<Rightarrow> 8 word \<Rightarrow> 8 word list \<Rightarrow> 32 word list \<Rightarrow> 8 word list \<Rightarrow>
     8 word list \<Rightarrow> var_tti_type \<Rightarrow> 8 word \<Rightarrow> 8 word \<Rightarrow> dci" where
  "dci_create rnti format symStart numSym mcs tbs ndi rv type bwpIndex tpc =
     \<lparr>dci_rnti = rnti, dci_format = format, dci_symStart = symStart, dci_numSym = numSym,
      dci_mcs = mcs, dci_tbSize = tbs, dci_ndi = ndi, dci_rv = rv, dci_type = type,
      dci_bwpIndex = bwpIndex, dci_harqProcess = 0, dci_rbgBitmask = [], dci_tpc = tpc\<rparr>"

datatype harq_status = INACTIVE | WAITING_FEEDBACK | RECEIVED_FEEDBACK

record harq_process =
  hp_active :: bool
  hp_status :: harq_status
  hp_timer :: "8 word"
  hp_dci :: "dci option"
  hp_rlcPdu :: "rlc_pdu list list"
  hp_nackStreams :: "8 word list"

definition hp_default :: harq_process where
  "hp_default =
     \<lparr>hp_active = False, hp_status = INACTIVE, hp_timer = 0, hp_dci = None, hp_rlcPdu = [],
      hp_nackStreams = []\<rparr>"

text \<open>The copy constructor does not copy \<open>nackStreamIndexes\<close>.\<close>

definition hp_copy :: "harq_process \<Rightarrow> harq_process" where
  "hp_copy other =
     \<lparr>hp_active = hp_active other, hp_status = hp_status other, hp_timer = hp_timer other,
      hp_dci = hp_dci other, hp_rlcPdu = hp_rlcPdu other, hp_nackStreams = []\<rparr>"

definition hp_create :: "bool \<Rightarrow> harq_status \<Rightarrow> 8 word \<Rightarrow> dci option \<Rightarrow> harq_process" where
  "hp_create active status timer d =
     \<lparr>hp_active = active, hp_status = status, hp_timer = timer, hp_dci = d, hp_rlcPdu = [],
      hp_nackStreams = []\<rparr>"

definition hp_erase :: "harq_process \<Rightarrow> harq_process" where
  "hp_erase p = p\<lparr>hp_active := False, hp_status := INACTIVE, hp_timer := 0, hp_dci := None, hp_rlcPdu := []\<rparr>"

section \<open>The vector\<close>

record harq_vector =
  hv_map :: "(8 word \<times> harq_process) list"
  hv_maxSize :: "8 word"
  hv_usedSize :: "8 word"

definition hv_default :: harq_vector where
  "hv_default = \<lparr>hv_map = [], hv_maxSize = 0, hv_usedSize = 0\<rparr>"

definition hm_emplace :: "8 word \<Rightarrow> harq_process \<Rightarrow> (8 word \<times> harq_process) list \<Rightarrow>
    (8 word \<times> harq_process) list" where
  "hm_emplace k p m = (if map_of m k = None then m @ [(k, p)] else m)"

text \<open>\<open>order\<close> is the iteration order that the hash table settles on after the insertions.\<close>

definition hv_set_max_size ::
    "((8 word \<times> harq_process) list \<Rightarrow> (8 word \<times> harq_process) list) \<Rightarrow> 8 word \<Rightarrow> harq_vector \<Rightarrow>
     harq_vector" where
  "hv_set_max_size order sz v =
     v\<lparr>hv_maxSize := sz,
       hv_map := order (fold (\<lambda>i. hm_emplace (of_nat i) hp_default) [0..<unat sz] (hv_map v))\<rparr>"

definition hv_exist :: "8 word \<Rightarrow> harq_vector \<Rightarrow> bool" where
  "hv_exist k v \<longleftrightarrow> map_of (hv_map v) k \<noteq> None"

definition hv_get :: "8 word \<Rightarrow> harq_vector \<Rightarrow> harq_process result" where
  "hv_get k v = ns_assert (hv_exist k v) (Inr (the (map_of (hv_map v) k)))"

text \<open>\<open>at\<close> throws for an absent key.\<close>

definition hm_at :: "8 word \<Rightarrow> (8 word \<times> harq_process) list \<Rightarrow> harq_process result" where
  "hm_at k m = (case map_of m k of None \<Rightarrow> Inl Exception_thrown | Some p \<Rightarrow> Inr p)"

definition hm_put :: "8 word \<Rightarrow> harq_process \<Rightarrow> (8 word \<times> harq_process) list \<Rightarrow>
    (8 word \<times> harq_process) list" where
  "hm_put k p m = map (\<lambda>(k', q). if k' = k then (k', p) else (k', q)) m"

fun hm_first_available :: "(8 word \<times> harq_process) list \<Rightarrow> 8 word" where
  "hm_first_available [] = 255"
| "hm_first_available ((k, p) # m) = (if \<not> hp_active p then k else hm_first_available m)"

definition hv_first_available :: "harq_vector \<Rightarrow> 8 word" where
  "hv_first_available v = hm_first_available (hv_map v)"

definition hv_size :: "harq_vector \<Rightarrow> 32 word" where
  "hv_size v = ucast (hv_usedSize v)"

definition hv_can_insert :: "harq_vector \<Rightarrow> bool" where
  "hv_can_insert v \<longleftrightarrow> hv_size v < ucast (hv_maxSize v)"

definition hm_count_active :: "(8 word \<times> harq_process) list \<Rightarrow> 32 word" where
  "hm_count_active m = fold (\<lambda>(k, p) count. if hp_active p then count + 1 else count) m 0"

definition hv_erase :: "8 word \<Rightarrow> harq_vector \<Rightarrow> (bool \<times> harq_vector) result" where
  "hv_erase k v =
     res_bind (hm_at k (hv_map v)) (\<lambda>p.
     (let v1 = v\<lparr>hv_map := hm_put k (hp_erase p) (hv_map v)\<rparr>;
          v2 = v1\<lparr>hv_usedSize := hv_usedSize v1 - 1\<rparr>
      in ns_assert (hm_count_active (hv_map v2) = ucast (hv_usedSize v2)) (Inr (True, v2))))"

definition hv_insert :: "8 word \<Rightarrow> harq_process \<Rightarrow> harq_vector \<Rightarrow>
    (bool \<times> 8 word \<times> harq_vector) result" where
  "hv_insert k0 element v =
     (if hv_usedSize v \<ge> hv_maxSize v then Inr (False, k0, v)
      else ns_abort_if (hp_active element = False)
        (let k = hv_first_available v
         in if k = 255 then Inr (False, k, v)
            else
              res_bind (hm_at k (hv_map v)) (\<lambda>old.
              ns_abort_if (hp_active old = True)
                (let v1 = v\<lparr>hv_map := hm_put k element (hv_map v)\<rparr>
                 in res_bind (hm_at k (hv_map v1)) (\<lambda>new.
                    ns_abort_if (hp_active new = False)
                      (ns_abort_if (hv_first_available v1 = k)
                        (Inr (True, k, v1\<lparr>hv_usedSize := hv_usedSize v1 + 1\<rparr>))))))))"

section \<open>The history of the physical layer\<close>

text \<open>The outputs of the error model are only stored; their type is a parameter.\<close>

type_synonym 'o history_map = "16 word \<Rightarrow> (8 word \<Rightarrow> 'o list option) option"

record 'o harq_phy =
  phy_dl :: "'o history_map"
  phy_ul :: "'o history_map"

definition phy_default :: "'o harq_phy" where
  "phy_default = \<lparr>phy_dl = Map.empty, phy_ul = Map.empty\<rparr>"

text \<open>\<open>GetHistoryMapOf\<close> and \<open>GetProcIdHistoryMapOf\<close> insert an empty entry when there is none.\<close>

definition history_map_of :: "16 word \<Rightarrow> 'o history_map \<Rightarrow> 'o history_map" where
  "history_map_of rnti m = (case m rnti of None \<Rightarrow> m(rnti \<mapsto> Map.empty) | Some _ \<Rightarrow> m)"

definition proc_history_of :: "8 word \<Rightarrow> (8 word \<Rightarrow> 'o list option) \<Rightarrow> (8 word \<Rightarrow> 'o list option)" where
  "proc_history_of k m = (case m k of None \<Rightarrow> m(k \<mapsto> []) | Some _ \<Rightarrow> m)"

definition phy_reset_status :: "16 word \<Rightarrow> 8 word \<Rightarrow> 'o history_map \<Rightarrow> 'o history_map" where
  "phy_reset_status rnti k m =
     (let m1 = history_map_of rnti m; h = proc_history_of k (the (m1 rnti))
      in m1(rnti \<mapsto> h(k \<mapsto> [])))"

definition phy_update_status :: "16 word \<Rightarrow> 8 word \<Rightarrow> 'o \<Rightarrow> 'o history_map \<Rightarrow> 'o history_map" where
  "phy_update_status rnti k out m =
     (let m1 = history_map_of rnti m; h = proc_history_of k (the (m1 rnti))
      in m1(rnti \<mapsto> h(k \<mapsto> the (h k) @ [out])))"

definition phy_process_info :: "16 word \<Rightarrow> 8 word \<Rightarrow> 'o history_map \<Rightarrow> 'o list \<times> 'o history_map" where
  "phy_process_info rnti k m =
     (let m1 = history_map_of rnti m; h = proc_history_of k (the (m1 rnti))
      in (the (h k), m1(rnti \<mapsto> h)))"

definition phy_info_dl :: "16 word \<Rightarrow> 8 word \<Rightarrow> 'o harq_phy \<Rightarrow> 'o list \<times> 'o harq_phy" where
  "phy_info_dl rnti k p = (case phy_process_info rnti k (phy_dl p) of (h, m) \<Rightarrow> (h, p\<lparr>phy_dl := m\<rparr>))"

definition phy_info_ul :: "16 word \<Rightarrow> 8 word \<Rightarrow> 'o harq_phy \<Rightarrow> 'o list \<times> 'o harq_phy" where
  "phy_info_ul rnti k p = (case phy_process_info rnti k (phy_ul p) of (h, m) \<Rightarrow> (h, p\<lparr>phy_ul := m\<rparr>))"

definition phy_update_dl :: "16 word \<Rightarrow> 8 word \<Rightarrow> 'o \<Rightarrow> 'o harq_phy \<Rightarrow> 'o harq_phy" where
  "phy_update_dl rnti k out p = p\<lparr>phy_dl := phy_update_status rnti k out (phy_dl p)\<rparr>"

definition phy_update_ul :: "16 word \<Rightarrow> 8 word \<Rightarrow> 'o \<Rightarrow> 'o harq_phy \<Rightarrow> 'o harq_phy" where
  "phy_update_ul rnti k out p = p\<lparr>phy_ul := phy_update_status rnti k out (phy_ul p)\<rparr>"

definition phy_reset_dl :: "16 word \<Rightarrow> 8 word \<Rightarrow> 'o harq_phy \<Rightarrow> 'o harq_phy" where
  "phy_reset_dl rnti k p = p\<lparr>phy_dl := phy_reset_status rnti k (phy_dl p)\<rparr>"

definition phy_reset_ul :: "16 word \<Rightarrow> 8 word \<Rightarrow> 'o harq_phy \<Rightarrow> 'o harq_phy" where
  "phy_reset_ul rnti k p = p\<lparr>phy_ul := phy_reset_status rnti k (phy_ul p)\<rparr>"

section \<open>The vector as a partial map\<close>

text \<open>The active processes of the vector, which is all that a user of the vector is promised.\<close>

definition hv_active :: "harq_vector \<Rightarrow> 8 word \<Rightarrow> harq_process option" where
  "hv_active v k = (case map_of (hv_map v) k of Some p \<Rightarrow> if hp_active p then Some p else None | None \<Rightarrow> None)"

definition hv_ok :: "harq_vector \<Rightarrow> bool" where
  "hv_ok v \<longleftrightarrow> distinct (map fst (hv_map v)) \<and>
     fst ` set (hv_map v) = {k. k < hv_maxSize v} \<and>
     unat (hv_usedSize v) = length (filter (hp_active \<circ> snd) (hv_map v))"

lemma map_of_hm_put:
  "map_of (hm_put k p m) k' = (if k' = k \<and> map_of m k \<noteq> None then Some p else map_of m k')"
  by (induction m) (auto simp: hm_put_def)

lemma fst_hm_put [simp]: "map fst (hm_put k p m) = map fst m"
  by (simp add: hm_put_def case_prod_unfold comp_def)

lemma hm_count_active_eq:
  assumes "length m < 2 ^ 32"
  shows "hm_count_active m = of_nat (length (filter (hp_active \<circ> snd) m))"
proof -
  have "fold (\<lambda>(k, p) count. if hp_active p then count + 1 else count) m c =
      c + of_nat (length (filter (hp_active \<circ> snd) m))" for c :: "32 word"
    by (induction m arbitrary: c) (auto simp: algebra_simps)
  then show ?thesis
    by (simp add: hm_count_active_def)
qed

lemma filter_hm_put:
  assumes "distinct (map fst m)" and "map_of m k = Some old"
  shows "length (filter (hp_active \<circ> snd) (hm_put k p m)) + (if hp_active old then 1 else 0) =
    length (filter (hp_active \<circ> snd) m) + (if hp_active p then 1 else 0)"
  using assms
proof (induction m)
  case Nil
  then show ?case by simp
next
  case (Cons e m)
  obtain k' q where e: "e = (k', q)"
    by (cases e)
  have out: "k' \<notin> fst ` set m"
    using Cons.prems(1) e by simp
  show ?case
  proof (cases "k' = k")
    case True
    then have "hm_put k p m = m"
      using out by (force simp: hm_put_def intro!: map_idI)
    then show ?thesis
      using True Cons.prems(2) e by (simp add: hm_put_def)
  next
    case False
    then have "map_of m k = Some old"
      using Cons.prems(2) e by simp
    from Cons.IH [OF _ this] Cons.prems(1) False show ?thesis
      by (simp add: e hm_put_def)
  qed
qed

lemma hm_first_available_cases:
  "(\<exists>p. (hm_first_available m, p) \<in> set m \<and> \<not> hp_active p) \<or>
   hm_first_available m = 255 \<and> (\<forall>e \<in> set m. hp_active (snd e))"
  by (induction m rule: hm_first_available.induct) auto

lemma card_words_below: "card {k. k < n} = unat n" for n :: "8 word"
proof -
  have "unat ` {k. k < n} = {..<unat n}"
  proof
    show "unat ` {k. k < n} \<subseteq> {..<unat n}"
      by (auto simp: word_less_nat_alt)
    show "{..<unat n} \<subseteq> unat ` {k. k < n}"
    proof
      fix i assume i: "i \<in> {..<unat n}"
      then have "unat (of_nat i :: 8 word) = i"
        using unat8_less [of n] by (simp add: unat_of_nat)
      with i show "i \<in> unat ` {k. k < n}"
        by (intro image_eqI [of _ _ "of_nat i"]) (simp_all add: word_less_nat_alt)
    qed
  qed
  moreover have "inj_on unat {k. k < n}"
    by (simp add: inj_on_def word_unat_eq_iff)
  ultimately show ?thesis
    using card_image by fastforce
qed

lemma hv_ok_length: "hv_ok v \<Longrightarrow> length (hv_map v) = unat (hv_maxSize v)"
  using card_words_below [of "hv_maxSize v"] distinct_card [of "map fst (hv_map v)"]
  by (simp add: hv_ok_def)

lemma hv_ok_count:
  assumes "hv_ok v"
  shows "hm_count_active (hv_map v) = ucast (hv_usedSize v)"
proof -
  have "length (hv_map v) < 2 ^ 32"
    using hv_ok_length [OF assms] unat8_less [of "hv_maxSize v"] by simp
  from hm_count_active_eq [OF this] assms show ?thesis
    by (simp add: hv_ok_def) (metis of_nat_unat)
qed

lemma hv_exist_iff: "hv_ok v \<Longrightarrow> map_of (hv_map v) k \<noteq> None \<longleftrightarrow> k < hv_maxSize v"
  by (auto simp: hv_ok_def map_of_eq_None_iff)

text \<open>Storing a process under an id that holds one: the invariant and the counter.\<close>

lemma hv_put_ok:
  assumes "hv_ok v" and "map_of (hv_map v) k = Some old"
    and "unat u + (if hp_active old then 1 else 0) = unat (hv_usedSize v) + (if hp_active p then 1 else 0)"
  shows "hv_ok (v\<lparr>hv_map := hm_put k p (hv_map v), hv_usedSize := u\<rparr>)"
proof -
  have d: "distinct (map fst (hv_map v))"
    using assms(1) by (simp add: hv_ok_def)
  have "fst ` set (hm_put k p (hv_map v)) = fst ` set (hv_map v)"
    by (metis fst_hm_put list.set_map)
  then show ?thesis
    using assms(1,3) filter_hm_put [OF d assms(2), of p] by (simp add: hv_ok_def)
qed

lemma hv_active_put:
  assumes "map_of (hv_map v) k = Some old"
  shows "hv_active (v\<lparr>hv_map := hm_put k p (hv_map v), hv_usedSize := u\<rparr>) =
    (hv_active v)(k := if hp_active p then Some p else None)"
  using assms by (auto simp: hv_active_def map_of_hm_put fun_eq_iff)

lemma hv_erase_active:
  assumes "hv_ok v" and "hv_active v k = Some p"
  shows "\<exists>v'. hv_erase k v = Inr (True, v') \<and> hv_ok v' \<and> hv_active v' = (hv_active v)(k := None) \<and>
    hv_maxSize v' = hv_maxSize v"
proof -
  have p: "map_of (hv_map v) k = Some p" "hp_active p"
    using assms(2) by (auto simp: hv_active_def split: option.splits if_splits)
  let ?v' = "v\<lparr>hv_map := hm_put k (hp_erase p) (hv_map v), hv_usedSize := hv_usedSize v - 1\<rparr>"
  have "(k, p) \<in> set (filter (hp_active \<circ> snd) (hv_map v))"
    using p map_of_SomeD by fastforce
  then have "0 < length (filter (hp_active \<circ> snd) (hv_map v))"
    by (rule length_pos_if_in_set)
  then have "0 < unat (hv_usedSize v)"
    using assms(1) by (simp add: hv_ok_def)
  then have "unat (hv_usedSize v - 1) + 1 = unat (hv_usedSize v)"
    using unat_minus_one [of "hv_usedSize v"] by (cases "hv_usedSize v = 0") simp_all
  then have ok: "hv_ok ?v'"
    using p(2) by (intro hv_put_ok [OF assms(1) p(1)]) (simp add: hp_erase_def)
  have "hv_erase k v = Inr (True, ?v')"
    using hv_ok_count [OF ok] p(1) by (simp add: hv_erase_def hm_at_def)
  moreover have "hv_active ?v' = (hv_active v)(k := None)"
    by (simp add: hv_active_put [OF p(1)] hp_erase_def)
  ultimately show ?thesis
    using ok by (intro exI [of _ ?v']) simp
qed

lemma hv_insert_full:
  "hv_maxSize v \<le> hv_usedSize v \<Longrightarrow> hv_insert k0 p v = Inr (False, k0, v)"
  by (simp add: hv_insert_def)

lemma hv_insert_free:
  assumes "hv_ok v" and "hp_active p" and "hv_usedSize v < hv_maxSize v"
  shows "\<exists>k v'. hv_insert k0 p v = Inr (True, k, v') \<and> hv_active v k = None \<and> hv_ok v' \<and>
    hv_active v' = (hv_active v)(k \<mapsto> p) \<and> k < hv_maxSize v \<and>
    hv_maxSize v' = hv_maxSize v \<and> unat (hv_usedSize v') = Suc (unat (hv_usedSize v))"
proof -
  let ?k = "hm_first_available (hv_map v)"
  have d: "distinct (map fst (hv_map v))" and keys: "fst ` set (hv_map v) = {k. k < hv_maxSize v}"
    using assms(1) by (simp_all add: hv_ok_def)
  have "length (filter (hp_active \<circ> snd) (hv_map v)) < length (hv_map v)"
    using assms(1,3) hv_ok_length [OF assms(1)] by (simp add: hv_ok_def word_less_nat_alt)
  then have "\<not> (\<forall>e \<in> set (hv_map v). hp_active (snd e))"
    by (metis comp_apply filter_True less_not_refl)
  then obtain old where old: "(?k, old) \<in> set (hv_map v)" "\<not> hp_active old"
    using hm_first_available_cases [of "hv_map v"] by blast
  then have at: "map_of (hv_map v) ?k = Some old"
    using d by simp
  have k: "?k < hv_maxSize v"
    using old(1) keys by force
  then have k255: "?k \<noteq> 255"
    using unat8_less [of "hv_maxSize v"] by (auto simp: word_less_nat_alt)
  let ?v1 = "v\<lparr>hv_map := hm_put ?k p (hv_map v)\<rparr>"
  let ?v' = "v\<lparr>hv_map := hm_put ?k p (hv_map v), hv_usedSize := hv_usedSize v + 1\<rparr>"
  have at1: "map_of (hm_put ?k p (hv_map v)) ?k = Some p"
    using at by (simp add: map_of_hm_put)
  have fa: "hm_first_available (hm_put ?k p (hv_map v)) \<noteq> ?k"
  proof
    assume eq: "hm_first_available (hm_put ?k p (hv_map v)) = ?k"
    then obtain q where "(?k, q) \<in> set (hm_put ?k p (hv_map v))" "\<not> hp_active q"
      using hm_first_available_cases [of "hm_put ?k p (hv_map v)"] k255 by auto
    moreover from this(1) have "map_of (hm_put ?k p (hv_map v)) ?k = Some q"
      using d by simp
    ultimately show False
      using at1 assms(2) by simp
  qed
  have u: "unat (hv_usedSize v + 1) = Suc (unat (hv_usedSize v))"
  proof -
    have "Suc (unat (hv_usedSize v)) < 256"
      using assms(3) unat8_less [of "hv_maxSize v"] by (simp add: word_less_nat_alt)
    then show ?thesis
      by (simp add: unat_word_ariths)
  qed
  then have ok: "hv_ok ?v'"
    using old(2) assms(2) by (intro hv_put_ok [OF assms(1) at]) simp
  have "hv_insert k0 p v = Inr (True, ?k, ?v')"
    using assms(2,3) at at1 old(2) k255 fa
    by (simp add: hv_insert_def hv_first_available_def hm_at_def Let_def not_le)
  moreover have "hv_active v ?k = None"
    using at old(2) by (simp add: hv_active_def)
  moreover have "hv_active ?v' = (hv_active v)(?k \<mapsto> p)"
    using assms(2) by (simp add: hv_active_put [OF at])
  ultimately show ?thesis
    using ok u k by (intro exI [of _ ?k] exI [of _ ?v']) simp
qed

text \<open>The vector after \<open>SetMaxSize\<close>.\<close>

lemma hv_start_fold:
  "j \<le> 255 \<Longrightarrow> fold (\<lambda>i. hm_emplace (of_nat i) hp_default) [0..<j] [] =
    map (\<lambda>i. (of_nat i, hp_default)) [0..<j]"
proof (induction j)
  case 0
  then show ?case by simp
next
  case (Suc j)
  have "map_of (map (\<lambda>i. (of_nat i :: 8 word, hp_default)) [0..<j]) (of_nat j) = None"
    using Suc.prems by (auto simp: map_of_eq_None_iff word_unat_eq_iff unat_of_nat)
  then show ?case
    using Suc by (simp add: hm_emplace_def)
qed

lemma hv_start_map:
  "hv_map (hv_set_max_size order n hv_default) = order (map (\<lambda>i. (of_nat i, hp_default)) [0..<unat n])"
  using unat8_less [of n] by (simp add: hv_set_max_size_def hv_default_def hv_start_fold)

lemma hv_start_default:
  assumes "\<And>l. mset (order l) = mset l" and "(k, p) \<in> set (hv_map (hv_set_max_size order n hv_default))"
  shows "p = hp_default"
  using assms(2) mset_eq_setD [OF assms(1)] by (auto simp: hv_start_map)

lemma hv_start_ok:
  assumes "\<And>l. mset (order l) = mset l"
  shows "hv_ok (hv_set_max_size order n hv_default) \<and>
    hv_active (hv_set_max_size order n hv_default) = Map.empty"
proof -
  let ?l = "map (\<lambda>i. (of_nat i :: 8 word, hp_default)) [0..<unat n]"
  have n: "unat n \<le> 255"
    using unat8_less [of n] by simp
  note m = hv_start_map [of order n]
  have set: "set (order ?l) = set ?l" "length (order ?l) = unat n"
    using mset_eq_setD [OF assms [of ?l]] mset_eq_length [OF assms [of ?l]] by simp_all
  have "distinct (map fst ?l)"
    using n by (auto simp: distinct_map comp_def inj_on_def word_unat_eq_iff unat_of_nat)
  moreover have "mset (map fst (order ?l)) = mset (map fst ?l)"
    by (simp only: mset_map assms)
  ultimately have "distinct (map fst (order ?l))"
    by (metis mset_eq_imp_distinct_iff)
  moreover have "fst ` set (order ?l) = {k. k < n}"
  proof -
    have "fst ` set (order ?l) = of_nat ` {..<unat n}"
      unfolding set(1) by (auto simp: image_image)
    moreover have "of_nat ` {..<unat n} = {k. k < n}"
    proof (rule card_subset_eq)
      show "of_nat ` {..<unat n} \<subseteq> {k. k < n}"
        using n by (auto simp: word_less_nat_alt unat_of_nat)
      have "inj_on (of_nat :: nat \<Rightarrow> 8 word) {..<unat n}"
        using n by (auto simp: inj_on_def word_unat_eq_iff unat_of_nat)
      then show "card (of_nat ` {..<unat n} :: 8 word set) = card {k. k < n}"
        by (simp add: card_image card_words_below)
    qed simp
    ultimately show ?thesis by simp
  qed
  moreover have inact: "\<not> hp_active (snd e)" if "e \<in> set (order ?l)" for e
    using that unfolding set(1) by (auto simp: hp_default_def)
  moreover have "filter (hp_active \<circ> snd) (order ?l) = []"
    using inact by (simp add: filter_empty_conv)
  ultimately have "hv_ok (hv_set_max_size order n hv_default)"
    unfolding hv_ok_def m by (simp add: hv_set_max_size_def hv_default_def)
  moreover have "hv_active (hv_set_max_size order n hv_default) = Map.empty"
  proof
    fix k
    show "hv_active (hv_set_max_size order n hv_default) k = None"
    proof (cases "map_of (order ?l) k")
      case None
      then show ?thesis
        by (simp add: hv_active_def m)
    next
      case (Some p)
      then have "\<not> hp_active p"
        using inact [of "(k, p)"] map_of_SomeD [OF Some] by simp
      with Some show ?thesis
        by (simp add: hv_active_def m)
    qed
  qed
  ultimately show ?thesis ..
qed

section \<open>Sessions of the vector\<close>

text \<open>
  All sequences of insertions and of removals of active processes on a vector of \<open>n\<close> processes. The
  second argument is the abstract state: the stored processes by id.
\<close>

inductive harq_session ::
    "((8 word \<times> harq_process) list \<Rightarrow> (8 word \<times> harq_process) list) \<Rightarrow> 8 word \<Rightarrow> harq_vector \<Rightarrow>
     (8 word \<Rightarrow> harq_process option) \<Rightarrow> bool"
  for order n where
  start: "harq_session order n (hv_set_max_size order n hv_default) Map.empty"
| insert: "harq_session order n v m \<Longrightarrow> hp_active p \<Longrightarrow> hv_insert k0 p v = Inr (True, k, v') \<Longrightarrow>
    harq_session order n v' (m(k \<mapsto> p))"
| erase: "harq_session order n v m \<Longrightarrow> m k \<noteq> None \<Longrightarrow> hv_erase k v = Inr (True, v') \<Longrightarrow>
    harq_session order n v' (m(k := None))"

lemma harq_session_ok:
  assumes "harq_session order n v m" and "\<And>l. mset (order l) = mset l"
  shows "hv_ok v \<and> hv_active v = m \<and> hv_maxSize v = n"
  using assms(1)
proof (induction rule: harq_session.induct)
  case start
  then show ?case
    using hv_start_ok [OF assms(2)] by (simp add: hv_set_max_size_def)
next
  case (insert v m p k0 k v')
  then have lt: "hv_usedSize v < hv_maxSize v"
    using hv_insert_full [of v k0 p] by (metis Inr_inject fst_conv not_le)
  from hv_insert_free [of v p k0] insert lt show ?case
    by auto
next
  case (erase v m k v')
  then obtain p where "hv_active v k = Some p"
    by auto
  from hv_erase_active [OF _ this] erase show ?case
    by auto
qed

lemma hv_used_card:
  assumes "hv_ok v"
  shows "unat (hv_usedSize v) = card (dom (hv_active v))"
proof -
  have d: "distinct (map fst (hv_map v))"
    using assms by (simp add: hv_ok_def)
  have "dom (hv_active v) = fst ` set (filter (hp_active \<circ> snd) (hv_map v))"
  proof -
    have "k \<in> dom (hv_active v) \<longleftrightarrow> (\<exists>p. (k, p) \<in> set (hv_map v) \<and> hp_active p)" for k
    proof -
      have "k \<in> dom (hv_active v) \<longleftrightarrow> (\<exists>p. map_of (hv_map v) k = Some p \<and> hp_active p)"
        by (auto simp: hv_active_def split: option.splits if_splits)
      then show ?thesis
        by (simp add: map_of_eq_Some_iff [OF d])
    qed
    then show ?thesis
      by force
  qed
  moreover have "distinct (map fst (filter (hp_active \<circ> snd) (hv_map v)))"
    by (rule distinct_map_filter [OF d])
  ultimately show ?thesis
    using distinct_card [of "map fst (filter (hp_active \<circ> snd) (hv_map v))"] assms
    by (simp add: hv_ok_def)
qed

section \<open>Properties\<close>

text \<open>C21: \<open>NrMacHarqVector\<close> refines a partial map with room for \<open>n\<close> processes, whatever the iteration order
  of its hash table: as long as fewer than \<open>n\<close> processes are stored, \<open>Insert\<close> succeeds without a
  fault, under an id that held none, and changes nothing else; when \<open>n\<close> are stored it refuses and
  changes nothing. The counter is always the number of stored processes.\<close>

theorem harq_insert_refines:
  assumes "harq_session order n v m" and "\<And>l. mset (order l) = mset l" and "hp_active p"
  shows "unat (hv_usedSize v) = card (dom m) \<and>
    (if card (dom m) < unat n
     then \<exists>k v'. hv_insert k0 p v = Inr (True, k, v') \<and> m k = None \<and> k < n \<and>
            harq_session order n v' (m(k \<mapsto> p)) \<and> hv_get k v' = Inr p
     else hv_insert k0 p v = Inr (False, k0, v))"
proof -
  note ok = harq_session_ok [OF assms(1,2)]
  then have used: "unat (hv_usedSize v) = card (dom m)"
    using hv_used_card [of v] by simp
  have "\<exists>k v'. hv_insert k0 p v = Inr (True, k, v') \<and> m k = None \<and> k < n \<and>
      harq_session order n v' (m(k \<mapsto> p)) \<and> hv_get k v' = Inr p" if "card (dom m) < unat n"
  proof -
    have "hv_usedSize v < hv_maxSize v"
      using that used ok by (simp add: word_less_nat_alt)
    from hv_insert_free [OF _ assms(3) this, of k0] ok obtain k v' where
      k: "hv_insert k0 p v = Inr (True, k, v')" "m k = None" "k < n" "hv_active v' = m(k \<mapsto> p)"
      by auto
    have "map_of (hv_map v') k = Some p"
      using k(4) by (auto simp: hv_active_def dest: fun_cong [of _ _ k] split: option.splits if_splits)
    then have "hv_get k v' = Inr p"
      by (simp add: hv_get_def hv_exist_def)
    with k harq_session.insert [OF assms(1,3) k(1)] show ?thesis
      by blast
  qed
  moreover have "hv_insert k0 p v = Inr (False, k0, v)" if "\<not> card (dom m) < unat n"
    using that used ok by (intro hv_insert_full) (simp add: word_le_nat_alt)
  ultimately show ?thesis
    using used by simp
qed

definition demo_process :: harq_process where
  "demo_process = hp_create True WAITING_FEEDBACK 0 None"

theorem harq_insert_refines_witness:
  "\<exists>k v'. hv_insert 7 demo_process (hv_set_max_size rev 20 hv_default) = Inr (True, k, v') \<and>
     k < 20 \<and> hv_get k v' = Inr demo_process"
proof -
  have "hp_active demo_process"
    by (simp add: demo_process_def hp_create_def)
  from harq_insert_refines [OF harq_session.start [of rev 20] _ this, of 7] show ?thesis
    by auto
qed

text \<open>\<open>Erase\<close> of a stored process removes it and no other and never trips its own consistency check;
  \<open>Erase\<close> of an id that holds no active process fails that check, and of an id outside the vector
  throws.\<close>

theorem harq_erase_refines:
  assumes "harq_session order n v m" and "\<And>l. mset (order l) = mset l"
  shows "if m k \<noteq> None then \<exists>v'. hv_erase k v = Inr (True, v') \<and> harq_session order n v' (m(k := None))
    else hv_erase k v = Inl (if k < n then Assert_failed else Exception_thrown)"
proof -
  note ok = harq_session_ok [OF assms]
  have hv: "hv_ok v" and max: "hv_maxSize v = n" and act: "hv_active v = m"
    using ok by simp_all
  show ?thesis
  proof (cases "m k \<noteq> None")
    case True
    then obtain p where "hv_active v k = Some p"
      using act by auto
    from hv_erase_active [OF hv this] harq_session.erase [OF assms(1) True] show ?thesis
      using True by auto
  next
    case False
    show ?thesis
    proof (cases "k < n")
      case lt: True
      then obtain p where p: "map_of (hv_map v) k = Some p"
        using hv_exist_iff [OF hv, of k] max by auto
      then have na: "\<not> hp_active p"
        using False act by (auto simp: hv_active_def)
      have "hv_ok (v\<lparr>hv_map := hm_put k (hp_erase p) (hv_map v), hv_usedSize := hv_usedSize v\<rparr>)"
        by (rule hv_put_ok [OF hv p]) (simp add: na hp_erase_def)
      from hv_ok_count [OF this]
      have "hm_count_active (hm_put k (hp_erase p) (hv_map v)) = ucast (hv_usedSize v)"
        by simp
      moreover have "(ucast (hv_usedSize v) :: 32 word) \<noteq> ucast (hv_usedSize v - 1)"
      proof
        assume "(ucast (hv_usedSize v) :: 32 word) = ucast (hv_usedSize v - 1)"
        then have "unat (hv_usedSize v) = unat (hv_usedSize v - 1)"
          using arg_cong [of _ _ unat] unat_ucast_8_32 by metis
        then show False
          by (simp add: word_unat_eq_iff [symmetric])
      qed
      ultimately show ?thesis
        using False lt p by (simp add: hv_erase_def hm_at_def)
    next
      case ge: False
      then have "map_of (hv_map v) k = None"
        using hv_exist_iff [OF hv, of k] max by auto
      then show ?thesis
        using False ge by (simp add: hv_erase_def hm_at_def)
    qed
  qed
qed

theorem harq_erase_refines_witness:
  "hv_erase 3 (hv_set_max_size rev 20 hv_default) = Inl Assert_failed \<and>
   hv_erase 21 (hv_set_max_size rev 20 hv_default) = Inl Exception_thrown"
proof -
  have "mset (rev l) = mset l" for l :: "(8 word \<times> harq_process) list"
    by simp
  note e = harq_erase_refines [OF harq_session.start [of rev 20] this]
  from e [of 3] e [of 21] show ?thesis
    by simp
qed

text \<open>The soft-combining history: an update of one process of one user appends to exactly its history,
  a reset empties exactly it, and reading a history never changes what another read returns.\<close>

theorem phy_history_separate:
  "fst (phy_process_info r k (phy_update_status r' k' x m)) =
     (if r = r' \<and> k = k' then fst (phy_process_info r k m) @ [x] else fst (phy_process_info r k m)) \<and>
   fst (phy_process_info r k (phy_reset_status r' k' m)) =
     (if r = r' \<and> k = k' then [] else fst (phy_process_info r k m)) \<and>
   fst (phy_process_info r k (snd (phy_process_info r' k' m))) = fst (phy_process_info r k m)"
  by (auto simp: phy_process_info_def phy_update_status_def phy_reset_status_def history_map_of_def
      proc_history_of_def Let_def split: option.splits)

end
