(* ===== verification/Nr_Harq_Feedback.thy ===== *)
theory Nr_Harq_Feedback
  imports Nr_Harq Nr_Sfnsf
begin

text \<open>
  The HARQ feedback of the users and the allocation of a slot (\<open>contrib/nr/model/nr-phy-mac-common.h\<close>),
  with what the scheduler reads and writes of a user when it retransmits
  (\<open>nr-mac-scheduler-ue-info.h\<close>): its beam, its two vectors of HARQ processes and the counters of
  retransmitted resources. The type of beams is a parameter. A DCI that a slot and a process share is
  not written after it was put into both, so that the models copy it.
\<close>

section \<open>Feedback\<close>

datatype dl_feedback = ACK | NACK | NONE

datatype ul_reception = Ok | NotOk | NotValid

record harq_info =
  hi_rnti :: "16 word"
  hi_process :: "8 word"
  hi_bwp :: "8 word"

record dl_harq_info = harq_info +
  hi_dl_status :: "dl_feedback list"
  hi_dl_numRetx :: "8 word list"

record ul_harq_info = harq_info +
  hi_ul_received :: "16 word list"
  hi_ul_status :: ul_reception
  hi_ul_tpc :: "8 word"
  hi_ul_numRetx :: "8 word"

fun dl_ok_loop :: "dl_feedback list \<Rightarrow> bool \<Rightarrow> dl_feedback \<Rightarrow> bool \<times> dl_feedback" where
  "dl_ok_loop [] ok allStatus = (ok, allStatus)"
| "dl_ok_loop (it # its) ok allStatus =
     (if it = ACK \<or> it = NONE then dl_ok_loop its True (if it \<noteq> NONE then it else allStatus)
      else (False, it))"

definition dl_received_ok :: "dl_harq_info \<Rightarrow> bool result" where
  "dl_received_ok f =
     (case dl_ok_loop (hi_dl_status f) False NONE of
        (ok, allStatus) \<Rightarrow> ns_assert (allStatus \<noteq> NONE) (Inr ok))"

definition dl_received_ok_stream :: "8 word \<Rightarrow> dl_harq_info \<Rightarrow> bool result" where
  "dl_received_ok_stream stream f =
     (if unat stream < length (hi_dl_status f) then Inr (hi_dl_status f ! unat stream = ACK)
      else Inl Exception_thrown)"

definition dl_nack_streams :: "dl_harq_info \<Rightarrow> 8 word list" where
  "dl_nack_streams f = map of_nat (filter (\<lambda>i. hi_dl_status f ! i = NACK) [0..<length (hi_dl_status f)])"

definition ul_received_ok :: "ul_harq_info \<Rightarrow> bool" where
  "ul_received_ok f \<longleftrightarrow> hi_ul_status f = Ok"

definition ul_nack_streams :: "ul_harq_info \<Rightarrow> 8 word list" where
  "ul_nack_streams f = (if hi_ul_status f = NotOk then [0] else [])"

section \<open>Slots and users\<close>

record var_tti =
  tti_isOmni :: bool
  tti_dci :: dci
  tti_rlcPdu :: "rlc_pdu list list"

definition var_tti_create :: "dci \<Rightarrow> var_tti" where
  "var_tti_create d = \<lparr>tti_isOmni = False, tti_dci = d, tti_rlcPdu = []\<rparr>"

datatype alloc_type = Alloc_NONE | Alloc_DL | Alloc_UL | Alloc_BOTH

record slot_alloc =
  slot_sfnSf :: sfnsf
  slot_numSymAlloc :: "32 word"
  slot_ttis :: "var_tti list"
  slot_type :: alloc_type

definition slot_alloc_create :: "sfnsf \<Rightarrow> slot_alloc" where
  "slot_alloc_create sfn =
     \<lparr>slot_sfnSf = sfn, slot_numSymAlloc = 0, slot_ttis = [], slot_type = Alloc_NONE\<rparr>"

record point_ft =
  pt_rbg :: "32 word"
  pt_sym :: "8 word"

record 'b sched_ue =
  ue_beam :: 'b
  ue_dlHarq :: harq_vector
  ue_ulHarq :: harq_vector
  ue_dlMRBRetx :: "32 word"
  ue_ulMRBRetx :: "32 word"

type_synonym 'b ue_map = "16 word \<Rightarrow> 'b sched_ue option"

section \<open>Feedback lemmas\<close>

lemma dl_ok_loop_eq:
  "dl_ok_loop xs ok al =
    (if NACK \<in> set xs then (False, NACK)
     else (if xs = [] then ok else True, if ACK \<in> set xs then ACK else al))"
proof (induction xs arbitrary: ok al)
  case (Cons x xs)
  then show ?case
    by (cases x) auto
qed simp

lemma dl_received_ok_eq:
  "dl_received_ok f =
    (if NACK \<in> set (hi_dl_status f) then Inr False
     else if ACK \<in> set (hi_dl_status f) then Inr True else Inl Assert_failed)"
  by (simp add: dl_received_ok_def dl_ok_loop_eq ns_assert_def)

lemma dl_nack_streams_unat:
  assumes "length (hi_dl_status f) \<le> 256"
  shows "unat ` set (dl_nack_streams f) = {i. i < length (hi_dl_status f) \<and> hi_dl_status f ! i = NACK}"
proof -
  have "unat (of_nat i :: 8 word) = i" if "i < length (hi_dl_status f)" for i
    using that assms by (simp add: unat_of_nat)
  then show ?thesis
    by (auto simp: dl_nack_streams_def image_iff)
qed

end
