(* ===== verification/Nr_Harq_Rr.thy ===== *)
theory Nr_Harq_Rr
  imports Nr_Harq_Feedback
begin

text \<open>
  The round-robin scheduler of HARQ retransmissions, \<open>NrMacSchedulerHarqRr\<close>
  (\<open>contrib/nr/model/nr-mac-scheduler-harq-rr.cc\<close>). The functions return what they wrote through their
  pointers: the starting point, the users, the list of feedbacks to retransmit later and the slot.
  The bandwidth, a callback of the source, is a parameter.
\<close>

section \<open>Uplink\<close>

record 'b ul_state =
  us_sym :: "8 word"
  us_symAvail :: "8 word"
  us_symUsed :: "8 word"
  us_ues :: "'b ue_map"
  us_toRetx :: "ul_harq_info list"
  us_slot :: slot_alloc

text \<open>The DCI of a retransmission that ends before symbol \<open>endSym\<close>.\<close>

definition ul_retx_dci :: "8 word \<Rightarrow> 8 word \<Rightarrow> 8 word \<Rightarrow> dci \<Rightarrow> dci" where
  "ul_retx_dci endSym harqId rvIndex d =
     (dci_create (dci_rnti d) (dci_format d) (endSym - dci_numSym d) (dci_numSym d) (dci_mcs d)
        (dci_tbSize d) [0] [rvIndex] DATA (dci_bwpIndex d) (dci_tpc d))
     \<lparr>dci_rbgBitmask := dci_rbgBitmask d, dci_harqProcess := harqId\<rparr>"

definition put_ul_process ::
    "16 word \<Rightarrow> 'b sched_ue \<Rightarrow> 8 word \<Rightarrow> harq_process \<Rightarrow> 'b ue_map \<Rightarrow> 'b ue_map" where
  "put_ul_process rnti ue k p ues =
     ues(rnti \<mapsto> ue\<lparr>ue_ulHarq := (ue_ulHarq ue)\<lparr>hv_map := hm_put k p (hv_map (ue_ulHarq ue))\<rparr>\<rparr>)"

text \<open>The body of the loop of \<open>ScheduleUlHarq\<close>.\<close>

definition ul_harq_one :: "16 word \<Rightarrow> ul_harq_info \<Rightarrow> 'b ul_state \<Rightarrow> 'b ul_state result" where
  "ul_harq_one bwInRbg harqInfo s =
     (let harqId = hi_process harqInfo; rnti = hi_rnti harqInfo
      in ns_abort_if (ul_received_ok harqInfo)
        (deref (us_ues s rnti) (\<lambda>ue.
         deref (map_of (hv_map (ue_ulHarq ue)) harqId) (\<lambda>proc.
         ns_assert (hp_status proc = RECEIVED_FEEDBACK)
        (let proc = proc\<lparr>hp_status := WAITING_FEEDBACK, hp_timer := 0\<rparr>
         in deref (hp_dci proc) (\<lambda>d.
           if us_symAvail s \<ge> dci_numSym d then
             ns_assert (dci_format d = UL)
            (ns_assert (length (hp_nackStreams proc) = 1)
            (case dci_rv d of [] \<Rightarrow> Inl Exception_thrown | rv0 # _ \<Rightarrow>
              (let new = ul_retx_dci (us_sym s) harqId (rv0 + 1) d;
                   proc = proc\<lparr>hp_dci := Some new\<rparr>;
                   ues = put_ul_process rnti ue harqId proc (us_ues s);
                   slot = us_slot s;
                   slot = slot\<lparr>slot_ttis := var_tti_create new # slot_ttis slot,
                               slot_numSymAlloc := slot_numSymAlloc slot + ucast (dci_numSym new)\<rparr>
               in Inr (s\<lparr>us_symAvail := us_symAvail s - dci_numSym d,
                         us_symUsed := us_symUsed s + dci_numSym d,
                         us_sym := us_sym s - dci_numSym new,
                         us_ues := ues(rnti := map_option (\<lambda>ue. ue\<lparr>ue_ulMRBRetx :=
                           ucast (dci_numSym new) * ucast bwInRbg\<rparr>) (ues rnti)),
                         us_slot := slot\<rparr>))))
           else Inr (s\<lparr>us_ues := put_ul_process rnti ue harqId proc (us_ues s),
                       us_toRetx := us_toRetx s @ [harqInfo]\<rparr>)))))))"

text \<open>The loop counter has 16 bits: the model is that of less than $2^{16}$ feedbacks.\<close>

fun ul_harq_loop :: "16 word \<Rightarrow> ul_harq_info list \<Rightarrow> 'b ul_state \<Rightarrow> 'b ul_state result" where
  "ul_harq_loop bwInRbg [] s = Inr s"
| "ul_harq_loop bwInRbg (f # fs) s =
     (if us_symAvail s > 0 then res_bind (ul_harq_one bwInRbg f s) (ul_harq_loop bwInRbg fs) else Inr s)"

definition schedule_ul_harq ::
    "16 word \<Rightarrow> point_ft \<Rightarrow> 8 word \<Rightarrow> 'b ue_map \<Rightarrow> ul_harq_info list \<Rightarrow> ul_harq_info list \<Rightarrow> slot_alloc \<Rightarrow>
     (8 word \<times> point_ft \<times> 'b ue_map \<times> ul_harq_info list \<times> slot_alloc) result" where
  "schedule_ul_harq bwInRbg start symAvail ues toRetx feedback slot =
     ns_assert (pt_rbg start = 0)
       (res_bind
          (ul_harq_loop bwInRbg feedback
             \<lparr>us_sym = pt_sym start, us_symAvail = symAvail, us_symUsed = 0, us_ues = ues,
              us_toRetx = toRetx, us_slot = slot\<rparr>)
          (\<lambda>s. ns_assert (pt_rbg start = 0)
             (Inr (us_symUsed s, start\<lparr>pt_sym := us_sym s\<rparr>, us_ues s, us_toRetx s, us_slot s))))"

section \<open>Properties of the uplink\<close>

text \<open>Allocations that lie one after the other from symbol \<open>lo\<close> to symbol \<open>hi\<close>.\<close>

fun stacked :: "nat \<Rightarrow> var_tti list \<Rightarrow> nat \<Rightarrow> bool" where
  "stacked lo [] hi = (lo = hi)"
| "stacked lo (a # as) hi =
     (unat (dci_symStart (tti_dci a)) = lo \<and> stacked (lo + unat (dci_numSym (tti_dci a))) as hi)"

lemma stacked_append:
  "stacked lo (as @ bs) hi \<longleftrightarrow> (\<exists>mid. stacked lo as mid \<and> stacked mid bs hi)"
  by (induction as arbitrary: lo) auto

definition ul_process :: "'b ue_map \<Rightarrow> 16 word \<Rightarrow> 8 word \<Rightarrow> harq_process option" where
  "ul_process ues r k = (case ues r of None \<Rightarrow> None | Some ue \<Rightarrow> map_of (hv_map (ue_ulHarq ue)) k)"

definition feedback_key :: "ul_harq_info \<Rightarrow> 16 word \<times> 8 word" where
  "feedback_key f = (hi_rnti f, hi_process f)"

text \<open>What one feedback leads to: a retransmission, or an entry of the buffer.\<close>

definition ul_retransmits :: "'b ul_state \<Rightarrow> ul_harq_info \<Rightarrow> 'b ul_state \<Rightarrow> bool" where
  "ul_retransmits s f s' \<longleftrightarrow>
     (\<exists>p d rv0. ul_process (us_ues s) (hi_rnti f) (hi_process f) = Some p \<and> hp_dci p = Some d \<and>
        dci_numSym d \<le> us_symAvail s \<and>
        (let new = ul_retx_dci (us_sym s) (hi_process f) (rv0 + 1) d
         in dci_format d = UL \<and> rv0 \<in> set (dci_rv d) \<and>
            us_symAvail s' = us_symAvail s - dci_numSym d \<and> us_symUsed s' = us_symUsed s + dci_numSym d \<and>
            us_sym s' = us_sym s - dci_numSym d \<and> us_toRetx s' = us_toRetx s \<and>
            slot_ttis (us_slot s') = var_tti_create new # slot_ttis (us_slot s) \<and>
            slot_numSymAlloc (us_slot s') = slot_numSymAlloc (us_slot s) + ucast (dci_numSym d) \<and>
            ul_process (us_ues s') (hi_rnti f) (hi_process f) =
              Some (p\<lparr>hp_status := WAITING_FEEDBACK, hp_timer := 0, hp_dci := Some new\<rparr>)))"

definition ul_buffers :: "'b ul_state \<Rightarrow> ul_harq_info \<Rightarrow> 'b ul_state \<Rightarrow> bool" where
  "ul_buffers s f s' \<longleftrightarrow>
     us_symAvail s' = us_symAvail s \<and> us_symUsed s' = us_symUsed s \<and> us_sym s' = us_sym s \<and>
     us_slot s' = us_slot s \<and> us_toRetx s' = us_toRetx s @ [f]"

lemma ul_process_put:
  assumes "ues r = Some ue" and "map_of (hv_map (ue_ulHarq ue)) k = Some p"
  shows "ul_process (put_ul_process r ue k p' ues) r' k' =
    (if r' = r \<and> k' = k then Some p' else ul_process ues r' k')"
  using assms by (simp add: ul_process_def put_ul_process_def map_of_hm_put)

lemma ul_process_counter:
  "ul_process (ues(r := map_option (\<lambda>ue. ue\<lparr>ue_ulMRBRetx := n\<rparr>) (ues r))) r' k' = ul_process ues r' k'"
  by (auto simp: ul_process_def split: option.splits)

lemma ul_retx_dci_fields [simp]:
  "dci_rnti (ul_retx_dci e k v d) = dci_rnti d" "dci_numSym (ul_retx_dci e k v d) = dci_numSym d"
  "dci_symStart (ul_retx_dci e k v d) = e - dci_numSym d" "dci_harqProcess (ul_retx_dci e k v d) = k"
  "dci_rbgBitmask (ul_retx_dci e k v d) = dci_rbgBitmask d" "dci_tbSize (ul_retx_dci e k v d) = dci_tbSize d"
  by (simp_all add: ul_retx_dci_def dci_create_def)

lemma ul_harq_one_cases:
  assumes "ul_harq_one bw f s = Inr s'"
  shows "(ul_retransmits s f s' \<or> ul_buffers s f s') \<and> \<not> ul_received_ok f \<and>
    (\<forall>r k. (r, k) \<noteq> feedback_key f \<longrightarrow> ul_process (us_ues s') r k = ul_process (us_ues s) r k) \<and>
    (\<forall>p' d'. ul_process (us_ues s') (hi_rnti f) (hi_process f) = Some p' \<and> hp_dci p' = Some d' \<longrightarrow>
      (\<exists>p d. ul_process (us_ues s) (hi_rnti f) (hi_process f) = Some p \<and> hp_dci p = Some d \<and>
        dci_rnti d' = dci_rnti d))"
proof -
  obtain ue p d where u: "us_ues s (hi_rnti f) = Some ue"
    "map_of (hv_map (ue_ulHarq ue)) (hi_process f) = Some p" "hp_dci p = Some d" "\<not> ul_received_ok f"
    using assms by (auto simp: ul_harq_one_def Let_def result_elims)
  have pr: "ul_process (us_ues s) (hi_rnti f) (hi_process f) = Some p"
    by (simp add: ul_process_def u)
  have put: "ul_process (put_ul_process (hi_rnti f) ue (hi_process f) p' (us_ues s)) r' k' =
      (if r' = hi_rnti f \<and> k' = hi_process f then Some p' else ul_process (us_ues s) r' k')" for p' r' k'
    using u(1,2) by (rule ul_process_put)
  show ?thesis
  proof (cases "dci_numSym d \<le> us_symAvail s")
    case True
    then obtain rv0 rvs where rv: "dci_rv d = rv0 # rvs" "dci_format d = UL"
      using assms by (auto simp: ul_harq_one_def Let_def result_elims u split: list.splits)
    then have "ul_retransmits s f s'"
      unfolding ul_retransmits_def Let_def
      using assms True
      by (intro exI [of _ p] exI [of _ d] exI [of _ rv0])
        (auto simp: ul_harq_one_def Let_def result_elims u pr ul_process_counter put)
    then show ?thesis
      using assms True rv u
      by (auto simp: ul_harq_one_def Let_def result_elims feedback_key_def pr ul_process_counter
          put)
  next
    case False
    then have "s' = s\<lparr>us_ues := put_ul_process (hi_rnti f) ue (hi_process f)
        (p\<lparr>hp_status := WAITING_FEEDBACK, hp_timer := 0\<rparr>) (us_ues s), us_toRetx := us_toRetx s @ [f]\<rparr>"
      using assms by (auto simp: ul_harq_one_def Let_def result_elims u)
    then show ?thesis
      using u by (auto simp: ul_buffers_def feedback_key_def pr put)
  qed
qed

definition ul_rnti_ok :: "'b ue_map \<Rightarrow> bool" where
  "ul_rnti_ok ues \<longleftrightarrow>
     (\<forall>r k p d. ul_process ues r k = Some p \<longrightarrow> hp_dci p = Some d \<longrightarrow> dci_rnti d = r)"

lemma ul_rnti_ok_one:
  assumes "ul_harq_one bw f s = Inr s'" and "ul_rnti_ok (us_ues s)"
  shows "ul_rnti_ok (us_ues s')"
  unfolding ul_rnti_ok_def
proof (intro allI impI)
  fix r k p' d' assume a: "ul_process (us_ues s') r k = Some p'" "hp_dci p' = Some d'"
  note c = ul_harq_one_cases [OF assms(1)]
  show "dci_rnti d' = r"
  proof (cases "(r, k) = feedback_key f")
    case True
    then show ?thesis
      using c a assms(2) by (auto simp: ul_rnti_ok_def feedback_key_def)
  next
    case False
    then have "ul_process (us_ues s) r k = Some p'"
      using c a(1) by simp
    then show ?thesis
      using a(2) assms(2) by (simp add: ul_rnti_ok_def)
  qed
qed

definition alloc_key :: "var_tti \<Rightarrow> 16 word \<times> 8 word" where
  "alloc_key a = (dci_rnti (tti_dci a), dci_harqProcess (tti_dci a))"

text \<open>What the loop has done between two of its states, for the first \<open>n\<close> feedbacks.\<close>

definition ul_progress ::
    "'b ul_state \<Rightarrow> (16 word \<times> 8 word) list \<Rightarrow> var_tti list \<Rightarrow> ul_harq_info list \<Rightarrow> 'b ul_state \<Rightarrow> bool" where
  "ul_progress s ks A B s' \<longleftrightarrow>
     slot_ttis (us_slot s') = A @ slot_ttis (us_slot s) \<and> us_toRetx s' = us_toRetx s @ B \<and>
     stacked (unat (us_sym s')) A (unat (us_sym s)) \<and>
     unat (us_sym s') + unat (us_symUsed s') = unat (us_sym s) + unat (us_symUsed s) \<and>
     unat (us_symUsed s') + unat (us_symAvail s') = unat (us_symUsed s) + unat (us_symAvail s) \<and>
     mset (map alloc_key A) + mset (map feedback_key B) = mset ks \<and>
     (\<forall>k. k \<notin> set ks \<longrightarrow> ul_process (us_ues s') (fst k) (snd k) = ul_process (us_ues s) (fst k) (snd k))"

lemma ul_progress_trans:
  assumes "ul_progress s ks A B s1" and "ul_progress s1 ks' A' B' s'"
  shows "ul_progress s (ks @ ks') (A' @ A) (B @ B') s'"
  using assms unfolding ul_progress_def stacked_append
  by (auto simp: ac_simps intro: union_lcomm)

lemma ul_one_progress:
  assumes "ul_harq_one bw f s = Inr s'" and "ul_rnti_ok (us_ues s)"
    and "unat (us_symAvail s) \<le> unat (us_sym s)" and "unat (us_symUsed s) + unat (us_symAvail s) < 256"
  shows "\<exists>A B. ul_progress s [feedback_key f] A B s'"
proof -
  note c = ul_harq_one_cases [OF assms(1)]
  have other: "\<forall>k. k \<notin> set [feedback_key f] \<longrightarrow>
      ul_process (us_ues s') (fst k) (snd k) = ul_process (us_ues s) (fst k) (snd k)"
    using c by auto
  from c consider "ul_retransmits s f s'" | "ul_buffers s f s'"
    by blast
  then show ?thesis
  proof cases
    case 1
    then obtain p d rv0 where r: "ul_process (us_ues s) (hi_rnti f) (hi_process f) = Some p" "hp_dci p = Some d"
      "dci_numSym d \<le> us_symAvail s" "us_symAvail s' = us_symAvail s - dci_numSym d"
      "us_symUsed s' = us_symUsed s + dci_numSym d" "us_sym s' = us_sym s - dci_numSym d"
      "us_toRetx s' = us_toRetx s"
      "slot_ttis (us_slot s') =
        var_tti_create (ul_retx_dci (us_sym s) (hi_process f) (rv0 + 1) d) # slot_ttis (us_slot s)"
      unfolding ul_retransmits_def Let_def by blast
    have rnti: "dci_rnti d = hi_rnti f"
      using r(1,2) assms(2) by (simp add: ul_rnti_ok_def)
    have n: "unat (dci_numSym d) \<le> unat (us_symAvail s)"
      using r(3) by (simp add: word_le_nat_alt)
    have u: "unat (us_symAvail s - dci_numSym d) = unat (us_symAvail s) - unat (dci_numSym d)"
      "unat (us_sym s - dci_numSym d) = unat (us_sym s) - unat (dci_numSym d)"
      "unat (us_symUsed s + dci_numSym d) = unat (us_symUsed s) + unat (dci_numSym d)"
      using n assms(3,4) by (simp_all add: unat_sub_if' unat_word_ariths)
    have "ul_progress s [feedback_key f]
        [var_tti_create (ul_retx_dci (us_sym s) (hi_process f) (rv0 + 1) d)] [] s'"
      unfolding ul_progress_def
      using other r u n assms(3,4) rnti
      by (simp add: var_tti_create_def alloc_key_def feedback_key_def)
    then show ?thesis by blast
  next
    case 2
    then have "ul_progress s [feedback_key f] [] [f] s'"
      using other by (simp add: ul_progress_def ul_buffers_def)
    then show ?thesis by blast
  qed
qed

lemma ul_loop_progress:
  assumes "ul_harq_loop bw fs s = Inr s'" and "ul_rnti_ok (us_ues s)"
    and "unat (us_symAvail s) \<le> unat (us_sym s)" and "unat (us_symUsed s) + unat (us_symAvail s) < 256"
  shows "\<exists>n A B. n \<le> length fs \<and> ul_progress s (map feedback_key (take n fs)) A B s' \<and>
    (n < length fs \<longrightarrow> us_symAvail s' = 0)"
  using assms
proof (induction fs arbitrary: s)
  case Nil
  then have "ul_progress s [] [] [] s'"
    by (simp add: ul_progress_def)
  then show ?case
    by force
next
  case (Cons f fs)
  show ?case
  proof (cases "us_symAvail s > 0")
    case True
    then obtain s1 where s1: "ul_harq_one bw f s = Inr s1" "ul_harq_loop bw fs s1 = Inr s'"
      using Cons.prems(1) by (auto simp: result_elims)
    obtain A B where p: "ul_progress s [feedback_key f] A B s1"
      using ul_one_progress [OF s1(1) Cons.prems(2-)] by blast
    have "unat (us_symAvail s1) \<le> unat (us_sym s1)" "unat (us_symUsed s1) + unat (us_symAvail s1) < 256"
      using p Cons.prems(3,4) unfolding ul_progress_def by linarith+
    then obtain n A' B' where q: "n \<le> length fs" "ul_progress s1 (map feedback_key (take n fs)) A' B' s'"
      "n < length fs \<longrightarrow> us_symAvail s' = 0"
      using Cons.IH [OF s1(2) ul_rnti_ok_one [OF s1(1) Cons.prems(2)]] by blast
    have "ul_progress s (map feedback_key (take (Suc n) (f # fs))) (A' @ A) (B @ B') s'"
      using ul_progress_trans [OF p q(2)] by simp
    then show ?thesis
      using q by (intro exI [of _ "Suc n"]) auto
  next
    case False
    then have "s' = s"
      using Cons.prems(1) by simp
    then have "ul_progress s (map feedback_key (take 0 (f # fs))) [] [] s'"
      by (simp add: ul_progress_def)
    moreover have "us_symAvail s' = 0"
      using False \<open>s' = s\<close> by (simp add: word_gt_0)
    ultimately show ?thesis
      by (intro exI [of _ "0"]) blast
  qed
qed

text \<open>C22: Uplink retransmissions lie in the free symbols without a gap or an overlap: the DCIs that
  \<open>ScheduleUlHarq\<close> puts before those of the slot go backwards from the starting symbol, one ending where
  the next begins, and end at the starting point it leaves; their lengths add up to the symbols it
  returns, which are at most the symbols available.\<close>

theorem ul_harq_stacked:
  assumes "schedule_ul_harq bw start symAvail ues toRetx fbs slot = Inr (used, start', ues', toRetx', slot')"
    and "ul_rnti_ok ues" and "symAvail \<le> pt_sym start"
  shows "\<exists>A. slot_ttis slot' = A @ slot_ttis slot \<and> stacked (unat (pt_sym start')) A (unat (pt_sym start)) \<and>
    unat (pt_sym start') + unat used = unat (pt_sym start) \<and> used \<le> symAvail \<and> pt_rbg start' = 0"
proof -
  let ?s = "\<lparr>us_sym = pt_sym start, us_symAvail = symAvail, us_symUsed = 0, us_ues = ues,
      us_toRetx = toRetx, us_slot = slot\<rparr>"
  obtain s where s: "ul_harq_loop bw fbs ?s = Inr s" "used = us_symUsed s" "start' = start\<lparr>pt_sym := us_sym s\<rparr>"
    "slot' = us_slot s" "pt_rbg start = 0"
    using assms(1) by (auto simp: schedule_ul_harq_def result_elims)
  obtain n A B where "ul_progress ?s (map feedback_key (take n fbs)) A B s"
    using ul_loop_progress [OF s(1)] assms(2,3) unat8_less [of symAvail] by (auto simp: word_le_nat_alt)
  with s show ?thesis
    by (auto simp: ul_progress_def word_le_nat_alt)
qed

text \<open>C23: \<open>ScheduleUlHarq\<close> goes through the feedbacks in order: each of them up to a point is either
  retransmitted, once, or buffered, and the processes of the others are untouched; but the feedbacks after
  that point, which exist only when the symbols are used up exactly, are neither retransmitted nor buffered.\<close>

theorem ul_harq_handled:
  assumes "schedule_ul_harq bw start symAvail ues toRetx fbs slot = Inr (used, start', ues', toRetx', slot')"
    and "ul_rnti_ok ues" and "symAvail \<le> pt_sym start"
  shows "\<exists>n A B. n \<le> length fbs \<and> slot_ttis slot' = A @ slot_ttis slot \<and> toRetx' = toRetx @ B \<and>
    mset (map alloc_key A) + mset (map feedback_key B) = mset (map feedback_key (take n fbs)) \<and>
    (n < length fbs \<longrightarrow> used = symAvail) \<and>
    (\<forall>r k. (r, k) \<notin> feedback_key ` set (take n fbs) \<longrightarrow> ul_process ues' r k = ul_process ues r k)"
proof -
  let ?s = "\<lparr>us_sym = pt_sym start, us_symAvail = symAvail, us_symUsed = 0, us_ues = ues,
      us_toRetx = toRetx, us_slot = slot\<rparr>"
  obtain s where s: "ul_harq_loop bw fbs ?s = Inr s" "used = us_symUsed s" "ues' = us_ues s"
    "slot' = us_slot s" "toRetx' = us_toRetx s"
    using assms(1) by (auto simp: schedule_ul_harq_def result_elims)
  obtain n A B where n: "n \<le> length fbs" "ul_progress ?s (map feedback_key (take n fbs)) A B s"
    "n < length fbs \<longrightarrow> us_symAvail s = 0"
    using ul_loop_progress [OF s(1)] assms(2,3) unat8_less [of symAvail] by (auto simp: word_le_nat_alt)
  have "n < length fbs \<longrightarrow> used = symAvail"
    using n(2,3) s(2) by (auto simp: ul_progress_def word_unat_eq_iff)
  with n s show ?thesis
    by (intro exI [of _ n] exI [of _ A] exI [of _ B]) (auto simp: ul_progress_def)
qed

section \<open>Uplink examples\<close>

text \<open>Users with a process 0 of the given length, in uplink and downlink, that waits for its retransmission.\<close>

definition demo_dci :: "16 word \<Rightarrow> dci_format \<Rightarrow> 8 word \<Rightarrow> 8 word list \<Rightarrow> dci" where
  "demo_dci rnti format n rbgs =
     (dci_create rnti format 1 n [5] [100] [1] [0] DATA 0 0)\<lparr>dci_rbgBitmask := rbgs\<rparr>"

definition demo_vector :: "16 word \<Rightarrow> dci_format \<Rightarrow> 8 word \<Rightarrow> 8 word list \<Rightarrow> harq_vector" where
  "demo_vector rnti format n rbgs =
     \<lparr>hv_map = [(0, (hp_create True RECEIVED_FEEDBACK 0 (Some (demo_dci rnti format n rbgs)))
        \<lparr>hp_nackStreams := [0]\<rparr>)], hv_maxSize = 1, hv_usedSize = 1\<rparr>"

definition demo_ues :: "nat ue_map" where
  "demo_ues = map_of (map (\<lambda>r.
     (r, \<lparr>ue_beam = 0, ue_dlHarq = demo_vector r DL 1 [1, 1, 0, 0],
          ue_ulHarq = demo_vector r UL 2 [1, 1, 1, 1], ue_dlMRBRetx = 0, ue_ulMRBRetx = 0\<rparr>)) [7, 8, 9])"

definition demo_ul_nack :: "16 word \<Rightarrow> ul_harq_info" where
  "demo_ul_nack rnti = \<lparr>hi_rnti = rnti, hi_process = 0, hi_bwp = 0, hi_ul_received = [],
     hi_ul_status = NotOk, hi_ul_tpc = 0, hi_ul_numRetx = 0\<rparr>"

definition demo_slot :: slot_alloc where
  "demo_slot = slot_alloc_create sfn_default"

lemma demo_slot_empty [simp]: "slot_ttis demo_slot = []"
  by (simp add: demo_slot_def slot_alloc_create_def)

lemma demo_ul_rnti: "ul_rnti_ok demo_ues"
  by (auto simp: ul_rnti_ok_def ul_process_def demo_ues_def demo_vector_def demo_dci_def dci_create_def
      hp_create_def split: option.splits if_splits)

text \<open>The outcome of a run: symbols used, starting symbol, buffered users, start and length of the DCIs.\<close>

definition ul_summary ::
    "(8 word \<times> point_ft \<times> 'b ue_map \<times> ul_harq_info list \<times> slot_alloc) result \<Rightarrow>
     (8 word \<times> 8 word \<times> 16 word list \<times> (8 word \<times> 8 word) list) result" where
  "ul_summary r = res_map (\<lambda>(used, start, ues, toRetx, slot).
     (used, pt_sym start, map hi_rnti toRetx,
      map (\<lambda>a. (dci_symStart (tti_dci a), dci_numSym (tti_dci a))) (slot_ttis slot))) r"

text \<open>Three users need two symbols each, and five symbols are available: the third is buffered.\<close>

definition demo_ul_run :: "8 word \<Rightarrow> (8 word \<times> point_ft \<times> nat ue_map \<times> ul_harq_info list \<times> slot_alloc) result"
  where
  "demo_ul_run symAvail = schedule_ul_harq 4 \<lparr>pt_rbg = 0, pt_sym = 13\<rparr> symAvail demo_ues []
     (map demo_ul_nack [7, 8, 9]) demo_slot"

lemma demo_ul_five: "ul_summary (demo_ul_run 5) = Inr (4, 9, [9], [(9, 2), (11, 2)])"
  by code_simp

text \<open>With four symbols the third is dropped.\<close>

lemma demo_ul_four: "ul_summary (demo_ul_run 4) = Inr (4, 9, [], [(9, 2), (11, 2)])"
  by code_simp

lemma ul_summary_Inr: "ul_summary r = Inr (a, b, c, d) \<Longrightarrow>
  \<exists>start ues toRetx slot. r = Inr (a, start, ues, toRetx, slot) \<and> pt_sym start = b \<and>
    map hi_rnti toRetx = c \<and> map (\<lambda>a. (dci_symStart (tti_dci a), dci_numSym (tti_dci a))) (slot_ttis slot) = d"
  by (auto simp: ul_summary_def result_elims)

theorem ul_harq_stacked_witness:
  "\<exists>start ues toRetx slot A. demo_ul_run 5 = Inr (4, start, ues, toRetx, slot) \<and>
     slot_ttis slot = A \<and> stacked 9 A 13 \<and> length A = 2"
proof -
  obtain start ues toRetx slot where r: "demo_ul_run 5 = Inr (4, start, ues, toRetx, slot)"
    "pt_sym start = 9" "map (\<lambda>a. (dci_symStart (tti_dci a), dci_numSym (tti_dci a))) (slot_ttis slot) = [(9, 2), (11, 2)]"
    using ul_summary_Inr [OF demo_ul_five] by (elim exE conjE) (rule that)
  obtain A where "slot_ttis slot = A @ slot_ttis demo_slot" "stacked 9 A 13"
    using ul_harq_stacked [OF r(1) [unfolded demo_ul_run_def] demo_ul_rnti] r(2) by auto
  with r(1) arg_cong [OF r(3), of length] show ?thesis
    by simp
qed

theorem ul_harq_handled_witness:
  "\<exists>start ues slot n. demo_ul_run 4 = Inr (4, start, ues, [], slot) \<and> n < 3 \<and>
     length (slot_ttis slot) = n"
proof -
  obtain start ues toRetx slot where r: "demo_ul_run 4 = Inr (4, start, ues, toRetx, slot)"
    "map hi_rnti toRetx = []" "map (\<lambda>a. (dci_symStart (tti_dci a), dci_numSym (tti_dci a))) (slot_ttis slot) = [(9, 2), (11, 2)]"
    using ul_summary_Inr [OF demo_ul_four] by (elim exE conjE) (rule that)
  have le: "(4 :: 8 word) \<le> pt_sym \<lparr>pt_rbg = 0, pt_sym = 13\<rparr>"
    by simp
  obtain n A B where n: "n \<le> length (map demo_ul_nack [7, 8, 9])" "slot_ttis slot = A @ slot_ttis demo_slot"
    "toRetx = [] @ B"
    "mset (map alloc_key A) + mset (map feedback_key B) = mset (map feedback_key (take n (map demo_ul_nack [7, 8, 9])))"
    using ul_harq_handled [OF r(1) [unfolded demo_ul_run_def] demo_ul_rnti le] by (elim exE conjE) (rule that)
  have "length A + length B = n"
    using arg_cong [OF n(4), of size] n(1) by simp
  with r n(2,3) arg_cong [OF r(3), of length] show ?thesis
    by auto
qed

end
