(* ===== verification/Nr_Harq_Rr_Dl.thy ===== *)
theory Nr_Harq_Rr_Dl
  imports Nr_Harq_Rr
begin

text \<open>
  Downlink retransmissions in round-robin order, \<open>NrMacSchedulerHarqRr::ScheduleDlHarq\<close>,
  \<open>SortDlHarq\<close>, \<open>SortUlHarq\<close> and \<open>BufferHARQFeedback\<close>
  (\<open>contrib/nr/model/nr-mac-scheduler-harq-rr.cc\<close>). An iterator into the HARQ vector of a user is
  the RNTI of the user and the process id; the map of the active processes is the list of its beams in
  iteration order.
\<close>

section \<open>Model\<close>

type_synonym harq_iter = "16 word \<times> 8 word"

type_synonym 'b active_harq = "('b \<times> harq_iter list) list"

definition vec_at :: "'a list \<Rightarrow> nat \<Rightarrow> 'a result" where
  "vec_at xs i = (if i < length xs then Inr (xs ! i) else Inl Exception_thrown)"

definition vec_put :: "'a list \<Rightarrow> nat \<Rightarrow> 'a \<Rightarrow> 'a list result" where
  "vec_put xs i v = (if i < length xs then Inr (xs[i := v]) else Inl Exception_thrown)"

fun buffer_harq_feedback ::
    "dl_harq_info list \<Rightarrow> dl_harq_info list \<Rightarrow> 16 word \<Rightarrow> 8 word \<Rightarrow> dl_harq_info list result" where
  "buffer_harq_feedback [] toRetx rnti k = Inl Assert_failed"
| "buffer_harq_feedback (f # fs) toRetx rnti k =
     (if hi_rnti f = rnti \<and> hi_process f = k then Inr (toRetx @ [f])
      else buffer_harq_feedback fs toRetx rnti k)"

text \<open>The vectors of the streams of a retransmission: TB sizes, NDI, redundancy versions and MCS.\<close>

type_synonym stream_vectors = "32 word list \<times> 8 word list \<times> 8 word list \<times> 8 word list"

definition dl_retx_stream ::
    "dci \<Rightarrow> 8 word list \<Rightarrow> nat \<Rightarrow> stream_vectors \<Rightarrow> stream_vectors result" where
  "dl_retx_stream d nacks stream v =
     (case v of (tbSize, ndi, rv, mcs) \<Rightarrow>
       if stream \<in> set (map unat nacks) then
         res_bind (vec_at (dci_tbSize d) stream) (\<lambda>t. res_bind (vec_put tbSize stream t) (\<lambda>tbSize.
         res_bind (vec_at (dci_mcs d) stream) (\<lambda>m. res_bind (vec_put mcs stream m) (\<lambda>mcs.
         res_bind (vec_at (dci_rv d) stream) (\<lambda>r. res_bind (vec_put rv stream (r + 1)) (\<lambda>rv.
         res_bind (vec_put ndi stream 0) (\<lambda>ndi.
           Inr (tbSize, ndi, rv, mcs))))))))
       else
         res_bind (vec_put tbSize stream 0) (\<lambda>tbSize.
         res_bind (vec_put mcs stream 255) (\<lambda>mcs.
         res_bind (vec_put rv stream 0) (\<lambda>rv.
         res_bind (vec_put ndi stream 255) (\<lambda>ndi.
           Inr (tbSize, ndi, rv, mcs))))))"

fun dl_retx_streams :: "dci \<Rightarrow> 8 word list \<Rightarrow> nat list \<Rightarrow> stream_vectors \<Rightarrow> stream_vectors result" where
  "dl_retx_streams d nacks [] v = Inr v"
| "dl_retx_streams d nacks (i # is) v =
     res_bind (dl_retx_stream d nacks i v) (dl_retx_streams d nacks is)"

record 'b dl_state =
  ds_rbg :: "32 word"
  ds_sym :: "8 word"
  ds_symAvail :: "8 word"
  ds_usedSym :: "8 word"
  ds_ues :: "'b ue_map"
  ds_toRetx :: "dl_harq_info list"
  ds_slot :: slot_alloc
  ds_allocated :: "16 word list"

definition put_dl_process ::
    "16 word \<Rightarrow> 'b sched_ue \<Rightarrow> 8 word \<Rightarrow> harq_process \<Rightarrow> 'b ue_map \<Rightarrow> 'b ue_map" where
  "put_dl_process rnti ue k p ues =
     ues(rnti \<mapsto> ue\<lparr>ue_dlHarq := (ue_dlHarq ue)\<lparr>hv_map := hm_put k p (hv_map (ue_dlHarq ue))\<rparr>\<rparr>)"

definition dl_rbg_assigned :: "dci \<Rightarrow> int" where
  "dl_rbg_assigned d = int (count_list (dci_rbgBitmask d) 1) * uint (dci_numSym d)"

definition dl_rbg_avail :: "16 word \<Rightarrow> 8 word \<Rightarrow> 'b dl_state \<Rightarrow> 32 word" where
  "dl_rbg_avail bwInRbg symPerBeam s = (ucast bwInRbg - ds_rbg s) * ucast symPerBeam"

text \<open>The quotient rounded up.\<close>

definition dl_rbg_per_sym :: "int \<Rightarrow> 8 word \<Rightarrow> int" where
  "dl_rbg_per_sym rbgAssigned numSym =
     (if rbgAssigned mod uint numSym = 0 then rbgAssigned div uint numSym
      else rbgAssigned div uint numSym + 1)"

definition dl_rbg_mask :: "32 word \<Rightarrow> int \<Rightarrow> nat \<Rightarrow> 8 word list" where
  "dl_rbg_mask rbg n len = map (\<lambda>i. if uint rbg \<le> int i \<and> int i < uint rbg + n then 1 else 0) [0..<len]"

definition dl_new_dci :: "8 word \<Rightarrow> 8 word \<Rightarrow> stream_vectors \<Rightarrow> dci \<Rightarrow> dci" where
  "dl_new_dci startSym symPerBeam v d =
     (case v of (tbSize, ndi, rv, mcs) \<Rightarrow>
       (dci_create (dci_rnti d) (dci_format d) startSym symPerBeam mcs tbSize ndi rv DATA
          (dci_bwpIndex d) (dci_tpc d))
       \<lparr>dci_rbgBitmask := dci_rbgBitmask d, dci_harqProcess := dci_harqProcess d\<rparr>)"

definition dl_place :: "32 word \<Rightarrow> int \<Rightarrow> dci \<Rightarrow> dci" where
  "dl_place rbg n d = d\<lparr>dci_rbgBitmask := dl_rbg_mask rbg n (length (dci_rbgBitmask d))\<rparr>"

text \<open>The retransmission of a process that was found to fit.\<close>

definition dl_retransmit ::
    "8 word \<Rightarrow> harq_iter \<Rightarrow> 'b sched_ue \<Rightarrow> harq_process \<Rightarrow> dci \<Rightarrow> 'b dl_state \<Rightarrow> 'b dl_state result" where
  "dl_retransmit symPerBeam it ue proc d s =
     ns_assert (dci_format d = DL)
    (res_bind
       (dl_retx_streams d (hp_nackStreams proc) [0..<length (dci_tbSize d)]
          (replicate (length (dci_tbSize d)) 0, replicate (length (dci_ndi d)) 0,
           replicate (length (dci_rv d)) 0, replicate (length (dci_mcs d)) 0))
       (\<lambda>v.
        (let new = dl_new_dci (ds_sym s) symPerBeam v d
         in if dci_numSym new = 0 then Inl Undefined_behaviour
            else (let rbgAssigned = dl_rbg_per_sym (dl_rbg_assigned d) (dci_numSym new)
              in ns_abort_if (rbgAssigned > int (length (dci_rbgBitmask new)))
                (let new = dl_place (ds_rbg s) rbgAssigned new;
                     proc = proc\<lparr>hp_dci := Some new\<rparr>;
                     info = (var_tti_create new)\<lparr>tti_rlcPdu := hp_rlcPdu proc\<rparr>;
                     ues = put_dl_process (fst it) ue (snd it) proc (ds_ues s)
                 in deref (ues (dci_rnti new)) (\<lambda>owner.
                    Inr (s\<lparr>ds_allocated := ds_allocated s @ [dci_rnti d],
                           ds_rbg := ds_rbg s + word_of_int rbgAssigned,
                           ds_slot := (ds_slot s)\<lparr>slot_ttis := slot_ttis (ds_slot s) @ [info]\<rparr>,
                           ds_ues := ues(dci_rnti new \<mapsto> owner\<lparr>ue_dlMRBRetx :=
                             word_of_int (uint (dci_numSym new) * rbgAssigned)\<rparr>)\<rparr>)))))))"

text \<open>The body of the loop over the processes of a beam.\<close>

definition dl_harq_one ::
    "16 word \<Rightarrow> 8 word \<Rightarrow> dl_harq_info list \<Rightarrow> harq_iter \<Rightarrow> 'b dl_state \<Rightarrow> 'b dl_state result" where
  "dl_harq_one bwInRbg symPerBeam feedback it s =
     deref (ds_ues s (fst it)) (\<lambda>ue.
     deref (map_of (hv_map (ue_dlHarq ue)) (snd it)) (\<lambda>proc.
     ns_assert (hp_status proc = RECEIVED_FEEDBACK)
    (let proc = proc\<lparr>hp_status := WAITING_FEEDBACK, hp_timer := 0\<rparr>
     in deref (hp_dci proc) (\<lambda>d.
       (let buffered = res_map
              (\<lambda>toRetx. s\<lparr>ds_ues := put_dl_process (fst it) ue (snd it) proc (ds_ues s), ds_toRetx := toRetx\<rparr>)
              (buffer_harq_feedback feedback (ds_toRetx s) (dci_rnti d) (dci_harqProcess d))
        in if dci_rnti d \<in> set (ds_allocated s) then buffered
           else if uint (dl_rbg_avail bwInRbg symPerBeam s) < dl_rbg_assigned d then buffered
           else dl_retransmit symPerBeam it ue proc d s)))))"

fun dl_harq_beam ::
    "16 word \<Rightarrow> 8 word \<Rightarrow> dl_harq_info list \<Rightarrow> harq_iter list \<Rightarrow> 'b dl_state \<Rightarrow> 'b dl_state result" where
  "dl_harq_beam bwInRbg symPerBeam feedback [] s = Inr s"
| "dl_harq_beam bwInRbg symPerBeam feedback (it # its) s =
     res_bind (dl_harq_one bwInRbg symPerBeam feedback it s) (dl_harq_beam bwInRbg symPerBeam feedback its)"

definition dl_end_beam :: "8 word \<Rightarrow> 'b dl_state \<Rightarrow> 'b dl_state" where
  "dl_end_beam symPerBeam s =
     (if length (ds_allocated s) > 0
      then s\<lparr>ds_sym := ds_sym s + symPerBeam, ds_rbg := 0, ds_usedSym := ds_usedSym s + symPerBeam,
             ds_slot := (ds_slot s)\<lparr>slot_numSymAlloc := slot_numSymAlloc (ds_slot s) + ucast symPerBeam\<rparr>,
             ds_symAvail := ds_symAvail s - symPerBeam\<rparr>
      else s)"

fun dl_harq_beams ::
    "16 word \<Rightarrow> 8 word \<Rightarrow> dl_harq_info list \<Rightarrow> 'c active_harq \<Rightarrow> 'b dl_state \<Rightarrow> 'b dl_state result" where
  "dl_harq_beams bwInRbg symPerBeam feedback [] s = Inr s"
| "dl_harq_beams bwInRbg symPerBeam feedback ((beam, its) # beams) s =
     res_bind (dl_harq_beam bwInRbg symPerBeam feedback its (s\<lparr>ds_allocated := []\<rparr>))
       (\<lambda>s. dl_harq_beams bwInRbg symPerBeam feedback beams (dl_end_beam symPerBeam s))"

definition schedule_dl_harq ::
    "16 word \<Rightarrow> point_ft \<Rightarrow> 8 word \<Rightarrow> 'b active_harq \<Rightarrow> 'b ue_map \<Rightarrow> dl_harq_info list \<Rightarrow> dl_harq_info list \<Rightarrow>
     slot_alloc \<Rightarrow> (8 word \<times> point_ft \<times> 'b ue_map \<times> dl_harq_info list \<times> slot_alloc) result" where
  "schedule_dl_harq bwInRbg start symAvail active ues toRetx feedback slot =
     ns_assert (pt_rbg start = 0)
       (if length active = 0 then Inl Undefined_behaviour
        else (let symPerBeam = of_nat (unat symAvail div length active)
          in res_bind
               (dl_harq_beams bwInRbg symPerBeam feedback active
                  \<lparr>ds_rbg = pt_rbg start, ds_sym = pt_sym start, ds_symAvail = symAvail, ds_usedSym = 0,
                   ds_ues = ues, ds_toRetx = toRetx, ds_slot = slot, ds_allocated = []\<rparr>)
               (\<lambda>s. ns_assert (ds_rbg s = 0)
                 (Inr (ds_usedSym s, \<lparr>pt_rbg = ds_rbg s, pt_sym = ds_sym s\<rparr>, ds_ues s, ds_toRetx s, ds_slot s)))))"

text \<open>
  \<open>std::sort\<close> orders the processes of each beam by decreasing length; the order that it gives to
  equal lengths is a parameter \<open>stdSort\<close>. The sort of the uplink does nothing.
\<close>

definition dl_dci_of :: "'b ue_map \<Rightarrow> harq_iter \<Rightarrow> dci option" where
  "dl_dci_of ues it =
     (case ues (fst it) of None \<Rightarrow> None
      | Some ue \<Rightarrow> (case map_of (hv_map (ue_dlHarq ue)) (snd it) of None \<Rightarrow> None | Some p \<Rightarrow> hp_dci p))"

definition sort_dl_harq ::
    "((harq_iter \<Rightarrow> harq_iter \<Rightarrow> bool) \<Rightarrow> harq_iter list \<Rightarrow> harq_iter list) \<Rightarrow> 'b ue_map \<Rightarrow> 'b active_harq \<Rightarrow>
     'b active_harq result" where
  "sort_dl_harq stdSort ues active =
     (if list_all (\<lambda>(beam, its). length its < 2 \<or> list_all (\<lambda>it. dl_dci_of ues it \<noteq> None) its) active
      then Inr (map (\<lambda>(beam, its). (beam, stdSort
        (\<lambda>a b. dci_numSym (the (dl_dci_of ues a)) > dci_numSym (the (dl_dci_of ues b))) its)) active)
      else Inl Undefined_behaviour)"

definition sort_ul_harq :: "'b active_harq \<Rightarrow> 'b active_harq" where
  "sort_ul_harq active = active"

section \<open>What one process leads to\<close>

definition dl_process :: "'b ue_map \<Rightarrow> harq_iter \<Rightarrow> harq_process option" where
  "dl_process ues it =
     (case ues (fst it) of None \<Rightarrow> None | Some ue \<Rightarrow> map_of (hv_map (ue_dlHarq ue)) (snd it))"

text \<open>The resources of a DCI, in resource block groups times symbols.\<close>

definition dl_resources :: "dci \<Rightarrow> nat" where
  "dl_resources d = count_list (dci_rbgBitmask d) 1 * unat (dci_numSym d)"

lemma dl_rbg_assigned_eq: "dl_rbg_assigned d = int (dl_resources d)"
  by (simp add: dl_rbg_assigned_def dl_resources_def)

text \<open>
  The state of the users that the code relies on: the DCI of a process is that of its user and its id,
  with a bit for every resource block group.
\<close>

definition dl_ues_ok :: "16 word \<Rightarrow> 'b ue_map \<Rightarrow> bool" where
  "dl_ues_ok bw ues \<longleftrightarrow>
     (\<forall>it p d. dl_process ues it = Some p \<longrightarrow> hp_dci p = Some d \<longrightarrow>
        (dci_rnti d, dci_harqProcess d) = it \<and> length (dci_rbgBitmask d) = unat bw)"

lemma dl_process_put:
  assumes "ues (fst it) = Some ue" and "map_of (hv_map (ue_dlHarq ue)) (snd it) = Some p"
  shows "dl_process (put_dl_process (fst it) ue (snd it) p' ues) it' =
    (if it' = it then Some p' else dl_process ues it')"
  using assms by (cases it; cases it') (simp add: dl_process_def put_dl_process_def map_of_hm_put)

lemma dl_process_counter:
  "ues r = Some u \<Longrightarrow> dl_process (ues(r \<mapsto> u\<lparr>ue_dlMRBRetx := n\<rparr>)) it = dl_process ues it"
  by (auto simp: dl_process_def split: option.splits)

lemma buffer_harq_feedback_eq:
  "buffer_harq_feedback fs t r k = Inr t' \<Longrightarrow>
   \<exists>f \<in> set fs. t' = t @ [f] \<and> hi_rnti f = r \<and> hi_process f = k"
  by (induction fs) (auto split: if_splits)

text \<open>Rounding up.\<close>

lemma dl_rbg_per_sym_bounds:
  assumes "n \<noteq> 0"
  shows "int a \<le> dl_rbg_per_sym (int a) n * uint n" "0 \<le> dl_rbg_per_sym (int a) n"
    "int a \<le> m * uint n \<Longrightarrow> dl_rbg_per_sym (int a) n \<le> m"
proof -
  have n: "uint n > 0"
    using assms by (simp add: word_neq_0_conv [symmetric] uint_0_iff order.strict_iff_order)
  have split: "int a = int a div uint n * uint n + int a mod uint n"
    by simp
  have r: "0 \<le> int a mod uint n" "int a mod uint n < uint n"
    using n by simp_all
  show "int a \<le> dl_rbg_per_sym (int a) n * uint n"
  proof (cases "int a mod uint n = 0")
    case True
    then show ?thesis
      using split by (simp add: dl_rbg_per_sym_def)
  next
    case False
    then have "dl_rbg_per_sym (int a) n * uint n = int a div uint n * uint n + uint n"
      by (simp add: dl_rbg_per_sym_def distrib_right)
    then show ?thesis
      using split r by linarith
  qed
  show "0 \<le> dl_rbg_per_sym (int a) n"
    using n by (simp add: dl_rbg_per_sym_def pos_imp_zdiv_nonneg_iff)
  assume m: "int a \<le> m * uint n"
  show "dl_rbg_per_sym (int a) n \<le> m"
  proof (cases "int a mod uint n = 0")
    case True
    then have "int a div uint n * uint n \<le> m * uint n"
      using split m by linarith
    then show ?thesis
      using True n by (simp add: dl_rbg_per_sym_def)
  next
    case False
    then have "int a div uint n * uint n < m * uint n"
      using split m r by linarith
    then have "int a div uint n < m"
      using n by (simp add: mult_less_cancel_right)
    then show ?thesis
      using False by (simp add: dl_rbg_per_sym_def)
  qed
qed

lemma count_list_interval:
  assumes "a + n \<le> len"
  shows "count_list (map (\<lambda>i. if a \<le> i \<and> i < a + n then 1 else 0 :: 8 word) [0..<len]) 1 = n"
proof -
  have "count_list (map (\<lambda>i. if a \<le> i \<and> i < a + n then 1 else 0 :: 8 word) [0..<len]) 1 =
      length (filter (\<lambda>i. a \<le> i \<and> i < a + n) [0..<len])"
    by (simp add: count_list_eq_length_filter filter_map comp_def eq_commute [of 1])
  also have "\<dots> = card {i. i < len \<and> a \<le> i \<and> i < a + n}"
    by (simp add: length_filter_conv_card cong: conj_cong)
  also have "{i. i < len \<and> a \<le> i \<and> i < a + n} = {a..<a + n}"
    using assms by auto
  finally show ?thesis
    by simp
qed

lemma dl_rbg_mask_eq:
  assumes "0 \<le> n"
  shows "dl_rbg_mask rbg n len =
    map (\<lambda>i. if unat rbg \<le> i \<and> i < unat rbg + nat n then 1 else 0) [0..<len]"
proof -
  obtain m where m: "n = int m"
    using assms zero_le_imp_eq_int by blast
  have "(uint rbg \<le> int i \<and> int i < uint rbg + n) = (unat rbg \<le> i \<and> i < unat rbg + m)" for i
    unfolding m uint_nat by linarith
  then show ?thesis
    by (simp add: dl_rbg_mask_def m)
qed

lemma dl_new_dci_fields [simp]:
  "dci_rnti (dl_new_dci e n v d) = dci_rnti d" "dci_numSym (dl_new_dci e n v d) = n"
  "dci_symStart (dl_new_dci e n v d) = e" "dci_harqProcess (dl_new_dci e n v d) = dci_harqProcess d"
  "dci_rbgBitmask (dl_new_dci e n v d) = dci_rbgBitmask d"
  by (cases v, simp add: dl_new_dci_def dci_create_def)+

lemma dl_place_fields [simp]:
  "dci_rnti (dl_place r n d) = dci_rnti d" "dci_numSym (dl_place r n d) = dci_numSym d"
  "dci_symStart (dl_place r n d) = dci_symStart d" "dci_harqProcess (dl_place r n d) = dci_harqProcess d"
  "dci_rbgBitmask (dl_place r n d) = dl_rbg_mask r n (length (dci_rbgBitmask d))"
  by (simp_all add: dl_place_def)

lemma var_tti_dci [simp]: "tti_dci (var_tti_create d\<lparr>tti_rlcPdu := p\<rparr>) = d" "tti_dci (var_tti_create d) = d"
  by (simp_all add: var_tti_create_def)

lemma dl_retransmit_effect:
  assumes "dl_retransmit spb it ue proc d s = Inr s'"
  defines "n \<equiv> dl_rbg_per_sym (dl_rbg_assigned d) spb"
  shows "\<exists>v owner new ues. new = dl_place (ds_rbg s) n (dl_new_dci (ds_sym s) spb v d) \<and>
    spb \<noteq> 0 \<and> n \<le> int (length (dci_rbgBitmask d)) \<and>
    ues = put_dl_process (fst it) ue (snd it) (proc\<lparr>hp_dci := Some new\<rparr>) (ds_ues s) \<and>
    ues (dci_rnti d) = Some owner \<and>
    s' = s\<lparr>ds_allocated := ds_allocated s @ [dci_rnti d], ds_rbg := ds_rbg s + word_of_int n,
           ds_slot := (ds_slot s)\<lparr>slot_ttis := slot_ttis (ds_slot s) @
             [(var_tti_create new)\<lparr>tti_rlcPdu := hp_rlcPdu proc\<rparr>]\<rparr>,
           ds_ues := ues(dci_rnti d \<mapsto> owner\<lparr>ue_dlMRBRetx := word_of_int (uint spb * n)\<rparr>)\<rparr> \<and>
    dl_retx_streams d (hp_nackStreams proc) [0..<length (dci_tbSize d)]
      (replicate (length (dci_tbSize d)) 0, replicate (length (dci_ndi d)) 0,
       replicate (length (dci_rv d)) 0, replicate (length (dci_mcs d)) 0) = Inr v"
proof -
  obtain v where streams: "dl_retx_streams d (hp_nackStreams proc) [0..<length (dci_tbSize d)]
      (replicate (length (dci_tbSize d)) 0, replicate (length (dci_ndi d)) 0,
       replicate (length (dci_rv d)) 0, replicate (length (dci_mcs d)) 0) = Inr v"
    and v: "(let new = dl_new_dci (ds_sym s) spb v d
         in if dci_numSym new = 0 then Inl Undefined_behaviour
            else (let rbgAssigned = dl_rbg_per_sym (dl_rbg_assigned d) (dci_numSym new)
              in ns_abort_if (rbgAssigned > int (length (dci_rbgBitmask new)))
                (let new = dl_place (ds_rbg s) rbgAssigned new;
                     proc = proc\<lparr>hp_dci := Some new\<rparr>;
                     info = (var_tti_create new)\<lparr>tti_rlcPdu := hp_rlcPdu proc\<rparr>;
                     ues = put_dl_process (fst it) ue (snd it) proc (ds_ues s)
                 in deref (ues (dci_rnti new)) (\<lambda>owner.
                    Inr (s\<lparr>ds_allocated := ds_allocated s @ [dci_rnti d],
                           ds_rbg := ds_rbg s + word_of_int rbgAssigned,
                           ds_slot := (ds_slot s)\<lparr>slot_ttis := slot_ttis (ds_slot s) @ [info]\<rparr>,
                           ds_ues := ues(dci_rnti new \<mapsto> owner\<lparr>ue_dlMRBRetx :=
                             word_of_int (uint (dci_numSym new) * rbgAssigned)\<rparr>)\<rparr>))))) = Inr s'"
    using assms(1) unfolding dl_retransmit_def res_bind_eq_Inr ns_assert_eq_Inr by (elim conjE exE) (rule that)
  then show ?thesis
    unfolding n_def by (intro exI [of _ v]) (use streams in \<open>auto simp: Let_def result_elims split: if_splits\<close>)
qed

definition dci_cells :: "dci \<Rightarrow> (nat \<times> nat) set" where
  "dci_cells d =
     {i. i < length (dci_rbgBitmask d) \<and> dci_rbgBitmask d ! i = 1} \<times>
     {unat (dci_symStart d)..<unat (dci_symStart d) + unat (dci_numSym d)}"

definition dl_feedback_key :: "dl_harq_info \<Rightarrow> harq_iter" where
  "dl_feedback_key f = (hi_rnti f, hi_process f)"

text \<open>What happened to the processes \<open>ks\<close> between two states: \<open>A\<close> was allocated and \<open>B\<close> buffered.\<close>

definition dl_core ::
    "'b dl_state \<Rightarrow> harq_iter list \<Rightarrow> var_tti list \<Rightarrow> dl_harq_info list \<Rightarrow> 'b dl_state \<Rightarrow> bool" where
  "dl_core s ks A B s' \<longleftrightarrow>
     slot_ttis (ds_slot s') = slot_ttis (ds_slot s) @ A \<and> ds_toRetx s' = ds_toRetx s @ B \<and>
     mset (map alloc_key A) + mset (map dl_feedback_key B) = mset ks \<and>
     (\<forall>it. it \<notin> set ks \<longrightarrow> dl_process (ds_ues s') it = dl_process (ds_ues s) it) \<and>
     (\<forall>it \<in> set ks. \<exists>p. dl_process (ds_ues s') it = Some p \<and> hp_status p = WAITING_FEEDBACK) \<and>
     (\<forall>a \<in> set A. \<exists>p d. dl_process (ds_ues s) (alloc_key a) = Some p \<and>
        hp_status p = RECEIVED_FEEDBACK \<and> hp_dci p = Some d \<and> dl_resources d \<le> dl_resources (tti_dci a))"

lemma dl_core_trans:
  assumes "dl_core s ks A B s1" and "dl_core s1 ks' A' B' s'"
  shows "dl_core s (ks @ ks') (A @ A') (B @ B') s'"
proof -
  have a: "\<exists>p d. dl_process (ds_ues s) (alloc_key a) = Some p \<and>
      hp_status p = RECEIVED_FEEDBACK \<and> hp_dci p = Some d \<and> dl_resources d \<le> dl_resources (tti_dci a)"
    if mem: "a \<in> set A'" for a
  proof -
    obtain p d where p: "dl_process (ds_ues s1) (alloc_key a) = Some p" "hp_status p = RECEIVED_FEEDBACK"
      "hp_dci p = Some d" "dl_resources d \<le> dl_resources (tti_dci a)"
      using assms(2) mem unfolding dl_core_def by blast
    have "alloc_key a \<notin> set ks"
      using assms(1) p(1,2) unfolding dl_core_def by force
    then have "dl_process (ds_ues s1) (alloc_key a) = dl_process (ds_ues s) (alloc_key a)"
      using assms(1) unfolding dl_core_def by blast
    with p show ?thesis by auto
  qed
  have w: "\<exists>p. dl_process (ds_ues s') it = Some p \<and> hp_status p = WAITING_FEEDBACK"
    if "it \<in> set ks" for it
  proof (cases "it \<in> set ks'")
    case True
    then show ?thesis
      using assms(2) unfolding dl_core_def by blast
  next
    case False
    then have "dl_process (ds_ues s') it = dl_process (ds_ues s1) it"
      using assms(2) unfolding dl_core_def by blast
    then show ?thesis
      using assms(1) that unfolding dl_core_def by auto
  qed
  have m: "mset (map alloc_key (A @ A')) + mset (map dl_feedback_key (B @ B')) = mset (ks @ ks')"
    using assms unfolding dl_core_def by (simp add: ac_simps)
  show ?thesis
    using assms a w m unfolding dl_core_def by auto
qed

text \<open>The row of resource block groups that the allocations \<open>A\<close> of one beam fill.\<close>

definition disjoint_allocs :: "var_tti list \<Rightarrow> bool" where
  "disjoint_allocs A \<longleftrightarrow> sorted_wrt (\<lambda>a b. dci_cells (tti_dci a) \<inter> dci_cells (tti_dci b) = {}) A"

definition dl_row :: "16 word \<Rightarrow> 'b dl_state \<Rightarrow> var_tti list \<Rightarrow> 'b dl_state \<Rightarrow> bool" where
  "dl_row bw s A s' \<longleftrightarrow>
     ds_sym s' = ds_sym s \<and> ds_symAvail s' = ds_symAvail s \<and> ds_usedSym s' = ds_usedSym s \<and>
     slot_numSymAlloc (ds_slot s') = slot_numSymAlloc (ds_slot s) \<and>
     unat (ds_rbg s) \<le> unat (ds_rbg s') \<and> unat (ds_rbg s') \<le> unat bw \<and>
     (A = [] \<longrightarrow> ds_rbg s' = ds_rbg s) \<and>
     ds_allocated s' = ds_allocated s @ map (fst \<circ> alloc_key) A \<and>
     (distinct (ds_allocated s) \<longrightarrow> distinct (ds_allocated s'))"

text \<open>Allocations without overlap in the rectangle of the groups \<open>[r, r')\<close> and the symbols \<open>[t, t')\<close>.\<close>

definition packed :: "nat \<Rightarrow> nat \<Rightarrow> nat \<Rightarrow> nat \<Rightarrow> var_tti list \<Rightarrow> bool" where
  "packed r r' t t' A \<longleftrightarrow>
     disjoint_allocs A \<and> (\<forall>a \<in> set A. dci_cells (tti_dci a) \<subseteq> {r..<r'} \<times> {t..<t'})"

lemma packed_append:
  assumes "packed r1 r1' t1 t1' A" and "packed r2 r2' t2 t2' B" and "r1' \<le> r2 \<or> t1' \<le> t2"
    and "r \<le> r1" "r \<le> r2" "r1' \<le> r'" "r2' \<le> r'" "t \<le> t1" "t \<le> t2" "t1' \<le> t'" "t2' \<le> t'"
  shows "packed r r' t t' (A @ B)"
proof -
  have 1: "dci_cells (tti_dci a) \<subseteq> {r1..<r1'} \<times> {t1..<t1'}" if "a \<in> set A" for a
    using assms(1) that unfolding packed_def by blast
  have 2: "dci_cells (tti_dci b) \<subseteq> {r2..<r2'} \<times> {t2..<t2'}" if "b \<in> set B" for b
    using assms(2) that unfolding packed_def by blast
  have "({r1..<r1'} \<times> {t1..<t1'}) \<inter> ({r2..<r2'} \<times> {t2..<t2'}) = {}"
    using assms(3) by auto
  then have "\<forall>a \<in> set A. \<forall>b \<in> set B. dci_cells (tti_dci a) \<inter> dci_cells (tti_dci b) = {}"
    using 1 2 by blast
  then have "disjoint_allocs (A @ B)"
    using assms(1,2) unfolding packed_def disjoint_allocs_def sorted_wrt_append by blast
  moreover have "{r1..<r1'} \<times> {t1..<t1'} \<subseteq> {r..<r'} \<times> {t..<t'}"
    using assms(4-) by (intro Sigma_mono) auto
  moreover have "{r2..<r2'} \<times> {t2..<t2'} \<subseteq> {r..<r'} \<times> {t..<t'}"
    using assms(4-) by (intro Sigma_mono) auto
  ultimately show ?thesis
    using 1 2 unfolding packed_def set_append by blast
qed

lemma packed_mono:
  assumes "packed r1 r1' t1 t1' A" and "r \<le> r1" "r1' \<le> r'" "t \<le> t1" "t1' \<le> t'"
  shows "packed r r' t t' A"
proof -
  have "{r1..<r1'} \<times> {t1..<t1'} \<subseteq> {r..<r'} \<times> {t..<t'}"
    using assms(2-) by (intro Sigma_mono) auto
  with assms(1) show ?thesis
    unfolding packed_def by blast
qed

lemma dl_row_trans:
  "dl_row bw s A s1 \<Longrightarrow> dl_row bw s1 A' s' \<Longrightarrow> dl_row bw s (A @ A') s'"
  unfolding dl_row_def by (auto simp del: distinct_append)

lemma dl_place_cells:
  assumes "0 \<le> n"
  shows "dci_cells (dl_place rbg n d) \<subseteq>
    {unat rbg..<unat rbg + nat n} \<times> {unat (dci_symStart d)..<unat (dci_symStart d) + unat (dci_numSym d)}"
  using assms by (auto simp: dci_cells_def dl_rbg_mask_eq split: if_splits)

lemma dl_place_resources:
  assumes "0 \<le> n" and "unat rbg + nat n \<le> length (dci_rbgBitmask d)"
  shows "dl_resources (dl_place rbg n d) = nat n * unat (dci_numSym d)"
  using assms by (simp add: dl_resources_def dl_rbg_mask_eq count_list_interval)

text \<open>The check of the free resources leaves room for the rounded number of groups.\<close>

lemma dl_room:
  assumes "unat (ds_rbg s) \<le> unat bw" and "\<not> uint (dl_rbg_avail bw spb s) < dl_rbg_assigned d" and "spb \<noteq> 0"
  defines "n \<equiv> dl_rbg_per_sym (dl_rbg_assigned d) spb"
  shows "0 \<le> n" "unat (ds_rbg s) + nat n \<le> unat bw"
    "unat (ds_rbg s + word_of_int n) = unat (ds_rbg s) + nat n"
    "dl_resources d \<le> nat n * unat spb"
proof -
  have bw1: "unat bw < 65536"
    by (rule order_less_le_trans [OF unsigned_less]) simp
  then have bw: "unat bw < 65536" "unat (ucast bw :: 32 word) = unat bw"
    by (simp_all add: unsigned_ucast_eq take_bit_nat_eq_self)
  have spb: "unat spb < 256" "unat (ucast spb :: 32 word) = unat spb"
    using unat8_less [of spb] by (simp_all add: unat_ucast_8_32)
  have sub: "unat (ucast bw - ds_rbg s :: 32 word) = unat bw - unat (ds_rbg s)"
    using assms(1) bw by (simp add: unat_sub_if')
  have prod: "(unat bw - unat (ds_rbg s)) * unat spb < 2 ^ 32"
  proof -
    have "(unat bw - unat (ds_rbg s)) * unat spb \<le> 65536 * 256"
      using bw spb by (intro mult_mono) auto
    then show ?thesis by simp
  qed
  have int_unat_spb: "int (unat spb) = uint spb"
    by simp
  have avail: "unat (dl_rbg_avail bw spb s) = (unat bw - unat (ds_rbg s)) * unat spb"
    unfolding dl_rbg_avail_def using prod by (simp add: unat_word_ariths sub spb)
  have "uint (dl_rbg_avail bw spb s) = int ((unat bw - unat (ds_rbg s)) * unat spb)"
    using avail by (metis uint_nat)
  then have "int (dl_resources d) \<le> int (unat bw - unat (ds_rbg s)) * uint spb"
    using assms(2) unfolding dl_rbg_assigned_eq not_less by (simp only: of_nat_mult int_unat_spb)
  then have le: "n \<le> int (unat bw - unat (ds_rbg s))"
    unfolding n_def dl_rbg_assigned_eq by (rule dl_rbg_per_sym_bounds(3) [OF assms(3)])
  show n0: "0 \<le> n"
    unfolding n_def dl_rbg_assigned_eq by (rule dl_rbg_per_sym_bounds(2) [OF assms(3)])
  show room: "unat (ds_rbg s) + nat n \<le> unat bw"
    using le n0 assms(1) by linarith
  obtain m where m: "n = int m"
    using n0 zero_le_imp_eq_int by blast
  have "m < 2 ^ 32"
    using room bw(1) unfolding m by simp
  then have "unat (word_of_int n :: 32 word) = nat n"
    by (simp add: m unat_of_nat)
  then show "unat (ds_rbg s + word_of_int n) = unat (ds_rbg s) + nat n"
    using room bw(1) by (simp add: unat_word_ariths)
  have "int (dl_resources d) \<le> n * uint spb"
    unfolding n_def dl_rbg_assigned_eq by (rule dl_rbg_per_sym_bounds(1) [OF assms(3)])
  also have "\<dots> = int (nat n * unat spb)"
    using n0 by (simp only: of_nat_mult int_unat_spb int_nat_eq if_True)
  finally show "dl_resources d \<le> nat n * unat spb"
    by (simp only: of_nat_le_iff)
qed

section \<open>One process, one beam, all beams\<close>

lemma alloc_key_tti: "alloc_key (var_tti_create d\<lparr>tti_rlcPdu := p\<rparr>) = (dci_rnti d, dci_harqProcess d)"
  by (simp add: alloc_key_def)

lemma dl_ues_ok_frame:
  assumes "dl_ues_ok bw ues" and "\<And>it'. it' \<noteq> it \<Longrightarrow> dl_process ues' it' = dl_process ues it'"
    and "dl_process ues' it = Some p" and "\<And>d. hp_dci p = Some d \<Longrightarrow>
      (dci_rnti d, dci_harqProcess d) = it \<and> length (dci_rbgBitmask d) = unat bw"
  shows "dl_ues_ok bw ues'"
  unfolding dl_ues_ok_def
proof (intro allI impI)
  fix it' q d assume a: "dl_process ues' it' = Some q" "hp_dci q = Some d"
  show "(dci_rnti d, dci_harqProcess d) = it' \<and> length (dci_rbgBitmask d) = unat bw"
  proof (cases "it' = it")
    case True
    then have "q = p"
      using a(1) assms(3) by simp
    then show ?thesis
      using assms(4) a(2) True by simp
  next
    case False
    then have "dl_process ues it' = Some q"
      using assms(2) a(1) by simp
    then show ?thesis
      using assms(1) a(2) unfolding dl_ues_ok_def by blast
  qed
qed

text \<open>The two ways through the body of the loop: the feedback is buffered, or the process is sent again.\<close>

lemma dl_one_cases:
  assumes one: "dl_harq_one bw spb fb it s = Inr s'" and ok: "dl_ues_ok bw (ds_ues s)"
    and row: "unat (ds_rbg s) \<le> unat bw"
  obtains (buffered) ue p d f where
      "ds_ues s (fst it) = Some ue" "map_of (hv_map (ue_dlHarq ue)) (snd it) = Some p"
      "hp_status p = RECEIVED_FEEDBACK" "hp_dci p = Some d"
      "f \<in> set fb" "dl_feedback_key f = it"
      "s' = s\<lparr>ds_ues := put_dl_process (fst it) ue (snd it) (p\<lparr>hp_status := WAITING_FEEDBACK, hp_timer := 0\<rparr>)
                (ds_ues s), ds_toRetx := ds_toRetx s @ [f]\<rparr>"
  | (sent) ue p d n v owner new ues where
      "ds_ues s (fst it) = Some ue" "map_of (hv_map (ue_dlHarq ue)) (snd it) = Some p"
      "hp_status p = RECEIVED_FEEDBACK" "hp_dci p = Some d"
      "dci_rnti d \<notin> set (ds_allocated s)"
      "0 \<le> n" "unat (ds_rbg s) + nat n \<le> unat bw"
      "unat (ds_rbg s + word_of_int n) = unat (ds_rbg s) + nat n" "dl_resources d \<le> nat n * unat spb"
      "dl_retx_streams d (hp_nackStreams p) [0..<length (dci_tbSize d)]
        (replicate (length (dci_tbSize d)) 0, replicate (length (dci_ndi d)) 0,
         replicate (length (dci_rv d)) 0, replicate (length (dci_mcs d)) 0) = Inr v"
      "new = dl_place (ds_rbg s) n (dl_new_dci (ds_sym s) spb v d)"
      "ues = put_dl_process (fst it) ue (snd it)
        (p\<lparr>hp_status := WAITING_FEEDBACK, hp_timer := 0, hp_dci := Some new\<rparr>) (ds_ues s)"
      "ues (dci_rnti d) = Some owner"
      "s' = s\<lparr>ds_allocated := ds_allocated s @ [dci_rnti d], ds_rbg := ds_rbg s + word_of_int n,
           ds_slot := (ds_slot s)\<lparr>slot_ttis := slot_ttis (ds_slot s) @
             [(var_tti_create new)\<lparr>tti_rlcPdu := hp_rlcPdu p\<rparr>]\<rparr>,
           ds_ues := ues(dci_rnti d \<mapsto> owner\<lparr>ue_dlMRBRetx := word_of_int (uint spb * n)\<rparr>)\<rparr>"
proof -
  obtain ue p d where u: "ds_ues s (fst it) = Some ue" "map_of (hv_map (ue_dlHarq ue)) (snd it) = Some p"
    "hp_dci p = Some d" "hp_status p = RECEIVED_FEEDBACK"
    using one by (auto simp: dl_harq_one_def Let_def result_elims)
  define p1 where "p1 = p\<lparr>hp_status := WAITING_FEEDBACK, hp_timer := 0\<rparr>"
  have pr: "dl_process (ds_ues s) it = Some p"
    by (simp add: dl_process_def u)
  have d1: "hp_dci (p\<lparr>hp_status := WAITING_FEEDBACK, hp_timer := 0\<rparr>) = Some d"
    by (simp add: u(3))
  have key: "(dci_rnti d, dci_harqProcess d) = it"
    using ok pr u(3) unfolding dl_ues_ok_def by blast
  let ?buffered = "res_map
      (\<lambda>toRetx. s\<lparr>ds_ues := put_dl_process (fst it) ue (snd it) p1 (ds_ues s), ds_toRetx := toRetx\<rparr>)
      (buffer_harq_feedback fb (ds_toRetx s) (dci_rnti d) (dci_harqProcess d))"
  have "(if dci_rnti d \<in> set (ds_allocated s) then ?buffered
      else if uint (dl_rbg_avail bw spb s) < dl_rbg_assigned d then ?buffered
      else dl_retransmit spb it ue p1 d s) = Inr s'"
    using one unfolding dl_harq_one_def Let_def by (simp only: u d1 deref_simps p1_def ns_assert_simps
      simp_thms)
  then consider "?buffered = Inr s'"
    | "dci_rnti d \<notin> set (ds_allocated s)" "\<not> uint (dl_rbg_avail bw spb s) < dl_rbg_assigned d"
      "dl_retransmit spb it ue p1 d s = Inr s'"
    by (auto split: if_splits)
  then show thesis
  proof cases
    case 1
    then obtain f where "f \<in> set fb" "(hi_rnti f, hi_process f) = it"
      "s' = s\<lparr>ds_ues := put_dl_process (fst it) ue (snd it) p1 (ds_ues s), ds_toRetx := ds_toRetx s @ [f]\<rparr>"
      using key by (auto simp: result_elims dest!: buffer_harq_feedback_eq)
    then show thesis
      using buffered [OF u(1,2,4,3)] unfolding p1_def dl_feedback_key_def by blast
  next
    case 2
    define n where "n = dl_rbg_per_sym (dl_rbg_assigned d) spb"
    obtain v owner new ues where e: "new = dl_place (ds_rbg s) n (dl_new_dci (ds_sym s) spb v d)" "spb \<noteq> 0"
      "ues = put_dl_process (fst it) ue (snd it) (p1\<lparr>hp_dci := Some new\<rparr>) (ds_ues s)"
      "ues (dci_rnti d) = Some owner"
      "s' = s\<lparr>ds_allocated := ds_allocated s @ [dci_rnti d], ds_rbg := ds_rbg s + word_of_int n,
           ds_slot := (ds_slot s)\<lparr>slot_ttis := slot_ttis (ds_slot s) @
             [(var_tti_create new)\<lparr>tti_rlcPdu := hp_rlcPdu p1\<rparr>]\<rparr>,
           ds_ues := ues(dci_rnti d \<mapsto> owner\<lparr>ue_dlMRBRetx := word_of_int (uint spb * n)\<rparr>)\<rparr>"
      "dl_retx_streams d (hp_nackStreams p1) [0..<length (dci_tbSize d)]
        (replicate (length (dci_tbSize d)) 0, replicate (length (dci_ndi d)) 0,
         replicate (length (dci_rv d)) 0, replicate (length (dci_mcs d)) 0) = Inr v"
      using dl_retransmit_effect [OF 2(3)] unfolding n_def by blast
    note room = dl_room [OF row 2(2) e(2), folded n_def]
    show thesis
      by (rule sent [where ue = ue and p = p and d = d and n = n and v = v and owner = owner and new = new
            and ues = ues, OF u(1,2,4,3) 2(1) room _ e(1) _ e(4)]) (use e(3,5,6) in \<open>simp_all add: p1_def\<close>)
  qed
qed

lemma dl_one_effect:
  assumes one: "dl_harq_one bw spb fb it s = Inr s'" and ok: "dl_ues_ok bw (ds_ues s)"
    and row: "unat (ds_rbg s) \<le> unat bw"
  shows "\<exists>A B. dl_core s [it] A B s' \<and> dl_row bw s A s' \<and> set B \<subseteq> set fb \<and> dl_ues_ok bw (ds_ues s') \<and>
    packed (unat (ds_rbg s)) (unat (ds_rbg s')) (unat (ds_sym s)) (unat (ds_sym s) + unat spb) A"
  using assms
proof (cases rule: dl_one_cases)
  case (buffered ue p d f)
  have pr: "dl_process (ds_ues s) it = Some p"
    by (simp add: dl_process_def buffered)
  then have key: "(dci_rnti d, dci_harqProcess d) = it" and len: "length (dci_rbgBitmask d) = unat bw"
    using ok buffered(4) unfolding dl_ues_ok_def by blast+
  let ?p1 = "p\<lparr>hp_status := WAITING_FEEDBACK, hp_timer := 0\<rparr>"
  have proc: "dl_process (ds_ues s') it' = (if it' = it then Some ?p1 else dl_process (ds_ues s) it')" for it'
    using dl_process_put [of "ds_ues s" it ue p, OF buffered(1,2)] by (simp add: buffered(7))
  have "dl_ues_ok bw (ds_ues s')"
    using key len buffered(4) by (intro dl_ues_ok_frame [OF ok, of it _ ?p1]) (auto simp: proc)
  moreover have "dl_core s [it] [] [f] s'"
    unfolding dl_core_def using buffered(6) by (simp add: proc) (simp add: buffered(7))
  moreover have "dl_row bw s [] s'"
    using row by (simp add: dl_row_def buffered(7))
  ultimately show ?thesis
    using buffered(5) by (intro exI [of _ "[]"] exI [of _ "[f]"]) (simp add: packed_def disjoint_allocs_def)
next
  case (sent ue p d n v owner new ues)
  note room = sent(6-9) and new = sent(11) and s' = sent(14)
  have pr: "dl_process (ds_ues s) it = Some p"
    by (simp add: dl_process_def sent(1,2))
  then have key: "(dci_rnti d, dci_harqProcess d) = it" and len: "length (dci_rbgBitmask d) = unat bw"
    using ok sent(4) unfolding dl_ues_ok_def by blast+
  define a where "a = (var_tti_create new)\<lparr>tti_rlcPdu := hp_rlcPdu p\<rparr>"
  have a: "tti_dci a = new" "alloc_key a = it"
    using key by (simp_all add: a_def alloc_key_tti new)
  let ?p1 = "p\<lparr>hp_status := WAITING_FEEDBACK, hp_timer := 0, hp_dci := Some new\<rparr>"
  have put: "dl_process ues it' = (if it' = it then Some ?p1 else dl_process (ds_ues s) it')" for it'
    using dl_process_put [of "ds_ues s" it ue p, OF sent(1,2)] by (simp add: sent(12))
  have proc: "dl_process (ds_ues s') it' = (if it' = it then Some ?p1 else dl_process (ds_ues s) it')" for it'
    using sent(13) by (simp add: s' dl_process_counter put)
  have res: "dl_resources new = nat n * unat spb"
    using room(1,2) len by (simp add: new dl_place_resources)
  have "dl_ues_ok bw (ds_ues s')"
    using key len by (intro dl_ues_ok_frame [OF ok, of it _ ?p1])
      (auto simp: proc new dl_rbg_mask_eq [OF room(1)])
  moreover have "dl_core s [it] [a] [] s'"
    unfolding dl_core_def using a sent(3,4) pr res room(4)
    by (simp add: proc) (simp add: s' a_def)
  moreover have rbg: "unat (ds_rbg s') = unat (ds_rbg s) + nat n"
    using room(3) by (simp add: s')
  moreover have "dl_row bw s [a] s'"
    using room(2) rbg sent(5) key unfolding dl_row_def by (simp add: s' a comp_def) auto
  moreover have "packed (unat (ds_rbg s)) (unat (ds_rbg s')) (unat (ds_sym s)) (unat (ds_sym s) + unat spb) [a]"
    using dl_place_cells [OF room(1), of "ds_rbg s" "dl_new_dci (ds_sym s) spb v d"]
    by (simp add: packed_def disjoint_allocs_def a(1) new rbg)
  ultimately show ?thesis
    by (intro exI [of _ "[a]"] exI [of _ "[]"]) simp
qed

lemma dl_core_frame:
  "dl_core s ks A B s' \<Longrightarrow> it \<notin> set ks \<Longrightarrow> dl_process (ds_ues s') it = dl_process (ds_ues s) it"
  unfolding dl_core_def by blast

lemma dl_core_refl: "dl_core s [] [] [] s"
  by (simp add: dl_core_def)

lemma dl_beam_effect:
  assumes "dl_harq_beam bw spb fb its s = Inr s'" and "dl_ues_ok bw (ds_ues s)"
    and "unat (ds_rbg s) \<le> unat bw"
  shows "\<exists>A B. dl_core s its A B s' \<and> dl_row bw s A s' \<and> set B \<subseteq> set fb \<and> dl_ues_ok bw (ds_ues s') \<and>
    packed (unat (ds_rbg s)) (unat (ds_rbg s')) (unat (ds_sym s)) (unat (ds_sym s) + unat spb) A"
  using assms
proof (induction its arbitrary: s)
  case Nil
  then have "dl_core s [] [] [] s' \<and> dl_row bw s [] s' \<and> set [] \<subseteq> set fb \<and> dl_ues_ok bw (ds_ues s') \<and>
    packed (unat (ds_rbg s)) (unat (ds_rbg s')) (unat (ds_sym s)) (unat (ds_sym s) + unat spb) []"
    by (simp add: dl_core_refl dl_row_def packed_def disjoint_allocs_def)
  then show ?case
    by blast
next
  case (Cons it its)
  then obtain s1 where s1: "dl_harq_one bw spb fb it s = Inr s1" "dl_harq_beam bw spb fb its s1 = Inr s'"
    by (auto simp: result_elims)
  obtain A B where e: "dl_core s [it] A B s1" "dl_row bw s A s1" "set B \<subseteq> set fb" "dl_ues_ok bw (ds_ues s1)"
    "packed (unat (ds_rbg s)) (unat (ds_rbg s1)) (unat (ds_sym s)) (unat (ds_sym s) + unat spb) A"
    using dl_one_effect [OF s1(1) Cons.prems(2,3)] by blast
  have r1: "unat (ds_rbg s) \<le> unat (ds_rbg s1)" "unat (ds_rbg s1) \<le> unat bw" "ds_sym s1 = ds_sym s"
    using e(2) unfolding dl_row_def by blast+
  obtain A' B' where f: "dl_core s1 its A' B' s'" "dl_row bw s1 A' s'" "set B' \<subseteq> set fb" "dl_ues_ok bw (ds_ues s')"
    "packed (unat (ds_rbg s1)) (unat (ds_rbg s')) (unat (ds_sym s1)) (unat (ds_sym s1) + unat spb) A'"
    using Cons.IH [OF s1(2) e(4) r1(2)] by blast
  have r2: "unat (ds_rbg s1) \<le> unat (ds_rbg s')"
    using f(2) unfolding dl_row_def by blast
  have "packed (unat (ds_rbg s)) (unat (ds_rbg s')) (unat (ds_sym s)) (unat (ds_sym s) + unat spb) (A @ A')"
    using r1 r2 by (intro packed_append [OF e(5) f(5)]) simp_all
  then show ?case
    using dl_core_trans [OF e(1) f(1)] dl_row_trans [OF e(2) f(2)] e(3) f(3,4)
    by (intro exI [of _ "A @ A'"] exI [of _ "B @ B'"]) simp
qed

text \<open>The states between the beams: \<open>k\<close> of them got symbols.\<close>

definition dl_advanced :: "8 word \<Rightarrow> nat \<Rightarrow> 'b dl_state \<Rightarrow> 'b dl_state \<Rightarrow> bool" where
  "dl_advanced spb k s s' \<longleftrightarrow>
     ds_rbg s' = 0 \<and> unat (ds_sym s') = unat (ds_sym s) + k * unat spb \<and>
     unat (ds_usedSym s') = unat (ds_usedSym s) + k * unat spb \<and>
     slot_numSymAlloc (ds_slot s') = slot_numSymAlloc (ds_slot s) + of_nat (k * unat spb)"

lemma dl_end_beam_core: "dl_core s ks A B s' \<Longrightarrow> dl_core s ks A B (dl_end_beam spb s')"
  by (simp add: dl_core_def dl_end_beam_def)

lemma dl_reset_core: "dl_core (s\<lparr>ds_allocated := x\<rparr>) ks A B s' \<Longrightarrow> dl_core s ks A B s'"
  by (simp add: dl_core_def)

lemma dl_beam_end:
  assumes "dl_row bw (s\<lparr>ds_allocated := []\<rparr>) A s1" and "ds_rbg s = 0"
    and "unat (ds_sym s) + unat spb < 256" and "unat (ds_usedSym s) + unat spb < 256"
  shows "\<exists>k \<le> 1. dl_advanced spb k s (dl_end_beam spb s1) \<and> (A \<noteq> [] \<longrightarrow> k = 1)"
proof (cases "A = []")
  case True
  then have "dl_advanced spb 0 s (dl_end_beam spb s1)"
    using assms(1,2) by (simp add: dl_row_def dl_advanced_def dl_end_beam_def)
  with True show ?thesis
    by auto
next
  case False
  then have "dl_advanced spb 1 s (dl_end_beam spb s1)"
    using assms by (simp add: dl_row_def dl_advanced_def dl_end_beam_def unat_word_ariths)
  then show ?thesis
    by auto
qed

text \<open>At most one DCI for a user in the list of its beam, and only for the processes of the beam.\<close>

definition one_per_user :: "harq_iter list \<Rightarrow> var_tti list \<Rightarrow> bool" where
  "one_per_user its A \<longleftrightarrow>
     distinct (map (fst \<circ> alloc_key) A) \<and> set (map alloc_key A) \<subseteq> set its"

lemma dl_core_keys: "dl_core s ks A B s' \<Longrightarrow> set (map alloc_key A) \<subseteq> set ks"
proof -
  assume "dl_core s ks A B s'"
  then have "mset (map alloc_key A) \<subseteq># mset ks"
    unfolding dl_core_def by (metis mset_subset_eq_add_left)
  then show ?thesis
    using set_mset_mono by fastforce
qed

lemma dl_beams_effect:
  assumes "dl_harq_beams bw spb fb active s = Inr s'" and "dl_ues_ok bw (ds_ues s)" and "ds_rbg s = 0"
    and "unat (ds_sym s) + length active * unat spb < 256"
    and "unat (ds_usedSym s) + length active * unat spb < 256"
  shows "\<exists>As B k. k \<le> length active \<and> dl_core s (concat (map snd active)) (concat As) B s' \<and>
    set B \<subseteq> set fb \<and> dl_advanced spb k s s' \<and> list_all2 one_per_user (map snd active) As \<and>
    packed 0 (unat bw) (unat (ds_sym s)) (unat (ds_sym s')) (concat As)"
  using assms
proof (induction active arbitrary: s)
  case Nil
  then have "dl_core s [] [] [] s' \<and> dl_advanced spb 0 s s' \<and> packed 0 (unat bw) (unat (ds_sym s)) (unat (ds_sym s')) []"
    by (simp add: dl_core_refl dl_advanced_def packed_def disjoint_allocs_def)
  then show ?case
    by (intro exI [of _ "[]"] exI [of _ "0"]) simp
next
  case (Cons b active)
  obtain beam its where b: "b = (beam, its)"
    by (cases b)
  obtain s1 where s1: "dl_harq_beam bw spb fb its (s\<lparr>ds_allocated := []\<rparr>) = Inr s1"
    "dl_harq_beams bw spb fb active (dl_end_beam spb s1) = Inr s'"
    using Cons.prems(1) by (auto simp: b result_elims)
  let ?s = "s\<lparr>ds_allocated := []\<rparr>" and ?s2 = "dl_end_beam spb s1"
  obtain A B where e: "dl_core ?s its A B s1" "dl_row bw ?s A s1" "set B \<subseteq> set fb" "dl_ues_ok bw (ds_ues s1)"
    "packed (unat (ds_rbg ?s)) (unat (ds_rbg s1)) (unat (ds_sym ?s)) (unat (ds_sym ?s) + unat spb) A"
    using dl_beam_effect [OF s1(1)] Cons.prems(2,3) by auto
  have core: "dl_core s its A B ?s2"
    by (rule dl_end_beam_core [OF dl_reset_core [OF e(1)]])
  have one: "one_per_user its A"
    using e(2) dl_core_keys [OF core] by (auto simp: one_per_user_def dl_row_def)
  have "unat (ds_sym s) + unat spb < 256" "unat (ds_usedSym s) + unat spb < 256"
    using Cons.prems(4,5) by simp_all
  from dl_beam_end [OF e(2) Cons.prems(3) this]
  obtain k where k: "k \<le> 1" "dl_advanced spb k s ?s2" "A \<noteq> [] \<longrightarrow> k = 1"
    by blast
  have sym2: "unat (ds_sym ?s2) = unat (ds_sym s) + k * unat spb"
    "unat (ds_usedSym ?s2) = unat (ds_usedSym s) + k * unat spb" "ds_rbg ?s2 = 0"
    using k(2) by (simp_all add: dl_advanced_def)
  have kle: "k * unat spb \<le> unat spb"
    using mult_le_mono1 [OF k(1), of "unat spb"] by simp
  have ues2: "dl_ues_ok bw (ds_ues ?s2)"
    using e(4) by (simp add: dl_end_beam_def)
  have room: "unat (ds_sym ?s2) + length active * unat spb < 256"
    "unat (ds_usedSym ?s2) + length active * unat spb < 256"
    using Cons.prems(4,5) kle unfolding sym2 length_Cons mult_Suc by linarith+
  obtain As B' k' where f: "k' \<le> length active" "dl_core ?s2 (concat (map snd active)) (concat As) B' s'"
    "set B' \<subseteq> set fb" "dl_advanced spb k' ?s2 s'" "list_all2 one_per_user (map snd active) As"
    "packed 0 (unat bw) (unat (ds_sym ?s2)) (unat (ds_sym s')) (concat As)"
    using Cons.IH [OF s1(2) ues2 sym2(3) room] by blast
  have adv: "dl_advanced spb (k + k') s s'"
    using k(2) f(4) by (simp add: dl_advanced_def algebra_simps)
  have row: "unat (ds_rbg s1) \<le> unat bw"
    using e(2) by (simp add: dl_row_def)
  have pA: "packed 0 (unat bw) (unat (ds_sym s)) (unat (ds_sym ?s2)) A"
  proof (cases "A = []")
    case True
    then show ?thesis by (simp add: packed_def disjoint_allocs_def)
  next
    case False
    then show ?thesis
      using k(3) row sym2(1) by (intro packed_mono [OF e(5)]) simp_all
  qed
  have "packed 0 (unat bw) (unat (ds_sym s)) (unat (ds_sym s')) (A @ concat As)"
  proof (rule packed_append [OF pA f(6)])
    show "unat (ds_sym ?s2) \<le> unat (ds_sym s')"
      using f(4) by (simp add: dl_advanced_def)
  qed (simp_all add: sym2)
  then show ?case
    using dl_core_trans [OF core f(2)] one f(1,3,5) e(3) adv k(1)
    by (intro exI [of _ "A # As"] exI [of _ "B @ B'"] exI [of _ "k + k'"]) (simp add: b)
qed

section \<open>Properties of the downlink\<close>

text \<open>A returning run of \<open>ScheduleDlHarq\<close>, read as a run of the loop over the beams.\<close>

lemma schedule_dl_run:
  assumes "schedule_dl_harq bw start symAvail active ues toRetx fb slot = Inr (used, start', ues', toRetx', slot')"
    and "dl_ues_ok bw ues" and "unat (pt_sym start) + unat symAvail < 256"
  shows "\<exists>spb s s' As B k. unat spb = unat symAvail div length active \<and> k \<le> length active \<and>
    ds_sym s = pt_sym start \<and> ds_usedSym s = 0 \<and> ds_ues s = ues \<and> ds_toRetx s = toRetx \<and> ds_slot s = slot \<and>
    used = ds_usedSym s' \<and> pt_sym start' = ds_sym s' \<and> pt_rbg start' = 0 \<and> ues' = ds_ues s' \<and>
    toRetx' = ds_toRetx s' \<and> slot' = ds_slot s' \<and>
    dl_core s (concat (map snd active)) (concat As) B s' \<and> set B \<subseteq> set fb \<and> dl_advanced spb k s s' \<and>
    list_all2 one_per_user (map snd active) As \<and>
    packed 0 (unat bw) (unat (ds_sym s)) (unat (ds_sym s')) (concat As)"
proof -
  define spb :: "8 word" where "spb = of_nat (unat symAvail div length active)"
  let ?s = "\<lparr>ds_rbg = pt_rbg start, ds_sym = pt_sym start, ds_symAvail = symAvail, ds_usedSym = 0,
     ds_ues = ues, ds_toRetx = toRetx, ds_slot = slot, ds_allocated = []\<rparr>"
  obtain s' where s': "active \<noteq> []" "pt_rbg start = 0" "dl_harq_beams bw spb fb active ?s = Inr s'"
    "used = ds_usedSym s'" "start' = \<lparr>pt_rbg = ds_rbg s', pt_sym = ds_sym s'\<rparr>" "ds_rbg s' = 0"
    "ues' = ds_ues s'" "toRetx' = ds_toRetx s'" "slot' = ds_slot s'"
    using assms(1) by (auto simp: schedule_dl_harq_def Let_def result_elims spb_def split: if_splits)
  have spb: "unat spb = unat symAvail div length active"
    unfolding spb_def using le_less_trans [OF div_le_dividend unat8_less, of symAvail "length active"]
    by (simp add: unat_of_nat)
  then have le: "length active * unat spb \<le> unat symAvail"
    by simp
  obtain As B k where "k \<le> length active" "dl_core ?s (concat (map snd active)) (concat As) B s'" "set B \<subseteq> set fb"
    "dl_advanced spb k ?s s'" "list_all2 one_per_user (map snd active) As"
    "packed 0 (unat bw) (unat (ds_sym ?s)) (unat (ds_sym s')) (concat As)"
    using dl_beams_effect [OF s'(3)] assms(2,3) s'(2) le by auto
  with s' spb show ?thesis
    by (intro exI [of _ spb] exI [of _ ?s] exI [of _ s'] exI [of _ As] exI [of _ B] exI [of _ k]) simp
qed

lemma schedule_dl_packed:
  assumes "schedule_dl_harq bw start symAvail active ues toRetx fb slot = Inr (used, start', ues', toRetx', slot')"
    and "dl_ues_ok bw ues" and "unat (pt_sym start) + unat symAvail < 256"
  shows "\<exists>A. slot_ttis slot' = slot_ttis slot @ A \<and>
    packed 0 (unat bw) (unat (pt_sym start)) (unat (pt_sym start')) A \<and>
    unat (pt_sym start') = unat (pt_sym start) + unat used \<and> used \<le> symAvail \<and> pt_rbg start' = 0 \<and>
    slot_numSymAlloc slot' = slot_numSymAlloc slot + ucast used"
proof -
  obtain spb s s' As B k where r: "unat spb = unat symAvail div length active" "k \<le> length active"
    "ds_sym s = pt_sym start" "ds_usedSym s = 0" "ds_slot s = slot" "used = ds_usedSym s'" "ds_ues s = ues"
    "pt_sym start' = ds_sym s'" "pt_rbg start' = 0" "slot' = ds_slot s'"
    "dl_core s (concat (map snd active)) (concat As) B s'" "dl_advanced spb k s s'"
    "packed 0 (unat bw) (unat (ds_sym s)) (unat (ds_sym s')) (concat As)"
    using schedule_dl_run [OF assms] by blast
  have u: "unat used = k * unat spb"
    using r(4,6,12) by (simp add: dl_advanced_def)
  have "k * unat spb \<le> length active * unat spb"
    using r(2) by (rule mult_le_mono1)
  also have "\<dots> \<le> unat symAvail"
    by (simp add: r(1))
  finally have "used \<le> symAvail"
    by (simp add: word_le_nat_alt u)
  moreover have "(ucast used :: 32 word) = of_nat (k * unat spb)"
    by (simp flip: u)
  ultimately show ?thesis
    using r u by (intro exI [of _ "concat As"]) (simp add: dl_core_def dl_advanced_def)
qed

text \<open>C8: Downlink retransmissions do not overlap: the DCIs that \<open>ScheduleDlHarq\<close> appends to the slot use
  pairwise disjoint sets of resource block groups and symbols, all inside the bandwidth and inside the
  symbols between the old and the new starting point, of which the function returns the number, at most
  the symbols available, and adds it to the symbols of the slot.\<close>

theorem dl_harq_no_overlap:
  assumes "schedule_dl_harq bw start symAvail active ues toRetx fb slot = Inr (used, start', ues', toRetx', slot')"
    and "dl_ues_ok bw ues" and "unat (pt_sym start) + unat symAvail < 256"
  shows "\<exists>A. slot_ttis slot' = slot_ttis slot @ A \<and>
    packed 0 (unat bw) (unat (pt_sym start)) (unat (pt_sym start')) A \<and>
    unat (pt_sym start') = unat (pt_sym start) + unat used \<and> used \<le> symAvail \<and> pt_rbg start' = 0 \<and>
    slot_numSymAlloc slot' = slot_numSymAlloc slot + ucast used"
  using assms by (rule schedule_dl_packed)

text \<open>C9: No process is forgotten or served twice: each process of the active beams is either retransmitted
  or its feedback is buffered; a retransmission is of a process that had received its feedback and gets
  at least the resources it had; and a user gets at most one DCI in the turn of its beam.\<close>

theorem dl_harq_accounted:
  assumes "schedule_dl_harq bw start symAvail active ues toRetx fb slot = Inr (used, start', ues', toRetx', slot')"
    and "dl_ues_ok bw ues" and "unat (pt_sym start) + unat symAvail < 256"
  shows "\<exists>As B. slot_ttis slot' = slot_ttis slot @ concat As \<and> toRetx' = toRetx @ B \<and> set B \<subseteq> set fb \<and>
    mset (map alloc_key (concat As)) + mset (map dl_feedback_key B) = mset (concat (map snd active)) \<and>
    list_all2 one_per_user (map snd active) As \<and>
    (\<forall>a \<in> set (concat As). \<exists>p d. dl_process ues (alloc_key a) = Some p \<and> hp_status p = RECEIVED_FEEDBACK \<and>
       hp_dci p = Some d \<and> dl_resources d \<le> dl_resources (tti_dci a)) \<and>
    (\<forall>it \<in> set (concat (map snd active)). \<exists>p. dl_process ues' it = Some p \<and> hp_status p = WAITING_FEEDBACK)"
proof -
  obtain spb s s' As B k where r: "ds_ues s = ues" "ds_toRetx s = toRetx" "ds_slot s = slot"
    "ues' = ds_ues s'" "toRetx' = ds_toRetx s'" "slot' = ds_slot s'"
    "dl_core s (concat (map snd active)) (concat As) B s'" "set B \<subseteq> set fb"
    "list_all2 one_per_user (map snd active) As"
    using schedule_dl_run [OF assms] by blast
  from r(7) [unfolded dl_core_def r(1-6) [symmetric]] r(8,9) show ?thesis
    unfolding r(1-6) by (intro exI [of _ As] exI [of _ B]) blast
qed

section \<open>The downlink scheduler returns\<close>

text \<open>A process that can be retransmitted or buffered.\<close>

definition dl_ready :: "dl_harq_info list \<Rightarrow> 'b ue_map \<Rightarrow> harq_iter \<Rightarrow> bool" where
  "dl_ready fb ues it \<longleftrightarrow>
     (\<exists>p d. dl_process ues it = Some p \<and> hp_status p = RECEIVED_FEEDBACK \<and> hp_dci p = Some d \<and>
        dci_format d = DL \<and> length (dci_mcs d) = length (dci_tbSize d) \<and>
        length (dci_rv d) = length (dci_tbSize d) \<and> length (dci_ndi d) = length (dci_tbSize d) \<and>
        dl_resources d > 0 \<and> it \<in> dl_feedback_key ` set fb)"

lemma vec_simps [simp]:
  "i < length xs \<Longrightarrow> vec_at xs i = Inr (xs ! i)" "i < length xs \<Longrightarrow> vec_put xs i v = Inr (xs[i := v])"
  by (simp_all add: vec_at_def vec_put_def)

lemma dl_retx_streams_return:
  assumes "length (dci_mcs d) = length (dci_tbSize d)" and "length (dci_rv d) = length (dci_tbSize d)"
    and "\<forall>i \<in> set is. i < length (dci_tbSize d)"
    and "length tb = length (dci_tbSize d)" "length ndi = length (dci_tbSize d)"
      "length rv = length (dci_tbSize d)" "length mcs = length (dci_tbSize d)"
  shows "\<exists>v. dl_retx_streams d nacks is (tb, ndi, rv, mcs) = Inr v"
  using assms(3-)
proof (induction "is" arbitrary: tb ndi rv mcs)
  case (Cons i "is")
  then show ?case
    by (simp add: dl_retx_stream_def assms(1,2))
qed simp

lemma buffer_harq_feedback_return:
  "(r, k) \<in> dl_feedback_key ` set fb \<Longrightarrow> \<exists>t'. buffer_harq_feedback fb t r k = Inr t'"
  by (induction fb) (auto simp: dl_feedback_key_def)

lemma dl_one_return:
  assumes ready: "dl_ready fb (ds_ues s) it" and ok: "dl_ues_ok bw (ds_ues s)"
    and row: "unat (ds_rbg s) \<le> unat bw"
  shows "\<exists>s'. dl_harq_one bw spb fb it s = Inr s'"
proof -
  obtain p d where p: "dl_process (ds_ues s) it = Some p" "hp_status p = RECEIVED_FEEDBACK" "hp_dci p = Some d"
    "dci_format d = DL" "length (dci_mcs d) = length (dci_tbSize d)" "length (dci_rv d) = length (dci_tbSize d)"
    "length (dci_ndi d) = length (dci_tbSize d)" "it \<in> dl_feedback_key ` set fb" "dl_resources d > 0"
    using ready unfolding dl_ready_def by blast
  then obtain ue where u: "ds_ues s (fst it) = Some ue" "map_of (hv_map (ue_dlHarq ue)) (snd it) = Some p"
    by (auto simp: dl_process_def split: option.splits)
  have key: "(dci_rnti d, dci_harqProcess d) = it" and len: "length (dci_rbgBitmask d) = unat bw"
    using ok p(1,3) unfolding dl_ues_ok_def by blast+
  obtain t' where t': "buffer_harq_feedback fb (ds_toRetx s) (dci_rnti d) (dci_harqProcess d) = Inr t'"
    using buffer_harq_feedback_return p(8) key by blast
  have "\<exists>v. dl_retx_streams d (hp_nackStreams p) [0..<length (dci_tbSize d)]
      (replicate (length (dci_tbSize d)) 0, replicate (length (dci_ndi d)) 0,
       replicate (length (dci_rv d)) 0, replicate (length (dci_mcs d)) 0) = Inr v"
    by (rule dl_retx_streams_return [OF p(5,6)]) (simp_all add: p(5-7))
  then obtain v where v: "dl_retx_streams d (hp_nackStreams p) [0..<length (dci_tbSize d)]
      (replicate (length (dci_tbSize d)) 0, replicate (length (dci_ndi d)) 0,
       replicate (length (dci_rv d)) 0, replicate (length (dci_mcs d)) 0) = Inr v" ..
  have "\<exists>s'. dl_retransmit spb it ue (p\<lparr>hp_status := WAITING_FEEDBACK, hp_timer := 0\<rparr>) d s = Inr s'"
    if fits: "\<not> uint (dl_rbg_avail bw spb s) < dl_rbg_assigned d"
  proof -
    have spb: "spb \<noteq> 0"
      using fits p(9) by (auto simp: dl_rbg_avail_def dl_rbg_assigned_eq)
    have "dl_rbg_per_sym (dl_rbg_assigned d) spb \<le> int (length (dci_rbgBitmask d))"
      using dl_room(1,2) [OF row fits spb] len by linarith
    moreover have "dci_rnti d = fst it"
      using key by auto
    ultimately show ?thesis
      using v spb by (simp add: dl_retransmit_def Let_def p(4) put_dl_process_def del: fun_upd_apply)
        (simp add: ns_abort_if_def)
  qed
  then show ?thesis
    using u p t' by (auto simp: dl_harq_one_def Let_def)
qed

lemma dl_ready_frame:
  "dl_process ues' it = dl_process ues it \<Longrightarrow> dl_ready fb ues' it = dl_ready fb ues it"
  by (simp add: dl_ready_def)

lemma dl_beam_return:
  assumes "\<forall>it \<in> set its. dl_ready fb (ds_ues s) it" and "distinct its" and "dl_ues_ok bw (ds_ues s)"
    and "unat (ds_rbg s) \<le> unat bw"
  shows "\<exists>s'. dl_harq_beam bw spb fb its s = Inr s'"
  using assms
proof (induction its arbitrary: s)
  case (Cons it its)
  have "dl_ready fb (ds_ues s) it"
    using Cons.prems(1) by simp
  from dl_one_return [OF this Cons.prems(3,4)]
  obtain s1 where s1: "dl_harq_one bw spb fb it s = Inr s1" ..
  obtain A B where e: "dl_core s [it] A B s1" "dl_row bw s A s1" "dl_ues_ok bw (ds_ues s1)"
    using dl_one_effect [OF s1 Cons.prems(3,4)] by blast
  have "dl_ready fb (ds_ues s1) it'" if "it' \<in> set its" for it'
  proof -
    have "it' \<notin> set [it]"
      using that Cons.prems(2) by auto
    from dl_ready_frame [OF dl_core_frame [OF e(1) this]] show ?thesis
      using Cons.prems(1) that by simp
  qed
  moreover have "unat (ds_rbg s1) \<le> unat bw"
    using e(2) by (simp add: dl_row_def)
  ultimately obtain s' where "dl_harq_beam bw spb fb its s1 = Inr s'"
    using Cons.IH [of s1] Cons.prems(2) e(3) by auto
  with s1 show ?case
    by simp
qed simp

lemma dl_beams_return:
  assumes "\<forall>it \<in> set (concat (map snd active)). dl_ready fb (ds_ues s) it"
    and "distinct (concat (map snd active))" and "dl_ues_ok bw (ds_ues s)" and "ds_rbg s = 0"
  shows "\<exists>s'. dl_harq_beams bw spb fb active s = Inr s' \<and> ds_rbg s' = 0"
  using assms
proof (induction active arbitrary: s)
  case (Cons b active)
  obtain beam its where b: "b = (beam, its)"
    by (cases b)
  let ?s = "s\<lparr>ds_allocated := []\<rparr>"
  have "\<forall>it \<in> set its. dl_ready fb (ds_ues ?s) it" "distinct its" "dl_ues_ok bw (ds_ues ?s)"
    "unat (ds_rbg ?s) \<le> unat bw"
    using Cons.prems by (simp_all add: b)
  note pre = this
  obtain s1 where s1: "dl_harq_beam bw spb fb its ?s = Inr s1"
    using dl_beam_return [OF pre] by blast
  obtain A B where e: "dl_core ?s its A B s1" "dl_row bw ?s A s1" "dl_ues_ok bw (ds_ues s1)"
    using dl_beam_effect [OF s1 pre(3,4)] by blast
  let ?s2 = "dl_end_beam spb s1"
  have rbg: "ds_rbg ?s2 = 0"
    using e(2) Cons.prems(4) by (auto simp: dl_row_def dl_end_beam_def)
  have ues: "ds_ues ?s2 = ds_ues s1"
    by (simp add: dl_end_beam_def)
  have "dl_ready fb (ds_ues ?s2) it'" if it': "it' \<in> set (concat (map snd active))" for it'
  proof -
    have "it' \<notin> set its"
      using Cons.prems(2) it' by (auto simp: b)
    from dl_ready_frame [OF dl_core_frame [OF e(1) this]] show ?thesis
      using Cons.prems(1) it' by (simp add: ues)
  qed
  then have r2: "\<forall>it \<in> set (concat (map snd active)). dl_ready fb (ds_ues ?s2) it"
    by blast
  have d2: "distinct (concat (map snd active))"
    using Cons.prems(2) by (simp add: b)
  have ok2: "dl_ues_ok bw (ds_ues ?s2)"
    using e(3) by (simp add: ues)
  obtain s' where "dl_harq_beams bw spb fb active ?s2 = Inr s'" "ds_rbg s' = 0"
    using Cons.IH [OF r2 d2 ok2 rbg] by blast
  with s1 show ?case
    by (simp add: b)
qed simp

lemma schedule_dl_return:
  assumes "pt_rbg start = 0" and "dl_ues_ok bw ues" and "active \<noteq> []"
    and "distinct (concat (map snd active))" and "\<forall>it \<in> set (concat (map snd active)). dl_ready fb ues it"
  shows "\<exists>r. schedule_dl_harq bw start symAvail active ues toRetx fb slot = Inr r"
proof -
  define spb :: "8 word" where "spb = of_nat (unat symAvail div length active)"
  let ?s = "\<lparr>ds_rbg = pt_rbg start, ds_sym = pt_sym start, ds_symAvail = symAvail, ds_usedSym = 0,
     ds_ues = ues, ds_toRetx = toRetx, ds_slot = slot, ds_allocated = []\<rparr>"
  obtain s' where "dl_harq_beams bw spb fb active ?s = Inr s'" "ds_rbg s' = 0"
    using dl_beams_return [of active fb ?s bw spb] assms by auto
  then show ?thesis
    using assms(1,3) by (simp add: schedule_dl_harq_def Let_def spb_def)
qed

text \<open>C24: \<open>ScheduleDlHarq\<close> runs without a fault, for any number of symbols, when there is a beam, the
  active processes are distinct and have received a feedback that is in the list, and each holds a downlink DCI
  with as many MCS, redundancy versions and NDI as TB sizes and with at least one group and one symbol;
  without a beam it divides by zero.\<close>

theorem dl_harq_returns:
  assumes "pt_rbg start = 0" and "dl_ues_ok bw ues"
    and "distinct (concat (map snd active))" and "\<forall>it \<in> set (concat (map snd active)). dl_ready fb ues it"
  shows "if active = [] then schedule_dl_harq bw start symAvail active ues toRetx fb slot = Inl Undefined_behaviour
    else \<exists>r. schedule_dl_harq bw start symAvail active ues toRetx fb slot = Inr r"
  using assms(1) schedule_dl_return [OF assms(1,2) _ assms(3,4)] by (simp add: schedule_dl_harq_def)

section \<open>A downlink example\<close>

text \<open>Four groups and one symbol: two users fit beside each other, the third is buffered.\<close>

definition demo_dl_nack :: "16 word \<Rightarrow> dl_harq_info" where
  "demo_dl_nack rnti = \<lparr>hi_rnti = rnti, hi_process = 0, hi_bwp = 0, hi_dl_status = [NACK], hi_dl_numRetx = [0]\<rparr>"

definition demo_active :: "nat active_harq" where
  "demo_active = [(0, [(7, 0), (8, 0), (9, 0)])]"

definition demo_dl_run :: "(8 word \<times> point_ft \<times> nat ue_map \<times> dl_harq_info list \<times> slot_alloc) result" where
  "demo_dl_run = schedule_dl_harq 4 \<lparr>pt_rbg = 0, pt_sym = 1\<rparr> 1 demo_active demo_ues []
     (map demo_dl_nack [7, 8, 9]) demo_slot"

definition dl_summary ::
    "(8 word \<times> point_ft \<times> 'b ue_map \<times> dl_harq_info list \<times> slot_alloc) result \<Rightarrow>
     (8 word \<times> 8 word \<times> 16 word list \<times> (8 word \<times> 8 word list) list) result" where
  "dl_summary r = res_map (\<lambda>(used, start, ues, toRetx, slot).
     (used, pt_sym start, map hi_rnti toRetx,
      map (\<lambda>a. (dci_symStart (tti_dci a), dci_rbgBitmask (tti_dci a))) (slot_ttis slot))) r"

lemma demo_dl_one: "dl_summary demo_dl_run = Inr (1, 2, [9], [(1, [1, 1, 0, 0]), (1, [0, 0, 1, 1])])"
  by code_simp

lemma dl_summary_Inr: "dl_summary r = Inr (a, b, c, d) \<Longrightarrow>
  \<exists>start ues toRetx slot. r = Inr (a, start, ues, toRetx, slot) \<and> pt_sym start = b \<and>
    map hi_rnti toRetx = c \<and> map (\<lambda>a. (dci_symStart (tti_dci a), dci_rbgBitmask (tti_dci a))) (slot_ttis slot) = d"
  by (auto simp: dl_summary_def result_elims)

lemma demo_dl_process:
  "dl_process demo_ues (r, k) = (if r \<in> {7, 8, 9} \<and> k = 0 then
     Some ((hp_create True RECEIVED_FEEDBACK 0 (Some (demo_dci r DL 1 [1, 1, 0, 0])))\<lparr>hp_nackStreams := [0]\<rparr>)
   else None)"
  by (auto simp: dl_process_def demo_ues_def demo_vector_def split: option.splits)

lemma demo_dl_ok: "dl_ues_ok 4 demo_ues"
  by (auto simp: dl_ues_ok_def demo_dl_process demo_dci_def dci_create_def hp_create_def split: if_splits)

lemma demo_dl_ready: "it \<in> set [(7, 0), (8, 0), (9, 0)] \<Longrightarrow> dl_ready (map demo_dl_nack [7, 8, 9]) demo_ues it"
  by (auto simp: dl_resources_def dl_ready_def demo_dl_process demo_dci_def dci_create_def hp_create_def dl_feedback_key_def
      demo_dl_nack_def)

theorem dl_harq_no_overlap_witness:
  "\<exists>start ues toRetx slot. demo_dl_run = Inr (1, start, ues, toRetx, slot) \<and>
     length (slot_ttis slot) = 2 \<and> packed 0 4 1 2 (slot_ttis slot)"
proof -
  obtain start ues toRetx slot where r: "demo_dl_run = Inr (1, start, ues, toRetx, slot)" "pt_sym start = 2"
    "map hi_rnti toRetx = [9]"
    "map (\<lambda>a. (dci_symStart (tti_dci a), dci_rbgBitmask (tti_dci a))) (slot_ttis slot) =
      [(1, [1, 1, 0, 0]), (1, [0, 0, 1, 1])]"
    using dl_summary_Inr [OF demo_dl_one] by (elim exE conjE) (rule that)
  have "packed 0 4 1 2 (slot_ttis slot)"
    using dl_harq_no_overlap [OF r(1) [unfolded demo_dl_run_def] demo_dl_ok] r(2) by simp
  moreover have "length (slot_ttis slot) = 2"
    using arg_cong [OF r(4), of length] by simp
  ultimately show ?thesis
    using r(1) by blast
qed

theorem dl_harq_accounted_witness:
  "\<exists>start ues toRetx slot p. demo_dl_run = Inr (1, start, ues, toRetx, slot) \<and>
     map hi_rnti toRetx = [9] \<and> length (slot_ttis slot) = 2 \<and>
     dl_process ues (9, 0) = Some p \<and> hp_status p = WAITING_FEEDBACK"
proof -
  obtain start ues toRetx slot where r: "demo_dl_run = Inr (1, start, ues, toRetx, slot)" "pt_sym start = 2"
    "map hi_rnti toRetx = [9]"
    "map (\<lambda>a. (dci_symStart (tti_dci a), dci_rbgBitmask (tti_dci a))) (slot_ttis slot) =
      [(1, [1, 1, 0, 0]), (1, [0, 0, 1, 1])]"
    using dl_summary_Inr [OF demo_dl_one] by (elim exE conjE) (rule that)
  have "\<forall>it \<in> set (concat (map snd demo_active)). \<exists>p. dl_process ues it = Some p \<and> hp_status p = WAITING_FEEDBACK"
    using dl_harq_accounted [OF r(1) [unfolded demo_dl_run_def] demo_dl_ok] by fastforce
  then obtain p where "dl_process ues (9, 0) = Some p" "hp_status p = WAITING_FEEDBACK"
    by (auto simp: demo_active_def)
  moreover have "length (slot_ttis slot) = 2"
    using arg_cong [OF r(4), of length] by simp
  ultimately show ?thesis
    using r(1,3) by (intro exI conjI)
qed

theorem dl_harq_returns_witness: "\<exists>r. demo_dl_run = Inr r"
  using dl_harq_returns [of "\<lparr>pt_rbg = 0, pt_sym = 1\<rparr>" 4 demo_ues demo_active "map demo_dl_nack [7, 8, 9]" 1 "[]" demo_slot]
    demo_dl_ok demo_dl_ready
  by (auto simp: demo_dl_run_def demo_active_def)

end
