(* ===== verification/Nr_Harq_Cycle.thy ===== *)
theory Nr_Harq_Cycle
  imports Nr_Harq_Rr_Dl
begin

text \<open>
  The handling of the HARQ feedback in one downlink slot, in \<open>NrMacSchedulerNs3\<close>
  (\<open>contrib/nr/model/nr-mac-scheduler-ns3.cc\<close>): the timers of the processes, the merge of new and buffered
  feedback, the removal of late and duplicated feedback, \<open>ProcessHARQFeedbacks\<close>, \<open>ComputeActiveHarq\<close>, and
  the call of the retransmission scheduler. The identities that the RRC layer knows, the attributes and
  the orders of the hash tables are parameters.
\<close>

section \<open>Timers\<close>

fun reset_expired_loop :: "8 word \<Rightarrow> 8 word list \<Rightarrow> harq_vector \<Rightarrow> harq_vector result" where
  "reset_expired_loop numHarq [] v = Inr v"
| "reset_expired_loop numHarq (k # ks) v =
     res_bind (hm_at k (hv_map v)) (\<lambda>p.
       if hp_status p = INACTIVE then reset_expired_loop numHarq ks v
       else if hp_timer p < numHarq then
         reset_expired_loop numHarq ks (v\<lparr>hv_map := hm_put k (p\<lparr>hp_timer := hp_timer p + 1\<rparr>) (hv_map v)\<rparr>)
       else res_bind (hv_erase k v) (\<lambda>(_, v). reset_expired_loop numHarq ks v))"

definition reset_expired_harq :: "8 word \<Rightarrow> harq_vector \<Rightarrow> harq_vector result" where
  "reset_expired_harq numHarq v = reset_expired_loop numHarq (map fst (hv_map v)) v"

text \<open>The loop over the users, whose RNTIs in iteration order are \<open>rs\<close>.\<close>

fun reset_expired_users :: "8 word \<Rightarrow> 16 word list \<Rightarrow> 'b ue_map \<Rightarrow> 'b ue_map result" where
  "reset_expired_users numHarq [] ues = Inr ues"
| "reset_expired_users numHarq (r # rs) ues =
     deref (ues r) (\<lambda>ue.
     res_bind (reset_expired_harq numHarq (ue_dlHarq ue)) (\<lambda>v.
       reset_expired_users numHarq rs (ues(r \<mapsto> ue\<lparr>ue_dlHarq := v\<rparr>))))"

section \<open>Feedback\<close>

text \<open>The merged list and what is left of the existing one.\<close>

definition merge_harq :: "'f list \<Rightarrow> 'f list \<Rightarrow> 'f list \<times> 'f list" where
  "merge_harq existing inFeedbacks = (existing @ inFeedbacks, [])"

text \<open>The set of the processes seen so far of each user is a list.\<close>

fun filter_dl_feedback ::
    "'b ue_map \<Rightarrow> (16 word \<Rightarrow> 8 word list option) \<Rightarrow> dl_harq_info list \<Rightarrow> dl_harq_info list result" where
  "filter_dl_feedback ues dup [] = Inr []"
| "filter_dl_feedback ues dup (f # fs) =
     deref (ues (hi_rnti f)) (\<lambda>ue.
     deref (map_of (hv_map (ue_dlHarq ue)) (hi_process f)) (\<lambda>p.
       if \<not> hp_active p then filter_dl_feedback ues dup fs
       else (case dup (hi_rnti f) of
           None \<Rightarrow> res_map (Cons f) (filter_dl_feedback ues (dup(hi_rnti f \<mapsto> [hi_process f])) fs)
         | Some ks \<Rightarrow>
             if hi_process f \<notin> set ks
             then res_map (Cons f) (filter_dl_feedback ues (dup(hi_rnti f \<mapsto> hi_process f # ks)) fs)
             else filter_dl_feedback ues dup fs)))"

definition max_harq_retx :: "bool \<Rightarrow> bool \<Rightarrow> 8 word \<Rightarrow> 64 word \<Rightarrow> 8 word" where
  "max_harq_retx enableHarqReTx enableUrllcHarqReTx urllcUes imsi =
     (let maxHarqReTx = (if enableHarqReTx then 3 else 0)
      in if imsi \<le> ucast urllcUes then (if enableUrllcHarqReTx then 3 else 0) else maxHarqReTx)"

text \<open>
  \<open>ProcessHARQFeedbacks\<close> for the downlink; \<open>maxRetx\<close> is the limit of retransmissions of a user, when the
  RRC layer knows it. The result holds the feedbacks that stay, the users and the number of NACKs.
\<close>

fun process_dl_loop ::
    "(16 word \<Rightarrow> 8 word option) \<Rightarrow> dl_harq_info list \<Rightarrow> 'b ue_map \<Rightarrow>
     (dl_harq_info list \<times> 'b ue_map \<times> 32 word) result" where
  "process_dl_loop maxRetx [] ues = Inr ([], ues, 0)"
| "process_dl_loop maxRetx (f # fs) ues =
     deref (ues (hi_rnti f)) (\<lambda>ue.
     res_bind (hv_get (hi_process f) (ue_dlHarq ue)) (\<lambda>p.
     ns_abort_if (\<not> hp_active p)
    (case hp_dci p of None \<Rightarrow> Inl Aborted | Some d \<Rightarrow>
    (if dci_rv d = [] then Inl Undefined_behaviour
     else
      (let rv = Max (set (dci_rv d))
       in ns_assert (rv < 4)
         (deref (maxRetx (hi_rnti f)) (\<lambda>maxHarqReTx.
          res_bind (dl_received_ok f) (\<lambda>ok.
            if ok \<or> rv = maxHarqReTx then
              res_bind (hv_erase (hi_process f) (ue_dlHarq ue)) (\<lambda>(_, v).
                process_dl_loop maxRetx fs (ues(hi_rnti f \<mapsto> ue\<lparr>ue_dlHarq := v\<rparr>)))
            else
              (let p' = p\<lparr>hp_status := RECEIVED_FEEDBACK, hp_nackStreams := dl_nack_streams f\<rparr>
               in res_map (\<lambda>(fs', ues', nackReceived). (f # fs', ues', nackReceived + 1))
                    (process_dl_loop maxRetx fs
                       (put_dl_process (hi_rnti f) ue (hi_process f) p' ues))))))))))) "

definition process_dl_feedbacks ::
    "(16 word \<Rightarrow> 8 word option) \<Rightarrow> dl_harq_info list \<Rightarrow> 'b ue_map \<Rightarrow> (dl_harq_info list \<times> 'b ue_map) result" where
  "process_dl_feedbacks maxRetx fs ues =
     res_bind (process_dl_loop maxRetx fs ues) (\<lambda>(fs', ues', nackReceived).
       ns_assert (length fs' = unat nackReceived) (Inr (fs', ues')))"

text \<open>The feedback part of \<open>DoSchedDlTriggerReq\<close>: the feedbacks to serve and the users.\<close>

definition dl_trigger_feedback ::
    "8 word \<Rightarrow> (16 word \<Rightarrow> 8 word option) \<Rightarrow> 16 word list \<Rightarrow> dl_harq_info list \<Rightarrow> dl_harq_info list \<Rightarrow> 'b ue_map \<Rightarrow>
     (dl_harq_info list \<times> dl_harq_info list \<times> 'b ue_map) result" where
  "dl_trigger_feedback numHarq maxRetx rs toRetx inFeedbacks ues =
     res_bind (reset_expired_users numHarq rs ues) (\<lambda>ues.
       if length inFeedbacks > 0 \<or> length toRetx > 0 then
         (let (dlHarqFeedback, toRetx') = merge_harq toRetx inFeedbacks
          in ns_assert (length toRetx' = 0)
            (ns_assert (length toRetx + length inFeedbacks = length dlHarqFeedback)
              (res_bind (filter_dl_feedback ues Map.empty dlHarqFeedback) (\<lambda>fs.
               res_bind (process_dl_feedbacks maxRetx fs ues) (\<lambda>(fs, ues). Inr (fs, toRetx', ues))))))
       else Inr ([], toRetx, ues))"

section \<open>Active processes\<close>

text \<open>\<open>order\<close> is the iteration order that the hash table of the beams settles on.\<close>

fun active_dl_loop ::
    "('b active_harq \<Rightarrow> 'b active_harq) \<Rightarrow> 'b ue_map \<Rightarrow> dl_harq_info list \<Rightarrow> 'b active_harq \<Rightarrow>
     'b active_harq result" where
  "active_dl_loop order ues [] active = Inr active"
| "active_dl_loop order ues (f # fs) active =
     deref (ues (hi_rnti f)) (\<lambda>ue.
     deref (map_of (hv_map (ue_dlHarq ue)) (hi_process f)) (\<lambda>p.
       ns_assert (hp_active p)
      (let it = (hi_rnti f, hi_process f);
           active' =
             (case map_of active (ue_beam ue) of
                None \<Rightarrow> order ((ue_beam ue, [it]) # active)
              | Some its \<Rightarrow> map (\<lambda>(b, l). if b = ue_beam ue then (b, l @ [it]) else (b, l)) active)
       in ns_assert (hp_status p = RECEIVED_FEEDBACK) (active_dl_loop order ues fs active'))))"

definition compute_active_dl ::
    "('b active_harq \<Rightarrow> 'b active_harq) \<Rightarrow> ((harq_iter \<Rightarrow> harq_iter \<Rightarrow> bool) \<Rightarrow> harq_iter list \<Rightarrow> harq_iter list) \<Rightarrow>
     'b ue_map \<Rightarrow> dl_harq_info list \<Rightarrow> 'b active_harq result" where
  "compute_active_dl order stdSort ues fs =
     res_bind (active_dl_loop order ues fs []) (sort_dl_harq stdSort ues)"

text \<open>
  The calls that a downlink slot makes for its retransmissions: in \<open>DoSchedDlTriggerReq\<close>, in \<open>ScheduleDl\<close>
  and in \<open>DoScheduleDl\<close>. The symbols used are 0 when no process is active.
\<close>

definition dl_harq_slot ::
    "8 word \<Rightarrow> (16 word \<Rightarrow> 8 word option) \<Rightarrow> 16 word list \<Rightarrow> ('b active_harq \<Rightarrow> 'b active_harq) \<Rightarrow>
     ((harq_iter \<Rightarrow> harq_iter \<Rightarrow> bool) \<Rightarrow> harq_iter list \<Rightarrow> harq_iter list) \<Rightarrow> 16 word \<Rightarrow> point_ft \<Rightarrow> 8 word \<Rightarrow>
     dl_harq_info list \<Rightarrow> dl_harq_info list \<Rightarrow> slot_alloc \<Rightarrow> 'b ue_map \<Rightarrow>
     (8 word \<times> point_ft \<times> 'b ue_map \<times> dl_harq_info list \<times> slot_alloc) result" where
  "dl_harq_slot numHarq maxRetx rs order stdSort bwInRbg start symAvail toRetx inFeedbacks slot ues =
     res_bind (dl_trigger_feedback numHarq maxRetx rs toRetx inFeedbacks ues) (\<lambda>(fs, toRetx, ues).
     res_bind (compute_active_dl order stdSort ues fs) (\<lambda>active.
       if length active > 0 then
         res_bind (schedule_dl_harq bwInRbg start symAvail active ues toRetx fs slot)
           (\<lambda>(used, start', ues', toRetx', slot').
             ns_assert (symAvail \<ge> used) (Inr (used, start', ues', toRetx', slot')))
       else Inr (0, start, ues, toRetx, slot)))"

section \<open>The state of the users between slots\<close>

text \<open>
  \<open>mx\<close> is the limit of retransmissions of the user: no redundancy version of a stored DCI is above it.
\<close>

definition dci_shape :: "16 word \<Rightarrow> 8 word \<Rightarrow> harq_iter \<Rightarrow> dci \<Rightarrow> bool" where
  "dci_shape bw mx it d \<longleftrightarrow>
     (dci_rnti d, dci_harqProcess d) = it \<and> dci_format d = DL \<and>
     length (dci_mcs d) = length (dci_tbSize d) \<and> length (dci_rv d) = length (dci_tbSize d) \<and>
     length (dci_ndi d) = length (dci_tbSize d) \<and> length (dci_rbgBitmask d) = unat bw \<and>
     dl_resources d > 0 \<and> dci_rv d \<noteq> [] \<and> (\<forall>x \<in> set (dci_rv d). x \<le> mx)"

definition process_ok :: "16 word \<Rightarrow> 8 word \<Rightarrow> harq_iter \<Rightarrow> harq_process \<Rightarrow> bool" where
  "process_ok bw mx it p \<longleftrightarrow>
     (hp_active p \<longleftrightarrow> hp_status p \<noteq> INACTIVE) \<and> (hp_active p \<longrightarrow> hp_dci p \<noteq> None) \<and>
     (\<forall>d. hp_dci p = Some d \<longrightarrow> dci_shape bw mx it d)"

definition vector_ok :: "16 word \<Rightarrow> 8 word \<Rightarrow> 16 word \<Rightarrow> harq_vector \<Rightarrow> bool" where
  "vector_ok bw mx r v \<longleftrightarrow>
     hv_ok v \<and> (\<forall>k p. map_of (hv_map v) k = Some p \<longrightarrow> process_ok bw mx (r, k) p)"

definition users_ok :: "16 word \<Rightarrow> (16 word \<Rightarrow> 8 word option) \<Rightarrow> 'b ue_map \<Rightarrow> bool" where
  "users_ok bw maxRetx ues \<longleftrightarrow>
     (\<forall>r ue. ues r = Some ue \<longrightarrow>
        (\<exists>mx \<le> 3. maxRetx r = Some mx \<and> vector_ok bw mx r (ue_dlHarq ue)))"

text \<open>What the steps of a slot never change: the users, their beams and the sizes of their vectors.\<close>

definition same_users :: "'b ue_map \<Rightarrow> 'b ue_map \<Rightarrow> bool" where
  "same_users ues ues' \<longleftrightarrow>
     (\<forall>r. map_option (\<lambda>ue. (ue_beam ue, hv_maxSize (ue_dlHarq ue))) (ues' r) =
          map_option (\<lambda>ue. (ue_beam ue, hv_maxSize (ue_dlHarq ue))) (ues r))"

text \<open>A feedback for a process that the user has, with an ACK or a NACK in it.\<close>

definition feedback_ok :: "'b ue_map \<Rightarrow> dl_harq_info \<Rightarrow> bool" where
  "feedback_ok ues f \<longleftrightarrow>
     (\<exists>ue. ues (hi_rnti f) = Some ue \<and> hi_process f < hv_maxSize (ue_dlHarq ue)) \<and>
     (ACK \<in> set (hi_dl_status f) \<or> NACK \<in> set (hi_dl_status f))"

lemma same_users_refl: "same_users ues ues"
  by (simp add: same_users_def)

lemma same_users_trans: "same_users a b \<Longrightarrow> same_users b c \<Longrightarrow> same_users a c"
  by (simp add: same_users_def)

lemma same_users_upd:
  "ues r = Some ue \<Longrightarrow> hv_maxSize (ue_dlHarq ue') = hv_maxSize (ue_dlHarq ue) \<Longrightarrow> ue_beam ue' = ue_beam ue \<Longrightarrow>
   same_users ues (ues(r \<mapsto> ue'))"
  by (simp add: same_users_def)

lemma same_users_size:
  assumes "same_users ues ues'" and "ues r = Some ue"
  shows "\<exists>ue'. ues' r = Some ue' \<and> hv_maxSize (ue_dlHarq ue') = hv_maxSize (ue_dlHarq ue) \<and>
    ue_beam ue' = ue_beam ue"
proof -
  have "map_option (\<lambda>ue. (ue_beam ue, hv_maxSize (ue_dlHarq ue))) (ues' r) =
      Some (ue_beam ue, hv_maxSize (ue_dlHarq ue))"
    using assms unfolding same_users_def by simp
  then show ?thesis
    by auto
qed

lemma same_users_sym: "same_users ues ues' \<Longrightarrow> same_users ues' ues"
  by (simp add: same_users_def)

lemma same_users_dom:
  assumes "same_users ues ues'"
  shows "(ues' r = None) = (ues r = None)"
  using same_users_size [OF assms, of r] same_users_size [OF same_users_sym [OF assms], of r]
  by (metis not_Some_eq)

lemma feedback_ok_same:
  assumes "same_users ues ues'" and "feedback_ok ues f"
  shows "feedback_ok ues' f"
proof -
  obtain ue where ue: "ues (hi_rnti f) = Some ue" "hi_process f < hv_maxSize (ue_dlHarq ue)"
    using assms(2) unfolding feedback_ok_def by blast
  from same_users_size [OF assms(1) ue(1)] obtain ue' where
    "ues' (hi_rnti f) = Some ue'" "hv_maxSize (ue_dlHarq ue') = hv_maxSize (ue_dlHarq ue)"
    by blast
  with ue(2) assms(2) show ?thesis
    by (simp add: feedback_ok_def)
qed

lemma users_ok_vector:
  assumes "users_ok bw maxRetx ues" and "ues r = Some ue"
  obtains mx where "mx \<le> 3" "maxRetx r = Some mx" "vector_ok bw mx r (ue_dlHarq ue)"
  using assms unfolding users_ok_def by blast

lemma users_ok_upd:
  assumes "users_ok bw maxRetx ues" and "ues r = Some ue" and "maxRetx r = Some mx"
    and "vector_ok bw mx r (ue_dlHarq ue')"
  shows "users_ok bw maxRetx (ues(r \<mapsto> ue'))"
proof -
  have m3: "mx \<le> 3"
    using assms(1-3) unfolding users_ok_def by fastforce
  show ?thesis
    unfolding users_ok_def
  proof (intro allI impI)
    fix r' u assume u: "(ues(r \<mapsto> ue')) r' = Some u"
    show "\<exists>mx \<le> 3. maxRetx r' = Some mx \<and> vector_ok bw mx r' (ue_dlHarq u)"
    proof (cases "r' = r")
      case True
      with u show ?thesis
        using m3 assms(3,4) by auto
    next
      case False
      with u have "ues r' = Some u"
        by simp
      then show ?thesis
        using assms(1) unfolding users_ok_def by blast
    qed
  qed
qed

text \<open>Storing a process of the same activity, and erasing an active one.\<close>

lemma vector_ok_put:
  assumes "vector_ok bw mx r v" and "map_of (hv_map v) k = Some p" and "process_ok bw mx (r, k) p'"
    and "hp_active p' = hp_active p"
  shows "vector_ok bw mx r (v\<lparr>hv_map := hm_put k p' (hv_map v)\<rparr>)"
proof -
  have "hv_ok (v\<lparr>hv_map := hm_put k p' (hv_map v), hv_usedSize := hv_usedSize v\<rparr>)"
    using assms(1,4) by (intro hv_put_ok [OF _ assms(2)]) (simp_all add: vector_ok_def)
  moreover have "v\<lparr>hv_map := hm_put k p' (hv_map v), hv_usedSize := hv_usedSize v\<rparr> =
      v\<lparr>hv_map := hm_put k p' (hv_map v)\<rparr>"
    by simp
  ultimately show ?thesis
    using assms(1,3) by (auto simp: vector_ok_def map_of_hm_put)
qed

lemma vector_ok_erase:
  assumes "vector_ok bw mx r v" and "map_of (hv_map v) k = Some p" and "hp_active p"
  shows "\<exists>v'. hv_erase k v = Inr (True, v') \<and> vector_ok bw mx r v' \<and> hv_maxSize v' = hv_maxSize v \<and>
    (\<forall>k'. k' \<noteq> k \<longrightarrow> map_of (hv_map v') k' = map_of (hv_map v) k') \<and> map fst (hv_map v') = map fst (hv_map v)"
proof -
  have "hv_active v k = Some p"
    using assms(2,3) by (simp add: hv_active_def)
  then obtain v' where v': "hv_erase k v = Inr (True, v')" "hv_ok v'" "hv_maxSize v' = hv_maxSize v"
    using hv_erase_active [of v k p] assms(1) by (auto simp: vector_ok_def)
  have m: "hv_map v' = hm_put k (hp_erase p) (hv_map v)"
    using v'(1) assms(2) by (auto simp: hv_erase_def hm_at_def Let_def result_elims)
  have "process_ok bw mx (r, k) (hp_erase p)"
    by (simp add: process_ok_def hp_erase_def)
  then have "vector_ok bw mx r v'"
    using v'(2) assms(1) by (auto simp: vector_ok_def m map_of_hm_put)
  with v' show ?thesis
    by (simp add: m map_of_hm_put)
qed

section \<open>Timers never fault\<close>

lemma reset_expired_loop_ok:
  assumes "vector_ok bw mx r v" and "set ks \<subseteq> set (map fst (hv_map v))"
  shows "\<exists>v'. reset_expired_loop n ks v = Inr v' \<and> vector_ok bw mx r v' \<and> hv_maxSize v' = hv_maxSize v"
  using assms
proof (induction ks arbitrary: v)
  case (Cons k ks)
  then obtain p where p: "map_of (hv_map v) k = Some p"
    by (cases "map_of (hv_map v) k") (auto simp: map_of_eq_None_iff)
  have ok: "process_ok bw mx (r, k) p"
    using Cons.prems(1) p by (simp add: vector_ok_def)
  consider "hp_status p = INACTIVE" | "hp_status p \<noteq> INACTIVE" "hp_timer p < n"
    | "hp_status p \<noteq> INACTIVE" "\<not> hp_timer p < n"
    by blast
  then show ?case
  proof cases
    case 1
    then show ?thesis
      using Cons.IH [of v] Cons.prems p by (simp add: hm_at_def)
  next
    case 2
    let ?v = "v\<lparr>hv_map := hm_put k (p\<lparr>hp_timer := hp_timer p + 1\<rparr>) (hv_map v)\<rparr>"
    have "vector_ok bw mx r ?v"
      using ok by (intro vector_ok_put [OF Cons.prems(1) p]) (simp_all add: process_ok_def)
    moreover have "set ks \<subseteq> set (map fst (hv_map ?v))"
      using Cons.prems(2) by (simp del: set_map)
    ultimately show ?thesis
      using Cons.IH [of ?v] 2 p by (simp add: hm_at_def)
  next
    case 3
    then have "hp_active p"
      using ok by (simp add: process_ok_def)
    then obtain v1 where v1: "hv_erase k v = Inr (True, v1)" "vector_ok bw mx r v1"
      "hv_maxSize v1 = hv_maxSize v" "map fst (hv_map v1) = map fst (hv_map v)"
      using vector_ok_erase [OF Cons.prems(1) p] by blast
    have "set ks \<subseteq> set (map fst (hv_map v1))"
      using Cons.prems(2) unfolding v1(4) by simp
    then show ?thesis
      using Cons.IH [OF v1(2)] v1 3 p by (simp add: hm_at_def)
  qed
qed simp

lemma reset_expired_users_ok:
  assumes "users_ok bw maxRetx ues" and "\<forall>r \<in> set rs. ues r \<noteq> None"
  shows "\<exists>ues'. reset_expired_users n rs ues = Inr ues' \<and> users_ok bw maxRetx ues' \<and> same_users ues ues'"
  using assms
proof (induction rs arbitrary: ues)
  case (Cons r rs)
  then obtain ue where ue: "ues r = Some ue"
    by auto
  obtain mx where mx: "maxRetx r = Some mx" "vector_ok bw mx r (ue_dlHarq ue)"
    using users_ok_vector [OF Cons.prems(1) ue] by blast
  obtain v where v: "reset_expired_harq n (ue_dlHarq ue) = Inr v" "vector_ok bw mx r v"
    "hv_maxSize v = hv_maxSize (ue_dlHarq ue)"
    using reset_expired_loop_ok [OF mx(2) subset_refl] unfolding reset_expired_harq_def by blast
  let ?ues = "ues(r \<mapsto> ue\<lparr>ue_dlHarq := v\<rparr>)"
  have same: "same_users ues ?ues"
    by (rule same_users_upd) (use ue v(3) in simp_all)
  have "users_ok bw maxRetx ?ues"
    by (rule users_ok_upd) (use Cons.prems(1) ue mx(1) v(2) in simp_all)
  moreover have "\<forall>r \<in> set rs. ?ues r \<noteq> None"
    using Cons.prems(2) by auto
  ultimately obtain ues' where "reset_expired_users n rs ?ues = Inr ues'" "users_ok bw maxRetx ues'"
    "same_users ?ues ues'"
    using Cons.IH by blast
  with same_users_trans [OF same] show ?case
    by (intro exI [of _ ues']) (simp add: ue v(1))
qed (simp add: same_users_refl)

section \<open>The merge and the removal of late and duplicated feedback\<close>

lemma feedback_process:
  assumes "users_ok bw maxRetx ues" and "feedback_ok ues f"
  obtains ue p mx where "ues (hi_rnti f) = Some ue"
    "map_of (hv_map (ue_dlHarq ue)) (hi_process f) = Some p" "mx \<le> 3" "maxRetx (hi_rnti f) = Some mx"
    "vector_ok bw mx (hi_rnti f) (ue_dlHarq ue)" "process_ok bw mx (hi_rnti f, hi_process f) p"
proof -
  obtain ue where ue: "ues (hi_rnti f) = Some ue" "hi_process f < hv_maxSize (ue_dlHarq ue)"
    using assms(2) unfolding feedback_ok_def by blast
  obtain mx where mx: "mx \<le> 3" "maxRetx (hi_rnti f) = Some mx" "vector_ok bw mx (hi_rnti f) (ue_dlHarq ue)"
    by (rule users_ok_vector [OF assms(1) ue(1)])
  then have "hv_ok (ue_dlHarq ue)"
    by (simp add: vector_ok_def)
  from hv_exist_iff [OF this, of "hi_process f"] ue(2)
  obtain p where p: "map_of (hv_map (ue_dlHarq ue)) (hi_process f) = Some p"
    by auto
  with mx(3) have "process_ok bw mx (hi_rnti f, hi_process f) p"
    by (simp add: vector_ok_def)
  with ue(1) p mx show ?thesis
    by (intro that)
qed

definition active_process :: "'b ue_map \<Rightarrow> harq_iter \<Rightarrow> bool" where
  "active_process ues it \<longleftrightarrow> (\<exists>p. dl_process ues it = Some p \<and> hp_active p)"

definition in_dup :: "(16 word \<Rightarrow> 8 word list option) \<Rightarrow> dl_harq_info \<Rightarrow> bool" where
  "in_dup dup f \<longleftrightarrow> (\<exists>ks. dup (hi_rnti f) = Some ks \<and> hi_process f \<in> set ks)"

lemma filter_dl_feedback_ok:
  assumes "users_ok bw maxRetx ues" and "\<forall>f \<in> set fs. feedback_ok ues f"
  shows "\<exists>fs'. filter_dl_feedback ues dup fs = Inr fs' \<and> set fs' \<subseteq> set fs \<and>
    distinct (map dl_feedback_key fs') \<and>
    (\<forall>f \<in> set fs'. active_process ues (dl_feedback_key f) \<and> \<not> in_dup dup f)"
  using assms(2)
proof (induction fs arbitrary: dup)
  case (Cons f fs)
  have ok: "feedback_ok ues f" and rest: "\<forall>f \<in> set fs. feedback_ok ues f"
    using Cons.prems by simp_all
  obtain ue p mx where u: "ues (hi_rnti f) = Some ue"
    "map_of (hv_map (ue_dlHarq ue)) (hi_process f) = Some p"
    using feedback_process [OF assms(1) ok] by metis
  have pr: "dl_process ues (dl_feedback_key f) = Some p"
    by (simp add: dl_process_def dl_feedback_key_def u)
  let ?skip = "\<not> hp_active p \<or> in_dup dup f"
  let ?dup = "dup(hi_rnti f \<mapsto> hi_process f # (case dup (hi_rnti f) of None \<Rightarrow> [] | Some ks \<Rightarrow> ks))"
  have run: "filter_dl_feedback ues dup (f # fs) =
      (if ?skip then filter_dl_feedback ues dup fs else res_map (Cons f) (filter_dl_feedback ues ?dup fs))"
    by (simp add: u in_dup_def split: option.split)
  obtain gs where gs: "filter_dl_feedback ues dup fs = Inr gs" "set gs \<subseteq> set fs"
    "distinct (map dl_feedback_key gs)" "\<forall>g \<in> set gs. active_process ues (dl_feedback_key g) \<and> \<not> in_dup dup g"
    using Cons.IH [OF rest, of dup] by blast
  obtain hs where hs: "filter_dl_feedback ues ?dup fs = Inr hs" "set hs \<subseteq> set fs"
    "distinct (map dl_feedback_key hs)" "\<forall>g \<in> set hs. active_process ues (dl_feedback_key g) \<and> \<not> in_dup ?dup g"
    using Cons.IH [OF rest, of ?dup] by blast
  have new: "dl_feedback_key g \<noteq> dl_feedback_key f \<and> \<not> in_dup dup g" if "\<not> in_dup ?dup g" for g
    using that by (auto simp: in_dup_def dl_feedback_key_def split: if_splits)
  show ?case
  proof (cases ?skip)
    case True
    then show ?thesis
      using gs run by (intro exI [of _ gs]) auto
  next
    case False
    have "dl_feedback_key f \<notin> dl_feedback_key ` set hs" "\<forall>g \<in> set hs. \<not> in_dup dup g"
      using hs(4) new by fastforce+
    then show ?thesis
      using False hs run pr by (intro exI [of _ "f # hs"]) (auto simp: active_process_def)
  qed
qed simp

section \<open>The processing of the feedback\<close>

text \<open>A process whose retransmission is due and allowed.\<close>

definition awaiting_retx :: "(16 word \<Rightarrow> 8 word option) \<Rightarrow> 'b ue_map \<Rightarrow> harq_iter \<Rightarrow> bool" where
  "awaiting_retx maxRetx ues it \<longleftrightarrow>
     (\<exists>p d mx. dl_process ues it = Some p \<and> hp_active p \<and> hp_status p = RECEIVED_FEEDBACK \<and>
        hp_dci p = Some d \<and> maxRetx (fst it) = Some mx \<and> mx \<le> 3 \<and> (\<forall>x \<in> set (dci_rv d). x < mx))"

lemma dl_process_frame:
  assumes "ues r = Some ue"
    and "\<And>k'. k' \<noteq> k \<Longrightarrow> map_of (hv_map (ue_dlHarq ue')) k' = map_of (hv_map (ue_dlHarq ue)) k'"
    and "it \<noteq> (r, k)"
  shows "dl_process (ues(r \<mapsto> ue')) it = dl_process ues it"
  using assms by (cases it) (auto simp: dl_process_def)

lemma users_ok_put:
  assumes "users_ok bw maxRetx ues" and "ues r = Some ue" and "map_of (hv_map (ue_dlHarq ue)) k = Some p"
    and "\<And>mx. process_ok bw mx (r, k) p \<Longrightarrow> maxRetx r = Some mx \<Longrightarrow> process_ok bw mx (r, k) p'"
    and "hp_active p' = hp_active p"
  shows "users_ok bw maxRetx (put_dl_process r ue k p' ues) \<and> same_users ues (put_dl_process r ue k p' ues)"
proof -
  obtain mx where mx: "maxRetx r = Some mx" "vector_ok bw mx r (ue_dlHarq ue)"
    using users_ok_vector [OF assms(1,2)] by metis
  then have "process_ok bw mx (r, k) p'"
    using assms(3,4) unfolding vector_ok_def by blast
  note v = vector_ok_put [OF mx(2) assms(3) this assms(5)]
  show ?thesis
    unfolding put_dl_process_def
    by (intro conjI, rule users_ok_upd, use assms(1,2) mx(1) v in simp_all, rule same_users_upd,
      use assms(2) in simp_all)
qed

lemma users_ok_counter:
  assumes "users_ok bw maxRetx ues" and "ues r = Some u"
  shows "users_ok bw maxRetx (ues(r \<mapsto> u\<lparr>ue_dlMRBRetx := c\<rparr>)) \<and> same_users ues (ues(r \<mapsto> u\<lparr>ue_dlMRBRetx := c\<rparr>))"
proof -
  obtain mx where "maxRetx r = Some mx" "vector_ok bw mx r (ue_dlHarq u)"
    using users_ok_vector [OF assms] by metis
  then show ?thesis
    by (intro conjI, intro users_ok_upd, use assms in simp_all, intro same_users_upd, use assms in simp_all)
qed

text \<open>One feedback: the process is erased, or it waits for its retransmission and the feedback stays.\<close>

lemma process_dl_one:
  assumes "users_ok bw maxRetx ues" and "feedback_ok ues f" and "active_process ues (dl_feedback_key f)"
  shows "\<exists>ues' keep. users_ok bw maxRetx ues' \<and> same_users ues ues' \<and>
    (\<forall>it. it \<noteq> dl_feedback_key f \<longrightarrow> dl_process ues' it = dl_process ues it) \<and>
    (keep \<longrightarrow> awaiting_retx maxRetx ues' (dl_feedback_key f) \<and> NACK \<in> set (hi_dl_status f)) \<and>
    process_dl_loop maxRetx (f # fs) ues =
      (if keep then res_map (\<lambda>(fs', ues', n). (f # fs', ues', n + 1)) (process_dl_loop maxRetx fs ues')
       else process_dl_loop maxRetx fs ues')"
proof -
  obtain ue p mx where u: "ues (hi_rnti f) = Some ue"
    "map_of (hv_map (ue_dlHarq ue)) (hi_process f) = Some p" and mx: "mx \<le> 3" "maxRetx (hi_rnti f) = Some mx"
    and ok: "vector_ok bw mx (hi_rnti f) (ue_dlHarq ue)" "process_ok bw mx (hi_rnti f, hi_process f) p"
    using feedback_process [OF assms(1,2)] by metis
  have act: "hp_active p"
    using assms(3) u by (simp add: active_process_def dl_process_def dl_feedback_key_def)
  then obtain d where d: "hp_dci p = Some d" "dci_shape bw mx (hi_rnti f, hi_process f) d"
    using ok(2) by (auto simp: process_ok_def)
  have rv: "dci_rv d \<noteq> []" "\<forall>x \<in> set (dci_rv d). x \<le> mx"
    using d(2) by (simp_all add: dci_shape_def)
  then have top: "Max (set (dci_rv d)) \<le> mx"
    by simp
  have "mx < 4"
    by (rule le_less_trans [OF mx(1)]) simp
  then have rv4: "Max (set (dci_rv d)) < 4"
    using top by (rule le_less_trans [rotated])
  define ok' where "ok' \<longleftrightarrow> NACK \<notin> set (hi_dl_status f)"
  have ok': "dl_received_ok f = Inr ok'" "\<not> ok' \<Longrightarrow> NACK \<in> set (hi_dl_status f)"
    using assms(2) by (auto simp: dl_received_ok_eq feedback_ok_def ok'_def)
  obtain v where v: "hv_erase (hi_process f) (ue_dlHarq ue) = Inr (True, v)" "vector_ok bw mx (hi_rnti f) v"
    "hv_maxSize v = hv_maxSize (ue_dlHarq ue)"
    "\<And>k. k \<noteq> hi_process f \<Longrightarrow> map_of (hv_map v) k = map_of (hv_map (ue_dlHarq ue)) k"
    using vector_ok_erase [OF ok(1) u(2) act] by blast
  let ?p = "p\<lparr>hp_status := RECEIVED_FEEDBACK, hp_nackStreams := dl_nack_streams f\<rparr>"
  let ?drop = "ues(hi_rnti f \<mapsto> ue\<lparr>ue_dlHarq := v\<rparr>)"
  let ?put = "put_dl_process (hi_rnti f) ue (hi_process f) ?p ues"
  have run: "process_dl_loop maxRetx (f # fs) ues =
      (if ok' \<or> Max (set (dci_rv d)) = mx then process_dl_loop maxRetx fs ?drop
       else res_map (\<lambda>(fs', ues', n). (f # fs', ues', n + 1)) (process_dl_loop maxRetx fs ?put))"
    using u act d(1) rv(1) rv4 mx(2) ok'(1) v(1)
    by (simp add: hv_get_def hv_exist_def Let_def ns_abort_if_def)
  show ?thesis
  proof (cases "ok' \<or> Max (set (dci_rv d)) = mx")
    case True
    have "users_ok bw maxRetx ?drop"
      by (rule users_ok_upd) (use assms(1) u(1) mx(2) v(2) in simp_all)
    moreover have "same_users ues ?drop"
      by (rule same_users_upd) (use u(1) v(3) in simp_all)
    moreover have "dl_process ?drop it = dl_process ues it" if "it \<noteq> dl_feedback_key f" for it
      by (rule dl_process_frame [of ues _ ue "hi_process f"]) (use u(1) v(4) that in \<open>simp_all add: dl_feedback_key_def\<close>)
    ultimately show ?thesis
      using True run by (intro exI [of _ ?drop] exI [of _ False]) simp
  next
    case False
    have "users_ok bw maxRetx ?put \<and> same_users ues ?put"
      by (rule users_ok_put) (use assms(1) u act in \<open>simp_all add: process_ok_def\<close>)
    moreover have put: "dl_process ?put it = (if it = dl_feedback_key f then Some ?p else dl_process ues it)" for it
      using dl_process_put [of ues "dl_feedback_key f" ue p ?p it] u by (simp add: dl_feedback_key_def)
    moreover have "x < mx" if "x \<in> set (dci_rv d)" for x
    proof -
      have "x \<le> Max (set (dci_rv d))"
        using that by simp
      also have "\<dots> < mx"
        using top False by (intro le_neq_trans) simp_all
      finally show ?thesis .
    qed
    then have "awaiting_retx maxRetx ?put (dl_feedback_key f)"
      using act d(1) mx unfolding awaiting_retx_def put by (simp add: dl_feedback_key_def)
    ultimately show ?thesis
      using False run ok'(2) by (intro exI [of _ ?put] exI [of _ True]) simp
  qed
qed

lemma process_dl_loop_ok:
  assumes "users_ok bw maxRetx ues" and "\<forall>f \<in> set fs. feedback_ok ues f"
    and "\<forall>f \<in> set fs. active_process ues (dl_feedback_key f)" and "distinct (map dl_feedback_key fs)"
  shows "\<exists>fs' ues'. process_dl_loop maxRetx fs ues = Inr (fs', ues', of_nat (length fs')) \<and>
    users_ok bw maxRetx ues' \<and> same_users ues ues' \<and> set fs' \<subseteq> set fs \<and> distinct (map dl_feedback_key fs') \<and>
    (\<forall>it. it \<notin> dl_feedback_key ` set fs \<longrightarrow> dl_process ues' it = dl_process ues it) \<and>
    (\<forall>f \<in> set fs'. awaiting_retx maxRetx ues' (dl_feedback_key f) \<and> NACK \<in> set (hi_dl_status f))"
  using assms
proof (induction fs arbitrary: ues)
  case Nil
  then show ?case
    by (simp add: same_users_refl)
next
  case (Cons f fs)
  obtain ues1 keep where s1: "users_ok bw maxRetx ues1" "same_users ues ues1"
    "\<And>it. it \<noteq> dl_feedback_key f \<Longrightarrow> dl_process ues1 it = dl_process ues it"
    "keep \<Longrightarrow> awaiting_retx maxRetx ues1 (dl_feedback_key f) \<and> NACK \<in> set (hi_dl_status f)"
    "process_dl_loop maxRetx (f # fs) ues =
      (if keep then res_map (\<lambda>(fs', ues', n). (f # fs', ues', n + 1)) (process_dl_loop maxRetx fs ues1)
       else process_dl_loop maxRetx fs ues1)"
    using process_dl_one [of bw maxRetx ues f fs] Cons.prems(1-3) by auto
  have out: "dl_feedback_key f \<notin> dl_feedback_key ` set fs"
    using Cons.prems(4) by simp
  have fok: "\<forall>f \<in> set fs. feedback_ok ues1 f"
    using Cons.prems(2) feedback_ok_same [OF s1(2)] by simp
  have act: "\<forall>g \<in> set fs. active_process ues1 (dl_feedback_key g)"
  proof
    fix g assume g: "g \<in> set fs"
    then have "dl_feedback_key g \<noteq> dl_feedback_key f"
      using out by (metis image_eqI)
    from s1(3) [OF this] Cons.prems(3) g show "active_process ues1 (dl_feedback_key g)"
      by (simp add: active_process_def)
  qed
  have "distinct (map dl_feedback_key fs)"
    using Cons.prems(4) by simp
  from Cons.IH [OF s1(1) fok act this] obtain fs' ues' where r:
    "process_dl_loop maxRetx fs ues1 = Inr (fs', ues', of_nat (length fs'))" "users_ok bw maxRetx ues'"
    "same_users ues1 ues'" "set fs' \<subseteq> set fs" "distinct (map dl_feedback_key fs')"
    "\<And>it. it \<notin> dl_feedback_key ` set fs \<Longrightarrow> dl_process ues' it = dl_process ues1 it"
    "\<forall>f \<in> set fs'. awaiting_retx maxRetx ues' (dl_feedback_key f) \<and> NACK \<in> set (hi_dl_status f)"
    by blast
  let ?fs = "if keep then f # fs' else fs'"
  have "awaiting_retx maxRetx ues' (dl_feedback_key f)" if keep
    using s1(4) [OF that] r(6) [OF out] by (simp add: awaiting_retx_def)
  moreover have "dl_feedback_key f \<notin> dl_feedback_key ` set fs'"
    using out r(4) by auto
  moreover have "process_dl_loop maxRetx (f # fs) ues = Inr (?fs, ues', of_nat (length ?fs))"
    using s1(5) r(1) by (simp add: algebra_simps)
  ultimately show ?case
    using r(2-7) s1(3,4) same_users_trans [OF s1(2) r(3)] by (intro exI [of _ ?fs] exI [of _ ues']) auto
qed

text \<open>The counter of the NACKs does not wrap: there are at most $2^{24}$ processes.\<close>

lemma distinct_keys_length:
  assumes "distinct (map dl_feedback_key fs)"
  shows "length fs < 2 ^ 32"
proof -
  have "length fs = card (set (map dl_feedback_key fs))"
    using distinct_card [OF assms] by simp
  also have "\<dots> \<le> card (UNIV :: harq_iter set)"
    by (intro card_mono) simp_all
  also have "\<dots> = 2 ^ 16 * 2 ^ 8"
    by (simp only: UNIV_Times_UNIV [symmetric] card_cartesian_product card_word) simp
  finally show ?thesis
    by simp
qed

lemma process_dl_feedbacks_ok:
  assumes "users_ok bw maxRetx ues" and "\<forall>f \<in> set fs. feedback_ok ues f"
    and "\<forall>f \<in> set fs. active_process ues (dl_feedback_key f)" and "distinct (map dl_feedback_key fs)"
  shows "\<exists>fs' ues'. process_dl_feedbacks maxRetx fs ues = Inr (fs', ues') \<and> users_ok bw maxRetx ues' \<and>
    same_users ues ues' \<and> set fs' \<subseteq> set fs \<and> distinct (map dl_feedback_key fs') \<and>
    (\<forall>f \<in> set fs'. awaiting_retx maxRetx ues' (dl_feedback_key f) \<and> NACK \<in> set (hi_dl_status f))"
proof -
  obtain fs' ues' where r: "process_dl_loop maxRetx fs ues = Inr (fs', ues', of_nat (length fs'))"
    "users_ok bw maxRetx ues'" "same_users ues ues'" "set fs' \<subseteq> set fs" "distinct (map dl_feedback_key fs')"
    "\<forall>f \<in> set fs'. awaiting_retx maxRetx ues' (dl_feedback_key f) \<and> NACK \<in> set (hi_dl_status f)"
    using process_dl_loop_ok [OF assms] by blast
  have "unat (of_nat (length fs') :: 32 word) = length fs'"
    using distinct_keys_length [OF r(5)] by (simp add: unat_of_nat)
  then show ?thesis
    using r by (intro exI [of _ fs'] exI [of _ ues']) (simp add: process_dl_feedbacks_def)
qed

text \<open>The whole feedback part of a slot.\<close>

lemma dl_trigger_feedback_ok:
  assumes "users_ok bw maxRetx ues" and "\<forall>f \<in> set (toRetx @ inFeedbacks). feedback_ok ues f"
    and "\<forall>r \<in> set rs. ues r \<noteq> None"
  shows "\<exists>fs' ues'. dl_trigger_feedback n maxRetx rs toRetx inFeedbacks ues = Inr (fs', [], ues') \<and>
    users_ok bw maxRetx ues' \<and> same_users ues ues' \<and> set fs' \<subseteq> set (toRetx @ inFeedbacks) \<and>
    distinct (map dl_feedback_key fs') \<and>
    (\<forall>f \<in> set fs'. awaiting_retx maxRetx ues' (dl_feedback_key f) \<and> NACK \<in> set (hi_dl_status f))"
proof -
  obtain ues1 where u1: "reset_expired_users n rs ues = Inr ues1" "users_ok bw maxRetx ues1" "same_users ues ues1"
    using reset_expired_users_ok [OF assms(1,3)] by blast
  have fok: "\<forall>f \<in> set (toRetx @ inFeedbacks). feedback_ok ues1 f"
    using assms(2) feedback_ok_same [OF u1(3)] by blast
  obtain fs where fs: "filter_dl_feedback ues1 Map.empty (toRetx @ inFeedbacks) = Inr fs"
    "set fs \<subseteq> set (toRetx @ inFeedbacks)" "distinct (map dl_feedback_key fs)"
    "\<forall>f \<in> set fs. active_process ues1 (dl_feedback_key f)"
    using filter_dl_feedback_ok [OF u1(2) fok] by blast
  have "\<forall>f \<in> set fs. feedback_ok ues1 f"
    using fok fs(2) by blast
  from process_dl_feedbacks_ok [OF u1(2) this fs(4,3)] obtain fs' ues' where r:
    "process_dl_feedbacks maxRetx fs ues1 = Inr (fs', ues')" "users_ok bw maxRetx ues'" "same_users ues1 ues'"
    "set fs' \<subseteq> set fs" "distinct (map dl_feedback_key fs')"
    "\<forall>f \<in> set fs'. awaiting_retx maxRetx ues' (dl_feedback_key f) \<and> NACK \<in> set (hi_dl_status f)"
    by blast
  show ?thesis
  proof (cases "toRetx = [] \<and> inFeedbacks = []")
    case True
    then show ?thesis
      using u1 by (intro exI [of _ "[]"] exI [of _ ues1]) (simp add: dl_trigger_feedback_def)
  next
    case False
    then have "dl_trigger_feedback n maxRetx rs toRetx inFeedbacks ues = Inr (fs', [], ues')"
      using u1(1) fs(1) r(1) by (auto simp: dl_trigger_feedback_def merge_harq_def)
    then show ?thesis
      using r(2-6) fs(2) same_users_trans [OF u1(3) r(3)] by (intro exI [of _ fs'] exI [of _ ues']) auto
  qed
qed

section \<open>The active processes are those of the feedback\<close>

lemma add_to_beam:
  fixes it :: "'c"
  assumes "distinct (map fst active)" and "map_of active b = Some its"
  defines "active' \<equiv> map (\<lambda>(b', l). if b' = b then (b', l @ [it]) else (b', l)) active"
  shows "mset (concat (map snd active')) = mset (concat (map snd active)) + {#it#}" "map fst active' = map fst active"
proof -
  show "map fst active' = map fst active"
    by (simp add: active'_def case_prod_unfold comp_def if_distrib [of fst] cong: if_cong)
  show "mset (concat (map snd active')) = mset (concat (map snd active)) + {#it#}"
    using assms(1,2) unfolding active'_def
  proof (induction active)
    case (Cons e active)
    obtain b' l where e: "e = (b', l)"
      by (cases e)
    show ?case
    proof (cases "b' = b")
      case True
      then have "b \<notin> fst ` set active"
        using Cons.prems(1) e by simp
      then have "map (\<lambda>(b', l). if b' = b then (b', l @ [it]) else (b', l)) active = active"
        by (intro map_idI) force
      then show ?thesis
        using True e by simp
    next
      case False
      then show ?thesis
        using Cons e by simp
    qed
  qed simp
qed

lemma mset_concat_order:
  assumes "mset (l' :: ('b \<times> 'c list) list) = mset l"
  shows "mset (concat (map snd l')) = mset (concat (map snd l))"
proof -
  have "image_mset (mset \<circ> snd) (mset l') = image_mset (mset \<circ> snd) (mset l)"
    using assms by simp
  then have "sum_list (map (mset \<circ> snd) l') = sum_list (map (mset \<circ> snd) l)"
    by (metis mset_map sum_mset_sum_list)
  then show ?thesis
    by (simp add: mset_concat comp_def)
qed

lemma active_dl_loop_ok:
  assumes "\<And>l. mset (order l) = mset l" and "\<forall>f \<in> set fs. \<exists>p. dl_process ues (dl_feedback_key f) = Some p \<and>
      hp_active p \<and> hp_status p = RECEIVED_FEEDBACK"
    and "distinct (map fst active)"
  shows "\<exists>active'. active_dl_loop order ues fs active = Inr active' \<and> distinct (map fst active') \<and>
    mset (concat (map snd active')) = mset (concat (map snd active)) + mset (map dl_feedback_key fs)"
  using assms(2,3)
proof (induction fs arbitrary: active)
  case (Cons f fs)
  obtain ue p where u: "ues (hi_rnti f) = Some ue" "map_of (hv_map (ue_dlHarq ue)) (hi_process f) = Some p"
    "hp_active p" "hp_status p = RECEIVED_FEEDBACK"
    using Cons.prems(1) by (auto simp: dl_process_def dl_feedback_key_def split: option.splits)
  let ?it = "dl_feedback_key f"
  define active1 where "active1 =
    (case map_of active (ue_beam ue) of
       None \<Rightarrow> order ((ue_beam ue, [?it]) # active)
     | Some its \<Rightarrow> map (\<lambda>(b, l). if b = ue_beam ue then (b, l @ [?it]) else (b, l)) active)"
  have run: "active_dl_loop order ues (f # fs) active = active_dl_loop order ues fs active1"
    using u unfolding active1_def dl_feedback_key_def by (simp add: Let_def)
  have one: "distinct (map fst active1) \<and> mset (concat (map snd active1)) = mset (concat (map snd active)) + {#?it#}"
  proof (cases "map_of active (ue_beam ue)")
    case None
    then have a: "active1 = order ((ue_beam ue, [?it]) # active)"
      by (simp add: active1_def)
    have "ue_beam ue \<notin> set (map fst active)"
      using None by (simp add: map_of_eq_None_iff)
    then have "distinct (map fst ((ue_beam ue, [?it]) # active))"
      using Cons.prems(2) by simp
    moreover have m: "mset (map fst active1) = mset (map fst ((ue_beam ue, [?it]) # active))"
      unfolding a mset_map assms(1) ..
    ultimately have "distinct (map fst active1)"
      using mset_eq_imp_distinct_iff [OF m] by blast
    moreover have "mset active1 = mset ((ue_beam ue, [?it]) # active)"
      unfolding a by (rule assms(1))
    from mset_concat_order [OF this]
    have "mset (concat (map snd active1)) = mset (concat (map snd active)) + {#?it#}"
      by simp
    ultimately show ?thesis ..
  next
    case (Some its)
    then have a: "active1 = map (\<lambda>(b, l). if b = ue_beam ue then (b, l @ [?it]) else (b, l)) active"
      by (simp add: active1_def)
    show ?thesis
      unfolding a add_to_beam [OF Cons.prems(2) Some, of ?it] using Cons.prems(2) by simp
  qed
  have "\<forall>f \<in> set fs. \<exists>p. dl_process ues (dl_feedback_key f) = Some p \<and> hp_active p \<and> hp_status p = RECEIVED_FEEDBACK"
    using Cons.prems(1) by simp
  from Cons.IH [OF this conjunct1 [OF one]] show ?case
    using run one by auto
qed simp

lemma sort_dl_harq_ok:
  assumes "\<And>less its. mset (stdSort less its) = mset its"
    and "\<forall>it \<in> set (concat (map snd active)). dl_dci_of ues it \<noteq> None"
  shows "\<exists>active'. sort_dl_harq stdSort ues active = Inr active' \<and> length active' = length active \<and>
    mset (concat (map snd active')) = mset (concat (map snd active))"
proof -
  let ?less = "\<lambda>a b. dci_numSym (the (dl_dci_of ues a)) > dci_numSym (the (dl_dci_of ues b))"
  have "list_all (\<lambda>(beam, its). length its < 2 \<or> list_all (\<lambda>it. dl_dci_of ues it \<noteq> None) its) active"
    using assms(2) by (force simp: list_all_iff)
  moreover have "mset (concat (map (snd \<circ> (\<lambda>(beam, its). (beam, stdSort ?less its))) active)) =
      mset (concat (map snd active))"
    using assms(1) by (induction active) auto
  ultimately show ?thesis
    by (simp add: sort_dl_harq_def)
qed

lemma compute_active_dl_ok:
  assumes "\<And>l. mset (order l) = mset l" and "\<And>less its. mset (stdSort less its) = mset its"
    and "\<forall>f \<in> set fs. awaiting_retx maxRetx ues (dl_feedback_key f)" and "distinct (map dl_feedback_key fs)"
  shows "\<exists>active. compute_active_dl order stdSort ues fs = Inr active \<and>
    distinct (concat (map snd active)) \<and> mset (concat (map snd active)) = mset (map dl_feedback_key fs)"
proof -
  have "\<forall>f \<in> set fs. \<exists>p. dl_process ues (dl_feedback_key f) = Some p \<and> hp_active p \<and> hp_status p = RECEIVED_FEEDBACK"
    using assms(3) unfolding awaiting_retx_def by blast
  from active_dl_loop_ok [of order, OF assms(1) this, of "[]"] obtain a where a:
    "active_dl_loop order ues fs [] = Inr a" "mset (concat (map snd a)) = mset (map dl_feedback_key fs)"
    by auto
  have "set (concat (map snd a)) = dl_feedback_key ` set fs"
    using arg_cong [OF a(2), of set_mset] by (simp del: mset_map)
  moreover have "dl_dci_of ues it \<noteq> None" if "awaiting_retx maxRetx ues it" for it
    using that by (auto simp: awaiting_retx_def dl_process_def dl_dci_of_def split: option.splits)
  ultimately have "\<forall>it \<in> set (concat (map snd a)). dl_dci_of ues it \<noteq> None"
    using assms(3) by auto
  from sort_dl_harq_ok [of stdSort, OF assms(2) this] obtain active where s:
    "sort_dl_harq stdSort ues a = Inr active" "mset (concat (map snd active)) = mset (concat (map snd a))"
    by blast
  have m: "mset (concat (map snd active)) = mset (map dl_feedback_key fs)"
    using s(2) a(2) by (simp del: mset_map)
  have "distinct (concat (map snd active))"
    using mset_eq_imp_distinct_iff [OF m] assms(4) by blast
  with m show ?thesis
    using a(1) s(1) by (simp add: compute_active_dl_def del: mset_map)
qed

section \<open>The retransmission keeps the state of the users\<close>

lemma users_ok_process:
  assumes "users_ok bw maxRetx ues" and "dl_process ues it = Some p"
  obtains mx where "maxRetx (fst it) = Some mx" "process_ok bw mx it p"
proof -
  obtain ue where ue: "ues (fst it) = Some ue" "map_of (hv_map (ue_dlHarq ue)) (snd it) = Some p"
    using assms(2) by (auto simp: dl_process_def split: option.splits)
  obtain mx where "maxRetx (fst it) = Some mx" "vector_ok bw mx (fst it) (ue_dlHarq ue)"
    using users_ok_vector [OF assms(1) ue(1)] by metis
  with ue(2) have "process_ok bw mx (fst it, snd it) p"
    unfolding vector_ok_def by blast
  with \<open>maxRetx (fst it) = Some mx\<close> that show thesis
    by simp
qed

lemma users_ok_dl_ues: "users_ok bw maxRetx ues \<Longrightarrow> dl_ues_ok bw ues"
  unfolding dl_ues_ok_def by (metis users_ok_process process_ok_def dci_shape_def)

lemma awaiting_ready:
  assumes "users_ok bw maxRetx ues" and "awaiting_retx maxRetx ues it" and "it \<in> dl_feedback_key ` set fb"
  shows "dl_ready fb ues it"
proof -
  obtain p d where p: "dl_process ues it = Some p" "hp_status p = RECEIVED_FEEDBACK" "hp_dci p = Some d"
    using assms(2) unfolding awaiting_retx_def by blast
  obtain mx where "process_ok bw mx it p"
    by (rule users_ok_process [OF assms(1) p(1)])
  then have "dci_shape bw mx it d"
    using p(3) by (simp add: process_ok_def)
  with p assms(3) show ?thesis
    by (simp add: dl_ready_def dci_shape_def)
qed

lemma word8_Suc_le: "x < mx \<Longrightarrow> x + 1 \<le> mx" for x mx :: "8 word"
  by uint_arith

text \<open>The vectors of a retransmission keep their lengths, and no redundancy version passes the limit.\<close>

lemma dl_retx_streams_shape:
  assumes "dl_retx_streams d nacks is (tb, ndi, rv, mcs) = Inr (tb', ndi', rv', mcs')"
    and "\<forall>x \<in> set (dci_rv d). x < mx" and "\<forall>x \<in> set rv. x \<le> mx"
  shows "length tb' = length tb \<and> length ndi' = length ndi \<and> length rv' = length rv \<and>
    length mcs' = length mcs \<and> (\<forall>x \<in> set rv'. x \<le> mx)"
  using assms(1,3)
proof (induction "is" arbitrary: tb ndi rv mcs)
  case (Cons i "is")
  obtain tb1 ndi1 rv1 mcs1 where one: "dl_retx_stream d nacks i (tb, ndi, rv, mcs) = Inr (tb1, ndi1, rv1, mcs1)"
    and rest: "dl_retx_streams d nacks is (tb1, ndi1, rv1, mcs1) = Inr (tb', ndi', rv', mcs')"
    using Cons.prems(1) by (auto simp: result_elims)
  have le: "x \<le> mx" if "x \<in> insert 0 ((\<lambda>r. r + 1) ` set (dci_rv d))" for x
    using that assms(2) by (auto intro: word8_Suc_le)
  have "length tb1 = length tb \<and> length ndi1 = length ndi \<and> length rv1 = length rv \<and> length mcs1 = length mcs \<and>
    set rv1 \<subseteq> insert 0 ((\<lambda>r. r + 1) ` set (dci_rv d)) \<union> set rv"
    using one by (auto simp: dl_retx_stream_def vec_at_def vec_put_def result_elims split: if_splits
        dest!: set_update_subset_insert [THEN subsetD])
  note one = this
  have "\<forall>x \<in> set rv1. x \<le> mx"
    using one Cons.prems(2) le by blast
  from Cons.IH [OF rest this] one show ?case
    by simp
qed simp

lemma dl_sent_shape:
  assumes "dci_shape bw mx it d" and "\<forall>x \<in> set (dci_rv d). x < mx"
    and "dl_retx_streams d nacks [0..<length (dci_tbSize d)]
      (replicate (length (dci_tbSize d)) 0, replicate (length (dci_ndi d)) 0,
       replicate (length (dci_rv d)) 0, replicate (length (dci_mcs d)) 0) = Inr v"
    and "0 \<le> n" "unat rbg + nat n \<le> unat bw" "dl_resources d \<le> nat n * unat spb"
  shows "dci_shape bw mx it (dl_place rbg n (dl_new_dci e spb v d))"
proof -
  obtain tb ndi rv mcs where v: "v = (tb, ndi, rv, mcs)"
    by (cases v)
  have len: "length tb = length (dci_tbSize d)" "length ndi = length (dci_ndi d)" "length rv = length (dci_rv d)"
    "length mcs = length (dci_mcs d)" "\<forall>x \<in> set rv. x \<le> mx"
    using dl_retx_streams_shape [OF assms(3) [unfolded v] assms(2)] by auto
  have "length (dci_rbgBitmask d) = unat bw"
    using assms(1) by (simp add: dci_shape_def)
  then have "dl_resources (dl_place rbg n (dl_new_dci e spb v d)) = nat n * unat spb"
    using assms(4,5) by (simp add: dl_place_resources)
  then have "dl_resources (dl_place rbg n (dl_new_dci e spb v d)) > 0"
    using assms(1,6) unfolding dci_shape_def by linarith
  then show ?thesis
    using assms(1) len
    by (auto simp: dci_shape_def dl_place_def dl_new_dci_def dci_create_def v dl_rbg_mask_def)
qed

lemma dl_one_users:
  assumes "dl_harq_one bw spb fb it s = Inr s'" and ok: "users_ok bw maxRetx (ds_ues s)"
    and wait: "awaiting_retx maxRetx (ds_ues s) it" and "unat (ds_rbg s) \<le> unat bw"
  shows "users_ok bw maxRetx (ds_ues s') \<and> same_users (ds_ues s) (ds_ues s')"
  using assms(1) users_ok_dl_ues [OF ok] assms(4)
proof (cases rule: dl_one_cases)
  case (buffered ue p d f)
  let ?p = "p\<lparr>hp_status := WAITING_FEEDBACK, hp_timer := 0\<rparr>"
  have "process_ok bw mx (fst it, snd it) ?p" if "process_ok bw mx (fst it, snd it) p" for mx
    using that buffered(3) by (simp add: process_ok_def)
  from users_ok_put [OF ok buffered(1,2) this] show ?thesis
    by (simp add: buffered(7))
next
  case (sent ue p d n v owner new ues)
  let ?p = "p\<lparr>hp_status := WAITING_FEEDBACK, hp_timer := 0, hp_dci := Some new\<rparr>"
  have pr: "dl_process (ds_ues s) it = Some p"
    by (simp add: dl_process_def sent(1,2))
  have "process_ok bw mx (fst it, snd it) ?p"
    if p: "process_ok bw mx (fst it, snd it) p" and mx: "maxRetx (fst it) = Some mx" for mx
  proof -
    have "\<forall>x \<in> set (dci_rv d). x < mx"
      using wait pr sent(4) mx by (auto simp: awaiting_retx_def)
    from dl_sent_shape [OF _ this sent(10) sent(6,7,9)] have "dci_shape bw mx (fst it, snd it) new"
      using p sent(4) unfolding sent(11) process_ok_def by blast
    then show ?thesis
      using p sent(3) by (simp add: process_ok_def)
  qed
  note put = users_ok_put [OF ok sent(1,2) this, folded sent(12)]
  have "users_ok bw maxRetx ues"
    using put by simp
  from users_ok_counter [OF this sent(13)] show ?thesis
    using put same_users_trans by (simp add: sent(14)) blast
qed

lemma awaiting_frame:
  "dl_process ues' it = dl_process ues it \<Longrightarrow> awaiting_retx maxRetx ues' it = awaiting_retx maxRetx ues it"
  by (simp add: awaiting_retx_def)

lemma dl_beam_users:
  assumes "dl_harq_beam bw spb fb its s = Inr s'" and "users_ok bw maxRetx (ds_ues s)"
    and "\<forall>it \<in> set its. awaiting_retx maxRetx (ds_ues s) it" and "distinct its" and "unat (ds_rbg s) \<le> unat bw"
  shows "users_ok bw maxRetx (ds_ues s') \<and> same_users (ds_ues s) (ds_ues s')"
  using assms
proof (induction its arbitrary: s)
  case (Cons it its)
  obtain s1 where s1: "dl_harq_one bw spb fb it s = Inr s1" "dl_harq_beam bw spb fb its s1 = Inr s'"
    using Cons.prems(1) by (auto simp: result_elims)
  have "awaiting_retx maxRetx (ds_ues s) it"
    using Cons.prems(3) by simp
  note u1 = dl_one_users [OF s1(1) Cons.prems(2) this Cons.prems(5)]
  obtain A B where e: "dl_core s [it] A B s1" "dl_row bw s A s1"
    using dl_one_effect [OF s1(1) users_ok_dl_ues [OF Cons.prems(2)] Cons.prems(5)] by blast
  have "\<forall>it' \<in> set its. awaiting_retx maxRetx (ds_ues s1) it'"
  proof
    fix it' assume it': "it' \<in> set its"
    then have "it' \<notin> set [it]"
      using Cons.prems(4) by auto
    from awaiting_frame [OF dl_core_frame [OF e(1) this]] show "awaiting_retx maxRetx (ds_ues s1) it'"
      using Cons.prems(3) it' by simp
  qed
  moreover have "unat (ds_rbg s1) \<le> unat bw"
    using e(2) by (simp add: dl_row_def)
  ultimately have "users_ok bw maxRetx (ds_ues s') \<and> same_users (ds_ues s1) (ds_ues s')"
    using Cons.IH [OF s1(2) conjunct1 [OF u1]] Cons.prems(4) by simp
  then show ?case
    using u1 same_users_trans by blast
qed (simp add: same_users_refl)

lemma dl_beams_users:
  assumes "dl_harq_beams bw spb fb active s = Inr s'" and "users_ok bw maxRetx (ds_ues s)"
    and "\<forall>it \<in> set (concat (map snd active)). awaiting_retx maxRetx (ds_ues s) it"
    and "distinct (concat (map snd active))" and "ds_rbg s = 0"
  shows "users_ok bw maxRetx (ds_ues s') \<and> same_users (ds_ues s) (ds_ues s')"
  using assms
proof (induction active arbitrary: s)
  case (Cons b active)
  obtain beam its where b: "b = (beam, its)"
    by (cases b)
  let ?s = "s\<lparr>ds_allocated := []\<rparr>"
  obtain s1 where s1: "dl_harq_beam bw spb fb its ?s = Inr s1"
    "dl_harq_beams bw spb fb active (dl_end_beam spb s1) = Inr s'"
    using Cons.prems(1) by (auto simp: b result_elims)
  have pre: "users_ok bw maxRetx (ds_ues ?s)" "\<forall>it \<in> set its. awaiting_retx maxRetx (ds_ues ?s) it" "distinct its"
    "unat (ds_rbg ?s) \<le> unat bw"
    using Cons.prems by (simp_all add: b)
  note u1 = dl_beam_users [OF s1(1) pre]
  obtain A B where e: "dl_core ?s its A B s1" "dl_row bw ?s A s1"
    using dl_beam_effect [OF s1(1) users_ok_dl_ues [OF pre(1)] pre(4)] by blast
  have ues: "ds_ues (dl_end_beam spb s1) = ds_ues s1"
    by (simp add: dl_end_beam_def)
  have "\<forall>it \<in> set (concat (map snd active)). awaiting_retx maxRetx (ds_ues (dl_end_beam spb s1)) it"
  proof
    fix it assume it: "it \<in> set (concat (map snd active))"
    then have "it \<notin> set its"
      using Cons.prems(4) by (auto simp: b)
    from awaiting_frame [OF dl_core_frame [OF e(1) this]]
    show "awaiting_retx maxRetx (ds_ues (dl_end_beam spb s1)) it"
      using Cons.prems(3) it by (simp add: b ues)
  qed
  note w = this
  have "users_ok bw maxRetx (ds_ues (dl_end_beam spb s1))"
    using u1 by (simp add: ues)
  moreover have "distinct (concat (map snd active))"
    using Cons.prems(4) by (simp add: b)
  moreover have "ds_rbg (dl_end_beam spb s1) = 0"
    using e(2) Cons.prems(5) by (auto simp: dl_row_def dl_end_beam_def)
  ultimately have "users_ok bw maxRetx (ds_ues s') \<and> same_users (ds_ues (dl_end_beam spb s1)) (ds_ues s')"
    using Cons.IH [OF s1(2)] w by blast
  moreover have "same_users (ds_ues s) (ds_ues s1)"
    using u1 by simp
  ultimately show ?case
    unfolding ues using same_users_trans by blast
qed (simp add: same_users_refl)

lemma schedule_dl_users:
  assumes "schedule_dl_harq bw start symAvail active ues toRetx fb slot = Inr (used, start', ues', toRetx', slot')"
    and "users_ok bw maxRetx ues" and "\<forall>it \<in> set (concat (map snd active)). awaiting_retx maxRetx ues it"
    and "distinct (concat (map snd active))"
  shows "users_ok bw maxRetx ues' \<and> same_users ues ues'"
proof -
  let ?s = "\<lparr>ds_rbg = pt_rbg start, ds_sym = pt_sym start, ds_symAvail = symAvail, ds_usedSym = 0,
     ds_ues = ues, ds_toRetx = toRetx, ds_slot = slot, ds_allocated = []\<rparr>"
  obtain s' where s': "dl_harq_beams bw (of_nat (unat symAvail div length active)) fb active ?s = Inr s'"
    "pt_rbg start = 0" "ues' = ds_ues s'"
    using assms(1) by (auto simp: schedule_dl_harq_def Let_def result_elims split: if_splits)
  show ?thesis
    using dl_beams_users [OF s'(1)] assms(2-4) s'(2,3) by simp
qed

section \<open>A downlink slot\<close>

text \<open>
  A slot from a state in which every active process holds a DCI of its user whose redundancy versions do
  not pass the limit, with any feedback of known processes.
\<close>

lemma dl_slot_run:
  assumes "users_ok bw maxRetx ues" and "\<forall>f \<in> set (toRetx @ inFeedbacks). feedback_ok ues f"
    and "\<forall>r \<in> set rs. ues r \<noteq> None"
    and "\<And>l. mset (order l) = mset l" and "\<And>less its. mset (stdSort less its) = mset its"
    and "pt_rbg start = 0" and "unat (pt_sym start) + unat symAvail < 256"
  shows "\<exists>used start' ues' toRetx' slot' A.
    dl_harq_slot n maxRetx rs order stdSort bw start symAvail toRetx inFeedbacks slot ues =
      Inr (used, start', ues', toRetx', slot') \<and>
    users_ok bw maxRetx ues' \<and> same_users ues ues' \<and>
    (\<forall>f \<in> set toRetx'. f \<in> set (toRetx @ inFeedbacks) \<and> feedback_ok ues' f \<and> NACK \<in> set (hi_dl_status f)) \<and>
    slot_ttis slot' = slot_ttis slot @ A \<and> used \<le> symAvail \<and>
    packed 0 (unat bw) (unat (pt_sym start)) (unat (pt_sym start) + unat used) A"
proof -
  obtain fs ues1 where f: "dl_trigger_feedback n maxRetx rs toRetx inFeedbacks ues = Inr (fs, [], ues1)"
    "users_ok bw maxRetx ues1" "same_users ues ues1" "set fs \<subseteq> set (toRetx @ inFeedbacks)"
    "distinct (map dl_feedback_key fs)"
    "\<forall>f \<in> set fs. awaiting_retx maxRetx ues1 (dl_feedback_key f)" "\<forall>f \<in> set fs. NACK \<in> set (hi_dl_status f)"
    using dl_trigger_feedback_ok [OF assms(1-3)] by blast
  obtain active where a: "compute_active_dl order stdSort ues1 fs = Inr active"
    "distinct (concat (map snd active))" "mset (concat (map snd active)) = mset (map dl_feedback_key fs)"
    using compute_active_dl_ok [of order stdSort, OF assms(4,5) f(6,5)] by blast
  have keys: "set (concat (map snd active)) = dl_feedback_key ` set fs"
    using arg_cong [OF a(3), of set_mset] by (simp del: mset_map)
  then have wait: "\<forall>it \<in> set (concat (map snd active)). awaiting_retx maxRetx ues1 it"
    using f(6) by auto
  show ?thesis
  proof (cases "active = []")
    case True
    then have "dl_harq_slot n maxRetx rs order stdSort bw start symAvail toRetx inFeedbacks slot ues =
        Inr (0, start, ues1, [], slot)"
      using f(1) a(1) by (simp add: dl_harq_slot_def)
    then show ?thesis
      using f(2,3) by (intro exI [of _ 0] exI [of _ start] exI [of _ ues1] exI [of _ "[]"] exI [of _ slot])
        (simp add: packed_def disjoint_allocs_def)
  next
    case False
    have "\<forall>it \<in> set (concat (map snd active)). dl_ready fs ues1 it"
      using awaiting_ready [OF f(2)] wait keys by blast
    from schedule_dl_return [OF assms(6) users_ok_dl_ues [OF f(2)] False a(2) this]
    obtain used start' ues' toRetx' slot' where
      r: "schedule_dl_harq bw start symAvail active ues1 [] fs slot = Inr (used, start', ues', toRetx', slot')"
      by (metis prod.exhaust)
    note u = schedule_dl_users [OF r f(2) wait a(2)]
    have same: "same_users ues ues'"
      using f(3) u same_users_trans by blast
    obtain A where A: "slot_ttis slot' = slot_ttis slot @ A"
      "packed 0 (unat bw) (unat (pt_sym start)) (unat (pt_sym start) + unat used) A" "used \<le> symAvail"
      using schedule_dl_packed [OF r users_ok_dl_ues [OF f(2)] assms(7)] by auto
    have "set toRetx' \<subseteq> set fs"
      using schedule_dl_run [OF r users_ok_dl_ues [OF f(2)] assms(7)] by (auto simp: dl_core_def)
    then have "\<forall>f \<in> set toRetx'. f \<in> set (toRetx @ inFeedbacks) \<and> feedback_ok ues' f \<and> NACK \<in> set (hi_dl_status f)"
      using f(4,7) assms(2) feedback_ok_same [OF same] by blast
    moreover have "dl_harq_slot n maxRetx rs order stdSort bw start symAvail toRetx inFeedbacks slot ues =
        Inr (used, start', ues', toRetx', slot')"
      using f(1) a(1) r False A(3) by (simp add: dl_harq_slot_def)
    ultimately show ?thesis
      using u same A by (intro exI conjI) (assumption | simp)+
  qed
qed

end
