(* ===== verification/Nr_Harq_Sessions.thy ===== *)
theory Nr_Harq_Sessions
  imports Nr_Harq_Cycle
begin

text \<open>
  The life of the downlink HARQ state over many slots, in \<open>NrMacSchedulerNs3\<close>
  (\<open>contrib/nr/model/nr-mac-scheduler-ns3.cc\<close>): users that are configured and released, the new process of a
  first transmission (\<open>DoScheduleDlData\<close>) and the slots of \<open>Nr_Harq_Cycle\<close>. The DCI of a new
  transmission and its RLC PDUs, which come from the scheduling algorithm and from the logical channels, are
  parameters.
\<close>

section \<open>Users\<close>

definition ue_create :: "'b \<Rightarrow> 'b sched_ue" where
  "ue_create beam =
     \<lparr>ue_beam = beam, ue_dlHarq = hv_default, ue_ulHarq = hv_default, ue_dlMRBRetx = 0, ue_ulMRBRetx = 0\<rparr>"

definition ue_config ::
    "((8 word \<times> harq_process) list \<Rightarrow> (8 word \<times> harq_process) list) \<Rightarrow> 8 word \<Rightarrow> 16 word \<Rightarrow> 'b \<Rightarrow> 'b ue_map \<Rightarrow>
     'b ue_map" where
  "ue_config order numHarq rnti beam ues =
     (case ues rnti of
        None \<Rightarrow> (let ue = ue_create beam
          in ues(rnti \<mapsto> ue\<lparr>ue_dlHarq := hv_set_max_size order numHarq (ue_dlHarq ue),
                              ue_ulHarq := hv_set_max_size order numHarq (ue_ulHarq ue)\<rparr>))
      | Some ue \<Rightarrow> ues(rnti \<mapsto> ue\<lparr>ue_beam := beam\<rparr>))"

definition ue_release :: "16 word \<Rightarrow> 'b ue_map \<Rightarrow> 'b ue_map result" where
  "ue_release rnti ues = ns_abort_if (ues rnti = None) (Inr (ues(rnti := None)))"

text \<open>
  A first transmission with the DCI \<open>d\<close>: a new process, whose id goes into the DCI. \<open>k0\<close> is the value of the
  uninitialised variable for the id.
\<close>

definition new_dl_process ::
    "8 word \<Rightarrow> 16 word \<Rightarrow> dci \<Rightarrow> rlc_pdu list list \<Rightarrow> 'b ue_map \<Rightarrow> ('b ue_map \<times> var_tti) result" where
  "new_dl_process k0 rnti d pdus ues =
     deref (ues rnti) (\<lambda>ue.
     ns_abort_if (\<not> hv_can_insert (ue_dlHarq ue))
    (res_bind (hv_insert k0 (hp_create True WAITING_FEEDBACK 0 (Some d)) (ue_dlHarq ue)) (\<lambda>(ret, k, v).
     res_bind (hv_get k v) (\<lambda>p.
     deref (hp_dci p) (\<lambda>d'.
       (let d' = d'\<lparr>dci_harqProcess := k\<rparr>;
            v = v\<lparr>hv_map := hm_put k (p\<lparr>hp_dci := Some d'\<rparr>) (hv_map v)\<rparr>
        in res_bind (hv_get (dci_harqProcess d') v) (\<lambda>p.
           (let p = p\<lparr>hp_rlcPdu := hp_rlcPdu p @ pdus\<rparr>;
                info = (var_tti_create d')\<lparr>tti_rlcPdu := pdus\<rparr>
            in ns_abort_if (pdus = [])
                 (Inr (ues(rnti \<mapsto> ue\<lparr>ue_dlHarq :=
                    v\<lparr>hv_map := hm_put (dci_harqProcess d') p (hv_map v)\<rparr>\<rparr>), info))))))))))"

section \<open>Sessions\<close>

text \<open>
  The DCIs that the scheduling algorithms create for new data: one MCS, NDI and redundancy version 0 per
  TB, and a bit for every resource block group.
\<close>

definition new_dci_ok :: "16 word \<Rightarrow> 16 word \<Rightarrow> dci \<Rightarrow> bool" where
  "new_dci_ok bw rnti d \<longleftrightarrow>
     dci_rnti d = rnti \<and> dci_format d = DL \<and> length (dci_mcs d) = length (dci_tbSize d) \<and>
     length (dci_ndi d) = length (dci_tbSize d) \<and> length (dci_rbgBitmask d) = unat bw \<and> dl_resources d > 0 \<and>
     dci_tbSize d \<noteq> [] \<and> dci_rv d = replicate (length (dci_tbSize d)) 0"

definition retx_limit :: "bool \<Rightarrow> bool \<Rightarrow> 8 word \<Rightarrow> (16 word \<Rightarrow> 64 word option) \<Rightarrow> 16 word \<Rightarrow> 8 word option" where
  "retx_limit retx urllcRetx urllcUes imsi rnti = map_option (max_harq_retx retx urllcRetx urllcUes) (imsi rnti)"

text \<open>
  The reachable states: the users and the feedback kept for later. Users are not released. A slot can have
  any feedback of existing processes, any starting symbol and any iteration orders.
\<close>

inductive dl_session ::
    "16 word \<Rightarrow> 8 word \<Rightarrow> (16 word \<Rightarrow> 8 word option) \<Rightarrow> 'b ue_map \<Rightarrow> dl_harq_info list \<Rightarrow> bool"
  for bw numHarq limit where
  start: "dl_session bw numHarq limit Map.empty []"
| config: "dl_session bw numHarq limit ues toRetx \<Longrightarrow> (\<And>l. mset (order l) = mset l) \<Longrightarrow> limit rnti \<noteq> None \<Longrightarrow>
    dl_session bw numHarq limit (ue_config order numHarq rnti beam ues) toRetx"
| new_data: "dl_session bw numHarq limit ues toRetx \<Longrightarrow> new_dci_ok bw rnti d \<Longrightarrow>
    new_dl_process k0 rnti d pdus ues = Inr (ues', info) \<Longrightarrow> dl_session bw numHarq limit ues' toRetx"
| slot: "dl_session bw numHarq limit ues toRetx \<Longrightarrow> \<forall>f \<in> set fbs. feedback_ok ues f \<Longrightarrow> set rs = dom ues \<Longrightarrow>
    (\<And>l. mset (order l) = mset l) \<Longrightarrow> (\<And>less its. mset (stdSort less its) = mset its) \<Longrightarrow>
    pt_rbg st = 0 \<Longrightarrow> unat (pt_sym st) + unat symAvail < 256 \<Longrightarrow>
    dl_harq_slot numHarq limit rs order stdSort bw st symAvail toRetx fbs slot ues =
      Inr (used, st', ues', toRetx', slot') \<Longrightarrow>
    dl_session bw numHarq limit ues' toRetx'"

inductive_cases dl_session_elims: "dl_session bw numHarq limit ues toRetx"

lemma retx_limit_le: "retx_limit a b c imsi r = Some mx \<Longrightarrow> mx \<le> 3"
  by (auto simp: retx_limit_def max_harq_retx_def Let_def split: if_splits)

section \<open>The invariant of a session\<close>

lemma vector_ok_fresh:
  assumes "\<And>l. mset (order l) = mset l"
  shows "vector_ok bw mx r (hv_set_max_size order n hv_default)"
proof -
  have "process_ok bw mx (r, k) p" if "map_of (hv_map (hv_set_max_size order n hv_default)) k = Some p" for k p
  proof -
    have "p = hp_default"
      by (rule hv_start_default [OF assms map_of_SomeD [OF that]])
    then show ?thesis
      by (simp add: process_ok_def hp_default_def)
  qed
  then show ?thesis
    using hv_start_ok [OF assms] by (simp add: vector_ok_def)
qed

lemma users_ok_config:
  assumes "users_ok bw limit ues" and "\<And>l. mset (order l) = mset l" and "limit r = Some mx" and "mx \<le> 3"
  shows "users_ok bw limit (ue_config order n r beam ues)"
proof (cases "ues r")
  case None
  let ?ue = "ue_create beam\<lparr>ue_dlHarq := hv_set_max_size order n hv_default, ue_ulHarq := hv_set_max_size order n hv_default\<rparr>"
  have "ue_config order n r beam ues = ues(r \<mapsto> ?ue)"
    using None by (simp add: ue_config_def ue_create_def)
  then show ?thesis
    using assms(1,3,4) vector_ok_fresh [of order, OF assms(2)] by (auto simp: users_ok_def)
next
  case (Some ue)
  then obtain mx' where "limit r = Some mx'" "vector_ok bw mx' r (ue_dlHarq ue)"
    using users_ok_vector [OF assms(1)] by metis
  then have "users_ok bw limit (ues(r \<mapsto> ue\<lparr>ue_beam := beam\<rparr>))"
    by (intro users_ok_upd, use assms(1) Some in simp_all)
  then show ?thesis
    using Some by (simp add: ue_config_def)
qed

lemma feedback_ok_config:
  "feedback_ok ues f \<Longrightarrow> feedback_ok (ue_config order n r beam ues) f"
  by (cases "ues r") (auto simp: ue_config_def feedback_ok_def Let_def)

text \<open>A new process finds a free id and gets a well-formed DCI.\<close>

lemma hv_can_insert_iff: "hv_can_insert v \<longleftrightarrow> hv_usedSize v < hv_maxSize v"
  by (simp add: hv_can_insert_def hv_size_def word_less_nat_alt unat_ucast_8_32)

lemma hm_put_put: "hm_put k p (hm_put k q m) = hm_put k p m"
  by (auto simp: hm_put_def)

lemma hv_insert_map: "hv_insert k0 p v = Inr (True, k, v') \<Longrightarrow> hv_map v' = hm_put k p (hv_map v)"
  by (auto simp: hv_insert_def Let_def hm_at_def result_elims split: if_splits option.splits)

lemma new_dci_shape:
  "new_dci_ok bw r d \<Longrightarrow> dci_shape bw mx (r, k) (d\<lparr>dci_harqProcess := k\<rparr>)"
  by (auto simp: new_dci_ok_def dci_shape_def dl_resources_def)

text \<open>The vector with the new process: only the entry of its id, which was inactive, is new.\<close>

lemma new_process_vector:
  assumes ok: "vector_ok bw mx r v" and d: "new_dci_ok bw r d" and room: "hv_can_insert v"
  defines "p \<equiv> hp_create True WAITING_FEEDBACK 0 (Some d)"
  shows "\<exists>k v'. hv_insert k0 p v = Inr (True, k, v') \<and> map_of (hv_map v') k = Some p \<and>
    hv_active v k = None \<and> hv_maxSize v' = hv_maxSize v \<and>
    vector_ok bw mx r (v'\<lparr>hv_map :=
      hm_put k (p\<lparr>hp_dci := Some (d\<lparr>dci_harqProcess := k\<rparr>), hp_rlcPdu := pdus\<rparr>) (hv_map v')\<rparr>)"
proof -
  have hv: "hv_ok v" and act: "hp_active p" and lt: "hv_usedSize v < hv_maxSize v"
    using ok room by (simp_all add: vector_ok_def hv_can_insert_iff p_def hp_create_def)
  obtain k v' where k: "hv_insert k0 p v = Inr (True, k, v')" "hv_active v k = None" "hv_ok v'"
    "hv_active v' = (hv_active v)(k \<mapsto> p)" "hv_maxSize v' = hv_maxSize v"
    using hv_insert_free [OF hv act lt, of k0] by blast
  have at: "map_of (hv_map v') k = Some p"
    using k(4) by (auto simp: hv_active_def dest: fun_cong [of _ _ k] split: option.splits if_splits)
  let ?p = "p\<lparr>hp_dci := Some (d\<lparr>dci_harqProcess := k\<rparr>), hp_rlcPdu := pdus\<rparr>"
  have "hv_ok (v'\<lparr>hv_map := hm_put k ?p (hv_map v'), hv_usedSize := hv_usedSize v'\<rparr>)"
    by (rule hv_put_ok [OF k(3) at]) simp
  moreover have "process_ok bw mx (r, k) ?p"
    using new_dci_shape [OF d] by (simp add: process_ok_def p_def hp_create_def)
  ultimately have "vector_ok bw mx r (v'\<lparr>hv_map := hm_put k ?p (hv_map v')\<rparr>)"
    using ok at by (auto simp: vector_ok_def map_of_hm_put hv_insert_map [OF k(1)] split: if_splits)
  with k(1,2,5) at show ?thesis
    by blast
qed

lemma new_dl_process_run:
  assumes "ues r = Some ue" and "hv_can_insert (ue_dlHarq ue)" and "pdus \<noteq> []"
    and "hv_insert k0 (hp_create True WAITING_FEEDBACK 0 (Some d)) (ue_dlHarq ue) = Inr (ret, k, v)"
    and "map_of (hv_map v) k = Some (hp_create True WAITING_FEEDBACK 0 (Some d))"
  shows "new_dl_process k0 r d pdus ues = Inr
    (ues(r \<mapsto> ue\<lparr>ue_dlHarq := v\<lparr>hv_map := hm_put k ((hp_create True WAITING_FEEDBACK 0 (Some d))
        \<lparr>hp_dci := Some (d\<lparr>dci_harqProcess := k\<rparr>), hp_rlcPdu := pdus\<rparr>) (hv_map v)\<rparr>\<rparr>),
     (var_tti_create (d\<lparr>dci_harqProcess := k\<rparr>))\<lparr>tti_rlcPdu := pdus\<rparr>)"
  using assms by (simp add: new_dl_process_def hv_get_def hv_exist_def Let_def map_of_hm_put hm_put_put)
    (simp add: hp_create_def)

lemma new_dl_process_ok:
  assumes "users_ok bw limit ues" and "new_dci_ok bw r d" and "ues r = Some ue"
    and "hv_can_insert (ue_dlHarq ue)" and "pdus \<noteq> []"
  shows "\<exists>ues' k. new_dl_process k0 r d pdus ues =
        Inr (ues', (var_tti_create (d\<lparr>dci_harqProcess := k\<rparr>))\<lparr>tti_rlcPdu := pdus\<rparr>) \<and>
      users_ok bw limit ues' \<and> same_users ues ues' \<and> \<not> active_process ues (r, k)"
proof -
  obtain mx where mx: "limit r = Some mx" "vector_ok bw mx r (ue_dlHarq ue)"
    using users_ok_vector [OF assms(1,3)] by metis
  let ?p = "hp_create True WAITING_FEEDBACK 0 (Some d)"
  obtain k v where k: "hv_insert k0 ?p (ue_dlHarq ue) = Inr (True, k, v)" "map_of (hv_map v) k = Some ?p"
    "hv_active (ue_dlHarq ue) k = None" "hv_maxSize v = hv_maxSize (ue_dlHarq ue)"
    "vector_ok bw mx r (v\<lparr>hv_map :=
      hm_put k (?p\<lparr>hp_dci := Some (d\<lparr>dci_harqProcess := k\<rparr>), hp_rlcPdu := pdus\<rparr>) (hv_map v)\<rparr>)"
    using new_process_vector [OF mx(2) assms(2,4)] by blast
  let ?ues = "ues(r \<mapsto> ue\<lparr>ue_dlHarq := v\<lparr>hv_map :=
    hm_put k (?p\<lparr>hp_dci := Some (d\<lparr>dci_harqProcess := k\<rparr>), hp_rlcPdu := pdus\<rparr>) (hv_map v)\<rparr>\<rparr>)"
  have "users_ok bw limit ?ues"
    by (rule users_ok_upd) (use assms(1,3) mx(1) k(5) in simp_all)
  moreover have "same_users ues ?ues"
    by (rule same_users_upd) (use assms(3) k(4) in simp_all)
  moreover have "\<not> active_process ues (r, k)"
    using k(3) assms(3) by (auto simp: active_process_def dl_process_def hv_active_def split: option.splits if_splits)
  ultimately show ?thesis
    using new_dl_process_run [of ues r ue, OF assms(3-5) k(1,2)] by blast
qed

text \<open>Every reachable state has the invariant of \<open>Nr_Harq_Cycle\<close>, and its feedback can be served.\<close>

lemma new_dl_process_Inr:
  assumes "new_dl_process k0 r d pdus ues = Inr x"
  shows "\<exists>ue. ues r = Some ue \<and> hv_can_insert (ue_dlHarq ue) \<and> pdus \<noteq> []"
  using assms by (auto simp: new_dl_process_def result_elims Let_def)

lemma dl_session_ok:
  assumes "dl_session bw numHarq limit ues toRetx" and "\<And>r mx. limit r = Some mx \<Longrightarrow> mx \<le> 3"
  shows "users_ok bw limit ues \<and> (\<forall>f \<in> set toRetx. feedback_ok ues f)"
  using assms(1)
proof (induction rule: dl_session.induct)
  case start
  then show ?case
    by (simp add: users_ok_def)
next
  case (config ues toRetx order rnti beam)
  obtain mx where mx: "limit rnti = Some mx"
    using config.hyps(3) by blast
  have "users_ok bw limit (ue_config order numHarq rnti beam ues)"
    by (rule users_ok_config [OF conjunct1 [OF config.IH] config.hyps(2) mx assms(2) [OF mx]])
  moreover have "feedback_ok (ue_config order numHarq rnti beam ues) f" if "f \<in> set toRetx" for f
    by (rule feedback_ok_config) (use config.IH that in blast)
  ultimately show ?case
    by blast
next
  case (new_data ues toRetx rnti d k0 pdus ues' info)
  obtain ue where ue: "ues rnti = Some ue" "hv_can_insert (ue_dlHarq ue)" "pdus \<noteq> []"
    using new_dl_process_Inr [OF new_data.hyps(3)] by blast
  have "users_ok bw limit ues' \<and> same_users ues ues'"
    using new_dl_process_ok [of bw limit ues rnti d ue pdus k0, OF _ new_data.hyps(2) ue] new_data by auto
  then show ?case
    using new_data.IH feedback_ok_same by blast
next
  case (slot ues toRetx fbs rs order stdSort st symAvail slot used st' ues' toRetx' slot')
  have fb: "\<forall>f \<in> set (toRetx @ fbs). feedback_ok ues f" and rs: "\<forall>r \<in> set rs. ues r \<noteq> None"
    using slot by auto
  have "users_ok bw limit ues"
    using slot.IH by blast
  from dl_slot_run [where stdSort = stdSort and order = order and n = numHarq and slot = slot,
      OF this fb rs slot.hyps(4-7)] obtain u st2 ues2 t2 slot2 where
    r: "dl_harq_slot numHarq limit rs order stdSort bw st symAvail toRetx fbs slot ues = Inr (u, st2, ues2, t2, slot2)"
    "users_ok bw limit ues2" "\<forall>f \<in> set t2. feedback_ok ues2 f"
    by blast
  have "ues2 = ues'" "t2 = toRetx'"
    using r(1) slot.hyps(8) by simp_all
  with r show ?case
    by simp
qed

section \<open>Properties\<close>

text \<open>C7: The downlink HARQ machinery never faults while no user is released. From every state that configurations,
  first transmissions and slots can reach, with any number of HARQ processes, any retransmission attributes,
  any hash-table orders and any feedback of existing processes, late, duplicated or repeated, the
  next slot returns: it ends in a reachable state, its new DCIs do not overlap and stay inside the bandwidth and the
  symbols available, and what it keeps for later is given feedback that reported a loss. A first transmission
  finds a free process whenever \<open>CanInsert\<close> says so and is refused by the abort otherwise.\<close>

theorem dl_session_never_faults:
  assumes "dl_session bw numHarq (retx_limit retx urllcRetx urllcUes imsi) ues toRetx"
    and "\<forall>f \<in> set fbs. feedback_ok ues f" and "set rs = dom ues"
    and "\<And>l. mset (order l) = mset l" and "\<And>less its. mset (stdSort less its) = mset its"
    and "pt_rbg st = 0" and "unat (pt_sym st) + unat symAvail < 256"
    and "new_dci_ok bw r d" and "ues r = Some ue" and "pdus \<noteq> []"
  defines "limit \<equiv> retx_limit retx urllcRetx urllcUes imsi"
  shows "(\<exists>used st' ues' toRetx' slot' A.
      dl_harq_slot numHarq limit rs order stdSort bw st symAvail toRetx fbs slot ues =
        Inr (used, st', ues', toRetx', slot') \<and> dl_session bw numHarq limit ues' toRetx' \<and>
      (\<forall>f \<in> set toRetx'. f \<in> set (toRetx @ fbs) \<and> NACK \<in> set (hi_dl_status f)) \<and>
      slot_ttis slot' = slot_ttis slot @ A \<and> used \<le> symAvail \<and>
      packed 0 (unat bw) (unat (pt_sym st)) (unat (pt_sym st) + unat used) A) \<and>
    (if hv_can_insert (ue_dlHarq ue)
     then \<exists>ues' info. new_dl_process k0 r d pdus ues = Inr (ues', info) \<and> dl_session bw numHarq limit ues' toRetx
     else new_dl_process k0 r d pdus ues = Inl Aborted)"
proof -
  note s = assms(1) [folded limit_def]
  have ok: "users_ok bw limit ues" and kept: "\<forall>f \<in> set toRetx. feedback_ok ues f"
    using dl_session_ok [OF s] retx_limit_le unfolding limit_def by blast+
  have fb: "\<forall>f \<in> set (toRetx @ fbs). feedback_ok ues f" and rs: "\<forall>r \<in> set rs. ues r \<noteq> None"
    using kept assms(2,3) by auto
  obtain used st' ues' toRetx' slot' A where r:
    "dl_harq_slot numHarq limit rs order stdSort bw st symAvail toRetx fbs slot ues =
      Inr (used, st', ues', toRetx', slot')"
    "\<forall>f \<in> set toRetx'. f \<in> set (toRetx @ fbs) \<and> feedback_ok ues' f \<and> NACK \<in> set (hi_dl_status f)"
    "slot_ttis slot' = slot_ttis slot @ A" "used \<le> symAvail"
    "packed 0 (unat bw) (unat (pt_sym st)) (unat (pt_sym st) + unat used) A"
    using dl_slot_run [where stdSort = stdSort and order = order and n = numHarq and slot = slot,
      OF ok fb rs assms(4-7)] by blast
  have "dl_session bw numHarq limit ues' toRetx'"
    by (rule dl_session.slot [OF s assms(2-7) r(1)])
  moreover have "\<exists>ues' info. new_dl_process k0 r d pdus ues = Inr (ues', info) \<and> dl_session bw numHarq limit ues' toRetx"
    if "hv_can_insert (ue_dlHarq ue)"
    using new_dl_process_ok [of bw limit ues r d ue pdus k0, OF ok assms(8,9) that assms(10)] dl_session.new_data [OF s assms(8)] by blast
  moreover have "new_dl_process k0 r d pdus ues = Inl Aborted" if "\<not> hv_can_insert (ue_dlHarq ue)"
    using that assms(9) by (simp add: new_dl_process_def)
  ultimately show ?thesis
    using r by (intro conjI) (auto intro!: exI)
qed

text \<open>A released user is an end iterator that the next slot dereferences.\<close>

lemma filter_dl_feedback_released:
  assumes "users_ok bw limit ues" and "\<forall>f \<in> set fs. feedback_ok ues f \<or> ues (hi_rnti f) = None"
    and "\<exists>f \<in> set fs. ues (hi_rnti f) = None"
  shows "filter_dl_feedback ues dup fs = Inl Undefined_behaviour"
  using assms(2,3)
proof (induction fs arbitrary: dup)
  case (Cons f fs)
  show ?case
  proof (cases "ues (hi_rnti f)")
    case (Some ue)
    then have "feedback_ok ues f"
      using Cons.prems(1) by auto
    then obtain ue' p where "ues (hi_rnti f) = Some ue'" "map_of (hv_map (ue_dlHarq ue')) (hi_process f) = Some p"
      using feedback_process [OF assms(1)] by metis
    moreover have "filter_dl_feedback ues dup fs = Inl Undefined_behaviour" for dup
      using Cons Some by auto
    ultimately show ?thesis
      by (simp split: option.split)
  qed simp
qed simp

lemma users_ok_release:
  "users_ok bw limit ues \<Longrightarrow> users_ok bw limit (ues(r := None))"
  by (simp add: users_ok_def)

text \<open>C25: Releasing a user breaks the next slot: \<open>DoCschedUeReleaseReq\<close> takes the user out of the map but leaves
  its buffered feedback, so the next slot, when it looks for the user of such a feedback, or of one that was on
  its way, dereferences the end of the map, for all orders and symbols.\<close>

theorem release_breaks_slot:
  assumes "dl_session bw numHarq (retx_limit retx urllcRetx urllcUes imsi) ues toRetx"
    and "\<forall>f \<in> set fbs. feedback_ok ues f" and "f \<in> set (toRetx @ fbs)"
    and "ue_release (hi_rnti f) ues = Inr ues'" and "set rs = dom ues'"
  shows "dl_harq_slot numHarq (retx_limit retx urllcRetx urllcUes imsi) rs order stdSort bw st symAvail toRetx fbs slot
    ues' = Inl Undefined_behaviour"
proof -
  let ?limit = "retx_limit retx urllcRetx urllcUes imsi"
  have ok: "users_ok bw ?limit ues" and kept: "\<forall>f \<in> set toRetx. feedback_ok ues f"
    using dl_session_ok [OF assms(1)] retx_limit_le by blast+
  have ues': "ues' = ues(hi_rnti f := None)"
    using assms(4) by (simp add: ue_release_def result_elims)
  have ok': "users_ok bw ?limit ues'" and rs: "\<forall>r \<in> set rs. ues' r \<noteq> None"
    using users_ok_release [OF ok] assms(5) by (auto simp: ues')
  obtain ues1 where u1: "reset_expired_users numHarq rs ues' = Inr ues1" "users_ok bw ?limit ues1" "same_users ues' ues1"
    using reset_expired_users_ok [OF ok' rs] by blast
  have fb: "\<forall>g \<in> set (toRetx @ fbs). feedback_ok ues1 g \<or> ues1 (hi_rnti g) = None"
  proof
    fix g assume g: "g \<in> set (toRetx @ fbs)"
    show "feedback_ok ues1 g \<or> ues1 (hi_rnti g) = None"
    proof (cases "hi_rnti g = hi_rnti f")
      case True
      then show ?thesis
        using same_users_dom [OF u1(3)] by (simp add: ues')
    next
      case False
      then have "feedback_ok ues' g"
        using g kept assms(2) by (auto simp: feedback_ok_def ues')
      then show ?thesis
        using feedback_ok_same [OF u1(3)] by blast
    qed
  qed
  have gone: "\<exists>g \<in> set (toRetx @ fbs). ues1 (hi_rnti g) = None"
    using assms(3) same_users_dom [OF u1(3)] by (intro bexI [of _ f]) (simp_all add: ues')
  have "filter_dl_feedback ues1 Map.empty (toRetx @ fbs) = Inl Undefined_behaviour"
    by (rule filter_dl_feedback_released [OF u1(2) fb gone])
  moreover have "toRetx \<noteq> [] \<or> fbs \<noteq> []"
    using assms(3) by auto
  ultimately show ?thesis
    using u1(1) by (auto simp: dl_harq_slot_def dl_trigger_feedback_def merge_harq_def)
qed

section \<open>Examples\<close>

text \<open>One user, two HARQ processes, four resource block groups; a first transmission and its NACK.\<close>

definition demo_limit :: "16 word \<Rightarrow> 8 word option" where
  "demo_limit = retx_limit True False 0 (\<lambda>_. Some 5)"

definition demo_new_dci :: dci where
  "demo_new_dci = (dci_create 7 DL 1 1 [5] [100] [1] [0] DATA 0 0)\<lparr>dci_rbgBitmask := [1, 1, 0, 0]\<rparr>"

definition demo_ues1 :: "nat ue_map" where
  "demo_ues1 = ue_config id 2 7 0 Map.empty"

definition demo_ues2 :: "nat ue_map" where
  "demo_ues2 = (case new_dl_process 255 7 demo_new_dci [[\<lparr>pdu_lcid = 1, pdu_size = 97\<rparr>]] demo_ues1 of
     Inr (ues, info) \<Rightarrow> ues | Inl _ \<Rightarrow> Map.empty)"

definition demo_slot_run ::
    "8 word \<Rightarrow> (8 word \<times> point_ft \<times> nat ue_map \<times> dl_harq_info list \<times> slot_alloc) result" where
  "demo_slot_run symAvail = dl_harq_slot 2 demo_limit [7] id (\<lambda>less its. its) 4 \<lparr>pt_rbg = 0, pt_sym = 1\<rparr>
     symAvail [] [demo_dl_nack 7] demo_slot demo_ues2"

text \<open>With one symbol the process is sent again, with none its feedback is kept.\<close>

lemma demo_slot_one: "dl_summary (demo_slot_run 1) = Inr (1, 2, [], [(1, [1, 1, 0, 0])])"
  by code_simp

lemma demo_slot_none: "dl_summary (demo_slot_run 0) = Inr (0, 1, [7], [])"
  by code_simp

lemma demo_session1: "dl_session 4 2 demo_limit demo_ues1 []"
  unfolding demo_ues1_def by (rule dl_session.config [OF dl_session.start]) (simp_all add: demo_limit_def retx_limit_def)

lemma demo_new_dci_ok: "new_dci_ok 4 7 demo_new_dci"
  by (simp add: new_dci_ok_def demo_new_dci_def dci_create_def dl_resources_def)

lemma demo_can_insert: "map_option (\<lambda>ue. hv_can_insert (ue_dlHarq ue)) (demo_ues1 7) = Some True"
  by code_simp

lemma demo_session2: "dl_session 4 2 demo_limit demo_ues2 []"
proof -
  obtain ue where ue: "demo_ues1 7 = Some ue" "hv_can_insert (ue_dlHarq ue)"
    using demo_can_insert by auto
  have "users_ok 4 demo_limit demo_ues1"
    using dl_session_ok [OF demo_session1] retx_limit_le unfolding demo_limit_def by blast
  from new_dl_process_ok [of 4 demo_limit demo_ues1 7 demo_new_dci ue "[[\<lparr>pdu_lcid = 1, pdu_size = 97\<rparr>]]" 255,
      OF this demo_new_dci_ok ue]
  obtain ues info where n: "new_dl_process 255 7 demo_new_dci [[\<lparr>pdu_lcid = 1, pdu_size = 97\<rparr>]] demo_ues1 = Inr (ues, info)"
    by auto
  then have "demo_ues2 = ues"
    by (simp add: demo_ues2_def)
  with dl_session.new_data [OF demo_session1 demo_new_dci_ok n] show ?thesis
    by simp
qed

lemma demo_ues2_user: "map_option (\<lambda>ue. (hv_maxSize (ue_dlHarq ue), hv_can_insert (ue_dlHarq ue))) (demo_ues2 7) = Some (2, True)"
  by code_simp

lemma demo_ues2_dom: "dom demo_ues2 = {7}"
proof -
  have "dom demo_ues1 = {7}"
    by (auto simp: demo_ues1_def ue_config_def Let_def split: if_splits)
  then have "dom demo_ues2 \<subseteq> {7}"
    by (auto simp: demo_ues2_def new_dl_process_def result_elims Let_def dom_def split: sum.splits if_splits)
  then show ?thesis
    using demo_ues2_user by auto
qed

lemma demo_feedback: "\<forall>f \<in> set [demo_dl_nack 7]. feedback_ok demo_ues2 f"
  using demo_ues2_user by (auto simp: feedback_ok_def demo_dl_nack_def)

theorem dl_session_never_faults_witness:
  "\<exists>st ues t slot. demo_slot_run 1 = Inr (1, st, ues, t, slot) \<and> dl_session 4 2 demo_limit ues t \<and>
     length (slot_ttis slot) = 1"
proof -
  obtain st ues t slot where r: "demo_slot_run 1 = Inr (1, st, ues, t, slot)"
    "map (\<lambda>a. (dci_symStart (tti_dci a), dci_rbgBitmask (tti_dci a))) (slot_ttis slot) = [(1, [1, 1, 0, 0])]"
    using dl_summary_Inr [OF demo_slot_one] by (elim exE conjE) (rule that)
  obtain ue where ue: "demo_ues2 7 = Some ue"
    using demo_ues2_user by auto
  have "dl_session 4 2 demo_limit ues t"
    using dl_session_never_faults [where symAvail = 1 and order = id and stdSort = "\<lambda>less its. its" and rs = "[7]" and
        slot = demo_slot and st = "\<lparr>pt_rbg = 0, pt_sym = 1\<rparr>", OF demo_session2 [unfolded demo_limit_def] demo_feedback
        _ _ _ _ _ demo_new_dci_ok ue, folded demo_limit_def, folded demo_slot_run_def, of "[[]]"] r(1)
    by (simp add: demo_ues2_dom)
  then show ?thesis
    using r(1) arg_cong [OF r(2), of length] by (intro exI conjI) simp_all
qed

text \<open>The user of the kept feedback is released.\<close>

theorem release_breaks_slot_witness:
  "\<exists>st ues t slot ues'. demo_slot_run 0 = Inr (0, st, ues, t, slot) \<and> t \<noteq> [] \<and> ue_release 7 ues = Inr ues' \<and>
     dl_harq_slot 2 demo_limit [] id (\<lambda>less its. its) 4 \<lparr>pt_rbg = 0, pt_sym = 1\<rparr> 12 t [] demo_slot ues' =
       Inl Undefined_behaviour"
proof -
  obtain st ues t slot where r: "demo_slot_run 0 = Inr (0, st, ues, t, slot)" "map hi_rnti t = [7]"
    using dl_summary_Inr [OF demo_slot_none] by (elim exE conjE) (rule that)
  then obtain f where f: "t = [f]" "hi_rnti f = 7"
    by auto
  have ok: "users_ok 4 demo_limit demo_ues2"
    using dl_session_ok [OF demo_session2] retx_limit_le unfolding demo_limit_def by blast
  have s: "dl_session 4 2 demo_limit ues t"
    by (rule dl_session.slot [OF demo_session2 demo_feedback _ _ _ _ _ r(1) [unfolded demo_slot_run_def]])
      (simp_all add: demo_ues2_dom)
  have "same_users demo_ues2 ues"
    using dl_slot_run [where stdSort = "\<lambda>less its. its" and order = id and n = 2 and slot = demo_slot and rs = "[7]" and
        toRetx = "[]" and start = "\<lparr>pt_rbg = 0, pt_sym = 1\<rparr>" and symAvail = 0 and inFeedbacks = "[demo_dl_nack 7]",
        OF ok, folded demo_slot_run_def] demo_feedback r(1) demo_ues2_user by auto
  moreover have "demo_ues2 r = None \<longleftrightarrow> r \<noteq> 7" for r
    using demo_ues2_dom by (metis domIff insertI1 singletonD)
  ultimately have dom: "ues r = None \<longleftrightarrow> r \<noteq> 7" for r
    using same_users_dom [of demo_ues2 ues r] by simp
  then have rel: "ue_release (hi_rnti f) ues = Inr (ues(7 := None))"
    unfolding ue_release_def f(2) by simp
  have "dom (ues(7 := None)) = {}"
    using dom by (simp add: dom_def)
  then have rs: "set [] = dom (ues(7 := None))"
    by simp
  from release_breaks_slot [where fbs = "[]" and order = id and stdSort = "\<lambda>less its. its" and bw = 4 and symAvail = 12
      and st = "\<lparr>pt_rbg = 0, pt_sym = 1\<rparr>" and slot = demo_slot, OF s [unfolded demo_limit_def] _ _ rel rs,
      folded demo_limit_def]
  show ?thesis
    using r(1) f rel by (intro exI conjI) simp_all
qed

end
