(* ===== verification/Buffer_Store.thy ===== *)
theory Buffer_Store
  imports Ns_Prelude
begin

text \<open>
  \<open>Buffer\<close> (\<open>src/network/model/buffer.cc\<close>, \<open>buffer.h\<close>): the bytes of a packet, with a run of zeros that is
  not stored, in blocks of memory that several buffers share. The blocks are numbered; the world holds the blocks,
  the free list (last element first), the two static counters and what fresh memory happens to contain.
  A block of size \<open>n\<close> has \<open>n\<close> bytes; an access to others is undefined behaviour. The free list
  exists from the first block on, and it is not destroyed before the program ends. The size that \<open>Allocate\<close> asks of
  \<open>new\<close>, the header of the block included, is taken to fit in 32 bits.
\<close>

section \<open>Blocks\<close>

record buf_block =
  bd_count :: "32 word"
  bd_size :: "32 word"
  bd_dirtyStart :: "32 word"
  bd_dirtyEnd :: "32 word"
  bd_bytes :: bytes

record buf_world =
  bw_data :: "nat \<Rightarrow> buf_block option"
  bw_next :: nat
  bw_free :: "nat list"
  bw_maxSize :: "32 word"
  bw_recommendedStart :: "32 word"
  bw_junk :: "nat \<Rightarrow> nat \<Rightarrow> 8 word"

definition bw_put :: "nat \<Rightarrow> buf_block \<Rightarrow> buf_world \<Rightarrow> buf_world" where
  "bw_put a d w = w\<lparr>bw_data := (bw_data w)(a \<mapsto> d)\<rparr>"

text \<open>Fields that a constructor leaves open are 0 until they are set, which is before they are read.\<close>

definition buf_allocate :: "32 word \<Rightarrow> buf_world \<Rightarrow> nat \<times> buf_world" where
  "buf_allocate reqSize w =
     (let reqSize = (if reqSize = 0 then 1 else reqSize) + 100;
          a = bw_next w;
          d = \<lparr>bd_count = 1, bd_size = reqSize, bd_dirtyStart = 0, bd_dirtyEnd = 0,
               bd_bytes = map (bw_junk w a) [0..<unat reqSize]\<rparr>
      in (a, (bw_put a d w)\<lparr>bw_next := a + 1\<rparr>))"

definition buf_deallocate :: "nat \<Rightarrow> buf_world \<Rightarrow> buf_world result" where
  "buf_deallocate a w =
     deref (bw_data w a) (\<lambda>d. ns_assert (bd_count d = 0) (Inr (w\<lparr>bw_data := (bw_data w)(a := None)\<rparr>)))"

fun buf_create_from :: "32 word \<Rightarrow> nat list \<Rightarrow> buf_world \<Rightarrow> (nat \<times> buf_world) result" where
  "buf_create_from dataSize [] w = Inr (buf_allocate dataSize (w\<lparr>bw_free := []\<rparr>))"
| "buf_create_from dataSize (a # as) w =
     deref (bw_data w a) (\<lambda>d.
       if bd_size d \<ge> dataSize then Inr (a, (bw_put a (d\<lparr>bd_count := 1\<rparr>) w)\<lparr>bw_free := as\<rparr>)
       else res_bind (buf_deallocate a w) (buf_create_from dataSize as))"

definition buf_create :: "32 word \<Rightarrow> buf_world \<Rightarrow> (nat \<times> buf_world) result" where
  "buf_create dataSize w = buf_create_from dataSize (bw_free w) w"

definition buf_recycle :: "nat \<Rightarrow> buf_world \<Rightarrow> buf_world result" where
  "buf_recycle a w =
     deref (bw_data w a) (\<lambda>d. ns_assert (bd_count d = 0)
       (let w = w\<lparr>bw_maxSize := max (bw_maxSize w) (bd_size d)\<rparr>
        in if bd_size d < bw_maxSize w \<or> length (bw_free w) > 1000 then buf_deallocate a w
           else Inr (w\<lparr>bw_free := a # bw_free w\<rparr>)))"

text \<open>A buffer that lets go of its block.\<close>

definition buf_release :: "nat \<Rightarrow> buf_world \<Rightarrow> buf_world result" where
  "buf_release a w =
     deref (bw_data w a) (\<lambda>d.
       let d = d\<lparr>bd_count := bd_count d - 1\<rparr>; w = bw_put a d w
       in if bd_count d = 0 then buf_recycle a w else Inr w)"

section \<open>Memory\<close>

definition splice :: "nat \<Rightarrow> 'a list \<Rightarrow> 'a list \<Rightarrow> 'a list" where
  "splice i ys xs = take i xs @ ys @ drop (i + length ys) xs"

definition mem_read :: "nat \<Rightarrow> 32 word \<Rightarrow> 32 word \<Rightarrow> buf_world \<Rightarrow> bytes result" where
  "mem_read a pos n w =
     deref (bw_data w a) (\<lambda>d.
       if n = 0 \<or> unat pos + unat n \<le> length (bd_bytes d) then Inr (take (unat n) (drop (unat pos) (bd_bytes d)))
       else Inl Undefined_behaviour)"

definition mem_write :: "nat \<Rightarrow> 32 word \<Rightarrow> bytes \<Rightarrow> buf_world \<Rightarrow> buf_world result" where
  "mem_write a pos bs w =
     deref (bw_data w a) (\<lambda>d.
       if bs = [] \<or> unat pos + length bs \<le> length (bd_bytes d)
       then Inr (bw_put a (d\<lparr>bd_bytes := splice (unat pos) bs (bd_bytes d)\<rparr>) w)
       else Inl Undefined_behaviour)"

section \<open>Buffers\<close>

record buf =
  b_data :: nat
  b_maxZeroAreaStart :: "32 word"
  b_zeroAreaStart :: "32 word"
  b_zeroAreaEnd :: "32 word"
  b_start :: "32 word"
  b_end :: "32 word"

definition buf_size :: "buf \<Rightarrow> 32 word" where
  "buf_size b = b_end b - b_start b"

definition buf_internal_size :: "buf \<Rightarrow> 32 word" where
  "buf_internal_size b = b_zeroAreaStart b - b_start b + b_end b - b_zeroAreaEnd b"

definition buf_internal_end :: "buf \<Rightarrow> 32 word" where
  "buf_internal_end b = b_end b - (b_zeroAreaEnd b - b_zeroAreaStart b)"

text \<open>What \<open>CheckInternalState\<close> checks when its code, which is compiled out, is enabled.\<close>

definition buf_check_internal_state :: "buf_block \<Rightarrow> buf \<Rightarrow> bool" where
  "buf_check_internal_state d b \<longleftrightarrow>
     (let offsetsOk = (b_start b \<le> b_zeroAreaStart b \<and> b_zeroAreaStart b \<le> b_zeroAreaEnd b \<and> b_zeroAreaEnd b \<le> b_end b);
          dirtyOk = (b_start b \<ge> bd_dirtyStart d \<and> b_end b \<le> bd_dirtyEnd d);
          internalSizeOk = (b_end b - (b_zeroAreaEnd b - b_zeroAreaStart b) \<le> bd_size d \<and> b_start b \<le> bd_size d \<and>
            b_zeroAreaStart b \<le> bd_size d)
      in bd_count d > 0 \<and> offsetsOk \<and> dirtyOk \<and> internalSizeOk)"

definition buf_initialize :: "32 word \<Rightarrow> buf_world \<Rightarrow> (buf \<times> buf_world) result" where
  "buf_initialize zeroSize w =
     res_bind (buf_create 0 w) (\<lambda>(a, w). deref (bw_data w a) (\<lambda>d.
       let start = min (bd_size d) (bw_recommendedStart w)
       in Inr (\<lparr>b_data = a, b_maxZeroAreaStart = start, b_zeroAreaStart = start,
                b_zeroAreaEnd = start + zeroSize, b_start = start, b_end = start + zeroSize\<rparr>,
               bw_put a (d\<lparr>bd_dirtyStart := start, bd_dirtyEnd := start + zeroSize\<rparr>) w)))"

definition buf_copy :: "buf \<Rightarrow> buf_world \<Rightarrow> (buf \<times> buf_world) result" where
  "buf_copy b w =
     deref (bw_data w (b_data b)) (\<lambda>d.
       Inr (b\<lparr>b_maxZeroAreaStart := b_zeroAreaStart b\<rparr>, bw_put (b_data b) (d\<lparr>bd_count := bd_count d + 1\<rparr>) w))"

definition buf_recommend :: "buf \<Rightarrow> buf_world \<Rightarrow> buf_world" where
  "buf_recommend b w = w\<lparr>bw_recommendedStart := max (bw_recommendedStart w) (b_maxZeroAreaStart b)\<rparr>"

text \<open>\<open>b = o\<close>\<close>

definition buf_assign :: "buf \<Rightarrow> buf \<Rightarrow> buf_world \<Rightarrow> (buf \<times> buf_world) result" where
  "buf_assign b oth w =
     res_bind
       (if b_data b \<noteq> b_data oth then
          res_bind (buf_release (b_data b) w) (\<lambda>w.
          deref (bw_data w (b_data oth)) (\<lambda>d.
            Inr (bw_put (b_data oth) (d\<lparr>bd_count := bd_count d + 1\<rparr>) w)))
        else Inr w)
       (\<lambda>w. Inr (oth, buf_recommend b w))"

definition buf_destroy :: "buf \<Rightarrow> buf_world \<Rightarrow> buf_world result" where
  "buf_destroy b w = buf_release (b_data b) (buf_recommend b w)"

definition buf_note_zero :: "buf \<Rightarrow> buf" where
  "buf_note_zero b = b\<lparr>b_maxZeroAreaStart := max (b_maxZeroAreaStart b) (b_zeroAreaStart b)\<rparr>"

text \<open>All offsets moved by the same distance.\<close>

definition buf_shift :: "32 word \<Rightarrow> buf \<Rightarrow> buf" where
  "buf_shift delta b =
     b\<lparr>b_start := b_start b + delta, b_zeroAreaStart := b_zeroAreaStart b + delta,
       b_zeroAreaEnd := b_zeroAreaEnd b + delta, b_end := b_end b + delta\<rparr>"

definition bw_dirty :: "nat \<Rightarrow> buf \<Rightarrow> buf_world \<Rightarrow> buf_world result" where
  "bw_dirty a b w =
     deref (bw_data w a) (\<lambda>d. Inr (bw_put a (d\<lparr>bd_dirtyStart := b_start b, bd_dirtyEnd := b_end b\<rparr>) w))"

text \<open>The move to a new block, in which the stored bytes begin at \<open>pos\<close>.\<close>

definition buf_move :: "32 word \<Rightarrow> 32 word \<Rightarrow> buf \<Rightarrow> buf_world \<Rightarrow> (nat \<times> buf_world) result" where
  "buf_move newSize pos b w =
     res_bind (buf_create newSize w) (\<lambda>(a, w).
     res_bind (mem_read (b_data b) (b_start b) (buf_internal_size b) w) (\<lambda>bs.
     res_bind (mem_write a pos bs w) (\<lambda>w.
     res_bind (buf_release (b_data b) w) (\<lambda>w. Inr (a, w)))))"

definition buf_add_start :: "32 word \<Rightarrow> buf \<Rightarrow> buf_world \<Rightarrow> (buf \<times> buf_world) result" where
  "buf_add_start start b w =
     deref (bw_data w (b_data b)) (\<lambda>d.
     (let isDirty = (bd_count d > 1 \<and> b_start b > bd_dirtyStart d)
      in res_map (\<lambda>(b, w). (buf_note_zero b, w))
        (if b_start b \<ge> start \<and> \<not> isDirty then
           ns_assert (bd_count d = 1 \<or> b_start b = bd_dirtyStart d)
             (let b = b\<lparr>b_start := b_start b - start\<rparr>
              in Inr (b, bw_put (b_data b) (d\<lparr>bd_dirtyStart := b_start b\<rparr>) w))
         else
           res_bind (buf_move (buf_internal_size b + start) start b w) (\<lambda>(a, w).
             (let b = buf_shift (start - b_start b) (b\<lparr>b_data := a\<rparr>);
                  b = b\<lparr>b_start := b_start b - start\<rparr>
              in res_bind (bw_dirty a b w) (\<lambda>w. Inr (b, w)))))))"

definition buf_add_end :: "32 word \<Rightarrow> buf \<Rightarrow> buf_world \<Rightarrow> (buf \<times> buf_world) result" where
  "buf_add_end end b w =
     deref (bw_data w (b_data b)) (\<lambda>d.
     (let isDirty = (bd_count d > 1 \<and> b_end b < bd_dirtyEnd d)
      in res_map (\<lambda>(b, w). (buf_note_zero b, w))
        (if buf_internal_end b + end \<le> bd_size d \<and> \<not> isDirty then
           ns_assert (bd_count d = 1 \<or> b_end b = bd_dirtyEnd d)
             (let b = b\<lparr>b_end := b_end b + end\<rparr>
              in Inr (b, bw_put (b_data b) (d\<lparr>bd_dirtyEnd := b_end b\<rparr>) w))
         else
           res_bind (buf_move (buf_internal_size b + end) 0 b w) (\<lambda>(a, w).
             (let b = buf_shift (- b_start b) (b\<lparr>b_data := a\<rparr>);
                  b = b\<lparr>b_end := b_end b + end\<rparr>
              in res_bind (bw_dirty a b w) (\<lambda>w. Inr (b, w)))))))"

definition buf_remove_start :: "32 word \<Rightarrow> buf \<Rightarrow> buf result" where
  "buf_remove_start start b =
     res_map buf_note_zero
       (let newStart = b_start b + start
        in if newStart \<le> b_zeroAreaStart b then Inr (b\<lparr>b_start := newStart\<rparr>)
           else if newStart \<le> b_zeroAreaEnd b then
             (let delta = newStart - b_zeroAreaStart b
              in Inr (b\<lparr>b_start := b_zeroAreaStart b, b_zeroAreaEnd := b_zeroAreaEnd b - delta,
                        b_end := b_end b - delta\<rparr>))
           else if newStart \<le> b_end b then
             ns_assert (b_end b \<ge> start)
               (let zeroSize = b_zeroAreaEnd b - b_zeroAreaStart b; s = newStart - zeroSize
                in Inr (b\<lparr>b_start := s, b_end := b_end b - zeroSize, b_zeroAreaStart := s, b_zeroAreaEnd := s\<rparr>))
           else
             (let e = b_end b - (b_zeroAreaEnd b - b_zeroAreaStart b)
              in Inr (b\<lparr>b_end := e, b_start := e, b_zeroAreaEnd := e, b_zeroAreaStart := e\<rparr>)))"

definition buf_remove_end :: "32 word \<Rightarrow> buf \<Rightarrow> buf" where
  "buf_remove_end end b =
     buf_note_zero
       (let newEnd = b_end b - min end (b_end b - b_start b)
        in if newEnd > b_zeroAreaEnd b then b\<lparr>b_end := newEnd\<rparr>
           else if newEnd > b_zeroAreaStart b then b\<lparr>b_end := newEnd, b_zeroAreaEnd := newEnd\<rparr>
           else if newEnd > b_start b then
             b\<lparr>b_end := newEnd, b_zeroAreaEnd := newEnd, b_zeroAreaStart := newEnd\<rparr>
           else b\<lparr>b_end := b_start b, b_zeroAreaEnd := b_start b, b_zeroAreaStart := b_start b\<rparr>)"

text \<open>Results are returned without a copy.\<close>

definition buf_fragment :: "32 word \<Rightarrow> 32 word \<Rightarrow> buf \<Rightarrow> buf_world \<Rightarrow> (buf \<times> buf_world) result" where
  "buf_fragment start len b w =
     res_bind (buf_copy b w) (\<lambda>(tmp, w).
     res_bind (buf_remove_start start tmp) (\<lambda>tmp.
       Inr (buf_remove_end (buf_size b - (start + len)) tmp, w)))"

end
