(* ===== verification/Buffer_Iterator.thy ===== *)
theory Buffer_Iterator
  imports Buffer_Store
begin

unbundle bit_operations_syntax

text \<open>
  \<open>Buffer::Iterator\<close> (\<open>src/network/model/buffer.h\<close>, \<open>buffer.cc\<close>) and the operations of \<open>Buffer\<close> that use it:
  full copies, appending a buffer, \<open>CopyData\<close>, \<open>Serialize\<close> and \<open>Deserialize\<close>. The host is
  little-endian, which matters for the words of a serialised buffer.
\<close>

section \<open>Positions\<close>

record buf_iter =
  it_zeroStart :: "32 word"
  it_zeroEnd :: "32 word"
  it_dataStart :: "32 word"
  it_dataEnd :: "32 word"
  it_current :: "32 word"
  it_data :: nat

definition it_construct :: "buf \<Rightarrow> 32 word \<Rightarrow> buf_iter" where
  "it_construct b current =
     \<lparr>it_zeroStart = b_zeroAreaStart b, it_zeroEnd = b_zeroAreaEnd b, it_dataStart = b_start b,
      it_dataEnd = b_end b, it_current = current, it_data = b_data b\<rparr>"

definition it_begin :: "buf \<Rightarrow> buf_iter" where
  "it_begin b = it_construct b (b_start b)"

definition it_end :: "buf \<Rightarrow> buf_iter" where
  "it_end b = it_construct b (b_end b)"

definition it_move :: "32 word \<Rightarrow> buf_iter \<Rightarrow> buf_iter" where
  "it_move n it = it\<lparr>it_current := it_current it + n\<rparr>"

definition it_next :: "32 word \<Rightarrow> buf_iter \<Rightarrow> buf_iter result" where
  "it_next delta it = ns_assert (it_current it + delta \<le> it_dataEnd it) (Inr (it_move delta it))"

definition it_prev :: "32 word \<Rightarrow> buf_iter \<Rightarrow> buf_iter result" where
  "it_prev delta it =
     ns_assert (it_current it \<ge> delta) (Inr (it\<lparr>it_current := it_current it - delta\<rparr>))"

definition it_distance :: "buf_iter \<Rightarrow> buf_iter \<Rightarrow> 32 word result" where
  "it_distance it oth =
     ns_assert (it_data it = it_data oth)
       (let diff = it_current it - it_current oth in Inr (if sint diff < 0 then - diff else diff))"

definition it_is_end :: "buf_iter \<Rightarrow> bool" where
  "it_is_end it \<longleftrightarrow> it_current it = it_dataEnd it"

definition it_is_start :: "buf_iter \<Rightarrow> bool" where
  "it_is_start it \<longleftrightarrow> it_current it = it_dataStart it"

definition it_size :: "buf_iter \<Rightarrow> 32 word" where
  "it_size it = it_dataEnd it - it_dataStart it"

definition it_remaining :: "buf_iter \<Rightarrow> 32 word" where
  "it_remaining it = it_dataEnd it - it_current it"

definition it_check_no_zero :: "32 word \<Rightarrow> 32 word \<Rightarrow> buf_iter \<Rightarrow> bool" where
  "it_check_no_zero s e it \<longleftrightarrow>
     \<not> (s < it_dataStart it \<or> e > it_dataEnd it \<or>
        e > it_zeroStart it \<and> s < it_zeroEnd it \<and> it_zeroEnd it \<noteq> it_zeroStart it \<and> s \<noteq> e)"

definition it_check :: "32 word \<Rightarrow> buf_iter \<Rightarrow> bool" where
  "it_check i it \<longleftrightarrow>
     i \<ge> it_dataStart it \<and> \<not> (i \<ge> it_zeroStart it \<and> i < it_zeroEnd it) \<and> i \<le> it_dataEnd it"

text \<open>Where the current position lies in the block, past the zero area.\<close>

definition it_behind :: "buf_iter \<Rightarrow> 32 word" where
  "it_behind it = it_current it - (it_zeroEnd it - it_zeroStart it)"

section \<open>Writing\<close>

definition it_write_u8 :: "8 word \<Rightarrow> buf_iter \<times> buf_world \<Rightarrow> (buf_iter \<times> buf_world) result" where
  "it_write_u8 v iw =
     (case iw of (it, w) \<Rightarrow>
       ns_assert (it_check (it_current it) it)
         (res_map (Pair (it_move 1 it))
           (mem_write (it_data it) (if it_current it < it_zeroStart it then it_current it else it_behind it) [v] w)))"

fun it_write_u8s :: "bytes \<Rightarrow> buf_iter \<times> buf_world \<Rightarrow> (buf_iter \<times> buf_world) result" where
  "it_write_u8s [] iw = Inr iw"
| "it_write_u8s (v # vs) iw = res_bind (it_write_u8 v iw) (it_write_u8s vs)"

definition it_fill :: "8 word \<Rightarrow> 32 word \<Rightarrow> buf_iter \<times> buf_world \<Rightarrow> (buf_iter \<times> buf_world) result" where
  "it_fill v len iw =
     (case iw of (it, w) \<Rightarrow>
       ns_assert (it_check_no_zero (it_current it) (it_current it + len) it)
         (res_map (Pair (it_move len it))
           (mem_write (it_data it) (if it_current it \<le> it_zeroStart it then it_current it else it_behind it)
             (replicate (unat len) v) w)))"

text \<open>The lowest bytes of a word, the least or the most significant one first.\<close>

definition le_bytes :: "nat \<Rightarrow> 'a::len word \<Rightarrow> bytes" where
  "le_bytes n x = map (\<lambda>i. ucast (drop_bit (8 * i) x AND 0xff)) [0..<n]"

definition be_bytes :: "nat \<Rightarrow> 'a::len word \<Rightarrow> bytes" where
  "be_bytes n x = rev (le_bytes n x)"

definition it_write_u16 :: "16 word \<Rightarrow> buf_iter \<times> buf_world \<Rightarrow> (buf_iter \<times> buf_world) result" where
  "it_write_u16 x = it_write_u8s (le_bytes 2 x)"

definition it_write_u32 :: "32 word \<Rightarrow> buf_iter \<times> buf_world \<Rightarrow> (buf_iter \<times> buf_world) result" where
  "it_write_u32 x = it_write_u8s (le_bytes 4 x)"

definition it_write_u64 :: "64 word \<Rightarrow> buf_iter \<times> buf_world \<Rightarrow> (buf_iter \<times> buf_world) result" where
  "it_write_u64 x = it_write_u8s (le_bytes 8 x)"

definition it_write_hton_u64 :: "64 word \<Rightarrow> buf_iter \<times> buf_world \<Rightarrow> (buf_iter \<times> buf_world) result" where
  "it_write_hton_u64 x = it_write_u8s (be_bytes 8 x)"

definition it_write_htolsb_u16 :: "16 word \<Rightarrow> buf_iter \<times> buf_world \<Rightarrow> (buf_iter \<times> buf_world) result" where
  "it_write_htolsb_u16 x = it_write_u8s (le_bytes 2 x)"

definition it_write_htolsb_u32 :: "32 word \<Rightarrow> buf_iter \<times> buf_world \<Rightarrow> (buf_iter \<times> buf_world) result" where
  "it_write_htolsb_u32 x = it_write_u8s (le_bytes 4 x)"

definition it_write_htolsb_u64 :: "64 word \<Rightarrow> buf_iter \<times> buf_world \<Rightarrow> (buf_iter \<times> buf_world) result" where
  "it_write_htolsb_u64 x = it_write_u8s (le_bytes 8 x)"

text \<open>\<open>WriteHtonU16\<close> and \<open>WriteHtonU32\<close>: one check, then the bytes through a pointer.\<close>

definition it_write_direct :: "bytes \<Rightarrow> buf_iter \<times> buf_world \<Rightarrow> (buf_iter \<times> buf_world) result" where
  "it_write_direct bs iw =
     (case iw of (it, w) \<Rightarrow>
       let n = of_nat (length bs)
       in ns_assert (it_check_no_zero (it_current it) (it_current it + n) it)
         (res_map (Pair (it_move n it))
           (mem_write (it_data it) (if it_current it + n \<le> it_zeroStart it then it_current it else it_behind it)
             bs w)))"

definition it_write_hton_u16 :: "16 word \<Rightarrow> buf_iter \<times> buf_world \<Rightarrow> (buf_iter \<times> buf_world) result" where
  "it_write_hton_u16 x = it_write_direct (be_bytes 2 x)"

definition it_write_hton_u32 :: "32 word \<Rightarrow> buf_iter \<times> buf_world \<Rightarrow> (buf_iter \<times> buf_world) result" where
  "it_write_hton_u32 x = it_write_direct (be_bytes 4 x)"

text \<open>The check of \<open>Write\<close> is given the size as the end position.\<close>

definition it_write :: "bytes \<Rightarrow> buf_iter \<times> buf_world \<Rightarrow> (buf_iter \<times> buf_world) result" where
  "it_write bs iw =
     (case iw of (it, w) \<Rightarrow>
       let n = of_nat (length bs)
       in ns_assert (it_check_no_zero (it_current it) n it)
         (res_map (Pair (it_move n it))
           (mem_write (it_data it) (if it_current it \<le> it_zeroStart it then it_current it else it_behind it) bs w)))"

text \<open>\<open>Write(start, end)\<close>: the stored bytes before the zero area, the zeros, the stored bytes after it.\<close>

definition it_write_range ::
    "buf_iter \<Rightarrow> buf_iter \<Rightarrow> buf_iter \<times> buf_world \<Rightarrow> (buf_iter \<times> buf_world) result" where
  "it_write_range s e iw =
     (case iw of (it, w) \<Rightarrow>
       ns_assert (it_data s = it_data e) (ns_assert (it_current s \<le> it_current e)
      (ns_assert (it_zeroStart s = it_zeroStart e) (ns_assert (it_zeroEnd s = it_zeroEnd e)
      (ns_assert (it_data it \<noteq> it_data s)
        (let size = it_current e - it_current s
         in ns_assert (it_check_no_zero (it_current it) (it_current it + size) it)
          (res_bind
            (if it_current s \<le> it_zeroStart s then
               (let n = min size (it_zeroStart s - it_current s)
                in res_bind (mem_read (it_data s) (it_current s) n w) (\<lambda>bs.
                   res_bind (mem_write (it_data it) (it_current it) bs w) (\<lambda>w.
                     Inr (size - n, it_move n s, it_move n it, w))))
             else Inr (size, s, it, w)) (\<lambda>(size, s, it, w).
           res_bind
            (if it_current s \<le> it_zeroEnd s then
               (let n = min size (it_zeroEnd s - it_current s)
                in res_bind (mem_write (it_data it) (it_current it) (replicate (unat n) 0) w) (\<lambda>w.
                     Inr (size - n, it_move n s, it_move n it, w)))
             else Inr (size, s, it, w)) (\<lambda>(size, s, it, w).
              (let n = min size (it_dataEnd s - it_current s)
               in res_bind (mem_read (it_data s) (it_behind s) n w) (\<lambda>bs.
                  res_bind (mem_write (it_data it) (it_current it) bs w) (\<lambda>w.
                    Inr (it_move n it, w)))))))))))))"

section \<open>Reading\<close>

definition it_peek :: "buf_iter \<Rightarrow> buf_world \<Rightarrow> 8 word result" where
  "it_peek it w =
     ns_assert (it_current it \<ge> it_dataStart it \<and> it_current it < it_dataEnd it)
       (if it_current it < it_zeroStart it then res_map hd (mem_read (it_data it) (it_current it) 1 w)
        else if it_current it < it_zeroEnd it then Inr 0
        else res_map hd (mem_read (it_data it) (it_behind it) 1 w))"

definition it_read_u8 :: "buf_iter \<Rightarrow> buf_world \<Rightarrow> (8 word \<times> buf_iter) result" where
  "it_read_u8 it w = res_map (\<lambda>v. (v, it_move 1 it)) (it_peek it w)"

fun it_read :: "nat \<Rightarrow> buf_iter \<Rightarrow> buf_world \<Rightarrow> (bytes \<times> buf_iter) result" where
  "it_read 0 it w = Inr ([], it)"
| "it_read (Suc n) it w =
     res_bind (it_read_u8 it w) (\<lambda>(v, it). res_map (\<lambda>(vs, it). (v # vs, it)) (it_read n it w))"

definition be_word :: "bytes \<Rightarrow> 'a::len word" where
  "be_word bs = fold (\<lambda>b x. push_bit 8 x OR ucast b) bs 0"

definition le_word :: "bytes \<Rightarrow> 'a::len word" where
  "le_word bs = be_word (rev bs)"

definition it_read_u16 :: "buf_iter \<Rightarrow> buf_world \<Rightarrow> (16 word \<times> buf_iter) result" where
  "it_read_u16 it w = res_map (\<lambda>(bs, it). (le_word bs, it)) (it_read 2 it w)"

definition it_read_u32 :: "buf_iter \<Rightarrow> buf_world \<Rightarrow> (32 word \<times> buf_iter) result" where
  "it_read_u32 it w = res_map (\<lambda>(bs, it). (le_word bs, it)) (it_read 4 it w)"

definition it_read_u64 :: "buf_iter \<Rightarrow> buf_world \<Rightarrow> (64 word \<times> buf_iter) result" where
  "it_read_u64 it w = res_map (\<lambda>(bs, it). (le_word bs, it)) (it_read 8 it w)"

definition it_read_lsbtoh_u16 :: "buf_iter \<Rightarrow> buf_world \<Rightarrow> (16 word \<times> buf_iter) result" where
  "it_read_lsbtoh_u16 it w = res_map (\<lambda>(bs, it). (le_word bs, it)) (it_read 2 it w)"

definition it_read_lsbtoh_u32 :: "buf_iter \<Rightarrow> buf_world \<Rightarrow> (32 word \<times> buf_iter) result" where
  "it_read_lsbtoh_u32 it w = res_map (\<lambda>(bs, it). (le_word bs, it)) (it_read 4 it w)"

definition it_read_lsbtoh_u64 :: "buf_iter \<Rightarrow> buf_world \<Rightarrow> (64 word \<times> buf_iter) result" where
  "it_read_lsbtoh_u64 it w = res_map (\<lambda>(bs, it). (le_word bs, it)) (it_read 8 it w)"

text \<open>\<open>Read(start, size)\<close> copies to another iterator.\<close>

definition it_read_to :: "32 word \<Rightarrow> buf_iter \<Rightarrow> buf_iter \<times> buf_world \<Rightarrow> (buf_iter \<times> buf_world) result" where
  "it_read_to n it dst = res_bind (it_next n it) (\<lambda>e. it_write_range it e dst)"

definition it_read_ntoh_u64 :: "buf_iter \<Rightarrow> buf_world \<Rightarrow> (64 word \<times> buf_iter) result" where
  "it_read_ntoh_u64 it w = res_map (\<lambda>(bs, it). (be_word bs, it)) (it_read 8 it w)"

text \<open>\<open>ReadNtohU16\<close> and \<open>ReadNtohU32\<close> read through a pointer unless the zero area is involved.\<close>

definition it_read_direct :: "nat \<Rightarrow> buf_iter \<Rightarrow> buf_world \<Rightarrow> (bytes \<times> buf_iter) result" where
  "it_read_direct n it w =
     (if it_current it + of_nat n \<le> it_zeroStart it then
        res_map (\<lambda>bs. (bs, it_move (of_nat n) it)) (mem_read (it_data it) (it_current it) (of_nat n) w)
      else if it_current it \<ge> it_zeroEnd it then
        res_map (\<lambda>bs. (bs, it_move (of_nat n) it)) (mem_read (it_data it) (it_behind it) (of_nat n) w)
      else it_read n it w)"

definition it_read_ntoh_u16 :: "buf_iter \<Rightarrow> buf_world \<Rightarrow> (16 word \<times> buf_iter) result" where
  "it_read_ntoh_u16 it w = res_map (\<lambda>(bs, it). (be_word bs, it)) (it_read_direct 2 it w)"

definition it_read_ntoh_u32 :: "buf_iter \<Rightarrow> buf_world \<Rightarrow> (32 word \<times> buf_iter) result" where
  "it_read_ntoh_u32 it w = res_map (\<lambda>(bs, it). (be_word bs, it)) (it_read_direct 4 it w)"

text \<open>The Internet checksum.\<close>

fun it_sum_u16 :: "nat \<Rightarrow> 32 word \<Rightarrow> buf_iter \<Rightarrow> buf_world \<Rightarrow> (32 word \<times> buf_iter) result" where
  "it_sum_u16 0 s it w = Inr (s, it)"
| "it_sum_u16 (Suc n) s it w =
     res_bind (it_read_u16 it w) (\<lambda>(v, it). it_sum_u16 n (s + ucast v) it w)"

function checksum_fold :: "32 word \<Rightarrow> 32 word" where
  "checksum_fold s =
     (if drop_bit 16 s \<noteq> 0 then checksum_fold ((s AND 0xffff) + drop_bit 16 s) else s)"
  by auto

lemma unat_drop_16: "unat (drop_bit 16 s) = unat s div 65536" for s :: "32 word"
proof -
  have "drop_bit 16 s = s div 65536"
    by (simp add: drop_bit_eq_div)
  then show ?thesis
    by (simp add: unat_div_distrib)
qed

lemma checksum_fold_step:
  "unat ((s AND 0xffff) + drop_bit 16 s) = unat s mod 65536 + unat s div 65536" for s :: "32 word"
proof -
  have "s AND 0xffff = take_bit 16 s"
    by (simp add: take_bit_eq_mask mask_eq_exp_minus_1)
  then have a: "unat (s AND 0xffff) = unat s mod 65536"
    by (simp only: unsigned_take_bit_eq) (simp add: take_bit_eq_mod)
  have "unat s < 2 ^ 32"
    using unsigned_less [of s] by simp
  then have "unat s mod 65536 + unat s div 65536 < 2 ^ 32"
    using mod_less_divisor [of 65536 "unat s"] by linarith
  then show ?thesis
    by (simp add: unat_word_ariths a unat_drop_16)
qed

termination checksum_fold
proof (relation "measure unat")
  fix s :: "32 word"
  assume "drop_bit 16 s \<noteq> 0"
  then have "unat (drop_bit 16 s) \<noteq> 0"
    by (simp only: unsigned_eq_0_iff not_False_eq_True)
  then have "unat s div 65536 > 0"
    by (simp only: unat_drop_16 neq0_conv)
  then have "unat s mod 65536 + unat s div 65536 < unat s"
    using div_mult_mod_eq [of "unat s" 65536] by linarith
  then show "((s AND 0xffff) + drop_bit 16 s, s) \<in> measure unat"
    by (simp only: in_measure checksum_fold_step)
qed (rule wf_measure)

declare checksum_fold.simps [simp del]

definition it_checksum_from :: "32 word \<Rightarrow> 16 word \<Rightarrow> buf_iter \<Rightarrow> buf_world \<Rightarrow> (16 word \<times> buf_iter) result" where
  "it_checksum_from initialChecksum sz it w =
     res_bind (it_sum_u16 (unat sz div 2) initialChecksum it w) (\<lambda>(s, it).
     res_bind (if sz AND 1 \<noteq> 0 then res_map (\<lambda>(v, it). (s + ucast v, it)) (it_read_u8 it w) else Inr (s, it))
       (\<lambda>(s, it). Inr (ucast (NOT (checksum_fold s)), it)))"

definition it_checksum :: "16 word \<Rightarrow> buf_iter \<Rightarrow> buf_world \<Rightarrow> (16 word \<times> buf_iter) result" where
  "it_checksum sz it w = it_checksum_from 0 sz it w"

section \<open>Operations of buffers that use iterators\<close>

definition buf_full_copy :: "buf \<Rightarrow> buf_world \<Rightarrow> (buf \<times> buf_world) result" where
  "buf_full_copy b w =
     (let zeros = b_zeroAreaEnd b - b_zeroAreaStart b; dataStart = b_zeroAreaStart b - b_start b;
          dataEnd = b_end b - b_zeroAreaEnd b
      in if zeros \<noteq> 0 then
        res_bind (buf_initialize 0 w) (\<lambda>(tmp, w).
        res_bind (buf_add_start zeros tmp w) (\<lambda>(tmp, w).
        res_bind (it_fill 0 zeros (it_begin tmp, w)) (\<lambda>(_, w).
        res_bind (buf_add_start dataStart tmp w) (\<lambda>(tmp, w).
        res_bind (mem_read (b_data b) (b_start b) dataStart w) (\<lambda>bs.
        res_bind (it_write bs (it_begin tmp, w)) (\<lambda>(_, w).
        res_bind (buf_add_end dataEnd tmp w) (\<lambda>(tmp, w).
        res_bind (it_prev dataEnd (it_end tmp)) (\<lambda>i.
        res_bind (mem_read (b_data b) (b_zeroAreaStart b) dataEnd w) (\<lambda>bs.
        res_bind (it_write bs (i, w)) (\<lambda>(_, w). Inr (tmp, w)))))))))))
      else buf_copy b w)"

definition buf_append :: "buf \<Rightarrow> buf \<Rightarrow> buf_world \<Rightarrow> (buf \<times> buf_world) result" where
  "buf_append oth b w =
     deref (bw_data w (b_data b)) (\<lambda>d.
       if bd_count d = 1 \<and> (b_end b = b_zeroAreaEnd b \<or> b_zeroAreaStart b = b_zeroAreaEnd b) \<and>
          b_end b = bd_dirtyEnd d \<and> b_start oth = b_zeroAreaStart oth \<and>
          b_zeroAreaEnd oth - b_zeroAreaStart oth > 0 then
         (let b = (if b_zeroAreaStart b = b_zeroAreaEnd b then b\<lparr>b_zeroAreaStart := b_end b\<rparr> else b);
              zeroSize = b_zeroAreaEnd oth - b_zeroAreaStart oth;
              b = b\<lparr>b_zeroAreaEnd := b_end b + zeroSize, b_end := b_end b + zeroSize\<rparr>;
              endData = b_end oth - b_zeroAreaEnd oth
          in res_bind (buf_add_end endData b (bw_put (b_data b) (d\<lparr>bd_dirtyEnd := b_zeroAreaEnd b\<rparr>) w)) (\<lambda>(b, w).
             res_bind (it_prev endData (it_end b)) (\<lambda>dst.
             res_bind (it_prev endData (it_end oth)) (\<lambda>src.
             res_map (\<lambda>(_, w). (b, w)) (it_write_range src (it_end oth) (dst, w))))))
       else
         res_bind (buf_full_copy b w) (\<lambda>(tmp, w).
         res_bind (buf_assign b tmp w) (\<lambda>(b, w).
         res_bind (buf_destroy tmp w) (\<lambda>w.
         res_bind (buf_add_end (buf_size oth) b w) (\<lambda>(b, w).
         res_bind (it_prev (buf_size oth) (it_end b)) (\<lambda>dst.
         res_map (\<lambda>(_, w). (b, w)) (it_write_range (it_begin oth) (it_end oth) (dst, w))))))))"

text \<open>\<open>TransformIntoRealBuffer\<close> and \<open>PeekData\<close>, which gives a pointer to the stored bytes.\<close>

definition buf_make_real :: "buf \<Rightarrow> buf_world \<Rightarrow> (buf \<times> buf_world) result" where
  "buf_make_real b w =
     res_bind (buf_full_copy b w) (\<lambda>(tmp, w).
     res_bind (buf_assign b tmp w) (\<lambda>(b, w).
     res_bind (buf_destroy tmp w) (\<lambda>w. Inr (b, w))))"

definition buf_peek_data :: "buf \<Rightarrow> buf_world \<Rightarrow> ((nat \<times> 32 word) \<times> buf \<times> buf_world) result" where
  "buf_peek_data b w = res_bind (buf_make_real b w) (\<lambda>(b, w). Inr ((b_data b, b_start b), b, w))"

text \<open>The zeros are written from an array of 1000 bytes.\<close>

function zero_chunks :: "32 word \<Rightarrow> bytes" where
  "zero_chunks left =
     (if left > 0 then (let n = min left 1000 in replicate (unat n) 0 @ zero_chunks (left - n)) else [])"
  by auto

termination zero_chunks
proof (relation "measure unat")
  fix left n :: "32 word"
  assume "left > 0" "n = min left 1000"
  then have "n \<le> left" "0 < n"
    by (auto simp: min_def)
  then show "(left - n, left) \<in> measure unat"
    by (simp add: unat_sub word_le_nat_alt word_less_nat_alt)
qed (rule wf_measure)

declare zero_chunks.simps [simp del]

definition buf_copy_data :: "32 word \<Rightarrow> buf \<Rightarrow> buf_world \<Rightarrow> (32 word \<times> bytes) result" where
  "buf_copy_data sz b w =
     (let originalSize = sz
      in if sz > 0 then
        (let n = min (b_zeroAreaStart b - b_start b) sz
         in res_bind (mem_read (b_data b) (b_start b) n w) (\<lambda>out.
          (let sz = sz - n
           in if sz > 0 then
             (let n = min (b_zeroAreaEnd b - b_zeroAreaStart b) sz; out = out @ zero_chunks n; sz = sz - n
              in if sz > 0 then
                (let n = min (b_end b - b_zeroAreaEnd b) sz
                 in res_bind (mem_read (b_data b) (b_zeroAreaStart b) n w) (\<lambda>bs.
                    (let sz = sz - n in Inr (originalSize - sz, out @ bs))))
               else Inr (originalSize - sz, out))
            else Inr (originalSize - sz, out))))
       else Inr (originalSize - sz, []))"

definition buf_copy_data_os :: "32 word \<Rightarrow> buf \<Rightarrow> buf_world \<Rightarrow> bytes result" where
  "buf_copy_data_os sz b w =
     (if sz > 0 then
        (let n = min (b_zeroAreaStart b - b_start b) sz
         in res_bind (mem_read (b_data b) (b_start b) n w) (\<lambda>out.
           if sz > n then
             (let sz = sz - (b_zeroAreaStart b - b_start b); n = min (b_zeroAreaEnd b - b_zeroAreaStart b) sz;
                  out = out @ zero_chunks n
              in if sz > n then
                (let sz = sz - n; n = min (b_end b - b_zeroAreaEnd b) sz
                 in res_map (append out) (mem_read (b_data b) (b_zeroAreaStart b) n w))
               else Inr out)
           else Inr out))
      else Inr [])"

section \<open>Serialisation\<close>

definition round4 :: "32 word \<Rightarrow> 32 word" where
  "round4 n = (n + 3) AND NOT 3"

definition buf_serialized_size :: "buf \<Rightarrow> 32 word" where
  "buf_serialized_size b =
     4 + 4 + round4 (b_zeroAreaStart b - b_start b) + 4 + round4 (b_end b - b_zeroAreaEnd b)"

text \<open>\<open>out\<close> is the memory behind the pointer; a write past it is undefined behaviour. The padding is not written.\<close>

definition out_write :: "32 word \<Rightarrow> bytes \<Rightarrow> bytes \<Rightarrow> bytes result" where
  "out_write pos bs out =
     (if unat pos + length bs \<le> length out then Inr (splice (unat pos) bs out) else Inl Undefined_behaviour)"

definition buf_serialize :: "32 word \<Rightarrow> bytes \<Rightarrow> buf \<Rightarrow> buf_world \<Rightarrow> (32 word \<times> bytes) result" where
  "buf_serialize maxSize out b w =
     (let sz = 0; dataStartLength = b_zeroAreaStart b - b_start b; dataEndLength = b_end b - b_zeroAreaEnd b
      in if \<not> sz + 4 \<le> maxSize then Inr (0, out) else
        res_bind (out_write sz (le_bytes 4 (b_zeroAreaEnd b - b_zeroAreaStart b)) out) (\<lambda>out.
        (let sz = sz + 4 in if \<not> sz + 4 \<le> maxSize then Inr (0, out) else
        res_bind (out_write sz (le_bytes 4 dataStartLength) out) (\<lambda>out.
        (let sz = sz + 4 in if \<not> sz + round4 dataStartLength \<le> maxSize then Inr (0, out) else
        res_bind (mem_read (b_data b) (b_start b) dataStartLength w) (\<lambda>bs.
        res_bind (out_write sz bs out) (\<lambda>out.
        (let sz = sz + round4 dataStartLength in if \<not> sz + 4 \<le> maxSize then Inr (0, out) else
        res_bind (out_write sz (le_bytes 4 dataEndLength) out) (\<lambda>out.
        (let sz = sz + 4 in if \<not> sz + round4 dataEndLength \<le> maxSize then Inr (0, out) else
        res_bind (mem_read (b_data b) (b_zeroAreaStart b) dataEndLength w) (\<lambda>bs.
        res_bind (out_write sz bs out) (\<lambda>out. Inr (1, out)))))))))))))"

definition in_read :: "32 word \<Rightarrow> 32 word \<Rightarrow> bytes \<Rightarrow> bytes result" where
  "in_read pos n inp =
     (if unat pos + unat n \<le> length inp then Inr (take (unat n) (drop (unat pos) inp)) else Inl Undefined_behaviour)"

definition in_u32 :: "32 word \<Rightarrow> bytes \<Rightarrow> 32 word result" where
  "in_u32 pos inp = res_map le_word (in_read pos 4 inp)"

text \<open>On a buffer that was made without a block; the size includes the four bytes of the length before it.\<close>

definition buf_deserialize :: "bytes \<Rightarrow> 32 word \<Rightarrow> buf_world \<Rightarrow> (32 word \<times> buf \<times> buf_world) result" where
  "buf_deserialize inp sz w =
     (let check = sz - 4; p = 0
      in ns_assert (check \<ge> 4) (res_bind (in_u32 p inp) (\<lambda>zeroDataLength.
        (let p = p + 4; check = check - 4
         in res_bind (buf_initialize zeroDataLength w) (\<lambda>(b, w).
          ns_assert (check \<ge> 4) (res_bind (in_u32 p inp) (\<lambda>dataStartLength.
          (let p = p + 4; check = check - 4
           in res_bind (buf_add_start dataStartLength b w) (\<lambda>(b, w).
            ns_assert (check \<ge> dataStartLength) (res_bind (in_read p dataStartLength inp) (\<lambda>bs.
            res_bind (it_write bs (it_begin b, w)) (\<lambda>(_, w).
            (let p = p + round4 dataStartLength; check = check - round4 dataStartLength
             in ns_assert (check \<ge> 4) (res_bind (in_u32 p inp) (\<lambda>dataEndLength.
              (let p = p + 4; check = check - 4
               in res_bind (buf_add_end dataEndLength b w) (\<lambda>(b, w).
                ns_assert (check \<ge> dataEndLength) (res_bind (it_prev dataEndLength (it_end b)) (\<lambda>tmp.
                res_bind (in_read p dataEndLength inp) (\<lambda>bs.
                res_bind (it_write bs (tmp, w)) (\<lambda>(_, w).
                (let check = check - round4 dataEndLength
                 in ns_assert (check = 0) (Inr (if check \<noteq> 0 then 0 else 1, b, w))))))))))))))))))))))))"

end
