(* ===== verification/Buffer_Heap.thy ===== *)
theory Buffer_Heap
  imports Buffer_Iterator
begin

text \<open>
  The blocks of \<open>Buffer\<close> and their reference counts: \<open>heap_ok w A\<close>, where \<open>A\<close> is the multiset of the
  blocks that the buffers refer to, says that the count of every block is the number of its owners, and
  that the blocks without one are exactly those of the free list. The creation, the release and the
  writing of blocks keep it. A block is its \<open>core\<close> up to the count.
\<close>

section \<open>Word arithmetic below the limit\<close>

lemma unat32_less: "unat x < 4294967296" for x :: "32 word"
  using unsigned_less [of x] by simp

lemma unat32_add: "unat x + unat y < 4294967296 \<Longrightarrow> unat (x + y) = unat x + unat y" for x y :: "32 word"
  by (simp add: unat_word_ariths)

lemma unat32_sub: "unat y \<le> unat x \<Longrightarrow> unat (x - y) = unat x - unat y" for x y :: "32 word"
  by (simp add: unat_sub word_le_nat_alt)

lemma unat32_min: "unat (min x y) = min (unat x) (unat y)" for x y :: "32 word"
  by (simp add: min_def word_le_nat_alt)

lemma unat32_max: "unat (max x y) = max (unat x) (unat y)" for x y :: "32 word"
  by (simp add: max_def word_le_nat_alt)

section \<open>The invariant of the blocks\<close>

definition block_ok :: "buf_block \<Rightarrow> bool" where
  "block_ok d \<longleftrightarrow> length (bd_bytes d) = unat (bd_size d) \<and> unat (bd_size d) < 2 ^ 30"

definition heap_ok :: "buf_world \<Rightarrow> nat multiset \<Rightarrow> bool" where
  "heap_ok w A \<longleftrightarrow>
     (\<forall>a d. bw_data w a = Some d \<longrightarrow>
        a < bw_next w \<and> block_ok d \<and> unat (bd_count d) = count A a \<and> (a \<notin># A \<longleftrightarrow> a \<in> set (bw_free w))) \<and>
     distinct (bw_free w) \<and> (\<forall>a \<in> set (bw_free w). bw_data w a \<noteq> None) \<and>
     (\<forall>a \<in># A. bw_data w a \<noteq> None)"

definition block_core :: "buf_block \<Rightarrow> 32 word \<times> 32 word \<times> 32 word \<times> bytes" where
  "block_core d = (bd_size d, bd_dirtyStart d, bd_dirtyEnd d, bd_bytes d)"

text \<open>The blocks of \<open>B\<close> are as they were, up to their counts.\<close>

definition same_blocks :: "nat set \<Rightarrow> buf_world \<Rightarrow> buf_world \<Rightarrow> bool" where
  "same_blocks B w w' \<longleftrightarrow>
     (\<forall>a \<in> B. map_option block_core (bw_data w' a) = map_option block_core (bw_data w a))"

lemma same_blocks_refl [simp]: "same_blocks B w w"
  by (simp add: same_blocks_def)

lemma same_blocks_trans: "same_blocks B w w1 \<Longrightarrow> same_blocks B w1 w' \<Longrightarrow> same_blocks B w w'"
  by (simp add: same_blocks_def)

lemma same_blocks_mono: "same_blocks C w w' \<Longrightarrow> B \<subseteq> C \<Longrightarrow> same_blocks B w w'"
  by (auto simp: same_blocks_def)

lemma same_blocks_get: "same_blocks B w w' \<Longrightarrow> a \<in> B \<Longrightarrow> bw_data w a = Some d \<Longrightarrow>
  \<exists>d'. bw_data w' a = Some d' \<and> block_core d' = block_core d"
  unfolding same_blocks_def by (metis map_option_eq_Some option.simps(9))

lemma bw_put_fields [simp]:
  "bw_data (bw_put a d w) = (bw_data w)(a \<mapsto> d)" "bw_next (bw_put a d w) = bw_next w"
  "bw_free (bw_put a d w) = bw_free w" "bw_maxSize (bw_put a d w) = bw_maxSize w"
  "bw_recommendedStart (bw_put a d w) = bw_recommendedStart w"
  by (simp_all add: bw_put_def)

lemma same_blocks_put [simp]: "a \<notin> B \<Longrightarrow> same_blocks B w (bw_put a d w)"
  by (auto simp: same_blocks_def)

lemma same_blocks_put_core: "bw_data w a = Some d \<Longrightarrow> block_core d' = block_core d \<Longrightarrow> same_blocks B w (bw_put a d' w)"
  by (auto simp: same_blocks_def)

lemma heap_ok_block: "heap_ok w A \<Longrightarrow> bw_data w a = Some d \<Longrightarrow>
  a < bw_next w \<and> block_ok d \<and> unat (bd_count d) = count A a \<and> (a \<notin># A \<longleftrightarrow> a \<in> set (bw_free w))"
  unfolding heap_ok_def by blast

lemma heap_ok_owned: "heap_ok w A \<Longrightarrow> a \<in># A \<Longrightarrow> \<exists>d. bw_data w a = Some d"
  unfolding heap_ok_def by blast

lemma heap_ok_new: "heap_ok w A \<Longrightarrow> bw_next w \<notin># A \<and> bw_data w (bw_next w) = None"
  unfolding heap_ok_def by (metis less_irrefl not_None_eq)

lemma heap_ok_put:
  assumes "heap_ok w A" and "a \<in># A" and "block_ok d" and "unat (bd_count d) = count A' a"
    and "a \<in># A'" and "\<And>x. x \<noteq> a \<Longrightarrow> count A' x = count A x"
  shows "heap_ok (bw_put a d w) A'"
proof -
  obtain d0 where d0: "bw_data w a = Some d0"
    using heap_ok_owned [OF assms(1,2)] by blast
  then have a: "a < bw_next w" "a \<notin> set (bw_free w)"
    using heap_ok_block [OF assms(1) d0] assms(2) by auto
  have eq: "x \<in># A' \<longleftrightarrow> x = a \<or> x \<in># A" for x
    using assms(2,5,6) by (metis count_greater_zero_iff)
  show ?thesis
    using assms(1,3,4,6) a by (auto simp: heap_ok_def eq)
qed

lemma heap_ok_put_same:
  assumes "heap_ok w A" and "bw_data w a = Some d0" and "a \<in># A" and "block_ok d" and "bd_count d = bd_count d0"
  shows "heap_ok (bw_put a d w) A"
  by (rule heap_ok_put [OF assms(1,3,4)]) (use assms heap_ok_block in auto)

section \<open>Creating and releasing blocks\<close>

definition new_block :: "nat multiset \<Rightarrow> buf_world \<Rightarrow> 32 word \<Rightarrow> nat \<times> buf_world \<Rightarrow> bool" where
  "new_block A w n r \<longleftrightarrow>
     (case r of (a, w') \<Rightarrow> a \<notin># A \<and> heap_ok w' (add_mset a A) \<and> same_blocks (set_mset A) w w' \<and>
        (\<exists>d. bw_data w' a = Some d \<and> unat n \<le> unat (bd_size d)))"

lemma buf_allocate_ok:
  assumes "heap_ok w A" and "bw_free w = []" and "unat n < 2 ^ 29"
  shows "new_block A w n (buf_allocate n w)"
proof -
  let ?n = "(if n = 0 then 1 else n) + 100 :: 32 word"
  let ?d = "\<lparr>bd_count = 1, bd_size = ?n, bd_dirtyStart = 0, bd_dirtyEnd = 0,
    bd_bytes = map (bw_junk w (bw_next w)) [0..<unat ?n]\<rparr>"
  have n: "unat ?n = (if n = 0 then 1 else unat n) + 100"
    using assms(3) by (simp add: unat_word_ariths)
  have d: "block_ok ?d" "unat n \<le> unat ?n"
    using n assms(3) by (auto simp: block_ok_def)
  note new = heap_ok_new [OF assms(1)]
  then have "count A (bw_next w) = 0"
    by (simp add: not_in_iff)
  then have "heap_ok ((bw_put (bw_next w) ?d w)\<lparr>bw_next := bw_next w + 1\<rparr>) (add_mset (bw_next w) A)"
    using assms(1,2) d(1) unfolding heap_ok_def by (auto simp: less_Suc_eq)
  then show ?thesis
    using new d(2) by (auto simp: buf_allocate_def Let_def same_blocks_def new_block_def)
qed

lemma buf_deallocate_free:
  "buf_deallocate a (w\<lparr>bw_free := fs\<rparr>) = res_map (\<lambda>w. w\<lparr>bw_free := fs\<rparr>) (buf_deallocate a w)"
  by (cases "bw_data w a") (auto simp: buf_deallocate_def ns_assert_def)

lemma buf_create_from_free: "buf_create_from n as (w\<lparr>bw_free := fs\<rparr>) = buf_create_from n as w"
proof (induction as arbitrary: w)
  case (Cons a as)
  have "res_bind (res_map (\<lambda>w. w\<lparr>bw_free := fs\<rparr>) r) (buf_create_from n as) = res_bind r (buf_create_from n as)"
    for r :: "buf_world result"
    by (cases r) (simp_all add: Cons.IH)
  then show ?case
    by (cases "bw_data w a") (simp_all add: buf_deallocate_free bw_put_def)
qed simp

lemma buf_create_from_ok:
  assumes "heap_ok w A" and "bw_free w = as" and "unat n < 2 ^ 29"
  shows "\<exists>r. buf_create_from n as w = Inr r \<and> new_block A w n r"
  using assms
proof (induction as arbitrary: w)
  case Nil
  then have "w\<lparr>bw_free := []\<rparr> = w"
    by simp
  then show ?case
    using buf_allocate_ok [OF Nil(1,2,3)] by simp
next
  case (Cons a as)
  have mem: "a \<in> set (bw_free w)" "a \<notin> set as" "distinct as"
    using Cons.prems(1,2) by (auto simp: heap_ok_def)
  then obtain d where d: "bw_data w a = Some d"
    using Cons.prems(1) unfolding heap_ok_def by blast
  have own: "a \<notin># A" and bd: "block_ok d" "unat (bd_count d) = count A a" "a < bw_next w"
    using heap_ok_block [OF Cons.prems(1) d] mem(1) by simp_all
  then have c0: "bd_count d = 0" and z: "count A a = 0"
    by (simp_all add: unat_eq_zero not_in_iff)
  show ?case
  proof (cases "bd_size d \<ge> n")
    case True
    have "heap_ok ((bw_put a (d\<lparr>bd_count := 1\<rparr>) w)\<lparr>bw_free := as\<rparr>) (add_mset a A)"
      using Cons.prems(1,2) mem bd own z unfolding heap_ok_def by (auto simp: block_ok_def)
    then show ?thesis
      using True d own by (auto simp: same_blocks_def word_le_nat_alt new_block_def)
  next
    case False
    let ?w = "w\<lparr>bw_data := (bw_data w)(a := None)\<rparr>"
    let ?w' = "?w\<lparr>bw_free := as\<rparr>"
    have h: "heap_ok ?w' A"
      using Cons.prems(1,2) mem own unfolding heap_ok_def by auto
    have eq: "buf_create_from n as ?w = buf_create_from n as ?w'"
      by (simp only: buf_create_from_free)
    have "bw_free ?w' = as"
      by simp
    from Cons.IH [OF h this Cons.prems(3)] show ?thesis
      using False d c0 own eq by (auto simp: buf_deallocate_def same_blocks_def new_block_def)
  qed
qed

lemma buf_create_ok:
  assumes "heap_ok w A" and "unat n < 2 ^ 29"
  shows "\<exists>a w' d. buf_create n w = Inr (a, w') \<and> a \<notin># A \<and> heap_ok w' (add_mset a A) \<and>
    same_blocks (set_mset A) w w' \<and> bw_data w' a = Some d \<and> unat n \<le> unat (bd_size d)"
  using buf_create_from_ok [OF assms(1) refl assms(2)] by (auto simp: buf_create_def new_block_def)

lemma buf_release_ok:
  assumes "heap_ok w (add_mset a A)"
  shows "\<exists>w'. buf_release a w = Inr w' \<and> heap_ok w' A \<and> same_blocks (set_mset A) w w'"
proof -
  obtain d where d: "bw_data w a = Some d"
    using heap_ok_owned [OF assms, of a] by auto
  have bd: "block_ok d" "unat (bd_count d) = Suc (count A a)" "a < bw_next w" "a \<notin> set (bw_free w)"
    using heap_ok_block [OF assms d] by auto
  let ?d = "d\<lparr>bd_count := bd_count d - 1\<rparr>"
  have c: "unat (bd_count ?d) = count A a"
    using bd(2) by (simp add: unat32_sub)
  then have c0: "bd_count d - 1 = 0 \<longleftrightarrow> a \<notin># A"
    by (metis buf_block.select_convs(1) buf_block.surjective buf_block.update_convs(1) not_in_iff unat_0_iff)
  show ?thesis
  proof (cases "a \<in># A")
    case True
    have "heap_ok (bw_put a ?d w) A"
      by (rule heap_ok_put [OF assms]) (use bd(1) c True in \<open>simp_all add: block_ok_def\<close>)
    then show ?thesis
      using True c0 d
      by (simp add: buf_release_def Let_def same_blocks_def block_core_def)
  next
    case False
    let ?w = "(bw_put a ?d w)\<lparr>bw_maxSize := max (bw_maxSize w) (bd_size d)\<rparr>"
    have z: "count A a = 0"
      using False by (simp add: not_in_iff)
    have h: "heap_ok (?w\<lparr>bw_data := (bw_data ?w)(a := None)\<rparr>) A" "heap_ok (?w\<lparr>bw_free := a # bw_free ?w\<rparr>) A"
      using assms bd c z False unfolding heap_ok_def by (auto simp: block_ok_def)
    show ?thesis
      using d c0 False h
      by (auto simp: buf_release_def buf_recycle_def buf_deallocate_def Let_def same_blocks_def)
  qed
qed

end
