(* ===== verification/Buffer_Views.thy ===== *)
theory Buffer_Views
  imports Buffer_Heap
begin

text \<open>
  What a \<open>Buffer\<close> means: \<open>buf_view w b\<close> is the list of its bytes, the zero area included. \<open>world_ok w M\<close>
  is the invariant of a world and of all the buffers \<open>M\<close> in it: every buffer lies in the dirty region of
  its block, and a buffer that ends where the dirty region ends has no sharer with bytes behind its own.
  This is what makes it safe to grow a shared block in place.
\<close>

section \<open>The bytes of a buffer\<close>

definition zero_len :: "buf \<Rightarrow> nat" where
  "zero_len b = unat (b_zeroAreaEnd b) - unat (b_zeroAreaStart b)"

definition front_len :: "buf \<Rightarrow> nat" where
  "front_len b = unat (b_zeroAreaStart b) - unat (b_start b)"

definition back_len :: "buf \<Rightarrow> nat" where
  "back_len b = unat (b_end b) - unat (b_zeroAreaEnd b)"

text \<open>The first position of the block behind the bytes of the buffer.\<close>

definition phys_end :: "buf \<Rightarrow> nat" where
  "phys_end b = unat (b_zeroAreaStart b) + back_len b"

definition block_view :: "buf_block \<Rightarrow> buf \<Rightarrow> bytes" where
  "block_view d b =
     take (front_len b) (drop (unat (b_start b)) (bd_bytes d)) @ replicate (zero_len b) 0 @
     take (back_len b) (drop (unat (b_zeroAreaStart b)) (bd_bytes d))"

definition buf_view :: "buf_world \<Rightarrow> buf \<Rightarrow> bytes" where
  "buf_view w b = (case bw_data w (b_data b) of None \<Rightarrow> [] | Some d \<Rightarrow> block_view d b)"

text \<open>The largest buffer that the proofs speak of has less than \<open>2 ^ 29\<close> bytes.\<close>

definition buf_fits :: "buf_block \<Rightarrow> buf \<Rightarrow> bool" where
  "buf_fits d b \<longleftrightarrow>
     unat (b_start b) \<le> unat (b_zeroAreaStart b) \<and> unat (b_zeroAreaStart b) \<le> unat (b_zeroAreaEnd b) \<and>
     unat (b_zeroAreaEnd b) \<le> unat (b_end b) \<and> unat (b_end b) < unat (b_start b) + 2 ^ 29 \<and>
     phys_end b \<le> unat (bd_size d) \<and> unat (bd_dirtyStart d) \<le> unat (b_start b) \<and>
     unat (b_end b) \<le> unat (bd_dirtyEnd d)"

text \<open>The stored bytes, without the zeros.\<close>

definition stored :: "buf_block \<Rightarrow> buf \<Rightarrow> bytes" where
  "stored d b = take (front_len b + back_len b) (drop (unat (b_start b)) (bd_bytes d))"

lemma block_view_stored:
  assumes "buf_fits d b"
  shows "block_view d b = take (front_len b) (stored d b) @ replicate (zero_len b) 0 @ drop (front_len b) (stored d b)"
proof -
  have "front_len b + unat (b_start b) = unat (b_zeroAreaStart b)"
    using assms by (simp add: buf_fits_def front_len_def)
  then show ?thesis
    by (simp add: block_view_def stored_def drop_take)
qed

lemma stored_length: "buf_fits d b \<Longrightarrow> block_ok d \<Longrightarrow> length (stored d b) = front_len b + back_len b"
  by (auto simp: stored_def block_ok_def buf_fits_def phys_end_def front_len_def)

lemma block_view_length:
  "buf_fits d b \<Longrightarrow> block_ok d \<Longrightarrow> length (block_view d b) = unat (b_end b) - unat (b_start b)"
  by (subst block_view_stored, assumption)
    (auto simp: stored_length buf_fits_def front_len_def back_len_def zero_len_def)

lemma block_view_core:
  "block_core d' = block_core d \<Longrightarrow> block_view d' b = block_view d b \<and> buf_fits d' b = buf_fits d b \<and>
   bd_dirtyEnd d' = bd_dirtyEnd d"
  by (auto simp: block_core_def block_view_def buf_fits_def)

section \<open>Sizes\<close>

lemma fits_less: "buf_fits d b \<Longrightarrow> block_ok d \<Longrightarrow> unat (b_end b) < 2 ^ 31"
  by (auto simp: buf_fits_def block_ok_def phys_end_def)

lemma buf_size_nat: "buf_fits d b \<Longrightarrow> unat (buf_size b) = unat (b_end b) - unat (b_start b)"
  by (auto simp: buf_size_def buf_fits_def unat32_sub)

lemma zero_len_nat: "buf_fits d b \<Longrightarrow> unat (b_zeroAreaEnd b - b_zeroAreaStart b) = zero_len b"
  by (auto simp: buf_fits_def unat32_sub zero_len_def)

lemma front_len_nat: "buf_fits d b \<Longrightarrow> unat (b_zeroAreaStart b - b_start b) = front_len b"
  by (auto simp: buf_fits_def unat32_sub front_len_def)

lemma back_len_nat: "buf_fits d b \<Longrightarrow> unat (b_end b - b_zeroAreaEnd b) = back_len b"
  by (auto simp: buf_fits_def unat32_sub back_len_def)

lemma internal_size_nat:
  assumes "buf_fits d b"
  shows "unat (buf_internal_size b) = front_len b + back_len b"
proof -
  have "buf_internal_size b = (b_zeroAreaStart b - b_start b) + (b_end b - b_zeroAreaEnd b)"
    by (simp add: buf_internal_size_def)
  moreover have "front_len b + back_len b < 4294967296"
    using assms by (auto simp: buf_fits_def front_len_def back_len_def)
  ultimately show ?thesis
    by (simp add: unat32_add front_len_nat [OF assms] back_len_nat [OF assms])
qed

lemma internal_end_nat:
  assumes "buf_fits d b"
  shows "unat (buf_internal_end b) = phys_end b"
proof -
  have "unat (b_zeroAreaEnd b - b_zeroAreaStart b) \<le> unat (b_end b)"
    using assms by (simp add: zero_len_nat) (auto simp: zero_len_def buf_fits_def)
  then show ?thesis
    using assms by (simp add: buf_internal_end_def unat32_sub zero_len_nat)
      (auto simp: buf_fits_def zero_len_def phys_end_def back_len_def)
qed

lemma buf_note_zero_fields [simp]:
  "b_data (buf_note_zero b) = b_data b" "b_start (buf_note_zero b) = b_start b"
  "b_zeroAreaStart (buf_note_zero b) = b_zeroAreaStart b" "b_zeroAreaEnd (buf_note_zero b) = b_zeroAreaEnd b"
  "b_end (buf_note_zero b) = b_end b"
  by (simp_all add: buf_note_zero_def)

text \<open>Two buffers with the same place; the mark of the largest zero area start does not count.\<close>

definition same_place :: "buf \<Rightarrow> buf \<Rightarrow> bool" where
  "same_place b c \<longleftrightarrow>
     b_data b = b_data c \<and> b_start b = b_start c \<and> b_zeroAreaStart b = b_zeroAreaStart c \<and>
     b_zeroAreaEnd b = b_zeroAreaEnd c \<and> b_end b = b_end c"

lemma same_place_lens:
  "same_place b c \<Longrightarrow> front_len b = front_len c \<and> back_len b = back_len c \<and> zero_len b = zero_len c \<and>
   phys_end b = phys_end c"
  by (simp add: same_place_def front_len_def back_len_def zero_len_def phys_end_def)

lemma same_place_view: "same_place b c \<Longrightarrow> buf_view w b = buf_view w c"
  using same_place_lens [of b c] by (auto simp: buf_view_def block_view_def same_place_def split: option.splits)

lemma same_place_fits: "same_place b c \<Longrightarrow> buf_fits d b = buf_fits d c"
  using same_place_lens [of b c] by (auto simp: same_place_def buf_fits_def)

section \<open>The invariant\<close>

definition buf_placed :: "buf_world \<Rightarrow> buf multiset \<Rightarrow> buf \<Rightarrow> bool" where
  "buf_placed w M b \<longleftrightarrow>
     (\<exists>d. bw_data w (b_data b) = Some d \<and> buf_fits d b \<and>
        (b_end b = bd_dirtyEnd d \<longrightarrow> (\<forall>c \<in># M. b_data c = b_data b \<longrightarrow> phys_end c \<le> phys_end b)))"

definition world_ok :: "buf_world \<Rightarrow> buf multiset \<Rightarrow> bool" where
  "world_ok w M \<longleftrightarrow> heap_ok w (image_mset b_data M) \<and> (\<forall>b \<in># M. buf_placed w M b)"

definition keeps :: "buf multiset \<Rightarrow> buf_world \<Rightarrow> buf_world \<Rightarrow> bool" where
  "keeps M w w' \<longleftrightarrow> (\<forall>b \<in># M. buf_view w' b = buf_view w b)"

lemma keeps_refl [simp]: "keeps M w w"
  by (simp add: keeps_def)

lemma keeps_trans: "keeps M w w1 \<Longrightarrow> keeps M w1 w' \<Longrightarrow> keeps M w w'"
  by (simp add: keeps_def)

lemma buf_placed_same:
  assumes "buf_placed w M b" and "same_blocks B w w'" and "b_data b \<in> B"
  shows "buf_placed w' M b" and "buf_view w' b = buf_view w b"
proof -
  from assms(1) obtain d where d: "bw_data w (b_data b) = Some d" and f: "buf_fits d b"
    "b_end b = bd_dirtyEnd d \<longrightarrow> (\<forall>c \<in># M. b_data c = b_data b \<longrightarrow> phys_end c \<le> phys_end b)"
    by (auto simp: buf_placed_def)
  from same_blocks_get [OF assms(2,3) d] obtain d'
    where d': "bw_data w' (b_data b) = Some d'" and c: "block_core d' = block_core d"
    by blast
  note v = block_view_core [OF c]
  show "buf_placed w' M b" and "buf_view w' b = buf_view w b"
    using d d' f v by (auto simp: buf_placed_def buf_view_def)
qed

lemma placed_mono: "buf_placed w M b \<Longrightarrow> set_mset N \<subseteq> set_mset M \<Longrightarrow> buf_placed w N b"
  unfolding buf_placed_def by blast

lemma keeps_same: "world_ok w M \<Longrightarrow> same_blocks (b_data ` set_mset M) w w' \<Longrightarrow> keeps M w w'"
  unfolding world_ok_def keeps_def using buf_placed_same(2) by blast

lemma world_ok_same:
  assumes "world_ok w M" and "same_blocks (b_data ` set_mset M) w w'" and "heap_ok w' (image_mset b_data M)"
  shows "world_ok w' M"
  using assms buf_placed_same(1) [OF _ assms(2)] by (auto simp: world_ok_def)

lemma world_ok_block:
  assumes "world_ok w M" and "b \<in># M"
  obtains d where "bw_data w (b_data b) = Some d" and "buf_fits d b" and "block_ok d"
    and "unat (bd_count d) = count (image_mset b_data M) (b_data b)"
    and "buf_view w b = block_view d b"
proof -
  from assms obtain d where d: "bw_data w (b_data b) = Some d" "buf_fits d b"
    by (auto simp: world_ok_def buf_placed_def)
  moreover have "heap_ok w (image_mset b_data M)"
    using assms(1) by (simp add: world_ok_def)
  ultimately show thesis
    using that heap_ok_block [OF _ d(1)] by (auto simp: buf_view_def)
qed

lemma world_ok_view_length:
  "world_ok w M \<Longrightarrow> b \<in># M \<Longrightarrow> length (buf_view w b) = unat (buf_size b)"
  by (rule world_ok_block, assumption, assumption) (simp add: block_view_length buf_size_nat)

lemma sole_owner:
  assumes "world_ok w (add_mset b M)" and "bw_data w (b_data b) = Some d"
  shows "bd_count d = 1 \<longleftrightarrow> (\<forall>c \<in># M. b_data c \<noteq> b_data b)" and "bd_count d > 1 \<or> bd_count d = 1"
proof -
  have "unat (bd_count d) = Suc (count (image_mset b_data M) (b_data b))"
    using heap_ok_block [of w "image_mset b_data (add_mset b M)", OF _ assms(2)] assms(1)
    by (simp add: world_ok_def)
  moreover have "count (image_mset b_data M) (b_data b) = 0 \<longleftrightarrow> (\<forall>c \<in># M. b_data c \<noteq> b_data b)"
    by (simp add: count_eq_zero_iff) (metis image_iff)
  moreover have "bd_count d = 1 \<longleftrightarrow> unat (bd_count d) = 1"
    by (metis unat_1 unsigned_word_eqI)
  ultimately show "bd_count d = 1 \<longleftrightarrow> (\<forall>c \<in># M. b_data c \<noteq> b_data b)" and "bd_count d > 1 \<or> bd_count d = 1"
    by (auto simp: word_less_nat_alt)
qed

text \<open>A buffer in a block that no other buffer refers to.\<close>

lemma world_ok_new:
  assumes "world_ok w M" and "heap_ok w' (image_mset b_data (add_mset b M))"
    and "same_blocks (b_data ` set_mset M) w w'" and "\<forall>c \<in># M. b_data c \<noteq> b_data b"
    and "bw_data w' (b_data b) = Some d" and "buf_fits d b"
  shows "world_ok w' (add_mset b M)"
proof -
  have "buf_placed w' (add_mset b M) c" if "c \<in># M" for c
  proof -
    have "buf_placed w' M c"
      using buf_placed_same(1) [OF _ assms(3)] assms(1) that by (simp add: world_ok_def)
    moreover have "b_data c \<noteq> b_data b"
      using assms(4) that by auto
    ultimately show ?thesis
      unfolding buf_placed_def by auto
  qed
  moreover have "buf_placed w' (add_mset b M) b"
    using assms(4-6) by (auto simp: buf_placed_def)
  ultimately show ?thesis
    using assms(2) by (auto simp: world_ok_def)
qed

end
