(* ===== verification/Buffer_Sharing.thy ===== *)
theory Buffer_Sharing
  imports Buffer_Views
begin

text \<open>
  Making, copying, assigning and destroying buffers, and cutting bytes off their ends: every operation
  succeeds in a consistent world, keeps the invariant and the bytes of all other buffers, and does to the
  bytes of its own buffer what it is for.
\<close>

section \<open>Making and dropping buffers\<close>

lemma buf_initialize_ok:
  assumes "world_ok w M" and "unat z < 2 ^ 29"
  shows "\<exists>b w'. buf_initialize z w = Inr (b, w') \<and> world_ok w' (add_mset b M) \<and> keeps M w w' \<and>
    buf_view w' b = replicate (unat z) 0 \<and> (\<forall>c \<in># M. b_data c \<noteq> b_data b) \<and> zero_len b = unat z"
proof -
  let ?A = "image_mset b_data M"
  have h: "heap_ok w ?A"
    using assms(1) by (simp add: world_ok_def)
  from buf_create_ok [OF h, of 0] obtain a w1 d where c: "buf_create 0 w = Inr (a, w1)" and a: "a \<notin># ?A"
    and h1: "heap_ok w1 (add_mset a ?A)" and s1: "same_blocks (set_mset ?A) w w1" and d: "bw_data w1 a = Some d"
    by auto
  define start where "start = min (bd_size d) (bw_recommendedStart w1)"
  define b where "b = \<lparr>b_data = a, b_maxZeroAreaStart = start, b_zeroAreaStart = start,
    b_zeroAreaEnd = start + z, b_start = start, b_end = start + z\<rparr>"
  define d' where "d' = d\<lparr>bd_dirtyStart := start, bd_dirtyEnd := start + z\<rparr>"
  have bd: "block_ok d"
    using heap_ok_block [OF h1 d] by simp
  have le: "unat start \<le> unat (bd_size d)"
    by (simp add: start_def unat32_min)
  then have "unat (start + z) = unat start + unat z"
    using bd assms(2) by (intro unat32_add) (auto simp: block_ok_def)
  then have fits: "buf_fits d' b" and v: "block_view d' b = replicate (unat z) 0" and zl: "zero_len b = unat z"
    using le assms(2)
    by (auto simp: buf_fits_def b_def d'_def phys_end_def back_len_def block_view_def front_len_def zero_len_def)
  have bd': "block_ok d'"
    using bd by (simp add: d'_def block_ok_def)
  have h2: "heap_ok (bw_put a d' w1) (add_mset a ?A)"
    by (rule heap_ok_put_same [OF h1 d _ bd']) (simp_all add: d'_def)
  have s2: "same_blocks (b_data ` set_mset M) w (bw_put a d' w1)"
    using same_blocks_trans [OF s1 same_blocks_put] a by auto
  have "world_ok (bw_put a d' w1) (add_mset b M)"
    by (rule world_ok_new [OF assms(1) _ s2]) (use h2 a fits in \<open>auto simp: b_def\<close>)
  moreover have "buf_initialize z w = Inr (b, bw_put a d' w1)"
    by (simp add: buf_initialize_def c d Let_def b_def d'_def start_def)
  moreover have "buf_view (bw_put a d' w1) b = replicate (unat z) 0"
    using v by (simp add: buf_view_def b_def)
  moreover have "\<forall>c \<in># M. b_data c \<noteq> b_data b"
    using a by (auto simp: b_def)
  ultimately show ?thesis
    using keeps_same [OF assms(1) s2] zl by blast
qed

text \<open>One more owner of a block.\<close>

lemma world_ok_share:
  assumes "world_ok w M" and "c \<in># M" and "size M < 2 ^ 32 - 1" and "same_place b c"
    and "bw_data w (b_data c) = Some d"
  shows "world_ok (bw_put (b_data c) (d\<lparr>bd_count := bd_count d + 1\<rparr>) w) (add_mset b M) \<and>
    keeps (add_mset b M) w (bw_put (b_data c) (d\<lparr>bd_count := bd_count d + 1\<rparr>) w)"
proof -
  let ?w = "bw_put (b_data c) (d\<lparr>bd_count := bd_count d + 1\<rparr>) w"
  let ?A = "image_mset b_data M"
  have h: "heap_ok w ?A"
    using assms(1) by (simp add: world_ok_def)
  note bd = heap_ok_block [OF h assms(5)]
  have "count ?A (b_data c) \<le> size M"
    by (metis count_le_size size_image_mset)
  then have "unat (bd_count d + 1) = Suc (unat (bd_count d))"
    using bd assms(3) by (subst unat32_add) auto
  then have h': "heap_ok ?w (image_mset b_data (add_mset b M))"
    using bd assms(2,4) by (intro heap_ok_put [OF h]) (auto simp: block_ok_def same_place_def)
  have s: "same_blocks B w ?w" for B
    by (rule same_blocks_put_core [OF assms(5)]) (simp add: block_core_def)
  have pl: "buf_placed ?w (add_mset b M) e" if "e \<in># add_mset b M" for e
  proof -
    have "e = b \<or> e \<in># M" and "same_place e e"
      using that by (auto simp: same_place_def)
    then obtain e' where e': "e' \<in># M" "same_place e e'"
      using assms(2,4) by blast
    have "buf_placed ?w M e'"
      using assms(1) e'(1) by (intro buf_placed_same(1) [OF _ s [of UNIV]]) (simp_all add: world_ok_def)
    then obtain d' where d': "bw_data ?w (b_data e') = Some d'" "buf_fits d' e'"
      "b_end e' = bd_dirtyEnd d' \<longrightarrow> (\<forall>x \<in># M. b_data x = b_data e' \<longrightarrow> phys_end x \<le> phys_end e')"
      unfolding buf_placed_def by blast
    have eq: "b_data e = b_data e'" "b_end e = b_end e'" "phys_end e = phys_end e'" "buf_fits d' e"
      "b_data b = b_data c" "phys_end b = phys_end c"
      using e'(2) assms(4) same_place_lens [OF e'(2)] same_place_lens [OF assms(4)] same_place_fits [OF e'(2)] d'(2)
      by (simp_all add: same_place_def)
    show ?thesis
      unfolding buf_placed_def
      by (intro exI [of _ d'] conjI) (use d' eq assms(2) in auto)
  qed
  have "world_ok ?w (add_mset b M)"
    using h' pl by (simp add: world_ok_def)
  moreover have "keeps M w ?w"
    by (rule keeps_same [OF assms(1) s])
  moreover have "buf_view ?w b = buf_view w b"
    using \<open>keeps M w ?w\<close> assms(2) same_place_view [OF assms(4)] by (simp add: keeps_def)
  ultimately show ?thesis
    by (simp add: keeps_def)
qed

lemma buf_copy_ok:
  assumes "world_ok w M" and "c \<in># M" and "size M < 2 ^ 32 - 1"
  shows "\<exists>b w'. buf_copy c w = Inr (b, w') \<and> world_ok w' (add_mset b M) \<and> keeps M w w' \<and>
    same_place b c \<and> buf_view w' b = buf_view w c"
proof -
  obtain d where d: "bw_data w (b_data c) = Some d"
    using world_ok_block [OF assms(1,2)] by blast
  let ?b = "c\<lparr>b_maxZeroAreaStart := b_zeroAreaStart c\<rparr>"
  have p: "same_place ?b c"
    by (simp add: same_place_def)
  note world_ok_share [OF assms p d]
  then show ?thesis
    using p same_place_view [OF p] d by (auto simp: buf_copy_def keeps_def)
qed

lemma heap_ok_recommend [simp]: "heap_ok (buf_recommend b w) A = heap_ok w A"
  by (simp add: heap_ok_def buf_recommend_def)

lemma world_ok_recommend [simp]: "world_ok (buf_recommend b w) M = world_ok w M"
  by (simp add: world_ok_def buf_placed_def) (simp add: buf_recommend_def)

lemma buf_view_recommend [simp]: "buf_view (buf_recommend b w) c = buf_view w c"
  by (simp add: buf_view_def buf_recommend_def)

lemma release_ok:
  assumes "world_ok w (add_mset b M)"
  shows "\<exists>w'. buf_release (b_data b) w = Inr w' \<and> world_ok w' M \<and> keeps M w w'"
proof -
  have "heap_ok w (add_mset (b_data b) (image_mset b_data M))"
    using assms by (simp add: world_ok_def)
  from buf_release_ok [OF this] obtain w' where w': "buf_release (b_data b) w = Inr w'"
    "heap_ok w' (image_mset b_data M)" "same_blocks (b_data ` set_mset M) w w'"
    by auto
  have "buf_placed w' M c" if "c \<in># M" for c
  proof -
    have "buf_placed w M c"
      using assms that placed_mono [of w "add_mset b M" c M] by (auto simp: world_ok_def)
    then show ?thesis
      using buf_placed_same(1) [OF _ w'(3)] that by simp
  qed
  moreover have "keeps M w w'"
    using buf_placed_same(2) [OF _ w'(3)] assms by (auto simp: keeps_def world_ok_def)
  ultimately show ?thesis
    using w' by (auto simp: world_ok_def)
qed

lemma buf_destroy_ok:
  assumes "world_ok w (add_mset b M)"
  shows "\<exists>w'. buf_destroy b w = Inr w' \<and> world_ok w' M \<and> keeps M w w'"
  using release_ok [of "buf_recommend b w" b M] assms by (auto simp: buf_destroy_def keeps_def)

lemma buf_assign_ok:
  assumes "world_ok w (add_mset b M)" and "c \<in># M" and "size M < 2 ^ 32 - 1"
  shows "\<exists>w'. buf_assign b c w = Inr (c, w') \<and> world_ok w' (add_mset c M) \<and> keeps M w w'"
proof (cases "b_data b = b_data c")
  case True
  have h: "heap_ok w (image_mset b_data (add_mset b M))"
    using assms(1) by (simp add: world_ok_def)
  have pl: "buf_placed w M e" if "e \<in># M" for e
    using assms(1) that placed_mono [of w "add_mset b M" e M] by (auto simp: world_ok_def)
  have "buf_placed w (add_mset c M) e" if "e \<in># add_mset c M" for e
    using that pl assms(2) unfolding buf_placed_def by auto
  then have "world_ok w (add_mset c M)"
    using h True by (simp add: world_ok_def)
  then show ?thesis
    using True by (auto simp: buf_assign_def keeps_def)
next
  case False
  from release_ok [OF assms(1)] obtain w1 where w1: "buf_release (b_data b) w = Inr w1" "world_ok w1 M" "keeps M w w1"
    by blast
  obtain d where d: "bw_data w1 (b_data c) = Some d"
    using world_ok_block [OF w1(2) assms(2)] by blast
  have p: "same_place c c"
    by (simp add: same_place_def)
  note world_ok_share [OF w1(2) assms(2,3) p d]
  then show ?thesis
    using False w1 d by (auto simp: buf_assign_def keeps_def)
qed

section \<open>Cutting bytes off\<close>

text \<open>A buffer that covers a part of what it covered before needs no new place.\<close>

definition shrunk :: "buf \<Rightarrow> buf \<Rightarrow> bool" where
  "shrunk b b' \<longleftrightarrow>
     b_data b' = b_data b \<and> unat (b_start b) \<le> unat (b_start b') \<and> phys_end b' \<le> phys_end b \<and>
     unat (b_end b') \<le> unat (b_end b) \<and> unat (b_start b') \<le> unat (b_zeroAreaStart b') \<and>
     unat (b_zeroAreaStart b') \<le> unat (b_zeroAreaEnd b') \<and> unat (b_zeroAreaEnd b') \<le> unat (b_end b') \<and>
     (b_end b' = b_end b \<longrightarrow> phys_end b' = phys_end b)"

lemma shrunk_fits: "buf_fits d b \<Longrightarrow> shrunk b b' \<Longrightarrow> buf_fits d b'"
  unfolding buf_fits_def shrunk_def by linarith

lemma shrunk_ok:
  assumes "world_ok w (add_mset b M)" and "shrunk b b'"
  shows "world_ok w (add_mset b' M)"
proof -
  have data: "b_data b' = b_data b" and pe: "phys_end b' \<le> phys_end b"
    using assms(2) by (simp_all add: shrunk_def)
  have "buf_placed w (add_mset b' M) c" if "c \<in># M" for c
  proof -
    have "buf_placed w (add_mset b M) c"
      using assms(1) that by (simp add: world_ok_def)
    then show ?thesis
      unfolding buf_placed_def using data pe by (auto intro: order_trans)
  qed
  moreover have "buf_placed w (add_mset b' M) b'"
  proof -
    obtain d where d: "bw_data w (b_data b) = Some d" "buf_fits d b"
      "b_end b = bd_dirtyEnd d \<longrightarrow> (\<forall>c \<in># add_mset b M. b_data c = b_data b \<longrightarrow> phys_end c \<le> phys_end b)"
      using assms(1) by (auto simp: world_ok_def buf_placed_def)
    have "b_end b' = b_end b \<and> phys_end b' = phys_end b" if "b_end b' = bd_dirtyEnd d"
    proof -
      have "unat (b_end b) \<le> unat (b_end b')"
        using d(2) that by (simp add: buf_fits_def)
      then have "b_end b' = b_end b"
        using assms(2) by (intro word_unat_eq_iff [THEN iffD2]) (simp add: shrunk_def)
      then show ?thesis
        using assms(2) by (simp add: shrunk_def)
    qed
    then show ?thesis
      using d shrunk_fits [OF d(2) assms(2)] data by (auto simp: buf_placed_def)
  qed
  ultimately show ?thesis
    using assms(1) data by (simp add: world_ok_def)
qed

text \<open>The parts of a view after a cut.\<close>

lemma view_part_lengths:
  assumes "buf_fits d b" and "block_ok d"
  shows "length (take (front_len b) (drop (unat (b_start b)) (bd_bytes d))) = front_len b"
    and "length (take (back_len b) (drop (unat (b_zeroAreaStart b)) (bd_bytes d))) = back_len b"
  using assms by (auto simp: buf_fits_def block_ok_def phys_end_def front_len_def)

lemma drop_block_view:
  assumes "buf_fits d b" and "block_ok d"
  shows "drop n (block_view d b) =
    take (front_len b - n) (drop (n + unat (b_start b)) (bd_bytes d)) @ replicate (zero_len b - (n - front_len b)) 0 @
    take (back_len b - (n - front_len b - zero_len b))
      (drop ((n - front_len b - zero_len b) + unat (b_zeroAreaStart b)) (bd_bytes d))"
  unfolding block_view_def drop_append view_part_lengths [OF assms] length_replicate
  by (simp only: drop_take drop_drop drop_replicate)

lemma take_block_view:
  assumes "buf_fits d b" and "block_ok d"
  shows "take n (block_view d b) =
    take (min n (front_len b)) (drop (unat (b_start b)) (bd_bytes d)) @ replicate (min (n - front_len b) (zero_len b)) 0 @
    take (min (n - front_len b - zero_len b) (back_len b)) (drop (unat (b_zeroAreaStart b)) (bd_bytes d))"
  unfolding block_view_def take_append view_part_lengths [OF assms] length_replicate
  by (simp only: take_take take_replicate)

lemma remove_start_shape:
  assumes "buf_fits d b" and "block_ok d" and "unat (b_start b) + unat n < 2 ^ 32"
  shows "\<exists>b'. buf_remove_start n b = Inr b' \<and> shrunk b b' \<and> block_view d b' = drop (unat n) (block_view d b)"
proof -
  have le: "unat (b_start b) \<le> unat (b_zeroAreaStart b)" "unat (b_zeroAreaStart b) \<le> unat (b_zeroAreaEnd b)"
    "unat (b_zeroAreaEnd b) \<le> unat (b_end b)"
    using assms(1) by (simp_all add: buf_fits_def)
  have ns: "unat (b_start b + n) = unat (b_start b) + unat n"
    using assms(3) by (intro unat32_add) simp
  have z: "unat (b_zeroAreaEnd b - b_zeroAreaStart b) = zero_len b"
    using assms(1) by (rule zero_len_nat)
  note lens = front_len_def zero_len_def back_len_def
  note view = drop_block_view [OF assms(1,2)]
  consider "b_start b + n \<le> b_zeroAreaStart b"
    | "\<not> b_start b + n \<le> b_zeroAreaStart b" "b_start b + n \<le> b_zeroAreaEnd b"
    | "\<not> b_start b + n \<le> b_zeroAreaStart b" "\<not> b_start b + n \<le> b_zeroAreaEnd b" "b_start b + n \<le> b_end b"
    | "\<not> b_start b + n \<le> b_zeroAreaStart b" "\<not> b_start b + n \<le> b_zeroAreaEnd b" "\<not> b_start b + n \<le> b_end b"
    by blast
  then show ?thesis
  proof cases
    case 1
    then show ?thesis
      using le ns unfolding buf_remove_start_def view
      by (auto simp: Let_def word_le_nat_alt shrunk_def phys_end_def block_view_def lens add.commute)
  next
    case 2
    define delta where "delta = b_start b + n - b_zeroAreaStart b"
    have u: "unat delta = unat (b_start b) + unat n - unat (b_zeroAreaStart b)"
      using 2 le ns by (simp add: delta_def word_le_nat_alt unat32_sub)
    then have u': "delta \<noteq> 0" "unat (b_zeroAreaEnd b - delta) = unat (b_zeroAreaEnd b) - unat delta"
      "unat (b_end b - delta) = unat (b_end b) - unat delta"
      using 2 le ns by (auto simp: word_le_nat_alt unat32_sub)
    have "buf_remove_start n b = Inr (buf_note_zero
        (b\<lparr>b_start := b_zeroAreaStart b, b_zeroAreaEnd := b_zeroAreaEnd b - delta, b_end := b_end b - delta\<rparr>))"
      using 2 by (simp add: buf_remove_start_def Let_def delta_def)
    then show ?thesis
      using 2 le ns u u' unfolding view
      by (auto simp: Let_def word_le_nat_alt shrunk_def phys_end_def block_view_def lens)
  next
    case 3
    let ?z = "b_zeroAreaEnd b - b_zeroAreaStart b"
    have u: "unat (b_start b + n - ?z) = unat (b_start b) + unat n - zero_len b"
      "unat (b_end b - ?z) = unat (b_end b) - zero_len b"
      using 3 le ns z by (auto simp: word_le_nat_alt unat32_sub zero_len_def)
    have "b_end b \<ge> n"
      using 3 ns by (auto simp: word_le_nat_alt)
    then show ?thesis
      using 3 le ns u unfolding buf_remove_start_def view
      by (auto simp: Let_def word_le_nat_alt shrunk_def phys_end_def block_view_def lens
        add.commute [of "unat (b_start b)"])
  next
    case 4
    let ?z = "b_zeroAreaEnd b - b_zeroAreaStart b"
    have u: "unat (b_end b - ?z) = unat (b_end b) - zero_len b"
      using le z by (auto simp: unat32_sub zero_len_def)
    show ?thesis
      using 4 le ns u unfolding buf_remove_start_def view
      by (auto simp: Let_def word_le_nat_alt shrunk_def phys_end_def block_view_def lens)
  qed
qed

lemma remove_end_shape:
  assumes "buf_fits d b" and "block_ok d"
  shows "shrunk b (buf_remove_end n b) \<and>
    block_view d (buf_remove_end n b) = take (unat (buf_size b) - unat n) (block_view d b)"
proof -
  have le: "unat (b_start b) \<le> unat (b_zeroAreaStart b)" "unat (b_zeroAreaStart b) \<le> unat (b_zeroAreaEnd b)"
    "unat (b_zeroAreaEnd b) \<le> unat (b_end b)"
    using assms(1) by (simp_all add: buf_fits_def)
  define e where "e = b_end b - min n (b_end b - b_start b)"
  have e: "unat e = unat (b_end b) - min (unat n) (unat (b_end b) - unat (b_start b))"
    using le by (simp add: e_def unat32_sub unat32_min)
  then have e_le: "unat (b_start b) \<le> unat e" "unat e \<le> unat (b_end b)"
    "unat (buf_size b) - unat n = unat e - unat (b_start b)"
    using le buf_size_nat [OF assms(1)] by auto
  note lens = front_len_def zero_len_def back_len_def
  note view = take_block_view [OF assms] e_le(3)
  consider "e > b_zeroAreaEnd b"
    | "\<not> e > b_zeroAreaEnd b" "e > b_zeroAreaStart b"
    | "\<not> e > b_zeroAreaEnd b" "\<not> e > b_zeroAreaStart b" "e > b_start b"
    | "\<not> e > b_zeroAreaEnd b" "\<not> e > b_zeroAreaStart b" "\<not> e > b_start b"
    by blast
  then show ?thesis
  proof cases
    case 1
    then show ?thesis
      using le e_le(1,2) unfolding buf_remove_end_def e_def [symmetric] view
      by (auto simp: Let_def word_less_nat_alt shrunk_def phys_end_def block_view_def lens)
  next
    case 2
    then show ?thesis
      using le e_le(1,2) unfolding buf_remove_end_def e_def [symmetric] view
      by (auto simp: Let_def word_less_nat_alt shrunk_def phys_end_def block_view_def lens)
  next
    case 3
    then show ?thesis
      using le e_le(1,2) unfolding buf_remove_end_def e_def [symmetric] view
      by (auto simp: Let_def word_less_nat_alt shrunk_def phys_end_def block_view_def lens)
  next
    case 4
    then show ?thesis
      using le e_le(1,2) unfolding buf_remove_end_def e_def [symmetric] view
      by (auto simp: Let_def word_less_nat_alt shrunk_def phys_end_def block_view_def lens)
  qed
qed

lemma buf_remove_start_ok:
  assumes "world_ok w (add_mset b M)" and "unat n < 2 ^ 31"
  shows "\<exists>b'. buf_remove_start n b = Inr b' \<and> world_ok w (add_mset b' M) \<and>
    buf_view w b' = drop (unat n) (buf_view w b)"
proof -
  from world_ok_block [OF assms(1), of b] obtain d where d: "bw_data w (b_data b) = Some d" "buf_fits d b" "block_ok d"
    "buf_view w b = block_view d b"
    by auto
  have "unat (b_start b) + unat n < 2 ^ 32"
    using fits_less [OF d(2,3)] d(2) assms(2) by (simp add: buf_fits_def)
  from remove_start_shape [OF d(2,3) this] obtain b' where b': "buf_remove_start n b = Inr b'" "shrunk b b'"
    "block_view d b' = drop (unat n) (block_view d b)"
    by blast
  then have "buf_view w b' = drop (unat n) (buf_view w b)"
    using d by (simp add: buf_view_def shrunk_def)
  then show ?thesis
    using b'(1) shrunk_ok [OF assms(1) b'(2)] by blast
qed

lemma buf_remove_end_ok:
  assumes "world_ok w (add_mset b M)"
  shows "world_ok w (add_mset (buf_remove_end n b) M) \<and>
    buf_view w (buf_remove_end n b) = take (length (buf_view w b) - unat n) (buf_view w b)"
proof -
  from world_ok_block [OF assms, of b] obtain d where d: "bw_data w (b_data b) = Some d" "buf_fits d b" "block_ok d"
    "buf_view w b = block_view d b"
    by auto
  note s = remove_end_shape [OF d(2,3), of n]
  then have "buf_view w (buf_remove_end n b) = block_view d (buf_remove_end n b)"
    using d(1) by (simp add: buf_view_def shrunk_def)
  then show ?thesis
    using s d(4) shrunk_ok [OF assms] world_ok_view_length [OF assms, of b] by simp
qed

lemma buf_fragment_ok:
  assumes "world_ok w M" and "c \<in># M" and "size M < 2 ^ 32 - 1" and "unat start + unat len \<le> length (buf_view w c)"
  shows "\<exists>b w'. buf_fragment start len c w = Inr (b, w') \<and> world_ok w' (add_mset b M) \<and> keeps M w w' \<and>
    buf_view w' b = take (unat len) (drop (unat start) (buf_view w c))"
proof -
  from buf_copy_ok [OF assms(1-3)] obtain t w' where t: "buf_copy c w = Inr (t, w')" "world_ok w' (add_mset t M)"
    "keeps M w w'" "buf_view w' t = buf_view w c"
    by blast
  have size: "length (buf_view w c) = unat (buf_size c)"
    using world_ok_view_length [OF assms(1,2)] .
  obtain d where "buf_fits d c"
    using world_ok_block [OF assms(1,2)] by blast
  then have lt: "unat (buf_size c) < 2 ^ 29"
    by (auto simp: buf_size_nat) (auto simp: buf_fits_def)
  then have "unat start < 2 ^ 31"
    using assms(4) size by simp
  from buf_remove_start_ok [OF t(2) this] obtain t1 where t1: "buf_remove_start start t = Inr t1"
    "world_ok w' (add_mset t1 M)" "buf_view w' t1 = drop (unat start) (buf_view w' t)"
    by blast
  have "unat (buf_size c - (start + len)) = unat (buf_size c) - (unat start + unat len)"
    using assms(4) size lt by (subst unat32_sub) (auto simp: unat32_add)
  then show ?thesis
    using t t1 buf_remove_end_ok [OF t1(2), of "buf_size c - (start + len)"] assms(4) size
    by (auto simp: buf_fragment_def)
qed

end
