(* ===== verification/Buffer_Growth.thy ===== *)
theory Buffer_Growth
  imports Buffer_Sharing
begin

text \<open>
  Growing a buffer at its start and at its end, in place or by the move to a new block, and the writing
  of the bytes that were added: no other buffer sees it.
\<close>

section \<open>Spliced lists\<close>

lemma splice_length: "i + length ys \<le> length xs \<Longrightarrow> length (splice i ys xs) = length xs"
  by (simp add: splice_def)

lemma splice_get: "i + length ys \<le> length xs \<Longrightarrow> take (length ys) (drop i (splice i ys xs)) = ys"
  by (simp add: splice_def)

lemma splice_before: "j + n \<le> i \<Longrightarrow> i + length ys \<le> length xs \<Longrightarrow> take n (drop j (splice i ys xs)) = take n (drop j xs)"
  by (simp add: splice_def take_drop)

lemma splice_behind: "i + length ys \<le> j \<Longrightarrow> i + length ys \<le> length xs \<Longrightarrow> drop j (splice i ys xs) = drop j xs"
  by (simp add: splice_def)

section \<open>The move to a new block\<close>

lemma buf_move_ok:
  assumes "world_ok w (add_mset b M)" and "bw_data w (b_data b) = Some d"
    and "unat (buf_internal_size b) + unat n < 2 ^ 29" and "unat pos \<le> unat n"
  shows "\<exists>a w' d'. buf_move (buf_internal_size b + n) pos b w = Inr (a, w') \<and>
    heap_ok w' (add_mset a (image_mset b_data M)) \<and> same_blocks (b_data ` set_mset M) w w' \<and>
    (\<forall>c \<in># M. b_data c \<noteq> a) \<and> bw_data w' a = Some d' \<and> block_ok d' \<and>
    unat (buf_internal_size b) + unat n \<le> unat (bd_size d') \<and>
    take (length (stored d b)) (drop (unat pos) (bd_bytes d')) = stored d b"
proof -
  let ?A = "image_mset b_data M" and ?n = "buf_internal_size b + n"
  from world_ok_block [OF assms(1), of b] assms(2) have d: "buf_fits d b" "block_ok d"
    by auto
  have h: "heap_ok w (add_mset (b_data b) ?A)"
    using assms(1) by (simp add: world_ok_def)
  have n: "unat ?n = unat (buf_internal_size b) + unat n"
    using assms(3) by (intro unat32_add) simp
  with assms(3) have "unat ?n < 2 ^ 29"
    by simp
  from buf_create_ok [OF h this] obtain a w1 d1 where c: "buf_create ?n w = Inr (a, w1)"
    and a: "a \<noteq> b_data b" "a \<notin># ?A" and h1: "heap_ok w1 (add_mset a (add_mset (b_data b) ?A))"
    and s1: "same_blocks (set_mset (add_mset (b_data b) ?A)) w w1" and d1: "bw_data w1 a = Some d1"
    and size: "unat ?n \<le> unat (bd_size d1)"
    by auto
  obtain d0 where d0: "bw_data w1 (b_data b) = Some d0" "block_core d0 = block_core d"
    using same_blocks_get [OF s1 _ assms(2)] by auto
  have bd1: "block_ok d1"
    using heap_ok_block [OF h1 d1] by simp
  have int: "unat (buf_internal_size b) = length (stored d b)"
    using d by (simp add: internal_size_nat stored_length)
  have rd: "mem_read (b_data b) (b_start b) (buf_internal_size b) w1 = Inr (stored d b)"
  proof -
    have "bd_bytes d0 = bd_bytes d"
      using d0(2) by (simp add: block_core_def)
    moreover have "unat (b_start b) + (front_len b + back_len b) \<le> length (bd_bytes d)"
      using d by (auto simp: buf_fits_def block_ok_def phys_end_def front_len_def)
    ultimately show ?thesis
      using d0(1) by (simp add: mem_read_def internal_size_nat [OF d(1)] stored_def)
  qed
  let ?d = "d1\<lparr>bd_bytes := splice (unat pos) (stored d b) (bd_bytes d1)\<rparr>"
  have fit: "unat pos + length (stored d b) \<le> length (bd_bytes d1)"
    using size n int assms(4) bd1 by (simp add: block_ok_def)
  then have bd: "block_ok ?d"
    using bd1 by (simp add: block_ok_def splice_length)
  have wr: "mem_write a pos (stored d b) w1 = Inr (bw_put a ?d w1)"
    using fit d1 by (simp add: mem_write_def)
  have "heap_ok (bw_put a ?d w1) (add_mset a (add_mset (b_data b) ?A))"
    by (rule heap_ok_put_same [OF h1 d1 _ bd]) simp_all
  then have "heap_ok (bw_put a ?d w1) (add_mset (b_data b) (add_mset a ?A))"
    by (simp add: add_mset_commute)
  from buf_release_ok [OF this] obtain w' where w': "buf_release (b_data b) (bw_put a ?d w1) = Inr w'"
    "heap_ok w' (add_mset a ?A)" "same_blocks (set_mset (add_mset a ?A)) (bw_put a ?d w1) w'"
    by blast
  obtain d' where d': "bw_data w' a = Some d'" "block_core d' = block_core ?d"
    using same_blocks_get [OF w'(3), of a ?d] by auto
  have "same_blocks (b_data ` set_mset M) w w'"
    using same_blocks_trans [OF same_blocks_mono [OF s1] same_blocks_trans [OF same_blocks_put same_blocks_mono [OF w'(3)]]]
      a(2) by auto
  moreover have "block_ok d'" "bd_size d' = bd_size d1" "bd_bytes d' = splice (unat pos) (stored d b) (bd_bytes d1)"
    using d'(2) heap_ok_block [OF w'(2) d'(1)] by (simp_all add: block_core_def)
  moreover have "\<forall>c \<in># M. b_data c \<noteq> a"
    using a(2) by auto
  ultimately show ?thesis
    using c rd wr w' d' size n splice_get [OF fit] by (auto simp: buf_move_def)
qed

text \<open>The buffer in its new place: what it stores begins at \<open>pos\<close>, and the rest is what the block happens to hold.\<close>

lemma block_view_moved:
  assumes "buf_fits d b" and "block_ok d"
    and "take (length (stored d b)) (drop pos (bd_bytes d')) = stored d b"
    and "unat (b_start b') = 0" and "unat (b_zeroAreaStart b') = pos + front_len b" and "zero_len b' = zero_len b"
  shows "back_len b' = back_len b \<Longrightarrow> block_view d' b' = take pos (bd_bytes d') @ block_view d b"
    and "pos = 0 \<Longrightarrow> back_len b \<le> back_len b' \<Longrightarrow> block_view d' b' =
      block_view d b @ take (back_len b' - back_len b) (drop (front_len b + back_len b) (bd_bytes d'))"
proof -
  let ?f = "front_len b" and ?k = "back_len b" and ?X = "drop pos (bd_bytes d')" and ?S = "stored d b"
  have len: "length ?S = ?f + ?k"
    using assms(1,2) by (rule stored_length)
  then have S: "?S = take (?f + ?k) ?X"
    using assms(3) by simp
  have f: "take ?f ?S = take ?f ?X" and k: "drop ?f ?S = take ?k (drop ?f ?X)"
    by (simp_all add: S drop_take min.absorb1)
  have front: "take (front_len b') (drop (unat (b_start b')) (bd_bytes d')) = take pos (bd_bytes d') @ take ?f ?S"
    using assms(4,5) f by (simp add: front_len_def take_add)
  have rear: "drop (unat (b_zeroAreaStart b')) (bd_bytes d') = drop ?f ?X"
    using assms(5) by (simp add: add.commute)
  show "block_view d' b' = take pos (bd_bytes d') @ block_view d b" if "back_len b' = ?k"
    unfolding block_view_def [of d'] front rear block_view_stored [OF assms(1)] using that assms(6) k by simp
  show "block_view d' b' = block_view d b @ take (back_len b' - ?k) (drop (?f + ?k) (bd_bytes d'))"
    if "pos = 0" "?k \<le> back_len b'"
  proof -
    have "take (back_len b') (drop ?f ?X) = take (?k + (back_len b' - ?k)) (drop ?f ?X)"
      using that(2) by simp
    also have "\<dots> = drop ?f ?S @ take (back_len b' - ?k) (drop (?f + ?k) (bd_bytes d'))"
      using that(1) by (simp only: take_add k drop_drop drop_0) (simp add: add.commute)
    finally show ?thesis
      unfolding block_view_def [of d'] front rear block_view_stored [OF assms(1)] using that(1) assms(6) by simp
  qed
qed

section \<open>Growing\<close>

text \<open>The bytes that were added are those of no other buffer.\<close>

definition room_start :: "buf multiset \<Rightarrow> buf \<Rightarrow> nat \<Rightarrow> bool" where
  "room_start M b n \<longleftrightarrow>
     unat (b_start b) + n \<le> unat (b_zeroAreaStart b) \<and>
     (\<forall>c \<in># M. b_data c = b_data b \<longrightarrow> unat (b_start b) + n \<le> unat (b_start c))"

definition room_end :: "buf multiset \<Rightarrow> buf \<Rightarrow> nat \<Rightarrow> bool" where
  "room_end M b n \<longleftrightarrow>
     n \<le> back_len b \<and> (\<forall>c \<in># M. b_data c = b_data b \<longrightarrow> phys_end c + n \<le> phys_end b)"

lemma world_ok_in_place:
  assumes "world_ok w (add_mset b M)" and "bw_data w (b_data b) = Some d"
    and "bd_count d' = bd_count d" "bd_size d' = bd_size d" "bd_bytes d' = bd_bytes d"
    and "b_data b' = b_data b" and "buf_fits d' b'"
    and "\<And>c. c \<in># M \<Longrightarrow> b_data c = b_data b \<Longrightarrow> buf_fits d c \<Longrightarrow> buf_fits d' c"
    and "b_end b' = bd_dirtyEnd d' \<Longrightarrow> \<forall>x \<in># M. b_data x = b_data b \<longrightarrow> phys_end x \<le> phys_end b'"
    and "\<And>c. c \<in># M \<Longrightarrow> b_data c = b_data b \<Longrightarrow> buf_fits d c \<Longrightarrow> b_end c = bd_dirtyEnd d' \<Longrightarrow>
      b_end c = bd_dirtyEnd d \<and> phys_end b' = phys_end b"
  shows "world_ok (bw_put (b_data b) d' w) (add_mset b' M) \<and> keeps M w (bw_put (b_data b) d' w)"
proof -
  let ?w = "bw_put (b_data b) d' w"
  have h: "heap_ok w (image_mset b_data (add_mset b M))"
    using assms(1) by (simp add: world_ok_def)
  have "block_ok d'"
    using heap_ok_block [OF h assms(2)] assms(4,5) by (simp add: block_ok_def)
  then have h': "heap_ok ?w (image_mset b_data (add_mset b' M))"
    using assms(6) by (simp add: heap_ok_put_same [OF h assms(2) _ _ assms(3), simplified])
  have old: "\<exists>e. bw_data w (b_data c) = Some e \<and> buf_fits e c \<and>
      (b_end c = bd_dirtyEnd e \<longrightarrow> (\<forall>x \<in># add_mset b M. b_data x = b_data c \<longrightarrow> phys_end x \<le> phys_end c))"
    if "c \<in># M" for c
    using assms(1) that unfolding world_ok_def buf_placed_def by auto
  have pl: "buf_placed ?w (add_mset b' M) c" if c: "c \<in># M" for c
  proof (cases "b_data c = b_data b")
    case True
    then have fits: "buf_fits d c"
      and tail: "b_end c = bd_dirtyEnd d \<longrightarrow> (\<forall>x \<in># add_mset b M. b_data x = b_data c \<longrightarrow> phys_end x \<le> phys_end c)"
      using old [OF c] assms(2) by auto
    have "\<forall>x \<in># add_mset b' M. b_data x = b_data c \<longrightarrow> phys_end x \<le> phys_end c" if "b_end c = bd_dirtyEnd d'"
      using assms(10) [OF c True fits that] tail True by auto
    then show ?thesis
      using True assms(8) [OF c True fits] by (auto simp: buf_placed_def)
  next
    case False
    then show ?thesis
      using old [OF c] assms(6) by (auto simp: buf_placed_def)
  qed
  moreover have "buf_placed ?w (add_mset b' M) b'"
    using assms(6,7,9) by (auto simp: buf_placed_def)
  moreover have "keeps M w ?w"
    using assms(2,5) by (auto simp: keeps_def buf_view_def block_view_def)
  ultimately show ?thesis
    using h' by (auto simp: world_ok_def)
qed

lemma unat32_shift:
  fixes x s n :: "32 word"
  assumes "unat s \<le> unat x" and "unat x < 2 ^ 31" and "unat n < 2 ^ 29"
  shows "unat (x + (n - s)) = unat n + (unat x - unat s)"
proof -
  have "x + (n - s) = n + (x - s)"
    by simp
  moreover have "unat (x - s) = unat x - unat s"
    using assms(1) by (rule unat32_sub)
  ultimately show ?thesis
    using assms(2,3) by (simp only:) (subst unat32_add, simp_all)
qed

text \<open>The end of the move: the buffer is the only one in its new block.\<close>

lemma world_ok_moved:
  assumes "world_ok w (add_mset b M)" and "heap_ok w' (add_mset a (image_mset b_data M))"
    and "same_blocks (b_data ` set_mset M) w w'" and "\<forall>c \<in># M. b_data c \<noteq> a" and "bw_data w' a = Some d'"
    and "b_data b' = a" and "buf_fits (d'\<lparr>bd_dirtyStart := b_start b', bd_dirtyEnd := b_end b'\<rparr>) b'"
  shows "\<exists>w''. bw_dirty a b' w' = Inr w'' \<and> world_ok w'' (add_mset b' M) \<and> keeps M w w'' \<and>
    buf_view w'' b' = block_view d' b'"
proof -
  let ?d = "d'\<lparr>bd_dirtyStart := b_start b', bd_dirtyEnd := b_end b'\<rparr>"
  have "block_ok d'"
    using heap_ok_block [OF assms(2,5)] by simp
  then have "block_ok ?d"
    by (simp add: block_ok_def)
  then have h: "heap_ok (bw_put a ?d w') (image_mset b_data (add_mset b' M))"
    using assms(6) by (simp add: heap_ok_put_same [OF assms(2,5)])
  have "a \<notin> b_data ` set_mset M"
    using assms(4) by (metis imageE)
  then have s: "same_blocks (b_data ` set_mset M) w (bw_put a ?d w')"
    using same_blocks_trans [OF assms(3) same_blocks_put] by blast
  have pl: "buf_placed (bw_put a ?d w') M c" if "c \<in># M" for c
  proof -
    have "buf_placed w M c"
      using assms(1) that placed_mono [of w "add_mset b M" c M] by (auto simp: world_ok_def)
    then show ?thesis
      using buf_placed_same(1) [OF _ s] that by simp
  qed
  have "buf_placed (bw_put a ?d w') (add_mset b' M) c" if "c \<in># M" for c
    using pl [OF that] assms(4,6) that by (auto simp: buf_placed_def)
  moreover have "buf_placed (bw_put a ?d w') (add_mset b' M) b'"
    using assms(4,6,7) by (auto simp: buf_placed_def)
  ultimately have "world_ok (bw_put a ?d w') (add_mset b' M)"
    using h by (auto simp: world_ok_def)
  moreover have "keeps M w (bw_put a ?d w')"
    using buf_placed_same(2) [OF _ s] assms(1) by (auto simp: keeps_def world_ok_def)
  moreover have "buf_view (bw_put a ?d w') b' = block_view d' b'"
    using assms(6) by (simp add: buf_view_def block_view_def)
  ultimately show ?thesis
    using assms(5) by (simp add: bw_dirty_def)
qed

text \<open>What growing by \<open>n\<close> bytes at the start gives: \<open>g\<close> is what the memory holds there.\<close>

definition grown_start :: "buf_world \<Rightarrow> buf \<Rightarrow> buf multiset \<Rightarrow> nat \<Rightarrow> buf \<times> buf_world \<Rightarrow> bool" where
  "grown_start w b M n r \<longleftrightarrow>
     (case r of (b', w') \<Rightarrow> world_ok w' (add_mset b' M) \<and> keeps M w w' \<and> room_start M b' n \<and> zero_len b' = zero_len b \<and>
        (b_data b' = b_data b \<or> (\<forall>c \<in># M. b_data c \<noteq> b_data b')) \<and>
        (\<exists>g. length g = n \<and> buf_view w' b' = g @ buf_view w b))"

definition grown_end :: "buf_world \<Rightarrow> buf \<Rightarrow> buf multiset \<Rightarrow> nat \<Rightarrow> buf \<times> buf_world \<Rightarrow> bool" where
  "grown_end w b M n r \<longleftrightarrow>
     (case r of (b', w') \<Rightarrow> world_ok w' (add_mset b' M) \<and> keeps M w w' \<and> room_end M b' n \<and> zero_len b' = zero_len b \<and>
        (b_data b' = b_data b \<or> (\<forall>c \<in># M. b_data c \<noteq> b_data b')) \<and>
        (\<exists>g. length g = n \<and> buf_view w' b' = buf_view w b @ g))"

lemma add_start_moved:
  assumes "world_ok w (add_mset b M)" and "bw_data w (b_data b) = Some d" and "length (buf_view w b) + unat n < 2 ^ 29"
  shows "\<exists>a w1 w2. buf_move (buf_internal_size b + n) n b w = Inr (a, w1) \<and>
    bw_dirty a ((buf_shift (n - b_start b) (b\<lparr>b_data := a\<rparr>))\<lparr>b_start := 0\<rparr>) w1 = Inr w2 \<and>
    grown_start w b M (unat n) ((buf_shift (n - b_start b) (b\<lparr>b_data := a\<rparr>))\<lparr>b_start := 0\<rparr>, w2)"
proof -
  from world_ok_block [OF assms(1), of b] assms(2) have d: "buf_fits d b" "block_ok d" "buf_view w b = block_view d b"
    by auto
  have len: "length (buf_view w b) = unat (b_end b) - unat (b_start b)"
    using d by (simp add: block_view_length)
  have le: "unat (b_start b) \<le> unat (b_zeroAreaStart b)" "unat (b_zeroAreaStart b) \<le> unat (b_zeroAreaEnd b)"
    "unat (b_zeroAreaEnd b) \<le> unat (b_end b)" and lt: "unat (b_end b) < 2 ^ 31"
    using d(1) fits_less [OF d(1,2)] by (simp_all add: buf_fits_def)
  note lens = front_len_def zero_len_def back_len_def
  have int: "unat (buf_internal_size b) = front_len b + back_len b"
    by (rule internal_size_nat [OF d(1)])
  have "front_len b + back_len b \<le> length (buf_view w b)"
    using le len by (simp add: lens)
  with assms(3) int have small: "unat (buf_internal_size b) + unat n < 2 ^ 29"
    by simp
  from buf_move_ok [OF assms(1,2) small order_refl] obtain a w1 d1
    where m: "buf_move (buf_internal_size b + n) n b w = Inr (a, w1)"
      and h: "heap_ok w1 (add_mset a (image_mset b_data M))" "same_blocks (b_data ` set_mset M) w w1"
        "\<forall>c \<in># M. b_data c \<noteq> a" "bw_data w1 a = Some d1"
      and d1: "block_ok d1" "unat (buf_internal_size b) + unat n \<le> unat (bd_size d1)"
        "take (length (stored d b)) (drop (unat n) (bd_bytes d1)) = stored d b"
    by blast
  define b' where "b' = (buf_shift (n - b_start b) (b\<lparr>b_data := a\<rparr>))\<lparr>b_start := 0\<rparr>"
  have n: "unat n < 2 ^ 29"
    using assms(3) by simp
  have f: "b_data b' = a" "unat (b_start b') = 0"
    "unat (b_zeroAreaStart b') = unat n + (unat (b_zeroAreaStart b) - unat (b_start b))"
    "unat (b_zeroAreaEnd b') = unat n + (unat (b_zeroAreaEnd b) - unat (b_start b))"
    "unat (b_end b') = unat n + (unat (b_end b) - unat (b_start b))"
    using le lt n by (simp_all add: b'_def buf_shift_def unat32_shift)
  have l: "zero_len b' = zero_len b" "back_len b' = back_len b"
    using f le by (simp_all add: lens)
  have "unat n + front_len b + back_len b \<le> unat (bd_size d1)" "unat n + (unat (b_end b) - unat (b_start b)) < 2 ^ 29"
    using d1(2) int len assms(3) by simp_all
  then have "buf_fits (d1\<lparr>bd_dirtyStart := b_start b', bd_dirtyEnd := b_end b'\<rparr>) b'"
    unfolding buf_fits_def phys_end_def f l buf_block.simps using le by (simp add: f front_len_def diff_le_mono)
  from world_ok_moved [OF assms(1) h f(1) this] obtain w2 where w2: "bw_dirty a b' w1 = Inr w2"
    "world_ok w2 (add_mset b' M)" "keeps M w w2" "buf_view w2 b' = block_view d1 b'"
    by blast
  have "block_view d1 b' = take (unat n) (bd_bytes d1) @ block_view d b"
    using f l by (intro block_view_moved(1) [OF d(1,2) d1(3)]) (simp_all add: front_len_def)
  moreover have "length (take (unat n) (bd_bytes d1)) = unat n"
    using d1(1,2) by (simp add: block_ok_def)
  moreover have "room_start M b' (unat n)"
    using f h(3) by (auto simp: room_start_def)
  ultimately have "grown_start w b M (unat n) (b', w2)"
    using w2 d(3) h(3) f(1) l(1) by (auto simp: grown_start_def)
  then show ?thesis
    using m w2(1) unfolding b'_def by blast
qed

lemma grown_note:
  "grown_start w b M n (b', w') \<Longrightarrow> grown_start w b M n (buf_note_zero b', w')"
  "grown_end w b M n (b', w') \<Longrightarrow> grown_end w b M n (buf_note_zero b', w')"
proof -
  have p: "same_place (buf_note_zero b') b'"
    by (simp add: same_place_def)
  have "shrunk b' (buf_note_zero b')" if W: "world_ok w' (add_mset b' M)"
  proof -
    obtain d where "buf_fits d b'"
      using world_ok_block [OF W] by (metis union_single_eq_member)
    then show ?thesis
      using same_place_lens [OF p] by (simp add: shrunk_def buf_fits_def)
  qed
  then have W: "world_ok w' (add_mset b' M) \<Longrightarrow> world_ok w' (add_mset (buf_note_zero b') M)"
    using shrunk_ok by blast
  note l = same_place_lens [OF p] same_place_view [OF p]
  show "grown_start w b M n (b', w') \<Longrightarrow> grown_start w b M n (buf_note_zero b', w')"
    "grown_end w b M n (b', w') \<Longrightarrow> grown_end w b M n (buf_note_zero b', w')"
    using W l by (simp_all add: grown_start_def grown_end_def room_start_def room_end_def)
qed

lemma add_start_in_place:
  assumes "world_ok w (add_mset b M)" and "bw_data w (b_data b) = Some d"
    and "length (buf_view w b) + unat n < 2 ^ 29" and "n \<le> b_start b" and "bd_count d = 1 \<or> b_start b = bd_dirtyStart d"
  shows "grown_start w b M (unat n)
    (b\<lparr>b_start := b_start b - n\<rparr>, bw_put (b_data b) (d\<lparr>bd_dirtyStart := b_start b - n\<rparr>) w)"
proof -
  let ?b = "b\<lparr>b_start := b_start b - n\<rparr>" and ?d = "d\<lparr>bd_dirtyStart := b_start b - n\<rparr>"
  from world_ok_block [OF assms(1), of b] assms(2) have d: "buf_fits d b" "block_ok d" "buf_view w b = block_view d b"
    by auto
  have s: "unat (b_start b - n) + unat n = unat (b_start b)"
    using assms(4) by (simp add: unat32_sub word_le_nat_alt)
  have len: "length (buf_view w b) = unat (b_end b) - unat (b_start b)"
    using d by (simp add: block_view_length)
  have pe: "phys_end ?b = phys_end b"
    by (simp add: phys_end_def back_len_def)
  have fits: "buf_fits ?d ?b"
    using d(1) s len assms(3) pe by (auto simp: buf_fits_def)
  have old: "unat (b_start b) \<le> unat (b_start c)" if "c \<in># M" "b_data c = b_data b" "buf_fits d c" for c
    using assms(5) that sole_owner [OF assms(1,2)] by (auto simp: buf_fits_def)
  then have "buf_fits ?d c" if "c \<in># M" "b_data c = b_data b" "buf_fits d c" for c
    using that s by (force simp: buf_fits_def)
  moreover have "\<forall>x \<in># M. b_data x = b_data b \<longrightarrow> phys_end x \<le> phys_end ?b" if "b_end ?b = bd_dirtyEnd ?d"
    using assms(1,2) that pe by (auto simp: world_ok_def buf_placed_def)
  ultimately have W: "world_ok (bw_put (b_data b) ?d w) (add_mset ?b M) \<and> keeps M w (bw_put (b_data b) ?d w)"
    using fits pe by (intro world_ok_in_place [OF assms(1,2)]) simp_all
  have room: "room_start M ?b (unat n)"
  proof -
    have "unat (b_start b) \<le> unat (b_start c)" if "c \<in># M" "b_data c = b_data b" for c
      using old [OF that] assms(1,2) that by (auto simp: world_ok_def buf_placed_def)
    then show ?thesis
      using s d(1) by (auto simp: room_start_def buf_fits_def)
  qed
  have f: "front_len ?b = unat n + front_len b" "back_len ?b = back_len b" "zero_len ?b = zero_len b"
    using s d(1) by (auto simp: front_len_def back_len_def zero_len_def buf_fits_def)
  have "block_view ?d ?b = take (unat n) (drop (unat (b_start b - n)) (bd_bytes d)) @ block_view d b"
    unfolding block_view_def f using s by (simp add: take_add add.commute [of "unat (b_start b - n)"])
  moreover have "length (take (unat n) (drop (unat (b_start b - n)) (bd_bytes d))) = unat n"
    using s d(1,2) by (auto simp: buf_fits_def block_ok_def phys_end_def)
  ultimately show ?thesis
    using W room d(3) f(3) by (auto simp: grown_start_def buf_view_def)
qed

lemma buf_add_start_ok:
  assumes "world_ok w (add_mset b M)" and "length (buf_view w b) + unat n < 2 ^ 29"
  shows "\<exists>r. buf_add_start n b w = Inr r \<and> grown_start w b M (unat n) r"
proof -
  from world_ok_block [OF assms(1), of b] obtain d where d: "bw_data w (b_data b) = Some d" "buf_fits d b"
    by auto
  note owner = sole_owner(2) [OF assms(1) d(1)]
  show ?thesis
  proof (cases "b_start b \<ge> n \<and> \<not> (bd_count d > 1 \<and> b_start b > bd_dirtyStart d)")
    case True
    then have c: "bd_count d = 1 \<or> b_start b = bd_dirtyStart d"
      using owner d(2) by (auto simp: buf_fits_def word_le_nat_alt [symmetric])
    have "n \<le> b_start b"
      using True by simp
    from grown_note(1) [OF add_start_in_place [OF assms(1) d(1) assms(2) this c]] show ?thesis
      using True c d(1) by (auto simp: buf_add_start_def Let_def)
  next
    case False
    from add_start_moved [OF assms(1) d(1) assms(2)] obtain a w1 w2 where
      "buf_move (buf_internal_size b + n) n b w = Inr (a, w1)"
      "bw_dirty a ((buf_shift (n - b_start b) (b\<lparr>b_data := a\<rparr>))\<lparr>b_start := 0\<rparr>) w1 = Inr w2"
      "grown_start w b M (unat n) ((buf_shift (n - b_start b) (b\<lparr>b_data := a\<rparr>))\<lparr>b_start := 0\<rparr>, w2)"
      by blast
    then show ?thesis
      using False d(1) grown_note(1) by (auto simp: buf_add_start_def Let_def buf_shift_def)
  qed
qed

lemma add_end_moved:
  assumes "world_ok w (add_mset b M)" and "bw_data w (b_data b) = Some d" and "length (buf_view w b) + unat n < 2 ^ 29"
  defines "b' \<equiv> \<lambda>a. (buf_shift (- b_start b) (b\<lparr>b_data := a\<rparr>))\<lparr>b_end := b_end b - b_start b + n\<rparr>"
  shows "\<exists>a w1 w2. buf_move (buf_internal_size b + n) 0 b w = Inr (a, w1) \<and> bw_dirty a (b' a) w1 = Inr w2 \<and>
    grown_end w b M (unat n) (b' a, w2) \<and> (\<forall>c \<in># M. b_data c \<noteq> a)"
proof -
  from world_ok_block [OF assms(1), of b] assms(2) have d: "buf_fits d b" "block_ok d" "buf_view w b = block_view d b"
    by auto
  have len: "length (buf_view w b) = unat (b_end b) - unat (b_start b)"
    using d by (simp add: block_view_length)
  have le: "unat (b_start b) \<le> unat (b_zeroAreaStart b)" "unat (b_zeroAreaStart b) \<le> unat (b_zeroAreaEnd b)"
    "unat (b_zeroAreaEnd b) \<le> unat (b_end b)" and lt: "unat (b_end b) < 2 ^ 31"
    using d(1) fits_less [OF d(1,2)] by (simp_all add: buf_fits_def)
  note lens = front_len_def zero_len_def back_len_def
  have int: "unat (buf_internal_size b) = front_len b + back_len b"
    by (rule internal_size_nat [OF d(1)])
  have "front_len b + back_len b \<le> length (buf_view w b)"
    using le len by (simp add: lens)
  with assms(3) int have small: "unat (buf_internal_size b) + unat n < 2 ^ 29"
    by simp
  have "unat 0 \<le> unat n"
    by simp
  from buf_move_ok [OF assms(1,2) small this] obtain a w1 d1
    where m: "buf_move (buf_internal_size b + n) 0 b w = Inr (a, w1)"
      and h: "heap_ok w1 (add_mset a (image_mset b_data M))" "same_blocks (b_data ` set_mset M) w w1"
        "\<forall>c \<in># M. b_data c \<noteq> a" "bw_data w1 a = Some d1"
      and d1: "block_ok d1" "unat (buf_internal_size b) + unat n \<le> unat (bd_size d1)"
        "take (length (stored d b)) (drop 0 (bd_bytes d1)) = stored d b"
    by auto
  have e: "unat (b_end b - b_start b + n) = unat (b_end b) - unat (b_start b) + unat n"
    using len assms(3) le by (subst unat32_add) (auto simp: unat32_sub)
  have f: "b_data (b' a) = a" "unat (b_start (b' a)) = 0"
    "unat (b_zeroAreaStart (b' a)) = unat (b_zeroAreaStart b) - unat (b_start b)"
    "unat (b_zeroAreaEnd (b' a)) = unat (b_zeroAreaEnd b) - unat (b_start b)"
    "unat (b_end (b' a)) = unat (b_end b) - unat (b_start b) + unat n"
    using le lt e by (simp_all add: b'_def buf_shift_def unat32_sub)
  have l: "zero_len (b' a) = zero_len b" "back_len (b' a) = back_len b + unat n"
    using f le by (auto simp: lens)
  have "front_len b + back_len b + unat n \<le> unat (bd_size d1)" "unat (b_end b) - unat (b_start b) + unat n < 2 ^ 29"
    using d1(2) int len assms(3) by simp_all
  then have "buf_fits (d1\<lparr>bd_dirtyStart := b_start (b' a), bd_dirtyEnd := b_end (b' a)\<rparr>) (b' a)"
    unfolding buf_fits_def phys_end_def f l buf_block.simps using le
    by (simp add: f front_len_def diff_le_mono trans_le_add1 add.assoc)
  from world_ok_moved [OF assms(1) h f(1) this] obtain w2 where w2: "bw_dirty a (b' a) w1 = Inr w2"
    "world_ok w2 (add_mset (b' a) M)" "keeps M w w2" "buf_view w2 (b' a) = block_view d1 (b' a)"
    by blast
  have "block_view d1 (b' a) = block_view d b @ take (unat n) (drop (front_len b + back_len b) (bd_bytes d1))"
    using block_view_moved(2) [OF d(1,2) d1(3) f(2) _ l(1)] f(3) l(2) by (simp add: front_len_def)
  moreover have "length (take (unat n) (drop (front_len b + back_len b) (bd_bytes d1))) = unat n"
    using d1(1,2) int by (simp add: block_ok_def)
  moreover have "room_end M (b' a) (unat n)"
    using f l h(3) by (auto simp: room_end_def)
  ultimately have "grown_end w b M (unat n) (b' a, w2)"
    using w2 d(3) h(3) f(1) l(1) by (auto simp: grown_end_def)
  then show ?thesis
    using m w2(1) h(3) f(1) by blast
qed

lemma add_end_in_place:
  assumes "world_ok w (add_mset b M)" and "bw_data w (b_data b) = Some d"
    and "length (buf_view w b) + unat n < 2 ^ 29" and "phys_end b + unat n \<le> unat (bd_size d)"
    and "bd_count d = 1 \<or> b_end b = bd_dirtyEnd d"
  shows "grown_end w b M (unat n)
    (b\<lparr>b_end := b_end b + n\<rparr>, bw_put (b_data b) (d\<lparr>bd_dirtyEnd := b_end b + n\<rparr>) w)"
proof -
  let ?b = "b\<lparr>b_end := b_end b + n\<rparr>" and ?d = "d\<lparr>bd_dirtyEnd := b_end b + n\<rparr>"
  from world_ok_block [OF assms(1), of b] assms(2) have d: "buf_fits d b" "block_ok d" "buf_view w b = block_view d b"
    by auto
  have s: "unat (b_end b + n) = unat (b_end b) + unat n"
    using fits_less [OF d(1,2)] assms(3) by (intro unat32_add) simp
  have len: "length (buf_view w b) = unat (b_end b) - unat (b_start b)"
    using d by (simp add: block_view_length)
  have f: "front_len ?b = front_len b" "back_len ?b = back_len b + unat n" "zero_len ?b = zero_len b"
    "phys_end ?b = phys_end b + unat n"
    using s d(1) by (auto simp: front_len_def back_len_def zero_len_def phys_end_def buf_fits_def)
  have fits: "buf_fits ?d ?b"
    using d(1) s len assms(3,4) f(4) by (auto simp: buf_fits_def)
  have tail: "\<forall>x \<in># M. b_data x = b_data b \<longrightarrow> phys_end x \<le> phys_end b"
    using assms(1,2,5) sole_owner(1) [OF assms(1,2)] by (auto simp: world_ok_def buf_placed_def)
  have old: "unat (b_end c) \<le> unat (b_end b)" "b_end b = bd_dirtyEnd d" if "c \<in># M" "b_data c = b_data b" "buf_fits d c" for c
    using assms(5) that sole_owner(1) [OF assms(1,2)] by (auto simp: buf_fits_def)
  have c1: "buf_fits ?d c" if "c \<in># M" "b_data c = b_data b" "buf_fits d c" for c
    using old(1) [OF that] that(3) s by (simp add: buf_fits_def)
  have c2: "b_end c = bd_dirtyEnd d \<and> phys_end ?b = phys_end b"
    if "c \<in># M" "b_data c = b_data b" "buf_fits d c" "b_end c = b_end b + n" for c
  proof -
    have "unat (b_end b) + unat n \<le> unat (b_end b)"
      using old(1) [OF that(1-3)] that(4) s by simp
    then have "unat n = 0"
      by simp
    then show ?thesis
      using old(2) [OF that(1-3)] that(4) f(4) by (simp add: unat_eq_zero)
  qed
  have W: "world_ok (bw_put (b_data b) ?d w) (add_mset ?b M) \<and> keeps M w (bw_put (b_data b) ?d w)"
    using fits tail c1 c2 f(4) by (intro world_ok_in_place [OF assms(1,2)]) auto
  have room: "room_end M ?b (unat n)"
    using tail f by (simp add: room_end_def)
  have "block_view ?d ?b = block_view d b @ take (unat n) (drop (phys_end b) (bd_bytes d))"
    unfolding block_view_def f by (simp add: take_add phys_end_def add.commute)
  moreover have "length (take (unat n) (drop (phys_end b) (bd_bytes d))) = unat n"
    using assms(4) d(2) by (auto simp: block_ok_def)
  ultimately show ?thesis
    using W room d(3) f(3) by (auto simp: grown_end_def buf_view_def)
qed

lemma buf_add_end_moves:
  assumes "world_ok w (add_mset b M)" and "length (buf_view w b) + unat n < 2 ^ 29"
  shows "\<exists>r. buf_add_end n b w = Inr r \<and> grown_end w b M (unat n) r \<and>
    (\<forall>d. bw_data w (b_data b) = Some d \<longrightarrow> (\<exists>c \<in># M. b_data c = b_data b) \<longrightarrow> b_end b \<noteq> bd_dirtyEnd d \<longrightarrow>
      (\<forall>c \<in># M. b_data c \<noteq> b_data (fst r)))"
proof -
  from world_ok_block [OF assms(1), of b] obtain e where d: "bw_data w (b_data b) = Some e" "buf_fits e b" "block_ok e"
    by auto
  note owner = sole_owner [OF assms(1) d(1)]
  have "unat (buf_internal_end b + n) = phys_end b + unat n"
    using d assms(2) by (subst unat32_add) (auto simp: internal_end_nat buf_fits_def block_ok_def)
  then have room: "buf_internal_end b + n \<le> bd_size e \<longleftrightarrow> phys_end b + unat n \<le> unat (bd_size e)"
    by (simp add: word_le_nat_alt)
  show ?thesis
  proof (cases "buf_internal_end b + n \<le> bd_size e \<and> \<not> (bd_count e > 1 \<and> b_end b < bd_dirtyEnd e)")
    case True
    then have c: "bd_count e = 1 \<or> b_end b = bd_dirtyEnd e"
      using owner d(2) by (auto simp: buf_fits_def word_le_nat_alt [symmetric])
    have "phys_end b + unat n \<le> unat (bd_size e)"
      using True room by simp
    from grown_note(2) [OF add_end_in_place [OF assms(1) d(1) assms(2) this c]] show ?thesis
      using True c d(1) owner(1) by (auto simp: buf_add_end_def Let_def)
  next
    case False
    let ?b = "\<lambda>a. (buf_shift (- b_start b) (b\<lparr>b_data := a\<rparr>))\<lparr>b_end := b_end b - b_start b + n\<rparr>"
    from add_end_moved [OF assms(1) d(1) assms(2)] obtain a w1 w2 where
      m: "buf_move (buf_internal_size b + n) 0 b w = Inr (a, w1)" "bw_dirty a (?b a) w1 = Inr w2"
      and g: "grown_end w b M (unat n) (?b a, w2)" and a: "\<forall>c \<in># M. b_data c \<noteq> a"
      by blast
    have "buf_add_end n b w = Inr (buf_note_zero (?b a), w2)"
      using False d(1) m by (auto simp: buf_add_end_def Let_def buf_shift_def)
    moreover have "b_data (buf_note_zero (?b a)) = a"
      by (simp add: buf_shift_def)
    ultimately show ?thesis
      using grown_note(2) [OF g] a by (intro exI [of _ "(buf_note_zero (?b a), w2)"]) simp
  qed
qed

lemma buf_add_end_ok:
  assumes "world_ok w (add_mset b M)" and "length (buf_view w b) + unat n < 2 ^ 29"
  shows "\<exists>r. buf_add_end n b w = Inr r \<and> grown_end w b M (unat n) r"
  using buf_add_end_moves [OF assms] by blast

end
