(* ===== verification/Buffer_Writing.thy ===== *)
theory Buffer_Writing
  imports Buffer_Growth
begin

text \<open>
  Writing through \<open>Buffer::Iterator\<close>: in front of the zero area or behind it, the write operations store
  the same bytes at the same place; written where no other buffer looks, they change the bytes of
  their own buffer only. Growing and writing together are \<open>prepended\<close> and \<open>appended\<close> bytes.
\<close>

section \<open>Writes into a view\<close>

lemma splice_nth: "i + length ys \<le> length xs \<Longrightarrow> j < length xs \<Longrightarrow>
  splice i ys xs ! j = (if j < i then xs ! j else if j < i + length ys then ys ! (j - i) else xs ! j)"
  by (auto simp: splice_def nth_append min_def)

lemma splice_append1: "i + length ys \<le> length xs \<Longrightarrow> splice i ys (xs @ zs) = splice i ys xs @ zs"
  by (simp add: splice_def)

lemma splice_append2: "splice (length xs + i) ys (xs @ zs) = xs @ splice i ys zs"
  by (simp add: splice_def)

lemma splice_within:
  assumes "s \<le> p" and "p + length ys \<le> s + n" and "s + n \<le> length xs"
  shows "take n (drop s (splice p ys xs)) = splice (p - s) ys (take n (drop s xs))"
proof -
  have l: "length (splice p ys xs) = length xs" "length (splice (p - s) ys (take n (drop s xs))) = n"
    using assms by (simp_all add: splice_length)
  show ?thesis
    by (rule nth_equalityI) (use assms l in \<open>auto simp: splice_nth add.commute\<close>)
qed

lemma splice_Cons:
  "p + Suc (length ys) \<le> length xs \<Longrightarrow> splice (Suc p) ys (splice p [y] xs) = splice p (y # ys) xs"
  by (simp add: splice_def add.commute [of p])

lemma block_view_splice:
  assumes "buf_fits d b" and "block_ok d"
  shows "unat (b_start b) \<le> p \<Longrightarrow> p + length bs \<le> unat (b_zeroAreaStart b) \<Longrightarrow>
      block_view (d\<lparr>bd_bytes := splice p bs (bd_bytes d)\<rparr>) b = splice (p - unat (b_start b)) bs (block_view d b)"
    and "unat (b_zeroAreaStart b) \<le> p \<Longrightarrow> p + length bs \<le> phys_end b \<Longrightarrow>
      block_view (d\<lparr>bd_bytes := splice p bs (bd_bytes d)\<rparr>) b =
        splice (p - unat (b_start b) + zero_len b) bs (block_view d b)"
proof -
  let ?s = "unat (b_start b)" and ?zs = "unat (b_zeroAreaStart b)" and ?B = "bd_bytes d"
  have le: "?s \<le> ?zs" "phys_end b \<le> length ?B"
    using assms by (simp_all add: buf_fits_def block_ok_def)
  have f: "?s + front_len b = ?zs" and k: "?zs + back_len b = phys_end b"
    using le(1) by (simp_all add: front_len_def phys_end_def)
  note len = view_part_lengths [OF assms]
  show "block_view (d\<lparr>bd_bytes := splice p bs ?B\<rparr>) b = splice (p - ?s) bs (block_view d b)"
    if "?s \<le> p" "p + length bs \<le> ?zs"
  proof -
    have "take (front_len b) (drop ?s (splice p bs ?B)) = splice (p - ?s) bs (take (front_len b) (drop ?s ?B))"
      using that f le k by (intro splice_within) simp_all
    moreover have "drop ?zs (splice p bs ?B) = drop ?zs ?B"
      using that le k by (intro splice_behind) simp_all
    moreover have "p - ?s + length bs \<le> length (take (front_len b) (drop ?s ?B))"
      using that f len(1) by simp
    ultimately show ?thesis
      by (simp add: block_view_def splice_append1)
  qed
  show "block_view (d\<lparr>bd_bytes := splice p bs ?B\<rparr>) b = splice (p - ?s + zero_len b) bs (block_view d b)"
    if "?zs \<le> p" "p + length bs \<le> phys_end b"
  proof -
    let ?front = "take (front_len b) (drop ?s ?B) @ replicate (zero_len b) 0"
    have "take (back_len b) (drop ?zs (splice p bs ?B)) = splice (p - ?zs) bs (take (back_len b) (drop ?zs ?B))"
      using that le k by (intro splice_within) simp_all
    moreover have "take (front_len b) (drop ?s (splice p bs ?B)) = take (front_len b) (drop ?s ?B)"
      using that f le by (intro splice_before) simp_all
    moreover have "splice (p - ?s + zero_len b) bs (?front @ Z) = ?front @ splice (p - ?zs) bs Z" for Z
    proof -
      have e: "p - ?s + zero_len b = length ?front + (p - ?zs)"
        using that f len(1) by simp
      show ?thesis
        unfolding e by (rule splice_append2)
    qed
    ultimately show ?thesis
      by (simp add: block_view_def)
  qed
qed

text \<open>A write where no other buffer looks.\<close>

definition unseen :: "buf multiset \<Rightarrow> nat \<Rightarrow> nat \<Rightarrow> nat \<Rightarrow> bool" where
  "unseen M a p n \<longleftrightarrow> (\<forall>c \<in># M. b_data c = a \<longrightarrow> p + n \<le> unat (b_start c) \<or> phys_end c \<le> p)"

lemma mem_write_ok:
  assumes "world_ok w (add_mset b M)" and "unseen M (b_data b) (unat p) (length bs)"
    and "bw_data w (b_data b) = Some d" and "unat p + length bs \<le> unat (bd_size d)"
  defines "w' \<equiv> bw_put (b_data b) (d\<lparr>bd_bytes := splice (unat p) bs (bd_bytes d)\<rparr>) w"
  shows "mem_write (b_data b) p bs w = Inr w' \<and> world_ok w' (add_mset b M) \<and> keeps M w w' \<and>
    buf_view w' b = block_view (d\<lparr>bd_bytes := splice (unat p) bs (bd_bytes d)\<rparr>) b"
proof -
  let ?d = "d\<lparr>bd_bytes := splice (unat p) bs (bd_bytes d)\<rparr>"
  have h: "heap_ok w (image_mset b_data (add_mset b M))"
    using assms(1) by (simp add: world_ok_def)
  have d: "block_ok d"
    using heap_ok_block [OF h assms(3)] by simp
  then have fit: "unat p + length bs \<le> length (bd_bytes d)"
    using assms(4) by (simp add: block_ok_def)
  then have "block_ok ?d"
    using d by (simp add: block_ok_def splice_length)
  then have h': "heap_ok w' (image_mset b_data (add_mset b M))"
    unfolding w'_def by (simp add: heap_ok_put_same [OF h assms(3), simplified])
  have same: "buf_fits ?d c = buf_fits d c" for c
    by (simp add: buf_fits_def)
  have "buf_placed w' (add_mset b M) c" if "c \<in># add_mset b M" for c
  proof -
    have "buf_placed w (add_mset b M) c"
      using assms(1) that unfolding world_ok_def by blast
    then obtain e where e: "bw_data w (b_data c) = Some e" "buf_fits e c"
      "b_end c = bd_dirtyEnd e \<longrightarrow> (\<forall>x \<in># add_mset b M. b_data x = b_data c \<longrightarrow> phys_end x \<le> phys_end c)"
      unfolding buf_placed_def by blast
    have "\<exists>e'. bw_data w' (b_data c) = Some e' \<and> buf_fits e' c \<and> bd_dirtyEnd e' = bd_dirtyEnd e"
      using e(1,2) assms(3) same by (cases "b_data c = b_data b") (simp_all add: w'_def)
    then show ?thesis
      using e(3) unfolding buf_placed_def by metis
  qed
  then have W: "world_ok w' (add_mset b M)"
    using h' by (simp add: world_ok_def)
  have "buf_view w' c = buf_view w c" if c: "c \<in># M" for c
  proof (cases "b_data c = b_data b")
    case True
    have fits: "buf_fits d c"
      using assms(1,3) c True by (auto simp: world_ok_def buf_placed_def)
    have away: "unat p + length bs \<le> unat (b_start c) \<or> phys_end c \<le> unat p"
      using assms(2) c True by (simp add: unseen_def)
    have le: "unat (b_start c) \<le> unat (b_zeroAreaStart c)" "phys_end c = unat (b_zeroAreaStart c) + back_len c"
      "unat (b_zeroAreaStart c) = unat (b_start c) + front_len c"
      using fits by (simp_all add: buf_fits_def phys_end_def front_len_def)
    have "block_view ?d c = block_view d c"
    proof (cases "phys_end c \<le> unat p")
      case True
      then have "unat (b_start c) + front_len c \<le> unat p" "unat (b_zeroAreaStart c) + back_len c \<le> unat p"
        using le by simp_all
      then show ?thesis
        using fit by (simp add: block_view_def splice_before)
    next
      case False
      then have "unat p + length bs \<le> unat (b_start c)" "unat p + length bs \<le> unat (b_zeroAreaStart c)"
        using away le by simp_all
      then show ?thesis
        using fit by (simp add: block_view_def splice_behind)
    qed
    then show ?thesis
      using True assms(3) by (simp add: buf_view_def w'_def)
  next
    case False
    then show ?thesis
      by (simp add: buf_view_def w'_def)
  qed
  then show ?thesis
    using W fit assms(3) by (simp add: keeps_def mem_write_def w'_def buf_view_def)
qed

section \<open>The write operations of iterators\<close>

text \<open>\<open>n\<close> stored bytes from the virtual position \<open>cur\<close> on, which is the position \<open>p\<close> of the block.\<close>

definition zone :: "buf \<Rightarrow> nat \<Rightarrow> nat \<Rightarrow> nat \<Rightarrow> bool" where
  "zone b cur n p \<longleftrightarrow>
     unat (b_start b) \<le> cur \<and> cur + n \<le> unat (b_zeroAreaStart b) \<and> p = cur \<or>
     unat (b_zeroAreaEnd b) \<le> cur \<and> cur + n \<le> unat (b_end b) \<and> p + zero_len b = cur"

lemma zone_bounds:
  assumes "buf_fits d b" and "block_ok d" and "zone b cur n p"
  shows "p + n \<le> unat (bd_size d)" and "cur + n \<le> unat (b_end b)" and "cur + n < 2 ^ 31"
proof -
  show e: "cur + n \<le> unat (b_end b)"
    using assms(1,3) by (auto simp: zone_def buf_fits_def)
  then show "cur + n < 2 ^ 31"
    using fits_less [OF assms(1,2)] by simp
  show "p + n \<le> unat (bd_size d)"
    using assms(1,3) by (auto simp: zone_def buf_fits_def phys_end_def back_len_def zero_len_def)
qed

lemma zone_behind:
  assumes "buf_fits d b" and "zone b (unat cur) n p"
  shows "unat cur < unat (b_zeroAreaStart b) \<Longrightarrow> unat cur = p"
    and "\<not> unat cur < unat (b_zeroAreaStart b) \<Longrightarrow> n > 0 \<Longrightarrow> unat (it_behind (it_construct b cur)) = p"
    and "unat cur \<le> unat (b_zeroAreaStart b) \<Longrightarrow> unat cur = p"
    and "\<not> unat cur \<le> unat (b_zeroAreaStart b) \<Longrightarrow> unat (it_behind (it_construct b cur)) = p"
    and "unat cur + n \<le> unat (b_zeroAreaStart b) \<Longrightarrow> unat cur = p"
    and "\<not> unat cur + n \<le> unat (b_zeroAreaStart b) \<Longrightarrow> unat (it_behind (it_construct b cur)) = p"
proof -
  have z: "unat (b_zeroAreaEnd b - b_zeroAreaStart b) = zero_len b"
    by (rule zero_len_nat [OF assms(1)])
  have le: "unat (b_zeroAreaStart b) \<le> unat (b_zeroAreaEnd b)"
    using assms(1) by (simp add: buf_fits_def)
  have b: "unat (it_behind (it_construct b cur)) = unat cur - zero_len b" if "unat (b_zeroAreaEnd b) \<le> unat cur"
  proof -
    have "zero_len b \<le> unat cur"
      using that by (simp add: zero_len_def)
    then show ?thesis
      by (simp add: it_behind_def it_construct_def unat32_sub z)
  qed
  note zone = assms(2) [unfolded zone_def]
  show "unat cur < unat (b_zeroAreaStart b) \<Longrightarrow> unat cur = p"
    using zone le by auto
  show "\<not> unat cur < unat (b_zeroAreaStart b) \<Longrightarrow> n > 0 \<Longrightarrow> unat (it_behind (it_construct b cur)) = p"
    using zone b le by auto
  show "unat cur \<le> unat (b_zeroAreaStart b) \<Longrightarrow> unat cur = p"
    using zone le by (auto simp: zero_len_def)
  show "\<not> unat cur \<le> unat (b_zeroAreaStart b) \<Longrightarrow> unat (it_behind (it_construct b cur)) = p"
    using zone b le by auto
  show "unat cur + n \<le> unat (b_zeroAreaStart b) \<Longrightarrow> unat cur = p"
    using zone le by (auto simp: zero_len_def)
  show "\<not> unat cur + n \<le> unat (b_zeroAreaStart b) \<Longrightarrow> unat (it_behind (it_construct b cur)) = p"
    using zone b le by auto
qed

text \<open>The world after \<open>bs\<close> was written at \<open>p\<close>.\<close>

definition written :: "nat \<Rightarrow> buf_block \<Rightarrow> nat \<Rightarrow> bytes \<Rightarrow> buf_world \<Rightarrow> buf_world" where
  "written a d p bs w = bw_put a (d\<lparr>bd_bytes := splice p bs (bd_bytes d)\<rparr>) w"

lemma mem_write_written:
  "bw_data w a = Some d \<Longrightarrow> block_ok d \<Longrightarrow> unat q = p \<Longrightarrow> p + length bs \<le> unat (bd_size d) \<Longrightarrow>
   mem_write a q bs w = Inr (written a d p bs w)"
  by (simp add: mem_write_def written_def block_ok_def)

lemma it_move_construct [simp]: "it_move n (it_construct b cur) = it_construct b (cur + n)"
  by (simp add: it_move_def it_construct_def)

lemma it_construct_fields [simp]:
  "it_zeroStart (it_construct b cur) = b_zeroAreaStart b" "it_zeroEnd (it_construct b cur) = b_zeroAreaEnd b"
  "it_dataStart (it_construct b cur) = b_start b" "it_dataEnd (it_construct b cur) = b_end b"
  "it_current (it_construct b cur) = cur" "it_data (it_construct b cur) = b_data b"
  by (simp_all add: it_construct_def)

lemma it_write_u8_ok:
  assumes "bw_data w (b_data b) = Some d" and "block_ok d" and "buf_fits d b" and "zone b (unat cur) (Suc n) p"
  shows "it_write_u8 v (it_construct b cur, w) = Inr (it_construct b (cur + 1), written (b_data b) d p [v] w)"
proof -
  have "it_check cur (it_construct b cur)"
    using assms(3,4) by (auto simp: it_check_def zone_def word_le_nat_alt word_less_nat_alt buf_fits_def)
  moreover have "p + length [v] \<le> unat (bd_size d)"
    using zone_bounds(1) [OF assms(3,2,4)] by simp
  ultimately show ?thesis
    using zone_behind(1,2) [OF assms(3,4)] mem_write_written [OF assms(1,2)]
    by (auto simp: it_write_u8_def word_less_nat_alt)
qed

lemma it_write_u8s_ok:
  assumes "bw_data w (b_data b) = Some d" and "block_ok d" and "buf_fits d b" and "zone b (unat cur) (length bs) p"
  shows "it_write_u8s bs (it_construct b cur, w) =
    Inr (it_construct b (cur + of_nat (length bs)), written (b_data b) d p bs w)"
  using assms
proof (induction bs arbitrary: cur w d p)
  case Nil
  then show ?case
    by (simp add: written_def splice_def bw_put_def fun_upd_idem)
next
  case (Cons v vs)
  let ?d = "d\<lparr>bd_bytes := splice p [v] (bd_bytes d)\<rparr>"
  note b = zone_bounds [OF Cons.prems(3,2,4)]
  have len: "p + Suc (length vs) \<le> length (bd_bytes d)"
    using b(1) Cons.prems(2) by (simp add: block_ok_def)
  have one: "it_write_u8 v (it_construct b cur, w) = Inr (it_construct b (cur + 1), written (b_data b) d p [v] w)"
    using Cons.prems by (intro it_write_u8_ok [where n = "length vs"]) simp_all
  have "unat (cur + 1) = Suc (unat cur)"
    using b(3) by (subst unat32_add) auto
  then have "zone b (unat (cur + 1)) (length vs) (Suc p)"
    using Cons.prems(4) by (auto simp: zone_def)
  moreover have "block_ok ?d" "buf_fits ?d b"
    using Cons.prems(2,3) len by (simp_all add: block_ok_def splice_length buf_fits_def)
  ultimately have "it_write_u8s vs (it_construct b (cur + 1), written (b_data b) d p [v] w) =
      Inr (it_construct b (cur + 1 + of_nat (length vs)), written (b_data b) ?d (Suc p) vs (written (b_data b) d p [v] w))"
    by (intro Cons.IH) (simp_all add: written_def)
  moreover have "written (b_data b) ?d (Suc p) vs (written (b_data b) d p [v] w) = written (b_data b) d p (v # vs) w"
    using splice_Cons [OF len] by (simp add: written_def bw_put_def)
  ultimately show ?case
    by (simp add: one add.assoc)
qed

text \<open>The writes that check once and then use a pointer do the same there.\<close>

lemma unat_length: "n < 2 ^ 31 \<Longrightarrow> unat (of_nat n :: 32 word) = n"
  by (simp add: unat_of_nat)

lemma it_write_others_ok:
  assumes "bw_data w (b_data b) = Some d" and "block_ok d" and "buf_fits d b" and "zone b (unat cur) (length bs) p"
  shows "it_write_direct bs (it_construct b cur, w) = it_write_u8s bs (it_construct b cur, w)"
    and "it_write bs (it_construct b cur, w) = it_write_u8s bs (it_construct b cur, w)"
    and "bs = replicate (length bs) v \<Longrightarrow>
      it_fill v (of_nat (length bs)) (it_construct b cur, w) = it_write_u8s bs (it_construct b cur, w)"
proof -
  let ?n = "of_nat (length bs) :: 32 word"
  note b = zone_bounds [OF assms(3,2,4)]
  have n: "unat ?n = length bs" "unat (cur + ?n) = unat cur + length bs"
    using b(3) by (simp_all add: unat_length unat32_add)
  have c: "it_check_no_zero cur (cur + ?n) (it_construct b cur)" "it_check_no_zero cur ?n (it_construct b cur)"
    using assms(3,4) n b(2) by (auto simp: it_check_no_zero_def zone_def word_le_nat_alt word_less_nat_alt buf_fits_def)
  note z = zone_behind [OF assms(3,4)] and m = mem_write_written [OF assms(1,2) _ b(1)]
  show "it_write_direct bs (it_construct b cur, w) = it_write_u8s bs (it_construct b cur, w)"
    using c(1) n z(5,6) m by (auto simp: it_write_direct_def Let_def it_write_u8s_ok [OF assms] word_le_nat_alt)
  show "it_write bs (it_construct b cur, w) = it_write_u8s bs (it_construct b cur, w)"
    using c(2) z(3,4) m by (auto simp: it_write_def Let_def it_write_u8s_ok [OF assms] word_le_nat_alt)
  show "it_fill v ?n (it_construct b cur, w) = it_write_u8s bs (it_construct b cur, w)"
    if "bs = replicate (length bs) v"
  proof -
    have "replicate (unat ?n) v = bs"
      using that n(1) by simp
    then show ?thesis
      using c(1) z(3,4) m by (auto simp: it_fill_def it_write_u8s_ok [OF assms] word_le_nat_alt)
  qed
qed

section \<open>Prepending and appending bytes\<close>

lemma write_ok:
  assumes "world_ok w (add_mset b M)" and "zone b (unat cur) (length bs) p" and "unseen M (b_data b) p (length bs)"
  shows "\<exists>w'. it_write_u8s bs (it_construct b cur, w) = Inr (it_construct b (cur + of_nat (length bs)), w') \<and>
    world_ok w' (add_mset b M) \<and> keeps M w w' \<and>
    buf_view w' b = splice (unat cur - unat (b_start b)) bs (buf_view w b)"
proof -
  from world_ok_block [OF assms(1), of b] obtain d where d: "bw_data w (b_data b) = Some d" "buf_fits d b" "block_ok d"
    "buf_view w b = block_view d b"
    by auto
  note z = zone_bounds [OF d(2,3) assms(2)]
  have p: "unat (of_nat p :: 32 word) = p"
    using z(1) d(3) by (intro unat_length) (simp add: block_ok_def)
  let ?d = "d\<lparr>bd_bytes := splice p bs (bd_bytes d)\<rparr>"
  have v: "block_view ?d b = splice (unat cur - unat (b_start b)) bs (block_view d b)"
  proof (cases "unat (b_start b) \<le> unat cur \<and> unat cur + length bs \<le> unat (b_zeroAreaStart b) \<and> p = unat cur")
    case True
    then show ?thesis
      using block_view_splice(1) [OF d(2,3)] by simp
  next
    case False
    then have c: "unat (b_zeroAreaEnd b) \<le> unat cur" "unat cur + length bs \<le> unat (b_end b)" "p + zero_len b = unat cur"
      using assms(2) by (auto simp: zone_def)
    then have "unat (b_zeroAreaStart b) \<le> p" "p + length bs \<le> phys_end b" "unat (b_start b) \<le> p"
      using d(2) by (auto simp: buf_fits_def zero_len_def phys_end_def back_len_def)
    then show ?thesis
      using block_view_splice(2) [OF d(2,3)] c(3) by (metis Nat.add_diff_assoc2)
  qed
  have "world_ok (written (b_data b) d p bs w) (add_mset b M) \<and> keeps M w (written (b_data b) d p bs w) \<and>
      buf_view (written (b_data b) d p bs w) b = block_view ?d b"
    using mem_write_ok [OF assms(1) _ d(1), of "of_nat p" bs] assms(3) z(1) p by (simp add: written_def)
  then show ?thesis
    using it_write_u8s_ok [OF d(1,3,2) assms(2)] v d(4) by simp
qed

text \<open>Room for the bytes, then the bytes through an iterator: what adding a header or a trailer to a packet does.\<close>

definition buf_prepend :: "bytes \<Rightarrow> buf \<Rightarrow> buf_world \<Rightarrow> (buf \<times> buf_world) result" where
  "buf_prepend bs b w =
     res_bind (buf_add_start (of_nat (length bs)) b w) (\<lambda>(b, w).
     res_bind (it_write_u8s bs (it_begin b, w)) (\<lambda>(_, w). Inr (b, w)))"

definition buf_postpend :: "bytes \<Rightarrow> buf \<Rightarrow> buf_world \<Rightarrow> (buf \<times> buf_world) result" where
  "buf_postpend bs b w =
     (let n = of_nat (length bs)
      in res_bind (buf_add_end n b w) (\<lambda>(b, w).
         res_bind (it_prev n (it_end b)) (\<lambda>it.
         res_bind (it_write_u8s bs (it, w)) (\<lambda>(_, w). Inr (b, w)))))"

text \<open>The bytes for the room that growing made.\<close>

lemma fill_start:
  assumes "grown_start w b M (length bs) (b1, w1)"
  shows "\<exists>it w2. it_write_u8s bs (it_begin b1, w1) = Inr (it, w2) \<and> it_write bs (it_begin b1, w1) = Inr (it, w2) \<and>
    (\<forall>v. bs = replicate (length bs) v \<longrightarrow> it_fill v (of_nat (length bs)) (it_begin b1, w1) = Inr (it, w2)) \<and>
    world_ok w2 (add_mset b1 M) \<and> keeps M w w2 \<and> buf_view w2 b1 = bs @ buf_view w b"
proof -
  from assms obtain g where g: "world_ok w1 (add_mset b1 M)" "keeps M w w1" "room_start M b1 (length bs)"
    "length g = length bs" "buf_view w1 b1 = g @ buf_view w b"
    by (auto simp: grown_start_def)
  have z: "zone b1 (unat (b_start b1)) (length bs) (unat (b_start b1))"
    "unseen M (b_data b1) (unat (b_start b1)) (length bs)"
    using g(3) by (auto simp: zone_def unseen_def room_start_def)
  obtain d where d: "bw_data w1 (b_data b1) = Some d" "block_ok d" "buf_fits d b1"
    using world_ok_block [OF g(1), of b1] by auto
  from write_ok [OF g(1) z] obtain w2 where
    "it_write_u8s bs (it_begin b1, w1) = Inr (it_construct b1 (b_start b1 + of_nat (length bs)), w2)"
    "world_ok w2 (add_mset b1 M)" "keeps M w1 w2" "buf_view w2 b1 = splice 0 bs (buf_view w1 b1)"
    by (auto simp: it_begin_def)
  then show ?thesis
    using g keeps_trans [OF g(2)] it_write_others_ok [OF d z(1)] by (simp add: splice_def it_begin_def)
qed

lemma fill_end:
  assumes "grown_end w b M (length bs) (b1, w1)" and "length bs < 2 ^ 29"
  shows "\<exists>it it' w2. it_prev (of_nat (length bs)) (it_end b1) = Inr it \<and>
    it_write_u8s bs (it, w1) = Inr (it', w2) \<and> it_write bs (it, w1) = Inr (it', w2) \<and>
    world_ok w2 (add_mset b1 M) \<and> keeps M w w2 \<and> buf_view w2 b1 = buf_view w b @ bs"
proof -
  let ?n = "of_nat (length bs) :: 32 word"
  have n: "unat ?n = length bs"
    using assms(2) by (intro unat_length) simp
  from assms obtain g where g: "world_ok w1 (add_mset b1 M)" "keeps M w w1" "room_end M b1 (length bs)"
    "length g = length bs" "buf_view w1 b1 = buf_view w b @ g"
    by (auto simp: grown_end_def)
  obtain d where d: "buf_fits d b1" "block_ok d" "buf_view w1 b1 = block_view d b1" "bw_data w1 (b_data b1) = Some d"
    using world_ok_block [OF g(1), of b1] by auto
  have le: "length bs \<le> back_len b1" "length bs \<le> unat (b_end b1)"
    using g(3) by (auto simp: room_end_def back_len_def)
  have e: "unat (b_end b1 - ?n) = unat (b_end b1) - length bs"
    using le n by (simp add: unat32_sub)
  have prev: "it_prev ?n (it_end b1) = Inr (it_construct b1 (b_end b1 - ?n))"
    using le n by (simp add: it_prev_def it_end_def it_construct_def word_le_nat_alt)
  have z: "zone b1 (unat (b_end b1 - ?n)) (length bs) (phys_end b1 - length bs)"
    using le d(1) by (auto simp: zone_def e phys_end_def back_len_def zero_len_def buf_fits_def)
  moreover have "unseen M (b_data b1) (phys_end b1 - length bs) (length bs)"
    using g(3) by (auto simp: unseen_def room_end_def)
  ultimately obtain w2 where w2:
    "it_write_u8s bs (it_construct b1 (b_end b1 - ?n), w1) = Inr (it_construct b1 (b_end b1 - ?n + ?n), w2)"
    "world_ok w2 (add_mset b1 M)" "keeps M w1 w2"
    "buf_view w2 b1 = splice (unat (b_end b1 - ?n) - unat (b_start b1)) bs (buf_view w1 b1)"
    using write_ok [OF g(1)] by blast
  have "length (buf_view w b @ g) = unat (b_end b1) - unat (b_start b1)"
    using d(3) g(5) block_view_length [OF d(1,2)] by simp
  then have "unat (b_end b1 - ?n) - unat (b_start b1) = length (buf_view w b)"
    using g(4) by (simp add: e)
  then have "buf_view w2 b1 = buf_view w b @ bs"
    using w2(4) g(4,5) splice_append2 [of "buf_view w b" 0 bs g] by (simp add: splice_def)
  then show ?thesis
    using w2 prev keeps_trans [OF g(2)] it_write_others_ok(2) [OF d(4,2,1) z] by simp
qed

lemma buf_prepend_ok:
  assumes "world_ok w (add_mset b M)" and "length (buf_view w b) + length bs < 2 ^ 29"
  shows "\<exists>b' w'. buf_prepend bs b w = Inr (b', w') \<and> world_ok w' (add_mset b' M) \<and> keeps M w w' \<and>
    buf_view w' b' = bs @ buf_view w b"
proof -
  let ?n = "of_nat (length bs) :: 32 word"
  have n: "unat ?n = length bs"
    using assms(2) by (intro unat_length) simp
  then obtain b1 w1 where g: "buf_add_start ?n b w = Inr (b1, w1)" "grown_start w b M (length bs) (b1, w1)"
    using buf_add_start_ok [OF assms(1), of ?n] assms(2) by auto
  show ?thesis
    using fill_start [OF g(2)] g(1) by (auto simp: buf_prepend_def)
qed

lemma buf_postpend_ok:
  assumes "world_ok w (add_mset b M)" and "length (buf_view w b) + length bs < 2 ^ 29"
  shows "\<exists>b' w'. buf_postpend bs b w = Inr (b', w') \<and> world_ok w' (add_mset b' M) \<and> keeps M w w' \<and>
    buf_view w' b' = buf_view w b @ bs"
proof -
  let ?n = "of_nat (length bs) :: 32 word"
  have n: "unat ?n = length bs" "length bs < 2 ^ 29"
    using assms(2) by (simp_all add: unat_length)
  then obtain b1 w1 where g: "buf_add_end ?n b w = Inr (b1, w1)" "grown_end w b M (length bs) (b1, w1)"
    using buf_add_end_ok [OF assms(1), of ?n] assms(2) by auto
  show ?thesis
    using fill_end [OF g(2) n(2)] g(1) by (auto simp: buf_postpend_def)
qed

end
