(* ===== verification/Buffer_Words.thy ===== *)
theory Buffer_Words
  imports Buffer_Iterator
begin
unbundle bit_operations_syntax

text \<open>
  The bytes of words, in the two orders, and the arithmetic of the Internet checksum: its folding of
  the carries is the residue modulo 65535, so that a checksum in its place makes the whole sum up to nothing.
\<close>

section \<open>Words as bytes\<close>

lemma unat_push8_or:
  fixes x :: "'a::len word" and b :: "8 word"
  assumes "8 \<le> LENGTH('a)" and "256 * unat x < 2 ^ LENGTH('a)"
  shows "unat (push_bit 8 x OR ucast b) = 256 * unat x + unat b"
proof -
  let ?b = "ucast b :: 'a word"
  have d: "push_bit 8 x AND ?b = 0"
    by (rule bit_word_eqI) (auto simp: bit_simps dest: bit_imp_le_length)
  have or: "push_bit 8 x OR ?b = push_bit 8 x + ?b"
    using word_plus_and_or [of "push_bit 8 x" ?b] d by simp
  have p: "unat (push_bit 8 x) = 256 * unat x"
    using assms(2) by (subst unsigned_push_bit_eq) (simp add: push_bit_eq_mult take_bit_nat_eq_self mult.commute)
  have "(256::nat) \<le> 2 ^ LENGTH('a)"
    using power_increasing [OF assms(1), of "2::nat"] by simp
  then have u: "unat ?b = unat b"
    using unat8_less [of b] by (simp add: unsigned_ucast_eq take_bit_nat_eq_self)
  have e: "(2::nat) ^ LENGTH('a) = 256 * 2 ^ (LENGTH('a) - 8)"
    using power_add [of "2::nat" 8 "LENGTH('a) - 8"] assms(1) by simp
  then have "unat x < 2 ^ (LENGTH('a) - 8)"
    using assms(2) by simp
  then have "256 * unat x + unat b < 2 ^ LENGTH('a)"
    using unat8_less [of b] unfolding e by linarith
  then show ?thesis
    by (simp add: or unat_word_ariths p u)
qed

lemma be_word_snoc: "be_word (bs @ [b]) = (push_bit 8 (be_word bs) OR ucast b :: 'a::len word)"
  by (simp add: be_word_def)

lemma unat_le_word:
  assumes "8 * length bs \<le> LENGTH('a)"
  shows "unat (le_word bs :: 'a::len word) = horner_sum unat 256 bs \<and> horner_sum unat 256 bs < 256 ^ length bs"
  using assms
proof (induction bs)
  case Nil
  then show ?case by (simp add: le_word_def be_word_def)
next
  case (Cons b bs)
  then have IH: "unat (le_word bs :: 'a word) = horner_sum unat 256 bs" "horner_sum unat 256 bs < 256 ^ length bs"
    by simp_all
  have "256 * (256::nat) ^ length bs = 2 ^ (8 * Suc (length bs))"
    by (simp add: power_mult power_add)
  also have "\<dots> \<le> 2 ^ LENGTH('a)"
    using Cons.prems by (intro power_increasing) simp_all
  finally have "256 * unat (le_word bs :: 'a word) < 2 ^ LENGTH('a)"
    using IH by linarith
  then have "unat (le_word (b # bs) :: 'a word) = 256 * unat (le_word bs :: 'a word) + unat b"
    using Cons.prems by (simp add: le_word_def be_word_snoc unat_push8_or)
  then show ?case
    using IH unat8_less [of b] by simp
qed

lemma le_bytes_Suc: "le_bytes (Suc n) x = ucast (x AND 0xff) # le_bytes n (drop_bit 8 x)"
  by (simp add: le_bytes_def upt_conv_Cons map_Suc_upt [symmetric] add.commute del: upt_Suc map_Suc_upt)

lemma horner_le_bytes: "horner_sum unat 256 (le_bytes n x) = unat x mod 256 ^ n" 
proof (induction n arbitrary: x)
  case (Suc n)
  have a: "unat (ucast (x AND 0xff) :: 8 word) = unat x mod 256"
  proof -
    have "x AND 0xff = take_bit 8 x"
      by (simp add: take_bit_eq_mask mask_eq_exp_minus_1)
    then have "unat (ucast (x AND 0xff) :: 8 word) = take_bit 8 (take_bit 8 (unat x))"
      by (simp add: unsigned_ucast_eq unsigned_take_bit_eq)
    then show ?thesis
      by (simp add: take_bit_eq_mod)
  qed
  have b: "unat (drop_bit 8 x) = unat x div 256"
    by (simp only: unat_drop_bit_eq) (simp add: drop_bit_eq_div)
  show ?case
    using Suc [of "drop_bit 8 x"] by (simp add: le_bytes_Suc a b mod_mult2_eq)
qed (simp add: le_bytes_def)

lemma le_word_le_bytes: "LENGTH('a) = 8 * n \<Longrightarrow> le_word (le_bytes n x) = x" for x :: "'a::len word"
proof -
  assume n: "LENGTH('a) = 8 * n"
  have "length (le_bytes n x) = n"
    by (simp add: le_bytes_def)
  then have "unat (le_word (le_bytes n x) :: 'a word) = unat x mod 256 ^ n"
    using unat_le_word [of "le_bytes n x", where 'a = 'a] n by (simp add: horner_le_bytes)
  also have "\<dots> = unat x"
    using unsigned_less [of x, where 'a = nat] n by (simp add: power_mult)
  finally show ?thesis
    by (simp add: word_unat_eq_iff)
qed

section \<open>The ones' complement sum\<close>

fun sum16 :: "bytes \<Rightarrow> nat" where
  "sum16 [] = 0"
| "sum16 [x] = unat x"
| "sum16 (x # y # xs) = unat x + 256 * unat y + sum16 xs"

definition ones_fold :: "nat \<Rightarrow> nat" where
  "ones_fold n = (if n = 0 then 0 else (n - 1) mod 65535 + 1)"

definition inet_checksum :: "nat \<Rightarrow> nat" where
  "inet_checksum n = 65535 - ones_fold n"

lemma sum16_append: "even (length xs) \<Longrightarrow> sum16 (xs @ ys) = sum16 xs + sum16 ys"
  by (induction xs rule: sum16.induct) simp_all

lemma sum16_bound: "sum16 xs \<le> 65535 * ((length xs + 1) div 2)"
proof (induction xs rule: sum16.induct)
  case (2 x)
  then show ?case
    using unat8_less [of x] by simp
next
  case (3 x y xs)
  then show ?case
    using unat8_less [of x] unat8_less [of y] by simp
qed simp

lemma ones_fold_bound: "ones_fold n \<le> 65535"
  using mod_less_divisor [of 65535 "n - 1"] by (simp add: ones_fold_def del: mod_less_divisor)

lemma ones_fold_small: "n < 65536 \<Longrightarrow> ones_fold n = n"
  by (simp add: ones_fold_def)

lemma ones_fold_step: "ones_fold (n mod 65536 + n div 65536) = ones_fold n"
proof (cases "n = 0")
  case False
  let ?m = "n mod 65536 + n div 65536"
  have m: "?m \<noteq> 0"
    using False by (metis add_is_0 div_eq_0_iff mod_less zero_neq_numeral)
  have "n = 65536 * (n div 65536) + n mod 65536"
    by simp
  then have "n - 1 = 65535 * (n div 65536) + (?m - 1)"
    using m by linarith
  then have "(n - 1) mod 65535 = (?m - 1) mod 65535"
    by simp
  then show ?thesis
    using False m by (simp add: ones_fold_def)
qed simp

lemma unat_checksum_fold: "unat (checksum_fold s) = ones_fold (unat s)"
proof (induction s rule: checksum_fold.induct)
  case (1 s)
  have d: "drop_bit 16 s = 0 \<longleftrightarrow> unat s div 65536 = 0"
    by (metis unat_drop_16 unat_eq_zero)
  show ?case
  proof (cases "drop_bit 16 s = 0")
    case True
    then have "unat s < 65536"
      using d by (simp add: div_eq_0_iff)
    then show ?thesis
      using True by (simp add: checksum_fold.simps [of s] ones_fold_small)
  next
    case False
    then show ?thesis
      using 1 [OF False] by (simp add: checksum_fold.simps [of s] checksum_fold_step ones_fold_step)
  qed
qed

lemma unat_ucast_16: "unat (ucast g :: 16 word) = unat g mod 65536" for g :: "32 word"
  by (simp add: unsigned_ucast_eq take_bit_eq_mod)

lemma unat_not_16:
  fixes f :: "32 word"
  assumes "unat f \<le> 65535"
  shows "unat (ucast (NOT f) :: 16 word) = 65535 - unat f"
proof -
  have "NOT f = - 1 - f"
    by (simp add: not_eq_complement)
  moreover have "unat (- 1 - f) = 4294967295 - unat f"
    using unat_sub [of f "- 1"] by (simp add: unsigned_minus_1_eq_mask mask_eq_exp_minus_1)
  ultimately have "unat (NOT f) = 4294967295 - unat f"
    by (simp only:)
  then have "unat (NOT f) mod 65536 = (4294967295 - unat f) mod 65536"
    by (rule arg_cong)
  also have "4294967295 - unat f = (65535 - unat f) + 65535 * 65536"
    using assms by linarith
  also have "\<dots> mod 65536 = (65535 - unat f) mod 65536"
    by (rule mod_mult_self1)
  also have "\<dots> = 65535 - unat f"
    by (rule mod_less) linarith
  finally show ?thesis
    by (simp only: unat_ucast_16)
qed

lemma checksum_of_sum: "unat (ucast (NOT (checksum_fold s)) :: 16 word) = inet_checksum (unat s)"
  using unat_not_16 [of "checksum_fold s"] ones_fold_bound by (simp add: unat_checksum_fold inet_checksum_def)

text \<open>The checksum in the place of two zeros.\<close>

lemma inet_checksum_closes: "inet_checksum (n + inet_checksum n) = 0"
proof (cases "n = 0")
  case False
  let ?r = "(n - 1) mod 65535"
  have r: "?r < 65535" "inet_checksum n = 65534 - ?r"
    using False by (simp_all add: inet_checksum_def ones_fold_def)
  have "n - 1 = 65535 * ((n - 1) div 65535) + ?r"
    by simp
  then have "n + inet_checksum n - 1 = 65535 * ((n - 1) div 65535) + 65534"
    using r False by linarith
  then have "(n + inet_checksum n - 1) mod 65535 = 65534"
    by simp
  then show ?thesis
    using False by (simp add: inet_checksum_def [of "n + inet_checksum n"] ones_fold_def)
qed (simp add: inet_checksum_def ones_fold_def)

lemma sum16_le_bytes: "sum16 (le_bytes 2 x) = unat x" for x :: "16 word"
proof -
  obtain u v where "le_bytes 2 x = [u, v]"
    by (simp add: le_bytes_def upt_rec)
  then have "sum16 (le_bytes 2 x) = horner_sum unat 256 (le_bytes 2 x)"
    by simp
  then show ?thesis
    using unsigned_less [of x, where 'a = nat] by (simp add: horner_le_bytes)
qed

end
