(* ===== verification/Buffer_Reading.thy ===== *)
theory Buffer_Reading
  imports Buffer_Writing Buffer_Words
begin

unbundle bit_operations_syntax

text \<open>
  Reading through \<open>Buffer::Iterator\<close>: the bytes of the view, the zero area included; \<open>CopyData\<close>; and the
  Internet checksum, which is the ones' complement sum of the view.
\<close>

section \<open>Bytes\<close>

lemma nth_block_view:
  assumes "buf_fits d b" and "block_ok d" and "i < unat (b_end b) - unat (b_start b)"
  shows "block_view d b ! i =
    (if i < front_len b then bd_bytes d ! (unat (b_start b) + i)
     else if i < front_len b + zero_len b then 0 else bd_bytes d ! (unat (b_start b) + i - zero_len b))"
proof -
  have len: "front_len b \<le> length (bd_bytes d) - unat (b_start b)" "back_len b \<le> length (bd_bytes d) - unat (b_zeroAreaStart b)"
    "unat (b_zeroAreaStart b) = unat (b_start b) + front_len b" "i < front_len b + zero_len b + back_len b"
    using assms by (auto simp: buf_fits_def block_ok_def phys_end_def front_len_def zero_len_def back_len_def)
  have l: "length (take (front_len b) (drop (unat (b_start b)) (bd_bytes d))) = front_len b"
    using len(1) by simp
  show ?thesis
    unfolding block_view_def nth_append l length_replicate
    using len by (auto simp: add.assoc)
qed

lemma mem_read_one: "unat p < length (bd_bytes d) \<Longrightarrow> bw_data w a = Some d \<Longrightarrow>
  mem_read a p 1 w = Inr [bd_bytes d ! unat p]"
  by (simp add: mem_read_def take_Suc_conv_app_nth hd_drop_conv_nth take_Suc)

lemma it_peek_ok:
  assumes "bw_data w (b_data b) = Some d" and "buf_fits d b" and "block_ok d"
    and "unat (b_start b) \<le> unat cur" and "unat cur < unat (b_end b)"
  shows "it_peek (it_construct b cur) w = Inr (block_view d b ! (unat cur - unat (b_start b)))"
proof -
  have z: "unat (b_zeroAreaEnd b - b_zeroAreaStart b) = zero_len b"
    by (rule zero_len_nat [OF assms(2)])
  have le: "unat (b_start b) \<le> unat (b_zeroAreaStart b)" "unat (b_zeroAreaStart b) \<le> unat (b_zeroAreaEnd b)"
    "unat (b_zeroAreaEnd b) \<le> unat (b_end b)" "phys_end b \<le> length (bd_bytes d)"
    using assms(2,3) by (simp_all add: buf_fits_def block_ok_def)
  have c: "cur \<ge> b_start b \<and> cur < b_end b"
    using assms(4,5) by (simp add: word_le_nat_alt word_less_nat_alt)
  have "unat cur - unat (b_start b) < unat (b_end b) - unat (b_start b)"
    using assms(4,5) by simp
  note v = nth_block_view [OF assms(2,3) this]
  consider "cur < b_zeroAreaStart b" | "\<not> cur < b_zeroAreaStart b" "cur < b_zeroAreaEnd b"
    | "\<not> cur < b_zeroAreaStart b" "\<not> cur < b_zeroAreaEnd b"
    by blast
  then show ?thesis
  proof cases
    case 1
    then have "unat cur < length (bd_bytes d)" "unat cur - unat (b_start b) < front_len b"
      using le assms(4) by (auto simp: word_less_nat_alt phys_end_def front_len_def)
    then show ?thesis
      using 1 c assms(4) v by (simp add: it_peek_def mem_read_one [OF _ assms(1)])
  next
    case 2
    then have "\<not> unat cur - unat (b_start b) < front_len b" "unat cur - unat (b_start b) < front_len b + zero_len b"
      using le by (auto simp: word_less_nat_alt front_len_def zero_len_def)
    then show ?thesis
      using 2 c v by (simp add: it_peek_def)
  next
    case 3
    then have "zero_len b \<le> unat cur"
      by (simp add: word_less_nat_alt zero_len_def)
    then have q: "unat (it_behind (it_construct b cur)) = unat cur - zero_len b"
      by (simp add: it_behind_def unat32_sub z)
    have "unat cur - zero_len b < length (bd_bytes d)" "\<not> unat cur - unat (b_start b) < front_len b"
      "\<not> unat cur - unat (b_start b) < front_len b + zero_len b"
      using 3 le assms(4,5) by (auto simp: word_less_nat_alt zero_len_def front_len_def phys_end_def back_len_def)
    then show ?thesis
      using 3 c v q assms(4) by (simp add: it_peek_def mem_read_one [OF _ assms(1)])
  qed
qed

lemma it_read_ok:
  assumes "bw_data w (b_data b) = Some d" and "buf_fits d b" and "block_ok d"
    and "unat (b_start b) \<le> unat cur" and "unat cur + n \<le> unat (b_end b)"
  shows "it_read n (it_construct b cur) w =
    Inr (take n (drop (unat cur - unat (b_start b)) (block_view d b)), it_construct b (cur + of_nat n))"
  using assms(4,5)
proof (induction n arbitrary: cur)
  case (Suc n)
  let ?i = "unat cur - unat (b_start b)" and ?v = "block_view d b"
  have c: "unat (cur + 1) = Suc (unat cur)"
    using Suc.prems(2) fits_less [OF assms(2,3)] by (subst unat32_add) auto
  have len: "?i < length ?v"
    using Suc.prems block_view_length [OF assms(2,3)] by simp
  have rest: "it_read n (it_construct b (cur + 1)) w =
      Inr (take n (drop (Suc ?i) ?v), it_construct b (cur + 1 + of_nat n))"
    using Suc.IH [of "cur + 1"] Suc.prems c by (simp add: Suc_diff_le)
  have "it_peek (it_construct b cur) w = Inr (?v ! ?i)"
    using Suc.prems by (intro it_peek_ok [OF assms(1-3)]) simp_all
  moreover have "take (Suc n) (drop ?i ?v) = ?v ! ?i # take n (drop (Suc ?i) ?v)"
    using len by (simp add: Cons_nth_drop_Suc [symmetric])
  ultimately show ?case
    using rest by (simp add: it_read_u8_def add.assoc)
qed simp

text \<open>A read that goes past the end is stopped by the assertion of \<open>Peek\<close>.\<close>

lemma it_read_past:
  assumes "bw_data w (b_data b) = Some d" and "buf_fits d b" and "block_ok d"
    and "unat (b_start b) \<le> unat cur" and "unat cur \<le> unat (b_end b)" and "unat (b_end b) < unat cur + n"
  shows "it_read n (it_construct b cur) w = Inl Assert_failed"
  using assms(4-6)
proof (induction n arbitrary: cur)
  case (Suc n)
  show ?case
  proof (cases "unat cur = unat (b_end b)")
    case True
    then show ?thesis
      by (simp add: it_read_u8_def it_peek_def word_less_nat_alt)
  next
    case False
    have c: "unat (cur + 1) = Suc (unat cur)"
      using Suc.prems(2) fits_less [OF assms(2,3)] by (subst unat32_add) auto
    have "it_peek (it_construct b cur) w = Inr (block_view d b ! (unat cur - unat (b_start b)))"
      using Suc.prems False by (intro it_peek_ok [OF assms(1-3)]) simp_all
    then show ?thesis
      using Suc.IH [of "cur + 1"] Suc.prems c False by (simp add: it_read_u8_def)
  qed
qed simp

text \<open>Where only stored bytes are involved they are those of the block.\<close>

lemma zone_view:
  assumes "buf_fits d b" and "block_ok d" and "zone b cur n p"
  shows "take n (drop (cur - unat (b_start b)) (block_view d b)) = take n (drop p (bd_bytes d))"
proof -
  note z = zone_bounds [OF assms]
  have le: "unat (b_start b) \<le> unat (b_zeroAreaStart b)" "unat (b_zeroAreaStart b) \<le> unat (b_zeroAreaEnd b)"
    "unat (b_zeroAreaEnd b) \<le> unat (b_end b)"
    using assms(1) by (simp_all add: buf_fits_def)
  have c: "unat (b_start b) \<le> cur"
    using assms(3) le by (auto simp: zone_def)
  have len: "length (block_view d b) = unat (b_end b) - unat (b_start b)" "p + n \<le> length (bd_bytes d)"
    using block_view_length [OF assms(1,2)] z(1) assms(2) by (simp_all add: block_ok_def)
  have "block_view d b ! (cur - unat (b_start b) + i) = bd_bytes d ! (p + i)" if i: "i < n" for i
  proof -
    have "cur - unat (b_start b) + i < unat (b_end b) - unat (b_start b)"
      using z(2) c i by simp
    note v = nth_block_view [OF assms(1,2) this]
    show ?thesis
    proof (cases "cur + n \<le> unat (b_zeroAreaStart b) \<and> p = cur")
      case True
      then have f: "cur - unat (b_start b) + i < front_len b" and e: "unat (b_start b) + (cur - unat (b_start b) + i) = p + i"
        using c i by (auto simp: front_len_def)
      show ?thesis
        using v unfolding e by (simp only: f if_True)
    next
      case False
      then have "unat (b_zeroAreaEnd b) \<le> cur" "p + zero_len b = cur"
        using assms(3) by (auto simp: zone_def)
      then have f: "\<not> cur - unat (b_start b) + i < front_len b + zero_len b" "\<not> cur - unat (b_start b) + i < front_len b"
        and e: "unat (b_start b) + (cur - unat (b_start b) + i) - zero_len b = p + i"
        using le c by (auto simp: front_len_def zero_len_def)
      show ?thesis
        using v unfolding e by (simp only: f if_False)
    qed
  qed
  then show ?thesis
    using len z(2) c by (intro nth_equalityI) simp_all
qed

lemma mem_read_zone:
  assumes "bw_data w (b_data b) = Some d" and "buf_fits d b" and "block_ok d"
    and "zone b cur (unat n) p" and "unat q = p"
  shows "mem_read (b_data b) q n w = Inr (take (unat n) (drop (cur - unat (b_start b)) (block_view d b)))"
  using zone_bounds(1) [OF assms(2,3,4)] assms(1,3,5) zone_view [OF assms(2-4)] by (simp add: mem_read_def block_ok_def)

text \<open>\<open>ReadNtohU16\<close> and \<open>ReadNtohU32\<close> within the buffer read what single bytes would.\<close>

lemma it_read_direct_ok:
  assumes "bw_data w (b_data b) = Some d" and "buf_fits d b" and "block_ok d"
    and "unat (b_start b) \<le> unat cur" and "unat cur + n \<le> unat (b_end b)"
  shows "it_read_direct n (it_construct b cur) w = it_read n (it_construct b cur) w"
proof -
  have n: "unat (of_nat n :: 32 word) = n" "unat (cur + of_nat n) = unat cur + n"
    using fits_less [OF assms(2,3)] assms(5) by (simp_all add: unat_length unat32_add)
  have front: "zone b (unat cur) n (unat cur)" if "cur + of_nat n \<le> b_zeroAreaStart b"
    using that assms(4) n by (simp add: zone_def word_le_nat_alt)
  have rear: "zone b (unat cur) n (unat (it_behind (it_construct b cur)))" if "cur \<ge> b_zeroAreaEnd b"
  proof -
    have "zone_len \<le> unat cur" if "zone_len = zero_len b" for zone_len
      using that \<open>cur \<ge> b_zeroAreaEnd b\<close> by (simp add: zero_len_def word_le_nat_alt)
    then have "unat (it_behind (it_construct b cur)) + zero_len b = unat cur"
      by (simp add: it_behind_def unat32_sub zero_len_nat [OF assms(2)])
    then show ?thesis
      using that assms(5) by (simp add: zone_def word_le_nat_alt)
  qed
  note r = it_read_ok [OF assms]
  show ?thesis
    using mem_read_zone [OF assms(1-3), of "unat cur" "of_nat n" "unat cur" cur] front
      mem_read_zone [OF assms(1-3), of "unat cur" "of_nat n" _ "it_behind (it_construct b cur)", OF _ refl] rear r n(1)
    by (simp add: it_read_direct_def)
qed

section \<open>The Internet checksum\<close>

lemma take_1_drop: "k < length xs \<Longrightarrow> take 1 (drop k xs) = [xs ! k]"
  by (simp add: take_Suc hd_drop_conv_nth)

lemma length_2: "length xs = 2 \<Longrightarrow> \<exists>x y. xs = [x, y]"
  by (auto simp: numeral_2_eq_2 length_Suc_conv)

lemma it_read_u16_ok:
  assumes "bw_data w (b_data b) = Some d" and "buf_fits d b" and "block_ok d"
    and "unat (b_start b) \<le> unat cur" and "unat cur + 2 \<le> unat (b_end b)"
  shows "\<exists>v. it_read_u16 (it_construct b cur) w = Inr (v, it_construct b (cur + 2)) \<and>
    unat v = sum16 (take 2 (drop (unat cur - unat (b_start b)) (block_view d b)))"
proof -
  let ?bs = "take 2 (drop (unat cur - unat (b_start b)) (block_view d b))"
  have len: "length ?bs = 2"
    using assms(4,5) block_view_length [OF assms(2,3)] by simp
  then obtain x y where xy: "?bs = [x, y]"
    using length_2 by blast
  have "unat (le_word ?bs :: 16 word) = horner_sum unat 256 ?bs"
    using unat_le_word [of ?bs, where 'a = 16] len by simp
  then show ?thesis
    using it_read_ok [OF assms] xy by (simp add: it_read_u16_def)
qed

lemma it_sum_u16_ok:
  assumes "bw_data w (b_data b) = Some d" and "buf_fits d b" and "block_ok d"
    and "unat (b_start b) \<le> unat cur" and "unat cur + 2 * n \<le> unat (b_end b)"
    and "unat s + sum16 (take (2 * n) (drop (unat cur - unat (b_start b)) (block_view d b))) < 2 ^ 32"
  shows "\<exists>s'. it_sum_u16 n s (it_construct b cur) w = Inr (s', it_construct b (cur + 2 * of_nat n)) \<and>
    unat s' = unat s + sum16 (take (2 * n) (drop (unat cur - unat (b_start b)) (block_view d b)))"
  using assms(4-6)
proof (induction n arbitrary: cur s)
  case (Suc n)
  let ?i = "unat cur - unat (b_start b)" and ?v = "block_view d b"
  have c: "unat (cur + 2) = unat cur + 2"
    using Suc.prems(2) fits_less [OF assms(2,3)] by (subst unat32_add) auto
  obtain v where v: "it_read_u16 (it_construct b cur) w = Inr (v, it_construct b (cur + 2))"
    "unat v = sum16 (take 2 (drop ?i ?v))"
    using it_read_u16_ok [OF assms(1-3) Suc.prems(1)] Suc.prems(2) by auto
  have len: "length (take 2 (drop ?i ?v)) = 2"
    using Suc.prems(1,2) block_view_length [OF assms(2,3)] by simp
  have "take (2 * Suc n) (drop ?i ?v) = take 2 (drop ?i ?v) @ take (2 * n) (drop (?i + 2) ?v)"
    using take_add [of 2 "2 * n" "drop ?i ?v"] by (simp add: add.commute)
  then have sum: "sum16 (take (2 * Suc n) (drop ?i ?v)) = unat v + sum16 (take (2 * n) (drop (?i + 2) ?v))"
    using sum16_append [of "take 2 (drop ?i ?v)"] len v(2) by simp
  have i: "unat (cur + 2) - unat (b_start b) = ?i + 2"
    using c Suc.prems(1) by simp
  have "unat (ucast v :: 32 word) = unat v"
    by (simp add: unsigned_ucast_eq take_bit_nat_eq_self unsigned_less [of v, THEN order_less_trans])
  then have s: "unat (s + ucast v) = unat s + unat v"
    using Suc.prems(3) sum by (subst unat32_add) auto
  from Suc.IH [of "cur + 2" "s + ucast v"] obtain s' where
    "it_sum_u16 n (s + ucast v) (it_construct b (cur + 2)) w = Inr (s', it_construct b (cur + 2 + 2 * of_nat n))"
    "unat s' = unat (s + ucast v) + sum16 (take (2 * n) (drop (?i + 2) ?v))"
    using Suc.prems c i s sum by auto
  then show ?case
    using v sum s by (simp add: algebra_simps)
qed simp

text \<open>\<open>CalculateIpChecksum\<close> of \<open>sz\<close> bytes is the complement of their ones' complement sum.\<close>

lemma odd_and_1: "sz AND 1 \<noteq> 0 \<longleftrightarrow> odd (unat sz)" for sz :: "16 word"
proof -
  have "sz AND 1 \<noteq> 0 \<longleftrightarrow> unat (sz AND 1) \<noteq> 0"
    by (simp only: unsigned_eq_0_iff)
  then show ?thesis
    by (simp only: unsigned_and_eq unsigned_1) (simp add: and_one_eq odd_iff_mod_2_eq_one)
qed

lemma it_checksum_from_ok:
  assumes "bw_data w (b_data b) = Some d" and "buf_fits d b" and "block_ok d"
    and "unat (b_start b) \<le> unat cur" and "unat cur + unat sz \<le> unat (b_end b)" and "unat init < 2 ^ 31"
  shows "\<exists>c it. it_checksum_from init sz (it_construct b cur) w = Inr (c, it) \<and>
    unat c = inet_checksum (unat init + sum16 (take (unat sz) (drop (unat cur - unat (b_start b)) (block_view d b))))"
proof -
  let ?bs = "drop (unat cur - unat (b_start b)) (block_view d b)" and ?n = "unat sz div 2"
  have sz: "unat sz < 65536"
    using unsigned_less [of sz, where 'a = nat] by simp
  have "(length (take (unat sz) ?bs) + 1) div 2 \<le> 32768"
    using sz by simp
  then have bound: "sum16 (take (unat sz) ?bs) \<le> 65535 * 32768"
    using sum16_bound [of "take (unat sz) ?bs"] by (meson mult_le_mono2 order_trans)
  have split: "take (unat sz) ?bs = take (2 * ?n) ?bs @ take (unat sz mod 2) (drop (2 * ?n) ?bs)"
    by (metis mult_div_mod_eq take_add)
  have len: "length ?bs = unat (b_end b) - unat cur"
    using assms(4) block_view_length [OF assms(2,3)] by simp
  then have "even (length (take (2 * ?n) ?bs))"
    using assms(5) by simp
  then have sum: "sum16 (take (unat sz) ?bs) = sum16 (take (2 * ?n) ?bs) + sum16 (take (unat sz mod 2) (drop (2 * ?n) ?bs))"
    using sum16_append split by metis
  obtain s1 where s1: "it_sum_u16 ?n init (it_construct b cur) w = Inr (s1, it_construct b (cur + 2 * of_nat ?n))"
    "unat s1 = unat init + sum16 (take (2 * ?n) ?bs)"
  proof -
    have "unat cur + 2 * ?n \<le> unat (b_end b)"
      using assms(5) by linarith
    moreover have "unat init + sum16 (take (2 * ?n) ?bs) < 2 ^ 32"
      using assms(6) sum bound by simp
    ultimately show ?thesis
      using it_sum_u16_ok [OF assms(1-4), of ?n init] that by blast
  qed
  show ?thesis
  proof (cases "odd (unat sz)")
    case False
    then have "2 * ?n = unat sz" and e: "sz AND 1 = 0"
      using odd_and_1 [of sz] by auto
    then have "unat s1 = unat init + sum16 (take (unat sz) ?bs)"
      using s1(2) by (simp only:)
    then show ?thesis
      unfolding it_checksum_from_def s1(1) using e checksum_of_sum [of s1] by simp
  next
    case True
    let ?cur = "cur + 2 * of_nat ?n"
    have one: "unat sz mod 2 = 1"
      using True by (simp only: odd_iff_mod_2_eq_one)
    then have n: "2 * ?n + 1 = unat sz"
      using mult_div_mod_eq [of 2 "unat sz"] by simp
    have "unat (2 * of_nat ?n :: 32 word) = 2 * ?n"
      using sz by (simp add: unat_word_ariths unat_of_nat)
    then have c: "unat ?cur = unat cur + 2 * ?n"
      using assms(5) fits_less [OF assms(2,3)] by (subst unat32_add) auto
    let ?v = "block_view d b ! (unat ?cur - unat (b_start b))"
    have "it_peek (it_construct b ?cur) w = Inr ?v"
      using assms(4,5) c n by (intro it_peek_ok [OF assms(1-3)]) linarith+
    then have rd: "it_read_u8 (it_construct b ?cur) w = Inr (?v, it_construct b (?cur + 1))"
      by (simp add: it_read_u8_def)
    have "2 * ?n < length ?bs"
      using len assms(5) n by linarith
    then have "take 1 (drop (2 * ?n) ?bs) = [?bs ! (2 * ?n)]"
      by (rule take_1_drop)
    moreover have "?bs ! (2 * ?n) = ?v"
    proof -
      have "unat ?cur - unat (b_start b) = (unat cur - unat (b_start b)) + 2 * ?n"
        using c assms(4) by simp
      moreover have "unat cur - unat (b_start b) \<le> length (block_view d b)"
        using \<open>2 * ?n < length ?bs\<close> by simp
      ultimately show ?thesis
        by (simp only: nth_drop)
    qed
    ultimately have v: "sum16 (take (unat sz) ?bs) = sum16 (take (2 * ?n) ?bs) + unat ?v"
      using sum one by simp
    have "unat (s1 + ucast ?v) = unat s1 + unat ?v"
      using s1(2) v bound assms(6) by (subst unat32_add) (auto simp: unat_ucast_8_32)
    then have "unat (s1 + ucast ?v) = unat init + sum16 (take (unat sz) ?bs)"
      using s1(2) v by (simp only: add.assoc)
    moreover have "sz AND 1 \<noteq> 0"
      using odd_and_1 [of sz] True by simp
    ultimately show ?thesis
      unfolding it_checksum_from_def s1(1) using rd checksum_of_sum [of "s1 + ucast ?v"] by simp
  qed
qed

section \<open>CopyData\<close>

lemma zero_chunks_all: "zero_chunks n = replicate (unat n) 0"
proof (induction n rule: zero_chunks.induct)
  case (1 left)
  show ?case
  proof (cases "left > 0")
    case True
    let ?n = "min left 1000"
    have le: "unat ?n \<le> unat left"
      by (simp add: unat32_min)
    then have "unat (left - ?n) = unat left - unat ?n"
      by (rule unat32_sub)
    then show ?thesis
      using 1 [OF True refl] True le by (simp add: zero_chunks.simps [of left] Let_def replicate_add [symmetric])
  next
    case False
    then have "left = 0"
      by (simp add: word_neq_0_conv [symmetric])
    then show ?thesis
      by (subst zero_chunks.simps) simp
  qed
qed

lemma buf_copy_data_ok:
  assumes "world_ok w M" and "b \<in># M"
  shows "\<exists>k. buf_copy_data sz b w = Inr (k, take (unat sz) (buf_view w b)) \<and>
    unat k = min (unat sz) (length (buf_view w b))"
proof -
  from world_ok_block [OF assms] obtain d where d: "bw_data w (b_data b) = Some d" "buf_fits d b" "block_ok d"
    "buf_view w b = block_view d b"
    by blast
  have le: "unat (b_start b) \<le> unat (b_zeroAreaStart b)" "unat (b_zeroAreaStart b) \<le> unat (b_zeroAreaEnd b)"
    "unat (b_zeroAreaEnd b) \<le> unat (b_end b)" "phys_end b \<le> length (bd_bytes d)"
    using d(2,3) by (simp_all add: buf_fits_def block_ok_def)
  have "unat (b_start b) + front_len b \<le> length (bd_bytes d)"
    using le by (simp add: front_len_def phys_end_def)
  then have "unat (b_start b) + min (front_len b) k \<le> length (bd_bytes d)" for k
    using min.cobounded1 [of "front_len b" k] by linarith
  then have front: "mem_read (b_data b) (b_start b) (min (b_zeroAreaStart b - b_start b) n) w =
      Inr (take (min (front_len b) (unat n)) (drop (unat (b_start b)) (bd_bytes d)))" for n
    using d(1) by (simp add: mem_read_def unat32_min front_len_nat [OF d(2)])
  have "unat (b_zeroAreaStart b) + min (back_len b) k \<le> length (bd_bytes d)" for k
    using le(4) min.cobounded1 [of "back_len b" k] by (simp only: phys_end_def)
  then have rear: "mem_read (b_data b) (b_zeroAreaStart b) (min (b_end b - b_zeroAreaEnd b) n) w =
      Inr (take (min (back_len b) (unat n)) (drop (unat (b_zeroAreaStart b)) (bd_bytes d)))" for n
    using d(1) by (simp add: mem_read_def unat32_min back_len_nat [OF d(2)])
  define r1 where "r1 = sz - min (b_zeroAreaStart b - b_start b) sz"
  define r2 where "r2 = r1 - min (b_zeroAreaEnd b - b_zeroAreaStart b) r1"
  define r3 where "r3 = r2 - min (b_end b - b_zeroAreaEnd b) r2"
  have r1: "unat r1 = unat sz - front_len b"
    by (simp add: r1_def unat32_sub unat32_min front_len_nat [OF d(2)])
  have r2: "unat r2 = unat sz - front_len b - zero_len b"
    using r1 by (simp add: r2_def unat32_sub unat32_min zero_len_nat [OF d(2)])
  have r3: "unat r3 = unat sz - front_len b - zero_len b - back_len b"
    using r2 by (simp add: r3_def unat32_sub unat32_min back_len_nat [OF d(2)])
  have len: "length (buf_view w b) = front_len b + zero_len b + back_len b"
    using le d(4) block_view_length [OF d(2,3)] by (simp add: front_len_def zero_len_def back_len_def)
  have pos: "x > 0 \<longleftrightarrow> unat x > 0" for x :: "32 word"
    by (simp add: word_less_nat_alt)
  have zs: "zero_chunks (min (b_zeroAreaEnd b - b_zeroAreaStart b) r1) = replicate (min (zero_len b) (unat r1)) 0"
    by (simp add: zero_chunks_all unat32_min zero_len_nat [OF d(2)])
  have k: "unat (sz - r3) = unat sz - unat r3"
    using r3 by (intro unat32_sub) simp
  have eq: "buf_copy_data sz b w = Inr (sz - r3, take (unat sz) (block_view d b))"
  proof (cases "sz > 0")
    case False
    then have "sz = 0"
      using word_gt_0 by blast
    moreover from this have "r3 = 0"
      by (simp add: r1_def r2_def r3_def)
    ultimately show ?thesis
      by (simp add: buf_copy_data_def)
  next
    case s: True
    have out: "take (unat sz) (block_view d b) =
        take (min (front_len b) (unat sz)) (drop (unat (b_start b)) (bd_bytes d)) @
        replicate (min (zero_len b) (unat r1)) 0 @ take (min (back_len b) (unat r2)) (drop (unat (b_zeroAreaStart b)) (bd_bytes d))"
      using r1 r2 by (simp add: take_block_view [OF d(2,3)] min.commute)
    show ?thesis
    proof (cases "r1 > 0")
      case False
      then have "r1 = 0"
        using word_gt_0 by blast
      moreover from this have "r2 = 0" "r3 = 0"
        by (simp_all add: r2_def r3_def)
      ultimately show ?thesis
        using s out front by (simp add: buf_copy_data_def Let_def r1_def [symmetric])
    next
      case r: True
      show ?thesis
      proof (cases "r2 > 0")
        case False
        then have "r2 = 0"
          using word_gt_0 by blast
        moreover from this have "r3 = 0"
          by (simp add: r3_def)
        ultimately show ?thesis
          using s r out front zs by (simp add: buf_copy_data_def Let_def r1_def [symmetric] r2_def [symmetric])
      next
        case True
        then show ?thesis
          using s r out front rear zs
          by (simp add: buf_copy_data_def Let_def r1_def [symmetric] r2_def [symmetric] r3_def [symmetric])
      qed
    qed
  qed
  show ?thesis
    using eq k r3 len d(4) by auto
qed

end
