(* ===== verification/Buffer_Wire.thy ===== *)
theory Buffer_Wire
  imports Buffer_Reading
begin

unbundle bit_operations_syntax

text \<open>
  \<open>Buffer::Serialize\<close> and \<open>Deserialize\<close>: what is written is the number of zeros, and the lengths and bytes of
  the two stored parts, each padded to a multiple of four; reading it in another buffer gives the same bytes.
\<close>

section \<open>Layout\<close>

lemma unat_round4:
  assumes "unat n < 2 ^ 30"
  shows "unat (round4 n) = unat n + 3 - (unat n + 3) mod 4"
proof -
  let ?x = "n + 3"
  have x: "unat ?x = unat n + 3"
    using assms by (subst unat32_add) auto
  have "(?x AND NOT 3) AND (?x AND 3) = 0" "(?x AND NOT 3) OR (?x AND 3) = ?x"
    by (auto intro!: bit_word_eqI simp: bit_simps)
  then have sum: "(?x AND NOT 3) + (?x AND 3) = ?x"
    by (metis add.left_neutral word_plus_and_or)
  have "?x AND 3 = take_bit 2 ?x"
    by (simp add: take_bit_eq_mask mask_eq_exp_minus_1)
  then have m: "unat (?x AND 3) = unat ?x mod 4"
    by (simp only: unsigned_take_bit_eq) (simp add: take_bit_eq_mod)
  have "?x AND NOT 3 = ?x - (?x AND 3)"
    using sum by (metis add_diff_cancel_right')
  then have "unat (?x AND NOT 3) = unat ?x - unat (?x AND 3)"
    using m by (simp only: unat32_sub mod_less_eq_dividend)
  then show ?thesis
    by (simp only: round4_def m x)
qed

lemma round4_bounds:
  assumes "unat n < 2 ^ 30"
  shows "unat n \<le> unat (round4 n)" and "unat (round4 n) \<le> unat n + 3"
proof -
  have "(unat n + 3) mod 4 \<le> 3"
    using mod_less_divisor [of 4 "unat n + 3"] by linarith
  then show "unat n \<le> unat (round4 n)" and "unat (round4 n) \<le> unat n + 3"
    using unat_round4 [OF assms] by linarith+
qed

lemma in_read_splice_same:
  "unat p + length ys \<le> length xs \<Longrightarrow> unat n = length ys \<Longrightarrow> in_read p n (splice (unat p) ys xs) = Inr ys"
  by (simp add: in_read_def splice_length splice_get)

lemma in_read_splice_other:
  "i + length ys \<le> length xs \<Longrightarrow> unat p + unat n \<le> i \<or> i + length ys \<le> unat p \<Longrightarrow>
   in_read p n (splice i ys xs) = in_read p n xs"
  by (auto simp: in_read_def splice_length splice_before splice_behind)

lemma length_le_bytes [simp]: "length (le_bytes n x) = n"
  by (simp add: le_bytes_def)

lemma in_u32_le: "in_read p 4 out = Inr (le_bytes 4 x) \<Longrightarrow> in_u32 p out = Inr x"
  by (simp add: in_u32_def le_word_le_bytes)

text \<open>The serialised form of \<open>z\<close> zeros between the bytes \<open>f\<close> and \<open>r\<close>.\<close>

definition wire_form :: "bytes \<Rightarrow> 32 word \<Rightarrow> bytes \<Rightarrow> bytes \<Rightarrow> bool" where
  "wire_form out z f r \<longleftrightarrow>
     (let fl = of_nat (length f); rl = of_nat (length r)
      in in_read 0 4 out = Inr (le_bytes 4 z) \<and> in_read 4 4 out = Inr (le_bytes 4 fl) \<and> in_read 8 fl out = Inr f \<and>
         in_read (8 + round4 fl) 4 out = Inr (le_bytes 4 rl) \<and> in_read (12 + round4 fl) rl out = Inr r)"

definition front_bytes :: "buf_block \<Rightarrow> buf \<Rightarrow> bytes" where
  "front_bytes d b = take (front_len b) (drop (unat (b_start b)) (bd_bytes d))"

definition rear_bytes :: "buf_block \<Rightarrow> buf \<Rightarrow> bytes" where
  "rear_bytes d b = take (back_len b) (drop (unat (b_zeroAreaStart b)) (bd_bytes d))"

lemma buf_serialized_size_nat:
  assumes "buf_fits d b"
  shows "unat (buf_serialized_size b) =
    12 + unat (round4 (b_zeroAreaStart b - b_start b)) + unat (round4 (b_end b - b_zeroAreaEnd b))"
proof -
  have f: "unat (b_zeroAreaStart b - b_start b) < 2 ^ 29" and r: "unat (b_end b - b_zeroAreaEnd b) < 2 ^ 29"
    using assms by (auto simp: front_len_nat [OF assms] back_len_nat [OF assms] front_len_def back_len_def buf_fits_def)
  have "unat (round4 (b_zeroAreaStart b - b_start b)) \<le> 2 ^ 29 + 2" "unat (round4 (b_end b - b_zeroAreaEnd b)) \<le> 2 ^ 29 + 2"
    using round4_bounds(2) [of "b_zeroAreaStart b - b_start b"] round4_bounds(2) [of "b_end b - b_zeroAreaEnd b"] f r
    by simp_all
  then show ?thesis
    by (simp add: buf_serialized_size_def unat_word_ariths)
qed

lemma buf_serialize_ok:
  assumes "bw_data w (b_data b) = Some d" and "buf_fits d b" and "block_ok d"
    and "buf_serialized_size b \<le> maxSize" and "unat (buf_serialized_size b) \<le> length out"
  shows "\<exists>out'. buf_serialize maxSize out b w = Inr (1, out') \<and> length out' = length out \<and>
    wire_form out' (b_zeroAreaEnd b - b_zeroAreaStart b) (front_bytes d b) (rear_bytes d b)"
proof -
  let ?f = "b_zeroAreaStart b - b_start b" and ?r = "b_end b - b_zeroAreaEnd b" and ?z = "b_zeroAreaEnd b - b_zeroAreaStart b"
  have f: "unat ?f = front_len b" "unat ?f < 2 ^ 29" and r: "unat ?r = back_len b" "unat ?r < 2 ^ 29"
    using assms(2) by (auto simp: front_len_nat [OF assms(2)] back_len_nat [OF assms(2)] front_len_def back_len_def buf_fits_def)
  have rf: "unat ?f \<le> unat (round4 ?f)" "unat (round4 ?f) \<le> 2 ^ 29 + 2"
    and rr: "unat ?r \<le> unat (round4 ?r)" "unat (round4 ?r) \<le> 2 ^ 29 + 2"
    using round4_bounds [of ?f] round4_bounds [of ?r] f(2) r(2) by simp_all
  have size: "unat (buf_serialized_size b) = 12 + unat (round4 ?f) + unat (round4 ?r)"
    by (rule buf_serialized_size_nat [OF assms(2)])
  have max: "12 + unat (round4 ?f) + unat (round4 ?r) \<le> unat maxSize"
    using assms(4) size by (simp add: word_le_nat_alt)
  have len: "length (front_bytes d b) = unat ?f" "length (rear_bytes d b) = unat ?r"
    using view_part_lengths [OF assms(2,3)] f(1) r(1) by (simp_all add: front_bytes_def rear_bytes_def)
  have p: "unat (8 + round4 ?f) = 8 + unat (round4 ?f)" "unat (12 + round4 ?f) = 12 + unat (round4 ?f)"
    "unat (8 + round4 ?f + 4) = 12 + unat (round4 ?f)" "unat (12 + round4 ?f + round4 ?r) = 12 + unat (round4 ?f) + unat (round4 ?r)"
    using rf(2) rr(2) by (simp_all add: unat_word_ariths)
  have m: "4 \<le> maxSize" "8 \<le> maxSize" "8 + round4 ?f \<le> maxSize" "12 + round4 ?f \<le> maxSize"
    "12 + round4 ?f + round4 ?r \<le> maxSize"
    using max p by (simp_all add: word_le_nat_alt)
  have fd: "mem_read (b_data b) (b_start b) ?f w = Inr (front_bytes d b)"
    "mem_read (b_data b) (b_zeroAreaStart b) ?r w = Inr (rear_bytes d b)"
    using assms(1-3) f(1) r(1)
    by (auto simp: mem_read_def front_bytes_def rear_bytes_def buf_fits_def block_ok_def phys_end_def front_len_def)
  define o1 where "o1 = splice 0 (le_bytes 4 ?z) out"
  define o2 where "o2 = splice 4 (le_bytes 4 ?f) o1"
  define o3 where "o3 = splice 8 (front_bytes d b) o2"
  define o4 where "o4 = splice (8 + unat (round4 ?f)) (le_bytes 4 ?r) o3"
  define o5 where "o5 = splice (12 + unat (round4 ?f)) (rear_bytes d b) o4"
  have room: "12 + unat (round4 ?f) + unat (round4 ?r) \<le> length out"
    using assms(5) size by simp
  have l1: "length o1 = length out"
    unfolding o1_def using room by (intro splice_length) simp
  have l2: "length o2 = length out"
    unfolding o2_def using room l1 by (subst splice_length) simp_all
  have l3: "length o3 = length out"
    unfolding o3_def using room l2 rf len by (subst splice_length) simp_all
  have l4: "length o4 = length out"
    unfolding o4_def using room l3 by (subst splice_length) simp_all
  have l5: "length o5 = length out"
    unfolding o5_def using room l4 rr len by (subst splice_length) simp_all
  have e: "(0::32 word) + 4 = 4" "(4::32 word) + 4 = 8" "8 + round4 ?f + 4 = 12 + round4 ?f"
    by simp_all
  have o: "out_write 0 (le_bytes 4 ?z) out = Inr o1" "out_write 4 (le_bytes 4 ?f) o1 = Inr o2"
    "out_write 8 (front_bytes d b) o2 = Inr o3" "out_write (8 + round4 ?f) (le_bytes 4 ?r) o3 = Inr o4"
    "out_write (12 + round4 ?f) (rear_bytes d b) o4 = Inr o5"
    using room l1 l2 l3 l4 rf rr len p by (simp_all add: out_write_def o1_def o2_def o3_def o4_def o5_def)
  have "buf_serialize maxSize out b w = Inr (1, o5)"
    unfolding buf_serialize_def Let_def e o fd
    by (simp only: m simp_thms if_False if_True res_bind_simps o fd e)
  moreover have "wire_form o5 ?z (front_bytes d b) (rear_bytes d b)"
  proof -
    have n: "of_nat (length (front_bytes d b)) = ?f" "of_nat (length (rear_bytes d b)) = ?r"
      by (simp_all add: len)
    have k5: "in_read q k o5 = in_read q k o4" if "unat q + unat k \<le> 12 + unat (round4 ?f)" for q k
      unfolding o5_def using that room l4 rr len by (intro in_read_splice_other) simp_all
    have k4: "in_read q k o4 = in_read q k o3" if "unat q + unat k \<le> 8 + unat (round4 ?f)" for q k
      unfolding o4_def using that room l3 by (intro in_read_splice_other) simp_all
    have k3: "in_read q k o3 = in_read q k o2" if "unat q + unat k \<le> 8" for q k
      unfolding o3_def using that room l2 rf len by (intro in_read_splice_other) simp_all
    have k2: "in_read q k o2 = in_read q k o1" if "unat q + unat k \<le> 4" for q k
      unfolding o2_def using that room l1 by (intro in_read_splice_other) simp_all
    have g1: "in_read 0 4 o1 = Inr (le_bytes 4 ?z)"
      unfolding o1_def using in_read_splice_same [of 0 "le_bytes 4 ?z" out 4] room by simp
    have g2: "in_read 4 4 o2 = Inr (le_bytes 4 ?f)"
      unfolding o2_def using in_read_splice_same [of 4 "le_bytes 4 ?f" o1 4] room l1 by simp
    have g3: "in_read 8 ?f o3 = Inr (front_bytes d b)"
    proof -
      have u8: "unat (8 :: 32 word) = 8"
        by simp
      then have "unat (8 :: 32 word) + length (front_bytes d b) \<le> length o2"
        using room l2 rf(1) len(1) by linarith
      from in_read_splice_same [OF this len(1) [symmetric]] show ?thesis
        unfolding o3_def u8 .
    qed
    have g4: "in_read (8 + round4 ?f) 4 o4 = Inr (le_bytes 4 ?r)"
      unfolding o4_def using in_read_splice_same [of "8 + round4 ?f" "le_bytes 4 ?r" o3 4] room l3 p by simp
    have g5: "in_read (12 + round4 ?f) ?r o5 = Inr (rear_bytes d b)"
    proof -
      have "unat (12 + round4 ?f) + length (rear_bytes d b) \<le> length o4"
        using room l4 rr(1) len(2) p(2) by linarith
      from in_read_splice_same [OF this len(2) [symmetric]] show ?thesis
        unfolding o5_def p(2) .
    qed
    have "in_read 0 4 o5 = Inr (le_bytes 4 ?z)" "in_read 4 4 o5 = Inr (le_bytes 4 ?f)"
      "in_read 8 ?f o5 = Inr (front_bytes d b)" "in_read (8 + round4 ?f) 4 o5 = Inr (le_bytes 4 ?r)"
      using g1 g2 g3 g4 k2 k3 k4 k5 p rf by simp_all
    then show ?thesis
      unfolding wire_form_def Let_def n using g5 by simp
  qed
  ultimately show ?thesis
    using l5 by blast
qed

section \<open>Reading it back\<close>

lemma buf_deserialize_ok:
  assumes "world_ok w M" and "wire_form inp z f r" and "unat z + length f + length r < 2 ^ 29"
    and "sz = 16 + round4 (of_nat (length f)) + round4 (of_nat (length r))"
  shows "\<exists>b' w'. buf_deserialize inp sz w = Inr (1, b', w') \<and> world_ok w' (add_mset b' M) \<and> keeps M w w' \<and>
    buf_view w' b' = f @ replicate (unat z) 0 @ r"
proof -
  let ?fl = "of_nat (length f) :: 32 word" and ?rl = "of_nat (length r) :: 32 word"
  have fl: "unat ?fl = length f" and rl: "unat ?rl = length r"
    using assms(3) by (simp_all add: unat_length)
  have rf: "unat ?fl \<le> unat (round4 ?fl)" "unat (round4 ?fl) \<le> 2 ^ 29 + 2"
    and rr: "unat ?rl \<le> unat (round4 ?rl)" "unat (round4 ?rl) \<le> 2 ^ 29 + 2"
    using round4_bounds [of ?fl] round4_bounds [of ?rl] fl rl assms(3) by simp_all
  note in_form = assms(2) [unfolded wire_form_def Let_def]
  have i: "in_u32 0 inp = Inr z" "in_u32 4 inp = Inr ?fl" "in_read 8 ?fl inp = Inr f"
    "in_u32 (8 + round4 ?fl) inp = Inr ?rl" "in_read (12 + round4 ?fl) ?rl inp = Inr r"
    using in_form by (auto intro: in_u32_le)
  have "unat z < 2 ^ 29"
    using assms(3) by simp
  from buf_initialize_ok [OF assms(1) this] obtain b0 w0 where z: "buf_initialize z w = Inr (b0, w0)"
    "world_ok w0 (add_mset b0 M)" "keeps M w w0" "buf_view w0 b0 = replicate (unat z) 0"
    by blast
  obtain b1 w1 where a: "buf_add_start ?fl b0 w0 = Inr (b1, w1)" "grown_start w0 b0 M (length f) (b1, w1)"
    using buf_add_start_ok [OF z(2), of ?fl] z(4) fl assms(3) by auto
  from fill_start [OF a(2)] obtain it w2 where f: "it_write f (it_begin b1, w1) = Inr (it, w2)"
    "world_ok w2 (add_mset b1 M)" "keeps M w0 w2" "buf_view w2 b1 = f @ replicate (unat z) 0"
    using z(4) by auto
  obtain b3 w3 where e: "buf_add_end ?rl b1 w2 = Inr (b3, w3)" "grown_end w2 b1 M (length r) (b3, w3)"
    using buf_add_end_ok [OF f(2), of ?rl] f(4) rl assms(3) by auto
  have "length r < 2 ^ 29"
    using assms(3) by simp
  from fill_end [OF e(2) this] obtain jt jt' w4 where r: "it_prev ?rl (it_end b3) = Inr jt"
    "it_write r (jt, w3) = Inr (jt', w4)" "world_ok w4 (add_mset b3 M)" "keeps M w2 w4"
    "buf_view w4 b3 = f @ replicate (unat z) 0 @ r"
    using f(4) by auto
  define c1 where "c1 = 4 + round4 ?fl + round4 ?rl"
  have s: "sz - 4 = 12 + round4 ?fl + round4 ?rl" "12 + round4 ?fl + round4 ?rl - 4 = 8 + round4 ?fl + round4 ?rl"
    "8 + round4 ?fl + round4 ?rl - 4 = c1" "c1 - round4 ?fl = 4 + round4 ?rl" "4 + round4 ?rl - 4 = round4 ?rl" "round4 ?rl - round4 ?rl = 0"
    by (simp_all add: assms(4) c1_def)
  have le: "4 \<le> 12 + round4 ?fl + round4 ?rl" "4 \<le> 8 + round4 ?fl + round4 ?rl" "?fl \<le> c1" "4 \<le> 4 + round4 ?rl"
    "?rl \<le> round4 ?rl"
    using rf rr by (simp_all add: word_le_nat_alt unat_word_ariths c1_def)
  have p: "(0::32 word) + 4 = 4" "(4::32 word) + 4 = 8" "8 + round4 ?fl + 4 = 12 + round4 ?fl"
    by simp_all
  have "buf_deserialize inp sz w = Inr (1, b3, w4)"
    unfolding buf_deserialize_def Let_def s p i z(1)
    by (simp only: s p le ns_assert_simps res_bind_simps i z(1) a(1) f(1) e(1) r(1,2) prod.case simp_thms if_False)
  moreover have "keeps M w w4"
    using keeps_trans keeps_trans z(3) f(3) r(4) by blast
  ultimately show ?thesis
    using r(3,5) by blast
qed

end
