(* ===== verification/Buffer_Appending.thy ===== *)
theory Buffer_Appending
  imports Buffer_Wire
begin

text \<open>
  \<open>Buffer::CreateFullCopy\<close> and \<open>AddAtEnd\<close> of a whole buffer. The shortcut for two zero areas that meet writes
  the bytes behind the zeros at a position that does not leave the zeros out, so it is right only for
  a buffer without such bytes.
\<close>

section \<open>Reading another buffer\<close>

lemma read_front:
  assumes "world_ok w M" and "c \<in># M"
  shows "mem_read (b_data c) (b_start c) (b_zeroAreaStart c - b_start c) w = Inr (take (front_len c) (buf_view w c))"
proof -
  from world_ok_block [OF assms] obtain d where d: "bw_data w (b_data c) = Some d" "buf_fits d c" "block_ok d"
    "buf_view w c = block_view d c"
    by blast
  have "zone c (unat (b_start c)) (unat (b_zeroAreaStart c - b_start c)) (unat (b_start c))"
    using d(2) by (simp add: zone_def front_len_nat [OF d(2)]) (simp add: front_len_def buf_fits_def)
  from mem_read_zone [OF d(1-3) this refl] show ?thesis
    using d(4) by (simp add: front_len_nat [OF d(2)])
qed

lemma read_rear:
  assumes "world_ok w M" and "c \<in># M" and "unat q = unat (b_zeroAreaStart c)"
  shows "mem_read (b_data c) q (b_end c - b_zeroAreaEnd c) w = Inr (drop (front_len c + zero_len c) (buf_view w c))"
proof -
  from world_ok_block [OF assms(1,2)] obtain d where d: "bw_data w (b_data c) = Some d" "buf_fits d c" "block_ok d"
    "buf_view w c = block_view d c"
    by blast
  have "zone c (unat (b_zeroAreaEnd c)) (unat (b_end c - b_zeroAreaEnd c)) (unat (b_zeroAreaStart c))"
    using d(2) by (simp add: zone_def back_len_nat [OF d(2)]) (auto simp: back_len_def zero_len_def buf_fits_def)
  note r = mem_read_zone [OF d(1-3) this assms(3)]
  have e: "unat (b_zeroAreaEnd c) - unat (b_start c) = front_len c + zero_len c"
    using d(2) by (simp add: front_len_def zero_len_def buf_fits_def)
  have "length (block_view d c) = front_len c + zero_len c + back_len c"
    using d(2) block_view_length [OF d(2,3)] by (simp add: front_len_def zero_len_def back_len_def buf_fits_def)
  then show ?thesis
    using r d(4) by (simp add: back_len_nat [OF d(2)] e)
qed

lemma view_parts:
  assumes "world_ok w M" and "c \<in># M"
  shows "buf_view w c = take (front_len c) (buf_view w c) @ replicate (zero_len c) 0 @
      drop (front_len c + zero_len c) (buf_view w c)"
    and "length (take (front_len c) (buf_view w c)) = front_len c"
    and "length (drop (front_len c + zero_len c) (buf_view w c)) = back_len c"
    and "length (buf_view w c) = front_len c + zero_len c + back_len c" and "length (buf_view w c) < 2 ^ 29"
proof -
  from world_ok_block [OF assms] obtain d where d: "buf_fits d c" "block_ok d" "buf_view w c = block_view d c"
    by blast
  note l = view_part_lengths [OF d(1,2)]
  show "length (buf_view w c) = front_len c + zero_len c + back_len c" "length (buf_view w c) < 2 ^ 29"
    using d(1,3) block_view_length [OF d(1,2)] by (auto simp: front_len_def zero_len_def back_len_def buf_fits_def)
  then show "length (take (front_len c) (buf_view w c)) = front_len c"
    "length (drop (front_len c + zero_len c) (buf_view w c)) = back_len c"
    by simp_all
  show "buf_view w c = take (front_len c) (buf_view w c) @ replicate (zero_len c) 0 @
      drop (front_len c + zero_len c) (buf_view w c)"
    unfolding d(3) block_view_def using l by simp
qed

section \<open>Full copies\<close>

text \<open>A copy in its own block, when there is a zero area; a shared one otherwise.\<close>

lemma buf_full_copy_ok:
  assumes "world_ok w M" and "b \<in># M" and "size M < 2 ^ 32 - 1"
  shows "\<exists>t w'. buf_full_copy b w = Inr (t, w') \<and> world_ok w' (add_mset t M) \<and> keeps M w w' \<and>
    buf_view w' t = buf_view w b \<and>
    zero_len t = 0 \<and>
    (if zero_len b > 0 then (\<forall>c \<in># M. b_data c \<noteq> b_data t) else buf_copy b w = Inr (t, w') \<and> same_place t b)"
proof (cases "zero_len b > 0")
  case False
  obtain d where d: "buf_fits d b"
    using world_ok_block [OF assms(1,2)] by blast
  have "b_zeroAreaEnd b - b_zeroAreaStart b = 0"
    using False zero_len_nat [OF d] by (simp add: unat_eq_zero [symmetric])
  then have "buf_full_copy b w = buf_copy b w"
    by (simp add: buf_full_copy_def Let_def)
  then show ?thesis
    using buf_copy_ok [OF assms] False same_place_lens by (metis not_gr_zero)
next
  case True
  obtain d where d: "buf_fits d b"
    using world_ok_block [OF assms(1,2)] by blast
  let ?z = "b_zeroAreaEnd b - b_zeroAreaStart b" and ?f = "b_zeroAreaStart b - b_start b" and ?r = "b_end b - b_zeroAreaEnd b"
  note n = zero_len_nat [OF d] front_len_nat [OF d] back_len_nat [OF d]
  have z: "?z \<noteq> 0"
    using True n(1) by (metis less_numeral_extra(3) unat_0)
  let ?v = "buf_view w b"
  define zs f r where "zs = replicate (zero_len b) (0 :: 8 word)" and "f = take (front_len b) ?v"
    and "r = drop (front_len b + zero_len b) ?v"
  note parts = view_parts [OF assms(1,2)]
  have len: "length zs = zero_len b" "length f = front_len b" "length r = back_len b"
    using parts(2,3) by (simp_all add: zs_def f_def r_def)
  have of_len: "of_nat (length zs) = ?z" "of_nat (length f) = ?f" "of_nat (length r) = ?r"
    by (simp_all add: len n [symmetric])
  have sizes: "zero_len b + front_len b + back_len b < 2 ^ 29"
    using parts(4,5) by simp
  from buf_initialize_ok [OF assms(1), of 0] obtain b0 w0 where w0: "buf_initialize 0 w = Inr (b0, w0)"
    "world_ok w0 (add_mset b0 M)" "keeps M w w0" "buf_view w0 b0 = []" and fresh0: "\<forall>c \<in># M. b_data c \<noteq> b_data b0"
      "zero_len b0 = 0"
    by auto
  obtain b1 w1 where w1: "buf_add_start ?z b0 w0 = Inr (b1, w1)" "grown_start w0 b0 M (length zs) (b1, w1)"
    using buf_add_start_ok [OF w0(2), of ?z] w0(4) n len sizes by auto
  from fill_start [OF w1(2)] obtain it w2 where w2: "it_fill 0 ?z (it_begin b1, w1) = Inr (it, w2)"
    "world_ok w2 (add_mset b1 M)" "keeps M w0 w2" "buf_view w2 b1 = zs"
    using w0(4) of_len(1) len(1) zs_def by auto
  obtain b3 w3 where w3: "buf_add_start ?f b1 w2 = Inr (b3, w3)" "grown_start w2 b1 M (length f) (b3, w3)"
    using buf_add_start_ok [OF w2(2), of ?f] w2(4) n len sizes by auto
  have W3: "world_ok w3 (add_mset b3 M)" "keeps M w2 w3"
    using w3(2) by (simp_all add: grown_start_def)
  have k3: "keeps M w w3"
    using keeps_trans [OF w0(3) keeps_trans [OF w2(3) W3(2)]] .
  have rf: "mem_read (b_data b) (b_start b) ?f w3 = Inr f"
    using read_front [OF W3(1), of b] assms(2) k3 by (simp add: f_def keeps_def)
  from fill_start [OF w3(2)] obtain it4 w4 where w4: "it_write f (it_begin b3, w3) = Inr (it4, w4)"
    "world_ok w4 (add_mset b3 M)" "keeps M w2 w4" "buf_view w4 b3 = f @ zs"
    using w2(4) by auto
  obtain b5 w5 where w5: "buf_add_end ?r b3 w4 = Inr (b5, w5)" "grown_end w4 b3 M (length r) (b5, w5)"
    using buf_add_end_ok [OF w4(2), of ?r] w4(4) n len sizes by auto
  have W5: "world_ok w5 (add_mset b5 M)" "keeps M w4 w5"
    using w5(2) by (simp_all add: grown_end_def)
  have k5: "keeps M w w5"
    using keeps_trans [OF w0(3) keeps_trans [OF w2(3) keeps_trans [OF w4(3) W5(2)]]] .
  have rr: "mem_read (b_data b) (b_zeroAreaStart b) ?r w5 = Inr r"
    using read_rear [OF W5(1), of b] assms(2) k5 by (simp add: r_def keeps_def)
  have "length r < 2 ^ 29"
    using sizes len by simp
  from fill_end [OF w5(2) this] obtain jt jt' w6 where w6: "it_prev ?r (it_end b5) = Inr jt"
    "it_write r (jt, w5) = Inr (jt', w6)" "world_ok w6 (add_mset b5 M)" "keeps M w4 w6" "buf_view w6 b5 = f @ zs @ r"
    using w4(4) of_len(3) by auto
  have "buf_full_copy b w = Inr (b5, w6)"
    using z w0(1) w1(1) w2(1) w3(1) rf w4(1) w5(1) w6(1,2) rr by (simp add: buf_full_copy_def Let_def)
  moreover have "keeps M w w6"
    using keeps_trans [OF w0(3) keeps_trans [OF w2(3) keeps_trans [OF w4(3) w6(4)]]] .
  moreover have "f @ zs @ r = ?v"
    using parts(1) by (simp add: f_def zs_def r_def)
  moreover have "(\<forall>c \<in># M. b_data c \<noteq> b_data b5) \<and> zero_len b5 = 0"
    using fresh0 w1(2) w3(2) w5(2) by (auto simp: grown_start_def grown_end_def)
  ultimately show ?thesis
    using w6(3,5) True by auto
qed

section \<open>The bytes of one buffer behind those of another\<close>

lemma mem_write_step:
  assumes "world_ok w (add_mset b M)" and "zone b (unat cur) (length bs) (unat cur)"
    and "unseen M (b_data b) (unat cur) (length bs)"
  shows "\<exists>w'. mem_write (b_data b) cur bs w = Inr w' \<and> world_ok w' (add_mset b M) \<and> keeps M w w' \<and>
    buf_view w' b = splice (unat cur - unat (b_start b)) bs (buf_view w b)"
proof -
  from world_ok_block [OF assms(1), of b] obtain d where d: "bw_data w (b_data b) = Some d" "buf_fits d b" "block_ok d"
    by auto
  show ?thesis
    using write_ok [OF assms] it_write_u8s_ok [OF d(1,3,2) assms(2)]
      mem_write_written [OF d(1,3) refl zone_bounds(1) [OF d(2,3) assms(2)]] by auto
qed

lemma splice_tail: "length g = length ys + n \<Longrightarrow> i = length xs \<Longrightarrow> splice i ys (xs @ g) = (xs @ ys) @ drop (length ys) g"
  by (simp add: splice_def)

lemma write_range_ok:
  assumes "grown_end w b M (length (buf_view w c)) (b1, w1)" and "c \<in># M" and "b_data c \<noteq> b_data b1" and "zero_len b1 = 0"
  shows "\<exists>dst it w2. it_prev (buf_size c) (it_end b1) = Inr dst \<and>
    it_write_range (it_begin c) (it_end c) (dst, w1) = Inr (it, w2) \<and>
    world_ok w2 (add_mset b1 M) \<and> keeps M w w2 \<and> buf_view w2 b1 = buf_view w b @ buf_view w c"
proof -
  let ?v = "buf_view w c"
  from assms(1) obtain g where g: "world_ok w1 (add_mset b1 M)" "keeps M w w1" "room_end M b1 (length ?v)"
    "length g = length ?v" "buf_view w1 b1 = buf_view w b @ g"
    by (auto simp: grown_end_def)
  obtain d where d: "buf_fits d b1" "block_ok d" "buf_view w1 b1 = block_view d b1" "bw_data w1 (b_data b1) = Some d"
    using world_ok_block [OF g(1), of b1] by auto
  have c1: "c \<in># add_mset b1 M"
    using assms(2) by simp
  have v: "buf_view w1 c = ?v"
    using g(2) assms(2) by (simp add: keeps_def)
  obtain e where e: "buf_fits e c"
    using world_ok_block [OF g(1) c1] by blast
  note parts = view_parts [OF g(1) c1, unfolded v]
  note n = zero_len_nat [OF e] front_len_nat [OF e] back_len_nat [OF e]
  define f zs r where "f = take (front_len c) ?v" and "zs = replicate (zero_len c) (0 :: 8 word)"
    and "r = drop (front_len c + zero_len c) ?v"
  have len: "length f = front_len c" "length zs = zero_len c" "length r = back_len c"
    "length ?v = front_len c + zero_len c + back_len c"
    using parts(2-4) by (simp_all add: f_def zs_def r_def)
  have size: "unat (buf_size c) = length ?v"
    using world_ok_view_length [OF g(1) c1] v by simp
  have le: "length ?v \<le> back_len b1" "length ?v \<le> unat (b_end b1)"
    using g(3) by (auto simp: room_end_def back_len_def)
  define cur where "cur = b_end b1 - buf_size c"
  have cur: "unat cur = unat (b_end b1) - length ?v"
    using le size by (simp add: cur_def unat32_sub)
  have prev: "it_prev (buf_size c) (it_end b1) = Inr (it_construct b1 cur)"
    using le size by (simp add: it_prev_def it_end_def it_construct_def word_le_nat_alt cur_def)
  have ze: "unat (b_zeroAreaEnd b1) = unat (b_zeroAreaStart b1)" "phys_end b1 = unat (b_end b1)"
    using assms(4) d(1) by (auto simp: zero_len_def buf_fits_def phys_end_def back_len_def)
  have lt: "unat (b_end b1) < 2 ^ 31"
    by (rule fits_less [OF d(1,2)])
  have z: "zone b1 (unat q) k (unat q)" and u: "unseen M (b_data b1) (unat q) k"
    if "unat cur \<le> unat q" "unat q + k \<le> unat (b_end b1)" for q :: "32 word" and k
  proof -
    have "unat (b_zeroAreaEnd b1) \<le> unat cur"
      using le(1) cur d(1) by (auto simp: back_len_def buf_fits_def)
    then show "zone b1 (unat q) k (unat q)"
      using that assms(4) by (simp add: zone_def)
    have "phys_end x \<le> unat cur" if "x \<in># M" "b_data x = b_data b1" for x
      using g(3) that ze(2) cur by (auto simp: room_end_def)
    then show "unseen M (b_data b1) (unat q) k"
      using that(1) by (auto simp: unseen_def intro: order_trans)
  qed
  have "length (buf_view w b @ g) = unat (b_end b1) - unat (b_start b1)"
    using d(3) g(5) block_view_length [OF d(1,2)] by simp
  then have start: "unat cur - unat (b_start b1) = length (buf_view w b)"
    using g(4) cur by simp
  define F Z R where "F = b_zeroAreaStart c - b_start c" and "Z = b_zeroAreaEnd c - b_zeroAreaStart c"
    and "R = b_end c - b_zeroAreaEnd c"
  note n = n [folded F_def Z_def R_def]
  have F: "unat (cur + F) = unat cur + length f" "unat (cur + F + Z) = unat cur + length f + length zs"
    using n len cur lt le(2) by (simp_all add: unat32_add)
  have cur_start: "unat (b_start b1) \<le> unat cur"
    using le(1) cur d(1) by (auto simp: back_len_def buf_fits_def)
  have step: "\<exists>w'. mem_write (b_data b1) q ys w0 = Inr w' \<and> world_ok w' (add_mset b1 M) \<and> keeps M w0 w' \<and>
      buf_view w' b1 = (buf_view w b @ xs @ ys) @ drop (length ys) h"
    if "world_ok w0 (add_mset b1 M)" "unat q = unat cur + length xs" "buf_view w0 b1 = (buf_view w b @ xs) @ h"
      "length xs + length h = length ?v" "length ys \<le> length h" for w0 q xs ys h
  proof -
    have "unat cur \<le> unat q" "unat q + length ys \<le> unat (b_end b1)"
      using that(2,4,5) cur le(2) by simp_all
    note s = mem_write_step [OF that(1) z [OF this] u [OF this]]
    have "unat q - unat (b_start b1) = length (buf_view w b @ xs)"
      using that(2) start cur_start by simp
    moreover have "length h = length ys + (length h - length ys)"
      using that(5) by simp
    ultimately have "splice (unat q - unat (b_start b1)) ys (buf_view w0 b1) = (buf_view w b @ xs @ ys) @ drop (length ys) h"
      using splice_tail [of h ys "length h - length ys" "unat q - unat (b_start b1)" "buf_view w b @ xs"] that(3) by simp
    then show ?thesis
      using s by simp
  qed
  have gl: "length g = length f + (length zs + length r)"
    using g(4) len by simp
  obtain w2 where w2: "mem_write (b_data b1) cur f w1 = Inr w2" "world_ok w2 (add_mset b1 M)" "keeps M w1 w2"
    "buf_view w2 b1 = (buf_view w b @ f) @ drop (length f) g"
    using step [OF g(1), of cur "[]" g f] g(4,5) gl by auto
  obtain w3 where w3: "mem_write (b_data b1) (cur + F) zs w2 = Inr w3" "world_ok w3 (add_mset b1 M)" "keeps M w2 w3"
    "buf_view w3 b1 = (buf_view w b @ f @ zs) @ drop (length f + length zs) g"
  proof -
    have "length f + length (drop (length f) g) = length ?v" "length zs \<le> length (drop (length f) g)"
      using g(4) gl by simp_all
    from step [OF w2(2) F(1) w2(4) this] that show thesis
      by (auto simp: add.commute [of "length zs"])
  qed
  obtain w4 where w4: "mem_write (b_data b1) (cur + F + Z) r w3 = Inr w4" "world_ok w4 (add_mset b1 M)" "keeps M w3 w4"
    "buf_view w4 b1 = buf_view w b @ f @ zs @ r"
  proof -
    let ?h = "drop (length f + length zs) g"
    have "unat (cur + F + Z) = unat cur + length (f @ zs)"
      using F(2) by simp
    moreover have "buf_view w3 b1 = (buf_view w b @ f @ zs) @ ?h"
      using w3(4) by simp
    moreover have "length (f @ zs) + length ?h = length ?v" "length r = length ?h"
      using g(4) gl by simp_all
    ultimately show thesis
      using step [OF w3(2), of "cur + F + Z" "f @ zs" ?h r] that by auto
  qed
  have rd: "mem_read (b_data c) (b_start c) F w1 = Inr f"
    using read_front [OF g(1) c1] v by (simp add: f_def F_def)
  have "buf_view w3 c = ?v"
    using v w2(3) w3(3) assms(2) by (simp add: keeps_def)
  then have rr: "mem_read (b_data c) (b_start c + F + Z - Z) R w3 = Inr r"
    using read_rear [OF w3(2) c1, of "b_zeroAreaStart c"] by (simp add: r_def F_def R_def)
  have size_sum: "buf_size c = F + (Z + R)"
    by (simp add: buf_size_def F_def Z_def R_def)
  have small: "unat F + unat Z + unat R < 2 ^ 29"
    using n parts(4,5) by simp
  then have u2: "unat (F + (Z + R)) = unat F + unat Z + unat R" "unat (Z + R) = unat Z + unat R"
    by (simp_all add: unat32_add)
  have m: "min (F + (Z + R)) F = F" "F + (Z + R) - F = Z + R" "min (Z + R) Z = Z" "Z + R - Z = R" "min R R = R"
    using u2 by (simp_all add: min.absorb2 word_le_nat_alt)
  have pos: "b_zeroAreaStart c = b_start c + F" "b_zeroAreaEnd c = b_start c + F + Z" "b_end c = b_start c + F + Z + R"
    by (simp_all add: F_def Z_def R_def)
  have "b_zeroAreaEnd b1 = b_zeroAreaStart b1"
    using ze(1) by (simp add: word_unat_eq_iff)
  moreover have "cur + (F + (Z + R)) = b_end b1"
    by (simp add: cur_def size_sum)
  ultimately have dst: "b_data b1 \<noteq> b_data c" "it_check_no_zero cur (cur + (F + (Z + R))) (it_construct b1 cur)"
    using assms(3) cur_start by (simp_all add: it_check_no_zero_def word_less_nat_alt)
  have le2: "b_start c \<le> b_start c + F + Z + R" "b_start c \<le> b_start c + F" "b_start c + F \<le> b_start c + F + Z"
    using e pos by (simp_all add: buf_fits_def word_le_nat_alt)
  have "it_write_range (it_begin c) (it_end c) (it_construct b1 cur, w1) = Inr (it_construct b1 (cur + F + Z + R), w4)"
    using dst le2 rd rr w2(1) w3(1) w4(1) m
    by (simp add: it_write_range_def it_begin_def it_end_def Let_def pos n len it_behind_def zs_def)
  then show ?thesis
    using prev w4 keeps_trans [OF g(2) keeps_trans [OF w2(3) keeps_trans [OF w3(3) w4(3)]]] parts(1)
    by (auto simp: f_def zs_def r_def)
qed

section \<open>AddAtEnd of a buffer\<close>

lemma buf_make_real_ok:
  assumes "world_ok w (add_mset b M)" and "size M < 2 ^ 32 - 3" and "bw_data w (b_data b) = Some d"
  shows "\<exists>t w'. buf_make_real b w = Inr (t, w') \<and> world_ok w' (add_mset t M) \<and> keeps M w w' \<and>
    buf_view w' t = buf_view w b \<and> zero_len t = 0 \<and>
    (if zero_len b > 0 then (\<forall>c \<in># M. b_data c \<noteq> b_data t)
     else same_place t b \<and> (\<exists>d'. bw_data w' (b_data b) = Some d' \<and> bd_dirtyEnd d' = bd_dirtyEnd d))"
proof -
  from buf_full_copy_ok [OF assms(1), of b] assms(2) obtain t w1 where t: "buf_full_copy b w = Inr (t, w1)"
    "world_ok w1 (add_mset b (add_mset t M))" "keeps (add_mset b M) w w1" "buf_view w1 t = buf_view w b" "zero_len t = 0"
    "if zero_len b > 0 then (\<forall>c \<in># add_mset b M. b_data c \<noteq> b_data t) else buf_copy b w = Inr (t, w1) \<and> same_place t b"
    by (auto simp: add_mset_commute)
  from buf_assign_ok [OF t(2), of t] assms(2) obtain w2 where w2: "buf_assign b t w1 = Inr (t, w2)"
    "world_ok w2 (add_mset t (add_mset t M))" "keeps (add_mset t M) w1 w2"
    by auto
  from buf_destroy_ok [OF w2(2)] obtain w3 where w3: "buf_destroy t w2 = Inr w3" "world_ok w3 (add_mset t M)"
    "keeps (add_mset t M) w2 w3"
    by blast
  have "buf_make_real b w = Inr (t, w3)"
    using t(1) w2(1) w3(1) by (simp add: buf_make_real_def)
  moreover have "keeps M w w3" "buf_view w3 t = buf_view w b"
    using t(3,4) w2(3) w3(3) by (simp_all add: keeps_def)
  moreover have "same_place t b \<and> (\<exists>d'. bw_data w3 (b_data b) = Some d' \<and> bd_dirtyEnd d' = bd_dirtyEnd d)"
    if "\<not> zero_len b > 0"
  proof -
    have c: "buf_copy b w = Inr (t, w1)" "same_place t b"
      using t(6) that by simp_all
    then have eq: "w1 = bw_put (b_data b) (d\<lparr>bd_count := bd_count d + 1\<rparr>) w" "b_data t = b_data b"
      using assms(3) by (auto simp: buf_copy_def same_place_def)
    then have "w2 = buf_recommend b w1"
      using w2(1) by (simp add: buf_assign_def)
    moreover have "bd_count d \<noteq> 0"
      using sole_owner(2) [OF assms(1,3)] by auto
    ultimately have "bw_data w3 (b_data b) = Some d"
      using w3(1) eq by (simp add: buf_destroy_def buf_release_def buf_recommend_def Let_def)
        (auto simp: bw_put_def)
    then show ?thesis
      using c(2) by blast
  qed
  ultimately show ?thesis
    using w3(2) t(5,6) by auto
qed

definition append_fast :: "buf_block \<Rightarrow> buf \<Rightarrow> buf \<Rightarrow> bool" where
  "append_fast d b oth \<longleftrightarrow>
     bd_count d = 1 \<and> (b_end b = b_zeroAreaEnd b \<or> b_zeroAreaStart b = b_zeroAreaEnd b) \<and> b_end b = bd_dirtyEnd d \<and>
     b_start oth = b_zeroAreaStart oth \<and> b_zeroAreaEnd oth - b_zeroAreaStart oth > 0"

lemma append_slow_ok:
  assumes "world_ok w (add_mset b M)" and "c \<in># M" and "size M < 2 ^ 32 - 3" and "bw_data w (b_data b) = Some d"
    and "length (buf_view w b) + length (buf_view w c) < 2 ^ 29" and "\<not> append_fast d b c"
    and "b_data c \<noteq> b_data b \<or> zero_len b > 0 \<or> b_end b \<noteq> bd_dirtyEnd d"
  shows "\<exists>b' w'. buf_append c b w = Inr (b', w') \<and> world_ok w' (add_mset b' M) \<and> keeps M w w' \<and>
    buf_view w' b' = buf_view w b @ buf_view w c"
proof -
  from buf_make_real_ok [OF assms(1,3,4)] obtain t w1 where t: "buf_make_real b w = Inr (t, w1)"
    "world_ok w1 (add_mset t M)" "keeps M w w1" "buf_view w1 t = buf_view w b" "zero_len t = 0"
    and cases: "if zero_len b > 0 then (\<forall>x \<in># M. b_data x \<noteq> b_data t)
     else same_place t b \<and> (\<exists>d'. bw_data w1 (b_data b) = Some d' \<and> bd_dirtyEnd d' = bd_dirtyEnd d)"
    by blast
  have c: "buf_view w1 c = buf_view w c"
    using t(3) assms(2) by (simp add: keeps_def)
  have size: "unat (buf_size c) = length (buf_view w c)"
    using world_ok_view_length [OF t(2), of c] assms(2) c by simp
  have "length (buf_view w1 t) + unat (buf_size c) < 2 ^ 29"
    using assms(5) t(4) size by simp
  note add = buf_add_end_moves [OF t(2) this]
  obtain b1 w2 where b1: "buf_add_end (buf_size c) t w1 = Inr (b1, w2)" "grown_end w1 t M (length (buf_view w1 c)) (b1, w2)"
    and other: "b_data c \<noteq> b_data b1"
  proof -
    obtain b1 w2 where b1: "buf_add_end (buf_size c) t w1 = Inr (b1, w2)" "grown_end w1 t M (length (buf_view w1 c)) (b1, w2)"
      and moved: "\<And>e. bw_data w1 (b_data t) = Some e \<Longrightarrow> \<exists>x \<in># M. b_data x = b_data t \<Longrightarrow> b_end t \<noteq> bd_dirtyEnd e \<Longrightarrow>
        \<forall>x \<in># M. b_data x \<noteq> b_data b1"
      using add size c by fastforce
    have "b_data c \<noteq> b_data b1"
    proof (cases "b_data c = b_data t")
      case True
      then have z: "\<not> zero_len b > 0"
        using cases assms(2) by (auto split: if_splits)
      then have p: "same_place t b"
        using cases by simp
      obtain d' where d': "bw_data w1 (b_data b) = Some d'" "bd_dirtyEnd d' = bd_dirtyEnd d"
        using cases z by auto
      have "b_end t \<noteq> bd_dirtyEnd d'" "bw_data w1 (b_data t) = Some d'"
        using assms(7) True p z d' by (auto simp: same_place_def)
      then show ?thesis
        using moved True assms(2) by metis
    next
      case False
      then show ?thesis
        using b1(2) assms(2) by (auto simp: grown_end_def)
    qed
    then show thesis
      using that b1 by blast
  qed
  have "zero_len b1 = 0"
    using b1(2) t(5) by (simp add: grown_end_def)
  from write_range_ok [OF b1(2) assms(2) other this] obtain dst it w3 where w3: "it_prev (buf_size c) (it_end b1) = Inr dst"
    "it_write_range (it_begin c) (it_end c) (dst, w2) = Inr (it, w3)" "world_ok w3 (add_mset b1 M)" "keeps M w1 w3"
    "buf_view w3 b1 = buf_view w b @ buf_view w c"
    using t(4) c by auto
  obtain tmp wa bb wb where "buf_full_copy b w = Inr (tmp, wa)" "buf_assign b tmp wa = Inr (bb, wb)"
    "buf_destroy tmp wb = Inr w1" "bb = t"
    using t(1) by (auto simp: buf_make_real_def res_bind_eq_Inr)
  then have "buf_append c b w = Inr (b1, w3)"
    unfolding buf_append_def assms(4) deref_simps if_not_P [OF assms(6) [unfolded append_fast_def]]
    using b1(1) w3(1,2) by simp
  then show ?thesis
    using w3 keeps_trans [OF t(3)] by blast
qed

text \<open>The shortcut, when nothing is stored behind the zeros that are appended.\<close>

lemma mem_write_nil: "bw_data w a = Some d \<Longrightarrow> mem_write a pos [] w = Inr w"
  by (simp add: mem_write_def splice_def bw_put_def fun_upd_idem)

lemma mem_read_none: "bw_data w a = Some d \<Longrightarrow> mem_read a pos 0 w = Inr []"
  by (simp add: mem_read_def)

lemma write_range_nothing:
  assumes "bw_data w (b_data b) = Some d" and "bw_data w (b_data c) = Some e" and "b_data b \<noteq> b_data c"
    and "buf_fits d b" and "b_end c = b_zeroAreaEnd c" and "b_zeroAreaStart c < b_zeroAreaEnd c"
  shows "it_write_range (it_end c) (it_end c) (it_end b, w) = Inr (it_end b, w)"
proof -
  have "b_start b \<le> b_end b"
    using assms(4) by (simp add: buf_fits_def word_le_nat_alt)
  then show ?thesis
    using assms(1-3,5,6) mem_write_nil [OF assms(1)] mem_read_none [OF assms(2)]
    by (simp add: it_write_range_def it_end_def it_check_no_zero_def Let_def not_less [symmetric])
qed

lemma append_fast_shape:
  assumes "buf_fits d b" and "block_ok d" and "b_end b = b_zeroAreaEnd b \<or> b_zeroAreaStart b = b_zeroAreaEnd b"
    and "unat (b_end b) - unat (b_start b) + unat z < 2 ^ 29"
  defines "b1 \<equiv> (if b_zeroAreaStart b = b_zeroAreaEnd b then b\<lparr>b_zeroAreaStart := b_end b\<rparr> else b)
      \<lparr>b_zeroAreaEnd := b_end b + z, b_end := b_end b + z\<rparr>"
  shows "buf_fits (d\<lparr>bd_dirtyEnd := b_end b1\<rparr>) b1" and "phys_end b1 = phys_end b"
    and "block_view d b1 = block_view d b @ replicate (unat z) 0"
proof -
  have le: "unat (b_start b) \<le> unat (b_zeroAreaStart b)" "unat (b_zeroAreaStart b) \<le> unat (b_zeroAreaEnd b)"
    "unat (b_zeroAreaEnd b) \<le> unat (b_end b)"
    using assms(1) by (simp_all add: buf_fits_def)
  have s: "unat (b_end b + z) = unat (b_end b) + unat z"
    using fits_less [OF assms(1,2)] assms(4) by (subst unat32_add) auto
  have b1: "b_start b1 = b_start b" "b_zeroAreaEnd b1 = b_end b + z" "b_end b1 = b_end b + z"
    "b_zeroAreaStart b1 = (if b_zeroAreaStart b = b_zeroAreaEnd b then b_end b else b_zeroAreaStart b)"
    by (simp_all add: b1_def)
  note lens = front_len_def zero_len_def back_len_def
  show pe: "phys_end b1 = phys_end b"
    using assms(3) le b1 by (auto simp: phys_end_def back_len_def)
  show "buf_fits (d\<lparr>bd_dirtyEnd := b_end b1\<rparr>) b1"
    using assms(1,3,4) le s by (auto simp: buf_fits_def pe) (auto simp: b1)
  show "block_view d b1 = block_view d b @ replicate (unat z) 0"
  proof (cases "b_zeroAreaStart b = b_zeroAreaEnd b")
    case True
    then have l: "front_len b1 = front_len b + back_len b" "zero_len b1 = unat z" "back_len b1 = 0" "zero_len b = 0"
      "unat (b_zeroAreaStart b) = unat (b_start b) + front_len b"
      using le s b1 by (auto simp: lens)
    show ?thesis
      by (simp add: block_view_def l b1(1) take_add add.commute [of "unat (b_start b)"])
  next
    case False
    then have "b_end b = b_zeroAreaEnd b"
      using assms(3) by blast
    then have l: "front_len b1 = front_len b" "zero_len b1 = zero_len b + unat z" "back_len b1 = 0" "back_len b = 0"
      using False le s b1 by (auto simp: lens)
    show ?thesis
      by (simp add: block_view_def l b1(1) replicate_add)
  qed
qed

lemma add_end_fields:
  "buf_add_end n b w = Inr (b', w') \<Longrightarrow> b_end b' - b_zeroAreaEnd b' = b_end b - b_zeroAreaEnd b + n"
  by (auto simp: buf_add_end_def buf_note_zero_def buf_shift_def Let_def result_elims split: if_splits)

text \<open>The shortcut up to the copy of the bytes behind the zeros: the zeros are joined and there is room for these bytes.\<close>

lemma append_fast_run:
  assumes "world_ok w (add_mset b M)" and "c \<in># M" and "bw_data w (b_data b) = Some d"
    and "length (buf_view w b) + length (buf_view w c) < 2 ^ 29" and "append_fast d b c"
  shows "\<exists>b2 w2 d2 g. world_ok w2 (add_mset b2 M) \<and> keeps M w w2 \<and> zero_len b2 = zero_len b + zero_len c \<and>
    b_end b2 - b_zeroAreaEnd b2 = b_end c - b_zeroAreaEnd c \<and> (\<forall>x \<in># M. b_data x \<noteq> b_data b2) \<and>
    length g = back_len c \<and> buf_view w2 b2 = buf_view w b @ replicate (zero_len c) 0 @ g \<and>
    bw_data w2 (b_data b2) = Some d2 \<and>
    (unat (b_end b) + zero_len c + back_len c \<le> unat (bd_size d) \<longrightarrow>
      bd_size d2 = bd_size d \<and> unat (b_zeroAreaEnd b2) = unat (b_end b) + zero_len c) \<and>
    buf_append c b w = res_map (\<lambda>(_, w). (b2, w)) (it_write_range ((it_end c)\<lparr>it_current := b_zeroAreaEnd c\<rparr>) (it_end c)
      ((it_end b2)\<lparr>it_current := b_zeroAreaEnd b2\<rparr>, w2))"
proof -
  let ?z = "b_zeroAreaEnd c - b_zeroAreaStart c" and ?n = "b_end c - b_zeroAreaEnd c"
  have f: "bd_count d = 1" "b_end b = b_zeroAreaEnd b \<or> b_zeroAreaStart b = b_zeroAreaEnd b" "b_end b = bd_dirtyEnd d"
    "b_start c = b_zeroAreaStart c" "?z > 0"
    using assms(5) unfolding append_fast_def by blast+
  define b1 where "b1 = (if b_zeroAreaStart b = b_zeroAreaEnd b then b\<lparr>b_zeroAreaStart := b_end b\<rparr> else b)
    \<lparr>b_zeroAreaEnd := b_end b + ?z, b_end := b_end b + ?z\<rparr>"
  define d1 where "d1 = d\<lparr>bd_dirtyEnd := b_end b1\<rparr>"
  define w1 where "w1 = bw_put (b_data b) d1 w"
  from world_ok_block [OF assms(1), of b] assms(3) have d: "buf_fits d b" "block_ok d" "buf_view w b = block_view d b"
    by auto
  have c1: "c \<in># add_mset b M"
    using assms(2) by simp
  obtain e where e: "buf_fits e c"
    using world_ok_block [OF assms(1) c1] by blast
  note parts = view_parts [OF assms(1) c1]
  have z: "unat ?z = zero_len c" "front_len c = 0"
    using zero_len_nat [OF e] f(4) by (simp_all add: front_len_def)
  have n: "unat ?n = back_len c"
    by (rule back_len_nat [OF e])
  have len: "length (buf_view w b) + zero_len c + back_len c < 2 ^ 29"
    using assms(4) parts(4) z(2) by simp
  have lb: "length (buf_view w b) = unat (b_end b) - unat (b_start b)"
    using d by (simp add: block_view_length)
  have "unat (b_end b) - unat (b_start b) + unat ?z < 2 ^ 29"
    using lb len z(1) by simp
  note shape = append_fast_shape [OF d(1,2) f(2) this, folded b1_def d1_def]
  have data: "b_data b1 = b_data b"
    by (simp add: b1_def)
  have sole: "\<forall>x \<in># M. b_data x \<noteq> b_data b"
    using sole_owner(1) [OF assms(1,3)] f(1) by blast
  have W: "world_ok w1 (add_mset b1 M)" "keeps M w w1"
    using world_ok_in_place [OF assms(1,3), of d1 b1] data shape(1) sole by (simp_all add: d1_def w1_def)
  have v: "buf_view w1 b1 = buf_view w b @ replicate (zero_len c) 0"
    using shape(3) d(3) z(1) data by (simp add: buf_view_def w1_def d1_def block_view_def)
  obtain b2 w2 where b2: "buf_add_end ?n b1 w1 = Inr (b2, w2)" "grown_end w1 b1 M (back_len c) (b2, w2)"
    using buf_add_end_ok [OF W(1), of ?n] v len n by auto
  then obtain g where W2: "world_ok w2 (add_mset b2 M)" "keeps M w1 w2" "zero_len b2 = zero_len b1"
    "length g = back_len c" "buf_view w2 b2 = buf_view w b @ replicate (zero_len c) 0 @ g" "\<forall>x \<in># M. b_data x \<noteq> b_data b2"
    using v sole data by (auto simp: grown_end_def)
  have "b2 \<in># add_mset b2 M"
    by simp
  then obtain d2 where d2: "bw_data w2 (b_data b2) = Some d2"
    using world_ok_block [OF W2(1)] by metis
  have s: "unat (b_end b + ?z) = unat (b_end b) + zero_len c"
    using fits_less [OF d(1,2)] len z(1) by (subst unat32_add) auto
  have zl: "zero_len b1 = zero_len b + zero_len c"
    using f(2) d(1) s by (auto simp: b1_def zero_len_def buf_fits_def)
  have behind: "b_end b2 - b_zeroAreaEnd b2 = ?n"
    using add_end_fields [OF b2(1)] by (simp add: b1_def)
  have room: "bd_size d2 = bd_size d \<and> unat (b_zeroAreaEnd b2) = unat (b_end b) + zero_len c"
    if r: "unat (b_end b) + zero_len c + back_len c \<le> unat (bd_size d)"
  proof -
    have "phys_end b1 + back_len c \<le> unat (bd_size d)"
      using shape(2) d(1) r by (auto simp: phys_end_def back_len_def buf_fits_def)
    moreover have "unat (buf_internal_end b1 + ?n) = phys_end b1 + back_len c"
      using internal_end_nat [OF shape(1)] shape(1) d(2) len n by (subst unat32_add) (auto simp: buf_fits_def block_ok_def d1_def)
    ultimately have "buf_internal_end b1 + ?n \<le> bd_size d1"
      by (simp add: word_le_nat_alt d1_def)
    then have "b2 = buf_note_zero (b1\<lparr>b_end := b_end b1 + ?n\<rparr>) \<and> w2 = bw_put (b_data b) (d1\<lparr>bd_dirtyEnd := b_end b1 + ?n\<rparr>) w1"
      using b2(1) f(1) data by (auto simp: buf_add_end_def w1_def d1_def)
    then show ?thesis
      using d2 s data by (auto simp: buf_note_zero_def b1_def d1_def)
  qed
  have le: "?n \<le> b_end c" "?n \<le> b_end b2"
  proof -
    obtain d3 where d3: "buf_fits d3 b2"
      using world_ok_block [OF W2(1)] by (metis union_single_eq_member)
    show "?n \<le> b_end c"
      using n by (simp add: word_le_nat_alt back_len_def)
    show "?n \<le> b_end b2"
      using back_len_nat [OF d3] n behind by (simp add: word_le_nat_alt back_len_def)
  qed
  have run: "buf_append c b w = res_bind (buf_add_end ?n b1 w1) (\<lambda>(b, w). res_bind (it_prev ?n (it_end b)) (\<lambda>dst.
      res_bind (it_prev ?n (it_end c)) (\<lambda>src. res_map (\<lambda>(_, w). (b, w)) (it_write_range src (it_end c) (dst, w)))))"
    unfolding buf_append_def assms(3) deref_simps if_P [OF assms(5) [unfolded append_fast_def]]
    by (simp add: Let_def b1_def w1_def d1_def)
  have "b_end b2 - ?n = b_zeroAreaEnd b2"
    using behind by (metis add_diff_cancel_left' diff_add_cancel diff_diff_eq2)
  then have "buf_append c b w = res_map (\<lambda>(_, w). (b2, w)) (it_write_range ((it_end c)\<lparr>it_current := b_zeroAreaEnd c\<rparr>) (it_end c)
      ((it_end b2)\<lparr>it_current := b_zeroAreaEnd b2\<rparr>, w2))"
    unfolding run b2(1) using le by (simp add: it_prev_def it_end_def it_construct_def)
  then show ?thesis
    using W2 zl behind d2 room keeps_trans [OF W(2) W2(2)] by (intro exI [of _ b2] exI [of _ w2] exI [of _ d2] exI [of _ g]) simp
qed

lemma append_fast_ok:
  assumes "world_ok w (add_mset b M)" and "c \<in># M" and "bw_data w (b_data b) = Some d"
    and "length (buf_view w b) + length (buf_view w c) < 2 ^ 29" and "append_fast d b c" and "back_len c = 0"
  shows "\<exists>b' w'. buf_append c b w = Inr (b', w') \<and> world_ok w' (add_mset b' M) \<and> keeps M w w' \<and>
    buf_view w' b' = buf_view w b @ buf_view w c"
proof -
  obtain b2 w2 d2 where r: "world_ok w2 (add_mset b2 M)" "keeps M w w2" "b_end b2 - b_zeroAreaEnd b2 = b_end c - b_zeroAreaEnd c"
    "\<forall>x \<in># M. b_data x \<noteq> b_data b2" "buf_view w2 b2 = buf_view w b @ replicate (zero_len c) 0" "bw_data w2 (b_data b2) = Some d2"
    "buf_append c b w = res_map (\<lambda>(_, w). (b2, w)) (it_write_range ((it_end c)\<lparr>it_current := b_zeroAreaEnd c\<rparr>) (it_end c)
      ((it_end b2)\<lparr>it_current := b_zeroAreaEnd b2\<rparr>, w2))"
    using append_fast_run [OF assms(1-5)] assms(6) by auto
  have c1: "c \<in># add_mset b M" and c2: "c \<in># add_mset b2 M" and b2: "b2 \<in># add_mset b2 M"
    using assms(2) by simp_all
  obtain e where e: "buf_fits e c"
    using world_ok_block [OF assms(1) c1] by blast
  obtain e2 where e2: "bw_data w2 (b_data c) = Some e2"
    using world_ok_block [OF r(1) c2] by blast
  have fits: "buf_fits d2 b2"
    using world_ok_block [OF r(1) b2] r(6) by auto
  have f: "b_start c = b_zeroAreaStart c" "b_zeroAreaStart c < b_zeroAreaEnd c"
    using assms(5) zero_len_nat [OF e] by (auto simp: append_fast_def zero_len_def word_less_nat_alt)
  have "unat (b_end c) = unat (b_zeroAreaEnd c)"
    using e assms(6) by (auto simp: back_len_def buf_fits_def)
  then have "b_end c = b_zeroAreaEnd c"
    by (simp only: word_unat_eq_iff)
  moreover from this have "b_end b2 = b_zeroAreaEnd b2"
    using r(3) by simp
  moreover have "b_data b2 \<noteq> b_data c"
    using r(4) assms(2) by metis
  ultimately have "buf_append c b w = Inr (b2, w2)"
    using r(7) write_range_nothing [OF r(6) e2 _ fits _ f(2)] by (simp add: it_end_def it_construct_def)
  moreover have "buf_view w c = replicate (zero_len c) 0"
    using view_parts(1,3) [OF assms(1) c1] assms(6) f(1) by (simp add: front_len_def)
  ultimately show ?thesis
    using r(1,2,5) by auto
qed

text \<open>The bytes behind the zeros are written as many positions too far behind as there are zeros.\<close>

lemma take_drop_splice_front:
  "i + k \<le> q \<Longrightarrow> q \<le> length m \<Longrightarrow> take k (drop i (splice q bs m)) = take k (drop i m)"
  by (simp add: splice_def take_drop)

lemma take_drop_splice_behind:
  assumes "i + z \<le> length m" and "k \<le> length bs"
  shows "take k (drop i (splice (i + z) bs m)) = take k (take z (drop i m) @ bs)"
proof -
  have "drop i (splice (i + z) bs m) = take z (drop i m) @ bs @ drop (i + z + length bs) m"
    using assms(1) by (simp add: splice_def drop_take)
  moreover have "k - length (take z (drop i m)) \<le> length bs"
    using assms(2) by simp
  ultimately show ?thesis
    by simp
qed

lemma append_fast_misplaced:
  assumes "world_ok w (add_mset b M)" and "c \<in># M" and "bw_data w (b_data b) = Some d"
    and "length (buf_view w b) + length (buf_view w c) < 2 ^ 29" and "append_fast d b c" and "back_len c > 0"
  defines "misplaced \<equiv> (\<exists>b' w' g. buf_append c b w = Inr (b', w') \<and> keeps M w w' \<and> length g = zero_len b + zero_len c \<and>
    buf_view w' b' = buf_view w b @ replicate (zero_len c) 0 @ take (back_len c) (g @ drop (zero_len c) (buf_view w c)))"
  shows "misplaced \<or> buf_append c b w = Inl Undefined_behaviour"
    and "unat (b_end b) + zero_len c + back_len c \<le> unat (bd_size d) \<Longrightarrow> misplaced"
proof -
  obtain b2 w2 d2 g where r: "world_ok w2 (add_mset b2 M)" "keeps M w w2" "zero_len b2 = zero_len b + zero_len c"
    "b_end b2 - b_zeroAreaEnd b2 = b_end c - b_zeroAreaEnd c" "\<forall>x \<in># M. b_data x \<noteq> b_data b2" "length g = back_len c"
    "buf_view w2 b2 = buf_view w b @ replicate (zero_len c) 0 @ g" "bw_data w2 (b_data b2) = Some d2"
    "unat (b_end b) + zero_len c + back_len c \<le> unat (bd_size d) \<longrightarrow>
      bd_size d2 = bd_size d \<and> unat (b_zeroAreaEnd b2) = unat (b_end b) + zero_len c"
    "buf_append c b w = res_map (\<lambda>(_, w). (b2, w)) (it_write_range ((it_end c)\<lparr>it_current := b_zeroAreaEnd c\<rparr>) (it_end c)
      ((it_end b2)\<lparr>it_current := b_zeroAreaEnd b2\<rparr>, w2))"
    using append_fast_run [OF assms(1-5)] by (elim exE conjE) (rule that; assumption)
  have c1: "c \<in># add_mset b M" and c2: "c \<in># add_mset b2 M" and m2: "b2 \<in># add_mset b2 M"
    using assms(2) by simp_all
  have fits: "buf_fits d2 b2" "block_ok d2" "buf_view w2 b2 = block_view d2 b2"
    using world_ok_block [OF r(1) m2] r(8) by auto
  obtain e where e: "bw_data w2 (b_data c) = Some e" "buf_fits e c"
    using world_ok_block [OF r(1) c2] by blast
  have f: "b_start c = b_zeroAreaStart c" "front_len c = 0" "b_zeroAreaStart c < b_zeroAreaEnd c"
    using assms(5) zero_len_nat [OF e(2)] by (auto simp: append_fast_def zero_len_def front_len_def word_less_nat_alt)
  have vc: "buf_view w2 c = buf_view w c"
    using r(2) assms(2) by (simp add: keeps_def)
  let ?bs = "drop (zero_len c) (buf_view w c)" and ?p = "unat (b_zeroAreaEnd b2)"
  have n: "unat (b_end c - b_zeroAreaEnd c) = back_len c" "back_len b2 = back_len c" "length ?bs = back_len c"
    using back_len_nat [OF e(2)] back_len_nat [OF fits(1)] r(4) view_parts(3) [OF assms(1) c1] f(2) by simp_all
  have read: "mem_read (b_data c) (b_zeroAreaEnd c - (b_zeroAreaEnd c - b_zeroAreaStart c)) (b_end c - b_zeroAreaEnd c) w2 = Inr ?bs"
    using read_rear [OF r(1) c2, of "b_zeroAreaStart c"] vc f(2) by simp
  have prefix: "it_write_range ((it_end c)\<lparr>it_current := b_zeroAreaEnd c\<rparr>) (it_end c) ((it_end b2)\<lparr>it_current := b_zeroAreaEnd b2\<rparr>, w2) =
      res_map (Pair (it_move (b_end c - b_zeroAreaEnd c) ((it_end b2)\<lparr>it_current := b_zeroAreaEnd b2\<rparr>)))
        (mem_write (b_data b2) (b_zeroAreaEnd b2) ?bs w2)"
  proof -
    have "b_data b2 \<noteq> b_data c" "b_zeroAreaEnd c \<le> b_end c" "\<not> b_zeroAreaEnd c \<le> b_zeroAreaStart c"
      using r(5) assms(2) e(2) f(3) by (auto simp: buf_fits_def word_le_nat_alt word_less_nat_alt)
    moreover have "b_zeroAreaEnd b2 + (b_end c - b_zeroAreaEnd c) = b_end b2"
      by (simp flip: r(4))
    moreover have "b_start b2 \<le> b_zeroAreaEnd b2"
      using fits(1) by (auto simp: buf_fits_def word_le_nat_alt)
    ultimately show ?thesis
      using mem_write_nil [OF r(8)] read
      by (cases "mem_write (b_data b2) (b_zeroAreaEnd b2) ?bs w2") (simp_all add: it_write_range_def it_end_def it_construct_def
          it_check_no_zero_def it_behind_def it_move_def Let_def not_less [symmetric])
  qed
  let ?m = "bd_bytes d2"
  let ?w = "bw_put (b_data b2) (d2\<lparr>bd_bytes := splice ?p ?bs ?m\<rparr>) w2"
  have run: "buf_append c b w = (if ?p + back_len c \<le> length ?m then Inr (b2, ?w) else Inl Undefined_behaviour)"
    using assms(6) n(3) r(8) unfolding r(10) prefix by (auto simp: mem_write_def)
  have placed: misplaced if inside: "?p + back_len c \<le> length ?m"
  proof -
    let ?g = "take (zero_len b2) (drop (unat (b_zeroAreaStart b2)) ?m)"
    have p: "?p = unat (b_zeroAreaStart b2) + zero_len b2" "unat (b_start b2) + front_len b2 = unat (b_zeroAreaStart b2)"
      using fits(1) by (simp_all add: zero_len_def front_len_def buf_fits_def)
    have lg: "length ?g = zero_len b2"
      using inside p(1) by simp
    let ?f = "take (front_len b2) (drop (unat (b_start b2)) ?m) @ replicate (zero_len b2) 0"
    let ?t = "take (back_len c) (drop (unat (b_zeroAreaStart b2)) ?m)"
    have eq: "?f @ ?t = (buf_view w b @ replicate (zero_len c) 0) @ g"
      using r(7) fits(3) n(2) by (simp add: block_view_def)
    have tail: "length ?t = length g"
      using inside p(1) r(6) by simp
    have front: "?f = buf_view w b @ replicate (zero_len c) 0"
      by (rule conjunct1 [OF append_eq_append_conv [THEN iffD1, OF disjI2, OF tail eq]])
    have "take (front_len b2) (drop (unat (b_start b2)) (splice ?p ?bs ?m)) = take (front_len b2) (drop (unat (b_start b2)) ?m)"
      by (rule take_drop_splice_front) (use p inside in simp_all)
    moreover have "take (back_len c) (drop (unat (b_zeroAreaStart b2)) (splice ?p ?bs ?m)) = take (back_len c) (?g @ ?bs)"
      unfolding p(1) by (rule take_drop_splice_behind) (use p(1) inside n(3) in simp_all)
    ultimately have "buf_view ?w b2 = buf_view w b @ replicate (zero_len c) 0 @ take (back_len c) (?g @ ?bs)"
      using arg_cong [OF front, of "\<lambda>xs. xs @ take (back_len c) (?g @ ?bs)"] by (simp add: buf_view_def block_view_def n(2))
    moreover have "keeps M w ?w"
      using r(2,5) by (auto simp: keeps_def buf_view_def)
    ultimately show ?thesis
      unfolding misplaced_def using run inside lg r(3) by (intro exI [of _ b2] exI [of _ ?w] exI [of _ ?g]) simp
  qed
  then show "misplaced \<or> buf_append c b w = Inl Undefined_behaviour"
    using run by auto
  assume "unat (b_end b) + zero_len c + back_len c \<le> unat (bd_size d)"
  then have "?p + back_len c \<le> length ?m"
    using r(9) fits(2) by (simp add: block_ok_def)
  then show misplaced
    by (rule placed)
qed

end
