(* ===== verification/Shared_Store.thy ===== *)
theory Shared_Store
  imports Ns_Prelude "HOL-Library.Multiset"
begin

text \<open>
  Objects that share memory and are used as values: a list of handles into one world, and a value for each. An operation
  on one handle keeps what the others stand for. The locale has what the sessions of buffers, of packet tags, of byte tags and of
  packets do with the list.
\<close>

section \<open>A list without one element\<close>

definition drop_at :: "nat \<Rightarrow> 'a list \<Rightarrow> 'a list" where
  "drop_at i xs = take i xs @ drop (Suc i) xs"

lemma mset_drop_at: "i < length xs \<Longrightarrow> mset xs = add_mset (xs ! i) (mset (drop_at i xs))"
  by (metis drop_at_def id_take_nth_drop mset_append mset.simps(2) union_mset_add_mset_right)

lemma mset_set_at: "i < length xs \<Longrightarrow> mset (xs[i := x]) = add_mset x (mset (drop_at i xs))"
  by (simp add: drop_at_def upd_conv_take_nth_drop)

lemma nth_drop_at:
  assumes "j < length xs" and "i \<noteq> j"
  shows "xs ! j \<in> set (drop_at i xs)"
proof (cases "j < i")
  case True
  then have "take i xs ! j \<in> set (take i xs)"
    using assms(1) by (intro nth_mem) simp
  then show ?thesis
    using True by (simp add: drop_at_def)
next
  case False
  then have "drop (Suc i) xs ! (j - Suc i) \<in> set (drop (Suc i) xs)"
    using assms by (intro nth_mem) simp
  then show ?thesis
    using False assms by (simp add: drop_at_def)
qed

lemma map_set_at:
  assumes "i < length xs" and "\<And>x. x \<in> set (drop_at i xs) \<Longrightarrow> g x = f x"
  shows "map g (xs[i := y]) = (map f xs)[i := g y]"
proof -
  have "map g (take i xs) = map f (take i xs)" "map g (drop (Suc i) xs) = map f (drop (Suc i) xs)"
    using assms(2) by (auto simp: drop_at_def)
  then show ?thesis
    using assms(1) by (simp add: upd_conv_take_nth_drop take_map drop_map)
qed

lemma drop_at_length: "i < length xs \<Longrightarrow> length (drop_at i xs) = length xs - 1"
  by (simp add: drop_at_def)

lemma map_drop_at: "map f (drop_at i xs) = drop_at i (map f xs)"
  by (simp add: drop_at_def take_map drop_map)

lemma list_all2_drop_at: "list_all2 P xs ys \<Longrightarrow> list_all2 P (drop_at i xs) (drop_at i ys)"
  by (simp add: drop_at_def list_all2_appendI)

lemma sum_drop_at:
  fixes f :: "'a \<Rightarrow> nat"
  assumes "i < length xs"
  shows "sum_list (map f xs) = f (xs ! i) + sum_list (map f (drop_at i xs))"
  using arg_cong [OF id_take_nth_drop [OF assms], of "\<lambda>ys. sum_list (map f ys)"] by (simp add: drop_at_def)

section \<open>Handles and their values\<close>

definition stored :: "('w \<Rightarrow> 'h multiset \<Rightarrow> bool) \<Rightarrow> ('w \<Rightarrow> 'h \<Rightarrow> 'v \<Rightarrow> bool) \<Rightarrow> 'h list \<times> 'w \<Rightarrow> 'v list \<Rightarrow> bool" where
  "stored ok stands s vs \<longleftrightarrow> (case s of (hs, w) \<Rightarrow> ok w (mset hs) \<and> list_all2 (stands w) hs vs)"

locale shared_store =
  fixes ok :: "'w \<Rightarrow> 'h multiset \<Rightarrow> bool"
    and keep :: "'h multiset \<Rightarrow> 'w \<Rightarrow> 'w \<Rightarrow> bool"
    and stands :: "'w \<Rightarrow> 'h \<Rightarrow> 'v \<Rightarrow> bool"
  assumes keep_stands: "keep H w w' \<Longrightarrow> h \<in># H \<Longrightarrow> stands w h v \<Longrightarrow> stands w' h v"
begin

lemma all_stand:
  assumes "list_all2 (stands w) hs vs" and "keep (mset hs) w w'"
  shows "list_all2 (stands w') hs vs"
  using assms keep_stands by (auto simp: list_all2_conv_all_nth)

lemma stored_add:
  assumes "stored ok stands (hs, w) vs" and "ok w' (add_mset h (mset hs))" and "keep (mset hs) w w'" and "stands w' h v"
  shows "stored ok stands (hs @ [h], w') (vs @ [v])"
  using assms all_stand by (auto simp: stored_def list_all2_appendI)

lemma stored_set:
  assumes "stored ok stands (hs, w) vs" and "i < length hs" and "ok w' (add_mset h (mset (drop_at i hs)))"
    and "keep (mset (drop_at i hs)) w w'" and "stands w' h v"
  shows "stored ok stands (hs[i := h], w') (vs[i := v])"
proof -
  have l: "list_all2 (stands w) hs vs"
    using assms(1) by (simp add: stored_def)
  have "list_all2 (stands w') (drop_at i hs) (drop_at i vs)"
    by (rule all_stand [OF list_all2_drop_at [OF l] assms(4)])
  then have "list_all2 (stands w') (take i hs) (take i vs) \<and> list_all2 (stands w') (drop (Suc i) hs) (drop (Suc i) vs)"
    using assms(2) list_all2_lengthD [OF l] by (auto simp: drop_at_def list_all2_append)
  then have "list_all2 (stands w') (hs[i := h]) (vs[i := v])"
    using assms(2,5) list_all2_lengthD [OF l] by (simp add: upd_conv_take_nth_drop list_all2_appendI)
  then show ?thesis
    using assms(2,3) by (simp add: stored_def mset_set_at)
qed

lemma stored_drop:
  assumes "stored ok stands (hs, w) vs" and "ok w' (mset (drop_at i hs))" and "keep (mset (drop_at i hs)) w w'"
  shows "stored ok stands (drop_at i hs, w') (drop_at i vs)"
proof -
  have "list_all2 (stands w) hs vs"
    using assms(1) by (simp add: stored_def)
  from all_stand [OF list_all2_drop_at [OF this] assms(3)] show ?thesis
    using assms(2) by (simp add: stored_def)
qed

lemma stored_at:
  assumes "stored ok stands (hs, w) vs" and "i < length vs"
  shows "i < length hs" and "stands w (hs ! i) (vs ! i)" and "hs ! i \<in># mset hs" and "ok w (mset hs)"
    and "ok w (add_mset (hs ! i) (mset (drop_at i hs)))"
  using assms list_all2_lengthD by (fastforce simp: stored_def list_all2_conv_all_nth mset_drop_at [symmetric])+

end

end
