(* ===== verification/Buffer_Sessions.thy ===== *)
theory Buffer_Sessions
  imports Buffer_Writing Shared_Store
begin

text \<open>
  Any number of buffers in one world: whatever is done to them, in any order, they behave like
  independent lists of bytes, although they share blocks; no operation faults, and no block is lost.
\<close>

section \<open>Sessions\<close>

datatype buf_op =
    Buf_create "32 word"
  | Buf_copy nat
  | Buf_assign nat nat
  | Buf_destroy nat
  | Buf_prepend nat bytes
  | Buf_postpend nat bytes
  | Buf_remove_start nat "32 word"
  | Buf_remove_end nat "32 word"
  | Buf_fragment nat "32 word" "32 word"

type_synonym buf_state = "buf list \<times> buf_world"

fun buf_do :: "buf_op \<Rightarrow> buf_state \<Rightarrow> buf_state result" where
  "buf_do (Buf_create z) (bs, w) = res_map (\<lambda>(b, w). (bs @ [b], w)) (buf_initialize z w)"
| "buf_do (Buf_copy i) (bs, w) = res_map (\<lambda>(b, w). (bs @ [b], w)) (buf_copy (bs ! i) w)"
| "buf_do (Buf_assign i j) (bs, w) = res_map (\<lambda>(b, w). (bs[i := b], w)) (buf_assign (bs ! i) (bs ! j) w)"
| "buf_do (Buf_destroy i) (bs, w) = res_map (\<lambda>w. (drop_at i bs, w)) (buf_destroy (bs ! i) w)"
| "buf_do (Buf_prepend i ys) (bs, w) = res_map (\<lambda>(b, w). (bs[i := b], w)) (buf_prepend ys (bs ! i) w)"
| "buf_do (Buf_postpend i ys) (bs, w) = res_map (\<lambda>(b, w). (bs[i := b], w)) (buf_postpend ys (bs ! i) w)"
| "buf_do (Buf_remove_start i n) (bs, w) = res_map (\<lambda>b. (bs[i := b], w)) (buf_remove_start n (bs ! i))"
| "buf_do (Buf_remove_end i n) (bs, w) = Inr (bs[i := buf_remove_end n (bs ! i)], w)"
| "buf_do (Buf_fragment i s n) (bs, w) = res_map (\<lambda>(b, w). (bs @ [b], w)) (buf_fragment s n (bs ! i) w)"

text \<open>The same on lists of bytes.\<close>

fun bytes_do :: "buf_op \<Rightarrow> bytes list \<Rightarrow> bytes list" where
  "bytes_do (Buf_create z) vs = vs @ [replicate (unat z) 0]"
| "bytes_do (Buf_copy i) vs = vs @ [vs ! i]"
| "bytes_do (Buf_assign i j) vs = vs[i := vs ! j]"
| "bytes_do (Buf_destroy i) vs = drop_at i vs"
| "bytes_do (Buf_prepend i ys) vs = vs[i := ys @ vs ! i]"
| "bytes_do (Buf_postpend i ys) vs = vs[i := vs ! i @ ys]"
| "bytes_do (Buf_remove_start i n) vs = vs[i := drop (unat n) (vs ! i)]"
| "bytes_do (Buf_remove_end i n) vs = vs[i := take (length (vs ! i) - unat n) (vs ! i)]"
| "bytes_do (Buf_fragment i s n) vs = vs @ [take (unat n) (drop (unat s) (vs ! i))]"

text \<open>Operations on existing buffers, with sizes that stay below \<open>2 ^ 29\<close>.\<close>

fun op_ok :: "buf_op \<Rightarrow> bytes list \<Rightarrow> bool" where
  "op_ok (Buf_create z) vs \<longleftrightarrow> unat z < 2 ^ 29"
| "op_ok (Buf_copy i) vs \<longleftrightarrow> i < length vs"
| "op_ok (Buf_assign i j) vs \<longleftrightarrow> i < length vs \<and> j < length vs"
| "op_ok (Buf_destroy i) vs \<longleftrightarrow> i < length vs"
| "op_ok (Buf_prepend i ys) vs \<longleftrightarrow> i < length vs \<and> length ys + length (vs ! i) < 2 ^ 29"
| "op_ok (Buf_postpend i ys) vs \<longleftrightarrow> i < length vs \<and> length ys + length (vs ! i) < 2 ^ 29"
| "op_ok (Buf_remove_start i n) vs \<longleftrightarrow> i < length vs \<and> unat n < 2 ^ 31"
| "op_ok (Buf_remove_end i n) vs \<longleftrightarrow> i < length vs"
| "op_ok (Buf_fragment i s n) vs \<longleftrightarrow> i < length vs \<and> unat s + unat n \<le> length (vs ! i)"

fun buf_run :: "buf_op list \<Rightarrow> buf_state \<Rightarrow> buf_state result" where
  "buf_run [] s = Inr s"
| "buf_run (x # xs) s = res_bind (buf_do x s) (buf_run xs)"

fun ops_ok :: "buf_op list \<Rightarrow> bytes list \<Rightarrow> bool" where
  "ops_ok [] vs \<longleftrightarrow> True"
| "ops_ok (x # xs) vs \<longleftrightarrow> op_ok x vs \<and> length vs < 2 ^ 32 - 1 \<and> ops_ok xs (bytes_do x vs)"

definition store_ok :: "buf_state \<Rightarrow> bytes list \<Rightarrow> bool" where
  "store_ok s vs \<longleftrightarrow> (case s of (bs, w) \<Rightarrow> world_ok w (mset bs) \<and> map (buf_view w) bs = vs)"

text \<open>A world in which nothing was allocated yet.\<close>

definition buf_fresh :: "(nat \<Rightarrow> nat \<Rightarrow> 8 word) \<Rightarrow> buf_world" where
  "buf_fresh junk =
     \<lparr>bw_data = (\<lambda>_. None), bw_next = 0, bw_free = [], bw_maxSize = 0, bw_recommendedStart = 0, bw_junk = junk\<rparr>"

lemma store_ok_fresh: "store_ok ([], buf_fresh junk) []"
  by (simp add: store_ok_def world_ok_def heap_ok_def buf_fresh_def)

section \<open>One operation\<close>

lemma store_ok_stored: "store_ok s vs \<longleftrightarrow> stored world_ok (\<lambda>w b v. buf_view w b = v) s vs"
  by (auto simp: store_ok_def stored_def list_all2_conv_all_nth list_eq_iff_nth_eq)

interpretation buffers: shared_store world_ok keeps "\<lambda>w b v. buf_view w b = v"
  by unfold_locales (simp add: keeps_def)

lemma store_ok_replace:
  assumes "store_ok (bs, w) vs" and "i < length bs" and "world_ok w' (add_mset b (mset (drop_at i bs)))"
    and "keeps (mset (drop_at i bs)) w w'"
  shows "store_ok (bs[i := b], w') (vs[i := buf_view w' b])"
  using buffers.stored_set [OF assms(1) [unfolded store_ok_stored] assms(2-4) refl] by (simp add: store_ok_stored)

lemma store_ok_add:
  assumes "store_ok (bs, w) vs" and "world_ok w' (add_mset b (mset bs))" and "keeps (mset bs) w w'"
  shows "store_ok (bs @ [b], w') (vs @ [buf_view w' b])"
  using buffers.stored_add [OF assms(1) [unfolded store_ok_stored] assms(2,3) refl] by (simp add: store_ok_stored)

lemma store_ok_drop:
  assumes "store_ok (bs, w) vs" and "world_ok w' (mset (drop_at i bs))" and "keeps (mset (drop_at i bs)) w w'"
  shows "store_ok (drop_at i bs, w') (drop_at i vs)"
  using buffers.stored_drop [OF assms(1) [unfolded store_ok_stored] assms(2,3)] by (simp add: store_ok_stored)

lemmas store_ok_at = buffers.stored_at [folded store_ok_stored]

lemma buf_do_ok:
  assumes "store_ok s vs" and "op_ok x vs" and "length vs < 2 ^ 32 - 1"
  shows "\<exists>s'. buf_do x s = Inr s' \<and> store_ok s' (bytes_do x vs)"
proof -
  obtain bs w where s: "s = (bs, w)"
    by (cases s)
  note st = assms(1) [unfolded s]
  have W: "world_ok w (mset bs)" and len: "length vs = length bs" "size (mset bs) < 2 ^ 32 - 1"
    using st assms(3) by (auto simp: store_ok_def)
  note at = store_ok_at [OF st] and put = store_ok_replace [OF st] and add = store_ok_add [OF st]
  show ?thesis
  proof (cases x)
    case (Buf_create z)
    then show ?thesis
      using buf_initialize_ok [OF W, of z] assms(2) add s by fastforce
  next
    case (Buf_copy i)
    then have i: "i < length vs"
      using assms(2) by simp
    show ?thesis
      using Buf_copy buf_copy_ok [OF W at(3) [OF i] len(2)] at(2) [OF i] add s by fastforce
  next
    case (Buf_assign i j)
    then have i: "i < length vs" and j: "j < length vs"
      using assms(2) by simp_all
    show ?thesis
    proof (cases "i = j")
      case True
      then have "buf_assign (bs ! i) (bs ! j) w = Inr (bs ! i, buf_recommend (bs ! i) w)"
        by (simp add: buf_assign_def)
      moreover have "keeps (mset (drop_at i bs)) w (buf_recommend (bs ! i) w)"
        by (simp add: keeps_def)
      ultimately show ?thesis
        using True Buf_assign put [OF at(1) [OF i], of "buf_recommend (bs ! i) w" "bs ! i"] at(2,5) [OF i] s by simp
    next
      case False
      then have "bs ! j \<in># mset (drop_at i bs)"
        using nth_drop_at [OF at(1) [OF j]] by simp
      moreover have "size (mset (drop_at i bs)) < 2 ^ 32 - 1"
        using len i by (simp add: drop_at_length)
      ultimately obtain w' where w': "buf_assign (bs ! i) (bs ! j) w = Inr (bs ! j, w')"
        "world_ok w' (add_mset (bs ! j) (mset (drop_at i bs)))" "keeps (mset (drop_at i bs)) w w'"
        using buf_assign_ok [OF at(5) [OF i]] by blast
      have "buf_view w' (bs ! j) = vs ! j"
        using w'(3) \<open>bs ! j \<in># mset (drop_at i bs)\<close> at(2) [OF j] by (simp add: keeps_def)
      then show ?thesis
        using put [OF at(1) [OF i] w'(2,3)] w'(1) Buf_assign s by simp
    qed
  next
    case (Buf_destroy i)
    then have i: "i < length vs"
      using assms(2) by simp
    show ?thesis
      using buf_destroy_ok [OF at(5) [OF i]] Buf_destroy store_ok_drop [OF st] s by fastforce
  next
    case (Buf_prepend i ys)
    then have i: "i < length vs" and n: "length (buf_view w (bs ! i)) + length ys < 2 ^ 29"
      using assms(2) at(2) by auto
    from buf_prepend_ok [OF at(5) [OF i] n] obtain b w' where "buf_prepend ys (bs ! i) w = Inr (b, w')"
      "world_ok w' (add_mset b (mset (drop_at i bs)))" "keeps (mset (drop_at i bs)) w w'"
      "buf_view w' b = ys @ vs ! i"
      using at(2) [OF i] by auto
    then show ?thesis
      using Buf_prepend put [OF at(1) [OF i]] s by fastforce
  next
    case (Buf_postpend i ys)
    then have i: "i < length vs" and n: "length (buf_view w (bs ! i)) + length ys < 2 ^ 29"
      using assms(2) at(2) by auto
    from buf_postpend_ok [OF at(5) [OF i] n] obtain b w' where "buf_postpend ys (bs ! i) w = Inr (b, w')"
      "world_ok w' (add_mset b (mset (drop_at i bs)))" "keeps (mset (drop_at i bs)) w w'"
      "buf_view w' b = vs ! i @ ys"
      using at(2) [OF i] by auto
    then show ?thesis
      using Buf_postpend put [OF at(1) [OF i]] s by fastforce
  next
    case (Buf_remove_start i n)
    then have i: "i < length vs" and n: "unat n < 2 ^ 31"
      using assms(2) by simp_all
    from buf_remove_start_ok [OF at(5) [OF i] n] obtain b where "buf_remove_start n (bs ! i) = Inr b"
      "world_ok w (add_mset b (mset (drop_at i bs)))" "buf_view w b = drop (unat n) (vs ! i)"
      using at(2) [OF i] by auto
    then show ?thesis
      using Buf_remove_start put [OF at(1) [OF i] _ keeps_refl] s by fastforce
  next
    case (Buf_remove_end i n)
    then have i: "i < length vs"
      using assms(2) by simp
    show ?thesis
      using Buf_remove_end buf_remove_end_ok [OF at(5) [OF i], of n] put [OF at(1) [OF i] _ keeps_refl] at(2) [OF i] s
      by fastforce
  next
    case (Buf_fragment i p n)
    then have i: "i < length vs" and n: "unat p + unat n \<le> length (buf_view w (bs ! i))"
      using assms(2) at(2) by auto
    show ?thesis
      using Buf_fragment buf_fragment_ok [OF W at(3) [OF i] len(2) n] at(2) [OF i] add s by fastforce
  qed
qed

section \<open>Whole sessions\<close>

lemma buf_run_ok:
  "store_ok s vs \<Longrightarrow> ops_ok xs vs \<Longrightarrow> \<exists>s'. buf_run xs s = Inr s' \<and> store_ok s' (fold bytes_do xs vs)"
proof (induction xs arbitrary: s vs)
  case (Cons x xs)
  from Cons.prems have x: "op_ok x vs" "length vs < 2 ^ 32 - 1" "ops_ok xs (bytes_do x vs)"
    by simp_all
  from buf_do_ok [OF Cons.prems(1) x(1,2)] obtain s1 where s1: "buf_do x s = Inr s1" "store_ok s1 (bytes_do x vs)"
    by blast
  show ?case
    using Cons.IH [OF s1(2) x(3)] s1(1) by simp
qed simp

text \<open>The blocks of a consistent world: the counts are exact, and a block without an owner is in the free list.\<close>

lemma count_image_size: "count (image_mset f M) a = size (filter_mset (\<lambda>b. f b = a) M)"
  by (induction M) auto

lemma world_ok_blocks:
  assumes "world_ok w M" and "bw_data w a = Some d"
  shows "unat (bd_count d) = size (filter_mset (\<lambda>b. b_data b = a) M)"
    and "(\<exists>b \<in># M. b_data b = a) \<longleftrightarrow> a \<notin> set (bw_free w)"
proof -
  have h: "heap_ok w (image_mset b_data M)"
    using assms(1) by (simp add: world_ok_def)
  note b = heap_ok_block [OF h assms(2)]
  show "unat (bd_count d) = size (filter_mset (\<lambda>b. b_data b = a) M)"
    using b by (simp add: count_image_size)
  show "(\<exists>b \<in># M. b_data b = a) \<longleftrightarrow> a \<notin> set (bw_free w)"
    using b by auto
qed

end
