(* ===== verification/Buffer_Properties.thy ===== *)
theory Buffer_Properties
  imports Buffer_Appending Buffer_Sessions
begin

unbundle bit_operations_syntax

text \<open>
  The properties of \<open>Buffer\<close>, for the buffers of any session that starts with an empty heap: sharing cannot
  be seen and nothing is lost, whole buffers are appended, serialised and read back, the checksum closes,
  and two operations go wrong outside of these limits.
\<close>

lemma session_ok:
  assumes "ops_ok xs []" and "buf_run xs ([], buf_fresh junk) = Inr (bs, w)"
  shows "world_ok w (mset bs)" and "map (buf_view w) bs = fold bytes_do xs []"
  using buf_run_ok [OF store_ok_fresh assms(1), of junk] assms(2) by (auto simp: store_ok_def)

lemma session_split:
  assumes "world_ok w (mset bs)" and "i < length bs"
  shows "world_ok w (add_mset (bs ! i) (mset (drop_at i bs)))"
  using assms by (simp add: mset_drop_at [symmetric])

text \<open>C5: Copy-on-write sharing cannot be seen. Whatever is done to any number of buffers in any order - creation,
  copies, assignment, destruction, \<open>AddAtStart\<close> and \<open>AddAtEnd\<close> followed by writes through an iterator,
  \<open>RemoveAtStart\<close>, \<open>RemoveAtEnd\<close>, \<open>CreateFragment\<close>, with sizes below \<open>2 ^ 29\<close> - no assertion fails, no byte
  outside a block is touched, and every buffer holds the bytes that it would hold if it were a list of its own,
  whatever the fresh memory contains.\<close>

theorem buffers_are_values:
  assumes "ops_ok xs []"
  shows "\<exists>bs w. buf_run xs ([], buf_fresh junk) = Inr (bs, w) \<and> map (buf_view w) bs = fold bytes_do xs []"
  using buf_run_ok [OF store_ok_fresh assms, of junk] by (auto simp: store_ok_def)

lemma internal_state_ok:
  assumes "world_ok w M" and "b \<in># M"
  shows "\<exists>d. bw_data w (b_data b) = Some d \<and> buf_check_internal_state d b"
proof -
  from world_ok_block [OF assms] obtain d where d: "bw_data w (b_data b) = Some d" "buf_fits d b"
    "unat (bd_count d) = count (image_mset b_data M) (b_data b)"
    by blast
  have "count (image_mset b_data M) (b_data b) > 0"
    using assms(2) by (simp add: count_greater_zero_iff)
  then have "bd_count d > 0"
    using d(3) by (simp add: word_less_nat_alt)
  moreover have "b_end b - (b_zeroAreaEnd b - b_zeroAreaStart b) \<le> bd_size d"
    using internal_end_nat [OF d(2)] d(2) by (simp add: buf_internal_end_def word_le_nat_alt buf_fits_def)
  moreover have "unat (b_zeroAreaStart b) \<le> unat (bd_size d)"
    using d(2) by (simp add: buf_fits_def phys_end_def)
  ultimately show ?thesis
    using d(1,2) by (auto simp: buf_check_internal_state_def buf_fits_def word_le_nat_alt)
qed

text \<open>C11: No block is lost and none is freed too early. In every session every buffer passes the checks of
  \<open>CheckInternalState\<close> that the code has switched off, the count of a block is the number of the buffers that refer to
  it, and a block without a buffer is in the free list, once.\<close>

theorem buffer_counts_exact:
  assumes "ops_ok xs []" and "buf_run xs ([], buf_fresh junk) = Inr (bs, w)"
  shows "(\<forall>b \<in> set bs. \<exists>d. bw_data w (b_data b) = Some d \<and> buf_check_internal_state d b) \<and> distinct (bw_free w) \<and>
    (\<forall>a d. bw_data w a = Some d \<longrightarrow>
      unat (bd_count d) = length (filter (\<lambda>b. b_data b = a) bs) \<and>
      (a \<in> set (bw_free w) \<longleftrightarrow> (\<forall>b \<in> set bs. b_data b \<noteq> a)))"
proof -
  note W = session_ok(1) [OF assms]
  then have "distinct (bw_free w)"
    by (auto simp: world_ok_def heap_ok_def)
  moreover have "\<exists>d. bw_data w (b_data b) = Some d \<and> buf_check_internal_state d b" if "b \<in> set bs" for b
    using internal_state_ok [OF W] that by simp
  moreover have "unat (bd_count d) = length (filter (\<lambda>b. b_data b = a) bs)"
    and "a \<in> set (bw_free w) \<longleftrightarrow> (\<forall>b \<in> set bs. b_data b \<noteq> a)" if "bw_data w a = Some d" for a d
    using world_ok_blocks [OF W that] by (auto simp: mset_filter [symmetric] simp del: mset_filter)
  ultimately show ?thesis
    by blast
qed

text \<open>C13: \<open>AddAtEnd\<close> of a buffer appends its bytes to those of another one and leaves all the others alone. Two
  cases are left out: the shortcut for zero areas that meet when the appended buffer stores bytes behind its zeros,
  and an appended buffer in the same block as a buffer without zeros that ends where the dirty region ends.\<close>

theorem append_concatenates:
  assumes "ops_ok xs []" and "buf_run xs ([], buf_fresh junk) = Inr (bs, w)" and "i < length bs" and "j < length bs"
    and "i \<noteq> j" and "length bs < 2 ^ 32 - 3" and "bw_data w (b_data (bs ! i)) = Some d"
    and "length (buf_view w (bs ! i)) + length (buf_view w (bs ! j)) < 2 ^ 29"
    and "append_fast d (bs ! i) (bs ! j) \<Longrightarrow> back_len (bs ! j) = 0"
    and "b_data (bs ! j) = b_data (bs ! i) \<Longrightarrow> zero_len (bs ! i) > 0 \<or> b_end (bs ! i) \<noteq> bd_dirtyEnd d"
  shows "\<exists>b w'. buf_append (bs ! j) (bs ! i) w = Inr (b, w') \<and>
    map (buf_view w') (bs[i := b]) = (map (buf_view w) bs)[i := buf_view w (bs ! i) @ buf_view w (bs ! j)]"
proof -
  note W = session_split [OF session_ok(1) [OF assms(1,2)] assms(3)]
  have j: "bs ! j \<in># mset (drop_at i bs)"
    using nth_drop_at [OF assms(4,5)] by simp
  have size: "size (mset (drop_at i bs)) < 2 ^ 32 - 3"
    using assms(3,6) by (simp add: drop_at_length)
  obtain b w' where b: "buf_append (bs ! j) (bs ! i) w = Inr (b, w')" "keeps (mset (drop_at i bs)) w w'"
    "buf_view w' b = buf_view w (bs ! i) @ buf_view w (bs ! j)"
  proof (cases "append_fast d (bs ! i) (bs ! j)")
    case True
    then show thesis
      using append_fast_ok [OF W j assms(7,8) True assms(9)] that by blast
  next
    case False
    moreover have "b_data (bs ! j) \<noteq> b_data (bs ! i) \<or> zero_len (bs ! i) > 0 \<or> b_end (bs ! i) \<noteq> bd_dirtyEnd d"
      using assms(10) by blast
    ultimately show thesis
      using append_slow_ok [OF W j size assms(7,8)] that by blast
  qed
  have "\<And>x. x \<in> set (drop_at i bs) \<Longrightarrow> buf_view w' x = buf_view w x"
    using b(2) by (simp add: keeps_def)
  from map_set_at [OF assms(3) this] show ?thesis
    using b by auto
qed

text \<open>C16: The first of these cases. The shortcut for zero areas that meet writes the bytes behind the zeros of the
  appended buffer at a position that counts the zeros, which are not stored. So the new buffer has, behind the zeros,
  first as many old bytes of the block as it has zeros, and only then these bytes, as far as its length goes; or
  the write is past the end of the block, unless the block is as long as if the zeros were stored. No other buffer changes.\<close>

theorem append_loses_bytes:
  assumes "ops_ok xs []" and "buf_run xs ([], buf_fresh junk) = Inr (bs, w)" and "i < length bs" and "j < length bs"
    and "i \<noteq> j" and "bw_data w (b_data (bs ! i)) = Some d"
    and "length (buf_view w (bs ! i)) + length (buf_view w (bs ! j)) < 2 ^ 29"
    and "append_fast d (bs ! i) (bs ! j)" and "back_len (bs ! j) > 0"
    and "z = zero_len (bs ! j)" and "n = back_len (bs ! j)"
  shows "(\<exists>b w' g. buf_append (bs ! j) (bs ! i) w = Inr (b, w') \<and> length g = zero_len (bs ! i) + z \<and>
      map (buf_view w') (bs[i := b]) = (map (buf_view w) bs)[i := buf_view w (bs ! i) @ replicate z 0 @
        take n (g @ drop z (buf_view w (bs ! j)))]) \<or>
    \<not> unat (b_end (bs ! i)) + z + n \<le> unat (bd_size d) \<and> buf_append (bs ! j) (bs ! i) w = Inl Undefined_behaviour"
proof -
  note W = session_split [OF session_ok(1) [OF assms(1,2)] assms(3)]
  have j: "bs ! j \<in># mset (drop_at i bs)"
    using nth_drop_at [OF assms(4,5)] by simp
  have "map (buf_view w') (bs[i := b]) = (map (buf_view w) bs)[i := v]"
    if "keeps (mset (drop_at i bs)) w w'" "buf_view w' b = v" for b w' v
  proof -
    have "\<And>x. x \<in> set (drop_at i bs) \<Longrightarrow> buf_view w' x = buf_view w x"
      using that(1) by (simp add: keeps_def)
    from map_set_at [OF assms(3) this] show ?thesis
      using that(2) by simp
  qed
  with append_fast_misplaced [OF W j assms(6-9)] show ?thesis
    unfolding assms(10,11) by metis
qed

text \<open>Zeros and then \<open>z\<close> zeros with a byte 7, in buffers of their own.\<close>

definition demo_zeros :: "32 word \<Rightarrow> buf_op list" where
  "demo_zeros z = [Buf_create z, Buf_create z, Buf_postpend 1 [7]]"

lemma demo_zeros_ok: "ops_ok (demo_zeros 4) []"
  by (simp add: demo_zeros_def)

lemma demo_zeros_run:
  "case buf_run (demo_zeros 4) ([], buf_fresh (\<lambda>_ _. 3)) of Inl _ \<Rightarrow> False
   | Inr (bs, w) \<Rightarrow> map (buf_view w) bs = [[0, 0, 0, 0], [0, 0, 0, 0, 7]] \<and> map zero_len bs = [4, 4] \<and> map back_len bs = [0, 1] \<and>
       (case bw_data w (b_data (bs ! 0)) of None \<Rightarrow> False
        | Some d \<Rightarrow> append_fast d (bs ! 0) (bs ! 1) \<and> unat (b_end (bs ! 0)) + 4 + 1 \<le> unat (bd_size d))"
  by code_simp

text \<open>Four zeros and a 7 appended to four zeros: the new buffer has eight zeros and then a byte of the block, which was there
  before, instead of the 7.\<close>

theorem append_loses_bytes_witness:
  "\<exists>bs w b w' g. buf_run (demo_zeros 4) ([], buf_fresh (\<lambda>_ _. 3)) = Inr (bs, w) \<and> map (buf_view w) bs = [[0, 0, 0, 0], [0, 0, 0, 0, 7]] \<and>
     buf_append (bs ! 1) (bs ! 0) w = Inr (b, w') \<and> length g = 8 \<and>
     map (buf_view w') (bs[0 := b]) = [[0, 0, 0, 0, 0, 0, 0, 0, hd g], [0, 0, 0, 0, 7]]"
proof -
  obtain bs w d where r: "buf_run (demo_zeros 4) ([], buf_fresh (\<lambda>_ _. 3)) = Inr (bs, w)"
    "map (buf_view w) bs = [[0, 0, 0, 0], [0, 0, 0, 0, 7]]" "map zero_len bs = [4, 4]" "map back_len bs = [0, 1]"
    "bw_data w (b_data (bs ! 0)) = Some d" "append_fast d (bs ! 0) (bs ! 1)" "unat (b_end (bs ! 0)) + 4 + 1 \<le> unat (bd_size d)"
    using demo_zeros_run by (auto split: sum.splits option.splits)
  obtain b0 b1 where bs: "bs = [b0, b1]"
    using r(2) by (cases bs; cases "tl bs"; cases "tl (tl bs)") auto
  have h: "(0 :: nat) < length bs" "1 < length bs" "(0 :: nat) \<noteq> 1"
    "length (buf_view w (bs ! 0)) + length (buf_view w (bs ! 1)) < 2 ^ 29" "back_len (bs ! 1) > 0" "4 = zero_len (bs ! 1)" "1 = back_len (bs ! 1)"
    using r(2-4) by (simp_all add: bs)
  obtain b w' g where "buf_append (bs ! 1) (bs ! 0) w = Inr (b, w')" "length g = zero_len (bs ! 0) + 4"
    "map (buf_view w') (bs[0 := b]) = (map (buf_view w) bs)[0 := buf_view w (bs ! 0) @ replicate 4 0 @
      take 1 (g @ drop 4 (buf_view w (bs ! 1)))]"
    using append_loses_bytes [OF demo_zeros_ok r(1) h(1-3) r(5) h(4) r(6) h(5-7)] r(7) by blast
  moreover from this(2) r(3) obtain x g' where "g = x # g'"
    by (cases g) (auto simp: bs)
  ultimately show ?thesis
    using r(1-3) by (intro exI [of _ bs] exI [of _ w] exI [of _ b] exI [of _ w'] exI [of _ g]) (simp add: bs numeral_eq_Suc)
qed

text \<open>With 200 zeros each the write is past the end of the block.\<close>

lemma append_past_block:
  "res_bind (buf_run (demo_zeros 200) ([], buf_fresh (\<lambda>_ _. 3))) (\<lambda>(bs, w).
     res_map (\<lambda>(b, w). buf_view w b) (buf_append (bs ! 1) (bs ! 0) w)) = Inl Undefined_behaviour"
  by code_simp

text \<open>The second case that \<open>append_concatenates\<close> leaves out: a buffer without zeros is appended to itself, through a
  copy. \<open>CreateFullCopy\<close> keeps the block and there is room behind the bytes, so source and target are in one block.\<close>

lemma append_shared_block_fails:
  "res_bind (buf_run [Buf_create 0, Buf_postpend 0 [7], Buf_copy 0] ([], buf_fresh (\<lambda>_ _. 0)))
     (\<lambda>(bs, w). res_map (\<lambda>(b, w). buf_view w b) (buf_append (bs ! 1) (bs ! 0) w)) = Inl Assert_failed"
  by code_simp

text \<open>\<open>RemoveAtStart\<close> of more bytes than the buffer has usually leaves it empty; a huge argument wraps around and
  moves the start back instead.\<close>

lemma remove_start_wraps:
  assumes "0 < n" and "n \<le> b_start b" and "b_start b \<le> b_zeroAreaStart b"
  shows "map_sum id b_start (buf_remove_start (- n) b) = Inr (b_start b - n)"
proof -
  have "b_start b - n \<le> b_zeroAreaStart b"
    using assms by (simp add: word_le_nat_alt unat_sub)
  then show ?thesis
    by (simp add: buf_remove_start_def buf_note_zero_def Let_def)
qed

text \<open>C34: A serialised buffer is read back. \<open>Serialize\<close> succeeds when the array has room for \<open>GetSerializedSize\<close>
  bytes, whatever it held before, and \<open>Deserialize\<close>, told that size plus the four bytes of the length before it, makes
  a buffer of the same bytes without changing another one.\<close>

theorem buffer_wire_roundtrip:
  assumes "ops_ok xs []" and "buf_run xs ([], buf_fresh junk) = Inr (bs, w)" and "i < length bs"
    and "buf_serialized_size (bs ! i) \<le> maxSize" and "unat (buf_serialized_size (bs ! i)) \<le> length out"
  shows "\<exists>out' b w'. buf_serialize maxSize out (bs ! i) w = Inr (1, out') \<and> length out' = length out \<and>
    buf_deserialize out' (buf_serialized_size (bs ! i) + 4) w = Inr (1, b, w') \<and>
    map (buf_view w') (bs @ [b]) = map (buf_view w) (bs @ [bs ! i])"
proof -
  note W = session_ok(1) [OF assms(1,2)]
  have i: "bs ! i \<in># mset bs"
    using assms(3) by simp
  from world_ok_block [OF W i] obtain d where d: "bw_data w (b_data (bs ! i)) = Some d" "buf_fits d (bs ! i)" "block_ok d"
    "buf_view w (bs ! i) = block_view d (bs ! i)"
    by blast
  let ?z = "b_zeroAreaEnd (bs ! i) - b_zeroAreaStart (bs ! i)" and ?f = "front_bytes d (bs ! i)"
    and ?r = "rear_bytes d (bs ! i)"
  obtain out' where out: "buf_serialize maxSize out (bs ! i) w = Inr (1, out')" "length out' = length out"
    "wire_form out' ?z ?f ?r"
    using buf_serialize_ok [OF d(1-3) assms(4,5)] by blast
  note l = view_part_lengths [OF d(2,3), folded front_bytes_def rear_bytes_def]
  have z: "unat ?z = zero_len (bs ! i)"
    by (rule zero_len_nat [OF d(2)])
  have n: "of_nat (length ?f) = b_zeroAreaStart (bs ! i) - b_start (bs ! i)"
    "of_nat (length ?r) = b_end (bs ! i) - b_zeroAreaEnd (bs ! i)"
    by (simp_all add: l front_len_nat [OF d(2), symmetric] back_len_nat [OF d(2), symmetric])
  have "unat ?z + length ?f + length ?r < 2 ^ 29"
    using view_parts(4,5) [OF W i] z l by simp
  moreover have "buf_serialized_size (bs ! i) + 4 = 16 + round4 (of_nat (length ?f)) + round4 (of_nat (length ?r))"
    by (simp add: buf_serialized_size_def n)
  ultimately obtain b w' where b: "buf_deserialize out' (buf_serialized_size (bs ! i) + 4) w = Inr (1, b, w')"
    "keeps (mset bs) w w'" "buf_view w' b = ?f @ replicate (unat ?z) 0 @ ?r"
    using buf_deserialize_ok [OF W out(3)] by blast
  have "buf_view w' b = buf_view w (bs ! i)"
    using b(3) d(4) z by (simp add: block_view_def front_bytes_def rear_bytes_def)
  then show ?thesis
    using out(1,2) b(1,2) by (auto simp: keeps_def)
qed

lemma checksum_all:
  assumes "world_ok w M" and "b \<in># M" and "unat sz = length (buf_view w b)"
  shows "\<exists>c it. it_checksum sz (it_begin b) w = Inr (c, it) \<and> unat c = inet_checksum (sum16 (buf_view w b))"
proof -
  from world_ok_block [OF assms(1,2)] obtain d where d: "bw_data w (b_data b) = Some d" "buf_fits d b" "block_ok d"
    "buf_view w b = block_view d b"
    by blast
  have "unat (b_start b) + unat sz \<le> unat (b_end b)"
    using assms(3) d(2,4) block_view_length [OF d(2,3)] by (auto simp: buf_fits_def)
  from it_checksum_from_ok [OF d(1-3) order_refl this, of 0] show ?thesis
    using assms(3) d(4) by (simp add: it_checksum_def it_begin_def)
qed

text \<open>C37: The Internet checksum closes. \<open>CalculateIpChecksum\<close> over a whole buffer, the zero area included, gives the
  complement of the ones' complement sum of its bytes; and when the checksum stands, in the byte order of
  \<open>WriteU16\<close>, where the buffer had two zeros at an even position, the checksum of the result is 0.\<close>

theorem checksum_closes:
  assumes "ops_ok xs []" and "buf_run xs ([], buf_fresh junk) = Inr (bs, w)" and "i < length bs"
    and "buf_view w (bs ! i) = pre @ [0, 0] @ post" and "even (length pre)" and "unat sz = length (buf_view w (bs ! i))"
  shows "\<exists>c it. it_checksum sz (it_begin (bs ! i)) w = Inr (c, it) \<and>
    unat c = inet_checksum (sum16 (buf_view w (bs ! i))) \<and>
    (\<forall>b \<in> set bs. buf_view w b = pre @ le_bytes 2 c @ post \<longrightarrow> (\<exists>it'. it_checksum sz (it_begin b) w = Inr (0, it')))"
proof -
  note W = session_ok(1) [OF assms(1,2)]
  obtain c it where c: "it_checksum sz (it_begin (bs ! i)) w = Inr (c, it)"
    "unat c = inet_checksum (sum16 (buf_view w (bs ! i)))"
    using checksum_all [OF W _ assms(6)] assms(3) by auto
  have "\<exists>it'. it_checksum sz (it_begin b) w = Inr (0, it')"
    if b: "b \<in> set bs" "buf_view w b = pre @ le_bytes 2 c @ post" for b
  proof -
    have "unat sz = length (buf_view w b)"
      using b(2) assms(4,6) by simp
    then obtain c' it' where c': "it_checksum sz (it_begin b) w = Inr (c', it')" "unat c' = inet_checksum (sum16 (buf_view w b))"
      using checksum_all [OF W, of b sz] b(1) by auto
    have "sum16 (buf_view w (bs ! i)) = sum16 pre + sum16 post"
      unfolding assms(4) by (simp add: sum16_append [OF assms(5)])
    moreover have "sum16 (buf_view w b) = sum16 pre + (unat c + sum16 post)"
      unfolding b(2) by (simp add: sum16_append [OF assms(5)] sum16_append [of "le_bytes 2 c"] sum16_le_bytes)
    ultimately have "sum16 (buf_view w b) = sum16 (buf_view w (bs ! i)) + inet_checksum (sum16 (buf_view w (bs ! i)))"
      using c(2) by simp
    then have "unat c' = 0"
      using c'(2) inet_checksum_closes by simp
    then show ?thesis
      using c'(1) by (simp add: unat_eq_zero)
  qed
  then show ?thesis
    using c by blast
qed

text \<open>A read past the end of a buffer is an assertion failure for \<open>ReadU16\<close>, but not for \<open>ReadNtohU16\<close>, which
  returns what the block holds there when the block is long enough.\<close>

theorem ntoh_reads_past_end:
  assumes "ops_ok xs []" and "buf_run xs ([], buf_fresh junk) = Inr (bs, w)" and "b \<in> set bs"
    and "bw_data w (b_data b) = Some d" and "phys_end b + 2 \<le> unat (bd_size d)"
  shows "it_read_u16 (it_end b) w = Inl Assert_failed \<and>
    it_read_ntoh_u16 (it_end b) w = Inr (be_word (take 2 (drop (phys_end b) (bd_bytes d))), it_move 2 (it_end b))"
proof -
  note W = session_ok(1) [OF assms(1,2)]
  from world_ok_block [OF W, of b] assms(3,4) have d: "buf_fits d b" "block_ok d"
    by auto
  have le: "unat (b_start b) \<le> unat (b_end b)" "unat (b_zeroAreaStart b) \<le> unat (b_end b)" "b_zeroAreaEnd b \<le> b_end b"
    using d(1) by (auto simp: buf_fits_def word_le_nat_alt)
  have "it_read 2 (it_construct b (b_end b)) w = Inl Assert_failed"
    using le by (intro it_read_past [OF assms(4) d]) simp_all
  moreover have "it_read_direct 2 (it_end b) w = Inr (take 2 (drop (phys_end b) (bd_bytes d)), it_move 2 (it_end b))"
  proof -
    have "unat (b_end b + 2) = unat (b_end b) + 2"
      using fits_less [OF d] by (subst unat32_add) auto
    then have "\<not> b_end b + 2 \<le> b_zeroAreaStart b"
      using le(2) by (simp add: word_le_nat_alt)
    moreover have "unat (it_behind (it_construct b (b_end b))) = phys_end b"
      using internal_end_nat [OF d(1)] by (simp add: it_behind_def buf_internal_end_def)
    then have "mem_read (b_data b) (it_behind (it_construct b (b_end b))) 2 w = Inr (take 2 (drop (phys_end b) (bd_bytes d)))"
      using assms(4,5) d(2) by (simp add: mem_read_def block_ok_def)
    ultimately show ?thesis
      using le(3) by (simp add: it_read_direct_def it_end_def)
  qed
  ultimately show ?thesis
    by (simp add: it_read_u16_def it_read_ntoh_u16_def it_end_def)
qed

section \<open>Witnesses\<close>

text \<open>Six bytes of a header with two zeros for the checksum, the same with the checksum, a shared copy that was cut on
  both sides and extended, and zeros with a byte behind them.\<close>

definition demo_ops :: "buf_op list" where
  "demo_ops =
     [Buf_create 0, Buf_prepend 0 [69, 0, 0, 0, 1, 2], Buf_create 0, Buf_prepend 1 [69, 0, 185, 253, 1, 2], Buf_copy 0,
      Buf_remove_start 2 1, Buf_remove_end 2 2, Buf_prepend 2 [9], Buf_postpend 2 [8], Buf_create 3, Buf_postpend 3 [7],
      Buf_fragment 0 2 3, Buf_create 1, Buf_assign 5 3, Buf_copy 4, Buf_destroy 6]"

lemma demo_ops_ok: "ops_ok demo_ops []"
  by (simp add: demo_ops_def drop_at_def)

theorem buffers_are_values_witness:
  "ops_ok demo_ops [] \<and> (\<exists>bs w. buf_run demo_ops ([], buf_fresh (\<lambda>_ _. 3)) = Inr (bs, w) \<and>
     map (buf_view w) bs =
       [[69, 0, 0, 0, 1, 2], [69, 0, 185, 253, 1, 2], [9, 0, 0, 0, 8], [0, 0, 0, 7], [0, 0, 1], [0, 0, 0, 7]])"
proof -
  have "fold bytes_do demo_ops [] =
      [[69, 0, 0, 0, 1, 2], [69, 0, 185, 253, 1, 2], [9, 0, 0, 0, 8], [0, 0, 0, 7], [0, 0, 1], [0, 0, 0, 7]]"
    by code_simp
  then show ?thesis
    using buffers_are_values [OF demo_ops_ok, of "\<lambda>_ _. 3"] demo_ops_ok by simp
qed

text \<open>What the witnesses need to know of the session.\<close>

lemma demo_buffers:
  "\<exists>bs w. buf_run demo_ops ([], buf_fresh (\<lambda>_ _. 3)) = Inr (bs, w) \<and> map (buf_view w) bs = fold bytes_do demo_ops [] \<and>
     length bs = 6"
proof -
  obtain bs w where "buf_run demo_ops ([], buf_fresh (\<lambda>_ _. 3)) = Inr (bs, w)"
    "map (buf_view w) bs = fold bytes_do demo_ops []"
    using buf_run_ok [OF store_ok_fresh demo_ops_ok, of "\<lambda>_ _. 3"] by (auto simp: store_ok_def)
  moreover from this have "length bs = length (fold bytes_do demo_ops [])"
    by (metis length_map)
  moreover have "length (fold bytes_do demo_ops []) = 6"
    by code_simp
  ultimately show ?thesis
    by auto
qed

theorem buffer_counts_exact_witness:
  "\<exists>bs w. buf_run demo_ops ([], buf_fresh (\<lambda>_ _. 3)) = Inr (bs, w) \<and> length bs = 6 \<and> distinct (bw_free w) \<and>
     (\<forall>b \<in> set bs. \<exists>d. bw_data w (b_data b) = Some d \<and>
       unat (bd_count d) = length (filter (\<lambda>c. b_data c = b_data b) bs))"
proof -
  obtain bs w where s: "buf_run demo_ops ([], buf_fresh (\<lambda>_ _. 3)) = Inr (bs, w)" "length bs = 6"
    using demo_buffers by blast
  show ?thesis
    using buffer_counts_exact [OF demo_ops_ok s(1)] s by blast
qed

theorem checksum_closes_witness:
  "\<exists>bs w it it'. buf_run demo_ops ([], buf_fresh (\<lambda>_ _. 3)) = Inr (bs, w) \<and>
     it_checksum 6 (it_begin (bs ! 0)) w = Inr (64953, it) \<and> it_checksum 6 (it_begin (bs ! 1)) w = Inr (0, it')"
proof -
  obtain bs w where s: "buf_run demo_ops ([], buf_fresh (\<lambda>_ _. 3)) = Inr (bs, w)" "length bs = 6"
    "map (buf_view w) bs = fold bytes_do demo_ops []"
    using demo_buffers by blast
  have vs: "buf_view w (bs ! 0) = [69, 0] @ [0, 0] @ [1, 2]" "buf_view w (bs ! 1) = [69, 0, 185, 253, 1, 2]"
  proof -
    have "buf_view w (bs ! 0) = fold bytes_do demo_ops [] ! 0" "buf_view w (bs ! 1) = fold bytes_do demo_ops [] ! 1"
      using s(2) by (simp_all add: s(3) [symmetric])
    moreover have "fold bytes_do demo_ops [] ! 0 = [69, 0] @ [0, 0] @ [1, 2]"
      "fold bytes_do demo_ops [] ! 1 = [69, 0, 185, 253, 1, 2]"
      by code_simp+
    ultimately show "buf_view w (bs ! 0) = [69, 0] @ [0, 0] @ [1, 2]" "buf_view w (bs ! 1) = [69, 0, 185, 253, 1, 2]"
      by simp_all
  qed
  have i: "0 < length bs" "even (length [69 :: 8 word, 0])" "unat (6 :: 16 word) = length (buf_view w (bs ! 0))"
    using s(2) vs(1) by simp_all
  obtain c it where c: "it_checksum 6 (it_begin (bs ! 0)) w = Inr (c, it)"
    "unat c = inet_checksum (sum16 (buf_view w (bs ! 0)))"
    "\<forall>b \<in> set bs. buf_view w b = [69, 0] @ le_bytes 2 c @ [1, 2] \<longrightarrow> (\<exists>it'. it_checksum 6 (it_begin b) w = Inr (0, it'))"
    using checksum_closes [OF demo_ops_ok s(1) i(1) vs(1) i(2,3)] by blast
  have "inet_checksum (sum16 [69, 0, 0, 0, 1, 2]) = 64953"
    by (simp add: inet_checksum_def ones_fold_def)
  then have "c = 64953"
    using c(2) vs(1) by (simp add: word_unat_eq_iff)
  moreover have "le_bytes 2 (64953 :: 16 word) = [185, 253]"
    by code_simp
  moreover have "bs ! 1 \<in> set bs"
    using s(2) by simp
  ultimately have "\<exists>it'. it_checksum 6 (it_begin (bs ! 1)) w = Inr (0, it')"
    using c(3) vs(2) by simp
  then show ?thesis
    using s(1) c(1) \<open>c = 64953\<close> by blast
qed

definition demo_small :: "buf_op list" where
  "demo_small = [Buf_create 3, Buf_prepend 0 [5, 6], Buf_postpend 0 [7], Buf_create 2]"

lemma demo_small_ok: "ops_ok demo_small []"
  by (simp add: demo_small_def)

lemma demo_small_run:
  "case buf_run demo_small ([], buf_fresh (\<lambda>_ _. 3)) of Inl _ \<Rightarrow> False
   | Inr (bs, w) \<Rightarrow> length bs = 2 \<and> b_data (bs ! 1) \<noteq> b_data (bs ! 0) \<and> back_len (bs ! 1) = 0 \<and>
       buf_serialized_size (bs ! 0) = 20 \<and> map (buf_view w) bs = [[5, 6, 0, 0, 0, 7], [0, 0]] \<and>
       (case bw_data w (b_data (bs ! 1)) of None \<Rightarrow> False
        | Some d \<Rightarrow> phys_end (bs ! 1) + 2 \<le> unat (bd_size d) \<and> take 2 (drop (phys_end (bs ! 1)) (bd_bytes d)) = [3, 3])"
  by code_simp

lemma demo_small_session:
  obtains bs w d where "buf_run demo_small ([], buf_fresh (\<lambda>_ _. 3)) = Inr (bs, w)" and "length bs = 2"
    and "b_data (bs ! 1) \<noteq> b_data (bs ! 0)" and "back_len (bs ! 1) = 0" and "buf_serialized_size (bs ! 0) = 20"
    and "map (buf_view w) bs = [[5, 6, 0, 0, 0, 7], [0, 0]]" and "bw_data w (b_data (bs ! 1)) = Some d"
    and "phys_end (bs ! 1) + 2 \<le> unat (bd_size d)" and "take 2 (drop (phys_end (bs ! 1)) (bd_bytes d)) = [3, 3]"
  using demo_small_run that by (auto split: sum.splits option.splits)

theorem append_concatenates_witness:
  "\<exists>bs w b w'. buf_run demo_small ([], buf_fresh (\<lambda>_ _. 3)) = Inr (bs, w) \<and>
     buf_append (bs ! 1) (bs ! 0) w = Inr (b, w') \<and> map (buf_view w') (bs[0 := b]) = [[5, 6, 0, 0, 0, 7, 0, 0], [0, 0]]"
proof (rule demo_small_session)
  fix bs w
  assume s: "buf_run demo_small ([], buf_fresh (\<lambda>_ _. 3)) = Inr (bs, w)" "length bs = 2"
    "b_data (bs ! 1) \<noteq> b_data (bs ! 0)" "back_len (bs ! 1) = 0" "map (buf_view w) bs = [[5, 6, 0, 0, 0, 7], [0, 0]]"
  have i: "0 < length bs" "1 < length bs" "(0::nat) \<noteq> 1" "length bs < 2 ^ 32 - 3"
    using s(2) by simp_all
  have v: "buf_view w (bs ! 0) = [5, 6, 0, 0, 0, 7]" "buf_view w (bs ! 1) = [0, 0]"
    using s(2,5) by (metis i(1) nth_Cons_0 nth_map, metis One_nat_def i(2) nth_Cons_0 nth_Cons_Suc nth_map)
  obtain d where d: "bw_data w (b_data (bs ! 0)) = Some d"
    using world_ok_block [OF session_ok(1) [OF demo_small_ok s(1)]] i(1) by (metis nth_mem set_mset_mset)
  from append_concatenates [OF demo_small_ok s(1) i(1,2,3,4) d] s(3,4,5) v show ?thesis
    using s(1) by auto
qed

theorem buffer_wire_roundtrip_witness:
  "\<exists>bs w out b w'. buf_run demo_small ([], buf_fresh (\<lambda>_ _. 3)) = Inr (bs, w) \<and>
     buf_serialize 20 (replicate 20 9) (bs ! 0) w = Inr (1, out) \<and> buf_deserialize out 24 w = Inr (1, b, w') \<and>
     map (buf_view w') (bs @ [b]) = [[5, 6, 0, 0, 0, 7], [0, 0], [5, 6, 0, 0, 0, 7]]"
proof (rule demo_small_session)
  fix bs w
  assume s: "buf_run demo_small ([], buf_fresh (\<lambda>_ _. 3)) = Inr (bs, w)" "length bs = 2"
    "buf_serialized_size (bs ! 0) = 20" "map (buf_view w) bs = [[5, 6, 0, 0, 0, 7], [0, 0]]"
  have i: "0 < length bs"
    using s(2) by simp
  have "buf_view w (bs ! 0) = [5, 6, 0, 0, 0, 7]"
    using s(4) i by (metis nth_Cons_0 nth_map)
  then show ?thesis
    using buffer_wire_roundtrip [OF demo_small_ok s(1) i, of 20 "replicate 20 9"] s by auto
qed

theorem ntoh_reads_past_end_witness:
  "\<exists>bs w it. buf_run demo_small ([], buf_fresh (\<lambda>_ _. 3)) = Inr (bs, w) \<and>
     it_read_u16 (it_end (bs ! 1)) w = Inl Assert_failed \<and> it_read_ntoh_u16 (it_end (bs ! 1)) w = Inr (771, it)"
proof (rule demo_small_session)
  fix bs w d
  assume s: "buf_run demo_small ([], buf_fresh (\<lambda>_ _. 3)) = Inr (bs, w)" "length bs = 2"
    "bw_data w (b_data (bs ! 1)) = Some d" "phys_end (bs ! 1) + 2 \<le> unat (bd_size d)"
    "take 2 (drop (phys_end (bs ! 1)) (bd_bytes d)) = [3, 3]"
  have "be_word [3, 3] = (771 :: 16 word)"
    by code_simp
  then show ?thesis
    using ntoh_reads_past_end [OF demo_small_ok s(1) _ s(3,4)] s by auto
qed

end
