(* ===== verification/Tag_Buffer.thy ===== *)
theory Tag_Buffer
  imports Buffer_Wire
begin

unbundle bit_operations_syntax

text \<open>
  \<open>TagBuffer\<close> (\<open>src/network/model/tag-buffer.cc\<close>, \<open>tag-buffer.h\<close>): the window of memory through which a tag
  writes and reads itself. The two pointers are positions in a memory, which is passed along. Doubles are left out.
  A tag is its type, the size it announces and the bytes that its \<open>Serialize\<close> writes one after the other; what
  \<open>Deserialize\<close> makes of the bytes it is given is up to the tag, so that the models return those bytes.
\<close>

record tag_buffer =
  tb_current :: nat
  tb_end :: nat

type_synonym tag_window = "tag_buffer \<times> bytes"

definition tb_write_u8 :: "8 word \<Rightarrow> tag_window \<Rightarrow> tag_window result" where
  "tb_write_u8 v = (\<lambda>(b, m).
     ns_assert (tb_current b + 1 \<le> tb_end b)
       (if tb_current b < length m then Inr (b\<lparr>tb_current := tb_current b + 1\<rparr>, m[tb_current b := v])
        else Inl Undefined_behaviour))"

fun tb_write :: "bytes \<Rightarrow> tag_window \<Rightarrow> tag_window result" where
  "tb_write [] s = Inr s"
| "tb_write (v # vs) s = res_bind (tb_write_u8 v s) (tb_write vs)"

definition tb_write_u16 :: "16 word \<Rightarrow> tag_window \<Rightarrow> tag_window result" where
  "tb_write_u16 x = tb_write (le_bytes 2 x)"

definition tb_write_u32 :: "32 word \<Rightarrow> tag_window \<Rightarrow> tag_window result" where
  "tb_write_u32 x = tb_write (le_bytes 4 x)"

definition tb_write_u64 :: "64 word \<Rightarrow> tag_window \<Rightarrow> tag_window result" where
  "tb_write_u64 x = tb_write (le_bytes 8 x)"

definition tb_read_u8 :: "tag_window \<Rightarrow> (8 word \<times> tag_window) result" where
  "tb_read_u8 = (\<lambda>(b, m).
     ns_assert (tb_current b + 1 \<le> tb_end b)
       (if tb_current b < length m then Inr (m ! tb_current b, b\<lparr>tb_current := tb_current b + 1\<rparr>, m)
        else Inl Undefined_behaviour))"

fun tb_read_u8s :: "nat \<Rightarrow> tag_window \<Rightarrow> (bytes \<times> tag_window) result" where
  "tb_read_u8s 0 s = Inr ([], s)"
| "tb_read_u8s (Suc n) s =
     res_bind (tb_read_u8 s) (\<lambda>(v, s). res_bind (tb_read_u8s n s) (\<lambda>(vs, s). Inr (v # vs, s)))"

definition tb_read_u16 :: "tag_window \<Rightarrow> (16 word \<times> tag_window) result" where
  "tb_read_u16 s = res_map (\<lambda>(bs, s). (le_word bs, s)) (tb_read_u8s 2 s)"

definition tb_read_u32 :: "tag_window \<Rightarrow> (32 word \<times> tag_window) result" where
  "tb_read_u32 s = res_map (\<lambda>(bs, s). (le_word bs, s)) (tb_read_u8s 4 s)"

definition tb_read_u64 :: "tag_window \<Rightarrow> (64 word \<times> tag_window) result" where
  "tb_read_u64 s = res_map (\<lambda>(bs, s). (le_word bs, s)) (tb_read_u8s 8 s)"

text \<open>The copy comes before the assertion.\<close>

definition tb_read :: "32 word \<Rightarrow> tag_window \<Rightarrow> (bytes \<times> tag_window) result" where
  "tb_read sz = (\<lambda>(b, m).
     if tb_current b + unat sz \<le> length m then
       ns_assert (tb_current b + unat sz \<le> tb_end b)
         (Inr (take (unat sz) (drop (tb_current b) m), b\<lparr>tb_current := tb_current b + unat sz\<rparr>, m))
     else Inl Undefined_behaviour)"

definition tb_trim_at_end :: "32 word \<Rightarrow> tag_buffer \<Rightarrow> tag_buffer result" where
  "tb_trim_at_end trim b =
     ns_assert (tb_current b + unat trim \<le> tb_end b) (Inr (b\<lparr>tb_end := tb_end b - unat trim\<rparr>))"

definition tb_copy_from :: "tag_window \<Rightarrow> tag_window \<Rightarrow> tag_window result" where
  "tb_copy_from = (\<lambda>(src, ms) (b, m).
     ns_assert (tb_end src \<ge> tb_current src) (ns_assert (tb_end b \<ge> tb_current b)
       (let n = tb_end src - tb_current src
        in ns_assert (n \<le> tb_end b - tb_current b)
          (if tb_current src + n \<le> length ms \<and> tb_current b + n \<le> length m then
             Inr (b\<lparr>tb_current := tb_current b + n\<rparr>, splice (tb_current b) (take n (drop (tb_current src) ms)) m)
           else Inl Undefined_behaviour))))"

record tag =
  tag_tid :: "16 word"
  tag_size :: "32 word"
  tag_bytes :: bytes

definition tag_serialize :: "tag \<Rightarrow> tag_window \<Rightarrow> tag_window result" where
  "tag_serialize t = tb_write (tag_bytes t)"

definition tag_ok :: "tag \<Rightarrow> bool" where
  "tag_ok t \<longleftrightarrow> unat (tag_size t) = length (tag_bytes t)"

section \<open>What is written is read\<close>

lemma splice_Cons_update:
  "i + length (y # ys) \<le> length m \<Longrightarrow> splice (Suc i) ys (m[i := y]) = splice i (y # ys) m"
  by (rule nth_equalityI) (auto simp: splice_def nth_append nth_Cons' min_def)

lemma tb_write_ok:
  "tb_current b + length vs \<le> tb_end b \<Longrightarrow> tb_end b \<le> length m \<Longrightarrow>
   tb_write vs (b, m) = Inr (b\<lparr>tb_current := tb_current b + length vs\<rparr>, splice (tb_current b) vs m)"
proof (induction vs arbitrary: b m)
  case Nil
  then show ?case
    by (simp add: splice_def)
next
  case (Cons v vs)
  let ?b = "b\<lparr>tb_current := tb_current b + 1\<rparr>"
  have "tb_write vs (?b, m[tb_current b := v]) =
      Inr (?b\<lparr>tb_current := tb_current ?b + length vs\<rparr>, splice (tb_current ?b) vs (m[tb_current b := v]))"
    using Cons.prems by (intro Cons.IH) simp_all
  then show ?case
    using Cons.prems splice_Cons_update [of "tb_current b" v vs m] by (simp add: tb_write_u8_def)
qed

lemma tb_write_past:
  "tb_end b < tb_current b + length vs \<Longrightarrow> tb_current b \<le> tb_end b \<Longrightarrow> tb_end b \<le> length m \<Longrightarrow>
   tb_write vs (b, m) = Inl Assert_failed"
proof (induction vs arbitrary: b m)
  case (Cons v vs)
  show ?case
  proof (cases "tb_current b < tb_end b")
    case True
    have "tb_write vs (b\<lparr>tb_current := tb_current b + 1\<rparr>, m[tb_current b := v]) = Inl Assert_failed"
      using Cons.prems True by (intro Cons.IH) simp_all
    then show ?thesis
      using Cons.prems True by (simp add: tb_write_u8_def)
  qed (simp add: tb_write_u8_def)
qed simp

lemma tb_read_u8s_ok:
  "tb_current b + n \<le> tb_end b \<Longrightarrow> tb_end b \<le> length m \<Longrightarrow>
   tb_read_u8s n (b, m) = Inr (take n (drop (tb_current b) m), b\<lparr>tb_current := tb_current b + n\<rparr>, m)"
proof (induction n arbitrary: b)
  case (Suc n)
  have "tb_read_u8s n (b\<lparr>tb_current := tb_current b + 1\<rparr>, m) =
      Inr (take n (drop (tb_current b + 1) m), b\<lparr>tb_current := tb_current b + 1 + n\<rparr>, m)"
    using Suc.prems Suc.IH [of "b\<lparr>tb_current := tb_current b + 1\<rparr>"] by simp
  moreover have "take (Suc n) (drop (tb_current b) m) = m ! tb_current b # take n (drop (tb_current b + 1) m)"
    using Suc.prems by (simp add: Cons_nth_drop_Suc [symmetric])
  ultimately show ?case
    using Suc.prems by (simp add: tb_read_u8_def)
qed simp

lemma tb_read_u32_le:
  assumes "take 4 (drop (tb_current b) m) = le_bytes 4 x" and "tb_current b + 4 \<le> tb_end b" and "tb_end b \<le> length m"
  shows "tb_read_u32 (b, m) = Inr (x, b\<lparr>tb_current := tb_current b + 4\<rparr>, m)"
  using tb_read_u8s_ok [OF assms(2,3)] assms(1) by (simp add: tb_read_u32_def le_word_le_bytes)

text \<open>A tag of the announced size fills its data exactly.\<close>

lemma tag_serialize_fills:
  assumes "length m = length (tag_bytes t)"
  shows "tag_serialize t (\<lparr>tb_current = 0, tb_end = length m\<rparr>, m) =
    Inr (\<lparr>tb_current = length m, tb_end = length m\<rparr>, tag_bytes t)"
  using tb_write_ok [of "\<lparr>tb_current = 0, tb_end = length m\<rparr>" "tag_bytes t" m] assms
  by (simp add: tag_serialize_def splice_def)

end
