(* ===== verification/Type_Registry.thy ===== *)
theory Type_Registry
  imports Ns_Prelude "HOL-Library.Char_ord" "HOL-Library.List_Lexorder"
begin

unbundle bit_operations_syntax

text \<open>
  The names, numbers and hashes of the run-time types (\<open>IidManager\<close> in \<open>src/core/model/type-id.cc\<close>): the
  allocation of a number with the chaining of hashes that collide, and the searches. A serialised tag has the
  hash of its type. The hash function of the names is a parameter; of the information on a type the
  name and the hash are modelled.
\<close>

section \<open>The manager\<close>

record iid_info =
  iid_name :: string
  iid_hash :: "32 word"

record iid_manager =
  iid_information :: "iid_info list"
  iid_namemap :: "string \<Rightarrow> 16 word option"
  iid_hashmap :: "32 word \<Rightarrow> 16 word option"

definition iid_empty :: iid_manager where
  "iid_empty = \<lparr>iid_information = [], iid_namemap = (\<lambda>_. None), iid_hashmap = (\<lambda>_. None)\<rparr>"

definition HashChainFlag :: "32 word" where
  "HashChainFlag = 0x80000000"

text \<open>\<open>std::map::insert\<close> leaves a stored value as it is.\<close>

definition map_put_new :: "'k \<Rightarrow> 'v \<Rightarrow> ('k \<Rightarrow> 'v option) \<Rightarrow> ('k \<Rightarrow> 'v option)" where
  "map_put_new k v m = (if m k = None then m(k \<mapsto> v) else m)"

definition iid_lookup_information :: "16 word \<Rightarrow> iid_manager \<Rightarrow> iid_info result" where
  "iid_lookup_information uid r =
     ns_assert (unat uid \<le> length (iid_information r) \<and> uid \<noteq> 0) (Inr (iid_information r ! (unat uid - 1)))"

definition iid_uid_of_name :: "string \<Rightarrow> iid_manager \<Rightarrow> 16 word" where
  "iid_uid_of_name name r = (case iid_namemap r name of None \<Rightarrow> 0 | Some uid \<Rightarrow> uid)"

definition iid_uid_of_hash :: "32 word \<Rightarrow> iid_manager \<Rightarrow> 16 word" where
  "iid_uid_of_hash hash r = (case iid_hashmap r hash of None \<Rightarrow> 0 | Some uid \<Rightarrow> uid)"

definition iid_get_hash :: "16 word \<Rightarrow> iid_manager \<Rightarrow> 32 word result" where
  "iid_get_hash uid r = res_map iid_hash (iid_lookup_information uid r)"

definition iid_get_name :: "16 word \<Rightarrow> iid_manager \<Rightarrow> string result" where
  "iid_get_name uid r = res_map iid_name (iid_lookup_information uid r)"

text \<open>The older of two types with the same hash gets the flag; the new entry of the map comes after the old one is gone.\<close>

definition iid_chain_old :: "16 word \<Rightarrow> 32 word \<Rightarrow> iid_manager \<Rightarrow> iid_manager result" where
  "iid_chain_old uid hash r =
     res_bind (iid_lookup_information uid r) (\<lambda>hinfo.
       let oldUid = iid_uid_of_hash (iid_hash hinfo) r
       in deref (iid_hashmap r (iid_hash hinfo)) (\<lambda>_.
         let hmap = (iid_hashmap r)(iid_hash hinfo := None);
             hinfo = hinfo\<lparr>iid_hash := hash OR HashChainFlag\<rparr>
         in Inr (r\<lparr>iid_information := (iid_information r)[unat uid - 1 := hinfo],
                   iid_hashmap := map_put_new (iid_hash hinfo) oldUid hmap\<rparr>)))"

definition iid_append :: "string \<Rightarrow> 32 word \<Rightarrow> iid_manager \<Rightarrow> (16 word \<times> iid_manager) result" where
  "iid_append name hash r =
     (let info = iid_information r @ [\<lparr>iid_name = name, iid_hash = hash\<rparr>]
      in ns_assert (length info \<le> 0xffff)
        (let uid = of_nat (length info)
         in Inr (uid, r\<lparr>iid_information := info, iid_namemap := map_put_new name uid (iid_namemap r),
                        iid_hashmap := map_put_new hash uid (iid_hashmap r)\<rparr>)))"

definition iid_allocate_uid :: "(string \<Rightarrow> 32 word) \<Rightarrow> string \<Rightarrow> iid_manager \<Rightarrow> (16 word \<times> iid_manager) result" where
  "iid_allocate_uid hasher name r =
     ns_assert (iid_namemap r name = None)
       (let hash = hasher name AND NOT HashChainFlag
        in if iid_hashmap r hash \<noteq> None then
             ns_assert (iid_hashmap r (hash OR HashChainFlag) = None)
               (let old = iid_uid_of_hash hash r
                in res_bind (iid_lookup_information old r) (\<lambda>hinfo.
                  if name > iid_name hinfo then iid_append name (hash OR HashChainFlag) r
                  else res_bind (iid_chain_old old hash r) (iid_append name hash)))
           else iid_append name hash r)"

text \<open>The constructor of \<open>TypeId\<close> with a name.\<close>

definition tid_create :: "(string \<Rightarrow> 32 word) \<Rightarrow> string \<Rightarrow> iid_manager \<Rightarrow> (16 word \<times> iid_manager) result" where
  "tid_create hasher name r =
     res_bind (iid_allocate_uid hasher name r) (\<lambda>(uid, r). ns_assert (uid \<noteq> 0) (Inr (uid, r)))"

text \<open>\<open>TypeId::LookupByName\<close> and \<open>LookupByHash\<close> assert that there is such a type.\<close>

definition tid_lookup_by_name :: "string \<Rightarrow> iid_manager \<Rightarrow> 16 word result" where
  "tid_lookup_by_name name r = (let uid = iid_uid_of_name name r in ns_assert (uid \<noteq> 0) (Inr uid))"

definition tid_lookup_by_hash :: "32 word \<Rightarrow> iid_manager \<Rightarrow> 16 word result" where
  "tid_lookup_by_hash hash r = (let uid = iid_uid_of_hash hash r in ns_assert (uid \<noteq> 0) (Inr uid))"

fun iid_register :: "(string \<Rightarrow> 32 word) \<Rightarrow> string list \<Rightarrow> iid_manager \<Rightarrow> iid_manager result" where
  "iid_register hasher [] r = Inr r"
| "iid_register hasher (name # names) r =
     res_bind (tid_create hasher name r) (\<lambda>(_, r). iid_register hasher names r)"

section \<open>The invariant\<close>

text \<open>Both maps are the inverse of the information.\<close>

definition iid_ok :: "iid_manager \<Rightarrow> bool" where
  "iid_ok r \<longleftrightarrow> length (iid_information r) \<le> 0xffff \<and>
     (\<forall>h u. iid_hashmap r h = Some u \<longleftrightarrow>
        (\<exists>i < length (iid_information r). u = of_nat (i + 1) \<and> iid_hash (iid_information r ! i) = h)) \<and>
     (\<forall>n u. iid_namemap r n = Some u \<longleftrightarrow>
        (\<exists>i < length (iid_information r). u = of_nat (i + 1) \<and> iid_name (iid_information r ! i) = n))"

lemma iid_ok_empty: "iid_ok iid_empty"
  by (simp add: iid_ok_def iid_empty_def)

lemma unat16_Suc: "i < 0xffff \<Longrightarrow> unat (of_nat (Suc i) :: 16 word) = Suc i"
  by (simp add: unsigned_of_nat take_bit_nat_eq_self del: of_nat_Suc)

lemma iid_ok_append:
  assumes "iid_ok r" and "iid_namemap r name = None" and "iid_hashmap r hash = None"
    and "iid_append name hash r = Inr (uid, r')"
  shows "iid_ok r'"
proof -
  let ?n = "length (iid_information r)"
  from assms(4) have n: "?n < 0xffff" and r': "r' = r\<lparr>iid_information := iid_information r @ [\<lparr>iid_name = name, iid_hash = hash\<rparr>],
      iid_namemap := (iid_namemap r)(name \<mapsto> of_nat (?n + 1)), iid_hashmap := (iid_hashmap r)(hash \<mapsto> of_nat (?n + 1))\<rparr>"
    using assms(2,3) by (auto simp: iid_append_def Let_def ns_assert_eq_Inr map_put_new_def)
  have keys: "\<forall>i < ?n. iid_hash (iid_information r ! i) \<noteq> hash \<and> iid_name (iid_information r ! i) \<noteq> name"
    using assms(1-3) unfolding iid_ok_def by (metis option.distinct(1))
  show ?thesis
    using assms(1) n keys unfolding iid_ok_def r' by (auto simp: nth_append less_Suc_eq)
qed

lemma iid_find:
  assumes "iid_ok r" and "iid_hashmap r h = Some u"
  obtains i where "i < length (iid_information r)" and "u = of_nat (i + 1)" and "iid_hash (iid_information r ! i) = h"
    and "unat u = Suc i" and "iid_lookup_information u r = Inr (iid_information r ! i)"
proof -
  from assms obtain i where i: "i < length (iid_information r)" "u = of_nat (i + 1)" "iid_hash (iid_information r ! i) = h"
    unfolding iid_ok_def by blast
  moreover have "unat u = Suc i"
    using i(1,2) assms(1) unat16_Suc [of i] by (simp add: iid_ok_def)
  moreover from this have "u \<noteq> 0"
    by auto
  ultimately show thesis
    using that [OF i] by (simp add: iid_lookup_information_def)
qed

lemma of_nat16_inj: "i < 0xffff \<Longrightarrow> j < 0xffff \<Longrightarrow> (of_nat (Suc i) :: 16 word) = of_nat (Suc j) \<longleftrightarrow> i = j"
  using unat16_Suc by (metis nat.inject)

lemma iid_ok_chain:
  assumes "iid_ok r" and "iid_hashmap r h = Some u" and "iid_hashmap r (h OR HashChainFlag) = None"
    and "iid_chain_old u h r = Inr r'"
  shows "iid_ok r'" and "iid_namemap r' = iid_namemap r" and "iid_hashmap r' h = None"
    and "map iid_name (iid_information r') = map iid_name (iid_information r)"
proof -
  obtain i where i: "i < length (iid_information r)" "u = of_nat (i + 1)" "iid_hash (iid_information r ! i) = h"
    "unat u = Suc i" "iid_lookup_information u r = Inr (iid_information r ! i)"
    using iid_find [OF assms(1,2)] by blast
  have ne: "h OR HashChainFlag \<noteq> h"
    using assms(2,3) by auto
  have len: "length (iid_information r) \<le> 0xffff"
    using assms(1) by (simp add: iid_ok_def)
  let ?info = "(iid_information r)[i := (iid_information r ! i)\<lparr>iid_hash := h OR HashChainFlag\<rparr>]"
  have r': "r' = r\<lparr>iid_information := ?info, iid_hashmap := (iid_hashmap r)(h := None, h OR HashChainFlag \<mapsto> u)\<rparr>"
    using assms(2-4) i ne
    by (auto simp: iid_chain_old_def Let_def iid_uid_of_hash_def map_put_new_def)
  show "iid_namemap r' = iid_namemap r" and "iid_hashmap r' h = None"
    using ne by (simp_all add: r')
  have names: "iid_name (?info ! j) = iid_name (iid_information r ! j)" for j
    using i(1) by (cases "j = i") simp_all
  show "map iid_name (iid_information r') = map iid_name (iid_information r)"
    by (rule nth_equalityI) (simp_all add: r' names)
  have hashes: "iid_hash (?info ! j) = (if j = i then h OR HashChainFlag else iid_hash (iid_information r ! j))" for j
    using i(1) by simp
  have hm: "(\<exists>j < length (iid_information r). v = of_nat (j + 1) \<and> iid_hash (iid_information r ! j) = k) \<longleftrightarrow> iid_hashmap r k = Some v" for k v
    using assms(1) unfolding iid_ok_def by blast
  have only: "j = i" if "j < length (iid_information r)" "iid_hash (iid_information r ! j) = h" for j
  proof -
    have "iid_hashmap r h = Some (of_nat (j + 1))"
      using hm that by blast
    then show ?thesis
      using assms(2) i(1,2) that(1) len of_nat16_inj [of i j] by simp
  qed
  have none: "iid_hash (iid_information r ! j) \<noteq> h OR HashChainFlag" if "j < length (iid_information r)" for j
    using hm assms(3) that by (metis option.distinct(1))
  have "((iid_hashmap r)(h := None, h OR HashChainFlag \<mapsto> u)) k = Some v \<longleftrightarrow>
      (\<exists>j < length (iid_information r). v = of_nat (j + 1) \<and> iid_hash (?info ! j) = k)" for k v
  proof -
    consider "k = h OR HashChainFlag" | "k = h" | "k \<noteq> h" "k \<noteq> h OR HashChainFlag"
      by blast
    then show ?thesis
    proof cases
      case 1
      then show ?thesis
        using i(1,2) none hashes by auto
    next
      case 2
      then show ?thesis
        using only ne hashes by auto
    next
      case 3
      then have "iid_hash (?info ! j) = k \<longleftrightarrow> iid_hash (iid_information r ! j) = k" for j
        using hashes i(3) by auto
      then show ?thesis
        using hm [of v k] 3 by auto
    qed
  qed
  then show "iid_ok r'"
    using assms(1) unfolding iid_ok_def by (simp add: r' names)
qed

lemma iid_ok_allocate:
  assumes "iid_ok r" and "iid_allocate_uid hasher name r = Inr (uid, r')"
  shows "iid_ok r' \<and> map iid_name (iid_information r') = map iid_name (iid_information r) @ [name]"
proof -
  let ?h = "hasher name AND NOT HashChainFlag"
  have info: "map iid_name (iid_information q') = map iid_name (iid_information q) @ [name]"
    if "iid_append name k q = Inr (u, q')" for k u q q'
    using that by (auto simp: iid_append_def Let_def ns_assert_eq_Inr)
  from assms(2) have new: "iid_namemap r name = None"
    by (simp add: iid_allocate_uid_def ns_assert_eq_Inr)
  show ?thesis
  proof (cases "iid_hashmap r ?h")
    case None
    then have "iid_append name ?h r = Inr (uid, r')"
      using assms(2) new by (simp add: iid_allocate_uid_def Let_def)
    then show ?thesis
      using iid_ok_append [OF assms(1) new None] info by blast
  next
    case (Some u)
    then obtain hinfo where a: "iid_hashmap r (?h OR HashChainFlag) = None" "iid_lookup_information u r = Inr hinfo"
      "(if name > iid_name hinfo then iid_append name (?h OR HashChainFlag) r
        else res_bind (iid_chain_old u ?h r) (iid_append name ?h)) = Inr (uid, r')"
      using assms(2) new
      by (auto simp: iid_allocate_uid_def Let_def iid_uid_of_hash_def ns_assert_eq_Inr res_bind_eq_Inr)
    show ?thesis
    proof (cases "name > iid_name hinfo")
      case True
      then show ?thesis
        using a iid_ok_append [OF assms(1) new a(1)] info by auto
    next
      case False
      then obtain q where q: "iid_chain_old u ?h r = Inr q" "iid_append name ?h q = Inr (uid, r')"
        using a(3) by (auto simp: res_bind_eq_Inr)
      note c = iid_ok_chain [OF assms(1) Some a(1) q(1)]
      show ?thesis
        using iid_ok_append [OF c(1) _ c(3) q(2)] c(2,4) new info [OF q(2)] by simp
    qed
  qed
qed

lemma iid_ok_register:
  "iid_ok r \<Longrightarrow> iid_register hasher names r = Inr r' \<Longrightarrow>
   iid_ok r' \<and> map iid_name (iid_information r') = map iid_name (iid_information r) @ names"
proof (induction names arbitrary: r)
  case (Cons name names)
  then obtain uid q where q: "iid_allocate_uid hasher name r = Inr (uid, q)" "iid_register hasher names q = Inr r'"
    by (auto simp: res_bind_eq_Inr tid_create_def ns_assert_eq_Inr)
  show ?case
    using Cons.IH [OF _ q(2)] iid_ok_allocate [OF Cons.prems(1) q(1)] by simp
qed simp

section \<open>When a registration succeeds\<close>

abbreviation base_hash :: "(string \<Rightarrow> 32 word) \<Rightarrow> string \<Rightarrow> 32 word" where
  "base_hash hasher name \<equiv> hasher name AND NOT HashChainFlag"

lemma chained_hash:
  "(x AND NOT HashChainFlag) OR HashChainFlag = (y AND NOT HashChainFlag) OR HashChainFlag \<longleftrightarrow>
   x AND NOT HashChainFlag = y AND NOT HashChainFlag"
  "(x AND NOT HashChainFlag) OR HashChainFlag \<noteq> y AND NOT HashChainFlag"
proof -
  have split: "((z AND NOT HashChainFlag) OR HashChainFlag) AND NOT HashChainFlag = z AND NOT HashChainFlag"
    "((z AND NOT HashChainFlag) OR HashChainFlag) AND HashChainFlag = HashChainFlag" "(z AND NOT HashChainFlag) AND HashChainFlag = 0" for z
    by (rule bit_word_eqI; auto simp: bit_simps)+
  show "(x AND NOT HashChainFlag) OR HashChainFlag = (y AND NOT HashChainFlag) OR HashChainFlag \<longleftrightarrow>
      x AND NOT HashChainFlag = y AND NOT HashChainFlag"
    using split(1) [of x] split(1) [of y] by metis
  show "(x AND NOT HashChainFlag) OR HashChainFlag \<noteq> y AND NOT HashChainFlag"
  proof
    assume "(x AND NOT HashChainFlag) OR HashChainFlag = y AND NOT HashChainFlag"
    then have "HashChainFlag = 0"
      using split(2) [of x] split(3) [of y] by metis
    then show False
      by (simp add: HashChainFlag_def)
  qed
qed

text \<open>A hash with its flag is in use when two types have the hash.\<close>

definition hash_uses :: "(string \<Rightarrow> 32 word) \<Rightarrow> string list \<Rightarrow> 32 word \<Rightarrow> nat" where
  "hash_uses hasher names h = length (filter (\<lambda>n. base_hash hasher n = h) names)"

definition iid_hashed :: "(string \<Rightarrow> 32 word) \<Rightarrow> iid_manager \<Rightarrow> bool" where
  "iid_hashed hasher r \<longleftrightarrow> (\<forall>x. let h = x AND NOT HashChainFlag; c = hash_uses hasher (map iid_name (iid_information r)) h in
     (iid_hashmap r h \<noteq> None \<longleftrightarrow> 1 \<le> c) \<and> (iid_hashmap r (h OR HashChainFlag) \<noteq> None \<longleftrightarrow> 2 \<le> c))"

lemma iid_append_iff:
  "(\<exists>uid r'. iid_append name hash r = Inr (uid, r')) \<longleftrightarrow> length (iid_information r) < 0xffff"
  by (auto simp: iid_append_def Let_def ns_assert_eq_Inr)

lemma iid_append_hashes:
  "iid_append name hash r = Inr (uid, r') \<Longrightarrow> dom (iid_hashmap r') = insert hash (dom (iid_hashmap r))"
  by (auto simp: iid_append_def Let_def ns_assert_eq_Inr map_put_new_def split: if_splits)

lemma iid_chain_succeeds:
  assumes "iid_ok r" and "iid_hashmap r h = Some u"
  shows "\<exists>q. iid_chain_old u h r = Inr q \<and> dom (iid_hashmap q) = insert (h OR HashChainFlag) (dom (iid_hashmap r) - {h}) \<and>
    length (iid_information q) = length (iid_information r)"
proof -
  obtain i where "iid_lookup_information u r = Inr (iid_information r ! i)" "iid_hash (iid_information r ! i) = h"
    using iid_find [OF assms] by blast
  then show ?thesis
    using assms(2) by (auto simp: iid_chain_old_def Let_def map_put_new_def)
qed

text \<open>A new type takes the flag when its hash is in use; three types with one hash fail.\<close>

lemma iid_allocate_iff:
  assumes "iid_ok r"
  shows "(\<exists>uid r'. iid_allocate_uid hasher name r = Inr (uid, r')) \<longleftrightarrow>
      iid_namemap r name = None \<and> length (iid_information r) < 0xffff \<and>
      (iid_hashmap r (base_hash hasher name) = None \<or> iid_hashmap r (base_hash hasher name OR HashChainFlag) = None)"
    and "iid_allocate_uid hasher name r = Inr (uid, r') \<Longrightarrow> dom (iid_hashmap r') =
      insert (if iid_hashmap r (base_hash hasher name) = None then base_hash hasher name
        else base_hash hasher name OR HashChainFlag) (dom (iid_hashmap r))"
proof -
  let ?h = "base_hash hasher name"
  show "(\<exists>uid r'. iid_allocate_uid hasher name r = Inr (uid, r')) \<longleftrightarrow>
      iid_namemap r name = None \<and> length (iid_information r) < 0xffff \<and>
      (iid_hashmap r ?h = None \<or> iid_hashmap r (?h OR HashChainFlag) = None)"
  proof (cases "iid_hashmap r ?h")
    case None
    then show ?thesis
      using iid_append_iff [of name ?h r] by (auto simp: iid_allocate_uid_def Let_def ns_assert_eq_Inr)
  next
    case (Some u)
    obtain i where "iid_lookup_information u r = Inr (iid_information r ! i)"
      using iid_find [OF assms Some] by blast
    moreover obtain q where q: "iid_chain_old u ?h r = Inr q" "length (iid_information q) = length (iid_information r)"
      using iid_chain_succeeds [OF assms Some] by blast
    ultimately show ?thesis
      using Some iid_append_iff [of name "?h OR HashChainFlag" r] iid_append_iff [of name ?h q]
      by (simp add: iid_allocate_uid_def Let_def ns_assert_eq_Inr iid_uid_of_hash_def conj_commute)
  qed
  assume a: "iid_allocate_uid hasher name r = Inr (uid, r')"
  show "dom (iid_hashmap r') = insert (if iid_hashmap r ?h = None then ?h else ?h OR HashChainFlag) (dom (iid_hashmap r))"
  proof (cases "iid_hashmap r ?h")
    case None
    then show ?thesis
      using a iid_append_hashes [of name ?h r uid r'] by (simp add: iid_allocate_uid_def Let_def ns_assert_eq_Inr)
  next
    case (Some u)
    obtain i where i: "iid_lookup_information u r = Inr (iid_information r ! i)"
      using iid_find [OF assms Some] by blast
    obtain q where q: "iid_chain_old u ?h r = Inr q" "dom (iid_hashmap q) = insert (?h OR HashChainFlag) (dom (iid_hashmap r) - {?h})"
      using iid_chain_succeeds [OF assms Some] by blast
    show ?thesis
    proof (cases "name > iid_name (iid_information r ! i)")
      case True
      then show ?thesis
        using a i Some iid_append_hashes [of name "?h OR HashChainFlag" r uid r']
        by (simp add: iid_allocate_uid_def Let_def ns_assert_eq_Inr iid_uid_of_hash_def)
    next
      case False
      then have "dom (iid_hashmap r') = insert ?h (dom (iid_hashmap q))"
        using a i Some q(1) iid_append_hashes [of name ?h q uid r']
        by (simp add: iid_allocate_uid_def Let_def ns_assert_eq_Inr iid_uid_of_hash_def)
      then show ?thesis
        using q(2) Some by auto
    qed
  qed
qed

lemma iid_hashed_allocate:
  assumes "iid_ok r" and "iid_hashed hasher r" and "iid_allocate_uid hasher name r = Inr (uid, r')"
  shows "iid_hashed hasher r'"
  unfolding iid_hashed_def Let_def
proof (intro allI)
  fix x
  let ?h = "base_hash hasher name" and ?k = "x AND NOT HashChainFlag"
  let ?c = "hash_uses hasher (map iid_name (iid_information r))"
  note dom = iid_allocate_iff(2) [OF assms(1,3)]
  have in_dom: "iid_hashmap r' k \<noteq> None \<longleftrightarrow> k \<in> dom (iid_hashmap r')" "iid_hashmap r k \<noteq> None \<longleftrightarrow> k \<in> dom (iid_hashmap r)" for k
    by auto
  have names: "hash_uses hasher (map iid_name (iid_information r')) k = ?c k + (if ?h = k then 1 else 0)" for k
    using iid_ok_allocate [OF assms(1,3)] by (simp add: hash_uses_def)
  have h: "iid_hashmap r (y AND NOT HashChainFlag) \<noteq> None \<longleftrightarrow> 1 \<le> ?c (y AND NOT HashChainFlag)"
    "iid_hashmap r ((y AND NOT HashChainFlag) OR HashChainFlag) \<noteq> None \<longleftrightarrow> 2 \<le> ?c (y AND NOT HashChainFlag)" for y
    using assms(2) unfolding iid_hashed_def Let_def by blast+
  show "(iid_hashmap r' ?k \<noteq> None \<longleftrightarrow> 1 \<le> hash_uses hasher (map iid_name (iid_information r')) ?k) \<and>
      (iid_hashmap r' (?k OR HashChainFlag) \<noteq> None \<longleftrightarrow> 2 \<le> hash_uses hasher (map iid_name (iid_information r')) ?k)"
  proof (cases "?h = ?k")
    case True
    then show ?thesis
      using h(1) [of x] h(2) [of x] chained_hash(2) [of x x] unfolding names in_dom(1) dom by (auto simp: domIff)
  next
    case False
    then have "?k \<noteq> ?h OR HashChainFlag" "?k OR HashChainFlag \<noteq> ?h OR HashChainFlag" "?k OR HashChainFlag \<noteq> ?h"
      using chained_hash [of x "hasher name"] chained_hash(2) [of "hasher name" x] by metis+
    then have "?k \<in> dom (iid_hashmap r') \<longleftrightarrow> ?k \<in> dom (iid_hashmap r)"
      "?k OR HashChainFlag \<in> dom (iid_hashmap r') \<longleftrightarrow> ?k OR HashChainFlag \<in> dom (iid_hashmap r)"
      unfolding dom using False by auto
    then show ?thesis
      using h [of x] False unfolding names in_dom by simp
  qed
qed

lemma iid_name_known:
  assumes "iid_ok r"
  shows "iid_namemap r name = None \<longleftrightarrow> name \<notin> set (map iid_name (iid_information r))"
proof -
  have n: "iid_namemap r name = Some u \<longleftrightarrow>
      (\<exists>i < length (iid_information r). u = of_nat (i + 1) \<and> iid_name (iid_information r ! i) = name)" for u
    using assms unfolding iid_ok_def by blast
  have "(\<exists>u. iid_namemap r name = Some u) \<longleftrightarrow> (\<exists>i < length (iid_information r). iid_name (iid_information r ! i) = name)"
    unfolding n by blast
  then show ?thesis
    unfolding set_map by (auto simp: in_set_conv_nth image_iff) (metis nth_mem)
qed

text \<open>Registering succeeds exactly when the names are different, their number fits and no three share a hash.\<close>

definition names_ok :: "(string \<Rightarrow> 32 word) \<Rightarrow> string list \<Rightarrow> bool" where
  "names_ok hasher names \<longleftrightarrow> distinct names \<and> length names \<le> 0xffff \<and>
     (\<forall>n \<in> set names. hash_uses hasher names (base_hash hasher n) \<le> 2)"

lemma hash_uses_append [simp]: "hash_uses hasher (xs @ ys) h = hash_uses hasher xs h + hash_uses hasher ys h"
  by (simp add: hash_uses_def)

lemma names_ok_prefix: "names_ok hasher (xs @ ys) \<Longrightarrow> names_ok hasher xs"
  by (auto simp: names_ok_def dest: add_leD1)

lemma iid_uid_not_zero: "iid_allocate_uid hasher name r = Inr (uid, r') \<Longrightarrow> uid \<noteq> 0"
proof -
  assume "iid_allocate_uid hasher name r = Inr (uid, r')"
  then obtain h q where "iid_append name h q = Inr (uid, r')"
    by (auto simp: iid_allocate_uid_def Let_def ns_assert_eq_Inr res_bind_eq_Inr split: if_splits)
  then show ?thesis
    using unat16_Suc [of "length (iid_information q)"] by (auto simp: iid_append_def Let_def ns_assert_eq_Inr)
qed

lemma iid_register_iff:
  "iid_ok r \<Longrightarrow> iid_hashed hasher r \<Longrightarrow> names_ok hasher (map iid_name (iid_information r)) \<Longrightarrow>
   (\<exists>r'. iid_register hasher names r = Inr r') \<longleftrightarrow> names_ok hasher (map iid_name (iid_information r) @ names)"
proof (induction names arbitrary: r)
  case (Cons name names)
  let ?pre = "map iid_name (iid_information r)" and ?h = "base_hash hasher name"
  have h: "iid_hashmap r ?h \<noteq> None \<longleftrightarrow> 1 \<le> hash_uses hasher ?pre ?h"
    "iid_hashmap r (?h OR HashChainFlag) \<noteq> None \<longleftrightarrow> 2 \<le> hash_uses hasher ?pre ?h"
    using Cons.prems(2) unfolding iid_hashed_def Let_def by blast+
  have one: "hash_uses hasher [name] k = (if ?h = k then 1 else 0)" for k
    by (simp add: hash_uses_def)
  have alloc: "(\<exists>uid q. iid_allocate_uid hasher name r = Inr (uid, q)) \<longleftrightarrow> names_ok hasher (?pre @ [name])"
    unfolding iid_allocate_iff(1) [OF Cons.prems(1)] iid_name_known [OF Cons.prems(1)]
    using h Cons.prems(3) by (auto simp: names_ok_def one)
  show ?case
  proof (cases "\<exists>uid q. iid_allocate_uid hasher name r = Inr (uid, q)")
    case True
    then obtain uid q where q: "iid_allocate_uid hasher name r = Inr (uid, q)"
      by blast
    have ok: "iid_ok q" and pre: "map iid_name (iid_information q) = ?pre @ [name]"
      using iid_ok_allocate [OF Cons.prems(1) q] by simp_all
    have "(\<exists>r'. iid_register hasher names q = Inr r') \<longleftrightarrow> names_ok hasher ((?pre @ [name]) @ names)"
      using Cons.IH [OF ok iid_hashed_allocate [OF Cons.prems(1,2) q]] alloc True pre by simp
    then show ?thesis
      using q iid_uid_not_zero [OF q] by (simp add: tid_create_def)
  next
    case False
    then have "\<not> names_ok hasher (?pre @ name # names)"
      using alloc names_ok_prefix [of hasher "?pre @ [name]" names] by auto
    moreover have "iid_register hasher (name # names) r \<noteq> Inr r'" for r'
      using False by (auto simp: tid_create_def res_bind_eq_Inr)
    ultimately show ?thesis
      by blast
  qed
qed simp

text \<open>The types that a serialised tag can name are read back.\<close>

lemma lookup_of_hash:
  assumes "iid_ok r" and "iid_get_hash tid r = Inr h"
  shows "tid_lookup_by_hash h r = Inr tid"
proof -
  from assms(2) have t: "tid \<noteq> 0" "unat tid \<le> length (iid_information r)"
    "h = iid_hash (iid_information r ! (unat tid - 1))"
    by (auto simp: iid_get_hash_def iid_lookup_information_def result_elims)
  have "unat tid \<noteq> 0"
    using t(1) by (simp add: unat_eq_zero)
  then have "unat tid - 1 + 1 = unat tid" "unat tid - 1 < length (iid_information r)"
    using t(2) by linarith+
  then have i: "unat tid - 1 < length (iid_information r)" "tid = of_nat (unat tid - 1 + 1)"
    by simp_all
  then have "iid_hashmap r h = Some tid"
    using assms(1) t(3) unfolding iid_ok_def by blast
  then show ?thesis
    using t(1) by (simp add: tid_lookup_by_hash_def iid_uid_of_hash_def Let_def)
qed

lemma iid_register_fresh: "(\<exists>r. iid_register hasher names iid_empty = Inr r) \<longleftrightarrow> names_ok hasher names"
  using iid_register_iff [OF iid_ok_empty, of hasher names] by (simp add: iid_hashed_def iid_empty_def hash_uses_def names_ok_def)

lemma type_found:
  assumes "iid_register hasher names iid_empty = Inr r" and "i < length names"
  shows "\<exists>h. iid_get_hash (of_nat (i + 1)) r = Inr h \<and> tid_lookup_by_hash h r = Inr (of_nat (i + 1)) \<and>
    iid_get_name (of_nat (i + 1)) r = Inr (names ! i) \<and> tid_lookup_by_name (names ! i) r = Inr (of_nat (i + 1)) \<and>
    (\<forall>j < length names. iid_get_hash (of_nat (j + 1)) r = Inr h \<or> names ! j = names ! i \<longrightarrow> j = i)"
proof -
  have ok: "iid_ok r" and names: "map iid_name (iid_information r) = names"
    using iid_ok_register [OF iid_ok_empty assms(1)] by (simp_all add: iid_empty_def)
  have len: "length names = length (iid_information r)" "length names \<le> 0xffff"
    using ok names by (auto simp: iid_ok_def)
  have num: "unat (of_nat (j + 1) :: 16 word) = Suc j" if "j < length names" for j
    using that len(2) unat16_Suc [of j] by simp
  have look: "iid_lookup_information (of_nat (j + 1)) r = Inr (iid_information r ! j)" if "j < length names" for j
  proof -
    have "(of_nat (j + 1) :: 16 word) \<noteq> 0"
      using num [OF that] by auto
    then show ?thesis
      using num [OF that] that len(1) by (simp add: iid_lookup_information_def)
  qed
  have inj: "j = i" if "j < length names" "(of_nat (j + 1) :: 16 word) = of_nat (i + 1)" for j
    using num [OF that(1)] num [OF assms(2)] unfolding that(2) by simp
  have name: "iid_name (iid_information r ! j) = names ! j" if "j < length names" for j
    using names that by (metis length_map nth_map)
  have nm: "iid_namemap r (names ! j) = Some (of_nat (j + 1))" if "j < length names" for j
  proof -
    have "iid_namemap r (names ! j) = Some (of_nat (j + 1)) \<longleftrightarrow> (\<exists>i < length (iid_information r).
        (of_nat (j + 1) :: 16 word) = of_nat (i + 1) \<and> iid_name (iid_information r ! i) = names ! j)"
      using ok unfolding iid_ok_def by blast
    then show ?thesis
      using that len(1) name [OF that] by (metis)
  qed
  have hm: "tid_lookup_by_hash (iid_hash (iid_information r ! j)) r = Inr (of_nat (j + 1))" if "j < length names" for j
    by (rule lookup_of_hash [OF ok]) (simp only: iid_get_hash_def look [OF that] res_map_simps)
  have by_name: "tid_lookup_by_name n r = Inr u" if "iid_namemap r n = Some u" "unat u = Suc i" for n u
    using that by (auto simp: tid_lookup_by_name_def iid_uid_of_name_def Let_def ns_assert_def)
  have "tid_lookup_by_name (names ! i) r = Inr (of_nat (i + 1))"
    by (rule by_name [OF nm [OF assms(2)] num [OF assms(2)]])
  moreover have "iid_get_name (of_nat (i + 1)) r = Inr (names ! i)"
    unfolding iid_get_name_def look [OF assms(2)] by (simp add: name [OF assms(2)])
  moreover have "iid_get_hash (of_nat (j + 1)) r = Inr (iid_hash (iid_information r ! j))" if "j < length names" for j
    unfolding iid_get_hash_def look [OF that] by simp
  moreover have "j = i" if "j < length names" "names ! j = names ! i" for j
    using nm [OF that(1)] nm [OF assms(2)] that inj by (metis option.inject)
  moreover have "j = i" if "j < length names" "iid_hash (iid_information r ! j) = iid_hash (iid_information r ! i)" for j
    using hm [OF that(1)] hm [OF assms(2)] that inj by (metis sum.inject(2))
  ultimately show ?thesis
    using hm [OF assms(2)] assms(2) by (metis sum.inject(2))
qed

text \<open>C35: The hash of a type is its name in serialised packets. Whatever the hash function of the names is: types can be
  registered exactly when their names are different, at most 65535, and no three of them share the lower 31 bits of the
  hash; then the number of a type is found again from its hash, chained or not, and from its name, the types are numbered
  in the order of their registration, and no two have the same name or hash.\<close>

theorem type_hash_roundtrip:
  assumes "i < length names"
  shows "(if names_ok hasher names then \<exists>r h. iid_register hasher names iid_empty = Inr r \<and>
      iid_get_hash (of_nat (i + 1)) r = Inr h \<and> tid_lookup_by_hash h r = Inr (of_nat (i + 1)) \<and>
      iid_get_name (of_nat (i + 1)) r = Inr (names ! i) \<and> tid_lookup_by_name (names ! i) r = Inr (of_nat (i + 1)) \<and>
      (\<forall>j < length names. iid_get_hash (of_nat (j + 1)) r = Inr h \<or> names ! j = names ! i \<longrightarrow> j = i)
    else \<exists>e. iid_register hasher names iid_empty = Inl e)"
proof (cases "names_ok hasher names")
  case True
  then show ?thesis
    using iid_register_fresh [of hasher names] type_found [OF _ assms, of hasher] by auto
next
  case False
  then show ?thesis
    using iid_register_fresh [of hasher names] by (cases "iid_register hasher names iid_empty") auto
qed

text \<open>Two of three names collide: the later in the alphabet has the flag, although it came first.\<close>

theorem type_hash_roundtrip_witness:
  "\<exists>r h. iid_register (\<lambda>s. of_nat (size s)) [''ns3::B'', ''ns3::A'', ''ns3::Tag''] iid_empty = Inr r \<and>
     iid_get_hash 1 r = Inr h \<and> tid_lookup_by_hash h r = Inr 1 \<and> h = 0x80000006"
proof -
  have run: "case iid_register (\<lambda>s. of_nat (size s)) [''ns3::B'', ''ns3::A'', ''ns3::Tag''] iid_empty of
      Inl _ \<Rightarrow> False | Inr r \<Rightarrow> iid_get_hash 1 r = Inr 0x80000006"
    by (simp add: tid_create_def iid_allocate_uid_def iid_empty_def HashChainFlag_def iid_append_def map_put_new_def
        iid_uid_of_hash_def iid_lookup_information_def iid_chain_old_def iid_get_hash_def)
  then obtain r where r: "iid_register (\<lambda>s. of_nat (size s)) [''ns3::B'', ''ns3::A'', ''ns3::Tag''] iid_empty = Inr r"
    "iid_get_hash 1 r = Inr 0x80000006"
    by (auto split: sum.splits)
  show ?thesis
    using type_hash_roundtrip [of 0 "[''ns3::B'', ''ns3::A'', ''ns3::Tag'']" "\<lambda>s. of_nat (size s)"] r
    by (auto simp: names_ok_def hash_uses_def HashChainFlag_def)
qed

end
