(* ===== verification/Packet_Tags.thy ===== *)
theory Packet_Tags
  imports Tag_Buffer Type_Registry
begin

unbundle bit_operations_syntax

text \<open>
  \<open>PacketTagList\<close> (\<open>src/network/model/packet-tag-list.cc\<close>, \<open>packet-tag-list.h\<close>): lists of serialised tags whose
  tails several packets share. The nodes are numbered, with the count of the links into them; a list is the pointer to its
  first node. Memory of \<open>malloc\<close> has any contents (\<open>tw_junk\<close>). A loop along the nodes goes on for at most
  as many steps as nodes were ever created, see \<open>Endless_loop\<close>.
\<close>

section \<open>Nodes\<close>

record tag_node =
  tn_next :: "nat option"
  tn_count :: "32 word"
  tn_tid :: "16 word"
  tn_size :: "32 word"
  tn_data :: bytes

record tag_world =
  tw_node :: "nat \<Rightarrow> tag_node option"
  tw_next :: nat
  tw_junk :: "nat \<Rightarrow> nat \<Rightarrow> 8 word"

definition tw_put :: "nat \<Rightarrow> tag_node \<Rightarrow> tag_world \<Rightarrow> tag_world" where
  "tw_put a d w = w\<lparr>tw_node := (tw_node w)(a \<mapsto> d)\<rparr>"

definition tw_free :: "nat \<Rightarrow> tag_world \<Rightarrow> tag_world" where
  "tw_free a w = w\<lparr>tw_node := (tw_node w)(a := None)\<rparr>"

definition tw_fuel :: "tag_world \<Rightarrow> nat" where
  "tw_fuel w = Suc (tw_next w)"

text \<open>\<open>size_t\<close> has 64 bits: the limit is that of the 32-bit field.\<close>

definition create_tag_data :: "32 word \<Rightarrow> tag_world \<Rightarrow> (nat \<times> tag_node \<times> tag_world) result" where
  "create_tag_data dataSize w =
     ns_assert (dataSize < - 1)
       (let a = tw_next w;
            d = \<lparr>tn_next = None, tn_count = 0, tn_tid = 0, tn_size = dataSize,
                 tn_data = map (tw_junk w a) [0..<unat dataSize]\<rparr>
        in Inr (a, d, (tw_put a d w)\<lparr>tw_next := a + 1\<rparr>))"

text \<open>A pointer to a pointer: that to the first node, or the next pointer of a node.\<close>

datatype tag_link = To_head | To_next nat

type_synonym tag_state = "nat option \<times> tag_world"

definition link_put :: "tag_link \<Rightarrow> nat option \<Rightarrow> tag_state \<Rightarrow> tag_state result" where
  "link_put l p = (\<lambda>(m, w).
     case l of To_head \<Rightarrow> Inr (p, w)
     | To_next a \<Rightarrow> deref (tw_node w a) (\<lambda>d. Inr (m, tw_put a (d\<lparr>tn_next := p\<rparr>) w)))"

definition tw_count :: "(32 word \<Rightarrow> 32 word) \<Rightarrow> nat \<Rightarrow> tag_world \<Rightarrow> tag_world result" where
  "tw_count f a w = deref (tw_node w a) (\<lambda>d. Inr (tw_put a (d\<lparr>tn_count := f (tn_count d)\<rparr>) w))"

text \<open>A count that is raised when there is a node.\<close>

definition tw_share :: "nat option \<Rightarrow> tag_world \<Rightarrow> tag_world result" where
  "tw_share p w = (case p of None \<Rightarrow> Inr w | Some a \<Rightarrow> tw_count (\<lambda>c. c + 1) a w)"

definition node_window :: "tag_node \<Rightarrow> tag_window" where
  "node_window d = (\<lparr>tb_current = 0, tb_end = unat (tn_size d)\<rparr>, tn_data d)"

definition node_serialize :: "tag \<Rightarrow> tag_node \<Rightarrow> tag_node result" where
  "node_serialize t d = res_map (\<lambda>(_, m). d\<lparr>tn_data := m\<rparr>) (tag_serialize t (node_window d))"

section \<open>Reading and adding\<close>

fun find_node :: "nat \<Rightarrow> 16 word \<Rightarrow> nat option \<Rightarrow> tag_world \<Rightarrow> nat option result" where
  "find_node 0 tid cur w = Inl Endless_loop"
| "find_node (Suc n) tid cur w =
     (case cur of None \<Rightarrow> Inr None
      | Some a \<Rightarrow> deref (tw_node w a) (\<lambda>d.
          if tn_tid d = tid then Inr (Some a) else find_node n tid (tn_next d) w))"

text \<open>\<open>Peek\<close>: the bytes that the tag is deserialised from, when one is found.\<close>

definition tags_peek :: "16 word \<Rightarrow> tag_state \<Rightarrow> bytes option result" where
  "tags_peek tid = (\<lambda>(m, w).
     res_bind (find_node (tw_fuel w) tid m w) (\<lambda>p.
       case p of None \<Rightarrow> Inr None
       | Some a \<Rightarrow> deref (tw_node w a) (\<lambda>d. Inr (Some (snd (node_window d))))))"

text \<open>The loop of \<open>Add\<close> over the nodes, whose body is commented out.\<close>

fun walk_nodes :: "nat \<Rightarrow> nat option \<Rightarrow> tag_world \<Rightarrow> unit result" where
  "walk_nodes 0 cur w = Inl Endless_loop"
| "walk_nodes (Suc n) cur w =
     (case cur of None \<Rightarrow> Inr () | Some a \<Rightarrow> deref (tw_node w a) (\<lambda>d. walk_nodes n (tn_next d) w))"

definition tags_add :: "tag \<Rightarrow> tag_state \<Rightarrow> tag_state result" where
  "tags_add t = (\<lambda>(m, w).
     res_bind (walk_nodes (tw_fuel w) m w) (\<lambda>_.
     res_bind (create_tag_data (tag_size t) w) (\<lambda>(a, d, w).
     res_bind (node_serialize t (d\<lparr>tn_count := 1, tn_next := m, tn_tid := tag_tid t\<rparr>)) (\<lambda>d.
       Inr (Some a, tw_put a d w)))))"

section \<open>Copy on write\<close>

text \<open>The first loop ends at the end of the list, at a node with more than one link, or at the tag.\<close>

fun cow_search :: "nat \<Rightarrow> 16 word \<Rightarrow> tag_link \<Rightarrow> nat option \<Rightarrow> tag_world \<Rightarrow> (tag_link \<times> nat option \<times> bool) result" where
  "cow_search 0 tid prevNext cur w = Inl Endless_loop"
| "cow_search (Suc n) tid prevNext cur w =
     (case cur of None \<Rightarrow> Inr (prevNext, None, False)
      | Some a \<Rightarrow> deref (tw_node w a) (\<lambda>d.
          if tn_count d > 1 then Inr (prevNext, Some a, False)
          else if tn_tid d = tid then Inr (prevNext, Some a, True)
          else cow_search n tid (To_next a) (tn_next d) w))"

text \<open>The node that is copied loses a link, its copy has one, and so the next node has one more.\<close>

definition cow_copy_node :: "nat \<Rightarrow> tag_node \<Rightarrow> tag_link \<Rightarrow> tag_state \<Rightarrow> (nat \<times> tag_state) result" where
  "cow_copy_node cur d prevNext = (\<lambda>(m, w).
     res_bind (tw_count (\<lambda>c. c - 1) cur w) (\<lambda>w.
     res_bind (create_tag_data (tn_size d) w) (\<lambda>(a, e, w).
     let e = e\<lparr>tn_tid := tn_tid d, tn_count := 1, tn_size := tn_size d, tn_data := tn_data d, tn_next := tn_next d\<rparr>
     in deref (tn_next d) (\<lambda>b. res_bind (tw_count (\<lambda>c. c + 1) b (tw_put a e w)) (\<lambda>w.
        res_map (Pair a) (link_put prevNext (Some a) (m, w)))))))"

fun cow_copy :: "nat \<Rightarrow> 16 word \<Rightarrow> tag_link \<Rightarrow> nat option \<Rightarrow> tag_state \<Rightarrow> (tag_link \<times> nat option \<times> tag_state) result" where
  "cow_copy 0 tid prevNext cur s = Inl Endless_loop"
| "cow_copy (Suc n) tid prevNext cur s =
     deref cur (\<lambda>a. deref (tw_node (snd s) a) (\<lambda>d.
       if tn_tid d \<noteq> tid then
         ns_assert (tn_count d > 1)
           (res_bind (cow_copy_node a d prevNext s) (\<lambda>(b, s). cow_copy n tid (To_next b) (tn_next d) s))
       else Inr (prevNext, cur, s)))"

text \<open>A writer gets whether the node comes before the first shared one; it returns what the tag was deserialised from.\<close>

type_synonym cow_writer = "bool \<Rightarrow> nat \<Rightarrow> tag_link \<Rightarrow> tag_state \<Rightarrow> (bytes option \<times> tag_state) result"

definition cow_traverse :: "16 word \<Rightarrow> cow_writer \<Rightarrow> tag_state \<Rightarrow> (bool \<times> bytes option \<times> tag_state) result" where
  "cow_traverse tid Writer = (\<lambda>(m, w).
     if m = None then Inr (False, None, m, w)
     else res_bind (cow_search (tw_fuel w) tid To_head m w) (\<lambda>(prevNext, cur, found).
       case cur of None \<Rightarrow> Inr (False, None, m, w)
       | Some a \<Rightarrow>
         if found then res_map (Pair True) (Writer True a prevNext (m, w))
         else res_bind (find_node (tw_fuel w) tid cur w) (\<lambda>it.
           if it = None then Inr (False, None, m, w)
           else deref (tw_node w a) (\<lambda>d. ns_assert (tn_count d > 1)
             (res_bind (cow_copy (tw_fuel w) tid prevNext cur (m, w)) (\<lambda>(prevNext, cur, s).
              ns_assert (cur \<noteq> None)
                (deref cur (\<lambda>a. deref (tw_node (snd s) a) (\<lambda>d.
                  ns_assert (tn_tid d = tid) (ns_assert (tn_count d > 1)
                    (res_map (Pair True) (Writer False a prevNext s))))))))))))"

definition remove_writer :: cow_writer where
  "remove_writer preMerge cur prevNext s =
     deref (tw_node (snd s) cur) (\<lambda>d.
     let read = Some (snd (node_window d))
     in res_bind (link_put prevNext (tn_next d) s) (\<lambda>(m, w).
        if preMerge then Inr (read, m, tw_free cur w)
        else res_bind (tw_count (\<lambda>c. c - 1) cur w) (\<lambda>w. res_map (\<lambda>w. (read, m, w)) (tw_share (tn_next d) w))))"

definition replace_writer :: "tag \<Rightarrow> cow_writer" where
  "replace_writer t preMerge cur prevNext = (\<lambda>(m, w).
     deref (tw_node w cur) (\<lambda>d.
     if preMerge then res_map (\<lambda>d. (None, m, tw_put cur d w)) (node_serialize t d)
     else
       res_bind (tw_count (\<lambda>c. c - 1) cur w) (\<lambda>w.
       res_bind (create_tag_data (tag_size t) w) (\<lambda>(a, e, w).
       res_bind (node_serialize t (e\<lparr>tn_tid := tag_tid t, tn_count := 1\<rparr>)) (\<lambda>e.
       let e = e\<lparr>tn_next := tn_next d\<rparr>
       in res_bind (tw_share (tn_next d) (tw_put a e w)) (\<lambda>w.
          res_map (Pair None) (link_put prevNext (Some a) (m, w))))))))"

definition tags_remove :: "16 word \<Rightarrow> tag_state \<Rightarrow> (bool \<times> bytes option \<times> tag_state) result" where
  "tags_remove tid = cow_traverse tid remove_writer"

definition tags_replace :: "tag \<Rightarrow> tag_state \<Rightarrow> (bool \<times> tag_state) result" where
  "tags_replace t s =
     res_bind (cow_traverse (tag_tid t) (replace_writer t) s) (\<lambda>(found, _, s).
       if \<not> found then res_map (Pair found) (tags_add t s) else Inr (found, s))"

section \<open>Copies and the end of a list\<close>

definition tags_copy :: "nat option \<Rightarrow> tag_world \<Rightarrow> tag_state result" where
  "tags_copy p w = res_map (Pair p) (tw_share p w)"

text \<open>A node is freed when the loop has passed it.\<close>

definition free_prev :: "nat option \<Rightarrow> tag_world \<Rightarrow> tag_world" where
  "free_prev prev w = (case prev of None \<Rightarrow> w | Some a \<Rightarrow> tw_free a w)"

fun remove_all_from :: "nat \<Rightarrow> nat option \<Rightarrow> nat option \<Rightarrow> tag_world \<Rightarrow> tag_world result" where
  "remove_all_from 0 prev cur w = Inl Endless_loop"
| "remove_all_from (Suc n) prev cur w =
     (case cur of None \<Rightarrow> Inr (free_prev prev w)
      | Some a \<Rightarrow> res_bind (tw_count (\<lambda>c. c - 1) a w) (\<lambda>w. deref (tw_node w a) (\<lambda>d.
          if tn_count d > 0 then Inr (free_prev prev w)
          else remove_all_from n (Some a) (tn_next d) (free_prev prev w))))"

definition tags_remove_all :: "tag_state \<Rightarrow> tag_state result" where
  "tags_remove_all = (\<lambda>(m, w). res_map (Pair None) (remove_all_from (tw_fuel w) None m w))"

definition tags_assign :: "nat option \<Rightarrow> tag_state \<Rightarrow> tag_state result" where
  "tags_assign oth = (\<lambda>(m, w).
     if m = oth then Inr (m, w)
     else res_bind (tags_remove_all (m, w)) (\<lambda>(_, w). tags_copy oth w))"

definition tags_destroy :: "tag_state \<Rightarrow> tag_world result" where
  "tags_destroy s = res_map snd (tags_remove_all s)"

section \<open>Serialisation\<close>

fun tags_size_from :: "nat \<Rightarrow> nat option \<Rightarrow> tag_world \<Rightarrow> 32 word \<Rightarrow> 32 word result" where
  "tags_size_from 0 cur w sz = Inl Endless_loop"
| "tags_size_from (Suc n) cur w sz =
     (case cur of None \<Rightarrow> Inr sz
      | Some a \<Rightarrow> deref (tw_node w a) (\<lambda>d. tags_size_from n (tn_next d) w (sz + 4 + 4 + round4 (tn_size d))))"

definition tags_serialized_size :: "tag_state \<Rightarrow> 32 word result" where
  "tags_serialized_size = (\<lambda>(m, w). tags_size_from (tw_fuel w) m w 4)"

text \<open>The number of tags is the first word of the output, raised after every tag.\<close>

fun tags_serialize_from :: "iid_manager \<Rightarrow> nat \<Rightarrow> nat option \<Rightarrow> tag_world \<Rightarrow> 32 word \<Rightarrow> 32 word \<Rightarrow> bytes \<Rightarrow>
    (32 word \<times> bytes) result" where
  "tags_serialize_from r 0 cur w maxSize sz out = Inl Endless_loop"
| "tags_serialize_from r (Suc n) cur w maxSize sz out =
     (case cur of None \<Rightarrow> Inr (1, out)
      | Some a \<Rightarrow> deref (tw_node w a) (\<lambda>d.
          if \<not> sz + 4 \<le> maxSize then Inr (0, out) else
          res_bind (out_write sz (le_bytes 4 (tn_size d)) out) (\<lambda>out.
          (let sz = sz + 4 in if \<not> sz + 4 \<le> maxSize then Inr (0, out) else
          res_bind (iid_get_hash (tn_tid d) r) (\<lambda>h.
          res_bind (out_write sz (le_bytes 4 h) out) (\<lambda>out.
          (let sz = sz + 4 in if \<not> sz + round4 (tn_size d) \<le> maxSize then Inr (0, out) else
          res_bind (out_write sz (tn_data d) out) (\<lambda>out.
          res_bind (in_u32 0 out) (\<lambda>k.
          res_bind (out_write 0 (le_bytes 4 (k + 1)) out) (\<lambda>out.
            tags_serialize_from r n (tn_next d) w maxSize (sz + round4 (tn_size d)) out)))))))))) "

definition tags_serialize :: "iid_manager \<Rightarrow> 32 word \<Rightarrow> bytes \<Rightarrow> tag_state \<Rightarrow> (32 word \<times> bytes) result" where
  "tags_serialize r maxSize out = (\<lambda>(m, w).
     if \<not> 0 + 4 \<le> maxSize then Inr (0, out)
     else res_bind (out_write 0 (le_bytes 4 (0 :: 32 word)) out) (\<lambda>out.
       tags_serialize_from r (tw_fuel w) m w maxSize 4 out))"

text \<open>The loop of \<open>Deserialize\<close>, with the number of the tags that are left.\<close>

fun tags_deserialize_from :: "iid_manager \<Rightarrow> nat \<Rightarrow> bytes \<Rightarrow> 32 word \<Rightarrow> 32 word \<Rightarrow> tag_link \<Rightarrow> tag_state \<Rightarrow>
    (32 word \<times> tag_state) result" where
  "tags_deserialize_from r 0 inp p check prev s = ns_assert (check = 0) (Inr (if check \<noteq> 0 then 0 else 1, s))"
| "tags_deserialize_from r (Suc n) inp p check prev s =
     ns_assert (check \<ge> 4) (res_bind (in_u32 p inp) (\<lambda>tagSize.
     (let p = p + 4; check = check - 4
      in ns_assert (check \<ge> 4) (res_bind (in_u32 p inp) (\<lambda>hash.
      (let p = p + 4; check = check - 4
       in res_bind (tid_lookup_by_hash hash r) (\<lambda>tid.
          res_bind (create_tag_data tagSize (snd s)) (\<lambda>(a, d, w).
          ns_assert (check \<ge> tagSize) (res_bind (in_read p tagSize inp) (\<lambda>bs.
          res_bind (link_put prev (Some a)
              (fst s, tw_put a (d\<lparr>tn_count := 1, tn_next := None, tn_tid := tid, tn_data := bs\<rparr>) w)) (\<lambda>s.
            tags_deserialize_from r n inp (p + round4 tagSize) (check - round4 tagSize) (To_next a) s)))))))))))"

text \<open>On an empty list; the size includes the four bytes of the length before it.\<close>

definition tags_deserialize :: "iid_manager \<Rightarrow> bytes \<Rightarrow> 32 word \<Rightarrow> tag_state \<Rightarrow> (32 word \<times> tag_state) result" where
  "tags_deserialize r inp sz s =
     (let check = sz - 4
      in ns_assert (check \<ge> 4) (res_bind (in_u32 0 inp) (\<lambda>numberOfTags.
         tags_deserialize_from r (unat numberOfTags) inp 4 (check - 4) To_head s)))"

end
