(* ===== verification/Packet_Tags_Heap.thy ===== *)
theory Packet_Tags_Heap
  imports Packet_Tags
begin

text \<open>
  The nodes of the packet tags. \<open>chain w p xs q\<close>: from the pointer \<open>p\<close> one comes to \<open>q\<close> along the nodes \<open>xs\<close>; \<open>holds w p vs\<close>:
  \<open>p\<close> is the list of the tags \<open>vs\<close>. \<open>tags_ok w H\<close>, where \<open>H\<close> is the multiset of the pointers outside of the nodes,
  says that every count is the number of links to the node, none is 0, and every pointer leads to the end of a list. The
  elementary steps (a link more, a link less, a new node, another next pointer, a node less) keep it; the operations of
  the lists are made of them.
\<close>

section \<open>Chains\<close>

fun chain :: "tag_world \<Rightarrow> nat option \<Rightarrow> nat list \<Rightarrow> nat option \<Rightarrow> bool" where
  "chain w p [] q \<longleftrightarrow> p = q"
| "chain w p (a # xs) q \<longleftrightarrow> p = Some a \<and> (\<exists>d. tw_node w a = Some d \<and> chain w (tn_next d) xs q)"

definition node_value :: "tag_node \<Rightarrow> 16 word \<times> bytes" where
  "node_value d = (tn_tid d, tn_data d)"

definition values_at :: "tag_world \<Rightarrow> nat list \<Rightarrow> (16 word \<times> bytes) list" where
  "values_at w xs = map (\<lambda>a. node_value (the (tw_node w a))) xs"

definition holds :: "tag_world \<Rightarrow> nat option \<Rightarrow> (16 word \<times> bytes) list \<Rightarrow> bool" where
  "holds w p vs \<longleftrightarrow> (\<exists>xs. chain w p xs None \<and> vs = values_at w xs)"

lemma chain_append: "chain w p (xs @ ys) q \<longleftrightarrow> (\<exists>r. chain w p xs r \<and> chain w r ys q)"
  by (induction xs arbitrary: p) auto

lemma chain_None [simp]: "chain w None xs q \<longleftrightarrow> xs = [] \<and> q = None"
  by (cases xs) auto

lemma chain_unique: "chain w p xs None \<Longrightarrow> chain w p ys None \<Longrightarrow> xs = ys"
proof (induction xs arbitrary: p ys)
  case (Cons a xs)
  then show ?case
    by (cases ys) auto
qed simp

lemma chain_in: "chain w p xs q \<Longrightarrow> a \<in> set xs \<Longrightarrow> \<exists>d. tw_node w a = Some d"
  by (induction xs arbitrary: p) auto

lemma chain_distinct: "chain w p xs None \<Longrightarrow> distinct xs"
proof (induction xs arbitrary: p)
  case (Cons a xs)
  then obtain d where d: "p = Some a" "tw_node w a = Some d" "chain w (tn_next d) xs None"
    by auto
  have "a \<notin> set xs"
  proof
    assume "a \<in> set xs"
    then obtain us vs where xs: "xs = us @ a # vs"
      by (metis split_list)
    then have "chain w (Some a) (a # vs) None"
      using d(3) by (auto simp: chain_append)
    moreover have "chain w (Some a) (a # xs) None"
      using d by simp
    ultimately have "vs = xs"
      using chain_unique by blast
    then show False
      using xs by simp
  qed
  then show ?case
    using Cons.IH [OF d(3)] by simp
qed simp

lemma chain_cong:
  "chain w p xs q \<Longrightarrow> (\<And>a. a \<in> set xs \<Longrightarrow> map_option tn_next (tw_node w' a) = map_option tn_next (tw_node w a)) \<Longrightarrow>
   chain w' p xs q"
proof (induction xs arbitrary: p)
  case (Cons a xs)
  then obtain d where d: "p = Some a" "tw_node w a = Some d" "chain w (tn_next d) xs q"
    by auto
  then obtain d' where "tw_node w' a = Some d'" "tn_next d' = tn_next d"
    using Cons.prems(2) [of a] by auto
  then show ?case
    using d Cons.IH [OF d(3)] Cons.prems(2) by auto
qed simp

text \<open>The contents of a node: all but the count.\<close>

definition node_core :: "tag_node \<Rightarrow> nat option \<times> 16 word \<times> 32 word \<times> bytes" where
  "node_core d = (tn_next d, tn_tid d, tn_size d, tn_data d)"

definition same_nodes :: "nat set \<Rightarrow> tag_world \<Rightarrow> tag_world \<Rightarrow> bool" where
  "same_nodes A w w' \<longleftrightarrow> (\<forall>a \<in> A. map_option node_core (tw_node w' a) = map_option node_core (tw_node w a))"

lemma core_parts: "node_core d' = node_core d \<Longrightarrow> tn_next d' = tn_next d \<and> node_value d' = node_value d \<and> tn_size d' = tn_size d"
  by (simp add: node_core_def node_value_def)

lemma same_nodes_get:
  "same_nodes A w w' \<Longrightarrow> a \<in> A \<Longrightarrow> tw_node w a = Some d \<Longrightarrow> \<exists>d'. tw_node w' a = Some d' \<and> node_core d' = node_core d"
proof -
  assume "same_nodes A w w'" "a \<in> A" "tw_node w a = Some d"
  then have "map_option node_core (tw_node w' a) = Some (node_core d)"
    unfolding same_nodes_def by (metis option.simps(9))
  then show ?thesis
    by auto
qed

lemma same_nodes_next:
  "same_nodes A w w' \<Longrightarrow> a \<in> A \<Longrightarrow> map_option tn_next (tw_node w' a) = map_option tn_next (tw_node w a)"
  unfolding same_nodes_def by (cases "tw_node w a"; cases "tw_node w' a") (auto simp: node_core_def)

lemma same_nodes_chain: "chain w p xs q \<Longrightarrow> same_nodes (set xs) w w' \<Longrightarrow> chain w' p xs q"
  by (erule chain_cong) (erule same_nodes_next)

lemma same_nodes_values:
  assumes "chain w p xs q" and "same_nodes (set xs) w w'"
  shows "values_at w' xs = values_at w xs"
proof -
  have "node_value (the (tw_node w' a)) = node_value (the (tw_node w a))" if a: "a \<in> set xs" for a
  proof -
    obtain d where "tw_node w a = Some d"
      using chain_in [OF assms(1) a] by blast
    moreover from this obtain d' where "tw_node w' a = Some d'" "node_core d' = node_core d"
      using same_nodes_get [OF assms(2) a] by blast
    ultimately show ?thesis
      using core_parts [of d' d] by simp
  qed
  then show ?thesis
    by (simp add: values_at_def)
qed

lemma same_nodes_trans: "same_nodes A w w1 \<Longrightarrow> same_nodes A w1 w' \<Longrightarrow> same_nodes A w w'"
  by (simp add: same_nodes_def)

lemma same_nodes_refl [simp]: "same_nodes A w w"
  by (simp add: same_nodes_def)

lemma same_nodes_mono: "same_nodes B w w' \<Longrightarrow> A \<subseteq> B \<Longrightarrow> same_nodes A w w'"
  by (auto simp: same_nodes_def)

lemma tw_put_fields [simp]:
  "tw_node (tw_put a d w) = (tw_node w)(a \<mapsto> d)" "tw_next (tw_put a d w) = tw_next w"
  "tw_junk (tw_put a d w) = tw_junk w"
  by (simp_all add: tw_put_def)

lemma tw_free_fields [simp]:
  "tw_node (tw_free a w) = (tw_node w)(a := None)" "tw_next (tw_free a w) = tw_next w"
  "tw_junk (tw_free a w) = tw_junk w"
  by (simp_all add: tw_free_def)

lemma same_nodes_put [simp]: "a \<notin> A \<Longrightarrow> same_nodes A w (tw_put a d w)"
  by (auto simp: same_nodes_def)

lemma same_nodes_free [simp]: "a \<notin> A \<Longrightarrow> same_nodes A w (tw_free a w)"
  by (auto simp: same_nodes_def)

lemma same_nodes_core: "tw_node w a = Some d \<Longrightarrow> node_core d' = node_core d \<Longrightarrow> same_nodes A w (tw_put a d' w)"
  by (auto simp: same_nodes_def)

section \<open>The invariant\<close>

definition preds :: "tag_world \<Rightarrow> nat option \<Rightarrow> nat set" where
  "preds w q = {a. \<exists>d. tw_node w a = Some d \<and> tn_next d = q}"

definition links :: "tag_world \<Rightarrow> nat option multiset \<Rightarrow> nat option \<Rightarrow> nat" where
  "links w H q = count H q + card (preds w q)"

definition node_ok :: "tag_node \<Rightarrow> bool" where
  "node_ok d \<longleftrightarrow> length (tn_data d) = unat (tn_size d) \<and> tn_size d < - 1"

definition tags_ok :: "tag_world \<Rightarrow> nat option multiset \<Rightarrow> bool" where
  "tags_ok w H \<longleftrightarrow>
     (\<forall>a d. tw_node w a = Some d \<longrightarrow>
        a < tw_next w \<and> node_ok d \<and> tn_count d > 0 \<and> unat (tn_count d) = links w H (Some a) \<and>
        (\<exists>xs. chain w (tn_next d) xs None)) \<and>
     (\<forall>p \<in># H. \<exists>xs. chain w p xs None)"

lemma tags_ok_node:
  "tags_ok w H \<Longrightarrow> tw_node w a = Some d \<Longrightarrow>
   a < tw_next w \<and> node_ok d \<and> tn_count d > 0 \<and> unat (tn_count d) = links w H (Some a) \<and> (\<exists>xs. chain w (tn_next d) xs None)"
  unfolding tags_ok_def by blast

lemma tags_ok_chain: "tags_ok w H \<Longrightarrow> p \<in># H \<Longrightarrow> \<exists>xs. chain w p xs None"
  unfolding tags_ok_def by blast

lemma tags_ok_finite: "tags_ok w H \<Longrightarrow> finite (dom (tw_node w))"
  by (rule finite_subset [of _ "{..< tw_next w}"]) (auto dest: tags_ok_node)

lemma finite_preds: "tags_ok w H \<Longrightarrow> finite (preds w q)"
  by (rule finite_subset [OF _ tags_ok_finite]) (auto simp: preds_def)

lemma preds_put: "preds (tw_put a d w) q = (preds w q - {a}) \<union> (if tn_next d = q then {a} else {})"
  by (auto simp: preds_def)

lemma preds_free: "preds (tw_free a w) q = preds w q - {a}"
  by (auto simp: preds_def)

lemma preds_next [simp]: "preds (w\<lparr>tw_next := n\<rparr>) q = preds w q"
  by (simp add: preds_def)

lemma chain_next [simp]: "chain (w\<lparr>tw_next := n\<rparr>) p xs q \<longleftrightarrow> chain w p xs q"
  by (induction xs arbitrary: p) auto

lemma tags_ok_owned:
  assumes "tags_ok w H" and "Some a \<in># H"
  obtains d where "tw_node w a = Some d"
proof -
  from tags_ok_chain [OF assms] obtain xs where "chain w (Some a) xs None"
    by blast
  then show thesis
    using that by (cases xs) auto
qed

lemma tags_ok_fresh: "tags_ok w H \<Longrightarrow> tw_next w \<le> a \<Longrightarrow> tw_node w a = None"
  using tags_ok_node by (metis leD not_None_eq)

lemma preds_fresh: "tags_ok w H \<Longrightarrow> tw_node w a = None \<Longrightarrow> preds w (Some a) = {}"
proof -
  assume ok: "tags_ok w H" and a: "tw_node w a = None"
  have "False" if n: "tw_node w b = Some d" "tn_next d = Some a" for b d
  proof -
    obtain xs where "chain w (Some a) xs None"
      using tags_ok_node [OF ok n(1)] n(2) by auto
    then show False
      using a by (cases xs) auto
  qed
  then show ?thesis
    by (auto simp: preds_def)
qed

lemma preds_two:
  assumes "tags_ok w H" and "tw_node w a = Some d" and "tn_next d = q" and "tw_node w b = Some e" and "tn_next e = q" and "a \<noteq> b"
  shows "card (preds w q) \<ge> 2"
proof -
  have "{a, b} \<subseteq> preds w q"
    using assms by (auto simp: preds_def)
  from card_mono [OF finite_preds [OF assms(1)] this] show ?thesis
    using assms(6) by simp
qed

lemma preds_one: "tags_ok w H \<Longrightarrow> tw_node w a = Some d \<Longrightarrow> tn_next d = q \<Longrightarrow> card (preds w q) \<ge> 1"
  using finite_preds [of w H q] by (auto simp: preds_def Suc_le_eq card_gt_0_iff)

text \<open>A list that ends has its nodes within the fuel.\<close>

lemma chain_fuel:
  assumes "tags_ok w H" and "chain w p xs None"
  shows "length xs < tw_fuel w"
proof -
  have "set xs \<subseteq> {..< tw_next w}"
    using chain_in [OF assms(2)] tags_ok_node [OF assms(1)] by (metis lessThan_iff subsetI)
  from card_mono [OF _ this] show ?thesis
    using distinct_card [OF chain_distinct [OF assms(2)]] by (simp add: tw_fuel_def)
qed

section \<open>Nodes that nobody else reaches\<close>

definition reached :: "tag_world \<Rightarrow> nat option multiset \<Rightarrow> nat set" where
  "reached w H = {a. \<exists>p \<in># H. \<exists>xs. chain w p xs None \<and> a \<in> set xs}"

lemma reached_step:
  assumes "a \<in> reached w H"
  shows "Some a \<in># H \<or> (\<exists>b \<in> reached w H. \<exists>d. tw_node w b = Some d \<and> tn_next d = Some a)"
proof -
  from assms obtain p us vs where p: "p \<in># H" "chain w p (us @ a # vs) None"
    by (auto simp: reached_def dest!: split_list)
  show ?thesis
  proof (cases us rule: rev_cases)
    case Nil
    then show ?thesis
      using p by auto
  next
    case (snoc ys b)
    then have "\<exists>d. tw_node w b = Some d \<and> tn_next d = Some a" "b \<in> reached w H"
      using p by (auto simp: chain_append reached_def intro!: bexI [of _ p] exI [of _ "ys @ b # a # vs"])
    then show ?thesis
      by blast
  qed
qed

text \<open>The nodes of a list up to the first one with two links are not reached from elsewhere.\<close>

lemma private_chain:
  assumes "tags_ok w (add_mset m H)" and "chain w m (xs @ ys) None"
    and "\<forall>x \<in> set xs. \<exists>d. tw_node w x = Some d \<and> tn_count d = 1"
  shows "set xs \<inter> reached w H = {}"
  using assms(2,3)
proof (induction xs arbitrary: ys rule: rev_induct)
  case (snoc x xs)
  have IH: "set xs \<inter> reached w H = {}"
    using snoc.IH [of "x # ys"] snoc.prems by simp
  obtain d where d: "tw_node w x = Some d" "tn_count d = 1"
    using snoc.prems(2) by auto
  then have one: "links w (add_mset m H) (Some x) = 1"
    using tags_ok_node [OF assms(1) d(1)] by simp
  have "x \<notin> reached w H"
  proof
    assume "x \<in> reached w H"
    then consider "Some x \<in># H" | b e where "b \<in> reached w H" "tw_node w b = Some e" "tn_next e = Some x"
      using reached_step by blast
    then show False
    proof cases
      case 1
      then have c: "count H (Some x) \<ge> 1"
        by simp
      show False
      proof (cases xs rule: rev_cases)
        case Nil
        then have "m = Some x"
          using snoc.prems(1) by simp
        then show False
          using one c by (simp add: links_def)
      next
        case (snoc us y)
        then obtain f where "tw_node w y = Some f" "tn_next f = Some x"
          using snoc.prems(1) by (auto simp: chain_append)
        then have "card (preds w (Some x)) \<ge> 1"
          using preds_one [OF assms(1)] by blast
        moreover have "count (add_mset m H) (Some x) \<ge> count H (Some x)"
          by simp
        ultimately show False
          using one c unfolding links_def by linarith
      qed
    next
      case 2
      show False
      proof (cases xs rule: rev_cases)
        case Nil
        then have "m = Some x"
          using snoc.prems(1) by simp
        then show False
          using one preds_one [OF assms(1) 2(2,3)] by (simp add: links_def)
      next
        case (snoc us y)
        then obtain f where f: "tw_node w y = Some f" "tn_next f = Some x"
          using snoc.prems(1) by (auto simp: chain_append)
        have "y \<noteq> b"
          using IH 2(1) snoc by auto
        from preds_two [OF assms(1) f 2(2,3) this] show False
          using one by (simp add: links_def split: if_splits)
      qed
    qed
  qed
  then show ?case
    using IH by auto
qed simp

end
