(* ===== verification/Packet_Tags_Steps.thy ===== *)
theory Packet_Tags_Steps
  imports Packet_Tags_Heap
begin

text \<open>
  The elementary steps on the nodes of packet tags. A pointer that an operation has in hand is one of the pointers
  outside of the nodes: a new link takes such a pointer or makes one.
\<close>

section \<open>What the other lists see\<close>

definition tags_keep :: "nat option multiset \<Rightarrow> tag_world \<Rightarrow> tag_world \<Rightarrow> bool" where
  "tags_keep H w w' \<longleftrightarrow> (\<forall>p \<in># H. \<forall>vs. holds w p vs \<longrightarrow> holds w' p vs)"

lemma tags_keep_refl [simp]: "tags_keep H w w"
  by (simp add: tags_keep_def)

lemma tags_keep_trans: "tags_keep H w w1 \<Longrightarrow> tags_keep H w1 w' \<Longrightarrow> tags_keep H w w'"
  by (simp add: tags_keep_def)

lemma holds_same: "chain w p xs None \<Longrightarrow> same_nodes (set xs) w w' \<Longrightarrow> holds w' p (values_at w xs)"
  unfolding holds_def using same_nodes_chain same_nodes_values by metis

lemma holds_iff: "chain w p xs None \<Longrightarrow> holds w p vs \<longleftrightarrow> vs = values_at w xs"
  unfolding holds_def using chain_unique by blast

lemma tags_keep_same: "same_nodes (reached w H) w w' \<Longrightarrow> tags_keep H w w'"
  unfolding tags_keep_def
proof (intro ballI allI impI)
  fix p vs
  assume s: "same_nodes (reached w H) w w'" and p: "p \<in># H" and "holds w p vs"
  then obtain xs where xs: "chain w p xs None" "vs = values_at w xs"
    by (auto simp: holds_def)
  then have "set xs \<subseteq> reached w H"
    using p by (auto simp: reached_def)
  then show "holds w' p vs"
    using holds_same [OF xs(1)] same_nodes_mono [OF s] xs(2) by simp
qed

section \<open>Counts\<close>

text \<open>Room for one more link.\<close>

definition tags_room :: "tag_world \<Rightarrow> nat option multiset \<Rightarrow> bool" where
  "tags_room w H \<longleftrightarrow> size H + card (dom (tw_node w)) < 2 ^ 32 - 1"

lemma links_bound: "tags_ok w H \<Longrightarrow> links w H q \<le> size H + card (dom (tw_node w))"
  unfolding links_def
  by (intro add_mono card_mono tags_ok_finite count_le_size) (auto simp: preds_def)

lemma preds_core:
  assumes "tw_node w a = Some d" and "tn_next d' = tn_next d"
  shows "preds (tw_put a d' w) q = preds w q"
  using assms by (auto simp: preds_put preds_def)

lemma chain_core:
  assumes "tw_node w a = Some d" and "tn_next d' = tn_next d"
  shows "chain w p xs q \<Longrightarrow> chain (tw_put a d' w) p xs q"
  by (erule chain_cong) (use assms in auto)

lemma tags_ok_put:
  assumes "tags_ok w H" and "tw_node w a = Some d" and "tn_next d' = tn_next d" and "node_ok d'" and "tn_count d' > 0"
    and "unat (tn_count d') = links w H' (Some a)" and "\<And>b. b \<noteq> a \<Longrightarrow> links w H' (Some b) = links w H (Some b)"
    and "\<And>p. p \<in># H' \<Longrightarrow> \<exists>xs. chain w p xs None"
  shows "tags_ok (tw_put a d' w) H'"
proof -
  have l: "links (tw_put a d' w) H' q = links w H' q" for q
    by (simp add: links_def preds_core [OF assms(2,3)])
  have c: "\<exists>xs. chain (tw_put a d' w) p xs None" if "\<exists>xs. chain w p xs None" for p
    using that chain_core [OF assms(2,3)] by blast
  have n: "b < tw_next (tw_put a d' w) \<and> node_ok e \<and> tn_count e > 0 \<and> unat (tn_count e) = links w H' (Some b) \<and>
      (\<exists>xs. chain w (tn_next e) xs None)" if "tw_node (tw_put a d' w) b = Some e" for b e
  proof (cases "b = a")
    case True
    then show ?thesis
      using that tags_ok_node [OF assms(1,2)] assms(3-6) by auto
  next
    case False
    then show ?thesis
      using that tags_ok_node [OF assms(1), of b e] assms(7) by auto
  qed
  show ?thesis
    unfolding tags_ok_def l using n c assms(8) by blast
qed

lemma tw_share_ok:
  assumes "tags_ok w H" and "chain w p xs None" and "tags_room w H"
  shows "\<exists>w'. tw_share p w = Inr w' \<and> tags_ok w' (add_mset p H) \<and> same_nodes A w w' \<and>
    dom (tw_node w') = dom (tw_node w) \<and> tw_next w' = tw_next w"
proof (cases p)
  case None
  then show ?thesis
    using assms(1) by (auto simp: tw_share_def tags_ok_def links_def)
next
  case (Some a)
  then obtain d where d: "tw_node w a = Some d"
    using assms(2) by (cases xs) auto
  let ?d = "d\<lparr>tn_count := tn_count d + 1\<rparr>"
  have "links w H (Some a) < 2 ^ 32 - 1"
    using links_bound [OF assms(1), of "Some a"] assms(3) by (simp add: tags_room_def)
  then have u: "unat (tn_count d + 1) = unat (tn_count d) + 1"
    using tags_ok_node [OF assms(1) d] by (subst unat32_add) auto
  moreover from this have "tn_count d + 1 > 0"
    by (simp add: word_less_nat_alt)
  ultimately have "tags_ok (tw_put a ?d w) (add_mset p H)"
    using tags_ok_node [OF assms(1) d] tags_ok_chain [OF assms(1)] assms(2) Some
    by (intro tags_ok_put [OF assms(1) d]) (auto simp: links_def node_ok_def)
  then show ?thesis
    using Some d by (auto simp: tw_share_def tw_count_def node_core_def intro!: same_nodes_core)
qed

lemma tags_ok_drop:
  assumes "tags_ok w (add_mset (Some a) H)" and "tw_node w a = Some d" and "tn_count d > 1"
  shows "tags_ok (tw_put a (d\<lparr>tn_count := tn_count d - 1\<rparr>) w) H"
proof -
  note n = tags_ok_node [OF assms(1,2)]
  have u: "unat (tn_count d - 1) = unat (tn_count d) - 1"
    using assms(3) by (subst unat32_sub) (auto simp: word_less_nat_alt)
  moreover have "unat (tn_count d) > 1"
    using assms(3) by (simp add: word_less_nat_alt)
  ultimately have "tn_count d - 1 > 0"
    by (simp add: word_less_nat_alt)
  then show ?thesis
    using u n tags_ok_chain [OF assms(1)]
    by (intro tags_ok_put [OF assms(1,2)]) (auto simp: links_def node_ok_def)
qed

lemma tags_ok_drop_None: "tags_ok w (add_mset None H) \<longleftrightarrow> tags_ok w H"
  by (auto simp: tags_ok_def links_def)

lemma card_preds_less:
  assumes "tags_ok w H" and "tw_node w y = Some d"
  shows "card (preds w q - {y}) + (if tn_next d = q then 1 else 0) = card (preds w q)"
proof -
  have "y \<in> preds w q \<longleftrightarrow> tn_next d = q"
    using assms(2) by (auto simp: preds_def)
  then show ?thesis
    using card_Suc_Diff1 [OF finite_preds [OF assms(1)], of y q] by auto
qed

section \<open>New nodes\<close>

lemma tags_ok_alloc:
  assumes "tags_ok w (add_mset p H)" and "node_ok e" and "tn_count e = 1" and "tn_next e = p"
  shows "tags_ok ((tw_put (tw_next w) e w)\<lparr>tw_next := Suc (tw_next w)\<rparr>) (add_mset (Some (tw_next w)) H)"
    (is "tags_ok ?w ?H")
proof -
  let ?b = "tw_next w"
  have b: "tw_node w ?b = None"
    using tags_ok_fresh [OF assms(1)] by simp
  have p: "preds w (Some ?b) = {}"
    by (rule preds_fresh [OF assms(1) b])
  have H: "count (add_mset p H) (Some ?b) = 0"
    using tags_ok_owned [OF assms(1), of ?b] b by (metis count_eq_zero_iff option.distinct(1))
  have keep: "chain ?w q xs r" if "chain w q xs r" for q xs r
  proof -
    have "?b \<notin> set xs"
      using chain_in [OF that, of ?b] b by auto
    then show ?thesis
      by (intro chain_cong [OF that]) auto
  qed
  have l: "links ?w ?H (Some a) = (if a = ?b then 1 else links w (add_mset p H) (Some a))" for a
  proof -
    have "preds ?w (Some a) = preds w (Some a) \<union> (if p = Some a then {?b} else {})" and nb: "?b \<notin> preds w (Some a)"
      using b assms(4) by (auto simp: preds_put preds_def)
    then have "card (preds ?w (Some a)) = card (preds w (Some a)) + (if p = Some a then 1 else 0)"
      using finite_preds [OF assms(1)] by simp
    then show ?thesis
      using p H by (auto simp: links_def split: if_splits)
  qed
  have ch: "\<exists>xs. chain ?w q xs None" if "q \<in># add_mset p H" for q
    using tags_ok_chain [OF assms(1) that] keep by blast
  moreover have "\<exists>xs. chain ?w (Some ?b) xs None"
  proof -
    obtain xs where "chain ?w p xs None"
      using ch by auto
    then have "chain ?w (Some ?b) (?b # xs) None"
      using assms(4) by simp
    then show ?thesis
      by blast
  qed
  moreover have "a < tw_next ?w \<and> node_ok d \<and> tn_count d > 0 \<and> unat (tn_count d) = links ?w ?H (Some a) \<and>
      (\<exists>xs. chain ?w (tn_next d) xs None)" if "tw_node ?w a = Some d" for a d
  proof (cases "a = ?b")
    case True
    then show ?thesis
      using that assms(2-4) l ch by auto
  next
    case False
    then show ?thesis
      using that tags_ok_node [OF assms(1), of a d] l [of a] keep by (auto intro: less_SucI)
  qed
  ultimately show ?thesis
    unfolding tags_ok_def by auto
qed

section \<open>Another next pointer\<close>

lemma relink_chain:
  assumes "chain w q zs None" and "chain w p xs None" and "tw_node w y = Some d" and "y \<notin> set xs"
  shows "\<exists>us. chain (tw_put y (d\<lparr>tn_next := p\<rparr>) w) q us None"
proof -
  let ?w = "tw_put y (d\<lparr>tn_next := p\<rparr>) w"
  have keep: "chain ?w r us s" if "chain w r us s" "y \<notin> set us" for r us s
    using that by (auto elim!: chain_cong)
  show ?thesis
  proof (cases "y \<in> set zs")
    case True
    then obtain us vs where zs: "zs = us @ y # vs" "y \<notin> set us"
      by (metis split_list_first)
    then have "chain ?w q us (Some y)"
      using assms(1) keep by (auto simp: chain_append)
    then have "chain ?w q (us @ y # xs) None"
      using keep [OF assms(2,4)] by (auto simp: chain_append)
    then show ?thesis
      by blast
  qed (use keep assms(1) in blast)
qed

lemma tags_ok_relink:
  assumes "tags_ok w (add_mset p H)" and "tw_node w y = Some d" and "chain w p xs None" and "y \<notin> set xs"
  shows "tags_ok (tw_put y (d\<lparr>tn_next := p\<rparr>) w) (add_mset (tn_next d) H)"
    (is "tags_ok ?w _")
proof -
  have c: "card (preds ?w q) + (if tn_next d = q then 1 else 0) = card (preds w q) + (if p = q then 1 else 0)" for q
  proof -
    have "preds ?w q = (if p = q then insert y (preds w q - {y}) else preds w q - {y})"
      by (auto simp: preds_put)
    then have "card (preds ?w q) = card (preds w q - {y}) + (if p = q then 1 else 0)"
      using finite_preds [OF assms(1), of q] by (simp del: insert_Diff_single)
    then show ?thesis
      using card_preds_less [OF assms(1,2), of q] by simp
  qed
  have l: "links ?w (add_mset (tn_next d) H) q = links w (add_mset p H) q" for q
  proof -
    have n: "count (add_mset r H) q = count H q + (if r = q then 1 else 0)" for r
      by simp
    show ?thesis
      using c [of q] unfolding links_def n by linarith
  qed
  note ch = relink_chain [OF _ assms(3,2,4)]
  have "a < tw_next w \<and> node_ok e \<and> tn_count e > 0 \<and> unat (tn_count e) = links w (add_mset p H) (Some a) \<and>
      (\<exists>xs. chain ?w (tn_next e) xs None)" if "tw_node ?w a = Some e" for a e
  proof (cases "a = y")
    case True
    then show ?thesis
      using that tags_ok_node [OF assms(1,2)] ch [OF assms(3)] by (auto simp: node_ok_def)
  next
    case False
    then show ?thesis
      using that tags_ok_node [OF assms(1), of a e] ch by auto
  qed
  moreover have "\<exists>xs. chain ?w q xs None" if "q \<in># add_mset (tn_next d) H" for q
    using that tags_ok_chain [OF assms(1)] tags_ok_node [OF assms(1,2)] ch by auto
  ultimately show ?thesis
    unfolding tags_ok_def l by simp
qed

section \<open>A node less\<close>

lemma only_link:
  assumes "tags_ok w (add_mset (Some a) H)" and "tw_node w a = Some d" and "tn_count d = 1"
  shows "preds w (Some a) = {}" and "Some a \<notin># H" and "a \<notin> reached w H"
proof -
  have "links w (add_mset (Some a) H) (Some a) = 1"
    using tags_ok_node [OF assms(1,2)] assms(3) by simp
  then have "card (preds w (Some a)) = 0" and H: "Some a \<notin># H"
    by (auto simp: links_def not_in_iff)
  then show p: "preds w (Some a) = {}" and "Some a \<notin># H"
    using finite_preds [OF assms(1)] by auto
  show "a \<notin> reached w H"
    using reached_step p H by (force simp: preds_def)
qed

lemma tags_ok_free:
  assumes "tags_ok w (add_mset (Some a) H)" and "tw_node w a = Some d" and "tn_count d = 1"
  shows "tags_ok (tw_free a w) (add_mset (tn_next d) H)"
    (is "tags_ok ?w _")
proof -
  note one = only_link [OF assms]
  have no: "a \<notin> set zs" if "chain w q zs r" "q \<noteq> Some a" for q zs r
  proof
    assume "a \<in> set zs"
    then obtain us vs where zs: "zs = us @ a # vs"
      by (metis split_list)
    show False
    proof (cases us rule: rev_cases)
      case Nil
      then show ?thesis
        using that zs by simp
    next
      case (snoc ys b)
      then have "b \<in> preds w (Some a)"
        using that(1) zs by (auto simp: chain_append preds_def)
      then show ?thesis
        using one(1) by simp
    qed
  qed
  have keep: "\<exists>zs. chain ?w q zs None" if "\<exists>zs. chain w q zs None" "q \<noteq> Some a" for q
  proof -
    from that obtain zs where zs: "chain w q zs None"
      by blast
    then have "chain ?w q zs None"
      by (rule chain_cong) (use no [OF zs that(2)] in auto)
    then show ?thesis
      by blast
  qed
  have nx: "tn_next e \<noteq> Some a" if "tw_node w b = Some e" for b e
    using one(1) that by (auto simp: preds_def)
  have l: "links ?w (add_mset (tn_next d) H) (Some b) = links w (add_mset (Some a) H) (Some b)" if "b \<noteq> a" for b
  proof -
    show ?thesis
      using that card_preds_less [OF assms(1,2), of "Some b"] by (auto simp: links_def preds_free split: if_splits)
  qed
  have "\<exists>zs. chain ?w q zs None" if "q \<in># add_mset (tn_next d) H" for q
    using that keep tags_ok_chain [OF assms(1), of q] tags_ok_node [OF assms(1,2)] one(2) nx [OF assms(2)] by auto
  then show ?thesis
    using tags_ok_node [OF assms(1)] keep nx l unfolding tags_ok_def by auto
qed

lemma tags_keep_free:
  assumes "tags_ok w (add_mset (Some a) H)" and "tw_node w a = Some d" and "tn_count d = 1"
  shows "tags_keep H w (tw_free a w)"
  using only_link(3) [OF assms] by (intro tags_keep_same) simp

end
