(* ===== verification/Packet_Tags_Ops.thy ===== *)
theory Packet_Tags_Ops
  imports Packet_Tags_Steps
begin

text \<open>
  The operations of \<open>PacketTagList\<close> on a list whose pointer is \<open>m\<close>, beside other lists \<open>H\<close>: each keeps the invariant, does
  to the tags of the list what it says, and nothing to the other lists.
\<close>

section \<open>Searching\<close>

abbreviation node_at :: "tag_world \<Rightarrow> nat \<Rightarrow> tag_node" where
  "node_at w a \<equiv> the (tw_node w a)"

lemma values_at_simps [simp]:
  "values_at w [] = []" "values_at w (a # xs) = node_value (node_at w a) # values_at w xs"
  "values_at w (xs @ ys) = values_at w xs @ values_at w ys"
  by (simp_all add: values_at_def)

lemma find_node_ok:
  "chain w p xs None \<Longrightarrow> length xs < n \<Longrightarrow> find_node n tid p w = Inr (find (\<lambda>a. tn_tid (node_at w a) = tid) xs)"
proof (induction n arbitrary: p xs)
  case (Suc n)
  then show ?case
    by (cases xs) auto
qed simp

lemma walk_nodes_ok: "chain w p xs None \<Longrightarrow> length xs < n \<Longrightarrow> walk_nodes n p w = Inr ()"
proof (induction n arbitrary: p xs)
  case (Suc n)
  then show ?case
    by (cases xs) auto
qed simp

lemma find_values: "map_option (\<lambda>a. tn_data (node_at w a)) (find (\<lambda>a. tn_tid (node_at w a) = tid) xs) = map_of (values_at w xs) tid"
  by (induction xs) (auto simp: node_value_def)

lemma find_tid_none: "find (\<lambda>a. tn_tid (node_at w a) = tid) xs = None \<longleftrightarrow> tid \<notin> fst ` set (values_at w xs)"
  by (induction xs) (auto simp: node_value_def)

lemma tags_peek_ok:
  assumes "tags_ok w H" and "holds w m vs"
  shows "tags_peek tid (m, w) = Inr (map_of vs tid)"
proof -
  from assms(2) obtain xs where xs: "chain w m xs None" "vs = values_at w xs"
    by (auto simp: holds_def)
  note f = find_node_ok [OF xs(1) chain_fuel [OF assms(1) xs(1)], of tid]
  show ?thesis
  proof (cases "find (\<lambda>a. tn_tid (node_at w a) = tid) xs")
    case None
    then show ?thesis
      using f find_values [of w tid xs] xs(2) by (simp add: tags_peek_def)
  next
    case (Some a)
    then have "a \<in> set xs"
      by (auto simp: find_Some_iff)
    then obtain d where "tw_node w a = Some d"
      using chain_in [OF xs(1)] by blast
    then show ?thesis
      using f Some find_values [of w tid xs] xs(2) by (simp add: tags_peek_def node_window_def)
  qed
qed

section \<open>Adding\<close>

lemma tw_put_put [simp]: "tw_put a d ((tw_put a e w)\<lparr>tw_next := n\<rparr>) = (tw_put a d w)\<lparr>tw_next := n\<rparr>"
  by (simp add: tw_put_def)

lemma node_serialize_ok:
  assumes "tag_ok t" and "tn_size d = tag_size t" and "length (tn_data d) = unat (tn_size d)"
  shows "node_serialize t d = Inr (d\<lparr>tn_data := tag_bytes t\<rparr>)"
  using tag_serialize_fills [of "tn_data d" t] assms by (simp add: node_serialize_def node_window_def tag_ok_def)

definition tag_fits :: "tag \<Rightarrow> bool" where
  "tag_fits t \<longleftrightarrow> tag_ok t \<and> tag_size t < - 1"

lemma new_chain:
  assumes "tags_ok w H" and "chain w p xs q" and "tn_next e = p"
  shows "chain ((tw_put (tw_next w) e w)\<lparr>tw_next := n\<rparr>) (Some (tw_next w)) (tw_next w # xs) q"
    and "same_nodes (set xs) w (tw_put (tw_next w) e w)"
proof -
  have "tw_next w \<notin> set xs"
    using chain_in [OF assms(2), of "tw_next w"] tags_ok_fresh [OF assms(1), of "tw_next w"] by auto
  then show s: "same_nodes (set xs) w (tw_put (tw_next w) e w)"
    by simp
  show "chain ((tw_put (tw_next w) e w)\<lparr>tw_next := n\<rparr>) (Some (tw_next w)) (tw_next w # xs) q"
    using same_nodes_chain [OF assms(2) s] assms(3) by simp
qed

lemma values_at_next [simp]: "values_at (w\<lparr>tw_next := n\<rparr>) xs = values_at w xs"
  by (simp add: values_at_def)

lemma holds_next [simp]: "holds (w\<lparr>tw_next := n\<rparr>) p vs \<longleftrightarrow> holds w p vs"
  by (simp add: holds_def)

lemma tags_keep_next [simp]: "tags_keep H w (w'\<lparr>tw_next := n\<rparr>) \<longleftrightarrow> tags_keep H w w'"
  by (simp add: tags_keep_def)

lemma fresh_not_reached: "tags_ok w G \<Longrightarrow> tw_next w \<notin> reached w H"
  using tags_ok_fresh [of w G "tw_next w"] by (auto simp: reached_def dest!: chain_in)

lemma tags_add_ok:
  assumes "tags_ok w (add_mset m H)" and "holds w m vs" and "tag_fits t"
  shows "\<exists>m' w'. tags_add t (m, w) = Inr (m', w') \<and> tags_ok w' (add_mset m' H) \<and> tags_keep H w w' \<and>
    holds w' m' ((tag_tid t, tag_bytes t) # vs)"
proof -
  from assms(2) obtain xs where xs: "chain w m xs None" "vs = values_at w xs"
    by (auto simp: holds_def)
  let ?a = "tw_next w"
  let ?e = "\<lparr>tn_next = m, tn_count = 1, tn_tid = tag_tid t, tn_size = tag_size t, tn_data = tag_bytes t\<rparr>"
  let ?w = "(tw_put ?a ?e w)\<lparr>tw_next := Suc ?a\<rparr>"
  have e: "node_ok ?e"
    using assms(3) by (simp add: node_ok_def tag_fits_def tag_ok_def)
  have "tags_add t (m, w) = Inr (Some ?a, ?w)"
    using walk_nodes_ok [OF xs(1) chain_fuel [OF assms(1) xs(1)]] assms(3)
    by (simp add: tags_add_def create_tag_data_def tag_fits_def node_serialize_ok Let_def)
  moreover have "tags_ok ?w (add_mset (Some ?a) H)"
    by (rule tags_ok_alloc [OF assms(1) e]) simp_all
  moreover have "tags_keep H w ?w"
    using fresh_not_reached [OF assms(1)] by (simp add: tags_keep_same)
  moreover have "holds ?w (Some ?a) ((tag_tid t, tag_bytes t) # vs)"
    using new_chain [OF assms(1) xs(1), of ?e] same_nodes_values [OF xs(1) new_chain(2) [OF assms(1) xs(1), of ?e]] xs(2)
    unfolding holds_def by (intro exI [of _ "?a # xs"]) (simp add: node_value_def)
  ultimately show ?thesis
    by blast
qed

section \<open>Changing a pointer in the own part of a list\<close>

definition link_of :: "nat list \<Rightarrow> tag_link" where
  "link_of us = (if us = [] then To_head else To_next (last us))"

definition own_nodes :: "tag_world \<Rightarrow> nat list \<Rightarrow> bool" where
  "own_nodes w us \<longleftrightarrow> (\<forall>u \<in> set us. tn_count (node_at w u) = 1)"

lemma own_not_reached:
  assumes "tags_ok w (add_mset m H)" and "chain w m (us @ zs) None" and "own_nodes w us"
  shows "set us \<inter> reached w H = {}"
proof (rule private_chain [OF assms(1,2)])
  show "\<forall>x \<in> set us. \<exists>d. tw_node w x = Some d \<and> tn_count d = 1"
    using chain_in [OF assms(2)] assms(3) by (fastforce simp: own_nodes_def)
qed

lemma values_at_cong:
  "(\<And>a. a \<in> set xs \<Longrightarrow> node_value (node_at w' a) = node_value (node_at w a)) \<Longrightarrow> values_at w' xs = values_at w xs"
  by (simp add: values_at_def)

lemma link_put_ok:
  assumes "tags_ok w (add_mset p (add_mset m H))" and "chain w m us q" and "chain w p zs None" and "set us \<inter> set zs = {}"
  shows "\<exists>m' w'. link_put (link_of us) p (m, w) = Inr (m', w') \<and> tags_ok w' (add_mset q (add_mset m' H)) \<and>
    chain w' m' (us @ zs) None \<and> same_nodes (- set us) w w' \<and> tw_next w' = tw_next w \<and>
    (\<forall>a. node_value (node_at w' a) = node_value (node_at w a) \<and> tn_count (node_at w' a) = tn_count (node_at w a)) \<and>
    dom (tw_node w') = dom (tw_node w)"
proof (cases us rule: rev_cases)
  case Nil
  then show ?thesis
    using assms by (auto simp: link_of_def link_put_def add_mset_commute)
next
  case (snoc vs y)
  then obtain d where d: "tw_node w y = Some d" "tn_next d = q" "chain w m vs (Some y)"
    using assms(2) by (auto simp: chain_append)
  let ?w = "tw_put y (d\<lparr>tn_next := p\<rparr>) w"
  have y: "y \<notin> set zs"
    using assms(4) snoc by auto
  have "\<exists>ys. chain w q ys None"
    using tags_ok_node [OF assms(1) d(1)] d(2) by auto
  then obtain ys where "chain w q ys None"
    by blast
  then have "chain w m (vs @ y # ys) None"
    using d by (auto simp: chain_append)
  then have yv: "y \<notin> set vs"
    using chain_distinct by fastforce
  have keep: "chain ?w r us s" if "chain w r us s" "y \<notin> set us" for r us s
    by (rule chain_cong [OF that(1)]) (use that(2) in auto)
  have "link_put (link_of us) p (m, w) = Inr (m, ?w)"
    using snoc d(1) by (simp add: link_of_def link_put_def)
  moreover have "tags_ok ?w (add_mset q (add_mset m H))"
    using tags_ok_relink [OF assms(1) d(1) assms(3) y] d(2) by simp
  moreover have "chain ?w m (us @ zs) None"
    using keep [OF d(3) yv] keep [OF assms(3) y] snoc by (auto simp: chain_append)
  moreover have "same_nodes (- set us) w ?w"
    using snoc by simp
  ultimately show ?thesis
    using d(1) by (auto simp: node_value_def)
qed

section \<open>Copying a shared node\<close>

lemma res_map_bind: "res_map f (res_bind r g) = res_bind r (\<lambda>x. res_map f (g x))"
  by (cases r) simp_all

lemma res_map_map: "res_map f (res_map g r) = res_map (f \<circ> g) r"
  by (cases r) simp_all

text \<open>What the copy of a node and the writer of \<open>Replace\<close> have in common.\<close>

definition cow_insert :: "nat \<Rightarrow> tag_node \<Rightarrow> tag_link \<Rightarrow> tag_state \<Rightarrow> (nat \<times> tag_state) result" where
  "cow_insert c e l = (\<lambda>(m, w).
     res_bind (tw_count (\<lambda>n. n - 1) c w) (\<lambda>w.
     res_bind (tw_share (tn_next e) ((tw_put (tw_next w) e w)\<lparr>tw_next := Suc (tw_next w)\<rparr>)) (\<lambda>w'.
       res_map (Pair (tw_next w)) (link_put l (Some (tw_next w)) (m, w')))))"

lemma cow_copy_node_insert:
  assumes "node_ok d" and "tn_next d = Some b"
  shows "cow_copy_node c d l s = cow_insert c (d\<lparr>tn_count := 1\<rparr>) l s"
proof -
  have "tw_count (\<lambda>c. c - 1) c w = Inr w1 \<Longrightarrow> tw_next w1 = tw_next w" for w w1
    by (auto simp: tw_count_def deref_eq_Inr)
  then show ?thesis
    using assms by (cases "tw_count (\<lambda>c. c - 1) c (snd s)"; cases s; cases d)
      (simp_all add: cow_copy_node_def cow_insert_def create_tag_data_def node_ok_def tw_share_def Let_def)
qed

lemma replace_writer_insert:
  assumes "tag_fits t" and "tw_node w c = Some d"
  shows "replace_writer t False c l (m, w) = res_map (\<lambda>(_, s). (None, s))
    (cow_insert c \<lparr>tn_next = tn_next d, tn_count = 1, tn_tid = tag_tid t, tn_size = tag_size t, tn_data = tag_bytes t\<rparr> l (m, w))"
proof -
  obtain w1 where w1: "tw_count (\<lambda>c. c - 1) c w = Inr w1"
    using assms(2) by (simp add: tw_count_def)
  have "(\<lambda>x. Pair None x) = (\<lambda>(_ :: nat, s). (None, s)) \<circ> Pair (tw_next w1)"
    by auto
  then show ?thesis
    using assms w1
    by (simp add: replace_writer_def cow_insert_def create_tag_data_def node_serialize_ok tag_fits_def Let_def
        res_map_bind res_map_map o_def)
qed

text \<open>The same result in another order of the steps: first the link to the next node, then the new node, then the link to
  it, and the link to the old one less.\<close>

lemma cow_insert_run:
  assumes "tw_node w c = Some d" and "tw_node w (tw_next w) = None" and "tn_next e = tn_next d"
    and "tw_share (tn_next d) w = Inr w1"
    and "link_put (link_of us) (Some (tw_next w)) (m, (tw_put (tw_next w) e w1)\<lparr>tw_next := Suc (tw_next w)\<rparr>) = Inr (m', w3)"
    and "c \<notin> set us" and "tn_next d \<noteq> Some c" and "tn_next d \<noteq> Some (tw_next w)"
  shows "cow_insert c e (link_of us) (m, w) =
    Inr (tw_next w, m', tw_put c (d\<lparr>tn_count := tn_count d - 1\<rparr>) w3)" and "tw_node w3 c = Some d"
proof -
  let ?b = "tw_next w" and ?d = "d\<lparr>tn_count := tn_count d - 1\<rparr>"
  have cb: "c \<noteq> ?b"
    using assms(1,2) by auto
  have put: "tw_put c ?d ((tw_put ?b e x)\<lparr>tw_next := k\<rparr>) = (tw_put ?b e (tw_put c ?d x))\<lparr>tw_next := k\<rparr>" for x k
    using cb by (simp add: tw_put_def fun_upd_twist)
  have share: "tw_share (tn_next e) ((tw_put ?b e (tw_put c ?d w))\<lparr>tw_next := Suc ?b\<rparr>) =
      Inr ((tw_put ?b e (tw_put c ?d w1))\<lparr>tw_next := Suc ?b\<rparr>)" and c1: "tw_node w1 c = Some d"
  proof -
    show "tw_share (tn_next e) ((tw_put ?b e (tw_put c ?d w))\<lparr>tw_next := Suc ?b\<rparr>) =
        Inr ((tw_put ?b e (tw_put c ?d w1))\<lparr>tw_next := Suc ?b\<rparr>)"
      using assms(3,4,7,8) cb
      by (cases "tn_next d") (auto simp: tw_share_def tw_count_def tw_put_def deref_eq_Inr fun_upd_twist)
    show "tw_node w1 c = Some d"
      using assms(1,4,7) by (cases "tn_next d") (auto simp: tw_share_def tw_count_def deref_eq_Inr)
  qed
  have link: "link_put (link_of us) (Some ?b) (m, tw_put c ?d x) = Inr (m', tw_put c ?d x') \<and> tw_node x' c = tw_node x c"
    if "link_put (link_of us) (Some ?b) (m, x) = Inr (m', x')" for x x'
  proof (cases us rule: rev_cases)
    case Nil
    then show ?thesis
      using that by (simp add: link_of_def link_put_def)
  next
    case (snoc vs y)
    moreover from this have "y \<noteq> c"
      using assms(6) by auto
    ultimately show ?thesis
      using that by (auto simp: link_of_def link_put_def tw_put_def deref_eq_Inr fun_upd_twist)
  qed
  show "tw_node w3 c = Some d"
    using link [OF assms(5)] c1 cb by simp
  show "cow_insert c e (link_of us) (m, w) = Inr (?b, m', tw_put c ?d w3)"
    using assms(1) share link [OF assms(5)] put by (simp add: cow_insert_def tw_count_def)
qed

lemma cow_insert_ok:
  assumes "tags_ok w (add_mset m H)" and "chain w m (us @ c # zs) None" and "own_nodes w us"
    and "tw_node w c = Some d" and "tn_count d > 1" and "node_ok e" and "tn_count e = 1" and "tn_next e = tn_next d"
    and "tags_room w (add_mset m H)"
  shows "\<exists>b m' w'. cow_insert c e (link_of us) (m, w) = Inr (b, m', w') \<and> tags_ok w' (add_mset m' H) \<and>
    chain w' m' (us @ b # zs) None \<and> own_nodes w' (us @ [b]) \<and> tags_keep H w w' \<and>
    values_at w' (us @ b # zs) = values_at w us @ node_value e # values_at w zs \<and>
    (\<forall>z. tn_next d = Some z \<longrightarrow> tn_count (node_at w' z) > 1) \<and> dom (tw_node w') = insert b (dom (tw_node w)) \<and>
    tw_node w b = None"
proof -
  let ?b = "tw_next w"
  have zs: "chain w (tn_next d) zs None" and us: "chain w m us (Some c)"
    using assms(2,4) by (auto simp: chain_append)
  have dist: "distinct (us @ c # zs)"
    by (rule chain_distinct [OF assms(2)])
  have fresh: "tw_node w ?b = None"
    using tags_ok_fresh [OF assms(1)] by simp
  then have b: "?b \<notin> set (us @ c # zs)"
    using chain_in [OF assms(2), of ?b] by auto
  obtain w1 where w1: "tw_share (tn_next d) w = Inr w1" "tags_ok w1 (add_mset (tn_next d) (add_mset m H))"
    "same_nodes UNIV w w1" "dom (tw_node w1) = dom (tw_node w)" "tw_next w1 = ?b"
    using tw_share_ok [OF assms(1) zs assms(9), of UNIV] by blast
  let ?w2 = "(tw_put ?b e w1)\<lparr>tw_next := Suc ?b\<rparr>"
  have ok2: "tags_ok ?w2 (add_mset (Some ?b) (add_mset m H))"
    using tags_ok_alloc [OF w1(2) assms(6,7,8)] w1(5) by simp
  have same2: "same_nodes (- {?b}) w ?w2"
    using same_nodes_trans [OF same_nodes_mono [OF w1(3)] same_nodes_put [of ?b "- {?b}" w1 e]] by (simp add: same_nodes_def)
  have us2: "chain ?w2 m us (Some c)" and zs2: "chain ?w2 (Some ?b) (?b # zs) None"
    using same_nodes_chain [OF us same_nodes_mono [OF same2, of "set us"]]
      same_nodes_chain [OF zs same_nodes_mono [OF same2, of "set zs"]] b assms(8) by auto
  have "set us \<inter> set (?b # zs) = {}"
    using dist b by auto
  from link_put_ok [OF ok2 us2 zs2 this] obtain m' w3 where
    w3: "link_put (link_of us) (Some ?b) (m, ?w2) = Inr (m', w3)" "tags_ok w3 (add_mset (Some c) (add_mset m' H))"
    "chain w3 m' (us @ ?b # zs) None" "same_nodes (- set us) ?w2 w3"
    "\<And>a. node_value (node_at w3 a) = node_value (node_at ?w2 a) \<and> tn_count (node_at w3 a) = tn_count (node_at ?w2 a)"
    "dom (tw_node w3) = dom (tw_node ?w2)"
    by blast
  have nx: "tn_next d \<noteq> Some c" "tn_next d \<noteq> Some ?b" "c \<notin> set us"
    using zs dist b by (cases zs; auto)+
  note run = cow_insert_run [OF assms(4) fresh assms(8) w1(1) w3(1) nx(3,1,2)]
  let ?w = "tw_put c (d\<lparr>tn_count := tn_count d - 1\<rparr>) w3"
  have ok: "tags_ok ?w (add_mset m' H)"
    by (rule tags_ok_drop [OF w3(2) run(2) assms(5)])
  have core: "same_nodes UNIV w3 ?w"
    using run(2) by (intro same_nodes_core) (auto simp: node_core_def)
  have ch: "chain ?w m' (us @ ?b # zs) None"
    using same_nodes_chain [OF w3(3) same_nodes_mono [OF core]] by simp
  have "set us \<inter> reached w H = {}"
    by (rule own_not_reached [OF assms(1-3)])
  moreover have "?b \<notin> reached w H"
    by (rule fresh_not_reached [OF assms(1)])
  ultimately have "same_nodes (reached w H) w ?w"
    using same_nodes_mono [OF same2, of "reached w H"] same_nodes_mono [OF w3(4), of "reached w H"]
      same_nodes_mono [OF core, of "reached w H"] same_nodes_trans by blast
  then have keep: "tags_keep H w ?w"
    by (rule tags_keep_same)
  have vals: "values_at ?w (us @ ?b # zs) = values_at w us @ node_value e # values_at w zs"
  proof -
    have "values_at ?w (us @ ?b # zs) = values_at w3 (us @ ?b # zs)"
      by (rule same_nodes_values [OF w3(3) same_nodes_mono [OF core]]) simp
    also have "\<dots> = values_at ?w2 (us @ ?b # zs)"
      by (rule values_at_cong) (use w3(5) in blast)
    also have "\<dots> = values_at w us @ node_value e # values_at w zs"
      using same_nodes_values [OF us same_nodes_mono [OF same2, of "set us"]]
        same_nodes_values [OF zs same_nodes_mono [OF same2, of "set zs"]] b by auto
    finally show ?thesis .
  qed
  have count: "tn_count (node_at ?w a) = tn_count (node_at w1 a)" if "a \<noteq> c" "a \<noteq> ?b" for a
    using that w3(5) [of a] by simp
  have count1: "tn_count (node_at w1 a) = tn_count (node_at w a)" if "tn_next d \<noteq> Some a" for a
    using w1(1) that by (cases "tn_next d") (auto simp: tw_share_def tw_count_def deref_eq_Inr)
  have own: "own_nodes ?w (us @ [?b])"
  proof -
    have "tn_count (node_at ?w a) = 1" if "a \<in> set us" for a
    proof -
      have "tn_next d \<noteq> Some a"
        using zs dist that by (cases zs) auto
      then show ?thesis
        using that assms(3) count [of a] count1 [of a] nx(3) b by (auto simp: own_nodes_def)
    qed
    moreover have "tn_count (node_at ?w ?b) = 1"
      using w3(5) [of ?b] assms(7) b by auto
    ultimately show ?thesis
      by (simp add: own_nodes_def)
  qed
  have next_shared: "tn_count (node_at ?w z) > 1" if z: "tn_next d = Some z" for z
  proof -
    obtain f where f: "tw_node w1 z = Some f"
      using tags_ok_owned [OF w1(2) [unfolded z], of z] by auto
    obtain d1 where d1: "tw_node w1 c = Some d1" "tn_next d1 = Some z"
      using same_nodes_get [OF w1(3) UNIV_I assms(4)] core_parts z by metis
    have "unat (tn_count f) = links w1 (add_mset (Some z) (add_mset m H)) (Some z)"
      using tags_ok_node [OF w1(2) f] z by simp
    moreover have "links w1 (add_mset (Some z) (add_mset m H)) (Some z) \<ge> 2"
      using preds_one [OF w1(2) d1] by (simp add: links_def)
    ultimately have "tn_count f > 1"
      by (simp add: word_less_nat_alt)
    then show ?thesis
      using count [of z] f nx z by auto
  qed
  have "dom (tw_node ?w) = insert ?b (dom (tw_node w))"
    using run(2) w1(4) w3(6) by auto
  then show ?thesis
    using run(1) ok ch own keep vals next_shared fresh by blast
qed

end
