(* ===== verification/Packet_Tags_Cow.thy ===== *)
theory Packet_Tags_Cow
  imports Packet_Tags_Ops
begin

text \<open>
  Removing and replacing a tag (\<open>PacketTagList::COWTraverse\<close> with its two writers): the nodes before the tag that
  are shared are copied, so that no other list changes.
\<close>

section \<open>The way to the tag\<close>

lemma cow_search_ok:
  "chain w cur zs None \<Longrightarrow> length zs < n \<Longrightarrow>
   \<exists>us ys. zs = us @ ys \<and> (\<forall>u \<in> set us. \<not> tn_count (node_at w u) > 1 \<and> tn_tid (node_at w u) \<noteq> tid) \<and>
     (ys \<noteq> [] \<longrightarrow> tn_count (node_at w (hd ys)) > 1 \<or> tn_tid (node_at w (hd ys)) = tid) \<and>
     cow_search n tid l cur w =
       Inr (if us = [] then l else To_next (last us), if ys = [] then None else Some (hd ys),
            ys \<noteq> [] \<and> \<not> tn_count (node_at w (hd ys)) > 1)"
proof (induction n arbitrary: cur zs l)
  case (Suc n)
  show ?case
  proof (cases zs)
    case Nil
    then show ?thesis
      using Suc.prems by (intro exI [of _ "[]"]) simp
  next
    case (Cons a zs')
    then obtain d where d: "cur = Some a" "tw_node w a = Some d" "chain w (tn_next d) zs' None"
      using Suc.prems by auto
    show ?thesis
    proof (cases "tn_count d > 1 \<or> tn_tid d = tid")
      case True
      then show ?thesis
        using d Cons by (intro exI [of _ "[]"] exI [of _ zs]) auto
    next
      case False
      obtain us ys where u: "zs' = us @ ys" "\<forall>u \<in> set us. \<not> tn_count (node_at w u) > 1 \<and> tn_tid (node_at w u) \<noteq> tid"
        "ys \<noteq> [] \<longrightarrow> tn_count (node_at w (hd ys)) > 1 \<or> tn_tid (node_at w (hd ys)) = tid"
        "cow_search n tid (To_next a) (tn_next d) w =
          Inr (if us = [] then To_next a else To_next (last us), if ys = [] then None else Some (hd ys),
            ys \<noteq> [] \<and> \<not> tn_count (node_at w (hd ys)) > 1)"
        using Suc.IH [OF d(3), of "To_next a"] Suc.prems(2) Cons by auto
      have "cow_search (Suc n) tid l cur w = cow_search n tid (To_next a) (tn_next d) w"
        using d False by simp
      then show ?thesis
        using Cons d(2) False u by (intro exI [of _ "a # us"] exI [of _ ys]) auto
    qed
  qed
qed simp

lemma values_at_length [simp]: "length (values_at w xs) = length xs"
  by (simp add: values_at_def)

lemma values_split:
  "values_at w' us @ v # values_at w' zs = values_at w us @ v' # values_at w zs \<longleftrightarrow>
   values_at w' us = values_at w us \<and> v = v' \<and> values_at w' zs = values_at w zs"
  by simp

lemma value_parts: "node_value d' = node_value d \<longleftrightarrow> tn_tid d' = tn_tid d \<and> tn_data d' = tn_data d"
  by (simp add: node_value_def)

lemma cow_copy_ok:
  assumes "tags_ok w (add_mset m H)" and "chain w m (us @ cs @ t # zs) None" and "own_nodes w us"
    and "\<forall>c \<in> set cs. tn_tid (node_at w c) \<noteq> tid" and "tn_tid (node_at w t) = tid"
    and "tn_count (node_at w (hd (cs @ [t]))) > 1" and "length cs < n"
    and "size H + 1 + card (dom (tw_node w)) + length cs < 2 ^ 32 - 1"
  shows "\<exists>us' m' w'. cow_copy n tid (link_of us) (Some (hd (cs @ [t]))) (m, w) = Inr (link_of us', Some t, m', w') \<and>
    tags_ok w' (add_mset m' H) \<and> chain w' m' (us' @ t # zs) None \<and> own_nodes w' us' \<and> tags_keep H w w' \<and>
    values_at w' us' = values_at w (us @ cs) \<and> values_at w' (t # zs) = values_at w (t # zs) \<and>
    tn_count (node_at w' t) > 1 \<and> card (dom (tw_node w')) = card (dom (tw_node w)) + length cs"
  using assms
proof (induction cs arbitrary: n us m w)
  case Nil
  moreover from this obtain d where "tw_node w t = Some d"
    using chain_in by fastforce
  ultimately show ?case
    by (cases n) (auto intro!: exI [of _ us])
next
  case (Cons c cs)
  obtain k where n: "n = Suc k"
    using Cons.prems(7) by (cases n) auto
  have ch: "chain w m (us @ c # (cs @ t # zs)) None"
    using Cons.prems(2) by simp
  then obtain d where d: "tw_node w c = Some d" "chain w (tn_next d) (cs @ t # zs) None"
    by (auto simp: chain_append)
  then have nx: "tn_next d = Some (hd (cs @ [t]))"
    by (cases cs) auto
  have shared: "tn_count d > 1"
    using Cons.prems(6) d(1) by simp
  have ok: "node_ok d"
    using tags_ok_node [OF Cons.prems(1) d(1)] by blast
  have room: "tags_room w (add_mset m H)"
    using Cons.prems(8) by (simp add: tags_room_def)
  obtain b m1 w1 where s: "cow_insert c (d\<lparr>tn_count := 1\<rparr>) (link_of us) (m, w) = Inr (b, m1, w1)"
    "tags_ok w1 (add_mset m1 H)" "chain w1 m1 (us @ b # (cs @ t # zs)) None" "own_nodes w1 (us @ [b])" "tags_keep H w w1"
    "values_at w1 (us @ b # (cs @ t # zs)) = values_at w us @ node_value (d\<lparr>tn_count := 1\<rparr>) # values_at w (cs @ t # zs)"
    "\<forall>z. tn_next d = Some z \<longrightarrow> tn_count (node_at w1 z) > 1" "dom (tw_node w1) = insert b (dom (tw_node w))" "tw_node w b = None"
    using cow_insert_ok [OF Cons.prems(1) ch Cons.prems(3) d(1) shared, of "d\<lparr>tn_count := 1\<rparr>"] ok room
    by (auto simp: node_ok_def)
  have v: "values_at w1 (us @ [b]) = values_at w (us @ [c])" "values_at w1 cs = values_at w cs"
    "values_at w1 (t # zs) = values_at w (t # zs)"
    using s(6) d(1) by (simp_all add: node_value_def)
  have tids: "\<forall>x \<in> set cs. tn_tid (node_at w1 x) \<noteq> tid" "tn_tid (node_at w1 t) = tid"
    using v(2,3) Cons.prems(4,5) by (auto simp: values_at_def value_parts)
  have card: "card (dom (tw_node w1)) = card (dom (tw_node w)) + 1"
    using s(8,9) tags_ok_finite [OF Cons.prems(1)] by (simp add: domIff)
  obtain us' m' w' where r: "cow_copy k tid (link_of (us @ [b])) (Some (hd (cs @ [t]))) (m1, w1) = Inr (link_of us', Some t, m', w')"
    "tags_ok w' (add_mset m' H)" "chain w' m' (us' @ t # zs) None" "own_nodes w' us'" "tags_keep H w1 w'"
    "values_at w' us' = values_at w1 ((us @ [b]) @ cs)" "values_at w' (t # zs) = values_at w1 (t # zs)"
    "tn_count (node_at w' t) > 1" "card (dom (tw_node w')) = card (dom (tw_node w1)) + length cs"
    using Cons.IH [OF s(2) _ s(4) tids, of k] s(3,7) nx n Cons.prems(7,8) card by auto
  have "cow_copy n tid (link_of us) (Some c) (m, w) = cow_copy k tid (link_of (us @ [b])) (Some (hd (cs @ [t]))) (m1, w1)"
    using n d(1) Cons.prems(4) shared s(1) nx by (simp add: cow_copy_node_insert [OF ok nx] link_of_def)
  then show ?case
    using r card v tags_keep_trans [OF s(5) r(5)] by (intro exI [of _ us'] exI [of _ m'] exI [of _ w']) simp
qed

text \<open>The state in which the writer is called: \<open>t\<close> is the first node with the type, and the list before it is its own.\<close>

definition at_tag :: "nat option multiset \<Rightarrow> 16 word \<Rightarrow> (16 word \<times> bytes) list \<Rightarrow> nat list \<Rightarrow> nat \<Rightarrow> nat list \<Rightarrow>
    nat option \<Rightarrow> tag_world \<Rightarrow> bool" where
  "at_tag H tid vs us t zs m w \<longleftrightarrow> tags_ok w (add_mset m H) \<and> chain w m (us @ t # zs) None \<and> own_nodes w us \<and>
     values_at w (us @ t # zs) = vs \<and> tid \<notin> fst ` set (values_at w us) \<and> tn_tid (node_at w t) = tid"

lemma not_shared: "tags_ok w H \<Longrightarrow> tw_node w a = Some d \<Longrightarrow> \<not> tn_count d > 1 \<Longrightarrow> tn_count d = 1"
  using tags_ok_node [of w H a d] by (simp add: word_less_nat_alt word_unat_eq_iff)

text \<open>No node up to the first one with the type has another link: the tag can be changed in place.\<close>

fun own_until :: "tag_world \<Rightarrow> 16 word \<Rightarrow> nat list \<Rightarrow> bool" where
  "own_until w tid [] \<longleftrightarrow> True"
| "own_until w tid (a # xs) \<longleftrightarrow> tn_count (node_at w a) = 1 \<and> (tn_tid (node_at w a) = tid \<or> own_until w tid xs)"

lemma own_until_append:
  "own_nodes w us \<Longrightarrow> tid \<notin> fst ` set (values_at w us) \<Longrightarrow> own_until w tid (us @ ys) \<longleftrightarrow> own_until w tid ys"
  by (induction us) (auto simp: own_nodes_def values_at_def node_value_def)

lemma cow_traverse_cases:
  assumes "tags_ok w (add_mset m H)" and "chain w m xs None" and "tid \<in> fst ` set (values_at w xs)"
    and "size H + 1 + card (dom (tw_node w)) + length xs < 2 ^ 32 - 1"
  shows "\<exists>us t zs m1 w1. at_tag H tid (values_at w xs) us t zs m1 w1 \<and> tags_keep H w w1 \<and>
    card (dom (tw_node w1)) \<le> card (dom (tw_node w)) + length us \<and>
    cow_traverse tid Writer (m, w) =
      res_map (Pair True) (Writer (\<not> tn_count (node_at w1 t) > 1) t (link_of us) (m1, w1)) \<and>
    (tn_count (node_at w1 t) > 1 \<longleftrightarrow> \<not> own_until w tid xs) \<and> (own_until w tid xs \<longrightarrow> m1 = m \<and> w1 = w)"
proof -
  note fuel = chain_fuel [OF assms(1,2)]
  from cow_search_ok [OF assms(2) fuel, of tid To_head] obtain us ys where u: "xs = us @ ys"
    "\<forall>u \<in> set us. \<not> tn_count (node_at w u) > 1 \<and> tn_tid (node_at w u) \<noteq> tid"
    "ys \<noteq> [] \<longrightarrow> tn_count (node_at w (hd ys)) > 1 \<or> tn_tid (node_at w (hd ys)) = tid"
    "cow_search (tw_fuel w) tid To_head m w =
      Inr (link_of us, if ys = [] then None else Some (hd ys), ys \<noteq> [] \<and> \<not> tn_count (node_at w (hd ys)) > 1)"
    by (auto simp: link_of_def)
  have own: "own_nodes w us"
    unfolding own_nodes_def
  proof
    fix a assume "a \<in> set us"
    moreover from this obtain d where "tw_node w a = Some d"
      using chain_in [OF assms(2)] u(1) by auto
    ultimately show "tn_count (node_at w a) = 1"
      using u(2) not_shared [OF assms(1)] by fastforce
  qed
  have us: "tid \<notin> fst ` set (values_at w us)"
    using u(2) by (auto simp: values_at_def node_value_def)
  then have "tid \<in> fst ` set (values_at w ys)"
    using assms(3) u(1) by auto
  then have "\<exists>a \<in> set ys. tn_tid (node_at w a) = tid"
    by (auto simp: values_at_def node_value_def)
  from split_list_first_prop [OF this]
  obtain cs t zs where y: "ys = cs @ t # zs" "tn_tid (node_at w t) = tid" "\<forall>c \<in> set cs. tn_tid (node_at w c) \<noteq> tid"
    by blast
  have m: "m \<noteq> None" and hd: "hd ys = hd (cs @ [t])" "ys \<noteq> []"
    using assms(2) u(1) y(1) by (cases m; auto simp: hd_append)+
  have ch: "chain w m (us @ cs @ t # zs) None"
    using assms(2) u(1) y(1) by simp
  show ?thesis
  proof (cases "tn_count (node_at w (hd ys)) > 1")
    case False
    then have "cs = []"
      using u(3) y(3) hd by (cases cs) auto
    then have "at_tag H tid (values_at w xs) us t zs m w"
      using assms(1) ch own us u(1) y(1,2) by (simp add: at_tag_def)
    moreover have "cow_traverse tid Writer (m, w) = res_map (Pair True) (Writer True t (link_of us) (m, w))"
      using m u(4) False hd \<open>cs = []\<close> by (auto simp: cow_traverse_def)
    moreover have "own_until w tid xs"
    proof -
      obtain d where "tw_node w t = Some d"
        using chain_in [OF ch] by fastforce
      then have "tn_count (node_at w t) = 1"
        using not_shared [OF assms(1)] False hd \<open>cs = []\<close> by simp
      then show ?thesis
        using own_until_append [OF own us] u(1) y(1,2) \<open>cs = []\<close> by simp
    qed
    ultimately show ?thesis
      using False hd \<open>cs = []\<close> by (intro exI [of _ us] exI [of _ t] exI [of _ zs] exI [of _ m] exI [of _ w]) simp
  next
    case True
    have yc: "chain w (Some (hd ys)) ys None" and len: "length ys < tw_fuel w"
      using assms(2) u(1) hd(2) fuel by (cases ys; auto simp: chain_append)+
    have f: "find_node (tw_fuel w) tid (Some (hd ys)) w \<noteq> Inr None"
      "\<exists>r. find_node (tw_fuel w) tid (Some (hd ys)) w = Inr r"
      using find_node_ok [OF yc len, of tid] find_tid_none [of w tid ys] \<open>tid \<in> fst ` set (values_at w ys)\<close> by auto
    have "length cs < tw_fuel w" "size H + 1 + card (dom (tw_node w)) + length cs < 2 ^ 32 - 1"
      using len y(1) assms(4) u(1) by auto
    from cow_copy_ok [OF assms(1) ch own y(3,2) _ this] True hd(1) obtain us' m1 w1 where
      r: "cow_copy (tw_fuel w) tid (link_of us) (Some (hd ys)) (m, w) = Inr (link_of us', Some t, m1, w1)"
      "tags_ok w1 (add_mset m1 H)" "chain w1 m1 (us' @ t # zs) None" "own_nodes w1 us'" "tags_keep H w w1"
      "values_at w1 us' = values_at w (us @ cs)" "values_at w1 (t # zs) = values_at w (t # zs)"
      "tn_count (node_at w1 t) > 1" "card (dom (tw_node w1)) = card (dom (tw_node w)) + length cs"
      by auto
    have t: "tn_tid (node_at w1 t) = tid"
      using r(7) y(2) by (simp add: value_parts)
    have "tid \<notin> fst ` set (values_at w1 us')"
      using us y(3) unfolding r(6) by (auto simp: values_at_def node_value_def)
    then have "at_tag H tid (values_at w xs) us' t zs m1 w1"
      using r(2-4,6,7) t u(1) y(1) by (simp add: at_tag_def)
    moreover have "cow_traverse tid Writer (m, w) = res_map (Pair True) (Writer False t (link_of us') (m1, w1))"
    proof -
      obtain d where d: "tw_node w (hd ys) = Some d"
        using yc hd(2) by (cases ys) auto
      obtain e where e: "tw_node w1 t = Some e"
        using chain_in [OF r(3)] by fastforce
      show ?thesis
        using m u(4) True hd(2) f r(1,8) d e t by (auto simp: cow_traverse_def)
    qed
    moreover have "length cs \<le> length us'"
      using arg_cong [OF r(6), of length] by simp
    moreover have "\<not> own_until w tid xs"
      using own_until_append [OF own us, of ys] u(1) True hd(2) by (cases ys) auto
    ultimately show ?thesis
      using r(5,8,9) by (intro exI [of _ us'] exI [of _ t] exI [of _ zs] exI [of _ m1] exI [of _ w1]) simp
  qed
qed

lemma cow_traverse_ok:
  assumes "tags_ok w (add_mset m H)" and "chain w m xs None" and "tid \<in> fst ` set (values_at w xs)"
    and "size H + 1 + card (dom (tw_node w)) + length xs < 2 ^ 32 - 1"
  shows "\<exists>us t zs m1 w1. at_tag H tid (values_at w xs) us t zs m1 w1 \<and> tags_keep H w w1 \<and>
    card (dom (tw_node w1)) \<le> card (dom (tw_node w)) + length us \<and>
    cow_traverse tid Writer (m, w) =
      res_map (Pair True) (Writer (\<not> tn_count (node_at w1 t) > 1) t (link_of us) (m1, w1))"
  using cow_traverse_cases [OF assms, of Writer] by blast

lemma cow_traverse_absent:
  assumes "tags_ok w (add_mset m H)" and "chain w m xs None" and "tid \<notin> fst ` set (values_at w xs)"
  shows "cow_traverse tid Writer (m, w) = Inr (False, None, m, w)"
proof -
  note fuel = chain_fuel [OF assms(1,2)]
  from cow_search_ok [OF assms(2) fuel, of tid To_head] obtain us ys where u: "xs = us @ ys"
    "ys \<noteq> [] \<longrightarrow> tn_count (node_at w (hd ys)) > 1 \<or> tn_tid (node_at w (hd ys)) = tid"
    "cow_search (tw_fuel w) tid To_head m w =
      Inr (link_of us, if ys = [] then None else Some (hd ys), ys \<noteq> [] \<and> \<not> tn_count (node_at w (hd ys)) > 1)"
    by (auto simp: link_of_def)
  show ?thesis
  proof (cases "ys = []")
    case True
    then show ?thesis
      using u(3) by (simp add: cow_traverse_def)
  next
    case False
    then have yc: "chain w (Some (hd ys)) ys None" and len: "length ys < tw_fuel w"
      using assms(2) u(1) fuel by (cases ys; auto simp: chain_append)+
    have ab: "tid \<notin> fst ` set (values_at w ys)"
      using assms(3) u(1) by auto
    then have "tn_tid (node_at w (hd ys)) \<noteq> tid"
      using False by (cases ys) (auto simp: node_value_def)
    then show ?thesis
      using u(2,3) False find_node_ok [OF yc len, of tid] find_tid_none [of w tid ys] ab by (simp add: cow_traverse_def)
  qed
qed

section \<open>Removing\<close>

fun without_tag :: "16 word \<Rightarrow> (16 word \<times> bytes) list \<Rightarrow> (16 word \<times> bytes) list" where
  "without_tag tid [] = []"
| "without_tag tid (v # vs) = (if fst v = tid then vs else v # without_tag tid vs)"

fun with_tag :: "16 word \<Rightarrow> bytes \<Rightarrow> (16 word \<times> bytes) list \<Rightarrow> (16 word \<times> bytes) list" where
  "with_tag tid bs [] = []"
| "with_tag tid bs (v # vs) = (if fst v = tid then (tid, bs) # vs else v # with_tag tid bs vs)"

lemma first_tag:
  assumes "tid \<notin> fst ` set us" and "fst v = tid"
  shows "without_tag tid (us @ v # zs) = us @ zs" and "with_tag tid bs (us @ v # zs) = us @ (tid, bs) # zs"
    and "map_of (us @ v # zs) tid = Some (snd v)"
  using assms by (induction us) auto

lemma absent_tag: "tid \<notin> fst ` set vs \<Longrightarrow> without_tag tid vs = vs \<and> with_tag tid bs vs = vs \<and> map_of vs tid = None"
  by (induction vs) auto

lemma at_tag_values:
  assumes "at_tag H tid vs us t zs m w"
  shows "without_tag tid vs = values_at w (us @ zs)" and "with_tag tid bs vs = values_at w us @ (tid, bs) # values_at w zs"
    and "map_of vs tid = Some (tn_data (node_at w t))"
proof -
  have vs: "vs = values_at w us @ node_value (node_at w t) # values_at w zs" and "tid \<notin> fst ` set (values_at w us)"
    and v: "fst (node_value (node_at w t)) = tid" "snd (node_value (node_at w t)) = tn_data (node_at w t)"
    using assms by (auto simp: at_tag_def node_value_def)
  from first_tag [OF this(2) v(1)] v(2)
  show "without_tag tid vs = values_at w (us @ zs)" and "with_tag tid bs vs = values_at w us @ (tid, bs) # values_at w zs"
    and "map_of vs tid = Some (tn_data (node_at w t))"
    unfolding vs by simp_all
qed

text \<open>The effect of an operation on the list at \<open>m\<close>, which becomes the list of \<open>vs'\<close> at \<open>m'\<close>.\<close>

definition list_becomes :: "nat option multiset \<Rightarrow> tag_world \<Rightarrow> (16 word \<times> bytes) list \<Rightarrow> tag_state \<Rightarrow> bool" where
  "list_becomes H w vs' s \<longleftrightarrow> (case s of (m', w') \<Rightarrow> tags_ok w' (add_mset m' H) \<and> tags_keep H w w' \<and> holds w' m' vs')"

lemma remove_shared:
  assumes "at_tag H tid vs us t zs m w" and "tn_count (node_at w t) > 1" and "tags_room w (add_mset m H)"
  shows "\<exists>s. remove_writer False t (link_of us) (m, w) = Inr (map_of vs tid, s) \<and> list_becomes H w (without_tag tid vs) s"
proof -
  note a = assms(1) [unfolded at_tag_def]
  have ok: "tags_ok w (add_mset m H)" and ch: "chain w m (us @ t # zs) None" and own: "own_nodes w us"
    using a by auto
  obtain d where d: "tw_node w t = Some d"
    using chain_in [OF ch] by fastforce
  have zs: "chain w (tn_next d) zs None" and us: "chain w m us (Some t)"
    using ch d by (auto simp: chain_append)
  have dist: "distinct (us @ t # zs)"
    by (rule chain_distinct [OF ch])
  obtain w1 where w1: "tw_share (tn_next d) w = Inr w1" "tags_ok w1 (add_mset (tn_next d) (add_mset m H))"
    "same_nodes UNIV w w1"
    using tw_share_ok [OF ok zs assms(3), of UNIV] by blast
  have us1: "chain w1 m us (Some t)" and zs1: "chain w1 (tn_next d) zs None"
    using same_nodes_chain [OF us same_nodes_mono [OF w1(3)]] same_nodes_chain [OF zs same_nodes_mono [OF w1(3)]] by auto
  from link_put_ok [OF w1(2) us1 zs1] dist obtain m' w3 where
    w3: "link_put (link_of us) (tn_next d) (m, w1) = Inr (m', w3)" "tags_ok w3 (add_mset (Some t) (add_mset m' H))"
    "chain w3 m' (us @ zs) None" "same_nodes (- set us) w1 w3"
    "\<And>a. node_value (node_at w3 a) = node_value (node_at w1 a)"
    by auto
  have nx: "tn_next d \<noteq> Some t" "t \<notin> set us"
    using zs dist by (cases zs; auto)+
  let ?d = "d\<lparr>tn_count := tn_count d - 1\<rparr>"
  let ?w = "tw_put t ?d w3"
  have c1: "tw_node w1 t = Some d"
    using d w1(1) nx(1) by (cases "tn_next d") (auto simp: tw_share_def tw_count_def deref_eq_Inr)
  obtain p where p: "tn_next d = p"
    by blast
  have run: "tw_node w3 t = Some d \<and>
    (\<exists>wa. link_put (link_of us) (tn_next d) (m, w) = Inr (m', wa) \<and> tw_node wa t = Some d \<and>
       tw_share (tn_next d) (tw_put t ?d wa) = Inr ?w)"
  proof (cases p)
    case None
    then have "w1 = w"
      using w1(1) p by (simp add: tw_share_def)
    then show ?thesis
      using w3(1) d p None nx(2) by (cases us rule: rev_cases)
        (auto simp: link_of_def link_put_def tw_share_def tw_put_def deref_eq_Inr fun_upd_twist)
  next
    case (Some a)
    then obtain f where f: "tw_node w a = Some f" "w1 = tw_put a (f\<lparr>tn_count := tn_count f + 1\<rparr>) w"
      using w1(1) p by (auto simp: tw_share_def tw_count_def deref_eq_Inr)
    have a: "a \<noteq> t" "t \<noteq> a"
      using nx(1) p Some by auto
    show ?thesis
    proof (cases us rule: rev_cases)
      case Nil
      then have "m' = Some a" "w3 = w1"
        using w3(1) p Some by (auto simp: link_of_def link_put_def)
      moreover have "tn_next d = Some a"
        using p Some by simp
      ultimately show ?thesis
        using Nil f d a by (simp add: link_of_def link_put_def tw_share_def tw_count_def) (simp add: tw_put_def fun_upd_twist)
    next
      case (snoc ys y)
      then have y: "y \<noteq> t" "t \<noteq> y" "y \<noteq> a" "a \<noteq> y"
        using nx(2) zs dist p Some by (cases zs; auto)+
      then show ?thesis
        using snoc f w3(1) d p Some a
        by (auto simp: link_of_def link_put_def tw_share_def tw_count_def deref_eq_Inr) (simp add: tw_put_def fun_upd_twist)
    qed
  qed
  have "remove_writer False t (link_of us) (m, w) = Inr (map_of vs tid, m', ?w)"
    using run d at_tag_values(3) [OF assms(1)] by (auto simp: remove_writer_def node_window_def tw_count_def)
  moreover have "tags_ok ?w (add_mset m' H)"
    using tags_ok_drop [OF w3(2)] run assms(2) d by simp
  moreover have core: "same_nodes UNIV w3 ?w"
    using run by (intro same_nodes_core) (auto simp: node_core_def)
  moreover have "tags_keep H w ?w"
  proof (rule tags_keep_same)
    have "set us \<inter> reached w H = {}"
      by (rule own_not_reached [OF ok ch own])
    then show "same_nodes (reached w H) w ?w"
      using same_nodes_mono [OF w1(3), of "reached w H"] same_nodes_mono [OF w3(4), of "reached w H"]
        same_nodes_mono [OF core, of "reached w H"] same_nodes_trans by blast
  qed
  moreover have "holds ?w m' (without_tag tid vs)"
  proof -
    have "values_at w3 (us @ zs) = values_at w1 (us @ zs)"
      by (rule values_at_cong) (use w3(5) in blast)
    also have "\<dots> = values_at w (us @ zs)"
      using same_nodes_values [OF us same_nodes_mono [OF w1(3)]] same_nodes_values [OF zs same_nodes_mono [OF w1(3)]] by simp
    finally show ?thesis
      using holds_same [OF w3(3) same_nodes_mono [OF core]] at_tag_values(1) [OF assms(1)] by simp
  qed
  ultimately show ?thesis
    by (auto simp: list_becomes_def)
qed

lemma remove_unshared:
  assumes "at_tag H tid vs us t zs m w" and "tn_count (node_at w t) = 1"
  shows "\<exists>s. remove_writer True t (link_of us) (m, w) = Inr (map_of vs tid, s) \<and> list_becomes H w (without_tag tid vs) s"
proof -
  note a = assms(1) [unfolded at_tag_def]
  have ok: "tags_ok w (add_mset m H)" and ch: "chain w m (us @ t # zs) None" and own: "own_nodes w us"
    using a by auto
  obtain d where d: "tw_node w t = Some d"
    using chain_in [OF ch] by fastforce
  have zs: "chain w (tn_next d) zs None" and us: "chain w m us (Some t)"
    using ch d by (auto simp: chain_append)
  have dist: "distinct (us @ t # zs)"
    by (rule chain_distinct [OF ch])
  have one: "tn_count d = 1"
    using assms(2) d by simp
  have "own_nodes w (us @ [t])"
    using own assms(2) by (simp add: own_nodes_def)
  then have far: "set (us @ [t]) \<inter> reached w H = {}"
    using own_not_reached [OF ok, of "us @ [t]" zs] ch by simp
  obtain m' wa where wa: "link_put (link_of us) (tn_next d) (m, w) = Inr (m', wa)" "tw_node wa t = Some d"
    "tags_ok (tw_free t wa) (add_mset m' H)" "chain (tw_free t wa) m' (us @ zs) None" "same_nodes (- set us) w wa"
    "values_at (tw_free t wa) (us @ zs) = values_at w (us @ zs)"
  proof (cases us rule: rev_cases)
    case Nil
    then have m: "m = Some t"
      using us by simp
    have "chain (tw_free t w) (tn_next d) zs None"
      by (rule chain_cong [OF zs]) (use dist in auto)
    moreover have "values_at (tw_free t w) zs = values_at w zs"
      by (rule values_at_cong) (use dist in auto)
    ultimately show thesis
      using that [of "tn_next d" w] Nil d tags_ok_free [OF ok [unfolded m] d one] by (simp add: link_of_def link_put_def)
  next
    case (snoc ys y)
    then obtain e where e: "tw_node w y = Some e" "tn_next e = Some t" "chain w m ys (Some y)"
      using us by (auto simp: chain_append)
    have y: "y \<noteq> t" "t \<noteq> y" "y \<notin> set zs" "y \<notin> set ys" "t \<notin> set ys" "t \<notin> set zs"
      using dist snoc by auto
    let ?w1 = "tw_put y (e\<lparr>tn_next := None\<rparr>) w" and ?wa = "tw_put y (e\<lparr>tn_next := tn_next d\<rparr>) w"
    have "tags_ok ?w1 (add_mset (Some t) (add_mset m H))"
      using tags_ok_relink [of w None "add_mset m H" y e "[]"] ok e(1,2) by (simp add: tags_ok_drop_None)
    then have free: "tags_ok (tw_free t ?w1) (add_mset (tn_next d) (add_mset m H))"
      by (rule tags_ok_free) (use d one y in auto)
    have z1: "chain (tw_free t ?w1) (tn_next d) zs None"
      by (rule chain_cong [OF zs]) (use y in auto)
    have eq: "tw_put y ((e\<lparr>tn_next := None\<rparr>)\<lparr>tn_next := tn_next d\<rparr>) (tw_free t ?w1) = tw_free t ?wa"
      using y by (simp add: tw_put_def tw_free_def fun_upd_twist)
    have "tags_ok (tw_put y ((e\<lparr>tn_next := None\<rparr>)\<lparr>tn_next := tn_next d\<rparr>) (tw_free t ?w1)) (add_mset None (add_mset m H))"
      using tags_ok_relink [OF free _ z1 y(3), of "e\<lparr>tn_next := None\<rparr>"] y by simp
    then have "tags_ok (tw_free t ?wa) (add_mset m H)"
      unfolding eq by (simp add: tags_ok_drop_None)
    moreover have "chain (tw_free t ?wa) m ys (Some y)" "chain (tw_free t ?wa) (tn_next d) zs None"
      by (rule chain_cong [OF e(3)], use y in auto) (rule chain_cong [OF zs], use y in auto)
    then have "chain (tw_free t ?wa) m (us @ zs) None"
      using snoc y by (auto simp: chain_append)
    moreover have "values_at (tw_free t ?wa) (us @ zs) = values_at w (us @ zs)"
      by (rule values_at_cong) (use dist e(1) snoc in \<open>auto simp: node_value_def\<close>)
    ultimately show thesis
      using that [of m ?wa] snoc e(1) d y by (simp add: link_of_def link_put_def)
  qed
  have "remove_writer True t (link_of us) (m, w) = Inr (map_of vs tid, m', tw_free t wa)"
    using wa(1) d at_tag_values(3) [OF assms(1)] by (simp add: remove_writer_def node_window_def)
  moreover have "tags_keep H w (tw_free t wa)"
  proof (rule tags_keep_same)
    show "same_nodes (reached w H) w (tw_free t wa)"
      using same_nodes_mono [OF wa(5), of "reached w H"] same_nodes_free [of t "reached w H" wa] far same_nodes_trans by fastforce
  qed
  moreover have "holds (tw_free t wa) m' (without_tag tid vs)"
    unfolding holds_def at_tag_values(1) [OF assms(1)] using wa(4,6) by metis
  ultimately show ?thesis
    using wa(3) by (auto simp: list_becomes_def)
qed

lemma list_becomes_trans:
  "tags_keep H w w1 \<Longrightarrow> list_becomes H w1 vs s \<Longrightarrow> list_becomes H w vs s"
  using tags_keep_trans by (auto simp: list_becomes_def)

lemma tags_remove_ok:
  assumes "tags_ok w (add_mset m H)" and "holds w m vs" and "size H + 2 + card (dom (tw_node w)) + length vs < 2 ^ 32 - 1"
  shows "\<exists>s. tags_remove tid (m, w) = Inr (tid \<in> fst ` set vs, map_of vs tid, s) \<and> list_becomes H w (without_tag tid vs) s"
proof -
  from assms(2) obtain xs where xs: "chain w m xs None" "vs = values_at w xs"
    by (auto simp: holds_def)
  show ?thesis
  proof (cases "tid \<in> fst ` set vs")
    case False
    then show ?thesis
      using cow_traverse_absent [OF assms(1) xs(1), of tid] xs(2) absent_tag [OF False] assms(1,2)
      by (simp add: tags_remove_def list_becomes_def)
  next
    case True
    have "size H + 1 + card (dom (tw_node w)) + length xs < 2 ^ 32 - 1"
      using assms(3) xs(2) by simp
    from cow_traverse_ok [OF assms(1) xs(1) True [unfolded xs(2)] this, of remove_writer]
    obtain us t zs m1 w1 where c: "at_tag H tid vs us t zs m1 w1" "tags_keep H w w1"
      "card (dom (tw_node w1)) \<le> card (dom (tw_node w)) + length us"
      "cow_traverse tid remove_writer (m, w) =
        res_map (Pair True) (remove_writer (\<not> tn_count (node_at w1 t) > 1) t (link_of us) (m1, w1))"
      unfolding xs(2) by blast
    have "length us \<le> length vs"
      using c(1) by (auto simp: at_tag_def)
    then have room: "tags_room w1 (add_mset m1 H)"
      using c(3) assms(3) by (simp add: tags_room_def)
    have "\<exists>s. remove_writer (\<not> tn_count (node_at w1 t) > 1) t (link_of us) (m1, w1) = Inr (map_of vs tid, s) \<and>
        list_becomes H w1 (without_tag tid vs) s"
    proof (cases "tn_count (node_at w1 t) > 1")
      case True
      then show ?thesis
        using remove_shared [OF c(1) True room] by simp
    next
      case False
      have ch: "tags_ok w1 (add_mset m1 H)" "chain w1 m1 (us @ t # zs) None"
        using c(1) by (auto simp: at_tag_def)
      obtain d where "tw_node w1 t = Some d"
        using chain_in [OF ch(2)] by fastforce
      then have "tn_count (node_at w1 t) = 1"
        using not_shared [OF ch(1)] False by simp
      then show ?thesis
        using remove_unshared [OF c(1)] False by simp
    qed
    then show ?thesis
      using c(4) True list_becomes_trans [OF c(2)] by (auto simp: tags_remove_def)
  qed
qed

section \<open>Replacing\<close>

lemma replace_shared:
  assumes "at_tag H (tag_tid t) vs us a zs m w" and "tn_count (node_at w a) > 1" and "tags_room w (add_mset m H)" and "tag_fits t"
  shows "\<exists>s. replace_writer t False a (link_of us) (m, w) = Inr (None, s) \<and>
    list_becomes H w (with_tag (tag_tid t) (tag_bytes t) vs) s"
proof -
  have ok: "tags_ok w (add_mset m H)" and ch: "chain w m (us @ a # zs) None" and own: "own_nodes w us"
    using assms(1) by (auto simp: at_tag_def)
  obtain d where d: "tw_node w a = Some d"
    using chain_in [OF ch] by fastforce
  let ?e = "\<lparr>tn_next = tn_next d, tn_count = 1, tn_tid = tag_tid t, tn_size = tag_size t, tn_data = tag_bytes t\<rparr>"
  have e: "node_ok ?e" "tn_count d > 1"
    using assms(2,4) d by (simp_all add: node_ok_def tag_fits_def tag_ok_def)
  from cow_insert_ok [OF ok ch own d e(2,1) _ _ assms(3)] obtain b m' w' where
    c: "cow_insert a ?e (link_of us) (m, w) = Inr (b, m', w')" "tags_ok w' (add_mset m' H)"
    "chain w' m' (us @ b # zs) None" "tags_keep H w w'"
    "values_at w' (us @ b # zs) = values_at w us @ node_value ?e # values_at w zs"
    by auto
  have "holds w' m' (with_tag (tag_tid t) (tag_bytes t) vs)"
    unfolding holds_def at_tag_values(2) [OF assms(1)] using c(3,5) by (metis node_value_def tag_node.select_convs(3,5))
  then show ?thesis
    using c(1,2,4) by (simp add: replace_writer_insert [OF assms(4) d] list_becomes_def)
qed

text \<open>In place, the end of the old bytes stays when the new ones are fewer.\<close>

lemma node_serialize_keeps_size:
  assumes "length (tn_data d) = unat (tn_size d)"
  shows "node_serialize t d = (if length (tn_data d) < length (tag_bytes t) then Inl Assert_failed
    else Inr (d\<lparr>tn_data := tag_bytes t @ drop (length (tag_bytes t)) (tn_data d)\<rparr>))"
proof -
  let ?b = "\<lparr>tb_current = 0, tb_end = length (tn_data d)\<rparr>"
  have "tb_write (tag_bytes t) (?b, tn_data d) =
      (if length (tn_data d) < length (tag_bytes t) then Inl Assert_failed
       else Inr (?b\<lparr>tb_current := length (tag_bytes t)\<rparr>, tag_bytes t @ drop (length (tag_bytes t)) (tn_data d)))"
    using tb_write_ok [of ?b "tag_bytes t" "tn_data d"] tb_write_past [of ?b "tag_bytes t" "tn_data d"]
    by (auto simp: splice_def not_less)
  then show ?thesis
    using assms by (simp add: node_serialize_def tag_serialize_def node_window_def)
qed

lemma replace_in_place:
  assumes "at_tag H (tag_tid t) vs us a zs m w" and "tn_count (node_at w a) = 1"
    and "length (tag_bytes t) \<le> length (tn_data (node_at w a))"
  shows "\<exists>w'. replace_writer t True a (link_of us) (m, w) = Inr (None, m, w') \<and>
    list_becomes H w (with_tag (tag_tid t) (tag_bytes t @ drop (length (tag_bytes t)) (tn_data (node_at w a))) vs) (m, w')"
proof -
  have ok: "tags_ok w (add_mset m H)" and ch: "chain w m (us @ a # zs) None" and own: "own_nodes w us"
    using assms(1) by (auto simp: at_tag_def)
  obtain d where d: "tw_node w a = Some d"
    using chain_in [OF ch] by fastforce
  note n = tags_ok_node [OF ok d]
  have len: "length (tn_data d) = unat (tn_size d)"
    using n by (simp add: node_ok_def)
  let ?bs = "tag_bytes t @ drop (length (tag_bytes t)) (tn_data d)"
  let ?d = "d\<lparr>tn_data := ?bs\<rparr>"
  let ?w = "tw_put a ?d w"
  have "replace_writer t True a (link_of us) (m, w) = Inr (None, m, ?w)"
    using d assms(3) node_serialize_keeps_size [OF len] by (simp add: replace_writer_def)
  moreover have "tags_ok ?w (add_mset m H)"
    using n tags_ok_chain [OF ok] assms(3) d by (intro tags_ok_put [OF ok d]) (auto simp: node_ok_def)
  moreover have "tags_keep H w ?w"
  proof (rule tags_keep_same)
    have "own_nodes w (us @ [a])"
      using own assms(2) by (simp add: own_nodes_def)
    then show "same_nodes (reached w H) w ?w"
      using own_not_reached [OF ok, of "us @ [a]" zs] ch by simp
  qed
  moreover have "holds ?w m (with_tag (tag_tid t) ?bs vs)"
    unfolding holds_def
  proof (intro exI conjI)
    show "chain ?w m (us @ a # zs) None"
      by (rule chain_core [OF d _ ch]) simp
    have dist: "distinct (us @ a # zs)"
      by (rule chain_distinct [OF ch])
    have "values_at ?w us = values_at w us" "values_at ?w zs = values_at w zs"
      by (rule values_at_cong, use dist in auto)+
    moreover have "node_value ?d = (tag_tid t, ?bs)"
      using assms(1) d by (auto simp: at_tag_def node_value_def)
    ultimately show "with_tag (tag_tid t) ?bs vs = values_at ?w (us @ a # zs)"
      unfolding at_tag_values(2) [OF assms(1)] by simp
  qed
  ultimately show ?thesis
    using d by (simp add: list_becomes_def)
qed

lemma replace_too_large:
  assumes "at_tag H (tag_tid t) vs us a zs m w" and "length (tn_data (node_at w a)) < length (tag_bytes t)"
  shows "replace_writer t True a l (m, w) = Inl Assert_failed"
proof -
  obtain d where d: "tw_node w a = Some d" "tags_ok w (add_mset m H)"
    using assms(1) chain_in unfolding at_tag_def by fastforce
  then have "length (tn_data d) = unat (tn_size d)"
    using tags_ok_node by (auto simp: node_ok_def)
  from node_serialize_keeps_size [OF this, of t] show ?thesis
    using d(1) assms(2) by (simp add: replace_writer_def)
qed

lemma replace_unshared:
  assumes "at_tag H (tag_tid t) vs us a zs m w" and "tn_count (node_at w a) = 1"
    and "length (tn_data (node_at w a)) = length (tag_bytes t)"
  shows "\<exists>s. replace_writer t True a (link_of us) (m, w) = Inr (None, s) \<and>
    list_becomes H w (with_tag (tag_tid t) (tag_bytes t) vs) s"
  using replace_in_place [OF assms(1,2)] assms(3) by auto

lemma tags_replace_ok:
  assumes "tags_ok w (add_mset m H)" and "holds w m vs" and "size H + 2 + card (dom (tw_node w)) + length vs < 2 ^ 32 - 1"
    and "tag_fits t" and "\<forall>v \<in> set vs. fst v = tag_tid t \<longrightarrow> length (snd v) = length (tag_bytes t)"
  shows "\<exists>s. tags_replace t (m, w) = Inr (tag_tid t \<in> fst ` set vs, s) \<and>
    list_becomes H w (if tag_tid t \<in> fst ` set vs then with_tag (tag_tid t) (tag_bytes t) vs else (tag_tid t, tag_bytes t) # vs) s"
proof -
  from assms(2) obtain xs where xs: "chain w m xs None" "vs = values_at w xs"
    by (auto simp: holds_def)
  show ?thesis
  proof (cases "tag_tid t \<in> fst ` set vs")
    case False
    then show ?thesis
      using cow_traverse_absent [OF assms(1) xs(1), of "tag_tid t"] xs(2) tags_add_ok [OF assms(1,2,4)]
      by (auto simp: tags_replace_def list_becomes_def)
  next
    case True
    have "size H + 1 + card (dom (tw_node w)) + length xs < 2 ^ 32 - 1"
      using assms(3) xs(2) by simp
    from cow_traverse_ok [OF assms(1) xs(1) True [unfolded xs(2)] this, of "replace_writer t"]
    obtain us a zs m1 w1 where c: "at_tag H (tag_tid t) vs us a zs m1 w1" "tags_keep H w w1"
      "card (dom (tw_node w1)) \<le> card (dom (tw_node w)) + length us"
      "cow_traverse (tag_tid t) (replace_writer t) (m, w) =
        res_map (Pair True) (replace_writer t (\<not> tn_count (node_at w1 a) > 1) a (link_of us) (m1, w1))"
      unfolding xs(2) by blast
    have "length us \<le> length vs"
      using c(1) by (auto simp: at_tag_def)
    then have room: "tags_room w1 (add_mset m1 H)"
      using c(3) assms(3) by (simp add: tags_room_def)
    have "node_value (node_at w1 a) \<in> set vs"
      using c(1) by (auto simp: at_tag_def)
    then have len: "length (tn_data (node_at w1 a)) = length (tag_bytes t)"
      using assms(5) c(1) by (auto simp: at_tag_def node_value_def)
    have "\<exists>s. replace_writer t (\<not> tn_count (node_at w1 a) > 1) a (link_of us) (m1, w1) = Inr (None, s) \<and>
        list_becomes H w1 (with_tag (tag_tid t) (tag_bytes t) vs) s"
    proof (cases "tn_count (node_at w1 a) > 1")
      case True
      then show ?thesis
        using replace_shared [OF c(1) True room assms(4)] by simp
    next
      case False
      have ch: "tags_ok w1 (add_mset m1 H)" "chain w1 m1 (us @ a # zs) None"
        using c(1) by (auto simp: at_tag_def)
      obtain d where "tw_node w1 a = Some d"
        using chain_in [OF ch(2)] by fastforce
      then have "tn_count (node_at w1 a) = 1"
        using not_shared [OF ch(1)] False by simp
      then show ?thesis
        using replace_unshared [OF c(1) _ len] False by simp
    qed
    then show ?thesis
      using c(4) True list_becomes_trans [OF c(2)] by (auto simp: tags_replace_def)
  qed
qed

text \<open>A tag of any size.\<close>

lemma tags_replace_sizes:
  assumes "tags_ok w (add_mset m H)" and "chain w m xs None" and "map_of (values_at w xs) (tag_tid t) = Some old"
    and "size H + 2 + card (dom (tw_node w)) + length xs < 2 ^ 32 - 1" and "tag_fits t"
  shows "if own_until w (tag_tid t) xs then
      if length old < length (tag_bytes t) then tags_replace t (m, w) = Inl Assert_failed
      else \<exists>s. tags_replace t (m, w) = Inr (True, s) \<and>
        list_becomes H w (with_tag (tag_tid t) (tag_bytes t @ drop (length (tag_bytes t)) old) (values_at w xs)) s
    else \<exists>s. tags_replace t (m, w) = Inr (True, s) \<and>
      list_becomes H w (with_tag (tag_tid t) (tag_bytes t) (values_at w xs)) s"
proof -
  have "tag_tid t \<in> fst ` set (values_at w xs)"
    using map_of_SomeD [OF assms(3)] by (metis fst_conv image_eqI)
  moreover have "size H + 1 + card (dom (tw_node w)) + length xs < 2 ^ 32 - 1"
    using assms(4) by simp
  ultimately obtain us a zs m1 w1 where
    c: "at_tag H (tag_tid t) (values_at w xs) us a zs m1 w1" "tags_keep H w w1"
    "card (dom (tw_node w1)) \<le> card (dom (tw_node w)) + length us"
    "cow_traverse (tag_tid t) (replace_writer t) (m, w) =
      res_map (Pair True) (replace_writer t (\<not> tn_count (node_at w1 a) > 1) a (link_of us) (m1, w1))"
    "tn_count (node_at w1 a) > 1 \<longleftrightarrow> \<not> own_until w (tag_tid t) xs" "own_until w (tag_tid t) xs \<longrightarrow> m1 = m \<and> w1 = w"
    using cow_traverse_cases [OF assms(1,2), of "tag_tid t" "replace_writer t"] by blast
  have old: "tn_data (node_at w1 a) = old"
    using at_tag_values(3) [OF c(1)] assms(3) by simp
  show ?thesis
  proof (cases "own_until w (tag_tid t) xs")
    case True
    then have one: "tn_count (node_at w a) = 1"
    proof -
      have "tags_ok w (add_mset m H)" "chain w m (us @ a # zs) None" "\<not> tn_count (node_at w a) > 1"
        using c(1,5,6) True by (auto simp: at_tag_def)
      moreover from this(2) obtain d where "tw_node w a = Some d"
        using chain_in by fastforce
      ultimately show ?thesis
        using not_shared by simp
    qed
    have at: "at_tag H (tag_tid t) (values_at w xs) us a zs m w" and w1: "m1 = m" "w1 = w" "\<not> tn_count (node_at w a) > 1"
      using c(1,5,6) True by auto
    have run: "tags_replace t (m, w) = res_bind (res_map (Pair True) (replace_writer t True a (link_of us) (m, w)))
        (\<lambda>(found, _, s). if \<not> found then res_map (Pair found) (tags_add t s) else Inr (found, s))"
      using c(4) w1 by (simp add: tags_replace_def)
    show ?thesis
    proof (cases "length old < length (tag_bytes t)")
      case True
      then show ?thesis
        using \<open>own_until w (tag_tid t) xs\<close> run replace_too_large [OF at] old w1 by simp
    next
      case False
      then have "length (tag_bytes t) \<le> length (tn_data (node_at w a))"
        using old w1 by simp
      from replace_in_place [OF at one this] show ?thesis
        using \<open>own_until w (tag_tid t) xs\<close> False run old w1 by auto
    qed
  next
    case False
    have "length us \<le> length xs"
    proof -
      have "values_at w1 (us @ a # zs) = values_at w xs"
        using c(1) by (simp only: at_tag_def)
      from arg_cong [OF this, of length] show ?thesis
        by (simp only: values_at_length) simp
    qed
    then have room: "tags_room w1 (add_mset m1 H)"
      using c(3) assms(4) by (simp add: tags_room_def)
    from replace_shared [OF c(1) _ room assms(5)] c(5) False obtain s where
      "replace_writer t False a (link_of us) (m1, w1) = Inr (None, s)"
      "list_becomes H w1 (with_tag (tag_tid t) (tag_bytes t) (values_at w xs)) s"
      by auto
    then show ?thesis
      using False c(4,5) list_becomes_trans [OF c(2)] by (simp add: tags_replace_def)
  qed
qed

end
