(* ===== verification/Packet_Tags_Sessions.thy ===== *)
theory Packet_Tags_Sessions
  imports Packet_Tags_Cow Buffer_Sessions
begin

text \<open>
  Copying and ending lists of packet tags, and any number of lists in one world: whatever is done to them, in any order,
  each behaves like a list of its own, and every node is in some list.
\<close>

section \<open>Copies and ends\<close>

lemma tags_keep_holds: "tags_keep H w w' \<Longrightarrow> p \<in># H \<Longrightarrow> holds w p vs \<Longrightarrow> holds w' p vs"
  by (simp add: tags_keep_def)

lemma tags_copy_ok:
  assumes "tags_ok w H" and "p \<in># H" and "tags_room w H"
  shows "\<exists>w'. tags_copy p w = Inr (p, w') \<and> tags_ok w' (add_mset p H) \<and> tags_keep H w w'"
proof -
  obtain xs where xs: "chain w p xs None"
    using tags_ok_chain [OF assms(1,2)] by blast
  obtain w' where "tw_share p w = Inr w'" "tags_ok w' (add_mset p H)" "same_nodes UNIV w w'"
    using tw_share_ok [OF assms(1) xs assms(3), of UNIV] by blast
  then show ?thesis
    using tags_keep_same [OF same_nodes_mono, of UNIV w w' H] by (auto simp: tags_copy_def)
qed

lemma remove_all_from_ok:
  assumes "tags_ok (free_prev prev w) (add_mset cur H)" and "chain (free_prev prev w) cur xs None" and "length xs < n"
  shows "\<exists>w'. remove_all_from n prev cur w = Inr w' \<and> tags_ok w' H \<and> tags_keep H (free_prev prev w) w'"
  using assms
proof (induction n arbitrary: prev cur w xs)
  case (Suc n)
  let ?v = "free_prev prev w"
  show ?case
  proof (cases cur)
    case None
    then show ?thesis
      using Suc.prems(1) by (simp add: tags_ok_drop_None)
  next
    case (Some a)
    have "chain ?v (Some a) xs None"
      using Suc.prems(2) unfolding Some .
    then obtain ys where "xs = a # ys"
      by (cases xs) auto
    moreover from this obtain d where "tw_node ?v a = Some d" "chain ?v (tn_next d) ys None"
      using Suc.prems(2) by (simp only: chain.simps) blast
    ultimately obtain d ys where d: "tw_node ?v a = Some d" "xs = a # ys" "chain ?v (tn_next d) ys None"
      by blast
    have prev: "prev \<noteq> Some a" and w: "tw_node w a = Some d"
      using d(1) by (auto simp: free_prev_def split: option.splits if_splits)
    let ?d = "d\<lparr>tn_count := tn_count d - 1\<rparr>"
    have put: "free_prev prev (tw_put a ?d w) = tw_put a ?d ?v"
      using prev by (cases prev) (simp_all add: free_prev_def tw_put_def tw_free_def fun_upd_twist)
    have ok: "tags_ok ?v (add_mset (Some a) H)"
      using Suc.prems(1) Some by simp
    show ?thesis
    proof (cases "tn_count d > 1")
      case True
      then have "tn_count d - 1 > 0"
        by (simp add: word_less_nat_alt unat_sub word_le_nat_alt)
      then have "remove_all_from (Suc n) prev cur w = Inr (tw_put a ?d ?v)"
        using Some w put by (simp add: tw_count_def)
      moreover have "tags_keep H ?v (tw_put a ?d ?v)"
        using d(1) by (intro tags_keep_same same_nodes_core) (auto simp: node_core_def)
      ultimately show ?thesis
        using tags_ok_drop [OF ok d(1) True] by simp
    next
      case False
      then have one: "tn_count d = 1"
        using not_shared [OF ok d(1)] by simp
      have free: "free_prev (Some a) (free_prev prev (tw_put a ?d w)) = tw_free a ?v"
        unfolding put by (simp add: free_prev_def tw_put_def tw_free_def)
      have "a \<notin> set ys"
        using chain_distinct [OF Suc.prems(2)] d(2) by simp
      then have "chain (tw_free a ?v) (tn_next d) ys None"
        by (intro chain_cong [OF d(3)]) auto
      then obtain w' where r: "remove_all_from n (Some a) (tn_next d) (free_prev prev (tw_put a ?d w)) = Inr w'"
        "tags_ok w' H" "tags_keep H (tw_free a ?v) w'"
        using Suc.IH [of "Some a" "free_prev prev (tw_put a ?d w)" "tn_next d" ys] tags_ok_free [OF ok d(1) one]
          Suc.prems(3) d(2) free by auto
      have "remove_all_from (Suc n) prev cur w = Inr w'"
        using Some w one r(1) by (simp add: tw_count_def)
      then show ?thesis
        using r(2) tags_keep_trans [OF tags_keep_free [OF ok d(1) one] r(3)] by blast
    qed
  qed
qed simp

lemma tags_remove_all_ok:
  assumes "tags_ok w (add_mset m H)"
  shows "\<exists>w'. tags_remove_all (m, w) = Inr (None, w') \<and> tags_ok w' H \<and> tags_keep H w w'"
proof -
  obtain xs where xs: "chain w m xs None"
    using tags_ok_chain [OF assms] by auto
  have "\<exists>w'. remove_all_from (tw_fuel w) None m w = Inr w' \<and> tags_ok w' H \<and> tags_keep H w w'"
    using remove_all_from_ok [of None w m H xs "tw_fuel w"] assms xs chain_fuel [OF assms xs] by (simp add: free_prev_def)
  then show ?thesis
    by (auto simp: tags_remove_all_def)
qed

section \<open>Every node is in a list\<close>

lemma chain_into_node:
  assumes "tags_ok w H" and "tw_node w a = Some d"
  obtains xs where "chain w (Some a) (a # xs) None"
  using tags_ok_node [OF assms] assms(2) by auto

lemma nodes_reached:
  assumes ok: "tags_ok w H"
  shows "dom (tw_node w) \<subseteq> reached w H"
proof
  fix a
  assume "a \<in> dom (tw_node w)"
  then obtain d xs where "tw_node w a = Some d" "chain w (Some a) (a # xs) None"
    using chain_into_node [OF ok] by blast
  then show "a \<in> reached w H"
  proof (induction "tw_fuel w - length xs" arbitrary: a d xs rule: less_induct)
    case less
    have "links w H (Some a) > 0"
      using tags_ok_node [OF ok less.prems(1)] by (simp add: word_less_nat_alt)
    then consider "Some a \<in># H" | "preds w (Some a) \<noteq> {}"
      by (cases "preds w (Some a) = {}") (auto simp: links_def)
    then show ?case
    proof cases
      case 1
      then show ?thesis
        using less.prems(2) by (auto simp: reached_def intro!: bexI [of _ "Some a"] exI [of _ "a # xs"])
    next
      case 2
      then obtain b e where b: "tw_node w b = Some e" "tn_next e = Some a"
        by (auto simp: preds_def)
      then have ch: "chain w (Some b) (b # a # xs) None"
        using less.prems(2) by simp
      have "length (b # a # xs) < tw_fuel w"
        by (rule chain_fuel [OF ok ch])
      then have "tw_fuel w - length (a # xs) < tw_fuel w - length xs"
        by simp
      from less.hyps [OF this b(1) ch] obtain p ys where p: "p \<in># H" "chain w p ys None" "b \<in> set ys"
        by (auto simp: reached_def)
      then obtain us vs where "ys = us @ b # vs"
        by (metis split_list)
      moreover from this have "chain w (Some b) (b # vs) None"
        using p(2) by (auto simp: chain_append)
      then have "vs = a # xs"
        using chain_unique [OF ch] by blast
      ultimately show ?thesis
        using p by (auto simp: reached_def intro!: bexI [of _ p] exI [of _ "us @ b # a # xs"])
    qed
  qed
qed

lemma card_reached:
  "list_all2 (holds w) ms vss \<Longrightarrow> finite (reached w (mset ms)) \<and> card (reached w (mset ms)) \<le> sum_list (map length vss)"
proof (induction rule: list_all2_induct)
  case Nil
  then show ?case
    by (simp add: reached_def)
next
  case (Cons m ms vs vss)
  then obtain xs where xs: "chain w m xs None" "vs = values_at w xs"
    by (auto simp: holds_def)
  have "reached w (mset (m # ms)) = set xs \<union> reached w (mset ms)"
  proof -
    have "chain w m ys None \<longleftrightarrow> ys = xs" for ys
      using xs(1) chain_unique [OF xs(1)] by blast
    then show ?thesis
      by (auto simp: reached_def)
  qed
  moreover have "card (set xs \<union> reached w (mset ms)) \<le> length xs + sum_list (map length vss)"
    using Cons.IH card_Un_le [of "set xs" "reached w (mset ms)"] card_length [of xs] by linarith
  ultimately show ?case
    using Cons.IH xs(2) by simp
qed

lemma nodes_bound:
  assumes "tags_ok w (mset ms)" and "list_all2 (holds w) ms vss"
  shows "card (dom (tw_node w)) \<le> sum_list (map length vss)"
  using card_mono [OF _ nodes_reached [OF assms(1)]] card_reached [OF assms(2)] by fastforce

section \<open>Sessions\<close>

datatype tags_op =
    Tags_create
  | Tags_copy nat
  | Tags_assign nat nat
  | Tags_destroy nat
  | Tags_remove_all nat
  | Tags_add nat tag
  | Tags_remove nat "16 word"
  | Tags_replace nat tag
  | Tags_peek nat "16 word"

text \<open>What a call returns: whether the tag was found, and the bytes that it was deserialised from.\<close>

type_synonym tags_answer = "bool \<times> bytes option"

type_synonym tags_state = "nat option list \<times> tag_world"

fun tags_do :: "tags_op \<Rightarrow> tags_state \<Rightarrow> (tags_answer list \<times> tags_state) result" where
  "tags_do Tags_create (ms, w) = Inr ([], ms @ [None], w)"
| "tags_do (Tags_copy i) (ms, w) = res_map (\<lambda>(m, w). ([], ms @ [m], w)) (tags_copy (ms ! i) w)"
| "tags_do (Tags_assign i j) (ms, w) = res_map (\<lambda>(m, w). ([], ms[i := m], w)) (tags_assign (ms ! j) (ms ! i, w))"
| "tags_do (Tags_destroy i) (ms, w) = res_map (\<lambda>w. ([], drop_at i ms, w)) (tags_destroy (ms ! i, w))"
| "tags_do (Tags_remove_all i) (ms, w) = res_map (\<lambda>(m, w). ([], ms[i := m], w)) (tags_remove_all (ms ! i, w))"
| "tags_do (Tags_add i t) (ms, w) = res_map (\<lambda>(m, w). ([], ms[i := m], w)) (tags_add t (ms ! i, w))"
| "tags_do (Tags_remove i tid) (ms, w) =
     res_map (\<lambda>(found, bs, m, w). ([(found, bs)], ms[i := m], w)) (tags_remove tid (ms ! i, w))"
| "tags_do (Tags_replace i t) (ms, w) =
     res_map (\<lambda>(found, m, w). ([(found, None)], ms[i := m], w)) (tags_replace t (ms ! i, w))"
| "tags_do (Tags_peek i tid) (ms, w) = res_map (\<lambda>bs. ([(bs \<noteq> None, bs)], ms, w)) (tags_peek tid (ms ! i, w))"

fun tags_run :: "tags_op list \<Rightarrow> tags_state \<Rightarrow> (tags_answer list \<times> tags_state) result" where
  "tags_run [] s = Inr ([], s)"
| "tags_run (x # xs) s =
     res_bind (tags_do x s) (\<lambda>(out, s). res_map (\<lambda>(out', s). (out @ out', s)) (tags_run xs s))"

text \<open>The same on lists of types and bytes.\<close>

type_synonym tag_values = "(16 word \<times> bytes) list"

definition replaced_tag :: "tag \<Rightarrow> tag_values \<Rightarrow> tag_values" where
  "replaced_tag t vs =
     (if tag_tid t \<in> fst ` set vs then with_tag (tag_tid t) (tag_bytes t) vs else (tag_tid t, tag_bytes t) # vs)"

fun vals_do :: "tags_op \<Rightarrow> tag_values list \<Rightarrow> tags_answer list \<times> tag_values list" where
  "vals_do Tags_create vss = ([], vss @ [[]])"
| "vals_do (Tags_copy i) vss = ([], vss @ [vss ! i])"
| "vals_do (Tags_assign i j) vss = ([], vss[i := vss ! j])"
| "vals_do (Tags_destroy i) vss = ([], drop_at i vss)"
| "vals_do (Tags_remove_all i) vss = ([], vss[i := []])"
| "vals_do (Tags_add i t) vss = ([], vss[i := (tag_tid t, tag_bytes t) # vss ! i])"
| "vals_do (Tags_remove i tid) vss =
     ([(tid \<in> fst ` set (vss ! i), map_of (vss ! i) tid)], vss[i := without_tag tid (vss ! i)])"
| "vals_do (Tags_replace i t) vss = ([(tag_tid t \<in> fst ` set (vss ! i), None)], vss[i := replaced_tag t (vss ! i)])"
| "vals_do (Tags_peek i tid) vss = ([(tid \<in> fst ` set (vss ! i), map_of (vss ! i) tid)], vss)"

fun vals_run :: "tags_op list \<Rightarrow> tag_values list \<Rightarrow> tags_answer list \<times> tag_values list" where
  "vals_run [] vss = ([], vss)"
| "vals_run (x # xs) vss =
     (let (out, vss) = vals_do x vss; (out', vss) = vals_run xs vss in (out @ out', vss))"

text \<open>A tag writes as many bytes as it announces, and one that is replaced has the size of the new one.\<close>

fun tags_op_ok :: "tags_op \<Rightarrow> tag_values list \<Rightarrow> bool" where
  "tags_op_ok Tags_create vss \<longleftrightarrow> True"
| "tags_op_ok (Tags_copy i) vss \<longleftrightarrow> i < length vss"
| "tags_op_ok (Tags_assign i j) vss \<longleftrightarrow> i < length vss \<and> j < length vss"
| "tags_op_ok (Tags_destroy i) vss \<longleftrightarrow> i < length vss"
| "tags_op_ok (Tags_remove_all i) vss \<longleftrightarrow> i < length vss"
| "tags_op_ok (Tags_add i t) vss \<longleftrightarrow> i < length vss \<and> tag_fits t"
| "tags_op_ok (Tags_remove i tid) vss \<longleftrightarrow> i < length vss"
| "tags_op_ok (Tags_replace i t) vss \<longleftrightarrow> i < length vss \<and> tag_fits t \<and>
     (\<forall>v \<in> set (vss ! i). fst v = tag_tid t \<longrightarrow> length (snd v) = length (tag_bytes t))"
| "tags_op_ok (Tags_peek i tid) vss \<longleftrightarrow> i < length vss"

definition tags_total :: "tag_values list \<Rightarrow> nat" where
  "tags_total vss = length vss + 2 * sum_list (map length vss)"

fun tags_ops_ok :: "tags_op list \<Rightarrow> tag_values list \<Rightarrow> bool" where
  "tags_ops_ok [] vss \<longleftrightarrow> True"
| "tags_ops_ok (x # xs) vss \<longleftrightarrow> tags_op_ok x vss \<and> tags_total vss < 2 ^ 32 - 3 \<and> tags_ops_ok xs (snd (vals_do x vss))"

definition tags_fresh :: "(nat \<Rightarrow> nat \<Rightarrow> 8 word) \<Rightarrow> tag_world" where
  "tags_fresh junk = \<lparr>tw_node = (\<lambda>_. None), tw_next = 0, tw_junk = junk\<rparr>"

definition lists_ok :: "tags_state \<Rightarrow> tag_values list \<Rightarrow> bool" where
  "lists_ok s vss \<longleftrightarrow> (case s of (ms, w) \<Rightarrow> tags_ok w (mset ms) \<and> list_all2 (holds w) ms vss)"

lemma lists_ok_fresh: "lists_ok ([], tags_fresh junk) []"
  by (simp add: lists_ok_def tags_ok_def tags_fresh_def)

lemma lists_ok_stored: "lists_ok s vss \<longleftrightarrow> stored tags_ok holds s vss"
  by (simp add: lists_ok_def stored_def)

interpretation tag_lists: shared_store tags_ok tags_keep holds
  by unfold_locales (rule tags_keep_holds)

lemmas lists_ok_add = tag_lists.stored_add [folded lists_ok_stored]
lemmas lists_ok_set = tag_lists.stored_set [folded lists_ok_stored]
lemmas lists_ok_drop = tag_lists.stored_drop [folded lists_ok_stored]
lemmas lists_ok_at = tag_lists.stored_at [folded lists_ok_stored]

lemma lists_room:
  assumes "lists_ok (ms, w) vss" and "tags_total vss < 2 ^ 32 - 3" and "i < length vss"
  shows "size (mset (drop_at i ms)) + 2 + card (dom (tw_node w)) + length (vss ! i) < 2 ^ 32 - 1"
    and "tags_room w (mset ms)" and "tags_room w (mset (drop_at i ms))"
proof -
  have l: "tags_ok w (mset ms)" "list_all2 (holds w) ms vss" "length ms = length vss"
    using assms(1) list_all2_lengthD by (auto simp: lists_ok_def)
  have "length (vss ! i) \<le> sum_list (map length vss)"
    using assms(3) by (intro member_le_sum_list) auto
  moreover have "size (mset (drop_at i ms)) = length vss - 1"
    using assms(3) l(3) by (simp add: drop_at_length)
  ultimately show "size (mset (drop_at i ms)) + 2 + card (dom (tw_node w)) + length (vss ! i) < 2 ^ 32 - 1"
    "tags_room w (mset ms)" "tags_room w (mset (drop_at i ms))"
    using nodes_bound [OF l(1,2)] assms(2,3) l(3) unfolding tags_total_def tags_room_def by simp_all
qed

lemma tags_assign_ok:
  assumes "lists_ok (ms, w) vss" and "i < length vss" and "j < length vss" and "tags_total vss < 2 ^ 32 - 3"
  shows "\<exists>m w'. tags_assign (ms ! j) (ms ! i, w) = Inr (m, w') \<and> lists_ok (ms[i := m], w') (vss[i := vss ! j])"
proof (cases "ms ! i = ms ! j")
  case True
  have "tags_keep (mset (drop_at i ms)) w w"
    by simp
  with True show ?thesis
    using lists_ok_set [OF assms(1) lists_ok_at(1) [OF assms(1,2)], of w "ms ! i" "vss ! j"]
      lists_ok_at(5) [OF assms(1,2)] lists_ok_at(2) [OF assms(1,3)] by (simp add: tags_assign_def)
next
  case False
  note i = lists_ok_at [OF assms(1,2)] and j = lists_ok_at [OF assms(1,3)]
  let ?H = "mset (drop_at i ms)"
  obtain w1 where w1: "tags_remove_all (ms ! i, w) = Inr (None, w1)" "tags_ok w1 ?H" "tags_keep ?H w w1"
    using tags_remove_all_ok [OF i(5)] by blast
  have jH: "ms ! j \<in># ?H"
    using nth_drop_at [OF j(1), of i] False by auto
  have drop: "lists_ok (drop_at i ms, w1) (drop_at i vss)"
    by (rule lists_ok_drop [OF assms(1) w1(2,3)])
  have "tags_room w1 ?H"
  proof -
    have "card (dom (tw_node w1)) \<le> sum_list (map length (drop_at i vss))"
      using drop nodes_bound by (auto simp: lists_ok_def)
    also have "\<dots> \<le> sum_list (map length vss)"
      using sum_drop_at [OF assms(2), of length] by simp
    finally show ?thesis
      using assms(2,4) i(1) list_all2_lengthD [of "holds w" ms vss] assms(1)
      by (simp add: tags_room_def tags_total_def drop_at_length lists_ok_def)
  qed
  then obtain w' where w': "tags_copy (ms ! j) w1 = Inr (ms ! j, w')" "tags_ok w' (add_mset (ms ! j) ?H)" "tags_keep ?H w1 w'"
    using tags_copy_ok [OF w1(2) jH] by blast
  have keep: "tags_keep ?H w w'"
    by (rule tags_keep_trans [OF w1(3) w'(3)])
  have "holds w' (ms ! j) (vss ! j)"
    by (rule tags_keep_holds [OF keep jH j(2)])
  from lists_ok_set [OF assms(1) i(1) w'(2) keep this] show ?thesis
    using False w1(1) w'(1) by (simp add: tags_assign_def)
qed

lemma list_becomes_set:
  assumes "lists_ok (ms, w) vss" and "i < length vss" and "list_becomes (mset (drop_at i ms)) w vs (m, w')"
  shows "lists_ok (ms[i := m], w') (vss[i := vs])"
  using lists_ok_set [OF assms(1) lists_ok_at(1) [OF assms(1,2)]] assms(3) by (simp add: list_becomes_def)

lemma tags_do_ok:
  assumes "lists_ok s vss" and "tags_op_ok x vss" and "tags_total vss < 2 ^ 32 - 3"
  shows "\<exists>s'. tags_do x s = Inr (fst (vals_do x vss), s') \<and> lists_ok s' (snd (vals_do x vss))"
proof -
  obtain ms w where s: "s = (ms, w)"
    by (cases s)
  note l = assms(1) [unfolded s]
  have ok: "tags_ok w (mset ms)"
    using l by (simp add: lists_ok_def)
  show ?thesis
  proof (cases x)
    case Tags_create
    then show ?thesis
      using lists_ok_add [OF l, of w None "[]"] ok s by (simp add: tags_ok_drop_None holds_def)
  next
    case (Tags_copy i)
    then have i: "i < length vss"
      using assms(2) by simp
    obtain w' where w': "tags_copy (ms ! i) w = Inr (ms ! i, w')" "tags_ok w' (add_mset (ms ! i) (mset ms))" "tags_keep (mset ms) w w'"
      using tags_copy_ok [OF ok lists_ok_at(3) [OF l i] lists_room(2) [OF l assms(3) i]] by blast
    from lists_ok_add [OF l w'(2,3) tags_keep_holds [OF w'(3) lists_ok_at(3,2) [OF l i]]] show ?thesis
      using Tags_copy s w'(1) by simp
  next
    case (Tags_assign i j)
    then have "i < length vss" "j < length vss"
      using assms(2) by simp_all
    from tags_assign_ok [OF l this assms(3)] obtain m w' where
      "tags_assign (ms ! j) (ms ! i, w) = Inr (m, w')" "lists_ok (ms[i := m], w') (vss[i := vss ! j])"
      by blast
    then show ?thesis
      using Tags_assign s by simp
  next
    case (Tags_destroy i)
    then have i: "i < length vss"
      using assms(2) by simp
    obtain w' where "tags_remove_all (ms ! i, w) = Inr (None, w')" "tags_ok w' (mset (drop_at i ms))"
      "tags_keep (mset (drop_at i ms)) w w'"
      using tags_remove_all_ok [OF lists_ok_at(5) [OF l i]] by blast
    then show ?thesis
      using Tags_destroy s lists_ok_drop [OF l] by (simp add: tags_destroy_def)
  next
    case (Tags_remove_all i)
    then have i: "i < length vss"
      using assms(2) by simp
    obtain w' where w': "tags_remove_all (ms ! i, w) = Inr (None, w')" "tags_ok w' (mset (drop_at i ms))"
      "tags_keep (mset (drop_at i ms)) w w'"
      using tags_remove_all_ok [OF lists_ok_at(5) [OF l i]] by blast
    then have "lists_ok (ms[i := None], w') (vss[i := []])"
      using lists_ok_set [OF l lists_ok_at(1) [OF l i], of w' None "[]"] by (simp add: tags_ok_drop_None holds_def)
    then show ?thesis
      using Tags_remove_all s w'(1) by simp
  next
    case (Tags_add i t)
    then have i: "i < length vss" and t: "tag_fits t"
      using assms(2) by simp_all
    obtain m' w' where w': "tags_add t (ms ! i, w) = Inr (m', w')" "tags_ok w' (add_mset m' (mset (drop_at i ms)))"
      "tags_keep (mset (drop_at i ms)) w w'" "holds w' m' ((tag_tid t, tag_bytes t) # vss ! i)"
      using tags_add_ok [OF lists_ok_at(5,2) [OF l i] t] by blast
    from lists_ok_set [OF l lists_ok_at(1) [OF l i] w'(2-4)] show ?thesis
      using Tags_add s w'(1) by simp
  next
    case (Tags_remove i tid)
    then have i: "i < length vss"
      using assms(2) by simp
    obtain m' w' where w': "tags_remove tid (ms ! i, w) = Inr (tid \<in> fst ` set (vss ! i), map_of (vss ! i) tid, m', w')"
      "list_becomes (mset (drop_at i ms)) w (without_tag tid (vss ! i)) (m', w')"
      using tags_remove_ok [OF lists_ok_at(5,2) [OF l i] lists_room(1) [OF l assms(3) i], of tid] by auto
    from list_becomes_set [OF l i w'(2)] show ?thesis
      using Tags_remove s w'(1) by simp
  next
    case (Tags_replace i t)
    then have i: "i < length vss" and t: "tag_fits t"
      "\<forall>v \<in> set (vss ! i). fst v = tag_tid t \<longrightarrow> length (snd v) = length (tag_bytes t)"
      using assms(2) by simp_all
    obtain m' w' where w': "tags_replace t (ms ! i, w) = Inr (tag_tid t \<in> fst ` set (vss ! i), m', w')"
      "list_becomes (mset (drop_at i ms)) w (replaced_tag t (vss ! i)) (m', w')"
      using tags_replace_ok [OF lists_ok_at(5,2) [OF l i] lists_room(1) [OF l assms(3) i] t] by (auto simp: replaced_tag_def)
    from list_becomes_set [OF l i w'(2)] show ?thesis
      using Tags_replace s w'(1) by simp
  next
    case (Tags_peek i tid)
    then have i: "i < length vss"
      using assms(2) by simp
    have "map_of (vss ! i) tid \<noteq> None \<longleftrightarrow> tid \<in> fst ` set (vss ! i)"
      by (simp add: map_of_eq_None_iff)
    then show ?thesis
      using Tags_peek s l tags_peek_ok [OF ok lists_ok_at(2) [OF l i], of tid] by simp
  qed
qed

lemma tags_run_ok:
  "lists_ok s vss \<Longrightarrow> tags_ops_ok xs vss \<Longrightarrow>
   \<exists>s'. tags_run xs s = Inr (fst (vals_run xs vss), s') \<and> lists_ok s' (snd (vals_run xs vss))"
proof (induction xs arbitrary: s vss)
  case (Cons x xs)
  then obtain s1 where s1: "tags_do x s = Inr (fst (vals_do x vss), s1)" "lists_ok s1 (snd (vals_do x vss))"
    using tags_do_ok [of s vss x] by auto
  obtain s' where "tags_run xs s1 = Inr (fst (vals_run xs (snd (vals_do x vss))), s')"
    "lists_ok s' (snd (vals_run xs (snd (vals_do x vss))))"
    using Cons.IH [OF s1(2)] Cons.prems(2) by auto
  then show ?case
    using s1(1) by (simp add: split_beta Let_def)
qed simp

end
