(* ===== verification/Packet_Tags_Wire.thy ===== *)
theory Packet_Tags_Wire
  imports Packet_Tags_Ops
begin

text \<open>
  \<open>PacketTagList::Serialize\<close> and \<open>Deserialize\<close>: the number of the tags, and for every tag its size, the hash of its type
  and its bytes, padded to a multiple of four; reading it in an empty list gives the same tags in the same order.
\<close>

section \<open>Layout\<close>

definition padded :: "nat \<Rightarrow> nat" where
  "padded n = (n + 3) div 4 * 4"

lemma padded_ge: "n \<le> padded n"
  unfolding padded_def by presburger

lemma unat_round4_padded: "n < 2 ^ 30 \<Longrightarrow> unat (round4 (of_nat n)) = padded n"
proof -
  assume n: "n < 2 ^ 30"
  then have u: "unat (of_nat n :: 32 word) = n"
    by (simp add: unsigned_of_nat take_bit_nat_eq_self)
  have "unat (round4 (of_nat n)) = n + 3 - (n + 3) mod 4"
    using unat_round4 [of "of_nat n"] n u by simp
  then show ?thesis
    by (simp add: padded_def minus_mod_eq_div_mult)
qed

fun wire_size :: "(16 word \<times> bytes) list \<Rightarrow> nat" where
  "wire_size [] = 0"
| "wire_size (v # vs) = 8 + padded (length (snd v)) + wire_size vs"

fun wire_tags :: "iid_manager \<Rightarrow> bytes \<Rightarrow> nat \<Rightarrow> (16 word \<times> bytes) list \<Rightarrow> bool" where
  "wire_tags r out p [] \<longleftrightarrow> True"
| "wire_tags r out p (v # vs) \<longleftrightarrow>
     in_read (of_nat p) 4 out = Inr (le_bytes 4 (of_nat (length (snd v)) :: 32 word)) \<and>
     (\<exists>h. iid_get_hash (fst v) r = Inr h \<and> in_read (of_nat (p + 4)) 4 out = Inr (le_bytes 4 h)) \<and>
     in_read (of_nat (p + 8)) (of_nat (length (snd v))) out = Inr (snd v) \<and>
     wire_tags r out (p + 8 + padded (length (snd v))) vs"

lemma wire_tags_cong:
  assumes "\<And>q n. p \<le> q \<Longrightarrow> q + n \<le> p + wire_size vs \<Longrightarrow> in_read (of_nat q) (of_nat n) out' = in_read (of_nat q) (of_nat n) out"
    and "wire_tags r out p vs"
  shows "wire_tags r out' p vs"
  using assms
proof (induction vs arbitrary: p)
  case (Cons v vs)
  have eq: "in_read (of_nat q) (of_nat n) out' = in_read (of_nat q) (of_nat n) out"
    if "p \<le> q" "q + n \<le> p + 8 + padded (length (snd v)) + wire_size vs" for q n
    using Cons.prems(1) that by simp
  have "wire_tags r out' (p + 8 + padded (length (snd v))) vs"
    using Cons.prems(2) eq by (intro Cons.IH) simp_all
  then show ?case
    using Cons.prems(2) eq [of p 4] eq [of "p + 4" 4] eq [of "p + 8" "length (snd v)"] padded_ge [of "length (snd v)"] by auto
qed simp

section \<open>Writing\<close>

lemma out_write_nat:
  assumes "p + length bs \<le> length out" and "p + length bs < 2 ^ 32"
  shows "out_write (of_nat p) bs out = Inr (splice p bs out)"
  using assms by (simp add: out_write_def unat_nat32)

lemma read_back:
  assumes "p + length bs \<le> length out" and "p + length bs < 2 ^ 32" and "n = length bs"
  shows "in_read (of_nat p) (of_nat n) (splice p bs out) = Inr bs"
  using in_read_splice_same [of "of_nat p" bs out "of_nat n"] assms by (simp add: unat_nat32)

lemma read_other:
  assumes "p + length bs \<le> length out" and "q + n < 2 ^ 32" and "q + n \<le> p \<or> p + length bs \<le> q"
  shows "in_read (of_nat q) (of_nat n) (splice p bs out) = in_read (of_nat q) (of_nat n) out"
  using in_read_splice_other [of p bs out "of_nat q" "of_nat n"] assms by (simp add: unat_nat32)

text \<open>The bytes of one tag and the new number of tags.\<close>

definition tag_written :: "nat \<Rightarrow> bytes \<Rightarrow> 32 word \<Rightarrow> 32 word \<Rightarrow> bytes \<Rightarrow> bytes" where
  "tag_written p bs h k out =
     splice 0 (le_bytes 4 (k + 1))
       (splice (p + 8) bs (splice (p + 4) (le_bytes 4 h) (splice p (le_bytes 4 (of_nat (length bs) :: 32 word)) out)))"

lemma tag_written_ok:
  assumes "4 \<le> p" and "p + 8 + length bs \<le> length out" and "p + 8 + length bs < 2 ^ 30"
  shows "length (tag_written p bs h k out) = length out"
    and "in_u32 0 (tag_written p bs h k out) = Inr (k + 1)"
    and "in_read (of_nat p) 4 (tag_written p bs h k out) = Inr (le_bytes 4 (of_nat (length bs) :: 32 word))"
    and "in_read (of_nat (p + 4)) 4 (tag_written p bs h k out) = Inr (le_bytes 4 h)"
    and "in_read (of_nat (p + 8)) (of_nat (length bs)) (tag_written p bs h k out) = Inr bs"
    and "\<And>q n. 4 \<le> q \<Longrightarrow> q + n < 2 ^ 32 \<Longrightarrow> q + n \<le> p \<or> p + 8 + length bs \<le> q \<Longrightarrow>
      in_read (of_nat q) (of_nat n) (tag_written p bs h k out) = in_read (of_nat q) (of_nat n) out"
proof -
  define o1 where "o1 = splice p (le_bytes 4 (of_nat (length bs) :: 32 word)) out"
  define o2 where "o2 = splice (p + 4) (le_bytes 4 h) o1"
  define o3 where "o3 = splice (p + 8) bs o2"
  define o4 where "o4 = splice 0 (le_bytes 4 (k + 1)) o3"
  have o4: "tag_written p bs h k out = o4"
    by (simp add: tag_written_def o1_def o2_def o3_def o4_def)
  have l1: "length o1 = length out"
    unfolding o1_def using assms by (intro splice_length) simp
  have l2: "length o2 = length out"
    unfolding o2_def using assms l1 by (subst splice_length) simp_all
  have l3: "length o3 = length out"
    unfolding o3_def using assms l2 by (subst splice_length) simp_all
  have l4: "length o4 = length out"
    unfolding o4_def using assms l3 by (subst splice_length) simp_all
  have r1: "in_read (of_nat q) (of_nat n) o1 = in_read (of_nat q) (of_nat n) out" if "q + n < 2 ^ 32" "q + n \<le> p \<or> p + 4 \<le> q" for q n
    unfolding o1_def using that assms by (intro read_other) simp_all
  have r2: "in_read (of_nat q) (of_nat n) o2 = in_read (of_nat q) (of_nat n) o1" if "q + n < 2 ^ 32" "q + n \<le> p + 4 \<or> p + 8 \<le> q" for q n
    unfolding o2_def by (rule read_other) (use that assms l1 in \<open>auto simp: add.commute\<close>)
  have r3: "in_read (of_nat q) (of_nat n) o3 = in_read (of_nat q) (of_nat n) o2"
    if "q + n < 2 ^ 32" "q + n \<le> p + 8 \<or> p + 8 + length bs \<le> q" for q n
    unfolding o3_def by (rule read_other) (use that assms l2 in \<open>auto simp: add.commute\<close>)
  have r4: "in_read (of_nat q) (of_nat n) o4 = in_read (of_nat q) (of_nat n) o3" if "q + n < 2 ^ 32" "4 \<le> q" for q n
    unfolding o4_def using that assms l3 by (intro read_other) simp_all
  have w1: "in_read (of_nat p) (of_nat 4) o1 = Inr (le_bytes 4 (of_nat (length bs) :: 32 word))"
    unfolding o1_def using assms by (intro read_back) simp_all
  have w2: "in_read (of_nat (p + 4)) (of_nat 4) o2 = Inr (le_bytes 4 h)"
    unfolding o2_def using assms l1 by (intro read_back) simp_all
  have w3: "in_read (of_nat (p + 8)) (of_nat (length bs)) o3 = Inr bs"
    unfolding o3_def using assms l2 by (intro read_back) simp_all
  have w4: "in_read (of_nat 0) (of_nat 4) o4 = Inr (le_bytes 4 (k + 1))"
    unfolding o4_def using assms l3 by (intro read_back) simp_all
  show "length (tag_written p bs h k out) = length out"
    using l4 o4 by simp
  show "in_u32 0 (tag_written p bs h k out) = Inr (k + 1)"
    using w4 unfolding o4 by (intro in_u32_le) simp
  have "in_read (of_nat p) (of_nat 4) o4 = Inr (le_bytes 4 (of_nat (length bs) :: 32 word))"
    using r4 [of p 4] r3 [of p 4] r2 [of p 4] w1 assms by simp
  then show "in_read (of_nat p) 4 (tag_written p bs h k out) = Inr (le_bytes 4 (of_nat (length bs) :: 32 word))"
    unfolding o4 by simp
  have "in_read (of_nat (p + 4)) (of_nat 4) o4 = Inr (le_bytes 4 h)"
    using r4 [of "p + 4" 4] r3 [of "p + 4" 4] w2 assms by simp
  then show "in_read (of_nat (p + 4)) 4 (tag_written p bs h k out) = Inr (le_bytes 4 h)"
    unfolding o4 by simp
  show "in_read (of_nat (p + 8)) (of_nat (length bs)) (tag_written p bs h k out) = Inr bs"
    unfolding o4 using r4 [of "p + 8" "length bs"] w3 assms by simp
  show "in_read (of_nat q) (of_nat n) (tag_written p bs h k out) = in_read (of_nat q) (of_nat n) out"
    if "4 \<le> q" "q + n < 2 ^ 32" "q + n \<le> p \<or> p + 8 + length bs \<le> q" for q n
    unfolding o4 using r4 [of q n] r3 [of q n] r2 [of q n] r1 [of q n] that by auto
qed

lemma write_one:
  assumes "4 \<le> p" and "p + 8 + length bs \<le> length out" and "p + 8 + length bs < 2 ^ 30" and "in_u32 0 out = Inr k"
  shows "res_bind (out_write (of_nat p) (le_bytes 4 (of_nat (length bs) :: 32 word)) out) (\<lambda>out.
    res_bind (out_write (of_nat p + 4) (le_bytes 4 h) out) (\<lambda>out.
    res_bind (out_write (of_nat p + 4 + 4) bs out) (\<lambda>out.
    res_bind (in_u32 0 out) (\<lambda>k. res_bind (out_write 0 (le_bytes 4 (k + 1)) out) f)))) = f (tag_written p bs h k out)"
proof -
  define o1 where "o1 = splice p (le_bytes 4 (of_nat (length bs) :: 32 word)) out"
  define o2 where "o2 = splice (p + 4) (le_bytes 4 h) o1"
  define o3 where "o3 = splice (p + 8) bs o2"
  have l1: "length o1 = length out"
    unfolding o1_def using assms by (intro splice_length) simp
  have l2: "length o2 = length out"
    unfolding o2_def using assms l1 by (subst splice_length) simp_all
  have l3: "length o3 = length out"
    unfolding o3_def using assms l2 by (subst splice_length) simp_all
  have "in_read (of_nat 0) (of_nat 4) o3 = in_read (of_nat 0) (of_nat 4) o2"
    unfolding o3_def using assms l2 by (intro read_other) simp_all
  moreover have "in_read (of_nat 0) (of_nat 4) o2 = in_read (of_nat 0) (of_nat 4) o1"
    unfolding o2_def using assms l1 by (intro read_other) simp_all
  moreover have "in_read (of_nat 0) (of_nat 4) o1 = in_read (of_nat 0) (of_nat 4) out"
    unfolding o1_def using assms by (intro read_other) simp_all
  ultimately have k: "in_u32 0 o3 = Inr k"
    using assms(4) by (simp add: in_u32_def)
  have p: "(of_nat p :: 32 word) + 4 + 4 = of_nat (p + 8)" "(of_nat p :: 32 word) + 4 = of_nat (p + 4)"
    by simp_all
  have "out_write (of_nat p) (le_bytes 4 (of_nat (length bs) :: 32 word)) out = Inr o1"
    unfolding o1_def using assms by (intro out_write_nat) simp_all
  moreover have "out_write (of_nat p + 4) (le_bytes 4 h) o1 = Inr o2"
    unfolding o2_def p(2) using assms l1 by (intro out_write_nat) simp_all
  moreover have "out_write (of_nat p + 4 + 4) bs o2 = Inr o3"
    unfolding o3_def p(1) using assms l2 by (intro out_write_nat) simp_all
  moreover have "out_write 0 (le_bytes 4 (k + 1)) o3 = Inr (tag_written p bs h k out)"
    unfolding tag_written_def o1_def [symmetric] o2_def [symmetric] o3_def [symmetric]
    using out_write_nat [of 0 "le_bytes 4 (k + 1)" o3] assms l3 by simp
  ultimately show ?thesis
    using k by (simp only: res_bind_simps)
qed

lemma round4_size:
  assumes "node_ok d" and "length (tn_data d) < 2 ^ 30" and "padded (length (tn_data d)) < 2 ^ 32"
  shows "tn_size d = of_nat (length (tn_data d))" and "round4 (tn_size d) = of_nat (padded (length (tn_data d)))"
proof -
  show size: "tn_size d = of_nat (length (tn_data d))"
    using assms(1) by (simp add: node_ok_def)
  show "round4 (tn_size d) = of_nat (padded (length (tn_data d)))"
    unfolding size word_unat_eq_iff unat_round4_padded [OF assms(2)] unat_nat32 [OF assms(3)] by (rule refl)
qed

lemma serialize_from_ok:
  assumes "chain w cur xs None" and "length xs < n"
    and "\<And>a. a \<in> set xs \<Longrightarrow> node_ok (node_at w a) \<and> (\<exists>h. iid_get_hash (tn_tid (node_at w a)) r = Inr h)"
    and "4 \<le> p" and "p + wire_size (values_at w xs) \<le> length out" and "p + wire_size (values_at w xs) \<le> unat maxSize"
    and "p + wire_size (values_at w xs) < 2 ^ 30" and "in_u32 0 out = Inr k"
  shows "\<exists>out'. tags_serialize_from r n cur w maxSize (of_nat p) out = Inr (1, out') \<and> length out' = length out \<and>
    wire_tags r out' p (values_at w xs) \<and> in_u32 0 out' = Inr (k + of_nat (length xs)) \<and>
    (\<forall>q m. 4 \<le> q \<longrightarrow> q + m \<le> p \<longrightarrow> in_read (of_nat q) (of_nat m) out' = in_read (of_nat q) (of_nat m) out)"
  using assms
proof (induction n arbitrary: cur xs p out k)
  case (Suc n)
  show ?case
  proof (cases xs)
    case Nil
    then show ?thesis
      using Suc.prems by simp
  next
    case (Cons a ys)
    then obtain d where d: "cur = Some a" "tw_node w a = Some d" "chain w (tn_next d) ys None"
      using Suc.prems(1) by auto
    let ?bs = "tn_data d" and ?vs = "values_at w ys"
    let ?p = "p + 8 + padded (length ?bs)"
    have vs: "values_at w xs = (tn_tid d, ?bs) # ?vs"
      using Cons d(2) by (simp add: node_value_def)
    obtain h where h: "iid_get_hash (tn_tid d) r = Inr h" "node_ok d"
      using Suc.prems(3) [of a] Cons d(2) by auto
    note pad = padded_ge [of "length ?bs"]
    have lim: "?p + wire_size ?vs \<le> length out" "?p + wire_size ?vs \<le> unat maxSize" "?p + wire_size ?vs < 2 ^ 30"
      using Suc.prems(5-7) vs by simp_all
    have room: "p + 8 + length ?bs \<le> length out" "p + 8 + length ?bs < 2 ^ 30"
      using lim pad by simp_all
    have size: "tn_size d = of_nat (length ?bs)" and r4: "round4 (tn_size d) = of_nat (padded (length ?bs))"
      using round4_size [OF h(2)] room(2) lim(3) by simp_all
    have le: "(of_nat p :: 32 word) + 4 \<le> maxSize" "(of_nat p :: 32 word) + 4 + 4 \<le> maxSize"
      "(of_nat p :: 32 word) + 4 + 4 + round4 (tn_size d) \<le> maxSize"
    proof -
      have e: "(of_nat p :: 32 word) + 4 = of_nat (p + 4)" "(of_nat p :: 32 word) + 4 + 4 = of_nat (p + 8)"
        "(of_nat p :: 32 word) + 4 + 4 + round4 (tn_size d) = of_nat ?p"
        unfolding r4 by simp_all
      have "p + 4 \<le> unat maxSize" "p + 8 \<le> unat maxSize" "?p \<le> unat maxSize" "?p < 2 ^ 32"
        using lim by simp_all
      then show "(of_nat p :: 32 word) + 4 \<le> maxSize" "(of_nat p :: 32 word) + 4 + 4 \<le> maxSize"
        "(of_nat p :: 32 word) + 4 + 4 + round4 (tn_size d) \<le> maxSize"
        using nat32_le [of "p + 4" maxSize, folded e(1)] nat32_le [of "p + 8" maxSize, folded e(2)]
          nat32_le [of ?p maxSize, folded e(3)] by linarith+
    qed
    let ?out = "tag_written p ?bs h k out"
    note t = tag_written_ok [OF Suc.prems(4) room, where h = h and k = k]
    have "tags_serialize_from r n (tn_next d) w maxSize (of_nat ?p) ?out =
        tags_serialize_from r (Suc n) cur w maxSize (of_nat p) out"
      using d le h(1) r4 size
        write_one [OF Suc.prems(4) room Suc.prems(8), of h "tags_serialize_from r n (tn_next d) w maxSize (of_nat ?p)"] by (simp add: Let_def add.assoc)
    moreover obtain out' where o: "tags_serialize_from r n (tn_next d) w maxSize (of_nat ?p) ?out = Inr (1, out')"
      "length out' = length ?out" "wire_tags r out' ?p ?vs" "in_u32 0 out' = Inr (k + 1 + of_nat (length ys))"
      "\<And>q m. 4 \<le> q \<Longrightarrow> q + m \<le> ?p \<Longrightarrow> in_read (of_nat q) (of_nat m) out' = in_read (of_nat q) (of_nat m) ?out"
      using Suc.IH [OF d(3), of ?p ?out "k + 1"] Suc.prems(2,3,4) Cons lim t(1,2) by auto
    moreover have "wire_tags r out' p (values_at w xs)"
      using o(3) o(5) [of p 4] o(5) [of "p + 4" 4] o(5) [of "p + 8" "length ?bs"] t(3-5) h(1) Suc.prems(4) pad vs by simp
    moreover have "in_read (of_nat q) (of_nat m) out' = in_read (of_nat q) (of_nat m) out" if "4 \<le> q" "q + m \<le> p" for q m
      using o(5) [of q m] t(6) [of q m] that room(2) by simp
    ultimately show ?thesis
      using t(1) Cons by (auto simp: add.assoc)
  qed
qed simp

lemma size_from_ok:
  "chain w cur xs None \<Longrightarrow> length xs < n \<Longrightarrow> (\<And>a. a \<in> set xs \<Longrightarrow> node_ok (node_at w a)) \<Longrightarrow>
   wire_size (values_at w xs) < 2 ^ 30 \<Longrightarrow> tags_size_from n cur w sz = Inr (sz + of_nat (wire_size (values_at w xs)))"
proof (induction n arbitrary: cur xs sz)
  case (Suc n)
  show ?case
  proof (cases xs)
    case Nil
    then show ?thesis
      using Suc.prems by simp
  next
    case (Cons a ys)
    then obtain d where d: "cur = Some a" "tw_node w a = Some d" "chain w (tn_next d) ys None"
      using Suc.prems(1) by auto
    have lim: "8 + padded (length (tn_data d)) + wire_size (values_at w ys) < 2 ^ 30"
      using Suc.prems(4) Cons d(2) by (simp add: node_value_def)
    have "node_ok d"
      using Suc.prems(3) [of a] Cons d(2) by simp
    then have "round4 (tn_size d) = of_nat (padded (length (tn_data d)))"
      using round4_size(2) [of d] padded_ge [of "length (tn_data d)"] lim by simp
    then show ?thesis
      using Suc.IH [OF d(3)] Suc.prems(2,3) Cons d lim by (simp add: node_value_def add.assoc)
  qed
qed simp


lemma tags_serialized_size_ok:
  assumes "tags_ok w H" and "holds w m vs" and "wire_size vs < 2 ^ 30"
  shows "tags_serialized_size (m, w) = Inr (of_nat (4 + wire_size vs))"
proof -
  from assms(2) obtain xs where xs: "chain w m xs None" "vs = values_at w xs"
    by (auto simp: holds_def)
  have "node_ok (node_at w a)" if "a \<in> set xs" for a
    using chain_in [OF xs(1) that] tags_ok_node [OF assms(1)] by fastforce
  from size_from_ok [OF xs(1) chain_fuel [OF assms(1) xs(1)] this, of 4] show ?thesis
    using assms(3) xs(2) by (simp add: tags_serialized_size_def)
qed

definition tags_known :: "iid_manager \<Rightarrow> (16 word \<times> bytes) list \<Rightarrow> bool" where
  "tags_known r vs \<longleftrightarrow> (\<forall>v \<in> set vs. \<exists>h. iid_get_hash (fst v) r = Inr h)"

lemma tags_serialize_ok:
  assumes "tags_ok w H" and "holds w m vs" and "tags_known r vs" and "4 + wire_size vs < 2 ^ 30"
    and "4 + wire_size vs \<le> length out" and "4 + wire_size vs \<le> unat maxSize"
  shows "\<exists>out'. tags_serialize r maxSize out (m, w) = Inr (1, out') \<and> length out' = length out \<and>
    wire_tags r out' 4 vs \<and> in_u32 0 out' = Inr (of_nat (length vs))"
proof -
  from assms(2) obtain xs where xs: "chain w m xs None" "vs = values_at w xs"
    by (auto simp: holds_def)
  let ?out = "splice 0 (le_bytes 4 (0 :: 32 word)) out"
  have ok: "node_ok (node_at w a) \<and> (\<exists>h. iid_get_hash (tn_tid (node_at w a)) r = Inr h)" if a: "a \<in> set xs" for a
  proof -
    obtain d where d: "tw_node w a = Some d"
      using chain_in [OF xs(1) a] by blast
    have "node_value d \<in> set vs"
      using a d xs(2) by (force simp: values_at_def)
    then show ?thesis
      using assms(3) tags_ok_node [OF assms(1) d] d unfolding tags_known_def by (auto simp: node_value_def)
  qed
  have w: "out_write 0 (le_bytes 4 (0 :: 32 word)) out = Inr ?out"
    using out_write_nat [of 0 "le_bytes 4 (0 :: 32 word)" out] assms(5) by simp
  have l: "length ?out = length out"
    using assms(5) by (intro splice_length) simp
  have "in_read 0 4 ?out = Inr (le_bytes 4 (0 :: 32 word))"
    using read_back [of 0 "le_bytes 4 (0 :: 32 word)" out 4] assms(5) by simp
  then have k: "in_u32 0 ?out = Inr (0 :: 32 word)"
    by (rule in_u32_le)
  have lim: "(4 :: 32 word) \<le> maxSize"
    using assms(6) by (simp add: word_le_nat_alt)
  have "length xs = length vs"
    using xs(2) by (simp add: values_at_def)
  then show ?thesis
    using serialize_from_ok [OF xs(1) chain_fuel [OF assms(1) xs(1)] ok, of 4 ?out maxSize 0] assms(4-6) xs(2) l k w lim
    by (auto simp: tags_serialize_def)
qed

section \<open>Reading\<close>

lemma deserialize_from_ok:
  assumes "iid_ok r" and "wire_tags r inp p vs" and "4 \<le> p" and "p + wire_size vs < 2 ^ 30" and "p + wire_size vs \<le> length inp"
    and "tags_ok w (add_mset m H)" and "chain w m us None" and "own_nodes w us"
  shows "\<exists>m' w'. tags_deserialize_from r (length vs) inp (of_nat p) (of_nat (wire_size vs)) (link_of us) (m, w) =
      Inr (1, m', w') \<and> tags_ok w' (add_mset m' H) \<and> tags_keep H w w' \<and> holds w' m' (values_at w us @ vs)"
  using assms(2-)
proof (induction vs arbitrary: p m w us)
  case Nil
  then show ?case
    by (auto simp: holds_def)
next
  case (Cons v vs)
  let ?n = "length (snd v)" and ?pad = "padded (length (snd v))"
  note pad = padded_ge [of ?n]
  obtain h where v: "in_u32 (of_nat p) inp = Inr (of_nat ?n :: 32 word)" "iid_get_hash (fst v) r = Inr h"
    "in_u32 (of_nat (p + 4)) inp = Inr h" "in_read (of_nat (p + 8)) (of_nat ?n) inp = Inr (snd v)"
    "wire_tags r inp (p + 8 + ?pad) vs"
    using Cons.prems(1) by (auto intro: in_u32_le)
  have tid: "tid_lookup_by_hash h r = Inr (fst v)"
    by (rule lookup_of_hash [OF assms(1) v(2)])
  have n: "?n < 2 ^ 30" "?pad < 2 ^ 32" "8 + ?pad + wire_size vs < 2 ^ 30"
    using Cons.prems(3) pad by simp_all
  have un: "unat (of_nat ?n :: 32 word) = ?n"
    by (rule unat_nat32) (use n in simp)
  have r4: "round4 (of_nat ?n :: 32 word) = of_nat ?pad"
    unfolding word_unat_eq_iff unat_round4_padded [OF n(1)] unat_nat32 [OF n(2)] by (rule refl)
  let ?a = "tw_next w"
  let ?e = "\<lparr>tn_next = None, tn_count = 1, tn_tid = fst v, tn_size = of_nat ?n, tn_data = snd v\<rparr>"
  let ?w = "(tw_put ?a ?e w)\<lparr>tw_next := Suc ?a\<rparr>"
  have small: "(of_nat ?n :: 32 word) < - 1"
    using n(1) un by (simp add: word_less_nat_alt unsigned_minus_1_eq_mask mask_eq_exp_minus_1)
  have e: "node_ok ?e"
    using un small by (simp add: node_ok_def)
  have "tags_ok w (add_mset None (add_mset m H))"
    using Cons.prems(5) by (simp add: tags_ok_drop_None)
  then have ok: "tags_ok ?w (add_mset (Some ?a) (add_mset m H))"
    using tags_ok_alloc [OF _ e] by simp
  have fresh: "?a \<notin> set us"
    using chain_in [OF Cons.prems(6), of ?a] tags_ok_fresh [OF Cons.prems(5), of ?a] by auto
  have same: "same_nodes (- {?a}) w ?w"
    by (simp add: same_nodes_def)
  have us: "chain ?w m us None"
    by (rule same_nodes_chain [OF Cons.prems(6) same_nodes_mono [OF same]]) (use fresh in auto)
  have "chain ?w (Some ?a) [?a] None"
    by simp
  from link_put_ok [OF ok us this] fresh obtain m' w' where
    w': "link_put (link_of us) (Some ?a) (m, ?w) = Inr (m', w')" "tags_ok w' (add_mset None (add_mset m' H))"
    "chain w' m' (us @ [?a]) None" "same_nodes (- set us) ?w w'"
    "\<And>a. node_value (node_at w' a) = node_value (node_at ?w a) \<and> tn_count (node_at w' a) = tn_count (node_at ?w a)"
    by auto
  have own: "own_nodes w' (us @ [?a])"
    using w'(5) Cons.prems(7) fresh by (auto simp: own_nodes_def)
  have vals: "values_at w' (us @ [?a]) = values_at w us @ [v]"
  proof -
    have "values_at w' (us @ [?a]) = values_at ?w (us @ [?a])"
      by (rule values_at_cong) (use w'(5) in blast)
    also have "values_at ?w us = values_at w us"
      by (rule same_nodes_values [OF Cons.prems(6) same_nodes_mono [OF same]]) (use fresh in auto)
    then have "values_at ?w (us @ [?a]) = values_at w us @ [v]"
      by (simp add: node_value_def)
    finally show ?thesis .
  qed
  have "set us \<inter> reached w H = {}"
    by (rule own_not_reached [of _ _ _ us "[]"]) (use Cons.prems(5-7) in simp_all)
  moreover have "?a \<notin> reached w H"
    by (rule fresh_not_reached [OF Cons.prems(5)])
  ultimately have "same_nodes (reached w H) w w'"
    using same_nodes_mono [OF same, of "reached w H"] same_nodes_mono [OF w'(4), of "reached w H"] same_nodes_trans by blast
  then have keep: "tags_keep H w w'"
    by (rule tags_keep_same)
  have link: "link_of (us @ [?a]) = To_next ?a"
    by (simp add: link_of_def)
  obtain m2 w2 where IH: "tags_deserialize_from r (length vs) inp (of_nat (p + 8 + ?pad)) (of_nat (wire_size vs)) (To_next ?a) (m', w') =
      Inr (1, m2, w2)" "tags_ok w2 (add_mset m2 H)" "tags_keep H w' w2" "holds w2 m2 (values_at w us @ v # vs)"
    using Cons.IH [OF v(5) _ _ _ _ w'(3) own] Cons.prems(2-4) w'(2) vals link by (auto simp: tags_ok_drop_None)
  have "tags_deserialize_from r (length (v # vs)) inp (of_nat p) (of_nat (wire_size (v # vs))) (link_of us) (m, w) =
      tags_deserialize_from r (length vs) inp (of_nat (p + 8 + ?pad)) (of_nat (wire_size vs)) (To_next ?a) (m', w')" (is "?l = _")
  proof -
    have c: "(4 :: 32 word) \<le> of_nat (8 + ?pad + wire_size vs)" "(4 :: 32 word) \<le> of_nat (8 + ?pad + wire_size vs) - 4"
      "(of_nat ?n :: 32 word) \<le> of_nat (8 + ?pad + wire_size vs) - 4 - 4"
    proof -
      have "(of_nat (8 + ?pad + wire_size vs) :: 32 word) - 4 = of_nat (4 + ?pad + wire_size vs)"
        "(of_nat (8 + ?pad + wire_size vs) :: 32 word) - 4 - 4 = of_nat (?pad + wire_size vs)"
        by simp_all
      moreover have "(of_nat 4 :: 32 word) \<le> of_nat (8 + ?pad + wire_size vs)" "(of_nat 4 :: 32 word) \<le> of_nat (4 + ?pad + wire_size vs)"
        "(of_nat ?n :: 32 word) \<le> of_nat (?pad + wire_size vs)"
        using n pad by (auto intro!: nat32_mono simp del: of_nat_numeral of_nat_add)
      ultimately show "(4 :: 32 word) \<le> of_nat (8 + ?pad + wire_size vs)" "(4 :: 32 word) \<le> of_nat (8 + ?pad + wire_size vs) - 4"
        "(of_nat ?n :: 32 word) \<le> of_nat (8 + ?pad + wire_size vs) - 4 - 4"
        by (simp_all only: of_nat_numeral)
    qed
    have d: "(of_nat (p + 8 + ?pad) :: 32 word) = of_nat p + 4 + 4 + of_nat ?pad"
      "(of_nat (wire_size vs) :: 32 word) = of_nat (8 + ?pad + wire_size vs) - 4 - 4 - of_nat ?pad"
      "(of_nat (p + 8) :: 32 word) = of_nat p + 4 + 4" "(of_nat (p + 4) :: 32 word) = of_nat p + 4"
      by simp_all
    have a: "create_tag_data (of_nat ?n) w = Inr (?a, \<lparr>tn_next = None, tn_count = 0, tn_tid = 0, tn_size = of_nat ?n,
        tn_data = map (tw_junk w ?a) [0..<?n]\<rparr>, (tw_put ?a \<lparr>tn_next = None, tn_count = 0, tn_tid = 0, tn_size = of_nat ?n,
        tn_data = map (tw_junk w ?a) [0..<?n]\<rparr> w)\<lparr>tw_next := Suc ?a\<rparr>)"
      using small un by (simp add: create_tag_data_def Let_def)
    show ?thesis
      using c v(1,3,4) w'(1) unfolding d by (simp only: length_Cons tags_deserialize_from.simps wire_size.simps
        ns_assert_simps res_bind_simps Let_def tid a r4 prod.case snd_conv fst_conv tag_node.simps) simp
  qed
  then have "?l = Inr (1, m2, w2)"
    using IH(1) by (rule trans)
  then show ?case
    using IH(2,4) tags_keep_trans [OF keep IH(3)] by blast
qed

lemma wire_count: "length vs \<le> wire_size vs"
  by (induction vs) simp_all

lemma tags_deserialize_ok:
  assumes "iid_ok r" and "wire_tags r inp 4 vs" and "in_u32 0 inp = Inr (of_nat (length vs))" and "4 + wire_size vs < 2 ^ 30"
    and "4 + wire_size vs \<le> length inp" and "tags_ok w H"
  shows "\<exists>m w'. tags_deserialize r inp (of_nat (4 + wire_size vs) + 4) (None, w) = Inr (1, m, w') \<and>
    tags_ok w' (add_mset m H) \<and> tags_keep H w w' \<and> holds w' m vs"
proof -
  obtain m w' where d: "tags_deserialize_from r (length vs) inp (of_nat 4) (of_nat (wire_size vs)) (link_of []) (None, w) =
      Inr (1, m, w')" "tags_ok w' (add_mset m H)" "tags_keep H w w'" "holds w' m vs"
    using deserialize_from_ok [OF assms(1,2), of w None H "[]"] assms(4-6) by (auto simp: tags_ok_drop_None own_nodes_def)
  have u: "unat (of_nat (length vs) :: 32 word) = length vs"
    by (rule unat_nat32) (use wire_count [of vs] assms(4) in simp)
  have "(of_nat 4 :: 32 word) \<le> of_nat (4 + wire_size vs)"
    using assms(4) by (intro nat32_mono) simp_all
  then have "4 \<le> (of_nat (4 + wire_size vs) :: 32 word)"
    by (simp only: of_nat_numeral)
  then have "tags_deserialize r inp (of_nat (4 + wire_size vs) + 4) (None, w) = Inr (1, m, w')"
    using d(1) assms(3) u by (simp add: tags_deserialize_def link_of_def Let_def)
  then show ?thesis
    using d(2-4) by blast
qed

end
