(* ===== verification/Packet_Tags_Properties.thy ===== *)
theory Packet_Tags_Properties
  imports Packet_Tags_Sessions Packet_Tags_Wire
begin

text \<open>
  The properties of \<open>PacketTagList\<close>, for the lists of any session that starts without nodes: sharing cannot be seen,
  the counts are exact, the tags are serialised and read back, and replacing a tag in place keeps its size.
\<close>

lemma tags_session_ok:
  assumes "tags_ops_ok xs []" and "tags_run xs ([], tags_fresh junk) = Inr (out, ms, w)"
  shows "lists_ok (ms, w) (snd (vals_run xs []))"
  using tags_run_ok [OF lists_ok_fresh assms(1), of junk] assms(2) by auto

text \<open>C6: Copy-on-write sharing of packet tags cannot be seen. Whatever is done to any number of tag lists in any
  order - creation, copies, assignment (to itself too), destruction, \<open>RemoveAll\<close>, \<open>Add\<close>, \<open>Remove\<close>, \<open>Replace\<close>, \<open>Peek\<close> - every
  loop ends, no assertion fails, no node is used after it was freed, every call returns what it would return for
  a list of types and bytes, and at the end every list holds the tags that it would hold if it were one of its own. The tags
  write as many bytes as they announce, and a tag replaces one of its size.\<close>

theorem tag_lists_are_values:
  assumes "tags_ops_ok xs []"
  shows "\<exists>ms w. tags_run xs ([], tags_fresh junk) = Inr (fst (vals_run xs []), ms, w) \<and>
    list_all2 (holds w) ms (snd (vals_run xs []))"
  using tags_run_ok [OF lists_ok_fresh assms, of junk] by (auto simp: lists_ok_def)

definition demo_tag :: "16 word \<Rightarrow> bytes \<Rightarrow> tag" where
  "demo_tag tid bs = \<lparr>tag_tid = tid, tag_size = of_nat (length bs), tag_bytes = bs\<rparr>"

text \<open>The second list is a copy; its first tag is new, the one behind it is shared when it is removed.\<close>

definition demo_session :: "tags_op list" where
  "demo_session =
     [Tags_create, Tags_add 0 (demo_tag 1 [10]), Tags_add 0 (demo_tag 2 [20, 21]), Tags_copy 0,
      Tags_add 1 (demo_tag 3 []), Tags_remove 1 1, Tags_replace 0 (demo_tag 2 [30, 31]), Tags_assign 0 0, Tags_peek 1 2]"

lemma demo_tag_fits: "length bs < 2 ^ 31 \<Longrightarrow> tag_fits (demo_tag tid bs)"
  by (simp add: demo_tag_def tag_fits_def tag_ok_def unat_nat32 word_less_nat_alt unsigned_minus_1_eq_mask mask_eq_exp_minus_1)

lemma demo_tag_parts [simp]: "tag_tid (demo_tag tid bs) = tid" "tag_bytes (demo_tag tid bs) = bs"
  by (simp_all add: demo_tag_def)

lemma demo_session_ok:
  "tags_ops_ok demo_session []"
  "vals_run demo_session [] =
    ([(True, Some [10]), (True, None), (True, Some [20, 21])], [[(2, [30, 31]), (1, [10])], [(3, []), (2, [20, 21])]])"
  by (simp_all add: demo_session_def demo_tag_fits tags_total_def replaced_tag_def)

theorem tag_lists_are_values_witness:
  "\<exists>ms w. tags_run demo_session ([], tags_fresh (\<lambda>_ _. 0)) =
      Inr ([(True, Some [10]), (True, None), (True, Some [20, 21])], ms, w) \<and>
    list_all2 (holds w) ms [[(2, [30, 31]), (1, [10])], [(3, []), (2, [20, 21])]]"
  using tag_lists_are_values [OF demo_session_ok(1), of "\<lambda>_ _. 0"] by (simp only: demo_session_ok(2) fst_conv snd_conv)

lemma count_same: "count (mset xs) x = length (filter (\<lambda>y. y = x) xs)"
  by (induction xs) simp_all

text \<open>C12: No node is lost and none is freed too early. In every session the count of a node is the number of the lists
  that start with it and of the nodes that point to it, as the picture in the header file has it, and every node is
  reached from some list; so when every list is destroyed no node is left.\<close>

theorem tag_counts_exact:
  assumes "tags_ops_ok xs []" and "tags_run xs ([], tags_fresh junk) = Inr (out, ms, w)"
  shows "(\<forall>a d. tw_node w a = Some d \<longrightarrow>
      unat (tn_count d) = length (filter (\<lambda>m. m = Some a) ms) + card {b. \<exists>e. tw_node w b = Some e \<and> tn_next e = Some a} \<and>
      tn_count d > 0 \<and> (\<exists>m \<in> set ms. \<exists>us zs. chain w m (us @ a # zs) None)) \<and>
    (ms = [] \<longrightarrow> tw_node w = (\<lambda>_. None))"
proof -
  have ok: "tags_ok w (mset ms)"
    using tags_session_ok [OF assms] by (simp add: lists_ok_def)
  have r: "\<exists>m \<in> set ms. \<exists>us zs. chain w m (us @ a # zs) None" if n: "tw_node w a = Some d" for a d
  proof -
    have "a \<in> reached w (mset ms)"
      using nodes_reached [OF ok] n by auto
    then obtain m ys where "m \<in> set ms" "chain w m ys None" "a \<in> set ys"
      by (auto simp: reached_def)
    then show ?thesis
      using split_list [of a ys] by blast
  qed
  have c: "unat (tn_count d) = length (filter (\<lambda>m. m = Some a) ms) + card {b. \<exists>e. tw_node w b = Some e \<and> tn_next e = Some a}"
    if n: "tw_node w a = Some d" for a d
    using tags_ok_node [OF ok n] count_same [of ms "Some a"] by (simp add: links_def preds_def)
  have "ms = [] \<longrightarrow> tw_node w = (\<lambda>_. None)"
    using r by fastforce
  then show ?thesis
    using r c tags_ok_node [OF ok] by blast
qed

theorem tag_counts_exact_witness:
  "\<exists>ms w. tags_run (demo_session @ [Tags_destroy 0, Tags_destroy 0]) ([], tags_fresh (\<lambda>_ _. 0)) =
      Inr ([(True, Some [10]), (True, None), (True, Some [20, 21])], ms, w) \<and> ms = [] \<and> tw_node w = (\<lambda>_. None)"
proof -
  let ?xs = "demo_session @ [Tags_destroy 0, Tags_destroy 0]"
  have ok: "tags_ops_ok ?xs []"
    by (simp add: demo_session_def demo_tag_fits tags_total_def replaced_tag_def drop_at_def)
  have vals: "vals_run ?xs [] = ([(True, Some [10]), (True, None), (True, Some [20, 21])], [])"
    by (simp add: demo_session_def replaced_tag_def drop_at_def)
  obtain ms w where r: "tags_run ?xs ([], tags_fresh (\<lambda>_ _. 0)) =
      Inr ([(True, Some [10]), (True, None), (True, Some [20, 21])], ms, w)" "lists_ok (ms, w) []"
    using tags_run_ok [OF lists_ok_fresh ok, of "\<lambda>_ _. 0"] unfolding vals by auto
  then have "ms = []"
    by (simp add: lists_ok_def)
  then show ?thesis
    using tag_counts_exact [OF ok r(1)] r(1) by blast
qed

text \<open>Serialised tags are read back. The buffer of \<open>GetSerializedSize\<close> bytes is exactly large enough for
  \<open>Serialize\<close>, and \<open>Deserialize\<close> makes of it, in an empty list, the same tags in the same order: their types, found again
  from the hashes of any registered names, and their bytes. No other list changes.\<close>

theorem tags_wire_roundtrip:
  assumes "tags_ops_ok xs []" and "tags_run xs ([], tags_fresh junk) = Inr (ans, ms, w)"
    and "iid_register hasher names iid_empty = Inr r" and "i < length ms" and "vs = snd (vals_run xs []) ! i"
    and "\<forall>v \<in> set vs. fst v \<noteq> 0 \<and> unat (fst v) \<le> length names" and "4 + wire_size vs < 2 ^ 30"
    and "length out = 4 + wire_size vs"
  shows "\<exists>sz out' m w'. tags_serialized_size (ms ! i, w) = Inr sz \<and> unat sz = length out \<and>
    tags_serialize r sz out (ms ! i, w) = Inr (1, out') \<and> tags_deserialize r out' (sz + 4) (None, w) = Inr (1, m, w') \<and>
    list_all2 (holds w') (ms @ [m]) (snd (vals_run xs []) @ [vs])"
proof -
  note l = tags_session_ok [OF assms(1,2)]
  have i: "i < length (snd (vals_run xs []))"
    using l assms(4) by (auto simp: lists_ok_def dest: list_all2_lengthD)
  note h = lists_ok_at(2) [OF l i, folded assms(5)]
  have ok: "tags_ok w (mset ms)"
    using l by (simp add: lists_ok_def)
  have reg: "iid_ok r" "length (iid_information r) = length names"
    using iid_ok_register [OF iid_ok_empty assms(3)] by (auto simp: iid_empty_def dest: map_eq_imp_length_eq)
  have known: "tags_known r vs"
    using assms(6) reg(2) by (auto simp: tags_known_def iid_get_hash_def iid_lookup_information_def)
  let ?sz = "of_nat (4 + wire_size vs) :: 32 word"
  have sz: "unat ?sz = 4 + wire_size vs"
    by (rule unat_nat32) (use assms(7) in simp)
  obtain out' where o: "tags_serialize r ?sz out (ms ! i, w) = Inr (1, out')" "length out' = length out"
    "wire_tags r out' 4 vs" "in_u32 0 out' = Inr (of_nat (length vs))"
    using tags_serialize_ok [OF ok h known assms(7), of out ?sz] assms(8) sz by auto
  obtain m w' where d: "tags_deserialize r out' (?sz + 4) (None, w) = Inr (1, m, w')" "tags_ok w' (add_mset m (mset ms))"
    "tags_keep (mset ms) w w'" "holds w' m vs"
    using tags_deserialize_ok [OF reg(1) o(3,4) assms(7) _ ok] assms(8) o(2) by auto
  have "tags_serialized_size (ms ! i, w) = Inr ?sz"
    using assms(7) by (intro tags_serialized_size_ok [OF ok h]) simp
  moreover have "list_all2 (holds w') (ms @ [m]) (snd (vals_run xs []) @ [vs])"
    using lists_ok_add [OF l d(2-4)] by (simp add: lists_ok_def)
  ultimately show ?thesis
    using o(1) d(1) sz assms(8) by metis
qed

theorem tags_wire_roundtrip_witness:
  "\<exists>ms w r sz out' m w'.
    tags_run demo_session ([], tags_fresh (\<lambda>_ _. 0)) = Inr ([(True, Some [10]), (True, None), (True, Some [20, 21])], ms, w) \<and>
    tags_serialize r sz (replicate 28 0) (ms ! 0, w) = Inr (1, out') \<and>
    tags_deserialize r out' (sz + 4) (None, w) = Inr (1, m, w') \<and>
    list_all2 (holds w') (ms @ [m]) [[(2, [30, 31]), (1, [10])], [(3, []), (2, [20, 21])], [(2, [30, 31]), (1, [10])]]"
proof -
  obtain ms w where s: "tags_run demo_session ([], tags_fresh (\<lambda>_ _. 0)) =
      Inr ([(True, Some [10]), (True, None), (True, Some [20, 21])], ms, w)"
    "lists_ok (ms, w) [[(2, [30, 31]), (1, [10])], [(3, []), (2, [20, 21])]]"
    using tags_run_ok [OF lists_ok_fresh demo_session_ok(1), of "\<lambda>_ _. 0"] unfolding demo_session_ok(2) by auto
  have "\<exists>r. iid_register (\<lambda>s. of_nat (size s)) [''ns3::Tag'', ''ns3::LongTag''] iid_empty = Inr r"
    by (simp add: tid_create_def iid_allocate_uid_def iid_empty_def HashChainFlag_def iid_append_def map_put_new_def
        iid_uid_of_hash_def)
  then obtain r where r: "iid_register (\<lambda>s. of_nat (size s)) [''ns3::Tag'', ''ns3::LongTag''] iid_empty = Inr r"
    by blast
  have ms: "length ms = 2"
    using s(2) by (auto simp: lists_ok_def dest: list_all2_lengthD)
  show ?thesis
    using tags_wire_roundtrip [OF demo_session_ok(1) s(1) r, of 0 "[(2, [30, 31]), (1, [10])]" "replicate 28 0"] ms s(1)
    unfolding demo_session_ok(2) by (fastforce simp: padded_def)
qed

text \<open>C36: \<open>Replace\<close> of a tag that the list has. When a node up to the first one with the type is shared, the tag is
  replaced by the new one, whatever their sizes. When none of them is, the node keeps its size: a larger tag
  runs into the assertion of \<open>TagBuffer\<close>, and behind a smaller one the end of the old bytes stays and belongs to
  the tag. No other list changes.\<close>

theorem replace_keeps_size:
  assumes "tags_ops_ok xs []" and "tags_run xs ([], tags_fresh junk) = Inr (out, ms, w)" and "snd (vals_run xs []) = vss"
    and "i < length vss" and "tags_total vss < 2 ^ 32 - 3" and "tag_fits t"
    and "map_of (vss ! i) (tag_tid t) = Some old" and "chain w (ms ! i) ns None"
  shows "if own_until w (tag_tid t) ns then
      if length old < length (tag_bytes t) then tags_replace t (ms ! i, w) = Inl Assert_failed
      else \<exists>m w'. tags_replace t (ms ! i, w) = Inr (True, m, w') \<and> list_all2 (holds w') (ms[i := m])
        (vss[i := with_tag (tag_tid t) (tag_bytes t @ drop (length (tag_bytes t)) old) (vss ! i)])
    else \<exists>m w'. tags_replace t (ms ! i, w) = Inr (True, m, w') \<and> list_all2 (holds w') (ms[i := m])
      (vss[i := with_tag (tag_tid t) (tag_bytes t) (vss ! i)])"
proof -
  have l: "lists_ok (ms, w) vss"
    using tags_session_ok [OF assms(1,2)] assms(3) by simp
  have v: "vss ! i = values_at w ns"
    using lists_ok_at(2) [OF l assms(4)] holds_iff [OF assms(8)] by simp
  have "size (mset (drop_at i ms)) + 2 + card (dom (tw_node w)) + length ns < 2 ^ 32 - 1"
    using lists_room(1) [OF l assms(5,4)] v by simp
  from tags_replace_sizes [OF lists_ok_at(5) [OF l assms(4)] assms(8) assms(7) [unfolded v] this assms(6)]
  have r: "if own_until w (tag_tid t) ns then
      if length old < length (tag_bytes t) then tags_replace t (ms ! i, w) = Inl Assert_failed
      else \<exists>s. tags_replace t (ms ! i, w) = Inr (True, s) \<and> list_becomes (mset (drop_at i ms)) w
        (with_tag (tag_tid t) (tag_bytes t @ drop (length (tag_bytes t)) old) (vss ! i)) s
    else \<exists>s. tags_replace t (ms ! i, w) = Inr (True, s) \<and>
      list_becomes (mset (drop_at i ms)) w (with_tag (tag_tid t) (tag_bytes t) (vss ! i)) s"
    unfolding v .
  have "list_all2 (holds w') (ms[i := m]) (vss[i := vs])" if "list_becomes (mset (drop_at i ms)) w vs (m, w')" for vs m w'
    using list_becomes_set [OF l assms(4) that] by (simp add: lists_ok_def)
  with r show ?thesis
    by (auto split: if_splits)
qed

text \<open>A tag of two bytes behind another one is replaced by one of three and by one of one byte, and by one of three bytes
  after the list was copied: the copy keeps the old tag.\<close>

definition demo_two_tags :: "tags_op list" where
  "demo_two_tags = [Tags_create, Tags_add 0 (demo_tag 5 [1, 2]), Tags_add 0 (demo_tag 6 [])]"

lemma demo_two_tags_ok:
  "tags_ops_ok demo_two_tags []" "snd (vals_run demo_two_tags []) = [[(6, []), (5, [1, 2])]]"
  "tags_ops_ok (demo_two_tags @ [Tags_copy 0]) []"
  "snd (vals_run (demo_two_tags @ [Tags_copy 0]) []) = [[(6, []), (5, [1, 2])], [(6, []), (5, [1, 2])]]"
  by (simp_all add: demo_two_tags_def demo_tag_fits tags_total_def)

lemma demo_two_tags_runs:
  "case tags_run demo_two_tags ([], tags_fresh (\<lambda>_ _. 0)) of Inl _ \<Rightarrow> False
   | Inr (out, ms, w) \<Rightarrow> ms = [Some 1] \<and> map_option tn_next (tw_node w 1) = Some (Some 0) \<and>
       map_option tn_next (tw_node w 0) = Some None \<and> own_until w 5 [1, 0]"
  "case tags_run (demo_two_tags @ [Tags_copy 0]) ([], tags_fresh (\<lambda>_ _. 0)) of Inl _ \<Rightarrow> False
   | Inr (out, ms, w) \<Rightarrow> ms = [Some 1, Some 1] \<and> map_option tn_next (tw_node w 1) = Some (Some 0) \<and>
       map_option tn_next (tw_node w 0) = Some None \<and> \<not> own_until w 5 [1, 0]"
  by code_simp+

theorem replace_keeps_size_witness:
  "(\<exists>out ms w. tags_run demo_two_tags ([], tags_fresh (\<lambda>_ _. 0)) = Inr (out, ms, w) \<and>
     tags_replace (demo_tag 5 [7, 8, 9]) (ms ! 0, w) = Inl Assert_failed \<and>
     (\<exists>m w'. tags_replace (demo_tag 5 [7]) (ms ! 0, w) = Inr (True, m, w') \<and>
        list_all2 (holds w') (ms[0 := m]) [[(6, []), (5, [7, 2])]])) \<and>
   (\<exists>out ms w m w'. tags_run (demo_two_tags @ [Tags_copy 0]) ([], tags_fresh (\<lambda>_ _. 0)) = Inr (out, ms, w) \<and>
     tags_replace (demo_tag 5 [7, 8, 9]) (ms ! 0, w) = Inr (True, m, w') \<and>
     list_all2 (holds w') (ms[0 := m]) [[(6, []), (5, [7, 8, 9])], [(6, []), (5, [1, 2])]])"
proof
  obtain out ms w where s: "tags_run demo_two_tags ([], tags_fresh (\<lambda>_ _. 0)) = Inr (out, ms, w)" "ms = [Some 1]"
    "chain w (ms ! 0) [1, 0] None" "own_until w 5 [1, 0]"
    using demo_two_tags_runs(1) by (auto split: sum.splits)
  note use = replace_keeps_size [OF demo_two_tags_ok(1) s(1) demo_two_tags_ok(2) _ _ _ _ s(3)]
  show "\<exists>out ms w. tags_run demo_two_tags ([], tags_fresh (\<lambda>_ _. 0)) = Inr (out, ms, w) \<and>
     tags_replace (demo_tag 5 [7, 8, 9]) (ms ! 0, w) = Inl Assert_failed \<and>
     (\<exists>m w'. tags_replace (demo_tag 5 [7]) (ms ! 0, w) = Inr (True, m, w') \<and>
        list_all2 (holds w') (ms[0 := m]) [[(6, []), (5, [7, 2])]])"
    using s(1,4) use [of "demo_tag 5 [7, 8, 9]" "[1, 2]"] use [of "demo_tag 5 [7]" "[1, 2]"]
    by (intro exI [of _ out] exI [of _ ms] exI [of _ w]) (simp add: demo_tag_fits tags_total_def del: own_until.simps)
next
  obtain out ms w where s: "tags_run (demo_two_tags @ [Tags_copy 0]) ([], tags_fresh (\<lambda>_ _. 0)) = Inr (out, ms, w)"
    "ms = [Some 1, Some 1]" "chain w (ms ! 0) [1, 0] None" "\<not> own_until w 5 [1, 0]"
    using demo_two_tags_runs(2) by (auto split: sum.splits)
  note use = replace_keeps_size [OF demo_two_tags_ok(3) s(1) demo_two_tags_ok(4) _ _ _ _ s(3)]
  show "\<exists>out ms w m w'. tags_run (demo_two_tags @ [Tags_copy 0]) ([], tags_fresh (\<lambda>_ _. 0)) = Inr (out, ms, w) \<and>
     tags_replace (demo_tag 5 [7, 8, 9]) (ms ! 0, w) = Inr (True, m, w') \<and>
     list_all2 (holds w') (ms[0 := m]) [[(6, []), (5, [7, 8, 9])], [(6, []), (5, [1, 2])]]"
    using s(1,4) use [of "demo_tag 5 [7, 8, 9]" "[1, 2]"]
    by (intro exI [of _ out] exI [of _ ms] exI [of _ w]) (simp add: demo_tag_fits tags_total_def del: own_until.simps)
qed

end
