(* ===== verification/Byte_Tags.thy ===== *)
theory Byte_Tags
  imports Tag_Buffer Type_Registry
begin

unbundle bit_operations_syntax

text \<open>
  \<open>ByteTagList\<close> (\<open>src/network/model/byte-tag-list.cc\<close>, \<open>byte-tag-list.h\<close>): the tags of ranges of the bytes of a packet,
  one after the other in a block of memory that several lists share. An entry is the type, the size, the start and the end
  of the range and the bytes of the tag; the positions are relative to the adjustment of the list. The blocks are numbered;
  the free list has its last element first. A signed sum out of range is undefined behaviour.
\<close>

section \<open>Blocks\<close>

record byte_block =
  yb_size :: "32 word"
  yb_count :: "32 word"
  yb_dirty :: "32 word"
  yb_data :: bytes

record byte_world =
  yw_block :: "nat \<Rightarrow> byte_block option"
  yw_next :: nat
  yw_free :: "nat list"
  yw_maxSize :: "32 word"
  yw_junk :: "nat \<Rightarrow> nat \<Rightarrow> 8 word"

definition yw_put :: "nat \<Rightarrow> byte_block \<Rightarrow> byte_world \<Rightarrow> byte_world" where
  "yw_put a d w = w\<lparr>yw_block := (yw_block w)(a \<mapsto> d)\<rparr>"

definition yw_delete :: "nat \<Rightarrow> byte_world \<Rightarrow> byte_world" where
  "yw_delete a w = w\<lparr>yw_block := (yw_block w)(a := None)\<rparr>"

definition bt_new :: "32 word \<Rightarrow> byte_world \<Rightarrow> nat \<times> byte_world" where
  "bt_new sz w =
     (let a = yw_next w;
          d = \<lparr>yb_size = sz, yb_count = 1, yb_dirty = 0, yb_data = map (yw_junk w a) [0..<unat (max sz (yw_maxSize w))]\<rparr>
      in (a, (yw_put a d w)\<lparr>yw_next := a + 1\<rparr>))"

fun bt_allocate_from :: "32 word \<Rightarrow> nat list \<Rightarrow> byte_world \<Rightarrow> (nat \<times> byte_world) result" where
  "bt_allocate_from sz [] w = Inr (bt_new sz (w\<lparr>yw_free := []\<rparr>))"
| "bt_allocate_from sz (a # as) w =
     deref (yw_block w a) (\<lambda>d.
       if yb_size d \<ge> sz then Inr (a, (yw_put a (d\<lparr>yb_count := 1, yb_dirty := 0\<rparr>) w)\<lparr>yw_free := as\<rparr>)
       else bt_allocate_from sz as (yw_delete a w))"

definition bt_allocate :: "32 word \<Rightarrow> byte_world \<Rightarrow> (nat \<times> byte_world) result" where
  "bt_allocate sz w = bt_allocate_from sz (yw_free w) w"

definition bt_deallocate :: "nat option \<Rightarrow> byte_world \<Rightarrow> byte_world result" where
  "bt_deallocate p w =
     (case p of None \<Rightarrow> Inr w
      | Some a \<Rightarrow> deref (yw_block w a) (\<lambda>d.
          let w = w\<lparr>yw_maxSize := max (yw_maxSize w) (yb_size d)\<rparr>;
              d = d\<lparr>yb_count := yb_count d - 1\<rparr>; w = yw_put a d w
          in if yb_count d = 0 then
               (if length (yw_free w) > 1000 \<or> yb_size d < yw_maxSize w then Inr (yw_delete a w)
                else Inr (w\<lparr>yw_free := a # yw_free w\<rparr>))
             else Inr w))"

section \<open>Lists\<close>

definition int32 :: "int \<Rightarrow> int result" where
  "int32 k = (if - (2 ^ 31) \<le> k \<and> k < 2 ^ 31 then Inr k else Inl Undefined_behaviour)"

record byte_tags =
  bt_minStart :: int
  bt_maxEnd :: int
  bt_adjustment :: int
  bt_used :: "32 word"
  bt_data :: "nat option"

definition bt_empty :: byte_tags where
  "bt_empty = \<lparr>bt_minStart = 2 ^ 31 - 1, bt_maxEnd = - (2 ^ 31), bt_adjustment = 0, bt_used = 0, bt_data = None\<rparr>"

definition bt_share :: "nat option \<Rightarrow> byte_world \<Rightarrow> byte_world result" where
  "bt_share p w = (case p of None \<Rightarrow> Inr w | Some a \<Rightarrow> deref (yw_block w a) (\<lambda>d. Inr (yw_put a (d\<lparr>yb_count := yb_count d + 1\<rparr>) w)))"

definition bt_copy :: "byte_tags \<Rightarrow> byte_world \<Rightarrow> (byte_tags \<times> byte_world) result" where
  "bt_copy l w = res_map (Pair l) (bt_share (bt_data l) w)"

text \<open>\<open>l = o\<close> for two different objects\<close>

definition bt_assign :: "byte_tags \<Rightarrow> byte_tags \<Rightarrow> byte_world \<Rightarrow> (byte_tags \<times> byte_world) result" where
  "bt_assign l oth w = res_bind (bt_deallocate (bt_data l) w) (\<lambda>w. res_map (Pair oth) (bt_share (bt_data oth) w))"

definition bt_destroy :: "byte_tags \<Rightarrow> byte_world \<Rightarrow> byte_world result" where
  "bt_destroy l w = bt_deallocate (bt_data l) w"

definition bt_remove_all :: "byte_tags \<Rightarrow> byte_world \<Rightarrow> (byte_tags \<times> byte_world) result" where
  "bt_remove_all l w = res_map (Pair bt_empty) (bt_deallocate (bt_data l) w)"

definition bt_adjust :: "int \<Rightarrow> byte_tags \<Rightarrow> byte_tags result" where
  "bt_adjust k l = res_map (\<lambda>n. l\<lparr>bt_adjustment := n\<rparr>) (int32 (bt_adjustment l + k))"

definition bt_memory :: "byte_tags \<Rightarrow> byte_world \<Rightarrow> bytes" where
  "bt_memory l w = (case bt_data l of None \<Rightarrow> [] | Some a \<Rightarrow> (case yw_block w a of None \<Rightarrow> [] | Some d \<Rightarrow> yb_data d))"

text \<open>The block that an entry is added to: a first one, a larger or an own one, or the same.\<close>

definition bt_reserve :: "32 word \<Rightarrow> byte_tags \<Rightarrow> byte_world \<Rightarrow> (nat \<times> byte_tags \<times> byte_world) result" where
  "bt_reserve spaceNeeded l w =
     (case bt_data l of
       None \<Rightarrow> res_map (\<lambda>(a, w). (a, l\<lparr>bt_data := Some a, bt_used := 0\<rparr>, w)) (bt_allocate spaceNeeded w)
     | Some a \<Rightarrow> deref (yw_block w a) (\<lambda>d.
         if yb_size d < spaceNeeded \<or> yb_count d \<noteq> 1 \<and> yb_dirty d \<noteq> bt_used l then
           res_bind (bt_allocate spaceNeeded w) (\<lambda>(b, w).
           deref (yw_block w b) (\<lambda>e. deref (yw_block w a) (\<lambda>d.
             if unat (bt_used l) \<le> length (yb_data d) \<and> unat (bt_used l) \<le> length (yb_data e) then
               res_map (\<lambda>w. (b, l\<lparr>bt_data := Some b\<rparr>, w))
                 (bt_deallocate (Some a) (yw_put b (e\<lparr>yb_data := splice 0 (take (unat (bt_used l)) (yb_data d)) (yb_data e)\<rparr>) w))
             else Inl Undefined_behaviour)))
         else Inr (a, l, w)))"

text \<open>The window for the bytes of the tag is returned.\<close>

definition bt_add :: "16 word \<Rightarrow> 32 word \<Rightarrow> int \<Rightarrow> int \<Rightarrow> byte_tags \<Rightarrow> byte_world \<Rightarrow>
    (tag_buffer \<times> byte_tags \<times> byte_world) result" where
  "bt_add tid bufferSize start end l w =
     (let spaceNeeded = bt_used l + bufferSize + 4 + 4 + 4 + 4
      in ns_assert (bt_used l \<le> spaceNeeded)
        (res_bind (bt_reserve spaceNeeded l w) (\<lambda>(a, l, w). deref (yw_block w a) (\<lambda>d.
         res_bind (tb_write_u32 (ucast tid) (\<lparr>tb_current = unat (bt_used l), tb_end = unat spaceNeeded\<rparr>, yb_data d)) (\<lambda>t.
         res_bind (tb_write_u32 bufferSize t) (\<lambda>t.
         res_bind (int32 (start - bt_adjustment l)) (\<lambda>first.
         res_bind (tb_write_u32 (of_int first) t) (\<lambda>t.
         res_bind (int32 (end - bt_adjustment l)) (\<lambda>behind.
         res_bind (tb_write_u32 (of_int behind) t) (\<lambda>(b, m).
           Inr (b, l\<lparr>bt_minStart := (if first < bt_minStart l then first else bt_minStart l),
                     bt_maxEnd := (if behind > bt_maxEnd l then behind else bt_maxEnd l), bt_used := spaceNeeded\<rparr>,
                yw_put a (d\<lparr>yb_data := m, yb_dirty := spaceNeeded\<rparr>) w)))))))))))"

section \<open>Iterators\<close>

record byte_iter =
  yi_current :: nat
  yi_end :: nat
  yi_offsetStart :: int
  yi_offsetEnd :: int
  yi_adjustment :: int
  yi_nextTid :: "32 word"
  yi_nextSize :: "32 word"
  yi_nextStart :: int
  yi_nextEnd :: int

record byte_item =
  ym_tid :: "16 word"
  ym_size :: "32 word"
  ym_start :: int
  ym_end :: int
  ym_buf :: tag_buffer

text \<open>The distance to the next entry is a sum of 32 bits; when it is 0 the loop does not end.\<close>

fun yi_prepare_from :: "nat \<Rightarrow> bytes \<Rightarrow> byte_iter \<Rightarrow> byte_iter result" where
  "yi_prepare_from 0 m i = Inl Endless_loop"
| "yi_prepare_from (Suc n) m i =
     (if yi_current i < yi_end i then
        res_bind (tb_read_u32 (\<lparr>tb_current = yi_current i, tb_end = yi_end i\<rparr>, m)) (\<lambda>(nextTid, s).
        res_bind (tb_read_u32 s) (\<lambda>(nextSize, s).
        res_bind (tb_read_u32 s) (\<lambda>(nextStart, s).
        res_bind (tb_read_u32 s) (\<lambda>(nextEnd, s).
        let i = i\<lparr>yi_nextTid := nextTid, yi_nextSize := nextSize, yi_nextStart := sint (nextStart + of_int (yi_adjustment i)),
                  yi_nextEnd := sint (nextEnd + of_int (yi_adjustment i))\<rparr>
        in if yi_nextStart i \<ge> yi_offsetEnd i \<or> yi_nextEnd i \<le> yi_offsetStart i
           then yi_prepare_from n m (i\<lparr>yi_current := yi_current i + unat (4 + 4 + 4 + 4 + yi_nextSize i)\<rparr>)
           else Inr i))))
      else Inr i)"

definition yi_prepare :: "bytes \<Rightarrow> byte_iter \<Rightarrow> byte_iter result" where
  "yi_prepare m i = yi_prepare_from (Suc (yi_end i - yi_current i)) m i"

definition yi_has_next :: "byte_iter \<Rightarrow> bool" where
  "yi_has_next i \<longleftrightarrow> yi_current i < yi_end i"

definition yi_next :: "bytes \<Rightarrow> byte_iter \<Rightarrow> (byte_item \<times> byte_iter) result" where
  "yi_next m i =
     ns_assert (yi_has_next i)
       (let current = yi_current i + unat (4 + 4 + 4 + 4 + yi_nextSize i)
        in res_bind (tb_trim_at_end (of_int (int (yi_end i) - int current)) \<lparr>tb_current = yi_current i + 16, tb_end = yi_end i\<rparr>) (\<lambda>buf.
           res_map (Pair \<lparr>ym_tid = ucast (yi_nextTid i), ym_size = yi_nextSize i, ym_start = max (yi_nextStart i) (yi_offsetStart i),
               ym_end = min (yi_nextEnd i) (yi_offsetEnd i), ym_buf = buf\<rparr>)
             (yi_prepare m (i\<lparr>yi_current := current\<rparr>))))"

text \<open>The constructor leaves the fields of the next entry open.\<close>

definition bt_begin :: "int \<Rightarrow> int \<Rightarrow> byte_tags \<Rightarrow> byte_world \<Rightarrow> byte_iter result" where
  "bt_begin offsetStart offsetEnd l w =
     (let start = \<lparr>yi_current = 0, yi_end = 0, yi_offsetStart = offsetStart, yi_offsetEnd = offsetEnd, yi_adjustment = 0,
                   yi_nextTid = 0, yi_nextSize = 0, yi_nextStart = 0, yi_nextEnd = 0\<rparr>
      in yi_prepare (bt_memory l w)
        (if bt_data l = None then start else start\<lparr>yi_end := unat (bt_used l), yi_adjustment := bt_adjustment l\<rparr>))"

definition bt_begin_all :: "byte_tags \<Rightarrow> byte_world \<Rightarrow> byte_iter result" where
  "bt_begin_all l w = bt_begin 0 (2 ^ 31 - 1) l w"

section \<open>Copies of entries\<close>

text \<open>\<open>buf.CopyFrom(item.buf)\<close> from the block of one list to that of another\<close>

definition bt_copy_from :: "byte_tags \<Rightarrow> tag_buffer \<Rightarrow> byte_tags \<Rightarrow> tag_buffer \<Rightarrow> byte_world \<Rightarrow> byte_world result" where
  "bt_copy_from src b dst c w =
     deref (bt_data dst) (\<lambda>a. deref (yw_block w a) (\<lambda>d.
       res_map (\<lambda>(_, m). yw_put a (d\<lparr>yb_data := m\<rparr>) w) (tb_copy_from (b, bt_memory src w) (c, yb_data d))))"

text \<open>The loop that adds the entries of one list to another; an entry is changed, or left out, before it is added.\<close>

fun bt_add_items :: "nat \<Rightarrow> (byte_item \<Rightarrow> byte_item option) \<Rightarrow> byte_tags \<Rightarrow> byte_iter \<Rightarrow> byte_tags \<Rightarrow> byte_world \<Rightarrow>
    (byte_tags \<times> byte_world) result" where
  "bt_add_items 0 f src i dst w = Inl Endless_loop"
| "bt_add_items (Suc n) f src i dst w =
     (if \<not> yi_has_next i then Inr (dst, w) else
      res_bind (yi_next (bt_memory src w) i) (\<lambda>(item, i).
        case f item of None \<Rightarrow> bt_add_items n f src i dst w
        | Some item \<Rightarrow>
            res_bind (bt_add (ym_tid item) (ym_size item) (ym_start item) (ym_end item) dst w) (\<lambda>(buf, dst, w).
            res_bind (bt_copy_from src (ym_buf item) dst buf w) (\<lambda>w. bt_add_items n f src i dst w))))"

definition bt_fuel :: "byte_tags \<Rightarrow> nat" where
  "bt_fuel l = Suc (unat (bt_used l))"

definition bt_add_list :: "byte_tags \<Rightarrow> byte_tags \<Rightarrow> byte_world \<Rightarrow> (byte_tags \<times> byte_world) result" where
  "bt_add_list oth l w = res_bind (bt_begin_all oth w) (\<lambda>i. bt_add_items (bt_fuel oth) Some oth i l w)"

text \<open>The end of \<open>AddAtEnd\<close> and \<open>AddAtStart\<close>: the entries go to a new list, which is assigned and destroyed. What the loops
  do to \<open>m_minStart\<close> and \<open>m_maxEnd\<close> of the old list is lost in the assignment.\<close>

definition bt_rebuild :: "(byte_item \<Rightarrow> byte_item option) \<Rightarrow> byte_tags \<Rightarrow> byte_world \<Rightarrow> (byte_tags \<times> byte_world) result" where
  "bt_rebuild f l w =
     res_bind (bt_begin_all l w) (\<lambda>i.
     res_bind (bt_add_items (bt_fuel l) f l i bt_empty w) (\<lambda>(list, w).
     res_bind (bt_assign l list w) (\<lambda>(l, w). res_map (Pair l) (bt_destroy list w))))"

definition clip_end :: "int \<Rightarrow> byte_item \<Rightarrow> byte_item option" where
  "clip_end appendOffset item =
     (if ym_start item \<ge> appendOffset then None
      else Some (if ym_end item > appendOffset then item\<lparr>ym_end := appendOffset\<rparr> else item))"

definition clip_start :: "int \<Rightarrow> byte_item \<Rightarrow> byte_item option" where
  "clip_start prependOffset item =
     (if ym_end item \<le> prependOffset then None
      else Some (if ym_start item < prependOffset then item\<lparr>ym_start := prependOffset\<rparr> else item))"

definition bt_add_at_end :: "int \<Rightarrow> byte_tags \<Rightarrow> byte_world \<Rightarrow> (byte_tags \<times> byte_world) result" where
  "bt_add_at_end appendOffset l w =
     res_bind (int32 (appendOffset - bt_adjustment l)) (\<lambda>k.
       if bt_maxEnd l \<le> k then Inr (l, w) else bt_rebuild (clip_end appendOffset) l w)"

definition bt_add_at_start :: "int \<Rightarrow> byte_tags \<Rightarrow> byte_world \<Rightarrow> (byte_tags \<times> byte_world) result" where
  "bt_add_at_start prependOffset l w =
     res_bind (int32 (prependOffset - bt_adjustment l)) (\<lambda>k.
       if bt_minStart l \<ge> k then Inr (l, w) else bt_rebuild (clip_start prependOffset) (l\<lparr>bt_minStart := 2 ^ 31 - 1\<rparr>) w)"

end
