(* ===== verification/Packet.thy ===== *)
theory Packet
  imports Byte_Tags Packet_Tags
begin

unbundle bit_operations_syntax

text \<open>
  \<open>Packet\<close> (\<open>src/network/model/packet.cc\<close>, \<open>packet.h\<close>): a buffer, the tags of ranges of its bytes, the tags of the packet
  and its number, in a world that has the memory of each. Metadata is off, as it is by default, so that only the number is
  left of it; the vector for nix routing is left out. Headers and trailers are the size they announce and the bytes
  that they write; how many bytes one takes when it is read depends on the bytes it is given.
\<close>

section \<open>Packets and their world\<close>

record packet_world =
  pw_buf :: buf_world
  pw_byte :: byte_world
  pw_tag :: tag_world
  pw_uid :: "32 word"
  pw_systemId :: "32 word"

record packet =
  pk_buffer :: buf
  pk_byteTags :: byte_tags
  pk_tags :: "nat option"
  pk_uid :: "64 word"

record chunk =
  ck_size :: "32 word"
  ck_bytes :: bytes

type_synonym chunk_reader = "bytes \<Rightarrow> 32 word"

text \<open>An action of a member in the world of the packet.\<close>

definition in_buf :: "(buf_world \<Rightarrow> ('a \<times> buf_world) result) \<Rightarrow> packet_world \<Rightarrow> ('a \<times> packet_world) result" where
  "in_buf f w = res_map (\<lambda>(x, b). (x, w\<lparr>pw_buf := b\<rparr>)) (f (pw_buf w))"

definition in_byte :: "(byte_world \<Rightarrow> ('a \<times> byte_world) result) \<Rightarrow> packet_world \<Rightarrow> ('a \<times> packet_world) result" where
  "in_byte f w = res_map (\<lambda>(x, b). (x, w\<lparr>pw_byte := b\<rparr>)) (f (pw_byte w))"

definition in_tag :: "(tag_world \<Rightarrow> ('a \<times> tag_world) result) \<Rightarrow> packet_world \<Rightarrow> ('a \<times> packet_world) result" where
  "in_tag f w = res_map (\<lambda>(x, b). (x, w\<lparr>pw_tag := b\<rparr>)) (f (pw_tag w))"

text \<open>Actions without a result.\<close>

definition no_result :: "('w \<Rightarrow> 'w result) \<Rightarrow> 'w \<Rightarrow> (unit \<times> 'w) result" where
  "no_result f w = res_map (Pair ()) (f w)"

definition packet_size :: "packet \<Rightarrow> 32 word" where
  "packet_size p = buf_size (pk_buffer p)"

section \<open>Creation, copies, destruction\<close>

definition packet_number :: "packet_world \<Rightarrow> 64 word \<times> packet_world" where
  "packet_number w = (push_bit 32 (ucast (pw_systemId w)) OR ucast (pw_uid w), w\<lparr>pw_uid := pw_uid w + 1\<rparr>)"

definition packet_create :: "32 word \<Rightarrow> packet_world \<Rightarrow> (packet \<times> packet_world) result" where
  "packet_create sz w =
     res_bind (in_buf (buf_initialize sz) w) (\<lambda>(b, w).
       let (uid, w) = packet_number w
       in Inr (\<lparr>pk_buffer = b, pk_byteTags = bt_empty, pk_tags = None, pk_uid = uid\<rparr>, w))"

definition packet_create_bytes :: "bytes \<Rightarrow> packet_world \<Rightarrow> (packet \<times> packet_world) result" where
  "packet_create_bytes bs w =
     res_bind (in_buf (buf_initialize 0) w) (\<lambda>(b, w).
       let (uid, w) = packet_number w
       in res_bind (in_buf (buf_add_start (of_nat (length bs)) b) w) (\<lambda>(b, w).
          res_bind (in_buf (\<lambda>v. it_write bs (it_begin b, v)) w) (\<lambda>(_, w).
            Inr (\<lparr>pk_buffer = b, pk_byteTags = bt_empty, pk_tags = None, pk_uid = uid\<rparr>, w))))"

definition packet_of_parts :: "buf \<Rightarrow> byte_tags \<Rightarrow> nat option \<Rightarrow> 64 word \<Rightarrow> packet_world \<Rightarrow> (packet \<times> packet_world) result" where
  "packet_of_parts b l m uid w =
     res_bind (in_buf (buf_copy b) w) (\<lambda>(b, w).
     res_bind (in_byte (bt_copy l) w) (\<lambda>(l, w).
     res_map (\<lambda>(m, w). (\<lparr>pk_buffer = b, pk_byteTags = l, pk_tags = m, pk_uid = uid\<rparr>, w)) (in_tag (tags_copy m) w)))"

definition packet_copy :: "packet \<Rightarrow> packet_world \<Rightarrow> (packet \<times> packet_world) result" where
  "packet_copy p = packet_of_parts (pk_buffer p) (pk_byteTags p) (pk_tags p) (pk_uid p)"

text \<open>\<open>p = o\<close> for two different packets\<close>

definition packet_assign :: "packet \<Rightarrow> packet \<Rightarrow> packet_world \<Rightarrow> (packet \<times> packet_world) result" where
  "packet_assign p oth w =
     res_bind (in_buf (buf_assign (pk_buffer p) (pk_buffer oth)) w) (\<lambda>(b, w).
     res_bind (in_byte (bt_assign (pk_byteTags p) (pk_byteTags oth)) w) (\<lambda>(l, w).
     res_map (\<lambda>(m, w). (\<lparr>pk_buffer = b, pk_byteTags = l, pk_tags = m, pk_uid = pk_uid oth\<rparr>, w))
       (in_tag (\<lambda>v. tags_assign (pk_tags oth) (pk_tags p, v)) w)))"

definition packet_destroy :: "packet \<Rightarrow> packet_world \<Rightarrow> packet_world result" where
  "packet_destroy p w =
     res_bind (in_tag (no_result (\<lambda>v. tags_destroy (pk_tags p, v))) w) (\<lambda>(_, w).
     res_bind (in_byte (no_result (bt_destroy (pk_byteTags p))) w) (\<lambda>(_, w).
     res_map snd (in_buf (no_result (buf_destroy (pk_buffer p))) w)))"

definition packet_fragment :: "32 word \<Rightarrow> 32 word \<Rightarrow> packet \<Rightarrow> packet_world \<Rightarrow> (packet \<times> packet_world) result" where
  "packet_fragment start len p w =
     res_bind (in_buf (buf_fragment start len (pk_buffer p)) w) (\<lambda>(b, w).
     res_bind (in_byte (bt_copy (pk_byteTags p)) w) (\<lambda>(l, w).
     res_bind (bt_adjust (sint (- start)) l) (\<lambda>l.
     ns_assert (packet_size p \<ge> start + len)
       (res_bind (packet_of_parts b l (pk_tags p) (pk_uid p) w) (\<lambda>(ret, w).
        res_bind (in_byte (no_result (bt_destroy l)) w) (\<lambda>(_, w).
        res_map (\<lambda>(_, w). (ret, w)) (in_buf (no_result (buf_destroy b)) w)))))))"

section \<open>Headers and trailers\<close>

definition packet_add_header :: "chunk \<Rightarrow> packet \<Rightarrow> packet_world \<Rightarrow> (packet \<times> packet_world) result" where
  "packet_add_header h p w =
     (let sz = ck_size h
      in res_bind (in_buf (buf_add_start sz (pk_buffer p)) w) (\<lambda>(b, w).
         res_bind (bt_adjust (sint sz) (pk_byteTags p)) (\<lambda>l.
         res_bind (in_byte (bt_add_at_start (sint sz) l) w) (\<lambda>(l, w).
         res_map (\<lambda>(_, w). (p\<lparr>pk_buffer := b, pk_byteTags := l\<rparr>, w))
           (in_buf (\<lambda>v. it_write_u8s (ck_bytes h) (it_begin b, v)) w)))))"

definition packet_remove_start :: "32 word \<Rightarrow> packet \<Rightarrow> packet result" where
  "packet_remove_start n p =
     res_bind (buf_remove_start n (pk_buffer p)) (\<lambda>b.
     res_map (\<lambda>l. p\<lparr>pk_buffer := b, pk_byteTags := l\<rparr>) (bt_adjust (sint (- n)) (pk_byteTags p)))"

definition packet_remove_end :: "32 word \<Rightarrow> packet \<Rightarrow> packet" where
  "packet_remove_end n p = p\<lparr>pk_buffer := buf_remove_end n (pk_buffer p)\<rparr>"

text \<open>The bytes from the start of the packet, through an iterator; a header or trailer that is read may look at all of them.\<close>

definition packet_read :: "nat \<Rightarrow> packet \<Rightarrow> packet_world \<Rightarrow> bytes result" where
  "packet_read n p w = res_map fst (it_read n (it_begin (pk_buffer p)) (pw_buf w))"

definition packet_peek_header :: "chunk_reader \<Rightarrow> packet \<Rightarrow> packet_world \<Rightarrow> 32 word result" where
  "packet_peek_header f p w = res_map f (packet_read (unat (packet_size p)) p w)"

definition packet_remove_header :: "chunk_reader \<Rightarrow> packet \<Rightarrow> packet_world \<Rightarrow> (32 word \<times> packet) result" where
  "packet_remove_header f p w =
     res_bind (packet_peek_header f p w) (\<lambda>deserialized. res_map (Pair deserialized) (packet_remove_start deserialized p))"

text \<open>The variants that tell the header where its bytes end\<close>

definition packet_peek_header_sized :: "32 word \<Rightarrow> chunk_reader \<Rightarrow> packet \<Rightarrow> packet_world \<Rightarrow> 32 word result" where
  "packet_peek_header_sized sz f p w =
     res_bind (it_next sz (it_begin (pk_buffer p))) (\<lambda>_. res_map f (packet_read (unat sz) p w))"

definition packet_remove_header_sized ::
    "32 word \<Rightarrow> chunk_reader \<Rightarrow> packet \<Rightarrow> packet_world \<Rightarrow> (32 word \<times> packet) result" where
  "packet_remove_header_sized sz f p w =
     res_bind (packet_peek_header_sized sz f p w) (\<lambda>deserialized.
       res_map (Pair deserialized) (packet_remove_start deserialized p))"

definition packet_add_trailer :: "chunk \<Rightarrow> packet \<Rightarrow> packet_world \<Rightarrow> (packet \<times> packet_world) result" where
  "packet_add_trailer t p w =
     (let sz = ck_size t
      in res_bind (in_byte (bt_add_at_end (sint (packet_size p)) (pk_byteTags p)) w) (\<lambda>(l, w).
         res_bind (in_buf (buf_add_end sz (pk_buffer p)) w) (\<lambda>(b, w).
         res_bind (it_prev sz (it_end b)) (\<lambda>it.
         res_map (\<lambda>(_, w). (p\<lparr>pk_buffer := b, pk_byteTags := l\<rparr>, w))
           (in_buf (\<lambda>v. it_write_u8s (ck_bytes t) (it, v)) w)))))"

definition packet_peek_trailer :: "chunk_reader \<Rightarrow> packet \<Rightarrow> packet_world \<Rightarrow> 32 word result" where
  "packet_peek_trailer f p w = res_map f (packet_read (unat (packet_size p)) p w)"

definition packet_remove_trailer :: "chunk_reader \<Rightarrow> packet \<Rightarrow> packet_world \<Rightarrow> (32 word \<times> packet) result" where
  "packet_remove_trailer f p w = res_map (\<lambda>n. (n, packet_remove_end n p)) (packet_peek_trailer f p w)"

definition packet_add_padding :: "32 word \<Rightarrow> packet \<Rightarrow> packet_world \<Rightarrow> (packet \<times> packet_world) result" where
  "packet_add_padding n p w =
     res_bind (in_byte (bt_add_at_end (sint (packet_size p)) (pk_byteTags p)) w) (\<lambda>(l, w).
     res_map (\<lambda>(b, w). (p\<lparr>pk_buffer := b, pk_byteTags := l\<rparr>, w)) (in_buf (buf_add_end n (pk_buffer p)) w))"

text \<open>\<open>AddAtEnd\<close> of another packet\<close>

definition packet_append :: "packet \<Rightarrow> packet \<Rightarrow> packet_world \<Rightarrow> (packet \<times> packet_world) result" where
  "packet_append oth p w =
     res_bind (in_byte (bt_add_at_end (sint (packet_size p)) (pk_byteTags p)) w) (\<lambda>(l, w).
     res_bind (in_byte (bt_copy (pk_byteTags oth)) w) (\<lambda>(cp, w).
     res_bind (in_byte (bt_add_at_start 0 cp) w) (\<lambda>(cp, w).
     res_bind (bt_adjust (sint (packet_size p)) cp) (\<lambda>cp.
     res_bind (in_byte (bt_add_list cp l) w) (\<lambda>(l, w).
     res_bind (in_buf (buf_append (pk_buffer oth) (pk_buffer p)) w) (\<lambda>(b, w).
     res_map (\<lambda>(_, w). (p\<lparr>pk_buffer := b, pk_byteTags := l\<rparr>, w)) (in_byte (no_result (bt_destroy cp)) w)))))))"

definition packet_copy_data :: "32 word \<Rightarrow> packet \<Rightarrow> packet_world \<Rightarrow> (32 word \<times> bytes) result" where
  "packet_copy_data sz p w = buf_copy_data sz (pk_buffer p) (pw_buf w)"

section \<open>Byte tags\<close>

definition packet_remove_all_byte_tags :: "packet \<Rightarrow> packet_world \<Rightarrow> (packet \<times> packet_world) result" where
  "packet_remove_all_byte_tags p w =
     res_map (\<lambda>(l, w). (p\<lparr>pk_byteTags := l\<rparr>, w)) (in_byte (bt_remove_all (pk_byteTags p)) w)"

text \<open>\<open>list->Add\<close>, then \<open>tag.Serialize\<close> into the window that it returned\<close>

definition bt_put_tag :: "tag \<Rightarrow> int \<Rightarrow> int \<Rightarrow> byte_tags \<Rightarrow> byte_world \<Rightarrow> (byte_tags \<times> byte_world) result" where
  "bt_put_tag t start end l w =
     res_bind (bt_add (tag_tid t) (tag_size t) start end l w) (\<lambda>(b, l, w).
       deref (bt_data l) (\<lambda>a. deref (yw_block w a) (\<lambda>d.
         res_map (\<lambda>(_, m). (l, yw_put a (d\<lparr>yb_data := m\<rparr>) w)) (tag_serialize t (b, yb_data d)))))"

definition packet_add_byte_tag :: "tag \<Rightarrow> packet \<Rightarrow> packet_world \<Rightarrow> (packet \<times> packet_world) result" where
  "packet_add_byte_tag t p w =
     res_map (\<lambda>(l, w). (p\<lparr>pk_byteTags := l\<rparr>, w)) (in_byte (bt_put_tag t 0 (sint (packet_size p)) (pk_byteTags p)) w)"

definition packet_add_byte_tag_range ::
    "tag \<Rightarrow> 32 word \<Rightarrow> 32 word \<Rightarrow> packet \<Rightarrow> packet_world \<Rightarrow> (packet \<times> packet_world) result" where
  "packet_add_byte_tag_range t start end p w =
     ns_abort_if (end < start)
       (res_map (\<lambda>(l, w). (p\<lparr>pk_byteTags := l\<rparr>, w))
         (in_byte (bt_put_tag t (sint start) (sint end) (pk_byteTags p)) w))"

text \<open>An item of \<open>ByteTagIterator\<close>: the type, the range and the bytes that \<open>GetTag\<close> reads.\<close>

type_synonym byte_tag_item = "16 word \<times> 32 word \<times> 32 word \<times> bytes"

definition packet_byte_tags :: "packet \<Rightarrow> packet_world \<Rightarrow> byte_iter result" where
  "packet_byte_tags p w = bt_begin 0 (sint (packet_size p)) (pk_byteTags p) (pw_byte w)"

definition byte_tag_next :: "bytes \<Rightarrow> byte_iter \<Rightarrow> (byte_tag_item \<times> byte_iter) result" where
  "byte_tag_next m i =
     res_map (\<lambda>(it, j). ((ym_tid it, of_int (ym_start it - yi_offsetStart j), of_int (ym_end it - yi_offsetStart j),
         take (tb_end (ym_buf it) - tb_current (ym_buf it)) (drop (tb_current (ym_buf it)) m)), j)) (yi_next m i)"

text \<open>The loop of a client that goes through all the items\<close>

fun byte_tag_items :: "nat \<Rightarrow> bytes \<Rightarrow> byte_iter \<Rightarrow> byte_tag_item list result" where
  "byte_tag_items 0 m i = Inl Endless_loop"
| "byte_tag_items (Suc n) m i =
     (if yi_has_next i then res_bind (byte_tag_next m i) (\<lambda>(x, i). res_map (Cons x) (byte_tag_items n m i)) else Inr [])"

definition packet_byte_tag_items :: "packet \<Rightarrow> packet_world \<Rightarrow> byte_tag_item list result" where
  "packet_byte_tag_items p w =
     res_bind (packet_byte_tags p w) (byte_tag_items (bt_fuel (pk_byteTags p)) (bt_memory (pk_byteTags p) (pw_byte w)))"

fun find_byte_tag :: "nat \<Rightarrow> 16 word \<Rightarrow> bytes \<Rightarrow> byte_iter \<Rightarrow> bytes option result" where
  "find_byte_tag 0 tid m i = Inl Endless_loop"
| "find_byte_tag (Suc n) tid m i =
     (if yi_has_next i then
        res_bind (byte_tag_next m i) (\<lambda>((t, _, _, bs), i). if tid = t then Inr (Some bs) else find_byte_tag n tid m i)
      else Inr None)"

definition packet_find_byte_tag :: "16 word \<Rightarrow> packet \<Rightarrow> packet_world \<Rightarrow> bytes option result" where
  "packet_find_byte_tag tid p w =
     res_bind (packet_byte_tags p w) (find_byte_tag (bt_fuel (pk_byteTags p)) tid (bt_memory (pk_byteTags p) (pw_byte w)))"

section \<open>Packet tags\<close>

definition packet_add_tag :: "tag \<Rightarrow> packet \<Rightarrow> packet_world \<Rightarrow> (packet \<times> packet_world) result" where
  "packet_add_tag t p w = res_map (\<lambda>(m, w). (p\<lparr>pk_tags := m\<rparr>, w)) (in_tag (\<lambda>v. tags_add t (pk_tags p, v)) w)"

definition packet_remove_tag ::
    "16 word \<Rightarrow> packet \<Rightarrow> packet_world \<Rightarrow> ((bool \<times> bytes option) \<times> packet \<times> packet_world) result" where
  "packet_remove_tag tid p w =
     res_map (\<lambda>(found, bs, m, v). ((found, bs), p\<lparr>pk_tags := m\<rparr>, w\<lparr>pw_tag := v\<rparr>)) (tags_remove tid (pk_tags p, pw_tag w))"

definition packet_replace_tag :: "tag \<Rightarrow> packet \<Rightarrow> packet_world \<Rightarrow> (bool \<times> packet \<times> packet_world) result" where
  "packet_replace_tag t p w =
     res_map (\<lambda>(found, m, v). (found, p\<lparr>pk_tags := m\<rparr>, w\<lparr>pw_tag := v\<rparr>)) (tags_replace t (pk_tags p, pw_tag w))"

definition packet_peek_tag :: "16 word \<Rightarrow> packet \<Rightarrow> packet_world \<Rightarrow> bytes option result" where
  "packet_peek_tag tid p w = tags_peek tid (pk_tags p, pw_tag w)"

definition packet_remove_all_tags :: "packet \<Rightarrow> packet_world \<Rightarrow> (packet \<times> packet_world) result" where
  "packet_remove_all_tags p w =
     res_map (\<lambda>(m, w). (p\<lparr>pk_tags := m\<rparr>, w)) (in_tag (\<lambda>v. tags_remove_all (pk_tags p, v)) w)"

end
