(* ===== verification/Byte_Tags_Heap.thy ===== *)
theory Byte_Tags_Heap
  imports Byte_Tags
begin

text \<open>
  The blocks of byte tags. \<open>bt_fits K w l es\<close>: the used part of the block of \<open>l\<close> is the entries \<open>es\<close>, whose size, positions and
  adjustment are within \<open>K\<close>; \<open>byte_ok w M\<close>, where \<open>M\<close> is the multiset of the lists: the counts are exact, a block
  without a list is in the free list, and no list uses more of a block than its dirty part. Memory is allocated, shared,
  released and written behind the used part of a list without a change of the other lists.
\<close>

section \<open>Entries and the invariant\<close>

type_synonym byte_entry = "16 word \<times> int \<times> int \<times> bytes"

fun enc_entry :: "byte_entry \<Rightarrow> bytes" where
  "enc_entry (t, s, e, bs) =
     le_bytes 4 (ucast t :: 32 word) @ le_bytes 4 (of_nat (length bs) :: 32 word) @ le_bytes 4 (of_int s :: 32 word) @
     le_bytes 4 (of_int e :: 32 word) @ bs"

definition enc :: "byte_entry list \<Rightarrow> bytes" where
  "enc es = concat (map enc_entry es)"

lemma enc_simps [simp]: "enc [] = []" "enc (x # es) = enc_entry x @ enc es" "enc (es @ fs) = enc es @ enc fs"
  by (simp_all add: enc_def)

lemma length_enc_entry [simp]: "length (enc_entry (t, s, e, bs)) = 16 + length bs"
  by simp

definition entry_in :: "nat \<Rightarrow> byte_tags \<Rightarrow> byte_entry \<Rightarrow> bool" where
  "entry_in K l = (\<lambda>(t, s, e, bs). bt_minStart l \<le> s \<and> e \<le> bt_maxEnd l \<and>
     \<bar>s + bt_adjustment l\<bar> \<le> 2 ^ 29 + int K \<and> \<bar>e + bt_adjustment l\<bar> \<le> 2 ^ 29 + int K)"

definition bt_fits :: "nat \<Rightarrow> byte_world \<Rightarrow> byte_tags \<Rightarrow> byte_entry list \<Rightarrow> bool" where
  "bt_fits K w l es \<longleftrightarrow> \<bar>bt_adjustment l\<bar> \<le> int K \<and> length (enc es) \<le> K \<and> (\<forall>x \<in> set es. entry_in K l x) \<and>
     (case bt_data l of None \<Rightarrow> bt_used l = 0 \<and> es = []
      | Some a \<Rightarrow> \<exists>d. yw_block w a = Some d \<and> unat (bt_used l) = length (enc es) \<and>
          take (length (enc es)) (yb_data d) = enc es)"

definition block_fine :: "byte_block \<Rightarrow> bool" where
  "block_fine d \<longleftrightarrow> yb_dirty d \<le> yb_size d \<and> unat (yb_size d) \<le> length (yb_data d)"

definition bt_refs :: "byte_tags multiset \<Rightarrow> nat \<Rightarrow> nat" where
  "bt_refs M a = size (filter_mset (\<lambda>l. bt_data l = Some a) M)"

definition byte_ok :: "byte_world \<Rightarrow> byte_tags multiset \<Rightarrow> bool" where
  "byte_ok w M \<longleftrightarrow> distinct (yw_free w) \<and> (\<forall>a \<in> set (yw_free w). yw_block w a \<noteq> None) \<and>
     (\<forall>a d. yw_block w a = Some d \<longrightarrow>
        a < yw_next w \<and> block_fine d \<and> unat (yb_count d) = bt_refs M a \<and> (a \<in> set (yw_free w) \<longleftrightarrow> bt_refs M a = 0)) \<and>
     (\<forall>l \<in># M. \<forall>a. bt_data l = Some a \<longrightarrow> (\<exists>d. yw_block w a = Some d \<and> bt_used l \<le> yb_dirty d))"

lemma bt_refs_add [simp]: "bt_refs (add_mset l M) a = bt_refs M a + (if bt_data l = Some a then 1 else 0)"
  by (simp add: bt_refs_def)

lemma bt_refs_pos: "l \<in># M \<Longrightarrow> bt_data l = Some a \<Longrightarrow> bt_refs M a > 0"
  by (auto dest!: multi_member_split)

lemma bt_refs_bound: "bt_refs M a \<le> size M"
  by (simp add: bt_refs_def size_mset_mono)

lemma byte_ok_block:
  "byte_ok w M \<Longrightarrow> yw_block w a = Some d \<Longrightarrow>
   a < yw_next w \<and> block_fine d \<and> unat (yb_count d) = bt_refs M a \<and> (a \<in> set (yw_free w) \<longleftrightarrow> bt_refs M a = 0)"
  unfolding byte_ok_def by blast

lemma byte_ok_list:
  "byte_ok w M \<Longrightarrow> l \<in># M \<Longrightarrow> bt_data l = Some a \<Longrightarrow> \<exists>d. yw_block w a = Some d \<and> bt_used l \<le> yb_dirty d"
  unfolding byte_ok_def by blast

lemma byte_ok_None: "bt_data l = None \<Longrightarrow> byte_ok w (add_mset l M) \<longleftrightarrow> byte_ok w M"
  by (simp add: byte_ok_def)

text \<open>The multiset matters only for the blocks and the used parts.\<close>

lemma byte_ok_like: "bt_data l' = bt_data l \<Longrightarrow> bt_used l' = bt_used l \<Longrightarrow> byte_ok w (add_mset l M) \<Longrightarrow> byte_ok w (add_mset l' M)"
  by (simp add: byte_ok_def)

section \<open>What other lists see\<close>

definition byte_keep :: "byte_tags multiset \<Rightarrow> byte_world \<Rightarrow> byte_world \<Rightarrow> bool" where
  "byte_keep M w w' \<longleftrightarrow> (\<forall>l \<in># M. \<forall>K es. bt_fits K w l es \<longrightarrow> bt_fits K w' l es)"

lemma byte_keep_refl [simp]: "byte_keep M w w"
  by (simp add: byte_keep_def)

lemma byte_keep_trans: "byte_keep M w w1 \<Longrightarrow> byte_keep M w1 w' \<Longrightarrow> byte_keep M w w'"
  by (simp add: byte_keep_def)

lemma byte_keep_fits: "byte_keep M w w' \<Longrightarrow> l \<in># M \<Longrightarrow> bt_fits K w l es \<Longrightarrow> bt_fits K w' l es"
  by (simp add: byte_keep_def)

lemma byte_keep_mono: "byte_keep M w w' \<Longrightarrow> set_mset N \<subseteq> set_mset M \<Longrightarrow> byte_keep N w w'"
  by (auto simp: byte_keep_def)

text \<open>The contents of a block: all but the count.\<close>

definition yb_core :: "byte_block \<Rightarrow> 32 word \<times> 32 word \<times> bytes" where
  "yb_core d = (yb_size d, yb_dirty d, yb_data d)"

definition same_bytes :: "nat \<Rightarrow> byte_world \<Rightarrow> byte_world \<Rightarrow> bool" where
  "same_bytes a w w' \<longleftrightarrow> map_option yb_core (yw_block w' a) = map_option yb_core (yw_block w a)"

lemma same_bytes_get: "same_bytes a w w' \<Longrightarrow> yw_block w a = Some d \<Longrightarrow> \<exists>d'. yw_block w' a = Some d' \<and> yb_core d' = yb_core d"
  by (auto simp: same_bytes_def)

lemma bt_fits_same:
  assumes "bt_fits K w l es" and "\<And>a. bt_data l = Some a \<Longrightarrow> same_bytes a w w'"
  shows "bt_fits K w' l es"
proof (cases "bt_data l")
  case (Some a)
  then obtain d where d: "yw_block w a = Some d"
    using assms(1) by (auto simp: bt_fits_def)
  moreover from this obtain d' where "yw_block w' a = Some d'" "yb_data d' = yb_data d"
    using same_bytes_get [OF assms(2) [OF Some]] by (auto simp: yb_core_def)
  ultimately show ?thesis
    using assms(1) Some by (simp add: bt_fits_def)
qed (use assms(1) in \<open>simp add: bt_fits_def\<close>)

lemma byte_keep_same: "(\<And>a. bt_refs M a > 0 \<Longrightarrow> same_bytes a w w') \<Longrightarrow> byte_keep M w w'"
  using bt_fits_same bt_refs_pos by (metis byte_keep_def)

lemma bt_fits_mono: "bt_fits K w l es \<Longrightarrow> K \<le> K' \<Longrightarrow> bt_fits K' w l es"
  unfolding bt_fits_def entry_in_def by (force split: option.splits)

lemma yw_fields [simp]:
  "yw_block (yw_put a d w) = (yw_block w)(a \<mapsto> d)" "yw_next (yw_put a d w) = yw_next w" "yw_free (yw_put a d w) = yw_free w"
  "yw_maxSize (yw_put a d w) = yw_maxSize w" "yw_junk (yw_put a d w) = yw_junk w"
  "yw_block (yw_delete a w) = (yw_block w)(a := None)" "yw_next (yw_delete a w) = yw_next w" "yw_free (yw_delete a w) = yw_free w"
  "yw_maxSize (yw_delete a w) = yw_maxSize w" "yw_junk (yw_delete a w) = yw_junk w"
  by (simp_all add: yw_put_def yw_delete_def)

section \<open>Allocation\<close>

lemma byte_ok_free: "byte_ok w M \<Longrightarrow> yw_free w = a # as \<Longrightarrow> \<exists>d. yw_block w a = Some d \<and> bt_refs M a = 0"
  unfolding byte_ok_def by (metis list.set_intros(1) not_None_eq)

lemma byte_ok_unused: "byte_ok w M \<Longrightarrow> yw_block w a = None \<Longrightarrow> bt_refs M a = 0"
  using byte_ok_list by (fastforce simp: bt_refs_def filter_mset_eq_conv)

lemma byte_ok_take:
  assumes "byte_ok w M" and "bt_refs M a = 0" and "bt_data l = Some a" and "bt_used l = 0" and "block_fine d" and "yb_count d = 1"
    and "distinct fs" and "set fs = set (yw_free w) - {a}" and "a < n" and "yw_next w \<le> n"
  shows "byte_ok ((yw_put a d w)\<lparr>yw_free := fs, yw_next := n\<rparr>) (add_mset l M)"
proof -
  have "b < n \<and> block_fine e \<and> unat (yb_count e) = bt_refs (add_mset l M) b \<and> (b \<in> set fs \<longleftrightarrow> bt_refs (add_mset l M) b = 0)"
    if "((yw_block w)(a \<mapsto> d)) b = Some e" for b e
  proof (cases "b = a")
    case True
    then show ?thesis
      using that assms by simp
  next
    case False
    then show ?thesis
      using that byte_ok_block [OF assms(1), of b e] assms(3,8,10) by auto
  qed
  moreover have "\<exists>e. ((yw_block w)(a \<mapsto> d)) b = Some e \<and> bt_used k \<le> yb_dirty e" if "k \<in># add_mset l M" "bt_data k = Some b" for k b
  proof (cases "b = a")
    case True
    then have "k \<notin># M"
      using assms(2) that(2) bt_refs_pos [of k M a] by auto
    then show ?thesis
      using that True assms(4) by simp
  next
    case False
    then have "k \<in># M"
      using that assms(3) by auto
    then show ?thesis
      using byte_ok_list [OF assms(1) _ that(2)] False by simp
  qed
  ultimately show ?thesis
    using assms(1,7,8) unfolding byte_ok_def by (simp add: assms(8))
qed

lemma bt_allocate_from_ok:
  assumes "byte_ok (w\<lparr>yw_free := fs\<rparr>) M"
  shows "\<exists>a w' e. bt_allocate_from sz fs w = Inr (a, w') \<and> bt_refs M a = 0 \<and> yw_block w' a = Some e \<and> sz \<le> yb_size e \<and>
    yb_count e = 1 \<and> yb_dirty e = 0 \<and> (\<forall>l. bt_data l = Some a \<longrightarrow> bt_used l = 0 \<longrightarrow> byte_ok w' (add_mset l M)) \<and>
    (\<forall>b. bt_refs M b > 0 \<longrightarrow> yw_block w' b = yw_block w b)"
  using assms
proof (induction fs arbitrary: w)
  case Nil
  let ?a = "yw_next w"
  let ?d = "\<lparr>yb_size = sz, yb_count = 1, yb_dirty = 0, yb_data = map (yw_junk w ?a) [0..<unat (max sz (yw_maxSize w))]\<rparr>"
  have "yw_block w ?a = None"
    using byte_ok_block [OF Nil, of ?a] by (cases "yw_block w ?a") auto
  then have r: "bt_refs M ?a = 0"
    using byte_ok_unused [OF Nil, of ?a] by simp
  have "block_fine ?d"
    by (simp add: block_fine_def max_def word_le_nat_alt)
  then have ok: "byte_ok ((yw_put ?a ?d (w\<lparr>yw_free := []\<rparr>))\<lparr>yw_free := [], yw_next := ?a + 1\<rparr>) (add_mset l M)"
    if "bt_data l = Some ?a" "bt_used l = 0" for l
    using that r by (intro byte_ok_take [OF Nil]) simp_all
  have put: "(yw_put ?a ?d (w\<lparr>yw_free := []\<rparr>))\<lparr>yw_free := [], yw_next := ?a + 1\<rparr> =
      (yw_put ?a ?d (w\<lparr>yw_free := []\<rparr>))\<lparr>yw_next := ?a + 1\<rparr>"
    by (simp add: yw_put_def)
  have "yw_block ((yw_put ?a ?d (w\<lparr>yw_free := []\<rparr>))\<lparr>yw_next := ?a + 1\<rparr>) b = yw_block w b" if "bt_refs M b > 0" for b
    using that r by auto
  then show ?case
    using r ok unfolding put by (auto simp: bt_new_def Let_def)
next
  case (Cons a fs)
  then obtain d where d: "yw_block w a = Some d" "bt_refs M a = 0"
    using byte_ok_free [OF Cons.prems] by auto
  have fine: "block_fine d"
    using byte_ok_block [OF Cons.prems, of a d] d(1) by simp
  have dist: "distinct (a # fs)"
    using Cons.prems by (simp add: byte_ok_def)
  show ?case
  proof (cases "sz \<le> yb_size d")
    case True
    let ?d = "d\<lparr>yb_count := 1, yb_dirty := 0\<rparr>"
    have "byte_ok ((yw_put a ?d (w\<lparr>yw_free := a # fs\<rparr>))\<lparr>yw_free := fs, yw_next := yw_next w\<rparr>) (add_mset l M)"
      if "bt_data l = Some a" "bt_used l = 0" for l
      using that d fine dist byte_ok_block [OF Cons.prems, of a d]
      by (intro byte_ok_take [OF Cons.prems]) (auto simp: block_fine_def)
    moreover have "(yw_put a ?d (w\<lparr>yw_free := a # fs\<rparr>))\<lparr>yw_free := fs, yw_next := yw_next w\<rparr> = (yw_put a ?d w)\<lparr>yw_free := fs\<rparr>"
      by (simp add: yw_put_def)
    moreover have "yw_block ((yw_put a ?d w)\<lparr>yw_free := fs\<rparr>) b = yw_block w b" if "bt_refs M b > 0" for b
      using that d(2) by auto
    ultimately show ?thesis
      using True d by auto
  next
    case False
    have "byte_ok ((yw_delete a w)\<lparr>yw_free := fs\<rparr>) M"
      unfolding byte_ok_def
    proof (intro conjI ballI allI impI)
      show "distinct (yw_free ((yw_delete a w)\<lparr>yw_free := fs\<rparr>))"
        using dist by simp
      show "yw_block ((yw_delete a w)\<lparr>yw_free := fs\<rparr>) b \<noteq> None" if "b \<in> set (yw_free ((yw_delete a w)\<lparr>yw_free := fs\<rparr>))" for b
        using that dist Cons.prems by (auto simp: byte_ok_def)
      show "\<exists>e. yw_block ((yw_delete a w)\<lparr>yw_free := fs\<rparr>) b = Some e \<and> bt_used l \<le> yb_dirty e" if "l \<in># M" "bt_data l = Some b" for l b
        using byte_ok_list [OF Cons.prems that] bt_refs_pos [OF that] d(2) by auto
      fix b e
      assume "yw_block ((yw_delete a w)\<lparr>yw_free := fs\<rparr>) b = Some e"
      then have b: "b \<noteq> a" "yw_block (w\<lparr>yw_free := a # fs\<rparr>) b = Some e"
        by (auto split: if_splits)
      show "b < yw_next ((yw_delete a w)\<lparr>yw_free := fs\<rparr>)" "block_fine e" "unat (yb_count e) = bt_refs M b"
        "b \<in> set (yw_free ((yw_delete a w)\<lparr>yw_free := fs\<rparr>)) \<longleftrightarrow> bt_refs M b = 0"
        using byte_ok_block [OF Cons.prems b(2)] b(1) by auto
    qed
    from Cons.IH [OF this] show ?thesis
      using False d by fastforce
  qed
qed

lemma bt_allocate_ok:
  assumes "byte_ok w M"
  obtains a w' e where "bt_allocate sz w = Inr (a, w')" and "bt_refs M a = 0" and "yw_block w' a = Some e" and "sz \<le> yb_size e"
    and "yb_count e = 1" and "yb_dirty e = 0" and "\<And>l. bt_data l = Some a \<Longrightarrow> bt_used l = 0 \<Longrightarrow> byte_ok w' (add_mset l M)"
    and "\<And>b. bt_refs M b > 0 \<Longrightarrow> yw_block w' b = yw_block w b"
  using bt_allocate_from_ok [where w = w and fs = "yw_free w" and M = M and sz = sz] assms unfolding bt_allocate_def by auto


section \<open>Sharing and releasing\<close>

lemma same_bytes_refl [simp]: "same_bytes a w w"
  by (simp add: same_bytes_def yb_core_def)

lemma same_bytes_trans: "same_bytes a w w1 \<Longrightarrow> same_bytes a w1 w' \<Longrightarrow> same_bytes a w w'"
  by (simp add: same_bytes_def yb_core_def)

text \<open>Another count of one block.\<close>

lemma byte_ok_recount:
  assumes "byte_ok w M" and "yw_block w a = Some d" and "unat c = bt_refs N a" and "bt_refs N a > 0" and "bt_refs M a > 0"
    and "\<And>b. b \<noteq> a \<Longrightarrow> bt_refs N b = bt_refs M b"
    and "\<And>l b. l \<in># N \<Longrightarrow> bt_data l = Some b \<Longrightarrow> \<exists>e. yw_block w b = Some e \<and> bt_used l \<le> yb_dirty e"
  shows "byte_ok (yw_put a (d\<lparr>yb_count := c\<rparr>) w) N"
  unfolding byte_ok_def
proof (intro conjI ballI allI impI)
  let ?w = "yw_put a (d\<lparr>yb_count := c\<rparr>) w"
  show "distinct (yw_free ?w)" "\<And>b. b \<in> set (yw_free ?w) \<Longrightarrow> yw_block ?w b \<noteq> None"
    using assms(1) by (auto simp: byte_ok_def)
  show "\<exists>e. yw_block ?w b = Some e \<and> bt_used l \<le> yb_dirty e" if "l \<in># N" "bt_data l = Some b" for l b
    using assms(7) [OF that] assms(2) by auto
  fix b e
  assume b: "yw_block ?w b = Some e"
  have "b < yw_next w \<and> block_fine e \<and> unat (yb_count e) = bt_refs N b \<and> (b \<in> set (yw_free w) \<longleftrightarrow> bt_refs N b = 0)"
  proof (cases "b = a")
    case True
    then show ?thesis
      using b byte_ok_block [OF assms(1,2)] assms(3-5) by (auto simp: block_fine_def)
  next
    case False
    then show ?thesis
      using b byte_ok_block [OF assms(1), of b e] assms(6) by auto
  qed
  then show "b < yw_next ?w" "block_fine e" "unat (yb_count e) = bt_refs N b" "b \<in> set (yw_free ?w) \<longleftrightarrow> bt_refs N b = 0"
    by simp_all
qed

lemma bt_share_ok:
  assumes "byte_ok w M" and "l \<in># M" and "size M < 2 ^ 32 - 1"
  shows "\<exists>w'. bt_share (bt_data l) w = Inr w' \<and> byte_ok w' (add_mset l M) \<and> byte_keep M w w'"
proof (cases "bt_data l")
  case None
  then show ?thesis
    using assms(1) by (simp add: bt_share_def byte_ok_None)
next
  case (Some a)
  then obtain d where d: "yw_block w a = Some d"
    using byte_ok_list [OF assms(1,2)] by blast
  let ?w = "yw_put a (d\<lparr>yb_count := yb_count d + 1\<rparr>) w"
  have "unat (yb_count d) < 2 ^ 32 - 1"
    using byte_ok_block [OF assms(1) d] bt_refs_bound [of M a] assms(3) by simp
  then have u: "unat (yb_count d + 1) = bt_refs (add_mset l M) a"
    using byte_ok_block [OF assms(1) d] Some by (subst unat32_add) auto
  have "byte_ok ?w (add_mset l M)"
    using byte_ok_list [OF assms(1)] assms(2) Some bt_refs_pos [OF assms(2) Some]
    by (intro byte_ok_recount [OF assms(1) d u]) auto
  moreover have "byte_keep M w ?w"
    using d by (intro byte_keep_same) (simp add: same_bytes_def yb_core_def)
  ultimately show ?thesis
    using Some d by (simp add: bt_share_def)
qed

lemma bt_deallocate_ok:
  assumes "byte_ok w (add_mset l M)"
  shows "\<exists>w'. bt_deallocate (bt_data l) w = Inr w' \<and> byte_ok w' M \<and> byte_keep M w w' \<and>
    (\<forall>a. bt_refs M a > 0 \<longrightarrow> same_bytes a w w')"
proof (cases "bt_data l")
  case None
  then show ?thesis
    using assms by (simp add: bt_deallocate_def byte_ok_None)
next
  case (Some a)
  then obtain d where d: "yw_block w a = Some d"
    using byte_ok_list [OF assms] by fastforce
  let ?d = "d\<lparr>yb_count := yb_count d - 1\<rparr>" and ?m = "max (yw_maxSize w) (yb_size d)"
  have c: "unat (yb_count d) = Suc (bt_refs M a)"
    using byte_ok_block [OF assms d] Some by simp
  then have "yb_count d \<ge> 1"
    by (simp add: word_le_nat_alt)
  then have u: "unat (yb_count d - 1) = bt_refs M a"
    using c by (subst unat32_sub) auto
  have lists: "\<exists>e. yw_block w b = Some e \<and> bt_used k \<le> yb_dirty e" if "k \<in># M" "bt_data k = Some b" for k b
    using byte_ok_list [OF assms, of k b] that by simp
  have same: "(\<And>b. bt_refs M b > 0 \<Longrightarrow> same_bytes b w w') \<Longrightarrow> byte_keep M w w' \<and> (\<forall>a. bt_refs M a > 0 \<longrightarrow> same_bytes a w w')" for w'
    using byte_keep_same by blast
  show ?thesis
  proof (cases "bt_refs M a = 0")
    case False
    then have n: "yb_count d - 1 \<noteq> 0"
      using u by auto
    have "byte_ok (yw_put a ?d w) M"
      using lists False Some by (intro byte_ok_recount [OF assms d u]) auto
    then have "byte_ok (yw_put a ?d (w\<lparr>yw_maxSize := ?m\<rparr>)) M"
      by (simp add: byte_ok_def)
    moreover have "bt_deallocate (bt_data l) w = Inr (yw_put a ?d (w\<lparr>yw_maxSize := ?m\<rparr>))"
      using Some d n by (simp add: bt_deallocate_def Let_def)
    ultimately show ?thesis
      using same [of "yw_put a ?d (w\<lparr>yw_maxSize := ?m\<rparr>)"] d by (simp add: same_bytes_def yb_core_def)
  next
    case True
    then have z: "yb_count d - 1 = 0"
      using u by (simp add: unat_eq_zero)
    have na: "a \<notin> set (yw_free w)"
      using byte_ok_block [OF assms d] Some by simp
    have ne: "b \<noteq> a" if "k \<in># M" "bt_data k = Some b" for k b
      using bt_refs_pos [OF that] True by auto
    have other: "b < yw_next w \<and> block_fine e \<and> unat (yb_count e) = bt_refs M b \<and> (b \<in> set (yw_free w) \<longleftrightarrow> bt_refs M b = 0)"
      if "yw_block w b = Some e" "b \<noteq> a" for b e
      using byte_ok_block [OF assms that(1)] that(2) Some by simp
    have old: "distinct (yw_free w)" "\<And>b. b \<in> set (yw_free w) \<Longrightarrow> yw_block w b \<noteq> None"
      using assms by (auto simp: byte_ok_def)
    let ?w1 = "yw_delete a (yw_put a ?d (w\<lparr>yw_maxSize := ?m\<rparr>))"
    let ?w2 = "(yw_put a ?d (w\<lparr>yw_maxSize := ?m\<rparr>))\<lparr>yw_free := a # yw_free w\<rparr>"
    have "byte_ok ?w1 M"
      unfolding byte_ok_def
    proof (intro conjI ballI allI impI)
      show "distinct (yw_free ?w1)" "\<And>b. b \<in> set (yw_free ?w1) \<Longrightarrow> yw_block ?w1 b \<noteq> None"
        using old na by auto
      show "\<exists>e. yw_block ?w1 b = Some e \<and> bt_used k \<le> yb_dirty e" if "k \<in># M" "bt_data k = Some b" for k b
        using lists [OF that] ne [OF that] by simp
      fix b e
      assume "yw_block ?w1 b = Some e"
      then have "yw_block w b = Some e" "b \<noteq> a"
        by (auto split: if_splits)
      from other [OF this] show "b < yw_next ?w1" "block_fine e" "unat (yb_count e) = bt_refs M b"
        "b \<in> set (yw_free ?w1) \<longleftrightarrow> bt_refs M b = 0"
        by simp_all
    qed
    moreover have "byte_ok ?w2 M"
      unfolding byte_ok_def
    proof (intro conjI ballI allI impI)
      show "distinct (yw_free ?w2)" "\<And>b. b \<in> set (yw_free ?w2) \<Longrightarrow> yw_block ?w2 b \<noteq> None"
        using old na by auto
      show "\<exists>e. yw_block ?w2 b = Some e \<and> bt_used k \<le> yb_dirty e" if "k \<in># M" "bt_data k = Some b" for k b
        using lists [OF that] ne [OF that] by simp
      fix b e
      assume b: "yw_block ?w2 b = Some e"
      have "b < yw_next w \<and> block_fine e \<and> unat (yb_count e) = bt_refs M b \<and> (b \<in> set (a # yw_free w) \<longleftrightarrow> bt_refs M b = 0)"
      proof (cases "b = a")
        case True
        then show ?thesis
          using b byte_ok_block [OF assms d] u \<open>bt_refs M a = 0\<close> by (auto simp: block_fine_def)
      next
        case False
        then show ?thesis
          using b other [of b e] by auto
      qed
      then show "b < yw_next ?w2" "block_fine e" "unat (yb_count e) = bt_refs M b" "b \<in> set (yw_free ?w2) \<longleftrightarrow> bt_refs M b = 0"
        by simp_all
    qed
    moreover have "same_bytes b w ?w1" "same_bytes b w ?w2" if "bt_refs M b > 0" for b
      using that True by (auto simp: same_bytes_def yb_core_def)
    moreover have "bt_deallocate (bt_data l) w = Inr ?w1 \<or> bt_deallocate (bt_data l) w = Inr ?w2"
      using Some d z by (simp add: bt_deallocate_def Let_def)
    ultimately show ?thesis
      using same [of ?w1] same [of ?w2] by auto
  qed
qed

lemma bt_assign_ok:
  assumes "byte_ok w (add_mset l M)" and "k \<in># M" and "size M < 2 ^ 32 - 1"
  shows "\<exists>w'. bt_assign l k w = Inr (k, w') \<and> byte_ok w' (add_mset k M) \<and> byte_keep M w w'"
proof -
  obtain w1 where w1: "bt_deallocate (bt_data l) w = Inr w1" "byte_ok w1 M" "byte_keep M w w1"
    using bt_deallocate_ok [OF assms(1)] by blast
  obtain w' where "bt_share (bt_data k) w1 = Inr w'" "byte_ok w' (add_mset k M)" "byte_keep M w1 w'"
    using bt_share_ok [OF w1(2) assms(2,3)] by blast
  then show ?thesis
    using w1 byte_keep_trans [OF w1(3)] by (auto simp: bt_assign_def)
qed

section \<open>Writing behind the used part\<close>

lemma byte_ok_write:
  assumes "byte_ok w (add_mset l M)" and "bt_data l = Some a" and "yw_block w a = Some d"
    and "yb_count d = 1 \<or> yb_dirty d = bt_used l" and "bt_used l \<le> used" and "used \<le> yb_size d"
    and "length m = length (yb_data d)" and "take (unat (bt_used l)) m = take (unat (bt_used l)) (yb_data d)"
    and "bt_data l' = Some a" and "bt_used l' = used"
  shows "byte_ok (yw_put a (d\<lparr>yb_data := m, yb_dirty := used\<rparr>) w) (add_mset l' M)"
    and "byte_keep M w (yw_put a (d\<lparr>yb_data := m, yb_dirty := used\<rparr>) w)"
proof -
  let ?w = "yw_put a (d\<lparr>yb_data := m, yb_dirty := used\<rparr>) w"
  note d = byte_ok_block [OF assms(1,3)]
  have others: "bt_used k \<le> bt_used l" if "k \<in># M" "bt_data k = Some a" for k
  proof -
    have "bt_refs M a > 0"
      by (rule bt_refs_pos [OF that])
    then have "yb_count d \<noteq> 1"
      using d assms(2) by auto
    then have "yb_dirty d = bt_used l"
      using assms(4) by simp
    then show ?thesis
      using byte_ok_list [OF assms(1), of k a] that assms(3) by simp
  qed
  show "byte_ok ?w (add_mset l' M)"
    unfolding byte_ok_def
  proof (intro conjI ballI allI impI)
    show "distinct (yw_free ?w)" "\<And>b. b \<in> set (yw_free ?w) \<Longrightarrow> yw_block ?w b \<noteq> None"
      using assms(1) by (auto simp: byte_ok_def)
    show "\<exists>e. yw_block ?w b = Some e \<and> bt_used k \<le> yb_dirty e" if k: "k \<in># add_mset l' M" "bt_data k = Some b" for k b
    proof (cases "b = a")
      case True
      have "bt_used k \<le> used"
        using k True others [of k] assms(5,10) by auto
      then show ?thesis
        using True by simp
    next
      case False
      then have "k \<in># M"
        using k assms(9) by auto
      then show ?thesis
        using byte_ok_list [OF assms(1), of k b] k(2) False by simp
    qed
    fix b e
    assume b: "yw_block ?w b = Some e"
    have "b < yw_next w \<and> block_fine e \<and> unat (yb_count e) = bt_refs (add_mset l' M) b \<and>
        (b \<in> set (yw_free w) \<longleftrightarrow> bt_refs (add_mset l' M) b = 0)"
    proof (cases "b = a")
      case True
      then show ?thesis
        using b d assms(2,6,7,9) by (auto simp: block_fine_def)
    next
      case False
      then show ?thesis
        using b byte_ok_block [OF assms(1), of b e] assms(2,9) by auto
    qed
    then show "b < yw_next ?w" "block_fine e" "unat (yb_count e) = bt_refs (add_mset l' M) b"
      "b \<in> set (yw_free ?w) \<longleftrightarrow> bt_refs (add_mset l' M) b = 0"
      by simp_all
  qed
  show "byte_keep M w ?w"
    unfolding byte_keep_def
  proof (intro ballI allI impI)
    fix k K es
    assume k: "k \<in># M" and f: "bt_fits K w k es"
    show "bt_fits K ?w k es"
    proof (cases "bt_data k = Some a")
      case True
      then have e: "unat (bt_used k) = length (enc es)" "take (length (enc es)) (yb_data d) = enc es"
        using f assms(3) by (auto simp: bt_fits_def)
      have "length (enc es) \<le> unat (bt_used l)"
        using others [OF k True] e(1) by (simp add: word_le_nat_alt)
      then have "take (length (enc es)) m = enc es"
        using e(2) arg_cong [OF assms(8), of "take (length (enc es))"] by (simp add: min_absorb1)
      then show ?thesis
        using f True e by (simp add: bt_fits_def)
    next
      case False
      then show ?thesis
        using f by (auto simp: bt_fits_def split: option.splits)
    qed
  qed
qed

end
