(* ===== verification/Byte_Tags_Ops.thy ===== *)
theory Byte_Tags_Ops
  imports Byte_Tags_Heap
begin

text \<open>
  Adding an entry to a list of byte tags, and the iterator over the entries that overlap a range: each entry is added
  behind the others, and the iterator passes exactly the overlapping ones, in order, with their bytes.
\<close>

section \<open>The block for an entry\<close>

lemma bt_fits_data: "bt_fits K w l es \<Longrightarrow> bt_data l = Some a \<Longrightarrow>
    \<exists>d. yw_block w a = Some d \<and> unat (bt_used l) = length (enc es) \<and> take (length (enc es)) (yb_data d) = enc es"
  by (simp add: bt_fits_def)

lemma bt_fits_used: "bt_fits K w l es \<Longrightarrow> unat (bt_used l) = length (enc es)"
  by (auto simp: bt_fits_def split: option.splits)

lemma bt_reserve_ok:
  assumes "byte_ok w (add_mset l M)" and "bt_fits K w l es" and "bt_used l \<le> need"
  shows "\<exists>a w1 d u. bt_reserve need l w = Inr (a, l\<lparr>bt_data := Some a\<rparr>, w1) \<and> yw_block w1 a = Some d \<and>
    need \<le> yb_size d \<and> (yb_count d = 1 \<or> yb_dirty d = u) \<and> u \<le> bt_used l \<and>
    byte_ok w1 (add_mset (l\<lparr>bt_data := Some a, bt_used := u\<rparr>) M) \<and> byte_keep M w w1 \<and>
    take (length (enc es)) (yb_data d) = enc es"
proof (cases "bt_data l")
  case None
  then have e: "es = []" "bt_used l = 0" and ok: "byte_ok w M"
    using assms(1,2) by (simp_all add: bt_fits_def byte_ok_None)
  obtain a w1 d where a: "bt_allocate need w = Inr (a, w1)" "yw_block w1 a = Some d" "need \<le> yb_size d" "yb_count d = 1"
    "\<And>l. bt_data l = Some a \<Longrightarrow> bt_used l = 0 \<Longrightarrow> byte_ok w1 (add_mset l M)" "\<And>b. bt_refs M b > 0 \<Longrightarrow> yw_block w1 b = yw_block w b"
    using bt_allocate_ok [OF ok, of need] by metis
  have "l\<lparr>bt_data := Some a, bt_used := 0\<rparr> = l\<lparr>bt_data := Some a\<rparr>"
    using e(2) by simp
  moreover have "byte_keep M w w1"
    using a(6) by (intro byte_keep_same) (simp add: same_bytes_def)
  ultimately show ?thesis
    using None a(1-5) e by (auto simp: bt_reserve_def)
next
  case (Some a)
  obtain d where d: "yw_block w a = Some d" "unat (bt_used l) = length (enc es)" "take (length (enc es)) (yb_data d) = enc es"
    using bt_fits_data [OF assms(2) Some] by blast
  have same: "l\<lparr>bt_data := Some a\<rparr> = l" "l\<lparr>bt_data := Some a, bt_used := bt_used l\<rparr> = l"
    using Some by simp_all
  show ?thesis
  proof (cases "yb_size d < need \<or> yb_count d \<noteq> 1 \<and> yb_dirty d \<noteq> bt_used l")
    case False
    then have "bt_reserve need l w = Inr (a, l\<lparr>bt_data := Some a\<rparr>, w)"
      using Some d(1) same by (auto simp: bt_reserve_def)
    then show ?thesis
      using False d assms(1) same by (auto intro!: exI [of _ a] exI [of _ "bt_used l"])
  next
    case True
    obtain b w1 e where b: "bt_allocate need w = Inr (b, w1)" "bt_refs (add_mset l M) b = 0" "yw_block w1 b = Some e"
      "need \<le> yb_size e" "yb_count e = 1" "yb_dirty e = 0"
      "\<And>k. bt_data k = Some b \<Longrightarrow> bt_used k = 0 \<Longrightarrow> byte_ok w1 (add_mset k (add_mset l M))"
      "\<And>c. bt_refs (add_mset l M) c > 0 \<Longrightarrow> yw_block w1 c = yw_block w c"
      using bt_allocate_ok [OF assms(1), of need] by metis
    have ba: "b \<noteq> a" and M: "bt_refs M b = 0"
      using b(2) Some by auto
    have da: "yw_block w1 a = Some d"
      using b(8) [of a] Some d(1) by simp
    let ?l = "l\<lparr>bt_data := Some b, bt_used := 0\<rparr>"
    have ok1: "byte_ok w1 (add_mset ?l (add_mset l M))"
      by (rule b(7)) simp_all
    have fine: "unat (yb_size e) \<le> length (yb_data e)" "unat (yb_size d) \<le> length (yb_data d)" "bt_used l \<le> yb_size d"
      using byte_ok_block [OF ok1 b(3)] byte_ok_block [OF assms(1) d(1)] byte_ok_list [OF assms(1) _ Some] d(1)
      by (auto simp: block_fine_def)
    have len: "length (enc es) \<le> length (yb_data e)" "length (enc es) \<le> length (yb_data d)"
      using fine assms(3) b(4) d(2) by (simp_all add: word_le_nat_alt)
    let ?m = "splice 0 (take (unat (bt_used l)) (yb_data d)) (yb_data e)"
    let ?e = "e\<lparr>yb_data := ?m\<rparr>"
    have m: "length ?m = length (yb_data e)" "take (length (enc es)) ?m = enc es"
      using len d(2,3) by (simp_all add: splice_def)
    have put: "e\<lparr>yb_data := ?m, yb_dirty := 0\<rparr> = ?e"
      using b(6) by simp
    have "byte_ok (yw_put b ?e w1) (add_mset ?l (add_mset l M))" and keep1: "byte_keep (add_mset l M) w1 (yw_put b ?e w1)"
      using byte_ok_write [OF ok1 _ b(3), where used = 0 and m = ?m and l' = ?l] b(5) m(1) unfolding put by simp_all
    then have "byte_ok (yw_put b ?e w1) (add_mset l (add_mset ?l M))"
      by (simp add: add_mset_commute)
    from bt_deallocate_ok [OF this] obtain w2 where w2: "bt_deallocate (Some a) (yw_put b ?e w1) = Inr w2"
      "byte_ok w2 (add_mset ?l M)" "byte_keep (add_mset ?l M) (yw_put b ?e w1) w2"
      "\<And>c. bt_refs (add_mset ?l M) c > 0 \<Longrightarrow> same_bytes c (yw_put b ?e w1) w2"
      using Some by auto
    obtain e2 where e2: "yw_block w2 b = Some e2" "yb_core e2 = yb_core ?e"
      using same_bytes_get [OF w2(4) [of b], where d = ?e] by auto
    have "unat (yb_count e2) = 1"
      using byte_ok_block [OF w2(2) e2(1)] M by simp
    then have c: "yb_count e2 = 1"
      by (simp add: word_unat_eq_iff)
    have "byte_keep M w w1"
      using b(8) by (intro byte_keep_same) (simp add: same_bytes_def)
    moreover have "byte_keep M w1 (yw_put b ?e w1)" "byte_keep M (yw_put b ?e w1) w2"
      using byte_keep_mono [OF keep1, of M] byte_keep_mono [OF w2(3), of M] by auto
    ultimately have "byte_keep M w w2"
      using byte_keep_trans by blast
    moreover have "bt_reserve need l w = Inr (b, l\<lparr>bt_data := Some b\<rparr>, w2)"
      using Some d(1,2) True b(1,3) da len w2(1) by (simp add: bt_reserve_def)
    ultimately show ?thesis
      using e2 c b(4) m(2) w2(2) by (intro exI [of _ b] exI [of _ w2] exI [of _ e2] exI [of _ 0]) (simp add: yb_core_def)
  qed
qed

section \<open>Adding an entry\<close>

lemma splice_append: "i + length xs + length ys \<le> length m \<Longrightarrow> splice (i + length xs) ys (splice i xs m) = splice i (xs @ ys) m"
  by (simp add: splice_def ac_simps)

lemma splice_same: "i + n \<le> length m \<Longrightarrow> splice i (take n (drop i m)) m = m"
  by (simp add: splice_def add.commute [of i n]) (metis append_take_drop_id drop_drop)

lemma splice_prefix: "k \<le> i \<Longrightarrow> i + length xs \<le> length m \<Longrightarrow> take k (splice i xs m) = take k m"
  by (simp add: splice_def)

lemma int32_ok: "\<bar>k\<bar> < 2 ^ 31 \<Longrightarrow> int32 k = Inr k"
  by (simp add: int32_def abs_less_iff)

lemma tb_write_u32_ok:
  "tb_current b + 4 \<le> tb_end b \<Longrightarrow> tb_end b \<le> length m \<Longrightarrow>
   tb_write_u32 x (b, m) = Inr (b\<lparr>tb_current := tb_current b + 4\<rparr>, splice (tb_current b) (le_bytes 4 x) m)"
  using tb_write_ok [of b "le_bytes 4 x" m] by (simp add: tb_write_u32_def)

text \<open>What is said of the list holds for any bytes in the window.\<close>

definition bt_added :: "nat \<Rightarrow> byte_tags multiset \<Rightarrow> byte_world \<Rightarrow> byte_entry list \<Rightarrow> byte_tags \<Rightarrow> byte_world \<Rightarrow> bool" where
  "bt_added K M w es l w' \<longleftrightarrow> byte_ok w' (add_mset l M) \<and> byte_keep M w w' \<and> bt_fits K w' l es"

lemma bt_add_ok:
  assumes "byte_ok w (add_mset l M)" and "bt_fits K w l es" and "K \<le> K'" and "K' < 2 ^ 29"
    and "length (enc es) + 16 + n \<le> K'" and "\<bar>s\<bar> \<le> 2 ^ 29 + int K'" and "\<bar>e\<bar> \<le> 2 ^ 29 + int K'"
  shows "\<exists>b l' w' a d. bt_add tid (of_nat n) s e l w = Inr (b, l', w') \<and> bt_data l' = Some a \<and> yw_block w' a = Some d \<and>
    tb_end b = tb_current b + n \<and> tb_end b \<le> length (yb_data d) \<and> bt_adjustment l' = bt_adjustment l \<and>
    (\<forall>bs. length bs = n \<longrightarrow> bt_added K' M w (es @ [(tid, s - bt_adjustment l, e - bt_adjustment l, bs)]) l'
      (yw_put a (d\<lparr>yb_data := splice (tb_current b) bs (yb_data d)\<rparr>) w'))"
proof -
  let ?u = "length (enc es)" and ?adj = "bt_adjustment l"
  let ?need = "bt_used l + of_nat n + 4 + 4 + 4 + 4"
  have u: "unat (bt_used l) = ?u"
    by (rule bt_fits_used [OF assms(2)])
  moreover have "bt_used l = of_nat (unat (bt_used l))"
    by simp
  ultimately have w: "bt_used l = of_nat ?u"
    by metis
  have eq: "?need = of_nat (?u + 16 + n)"
    unfolding w by simp
  have need: "unat ?need = ?u + 16 + n"
    unfolding eq by (rule unat_nat32) (use assms(4,5) in simp)
  have le: "bt_used l \<le> ?need"
    unfolding word_le_nat_alt need u by simp
  obtain a w1 d v where r: "bt_reserve ?need l w = Inr (a, l\<lparr>bt_data := Some a\<rparr>, w1)" "yw_block w1 a = Some d"
    "?need \<le> yb_size d" "yb_count d = 1 \<or> yb_dirty d = v" "v \<le> bt_used l"
    "byte_ok w1 (add_mset (l\<lparr>bt_data := Some a, bt_used := v\<rparr>) M)" "byte_keep M w w1" "take ?u (yb_data d) = enc es"
    using bt_reserve_ok [OF assms(1,2) le] by blast
  have len: "?u + 16 + n \<le> length (yb_data d)"
    using byte_ok_block [OF r(6,2)] r(3) unfolding block_fine_def word_le_nat_alt need by linarith
  have adj: "\<bar>?adj\<bar> \<le> int K'"
    using assms(2,3) by (simp add: bt_fits_def)
  have sub: "int32 (s - ?adj) = Inr (s - ?adj)" "int32 (e - ?adj) = Inr (e - ?adj)"
    using assms(4,6,7) adj by (auto intro!: int32_ok)
  let ?head = "le_bytes 4 (ucast tid :: 32 word) @ le_bytes 4 (of_nat n :: 32 word) @ le_bytes 4 (of_int (s - ?adj) :: 32 word) @
    le_bytes 4 (of_int (e - ?adj) :: 32 word)"
  let ?m = "splice ?u ?head (yb_data d)"
  let ?l = "l\<lparr>bt_data := Some a, bt_minStart := (if s - ?adj < bt_minStart l then s - ?adj else bt_minStart l),
    bt_maxEnd := (if e - ?adj > bt_maxEnd l then e - ?adj else bt_maxEnd l), bt_used := ?need\<rparr>"
  let ?d = "d\<lparr>yb_data := ?m, yb_dirty := ?need\<rparr>"
  let ?b = "\<lparr>tb_current = ?u + 16, tb_end = ?u + 16 + n\<rparr>"
  have run: "bt_add tid (of_nat n) s e l w = Inr (?b, ?l, yw_put a ?d w1)"
  proof -
    define m1 where "m1 = splice ?u (le_bytes 4 (ucast tid :: 32 word)) (yb_data d)"
    define m2 where "m2 = splice (?u + 4) (le_bytes 4 (of_nat n :: 32 word)) m1"
    define m3 where "m3 = splice (?u + 8) (le_bytes 4 (of_int (s - ?adj) :: 32 word)) m2"
    define m4 where "m4 = splice (?u + 12) (le_bytes 4 (of_int (e - ?adj) :: 32 word)) m3"
    have l1: "length m1 = length (yb_data d)"
      unfolding m1_def using len by (intro splice_length) simp
    have l2: "length m2 = length (yb_data d)"
      unfolding m2_def using len l1 by (subst splice_length) simp_all
    have l3: "length m3 = length (yb_data d)"
      unfolding m3_def using len l2 by (subst splice_length) simp_all
    have "m4 = ?m"
      unfolding m4_def m3_def m2_def m1_def
      using len splice_append [of ?u "le_bytes 4 (ucast tid :: 32 word)" _ "yb_data d"]
        splice_append [of ?u "le_bytes 4 (ucast tid :: 32 word) @ le_bytes 4 (of_nat n :: 32 word)" _ "yb_data d"]
        splice_append [of ?u "le_bytes 4 (ucast tid :: 32 word) @ le_bytes 4 (of_nat n :: 32 word) @
          le_bytes 4 (of_int (s - ?adj) :: 32 word)" _ "yb_data d"]
      by simp
    moreover have "tb_write_u32 (ucast tid) (\<lparr>tb_current = ?u, tb_end = ?u + 16 + n\<rparr>, yb_data d) =
        Inr (\<lparr>tb_current = ?u + 4, tb_end = ?u + 16 + n\<rparr>, m1)"
      using len by (subst tb_write_u32_ok) (simp_all add: m1_def)
    moreover have "tb_write_u32 (of_nat n) (\<lparr>tb_current = ?u + 4, tb_end = ?u + 16 + n\<rparr>, m1) =
        Inr (\<lparr>tb_current = ?u + 8, tb_end = ?u + 16 + n\<rparr>, m2)"
      using len l1 by (subst tb_write_u32_ok) (simp_all add: m2_def)
    moreover have "tb_write_u32 (of_int (s - ?adj)) (\<lparr>tb_current = ?u + 8, tb_end = ?u + 16 + n\<rparr>, m2) =
        Inr (\<lparr>tb_current = ?u + 12, tb_end = ?u + 16 + n\<rparr>, m3)"
      using len l2 by (subst tb_write_u32_ok) (simp_all add: m3_def)
    moreover have "tb_write_u32 (of_int (e - ?adj)) (\<lparr>tb_current = ?u + 12, tb_end = ?u + 16 + n\<rparr>, m3) = Inr (?b, m4)"
      using len l3 by (subst tb_write_u32_ok) (simp_all add: m4_def)
    ultimately show ?thesis
      using r(1,2) le sub u need unfolding bt_add_def Let_def
      by (simp only: ns_assert_simps res_bind_simps deref_simps prod.case byte_tags.simps) simp
  qed
  have added: "bt_added K' M w (es @ [(tid, s - ?adj, e - ?adj, bs)]) ?l
      (yw_put a (?d\<lparr>yb_data := splice (tb_current ?b) bs (yb_data ?d)\<rparr>) (yw_put a ?d w1))" if bs: "length bs = n" for bs
  proof -
    let ?m2 = "splice (?u + 16) bs ?m"
    let ?e = "(tid, s - ?adj, e - ?adj, bs)"
    let ?w = "yw_put a (d\<lparr>yb_data := ?m2, yb_dirty := ?need\<rparr>) w1"
    have m2: "?m2 = splice ?u (enc_entry ?e) (yb_data d)"
      using splice_append [of ?u ?head bs "yb_data d"] len bs by simp
    have l2: "length ?m2 = length (yb_data d)"
      unfolding m2 using len bs by (intro splice_length) simp
    have "take (unat v) ?m2 = take (unat v) (yb_data d)"
      unfolding m2 using len bs r(5) u by (intro splice_prefix) (simp_all add: word_le_nat_alt)
    moreover have "v \<le> ?need"
      using r(5) le by simp
    ultimately have ok: "byte_ok ?w (add_mset ?l M)" "byte_keep M w1 ?w"
      using byte_ok_write [OF r(6) _ r(2), where used = ?need and m = ?m2 and l' = ?l] r(3,4) l2 by simp_all
    have data: "take (length (enc (es @ [?e]))) ?m2 = enc (es @ [?e])"
    proof -
      have "take (?u + length (enc_entry ?e)) ?m2 = take ?u (yb_data d) @ enc_entry ?e"
        unfolding m2 using len bs by (simp add: splice_def)
      then show ?thesis
        using r(8) by simp
    qed
    have old: "entry_in K' ?l x" if "x \<in> set es" for x
    proof -
      have "entry_in K l x"
        using assms(2) that by (simp add: bt_fits_def)
      then show ?thesis
        using assms(3) by (auto simp: entry_in_def split: prod.splits)
    qed
    have "bt_fits K' ?w ?l (es @ [?e])"
      using adj assms(5-7) bs old data need unfolding bt_fits_def
      by (auto simp: entry_in_def simp del: enc_entry.simps)
    moreover have "yw_put a (?d\<lparr>yb_data := splice (tb_current ?b) bs (yb_data ?d)\<rparr>) (yw_put a ?d w1) = ?w"
      by (cases d) (simp add: yw_put_def)
    ultimately show ?thesis
      using ok byte_keep_trans [OF r(7) ok(2)] by (simp add: bt_added_def)
  qed
  have "?u + 16 + n \<le> length ?m"
    using len by (subst splice_length) simp_all
  then show ?thesis
    using run added by (intro exI [of _ ?b] exI [of _ ?l] exI [of _ "yw_put a ?d w1"] exI [of _ a] exI [of _ ?d]) simp
qed


section \<open>Iterating\<close>

text \<open>The entries that the iterator passes, with their positions.\<close>

fun in_range :: "int \<Rightarrow> int \<Rightarrow> int \<Rightarrow> byte_entry \<Rightarrow> bool" where
  "in_range oS oE adj (t, s, e, bs) \<longleftrightarrow> \<not> (s + adj \<ge> oE \<or> e + adj \<le> oS)"

definition yi_on :: "int \<Rightarrow> int \<Rightarrow> int \<Rightarrow> byte_entry list \<Rightarrow> byte_entry list \<Rightarrow> byte_iter \<Rightarrow> bool" where
  "yi_on oS oE adj pre rest i \<longleftrightarrow> yi_current i = length (enc pre) \<and> yi_end i = length (enc (pre @ rest)) \<and>
     yi_offsetStart i = oS \<and> yi_offsetEnd i = oE \<and> yi_adjustment i = adj"

definition yi_at :: "int \<Rightarrow> int \<Rightarrow> int \<Rightarrow> byte_entry list \<Rightarrow> byte_entry list \<Rightarrow> byte_iter \<Rightarrow> bool" where
  "yi_at oS oE adj pre rest i \<longleftrightarrow> yi_on oS oE adj pre rest i \<and>
     (case rest of [] \<Rightarrow> True
      | (t, s, e, bs) # _ \<Rightarrow> in_range oS oE adj (t, s, e, bs) \<and> yi_nextTid i = ucast t \<and> yi_nextSize i = of_nat (length bs) \<and>
          yi_nextStart i = s + adj \<and> yi_nextEnd i = e + adj)"

definition entries_small :: "int \<Rightarrow> byte_entry list \<Rightarrow> bool" where
  "entries_small adj es \<longleftrightarrow> length (enc es) < 2 ^ 29 \<and> (\<forall>(t, s, e, bs) \<in> set es. \<bar>s + adj\<bar> < 2 ^ 31 \<and> \<bar>e + adj\<bar> < 2 ^ 31)"

lemma sint_small: "\<bar>k\<bar> < 2 ^ 31 \<Longrightarrow> sint (of_int a + of_int b :: 32 word) = k" if "a + b = k"
proof -
  assume "\<bar>k\<bar> < 2 ^ 31"
  then have "signed_take_bit 31 k = k"
    by (intro signed_take_bit_int_eq_self) auto
  then show ?thesis
    using that by (simp add: signed_of_int flip: of_int_add)
qed

lemma take_drop_at: "take (length ys) (drop (length xs) (xs @ ys @ zs)) = ys"
  by simp

lemma read_u32_at:
  assumes "m = xs @ le_bytes 4 x @ zs" and "p = length xs" and "p + 4 \<le> u" and "u \<le> length m"
  shows "tb_read_u32 (\<lparr>tb_current = p, tb_end = u\<rparr>, m) = Inr (x, \<lparr>tb_current = p + 4, tb_end = u\<rparr>, m)"
  using tb_read_u32_le [of "\<lparr>tb_current = p, tb_end = u\<rparr>" m x] assms by simp

lemma read_entry:
  assumes "m = enc (pre @ (t, s, e, bs) # rest) @ tail" and "u = length (enc (pre @ (t, s, e, bs) # rest))"
  shows "tb_read_u32 (\<lparr>tb_current = length (enc pre), tb_end = u\<rparr>, m) =
      Inr (ucast t, \<lparr>tb_current = length (enc pre) + 4, tb_end = u\<rparr>, m)"
    and "tb_read_u32 (\<lparr>tb_current = length (enc pre) + 4, tb_end = u\<rparr>, m) =
      Inr (of_nat (length bs), \<lparr>tb_current = length (enc pre) + 8, tb_end = u\<rparr>, m)"
    and "tb_read_u32 (\<lparr>tb_current = length (enc pre) + 8, tb_end = u\<rparr>, m) =
      Inr (of_int s, \<lparr>tb_current = length (enc pre) + 12, tb_end = u\<rparr>, m)"
    and "tb_read_u32 (\<lparr>tb_current = length (enc pre) + 12, tb_end = u\<rparr>, m) =
      Inr (of_int e, \<lparr>tb_current = length (enc pre) + 16, tb_end = u\<rparr>, m)"
    and "take (length bs) (drop (length (enc pre) + 16) m) = bs"
proof -
  let ?h1 = "le_bytes 4 (ucast t :: 32 word)" and ?h2 = "le_bytes 4 (of_nat (length bs) :: 32 word)"
  let ?h3 = "le_bytes 4 (of_int s :: 32 word)" and ?h4 = "le_bytes 4 (of_int e :: 32 word)"
  let ?z = "bs @ enc rest @ tail"
  have m: "m = enc pre @ ?h1 @ ?h2 @ ?h3 @ ?h4 @ ?z" and u: "u \<le> length m" "length (enc pre) + 16 + length bs \<le> u"
    using assms by simp_all
  show "tb_read_u32 (\<lparr>tb_current = length (enc pre), tb_end = u\<rparr>, m) =
      Inr (ucast t, \<lparr>tb_current = length (enc pre) + 4, tb_end = u\<rparr>, m)"
    by (rule read_u32_at [OF m]) (use u in simp_all)
  show "tb_read_u32 (\<lparr>tb_current = length (enc pre) + 4, tb_end = u\<rparr>, m) =
      Inr (of_nat (length bs), \<lparr>tb_current = length (enc pre) + 8, tb_end = u\<rparr>, m)"
    using read_u32_at [of m "enc pre @ ?h1" _ "?h3 @ ?h4 @ ?z" "length (enc pre) + 4" u] m u by simp
  show "tb_read_u32 (\<lparr>tb_current = length (enc pre) + 8, tb_end = u\<rparr>, m) =
      Inr (of_int s, \<lparr>tb_current = length (enc pre) + 12, tb_end = u\<rparr>, m)"
    using read_u32_at [of m "enc pre @ ?h1 @ ?h2" _ "?h4 @ ?z" "length (enc pre) + 8" u] m u by simp
  show "tb_read_u32 (\<lparr>tb_current = length (enc pre) + 12, tb_end = u\<rparr>, m) =
      Inr (of_int e, \<lparr>tb_current = length (enc pre) + 16, tb_end = u\<rparr>, m)"
    using read_u32_at [of m "enc pre @ ?h1 @ ?h2 @ ?h3" _ ?z "length (enc pre) + 12" u] m u by simp
  show "take (length bs) (drop (length (enc pre) + 16) m) = bs"
    unfolding m by simp
qed

lemma unat_entry_size: "length bs < 2 ^ 29 \<Longrightarrow> unat (4 + 4 + 4 + 4 + of_nat (length bs) :: 32 word) = 16 + length bs"
  using unat_nat32 [of "16 + length bs"] by simp

lemma entries_small_parts:
  "entries_small adj (pre @ (t, s, e, bs) # rest) \<Longrightarrow> length bs < 2 ^ 29 \<and> \<bar>s + adj\<bar> < 2 ^ 31 \<and> \<bar>e + adj\<bar> < 2 ^ 31"
  by (simp add: entries_small_def)

lemma yi_prepare_from_ok:
  "yi_on oS oE adj pre rest i \<Longrightarrow> m = enc (pre @ rest) @ tail \<Longrightarrow> entries_small adj (pre @ rest) \<Longrightarrow> length rest < n \<Longrightarrow>
   \<exists>i'. yi_prepare_from n m i = Inr i' \<and>
     yi_at oS oE adj (pre @ takeWhile (\<lambda>x. \<not> in_range oS oE adj x) rest) (dropWhile (\<lambda>x. \<not> in_range oS oE adj x) rest) i'"
proof (induction n arbitrary: pre rest i)
  case (Suc n)
  show ?case
  proof (cases rest)
    case Nil
    then show ?thesis
      using Suc.prems(1) by (simp add: yi_on_def yi_at_def)
  next
    case (Cons x ys)
    obtain t s e bs where x: "x = (t, s, e, bs)"
      by (cases x)
    note on = Suc.prems(1) [unfolded yi_on_def Cons x]
    have m: "m = enc (pre @ (t, s, e, bs) # ys) @ tail"
      using Suc.prems(2) Cons x by simp
    note small = entries_small_parts [OF Suc.prems(3) [unfolded Cons x]]
    note r = read_entry [OF m refl]
    let ?i = "i\<lparr>yi_nextTid := ucast t, yi_nextSize := of_nat (length bs), yi_nextStart := s + adj, yi_nextEnd := e + adj\<rparr>"
    have pos: "sint (of_int s + of_int adj :: 32 word) = s + adj" "sint (of_int e + of_int adj :: 32 word) = e + adj"
      using small sint_small by blast+
    have lt: "yi_current i < yi_end i"
      using on by simp
    show ?thesis
    proof (cases "in_range oS oE adj x")
      case True
      then have "yi_prepare_from (Suc n) m i = Inr ?i"
        using lt r(1-4) on pos x by (simp add: Let_def)
      moreover have "yi_at oS oE adj pre rest ?i"
        using on True Cons x by (simp add: yi_at_def yi_on_def)
      ultimately show ?thesis
        using True Cons by simp
    next
      case False
      let ?j = "?i\<lparr>yi_current := yi_current i + (16 + length bs)\<rparr>"
      have size: "unat (4 + 4 + 4 + 4 + of_nat (length bs) :: 32 word) = 16 + length bs"
        by (rule unat_entry_size) (use small in simp)
      have "yi_prepare_from (Suc n) m i = yi_prepare_from n m ?j"
        using lt r(1-4) on pos x False size by (simp add: Let_def)
      moreover have "yi_on oS oE adj (pre @ [x]) ys ?j"
        using on x by (simp add: yi_on_def)
      ultimately show ?thesis
        using Suc.IH [of "pre @ [x]" ys ?j] Suc.prems(2-4) False Cons by simp
    qed
  qed
qed simp

lemma entries_count: "length es \<le> length (enc es)"
  by (induction es) auto

lemma yi_prepare_ok:
  assumes "yi_on oS oE adj pre rest i" and "m = enc (pre @ rest) @ tail" and "entries_small adj (pre @ rest)"
  shows "\<exists>i'. yi_prepare m i = Inr i' \<and>
    yi_at oS oE adj (pre @ takeWhile (\<lambda>x. \<not> in_range oS oE adj x) rest) (dropWhile (\<lambda>x. \<not> in_range oS oE adj x) rest) i'"
  unfolding yi_prepare_def
  by (rule yi_prepare_from_ok [OF assms]) (use assms(1) entries_count [of rest] in \<open>simp add: yi_on_def less_Suc_eq_le\<close>)

definition item_of :: "int \<Rightarrow> int \<Rightarrow> int \<Rightarrow> nat \<Rightarrow> byte_entry \<Rightarrow> byte_item" where
  "item_of oS oE adj p = (\<lambda>(t, s, e, bs). \<lparr>ym_tid = t, ym_size = of_nat (length bs), ym_start = max (s + adj) oS,
     ym_end = min (e + adj) oE, ym_buf = \<lparr>tb_current = p + 16, tb_end = p + 16 + length bs\<rparr>\<rparr>)"

lemma yi_next_ok:
  assumes "yi_at oS oE adj pre (x # rest) i" and "m = enc (pre @ x # rest) @ tail" and "entries_small adj (pre @ x # rest)"
  shows "\<exists>i'. yi_next m i = Inr (item_of oS oE adj (length (enc pre)) x, i') \<and>
    yi_at oS oE adj ((pre @ [x]) @ takeWhile (\<lambda>x. \<not> in_range oS oE adj x) rest)
      (dropWhile (\<lambda>x. \<not> in_range oS oE adj x) rest) i'"
proof -
  obtain t s e bs where x: "x = (t, s, e, bs)"
    by (cases x)
  note at = assms(1) [unfolded yi_at_def yi_on_def x]
  note small = entries_small_parts [OF assms(3) [unfolded x]]
  have size: "unat (4 + 4 + 4 + 4 + of_nat (length bs) :: 32 word) = 16 + length bs"
    by (rule unat_entry_size) (use small in simp)
  let ?c = "length (enc pre) + (16 + length bs)"
  let ?i = "i\<lparr>yi_current := ?c\<rparr>"
  have "yi_on oS oE adj (pre @ [x]) rest ?i"
    using at x by (simp add: yi_on_def)
  from yi_prepare_ok [OF this] obtain i' where i': "yi_prepare m ?i = Inr i'"
    "yi_at oS oE adj ((pre @ [x]) @ takeWhile (\<lambda>x. \<not> in_range oS oE adj x) rest) (dropWhile (\<lambda>x. \<not> in_range oS oE adj x) rest) i'"
    using assms(2,3) by auto
  have "length (enc (pre @ x # rest)) < 2 ^ 29"
    using assms(3) by (simp add: entries_small_def)
  then have rest: "unat (of_nat (length (enc rest)) :: 32 word) = length (enc rest)"
    by (intro unat_nat32) simp
  have "(of_int (int (yi_end i) - int ?c) :: 32 word) = of_nat (length (enc rest))"
    using at by simp
  then have trim: "tb_trim_at_end (of_int (int (yi_end i) - int ?c)) \<lparr>tb_current = yi_current i + 16, tb_end = yi_end i\<rparr> =
      Inr \<lparr>tb_current = length (enc pre) + 16, tb_end = length (enc pre) + 16 + length bs\<rparr>"
    using at rest by (simp add: tb_trim_at_end_def)
  have "ucast (ucast t :: 32 word) = t"
    by (rule bit_word_eqI) (auto simp: bit_simps)
  moreover have "yi_has_next i"
    using at by (simp add: yi_has_next_def)
  ultimately show ?thesis
    using i' trim at size x by (simp add: yi_next_def item_of_def Let_def)
qed

end
