(* ===== verification/Byte_Tags_Lists.thy ===== *)
theory Byte_Tags_Lists
  imports Byte_Tags_Ops
begin

text \<open>
  Copying entries from one list to another, and what this means for the bytes: \<open>marks adj es i\<close> are the tags of the byte at
  position \<open>i\<close>. \<open>AddAtEnd\<close> and \<open>AddAtStart\<close> take the tags from the bytes behind or before a position, and \<open>Add\<close> of
  a list gives every byte the tags of both.
\<close>

section \<open>The tags of a byte\<close>

definition marks :: "int \<Rightarrow> byte_entry list \<Rightarrow> int \<Rightarrow> (16 word \<times> bytes) list" where
  "marks adj es i = map (\<lambda>(t, s, e, bs). (t, bs)) (filter (\<lambda>(t, s, e, bs). s + adj \<le> i \<and> i < e + adj) es)"

lemma marks_simps [simp]:
  "marks adj [] i = []"
  "marks adj ((t, s, e, bs) # es) i = (if s + adj \<le> i \<and> i < e + adj then (t, bs) # marks adj es i else marks adj es i)"
  "marks adj (es @ fs) i = marks adj es i @ marks adj fs i"
  by (simp_all add: marks_def)

lemma marks_adjust: "marks (adj + k) es i = marks adj es (i - k)"
  by (auto simp: marks_def algebra_simps intro!: arg_cong [where f = "map _"] filter_cong)

lemma marks_none: "(\<And>t s e bs. (t, s, e, bs) \<in> set es \<Longrightarrow> \<not> (s + adj \<le> i \<and> i < e + adj)) \<Longrightarrow> marks adj es i = []"
  by (auto simp: marks_def filter_empty_conv)

section \<open>The loop\<close>

text \<open>A change of the positions of an entry, as the loops make it.\<close>

type_synonym range_change = "int \<Rightarrow> int \<Rightarrow> (int \<times> int) option"

definition changes :: "(byte_item \<Rightarrow> byte_item option) \<Rightarrow> range_change \<Rightarrow> bool" where
  "changes f g \<longleftrightarrow> (\<forall>it. f it = map_option (\<lambda>(s, e). it\<lparr>ym_start := s, ym_end := e\<rparr>) (g (ym_start it) (ym_end it)))"

definition change_within :: "int \<Rightarrow> range_change \<Rightarrow> bool" where
  "change_within B g \<longleftrightarrow> (\<forall>s e s' e'. \<bar>s\<bar> \<le> B \<longrightarrow> \<bar>e\<bar> \<le> B \<longrightarrow> g s e = Some (s', e') \<longrightarrow> \<bar>s'\<bar> \<le> B \<and> \<bar>e'\<bar> \<le> B)"

abbreviation OFFSET_MAX :: int where
  "OFFSET_MAX \<equiv> 2147483647"

fun copied :: "range_change \<Rightarrow> int \<Rightarrow> int \<Rightarrow> byte_entry \<Rightarrow> byte_entry list" where
  "copied g a b (t, s, e, bs) =
     (if in_range 0 OFFSET_MAX a (t, s, e, bs) then
        (case g (max (s + a) 0) (min (e + a) OFFSET_MAX) of None \<Rightarrow> [] | Some (s', e') \<Rightarrow> [(t, s' - b, e' - b, bs)])
      else [])"

definition copied_all :: "range_change \<Rightarrow> int \<Rightarrow> int \<Rightarrow> byte_entry list \<Rightarrow> byte_entry list" where
  "copied_all g a b es = concat (map (copied g a b) es)"

lemma copied_all_simps [simp]:
  "copied_all g a b [] = []" "copied_all g a b (x # es) = copied g a b x @ copied_all g a b es"
  by (simp_all add: copied_all_def)

lemma copied_skip: "copied_all g a b es = copied_all g a b (dropWhile (\<lambda>x. \<not> in_range 0 OFFSET_MAX a x) es)"
proof (induction es)
  case (Cons x es)
  then show ?case
    by (cases x) simp
qed simp

lemma length_copied: "length (enc (copied_all g a b es)) \<le> length (enc es)"
proof (induction es)
  case (Cons x es)
  then show ?case
    by (cases x) (auto split: option.splits)
qed simp

lemma bt_added_trans: "byte_keep M w w1 \<Longrightarrow> bt_added K M w1 es l w' \<Longrightarrow> bt_added K M w es l w'"
  using byte_keep_trans by (auto simp: bt_added_def)

lemma bt_memory_fits:
  assumes "bt_fits K w l es" and "es \<noteq> []"
  shows "\<exists>tail. bt_memory l w = enc es @ tail"
proof -
  obtain a where a: "bt_data l = Some a"
    using assms by (cases "bt_data l") (auto simp: bt_fits_def)
  from bt_fits_data [OF assms(1) this] obtain d where "yw_block w a = Some d" "take (length (enc es)) (yb_data d) = enc es"
    by blast
  then show ?thesis
    using a append_take_drop_id [of "length (enc es)" "yb_data d"] by (simp add: bt_memory_def) metis
qed

lemma bt_fits_small:
  assumes "bt_fits K w l es" and "K < 2 ^ 29"
  shows "entries_small (bt_adjustment l) es" and "\<forall>(t, s, e, bs) \<in> set es. \<bar>s + bt_adjustment l\<bar> \<le> 2 ^ 29 + int K \<and> \<bar>e + bt_adjustment l\<bar> \<le> 2 ^ 29 + int K"
  using assms by (fastforce simp: bt_fits_def entry_in_def entries_small_def)+

text \<open>One entry: it is added, and its bytes are copied from the block of the other list.\<close>

lemma add_item_ok:
  assumes "byte_ok w (add_mset dst M)" and "bt_fits K w dst es" and "K \<le> K'" and "K' < 2 ^ 29" and "src \<in># M"
    and "bt_fits Ks w src (pre @ (t, s0, e0, bs) # rest)"
    and "length (enc es) + 16 + length bs \<le> K'" and "\<bar>s\<bar> \<le> 2 ^ 29 + int K'" and "\<bar>e\<bar> \<le> 2 ^ 29 + int K'"
    and "buf = \<lparr>tb_current = length (enc pre) + 16, tb_end = length (enc pre) + 16 + length bs\<rparr>"
  shows "\<exists>dst' w'. res_bind (bt_add t (of_nat (length bs)) s e dst w) (\<lambda>(c, dst, w).
      res_bind (bt_copy_from src buf dst c w) (\<lambda>w. h dst w)) = h dst' w' \<and>
    bt_added K' M w (es @ [(t, s - bt_adjustment dst, e - bt_adjustment dst, bs)]) dst' w' \<and>
    bt_adjustment dst' = bt_adjustment dst"
proof -
  obtain c dst' w1 a d where r: "bt_add t (of_nat (length bs)) s e dst w = Inr (c, dst', w1)" "bt_data dst' = Some a"
    "yw_block w1 a = Some d" "tb_end c = tb_current c + length bs" "tb_end c \<le> length (yb_data d)"
    "bt_adjustment dst' = bt_adjustment dst"
    "\<And>ys. length ys = length bs \<Longrightarrow> bt_added K' M w (es @ [(t, s - bt_adjustment dst, e - bt_adjustment dst, ys)]) dst'
      (yw_put a (d\<lparr>yb_data := splice (tb_current c) ys (yb_data d)\<rparr>) w1)"
    using bt_add_ok [OF assms(1-4,7-9), of t] by blast
  let ?old = "take (length bs) (drop (tb_current c) (yb_data d))"
  have "splice (tb_current c) ?old (yb_data d) = yb_data d"
    using r(4,5) by (intro splice_same) simp
  then have "yw_put a (d\<lparr>yb_data := splice (tb_current c) ?old (yb_data d)\<rparr>) w1 = w1"
    using r(3) by (simp add: yw_put_def fun_upd_idem)
  then have "byte_keep M w w1"
    using r(7) [of ?old] r(4,5) by (simp add: bt_added_def)
  then have "bt_fits Ks w1 src (pre @ (t, s0, e0, bs) # rest)"
    by (rule byte_keep_fits [OF _ assms(5,6)])
  then obtain tail where m: "bt_memory src w1 = enc (pre @ (t, s0, e0, bs) # rest) @ tail"
    using bt_memory_fits by blast
  note e = read_entry(5) [OF m refl]
  have "length (enc pre) + 16 + length bs \<le> length (bt_memory src w1)"
    unfolding m by simp
  then have "bt_copy_from src buf dst' c w1 = Inr (yw_put a (d\<lparr>yb_data := splice (tb_current c) bs (yb_data d)\<rparr>) w1)"
    using r(2-5) e assms(10) by (simp add: bt_copy_from_def tb_copy_from_def Let_def)
  then show ?thesis
    using r(1,6) r(7) [of bs] by (intro exI [of _ dst'] exI [of _ "yw_put a (d\<lparr>yb_data := splice (tb_current c) bs (yb_data d)\<rparr>) w1"]) simp
qed

lemma bt_add_items_ok:
  assumes "changes f g" and "change_within (2 ^ 29 + int K') g" and "K' < 2 ^ 29" and "src \<in># M"
  shows "yi_at 0 OFFSET_MAX (bt_adjustment src) pre rest i \<Longrightarrow> length rest < n \<Longrightarrow>
    byte_ok w (add_mset dst M) \<Longrightarrow> bt_fits K w dst es \<Longrightarrow> K \<le> K' \<Longrightarrow> bt_fits Ks w src (pre @ rest) \<Longrightarrow> Ks \<le> K' \<Longrightarrow>
    length (enc es) + length (enc rest) \<le> K' \<Longrightarrow>
    \<exists>dst' w'. bt_add_items n f src i dst w = Inr (dst', w') \<and>
      bt_added K' M w (es @ copied_all g (bt_adjustment src) (bt_adjustment dst) rest) dst' w' \<and>
      bt_adjustment dst' = bt_adjustment dst"
proof (induction n arbitrary: pre rest i w dst es K)
  case (Suc n)
  let ?a = "bt_adjustment src" and ?b = "bt_adjustment dst"
  show ?case
  proof (cases rest)
    case Nil
    then have "\<not> yi_has_next i"
      using Suc.prems(1) by (simp add: yi_at_def yi_on_def yi_has_next_def)
    then show ?thesis
      using Nil Suc.prems(3-5) bt_fits_mono by (auto simp: bt_added_def)
  next
    case (Cons x ys)
    obtain t s e bs where x: "x = (t, s, e, bs)"
      by (cases x)
    have fits: "bt_fits Ks w src (pre @ x # ys)"
      using Suc.prems(6) Cons by simp
    then obtain tail where m: "bt_memory src w = enc (pre @ x # ys) @ tail"
      using bt_memory_fits by blast
    have at: "yi_at 0 OFFSET_MAX ?a pre (x # ys) i" and Ks: "Ks < 2 ^ 29"
      using Suc.prems(1,7) Cons assms(3) by simp_all
    note small = bt_fits_small [OF fits Ks]
    from yi_next_ok [OF at m small(1)] obtain i' where i': "yi_next (bt_memory src w) i = Inr (item_of 0 OFFSET_MAX ?a (length (enc pre)) x, i')"
      "yi_at 0 OFFSET_MAX ?a ((pre @ [x]) @ takeWhile (\<lambda>x. \<not> in_range 0 OFFSET_MAX ?a x) ys)
        (dropWhile (\<lambda>x. \<not> in_range 0 OFFSET_MAX ?a x) ys) i'"
      by blast
    let ?pre = "(pre @ [x]) @ takeWhile (\<lambda>x. \<not> in_range 0 OFFSET_MAX ?a x) ys"
    let ?ys = "dropWhile (\<lambda>x. \<not> in_range 0 OFFSET_MAX ?a x) ys"
    have split: "?pre @ ?ys = pre @ x # ys"
      by simp
    have next_at: "yi_has_next i" and inr: "in_range 0 OFFSET_MAX ?a x"
      using at x by (auto simp: yi_at_def yi_on_def yi_has_next_def)
    have len: "length ?ys < n" "length (enc ?ys) \<le> length (enc ys)"
    proof -
      show "length ?ys < n"
        using Suc.prems(2) Cons length_dropWhile_le [of "\<lambda>x. \<not> in_range 0 OFFSET_MAX ?a x" ys] by simp
      have "enc ys = enc (takeWhile (\<lambda>x. \<not> in_range 0 OFFSET_MAX ?a x) ys) @ enc ?ys"
        by (simp flip: enc_simps(3))
      then show "length (enc ?ys) \<le> length (enc ys)"
        by simp
    qed
    let ?s = "max (s + ?a) 0" and ?e = "min (e + ?a) OFFSET_MAX"
    have range: "\<bar>s + ?a\<bar> \<le> 2 ^ 29 + int K'" "\<bar>e + ?a\<bar> \<le> 2 ^ 29 + int K'"
      using small(2) x Suc.prems(7) by auto
    then have range': "\<bar>?s\<bar> \<le> 2 ^ 29 + int K'" "\<bar>?e\<bar> \<le> 2 ^ 29 + int K'"
      using assms(3) by (auto simp: max_def min_def abs_le_iff)
    have f: "f (item_of 0 OFFSET_MAX ?a (length (enc pre)) x) =
        map_option (\<lambda>(s', e'). (item_of 0 OFFSET_MAX ?a (length (enc pre)) x)\<lparr>ym_start := s', ym_end := e'\<rparr>) (g ?s ?e)"
      using assms(1) x by (simp add: changes_def item_of_def)
    show ?thesis
    proof (cases "g ?s ?e")
      case None
      then have "bt_add_items (Suc n) f src i dst w = bt_add_items n f src i' dst w"
        using next_at i'(1) f by simp
      moreover have "copied_all g ?a ?b rest = copied_all g ?a ?b ?ys"
        using None Cons x copied_skip [of g ?a ?b ys] by simp
      ultimately show ?thesis
        using Suc.IH [OF i'(2) len(1) Suc.prems(3-5) _ Suc.prems(7)] fits split Suc.prems(8) len(2) Cons by simp
    next
      case (Some r)
      then obtain s' e' where g: "g ?s ?e = Some (s', e')"
        by (cases r) simp
      have within: "\<bar>s'\<bar> \<le> 2 ^ 29 + int K'" "\<bar>e'\<bar> \<le> 2 ^ 29 + int K'"
        using assms(2) range' g unfolding change_within_def by blast+
      have room: "length (enc es) + 16 + length bs \<le> K'"
        using Suc.prems(8) Cons x by simp
      obtain dst1 w1 where one: "res_bind (bt_add t (of_nat (length bs)) s' e' dst w) (\<lambda>(c, dst, w).
          res_bind (bt_copy_from src \<lparr>tb_current = length (enc pre) + 16, tb_end = length (enc pre) + 16 + length bs\<rparr> dst c w)
            (\<lambda>w. bt_add_items n f src i' dst w)) = bt_add_items n f src i' dst1 w1"
        "bt_added K' M w (es @ [(t, s' - ?b, e' - ?b, bs)]) dst1 w1" "bt_adjustment dst1 = ?b"
        using add_item_ok [OF Suc.prems(3-5) assms(3,4) fits [unfolded x] room within refl] by blast
      have step: "bt_add_items (Suc n) f src i dst w = bt_add_items n f src i' dst1 w1"
        using next_at i'(1) f g one(1) x by (simp add: item_of_def)
      have a1: "byte_ok w1 (add_mset dst1 M)" "byte_keep M w w1" "bt_fits K' w1 dst1 (es @ [(t, s' - ?b, e' - ?b, bs)])"
        using one(2) by (simp_all add: bt_added_def)
      have fits1: "bt_fits Ks w1 src (?pre @ ?ys)"
        using byte_keep_fits [OF a1(2) assms(4) fits] split by simp
      have "length (enc (es @ [(t, s' - ?b, e' - ?b, bs)])) + length (enc ?ys) \<le> K'"
        using Suc.prems(8) Cons x len(2) by simp
      from Suc.IH [OF i'(2) len(1) a1(1,3) order_refl fits1 Suc.prems(7) this] obtain dst' w' where
        r: "bt_add_items n f src i' dst1 w1 = Inr (dst', w')"
        "bt_added K' M w1 ((es @ [(t, s' - ?b, e' - ?b, bs)]) @ copied_all g ?a (bt_adjustment dst1) ?ys) dst' w'"
        "bt_adjustment dst' = bt_adjustment dst1"
        by blast
      have "(es @ [(t, s' - ?b, e' - ?b, bs)]) @ copied_all g ?a (bt_adjustment dst1) ?ys = es @ copied_all g ?a ?b rest"
        using Cons x inr g one(3) copied_skip [of g ?a ?b ys] by simp
      then have "bt_added K' M w (es @ copied_all g ?a ?b rest) dst' w'"
        using bt_added_trans [OF a1(2) r(2)] by simp
      then show ?thesis
        using step r(1,3) one(3) by auto
    qed
  qed
qed simp


lemma bt_begin_ok:
  assumes "bt_fits K w l es" and "K < 2 ^ 29"
  shows "\<exists>i. bt_begin oS oE l w = Inr i \<and> (es = [] \<and> \<not> yi_has_next i \<or>
    yi_at oS oE (bt_adjustment l) (takeWhile (\<lambda>x. \<not> in_range oS oE (bt_adjustment l) x) es)
      (dropWhile (\<lambda>x. \<not> in_range oS oE (bt_adjustment l) x) es) i)"
proof (cases "es = []")
  case True
  then show ?thesis
    using bt_fits_used [OF assms(1)] by (cases "bt_data l = None") (auto simp: bt_begin_def yi_prepare_def yi_has_next_def Let_def)
next
  case False
  then obtain tail where m: "bt_memory l w = enc ([] @ es) @ tail"
    using bt_memory_fits [OF assms(1)] by auto
  have data: "bt_data l \<noteq> None"
    using assms(1) False by (cases "bt_data l") (auto simp: bt_fits_def)
  let ?i = "\<lparr>yi_current = 0, yi_end = unat (bt_used l), yi_offsetStart = oS, yi_offsetEnd = oE, yi_adjustment = bt_adjustment l,
    yi_nextTid = 0, yi_nextSize = 0, yi_nextStart = 0, yi_nextEnd = 0\<rparr>"
  have "yi_on oS oE (bt_adjustment l) [] es ?i"
    using bt_fits_used [OF assms(1)] by (simp add: yi_on_def)
  from yi_prepare_ok [OF this m] obtain i' where "yi_prepare (bt_memory l w) ?i = Inr i'"
    "yi_at oS oE (bt_adjustment l) ([] @ takeWhile (\<lambda>x. \<not> in_range oS oE (bt_adjustment l) x) es)
      (dropWhile (\<lambda>x. \<not> in_range oS oE (bt_adjustment l) x) es) i'"
    using bt_fits_small(1) [OF assms] by auto
  then show ?thesis
    using data by (auto simp: bt_begin_def Let_def)
qed

section \<open>Lists of entries\<close>

definition restricts :: "range_change \<Rightarrow> (int \<Rightarrow> bool) \<Rightarrow> bool" where
  "restricts g R \<longleftrightarrow> (\<forall>s e i. (case g s e of None \<Rightarrow> False | Some (s', e') \<Rightarrow> s' \<le> i \<and> i < e') \<longleftrightarrow> s \<le> i \<and> i < e \<and> R i)"

lemma marks_copied:
  assumes "restricts g R"
  shows "marks b (copied_all g a b es) i = (if 0 \<le> i \<and> i < OFFSET_MAX \<and> R i then marks a es i else [])"
proof (induction es)
  case (Cons x es)
  obtain t s e bs where x: "x = (t, s, e, bs)"
    by (cases x)
  have "marks b (copied g a b x) i = (if 0 \<le> i \<and> i < OFFSET_MAX \<and> R i \<and> s + a \<le> i \<and> i < e + a then [(t, bs)] else [])"
  proof (cases "g (max (s + a) 0) (min (e + a) OFFSET_MAX)")
    case None
    then have "\<not> (max (s + a) 0 \<le> i \<and> i < min (e + a) OFFSET_MAX \<and> R i)"
      using assms unfolding restricts_def by (metis option.simps(4))
    then show ?thesis
      using None x by auto
  next
    case (Some r)
    then obtain s' e' where g: "g (max (s + a) 0) (min (e + a) OFFSET_MAX) = Some (s', e')"
      by (cases r) simp
    then have "s' \<le> i \<and> i < e' \<longleftrightarrow> max (s + a) 0 \<le> i \<and> i < min (e + a) OFFSET_MAX \<and> R i"
      using assms unfolding restricts_def by (metis (no_types, lifting) case_prod_conv option.simps(5))
    then show ?thesis
      using g x by auto
  qed
  then show ?case
    using Cons.IH x by auto
qed simp

lemma marks_far:
  assumes "bt_fits K w l es" and "K < 2 ^ 29" and "OFFSET_MAX \<le> i"
  shows "marks (bt_adjustment l) es i = []"
proof (rule marks_none)
  fix t s e bs
  assume "(t, s, e, bs) \<in> set es"
  then have "\<bar>e + bt_adjustment l\<bar> \<le> 2 ^ 29 + int K"
    using bt_fits_small(2) [OF assms(1,2)] by blast
  then show "\<not> (s + bt_adjustment l \<le> i \<and> i < e + bt_adjustment l)"
    using assms(2,3) by (simp add: abs_le_iff)
qed

lemma marks_copied_fits:
  assumes "restricts g R" and "bt_fits K w l es" and "K < 2 ^ 29"
  shows "marks b (copied_all g (bt_adjustment l) b es) i = (if 0 \<le> i \<and> R i then marks (bt_adjustment l) es i else [])"
  using marks_copied [OF assms(1), of b "bt_adjustment l" es i] marks_far [OF assms(2,3), of i] by auto

lemma copy_all_ok:
  assumes "changes f g" and "change_within (2 ^ 29 + int K') g" and "K' < 2 ^ 29" and "src \<in># M"
    and "byte_ok w (add_mset dst M)" and "bt_fits K w dst es" and "K \<le> K'" and "bt_fits Ks w src fs" and "Ks \<le> K'"
    and "length (enc es) + length (enc fs) \<le> K'"
  shows "\<exists>dst' w'. res_bind (bt_begin_all src w) (\<lambda>i. bt_add_items (bt_fuel src) f src i dst w) = Inr (dst', w') \<and>
    bt_added K' M w (es @ copied_all g (bt_adjustment src) (bt_adjustment dst) fs) dst' w' \<and>
    bt_adjustment dst' = bt_adjustment dst"
proof -
  let ?a = "bt_adjustment src" and ?P = "\<lambda>x. \<not> in_range 0 OFFSET_MAX (bt_adjustment src) x"
  obtain i where i: "bt_begin 0 OFFSET_MAX src w = Inr i"
    "fs = [] \<and> \<not> yi_has_next i \<or> yi_at 0 OFFSET_MAX ?a (takeWhile ?P fs) (dropWhile ?P fs) i"
    using bt_begin_ok [OF assms(8)] assms(3,9) by (meson le_less_trans)
  have start: "bt_begin_all src w = Inr i"
    using i(1) by (simp add: bt_begin_all_def)
  show ?thesis
    using i(2)
  proof
    assume "fs = [] \<and> \<not> yi_has_next i"
    then show ?thesis
      using start assms(5-7) bt_fits_mono by (auto simp: bt_fuel_def bt_added_def)
  next
    assume at: "yi_at 0 OFFSET_MAX ?a (takeWhile ?P fs) (dropWhile ?P fs) i"
    have "enc fs = enc (takeWhile ?P fs) @ enc (dropWhile ?P fs)"
      by (simp flip: enc_simps(3))
    then have "length (enc es) + length (enc (dropWhile ?P fs)) \<le> K'"
      using assms(10) by simp
    moreover have "length (dropWhile ?P fs) < bt_fuel src"
      using length_dropWhile_le [of ?P fs] entries_count [of fs] bt_fits_used [OF assms(8)] by (simp add: bt_fuel_def)
    ultimately show ?thesis
      using bt_add_items_ok [OF assms(1-4) at _ assms(5-7) _ assms(9)] assms(8) start copied_skip [of g ?a _ fs] by simp
  qed
qed

section \<open>The operations\<close>

lemma changes_Some: "changes Some (\<lambda>s e. Some (s, e))"
  by (simp add: changes_def)

lemma changes_clip_end: "changes (clip_end off) (\<lambda>s e. if s \<ge> off then None else Some (s, if e > off then off else e))"
  by (simp add: changes_def clip_end_def)

lemma changes_clip_start: "changes (clip_start off) (\<lambda>s e. if e \<le> off then None else Some (if s < off then off else s, e))"
  by (simp add: changes_def clip_start_def)

lemma restricts_changes:
  "restricts (\<lambda>s e. Some (s, e)) (\<lambda>_. True)"
  "restricts (\<lambda>s e. if s \<ge> off then None else Some (s, if e > off then off else e)) (\<lambda>i. i < off)"
  "restricts (\<lambda>s e. if e \<le> off then None else Some (if s < off then off else s, e)) (\<lambda>i. off \<le> i)"
  by (auto simp: restricts_def)

lemma within_changes:
  "change_within B (\<lambda>s e. Some (s, e))"
  "\<bar>off\<bar> \<le> B \<Longrightarrow> change_within B (\<lambda>s e. if s \<ge> off then None else Some (s, if e > off then off else e))"
  "\<bar>off\<bar> \<le> B \<Longrightarrow> change_within B (\<lambda>s e. if e \<le> off then None else Some (if s < off then off else s, e))"
  by (auto simp: change_within_def split: if_splits)

lemma bt_add_list_ok:
  assumes "byte_ok w (add_mset l M)" and "src \<in># M" and "bt_fits K w l es" and "bt_fits Ks w src fs" and "K \<le> K'" and "Ks \<le> K'"
    and "K' < 2 ^ 29" and "length (enc es) + length (enc fs) \<le> K'"
  shows "\<exists>l' w' es'. bt_add_list src l w = Inr (l', w') \<and> bt_added K' M w es' l' w' \<and>
    (\<forall>i \<ge> 0. marks (bt_adjustment l') es' i = marks (bt_adjustment l) es i @ marks (bt_adjustment src) fs i)"
proof -
  have Ks: "Ks < 2 ^ 29"
    using assms(6,7) by simp
  show ?thesis
    using copy_all_ok [OF changes_Some within_changes(1) assms(7,2,1,3,5,4,6,8)]
      marks_copied_fits [OF restricts_changes(1) assms(4) Ks] by (fastforce simp: bt_add_list_def)
qed

lemma bt_empty_fits: "bt_fits K w bt_empty []"
  by (simp add: bt_fits_def bt_empty_def)

lemma bt_rebuild_ok:
  assumes "changes f g" and "change_within (2 ^ 29 + int K) g" and "restricts g R" and "K < 2 ^ 29"
    and "byte_ok w (add_mset l M)" and "bt_fits K w l es" and "size M < 2 ^ 32 - 3"
  shows "\<exists>l' w' es'. bt_rebuild f l w = Inr (l', w') \<and> bt_added K M w es' l' w' \<and>
    (\<forall>i. marks (bt_adjustment l') es' i = (if 0 \<le> i \<and> R i then marks (bt_adjustment l) es i else []))"
proof -
  have ok0: "byte_ok w (add_mset bt_empty (add_mset l M))"
    using assms(5) by (simp add: byte_ok_None bt_empty_def)
  let ?es = "copied_all g (bt_adjustment l) (bt_adjustment bt_empty) es"
  have len: "length (enc es) \<le> K"
    using assms(6) by (simp add: bt_fits_def)
  obtain i list w1 where r: "bt_begin_all l w = Inr i" "bt_add_items (bt_fuel l) f l i bt_empty w = Inr (list, w1)"
    "bt_added K (add_mset l M) w ?es list w1" "bt_adjustment list = bt_adjustment bt_empty"
    using copy_all_ok [OF assms(1,2,4) _ ok0 bt_empty_fits [of K] order_refl assms(6) order_refl] len by (auto simp: res_bind_eq_Inr)
  have a: "byte_ok w1 (add_mset l (add_mset list M))" "byte_keep (add_mset l M) w w1" "bt_fits K w1 list ?es"
    using r(3) by (simp_all add: bt_added_def add_mset_commute)
  obtain w2 where w2: "bt_assign l list w1 = Inr (list, w2)" "byte_ok w2 (add_mset list (add_mset list M))"
    "byte_keep (add_mset list M) w1 w2"
    using bt_assign_ok [OF a(1), of list] assms(7) by auto
  obtain w3 where w3: "bt_destroy list w2 = Inr w3" "byte_ok w3 (add_mset list M)" "byte_keep (add_mset list M) w2 w3"
    using bt_deallocate_ok [OF w2(2)] by (auto simp: bt_destroy_def)
  have "bt_fits K w3 list ?es"
    using byte_keep_fits [OF w3(3) _ byte_keep_fits [OF w2(3) _ a(3)]] by simp
  moreover have "byte_keep M w w1" "byte_keep M w1 w2" "byte_keep M w2 w3"
    using byte_keep_mono [OF a(2), of M] byte_keep_mono [OF w2(3), of M] byte_keep_mono [OF w3(3), of M] by auto
  ultimately have "bt_added K M w ?es list w3"
    using w3(2) byte_keep_trans unfolding bt_added_def by blast
  moreover have "bt_rebuild f l w = Inr (list, w3)"
    using r(1,2) w2(1) w3(1) by (simp add: bt_rebuild_def)
  ultimately show ?thesis
    using marks_copied_fits [OF assms(3,6,4)] r(4) by auto
qed

lemma bt_add_at_end_ok:
  assumes "byte_ok w (add_mset l M)" and "bt_fits K w l es" and "K < 2 ^ 29" and "0 \<le> off" and "off \<le> 2 ^ 29" and "size M < 2 ^ 32 - 3"
  shows "\<exists>l' w' es'. bt_add_at_end off l w = Inr (l', w') \<and> bt_added K M w es' l' w' \<and>
    (\<forall>i \<ge> 0. marks (bt_adjustment l') es' i = (if i < off then marks (bt_adjustment l) es i else []))"
proof -
  have adj: "\<bar>bt_adjustment l\<bar> \<le> int K"
    using assms(2) by (simp add: bt_fits_def)
  have k: "int32 (off - bt_adjustment l) = Inr (off - bt_adjustment l)"
    using adj assms(3-5) by (auto intro!: int32_ok)
  show ?thesis
  proof (cases "bt_maxEnd l \<le> off - bt_adjustment l")
    case True
    have "marks (bt_adjustment l) es i = []" if "off \<le> i" for i
    proof (rule marks_none)
      fix t s e bs
      assume "(t, s, e, bs) \<in> set es"
      then have "e \<le> bt_maxEnd l"
        using assms(2) by (auto simp: bt_fits_def entry_in_def)
      then show "\<not> (s + bt_adjustment l \<le> i \<and> i < e + bt_adjustment l)"
        using True that by linarith
    qed
    then show ?thesis
      using True k assms(1,2) by (auto simp: bt_add_at_end_def bt_added_def intro!: exI [of _ es])
  next
    case False
    have "\<bar>off\<bar> \<le> 2 ^ 29 + int K"
      using assms(4,5) by linarith
    from bt_rebuild_ok [OF changes_clip_end within_changes(2) [OF this] restricts_changes(2) assms(3,1,2,6)] show ?thesis
      using False k by (fastforce simp: bt_add_at_end_def)
  qed
qed

text \<open>The loop of \<open>AddAtStart\<close> runs on a list whose \<open>m_minStart\<close> was reset; it does not read that field.\<close>

lemma bt_memory_minStart [simp]: "bt_memory (l\<lparr>bt_minStart := x\<rparr>) w = bt_memory l w"
  by (simp add: bt_memory_def)

lemma bt_add_items_minStart: "bt_add_items n f (l\<lparr>bt_minStart := x\<rparr>) = bt_add_items n f l"
proof (induction n)
  case 0
  show ?case
    by (simp add: fun_eq_iff)
next
  case (Suc n)
  have "bt_copy_from (l\<lparr>bt_minStart := x\<rparr>) = bt_copy_from l"
    by (simp add: bt_copy_from_def fun_eq_iff)
  then show ?case
    by (intro ext) (simp only: bt_add_items.simps Suc.IH bt_memory_minStart)
qed

lemma bt_rebuild_minStart: "bt_rebuild f (l\<lparr>bt_minStart := x\<rparr>) w = bt_rebuild f l w"
proof -
  have "bt_assign (l\<lparr>bt_minStart := x\<rparr>) = bt_assign l"
    by (simp add: bt_assign_def fun_eq_iff)
  moreover have "bt_begin_all (l\<lparr>bt_minStart := x\<rparr>) = bt_begin_all l"
    by (simp add: bt_begin_all_def bt_begin_def Let_def fun_eq_iff)
  moreover have "bt_fuel (l\<lparr>bt_minStart := x\<rparr>) = bt_fuel l"
    by (simp add: bt_fuel_def)
  ultimately show ?thesis
    unfolding bt_rebuild_def bt_add_items_minStart by simp
qed

lemma bt_add_at_start_ok:
  assumes "byte_ok w (add_mset l M)" and "bt_fits K w l es" and "K < 2 ^ 29" and "0 \<le> off" and "off \<le> 2 ^ 29" and "size M < 2 ^ 32 - 3"
  shows "\<exists>l' w' es'. bt_add_at_start off l w = Inr (l', w') \<and> bt_added K M w es' l' w' \<and>
    (\<forall>i. marks (bt_adjustment l') es' i = (if off \<le> i then marks (bt_adjustment l) es i else []))"
proof -
  have adj: "\<bar>bt_adjustment l\<bar> \<le> int K"
    using assms(2) by (simp add: bt_fits_def)
  have k: "int32 (off - bt_adjustment l) = Inr (off - bt_adjustment l)"
    using adj assms(3-5) by (auto intro!: int32_ok)
  show ?thesis
  proof (cases "bt_minStart l \<ge> off - bt_adjustment l")
    case True
    have "marks (bt_adjustment l) es i = []" if "i < off" for i
    proof (rule marks_none)
      fix t s e bs
      assume "(t, s, e, bs) \<in> set es"
      then have "bt_minStart l \<le> s"
        using assms(2) by (auto simp: bt_fits_def entry_in_def)
      then show "\<not> (s + bt_adjustment l \<le> i \<and> i < e + bt_adjustment l)"
        using True that by linarith
    qed
    then show ?thesis
      using True k assms(1,2) by (auto simp: bt_add_at_start_def bt_added_def intro!: exI [of _ es])
  next
    case False
    have "\<bar>off\<bar> \<le> 2 ^ 29 + int K"
      using assms(4,5) by linarith
    from bt_rebuild_ok [OF changes_clip_start within_changes(3) [OF this] restricts_changes(3) assms(3,1,2,6)] show ?thesis
      using False k assms(4) unfolding bt_add_at_start_def bt_rebuild_minStart by fastforce
  qed
qed

end
