(* ===== verification/Byte_Tags_Values.thy ===== *)
theory Byte_Tags_Values
  imports Packet Byte_Tags_Lists Shared_Store
begin

text \<open>
  A list of byte tags as a value: the tags of each byte of the packet, in the order in which they were added, and a bound on
  the memory and the distances it uses. The steps that the operations of \<open>Packet\<close> take on the list are steps on these values.
\<close>

type_synonym tag_list = "(16 word \<times> bytes) list"

type_synonym byte_value = "nat \<times> tag_list list"

definition byte_holds :: "byte_world \<Rightarrow> byte_tags \<Rightarrow> byte_value \<Rightarrow> bool" where
  "byte_holds w l v \<longleftrightarrow> (case v of (K, ts) \<Rightarrow> K < 2 ^ 29 \<and> length ts < 2 ^ 29 \<and>
     (\<exists>es. bt_fits K w l es \<and> (\<forall>i < length ts. marks (bt_adjustment l) es (int i) = ts ! i)))"

interpretation byte_lists: shared_store byte_ok byte_keep byte_holds
  by unfold_locales (force simp: byte_holds_def byte_keep_def)

text \<open>What an operation makes of one list.\<close>

definition byte_becomes :: "byte_tags multiset \<Rightarrow> byte_world \<Rightarrow> byte_value \<Rightarrow> byte_tags \<times> byte_world \<Rightarrow> bool" where
  "byte_becomes H w v = (\<lambda>(l, w'). byte_ok w' (add_mset l H) \<and> byte_keep H w w' \<and> byte_holds w' l v)"

lemma byte_becomesI:
  "bt_added K H w es l w' \<Longrightarrow> K < 2 ^ 29 \<Longrightarrow> length ts < 2 ^ 29 \<Longrightarrow>
   (\<And>i. i < length ts \<Longrightarrow> marks (bt_adjustment l) es (int i) = ts ! i) \<Longrightarrow> byte_becomes H w (K, ts) (l, w')"
  by (auto simp: byte_becomes_def bt_added_def byte_holds_def)

lemma byte_becomes_trans:
  "byte_becomes H w v1 (l1, w1) \<Longrightarrow> byte_becomes H w1 v (l, w') \<Longrightarrow> byte_becomes H w v (l, w')"
  using byte_keep_trans by (auto simp: byte_becomes_def)

lemma byte_holds_mono: "byte_holds w l (K, ts) \<Longrightarrow> K \<le> K' \<Longrightarrow> K' < 2 ^ 29 \<Longrightarrow> byte_holds w l (K', ts)"
  by (auto simp: byte_holds_def intro: bt_fits_mono)

section \<open>Empty lists, copies, adjustment\<close>

lemma byte_empty_ok:
  assumes "byte_ok w H" and "n < 2 ^ 29"
  shows "byte_becomes H w (0, replicate n []) (bt_empty, w)"
proof -
  have "byte_ok w (add_mset bt_empty H)"
    using assms(1) by (simp add: byte_ok_None bt_empty_def)
  then show ?thesis
    using bt_empty_fits [of 0 w] assms(2) by (auto simp: byte_becomes_def byte_holds_def intro!: exI [of _ "[]"])
qed

lemma bt_remove_all_ok:
  assumes "byte_ok w (add_mset l H)" and "n < 2 ^ 29"
  shows "\<exists>w'. bt_remove_all l w = Inr (bt_empty, w') \<and> byte_becomes H w (0, replicate n []) (bt_empty, w')"
proof -
  obtain w1 where w1: "bt_deallocate (bt_data l) w = Inr w1" "byte_ok w1 H" "byte_keep H w w1"
    using bt_deallocate_ok [OF assms(1)] by blast
  then show ?thesis
    using byte_empty_ok [OF w1(2) assms(2)] byte_keep_trans [OF w1(3)] by (auto simp: bt_remove_all_def byte_becomes_def)
qed

lemma bt_copy_ok:
  assumes "byte_ok w H" and "l \<in># H" and "byte_holds w l v" and "size H < 2 ^ 32 - 1"
  shows "\<exists>w'. bt_copy l w = Inr (l, w') \<and> byte_becomes H w v (l, w')"
proof -
  obtain w' where w': "bt_share (bt_data l) w = Inr w'" "byte_ok w' (add_mset l H)" "byte_keep H w w'"
    using bt_share_ok [OF assms(1,2,4)] by blast
  then show ?thesis
    using byte_lists.keep_stands [OF w'(3) assms(2,3)] by (simp add: bt_copy_def byte_becomes_def)
qed

lemma bt_adjust_ok:
  assumes "byte_ok w (add_mset l H)" and "bt_fits K w l es" and "K + nat \<bar>k\<bar> < 2 ^ 29"
  shows "\<exists>l'. bt_adjust k l = Inr l' \<and> bt_added (K + nat \<bar>k\<bar>) H w es l' w \<and> bt_adjustment l' = bt_adjustment l + k"
proof -
  let ?l = "l\<lparr>bt_adjustment := bt_adjustment l + k\<rparr>"
  have adj: "\<bar>bt_adjustment l\<bar> \<le> int K"
    using assms(2) by (simp add: bt_fits_def)
  then have "int32 (bt_adjustment l + k) = Inr (bt_adjustment l + k)"
    using assms(3) by (auto intro!: int32_ok)
  moreover have "byte_ok w (add_mset ?l H)"
    by (rule byte_ok_like [OF _ _ assms(1)]) simp_all
  moreover have "entry_in (K + nat \<bar>k\<bar>) ?l x" if "entry_in K l x" for x
    using that by (cases x) (auto simp: entry_in_def)
  then have "bt_fits (K + nat \<bar>k\<bar>) w ?l es"
    using assms(2) adj by (cases "bt_data l") (auto simp: bt_fits_def)
  ultimately show ?thesis
    by (simp add: bt_adjust_def bt_added_def)
qed

section \<open>Bytes that go and come\<close>

lemma byte_drop_ok:
  assumes "byte_ok w (add_mset l H)" and "byte_holds w l (K, ts)" and "K + n < 2 ^ 29"
  shows "\<exists>l'. bt_adjust (- int n) l = Inr l' \<and> byte_becomes H w (K + n, drop n ts) (l', w)"
proof -
  obtain es where es: "bt_fits K w l es" "\<And>i. i < length ts \<Longrightarrow> marks (bt_adjustment l) es (int i) = ts ! i" "length ts < 2 ^ 29"
    using assms(2) by (auto simp: byte_holds_def)
  obtain l' where l': "bt_adjust (- int n) l = Inr l'" "bt_added (K + n) H w es l' w" "bt_adjustment l' = bt_adjustment l + - int n"
    using bt_adjust_ok [OF assms(1) es(1), of "- int n"] assms(3) by auto
  have "marks (bt_adjustment l') es (int i) = drop n ts ! i" if "i < length (drop n ts)" for i
    using es(2) [of "n + i"] that unfolding l'(3) marks_adjust by (simp add: add.commute)
  then have "byte_becomes H w (K + n, drop n ts) (l', w)"
    using assms(3) es(3) by (intro byte_becomesI [OF l'(2)]) simp_all
  then show ?thesis
    using l'(1) by blast
qed

lemma byte_take_ok: "byte_holds w l (K, ts) \<Longrightarrow> byte_holds w l (K, take n ts)"
  by (fastforce simp: byte_holds_def)

lemma byte_grow_ok:
  assumes "byte_ok w (add_mset l H)" and "byte_holds w l (K, ts)" and "length ts + k < 2 ^ 29" and "size H < 2 ^ 32 - 3"
  shows "\<exists>l' w'. bt_add_at_end (int (length ts)) l w = Inr (l', w') \<and> byte_becomes H w (K, ts @ replicate k []) (l', w')"
proof -
  obtain es where es: "bt_fits K w l es" "\<And>i. i < length ts \<Longrightarrow> marks (bt_adjustment l) es (int i) = ts ! i" "K < 2 ^ 29"
    using assms(2) by (auto simp: byte_holds_def)
  have n: "0 \<le> int (length ts)" "int (length ts) \<le> 2 ^ 29"
    using assms(3) by simp_all
  from bt_add_at_end_ok [OF assms(1) es(1,3) n assms(4)] obtain l' w' es' where
    l': "bt_add_at_end (int (length ts)) l w = Inr (l', w')" "bt_added K H w es' l' w'"
    "\<And>i. 0 \<le> i \<Longrightarrow> marks (bt_adjustment l') es' i = (if i < int (length ts) then marks (bt_adjustment l) es i else [])"
    by blast
  have "marks (bt_adjustment l') es' (int i) = (ts @ replicate k []) ! i" if "i < length (ts @ replicate k [])" for i
    using that es(2) [of i] l'(3) by (simp add: nth_append)
  then have "byte_becomes H w (K, ts @ replicate k []) (l', w')"
    using assms(3) by (intro byte_becomesI [OF l'(2) es(3)]) simp_all
  then show ?thesis
    using l'(1) by blast
qed

lemma byte_prepend_ok:
  assumes "byte_ok w (add_mset l H)" and "byte_holds w l (K, ts)" and "length ts + n < 2 ^ 29" and "K + n < 2 ^ 29"
    and "size H < 2 ^ 32 - 3"
  shows "\<exists>l1 l' w'. bt_adjust (int n) l = Inr l1 \<and> bt_add_at_start (int n) l1 w = Inr (l', w') \<and>
    byte_becomes H w (K + n, replicate n [] @ ts) (l', w')"
proof -
  obtain es where es: "bt_fits K w l es" "\<And>i. i < length ts \<Longrightarrow> marks (bt_adjustment l) es (int i) = ts ! i" "K < 2 ^ 29"
    using assms(2) by (auto simp: byte_holds_def)
  obtain l1 where l1: "bt_adjust (int n) l = Inr l1" "byte_ok w (add_mset l1 H)" "bt_fits (K + n) w l1 es"
    "bt_adjustment l1 = bt_adjustment l + int n"
    using bt_adjust_ok [OF assms(1) es(1), of "int n"] assms(4) by (auto simp: bt_added_def)
  have n: "0 \<le> int n" "int n \<le> 2 ^ 29"
    using assms(3) by simp_all
  from bt_add_at_start_ok [OF l1(2,3) assms(4) n assms(5)] obtain l' w' es' where
    l': "bt_add_at_start (int n) l1 w = Inr (l', w')" "bt_added (K + n) H w es' l' w'"
    "\<And>i. marks (bt_adjustment l') es' i = (if int n \<le> i then marks (bt_adjustment l1) es i else [])"
    by blast
  have "marks (bt_adjustment l') es' (int i) = (replicate n [] @ ts) ! i" if "i < length (replicate n [] @ ts)" for i
    using that es(2) [of "i - n"] l'(3) unfolding l1(4) marks_adjust by (auto simp: nth_append of_nat_diff)
  then have "byte_becomes H w (K + n, replicate n [] @ ts) (l', w')"
    using assms(3) by (intro byte_becomesI [OF l'(2) assms(4)]) simp_all
  then show ?thesis
    using l1(1) l'(1) by blast
qed

section \<open>A tag for a range\<close>

definition mark_range :: "int \<Rightarrow> int \<Rightarrow> 16 word \<times> bytes \<Rightarrow> tag_list list \<Rightarrow> tag_list list" where
  "mark_range s e x ts = map (\<lambda>i. if s \<le> int i \<and> int i < e then ts ! i @ [x] else ts ! i) [0..<length ts]"

lemma bt_put_tag_ok:
  assumes "byte_ok w (add_mset l H)" and "byte_holds w l (K, ts)" and "tag_ok t" and "K' = K + 16 + length (tag_bytes t)"
    and "K' < 2 ^ 29" and "\<bar>s\<bar> \<le> 2 ^ 29" and "\<bar>e\<bar> \<le> 2 ^ 29"
  shows "\<exists>l' w'. bt_put_tag t s e l w = Inr (l', w') \<and>
    byte_becomes H w (K', mark_range s e (tag_tid t, tag_bytes t) ts) (l', w')"
proof -
  let ?n = "length (tag_bytes t)"
  obtain es where es: "bt_fits K w l es" "\<And>i. i < length ts \<Longrightarrow> marks (bt_adjustment l) es (int i) = ts ! i" "length ts < 2 ^ 29"
    using assms(2) by (auto simp: byte_holds_def)
  have "tag_size t = of_nat (unat (tag_size t))"
    by simp
  then have size: "of_nat ?n = tag_size t"
    using assms(3) unfolding tag_ok_def by metis
  have K: "K \<le> K'" "length (enc es) + 16 + ?n \<le> K'" "\<bar>s\<bar> \<le> 2 ^ 29 + int K'" "\<bar>e\<bar> \<le> 2 ^ 29 + int K'"
    using assms(4,6,7) es(1) by (auto simp: bt_fits_def)
  obtain b l' w1 a d where r: "bt_add (tag_tid t) (tag_size t) s e l w = Inr (b, l', w1)" "bt_data l' = Some a"
    "yw_block w1 a = Some d" "tb_end b = tb_current b + ?n" "tb_end b \<le> length (yb_data d)" "bt_adjustment l' = bt_adjustment l"
    "bt_added K' H w (es @ [(tag_tid t, s - bt_adjustment l, e - bt_adjustment l, tag_bytes t)]) l'
      (yw_put a (d\<lparr>yb_data := splice (tb_current b) (tag_bytes t) (yb_data d)\<rparr>) w1)"
    using bt_add_ok [OF assms(1) es(1) K(1) assms(5) K(2-4), of "tag_tid t"] unfolding size by blast
  have "tag_serialize t (b, yb_data d) =
      Inr (b\<lparr>tb_current := tb_current b + ?n\<rparr>, splice (tb_current b) (tag_bytes t) (yb_data d))"
    unfolding tag_serialize_def using r(4,5) by (intro tb_write_ok) simp_all
  then have "bt_put_tag t s e l w = Inr (l', yw_put a (d\<lparr>yb_data := splice (tb_current b) (tag_bytes t) (yb_data d)\<rparr>) w1)"
    using r(1-3) by (simp add: bt_put_tag_def)
  moreover have "marks (bt_adjustment l') (es @ [(tag_tid t, s - bt_adjustment l, e - bt_adjustment l, tag_bytes t)]) (int i) =
      mark_range s e (tag_tid t, tag_bytes t) ts ! i" if "i < length ts" for i
    using that es(2) r(6) by (simp add: mark_range_def)
  then have "byte_becomes H w (K', mark_range s e (tag_tid t, tag_bytes t) ts)
      (l', yw_put a (d\<lparr>yb_data := splice (tb_current b) (tag_bytes t) (yb_data d)\<rparr>) w1)"
    using es(3) by (intro byte_becomesI [OF r(7) assms(5)]) (simp_all add: mark_range_def)
  ultimately show ?thesis
    by blast
qed

section \<open>The tags of another list\<close>

text \<open>\<open>AddAtStart(0)\<close> and \<open>Adjust\<close>, as \<open>Packet::AddAtEnd\<close> does it with its copy\<close>

lemma byte_shift_ok:
  assumes "byte_ok w (add_mset l H)" and "byte_holds w l (K, ts)" and "length ts + n < 2 ^ 29" and "K + n < 2 ^ 29"
    and "size H < 2 ^ 32 - 3"
  shows "\<exists>l1 l' w'. bt_add_at_start 0 l w = Inr (l1, w') \<and> bt_adjust (int n) l1 = Inr l' \<and>
    byte_becomes H w (K + n, replicate n [] @ ts) (l', w')"
proof -
  obtain es where es: "bt_fits K w l es" "\<And>i. i < length ts \<Longrightarrow> marks (bt_adjustment l) es (int i) = ts ! i" "K < 2 ^ 29"
    using assms(2) by (auto simp: byte_holds_def)
  obtain l1 w' es' where l1: "bt_add_at_start 0 l w = Inr (l1, w')" "byte_ok w' (add_mset l1 H)" "byte_keep H w w'"
    "bt_fits K w' l1 es'" "\<And>i. marks (bt_adjustment l1) es' i = (if 0 \<le> i then marks (bt_adjustment l) es i else [])"
    using bt_add_at_start_ok [OF assms(1) es(1,3), of 0] assms(5) by (auto simp: bt_added_def)
  obtain l' where l': "bt_adjust (int n) l1 = Inr l'" "bt_added (K + n) H w' es' l' w'" "bt_adjustment l' = bt_adjustment l1 + int n"
    using bt_adjust_ok [OF l1(2,4), of "int n"] assms(4) by auto
  have "marks (bt_adjustment l') es' (int i) = (replicate n [] @ ts) ! i" if "i < length (replicate n [] @ ts)" for i
    using that es(2) [of "i - n"] unfolding l'(3) marks_adjust l1(5) by (auto simp: nth_append of_nat_diff)
  then have "byte_becomes H w (K + n, replicate n [] @ ts) (l', w')"
    using assms(3) by (intro byte_becomesI [OF bt_added_trans [OF l1(3) l'(2)] assms(4)]) simp_all
  then show ?thesis
    using l1(1) l'(1) by blast
qed

lemma byte_add_list_ok:
  assumes "byte_ok w (add_mset l H)" and "c \<in># H" and "byte_holds w l (K, ts)" and "byte_holds w c (C, us)"
    and "length ts = length us" and "K + C < 2 ^ 29"
  shows "\<exists>l' w'. bt_add_list c l w = Inr (l', w') \<and> byte_becomes H w (K + C, map2 (@) ts us) (l', w')"
proof -
  obtain es where es: "bt_fits K w l es" "\<And>i. i < length ts \<Longrightarrow> marks (bt_adjustment l) es (int i) = ts ! i"
    using assms(3) by (auto simp: byte_holds_def)
  obtain fs where fs: "bt_fits C w c fs" "\<And>i. i < length us \<Longrightarrow> marks (bt_adjustment c) fs (int i) = us ! i" "length us < 2 ^ 29"
    using assms(4) by (auto simp: byte_holds_def)
  have "length (enc es) + length (enc fs) \<le> K + C"
    using es(1) fs(1) by (simp add: bt_fits_def)
  then obtain l' w' es' where l': "bt_add_list c l w = Inr (l', w')" "bt_added (K + C) H w es' l' w'"
    "\<And>i. 0 \<le> i \<Longrightarrow> marks (bt_adjustment l') es' i = marks (bt_adjustment l) es i @ marks (bt_adjustment c) fs i"
    using bt_add_list_ok [OF assms(1,2) es(1) fs(1) _ _ assms(6)] by auto
  have "byte_becomes H w (K + C, map2 (@) ts us) (l', w')"
    using es(2) fs(2,3) l'(3) assms(5) by (intro byte_becomesI [OF l'(2) assms(6)]) simp_all
  then show ?thesis
    using l'(1) by blast
qed

lemma map2_append_ends: "map2 (@) (ts @ replicate (length us) []) (replicate (length ts) [] @ us) = ts @ us"
  by (rule nth_equalityI) (auto simp: nth_append)

lemma byte_append_ok:
  assumes "byte_ok w (add_mset l H)" and "k \<in># H" and "byte_holds w l (K, ts)" and "byte_holds w k (C, us)"
    and "length ts + length us < 2 ^ 29" and "K + C + length ts < 2 ^ 29" and "size H < 2 ^ 32 - 4"
  shows "\<exists>l1 w1 c w2 c3 w3 c4 l' w4 w'. bt_add_at_end (int (length ts)) l w = Inr (l1, w1) \<and> bt_copy k w1 = Inr (c, w2) \<and>
    bt_add_at_start 0 c w2 = Inr (c3, w3) \<and> bt_adjust (int (length ts)) c3 = Inr c4 \<and> bt_add_list c4 l1 w3 = Inr (l', w4) \<and>
    bt_destroy c4 w4 = Inr w' \<and> byte_becomes H w (K + C + length ts, ts @ us) (l', w')"
proof -
  obtain l1 w1 where l1: "bt_add_at_end (int (length ts)) l w = Inr (l1, w1)"
    "byte_becomes H w (K, ts @ replicate (length us) []) (l1, w1)"
    using byte_grow_ok [OF assms(1,3,5)] assms(7) by auto
  note a1 = l1(2) [unfolded byte_becomes_def prod.case]
  have k1: "byte_holds w1 k (C, us)"
    using byte_lists.keep_stands [OF _ assms(2,4)] a1 by blast
  obtain w2 where w2: "bt_copy k w1 = Inr (k, w2)" "byte_becomes (add_mset l1 H) w1 (C, us) (k, w2)"
    using bt_copy_ok [of w1 "add_mset l1 H" k] a1 assms(2,7) k1 by auto
  note a2 = w2(2) [unfolded byte_becomes_def prod.case]
  obtain c3 c4 w3 where c4: "bt_add_at_start 0 k w2 = Inr (c3, w3)" "bt_adjust (int (length ts)) c3 = Inr c4"
    "byte_becomes (add_mset l1 H) w2 (C + length ts, replicate (length ts) [] @ us) (c4, w3)"
    using byte_shift_ok [of w2 k "add_mset l1 H" C us "length ts"] a2 assms(5-7) by auto
  note a3 = c4(3) [unfolded byte_becomes_def prod.case]
  have ok: "byte_ok w3 (add_mset l1 (add_mset c4 H))"
    using a3 by (simp add: add_mset_commute)
  have "byte_keep (add_mset l1 H) w1 w3"
    using a2 a3 byte_keep_trans by blast
  then have l3: "byte_holds w3 l1 (K, ts @ replicate (length us) [])" and "byte_keep H w1 w3"
    using byte_lists.keep_stands [of "add_mset l1 H" w1 w3 l1] a1 byte_keep_mono [of "add_mset l1 H" w1 w3 H] by auto
  have c4H: "c4 \<in># add_mset c4 H" and c4v: "byte_holds w3 c4 (C + length ts, replicate (length ts) [] @ us)"
    using a3 by simp_all
  have room: "K + (C + length ts) < 2 ^ 29"
    using assms(6) by simp
  have "length (ts @ replicate (length us) []) = length (replicate (length ts) [] @ us)"
    by simp
  from byte_add_list_ok [OF ok c4H l3 c4v this room] obtain l' w4 where l': "bt_add_list c4 l1 w3 = Inr (l', w4)"
    "byte_becomes (add_mset c4 H) w3 (K + (C + length ts), ts @ us) (l', w4)"
    unfolding map2_append_ends by blast
  note a4 = l'(2) [unfolded byte_becomes_def prod.case]
  have ok4: "byte_ok w4 (add_mset c4 (add_mset l' H))"
    using a4 by (simp add: add_mset_commute)
  obtain w' where w': "bt_destroy c4 w4 = Inr w'" "byte_ok w' (add_mset l' H)" "byte_keep (add_mset l' H) w4 w'"
    using bt_deallocate_ok [OF ok4] by (auto simp: bt_destroy_def)
  have "byte_keep H w4 w'" "byte_keep H w3 w4"
    using byte_keep_mono [OF w'(3), of H] byte_keep_mono [of "add_mset c4 H" w3 w4 H] a4 by auto
  then have "byte_keep H w w'"
    using a1 \<open>byte_keep H w1 w3\<close> byte_keep_trans by meson
  moreover have "byte_holds w' l' (K + C + length ts, ts @ us)"
    using byte_lists.keep_stands [OF w'(3), of l'] a4 by (simp add: add.assoc)
  ultimately have "byte_becomes H w (K + C + length ts, ts @ us) (l', w')"
    using w'(2) by (simp add: byte_becomes_def)
  then show ?thesis
    using l1(1) w2(1) c4(1,2) l'(1) w'(1) by blast
qed

section \<open>The iterator\<close>

fun byte_item_of :: "int \<Rightarrow> int \<Rightarrow> int \<Rightarrow> byte_entry \<Rightarrow> byte_tag_item" where
  "byte_item_of oS oE adj (t, s, e, bs) = (t, of_int (max (s + adj) oS - oS), of_int (min (e + adj) oE - oS), bs)"

lemma byte_tag_next_ok:
  assumes "yi_at oS oE adj pre (x # rest) i" and "m = enc (pre @ x # rest) @ tail" and "entries_small adj (pre @ x # rest)"
  shows "\<exists>i'. byte_tag_next m i = Inr (byte_item_of oS oE adj x, i') \<and>
    yi_at oS oE adj ((pre @ [x]) @ takeWhile (\<lambda>x. \<not> in_range oS oE adj x) rest)
      (dropWhile (\<lambda>x. \<not> in_range oS oE adj x) rest) i'"
proof -
  obtain t s e bs where x: "x = (t, s, e, bs)"
    by (cases x)
  have "take (length bs) (drop (length (enc pre) + 16) m) = bs"
    using read_entry(5) [OF assms(2) [unfolded x] refl] .
  then show ?thesis
    using yi_next_ok [OF assms] x by (auto simp: byte_tag_next_def item_of_def yi_at_def yi_on_def)
qed

lemma filter_dropWhile: "filter P (dropWhile (\<lambda>x. \<not> P x) xs) = filter P xs"
  by (induction xs) auto

lemma byte_tag_items_ok:
  "yi_at oS oE adj pre rest i \<Longrightarrow> m = enc (pre @ rest) @ tail \<Longrightarrow> entries_small adj (pre @ rest) \<Longrightarrow> length rest < n \<Longrightarrow>
   byte_tag_items n m i = Inr (map (byte_item_of oS oE adj) (filter (in_range oS oE adj) rest)) \<and>
   find_byte_tag n tid m i =
     Inr (map_of (map (\<lambda>(t, s, e, bs). (t, bs)) (map (byte_item_of oS oE adj) (filter (in_range oS oE adj) rest))) tid)"
proof (induction n arbitrary: pre rest i)
  case (Suc n)
  show ?case
  proof (cases rest)
    case Nil
    then have "\<not> yi_has_next i"
      using Suc.prems(1) by (simp add: yi_at_def yi_on_def yi_has_next_def)
    then show ?thesis
      using Nil by simp
  next
    case (Cons x ys)
    let ?P = "in_range oS oE adj" and ?Q = "\<lambda>x. \<not> in_range oS oE adj x"
    obtain t s e bs where x: "x = (t, s, e, bs)"
      by (cases x)
    have "yi_has_next i" and inr: "?P x"
      using Suc.prems(1) Cons x by (auto simp: yi_at_def yi_on_def yi_has_next_def)
    obtain i' where i': "byte_tag_next m i = Inr (byte_item_of oS oE adj x, i')"
      "yi_at oS oE adj ((pre @ [x]) @ takeWhile ?Q ys) (dropWhile ?Q ys) i'"
      using byte_tag_next_ok [of oS oE adj pre x ys i m tail] Suc.prems Cons by auto
    have split: "((pre @ [x]) @ takeWhile ?Q ys) @ dropWhile ?Q ys = pre @ rest"
      using Cons by simp
    have "length (dropWhile ?Q ys) < n"
      using Suc.prems(4) Cons length_dropWhile_le [of ?Q ys] by simp
    from Suc.IH [OF i'(2), unfolded split, OF Suc.prems(2,3) this] have
      "byte_tag_items n m i' = Inr (map (byte_item_of oS oE adj) (filter ?P ys))"
      "find_byte_tag n tid m i' = Inr (map_of (map (\<lambda>(t, s, e, bs). (t, bs)) (map (byte_item_of oS oE adj) (filter ?P ys))) tid)"
      by (simp_all add: filter_dropWhile)
    then show ?thesis
      using \<open>yi_has_next i\<close> i'(1) inr Cons x by simp
  qed
qed simp

text \<open>The tags of a byte, as a client finds them from the items.\<close>

definition covering :: "byte_tag_item list \<Rightarrow> nat \<Rightarrow> tag_list" where
  "covering items i = map (\<lambda>(t, s, e, bs). (t, bs)) (filter (\<lambda>(t, s, e, bs). unat s \<le> i \<and> i < unat e) items)"

lemma covering_items:
  assumes "i < n" and "n < 2 ^ 31"
  shows "covering (map (byte_item_of 0 (int n) adj) (filter (in_range 0 (int n) adj) es)) i = marks adj es (int i)"
proof (induction es)
  case (Cons x es)
  obtain t s e bs where x: "x = (t, s, e, bs)"
    by (cases x)
  have pos: "unat (of_int k :: 32 word) = nat k" if "0 \<le> k" "k \<le> int n" for k
    using that assms(2) unat_nat32 [of "nat k"] by simp
  show ?case
  proof (cases "in_range 0 (int n) adj x")
    case True
    then have b: "0 \<le> max (s + adj) 0" "max (s + adj) 0 \<le> int n" "0 \<le> min (e + adj) (int n)" "min (e + adj) (int n) \<le> int n"
      using x assms(1) by auto
    have "unat (of_int (max (s + adj) 0) :: 32 word) \<le> i \<and> i < unat (of_int (min (e + adj) (int n)) :: 32 word) \<longleftrightarrow>
        s + adj \<le> int i \<and> int i < e + adj"
      unfolding pos [OF b(1,2)] pos [OF b(3,4)] using assms(1) by auto
    then show ?thesis
      using Cons.IH True x by (simp add: covering_def)
  next
    case False
    then have "\<not> (s + adj \<le> int i \<and> int i < e + adj)"
      using x assms(1) by auto
    then show ?thesis
      using Cons.IH False x by (simp add: covering_def)
  qed
qed (simp add: covering_def)

lemma byte_items_ok:
  assumes "byte_holds w l (K, ts)"
  shows "\<exists>items. res_bind (bt_begin 0 (int (length ts)) l w) (byte_tag_items (bt_fuel l) (bt_memory l w)) = Inr items \<and>
    res_bind (bt_begin 0 (int (length ts)) l w) (find_byte_tag (bt_fuel l) tid (bt_memory l w)) =
      Inr (map_of (map (\<lambda>(t, s, e, bs). (t, bs)) items) tid) \<and>
    map (covering items) [0..<length ts] = ts"
proof -
  let ?n = "int (length ts)" and ?a = "bt_adjustment l"
  obtain es where es: "bt_fits K w l es" "\<And>i. i < length ts \<Longrightarrow> marks ?a es (int i) = ts ! i" "K < 2 ^ 29"
    "length ts < 2 ^ 31"
    using assms by (auto simp: byte_holds_def)
  let ?P = "in_range 0 ?n ?a"
  let ?items = "map (byte_item_of 0 ?n ?a) (filter ?P es)"
  obtain i where i: "bt_begin 0 ?n l w = Inr i" "es = [] \<and> \<not> yi_has_next i \<or>
      yi_at 0 ?n ?a (takeWhile (\<lambda>x. \<not> ?P x) es) (dropWhile (\<lambda>x. \<not> ?P x) es) i"
    using bt_begin_ok [OF es(1,3)] by blast
  have "byte_tag_items (bt_fuel l) (bt_memory l w) i = Inr ?items \<and>
    find_byte_tag (bt_fuel l) tid (bt_memory l w) i = Inr (map_of (map (\<lambda>(t, s, e, bs). (t, bs)) ?items) tid)"
  proof (cases "es = []")
    case True
    then have "\<not> yi_has_next i"
      using i(2) by (auto simp: yi_at_def yi_on_def yi_has_next_def)
    then show ?thesis
      using True by (simp add: bt_fuel_def)
  next
    case False
    then have at: "yi_at 0 ?n ?a (takeWhile (\<lambda>x. \<not> ?P x) es) (dropWhile (\<lambda>x. \<not> ?P x) es) i"
      using i(2) by simp
    obtain tail where m: "bt_memory l w = enc es @ tail"
      using bt_memory_fits [OF es(1) False] by blast
    have "length (dropWhile (\<lambda>x. \<not> ?P x) es) < bt_fuel l"
      using length_dropWhile_le [of "\<lambda>x. \<not> ?P x" es] entries_count [of es] bt_fits_used [OF es(1)] by (simp add: bt_fuel_def)
    from byte_tag_items_ok [OF at _ _ this, of _ tail tid] m bt_fits_small(1) [OF es(1,3)] show ?thesis
      by (simp add: filter_dropWhile)
  qed
  moreover have "map (covering ?items) [0..<length ts] = ts"
    using es(2) covering_items [OF _ es(4)] by (intro nth_equalityI) simp_all
  ultimately show ?thesis
    using i(1) by auto
qed

end
