(* ===== verification/Byte_Tags_Wire.thy ===== *)
theory Byte_Tags_Wire
  imports Byte_Tags_Lists Packet_Tags_Wire
begin

text \<open>
  \<open>ByteTagList::Serialize\<close> and \<open>Deserialize\<close>: the number of the entries, and for every entry that reaches a position
  that is not negative the hash of its type, its size, its range and its bytes, padded to a multiple of four. Reading it in
  an empty list gives every byte the same tags.
\<close>

section \<open>The code\<close>

fun bt_size_from :: "nat \<Rightarrow> bytes \<Rightarrow> byte_iter \<Rightarrow> 32 word \<Rightarrow> 32 word result" where
  "bt_size_from 0 m i sz = Inl Endless_loop"
| "bt_size_from (Suc n) m i sz =
     (if \<not> yi_has_next i then Inr sz
      else res_bind (yi_next m i) (\<lambda>(item, i). bt_size_from n m i (sz + 4 + 3 * 4 + round4 (ym_size item))))"

definition bt_serialized_size :: "byte_tags \<Rightarrow> byte_world \<Rightarrow> 32 word result" where
  "bt_serialized_size l w = res_bind (bt_begin_all l w) (\<lambda>i. bt_size_from (bt_fuel l) (bt_memory l w) i 4)"

text \<open>The number of entries is the first word of the output, raised after every entry.\<close>

fun bt_serialize_from :: "iid_manager \<Rightarrow> nat \<Rightarrow> bytes \<Rightarrow> byte_iter \<Rightarrow> 32 word \<Rightarrow> 32 word \<Rightarrow> bytes \<Rightarrow>
    (32 word \<times> bytes) result" where
  "bt_serialize_from r 0 m i maxSize sz out = Inl Endless_loop"
| "bt_serialize_from r (Suc n) m i maxSize sz out =
     (if \<not> yi_has_next i then Inr (1, out) else
      res_bind (yi_next m i) (\<lambda>(item, i).
      if \<not> sz + 4 \<le> maxSize then Inr (0, out) else
      res_bind (iid_get_hash (ym_tid item) r) (\<lambda>tid.
      res_bind (out_write sz (le_bytes 4 tid) out) (\<lambda>out.
      (let sz = sz + 4 in if \<not> sz + 4 \<le> maxSize then Inr (0, out) else
      res_bind (out_write sz (le_bytes 4 (ym_size item)) out) (\<lambda>out.
      (let sz = sz + 4 in if \<not> sz + 4 \<le> maxSize then Inr (0, out) else
      res_bind (out_write sz (le_bytes 4 (of_int (ym_start item) :: 32 word)) out) (\<lambda>out.
      (let sz = sz + 4 in if \<not> sz + 4 \<le> maxSize then Inr (0, out) else
      res_bind (out_write sz (le_bytes 4 (of_int (ym_end item) :: 32 word)) out) (\<lambda>out.
      (let sz = sz + 4 in if \<not> sz + round4 (ym_size item) \<le> maxSize then Inr (0, out) else
      res_bind (tb_read (ym_size item) (ym_buf item, m)) (\<lambda>(bs, _).
      res_bind (out_write sz bs out) (\<lambda>out.
      res_bind (in_u32 0 out) (\<lambda>k.
      res_bind (out_write 0 (le_bytes 4 (k + 1)) out) (\<lambda>out.
        bt_serialize_from r n m i maxSize (sz + round4 (ym_size item)) out)))))))))))))))"

definition bt_serialize :: "iid_manager \<Rightarrow> 32 word \<Rightarrow> bytes \<Rightarrow> byte_tags \<Rightarrow> byte_world \<Rightarrow> (32 word \<times> bytes) result" where
  "bt_serialize r maxSize out l w =
     (if \<not> 0 + 4 \<le> maxSize then Inr (0, out)
      else res_bind (out_write 0 (le_bytes 4 (0 :: 32 word)) out) (\<lambda>out.
        res_bind (bt_begin_all l w) (\<lambda>i. bt_serialize_from r (bt_fuel l) (bt_memory l w) i maxSize 4 out)))"

text \<open>\<open>buf.Write\<close> into the window that \<open>Add\<close> returned\<close>

definition bt_write :: "tag_buffer \<Rightarrow> bytes \<Rightarrow> byte_tags \<Rightarrow> byte_world \<Rightarrow> byte_world result" where
  "bt_write b bs l w =
     deref (bt_data l) (\<lambda>a. deref (yw_block w a) (\<lambda>d.
       res_map (\<lambda>(_, m). yw_put a (d\<lparr>yb_data := m\<rparr>) w) (tb_write bs (b, yb_data d))))"

text \<open>The loop of \<open>Deserialize\<close>, with the number of the entries that are left.\<close>

fun bt_deserialize_from :: "iid_manager \<Rightarrow> nat \<Rightarrow> bytes \<Rightarrow> 32 word \<Rightarrow> 32 word \<Rightarrow> byte_tags \<Rightarrow> byte_world \<Rightarrow>
    (32 word \<times> byte_tags \<times> byte_world) result" where
  "bt_deserialize_from r 0 inp p check l w = ns_assert (check = 0) (Inr (if check \<noteq> 0 then 0 else 1, l, w))"
| "bt_deserialize_from r (Suc n) inp p check l w =
     ns_assert (check \<ge> 4) (res_bind (in_u32 p inp) (\<lambda>hash.
     (let p = p + 4; check = check - 4
      in res_bind (tid_lookup_by_hash hash r) (\<lambda>tid.
      ns_assert (check \<ge> 4) (res_bind (in_u32 p inp) (\<lambda>bufferSize.
     (let p = p + 4; check = check - 4
      in ns_assert (check \<ge> 4) (res_bind (in_u32 p inp) (\<lambda>start.
     (let p = p + 4; check = check - 4
      in ns_assert (check \<ge> 4) (res_bind (in_u32 p inp) (\<lambda>end.
     (let p = p + 4; check = check - 4
      in ns_assert (check \<ge> bufferSize)
        (res_bind (bt_add tid bufferSize (sint start) (sint end) l w) (\<lambda>(buf, l, w).
         res_bind (in_read p bufferSize inp) (\<lambda>bs.
         res_bind (bt_write buf bs l w) (\<lambda>w.
           bt_deserialize_from r n inp (p + round4 bufferSize) (check - round4 bufferSize) l w)))))))))))))))))"

text \<open>The size includes the four bytes of the length before the list.\<close>

definition bt_deserialize :: "iid_manager \<Rightarrow> bytes \<Rightarrow> 32 word \<Rightarrow> byte_tags \<Rightarrow> byte_world \<Rightarrow>
    (32 word \<times> byte_tags \<times> byte_world) result" where
  "bt_deserialize r inp sz l w =
     (let check = sz - 4
      in ns_assert (check \<ge> 4) (res_bind (in_u32 0 inp) (\<lambda>numberTagData.
         bt_deserialize_from r (unat numberTagData) inp 4 (check - 4) l w)))"

section \<open>Bytes in a buffer\<close>

definition bytes_at :: "bytes \<Rightarrow> nat \<Rightarrow> bytes \<Rightarrow> bool" where
  "bytes_at out p bs \<longleftrightarrow> p + length bs \<le> length out \<and> take (length bs) (drop p out) = bs"

lemma bytes_at_append: "bytes_at out p (xs @ ys) \<longleftrightarrow> bytes_at out p xs \<and> bytes_at out (p + length xs) ys"
proof -
  have "take (length xs + length ys) (drop p out) = take (length xs) (drop p out) @ take (length ys) (drop (p + length xs) out)"
    by (simp add: take_add add.commute)
  then show ?thesis
    by (auto simp: bytes_at_def append_eq_append_conv)
qed

lemma bytes_at_read:
  assumes "bytes_at out p bs" and "p + length bs < 2 ^ 32"
  shows "in_read (of_nat p) (of_nat (length bs)) out = Inr bs"
  using assms by (simp add: bytes_at_def in_read_def unat_nat32)

lemma bytes_at_u32:
  assumes "bytes_at out p (le_bytes 4 x)" and "p + 4 < 2 ^ 32"
  shows "in_u32 (of_nat p) out = Inr x"
  using bytes_at_read [OF assms(1)] assms(2) by (intro in_u32_le) simp

lemma bytes_at_splice: "p + length bs \<le> length out \<Longrightarrow> bytes_at (splice p bs out) p bs"
  by (simp add: bytes_at_def splice_length splice_get)

lemma bytes_at_other:
  assumes "bytes_at out q ys" and "p + length bs \<le> length out" and "q + length ys \<le> p \<or> p + length bs \<le> q"
  shows "bytes_at (splice p bs out) q ys"
  using assms by (auto simp: bytes_at_def splice_length splice_before splice_behind)

lemma bytes_at_prefix:
  assumes "bytes_at (out @ xs) p bs" and "p + length bs \<le> length out"
  shows "bytes_at (out @ ys) p bs"
  using assms by (simp add: bytes_at_def)

section \<open>Layout\<close>

fun bwire_size :: "byte_entry list \<Rightarrow> nat" where
  "bwire_size [] = 0"
| "bwire_size ((t, s, e, bs) # es) = 16 + padded (length bs) + bwire_size es"

definition wire_entry :: "32 word \<Rightarrow> int \<Rightarrow> int \<Rightarrow> bytes \<Rightarrow> bytes" where
  "wire_entry h s e bs = le_bytes 4 h @ le_bytes 4 (of_nat (length bs) :: 32 word) @ le_bytes 4 (of_int s :: 32 word) @
     le_bytes 4 (of_int e :: 32 word) @ bs"

lemma length_wire_entry [simp]: "length (wire_entry h s e bs) = 16 + length bs"
  by (simp add: wire_entry_def)

fun bwire :: "iid_manager \<Rightarrow> bytes \<Rightarrow> nat \<Rightarrow> byte_entry list \<Rightarrow> bool" where
  "bwire r out p [] \<longleftrightarrow> True"
| "bwire r out p ((t, s, e, bs) # es) \<longleftrightarrow>
     (\<exists>h. iid_get_hash t r = Inr h \<and> bytes_at out p (wire_entry h s e bs)) \<and> bwire r out (p + 16 + padded (length bs)) es"

lemma bwire_cong:
  assumes "\<And>q bs. p \<le> q \<Longrightarrow> q + length bs \<le> p + bwire_size es \<Longrightarrow> bytes_at out q bs \<Longrightarrow> bytes_at out' q bs"
    and "bwire r out p es"
  shows "bwire r out' p es"
  using assms
proof (induction es arbitrary: p)
  case (Cons x es)
  obtain t s e bs where x: "x = (t, s, e, bs)"
    by (cases x)
  obtain h where h: "iid_get_hash t r = Inr h" "bytes_at out p (wire_entry h s e bs)"
    "bwire r out (p + 16 + padded (length bs)) es"
    using Cons.prems(2) x by auto
  have "bwire r out' (p + 16 + padded (length bs)) es"
    by (rule Cons.IH [OF _ h(3)]) (use Cons.prems(1) x in simp)
  moreover have "bytes_at out' p (wire_entry h s e bs)"
    by (rule Cons.prems(1) [OF _ _ h(2)]) (use x padded_ge [of "length bs"] in simp_all)
  ultimately show ?case
    using h(1) x by auto
qed simp

section \<open>Writing\<close>

definition entry_written :: "nat \<Rightarrow> bytes \<Rightarrow> 32 word \<Rightarrow> bytes \<Rightarrow> bytes" where
  "entry_written p x k out = splice 0 (le_bytes 4 (k + 1)) (splice p x out)"

lemma entry_written_ok:
  assumes "4 \<le> p" and "p + length x \<le> length out"
  shows "length (entry_written p x k out) = length out"
    and "bytes_at (entry_written p x k out) 0 (le_bytes 4 (k + 1))"
    and "bytes_at (entry_written p x k out) p x"
    and "4 \<le> q \<Longrightarrow> q + length ys \<le> p \<or> p + length x \<le> q \<Longrightarrow> bytes_at out q ys \<Longrightarrow> bytes_at (entry_written p x k out) q ys"
proof -
  have l: "length (splice p x out) = length out"
    using assms by (intro splice_length) simp
  show "length (entry_written p x k out) = length out"
    unfolding entry_written_def using l assms by (subst splice_length) simp_all
  show "bytes_at (entry_written p x k out) 0 (le_bytes 4 (k + 1))"
    unfolding entry_written_def using l assms by (intro bytes_at_splice) simp
  show "bytes_at (entry_written p x k out) p x"
    unfolding entry_written_def by (rule bytes_at_other [OF bytes_at_splice]) (use l assms in simp_all)
  show "bytes_at (entry_written p x k out) q ys" if "4 \<le> q" "q + length ys \<le> p \<or> p + length x \<le> q" "bytes_at out q ys"
    unfolding entry_written_def by (rule bytes_at_other [OF bytes_at_other [OF that(3)]]) (use that(1,2) l assms in auto)
qed

lemma write_entry:
  assumes "4 \<le> p" and "p + 16 + length bs \<le> length out" and "p + 16 + length bs < 2 ^ 32" and "bytes_at out 0 (le_bytes 4 k)"
  shows "res_bind (out_write (of_nat p) (le_bytes 4 h) out) (\<lambda>out.
    res_bind (out_write (of_nat p + 4) (le_bytes 4 (of_nat (length bs) :: 32 word)) out) (\<lambda>out.
    res_bind (out_write (of_nat p + 4 + 4) (le_bytes 4 (of_int s :: 32 word)) out) (\<lambda>out.
    res_bind (out_write (of_nat p + 4 + 4 + 4) (le_bytes 4 (of_int e :: 32 word)) out) (\<lambda>out.
    res_bind (out_write (of_nat p + 4 + 4 + 4 + 4) bs out) (\<lambda>out.
    res_bind (in_u32 0 out) (\<lambda>k. res_bind (out_write 0 (le_bytes 4 (k + 1)) out) f)))))) =
    f (entry_written p (wire_entry h s e bs) k out)"
proof -
  let ?h1 = "le_bytes 4 h" and ?h2 = "le_bytes 4 (of_nat (length bs) :: 32 word)"
  let ?h3 = "le_bytes 4 (of_int s :: 32 word)" and ?h4 = "le_bytes 4 (of_int e :: 32 word)"
  have w: "out_write (of_nat (p + length xs)) ys (splice p xs out) = Inr (splice p (xs @ ys) out)"
    if "length xs + length ys \<le> 16 + length bs" for xs ys
  proof -
    have "length (splice p xs out) = length out"
      using that assms(2) by (intro splice_length) simp
    then have "out_write (of_nat (p + length xs)) ys (splice p xs out) = Inr (splice (p + length xs) ys (splice p xs out))"
      using that assms(2,3) by (intro out_write_nat) simp_all
    then show ?thesis
      using splice_append [of p xs ys out] that assms(2) by simp
  qed
  have a: "out_write (of_nat p) ?h1 out = Inr (splice p ?h1 out)"
    using assms by (intro out_write_nat) simp_all
  have b: "out_write (of_nat p + 4) ?h2 (splice p ?h1 out) = Inr (splice p (?h1 @ ?h2) out)"
    using w [of ?h1 ?h2] by simp
  have c: "out_write (of_nat p + 4 + 4) ?h3 (splice p (?h1 @ ?h2) out) = Inr (splice p (?h1 @ ?h2 @ ?h3) out)"
    using w [of "?h1 @ ?h2" ?h3] by (simp add: ac_simps)
  have d: "out_write (of_nat p + 4 + 4 + 4) ?h4 (splice p (?h1 @ ?h2 @ ?h3) out) = Inr (splice p (?h1 @ ?h2 @ ?h3 @ ?h4) out)"
    using w [of "?h1 @ ?h2 @ ?h3" ?h4] by (simp add: ac_simps)
  have x: "out_write (of_nat p + 4 + 4 + 4 + 4) bs (splice p (?h1 @ ?h2 @ ?h3 @ ?h4) out) = Inr (splice p (wire_entry h s e bs) out)"
    using w [of "?h1 @ ?h2 @ ?h3 @ ?h4" bs] by (simp add: wire_entry_def ac_simps)
  have "bytes_at (splice p (wire_entry h s e bs) out) 0 (le_bytes 4 k)"
    by (rule bytes_at_other [OF assms(4)]) (use assms(1,2) in simp_all)
  then have k: "in_u32 0 (splice p (wire_entry h s e bs) out) = Inr k"
    using bytes_at_u32 [of _ 0 k] by simp
  have "length (splice p (wire_entry h s e bs) out) = length out"
    using assms(2) by (intro splice_length) simp
  then have "out_write 0 (le_bytes 4 (k + 1)) (splice p (wire_entry h s e bs) out) = Inr (entry_written p (wire_entry h s e bs) k out)"
    unfolding entry_written_def using out_write_nat [of 0 "le_bytes 4 (k + 1)" "splice p (wire_entry h s e bs) out"] assms(1,2) by simp
  then show ?thesis
    unfolding a b c d x k res_bind_simps by simp
qed

text \<open>The entries that are written: those that the iterator over all positions passes, with their positions.\<close>

definition shown :: "int \<Rightarrow> byte_entry list \<Rightarrow> byte_entry list" where
  "shown a es = copied_all (\<lambda>s e. Some (s, e)) a 0 es"

lemma shown_simps [simp]:
  "shown a [] = []"
  "in_range 0 OFFSET_MAX a (t, s, e, bs) \<Longrightarrow>
     shown a ((t, s, e, bs) # es) = (t, max (s + a) 0, min (e + a) OFFSET_MAX, bs) # shown a es"
  by (simp_all add: shown_def)

lemma shown_skip: "shown a (dropWhile (\<lambda>x. \<not> in_range 0 OFFSET_MAX a x) es) = shown a es"
  unfolding shown_def by (rule copied_skip [symmetric])

lemma round4_length: "n < 2 ^ 30 \<Longrightarrow> round4 (of_nat n) = of_nat (padded n)"
proof -
  assume n: "n < 2 ^ 30"
  have "padded n < 2 ^ 32"
    using n by (simp add: padded_def)
  then show ?thesis
    unfolding word_unat_eq_iff unat_round4_padded [OF n] by (simp add: unat_nat32)
qed

lemma size_items_ok:
  "yi_at 0 OFFSET_MAX a pre rest i \<Longrightarrow> m = enc (pre @ rest) @ tail \<Longrightarrow> entries_small a (pre @ rest) \<Longrightarrow> length rest < n \<Longrightarrow>
   bt_size_from n m i sz = Inr (sz + of_nat (bwire_size (shown a rest)))"
proof (induction n arbitrary: pre rest i sz)
  case (Suc n)
  show ?case
  proof (cases rest)
    case Nil
    then show ?thesis
      using Suc.prems(1) by (simp add: yi_at_def yi_on_def yi_has_next_def)
  next
    case (Cons x ys)
    obtain t s e bs where x: "x = (t, s, e, bs)"
      by (cases x)
    have at: "yi_at 0 OFFSET_MAX a pre (x # ys) i" and nxt: "yi_has_next i" and inr: "in_range 0 OFFSET_MAX a (t, s, e, bs)"
      using Suc.prems(1) Cons x by (auto simp: yi_at_def yi_on_def yi_has_next_def)
    obtain i' where i': "yi_next m i = Inr (item_of 0 OFFSET_MAX a (length (enc pre)) x, i')"
      "yi_at 0 OFFSET_MAX a ((pre @ [x]) @ takeWhile (\<lambda>x. \<not> in_range 0 OFFSET_MAX a x) ys)
        (dropWhile (\<lambda>x. \<not> in_range 0 OFFSET_MAX a x) ys) i'"
      using yi_next_ok [OF at] Suc.prems(2,3) Cons by blast
    have "length (dropWhile (\<lambda>x. \<not> in_range 0 OFFSET_MAX a x) ys) < n"
      using Suc.prems(4) Cons length_dropWhile_le [of "\<lambda>x. \<not> in_range 0 OFFSET_MAX a x" ys] by simp
    then have "bt_size_from n m i' sz' = Inr (sz' + of_nat (bwire_size (shown a ys)))" for sz'
      using Suc.IH [OF i'(2)] Suc.prems(2,3) Cons by (simp add: shown_skip)
    moreover have "round4 (of_nat (length bs)) = of_nat (padded (length bs))"
      using entries_small_parts [of a pre t s e bs ys] Suc.prems(3) Cons x by (intro round4_length) simp
    ultimately show ?thesis
      using nxt i'(1) inr Cons x by (simp add: item_of_def)
  qed
qed simp

definition types_known :: "iid_manager \<Rightarrow> byte_entry list \<Rightarrow> bool" where
  "types_known r es \<longleftrightarrow> (\<forall>(t, s, e, bs) \<in> set es. \<exists>h. iid_get_hash t r = Inr h)"

lemma serialize_items_ok:
  assumes "m = enc es @ tail" and "entries_small a es"
  shows "yi_at 0 OFFSET_MAX a pre rest i \<Longrightarrow> es = pre @ rest \<Longrightarrow> length rest < n \<Longrightarrow> types_known r (shown a rest) \<Longrightarrow> 4 \<le> p \<Longrightarrow>
    p + bwire_size (shown a rest) \<le> length out \<Longrightarrow> p + bwire_size (shown a rest) \<le> unat maxSize \<Longrightarrow>
    bytes_at out 0 (le_bytes 4 (k :: 32 word)) \<Longrightarrow>
    \<exists>out'. bt_serialize_from r n m i maxSize (of_nat p) out = Inr (1, out') \<and> length out' = length out \<and>
      bwire r out' p (shown a rest) \<and> bytes_at out' 0 (le_bytes 4 (k + of_nat (length (shown a rest)))) \<and>
      (\<forall>q bs. 4 \<le> q \<longrightarrow> q + length bs \<le> p \<longrightarrow> bytes_at out q bs \<longrightarrow> bytes_at out' q bs)"
proof (induction n arbitrary: pre rest i p out k)
  case (Suc n)
  show ?case
  proof (cases rest)
    case Nil
    then show ?thesis
      using Suc.prems(1,8) by (simp add: yi_at_def yi_on_def yi_has_next_def)
  next
    case (Cons x ys)
    obtain t s0 e0 bs where x: "x = (t, s0, e0, bs)"
      by (cases x)
    let ?n = "length bs" and ?s = "max (s0 + a) 0" and ?e = "min (e0 + a) OFFSET_MAX" and ?vs = "shown a ys"
    let ?p = "p + 16 + padded (length bs)" and ?Q = "\<lambda>x. \<not> in_range 0 OFFSET_MAX a x"
    have es: "es = pre @ x # ys"
      using Suc.prems(2) Cons by simp
    have at: "yi_at 0 OFFSET_MAX a pre (x # ys) i" and nxt: "yi_has_next i" and inr: "in_range 0 OFFSET_MAX a (t, s0, e0, bs)"
      using Suc.prems(1) Cons x by (auto simp: yi_at_def yi_on_def yi_has_next_def)
    have vs: "shown a rest = (t, ?s, ?e, bs) # ?vs"
      using inr Cons x by simp
    obtain i' where i': "yi_next m i = Inr (item_of 0 OFFSET_MAX a (length (enc pre)) x, i')"
      "yi_at 0 OFFSET_MAX a ((pre @ [x]) @ takeWhile ?Q ys) (dropWhile ?Q ys) i'"
      using yi_next_ok [OF at assms [unfolded es]] by blast
    obtain h where h: "iid_get_hash t r = Inr h"
      using Suc.prems(4) vs by (auto simp: types_known_def)
    have n: "?n < 2 ^ 30"
      using entries_small_parts [OF assms(2) [unfolded es x]] by simp
    note pad = padded_ge [of ?n]
    have "unat maxSize < 2 ^ 32"
      using unsigned_less [of maxSize] by simp
    then have lim: "?p + bwire_size ?vs \<le> length out" "?p + bwire_size ?vs \<le> unat maxSize" "?p + bwire_size ?vs < 2 ^ 32"
      using Suc.prems(6,7) vs by simp_all
    have room: "p + 16 + ?n \<le> length out" "p + 16 + ?n < 2 ^ 32" "p + length (wire_entry h ?s ?e bs) \<le> length out"
      using lim pad by simp_all
    have r4: "round4 (of_nat ?n) = of_nat (padded ?n)"
      by (rule round4_length [OF n])
    have le: "(of_nat p :: 32 word) + 4 \<le> maxSize" "(of_nat p :: 32 word) + 4 + 4 \<le> maxSize"
      "(of_nat p :: 32 word) + 4 + 4 + 4 \<le> maxSize" "(of_nat p :: 32 word) + 4 + 4 + 4 + 4 \<le> maxSize"
      "(of_nat p :: 32 word) + 4 + 4 + 4 + 4 + round4 (of_nat ?n) \<le> maxSize"
      using nat32_le [of "p + 4" maxSize] nat32_le [of "p + 8" maxSize] nat32_le [of "p + 12" maxSize]
        nat32_le [of "p + 16" maxSize] nat32_le [of ?p maxSize] lim(2,3) unfolding r4 by (simp_all add: add.assoc)
    have e: "length (enc pre) + 16 + ?n \<le> length m" "take ?n (drop (length (enc pre) + 16) m) = bs"
      using read_entry(5) [OF assms(1) [unfolded es x] refl] assms(1) es x by simp_all
    have un: "unat (of_nat ?n :: 32 word) = ?n"
      by (rule unat_nat32) (use n in simp)
    have b: "tb_read (of_nat ?n) (\<lparr>tb_current = length (enc pre) + 16, tb_end = length (enc pre) + 16 + ?n\<rparr>, m) =
        Inr (bs, \<lparr>tb_current = length (enc pre) + 16 + ?n, tb_end = length (enc pre) + 16 + ?n\<rparr>, m)"
      using e by (simp add: tb_read_def un)
    let ?out = "entry_written p (wire_entry h ?s ?e bs) k out"
    note w = entry_written_ok [OF Suc.prems(5) room(3), where k = k]
    have to: "(of_nat ?p :: 32 word) = of_nat p + 4 + 4 + 4 + 4 + round4 (of_nat ?n)"
      unfolding r4 by simp
    have step: "bt_serialize_from r (Suc n) m i maxSize (of_nat p) out = bt_serialize_from r n m i' maxSize (of_nat ?p) ?out"
      using write_entry [OF Suc.prems(5) room(1,2) Suc.prems(8), of h ?s ?e "bt_serialize_from r n m i' maxSize (of_nat ?p)"]
      unfolding to by (simp only: bt_serialize_from.simps nxt i'(1) x item_of_def prod.case byte_item.simps h b le Let_def
          res_bind_simps simp_thms if_True if_False)
    have "length (dropWhile ?Q ys) < n"
      using Suc.prems(3) Cons length_dropWhile_le [of ?Q ys] by simp
    moreover have "es = ((pre @ [x]) @ takeWhile ?Q ys) @ dropWhile ?Q ys"
      using es by simp
    moreover have "types_known r ?vs"
      using Suc.prems(4) vs by (simp add: types_known_def)
    ultimately obtain out' where o: "bt_serialize_from r n m i' maxSize (of_nat ?p) ?out = Inr (1, out')"
      "length out' = length ?out" "bwire r out' ?p ?vs" "bytes_at out' 0 (le_bytes 4 (k + 1 + of_nat (length ?vs)))"
      "\<And>q ys. 4 \<le> q \<Longrightarrow> q + length ys \<le> ?p \<Longrightarrow> bytes_at ?out q ys \<Longrightarrow> bytes_at out' q ys"
      using Suc.IH [OF i'(2), of ?p ?out "k + 1"] lim Suc.prems(5) w(1,2) by (auto simp: shown_skip)
    have "bytes_at out' p (wire_entry h ?s ?e bs)"
      by (rule o(5) [OF Suc.prems(5) _ w(3)]) (use pad in simp)
    moreover have "bytes_at out' q ys" if "4 \<le> q" "q + length ys \<le> p" "bytes_at out q ys" for q ys
      by (rule o(5) [OF that(1) _ w(4)]) (use that in simp_all)
    ultimately show ?thesis
      using step o w(1) h vs by (auto simp: add.assoc)
  qed
qed simp

lemma bt_shown_ok:
  assumes "bt_fits K w l es" and "K < 2 ^ 29"
  shows "bt_serialized_size l w = Inr (of_nat (4 + bwire_size (shown (bt_adjustment l) es)))"
    and "types_known r (shown (bt_adjustment l) es) \<Longrightarrow> 4 + bwire_size (shown (bt_adjustment l) es) \<le> length out \<Longrightarrow>
      4 + bwire_size (shown (bt_adjustment l) es) \<le> unat maxSize \<Longrightarrow>
      \<exists>out'. bt_serialize r maxSize out l w = Inr (1, out') \<and> length out' = length out \<and>
        bwire r out' 4 (shown (bt_adjustment l) es) \<and>
        bytes_at out' 0 (le_bytes 4 (of_nat (length (shown (bt_adjustment l) es)) :: 32 word))"
proof -
  let ?a = "bt_adjustment l" and ?Q = "\<lambda>x. \<not> in_range 0 OFFSET_MAX (bt_adjustment l) x"
  obtain i where i: "bt_begin_all l w = Inr i"
    "es = [] \<and> \<not> yi_has_next i \<or> yi_at 0 OFFSET_MAX ?a (takeWhile ?Q es) (dropWhile ?Q es) i"
    using bt_begin_ok [OF assms, of 0 OFFSET_MAX] by (auto simp: bt_begin_all_def)
  have small: "entries_small ?a es"
    by (rule bt_fits_small(1) [OF assms])
  have len: "length (dropWhile ?Q es) < bt_fuel l"
    using length_dropWhile_le [of ?Q es] entries_count [of es] bt_fits_used [OF assms(1)] by (simp add: bt_fuel_def)
  have empty: "es = [] \<and> \<not> yi_has_next i" if "es = []"
    using i(2) that by (auto simp: yi_at_def yi_on_def yi_has_next_def)
  show "bt_serialized_size l w = Inr (of_nat (4 + bwire_size (shown ?a es)))"
  proof (cases "es = []")
    case True
    then show ?thesis
      using i(1) empty by (simp add: bt_serialized_size_def bt_fuel_def)
  next
    case False
    then obtain tail where m: "bt_memory l w = enc es @ tail"
      using bt_memory_fits [OF assms(1)] by blast
    from size_items_ok [of ?a "takeWhile ?Q es" "dropWhile ?Q es" i, OF _ _ _ len] show ?thesis
      using i False m small by (simp add: bt_serialized_size_def shown_skip)
  qed
  let ?out = "splice 0 (le_bytes 4 (0 :: 32 word)) out"
  assume known: "types_known r (shown ?a es)" and room: "4 + bwire_size (shown ?a es) \<le> length out"
    and max: "4 + bwire_size (shown ?a es) \<le> unat maxSize"
  have w: "out_write 0 (le_bytes 4 (0 :: 32 word)) out = Inr ?out"
    using out_write_nat [of 0 "le_bytes 4 (0 :: 32 word)" out] room by simp
  have l: "length ?out = length out"
    using room by (intro splice_length) simp
  have k: "bytes_at ?out 0 (le_bytes 4 (0 :: 32 word))"
    using room by (intro bytes_at_splice) simp
  have four: "0 + 4 \<le> maxSize"
    using max by (simp add: word_le_nat_alt)
  show "\<exists>out'. bt_serialize r maxSize out l w = Inr (1, out') \<and> length out' = length out \<and> bwire r out' 4 (shown ?a es) \<and>
      bytes_at out' 0 (le_bytes 4 (of_nat (length (shown ?a es)) :: 32 word))"
  proof (cases "es = []")
    case True
    then show ?thesis
      using i(1) empty w l k four by (simp add: bt_serialize_def bt_fuel_def)
  next
    case False
    then obtain tail where m: "bt_memory l w = enc es @ tail"
      using bt_memory_fits [OF assms(1)] by blast
    have at: "yi_at 0 OFFSET_MAX ?a (takeWhile ?Q es) (dropWhile ?Q es) i"
      using i(2) False by simp
    obtain out' where "bt_serialize_from r (bt_fuel l) (bt_memory l w) i maxSize (of_nat 4) ?out = Inr (1, out')"
      "length out' = length ?out" "bwire r out' 4 (shown ?a es)"
      "bytes_at out' 0 (le_bytes 4 (0 + of_nat (length (shown ?a es)) :: 32 word))"
      using serialize_items_ok [OF m small at _ len, of r 4 ?out maxSize 0] known room max l k unfolding shown_skip by auto
    then show ?thesis
      using i(1) w l four by (simp add: bt_serialize_def)
  qed
qed

section \<open>Reading\<close>

lemma sint_of_int32: "\<bar>k\<bar> < 2 ^ 31 \<Longrightarrow> sint (of_int k :: 32 word) = k"
  using sint_small [of k 0 k] by simp

definition entries_within :: "int \<Rightarrow> byte_entry list \<Rightarrow> bool" where
  "entries_within B es \<longleftrightarrow> (\<forall>(t, s, e, bs) \<in> set es. \<bar>s\<bar> \<le> B \<and> \<bar>e\<bar> \<le> B)"

lemma bt_deserialize_from_ok:
  assumes "iid_ok r" and "bwire r inp p vs" and "4 \<le> p" and "p + bwire_size vs < 2 ^ 32" and "K < 2 ^ 29"
    and "entries_within (2 ^ 29 + int K) vs"
    and "byte_ok w (add_mset l M)" and "bt_fits K w l es" and "bt_adjustment l = 0" and "length (enc es) + length (enc vs) \<le> K"
  shows "\<exists>l' w'. bt_deserialize_from r (length vs) inp (of_nat p) (of_nat (bwire_size vs)) l w = Inr (1, l', w') \<and>
    bt_added K M w (es @ vs) l' w' \<and> bt_adjustment l' = 0"
  using assms(2-4,6-)
proof (induction vs arbitrary: p l w es)
  case Nil
  then show ?case
    by (simp add: bt_added_def)
next
  case (Cons x vs)
  obtain t s e bs where x: "x = (t, s, e, bs)"
    by (cases x)
  let ?n = "length bs" and ?pad = "padded (length bs)"
  let ?N = "of_nat ?n :: 32 word" and ?p = "p + 16 + padded (length bs)"
  obtain h where h: "iid_get_hash t r = Inr h" "bytes_at inp p (wire_entry h s e bs)" "bwire r inp ?p vs"
    using Cons.prems(1) x by auto
  note pad = padded_ge [of ?n]
  have n: "?n < 2 ^ 29"
    using Cons.prems(8) x assms(5) by simp
  have un: "unat ?N = ?n"
    by (rule unat_nat32) (use n in simp)
  have r4: "round4 ?N = of_nat ?pad"
    by (rule round4_length) (use n in simp)
  have lim: "?p + bwire_size vs < 2 ^ 32"
    using Cons.prems(3) x by simp
  have in_at: "bytes_at inp p (le_bytes 4 h)" "bytes_at inp (p + 4) (le_bytes 4 ?N)"
    "bytes_at inp (p + 8) (le_bytes 4 (of_int s :: 32 word))" "bytes_at inp (p + 12) (le_bytes 4 (of_int e :: 32 word))"
    "bytes_at inp (p + 16) bs"
    using h(2) unfolding wire_entry_def bytes_at_append by (simp_all add: add.assoc)
  have u: "in_u32 (of_nat p) inp = Inr h" "in_u32 (of_nat p + 4) inp = Inr ?N"
    "in_u32 (of_nat p + 4 + 4) inp = Inr (of_int s :: 32 word)" "in_u32 (of_nat p + 4 + 4 + 4) inp = Inr (of_int e :: 32 word)"
    "in_read (of_nat p + 4 + 4 + 4 + 4) ?N inp = Inr bs"
    using bytes_at_u32 [OF in_at(1)] bytes_at_u32 [OF in_at(2)] bytes_at_u32 [OF in_at(3)] bytes_at_u32 [OF in_at(4)]
      bytes_at_read [OF in_at(5)] lim pad by (simp_all add: add.commute)
  have tid: "tid_lookup_by_hash h r = Inr t"
    by (rule lookup_of_hash [OF assms(1) h(1)])
  have se: "\<bar>s\<bar> \<le> 2 ^ 29 + int K" "\<bar>e\<bar> \<le> 2 ^ 29 + int K"
    using Cons.prems(4) x by (simp_all add: entries_within_def)
  then have si: "sint (of_int s :: 32 word) = s" "sint (of_int e :: 32 word) = e"
    using assms(5) by (auto intro!: sint_of_int32)
  have room: "length (enc es) + 16 + ?n \<le> K"
    using Cons.prems(8) x by simp
  obtain c l1 w1 a d where r: "bt_add t ?N s e l w = Inr (c, l1, w1)" "bt_data l1 = Some a" "yw_block w1 a = Some d"
    "tb_end c = tb_current c + ?n" "tb_end c \<le> length (yb_data d)" "bt_adjustment l1 = bt_adjustment l"
    "bt_added K M w (es @ [(t, s - bt_adjustment l, e - bt_adjustment l, bs)]) l1
      (yw_put a (d\<lparr>yb_data := splice (tb_current c) bs (yb_data d)\<rparr>) w1)"
    using bt_add_ok [OF Cons.prems(5,6) order_refl assms(5) room se, of t] by blast
  let ?w = "yw_put a (d\<lparr>yb_data := splice (tb_current c) bs (yb_data d)\<rparr>) w1"
  have wr: "bt_write c bs l1 w1 = Inr ?w"
    using r(2-5) tb_write_ok [of c bs "yb_data d"] by (simp add: bt_write_def)
  have added: "bt_added K M w (es @ [x]) l1 ?w"
    using r(7) Cons.prems(7) x by simp
  have more: "length (enc (es @ [x])) + length (enc vs) \<le> K"
    using Cons.prems(8) by simp
  have ok1: "byte_ok ?w (add_mset l1 M)" "bt_fits K ?w l1 (es @ [x])" "bt_adjustment l1 = 0" and p: "4 \<le> ?p"
    using added r(6) Cons.prems(2,7) by (simp_all add: bt_added_def)
  have within: "entries_within (2 ^ 29 + int K) vs"
    using Cons.prems(4) by (simp add: entries_within_def)
  from Cons.IH [OF h(3) p lim within ok1 more] obtain l' w' where
    IH: "bt_deserialize_from r (length vs) inp (of_nat ?p) (of_nat (bwire_size vs)) l1 ?w = Inr (1, l', w')"
    "bt_added K M ?w ((es @ [x]) @ vs) l' w'" "bt_adjustment l' = 0"
    by blast
  have "bt_deserialize_from r (length (x # vs)) inp (of_nat p) (of_nat (bwire_size (x # vs))) l w =
      bt_deserialize_from r (length vs) inp (of_nat ?p) (of_nat (bwire_size vs)) l1 ?w"
  proof -
    let ?c = "of_nat (16 + ?pad + bwire_size vs) :: 32 word"
    have sub: "?c - 4 = of_nat (12 + ?pad + bwire_size vs)"
      "(of_nat (12 + ?pad + bwire_size vs) :: 32 word) - 4 = of_nat (8 + ?pad + bwire_size vs)"
      "(of_nat (8 + ?pad + bwire_size vs) :: 32 word) - 4 = of_nat (4 + ?pad + bwire_size vs)"
      "(of_nat (4 + ?pad + bwire_size vs) :: 32 word) - 4 = of_nat (?pad + bwire_size vs)"
      by simp_all
    have "(of_nat 4 :: 32 word) \<le> of_nat (k + ?pad + bwire_size vs)" if "4 \<le> k" "k \<le> 16" for k
      using lim that by (intro nat32_mono) simp_all
    then have four: "4 \<le> (of_nat (k + ?pad + bwire_size vs) :: 32 word)" if "4 \<le> k" "k \<le> 16" for k
      using that by (simp only: of_nat_numeral)
    have c: "4 \<le> ?c" "4 \<le> ?c - 4" "4 \<le> ?c - 4 - 4" "4 \<le> ?c - 4 - 4 - 4"
      unfolding sub by (rule four; simp)+
    have b: "?N \<le> ?c - 4 - 4 - 4 - 4"
      unfolding sub using lim pad by (intro nat32_mono) simp_all
    have to: "(of_nat ?p :: 32 word) = of_nat p + 4 + 4 + 4 + 4 + of_nat ?pad"
      "(of_nat (bwire_size vs) :: 32 word) = ?c - 4 - 4 - 4 - 4 - of_nat ?pad"
      by simp_all
    show ?thesis
      unfolding to x by (simp only: length_Cons bt_deserialize_from.simps bwire_size.simps c b u tid si r(1) r4 wr
        ns_assert_simps res_bind_simps Let_def prod.case)
  qed
  then show ?case
    using IH(1,3) bt_added_trans [OF _ IH(2)] added by (auto simp: bt_added_def)
qed

lemma bwire_size_bound: "16 * bwire_size vs \<le> 19 * length (enc vs)" "length vs \<le> bwire_size vs"
proof (induction vs)
  case (Cons x vs)
  obtain t s e bs where x: "x = (t, s, e, bs)"
    by (cases x)
  have "padded (length bs) \<le> length bs + 3"
    unfolding padded_def by presburger
  then show "16 * bwire_size (x # vs) \<le> 19 * length (enc (x # vs))" "length (x # vs) \<le> bwire_size (x # vs)"
    using Cons.IH x by simp_all
qed simp_all

lemma shown_bound:
  assumes "bt_fits K w l es" and "K < 2 ^ 29"
  shows "4 + bwire_size (shown (bt_adjustment l) es) < 2 ^ 30"
proof -
  have "length (enc (shown (bt_adjustment l) es)) \<le> length (enc es)"
    unfolding shown_def by (rule length_copied)
  then show ?thesis
    using bwire_size_bound(1) [of "shown (bt_adjustment l) es"] assms by (simp add: bt_fits_def)
qed

lemma shown_within:
  assumes "bt_fits K w l es" and "K < 2 ^ 29"
  shows "entries_within (2 ^ 29 + int K) (shown (bt_adjustment l) es)"
  unfolding entries_within_def
proof clarify
  fix t s e bs
  assume "(t, s, e, bs) \<in> set (shown (bt_adjustment l) es)"
  then have "\<exists>x \<in> set es. (t, s, e, bs) \<in> set (copied (\<lambda>s e. Some (s, e)) (bt_adjustment l) 0 x)"
    by (auto simp: shown_def copied_all_def simp del: copied.simps)
  then obtain t0 s0 e0 bs0 where es: "(t0, s0, e0, bs0) \<in> set es"
    and c: "(t, s, e, bs) \<in> set (copied (\<lambda>s e. Some (s, e)) (bt_adjustment l) 0 (t0, s0, e0, bs0))"
    by (metis prod_cases4)
  have "s = max (s0 + bt_adjustment l) 0 \<and> e = min (e0 + bt_adjustment l) OFFSET_MAX"
    using c by (cases "in_range 0 OFFSET_MAX (bt_adjustment l) (t0, s0, e0, bs0)") (simp_all del: in_range.simps)
  moreover have "\<bar>s0 + bt_adjustment l\<bar> \<le> 2 ^ 29 + int K" "\<bar>e0 + bt_adjustment l\<bar> \<le> 2 ^ 29 + int K"
    using bt_fits_small(2) [OF assms] es by auto
  ultimately show "\<bar>s\<bar> \<le> 2 ^ 29 + int K \<and> \<bar>e\<bar> \<le> 2 ^ 29 + int K"
    using assms(2) by (auto simp: max_def min_def abs_le_iff)
qed

lemma bt_deserialize_ok:
  assumes "iid_ok r" and "bt_fits K v l es" and "K < 2 ^ 29" and "vs = shown (bt_adjustment l) es" and "byte_ok w M"
    and "bwire r inp 4 vs" and "bytes_at inp 0 (le_bytes 4 (of_nat (length vs) :: 32 word))"
  shows "\<exists>l' w'. bt_deserialize r inp (of_nat (4 + bwire_size vs) + 4) bt_empty w = Inr (1, l', w') \<and> bt_added K M w vs l' w' \<and>
    bt_adjustment l' = 0"
proof -
  have small: "4 + bwire_size vs < 2 ^ 30"
    using shown_bound [OF assms(2,3)] assms(4) by simp
  have "byte_ok w (add_mset bt_empty M)"
    using assms(5) by (simp add: byte_ok_None bt_empty_def)
  moreover have "length (enc vs) \<le> K"
    using length_copied [of "\<lambda>s e. Some (s, e)" "bt_adjustment l" 0 es] assms(2,4) by (simp add: shown_def bt_fits_def)
  moreover have within: "entries_within (2 ^ 29 + int K) vs"
    using shown_within [OF assms(2,3)] assms(4) by simp
  ultimately obtain l' w' where r: "bt_deserialize_from r (length vs) inp (of_nat 4) (of_nat (bwire_size vs)) bt_empty w = Inr (1, l', w')"
    "bt_added K M w vs l' w'" "bt_adjustment l' = 0"
    using bt_deserialize_from_ok [OF assms(1,6) _ _ assms(3) within, where l = bt_empty and M = M and w = w and es = "[]"] assms(4) small
      bt_empty_fits [of K w] by (auto simp: bt_empty_def)
  have u: "unat (of_nat (length vs) :: 32 word) = length vs"
    using small bwire_size_bound(2) [of vs] by (intro unat_nat32) simp
  have "in_u32 0 inp = Inr (of_nat (length vs) :: 32 word)"
    using bytes_at_u32 [OF assms(7)] by simp
  moreover have "(of_nat 4 :: 32 word) \<le> of_nat (4 + bwire_size vs)"
    using small by (intro nat32_mono) simp_all
  then have "4 \<le> (of_nat (4 + bwire_size vs) :: 32 word)"
    by (simp only: of_nat_numeral)
  ultimately have "bt_deserialize r inp (of_nat (4 + bwire_size vs) + 4) bt_empty w = Inr (1, l', w')"
    using r(1) u by (simp add: bt_deserialize_def Let_def)
  then show ?thesis
    using r(2,3) by blast
qed

end
