(* ===== verification/Packet_Wire.thy ===== *)
theory Packet_Wire
  imports Byte_Tags_Values Byte_Tags_Wire
begin

text \<open>
  The serialisation of whole packets (\<open>src/network/model/packet.cc\<close>): five parts, each behind its length, which counts the
  four bytes of the length as well. The vector for nix routing is empty, and of metadata only the number of the packet is
  written and read (\<open>src/network/model/packet-metadata.cc\<close>), as it is off. A pointer into the output is a position in it,
  and what is written or read at the pointer is at the start of the rest of the memory.
\<close>

section \<open>Parts and their lengths\<close>

definition word_out :: "nat \<Rightarrow> 32 word \<Rightarrow> bytes \<Rightarrow> bytes result" where
  "word_out p x out = (if p + 4 \<le> length out then Inr (splice p (le_bytes 4 x) out) else Inl Undefined_behaviour)"

definition word_in :: "nat \<Rightarrow> bytes \<Rightarrow> 32 word result" where
  "word_in p inp = (if p + 4 \<le> length inp then Inr (le_word (take 4 (drop p inp))) else Inl Undefined_behaviour)"

text \<open>One part of \<open>Serialize\<close>: its size \<open>n\<close> is compared with what is left, the length and the part are written, and \<open>k\<close>
  goes on behind it. The four bytes of the length are not counted in \<open>size\<close>.\<close>

definition put_part :: "32 word \<Rightarrow> 32 word \<Rightarrow> (32 word \<Rightarrow> bytes \<Rightarrow> (32 word \<times> bytes) result) \<Rightarrow> nat \<Rightarrow> 32 word \<Rightarrow> bytes \<Rightarrow>
    (nat \<Rightarrow> 32 word \<Rightarrow> bytes \<Rightarrow> (32 word \<times> bytes) result) \<Rightarrow> (32 word \<times> bytes) result" where
  "put_part maxSize n f p sz out k =
     (if sz + n \<le> maxSize then
        res_bind (word_out p (n + 4) out) (\<lambda>out.
        res_bind (f n (drop (p + 4) out)) (\<lambda>(serialized, o').
          (let out = take (p + 4) out @ o'
           in if serialized \<noteq> 0 then k (p + 4 + unat (round4 n)) (sz + n) out else Inr (0, out))))
      else Inr (0, out))"

text \<open>One part of \<open>Deserialize\<close>: its length is compared with what is left, the part is read, and \<open>k\<close> goes on with the
  result, what was read, the position and the size behind it.\<close>

definition take_part :: "bytes \<Rightarrow> nat \<Rightarrow> 32 word \<Rightarrow> (bytes \<Rightarrow> 32 word \<Rightarrow> (32 word \<times> 'a) result) \<Rightarrow>
    (32 word \<Rightarrow> 'a \<Rightarrow> nat \<Rightarrow> 32 word \<Rightarrow> 'b result) \<Rightarrow> 'b result" where
  "take_part inp p sz f k =
     res_bind (word_in p inp) (\<lambda>n. ns_assert (sz \<ge> n)
       (res_bind (f (drop (p + 4) inp) n) (\<lambda>(deserialized, x). k deserialized x (p + 4 + unat (round4 (n - 4))) (sz - n))))"

section \<open>Metadata that is off\<close>

definition meta_serialized_size :: "32 word" where
  "meta_serialized_size = 8"

definition meta_serialize :: "64 word \<Rightarrow> 32 word \<Rightarrow> bytes \<Rightarrow> (32 word \<times> bytes) result" where
  "meta_serialize uid maxSize out =
     (if 8 > maxSize then Inr (0, out)
      else res_bind (out_write 0 (le_bytes 8 uid) out) (\<lambda>out. ns_assert (8 = maxSize) (Inr (1, out))))"

definition meta_deserialize :: "bytes \<Rightarrow> 32 word \<Rightarrow> (32 word \<times> 64 word) result" where
  "meta_deserialize inp sz =
     (let desSize = sz - 4
      in res_bind (if 8 > sz then Inr 0 else res_map le_word (in_read 0 8 inp)) (\<lambda>uid.
         (let desSize = desSize - 8 in if desSize > 0 then Inl Not_modelled else Inr (1, uid))))"

section \<open>Packets\<close>

definition packet_serialized_size :: "packet \<Rightarrow> packet_world \<Rightarrow> 32 word result" where
  "packet_serialized_size p w =
     (let sz = 4
      in res_bind (tags_serialized_size (pk_tags p, pw_tag w)) (\<lambda>n.
         (let sz = sz + round4 n + 4
          in res_bind (bt_serialized_size (pk_byteTags p) (pw_byte w)) (\<lambda>n.
             (let sz = sz + round4 n + 4; sz = sz + round4 meta_serialized_size + 4
              in Inr (sz + round4 (buf_serialized_size (pk_buffer p)) + 4))))))"

definition packet_serialize_parts :: "iid_manager \<Rightarrow> 32 word \<Rightarrow> nat \<Rightarrow> 32 word \<Rightarrow> bytes \<Rightarrow> packet \<Rightarrow> packet_world \<Rightarrow>
    (32 word \<times> bytes) result" where
  "packet_serialize_parts r maxSize p sz out pkt w =
     res_bind (bt_serialized_size (pk_byteTags pkt) (pw_byte w)) (\<lambda>byteTagSize.
     put_part maxSize byteTagSize (\<lambda>n o'. bt_serialize r n o' (pk_byteTags pkt) (pw_byte w)) p sz out (\<lambda>p sz out.
     res_bind (tags_serialized_size (pk_tags pkt, pw_tag w)) (\<lambda>packetTagSize.
     put_part maxSize packetTagSize (\<lambda>n o'. tags_serialize r n o' (pk_tags pkt, pw_tag w)) p sz out (\<lambda>p sz out.
     put_part maxSize meta_serialized_size (meta_serialize (pk_uid pkt)) p sz out (\<lambda>p sz out.
     put_part maxSize (buf_serialized_size (pk_buffer pkt)) (\<lambda>n o'. buf_serialize n o' (pk_buffer pkt) (pw_buf w)) p sz out
       (\<lambda>_ _ out. Inr (1, out)))))))"

definition packet_serialize :: "iid_manager \<Rightarrow> 32 word \<Rightarrow> bytes \<Rightarrow> packet \<Rightarrow> packet_world \<Rightarrow> (32 word \<times> bytes) result" where
  "packet_serialize r maxSize out pkt w =
     (let sz = 0
      in if sz + 4 \<le> maxSize then
           (let sz = sz + 4 in res_bind (word_out 0 4 out) (\<lambda>out. packet_serialize_parts r maxSize 4 sz out pkt w))
         else Inr (0, out))"

text \<open>On a packet that was made without a block of memory for its bytes. \<open>None\<close> is a packet that is left without one.\<close>

definition packet_deserialize_parts :: "iid_manager \<Rightarrow> bytes \<Rightarrow> nat \<Rightarrow> 32 word \<Rightarrow> packet_world \<Rightarrow>
    (32 word \<times> packet option \<times> packet_world) result" where
  "packet_deserialize_parts r inp p sz w =
     take_part inp p sz (\<lambda>i n. res_map (\<lambda>(d, l, v). (d, l, w\<lparr>pw_byte := v\<rparr>)) (bt_deserialize r i n bt_empty (pw_byte w)))
       (\<lambda>d (l, w) p sz. if d = 0 then Inr (0, None, w) else
     take_part inp p sz (\<lambda>i n. res_map (\<lambda>(d, m, v). (d, m, w\<lparr>pw_tag := v\<rparr>)) (tags_deserialize r i n (None, pw_tag w)))
       (\<lambda>d (m, w) p sz. if d = 0 then Inr (0, None, w) else
     take_part inp p sz meta_deserialize
       (\<lambda>d uid p sz. if d = 0 then Inr (0, None, w) else
     take_part inp p sz (\<lambda>i n. res_map (\<lambda>(d, b, v). (d, b, w\<lparr>pw_buf := v\<rparr>)) (buf_deserialize i n (pw_buf w)))
       (\<lambda>d (b, w) p sz.
         Inr (if d = 0 then 0 else if sz = 0 then 1 else 0,
           Some \<lparr>pk_buffer = b, pk_byteTags = l, pk_tags = m, pk_uid = uid\<rparr>, w)))))"

definition packet_deserialize :: "iid_manager \<Rightarrow> bytes \<Rightarrow> 32 word \<Rightarrow> packet_world \<Rightarrow>
    (32 word \<times> packet option \<times> packet_world) result" where
  "packet_deserialize r inp sz w =
     res_bind (word_in 0 inp) (\<lambda>nixSize. ns_assert (sz \<ge> nixSize)
       (if nixSize > 4 then Inl Not_modelled else packet_deserialize_parts r inp 4 (sz - nixSize) w))"

text \<open>The constructor from serialised bytes ignores the result of \<open>Deserialize\<close>.\<close>

definition packet_create_wire :: "iid_manager \<Rightarrow> bytes \<Rightarrow> 32 word \<Rightarrow> bool \<Rightarrow> packet_world \<Rightarrow>
    (packet option \<times> packet_world) result" where
  "packet_create_wire r inp sz magic w = ns_assert magic (res_map snd (packet_deserialize r inp sz w))"

section \<open>A part is written\<close>

text \<open>A property of the first \<open>N\<close> bytes of a memory.\<close>

definition of_prefix :: "nat \<Rightarrow> (bytes \<Rightarrow> bool) \<Rightarrow> bool" where
  "of_prefix N P \<longleftrightarrow> (\<forall>o1 o2. P o1 \<longrightarrow> N \<le> length o1 \<longrightarrow> length o2 = length o1 \<longrightarrow> take N o2 = take N o1 \<longrightarrow> P o2)"

lemma take_same_at:
  assumes "take N ys = take N xs" and "q + n \<le> N"
  shows "take n (drop q ys) = take n (drop q xs)"
proof -
  have "take n (drop q (take N zs)) = take n (drop q zs)" for zs :: "'a list"
    using assms(2) by (simp add: drop_take)
  then show ?thesis
    using assms(1) by metis
qed

lemma bytes_at_same:
  assumes "take N o2 = take N o1" and "length o2 = length o1" and "q + length bs \<le> N"
  shows "bytes_at o2 q bs \<longleftrightarrow> bytes_at o1 q bs"
  using take_same_at [OF assms(1,3)] assms(2) by (simp add: bytes_at_def)

lemma in_read_same:
  assumes "take N o2 = take N o1" and "length o2 = length o1" and "unat q + unat n \<le> N"
  shows "in_read q n o2 = in_read q n o1"
  using take_same_at [OF assms(1,3)] assms(2) by (simp add: in_read_def)

definition part_at :: "nat \<Rightarrow> (bytes \<Rightarrow> bool) \<Rightarrow> nat \<Rightarrow> bytes \<Rightarrow> bool" where
  "part_at N P p out \<longleftrightarrow> bytes_at out p (le_bytes 4 (of_nat (N + 4) :: 32 word)) \<and> P (drop (p + 4) out)"

definition part_written :: "nat \<Rightarrow> (32 word \<Rightarrow> bytes \<Rightarrow> (32 word \<times> bytes) result) \<Rightarrow> (bytes \<Rightarrow> bool) \<Rightarrow> bool" where
  "part_written N f P \<longleftrightarrow> (\<forall>o'. N \<le> length o' \<longrightarrow> (\<exists>o2. f (of_nat N) o' = Inr (1, o2) \<and> length o2 = length o' \<and> P o2))"

lemma round4_exact: "N < 2 ^ 30 \<Longrightarrow> 4 dvd N \<Longrightarrow> round4 (of_nat N) = of_nat N"
proof -
  assume N: "N < 2 ^ 30" "4 dvd N"
  then have "padded N = N"
    unfolding padded_def by presburger
  then show ?thesis
    using round4_length [OF N(1)] by simp
qed

lemma put_part_ok:
  assumes "part_written N f P" and "S + N \<le> unat maxSize" and "p + 4 + N \<le> length out" and "N < 2 ^ 30" and "4 dvd N"
  shows "\<exists>out'. (\<forall>k. put_part maxSize (of_nat N) f p (of_nat S) out k = k (p + 4 + N) (of_nat (S + N)) out') \<and>
    length out' = length out \<and> take p out' = take p out \<and> part_at N P p out'"
proof -
  let ?x = "le_bytes 4 (of_nat (N + 4) :: 32 word)"
  let ?out = "splice p ?x out"
  have l: "length ?out = length out"
    using assms(3) by (intro splice_length) simp
  have "N \<le> length (drop (p + 4) ?out)"
    using assms(3) l by simp
  then obtain o2 where o2: "f (of_nat N) (drop (p + 4) ?out) = Inr (1, o2)" "length o2 = length (drop (p + 4) ?out)" "P o2"
    using assms(1) unfolding part_written_def by blast
  have "unat maxSize < 2 ^ 32"
    using unsigned_less [of maxSize] by simp
  then have le: "(of_nat S :: 32 word) + of_nat N \<le> maxSize"
    using nat32_le [of "S + N" maxSize] assms(2) by simp
  have r4: "unat (round4 (of_nat N)) = N"
    using round4_exact [OF assms(4,5)] assms(4) by (simp add: unat_nat32)
  let ?out' = "take (p + 4) ?out @ o2"
  have "word_out p (of_nat N + 4) out = Inr ?out"
    using assms(3) by (simp add: word_out_def)
  then have run: "\<forall>k. put_part maxSize (of_nat N) f p (of_nat S) out k = k (p + 4 + N) (of_nat (S + N)) ?out'"
    using le o2(1) r4 by (simp add: put_part_def)
  have len: "length ?out' = length out"
    using l o2(2) assms(3) by simp
  have pre: "take (p + 4) ?out' = take (p + 4) ?out"
    using l assms(3) by simp
  have "bytes_at ?out' p ?x"
    using bytes_at_same [OF pre, of p ?x] len l bytes_at_splice [of p ?x out] assms(3) by simp
  moreover have "drop (p + 4) ?out' = o2"
    using l assms(3) by simp
  ultimately have "part_at N P p ?out'"
    using o2(3) by (simp add: part_at_def)
  moreover have "take p ?out' = take p out"
    using splice_prefix [of p p ?x out] assms(3) l by simp
  ultimately show ?thesis
    using run len by (intro exI [of _ ?out'] conjI)
qed

section \<open>A part is read\<close>

lemma take_part_ok:
  assumes "part_at N P p inp" and "f (drop (p + 4) inp) (of_nat N + 4) = Inr (d, x)"
    and "N < 2 ^ 30" and "4 dvd N" and "N + 4 \<le> S" and "S < 2 ^ 32"
  shows "take_part inp p (of_nat S) f k = k d x (p + 4 + N) (of_nat (S - (N + 4)))"
proof -
  have "word_in p inp = Inr (of_nat N + 4)"
    using assms(1) by (simp add: part_at_def bytes_at_def word_in_def le_word_le_bytes)
  moreover have "(of_nat (N + 4) :: 32 word) \<le> of_nat S"
    using assms(5,6) by (intro nat32_mono) simp_all
  moreover have "unat (round4 (of_nat N)) = N"
    using round4_exact [OF assms(3,4)] assms(3) by (simp add: unat_nat32)
  ultimately show ?thesis
    using assms(2,5) by (simp add: take_part_def of_nat_diff)
qed

section \<open>The four parts\<close>

lemma of_prefixI:
  "(\<And>o1 o2. P o1 \<Longrightarrow> N \<le> length o1 \<Longrightarrow> length o2 = length o1 \<Longrightarrow> take N o2 = take N o1 \<Longrightarrow> P o2) \<Longrightarrow> of_prefix N P"
  by (simp add: of_prefix_def)

definition byte_part :: "iid_manager \<Rightarrow> byte_entry list \<Rightarrow> bytes \<Rightarrow> bool" where
  "byte_part r vs o' \<longleftrightarrow> bwire r o' 4 vs \<and> bytes_at o' 0 (le_bytes 4 (of_nat (length vs) :: 32 word))"

lemma byte_part_prefix: "of_prefix (4 + bwire_size vs) (byte_part r vs)"
proof (rule of_prefixI)
  fix o1 o2
  assume "byte_part r vs o1" and l: "length o2 = length o1" and t: "take (4 + bwire_size vs) o2 = take (4 + bwire_size vs) o1"
  then have p: "bwire r o1 4 vs" "bytes_at o1 0 (le_bytes 4 (of_nat (length vs) :: 32 word))"
    by (simp_all add: byte_part_def)
  have "bwire r o2 4 vs"
    by (rule bwire_cong [OF _ p(1)]) (simp add: bytes_at_same [OF t l])
  then show "byte_part r vs o2"
    using p(2) bytes_at_same [OF t l, of 0] by (simp add: byte_part_def)
qed

definition tag_part :: "iid_manager \<Rightarrow> (16 word \<times> bytes) list \<Rightarrow> bytes \<Rightarrow> bool" where
  "tag_part r vs o' \<longleftrightarrow> wire_tags r o' 4 vs \<and> in_u32 0 o' = Inr (of_nat (length vs))"

lemma tag_part_prefix:
  assumes "4 + wire_size vs < 2 ^ 30"
  shows "of_prefix (4 + wire_size vs) (tag_part r vs)"
proof (rule of_prefixI)
  fix o1 o2
  assume "tag_part r vs o1" and l: "length o2 = length o1" and t: "take (4 + wire_size vs) o2 = take (4 + wire_size vs) o1"
  then have p: "wire_tags r o1 4 vs" "in_u32 0 o1 = Inr (of_nat (length vs))"
    by (simp_all add: tag_part_def)
  have same: "in_read (of_nat q) (of_nat n) o2 = in_read (of_nat q) (of_nat n) o1" if "q + n \<le> 4 + wire_size vs" for q n
    by (rule in_read_same [OF t l]) (use that assms in \<open>simp add: unat_nat32\<close>)
  have "wire_tags r o2 4 vs"
    by (rule wire_tags_cong [OF _ p(1)]) (simp add: same)
  then show "tag_part r vs o2"
    using p(2) same [of 0 4] by (simp add: tag_part_def in_u32_def)
qed

definition uid_part :: "64 word \<Rightarrow> bytes \<Rightarrow> bool" where
  "uid_part uid o' \<longleftrightarrow> bytes_at o' 0 (le_bytes 8 uid)"

lemma uid_part_prefix: "of_prefix 8 (uid_part uid)"
proof (rule of_prefixI)
  fix o1 o2
  assume "uid_part uid o1" and l: "length o2 = length o1" and t: "take 8 o2 = take 8 o1"
  then show "uid_part uid o2"
    using bytes_at_same [OF t l, of 0 "le_bytes 8 uid"] by (simp add: uid_part_def)
qed

lemma meta_serialize_ok: "part_written 8 (meta_serialize uid) (uid_part uid)"
  unfolding part_written_def
proof (intro allI impI)
  fix o' :: bytes
  assume "8 \<le> length o'"
  then show "\<exists>o2. meta_serialize uid (of_nat 8) o' = Inr (1, o2) \<and> length o2 = length o' \<and> uid_part uid o2"
    using out_write_nat [of 0 "le_bytes 8 uid" o'] bytes_at_splice [of 0 "le_bytes 8 uid" o']
    by (simp add: meta_serialize_def uid_part_def splice_length)
qed

lemma meta_deserialize_ok: "uid_part uid inp \<Longrightarrow> meta_deserialize inp (of_nat 8 + 4) = Inr (1, uid)"
  using bytes_at_read [of inp 0 "le_bytes 8 uid"]
  by (simp add: meta_deserialize_def uid_part_def le_word_le_bytes Let_def)

definition buf_part_size :: "bytes \<Rightarrow> bytes \<Rightarrow> nat" where
  "buf_part_size f r = 12 + padded (length f) + padded (length r)"

lemma wire_form_prefix:
  assumes "length f < 2 ^ 29" and "length r < 2 ^ 29"
  shows "of_prefix (buf_part_size f r) (\<lambda>o'. wire_form o' z f r)"
proof (rule of_prefixI)
  fix o1 o2
  assume w: "wire_form o1 z f r" and l: "length o2 = length o1"
    and t: "take (buf_part_size f r) o2 = take (buf_part_size f r) o1"
  have r4: "round4 (of_nat (length f)) = of_nat (padded (length f))"
    using assms(1) by (intro round4_length) simp
  have p: "padded (length f) \<le> length f + 3" "length f \<le> padded (length f)" "length r \<le> padded (length r)"
    by (simp_all add: padded_ge) (simp add: padded_def; presburger)
  then have u: "unat (8 + of_nat (padded (length f)) :: 32 word) = 8 + padded (length f)"
    "unat (12 + of_nat (padded (length f)) :: 32 word) = 12 + padded (length f)"
    "unat (of_nat (length f) :: 32 word) = length f" "unat (of_nat (length r) :: 32 word) = length r"
    using assms unat_nat32 [of "8 + padded (length f)"] unat_nat32 [of "12 + padded (length f)"]
    by (simp_all add: unat_nat32)
  show "wire_form o2 z f r"
    using w p u unfolding wire_form_def Let_def r4
    by (simp add: in_read_same [OF t l] buf_part_size_def)
qed

lemma buffer_part_ok:
  assumes "world_ok w M" and "b \<in># M" and "length (buf_view w b) < 2 ^ 29"
  obtains f z r where "buf_serialized_size b = of_nat (buf_part_size f r)" and "buf_part_size f r < 2 ^ 30"
    and "part_written (buf_part_size f r) (\<lambda>n o'. buf_serialize n o' b w) (\<lambda>o'. wire_form o' z f r)"
    and "f @ replicate (unat z) 0 @ r = buf_view w b"
proof -
  from world_ok_block [OF assms(1,2)] obtain d where d: "bw_data w (b_data b) = Some d" "buf_fits d b" "block_ok d"
    "buf_view w b = block_view d b"
    by blast
  let ?f = "front_bytes d b" and ?r = "rear_bytes d b" and ?z = "b_zeroAreaEnd b - b_zeroAreaStart b"
  note l = view_part_lengths [OF d(2,3), folded front_bytes_def rear_bytes_def]
  have view: "?f @ replicate (unat ?z) 0 @ ?r = buf_view w b"
    using d(4) zero_len_nat [OF d(2)] by (simp add: block_view_def front_bytes_def rear_bytes_def)
  have "length ?f + unat ?z + length ?r < 2 ^ 29"
    using assms(3) unfolding view [symmetric] by simp
  then have small: "length ?f < 2 ^ 30" "length ?r < 2 ^ 30" and sum: "length ?f + length ?r < 2 ^ 29"
    by simp_all
  have n: "b_zeroAreaStart b - b_start b = of_nat (length ?f)" "b_end b - b_zeroAreaEnd b = of_nat (length ?r)"
    by (simp_all add: l front_len_nat [OF d(2), symmetric] back_len_nat [OF d(2), symmetric])
  have size: "buf_serialized_size b = of_nat (buf_part_size ?f ?r)"
    unfolding buf_serialized_size_def buf_part_size_def n round4_length [OF small(1)] round4_length [OF small(2)] by simp
  have "padded n \<le> n + 3" for n
    unfolding padded_def by presburger
  from this [of "length ?f"] this [of "length ?r"] have lt: "buf_part_size ?f ?r < 2 ^ 30"
    using sum by (simp add: buf_part_size_def)
  have "\<exists>o2. buf_serialize (of_nat (buf_part_size ?f ?r)) o' b w = Inr (1, o2) \<and> length o2 = length o' \<and> wire_form o2 ?z ?f ?r"
    if "buf_part_size ?f ?r \<le> length o'" for o'
    using buf_serialize_ok [OF d(1-3), of "of_nat (buf_part_size ?f ?r)" o'] size lt that by (simp add: unat_nat32)
  then show ?thesis
    using that [OF size lt _ view] unfolding part_written_def by blast
qed

text \<open>The types of the entries that are written\<close>

definition bt_types :: "byte_tags \<Rightarrow> byte_world \<Rightarrow> 16 word list result" where
  "bt_types l w = res_map (map fst) (res_bind (bt_begin_all l w) (byte_tag_items (bt_fuel l) (bt_memory l w)))"

lemma shown_types: "map fst (shown a es) = map fst (filter (in_range 0 OFFSET_MAX a) es)"
proof (induction es)
  case (Cons x es)
  obtain t s e bs where x: "x = (t, s, e, bs)"
    by (cases x)
  show ?case
    using Cons.IH unfolding x by (cases "in_range 0 OFFSET_MAX a (t, s, e, bs)") (simp_all add: shown_def del: in_range.simps)
qed simp

lemma bt_types_ok:
  assumes "bt_fits K w l es" and "K < 2 ^ 29"
  shows "bt_types l w = Inr (map fst (shown (bt_adjustment l) es))"
proof -
  let ?a = "bt_adjustment l" and ?Q = "\<lambda>x. \<not> in_range 0 OFFSET_MAX (bt_adjustment l) x"
  obtain i where i: "bt_begin_all l w = Inr i"
    "es = [] \<and> \<not> yi_has_next i \<or> yi_at 0 OFFSET_MAX ?a (takeWhile ?Q es) (dropWhile ?Q es) i"
    using bt_begin_ok [OF assms, of 0 OFFSET_MAX] by (auto simp: bt_begin_all_def)
  show ?thesis
  proof (cases "es = []")
    case True
    then have "\<not> yi_has_next i"
      using i(2) by (auto simp: yi_at_def yi_on_def yi_has_next_def)
    then show ?thesis
      using i(1) True by (simp add: bt_types_def bt_fuel_def)
  next
    case False
    then obtain tail where m: "bt_memory l w = enc es @ tail"
      using bt_memory_fits [OF assms(1)] by blast
    have at: "yi_at 0 OFFSET_MAX ?a (takeWhile ?Q es) (dropWhile ?Q es) i"
      using i(2) False by simp
    have len: "length (dropWhile ?Q es) < bt_fuel l"
      using length_dropWhile_le [of ?Q es] entries_count [of es] bt_fits_used [OF assms(1)] by (simp add: bt_fuel_def)
    have "map fst (map (byte_item_of 0 OFFSET_MAX ?a) xs) = map fst xs" for xs
      by (induction xs) auto
    then show ?thesis
      using byte_tag_items_ok [OF at _ _ len, of "bt_memory l w" tail] m bt_fits_small(1) [OF assms] i(1)
      by (simp add: bt_types_def shown_types filter_dropWhile)
  qed
qed

definition type_known :: "iid_manager \<Rightarrow> 16 word \<Rightarrow> bool" where
  "type_known r t \<longleftrightarrow> (\<exists>h. iid_get_hash t r = Inr h)"

lemma bytes_part_ok:
  assumes "byte_holds w l (K, ts)" and "bt_types l w = Inr tids" and "\<forall>t \<in> set tids. type_known r t"
  obtains vs where "bt_serialized_size l w = Inr (of_nat (4 + bwire_size vs))" and "4 + bwire_size vs < 2 ^ 30"
    and "part_written (4 + bwire_size vs) (\<lambda>n o'. bt_serialize r n o' l w) (byte_part r vs)"
    and "\<And>v M inp. iid_ok r \<Longrightarrow> byte_ok v M \<Longrightarrow> byte_part r vs inp \<Longrightarrow> \<exists>l' v'.
      bt_deserialize r inp (of_nat (4 + bwire_size vs) + 4) bt_empty v = Inr (1, l', v') \<and> byte_becomes M v (K, ts) (l', v')"
proof -
  obtain es where es: "bt_fits K w l es" "\<And>i. i < length ts \<Longrightarrow> marks (bt_adjustment l) es (int i) = ts ! i" "K < 2 ^ 29"
    "length ts < 2 ^ 29"
    using assms(1) by (auto simp: byte_holds_def)
  let ?vs = "shown (bt_adjustment l) es"
  have "tids = map fst ?vs"
    using bt_types_ok [OF es(1,3)] assms(2) by simp
  then have known: "types_known r ?vs"
    using assms(3) by (force simp: types_known_def type_known_def)
  have lt: "4 + bwire_size ?vs < 2 ^ 30"
    using shown_bound [OF es(1,3)] by simp
  have "\<exists>o2. bt_serialize r (of_nat (4 + bwire_size ?vs)) o' l w = Inr (1, o2) \<and> length o2 = length o' \<and> byte_part r ?vs o2"
    if "4 + bwire_size ?vs \<le> length o'" for o'
    using bt_shown_ok(2) [OF es(1,3) known that, of "of_nat (4 + bwire_size ?vs)"] lt unat_nat32 [of "4 + bwire_size ?vs"]
    by (auto simp: byte_part_def)
  moreover have "\<exists>l' v'. bt_deserialize r inp (of_nat (4 + bwire_size ?vs) + 4) bt_empty v = Inr (1, l', v') \<and>
      byte_becomes M v (K, ts) (l', v')" if r: "iid_ok r" "byte_ok v M" "byte_part r ?vs inp" for v M inp
  proof -
    obtain l' v' where "bt_deserialize r inp (of_nat (4 + bwire_size ?vs) + 4) bt_empty v = Inr (1, l', v')"
      "bt_added K M v ?vs l' v'" "bt_adjustment l' = 0"
      using bt_deserialize_ok [OF r(1) es(1,3) refl r(2)] r(3) unfolding byte_part_def by blast
    moreover have "marks 0 ?vs (int i) = ts ! i" if "i < length ts" for i
      using marks_copied_fits [OF restricts_changes(1) es(1,3), of 0 "int i"] es(2) [OF that] by (simp add: shown_def)
    ultimately show ?thesis
      using byte_becomesI [OF _ es(3,4)] by metis
  qed
  ultimately show ?thesis
    using that [of ?vs] bt_shown_ok(1) [OF es(1,3)] lt unfolding part_written_def by blast
qed

lemma dvd_sizes: "4 dvd padded n" "4 dvd bwire_size es" "4 dvd wire_size vs" "4 dvd buf_part_size f r"
proof -
  have p: "4 dvd padded n" for n
    by (simp add: padded_def)
  then show "4 dvd padded n" .
  show "4 dvd bwire_size es"
    using p by (induction es) (auto intro!: dvd_add)
  show "4 dvd wire_size vs"
    using p by (induction vs) (auto intro!: dvd_add)
  show "4 dvd buf_part_size f r"
    using p by (auto simp: buf_part_size_def intro!: dvd_add)
qed

lemma of_prefixD:
  "of_prefix N P \<Longrightarrow> P o1 \<Longrightarrow> N \<le> length o1 \<Longrightarrow> length o2 = length o1 \<Longrightarrow> take N o2 = take N o1 \<Longrightarrow> P o2"
  by (simp add: of_prefix_def)

lemma take_mono: "m \<le> n \<Longrightarrow> take n ys = take n xs \<Longrightarrow> take m ys = take m xs"
  by (metis min.absorb1 take_take)

section \<open>A packet is written\<close>

lemma part_at_same:
  assumes "part_at N P p o1" and "of_prefix N P" and "p + 4 + N \<le> q" and "take q o2 = take q o1" and "length o2 = length o1"
    and "q \<le> length o1"
  shows "part_at N P p o2"
proof -
  have t: "take N (drop (p + 4) o2) = take N (drop (p + 4) o1)"
    by (rule take_same_at [OF assms(4)]) (use assms(3) in simp)
  have "P (drop (p + 4) o2)"
    by (rule of_prefixD [OF assms(2) _ _ _ t]) (use assms(1,3,5,6) in \<open>simp_all add: part_at_def\<close>)
  then show ?thesis
    using assms(1,3) bytes_at_same [OF assms(4,5), of p] by (simp add: part_at_def)
qed

text \<open>The parts before the bytes\<close>

definition three_written :: "iid_manager \<Rightarrow> nat \<Rightarrow> (bytes \<Rightarrow> bool) \<Rightarrow> nat \<Rightarrow> (bytes \<Rightarrow> bool) \<Rightarrow> 32 word \<Rightarrow> bytes \<Rightarrow> packet \<Rightarrow>
    packet_world \<Rightarrow> bytes \<Rightarrow> bool" where
  "three_written r A P B Q maxSize out pkt w o3 \<longleftrightarrow> packet_serialize r maxSize out pkt w =
      put_part maxSize (buf_serialized_size (pk_buffer pkt)) (\<lambda>n o'. buf_serialize n o' (pk_buffer pkt) (pw_buf w))
        (4 + 4 + A + 4 + B + 4 + 8) (of_nat (4 + A + B + 8)) o3 (\<lambda>_ _ out. Inr (1, out)) \<and> length o3 = length out \<and>
    bytes_at o3 0 (le_bytes 4 (4 :: 32 word)) \<and> part_at A P 4 o3 \<and> part_at B Q (4 + 4 + A) o3 \<and>
    part_at 8 (uid_part (pk_uid pkt)) (4 + 4 + A + 4 + B) o3"

lemma packet_serialize_three:
  assumes "bt_serialized_size (pk_byteTags pkt) (pw_byte w) = Inr (of_nat A)" and "4 dvd A" and "A < 2 ^ 30" and "of_prefix A P"
    and "part_written A (\<lambda>n o'. bt_serialize r n o' (pk_byteTags pkt) (pw_byte w)) P"
    and "tags_serialized_size (pk_tags pkt, pw_tag w) = Inr (of_nat B)" and "4 dvd B" and "B < 2 ^ 30" and "of_prefix B Q"
    and "part_written B (\<lambda>n o'. tags_serialize r n o' (pk_tags pkt, pw_tag w)) Q"
    and "12 + A + B \<le> unat maxSize" and "24 + A + B \<le> length out"
  shows "\<exists>o3. three_written r A P B Q maxSize out pkt w o3"
proof -
  let ?o0 = "splice 0 (le_bytes 4 (4 :: 32 word)) out"
  have o0: "word_out 0 4 out = Inr ?o0" "length ?o0 = length out" "bytes_at ?o0 0 (le_bytes 4 (4 :: 32 word))"
    using assms(12) bytes_at_splice [of 0 "le_bytes 4 (4 :: 32 word)" out] by (simp_all add: word_out_def splice_length)
  have "(of_nat 4 :: 32 word) \<le> maxSize"
    using assms(11) by (intro nat32_le) simp_all
  then have four: "4 \<le> maxSize"
    by simp
  have room: "4 + A \<le> unat maxSize" "4 + 4 + A \<le> length ?o0"
    using assms(11,12) o0(2) by simp_all
  from put_part_ok [OF assms(5) room assms(3,2)] obtain o1 where
    o1: "\<And>k. put_part maxSize (of_nat A) (\<lambda>n o'. bt_serialize r n o' (pk_byteTags pkt) (pw_byte w)) 4 (of_nat 4) ?o0 k =
      k (4 + 4 + A) (of_nat (4 + A)) o1" "length o1 = length out" "take 4 o1 = take 4 ?o0" "part_at A P 4 o1"
    using o0(2) by auto
  have room: "4 + A + B \<le> unat maxSize" "4 + 4 + A + 4 + B \<le> length o1"
    using assms(11,12) o1(2) by simp_all
  from put_part_ok [OF assms(10) room assms(8,7)] obtain o2 where
    o2: "\<And>k. put_part maxSize (of_nat B) (\<lambda>n o'. tags_serialize r n o' (pk_tags pkt, pw_tag w)) (4 + 4 + A) (of_nat (4 + A)) o1 k =
      k (4 + 4 + A + 4 + B) (of_nat (4 + A + B)) o2" "length o2 = length out" "take (4 + 4 + A) o2 = take (4 + 4 + A) o1"
    "part_at B Q (4 + 4 + A) o2"
    using o1(2) by auto
  have room: "4 + A + B + 8 \<le> unat maxSize" "4 + 4 + A + 4 + B + 4 + 8 \<le> length o2"
    using assms(11,12) o2(2) by simp_all
  obtain o3 where
    o3: "\<And>k. put_part maxSize (of_nat 8) (meta_serialize (pk_uid pkt)) (4 + 4 + A + 4 + B) (of_nat (4 + A + B)) o2 k =
      k (4 + 4 + A + 4 + B + 4 + 8) (of_nat (4 + A + B + 8)) o3" "length o3 = length out"
    "take (4 + 4 + A + 4 + B) o3 = take (4 + 4 + A + 4 + B) o2" "part_at 8 (uid_part (pk_uid pkt)) (4 + 4 + A + 4 + B) o3"
    using put_part_ok [OF meta_serialize_ok room] o2(2) by auto
  have "packet_serialize r maxSize out pkt w =
      put_part maxSize (buf_serialized_size (pk_buffer pkt)) (\<lambda>n o'. buf_serialize n o' (pk_buffer pkt) (pw_buf w))
        (4 + 4 + A + 4 + B + 4 + 8) (of_nat (4 + A + B + 8)) o3 (\<lambda>_ _ out. Inr (1, out))"
    using four o0(1) assms(1,6) o1(1) o2(1) o3(1) by (simp add: packet_serialize_def packet_serialize_parts_def meta_serialized_size_def)
  moreover have k: "part_at N S p o3" if "part_at N S p o'" "of_prefix N S" "p + 4 + N \<le> q" "take q o3 = take q o'"
      "length o' = length out" "q \<le> length out" for N S p o' q
    by (rule part_at_same [OF that(1-4)]) (use that(5,6) o3(2) in simp_all)
  have "take (4 + 4 + A) o3 = take (4 + 4 + A) o2"
    by (rule take_mono [OF _ o3(3)]) simp
  then have t1: "take (4 + 4 + A) o3 = take (4 + 4 + A) o1"
    using o2(3) by simp
  have "take 4 o3 = take 4 o1"
    by (rule take_mono [OF _ t1]) simp
  then have "take 4 o3 = take 4 ?o0"
    using o1(3) by simp
  then have "bytes_at o3 0 (le_bytes 4 (4 :: 32 word))"
    using bytes_at_same [of 4 o3 ?o0 0] o0(2,3) o3(2) by simp
  moreover have "part_at A P 4 o3"
    by (rule k [OF o1(4) assms(4) _ t1 o1(2)]) (use assms(12) in simp_all)
  moreover have "part_at B Q (4 + 4 + A) o3"
    by (rule k [OF o2(4) assms(9) _ o3(3) o2(2)]) (use assms(12) in simp_all)
  ultimately show ?thesis
    using o3(2,4) unfolding three_written_def by blast
qed

lemma packet_serialize_ok:
  assumes "three_written r A P B Q maxSize out pkt w o3" and "of_prefix A P" and "of_prefix B Q"
    and "buf_serialized_size (pk_buffer pkt) = of_nat C" and "4 dvd C" and "C < 2 ^ 30"
    and "part_written C (\<lambda>n o'. buf_serialize n o' (pk_buffer pkt) (pw_buf w)) R"
    and "12 + A + B + C \<le> unat maxSize" and "28 + A + B + C \<le> length out"
  shows "\<exists>out'. packet_serialize r maxSize out pkt w = Inr (1, out') \<and> length out' = length out \<and>
    bytes_at out' 0 (le_bytes 4 (4 :: 32 word)) \<and> part_at A P 4 out' \<and> part_at B Q (4 + 4 + A) out' \<and>
    part_at 8 (uid_part (pk_uid pkt)) (4 + 4 + A + 4 + B) out' \<and> part_at C R (4 + 4 + A + 4 + B + 4 + 8) out'"
proof -
  note o3 = assms(1) [unfolded three_written_def]
  let ?p = "4 + 4 + A + 4 + B + 4 + 8"
  have room: "4 + A + B + 8 + C \<le> unat maxSize" "?p + 4 + C \<le> length o3"
    using o3 assms(8,9) by simp_all
  from put_part_ok [OF assms(7) room assms(6,5)] obtain o4 where
    o4: "packet_serialize r maxSize out pkt w = Inr (1, o4)" "length o4 = length out" "take ?p o4 = take ?p o3" "part_at C R ?p o4"
    using o3 unfolding assms(4) by auto
  have k: "part_at N S p o4" if "part_at N S p o3" "of_prefix N S" "p + 4 + N \<le> ?p" for N S p
    by (rule part_at_same [OF that o4(3)]) (use o3 assms(9) o4(2) in simp_all)
  have "bytes_at o4 0 (le_bytes 4 (4 :: 32 word))"
    using bytes_at_same [OF o4(3), of 0] o3 o4(2) by simp
  moreover have "part_at A P 4 o4" "part_at B Q (4 + 4 + A) o4" "part_at 8 (uid_part (pk_uid pkt)) (4 + 4 + A + 4 + B) o4"
    using k [of A P 4] k [of B Q] k [OF _ uid_part_prefix] o3 assms(2,3) by simp_all
  ultimately show ?thesis
    using o4(1,2,4) by blast
qed

section \<open>A packet is read\<close>

lemma packet_deserialize_ok:
  assumes "bytes_at inp 0 (le_bytes 4 (4 :: 32 word))" and "part_at A P 4 inp" and "part_at B Q (4 + 4 + A) inp"
    and "part_at 8 (uid_part uid) (4 + 4 + A + 4 + B) inp" and "part_at C R (4 + 4 + A + 4 + B + 4 + 8) inp"
    and "4 dvd A" and "A < 2 ^ 30" and "4 dvd B" and "B < 2 ^ 30" and "4 dvd C" and "C < 2 ^ 30"
    and "bt_deserialize r (drop (4 + 4) inp) (of_nat A + 4) bt_empty (pw_byte w) = Inr (1, l, y)"
    and "tags_deserialize r (drop (4 + 4 + A + 4) inp) (of_nat B + 4) (None, pw_tag w) = Inr (1, m, t)"
    and "buf_deserialize (drop (4 + 4 + A + 4 + B + 4 + 8 + 4) inp) (of_nat C + 4) (pw_buf w) = Inr (1, b, u)"
  shows "packet_deserialize r inp (of_nat (28 + A + B + C)) w =
    Inr (1, Some \<lparr>pk_buffer = b, pk_byteTags = l, pk_tags = m, pk_uid = uid\<rparr>, w\<lparr>pw_byte := y, pw_tag := t, pw_buf := u\<rparr>)"
proof -
  let ?p1 = "4 + 4 + A" and ?p2 = "4 + 4 + A + 4 + B" and ?p3 = "4 + 4 + A + 4 + B + 4 + 8"
  let ?w1 = "w\<lparr>pw_byte := y\<rparr>" and ?w2 = "w\<lparr>pw_byte := y, pw_tag := t\<rparr>"
  let ?S = "24 + A + B + C"
  have uid: "uid_part uid (drop (?p2 + 4) inp)"
    using assms(4) by (simp add: part_at_def)
  have a: "take_part inp 4 (of_nat ?S)
      (\<lambda>i n. res_map (\<lambda>(d, l, v). (d, l, w\<lparr>pw_byte := v\<rparr>)) (bt_deserialize r i n bt_empty (pw_byte w))) k =
      k 1 (l, ?w1) ?p1 (of_nat (?S - (A + 4)))" for k
    by (rule take_part_ok [OF assms(2) _ assms(7,6)]) (use assms(7,9,11,12) in simp_all)
  have b: "take_part inp ?p1 (of_nat (?S - (A + 4)))
      (\<lambda>i n. res_map (\<lambda>(d, m, v). (d, m, ?w1\<lparr>pw_tag := v\<rparr>)) (tags_deserialize r i n (None, pw_tag ?w1))) k =
      k 1 (m, ?w2) ?p2 (of_nat (?S - (A + 4) - (B + 4)))" for k
    by (rule take_part_ok [OF assms(3) _ assms(9,8)]) (use assms(7,9,11,13) in simp_all)
  have c: "take_part inp ?p2 (of_nat (?S - (A + 4) - (B + 4))) meta_deserialize k =
      k 1 uid ?p3 (of_nat (?S - (A + 4) - (B + 4) - (8 + 4)))" for k
    by (rule take_part_ok [where f = meta_deserialize, OF assms(4) meta_deserialize_ok [OF uid]]) (use assms(7,9,11) in simp_all)
  have d: "take_part inp ?p3 (of_nat (?S - (A + 4) - (B + 4) - (8 + 4)))
      (\<lambda>i n. res_map (\<lambda>(d, b, v). (d, b, ?w2\<lparr>pw_buf := v\<rparr>)) (buf_deserialize i n (pw_buf ?w2))) k =
      k 1 (b, ?w2\<lparr>pw_buf := u\<rparr>) (?p3 + 4 + C) (of_nat (?S - (A + 4) - (B + 4) - (8 + 4) - (C + 4)))" for k
    by (rule take_part_ok [OF assms(5) _ assms(11,10)]) (use assms(7,9,11,14) in simp_all)
  have "?S - (A + 4) - (B + 4) - (8 + 4) - (C + 4) = 0"
    by simp
  then have "packet_deserialize_parts r inp 4 (of_nat ?S) w =
      Inr (1, Some \<lparr>pk_buffer = b, pk_byteTags = l, pk_tags = m, pk_uid = uid\<rparr>, ?w2\<lparr>pw_buf := u\<rparr>)"
    unfolding packet_deserialize_parts_def a prod.case by (simp only: b c d prod.case) simp
  moreover have "word_in 0 inp = Inr 4"
    using assms(1) by (simp add: word_in_def bytes_at_def le_word_le_bytes)
  moreover have "(of_nat 4 :: 32 word) \<le> of_nat (28 + A + B + C)"
    using assms(7,9,11) by (intro nat32_mono) simp_all
  then have "(4 :: 32 word) \<le> of_nat (28 + A + B + C)"
    by (simp only: of_nat_numeral)
  moreover have "(of_nat (28 + A + B + C) :: 32 word) - 4 = of_nat ?S"
    by simp
  ultimately show ?thesis
    unfolding packet_deserialize_def by (simp only: res_bind_simps ns_assert_simps) simp
qed

end
