(* ===== verification/Packet_Sessions.thy ===== *)
theory Packet_Sessions
  imports Byte_Tags_Values Packet_Tags_Sessions Buffer_Reading
begin

text \<open>
  Any number of packets in one world. A packet stands for a list of bytes, each with its tags, and the tags of the packet;
  every operation acts on these values as its name says, whatever memory the packets share.
\<close>

section \<open>Values\<close>

type_synonym tagged_bytes = "(8 word \<times> tag_list) list"

record packet_value =
  pv_bytes :: tagged_bytes
  pv_tags :: tag_values
  pv_uid :: "64 word"
  pv_load :: nat

text \<open>Bytes without tags, and a tag for a range of bytes.\<close>

definition plain :: "bytes \<Rightarrow> tagged_bytes" where
  "plain bs = map (\<lambda>b. (b, [])) bs"

definition tag_bytes_in :: "int \<Rightarrow> int \<Rightarrow> tag \<Rightarrow> tagged_bytes \<Rightarrow> tagged_bytes" where
  "tag_bytes_in s e t bs = zip (map fst bs) (mark_range s e (tag_tid t, tag_bytes t) (map snd bs))"

lemma plain_simps [simp]: "map fst (plain bs) = bs" "map snd (plain bs) = replicate (length bs) []" "length (plain bs) = length bs"
  by (simp_all add: plain_def comp_def map_replicate_const)

lemma length_mark_range [simp]: "length (mark_range s e x ts) = length ts"
  by (simp add: mark_range_def)

lemma tag_bytes_in_simps [simp]:
  "map fst (tag_bytes_in s e t bs) = map fst bs"
  "map snd (tag_bytes_in s e t bs) = mark_range s e (tag_tid t, tag_bytes t) (map snd bs)"
  by (simp_all add: tag_bytes_in_def)

section \<open>Sessions\<close>

datatype packet_op =
    Pk_create "32 word"
  | Pk_create_bytes bytes
  | Pk_copy nat
  | Pk_assign nat nat
  | Pk_destroy nat
  | Pk_fragment nat "32 word" "32 word"
  | Pk_add_header nat chunk
  | Pk_remove_header nat chunk_reader
  | Pk_add_trailer nat chunk
  | Pk_remove_trailer nat chunk_reader
  | Pk_remove_start nat "32 word"
  | Pk_remove_end nat "32 word"
  | Pk_data nat "32 word"
  | Pk_add_byte_tag nat tag
  | Pk_add_byte_tag_range nat tag "32 word" "32 word"
  | Pk_byte_tags nat
  | Pk_clear_byte_tags nat
  | Pk_add_tag nat tag
  | Pk_remove_tag nat "16 word"
  | Pk_replace_tag nat tag
  | Pk_peek_tag nat "16 word"
  | Pk_clear_tags nat

text \<open>What an operation returns; the items of the byte tags are given as the tags of each byte.\<close>

datatype packet_answer =
    Took "32 word"
  | Seen "tag_list list"
  | Found bool "bytes option"
  | Data bytes

type_synonym packet_state = "packet list \<times> packet_world"

fun packet_do :: "packet_op \<Rightarrow> packet_state \<Rightarrow> (packet_answer list \<times> packet_state) result" where
  "packet_do (Pk_create n) (ps, w) = res_map (\<lambda>(p, w). ([], ps @ [p], w)) (packet_create n w)"
| "packet_do (Pk_create_bytes bs) (ps, w) = res_map (\<lambda>(p, w). ([], ps @ [p], w)) (packet_create_bytes bs w)"
| "packet_do (Pk_copy i) (ps, w) = res_map (\<lambda>(p, w). ([], ps @ [p], w)) (packet_copy (ps ! i) w)"
| "packet_do (Pk_assign i j) (ps, w) =
     (if i = j then Inr ([], ps, w) else res_map (\<lambda>(p, w). ([], ps[i := p], w)) (packet_assign (ps ! i) (ps ! j) w))"
| "packet_do (Pk_destroy i) (ps, w) = res_map (\<lambda>w. ([], drop_at i ps, w)) (packet_destroy (ps ! i) w)"
| "packet_do (Pk_fragment i s n) (ps, w) = res_map (\<lambda>(p, w). ([], ps @ [p], w)) (packet_fragment s n (ps ! i) w)"
| "packet_do (Pk_add_header i h) (ps, w) = res_map (\<lambda>(p, w). ([], ps[i := p], w)) (packet_add_header h (ps ! i) w)"
| "packet_do (Pk_remove_header i f) (ps, w) =
     res_map (\<lambda>(n, p). ([Took n], ps[i := p], w)) (packet_remove_header f (ps ! i) w)"
| "packet_do (Pk_add_trailer i t) (ps, w) = res_map (\<lambda>(p, w). ([], ps[i := p], w)) (packet_add_trailer t (ps ! i) w)"
| "packet_do (Pk_remove_trailer i f) (ps, w) =
     res_map (\<lambda>(n, p). ([Took n], ps[i := p], w)) (packet_remove_trailer f (ps ! i) w)"
| "packet_do (Pk_remove_start i n) (ps, w) = res_map (\<lambda>p. ([], ps[i := p], w)) (packet_remove_start n (ps ! i))"
| "packet_do (Pk_remove_end i n) (ps, w) = Inr ([], ps[i := packet_remove_end n (ps ! i)], w)"
| "packet_do (Pk_data i n) (ps, w) = res_map (\<lambda>(k, bs). ([Took k, Data bs], ps, w)) (packet_copy_data n (ps ! i) w)"
| "packet_do (Pk_add_byte_tag i t) (ps, w) = res_map (\<lambda>(p, w). ([], ps[i := p], w)) (packet_add_byte_tag t (ps ! i) w)"
| "packet_do (Pk_add_byte_tag_range i t s e) (ps, w) =
     res_map (\<lambda>(p, w). ([], ps[i := p], w)) (packet_add_byte_tag_range t s e (ps ! i) w)"
| "packet_do (Pk_byte_tags i) (ps, w) =
     res_map (\<lambda>items. ([Seen (map (covering items) [0..<unat (packet_size (ps ! i))])], ps, w))
       (packet_byte_tag_items (ps ! i) w)"
| "packet_do (Pk_clear_byte_tags i) (ps, w) =
     res_map (\<lambda>(p, w). ([], ps[i := p], w)) (packet_remove_all_byte_tags (ps ! i) w)"
| "packet_do (Pk_add_tag i t) (ps, w) = res_map (\<lambda>(p, w). ([], ps[i := p], w)) (packet_add_tag t (ps ! i) w)"
| "packet_do (Pk_remove_tag i tid) (ps, w) =
     res_map (\<lambda>((found, bs), p, w). ([Found found bs], ps[i := p], w)) (packet_remove_tag tid (ps ! i) w)"
| "packet_do (Pk_replace_tag i t) (ps, w) =
     res_map (\<lambda>(found, p, w). ([Found found None], ps[i := p], w)) (packet_replace_tag t (ps ! i) w)"
| "packet_do (Pk_peek_tag i tid) (ps, w) =
     res_map (\<lambda>bs. ([Found (bs \<noteq> None) bs], ps, w)) (packet_peek_tag tid (ps ! i) w)"
| "packet_do (Pk_clear_tags i) (ps, w) = res_map (\<lambda>(p, w). ([], ps[i := p], w)) (packet_remove_all_tags (ps ! i) w)"

fun packet_run :: "packet_op list \<Rightarrow> packet_state \<Rightarrow> (packet_answer list \<times> packet_state) result" where
  "packet_run [] s = Inr ([], s)"
| "packet_run (x # xs) s =
     res_bind (packet_do x s) (\<lambda>(out, s). res_map (\<lambda>(out', s). (out @ out', s)) (packet_run xs s))"

text \<open>The same on values, with the number of the packets that were created, modulo \<open>2 ^ 32\<close>.\<close>

type_synonym packet_values = "packet_value list \<times> 32 word"

definition new_packet :: "bytes \<Rightarrow> 32 word \<Rightarrow> 32 word \<Rightarrow> packet_value" where
  "new_packet bs sys k =
     \<lparr>pv_bytes = plain bs, pv_tags = [], pv_uid = push_bit 32 (ucast sys) OR ucast k, pv_load = 0\<rparr>"

definition change_bytes :: "(tagged_bytes \<Rightarrow> tagged_bytes) \<Rightarrow> nat \<Rightarrow> packet_value \<Rightarrow> packet_value" where
  "change_bytes f n v = v\<lparr>pv_bytes := f (pv_bytes v), pv_load := pv_load v + n\<rparr>"

definition take_end :: "nat \<Rightarrow> 'a list \<Rightarrow> 'a list" where
  "take_end n xs = take (length xs - n) xs"

definition change_tags :: "(tag_values \<Rightarrow> tag_values) \<Rightarrow> packet_value \<Rightarrow> packet_value" where
  "change_tags f v = v\<lparr>pv_tags := f (pv_tags v)\<rparr>"

definition update_at :: "nat \<Rightarrow> ('a \<Rightarrow> 'a) \<Rightarrow> 'a list \<Rightarrow> 'a list" where
  "update_at i f xs = xs[i := f (xs ! i)]"

definition tag_load :: "tag \<Rightarrow> nat" where
  "tag_load t = 16 + length (tag_bytes t)"

definition data_of :: "packet_value \<Rightarrow> bytes" where
  "data_of v = map fst (pv_bytes v)"

fun value_do :: "32 word \<Rightarrow> packet_op \<Rightarrow> packet_values \<Rightarrow> packet_answer list \<times> packet_values" where
  "value_do sys (Pk_create n) (vs, k) = ([], vs @ [new_packet (replicate (unat n) 0) sys k], k + 1)"
| "value_do sys (Pk_create_bytes bs) (vs, k) = ([], vs @ [new_packet bs sys k], k + 1)"
| "value_do sys (Pk_copy i) (vs, k) = ([], vs @ [vs ! i], k)"
| "value_do sys (Pk_assign i j) (vs, k) = ([], vs[i := vs ! j], k)"
| "value_do sys (Pk_destroy i) (vs, k) = ([], drop_at i vs, k)"
| "value_do sys (Pk_fragment i s n) (vs, k) =
     ([], vs @ [change_bytes (\<lambda>bs. take (unat n) (drop (unat s) bs)) (unat s) (vs ! i)], k)"
| "value_do sys (Pk_add_header i h) (vs, k) =
     ([], update_at i (change_bytes (append (plain (ck_bytes h))) (length (ck_bytes h))) vs, k)"
| "value_do sys (Pk_remove_header i f) (vs, k) =
     (let n = f (data_of (vs ! i)) in ([Took n], update_at i (change_bytes (drop (unat n)) (unat n)) vs, k))"
| "value_do sys (Pk_add_trailer i t) (vs, k) = ([], update_at i (change_bytes (\<lambda>bs. bs @ plain (ck_bytes t)) 0) vs, k)"
| "value_do sys (Pk_remove_trailer i f) (vs, k) =
     (let n = f (data_of (vs ! i)) in ([Took n], update_at i (change_bytes (take_end (unat n)) 0) vs, k))"
| "value_do sys (Pk_remove_start i n) (vs, k) = ([], update_at i (change_bytes (drop (unat n)) (unat n)) vs, k)"
| "value_do sys (Pk_remove_end i n) (vs, k) = ([], update_at i (change_bytes (take_end (unat n)) 0) vs, k)"
| "value_do sys (Pk_data i n) (vs, k) =
     (let bs = take (unat n) (data_of (vs ! i)) in ([Took (of_nat (length bs)), Data bs], vs, k))"
| "value_do sys (Pk_add_byte_tag i t) (vs, k) =
     ([], update_at i (change_bytes (map (\<lambda>(b, ts). (b, ts @ [(tag_tid t, tag_bytes t)]))) (tag_load t)) vs, k)"
| "value_do sys (Pk_add_byte_tag_range i t s e) (vs, k) =
     ([], update_at i (change_bytes (tag_bytes_in (int (unat s)) (int (unat e)) t) (tag_load t)) vs, k)"
| "value_do sys (Pk_byte_tags i) (vs, k) = ([Seen (map snd (pv_bytes (vs ! i)))], vs, k)"
| "value_do sys (Pk_clear_byte_tags i) (vs, k) = ([], update_at i (\<lambda>v. v\<lparr>pv_bytes := plain (data_of v), pv_load := 0\<rparr>) vs, k)"
| "value_do sys (Pk_add_tag i t) (vs, k) = ([], update_at i (change_tags (Cons (tag_tid t, tag_bytes t))) vs, k)"
| "value_do sys (Pk_remove_tag i tid) (vs, k) =
     ([Found (tid \<in> fst ` set (pv_tags (vs ! i))) (map_of (pv_tags (vs ! i)) tid)], update_at i (change_tags (without_tag tid)) vs, k)"
| "value_do sys (Pk_replace_tag i t) (vs, k) =
     ([Found (tag_tid t \<in> fst ` set (pv_tags (vs ! i))) None], update_at i (change_tags (replaced_tag t)) vs, k)"
| "value_do sys (Pk_peek_tag i tid) (vs, k) =
     ([Found (tid \<in> fst ` set (pv_tags (vs ! i))) (map_of (pv_tags (vs ! i)) tid)], vs, k)"
| "value_do sys (Pk_clear_tags i) (vs, k) = ([], update_at i (change_tags (\<lambda>_. [])) vs, k)"

fun value_run :: "32 word \<Rightarrow> packet_op list \<Rightarrow> packet_values \<Rightarrow> packet_answer list \<times> packet_values" where
  "value_run sys [] s = ([], s)"
| "value_run sys (x # xs) s =
     (let (out, s) = value_do sys x s; (out', s) = value_run sys xs s in (out @ out', s))"

text \<open>Existing packets, sizes and loads below \<open>2 ^ 29\<close>, and headers, trailers and tags that write what they announce.\<close>

definition small :: "nat \<Rightarrow> bool" where
  "small n \<longleftrightarrow> n < 2 ^ 29"

definition chunk_ok :: "chunk \<Rightarrow> bool" where
  "chunk_ok c \<longleftrightarrow> unat (ck_size c) = length (ck_bytes c)"

definition size_of :: "packet_value \<Rightarrow> nat" where
  "size_of v = length (pv_bytes v)"

fun packet_op_ok :: "packet_op \<Rightarrow> packet_value list \<Rightarrow> bool" where
  "packet_op_ok (Pk_create n) vs \<longleftrightarrow> small (unat n)"
| "packet_op_ok (Pk_create_bytes bs) vs \<longleftrightarrow> small (length bs)"
| "packet_op_ok (Pk_copy i) vs \<longleftrightarrow> i < length vs"
| "packet_op_ok (Pk_assign i j) vs \<longleftrightarrow> i < length vs \<and> j < length vs"
| "packet_op_ok (Pk_destroy i) vs \<longleftrightarrow> i < length vs"
| "packet_op_ok (Pk_fragment i s n) vs \<longleftrightarrow>
     i < length vs \<and> unat s + unat n \<le> size_of (vs ! i) \<and> small (pv_load (vs ! i) + unat s)"
| "packet_op_ok (Pk_add_header i h) vs \<longleftrightarrow> i < length vs \<and> chunk_ok h \<and>
     small (size_of (vs ! i) + length (ck_bytes h)) \<and> small (pv_load (vs ! i) + length (ck_bytes h))"
| "packet_op_ok (Pk_remove_header i f) vs \<longleftrightarrow> i < length vs \<and> small (pv_load (vs ! i) + unat (f (data_of (vs ! i))))"
| "packet_op_ok (Pk_add_trailer i t) vs \<longleftrightarrow> i < length vs \<and> chunk_ok t \<and> small (size_of (vs ! i) + length (ck_bytes t))"
| "packet_op_ok (Pk_remove_trailer i f) vs \<longleftrightarrow> i < length vs"
| "packet_op_ok (Pk_remove_start i n) vs \<longleftrightarrow> i < length vs \<and> small (pv_load (vs ! i) + unat n)"
| "packet_op_ok (Pk_remove_end i n) vs \<longleftrightarrow> i < length vs"
| "packet_op_ok (Pk_data i n) vs \<longleftrightarrow> i < length vs"
| "packet_op_ok (Pk_add_byte_tag i t) vs \<longleftrightarrow> i < length vs \<and> tag_ok t \<and> small (pv_load (vs ! i) + tag_load t)"
| "packet_op_ok (Pk_add_byte_tag_range i t s e) vs \<longleftrightarrow>
     i < length vs \<and> tag_ok t \<and> small (pv_load (vs ! i) + tag_load t) \<and> s \<le> e \<and> small (unat e)"
| "packet_op_ok (Pk_byte_tags i) vs \<longleftrightarrow> i < length vs"
| "packet_op_ok (Pk_clear_byte_tags i) vs \<longleftrightarrow> i < length vs"
| "packet_op_ok (Pk_add_tag i t) vs \<longleftrightarrow> i < length vs \<and> tag_fits t"
| "packet_op_ok (Pk_remove_tag i tid) vs \<longleftrightarrow> i < length vs"
| "packet_op_ok (Pk_replace_tag i t) vs \<longleftrightarrow> i < length vs \<and> tag_fits t \<and>
     (\<forall>x \<in> set (pv_tags (vs ! i)). fst x = tag_tid t \<longrightarrow> length (snd x) = length (tag_bytes t))"
| "packet_op_ok (Pk_peek_tag i tid) vs \<longleftrightarrow> i < length vs"
| "packet_op_ok (Pk_clear_tags i) vs \<longleftrightarrow> i < length vs"

text \<open>The reference counts have room.\<close>

definition packets_room :: "packet_value list \<Rightarrow> bool" where
  "packets_room vs \<longleftrightarrow> length vs + 2 * sum_list (map (\<lambda>v. length (pv_tags v)) vs) < 2 ^ 32 - 8"

fun packet_ops_ok :: "32 word \<Rightarrow> packet_op list \<Rightarrow> packet_values \<Rightarrow> bool" where
  "packet_ops_ok sys [] s \<longleftrightarrow> True"
| "packet_ops_ok sys (x # xs) s \<longleftrightarrow>
     packet_op_ok x (fst s) \<and> packets_room (fst s) \<and> packet_ops_ok sys xs (snd (value_do sys x s))"

end
