(* ===== verification/Packet_Steps.thy ===== *)
theory Packet_Steps
  imports Packet_Sessions
begin

unbundle bit_operations_syntax

text \<open>
  The operations of packets, one by one: each acts on the buffer, the byte tags and the packet tags as its value
  says and leaves the other packets alone.
\<close>

definition byte_of :: "packet_value \<Rightarrow> byte_value" where
  "byte_of v = (pv_load v, map snd (pv_bytes v))"

abbreviation byte_stored :: "byte_tags list \<times> byte_world \<Rightarrow> byte_value list \<Rightarrow> bool" where
  "byte_stored \<equiv> stored byte_ok byte_holds"

definition packets_ok :: "32 word \<Rightarrow> packet_state \<Rightarrow> packet_values \<Rightarrow> bool" where
  "packets_ok sys s S \<longleftrightarrow> (case (s, S) of ((ps, w), (vs, k)) \<Rightarrow>
     pw_systemId w = sys \<and> pw_uid w = k \<and> map pk_uid ps = map pv_uid vs \<and>
     store_ok (map pk_buffer ps, pw_buf w) (map data_of vs) \<and> byte_stored (map pk_byteTags ps, pw_byte w) (map byte_of vs) \<and>
     lists_ok (map pk_tags ps, pw_tag w) (map pv_tags vs))"

lemma packets_okD:
  assumes "packets_ok sys (ps, w) (vs, k)"
  shows "store_ok (map pk_buffer ps, pw_buf w) (map data_of vs)"
    and "byte_stored (map pk_byteTags ps, pw_byte w) (map byte_of vs)"
    and "lists_ok (map pk_tags ps, pw_tag w) (map pv_tags vs)" and "length ps = length vs"
    and "pw_systemId w = sys" and "pw_uid w = k" and "map pk_uid ps = map pv_uid vs"
  using assms by (auto simp: packets_ok_def dest: map_eq_imp_length_eq)

section \<open>Changes of the list\<close>

lemma packets_set:
  assumes "packets_ok sys (ps, w) (vs, k)" and "i < length vs"
    and "store_ok ((map pk_buffer ps)[i := pk_buffer p], pw_buf w') ((map data_of vs)[i := data_of v])"
    and "byte_stored ((map pk_byteTags ps)[i := pk_byteTags p], pw_byte w') ((map byte_of vs)[i := byte_of v])"
    and "lists_ok ((map pk_tags ps)[i := pk_tags p], pw_tag w') ((map pv_tags vs)[i := pv_tags v])"
    and "pk_uid p = pv_uid v" and "pw_systemId w' = sys" and "pw_uid w' = k"
  shows "packets_ok sys (ps[i := p], w') (vs[i := v], k)"
  using assms(3-8) packets_okD(7) [OF assms(1)] by (simp add: packets_ok_def map_update)

lemma packets_add:
  assumes "packets_ok sys (ps, w) (vs, k)"
    and "store_ok (map pk_buffer ps @ [pk_buffer p], pw_buf w') (map data_of vs @ [data_of v])"
    and "byte_stored (map pk_byteTags ps @ [pk_byteTags p], pw_byte w') (map byte_of vs @ [byte_of v])"
    and "lists_ok (map pk_tags ps @ [pk_tags p], pw_tag w') (map pv_tags vs @ [pv_tags v])"
    and "pk_uid p = pv_uid v" and "pw_systemId w' = sys" and "pw_uid w' = k'"
  shows "packets_ok sys (ps @ [p], w') (vs @ [v], k')"
  using assms(2-7) packets_okD(7) [OF assms(1)] by (simp add: packets_ok_def)

lemma packets_drop:
  assumes "packets_ok sys (ps, w) (vs, k)"
    and "store_ok (drop_at i (map pk_buffer ps), pw_buf w') (drop_at i (map data_of vs))"
    and "byte_stored (drop_at i (map pk_byteTags ps), pw_byte w') (drop_at i (map byte_of vs))"
    and "lists_ok (drop_at i (map pk_tags ps), pw_tag w') (drop_at i (map pv_tags vs))"
    and "pw_systemId w' = sys" and "pw_uid w' = k"
  shows "packets_ok sys (drop_at i ps, w') (drop_at i vs, k)"
  using assms(2-6) packets_okD(7) [OF assms(1)] by (simp add: packets_ok_def map_drop_at)

text \<open>The parts that an operation does not touch.\<close>

lemma map_same_at: "i < length xs \<Longrightarrow> (map f xs)[i := f (xs ! i)] = map f xs"
  by (simp flip: map_update)

lemma byte_at:
  assumes "packets_ok sys (ps, w) (vs, k)" and "i < length vs"
  shows "byte_ok (pw_byte w) (add_mset (pk_byteTags (ps ! i)) (mset (drop_at i (map pk_byteTags ps))))"
    and "byte_holds (pw_byte w) (pk_byteTags (ps ! i)) (pv_load (vs ! i), map snd (pv_bytes (vs ! i)))"
    and "pk_byteTags (ps ! i) \<in># mset (map pk_byteTags ps)" and "byte_ok (pw_byte w) (mset (map pk_byteTags ps))"
    and "size (mset (drop_at i (map pk_byteTags ps))) < length vs"
  using byte_lists.stored_at [OF packets_okD(2) [OF assms(1)], of i] assms(2) packets_okD(4) [OF assms(1)]
  by (simp_all add: byte_of_def drop_at_length)

lemma byte_set:
  assumes "packets_ok sys (ps, w) (vs, k)" and "i < length vs"
    and "byte_becomes (mset (drop_at i (map pk_byteTags ps))) (pw_byte w) v (l, w')"
  shows "byte_stored ((map pk_byteTags ps)[i := l], w') ((map byte_of vs)[i := v])"
  using byte_lists.stored_set [OF packets_okD(2) [OF assms(1)], of i] assms(2,3) packets_okD(4) [OF assms(1)]
  by (simp add: byte_becomes_def)

lemma byte_add:
  assumes "packets_ok sys (ps, w) (vs, k)" and "byte_becomes (mset (map pk_byteTags ps)) (pw_byte w) v (l, w')"
  shows "byte_stored (map pk_byteTags ps @ [l], w') (map byte_of vs @ [v])"
  using byte_lists.stored_add [OF packets_okD(2) [OF assms(1)]] assms(2) by (simp add: byte_becomes_def)

lemma sint_nat:
  fixes x :: "32 word"
  assumes "unat x < 2 ^ 31"
  shows "sint x = int (unat x)" and "sint (- x) = - int (unat x)"
proof -
  have lt: "int (unat x) < int (2 ^ 31)"
    using assms by (simp only: of_nat_less_iff)
  have pos: "\<bar>int (unat x)\<bar> < 2 ^ 31"
    using lt by (simp only: abs_of_nat) simp
  have neg: "\<bar>- int (unat x)\<bar> < 2 ^ 31"
    using lt by (simp only: abs_minus_cancel abs_of_nat) simp
  from sint_small [OF _ pos, of _ 0] sint_small [OF _ neg, of _ 0]
  show "sint x = int (unat x)" "sint (- x) = - int (unat x)"
    by simp_all
qed

lemma packet_size_ok:
  assumes "packets_ok sys (ps, w) (vs, k)" and "i < length vs"
  shows "unat (packet_size (ps ! i)) = size_of (vs ! i)" and "size_of (vs ! i) < 2 ^ 29"
    and "sint (packet_size (ps ! i)) = int (size_of (vs ! i))"
    and "packet_read (size_of (vs ! i)) (ps ! i) w = Inr (data_of (vs ! i))"
proof -
  note at = store_ok_at [OF packets_okD(1) [OF assms(1)], of i]
  have b: "pk_buffer (ps ! i) \<in># mset (map pk_buffer ps)" and v: "buf_view (pw_buf w) (pk_buffer (ps ! i)) = data_of (vs ! i)"
    and W: "world_ok (pw_buf w) (mset (map pk_buffer ps))"
    using at assms(2) packets_okD(4) [OF assms(1)] by simp_all
  from world_ok_block [OF W b] obtain d where d: "bw_data (pw_buf w) (b_data (pk_buffer (ps ! i))) = Some d"
    "buf_fits d (pk_buffer (ps ! i))" "block_ok d" "buf_view (pw_buf w) (pk_buffer (ps ! i)) = block_view d (pk_buffer (ps ! i))"
    by blast
  have len: "unat (packet_size (ps ! i)) = length (data_of (vs ! i))"
    using buf_size_nat [OF d(2)] block_view_length [OF d(2,3)] d(4) v by (simp add: packet_size_def)
  then show u: "unat (packet_size (ps ! i)) = size_of (vs ! i)"
    by (simp add: data_of_def size_of_def)
  show lt: "size_of (vs ! i) < 2 ^ 29"
    using byte_at(2) [OF assms] by (simp add: byte_holds_def size_of_def)
  show "sint (packet_size (ps ! i)) = int (size_of (vs ! i))"
    using sint_nat(1) [of "packet_size (ps ! i)"] u lt by simp
  have "size_of (vs ! i) = unat (b_end (pk_buffer (ps ! i))) - unat (b_start (pk_buffer (ps ! i)))"
    using u buf_size_nat [OF d(2)] by (simp add: packet_size_def)
  moreover have "unat (b_start (pk_buffer (ps ! i))) \<le> unat (b_end (pk_buffer (ps ! i)))"
    using d(2) by (simp add: buf_fits_def)
  moreover have "length (data_of (vs ! i)) = size_of (vs ! i)"
    by (simp add: data_of_def size_of_def)
  ultimately show "packet_read (size_of (vs ! i)) (ps ! i) w = Inr (data_of (vs ! i))"
    using it_read_ok [OF d(1-3) order_refl, of "size_of (vs ! i)"] d(4) v by (simp add: packet_read_def it_begin_def)
qed

section \<open>Steps of the parts\<close>

lemma packets_room_parts:
  "packets_room vs \<Longrightarrow> length vs < 2 ^ 32 - 8" "packets_room vs \<Longrightarrow> tags_total (map pv_tags vs) < 2 ^ 32 - 3"
  by (simp_all add: packets_room_def tags_total_def comp_def)

lemma data_of_simps [simp]:
  "data_of (new_packet bs sys k) = bs" "data_of (change_bytes f n v) = map fst (f (pv_bytes v))" "data_of (change_tags g v) = data_of v"
  by (simp_all add: data_of_def new_packet_def change_bytes_def change_tags_def)

lemma byte_of_simps [simp]:
  "byte_of (new_packet bs sys k) = (0, replicate (length bs) [])"
  "byte_of (change_bytes f n v) = (pv_load v + n, map snd (f (pv_bytes v)))" "byte_of (change_tags g v) = byte_of v"
  by (simp_all add: byte_of_def new_packet_def change_bytes_def change_tags_def)

lemma pv_fields [simp]:
  "pv_tags (new_packet bs sys k) = []" "pv_uid (new_packet bs sys k) = push_bit 32 (ucast sys) OR ucast k" "pv_tags (change_bytes f n v) = pv_tags v" "pv_tags (change_tags g v) = g (pv_tags v)"
  "pv_uid (change_bytes f n v) = pv_uid v" "pv_uid (change_tags g v) = pv_uid v"
  by (simp_all add: new_packet_def change_bytes_def change_tags_def)

lemma length_data_of [simp]: "length (data_of v) = size_of v"
  by (simp add: data_of_def size_of_def)

lemma byte_all: "packets_ok sys (ps, w) (vs, k) \<Longrightarrow> byte_ok (pw_byte w) (mset (map pk_byteTags ps))"
  using packets_okD(2) by (auto simp: stored_def)

lemma buf_step:
  assumes "packets_ok sys (ps, w) (vs, k)" and "packets_room vs" and "op_ok x (map data_of vs)"
  shows "\<exists>s. buf_do x (map pk_buffer ps, pw_buf w) = Inr s \<and> store_ok s (bytes_do x (map data_of vs))"
  using buf_do_ok [OF packets_okD(1) [OF assms(1)] assms(3)] packets_room_parts(1) [OF assms(2)] by simp

lemma tags_step:
  assumes "packets_ok sys (ps, w) (vs, k)" and "packets_room vs" and "tags_op_ok x (map pv_tags vs)"
  shows "\<exists>s. tags_do x (map pk_tags ps, pw_tag w) = Inr (fst (vals_do x (map pv_tags vs)), s) \<and>
    lists_ok s (snd (vals_do x (map pv_tags vs)))"
  by (rule tags_do_ok [OF packets_okD(3) [OF assms(1)] assms(3) packets_room_parts(2) [OF assms(2)]])

text \<open>The buffer of a packet that is created from bytes, and that of a fragment.\<close>

lemma buf_create_write_ok:
  assumes "store_ok (bs, w) ds" and "length ys < 2 ^ 29"
  shows "\<exists>b0 w0 b w1 it w2. buf_initialize 0 w = Inr (b0, w0) \<and> buf_add_start (of_nat (length ys)) b0 w0 = Inr (b, w1) \<and>
    it_write ys (it_begin b, w1) = Inr (it, w2) \<and> store_ok (bs @ [b], w2) (ds @ [ys])"
proof -
  let ?n = "of_nat (length ys) :: 32 word"
  have W: "world_ok w (mset bs)"
    using assms(1) by (simp add: store_ok_def)
  obtain b0 w0 where w0: "buf_initialize 0 w = Inr (b0, w0)" "world_ok w0 (add_mset b0 (mset bs))" "keeps (mset bs) w w0"
    "buf_view w0 b0 = []"
    using buf_initialize_ok [OF W, of 0] by auto
  have n: "unat ?n = length ys"
    using assms(2) by (intro unat_length) simp
  obtain b w1 where b: "buf_add_start ?n b0 w0 = Inr (b, w1)" "grown_start w0 b0 (mset bs) (length ys) (b, w1)"
    using buf_add_start_ok [OF w0(2), of ?n] w0(4) n assms(2) by auto
  obtain it w2 where "it_write ys (it_begin b, w1) = Inr (it, w2)" "world_ok w2 (add_mset b (mset bs))"
    "keeps (mset bs) w0 w2" "buf_view w2 b = ys"
    using fill_start [OF b(2)] w0(4) by auto
  then show ?thesis
    using w0(1) b(1) store_ok_add [OF assms(1), of w2 b] keeps_trans [OF w0(3)] by fastforce
qed

lemma buf_part_ok:
  assumes "store_ok (bs, w) ds" and "i < length ds" and "unat s + unat n \<le> length (ds ! i)" and "length ds < 2 ^ 32 - 3"
  shows "\<exists>b v1 b' v2 v3. buf_fragment s n (bs ! i) w = Inr (b, v1) \<and> buf_copy b v1 = Inr (b', v2) \<and> buf_destroy b v2 = Inr v3 \<and>
    store_ok (bs @ [b'], v3) (ds @ [take (unat n) (drop (unat s) (ds ! i))])"
proof -
  let ?d = "take (unat n) (drop (unat s) (ds ! i))"
  have len: "length bs = length ds"
    using assms(1) by (auto simp: store_ok_def)
  obtain b v1 where b: "buf_fragment s n (bs ! i) w = Inr (b, v1)" "store_ok (bs @ [b], v1) (ds @ [?d])"
    using buf_do_ok [OF assms(1), of "Buf_fragment i s n"] assms(2-4) by (auto simp: res_map_eq_Inr)
  obtain b' v2 where b': "buf_copy b v1 = Inr (b', v2)" "store_ok ((bs @ [b]) @ [b'], v2) ((ds @ [?d]) @ [?d])"
    using buf_do_ok [OF b(2), of "Buf_copy (length ds)"] assms(4) len by (auto simp: res_map_eq_Inr nth_append)
  have "drop_at (length ds) ((xs @ [x]) @ [y]) = xs @ [y]" if "length xs = length ds" for xs :: "'a list" and x y
    using that by (simp add: drop_at_def)
  obtain v3 where "buf_destroy b v2 = Inr v3" "store_ok (drop_at (length ds) ((bs @ [b]) @ [b']), v3) (drop_at (length ds) ((ds @ [?d]) @ [?d]))"
    using buf_do_ok [OF b'(2), of "Buf_destroy (length ds)"] assms(4) len by (auto simp: res_map_eq_Inr nth_append)
  then show ?thesis
    using b(1) b'(1) len by (auto simp: drop_at_def)
qed

lemma byte_part_ok:
  assumes "byte_ok w H" and "l \<in># H" and "byte_holds w l (K, ts)" and "K + n < 2 ^ 29" and "size H < 2 ^ 32 - 3"
  shows "\<exists>w1 l' w2 w3. bt_copy l w = Inr (l, w1) \<and> bt_adjust (- int n) l = Inr l' \<and> bt_copy l' w1 = Inr (l', w2) \<and>
    bt_destroy l' w2 = Inr w3 \<and> byte_becomes H w (K + n, take m (drop n ts)) (l', w3)"
proof -
  obtain w1 where w1: "bt_copy l w = Inr (l, w1)" "byte_becomes H w (K, ts) (l, w1)"
    using bt_copy_ok [OF assms(1-3)] assms(5) by auto
  obtain l' where l': "bt_adjust (- int n) l = Inr l'" "byte_becomes H w1 (K + n, drop n ts) (l', w1)"
    using byte_drop_ok [of w1 l H K ts n] w1(2) assms(4) by (auto simp: byte_becomes_def)
  note a = w1(2) [unfolded byte_becomes_def prod.case] and b = l'(2) [unfolded byte_becomes_def prod.case]
  obtain w2 where w2: "bt_copy l' w1 = Inr (l', w2)" "byte_becomes (add_mset l' H) w1 (K + n, drop n ts) (l', w2)"
    using bt_copy_ok [of w1 "add_mset l' H" l'] b assms(5) by auto
  note c = w2(2) [unfolded byte_becomes_def prod.case]
  obtain w3 where w3: "bt_destroy l' w2 = Inr w3" "byte_ok w3 (add_mset l' H)" "byte_keep (add_mset l' H) w2 w3"
    using bt_deallocate_ok [of w2 l' "add_mset l' H"] c by (auto simp: bt_destroy_def)
  have "byte_holds w3 l' (K + n, take m (drop n ts))"
    using byte_take_ok byte_lists.keep_stands [OF w3(3), of l'] c by auto
  moreover have "byte_keep H w2 w3" "byte_keep H w1 w2"
    using byte_keep_mono [OF w3(3), of H] byte_keep_mono [of "add_mset l' H" w1 w2 H] c by auto
  then have "byte_keep H w w3"
    using a byte_keep_trans by meson
  ultimately show ?thesis
    using w1(1) l'(1) w2(1) w3(1,2) by (auto simp: byte_becomes_def)
qed

section \<open>Creation, copies, destruction\<close>

text \<open>What an operation of a session has to do.\<close>

definition packet_step :: "32 word \<Rightarrow> packet_op \<Rightarrow> packet_state \<Rightarrow> packet_values \<Rightarrow> bool" where
  "packet_step sys x s S \<longleftrightarrow>
     (\<exists>s'. packet_do x s = Inr (fst (value_do sys x S), s') \<and> packets_ok sys s' (snd (value_do sys x S)))"

lemma step_add:
  assumes "packets_ok sys (ps, w) (vs, k)" and "packet_do x (ps, w) = Inr (a, ps @ [p], w')"
    and "value_do sys x (vs, k) = (a, vs @ [v], k')"
    and "store_ok (map pk_buffer ps @ [pk_buffer p], pw_buf w') (map data_of vs @ [data_of v])"
    and "byte_stored (map pk_byteTags ps @ [pk_byteTags p], pw_byte w') (map byte_of vs @ [byte_of v])"
    and "lists_ok (map pk_tags ps @ [pk_tags p], pw_tag w') (map pv_tags vs @ [pv_tags v])"
    and "pk_uid p = pv_uid v" and "pw_systemId w' = sys" and "pw_uid w' = k'"
  shows "packet_step sys x (ps, w) (vs, k)"
  using assms(2,3) packets_add [OF assms(1,4-9)] by (simp add: packet_step_def)

lemma step_set:
  assumes "packets_ok sys (ps, w) (vs, k)" and "i < length vs" and "packet_do x (ps, w) = Inr (a, ps[i := p], w')"
    and "value_do sys x (vs, k) = (a, vs[i := v], k)"
    and "store_ok ((map pk_buffer ps)[i := pk_buffer p], pw_buf w') ((map data_of vs)[i := data_of v])"
    and "byte_stored ((map pk_byteTags ps)[i := pk_byteTags p], pw_byte w') ((map byte_of vs)[i := byte_of v])"
    and "lists_ok ((map pk_tags ps)[i := pk_tags p], pw_tag w') ((map pv_tags vs)[i := pv_tags v])"
    and "pk_uid p = pv_uid v" and "pw_systemId w' = sys" and "pw_uid w' = k"
  shows "packet_step sys x (ps, w) (vs, k)"
  using assms(3,4) packets_set [OF assms(1,2,5-10)] by (simp add: packet_step_def)

lemma none_tags:
  assumes "packets_ok sys (ps, w) (vs, k)" and "packets_room vs"
  shows "lists_ok (map pk_tags ps @ [None], pw_tag w) (map pv_tags vs @ [[]])"
  using tags_step [OF assms, of Tags_create] by simp

lemma bare_byte_tags:
  assumes "packets_ok sys (ps, w) (vs, k)" and "n < 2 ^ 29"
  shows "byte_stored (map pk_byteTags ps @ [bt_empty], pw_byte w) (map byte_of vs @ [(0, replicate n [])])"
  by (rule byte_add [OF assms(1) byte_empty_ok [OF byte_all [OF assms(1)] assms(2)]])

lemma create_step:
  assumes "packets_ok sys (ps, w) (vs, k)" and "packets_room vs" and "packet_op_ok (Pk_create n) vs"
  shows "packet_step sys (Pk_create n) (ps, w) (vs, k)"
proof -
  note f = packets_okD [OF assms(1)]
  obtain b v where b: "buf_initialize n (pw_buf w) = Inr (b, v)"
    "store_ok (map pk_buffer ps @ [b], v) (map data_of vs @ [replicate (unat n) 0])"
    using buf_step [OF assms(1,2), of "Buf_create n"] assms(3) by (auto simp: small_def res_map_eq_Inr)
  let ?p = "\<lparr>pk_buffer = b, pk_byteTags = bt_empty, pk_tags = None, pk_uid = push_bit 32 (ucast (pw_systemId w)) OR ucast (pw_uid w)\<rparr>"
  show ?thesis
  proof (rule step_add [OF assms(1), where p = ?p and v = "new_packet (replicate (unat n) 0) sys k" and k' = "k + 1"])
    show "packet_do (Pk_create n) (ps, w) = Inr ([], ps @ [?p], w\<lparr>pw_buf := v, pw_uid := pw_uid w + 1\<rparr>)"
      using b(1) by (simp add: packet_create_def in_buf_def packet_number_def)
  qed (use f b(2) none_tags [OF assms(1,2)] bare_byte_tags [OF assms(1), of "unat n"] assms(3) in \<open>simp_all add: small_def\<close>)
qed

lemma create_bytes_step:
  assumes "packets_ok sys (ps, w) (vs, k)" and "packets_room vs" and "packet_op_ok (Pk_create_bytes bs) vs"
  shows "packet_step sys (Pk_create_bytes bs) (ps, w) (vs, k)"
proof -
  note f = packets_okD [OF assms(1)]
  obtain b0 w0 b w1 it w2 where b: "buf_initialize 0 (pw_buf w) = Inr (b0, w0)"
    "buf_add_start (of_nat (length bs)) b0 w0 = Inr (b, w1)" "it_write bs (it_begin b, w1) = Inr (it, w2)"
    "store_ok (map pk_buffer ps @ [b], w2) (map data_of vs @ [bs])"
    using buf_create_write_ok [OF f(1), of bs] assms(3) by (auto simp: small_def)
  let ?p = "\<lparr>pk_buffer = b, pk_byteTags = bt_empty, pk_tags = None, pk_uid = push_bit 32 (ucast (pw_systemId w)) OR ucast (pw_uid w)\<rparr>"
  show ?thesis
  proof (rule step_add [OF assms(1), where p = ?p and v = "new_packet bs sys k" and k' = "k + 1"])
    show "packet_do (Pk_create_bytes bs) (ps, w) = Inr ([], ps @ [?p], w\<lparr>pw_buf := w2, pw_uid := pw_uid w + 1\<rparr>)"
      using b(1-3) by (simp add: packet_create_bytes_def in_buf_def packet_number_def)
  qed (use f b(4) none_tags [OF assms(1,2)] bare_byte_tags [OF assms(1), of "length bs"] assms(3) in \<open>simp_all add: small_def\<close>)
qed

end
