(* ===== verification/Packet_Moves.thy ===== *)
theory Packet_Moves
  imports Packet_Steps
begin

text \<open>Copies, assignment, destruction and fragments of packets.\<close>

lemma sizes_at:
  assumes "packets_ok sys (ps, w) (vs, k)" and "packets_room vs" and "i < length vs"
  shows "i < length ps" and "size (mset (map pk_byteTags ps)) < 2 ^ 32 - 8"
    and "size (mset (drop_at i (map pk_byteTags ps))) < 2 ^ 32 - 8" and "length (map data_of vs) < 2 ^ 32 - 8"
  using packets_okD(4) [OF assms(1)] packets_room_parts(1) [OF assms(2)] byte_at(5) [OF assms(1,3)] assms(3) by simp_all

lemma tags_copied:
  assumes "packets_ok sys (ps, w) (vs, k)" and "packets_room vs" and "i < length vs"
  shows "\<exists>v. tags_copy (pk_tags (ps ! i)) (pw_tag w) = Inr (pk_tags (ps ! i), v) \<and>
    lists_ok (map pk_tags ps @ [pk_tags (ps ! i)], v) (map pv_tags vs @ [pv_tags (vs ! i)])"
  using tags_step [OF assms(1,2), of "Tags_copy i"] sizes_at(1) [OF assms] assms(3)
  by (fastforce simp: res_map_eq_Inr tags_copy_def)

lemma copy_step:
  assumes "packets_ok sys (ps, w) (vs, k)" and "packets_room vs" and "packet_op_ok (Pk_copy i) vs"
  shows "packet_step sys (Pk_copy i) (ps, w) (vs, k)"
proof -
  note f = packets_okD [OF assms(1)]
  have i: "i < length vs"
    using assms(3) by simp
  note z = sizes_at [OF assms(1,2) i] and at = byte_at [OF assms(1) i]
  obtain b v1 where b: "buf_copy (pk_buffer (ps ! i)) (pw_buf w) = Inr (b, v1)"
    "store_ok (map pk_buffer ps @ [b], v1) (map data_of vs @ [data_of (vs ! i)])"
    using buf_step [OF assms(1,2), of "Buf_copy i"] i z(1) by (auto simp: res_map_eq_Inr)
  obtain v2 where l: "bt_copy (pk_byteTags (ps ! i)) (pw_byte w) = Inr (pk_byteTags (ps ! i), v2)"
    "byte_becomes (mset (map pk_byteTags ps)) (pw_byte w) (byte_of (vs ! i)) (pk_byteTags (ps ! i), v2)"
    using bt_copy_ok [OF at(4,3,2)] z(2) by (auto simp: byte_of_def)
  obtain v3 where m: "tags_copy (pk_tags (ps ! i)) (pw_tag w) = Inr (pk_tags (ps ! i), v3)"
    "lists_ok (map pk_tags ps @ [pk_tags (ps ! i)], v3) (map pv_tags vs @ [pv_tags (vs ! i)])"
    using tags_copied [OF assms(1,2) i] by blast
  let ?p = "(ps ! i)\<lparr>pk_buffer := b\<rparr>"
  show ?thesis
  proof (rule step_add [OF assms(1), where p = ?p and v = "vs ! i" and k' = k])
    show "packet_do (Pk_copy i) (ps, w) = Inr ([], ps @ [?p], w\<lparr>pw_buf := v1, pw_byte := v2, pw_tag := v3\<rparr>)"
      using b(1) l(1) m(1) by (simp add: packet_copy_def packet_of_parts_def in_buf_def in_byte_def in_tag_def)
    show "pk_uid ?p = pv_uid (vs ! i)"
      using arg_cong [OF f(7), of "\<lambda>xs. xs ! i"] i z(1) by simp
  qed (use f b(2) m(2) byte_add [OF assms(1) l(2)] in simp_all)
qed

lemma assign_step:
  assumes "packets_ok sys (ps, w) (vs, k)" and "packets_room vs" and "packet_op_ok (Pk_assign i j) vs"
  shows "packet_step sys (Pk_assign i j) (ps, w) (vs, k)"
proof (cases "i = j")
  case True
  then show ?thesis
    using assms(1) by (simp add: packet_step_def)
next
  case False
  note f = packets_okD [OF assms(1)]
  have i: "i < length vs" and j: "j < length vs"
    using assms(3) by simp_all
  note z = sizes_at [OF assms(1,2) i] and at = byte_at [OF assms(1) i] and zj = sizes_at(1) [OF assms(1,2) j]
  obtain b v1 where b: "buf_assign (pk_buffer (ps ! i)) (pk_buffer (ps ! j)) (pw_buf w) = Inr (b, v1)"
    "store_ok ((map pk_buffer ps)[i := b], v1) ((map data_of vs)[i := data_of (vs ! j)])"
    using buf_step [OF assms(1,2), of "Buf_assign i j"] i j z(1) zj by (auto simp: res_map_eq_Inr)
  let ?H = "mset (drop_at i (map pk_byteTags ps))"
  have jH: "pk_byteTags (ps ! j) \<in># ?H"
    using nth_drop_at [of j "map pk_byteTags ps" i] False zj by simp
  have "size ?H < 2 ^ 32 - 1"
    using z(3) by simp
  from bt_assign_ok [OF at(1) jH this] obtain v2 where l: "bt_assign (pk_byteTags (ps ! i)) (pk_byteTags (ps ! j)) (pw_byte w) = Inr (pk_byteTags (ps ! j), v2)"
    "byte_ok v2 (add_mset (pk_byteTags (ps ! j)) ?H)" "byte_keep ?H (pw_byte w) v2"
    by blast
  have "byte_becomes ?H (pw_byte w) (byte_of (vs ! j)) (pk_byteTags (ps ! j), v2)"
    using l(2,3) byte_lists.keep_stands [OF l(3) jH byte_at(2) [OF assms(1) j]] by (simp add: byte_becomes_def byte_of_def)
  note byte = byte_set [OF assms(1) i this]
  obtain m v3 where m: "tags_assign (pk_tags (ps ! j)) (pk_tags (ps ! i), pw_tag w) = Inr (m, v3)"
    "lists_ok ((map pk_tags ps)[i := m], v3) ((map pv_tags vs)[i := pv_tags (vs ! j)])"
    using tags_step [OF assms(1,2), of "Tags_assign i j"] i j z(1) zj by (auto simp: res_map_eq_Inr)
  let ?p = "\<lparr>pk_buffer = b, pk_byteTags = pk_byteTags (ps ! j), pk_tags = m, pk_uid = pk_uid (ps ! j)\<rparr>"
  show ?thesis
  proof (rule step_set [OF assms(1) i, where p = ?p and v = "vs ! j"])
    show "packet_do (Pk_assign i j) (ps, w) = Inr ([], ps[i := ?p], w\<lparr>pw_buf := v1, pw_byte := v2, pw_tag := v3\<rparr>)"
      using b(1) l(1) m(1) False by (simp add: packet_assign_def in_buf_def in_byte_def in_tag_def)
    show "pk_uid ?p = pv_uid (vs ! j)"
      using arg_cong [OF f(7), of "\<lambda>xs. xs ! j"] j zj by simp
  qed (use f b(2) m(2) byte in simp_all)
qed

lemma destroy_step:
  assumes "packets_ok sys (ps, w) (vs, k)" and "packets_room vs" and "packet_op_ok (Pk_destroy i) vs"
  shows "packet_step sys (Pk_destroy i) (ps, w) (vs, k)"
proof -
  note f = packets_okD [OF assms(1)]
  have i: "i < length vs"
    using assms(3) by simp
  note z = sizes_at [OF assms(1,2) i] and at = byte_at [OF assms(1) i]
  obtain v1 where b: "buf_destroy (pk_buffer (ps ! i)) (pw_buf w) = Inr v1"
    "store_ok (drop_at i (map pk_buffer ps), v1) (drop_at i (map data_of vs))"
    using buf_step [OF assms(1,2), of "Buf_destroy i"] i z(1) by (auto simp: res_map_eq_Inr)
  obtain v2 where l: "bt_destroy (pk_byteTags (ps ! i)) (pw_byte w) = Inr v2"
    "byte_stored (drop_at i (map pk_byteTags ps), v2) (drop_at i (map byte_of vs))"
    using bt_deallocate_ok [OF at(1)] byte_lists.stored_drop [OF f(2)] by (auto simp: bt_destroy_def)
  obtain v3 where m: "tags_destroy (pk_tags (ps ! i), pw_tag w) = Inr v3"
    "lists_ok (drop_at i (map pk_tags ps), v3) (drop_at i (map pv_tags vs))"
    using tags_step [OF assms(1,2), of "Tags_destroy i"] i z(1) by (auto simp: res_map_eq_Inr)
  let ?w = "w\<lparr>pw_buf := v1, pw_byte := v2, pw_tag := v3\<rparr>"
  have "packet_do (Pk_destroy i) (ps, w) = Inr ([], drop_at i ps, ?w)"
    using b(1) l(1) m(1) by (simp add: packet_destroy_def in_buf_def in_byte_def in_tag_def no_result_def)
  moreover have "packets_ok sys (drop_at i ps, ?w) (drop_at i vs, k)"
    by (rule packets_drop [OF assms(1)]) (use f b(2) l(2) m(2) in simp_all)
  ultimately show ?thesis
    by (simp add: packet_step_def)
qed

lemma fragment_step:
  assumes "packets_ok sys (ps, w) (vs, k)" and "packets_room vs" and "packet_op_ok (Pk_fragment i s n) vs"
  shows "packet_step sys (Pk_fragment i s n) (ps, w) (vs, k)"
proof -
  note f = packets_okD [OF assms(1)]
  have i: "i < length vs" and sn: "unat s + unat n \<le> size_of (vs ! i)" and load: "pv_load (vs ! i) + unat s < 2 ^ 29"
    using assms(3) by (simp_all add: small_def)
  note z = sizes_at [OF assms(1,2) i] and at = byte_at [OF assms(1) i] and sz = packet_size_ok [OF assms(1) i]
  let ?v = "change_bytes (\<lambda>bs. take (unat n) (drop (unat s) bs)) (unat s) (vs ! i)"
  have d: "data_of ?v = take (unat n) (drop (unat s) (data_of (vs ! i)))"
    by (simp add: data_of_def [of "vs ! i"] take_map drop_map)
  obtain b v1 b' v2 v3 where b: "buf_fragment s n (pk_buffer (ps ! i)) (pw_buf w) = Inr (b, v1)" "buf_copy b v1 = Inr (b', v2)"
    "buf_destroy b v2 = Inr v3" "store_ok (map pk_buffer ps @ [b'], v3) (map data_of vs @ [data_of ?v])"
    using buf_part_ok [OF f(1), of i s n] i z(1,4) sn unfolding d by auto
  have H: "size (mset (map pk_byteTags ps)) < 2 ^ 32 - 3"
    using z(2) by simp
  from byte_part_ok [OF at(4,3,2) load H, of "unat n"] obtain y1 l' y2 y3 where l: "bt_copy (pk_byteTags (ps ! i)) (pw_byte w) = Inr (pk_byteTags (ps ! i), y1)"
    "bt_adjust (- int (unat s)) (pk_byteTags (ps ! i)) = Inr l'" "bt_copy l' y1 = Inr (l', y2)" "bt_destroy l' y2 = Inr y3"
    "byte_becomes (mset (map pk_byteTags ps)) (pw_byte w) (byte_of ?v) (l', y3)"
    by (auto simp: take_map drop_map)
  obtain t where m: "tags_copy (pk_tags (ps ! i)) (pw_tag w) = Inr (pk_tags (ps ! i), t)"
    "lists_ok (map pk_tags ps @ [pk_tags (ps ! i)], t) (map pv_tags vs @ [pv_tags (vs ! i)])"
    using tags_copied [OF assms(1,2) i] by blast
  have neg: "sint (- s) = - int (unat s)"
    by (rule sint_nat(2)) (use load in simp)
  have "unat (s + n) = unat s + unat n"
    by (rule unat32_add) (use sn sz(2) in simp)
  then have fits: "packet_size (ps ! i) \<ge> s + n"
    using sn sz(1) by (simp add: word_le_nat_alt)
  let ?p = "(ps ! i)\<lparr>pk_buffer := b', pk_byteTags := l'\<rparr>"
  show ?thesis
  proof (rule step_add [OF assms(1), where p = ?p and v = ?v and k' = k])
    show "packet_do (Pk_fragment i s n) (ps, w) = Inr ([], ps @ [?p], w\<lparr>pw_buf := v3, pw_byte := y3, pw_tag := t\<rparr>)"
      using b(1-3) l(1-4) m(1) neg fits
      by (simp add: packet_fragment_def packet_of_parts_def in_buf_def in_byte_def in_tag_def no_result_def)
    show "pk_uid ?p = pv_uid ?v"
      using arg_cong [OF f(7), of "\<lambda>xs. xs ! i"] i z(1) by simp
  qed (use f b(4) m(2) byte_add [OF assms(1) l(5)] in simp_all)
qed

end
