(* ===== verification/Packet_Edits.thy ===== *)
theory Packet_Edits
  imports Packet_Moves
begin

text \<open>Headers, trailers and the two ends of packets, the byte tags, the packet tags, and all of them together in a session.\<close>

section \<open>Parts that do not change\<close>

lemma same_parts:
  assumes "packets_ok sys (ps, w) (vs, k)" and "i < length vs"
  shows "store_ok ((map pk_buffer ps)[i := pk_buffer (ps ! i)], pw_buf w) ((map data_of vs)[i := data_of (vs ! i)])"
    and "byte_stored ((map pk_byteTags ps)[i := pk_byteTags (ps ! i)], pw_byte w) ((map byte_of vs)[i := byte_of (vs ! i)])"
    and "lists_ok ((map pk_tags ps)[i := pk_tags (ps ! i)], pw_tag w) ((map pv_tags vs)[i := pv_tags (vs ! i)])"
    and "pk_uid (ps ! i) = pv_uid (vs ! i)" and "pw_systemId w = sys" and "pw_uid w = k"
proof -
  note f = packets_okD [OF assms(1)]
  have i: "i < length ps"
    using f(4) assms(2) by simp
  show "store_ok ((map pk_buffer ps)[i := pk_buffer (ps ! i)], pw_buf w) ((map data_of vs)[i := data_of (vs ! i)])"
    "byte_stored ((map pk_byteTags ps)[i := pk_byteTags (ps ! i)], pw_byte w) ((map byte_of vs)[i := byte_of (vs ! i)])"
    "lists_ok ((map pk_tags ps)[i := pk_tags (ps ! i)], pw_tag w) ((map pv_tags vs)[i := pv_tags (vs ! i)])"
    unfolding map_same_at [OF i] map_same_at [OF assms(2)] by (fact f)+
  show "pk_uid (ps ! i) = pv_uid (vs ! i)" "pw_systemId w = sys" "pw_uid w = k"
    using arg_cong [OF f(7), of "\<lambda>xs. xs ! i"] i assms(2) f(5,6) by simp_all
qed

text \<open>A step that changes the buffer and the byte tags of one packet, and one that changes its packet tags.\<close>

lemma step_bytes:
  assumes "packets_ok sys (ps, w) (vs, k)" and "i < length vs"
    and "packet_do x (ps, w) = Inr (a, ps[i := (ps ! i)\<lparr>pk_buffer := b, pk_byteTags := l\<rparr>], w\<lparr>pw_buf := v1, pw_byte := v2\<rparr>)"
    and "value_do sys x (vs, k) = (a, vs[i := v], k)" and "pv_tags v = pv_tags (vs ! i)" and "pv_uid v = pv_uid (vs ! i)"
    and "store_ok ((map pk_buffer ps)[i := b], v1) ((map data_of vs)[i := data_of v])"
    and "byte_becomes (mset (drop_at i (map pk_byteTags ps))) (pw_byte w) (byte_of v) (l, v2)"
  shows "packet_step sys x (ps, w) (vs, k)"
  by (rule step_set [OF assms(1-4)]) (use assms(5-7) byte_set [OF assms(1,2,8)] same_parts [OF assms(1,2)] in simp_all)

lemma step_tags:
  assumes "packets_ok sys (ps, w) (vs, k)" and "i < length vs"
    and "packet_do x (ps, w) = Inr (a, ps[i := (ps ! i)\<lparr>pk_tags := m\<rparr>], w\<lparr>pw_tag := v1\<rparr>)"
    and "value_do sys x (vs, k) = (a, vs[i := change_tags g (vs ! i)], k)"
    and "lists_ok ((map pk_tags ps)[i := m], v1) ((map pv_tags vs)[i := g (pv_tags (vs ! i))])"
  shows "packet_step sys x (ps, w) (vs, k)"
  by (rule step_set [OF assms(1-4)]) (use assms(5) same_parts [OF assms(1,2)] in simp_all)

section \<open>Headers and trailers\<close>

lemma chunk_size: "chunk_ok c \<Longrightarrow> ck_size c = of_nat (length (ck_bytes c))"
  unfolding chunk_ok_def by (metis of_nat_unat ucast_id unsigned_ucast_eq word_of_nat_eq_0_iff)

lemma add_header_step:
  assumes "packets_ok sys (ps, w) (vs, k)" and "packets_room vs" and "packet_op_ok (Pk_add_header i h) vs"
  shows "packet_step sys (Pk_add_header i h) (ps, w) (vs, k)"
proof -
  have i: "i < length vs" and h: "chunk_ok h" and n: "size_of (vs ! i) + length (ck_bytes h) < 2 ^ 29"
    "pv_load (vs ! i) + length (ck_bytes h) < 2 ^ 29"
    using assms(3) by (simp_all add: small_def)
  note z = sizes_at [OF assms(1,2) i] and at = byte_at [OF assms(1) i]
  let ?v = "change_bytes (append (plain (ck_bytes h))) (length (ck_bytes h)) (vs ! i)"
  have d: "data_of ?v = ck_bytes h @ data_of (vs ! i)"
    by (simp add: data_of_def [of "vs ! i"])
  obtain b v1 where b: "buf_prepend (ck_bytes h) (pk_buffer (ps ! i)) (pw_buf w) = Inr (b, v1)"
    "store_ok ((map pk_buffer ps)[i := b], v1) ((map data_of vs)[i := data_of ?v])"
    using buf_step [OF assms(1,2), of "Buf_prepend i (ck_bytes h)"] i z(1) n(1) unfolding d
    by (auto simp: res_map_eq_Inr add.commute)
  then obtain u it where b1: "buf_add_start (of_nat (length (ck_bytes h))) (pk_buffer (ps ! i)) (pw_buf w) = Inr (b, u)"
    "it_write_u8s (ck_bytes h) (it_begin b, u) = Inr (it, v1)"
    by (auto simp: buf_prepend_def res_bind_eq_Inr)
  have "length (map snd (pv_bytes (vs ! i))) + length (ck_bytes h) < 2 ^ 29" "size (mset (drop_at i (map pk_byteTags ps))) < 2 ^ 32 - 3"
    using n(1) z(3) by (simp_all add: size_of_def)
  from byte_prepend_ok [OF at(1,2) this(1) n(2) this(2)] obtain l1 l v2 where
    l: "bt_adjust (int (length (ck_bytes h))) (pk_byteTags (ps ! i)) = Inr l1"
    "bt_add_at_start (int (length (ck_bytes h))) l1 (pw_byte w) = Inr (l, v2)"
    "byte_becomes (mset (drop_at i (map pk_byteTags ps))) (pw_byte w) (byte_of ?v) (l, v2)"
    by auto
  have sz: "ck_size h = of_nat (length (ck_bytes h))"
    by (rule chunk_size [OF h])
  have "sint (ck_size h) = int (unat (ck_size h))"
    by (rule sint_nat(1)) (use h n(2) in \<open>simp add: chunk_ok_def\<close>)
  then have "sint (ck_size h) = int (length (ck_bytes h))"
    using h by (simp only: chunk_ok_def)
  then have "packet_do (Pk_add_header i h) (ps, w) = Inr ([], ps[i := (ps ! i)\<lparr>pk_buffer := b, pk_byteTags := l\<rparr>],
      w\<lparr>pw_buf := v1, pw_byte := v2\<rparr>)"
    using b1 l(1,2) sz by (simp add: packet_add_header_def in_buf_def in_byte_def Let_def)
  from step_bytes [OF assms(1) i this _ _ _ b(2) l(3)] show ?thesis
    by (simp add: update_at_def)
qed

lemma byte_grow_at:
  assumes "packets_ok sys (ps, w) (vs, k)" and "packets_room vs" and "i < length vs" and "size_of (vs ! i) + n < 2 ^ 29"
  shows "\<exists>l v. bt_add_at_end (sint (packet_size (ps ! i))) (pk_byteTags (ps ! i)) (pw_byte w) = Inr (l, v) \<and>
    byte_becomes (mset (drop_at i (map pk_byteTags ps))) (pw_byte w)
      (pv_load (vs ! i), map snd (pv_bytes (vs ! i)) @ replicate n []) (l, v)"
proof -
  note z = sizes_at [OF assms(1-3)] and at = byte_at [OF assms(1,3)]
  have "length (map snd (pv_bytes (vs ! i))) + n < 2 ^ 29" "size (mset (drop_at i (map pk_byteTags ps))) < 2 ^ 32 - 3"
    using assms(4) z(3) by (simp_all add: size_of_def)
  from byte_grow_ok [OF at(1,2) this] show ?thesis
    using packet_size_ok(3) [OF assms(1,3)] by (simp add: size_of_def)
qed

lemma add_trailer_step:
  assumes "packets_ok sys (ps, w) (vs, k)" and "packets_room vs" and "packet_op_ok (Pk_add_trailer i t) vs"
  shows "packet_step sys (Pk_add_trailer i t) (ps, w) (vs, k)"
proof -
  have i: "i < length vs" and t: "chunk_ok t" and n: "size_of (vs ! i) + length (ck_bytes t) < 2 ^ 29"
    using assms(3) by (simp_all add: small_def)
  note z = sizes_at [OF assms(1,2) i] and at = byte_at [OF assms(1) i]
  let ?v = "change_bytes (\<lambda>bs. bs @ plain (ck_bytes t)) 0 (vs ! i)"
  have d: "data_of ?v = data_of (vs ! i) @ ck_bytes t"
    by (simp add: data_of_def [of "vs ! i"])
  obtain b v1 where b: "buf_postpend (ck_bytes t) (pk_buffer (ps ! i)) (pw_buf w) = Inr (b, v1)"
    "store_ok ((map pk_buffer ps)[i := b], v1) ((map data_of vs)[i := data_of ?v])"
    using buf_step [OF assms(1,2), of "Buf_postpend i (ck_bytes t)"] i z(1) n(1) unfolding d
    by (auto simp: res_map_eq_Inr add.commute)
  then obtain u it it' where b1: "buf_add_end (of_nat (length (ck_bytes t))) (pk_buffer (ps ! i)) (pw_buf w) = Inr (b, u)"
    "it_prev (of_nat (length (ck_bytes t))) (it_end b) = Inr it" "it_write_u8s (ck_bytes t) (it, u) = Inr (it', v1)"
    by (auto simp: buf_postpend_def res_bind_eq_Inr Let_def)
  obtain l v2 where l: "bt_add_at_end (sint (packet_size (ps ! i))) (pk_byteTags (ps ! i)) (pw_byte w) = Inr (l, v2)"
    "byte_becomes (mset (drop_at i (map pk_byteTags ps))) (pw_byte w) (byte_of ?v) (l, v2)"
    using byte_grow_at [OF assms(1,2) i n] by auto
  have "packet_do (Pk_add_trailer i t) (ps, w) = Inr ([], ps[i := (ps ! i)\<lparr>pk_buffer := b, pk_byteTags := l\<rparr>],
      w\<lparr>pw_buf := v1, pw_byte := v2\<rparr>)"
    using b1 l(1) chunk_size [OF t] by (simp add: packet_add_trailer_def in_buf_def in_byte_def Let_def)
  from step_bytes [OF assms(1) i this _ _ _ b(2) l(2)] show ?thesis
    by (simp add: update_at_def)
qed

lemma remove_start_ok:
  assumes "packets_ok sys (ps, w) (vs, k)" and "packets_room vs" and "i < length vs" and "pv_load (vs ! i) + unat n < 2 ^ 29"
  shows "\<exists>b l. packet_remove_start n (ps ! i) = Inr ((ps ! i)\<lparr>pk_buffer := b, pk_byteTags := l\<rparr>) \<and>
    store_ok ((map pk_buffer ps)[i := b], pw_buf w) ((map data_of vs)[i := drop (unat n) (data_of (vs ! i))]) \<and>
    byte_becomes (mset (drop_at i (map pk_byteTags ps))) (pw_byte w)
      (pv_load (vs ! i) + unat n, drop (unat n) (map snd (pv_bytes (vs ! i)))) (l, pw_byte w)"
proof -
  note z = sizes_at [OF assms(1-3)] and at = byte_at [OF assms(1,3)]
  obtain b where b: "buf_remove_start n (pk_buffer (ps ! i)) = Inr b"
    "store_ok ((map pk_buffer ps)[i := b], pw_buf w) ((map data_of vs)[i := drop (unat n) (data_of (vs ! i))])"
    using buf_step [OF assms(1,2), of "Buf_remove_start i n"] assms(3,4) z(1) by (auto simp: res_map_eq_Inr)
  obtain l where l: "bt_adjust (- int (unat n)) (pk_byteTags (ps ! i)) = Inr l"
    "byte_becomes (mset (drop_at i (map pk_byteTags ps))) (pw_byte w)
      (pv_load (vs ! i) + unat n, drop (unat n) (map snd (pv_bytes (vs ! i)))) (l, pw_byte w)"
    using byte_drop_ok [OF at(1,2) assms(4)] by blast
  have "sint (- n) = - int (unat n)"
    by (rule sint_nat(2)) (use assms(4) in simp)
  then have "packet_remove_start n (ps ! i) = Inr ((ps ! i)\<lparr>pk_buffer := b, pk_byteTags := l\<rparr>)"
    using b(1) l(1) by (simp add: packet_remove_start_def)
  then show ?thesis
    using b(2) l(2) by blast
qed

lemma remove_end_ok:
  assumes "packets_ok sys (ps, w) (vs, k)" and "packets_room vs" and "i < length vs"
  shows "\<exists>b. packet_remove_end n (ps ! i) = (ps ! i)\<lparr>pk_buffer := b, pk_byteTags := pk_byteTags (ps ! i)\<rparr> \<and>
    store_ok ((map pk_buffer ps)[i := b], pw_buf w) ((map data_of vs)[i := take_end (unat n) (data_of (vs ! i))]) \<and>
    byte_becomes (mset (drop_at i (map pk_byteTags ps))) (pw_byte w)
      (pv_load (vs ! i), take_end (unat n) (map snd (pv_bytes (vs ! i)))) (pk_byteTags (ps ! i), pw_byte w)"
proof -
  note z = sizes_at [OF assms(1-3)] and at = byte_at [OF assms(1,3)]
  have "store_ok ((map pk_buffer ps)[i := buf_remove_end n (pk_buffer (ps ! i))], pw_buf w)
      ((map data_of vs)[i := take_end (unat n) (data_of (vs ! i))])"
    using buf_step [OF assms(1,2), of "Buf_remove_end i n"] assms(3) z(1) by (simp add: take_end_def)
  moreover have "byte_becomes (mset (drop_at i (map pk_byteTags ps))) (pw_byte w)
      (pv_load (vs ! i), take_end (unat n) (map snd (pv_bytes (vs ! i)))) (pk_byteTags (ps ! i), pw_byte w)"
    using at(1) byte_take_ok [OF at(2)] by (simp add: byte_becomes_def take_end_def)
  ultimately show ?thesis
    by (auto simp: packet_remove_end_def)
qed

lemma end_simps [simp]:
  "map fst (drop m (pv_bytes v)) = drop m (data_of v)" "map fst (take_end m (pv_bytes v)) = take_end m (data_of v)"
  "map snd (drop m (pv_bytes v)) = drop m (map snd (pv_bytes v))"
  "map snd (take_end m (pv_bytes v)) = take_end m (map snd (pv_bytes v))"
  by (simp_all add: data_of_def take_end_def take_map drop_map)

lemma remove_start_step:
  assumes "packets_ok sys (ps, w) (vs, k)" and "packets_room vs" and "packet_op_ok (Pk_remove_start i n) vs"
  shows "packet_step sys (Pk_remove_start i n) (ps, w) (vs, k)"
proof -
  have i: "i < length vs" "pv_load (vs ! i) + unat n < 2 ^ 29"
    using assms(3) by (simp_all add: small_def)
  from remove_start_ok [OF assms(1,2) i] obtain b l where r: "packet_remove_start n (ps ! i) = Inr ((ps ! i)\<lparr>pk_buffer := b, pk_byteTags := l\<rparr>)"
    "store_ok ((map pk_buffer ps)[i := b], pw_buf w) ((map data_of vs)[i := drop (unat n) (data_of (vs ! i))])"
    "byte_becomes (mset (drop_at i (map pk_byteTags ps))) (pw_byte w)
      (pv_load (vs ! i) + unat n, drop (unat n) (map snd (pv_bytes (vs ! i)))) (l, pw_byte w)"
    by blast
  show ?thesis
    by (rule step_bytes [OF assms(1) i(1), where v = "change_bytes (drop (unat n)) (unat n) (vs ! i)" and l = l and b = b
          and ?v1.0 = "pw_buf w" and ?v2.0 = "pw_byte w"]) (use r in \<open>simp_all add: update_at_def\<close>)
qed

lemma peek_header_ok:
  assumes "packets_ok sys (ps, w) (vs, k)" and "i < length vs"
  shows "packet_peek_header f (ps ! i) w = Inr (f (data_of (vs ! i)))"
    and "packet_peek_trailer f (ps ! i) w = Inr (f (data_of (vs ! i)))"
  using packet_size_ok(1,4) [OF assms] by (simp_all add: packet_peek_header_def packet_peek_trailer_def)

lemma remove_header_step:
  assumes "packets_ok sys (ps, w) (vs, k)" and "packets_room vs" and "packet_op_ok (Pk_remove_header i f) vs"
  shows "packet_step sys (Pk_remove_header i f) (ps, w) (vs, k)"
proof -
  let ?n = "f (data_of (vs ! i))"
  have i: "i < length vs" "pv_load (vs ! i) + unat ?n < 2 ^ 29"
    using assms(3) by (simp_all add: small_def)
  from remove_start_ok [OF assms(1,2) i] obtain b l where r: "packet_remove_start ?n (ps ! i) = Inr ((ps ! i)\<lparr>pk_buffer := b, pk_byteTags := l\<rparr>)"
    "store_ok ((map pk_buffer ps)[i := b], pw_buf w) ((map data_of vs)[i := drop (unat ?n) (data_of (vs ! i))])"
    "byte_becomes (mset (drop_at i (map pk_byteTags ps))) (pw_byte w)
      (pv_load (vs ! i) + unat ?n, drop (unat ?n) (map snd (pv_bytes (vs ! i)))) (l, pw_byte w)"
    by blast
  show ?thesis
    by (rule step_bytes [OF assms(1) i(1), where v = "change_bytes (drop (unat ?n)) (unat ?n) (vs ! i)" and l = l and b = b
          and ?v1.0 = "pw_buf w" and ?v2.0 = "pw_byte w"])
      (use r peek_header_ok(1) [OF assms(1) i(1)] in \<open>simp_all add: update_at_def packet_remove_header_def Let_def\<close>)
qed

lemma remove_end_step:
  assumes "packets_ok sys (ps, w) (vs, k)" and "packets_room vs" and "packet_op_ok (Pk_remove_end i n) vs"
  shows "packet_step sys (Pk_remove_end i n) (ps, w) (vs, k)"
proof -
  have i: "i < length vs"
    using assms(3) by simp
  from remove_end_ok [OF assms(1,2) i, of n] obtain b where r: "packet_remove_end n (ps ! i) = (ps ! i)\<lparr>pk_buffer := b, pk_byteTags := pk_byteTags (ps ! i)\<rparr>"
    "store_ok ((map pk_buffer ps)[i := b], pw_buf w) ((map data_of vs)[i := take_end (unat n) (data_of (vs ! i))])"
    "byte_becomes (mset (drop_at i (map pk_byteTags ps))) (pw_byte w)
      (pv_load (vs ! i), take_end (unat n) (map snd (pv_bytes (vs ! i)))) (pk_byteTags (ps ! i), pw_byte w)"
    by blast
  show ?thesis
    by (rule step_bytes [OF assms(1) i(1), where v = "change_bytes (take_end (unat n)) 0 (vs ! i)" and l = "pk_byteTags (ps ! i)" and b = b
          and ?v1.0 = "pw_buf w" and ?v2.0 = "pw_byte w"]) (use r in \<open>simp_all add: update_at_def\<close>)
qed

lemma remove_trailer_step:
  assumes "packets_ok sys (ps, w) (vs, k)" and "packets_room vs" and "packet_op_ok (Pk_remove_trailer i f) vs"
  shows "packet_step sys (Pk_remove_trailer i f) (ps, w) (vs, k)"
proof -
  let ?n = "f (data_of (vs ! i))"
  have i: "i < length vs"
    using assms(3) by simp
  have "packet_do (Pk_remove_trailer i f) (ps, w) = Inr ([Took ?n], ps[i := packet_remove_end ?n (ps ! i)], w)"
    using peek_header_ok(2) [OF assms(1) i] by (simp add: packet_remove_trailer_def)
  then show ?thesis
    using remove_end_step [OF assms(1,2), of i ?n] i by (simp add: packet_step_def Let_def)
qed

lemma data_step:
  assumes "packets_ok sys (ps, w) (vs, k)" and "packets_room vs" and "packet_op_ok (Pk_data i n) vs"
  shows "packet_step sys (Pk_data i n) (ps, w) (vs, k)"
proof -
  note at = store_ok_at [OF packets_okD(1) [OF assms(1)], of i]
  have i: "i < length vs"
    using assms(3) by simp
  have b: "pk_buffer (ps ! i) \<in># mset (map pk_buffer ps)" and v: "buf_view (pw_buf w) (pk_buffer (ps ! i)) = data_of (vs ! i)"
    and W: "world_ok (pw_buf w) (mset (map pk_buffer ps))"
    using at i packets_okD(4) [OF assms(1)] by simp_all
  let ?bs = "take (unat n) (data_of (vs ! i))"
  obtain j where j: "buf_copy_data n (pk_buffer (ps ! i)) (pw_buf w) = Inr (j, ?bs)" "unat j = min (unat n) (size_of (vs ! i))"
    using buf_copy_data_ok [OF W b, of n] v by auto
  have "j = of_nat (unat j)"
    by simp
  also have "\<dots> = of_nat (length ?bs)"
    unfolding j(2) by (simp add: min.commute)
  finally show ?thesis
    using j(1) assms(1) by (simp add: packet_step_def packet_copy_data_def)
qed

section \<open>Byte tags\<close>

lemma mark_all: "mark_range 0 (int (length ts)) x ts = map (\<lambda>t. t @ [x]) ts"
  by (rule nth_equalityI) (simp_all add: mark_range_def)

lemma unat_bound: "unat x < 2 ^ 29 \<Longrightarrow> \<bar>int (unat x)\<bar> \<le> 2 ^ 29" for x :: "32 word"
proof -
  assume "unat x < 2 ^ 29"
  then have "int (unat x) \<le> int (2 ^ 29)"
    by (simp only: of_nat_le_iff less_imp_le)
  then show ?thesis
    by (simp only: abs_of_nat) simp
qed

lemma put_tag_ok:
  assumes "packets_ok sys (ps, w) (vs, k)" and "i < length vs" and "tag_ok t" and "pv_load (vs ! i) + tag_load t < 2 ^ 29"
    and "\<bar>s\<bar> \<le> 2 ^ 29" and "\<bar>e\<bar> \<le> 2 ^ 29"
  shows "\<exists>l v. bt_put_tag t s e (pk_byteTags (ps ! i)) (pw_byte w) = Inr (l, v) \<and>
    byte_becomes (mset (drop_at i (map pk_byteTags ps))) (pw_byte w)
      (pv_load (vs ! i) + tag_load t, mark_range s e (tag_tid t, tag_bytes t) (map snd (pv_bytes (vs ! i)))) (l, v)"
  using bt_put_tag_ok [OF byte_at(1,2) [OF assms(1,2)] assms(3) _ assms(4-6)] by (simp add: tag_load_def)

lemma add_byte_tag_step:
  assumes "packets_ok sys (ps, w) (vs, k)" and "packets_room vs" and "packet_op_ok (Pk_add_byte_tag i t) vs"
  shows "packet_step sys (Pk_add_byte_tag i t) (ps, w) (vs, k)"
proof -
  have i: "i < length vs" and t: "tag_ok t" "pv_load (vs ! i) + tag_load t < 2 ^ 29"
    using assms(3) by (simp_all add: small_def)
  note sz = packet_size_ok [OF assms(1) i]
  let ?n = "int (size_of (vs ! i))"
  obtain l v where l: "bt_put_tag t 0 ?n (pk_byteTags (ps ! i)) (pw_byte w) = Inr (l, v)"
    "byte_becomes (mset (drop_at i (map pk_byteTags ps))) (pw_byte w)
      (pv_load (vs ! i) + tag_load t, mark_range 0 ?n (tag_tid t, tag_bytes t) (map snd (pv_bytes (vs ! i)))) (l, v)"
    using put_tag_ok [OF assms(1) i t, of 0 ?n] sz(2) by auto
  have mark: "mark_range 0 ?n (tag_tid t, tag_bytes t) (map snd (pv_bytes (vs ! i))) =
      map (\<lambda>ts. ts @ [(tag_tid t, tag_bytes t)]) (map snd (pv_bytes (vs ! i)))"
    using mark_all [of "map snd (pv_bytes (vs ! i))"] by (simp add: size_of_def)
  let ?v = "change_bytes (map (\<lambda>(b, ts). (b, ts @ [(tag_tid t, tag_bytes t)]))) (tag_load t) (vs ! i)"
  have d: "data_of ?v = data_of (vs ! i)"
    by (simp add: data_of_def [of "vs ! i"] comp_def split_beta)
  show ?thesis
    by (rule step_bytes [OF assms(1) i, where v = ?v and b = "pk_buffer (ps ! i)" and l = l and ?v1.0 = "pw_buf w" and ?v2.0 = v])
      (use l sz(3) mark same_parts(1) [OF assms(1) i] d in
        \<open>simp_all add: update_at_def packet_add_byte_tag_def in_byte_def comp_def split_beta del: data_of_simps\<close>)
qed

lemma add_byte_tag_range_step:
  assumes "packets_ok sys (ps, w) (vs, k)" and "packets_room vs" and "packet_op_ok (Pk_add_byte_tag_range i t s e) vs"
  shows "packet_step sys (Pk_add_byte_tag_range i t s e) (ps, w) (vs, k)"
proof -
  have i: "i < length vs" and t: "tag_ok t" "pv_load (vs ! i) + tag_load t < 2 ^ 29" and se: "s \<le> e" "unat e < 2 ^ 29"
    using assms(3) by (simp_all add: small_def)
  have s: "unat s < 2 ^ 29" "\<not> e < s"
    using se(1) order_le_less_trans [OF _ se(2), of "unat s"] by (simp_all add: word_le_nat_alt not_less)
  have ints: "sint s = int (unat s)" "sint e = int (unat e)"
    by (rule sint_nat(1), use s(1) se(2) in simp)+
  have bounds: "\<bar>int (unat s)\<bar> \<le> 2 ^ 29" "\<bar>int (unat e)\<bar> \<le> 2 ^ 29"
    using unat_bound s(1) se(2) by blast+
  obtain l v where l: "bt_put_tag t (int (unat s)) (int (unat e)) (pk_byteTags (ps ! i)) (pw_byte w) = Inr (l, v)"
    "byte_becomes (mset (drop_at i (map pk_byteTags ps))) (pw_byte w) (pv_load (vs ! i) + tag_load t,
      mark_range (int (unat s)) (int (unat e)) (tag_tid t, tag_bytes t) (map snd (pv_bytes (vs ! i)))) (l, v)"
    using put_tag_ok [OF assms(1) i t bounds] by blast
  let ?v = "change_bytes (tag_bytes_in (int (unat s)) (int (unat e)) t) (tag_load t) (vs ! i)"
  have d: "data_of ?v = data_of (vs ! i)"
    by (simp add: data_of_def [of "vs ! i"])
  show ?thesis
    by (rule step_bytes [OF assms(1) i, where v = ?v and b = "pk_buffer (ps ! i)" and l = l and ?v1.0 = "pw_buf w" and ?v2.0 = v])
      (use l ints s(2) same_parts(1) [OF assms(1) i] d in
        \<open>simp_all add: update_at_def packet_add_byte_tag_range_def in_byte_def del: data_of_simps of_nat_unat\<close>)
qed

lemma byte_tags_step:
  assumes "packets_ok sys (ps, w) (vs, k)" and "packets_room vs" and "packet_op_ok (Pk_byte_tags i) vs"
  shows "packet_step sys (Pk_byte_tags i) (ps, w) (vs, k)"
proof -
  have i: "i < length vs"
    using assms(3) by simp
  note sz = packet_size_ok(1,3) [OF assms(1) i]
  obtain items where "res_bind (bt_begin 0 (int (size_of (vs ! i))) (pk_byteTags (ps ! i)) (pw_byte w))
      (byte_tag_items (bt_fuel (pk_byteTags (ps ! i))) (bt_memory (pk_byteTags (ps ! i)) (pw_byte w))) = Inr items"
    "map (covering items) [0..<size_of (vs ! i)] = map snd (pv_bytes (vs ! i))"
    using byte_items_ok [OF byte_at(2) [OF assms(1) i]] by (auto simp: size_of_def)
  then show ?thesis
    using assms(1) sz by (simp add: packet_step_def packet_byte_tag_items_def packet_byte_tags_def)
qed

lemma clear_byte_tags_step:
  assumes "packets_ok sys (ps, w) (vs, k)" and "packets_room vs" and "packet_op_ok (Pk_clear_byte_tags i) vs"
  shows "packet_step sys (Pk_clear_byte_tags i) (ps, w) (vs, k)"
proof -
  have i: "i < length vs"
    using assms(3) by simp
  let ?v = "(vs ! i)\<lparr>pv_bytes := plain (data_of (vs ! i)), pv_load := 0\<rparr>"
  have v: "data_of ?v = data_of (vs ! i)" "byte_of ?v = (0, replicate (size_of (vs ! i)) [])"
    by (simp_all add: data_of_def [of ?v] byte_of_def)
  obtain u where u: "bt_remove_all (pk_byteTags (ps ! i)) (pw_byte w) = Inr (bt_empty, u)"
    "byte_becomes (mset (drop_at i (map pk_byteTags ps))) (pw_byte w) (byte_of ?v) (bt_empty, u)"
    using bt_remove_all_ok [OF byte_at(1) [OF assms(1) i] packet_size_ok(2) [OF assms(1) i]] unfolding v by blast
  show ?thesis
    by (rule step_bytes [OF assms(1) i, where v = ?v and b = "pk_buffer (ps ! i)" and l = bt_empty and ?v1.0 = "pw_buf w" and ?v2.0 = u])
      (use u same_parts(1) [OF assms(1) i] v(1) in
        \<open>simp_all add: update_at_def packet_remove_all_byte_tags_def in_byte_def\<close>)
qed

section \<open>Packet tags\<close>

lemma tag_steps:
  assumes "packets_ok sys (ps, w) (vs, k)" and "packets_room vs"
  shows "packet_op_ok (Pk_add_tag i t) vs \<Longrightarrow> packet_step sys (Pk_add_tag i t) (ps, w) (vs, k)"
    and "packet_op_ok (Pk_replace_tag i t) vs \<Longrightarrow> packet_step sys (Pk_replace_tag i t) (ps, w) (vs, k)"
    and "packet_op_ok (Pk_remove_tag i tid) vs \<Longrightarrow> packet_step sys (Pk_remove_tag i tid) (ps, w) (vs, k)"
    and "packet_op_ok (Pk_peek_tag i tid) vs \<Longrightarrow> packet_step sys (Pk_peek_tag i tid) (ps, w) (vs, k)"
    and "packet_op_ok (Pk_clear_tags i) vs \<Longrightarrow> packet_step sys (Pk_clear_tags i) (ps, w) (vs, k)"
proof -
  note len = packets_okD(4) [OF assms(1)]
  show "packet_step sys (Pk_add_tag i t) (ps, w) (vs, k)" if prem: "packet_op_ok (Pk_add_tag i t) vs"
  proof -
    have i: "i < length vs"
      using prem by simp
    obtain m v where "tags_add t (pk_tags (ps ! i), pw_tag w) = Inr (m, v)"
      "lists_ok ((map pk_tags ps)[i := m], v) ((map pv_tags vs)[i := (tag_tid t, tag_bytes t) # pv_tags (vs ! i)])"
      using tags_step [OF assms, of "Tags_add i t"] prem len by (auto simp: res_map_eq_Inr)
    then show ?thesis
      by (intro step_tags [OF assms(1) i, of _ _ m v "Cons (tag_tid t, tag_bytes t)"])
        (simp_all add: packet_add_tag_def in_tag_def update_at_def)
  qed
  show "packet_step sys (Pk_replace_tag i t) (ps, w) (vs, k)" if prem: "packet_op_ok (Pk_replace_tag i t) vs"
  proof -
    have i: "i < length vs"
      using prem by simp
    obtain m v where "tags_replace t (pk_tags (ps ! i), pw_tag w) = Inr (tag_tid t \<in> fst ` set (pv_tags (vs ! i)), m, v)"
      "lists_ok ((map pk_tags ps)[i := m], v) ((map pv_tags vs)[i := replaced_tag t (pv_tags (vs ! i))])"
      using tags_step [OF assms, of "Tags_replace i t"] prem len by (auto simp: res_map_eq_Inr)
    then show ?thesis
      by (intro step_tags [OF assms(1) i, of _ _ m v "replaced_tag t"]) (simp_all add: packet_replace_tag_def update_at_def)
  qed
  show "packet_step sys (Pk_remove_tag i tid) (ps, w) (vs, k)" if prem: "packet_op_ok (Pk_remove_tag i tid) vs"
  proof -
    have i: "i < length vs"
      using prem by simp
    obtain m v where "tags_remove tid (pk_tags (ps ! i), pw_tag w) =
        Inr (tid \<in> fst ` set (pv_tags (vs ! i)), map_of (pv_tags (vs ! i)) tid, m, v)"
      "lists_ok ((map pk_tags ps)[i := m], v) ((map pv_tags vs)[i := without_tag tid (pv_tags (vs ! i))])"
      using tags_step [OF assms, of "Tags_remove i tid"] prem len by (auto simp: res_map_eq_Inr)
    then show ?thesis
      by (intro step_tags [OF assms(1) i, of _ _ m v "without_tag tid"]) (simp_all add: packet_remove_tag_def update_at_def)
  qed
  show "packet_step sys (Pk_peek_tag i tid) (ps, w) (vs, k)" if prem: "packet_op_ok (Pk_peek_tag i tid) vs"
    using tags_step [OF assms, of "Tags_peek i tid"] prem len assms(1)
    by (auto simp: res_map_eq_Inr packet_step_def packet_peek_tag_def)
  show "packet_step sys (Pk_clear_tags i) (ps, w) (vs, k)" if prem: "packet_op_ok (Pk_clear_tags i) vs"
  proof -
    have i: "i < length vs"
      using prem by simp
    obtain m v where "tags_remove_all (pk_tags (ps ! i), pw_tag w) = Inr (m, v)"
      "lists_ok ((map pk_tags ps)[i := m], v) ((map pv_tags vs)[i := []])"
      using tags_step [OF assms, of "Tags_remove_all i"] prem len by (auto simp: res_map_eq_Inr)
    then show ?thesis
      by (intro step_tags [OF assms(1) i, of _ _ m v "\<lambda>_. []"])
        (simp_all add: packet_remove_all_tags_def in_tag_def update_at_def)
  qed
qed

section \<open>Sessions\<close>

lemmas packet_steps = create_step create_bytes_step copy_step assign_step destroy_step fragment_step add_header_step
  remove_header_step add_trailer_step remove_trailer_step remove_start_step remove_end_step data_step add_byte_tag_step
  add_byte_tag_range_step byte_tags_step clear_byte_tags_step tag_steps

lemma packet_do_ok:
  assumes "packets_ok sys s S" and "packet_op_ok x (fst S)" and "packets_room (fst S)"
  shows "packet_step sys x s S"
proof -
  obtain ps w vs k where s: "s = (ps, w)" "S = (vs, k)"
    by (cases s, cases S)
  show ?thesis
    unfolding s using assms [unfolded s] by (cases x) (simp_all add: packet_steps del: packet_op_ok.simps)
qed

lemma packet_run_ok:
  "packets_ok sys s S \<Longrightarrow> packet_ops_ok sys xs S \<Longrightarrow>
   \<exists>s'. packet_run xs s = Inr (fst (value_run sys xs S), s') \<and> packets_ok sys s' (snd (value_run sys xs S))"
proof (induction xs arbitrary: s S)
  case (Cons x xs)
  then obtain s1 where s1: "packet_do x s = Inr (fst (value_do sys x S), s1)" "packets_ok sys s1 (snd (value_do sys x S))"
    using packet_do_ok [of sys s S x] by (auto simp: packet_step_def)
  obtain s' where "packet_run xs s1 = Inr (fst (value_run sys xs (snd (value_do sys x S))), s')"
    "packets_ok sys s' (snd (value_run sys xs (snd (value_do sys x S))))"
    using Cons.IH [OF s1(2)] Cons.prems(2) by auto
  then show ?case
    using s1(1) by (simp add: split_beta Let_def)
qed simp

end
