(* ===== verification/Packet_Properties.thy ===== *)
theory Packet_Properties
  imports Packet_Edits Buffer_Appending
begin

text \<open>
  The properties of \<open>Packet\<close>, for the packets of any session in a new world: they are values, a packet is appended to another one
  with its tags, padding does not have the value that is documented, and a tag of no byte can be found.
\<close>

definition bytes_fresh :: "(nat \<Rightarrow> nat \<Rightarrow> 8 word) \<Rightarrow> byte_world" where
  "bytes_fresh junk = \<lparr>yw_block = (\<lambda>_. None), yw_next = 0, yw_free = [], yw_maxSize = 0, yw_junk = junk\<rparr>"

definition packets_fresh :: "32 word \<Rightarrow> (nat \<Rightarrow> nat \<Rightarrow> 8 word) \<Rightarrow> packet_world" where
  "packets_fresh sys junk =
     \<lparr>pw_buf = buf_fresh junk, pw_byte = bytes_fresh junk, pw_tag = tags_fresh junk, pw_uid = 0, pw_systemId = sys\<rparr>"

lemma packets_ok_fresh: "packets_ok sys ([], packets_fresh sys junk) ([], 0)"
  by (simp add: packets_ok_def packets_fresh_def store_ok_fresh lists_ok_fresh stored_def byte_ok_def bytes_fresh_def)

text \<open>What a packet stands for.\<close>

definition packet_stands :: "packet_world \<Rightarrow> packet \<Rightarrow> packet_value \<Rightarrow> bool" where
  "packet_stands w p v \<longleftrightarrow> buf_view (pw_buf w) (pk_buffer p) = data_of v \<and>
     byte_holds (pw_byte w) (pk_byteTags p) (pv_load v, map snd (pv_bytes v)) \<and> holds (pw_tag w) (pk_tags p) (pv_tags v) \<and>
     pk_uid p = pv_uid v"

lemma packets_stand:
  assumes "packets_ok sys (ps, w) (vs, k)"
  shows "list_all2 (packet_stands w) ps vs"
proof (rule list_all2_all_nthI)
  show len: "length ps = length vs"
    by (rule packets_okD(4) [OF assms])
  fix i
  assume i: "i < length ps"
  then have i': "i < length vs"
    using len by simp
  have "buf_view (pw_buf w) (pk_buffer (ps ! i)) = data_of (vs ! i)"
    using store_ok_at(2) [OF packets_okD(1) [OF assms], of i] i i' by simp
  moreover have "holds (pw_tag w) (pk_tags (ps ! i)) (pv_tags (vs ! i))"
    using lists_ok_at(2) [OF packets_okD(3) [OF assms], of i] i i' by simp
  ultimately show "packet_stands w (ps ! i) (vs ! i)"
    using byte_at(2) [OF assms i'] same_parts(4) [OF assms i'] by (simp add: packet_stands_def)
qed

lemma packet_session_ok:
  assumes "packet_ops_ok sys xs ([], 0)" and "packet_run xs ([], packets_fresh sys junk) = Inr (out, ps, w)"
    and "snd (value_run sys xs ([], 0)) = (vs, k)"
  shows "packets_ok sys (ps, w) (vs, k)"
  using packet_run_ok [OF packets_ok_fresh assms(1), of junk] assms(2,3) by auto

text \<open>C4: Packets are values, although copies and fragments share their bytes, their byte tags and their packet tags. In
  every session of creation, copies, assignment, destruction, \<open>CreateFragment\<close>, headers and trailers that are added and
  removed, bytes that are removed at both ends, byte tags for the whole packet or a range and packet tags, no assertion fails,
  every loop ends, every call returns what it would return for lists of tagged bytes, and at the end every packet has
  the bytes, the tags of each byte, the packet tags and the number of its value. So a new header or trailer has no
  byte tags, and those of a removed header do not come back.\<close>

theorem packets_are_values:
  assumes "packet_ops_ok sys xs ([], 0)"
  shows "\<exists>ps w. packet_run xs ([], packets_fresh sys junk) = Inr (fst (value_run sys xs ([], 0)), ps, w) \<and>
    list_all2 (packet_stands w) ps (fst (snd (value_run sys xs ([], 0))))"
proof -
  obtain ps w where r: "packet_run xs ([], packets_fresh sys junk) = Inr (fst (value_run sys xs ([], 0)), ps, w)"
    "packets_ok sys (ps, w) (snd (value_run sys xs ([], 0)))"
    using packet_run_ok [OF packets_ok_fresh assms, of junk] by fastforce
  obtain vs k where v: "snd (value_run sys xs ([], 0)) = (vs, k)"
    by (cases "snd (value_run sys xs ([], 0))")
  show ?thesis
    using r packets_stand [OF r(2) [unfolded v]] v by simp
qed

definition demo_byte_tag :: "16 word \<Rightarrow> bytes \<Rightarrow> tag" where
  "demo_byte_tag tid bs = \<lparr>tag_tid = tid, tag_size = of_nat (length bs), tag_bytes = bs\<rparr>"

definition demo_chunk :: "bytes \<Rightarrow> chunk" where
  "demo_chunk bs = \<lparr>ck_size = of_nat (length bs), ck_bytes = bs\<rparr>"

text \<open>A packet with a tag on its three bytes gets a header; a copy loses the header and a byte and gets another one.\<close>

definition demo_packets :: "packet_op list" where
  "demo_packets =
     [Pk_create_bytes [1, 2, 3], Pk_add_byte_tag 0 (demo_byte_tag 5 [50]), Pk_add_header 0 (demo_chunk [8, 9]), Pk_copy 0,
      Pk_remove_start 1 3, Pk_add_header 1 (demo_chunk [7]), Pk_byte_tags 0, Pk_byte_tags 1, Pk_data 1 9]"

definition demo_packets_answers :: "packet_answer list" where
  "demo_packets_answers =
     [Seen [[], [], [(5, [50])], [(5, [50])], [(5, [50])]], Seen [[], [(5, [50])], [(5, [50])]], Took 3, Data [7, 2, 3]]"

lemma demo_parts [simp]:
  "tag_tid (demo_byte_tag tid bs) = tid" "tag_bytes (demo_byte_tag tid bs) = bs" "ck_bytes (demo_chunk bs) = bs"
  "tag_load (demo_byte_tag tid bs) = 16 + length bs"
  "length bs < 2 ^ 32 \<Longrightarrow> tag_ok (demo_byte_tag tid bs)" "length bs < 2 ^ 32 \<Longrightarrow> chunk_ok (demo_chunk bs)"
  by (simp_all add: demo_byte_tag_def demo_chunk_def tag_load_def tag_ok_def chunk_ok_def unat_nat32)

lemmas value_simps = update_at_def change_bytes_def new_packet_def plain_def size_of_def data_of_def small_def packets_room_def

lemma demo_packets_ok:
  "packet_ops_ok 0 demo_packets ([], 0)"
  "fst (value_run 0 demo_packets ([], 0)) = demo_packets_answers"
  by (simp_all add: demo_packets_def demo_packets_answers_def value_simps)

theorem packets_are_values_witness:
  "\<exists>ps w. packet_run demo_packets ([], packets_fresh 0 (\<lambda>_ _. 0)) = Inr (demo_packets_answers, ps, w) \<and>
    list_all2 (packet_stands w) ps (fst (snd (value_run 0 demo_packets ([], 0))))"
  using packets_are_values [OF demo_packets_ok(1), of "\<lambda>_ _. 0"] by (simp only: demo_packets_ok(2))

section \<open>One packet behind another\<close>

text \<open>C14: \<open>AddAtEnd\<close> of a packet appends its bytes with their tags to another packet, and leaves all the other packets
  alone; the packet tags and the number stay those of the first one. The two cases in which \<open>Buffer::AddAtEnd\<close> goes
  wrong are left out.\<close>

theorem packet_append_concatenates:
  assumes "packet_ops_ok sys xs ([], 0)" and "packet_run xs ([], packets_fresh sys junk) = Inr (out, ps, w)"
    and "snd (value_run sys xs ([], 0)) = (vs, k)" and "i < length vs" and "j < length vs" and "i \<noteq> j" and "packets_room vs"
    and "size_of (vs ! i) + size_of (vs ! j) < 2 ^ 29" and "pv_load (vs ! i) + pv_load (vs ! j) + size_of (vs ! i) < 2 ^ 29"
    and "bw_data (pw_buf w) (b_data (pk_buffer (ps ! i))) = Some d"
    and "append_fast d (pk_buffer (ps ! i)) (pk_buffer (ps ! j)) \<Longrightarrow> back_len (pk_buffer (ps ! j)) = 0"
    and "b_data (pk_buffer (ps ! j)) = b_data (pk_buffer (ps ! i)) \<Longrightarrow>
      zero_len (pk_buffer (ps ! i)) > 0 \<or> b_end (pk_buffer (ps ! i)) \<noteq> bd_dirtyEnd d"
  shows "\<exists>p w'. packet_append (ps ! j) (ps ! i) w = Inr (p, w') \<and>
    list_all2 (packet_stands w') (ps[i := p])
      (vs[i := change_bytes (\<lambda>bs. bs @ pv_bytes (vs ! j)) (pv_load (vs ! j) + size_of (vs ! i)) (vs ! i)])"
proof -
  note ok = packet_session_ok [OF assms(1-3)]
  let ?v = "change_bytes (\<lambda>bs. bs @ pv_bytes (vs ! j)) (pv_load (vs ! j) + size_of (vs ! i)) (vs ! i)"
  note z = sizes_at [OF ok assms(7,4)] and zj = sizes_at(1) [OF ok assms(7,5)] and sz = packet_size_ok(3) [OF ok assms(4)]
  obtain b u where b: "buf_append (pk_buffer (ps ! j)) (pk_buffer (ps ! i)) (pw_buf w) = Inr (b, u)"
    "store_ok ((map pk_buffer ps)[i := b], u) ((map data_of vs)[i := data_of ?v])"
  proof -
    note at = store_ok_at [OF packets_okD(1) [OF ok], of i] and atj = store_ok_at [OF packets_okD(1) [OF ok], of j]
    let ?M = "mset (drop_at i (map pk_buffer ps))"
    have W: "world_ok (pw_buf w) (add_mset (pk_buffer (ps ! i)) ?M)" and vi: "buf_view (pw_buf w) (pk_buffer (ps ! i)) = data_of (vs ! i)"
      and vj: "buf_view (pw_buf w) (pk_buffer (ps ! j)) = data_of (vs ! j)"
      using at atj z(1) zj assms(4,5) by simp_all
    have j: "pk_buffer (ps ! j) \<in># ?M"
      using nth_drop_at [of j "map pk_buffer ps" i] assms(6) zj by simp
    have size: "size ?M < 2 ^ 32 - 3"
      using z(1,4) by (simp add: drop_at_length packets_okD(4) [OF ok])
    have len: "length (buf_view (pw_buf w) (pk_buffer (ps ! i))) + length (buf_view (pw_buf w) (pk_buffer (ps ! j))) < 2 ^ 29"
      using assms(8) vi vj by simp
    have "\<exists>b u. buf_append (pk_buffer (ps ! j)) (pk_buffer (ps ! i)) (pw_buf w) = Inr (b, u) \<and> world_ok u (add_mset b ?M) \<and>
        keeps ?M (pw_buf w) u \<and> buf_view u b = data_of (vs ! i) @ data_of (vs ! j)"
    proof (cases "append_fast d (pk_buffer (ps ! i)) (pk_buffer (ps ! j))")
      case True
      from append_fast_ok [OF W j assms(10) len True assms(11) [OF True]] show ?thesis
        by (simp add: vi vj)
    next
      case False
      have "b_data (pk_buffer (ps ! j)) \<noteq> b_data (pk_buffer (ps ! i)) \<or> zero_len (pk_buffer (ps ! i)) > 0 \<or>
          b_end (pk_buffer (ps ! i)) \<noteq> bd_dirtyEnd d"
        using assms(12) by blast
      from append_slow_ok [OF W j size assms(10) len False this] show ?thesis
        by (simp add: vi vj)
    qed
    then obtain b u where r: "buf_append (pk_buffer (ps ! j)) (pk_buffer (ps ! i)) (pw_buf w) = Inr (b, u)"
      "world_ok u (add_mset b ?M)" "keeps ?M (pw_buf w) u" "buf_view u b = data_of (vs ! i) @ data_of (vs ! j)"
      by blast
    have "data_of ?v = buf_view u b"
      using r(4) by (simp add: data_of_def [of "vs ! i"] data_of_def [of "vs ! j"])
    then show thesis
      using that [OF r(1)] store_ok_replace [OF packets_okD(1) [OF ok] _ r(2,3)] z(1) by simp
  qed
  note ati = byte_at [OF ok assms(4)] and atj = byte_at(2) [OF ok assms(5)]
  have j: "pk_byteTags (ps ! j) \<in># mset (drop_at i (map pk_byteTags ps))"
    using nth_drop_at [of j "map pk_byteTags ps" i] assms(6) zj by simp
  have len: "length (map snd (pv_bytes (vs ! i))) + length (map snd (pv_bytes (vs ! j))) < 2 ^ 29"
    "pv_load (vs ! i) + pv_load (vs ! j) + length (map snd (pv_bytes (vs ! i))) < 2 ^ 29"
    "size (mset (drop_at i (map pk_byteTags ps))) < 2 ^ 32 - 4"
    using assms(8,9) z(3) by (simp_all add: size_of_def)
  from byte_append_ok [OF ati(1) j ati(2) atj len] obtain l1 w1 c w2 c3 w3 c4 l' w4 w' where
    l: "bt_add_at_end (int (size_of (vs ! i))) (pk_byteTags (ps ! i)) (pw_byte w) = Inr (l1, w1)"
    "bt_copy (pk_byteTags (ps ! j)) w1 = Inr (c, w2)" "bt_add_at_start 0 c w2 = Inr (c3, w3)"
    "bt_adjust (int (size_of (vs ! i))) c3 = Inr c4" "bt_add_list c4 l1 w3 = Inr (l', w4)" "bt_destroy c4 w4 = Inr w'"
    "byte_becomes (mset (drop_at i (map pk_byteTags ps))) (pw_byte w) (byte_of ?v) (l', w')"
    by (auto simp: size_of_def ac_simps)
  let ?p = "(ps ! i)\<lparr>pk_buffer := b, pk_byteTags := l'\<rparr>" and ?w = "w\<lparr>pw_buf := u, pw_byte := w'\<rparr>"
  have "packet_append (ps ! j) (ps ! i) w = Inr (?p, ?w)"
    using b(1) l(1-6) sz by (simp add: packet_append_def in_buf_def in_byte_def no_result_def)
  moreover have "packets_ok sys (ps[i := ?p], ?w) (vs[i := ?v], k)"
    by (rule packets_set [OF ok assms(4)]) (use b(2) byte_set [OF ok assms(4) l(7)] same_parts [OF ok assms(4)] in simp_all)
  ultimately show ?thesis
    using packets_stand by blast
qed

definition demo_pair :: "packet_op list" where
  "demo_pair =
     [Pk_create_bytes [1, 2], Pk_add_byte_tag 0 (demo_byte_tag 5 [50]), Pk_create_bytes [3], Pk_add_byte_tag 1 (demo_byte_tag 6 [])]"

definition demo_pair_values :: "packet_value list" where
  "demo_pair_values =
     [\<lparr>pv_bytes = [(1, [(5, [50])]), (2, [(5, [50])])], pv_tags = [], pv_uid = 0, pv_load = 17\<rparr>,
      \<lparr>pv_bytes = [(3, [(6, [])])], pv_tags = [], pv_uid = 1, pv_load = 16\<rparr>]"

lemma demo_pair_ok: "packet_ops_ok 0 demo_pair ([], 0)" "snd (value_run 0 demo_pair ([], 0)) = (demo_pair_values, 2)"
  by (simp_all add: demo_pair_def demo_pair_values_def value_simps)

lemma demo_pair_run:
  "case packet_run demo_pair ([], packets_fresh 0 (\<lambda>_ _. 3)) of Inl _ \<Rightarrow> False
   | Inr (out, ps, w) \<Rightarrow> length ps = 2 \<and> back_len (pk_buffer (ps ! 1)) = 0 \<and>
       b_data (pk_buffer (ps ! 1)) \<noteq> b_data (pk_buffer (ps ! 0)) \<and> bw_data (pw_buf w) (b_data (pk_buffer (ps ! 0))) \<noteq> None"
  by code_simp

theorem packet_append_concatenates_witness:
  "\<exists>out ps w p w'. packet_run demo_pair ([], packets_fresh 0 (\<lambda>_ _. 3)) = Inr (out, ps, w) \<and>
     packet_append (ps ! 1) (ps ! 0) w = Inr (p, w') \<and>
     packet_stands w' p \<lparr>pv_bytes = [(1, [(5, [50])]), (2, [(5, [50])]), (3, [(6, [])])], pv_tags = [], pv_uid = 0, pv_load = 35\<rparr>"
proof -
  obtain out ps w d where r: "packet_run demo_pair ([], packets_fresh 0 (\<lambda>_ _. 3)) = Inr (out, ps, w)" "length ps = 2"
    "back_len (pk_buffer (ps ! 1)) = 0" "b_data (pk_buffer (ps ! 1)) \<noteq> b_data (pk_buffer (ps ! 0))"
    "bw_data (pw_buf w) (b_data (pk_buffer (ps ! 0))) = Some d"
    using demo_pair_run by (auto split: sum.splits)
  obtain p w' where "packet_append (ps ! 1) (ps ! 0) w = Inr (p, w')" "list_all2 (packet_stands w') (ps[0 := p])
      (demo_pair_values[0 := change_bytes (\<lambda>bs. bs @ pv_bytes (demo_pair_values ! 1))
         (pv_load (demo_pair_values ! 1) + size_of (demo_pair_values ! 0)) (demo_pair_values ! 0)])"
    using packet_append_concatenates [OF demo_pair_ok(1) r(1) demo_pair_ok(2), of 0 1 d] r(3-5)
    by (auto simp: demo_pair_values_def packets_room_def size_of_def)
  then show ?thesis
    using r(1,2) by (cases ps) (auto simp: demo_pair_values_def change_bytes_def size_of_def)
qed

section \<open>Padding\<close>

text \<open>\<open>AddPaddingAtEnd\<close> adds the number of bytes that it is given, without byte tags, and changes nothing else. Nothing
  can be said of the values of the new bytes.\<close>

theorem packet_padding_is_plain:
  assumes "packet_ops_ok sys xs ([], 0)" and "packet_run xs ([], packets_fresh sys junk) = Inr (out, ps, w)"
    and "snd (value_run sys xs ([], 0)) = (vs, k)" and "i < length vs" and "packets_room vs" and "size_of (vs ! i) + unat n < 2 ^ 29"
  shows "\<exists>p w' g. packet_add_padding n (ps ! i) w = Inr (p, w') \<and> length g = unat n \<and>
    list_all2 (packet_stands w') (ps[i := p]) (vs[i := change_bytes (\<lambda>bs. bs @ plain g) 0 (vs ! i)])"
proof -
  note ok = packet_session_ok [OF assms(1-3)]
  note z = sizes_at [OF ok assms(5,4)]
  note at = store_ok_at [OF packets_okD(1) [OF ok], of i]
  have v: "buf_view (pw_buf w) (pk_buffer (ps ! i)) = data_of (vs ! i)"
    and W: "world_ok (pw_buf w) (add_mset (pk_buffer (ps ! i)) (mset (drop_at i (map pk_buffer ps))))"
    using at z(1) assms(4) by simp_all
  obtain b u g where b: "buf_add_end n (pk_buffer (ps ! i)) (pw_buf w) = Inr (b, u)"
    "world_ok u (add_mset b (mset (drop_at i (map pk_buffer ps))))" "keeps (mset (drop_at i (map pk_buffer ps))) (pw_buf w) u"
    "length g = unat n" "buf_view u b = data_of (vs ! i) @ g"
    using buf_add_end_ok [OF W, of n] assms(6) v by (auto simp: grown_end_def)
  let ?v = "change_bytes (\<lambda>bs. bs @ plain g) 0 (vs ! i)"
  have "data_of ?v = buf_view u b"
    using b(5) by (simp add: data_of_def [of "vs ! i"])
  then have store: "store_ok ((map pk_buffer ps)[i := b], u) ((map data_of vs)[i := data_of ?v])"
    using store_ok_replace [OF packets_okD(1) [OF ok] _ b(2,3)] z(1) by simp
  obtain l y where l: "bt_add_at_end (sint (packet_size (ps ! i))) (pk_byteTags (ps ! i)) (pw_byte w) = Inr (l, y)"
    "byte_becomes (mset (drop_at i (map pk_byteTags ps))) (pw_byte w) (byte_of ?v) (l, y)"
    using byte_grow_at [OF ok assms(5,4,6)] b(4) by auto
  let ?p = "(ps ! i)\<lparr>pk_buffer := b, pk_byteTags := l\<rparr>" and ?w = "w\<lparr>pw_buf := u, pw_byte := y\<rparr>"
  have "packet_add_padding n (ps ! i) w = Inr (?p, ?w)"
    using b(1) l(1) by (simp add: packet_add_padding_def in_buf_def in_byte_def)
  moreover have "packets_ok sys (ps[i := ?p], ?w) (vs[i := ?v], k)"
    by (rule packets_set [OF ok assms(4)]) (use store byte_set [OF ok assms(4) l(2)] same_parts [OF ok assms(4)] in simp_all)
  ultimately show ?thesis
    using b(4) packets_stand by blast
qed

theorem packet_padding_is_plain_witness:
  "\<exists>out ps w p w' g. packet_run demo_pair ([], packets_fresh 0 (\<lambda>_ _. 3)) = Inr (out, ps, w) \<and>
     packet_add_padding 2 (ps ! 1) w = Inr (p, w') \<and> length g = 2 \<and>
     packet_stands w' p \<lparr>pv_bytes = (3, [(6, [])]) # plain g, pv_tags = [], pv_uid = 1, pv_load = 16\<rparr>"
proof -
  obtain out ps w where r: "packet_run demo_pair ([], packets_fresh 0 (\<lambda>_ _. 3)) = Inr (out, ps, w)" "length ps = 2"
    using demo_pair_run by (auto split: sum.splits)
  obtain p w' g where "packet_add_padding 2 (ps ! 1) w = Inr (p, w')" "length g = unat (2 :: 32 word)"
    "list_all2 (packet_stands w') (ps[1 := p]) (demo_pair_values[1 := change_bytes (\<lambda>bs. bs @ plain g) 0 (demo_pair_values ! 1)])"
    using packet_padding_is_plain [OF demo_pair_ok(1) r(1) demo_pair_ok(2), of 1 2]
    by (auto simp: demo_pair_values_def packets_room_def size_of_def)
  moreover have "(ps[1 := p]) ! 1 = p"
    using r(2) by simp
  ultimately show ?thesis
    using r(1) list_all2_nthD2 [of "packet_stands w'" "ps[1 := p]" _ 1]
    by (fastforce simp: demo_pair_values_def change_bytes_def)
qed

text \<open>The padding is documented as filled with zeros. After three bytes lost the last two, two bytes of padding bring them
  back.\<close>

lemma padding_brings_bytes_back:
  "res_bind (packet_run [Pk_create_bytes [1, 2, 3], Pk_remove_end 0 2] ([], packets_fresh 0 (\<lambda>_ _. 0))) (\<lambda>(_, ps, w).
   res_bind (packet_add_padding 2 (ps ! 0) w) (\<lambda>(p, w). packet_copy_data 3 p w)) = Inr (3, [1, 2, 3])"
  by code_simp

text \<open>A tag for the bytes of an empty packet is on no byte; when the packet has got a header and a trailer the search finds it
  all the same, between the two.\<close>

lemma tag_of_no_byte_is_found:
  "res_bind (packet_run [Pk_create 0, Pk_add_byte_tag 0 (demo_byte_tag 5 [50]), Pk_add_header 0 (demo_chunk [8, 9]),
      Pk_add_trailer 0 (demo_chunk [7]), Pk_byte_tags 0] ([], packets_fresh 0 (\<lambda>_ _. 0))) (\<lambda>(out, ps, w).
   res_map (\<lambda>x. (out, x)) (packet_find_byte_tag 5 (ps ! 0) w)) = Inr ([Seen [[], [], []]], Some [50])"
  by code_simp

end
