(* ===== verification/Packet_Wire_Properties.thy ===== *)
theory Packet_Wire_Properties
  imports Packet_Wire Packet_Properties
begin

text \<open>
  The properties of the serialisation of packets, for the packets of any session in a new world: a packet is read back as the
  same value, and memory that is too small is overrun.
\<close>

section \<open>The round trip\<close>

lemma tag_part_ok:
  assumes "tags_ok w H" and "holds w m vs" and "tags_known r vs" and "4 + wire_size vs < 2 ^ 30"
  shows "tags_serialized_size (m, w) = Inr (of_nat (4 + wire_size vs))"
    and "part_written (4 + wire_size vs) (\<lambda>n o'. tags_serialize r n o' (m, w)) (tag_part r vs)"
proof -
  show "tags_serialized_size (m, w) = Inr (of_nat (4 + wire_size vs))"
    using assms(4) by (intro tags_serialized_size_ok [OF assms(1,2)]) simp
  have "4 + wire_size vs \<le> unat (of_nat (4 + wire_size vs) :: 32 word)"
    using unat_nat32 [of "4 + wire_size vs"] assms(4) by simp
  then show "part_written (4 + wire_size vs) (\<lambda>n o'. tags_serialize r n o' (m, w)) (tag_part r vs)"
    using tags_serialize_ok [OF assms] unfolding part_written_def tag_part_def by blast
qed

lemma packet_read_back:
  assumes "packets_ok sys (ps, w) (vs, k)" and "i < length vs" and "iid_ok r" and "uid = pv_uid (vs ! i)"
    and "bytes_at inp 0 (le_bytes 4 (4 :: 32 word))" and "part_at A P 4 inp" and "part_at B (tag_part r (pv_tags (vs ! i))) (4 + 4 + A) inp"
    and "part_at 8 (uid_part uid) (4 + 4 + A + 4 + B) inp" and "part_at C (\<lambda>o'. wire_form o' z f g) (4 + 4 + A + 4 + B + 4 + 8) inp"
    and "4 dvd A" and "A < 2 ^ 30" and "B = 4 + wire_size (pv_tags (vs ! i))" and "B < 2 ^ 30" and "C = buf_part_size f g" and "C < 2 ^ 30"
    and "\<And>v M inp. byte_ok v M \<Longrightarrow> P inp \<Longrightarrow> \<exists>l v'.
      bt_deserialize r inp (of_nat A + 4) bt_empty v = Inr (1, l, v') \<and> byte_becomes M v (byte_of (vs ! i)) (l, v')"
    and "f @ replicate (unat z) 0 @ g = data_of (vs ! i)" and "28 + A + B + C \<le> length inp"
  shows "\<exists>p w'. packet_create_wire r inp (of_nat (28 + A + B + C)) True w = Inr (Some p, w') \<and>
    packets_ok sys (ps @ [p], w') (vs @ [vs ! i], k)"
proof -
  let ?v = "vs ! i"
  note ok = assms(1)
  obtain l y where l: "bt_deserialize r (drop (4 + 4) inp) (of_nat A + 4) bt_empty (pw_byte w) = Inr (1, l, y)"
    "byte_becomes (mset (map pk_byteTags ps)) (pw_byte w) (byte_of ?v) (l, y)"
    using assms(16) [OF byte_at(4) [OF ok assms(2)]] assms(6) unfolding part_at_def by blast
  have T: "tags_ok (pw_tag w) (mset (map pk_tags ps))"
    using packets_okD(3) [OF ok] by (simp add: lists_ok_def)
  have t: "wire_tags r (drop (4 + 4 + A + 4) inp) 4 (pv_tags ?v)" "in_u32 0 (drop (4 + 4 + A + 4) inp) = Inr (of_nat (length (pv_tags ?v)))"
    using assms(7) by (simp_all add: part_at_def tag_part_def)
  have B: "4 + wire_size (pv_tags ?v) < 2 ^ 30" "4 + wire_size (pv_tags ?v) \<le> length (drop (4 + 4 + A + 4) inp)"
    using assms(12,13,18) by simp_all
  obtain m t' where m: "tags_deserialize r (drop (4 + 4 + A + 4) inp) (of_nat B + 4) (None, pw_tag w) = Inr (1, m, t')"
    "tags_ok t' (add_mset m (mset (map pk_tags ps)))" "tags_keep (mset (map pk_tags ps)) (pw_tag w) t'" "holds t' m (pv_tags ?v)"
    using tags_deserialize_ok [OF assms(3) t B T] unfolding assms(12) by blast
  have W: "world_ok (pw_buf w) (mset (map pk_buffer ps))"
    using store_ok_at [OF packets_okD(1) [OF ok], of i] assms(2) packets_okD(4) [OF ok] by simp
  have form: "wire_form (drop (4 + 4 + A + 4 + B + 4 + 8 + 4) inp) z f g"
    using assms(9) by (simp add: part_at_def add.assoc)
  have "length (data_of ?v) < 2 ^ 29"
    using packet_size_ok(2) [OF ok assms(2)] by (simp add: data_of_def size_of_def)
  then have lt: "unat z + length f + length g < 2 ^ 29"
    unfolding assms(17) [symmetric] by simp
  have C: "of_nat C + 4 = 16 + round4 (of_nat (length f)) + round4 (of_nat (length g))"
    using lt by (simp add: assms(14) buf_part_size_def round4_length)
  obtain b u where b: "buf_deserialize (drop (4 + 4 + A + 4 + B + 4 + 8 + 4) inp) (of_nat C + 4) (pw_buf w) = Inr (1, b, u)"
    "world_ok u (add_mset b (mset (map pk_buffer ps)))" "keeps (mset (map pk_buffer ps)) (pw_buf w) u" "buf_view u b = data_of ?v"
    using buf_deserialize_ok [OF W form lt C] unfolding assms(17) by blast
  let ?p = "\<lparr>pk_buffer = b, pk_byteTags = l, pk_tags = m, pk_uid = uid\<rparr>" and ?w = "w\<lparr>pw_byte := y, pw_tag := t', pw_buf := u\<rparr>"
  have dvd: "4 dvd B" "4 dvd C"
    using dvd_sizes(3,4) unfolding assms(12,14) by (simp_all add: dvd_add)
  have "packet_deserialize r inp (of_nat (28 + A + B + C)) w = Inr (1, Some ?p, ?w)"
    by (rule packet_deserialize_ok [OF assms(5-11) dvd(1) assms(13) dvd(2) assms(15) l(1) m(1) b(1)])
  moreover have "packets_ok sys (ps @ [?p], ?w) (vs @ [?v], k)"
    using store_ok_add [OF packets_okD(1) [OF ok] b(2,3)] byte_add [OF ok l(2)] lists_ok_add [OF packets_okD(3) [OF ok] m(2-4)]
      packets_okD(5,6) [OF ok] assms(4) b(4) by (intro packets_add [OF ok]) simp_all
  ultimately show ?thesis
    by (simp add: packet_create_wire_def)
qed

lemma registered_known:
  assumes "iid_register hasher names iid_empty = Inr r"
  shows "iid_ok r" and "t \<noteq> 0 \<Longrightarrow> unat t \<le> length names \<Longrightarrow> type_known r t"
proof -
  have "iid_ok r" "length (iid_information r) = length names"
    using iid_ok_register [OF iid_ok_empty assms] by (auto simp: iid_empty_def dest: map_eq_imp_length_eq)
  then show "iid_ok r" and "t \<noteq> 0 \<Longrightarrow> unat t \<le> length names \<Longrightarrow> type_known r t"
    by (auto simp: type_known_def iid_get_hash_def iid_lookup_information_def)
qed

lemma packet_parts:
  assumes "packets_ok sys (ps, w) (vs, k)" and "i < length vs" and "iid_ok r"
    and "bt_types (pk_byteTags (ps ! i)) (pw_byte w) = Inr tids" and "\<forall>t \<in> set tids. type_known r t"
    and "tags_known r (pv_tags (vs ! i))" and "4 + wire_size (pv_tags (vs ! i)) < 2 ^ 30"
  obtains bs f z g where "4 + bwire_size bs < 2 ^ 30" and "buf_part_size f g < 2 ^ 30"
    and "buf_serialized_size (pk_buffer (ps ! i)) = of_nat (buf_part_size f g)" and "f @ replicate (unat z) 0 @ g = data_of (vs ! i)"
    and "part_written (buf_part_size f g) (\<lambda>n o'. buf_serialize n o' (pk_buffer (ps ! i)) (pw_buf w)) (\<lambda>o'. wire_form o' z f g)"
    and "\<And>v M inp. byte_ok v M \<Longrightarrow> byte_part r bs inp \<Longrightarrow> \<exists>l v'. bt_deserialize r inp (of_nat (4 + bwire_size bs) + 4) bt_empty v =
      Inr (1, l, v') \<and> byte_becomes M v (byte_of (vs ! i)) (l, v')"
    and "packet_serialized_size (ps ! i) w =
      Inr (of_nat (28 + (4 + bwire_size bs) + (4 + wire_size (pv_tags (vs ! i))) + buf_part_size f g))"
    and "\<And>maxSize mem. 12 + (4 + bwire_size bs) + (4 + wire_size (pv_tags (vs ! i))) \<le> unat maxSize \<Longrightarrow>
      24 + (4 + bwire_size bs) + (4 + wire_size (pv_tags (vs ! i))) \<le> length mem \<Longrightarrow>
      \<exists>o3. three_written r (4 + bwire_size bs) (byte_part r bs) (4 + wire_size (pv_tags (vs ! i))) (tag_part r (pv_tags (vs ! i)))
        maxSize mem (ps ! i) w o3"
proof -
  note ok = assms(1)
  have len: "length ps = length vs"
    by (rule packets_okD(4) [OF ok])
  let ?q = "ps ! i" and ?v = "vs ! i"
  let ?us = "pv_tags (vs ! i)"
  note same = same_parts [OF ok assms(2)]
  note store = store_ok_at [OF packets_okD(1) [OF ok], of i]
  have W: "world_ok (pw_buf w) (mset (map pk_buffer ps))" and view: "buf_view (pw_buf w) (pk_buffer ?q) = data_of ?v"
    and q: "pk_buffer ?q \<in># mset (map pk_buffer ps)"
    using store assms(2) len by simp_all
  have "length (buf_view (pw_buf w) (pk_buffer ?q)) < 2 ^ 29"
    using packet_size_ok(2) [OF ok assms(2)] view by (simp add: data_of_def size_of_def)
  from buffer_part_ok [OF W q this] obtain f z g where
    c: "buf_serialized_size (pk_buffer ?q) = of_nat (buf_part_size f g)" "buf_part_size f g < 2 ^ 30"
    "part_written (buf_part_size f g) (\<lambda>n o'. buf_serialize n o' (pk_buffer ?q) (pw_buf w)) (\<lambda>o'. wire_form o' z f g)"
    "f @ replicate (unat z) 0 @ g = data_of ?v"
    unfolding view by blast
  from bytes_part_ok [OF byte_at(2) [OF ok assms(2)] assms(4,5)] obtain bs where
    a: "bt_serialized_size (pk_byteTags ?q) (pw_byte w) = Inr (of_nat (4 + bwire_size bs))" "4 + bwire_size bs < 2 ^ 30"
    "part_written (4 + bwire_size bs) (\<lambda>n o'. bt_serialize r n o' (pk_byteTags ?q) (pw_byte w)) (byte_part r bs)"
    "\<And>v M inp. iid_ok r \<Longrightarrow> byte_ok v M \<Longrightarrow> byte_part r bs inp \<Longrightarrow> \<exists>l' v'.
      bt_deserialize r inp (of_nat (4 + bwire_size bs) + 4) bt_empty v = Inr (1, l', v') \<and> byte_becomes M v (byte_of ?v) (l', v')"
    unfolding byte_of_def by blast
  have T: "tags_ok (pw_tag w) (mset (map pk_tags ps))" and holds: "holds (pw_tag w) (pk_tags ?q) ?us"
    using packets_okD(3) [OF ok] lists_ok_at(2) [OF packets_okD(3) [OF ok], of i] assms(2) len by (simp_all add: lists_ok_def)
  note b = tag_part_ok [OF T holds assms(6,7)]
  let ?A = "4 + bwire_size bs" and ?B = "4 + wire_size (pv_tags (vs ! i))" and ?C = "buf_part_size f g"
  have dvd: "4 dvd ?A" "4 dvd ?B" "4 dvd ?C"
    using dvd_sizes(2) [of bs] dvd_sizes(3) [of ?us] dvd_sizes(4) [of f g] by (simp_all add: dvd_add)
  let ?sz = "of_nat (28 + ?A + ?B + ?C) :: 32 word"
  have size: "packet_serialized_size ?q w = Inr ?sz"
    using a(1) b(1) c(1) round4_exact [OF a(2) dvd(1)] round4_exact [OF assms(7) dvd(2)] round4_exact [OF c(2) dvd(3)] round4_exact [of 8]
    by (simp add: packet_serialized_size_def meta_serialized_size_def Let_def)
  have three: "\<exists>o3. three_written r ?A (byte_part r bs) ?B (tag_part r ?us) maxSize mem ?q w o3"
    if "12 + ?A + ?B \<le> unat maxSize" "24 + ?A + ?B \<le> length mem" for maxSize mem
    by (rule packet_serialize_three [OF a(1) dvd(1) a(2) byte_part_prefix a(3) b(1) dvd(2) assms(7) tag_part_prefix [OF assms(7)]
        b(2) that])
  show ?thesis
    by (rule that [OF a(2) c(2,1,4,3) a(4) [OF assms(3)] size three])
qed

lemma packet_wire_ok:
  assumes "packets_ok sys (ps, w) (vs, k)" and "i < length vs" and "iid_ok r"
    and "bt_types (pk_byteTags (ps ! i)) (pw_byte w) = Inr tids" and "\<forall>t \<in> set tids. type_known r t"
    and "tags_known r (pv_tags (vs ! i))" and "4 + wire_size (pv_tags (vs ! i)) < 2 ^ 30"
  shows "\<exists>sz. packet_serialized_size (ps ! i) w = Inr sz \<and>
    (\<forall>maxSize mem. unat sz \<le> unat maxSize + 16 \<longrightarrow> unat sz \<le> length mem \<longrightarrow>
      (\<exists>mem' p w'. packet_serialize r maxSize mem (ps ! i) w = Inr (1, mem') \<and> length mem' = length mem \<and>
        packet_create_wire r mem' sz True w = Inr (Some p, w') \<and> packets_ok sys (ps @ [p], w') (vs @ [vs ! i], k)))"
proof -
  obtain bs f z g where p: "4 + bwire_size bs < 2 ^ 30" "buf_part_size f g < 2 ^ 30"
    "buf_serialized_size (pk_buffer (ps ! i)) = of_nat (buf_part_size f g)" "f @ replicate (unat z) 0 @ g = data_of (vs ! i)"
    "part_written (buf_part_size f g) (\<lambda>n o'. buf_serialize n o' (pk_buffer (ps ! i)) (pw_buf w)) (\<lambda>o'. wire_form o' z f g)"
    and des: "\<And>v M inp. byte_ok v M \<Longrightarrow> byte_part r bs inp \<Longrightarrow> \<exists>l v'. bt_deserialize r inp (of_nat (4 + bwire_size bs) + 4) bt_empty v =
      Inr (1, l, v') \<and> byte_becomes M v (byte_of (vs ! i)) (l, v')"
    and size: "packet_serialized_size (ps ! i) w =
      Inr (of_nat (28 + (4 + bwire_size bs) + (4 + wire_size (pv_tags (vs ! i))) + buf_part_size f g))"
    and three: "\<And>maxSize mem. 12 + (4 + bwire_size bs) + (4 + wire_size (pv_tags (vs ! i))) \<le> unat maxSize \<Longrightarrow>
      24 + (4 + bwire_size bs) + (4 + wire_size (pv_tags (vs ! i))) \<le> length mem \<Longrightarrow>
      \<exists>o3. three_written r (4 + bwire_size bs) (byte_part r bs) (4 + wire_size (pv_tags (vs ! i))) (tag_part r (pv_tags (vs ! i)))
        maxSize mem (ps ! i) w o3"
    by (rule packet_parts [OF assms]) (rule that; assumption)
  let ?q = "ps ! i" and ?v = "vs ! i" and ?A = "4 + bwire_size bs" and ?B = "4 + wire_size (pv_tags (vs ! i))"
  let ?C = "buf_part_size f g"
  let ?sz = "of_nat (28 + ?A + ?B + ?C) :: 32 word"
  have u: "unat ?sz = 28 + ?A + ?B + ?C"
    by (rule unat_nat32) (use p(1,2) assms(7) in simp)
  have dvd: "4 dvd ?A" "4 dvd ?C"
    using dvd_sizes(2) [of bs] dvd_sizes(4) [of f g] by (simp_all add: dvd_add)
  have C: "12 \<le> ?C"
    by (simp add: buf_part_size_def)
  have "\<exists>mem' p w'. packet_serialize r maxSize mem ?q w = Inr (1, mem') \<and> length mem' = length mem \<and>
      packet_create_wire r mem' ?sz True w = Inr (Some p, w') \<and> packets_ok sys (ps @ [p], w') (vs @ [?v], k)"
    if room: "unat ?sz \<le> unat maxSize + 16" "unat ?sz \<le> length mem" for maxSize mem
  proof -
    have "12 + ?A + ?B + ?C \<le> unat maxSize" "28 + ?A + ?B + ?C \<le> length mem"
      using room unfolding u by simp_all
    then have lim: "12 + ?A + ?B \<le> unat maxSize" "24 + ?A + ?B \<le> length mem"
      "12 + ?A + ?B + ?C \<le> unat maxSize" "28 + ?A + ?B + ?C \<le> length mem"
      by simp_all
    obtain o3 where o3: "three_written r ?A (byte_part r bs) ?B (tag_part r (pv_tags ?v)) maxSize mem ?q w o3"
      using three [OF lim(1,2)] by blast
    from packet_serialize_ok [OF o3 byte_part_prefix tag_part_prefix [OF assms(7)] p(3) dvd(2) p(2,5) lim(3,4)] obtain mem' where
      s: "packet_serialize r maxSize mem ?q w = Inr (1, mem')" "length mem' = length mem"
      "bytes_at mem' 0 (le_bytes 4 (4 :: 32 word))" "part_at ?A (byte_part r bs) 4 mem'"
      "part_at ?B (tag_part r (pv_tags ?v)) (4 + 4 + ?A) mem'" "part_at 8 (uid_part (pk_uid ?q)) (4 + 4 + ?A + 4 + ?B) mem'"
      "part_at ?C (\<lambda>o'. wire_form o' z f g) (4 + 4 + ?A + 4 + ?B + 4 + 8) mem'"
      by blast
    have "28 + ?A + ?B + ?C \<le> length mem'"
      using s(2) room(2) unfolding u by simp
    from packet_read_back [OF assms(1-3) same_parts(4) [OF assms(1,2)] s(3-7) dvd(1) p(1) refl assms(7) refl p(2) des p(4) this]
    obtain p w' where "packet_create_wire r mem' ?sz True w = Inr (Some p, w')" "packets_ok sys (ps @ [p], w') (vs @ [?v], k)"
      by blast
    then show ?thesis
      using s(1,2) by blast
  qed
  then show ?thesis
    using size by blast
qed

section \<open>Less memory\<close>

lemma out_write_past: "length out < unat p + length bs \<Longrightarrow> out_write p bs out = Inl Undefined_behaviour"
  by (simp add: out_write_def)

lemma res_bind_write:
  "(\<And>out'. length out' = length out \<Longrightarrow> f out' = Inl Undefined_behaviour) \<Longrightarrow>
   res_bind (out_write p bs out) f = Inl Undefined_behaviour"
  by (simp add: out_write_def splice_length)

text \<open>All the bytes but the padding behind the last ones are written.\<close>

lemma buf_serialize_short:
  assumes "bw_data w (b_data b) = Some d" and "buf_fits d b" and "block_ok d" and "buf_serialized_size b \<le> maxSize"
    and "b_zeroAreaStart b - b_start b = of_nat F" and "b_end b - b_zeroAreaEnd b = of_nat G" and "F < 2 ^ 29" and "G < 2 ^ 29"
    and "length out < 12 + padded F + G"
  shows "buf_serialize maxSize out b w = Inl Undefined_behaviour"
proof -
  have r4: "round4 (of_nat F) = of_nat (padded F)" "round4 (of_nat G) = of_nat (padded G)"
    using assms(7,8) by (simp_all add: round4_length)
  have p: "padded F \<le> F + 3" "padded G \<le> G + 3"
    unfolding padded_def by presburger+
  have u: "unat (8 + of_nat (padded F) :: 32 word) = 8 + padded F" "unat (12 + of_nat (padded F) :: 32 word) = 12 + padded F"
    "unat (12 + of_nat (padded F) + of_nat (padded G) :: 32 word) = 12 + padded F + padded G"
    using p assms(7,8) unat_nat32 [of "8 + padded F"] unat_nat32 [of "12 + padded F"] unat_nat32 [of "12 + padded F + padded G"] by simp_all
  have "buf_serialized_size b = 12 + of_nat (padded F) + of_nat (padded G)"
    by (simp add: buf_serialized_size_def assms(5,6) r4)
  then have max: "12 + padded F + padded G \<le> unat maxSize"
    using assms(4) u(3) by (simp add: word_le_nat_alt)
  have m: "4 \<le> maxSize" "8 \<le> maxSize" "8 + of_nat (padded F) \<le> maxSize" "12 + of_nat (padded F) \<le> maxSize"
    "12 + of_nat (padded F) + of_nat (padded G) \<le> maxSize"
    using max u by (simp_all add: word_le_nat_alt)
  have len: "length (front_bytes d b) = F" "length (rear_bytes d b) = G"
    using view_part_lengths [OF assms(2,3)] front_len_nat [OF assms(2)] back_len_nat [OF assms(2)] assms(5-8)
    by (simp_all add: front_bytes_def rear_bytes_def unat_nat32)
  have fl: "unat (of_nat F :: 32 word) = front_len b" "unat (of_nat G :: 32 word) = back_len b"
    using front_len_nat [OF assms(2)] back_len_nat [OF assms(2)] assms(5,6) by simp_all
  have fd: "mem_read (b_data b) (b_start b) (of_nat F) w = Inr (front_bytes d b)"
    "mem_read (b_data b) (b_zeroAreaStart b) (of_nat G) w = Inr (rear_bytes d b)"
    using assms(1-3) fl by (auto simp: mem_read_def front_bytes_def rear_bytes_def buf_fits_def block_ok_def phys_end_def front_len_def)
  have e: "(0::32 word) + 4 = 4" "(4::32 word) + 4 = 8" "(8 :: 32 word) + of_nat (padded F) + 4 = 12 + of_nat (padded F)"
    by simp_all
  show ?thesis
    unfolding buf_serialize_def Let_def assms(5,6) r4 e
    by (simp only: m simp_thms if_False if_True fd res_bind_simps e)
      (rule res_bind_write, rule res_bind_write, rule res_bind_write, rule res_bind_write, simp add: out_write_past u len assms(9))
qed

lemma put_buffer_short:
  assumes "world_ok (pw_buf w) M" and "pk_buffer pkt \<in># M" and "length (buf_view (pw_buf w) (pk_buffer pkt)) < 2 ^ 29"
    and "buf_serialized_size (pk_buffer pkt) = of_nat C" and "C < 2 ^ 30" and "S + C \<le> unat maxSize" and "length out = p + C - 12"
  shows "put_part maxSize (buf_serialized_size (pk_buffer pkt)) (\<lambda>n o'. buf_serialize n o' (pk_buffer pkt) (pw_buf w)) p (of_nat S) out k =
    Inl Undefined_behaviour"
proof -
  let ?b = "pk_buffer pkt"
  from world_ok_block [OF assms(1,2)] obtain d where d: "bw_data (pw_buf w) (b_data ?b) = Some d" "buf_fits d ?b" "block_ok d"
    "buf_view (pw_buf w) ?b = block_view d ?b"
    by blast
  let ?F = "front_len ?b" and ?G = "back_len ?b"
  have n: "b_zeroAreaStart ?b - b_start ?b = of_nat ?F" "b_end ?b - b_zeroAreaEnd ?b = of_nat ?G"
    by (simp_all add: front_len_nat [OF d(2), symmetric] back_len_nat [OF d(2), symmetric])
  have "?F + ?G \<le> length (buf_view (pw_buf w) ?b)"
    using view_part_lengths [OF d(2,3)] d(4) by (simp add: block_view_def)
  then have lt: "?F < 2 ^ 29" "?G < 2 ^ 29"
    using assms(3) by simp_all
  have "of_nat C = (of_nat (12 + padded ?F + padded ?G) :: 32 word)"
    using assms(4) lt unfolding buf_serialized_size_def n by (simp add: round4_length)
  moreover have pad: "padded ?F \<le> ?F + 3" "padded ?G \<le> ?G + 3"
    unfolding padded_def by presburger+
  moreover have "C < 2 ^ 32"
    using assms(5) by simp
  ultimately have C: "C = 12 + padded ?F + padded ?G"
    using lt unat_nat32 [of C] unat_nat32 [of "12 + padded ?F + padded ?G"] by simp
  have "unat maxSize < 2 ^ 32"
    using unsigned_less [of maxSize] by simp
  then have le: "of_nat S + buf_serialized_size ?b \<le> maxSize"
    using nat32_le [of "S + C" maxSize] assms(4,6) by simp
  show ?thesis
  proof (cases "p + 4 \<le> length out")
    case False
    then show ?thesis
      using le by (simp add: put_part_def word_out_def)
  next
    case True
    let ?out = "splice p (le_bytes 4 (buf_serialized_size ?b + 4)) out"
    have "length ?out = length out"
      using True by (intro splice_length) simp
    then have "length (drop (p + 4) ?out) < 12 + padded ?F + ?G"
      using C pad(2) assms(7) True by simp
    from buf_serialize_short [OF d(1-3) order_refl n lt this] show ?thesis
      using le True by (simp add: put_part_def word_out_def)
  qed
qed

lemma packet_overrun:
  assumes "packets_ok sys (ps, w) (vs, k)" and "i < length vs" and "iid_ok r"
    and "bt_types (pk_byteTags (ps ! i)) (pw_byte w) = Inr tids" and "\<forall>t \<in> set tids. type_known r t"
    and "tags_known r (pv_tags (vs ! i))" and "4 + wire_size (pv_tags (vs ! i)) < 2 ^ 30"
  shows "\<exists>sz. packet_serialized_size (ps ! i) w = Inr sz \<and> (\<forall>maxSize mem. unat sz \<le> unat maxSize + 16 \<longrightarrow>
    length mem + 16 = unat sz \<longrightarrow> packet_serialize r maxSize mem (ps ! i) w = Inl Undefined_behaviour)"
proof -
  obtain bs f z g where p: "4 + bwire_size bs < 2 ^ 30" "buf_part_size f g < 2 ^ 30"
    "buf_serialized_size (pk_buffer (ps ! i)) = of_nat (buf_part_size f g)" "f @ replicate (unat z) 0 @ g = data_of (vs ! i)"
    "part_written (buf_part_size f g) (\<lambda>n o'. buf_serialize n o' (pk_buffer (ps ! i)) (pw_buf w)) (\<lambda>o'. wire_form o' z f g)"
    and des: "\<And>v M inp. byte_ok v M \<Longrightarrow> byte_part r bs inp \<Longrightarrow> \<exists>l v'. bt_deserialize r inp (of_nat (4 + bwire_size bs) + 4) bt_empty v =
      Inr (1, l, v') \<and> byte_becomes M v (byte_of (vs ! i)) (l, v')"
    and size: "packet_serialized_size (ps ! i) w =
      Inr (of_nat (28 + (4 + bwire_size bs) + (4 + wire_size (pv_tags (vs ! i))) + buf_part_size f g))"
    and three: "\<And>maxSize mem. 12 + (4 + bwire_size bs) + (4 + wire_size (pv_tags (vs ! i))) \<le> unat maxSize \<Longrightarrow>
      24 + (4 + bwire_size bs) + (4 + wire_size (pv_tags (vs ! i))) \<le> length mem \<Longrightarrow>
      \<exists>o3. three_written r (4 + bwire_size bs) (byte_part r bs) (4 + wire_size (pv_tags (vs ! i))) (tag_part r (pv_tags (vs ! i)))
        maxSize mem (ps ! i) w o3"
    by (rule packet_parts [OF assms]) (rule that; assumption)
  let ?q = "ps ! i" and ?v = "vs ! i" and ?A = "4 + bwire_size bs" and ?B = "4 + wire_size (pv_tags (vs ! i))"
  let ?C = "buf_part_size f g"
  let ?sz = "of_nat (28 + ?A + ?B + ?C) :: 32 word"
  have u: "unat ?sz = 28 + ?A + ?B + ?C"
    by (rule unat_nat32) (use p(1,2) assms(7) in simp)
  have C: "12 \<le> ?C"
    by (simp add: buf_part_size_def)
  note store = store_ok_at [OF packets_okD(1) [OF assms(1)], of i]
  have W: "world_ok (pw_buf w) (mset (map pk_buffer ps))" and q: "pk_buffer ?q \<in># mset (map pk_buffer ps)"
    and view: "length (buf_view (pw_buf w) (pk_buffer ?q)) < 2 ^ 29"
    using store assms(2) packets_okD(4) [OF assms(1)] packet_size_ok(2) [OF assms(1,2)] by (simp_all add: data_of_def size_of_def)
  have "packet_serialize r maxSize mem ?q w = Inl Undefined_behaviour"
    if "unat ?sz \<le> unat maxSize + 16" "length mem + 16 = unat ?sz" for maxSize mem
  proof -
    have lim: "12 + ?A + ?B \<le> unat maxSize" "24 + ?A + ?B \<le> length mem" "4 + ?A + ?B + 8 + ?C \<le> unat maxSize"
      "length mem = 4 + 4 + ?A + 4 + ?B + 4 + 8 + ?C - 12"
      using that C unfolding u by simp_all
    obtain o3 where "three_written r ?A (byte_part r bs) ?B (tag_part r (pv_tags ?v)) maxSize mem ?q w o3"
      using three [OF lim(1,2)] by blast
    then show ?thesis
      using put_buffer_short [OF W q view p(3,2) lim(3), of o3 "4 + 4 + ?A + 4 + ?B + 4 + 8"] lim(4) unfolding three_written_def by simp
  qed
  then show ?thesis
    using size by blast
qed

text \<open>C15: A serialised packet is read back. Whatever the session made of the packet, when the types of its tags are
  registered, \<open>Serialize\<close> succeeds in any memory of \<open>GetSerializedSize\<close> bytes, and the packet that is made from it has
  the same bytes, the same tags of each byte, the same packet tags and the same number; no other packet changes. \<open>Serialize\<close>
  also succeeds, and writes all these bytes, when \<open>maxSize\<close> is up to 16 bytes less: it does not count four of the lengths.\<close>

theorem packet_wire_roundtrip:
  assumes "packet_ops_ok sys xs ([], 0)" and "packet_run xs ([], packets_fresh sys junk) = Inr (out, ps, w)"
    and "snd (value_run sys xs ([], 0)) = (vs, k)" and "i < length vs"
    and "iid_register hasher names iid_empty = Inr r" and "bt_types (pk_byteTags (ps ! i)) (pw_byte w) = Inr tids"
    and "\<forall>t \<in> set tids \<union> fst ` set (pv_tags (vs ! i)). t \<noteq> 0 \<and> unat t \<le> length names"
    and "4 + wire_size (pv_tags (vs ! i)) < 2 ^ 30"
  shows "\<exists>sz. packet_serialized_size (ps ! i) w = Inr sz \<and>
    (\<forall>maxSize mem. unat sz \<le> unat maxSize + 16 \<longrightarrow> unat sz \<le> length mem \<longrightarrow>
      (\<exists>mem' p w'. packet_serialize r maxSize mem (ps ! i) w = Inr (1, mem') \<and> length mem' = length mem \<and>
        packet_create_wire r mem' sz True w = Inr (Some p, w') \<and> list_all2 (packet_stands w') (ps @ [p]) (vs @ [vs ! i])))"
proof -
  note reg = registered_known [OF assms(5)]
  have "\<forall>t \<in> set tids. type_known r t" "tags_known r (pv_tags (vs ! i))"
    using assms(7) reg(2) by (auto simp: tags_known_def type_known_def)
  from packet_wire_ok [OF packet_session_ok [OF assms(1-3)] assms(4) reg(1) assms(6) this assms(8)] show ?thesis
    using packets_stand by meson
qed

text \<open>A packet of two bytes with a byte tag and a packet tag\<close>

definition demo_wire :: "packet_op list" where
  "demo_wire = [Pk_create_bytes [1, 2], Pk_add_byte_tag 0 (demo_byte_tag 2 [50]), Pk_add_tag 0 (demo_byte_tag 1 [10, 11])]"

definition demo_wire_value :: packet_value where
  "demo_wire_value = \<lparr>pv_bytes = [(1, [(2, [50])]), (2, [(2, [50])])], pv_tags = [(1, [10, 11])], pv_uid = 0, pv_load = 17\<rparr>"

lemma demo_byte_size: "tag_size (demo_byte_tag tid bs) = of_nat (length bs)"
  by (simp add: demo_byte_tag_def)

lemma demo_wire_ok: "packet_ops_ok 0 demo_wire ([], 0)" "snd (value_run 0 demo_wire ([], 0)) = ([demo_wire_value], 1)"
  by (simp_all add: demo_wire_def demo_wire_value_def value_simps change_tags_def tag_fits_def demo_byte_size)

definition demo_hash :: "string \<Rightarrow> 32 word" where
  "demo_hash s = of_nat (size s)"

definition demo_names :: "string list" where
  "demo_names = [''ns3::Tag'', ''ns3::LongTag'']"

lemma demo_wire_run:
  "case packet_run demo_wire ([], packets_fresh 0 (\<lambda>_ _. 3)) of Inl _ \<Rightarrow> False
   | Inr (out, ps, w) \<Rightarrow> length ps = 1 \<and> bt_types (pk_byteTags (ps ! 0)) (pw_byte w) = Inr [2] \<and>
       packet_serialized_size (ps ! 0) w = Inr 84"
  by code_simp

lemma demo_registry: "\<exists>r. iid_register demo_hash demo_names iid_empty = Inr r"
  by (simp add: demo_hash_def demo_names_def tid_create_def iid_allocate_uid_def iid_empty_def HashChainFlag_def iid_append_def
      map_put_new_def iid_uid_of_hash_def)

lemma demo_wire_facts:
  obtains out ps w r where "packet_run demo_wire ([], packets_fresh 0 (\<lambda>_ _. 3)) = Inr (out, ps, w)"
    and "bt_types (pk_byteTags (ps ! 0)) (pw_byte w) = Inr [2]" and "packet_serialized_size (ps ! 0) w = Inr 84" and "length ps = 1"
    and "iid_register demo_hash demo_names iid_empty = Inr r"
  using demo_wire_run demo_registry by (auto split: sum.splits)

theorem packet_wire_roundtrip_witness:
  "\<exists>out ps w r mem p w'. packet_run demo_wire ([], packets_fresh 0 (\<lambda>_ _. 3)) = Inr (out, ps, w) \<and>
     iid_register demo_hash demo_names iid_empty = Inr r \<and> packet_serialize r 84 (replicate 84 9) (ps ! 0) w = Inr (1, mem) \<and>
     packet_create_wire r mem 84 True w = Inr (Some p, w') \<and> list_all2 (packet_stands w') (ps @ [p]) [demo_wire_value, demo_wire_value]"
proof (rule demo_wire_facts)
  fix out ps w r
  assume d: "packet_run demo_wire ([], packets_fresh 0 (\<lambda>_ _. 3)) = Inr (out, ps, w)"
    "bt_types (pk_byteTags (ps ! 0)) (pw_byte w) = Inr [2]" "packet_serialized_size (ps ! 0) w = Inr 84" "length ps = 1"
    "iid_register demo_hash demo_names iid_empty = Inr r"
  have "\<forall>t \<in> set [2] \<union> fst ` set (pv_tags ([demo_wire_value] ! 0)). t \<noteq> 0 \<and> unat t \<le> length demo_names"
    by (simp add: demo_wire_value_def demo_names_def)
  moreover have "4 + wire_size (pv_tags ([demo_wire_value] ! 0)) < 2 ^ 30"
    by (simp add: demo_wire_value_def padded_def)
  ultimately obtain sz where sz: "packet_serialized_size (ps ! 0) w = Inr sz"
    and all: "\<forall>maxSize mem. unat sz \<le> unat maxSize + 16 \<longrightarrow> unat sz \<le> length mem \<longrightarrow>
      (\<exists>mem' p w'. packet_serialize r maxSize mem (ps ! 0) w = Inr (1, mem') \<and> length mem' = length mem \<and>
        packet_create_wire r mem' sz True w = Inr (Some p, w') \<and>
        list_all2 (packet_stands w') (ps @ [p]) ([demo_wire_value] @ [[demo_wire_value] ! 0]))"
    using packet_wire_roundtrip [OF demo_wire_ok(1) d(1) demo_wire_ok(2) _ d(5,2)] by auto
  have "sz = 84"
    using sz d(3) by simp
  then show ?thesis
    using all [rule_format, of 84 "replicate 84 9"] d(1,5) by auto
qed

text \<open>C17: \<open>Serialize\<close> writes past the end of memory that is too small. It adds up the sizes of the parts, but only one of
  the five lengths before them; so memory with 16 bytes less than \<open>GetSerializedSize\<close> passes all its checks, also when
  \<open>maxSize\<close> is the true size of this memory, and the function does not return zero but writes behind it.\<close>

theorem packet_serialize_overruns:
  assumes "packet_ops_ok sys xs ([], 0)" and "packet_run xs ([], packets_fresh sys junk) = Inr (out, ps, w)"
    and "snd (value_run sys xs ([], 0)) = (vs, k)" and "i < length vs"
    and "iid_register hasher names iid_empty = Inr r" and "bt_types (pk_byteTags (ps ! i)) (pw_byte w) = Inr tids"
    and "\<forall>t \<in> set tids \<union> fst ` set (pv_tags (vs ! i)). t \<noteq> 0 \<and> unat t \<le> length names"
    and "4 + wire_size (pv_tags (vs ! i)) < 2 ^ 30"
  shows "\<exists>sz. packet_serialized_size (ps ! i) w = Inr sz \<and> (\<forall>maxSize mem. unat sz \<le> unat maxSize + 16 \<longrightarrow>
    length mem + 16 = unat sz \<longrightarrow> packet_serialize r maxSize mem (ps ! i) w = Inl Undefined_behaviour)"
proof -
  note reg = registered_known [OF assms(5)]
  have "\<forall>t \<in> set tids. type_known r t" "tags_known r (pv_tags (vs ! i))"
    using assms(7) reg(2) by (auto simp: tags_known_def type_known_def)
  from packet_overrun [OF packet_session_ok [OF assms(1-3)] assms(4) reg(1) assms(6) this assms(8)] show ?thesis .
qed

theorem packet_serialize_overruns_witness:
  "\<exists>out ps w r. packet_run demo_wire ([], packets_fresh 0 (\<lambda>_ _. 3)) = Inr (out, ps, w) \<and>
     iid_register demo_hash demo_names iid_empty = Inr r \<and> packet_serialized_size (ps ! 0) w = Inr 84 \<and>
     packet_serialize r 68 (replicate 68 0) (ps ! 0) w = Inl Undefined_behaviour"
proof (rule demo_wire_facts)
  fix out ps w r
  assume d: "packet_run demo_wire ([], packets_fresh 0 (\<lambda>_ _. 3)) = Inr (out, ps, w)"
    "bt_types (pk_byteTags (ps ! 0)) (pw_byte w) = Inr [2]" "packet_serialized_size (ps ! 0) w = Inr 84" "length ps = 1"
    "iid_register demo_hash demo_names iid_empty = Inr r"
  have "\<forall>t \<in> set [2] \<union> fst ` set (pv_tags ([demo_wire_value] ! 0)). t \<noteq> 0 \<and> unat t \<le> length demo_names"
    by (simp add: demo_wire_value_def demo_names_def)
  moreover have "4 + wire_size (pv_tags ([demo_wire_value] ! 0)) < 2 ^ 30"
    by (simp add: demo_wire_value_def padded_def)
  ultimately show ?thesis
    using packet_serialize_overruns [OF demo_wire_ok(1) d(1) demo_wire_ok(2) _ d(5,2)] d by fastforce
qed

end
