(* ===== verification/Spec2Isabelle.thy ===== *)
theory Spec2Isabelle
  imports Map_Scheduler List_Scheduler Priority_Queue_Scheduler Heap_Scheduler Calendar_Scheduler
    Simulator_Lifecycle Rx_Correctness Ipv4_Address_Generator Nr_Sfnsf Nr_Mac_Headers Nr_Lcg
    Nr_Harq_Sessions Buffer_Properties Packet_Tags_Properties Packet_Wire_Properties
begin

text \<open>
  A verification development of parts of the ns-3 network simulator and of its NR (5G) module. The
  sources are under \<open>src/\<close>: \<open>src/src/<module>\<close> for the modules of ns-3 and \<open>src/contrib/nr\<close> for NR; the
  paths below leave out the leading \<open>src/\<close>.

  \<^bold>\<open>The program and the theories.\<close> A simulation is a sequence of events. \<open>DefaultSimulatorImpl\<close> keeps
  the clock, hands out event ids and asks a \<open>Scheduler\<close> for the next event; the five schedulers are
  exchangeable. Protocols run inside the events and exchange packets. A packet is a buffer, whose bytes are in blocks that
  several buffers share, the tags of ranges of these bytes, in blocks that are shared as well, and the tags of the packet, in lists
  that share their ends; copies of packets are cheap, and changes of one must not be seen in another. Here are the packets with
  these parts, the receive buffer of TCP, the allocation of IPv4
  addresses when a scenario is built, and in NR the time stamps of the slots, the HARQ processes, the
  headers of the MAC layer, the queues that the MAC scheduler keeps of a user, and the retransmissions.

  \<^item> \<open>Ns_Prelude\<close>: faults (a failed \<open>NS_ASSERT\<close>, an \<open>NS_ABORT\<close> or \<open>NS_FATAL_ERROR\<close>, undefined behaviour, an
    exception of the standard library, a loop that does not end, and code that is left out) as the left side of \<open>result\<close>; lemmas on lists, multisets, words.
  \<^item> \<open>Ns_Event\<close>: keys, events, event ids and the cancellation flag (\<open>src/core/model/scheduler.h\<close>,
    \<open>event-id.cc\<close>, \<open>event-impl.cc\<close>). \<open>Scheduler_Interface\<close>: the contract of a scheduler as locales.
  \<^item> \<open>List_Scheduler\<close>, \<open>Map_Scheduler\<close> (over \<open>Std_Map\<close>), \<open>Priority_Queue_Scheduler\<close>, \<open>Heap_Scheduler\<close>,
    \<open>Calendar_Scheduler\<close>: one theory for each file \<open>src/core/model/*-scheduler.cc\<close>, each with its state, all
    its operations and the interpretation of the contract.
  \<^item> \<open>Default_Simulator\<close>, \<open>Simulator_Lifecycle\<close>: \<open>src/core/model/default-simulator-impl.cc\<close> over any
    scheduler, as a state, its operations, and the loop of \<open>Run\<close> with the handlers as scripts.
  \<^item> \<open>Sequence_Number\<close> (\<open>src/network/utils/sequence-number.h\<close>), \<open>Tcp_Rx_Buffer\<close>
    (\<open>src/internet/model/tcp-rx-buffer.cc\<close>), \<open>Rx_Intervals\<close> (positions of the stream as natural numbers
    and the map as intervals), \<open>Rx_Correctness\<close> (sessions of segments, reads and a FIN).
  \<^item> \<open>Buffer_Store\<close> (the blocks, the free list and the operations of \<open>Buffer\<close>) and \<open>Buffer_Iterator\<close> (the
    iterator, \<open>AddAtEnd\<close> of a buffer, \<open>CopyData\<close>, the serialisation) model \<open>src/network/model/buffer.cc\<close> and
    \<open>buffer.h\<close>. \<open>Buffer_Heap\<close> has the invariant of the blocks and \<open>Buffer_Views\<close> the bytes a buffer stands for;
    \<open>Buffer_Sharing\<close>, \<open>Buffer_Growth\<close>, \<open>Buffer_Writing\<close>, \<open>Buffer_Reading\<close> (over \<open>Buffer_Words\<close>), \<open>Buffer_Wire\<close>,
    \<open>Buffer_Appending\<close> show that the operations keep both; \<open>Buffer_Sessions\<close> has the sequences of operations and
    \<open>Buffer_Properties\<close> the results.
  \<^item> \<open>Shared_Store\<close>: the locale of objects that share memory and are used as values, which the sessions of buffers, tag lists
    and packets interpret.
  \<^item> \<open>Type_Registry\<close> (\<open>src/core/model/type-id.cc\<close>): the names, numbers and hashes of the types. \<open>Tag_Buffer\<close>
    (\<open>src/network/model/tag-buffer.cc\<close>, \<open>tag-buffer.h\<close>) and \<open>Packet_Tags\<close> (\<open>src/network/model/packet-tag-list.cc\<close>,
    \<open>packet-tag-list.h\<close>): the nodes of packet tags with their counts, and all operations of the lists.
    \<open>Packet_Tags_Heap\<close> has the invariant of the nodes, \<open>Packet_Tags_Steps\<close> the elementary steps on them,
    \<open>Packet_Tags_Ops\<close> and \<open>Packet_Tags_Cow\<close> (copy on write) the operations made of these steps,
    \<open>Packet_Tags_Wire\<close> the serialisation, \<open>Packet_Tags_Sessions\<close> the sequences of operations and
    \<open>Packet_Tags_Properties\<close> the results.
  \<^item> \<open>Byte_Tags\<close> (\<open>src/network/model/byte-tag-list.cc\<close>, \<open>byte-tag-list.h\<close>): the blocks of byte tags with their counts and
    free list, the operations of the lists and the iterator. \<open>Byte_Tags_Heap\<close> has the invariant of the blocks,
    \<open>Byte_Tags_Ops\<close> adding an entry and iterating, \<open>Byte_Tags_Lists\<close> the loops that copy entries, in terms of the tags of each
    byte, \<open>Byte_Tags_Values\<close> the lists as values, and \<open>Byte_Tags_Wire\<close> the serialisation.
  \<^item> \<open>Packet\<close> (\<open>src/network/model/packet.cc\<close>, \<open>packet.h\<close>): packets over the three parts. \<open>Packet_Sessions\<close> has the
    sequences of operations and the values that packets stand for, \<open>Packet_Steps\<close>, \<open>Packet_Moves\<close> and \<open>Packet_Edits\<close> the single
    operations, and \<open>Packet_Properties\<close> the results. \<open>Packet_Wire\<close> and \<open>Packet_Wire_Properties\<close> are the serialisation of packets, with
    what \<open>src/network/model/packet-metadata.cc\<close> writes and reads while metadata is disabled.
  \<^item> \<open>Ipv4_Address\<close> (\<open>src/network/utils/ipv4-address.cc\<close>) and \<open>Ipv4_Address_Generator\<close>
    (\<open>src/internet/model/ipv4-address-generator.cc\<close>, \<open>src/internet/helper/ipv4-address-helper.cc\<close>).
  \<^item> \<open>Nr_Sfnsf\<close> (\<open>contrib/nr/model/sfnsf.cc\<close>): time stamps and their encodings.
  \<^item> \<open>Nr_Mac_Headers\<close> (\<open>contrib/nr/model/nr-mac-header-*.cc\<close>, \<open>nr-mac-short-bsr-ce.cc\<close>): the subheaders, the
    short buffer status report and its levels.
  \<^item> \<open>Eps_Bearer\<close> (\<open>src/lte/model/eps-bearer.cc\<close>): the QoS tables of three releases. \<open>Nr_Lcg\<close>
    (\<open>contrib/nr/model/nr-mac-scheduler-lcg.cc\<close>): logical channels and their groups.
  \<^item> \<open>Nr_Harq\<close> (\<open>nr-mac-harq-process.h\<close>, \<open>nr-mac-harq-vector.cc\<close>, \<open>nr-harq-phy.cc\<close>), \<open>Nr_Harq_Feedback\<close>
    (feedbacks, DCI and slots of \<open>nr-phy-mac-common.h\<close>), \<open>Nr_Harq_Rr\<close> (uplink) and \<open>Nr_Harq_Rr_Dl\<close>
    (downlink) for \<open>nr-mac-scheduler-harq-rr.cc\<close>.
  \<^item> \<open>Nr_Harq_Cycle\<close> (the HARQ feedback of a downlink slot in \<open>nr-mac-scheduler-ns3.cc\<close>: timers, merge, filter,
    \<open>ProcessHARQFeedbacks\<close>, \<open>ComputeActiveHarq\<close> and the call of the retransmissions) and
    \<open>Nr_Harq_Sessions\<close> (users configured and released, new processes and slots, in any sequence).

  \<^bold>\<open>How the models follow the code.\<close> A class is a record of its fields, an operation is a function
  that returns the changed record, every assertion, abort, out-of-range access and early return is a
  branch. Integers are words of the width of the source, and wrap as there. The maps of the standard
  library are lists in iteration order; where that order is unspecified (hash tables, equal elements of
  \<open>std::sort\<close>) it is a parameter of the model. Pointers are numbers or indices; a value that is shared
  and not written after it was shared is copied.

  \<^bold>\<open>What the lemmas show.\<close>
  \<^item> Schedulers: each refines the multiset of its events; the list, map, queue and calendar schedulers
    refine \<open>Remove\<close> as well, while \<open>HeapScheduler::Remove\<close> takes out the right event but leaves a heap exactly when the
    last element is not earlier than the parent of the freed position.
  \<^item> Kernel: over every scheduler that meets the contract a whole simulation has the same outcome, raises no fault, and
    ends stopped or with its counter at 0, for programs within the limits of \<open>handler_ok\<close>: \<open>Remove\<close> of destroy events only, no null
    events, from other threads \<open>ScheduleWithContext\<close> but no other call that schedules, bounded delays and numbers of
    calls. \<open>Run\<close> delivers in the order of time and id, and ends, when the handlers make no calls. \<open>SetScheduler\<close>, \<open>Remove\<close> of a queued event, \<open>Cancel\<close> and \<open>Destroy\<close> act on the abstract queue as
    documented, one call at a time; after \<open>Remove\<close> with the heap scheduler a simulation can fail, which a program of seven
    events shows. The theorems over all schedulers are in this theory.
  \<^item> Buffers: in any sequence of operations on buffers that share blocks every buffer behaves like its own list
    of bytes, the reference counts are exact and no assertion fails; appending, serialising and the checksum
    are right outside of the stated cases; where zero areas meet, it is shown for every buffer which bytes appending puts where.
  \<^item> Packet tags: in any sequence of operations on lists that share nodes every list behaves like its own list of
    types and bytes, the counts of the nodes are exact and no node is lost; serialised tags are read back, over any
    types whose registration succeeds. \<open>Replace\<close> keeps the size of a tag when no node up to it is
    shared, and otherwise replaces the tag.
  \<^item> Packets: in any sequence of operations on packets that share all of their parts every packet behaves like its own list
    of bytes, each with its tags, together with its packet tags; new bytes have no byte tags and the tags of removed bytes do not
    come back. A packet is appended to another one with its tags. A serialised packet is read back with all its parts; into memory
    that is 16 bytes too small \<open>Serialize\<close> writes past the end instead of returning zero. Padding has any bytes, not zeros, and a tag of an empty
    range can be found between two bytes, shown by closed counterexamples.
  \<^item> TCP: from any order of overlapping segments the reader gets exactly the stream; \<open>Add\<close>, \<open>Extract\<close> and
    the SACK list never fault and keep the invariant \<open>rx_ok\<close>.
  \<^item> IPv4: the generator never repeats an address; a helper hands out exactly the addresses of consecutive networks that were
    asked for, and fails exactly when they do not fit; the masks and addresses convert without loss.
  \<^item> NR: time stamps are ordered and advanced as slot numbers; headers and reports are read back as
    written; the levels of the report are the least that cover a size; the vector of HARQ processes refines a
    partial map of active processes; grants change and empty the queues as stated; retransmissions
    use disjoint resources, none is forgotten in the downlink, and in the uplink exactly those
    feedbacks are dropped that are reached when no symbol is left. Over any number of slots the downlink HARQ
    handling never faults while no user is released, and faults after a release with pending feedback.

  \<^bold>\<open>Bounds.\<close> The kernel theorems hold for fewer than $2^{31}$ event ids and for a scenario whose time stamps
  stay below $2^{46}$ (\<open>cal_horizon\<close>), which the calendar needs because its bucket tops are sums in 64 bits;
  the time budget is the largest delay times the number of steps. The buffers of TCP are less than $2^{29}$
  bytes (\<open>rx_window\<close>), so that the wrap-around order of sequence numbers is the order of positions.
  Buffers are less than $2^{29}$ bytes each, the zeros included, and fewer than $2^{32} - 3$ refer to them, so that neither the
  offsets nor the reference counts wrap.
  The lists of packet tags and twice the tags in them are fewer than $2^{32} - 3$ together, so that the counts do not wrap;
  a loop along the nodes has one more step than nodes were ever created, which is enough because lists end.
  The load of a packet bounds the memory of its byte tags and the distances that its bytes were moved: it grows by the size of each
  tag with its entry, of each header that is added or removed and of the bytes in front of a fragment, and stays below $2^{29}$, so that
  the positions of byte tags, which are relative to an adjustment, do not wrap. The loop along the entries has one more step
  than the list has bytes, and an entry has at least 16.
  Time stamps are compared for fewer than $2^{31}$ slots. The uplink loop is modelled for fewer than $2^{16}$ feedbacks,
  the width of its counter. Loops whose end is not evident carry a termination proof; the loop of \<open>Run\<close> has
  fuel, and the theorems show how much is enough.

  \<^bold>\<open>Not modelled.\<close> Logging, printing, attributes and reference counts, everywhere (the counts of the
  blocks of \<open>Buffer\<close>, of the nodes of packet tags and of the blocks of byte tags are modelled). The nix vector of
  \<open>Packet\<close>, which only one routing protocol uses, and the items of its metadata, which are off by default and record what is
  printed: where a serialised packet has them, the model ends with the fault \<open>Not_modelled\<close>.
  \<open>AddAtEnd\<close> of a buffer or a packet takes another object; the call with the object itself as the argument is left out.
  The theories of TCP and of the MAC headers see a packet as its bytes. What a tag or a header makes of
  the bytes that it is deserialised from is up to it, and so is how many bytes a header takes. Of the information on a type the name and the hash. TCP sockets and routing, queue disciplines, the other device
  models and the rest of the NR scheduler (new data, CQI, SRS, the uplink trigger) and of the NR stack are not part of the development so far;
  mobility, propagation, energy, error models and random numbers are floating point; the realtime and the
  distributed simulators depend on clocks, threads and MPI; helpers, examples and bindings are glue.
\<close>

section \<open>The simulation kernel over the five schedulers\<close>

interpretation list_kernel: removable_kernel list_ops sorted_events mset "\<lambda>_. 0" "- 1"
  by unfold_locales

interpretation map_kernel: removable_kernel map_ops map_inv map_events "\<lambda>_. 0" "- 1"
  by unfold_locales

interpretation pq_kernel: removable_kernel pq_ops sorted_events mset "\<lambda>_. 0" "- 1"
  by unfold_locales

interpretation cal_kernel: removable_kernel "cal_ops r" "\<lambda>c. cal_inv c \<and> cal_reverse c = r"
  cal_events cal_lastPrio cal_horizon
  by unfold_locales

interpretation heap_kernel: simulation_kernel heap_ops heap_inv heap_events "\<lambda>_. 0" "- 1"
  by unfold_locales

interpretation map_to_calendar: scheduler_change map_ops map_inv map_events "\<lambda>_. 0" "- 1"
  "cal_ops r" "\<lambda>c. cal_inv c \<and> cal_reverse c = r" cal_events cal_lastPrio cal_horizon
  by unfold_locales

text \<open>C1: Exchangeable schedulers. A whole simulation (set-up calls, \<open>Run\<close>, and handlers that make calls which may depend
  on the replies to earlier ones) has the same outcome, network, kernel state and faults, with the list, map, priority
  queue, heap and calendar scheduler (in either bucket order), for programs within these limits (\<open>handler_ok\<close>):
  \<open>Remove\<close> is only called for destroy events, the events are not null, only the main thread calls \<open>Schedule\<close>,
  \<open>ScheduleNow\<close>, \<open>ScheduleDestroy\<close> and \<open>Stop\<close> with a delay, a delay is at most \<open>D\<close>, and set-up and each handler make
  at most \<open>m\<close> and \<open>n\<close> calls; the event ids then fit in 31 bits, and the time stamps of \<open>k\<close> events lie below the horizon
  of the calendar. With \<open>Remove\<close> of queued events the heap scheduler can differ, see below.\<close>

theorem scheduler_independence:
  assumes m: "handler_ok D thread main m" and h: "\<And>i w. handler_ok D thread (notify i w) n"
    and B: "D * (k + 2) \<le> 2 ^ 46" and U: "4 + m + k * n < 2 ^ 31"
  shows "simulate heap_ops notify thread main k = simulate list_ops notify thread main k \<and>
    simulate map_ops notify thread main k = simulate list_ops notify thread main k \<and>
    simulate pq_ops notify thread main k = simulate list_ops notify thread main k \<and>
    simulate (cal_ops r) notify thread main k = simulate list_ops notify thread main k"
proof -
  have b: "D * (k + 2) \<le> unat (- 1 :: 64 word)" "D * (k + 2) < 2 ^ 63"
    "D * (k + 2) \<le> unat cal_horizon"
    using B by (simp_all add: cal_horizon_def unat_max64)
  show ?thesis
    using list_kernel.simulate_refines(1) [where notify = notify, OF m h b(1,2) U]
      heap_kernel.simulate_refines(1) [where notify = notify, OF m h b(1,2) U]
      map_kernel.simulate_refines(1) [where notify = notify, OF m h b(1,2) U]
      pq_kernel.simulate_refines(1) [where notify = notify, OF m h b(1,2) U]
      cal_kernel.simulate_refines(1) [where notify = notify, OF m h b(3,2) U]
    by simp
qed

text \<open>A main program that schedules three events, cancels the third of them, and has another thread schedule a fourth. The
  handler of event 2 schedules event 5, which has the same time stamp as event 1 but a later id.\<close>

definition demo_main :: "nat list handler" where
  "demo_main =
     Call 0 (C_schedule 10 (Some 1)) (\<lambda>_. Call 0 (C_schedule 5 (Some 2)) (\<lambda>_. Call 0 (C_schedule 7 (Some 3)) (\<lambda>reply.
       case reply of R_id eid \<Rightarrow> Call 0 (C_cancel eid) (\<lambda>_. Call 1 (C_schedule_with_context 3 6 (Some 4)) (\<lambda>_. Return []))
       | _ \<Rightarrow> Return [])))"

definition demo_notify :: "nat \<Rightarrow> nat list \<Rightarrow> nat list handler" where
  "demo_notify i w = (if i = 2 then Call 0 (C_schedule 5 (Some 5)) (\<lambda>_. Return (w @ [i])) else Return (w @ [i]))"

lemma demo_program_ok: "handler_ok 10 0 demo_main 5" "handler_ok 10 0 (demo_notify i w) 1"
  by (auto simp: demo_main_def demo_notify_def split: sim_reply.splits)

lemma demo_program_list: "network_of (simulate list_ops demo_notify 0 demo_main 8) = Some (Inr [2, 4, 1, 5])"
  by code_simp

theorem scheduler_independence_witness:
  "network_of (simulate map_ops demo_notify 0 demo_main 8) = Some (Inr [2, 4, 1, 5]) \<and>
   network_of (simulate pq_ops demo_notify 0 demo_main 8) = Some (Inr [2, 4, 1, 5]) \<and>
   network_of (simulate heap_ops demo_notify 0 demo_main 8) = Some (Inr [2, 4, 1, 5]) \<and>
   (\<forall>r. network_of (simulate (cal_ops r) demo_notify 0 demo_main 8) = Some (Inr [2, 4, 1, 5]))"
  using scheduler_independence [where k = 8 and notify = demo_notify, OF demo_program_ok] demo_program_list by simp

text \<open>C2: The assertions and the integer arithmetic of the kernel never fail. For programs within the limits of C1 (no
  \<open>Remove\<close> of queued events, no null events, only the main thread calls \<open>Schedule\<close>, \<open>ScheduleNow\<close>, \<open>ScheduleDestroy\<close>
  and \<open>Stop\<close> with a delay, bounded delays and numbers of calls) a simulation over any of the five schedulers either has
  delivered \<open>k\<close> events and is still running, or it ends normally, and then it was stopped or \<open>m_unscheduledEvents\<close> is
  back to 0.\<close>

theorem simulation_never_faults:
  assumes "handler_ok D thread main m" and "\<And>i w. handler_ok D thread (notify i w) n"
    and "D * (k + 2) \<le> 2 ^ 46" and "4 + m + k * n < 2 ^ 31"
    and "r \<in> {simulate list_ops notify thread main k, simulate heap_ops notify thread main k,
      simulate map_ops notify thread main k, simulate pq_ops notify thread main k, simulate (cal_ops reverse) notify thread main k}"
  shows "r = None \<or> (\<exists>w c. r = Some (Inr (w, c)) \<and> 0 \<le> sim_unscheduledEvents c \<and>
    (sim_stop c \<or> sim_unscheduledEvents c = 0))"
proof -
  have b: "D * (k + 2) \<le> unat (- 1 :: 64 word)" "D * (k + 2) < 2 ^ 63"
    "D * (k + 2) \<le> unat cal_horizon"
    using assms(3) by (simp_all add: cal_horizon_def unat_max64)
  note f = list_kernel.simulate_refines(2) [where notify = notify, OF assms(1,2) b(1,2) assms(4)]
    heap_kernel.simulate_refines(2) [where notify = notify, OF assms(1,2) b(1,2) assms(4)]
    map_kernel.simulate_refines(2) [where notify = notify, OF assms(1,2) b(1,2) assms(4)]
    pq_kernel.simulate_refines(2) [where notify = notify, OF assms(1,2) b(1,2) assms(4)]
    cal_kernel.simulate_refines(2) [where r = reverse and notify = notify, OF assms(1,2) b(3,2) assms(4)]
  from assms(5) consider "r = simulate list_ops notify thread main k" | "r = simulate heap_ops notify thread main k"
    | "r = simulate map_ops notify thread main k" | "r = simulate pq_ops notify thread main k"
    | "r = simulate (cal_ops reverse) notify thread main k"
    by blast
  then show ?thesis
    by cases (simp_all only: f)
qed

text \<open>The program above ends, without \<open>Stop\<close>, and its counter is 0; with a handler of event 4 that calls \<open>Stop\<close> it ends
  with two events in the queue.\<close>

definition demo_stopping :: "nat \<Rightarrow> nat list \<Rightarrow> nat list handler" where
  "demo_stopping i w = (if i = 4 then Call 0 C_stop (\<lambda>_. Return (w @ [i])) else demo_notify i w)"

lemma demo_heap_runs:
  "case simulate heap_ops demo_notify 0 demo_main 8 of Some (Inr (w, c)) \<Rightarrow> w = [2, 4, 1, 5] \<and> \<not> sim_stop c | _ \<Rightarrow> False"
  "case simulate heap_ops demo_stopping 0 demo_main 8 of Some (Inr (w, c)) \<Rightarrow> w = [2, 4] \<and> sim_stop c | _ \<Rightarrow> False"
  by code_simp+

theorem simulation_never_faults_witness:
  "(\<exists>c. simulate heap_ops demo_notify 0 demo_main 8 = Some (Inr ([2, 4, 1, 5], c)) \<and> \<not> sim_stop c \<and> sim_unscheduledEvents c = 0) \<and>
   (\<exists>c. simulate heap_ops demo_stopping 0 demo_main 8 = Some (Inr ([2, 4], c)) \<and> sim_stop c \<and> 0 \<le> sim_unscheduledEvents c)"
proof
  have stopping: "handler_ok 10 0 (demo_stopping i w) 1" for i w
    using demo_program_ok(2) [of i w] by (simp add: demo_stopping_def)
  note ends = simulation_never_faults [where k = 8 and notify = demo_notify, OF demo_program_ok _ _ insertI2 [OF insertI1]]
    simulation_never_faults [where k = 8 and notify = demo_stopping, OF demo_program_ok(1) stopping _ _ insertI2 [OF insertI1]]
  show "\<exists>c. simulate heap_ops demo_notify 0 demo_main 8 = Some (Inr ([2, 4, 1, 5], c)) \<and> \<not> sim_stop c \<and> sim_unscheduledEvents c = 0"
    using ends(1) demo_heap_runs(1) by (auto split: option.splits sum.splits)
  show "\<exists>c. simulate heap_ops demo_stopping 0 demo_main 8 = Some (Inr ([2, 4], c)) \<and> sim_stop c \<and> 0 \<le> sim_unscheduledEvents c"
    using ends(2) demo_heap_runs(2) by (auto split: option.splits sum.splits)
qed

text \<open>A kernel with one event in its queue, for the examples.\<close>

definition demo_event :: event where
  "demo_event = \<lparr>ev_impl = Some 0, ev_key = \<lparr>key_ts = 5, key_uid = 4, key_context = NO_CONTEXT\<rparr>\<rparr>"

definition demo_sim :: "map_scheduler sim" where
  "demo_sim = (sim_start map_ops 0)\<lparr>sim_uid := 5, sim_unscheduledEvents := 1,
     sim_events := Some [(ev_key demo_event, ev_impl demo_event)]\<rparr>"

lemma demo_sim_events: "sim_events demo_sim = Some [(ev_key demo_event, ev_impl demo_event)]"
  by (simp add: demo_sim_def)

lemma demo_map_events: "map_events [(ev_key demo_event, ev_impl demo_event)] = {#demo_event#}"
  by (simp add: map_events_def event_of_def)

lemma demo_sim_during: "5 \<le> B \<Longrightarrow> sim_during map_inv map_events (\<lambda>_. 0) D 5 B 0 0 demo_sim"
  by (simp add: sim_during_def demo_sim_def sim_start_def sim_init_def sim_ok_def events_inv_def
      core_inv_def map_events_def demo_event_def uid_VALID_def uid_INVALID_def distinct_on_add
      key_rank_def less_rank_def event_of_def word_less_nat_alt word_le_nat_alt
      event_map.sorted_map_def)

lemma demo_sim_ok: "sim_ok map_inv map_events (\<lambda>_. 0) 5 5 5 demo_sim"
  using demo_sim_during [of 5 5] by (simp add: sim_during_def)

text \<open>C10: A simulation whose handlers only change the network delivers its events in the order of
  their time stamps and, among equal time stamps, in the order in which they were scheduled, each
  exactly once and none that was cancelled, and ends at the time of the last event.\<close>

theorem run_delivers_in_order:
  assumes "sim_ok map_inv map_events (\<lambda>_. 0) D U B s" and "sim_eventsWithContext s = []"
    and "sim_events s = Some q" and "size (map_events q) \<le> k" and "U < 2 ^ 31"
  shows "\<exists>es s' q'. sim_run map_ops (\<lambda>i w. Return (f i w)) thread k w s =
      Some (Inr (deliver f (sim_cancel s) es w, s')) \<and>
    mset es = map_events q \<and> sorted_events es \<and>
    sim_events s' = Some q' \<and> map_events q' = {#} \<and>
    sim_currentTs s' = (if es = [] then sim_currentTs s else ev_ts (last es))"
  using map_kernel.run_silent [OF assms] .

theorem run_delivers_in_order_witness:
  "\<exists>es s'. sim_run map_ops (\<lambda>i w. Return (i # w)) 0 1 [] demo_sim =
      Some (Inr (deliver (\<lambda>i w. i # w) (sim_cancel demo_sim) es [], s')) \<and> mset es = {#demo_event#}"
  using run_delivers_in_order [OF demo_sim_ok _ demo_sim_events, of 1 "\<lambda>i w. i # w" 0 "[]"]
  by (simp add: demo_map_events) (auto simp: demo_sim_def sim_start_def sim_init_def)

text \<open>C28: \<open>Remove\<close> with the id of a queued event that is not cancelled takes exactly this event out of the queue, marks it
  cancelled, corrects the count of unscheduled events and changes nothing else, whatever the scheduler. With the list,
  map, priority queue and calendar scheduler the invariant of the kernel is kept. With the heap scheduler it is kept exactly
  when the last element of the heap is not earlier than the parent of the position of the event.\<close>

theorem remove_takes_one_event:
  assumes "U < 2 ^ 31"
  shows "(\<forall>q s. sim_ok sorted_events mset (\<lambda>_. 0) D U B s \<and> event_queued mset e q s \<longrightarrow>
      (\<exists>q'. sim_remove list_ops (event_id_of e) s = Inr (sim_without e q' s) \<and>
         sim_ok sorted_events mset (\<lambda>_. 0) D U B (sim_without e q' s) \<and> mset q = add_mset e (mset q'))) \<and>
    (\<forall>q s. sim_ok map_inv map_events (\<lambda>_. 0) D U B s \<and> event_queued map_events e q s \<longrightarrow>
      (\<exists>q'. sim_remove map_ops (event_id_of e) s = Inr (sim_without e q' s) \<and>
         sim_ok map_inv map_events (\<lambda>_. 0) D U B (sim_without e q' s) \<and> map_events q = add_mset e (map_events q'))) \<and>
    (\<forall>q s. sim_ok sorted_events mset (\<lambda>_. 0) D U B s \<and> event_queued mset e q s \<longrightarrow>
      (\<exists>q'. sim_remove pq_ops (event_id_of e) s = Inr (sim_without e q' s) \<and>
         sim_ok sorted_events mset (\<lambda>_. 0) D U B (sim_without e q' s) \<and> mset q = add_mset e (mset q'))) \<and>
    (\<forall>q s. sim_ok (\<lambda>c. cal_inv c \<and> cal_reverse c = r) cal_events cal_lastPrio D U B s \<and> event_queued cal_events e q s \<longrightarrow>
      (\<exists>q'. sim_remove (cal_ops r) (event_id_of e) s = Inr (sim_without e q' s) \<and>
         sim_ok (\<lambda>c. cal_inv c \<and> cal_reverse c = r) cal_events cal_lastPrio D U B (sim_without e q' s) \<and>
         cal_events q = add_mset e (cal_events q'))) \<and>
    (\<forall>q s. sim_ok heap_inv heap_events (\<lambda>_. 0) D U B s \<and> event_queued heap_events e q s \<longrightarrow>
      (\<exists>q' i. sim_remove heap_ops (event_id_of e) s = Inr (sim_without e q' s) \<and>
         heap_events q = add_mset e (heap_events q') \<and> 1 \<le> i \<and> i < length q \<and> q ! i = e \<and>
         (sim_ok heap_inv heap_events (\<lambda>_. 0) D U B (sim_without e q' s) \<longleftrightarrow>
            i = heap_root \<or> ev_rank (q ! heap_parent i) \<le> ev_rank (q ! heap_last q))))"
proof -
  have "\<exists>q' i. sim_remove heap_ops (event_id_of e) s = Inr (sim_without e q' s) \<and>
      heap_events q = add_mset e (heap_events q') \<and> 1 \<le> i \<and> i < length q \<and> q ! i = e \<and>
      (sim_ok heap_inv heap_events (\<lambda>_. 0) D U B (sim_without e q' s) \<longleftrightarrow>
         i = heap_root \<or> ev_rank (q ! heap_parent i) \<le> ev_rank (q ! heap_last q))"
    if s: "sim_ok heap_inv heap_events (\<lambda>_. 0) D U B s" "event_queued heap_events e q s" for q s
  proof -
    have q: "heap_inv q" "e \<in># heap_events q" "events_inv B (heap_events q) s" "core_inv D U B s"
      using s by (auto simp: sim_ok_def event_queued_def)
    then have "uid_unique e (heap_events q)"
      by (simp add: events_inv_def distinct_uids_unique)
    from heap_remove_iff [OF q(1,2) this] obtain i q' where
      i: "1 \<le> i" "i < length q" "q ! i = e" "heap_remove e q = Inr q'" "heap_events q = add_mset e (heap_events q')"
      "heap_inv q' \<longleftrightarrow> i = heap_root \<or> ev_rank (q ! heap_parent i) \<le> ev_rank (q ! heap_last q)"
      by blast
    have "op_remove heap_ops e q = Inr q'"
      using i(4) by (simp add: heap_ops_def)
    note r = sim_remove_queued [where ops = heap_ops, OF s(2) q(3,4) assms this i(5)]
    have "sim_ok heap_inv heap_events (\<lambda>_. 0) D U B (sim_without e q' s) \<longleftrightarrow> heap_inv q'"
      using r(2,3) by (simp add: sim_ok_def) (simp add: sim_without_def)
    then show ?thesis
      using r(1) i by blast
  qed
  then show ?thesis
    using list_kernel.remove_exact [OF _ _ assms] map_kernel.remove_exact [OF _ _ assms] pq_kernel.remove_exact [OF _ _ assms]
      cal_kernel.remove_exact [OF _ _ assms]
    by (intro conjI allI impI; (elim conjE)?) simp_all
qed

text \<open>A kernel at time 0 with the heap of seven events.\<close>

definition heap_sim :: "heap_scheduler sim" where
  "heap_sim = (sim_start heap_ops 0)\<lparr>sim_uid := 50, sim_unscheduledEvents := 7, sim_events := Some sample_heap\<rparr>"

lemma heap_sim_fields:
  "sim_events heap_sim = Some sample_heap" "sim_cancel heap_sim = (\<lambda>_. False)" "sim_unscheduledEvents heap_sim = 7"
  "sim_uid heap_sim = 50" "sim_currentTs heap_sim = 0" "sim_currentUid heap_sim = 0" "sim_eventsWithContext heap_sim = []"
  "sim_eventsWithContextEmpty heap_sim" "sim_destroyEvents heap_sim = []"
  by (simp_all add: heap_sim_def sim_start_def sim_init_def uid_INVALID_def)

lemma heap_sim_ok: "sim_ok heap_inv heap_events (\<lambda>_. 0) 5 50 50 heap_sim"
proof -
  have "events_inv 50 (heap_events sample_heap) heap_sim"
    by (simp add: events_inv_def sample_heap_ok(2) heap_sim_fields distinct_on_add sample_event_def
        uid_VALID_def uid_INVALID_def key_rank_def less_rank_def)
  moreover have "core_inv 5 50 50 heap_sim"
    by (simp add: core_inv_def heap_sim_fields uid_VALID_def uid_INVALID_def)
  ultimately show ?thesis
    using sample_heap_ok(1) by (simp add: sim_ok_def heap_sim_fields)
qed

lemma heap_sim_queued:
  "event_queued heap_events (sample_event 11 21) sample_heap heap_sim"
  "event_queued heap_events (sample_event 30 40) sample_heap heap_sim"
  by (simp_all add: event_queued_def sample_heap_ok(2) heap_sim_fields sample_event_def impl_is_cancelled_def)

text \<open>The event of the map is removed; in the heap the removal of the event at 11 breaks the invariant, that of the event at 30
  does not.\<close>

theorem remove_takes_one_event_witness:
  "(\<exists>q. sim_remove map_ops (event_id_of demo_event) demo_sim = Inr (sim_without demo_event q demo_sim) \<and> map_events q = {#}) \<and>
   (\<exists>q. sim_remove heap_ops (event_id_of (sample_event 11 21)) heap_sim = Inr (sim_without (sample_event 11 21) q heap_sim) \<and>
      \<not> sim_ok heap_inv heap_events (\<lambda>_. 0) 5 50 50 (sim_without (sample_event 11 21) q heap_sim)) \<and>
   (\<exists>q. sim_remove heap_ops (event_id_of (sample_event 30 40)) heap_sim = Inr (sim_without (sample_event 30 40) q heap_sim) \<and>
      sim_ok heap_inv heap_events (\<lambda>_. 0) 5 50 50 (sim_without (sample_event 30 40) q heap_sim))"
proof (intro conjI)
  have "event_queued map_events demo_event [(ev_key demo_event, ev_impl demo_event)] demo_sim"
    by (simp add: event_queued_def demo_sim_events demo_map_events)
      (simp add: demo_event_def demo_sim_def sim_start_def sim_init_def impl_is_cancelled_def)
  note this [THEN conjI [OF demo_sim_ok],
      THEN remove_takes_one_event [of 5 5 5 demo_event, THEN conjunct2, THEN conjunct1, rule_format, rotated]]
  then show "\<exists>q. sim_remove map_ops (event_id_of demo_event) demo_sim = Inr (sim_without demo_event q demo_sim) \<and> map_events q = {#}"
    by (auto simp: demo_map_events)
next
  note heap_defs = heap_root_def heap_parent_def heap_last_def sample_heap_def rank_le_iff
  obtain q i where q: "sim_remove heap_ops (event_id_of (sample_event 11 21)) heap_sim = Inr (sim_without (sample_event 11 21) q heap_sim)"
    "1 \<le> i" "i < length sample_heap" "sample_heap ! i = sample_event 11 21"
    "sim_ok heap_inv heap_events (\<lambda>_. 0) 5 50 50 (sim_without (sample_event 11 21) q heap_sim) \<longleftrightarrow>
       i = heap_root \<or> ev_rank (sample_heap ! heap_parent i) \<le> ev_rank (sample_heap ! heap_last sample_heap)"
    using remove_takes_one_event [of 50 5 50 "sample_event 11 21", THEN conjunct2, THEN conjunct2, THEN conjunct2, THEN conjunct2,
        rule_format, OF _ conjI [OF heap_sim_ok heap_sim_queued(1)]] by auto
  moreover have "i = 4"
    using sample_heap_position [OF q(2-4), of 4] by simp
  ultimately show "\<exists>q. sim_remove heap_ops (event_id_of (sample_event 11 21)) heap_sim = Inr (sim_without (sample_event 11 21) q heap_sim) \<and>
      \<not> sim_ok heap_inv heap_events (\<lambda>_. 0) 5 50 50 (sim_without (sample_event 11 21) q heap_sim)"
    by (intro exI [of _ q]) (simp add: heap_defs)
  obtain q i where q: "sim_remove heap_ops (event_id_of (sample_event 30 40)) heap_sim = Inr (sim_without (sample_event 30 40) q heap_sim)"
    "1 \<le> i" "i < length sample_heap" "sample_heap ! i = sample_event 30 40"
    "sim_ok heap_inv heap_events (\<lambda>_. 0) 5 50 50 (sim_without (sample_event 30 40) q heap_sim) \<longleftrightarrow>
       i = heap_root \<or> ev_rank (sample_heap ! heap_parent i) \<le> ev_rank (sample_heap ! heap_last sample_heap)"
    using remove_takes_one_event [of 50 5 50 "sample_event 30 40", THEN conjunct2, THEN conjunct2, THEN conjunct2, THEN conjunct2,
        rule_format, OF _ conjI [OF heap_sim_ok heap_sim_queued(2)]] by auto
  moreover have "i = 6"
    using sample_heap_position [OF q(2-4), of 6] by simp
  ultimately show "\<exists>q. sim_remove heap_ops (event_id_of (sample_event 30 40)) heap_sim = Inr (sim_without (sample_event 30 40) q heap_sim) \<and>
      sim_ok heap_inv heap_events (\<lambda>_. 0) 5 50 50 (sim_without (sample_event 30 40) q heap_sim)"
    by (intro exI [of _ q]) (simp add: heap_defs)
qed

text \<open>C26: \<open>SetScheduler\<close> in the middle of a simulation: moving every event from the map to a new
  calendar queue ends, and the kernel with the new scheduler is the same as before.\<close>

theorem set_scheduler_keeps_events:
  assumes "sim_ok map_inv map_events (\<lambda>_. 0) D U B s" and "B \<le> unat cal_horizon" and "U < 2 ^ 31"
  shows "\<exists>s'. sim_set_scheduler map_ops (cal_ops r) s = Some (Inr s') \<and>
    sim_ok (\<lambda>c. cal_inv c \<and> cal_reverse c = r) cal_events cal_lastPrio D U B s' \<and>
    sim_abs cal_events s' = sim_abs map_events s"
  by (rule map_to_calendar.set_scheduler_correct [OF assms])

theorem set_scheduler_keeps_events_witness:
  "\<exists>s'. sim_set_scheduler map_ops (cal_ops True) demo_sim = Some (Inr s') \<and>
    sim_abs cal_events s' = sim_abs map_events demo_sim"
  using set_scheduler_keeps_events [OF demo_sim_ok, of True] by (auto simp: cal_horizon_def)

text \<open>Seven events, of which the fourth is removed before the simulation runs.\<close>

definition remove_program :: "nat list handler" where
  "remove_program =
     call_list
       (map (\<lambda>d. (0, C_schedule d (Some (unat d)))) [1, 10, 2, 11, 12, 30, 3] @
        [(0, C_remove \<lparr>id_impl = Some 11, id_ts = 11, id_context = NO_CONTEXT, id_uid = 7\<rparr>)]) []"

text \<open>What a heap that \<open>Remove\<close> left out of order does to a simulation: this program, which schedules seven
  events and removes one, ends with the failed assertion
  \<open>next.key.m_ts >= m_currentTs\<close> of \<open>ProcessOneEvent\<close>, while the list scheduler delivers the
  remaining six events in order.\<close>

theorem heap_remove_breaks_simulation:
  "network_of (simulate heap_ops (\<lambda>i w. Return (i # w)) 0 remove_program 8) = Some (Inl Assert_failed) \<and>
   network_of (simulate list_ops (\<lambda>i w. Return (i # w)) 0 remove_program 8) =
     Some (Inr [30, 12, 10, 3, 2, 1])"
  by code_simp

text \<open>A freshly scheduled event has not expired, and the delay left is the delay it was scheduled
  with, whatever the scheduler does with it.\<close>

theorem schedule_then_not_expired:
  assumes "sim_uid s \<noteq> uid_DESTROY" and "sim_currentUid s < sim_uid s"
    and "\<not> impl_is_cancelled (sim_cancel s) i" and "sim_schedule ops t delay (Some i) s = Inr (eid, s')"
    and "unat delay + unat (sim_currentTs s) < 2 ^ 63"
  shows "\<not> sim_is_expired eid s' \<and> sim_get_delay_left eid s' = delay"
  by (rule schedule_new_id [OF assms])

theorem schedule_then_not_expired_witness:
  "\<exists>eid s'. sim_schedule map_ops 0 9 (Some 7) demo_sim = Inr (eid, s') \<and>
     \<not> sim_is_expired eid s' \<and> sim_get_delay_left eid s' = 9"
proof -
  have "refines map_events (\<lambda>_. True) (sim_schedule map_ops 0 9 (Some 7) demo_sim)
      (sim_schedule spec_ops 0 9 (Some 7) (sim_abs map_events demo_sim))"
    by (rule refines_weaken,
        rule map_kernel.schedule_refines(1) [where D = 9 and U = 5 and B = 9 and ts = 0, OF demo_sim_during])
      (simp_all add: unat_max64)
  then obtain eid s' where s': "sim_schedule map_ops 0 9 (Some 7) demo_sim = Inr (eid, s')"
    unfolding refines_def by blast
  from schedule_then_not_expired [OF _ _ _ s'] s' show ?thesis
    by (auto simp: demo_sim_def sim_start_def sim_init_def uid_DESTROY_def uid_INVALID_def
        impl_is_cancelled_def)
qed

text \<open>\<open>Destroy\<close> runs the destroy events that are not cancelled once each, in the order in which they
  were registered, and leaves none.\<close>

theorem destroy_runs_in_order:
  assumes "\<forall>d \<in> set (sim_destroyEvents s). id_impl d \<noteq> None" and "length (sim_destroyEvents s) \<le> n"
  shows "sim_destroy ops (\<lambda>i w. Return (f i w)) n w s =
    Some (Inr (run_destroyed f (sim_cancel s) (sim_destroyEvents s) w, s\<lparr>sim_destroyEvents := []\<rparr>))"
  by (rule destroy_silent [OF assms])

theorem destroy_runs_in_order_witness:
  "sim_destroy map_ops (\<lambda>i w. Return (i # w)) 1 [] (demo_sim\<lparr>sim_destroyEvents := [event_id_of demo_event]\<rparr>) =
     Some (Inr ([0], demo_sim\<lparr>sim_destroyEvents := []\<rparr>))"
  using destroy_runs_in_order [of "demo_sim\<lparr>sim_destroyEvents := [event_id_of demo_event]\<rparr>" 1 map_ops
      "\<lambda>i w. i # w" "[]"]
  by (simp add: run_destroyed_def demo_sim_def sim_start_def sim_init_def impl_is_cancelled_def
      demo_event_def)

text \<open>\<open>DoDispose\<close> first takes over the events of other threads and then empties the queue: the
  events it releases are exactly the events of the queue, and it always ends.\<close>

theorem dispose_releases_all:
  assumes "sim_during map_inv map_events (\<lambda>_. 0) D U B main ts s" and "unat ts + D \<le> B"
    and "B < 2 ^ 63" and "U < 2 ^ 31"
  shows "\<exists>es s1 q. sim_process_events_with_context map_ops s = Inr s1 \<and> sim_events s1 = Some q \<and>
    sim_do_dispose map_ops s = Some (Inr (es, s1\<lparr>sim_events := None\<rparr>)) \<and> mset es = map_events q"
proof -
  have "B \<le> unat (- 1 :: 64 word)"
    using assms(3) by (simp add: unat_max64)
  from map_kernel.dispose_correct [OF assms(1,2) this assms(3,4)] show ?thesis
    by blast
qed

theorem dispose_releases_all_witness:
  "\<exists>es s1. sim_do_dispose map_ops demo_sim = Some (Inr (es, s1\<lparr>sim_events := None\<rparr>))"
  using dispose_releases_all [of 5 5 5, OF demo_sim_during] by auto

end
